(* ===== verification/Prelude.thy ===== *)
theory Prelude
  imports Main "HOL-Library.Word"
begin

text \<open>
  Shared vocabulary of the development: the machine types of the C++ code, byte strings,
  the status values of \<^verbatim>\<open>leveldb/status.h\<close>, the theorem collections of the library and the
  facts on words and lists that several components use.
  A \<^verbatim>\<open>Slice\<close> and a \<^verbatim>\<open>std::string\<close> are both a list of bytes; a pointer into a buffer that is
  only read forwards is the suffix of the buffer that starts there.
\<close>

unbundle bit_operations_syntax

type_synonym u8 = "8 word"
type_synonym u32 = "32 word"
type_synonym u64 = "64 word"
type_synonym bytes = "8 word list"

named_theorems codec_simps \<open>length and round-trip facts of the encodings\<close>
named_theorems order_facts \<open>facts about the comparators\<close>

definition bytes_of :: "string \<Rightarrow> bytes" where
  "bytes_of s = map of_char s"

text \<open>The decimal numeral that the \<^verbatim>\<open>%u\<close> and \<^verbatim>\<open>%llu\<close> conversions of \<^verbatim>\<open>snprintf\<close> print.\<close>

fun decimal :: "nat \<Rightarrow> bytes" where
  "decimal n = (if n < 10 then [48 + word_of_nat n]
                else decimal (n div 10) @ [48 + word_of_nat (n mod 10)])"

declare decimal.simps [simp del]

section \<open>Status values\<close>

datatype status =
    OK
  | NotFound bytes
  | Corruption bytes
  | NotSupported bytes
  | InvalidArgument bytes
  | IOError bytes

text \<open>The message of a status built from two slices.\<close>

definition status_msg :: "bytes \<Rightarrow> bytes \<Rightarrow> bytes" where
  "status_msg msg msg2 = (if msg2 \<noteq> [] then msg @ bytes_of '': '' @ msg2 else msg)"

definition ok :: "status \<Rightarrow> bool" where
  "ok s = (s = OK)"

definition IsNotFound :: "status \<Rightarrow> bool" where
  "IsNotFound s = (case s of NotFound _ \<Rightarrow> True | _ \<Rightarrow> False)"

definition IsCorruption :: "status \<Rightarrow> bool" where
  "IsCorruption s = (case s of Corruption _ \<Rightarrow> True | _ \<Rightarrow> False)"

lemma ok_simps [simp]:
  "ok OK" "\<not> ok (NotFound m)" "\<not> ok (Corruption m)" "\<not> ok (NotSupported m)"
  "\<not> ok (InvalidArgument m)" "\<not> ok (IOError m)"
  by (simp_all add: ok_def)

lemma IsNotFound_simps [simp]:
  "IsNotFound (NotFound m)" "\<not> IsNotFound OK" "\<not> IsNotFound (Corruption m)"
  by (simp_all add: IsNotFound_def)

lemma IsCorruption_simps [simp]:
  "IsCorruption (Corruption m)" "\<not> IsCorruption OK" "\<not> IsCorruption (NotFound m)"
  by (simp_all add: IsCorruption_def)

section \<open>Words\<close>

lemma unat_drop_bit: "unat (drop_bit n (w :: 'a :: len word)) = drop_bit n (unat w)"
  by (simp add: unat_drop_bit_eq)

lemma unat_drop_bit_div: "unat (drop_bit n (w :: 'a :: len word)) = unat w div 2 ^ n"
  unfolding unat_drop_bit by (simp only: drop_bit_eq_div)

lemma unat_less_exp: "unat (w :: 'a :: len word) < 2 ^ LENGTH('a)"
  by (rule unsigned_less)

lemma drop_bit_less_self:
  fixes w :: "'a :: len word"
  assumes "w \<noteq> 0" and "0 < n"
  shows "drop_bit n w < w"
proof -
  have "(1 :: nat) < 2 ^ n"
    using assms(2) by (intro one_less_power) auto
  then have "unat w div 2 ^ n < unat w"
    using assms(1) by (intro div_less_dividend) (auto simp: unat_gt_0)
  then show ?thesis
    by (simp only: word_less_nat_alt unat_drop_bit_div)
qed

lemma unat_word_of_nat_less [simp]:
  "n < 2 ^ LENGTH('a :: len) \<Longrightarrow> unat (word_of_nat n :: 'a word) = n"
  by (simp add: unat_of_nat take_bit_nat_eq_self)

lemma word_of_nat_inj_on:
  assumes "n < 2 ^ LENGTH('a :: len)" and "m < 2 ^ LENGTH('a)"
    and "(word_of_nat n :: 'a word) = word_of_nat m"
  shows "n = m"
  using assms by (metis unat_word_of_nat_less)

text \<open>Reassembling a word from its bytes, least significant byte first.\<close>

lemma byte_ucast_take:
  "8 \<le> LENGTH('a :: len) \<Longrightarrow> (ucast (ucast (v :: 'a word) :: u8) :: 'a word) = take_bit 8 v"
  by (rule bit_word_eqI) (auto simp: bit_simps)

lemma byte_or_take:
  "n + 8 \<le> LENGTH('a :: len) \<Longrightarrow>
   take_bit n v OR push_bit n (ucast (ucast (drop_bit n (v :: 'a word)) :: u8)) = take_bit (n + 8) v"
  by (rule bit_word_eqI) (auto simp: bit_simps)

lemma take_bit_word_full [simp]: "take_bit LENGTH('a :: len) (v :: 'a word) = v"
  by (rule bit_word_eqI) (auto simp: bit_simps)

lemma word_xor_right_cancel [simp]: "(a XOR c = b XOR c) = (a = (b :: 'a :: len word))"
proof
  assume "a XOR c = b XOR c"
  then have "(a XOR c) XOR c = (b XOR c) XOR c" by simp
  then show "a = b" by (simp add: xor.assoc)
qed simp

lemma word_xor_left_cancel [simp]: "(c XOR a = c XOR b) = (a = (b :: 'a :: len word))"
  using word_xor_right_cancel [of a c b] by (simp add: xor.commute)

lemma bit_u8_less: "bit (b :: u8) n \<Longrightarrow> n < 8"
  by (auto dest: bit_imp_le_length)

lemma ucast_u8_inj: "8 \<le> LENGTH('a :: len) \<Longrightarrow> (ucast (b :: u8) :: 'a word) = ucast b' \<Longrightarrow> b = b'"
proof (rule bit_word_eqI)
  fix n
  assume l: "8 \<le> LENGTH('a)" and eq: "(ucast b :: 'a word) = ucast b'" and n: "n < LENGTH(8)"
  from eq have "bit (ucast b :: 'a word) n = bit (ucast b' :: 'a word) n" by simp
  with l n show "bit b n = bit b' n" by (simp add: bit_simps)
qed

section \<open>Lists\<close>

lemma take_append_length [simp]: "take (length xs) (xs @ ys) = xs"
  by simp

lemma append_eq_same_length:
  "xs @ ys = xs' @ ys' \<Longrightarrow> length xs = length xs' \<Longrightarrow> xs = xs' \<and> ys = ys'"
  by simp

lemma nth_append_drop: "i < length xs \<Longrightarrow> (xs @ ys) ! i = xs ! i"
  by (simp add: nth_append)

end
