(* ===== verification/Coding.thy ===== *)
theory Coding
  imports Prelude
begin

text \<open>
  Model of \<^verbatim>\<open>util/coding.h\<close> and \<^verbatim>\<open>util/coding.cc\<close>: little-endian fixed-width integers,
  variable-length integers and length-prefixed strings, with the bounds checks of the
  readers. A reader that takes the pair \<^verbatim>\<open>(p, limit)\<close> takes the bytes in between and returns
  the value with the bytes left over, or \<open>None\<close> where the code returns \<^verbatim>\<open>nullptr\<close> or \<^verbatim>\<open>false\<close>.
\<close>

section \<open>Fixed-width integers\<close>

definition EncodeFixed32 :: "u32 \<Rightarrow> bytes" where
  "EncodeFixed32 value =
     [ucast value, ucast (drop_bit 8 value), ucast (drop_bit 16 value), ucast (drop_bit 24 value)]"

definition EncodeFixed64 :: "u64 \<Rightarrow> bytes" where
  "EncodeFixed64 value =
     [ucast value, ucast (drop_bit 8 value), ucast (drop_bit 16 value), ucast (drop_bit 24 value),
      ucast (drop_bit 32 value), ucast (drop_bit 40 value), ucast (drop_bit 48 value),
      ucast (drop_bit 56 value)]"

definition DecodeFixed32 :: "bytes \<Rightarrow> u32" where
  "DecodeFixed32 buffer =
     ucast (buffer ! 0) OR push_bit 8 (ucast (buffer ! 1)) OR
     push_bit 16 (ucast (buffer ! 2)) OR push_bit 24 (ucast (buffer ! 3))"

definition DecodeFixed64 :: "bytes \<Rightarrow> u64" where
  "DecodeFixed64 buffer =
     ucast (buffer ! 0) OR push_bit 8 (ucast (buffer ! 1)) OR
     push_bit 16 (ucast (buffer ! 2)) OR push_bit 24 (ucast (buffer ! 3)) OR
     push_bit 32 (ucast (buffer ! 4)) OR push_bit 40 (ucast (buffer ! 5)) OR
     push_bit 48 (ucast (buffer ! 6)) OR push_bit 56 (ucast (buffer ! 7))"

definition PutFixed32 :: "bytes \<Rightarrow> u32 \<Rightarrow> bytes" where
  "PutFixed32 dst value = dst @ EncodeFixed32 value"

definition PutFixed64 :: "bytes \<Rightarrow> u64 \<Rightarrow> bytes" where
  "PutFixed64 dst value = dst @ EncodeFixed64 value"

section \<open>Variable-length integers: writers\<close>

definition EncodeVarint32 :: "u32 \<Rightarrow> bytes" where
  "EncodeVarint32 v =
     (let B = 128 :: u32 in
      if v < push_bit 7 1 then
        [ucast v]
      else if v < push_bit 14 1 then
        [ucast (v OR B), ucast (drop_bit 7 v)]
      else if v < push_bit 21 1 then
        [ucast (v OR B), ucast (drop_bit 7 v OR B), ucast (drop_bit 14 v)]
      else if v < push_bit 28 1 then
        [ucast (v OR B), ucast (drop_bit 7 v OR B), ucast (drop_bit 14 v OR B),
         ucast (drop_bit 21 v)]
      else
        [ucast (v OR B), ucast (drop_bit 7 v OR B), ucast (drop_bit 14 v OR B),
         ucast (drop_bit 21 v OR B), ucast (drop_bit 28 v)])"

definition PutVarint32 :: "bytes \<Rightarrow> u32 \<Rightarrow> bytes" where
  "PutVarint32 dst v = dst @ EncodeVarint32 v"

function EncodeVarint64 :: "u64 \<Rightarrow> bytes" where
  "EncodeVarint64 v =
     (if v \<ge> 128 then ucast (v OR 128) # EncodeVarint64 (drop_bit 7 v) else [ucast v])"
  by pat_completeness auto
termination
  by (relation "measure unat") (auto simp flip: word_less_nat_alt intro!: drop_bit_less_self)

declare EncodeVarint64.simps [simp del]

definition PutVarint64 :: "bytes \<Rightarrow> u64 \<Rightarrow> bytes" where
  "PutVarint64 dst v = dst @ EncodeVarint64 v"

definition PutLengthPrefixedSlice :: "bytes \<Rightarrow> bytes \<Rightarrow> bytes" where
  "PutLengthPrefixedSlice dst value = PutVarint32 dst (word_of_nat (length value)) @ value"

function VarintLength :: "u64 \<Rightarrow> nat" where
  "VarintLength v = (if v \<ge> 128 then Suc (VarintLength (drop_bit 7 v)) else 1)"
  by pat_completeness auto
termination
  by (relation "measure unat") (auto simp flip: word_less_nat_alt intro!: drop_bit_less_self)

declare VarintLength.simps [simp del]

section \<open>Variable-length integers: readers\<close>

fun GetVarint32PtrFallback :: "nat \<Rightarrow> u32 \<Rightarrow> bytes \<Rightarrow> (u32 \<times> bytes) option" where
  "GetVarint32PtrFallback shift result [] = None"
| "GetVarint32PtrFallback shift result (b # p) =
     (if shift \<le> 28 then
        (let byte = ucast b :: u32 in
         if byte AND 128 \<noteq> 0 then
           GetVarint32PtrFallback (shift + 7) (result OR push_bit shift (byte AND 127)) p
         else Some (result OR push_bit shift byte, p))
      else None)"

definition GetVarint32Ptr :: "bytes \<Rightarrow> (u32 \<times> bytes) option" where
  "GetVarint32Ptr p =
     (if p \<noteq> [] \<and> (ucast (hd p) :: u32) AND 128 = 0 then Some (ucast (hd p), tl p)
      else GetVarint32PtrFallback 0 0 p)"

definition GetVarint32 :: "bytes \<Rightarrow> (u32 \<times> bytes) option" where
  "GetVarint32 input = GetVarint32Ptr input"

fun GetVarint64Ptr_loop :: "nat \<Rightarrow> u64 \<Rightarrow> bytes \<Rightarrow> (u64 \<times> bytes) option" where
  "GetVarint64Ptr_loop shift result [] = None"
| "GetVarint64Ptr_loop shift result (b # p) =
     (if shift \<le> 63 then
        (let byte = ucast b :: u64 in
         if byte AND 128 \<noteq> 0 then
           GetVarint64Ptr_loop (shift + 7) (result OR push_bit shift (byte AND 127)) p
         else Some (result OR push_bit shift byte, p))
      else None)"

definition GetVarint64Ptr :: "bytes \<Rightarrow> (u64 \<times> bytes) option" where
  "GetVarint64Ptr p = GetVarint64Ptr_loop 0 0 p"

definition GetVarint64 :: "bytes \<Rightarrow> (u64 \<times> bytes) option" where
  "GetVarint64 input = GetVarint64Ptr input"

definition GetLengthPrefixedSlice :: "bytes \<Rightarrow> (bytes \<times> bytes) option" where
  "GetLengthPrefixedSlice input =
     (case GetVarint32 input of
        None \<Rightarrow> None
      | Some (len, input') \<Rightarrow>
          if length input' \<ge> unat len
          then Some (take (unat len) input', drop (unat len) input')
          else None)"

definition GetLengthPrefixedSlicePtr :: "bytes \<Rightarrow> (bytes \<times> bytes) option" where
  "GetLengthPrefixedSlicePtr p =
     (case GetVarint32Ptr p of
        None \<Rightarrow> None
      | Some (len, p') \<Rightarrow>
          if unat len > length p' then None
          else Some (take (unat len) p', drop (unat len) p'))"

section \<open>Round trips\<close>

text \<open>
  The interface every encoding of this file offers: what is written is read back, whatever
  follows it, and a successful read consumes at least one byte of its input.
\<close>

locale codec =
  fixes enc :: "'a \<Rightarrow> bytes"
    and dec :: "bytes \<Rightarrow> ('a \<times> bytes) option"
    and valid :: "'a \<Rightarrow> bool"
  assumes dec_enc: "valid x \<Longrightarrow> dec (enc x @ rest) = Some (x, rest)"
    and dec_suffix: "dec s = Some (x, rest) \<Longrightarrow> \<exists>used. used \<noteq> [] \<and> s = used @ rest"
    and dec_append: "dec s = Some (x, rest) \<Longrightarrow> dec (s @ t) = Some (x, rest @ t)"
begin

lemma dec_shorter: "dec s = Some (x, rest) \<Longrightarrow> length rest < length s"
  by (auto dest: dec_suffix)

lemma dec_enc_Nil: "valid x \<Longrightarrow> dec (enc x) = Some (x, [])"
  using dec_enc [of x "[]"] by simp

lemma enc_nonempty: "valid x \<Longrightarrow> enc x \<noteq> []"
  using dec_enc_Nil dec_suffix by fastforce

lemma enc_prefix_free:
  assumes "valid x" and "valid y" and "enc x @ r = enc y @ r'"
  shows "x = y \<and> r = r'"
  using assms dec_enc by (metis option.inject prod.inject)

lemma dec_truncated:
  assumes "valid x" and "enc x = p @ q" and "q \<noteq> []"
  shows "dec p = None"
proof (rule ccontr)
  assume "dec p \<noteq> None"
  then obtain y rest where "dec p = Some (y, rest)" by (cases "dec p") auto
  then have "dec (enc x) = Some (y, rest @ q)"
    using dec_append assms(2) by simp
  then show False using dec_enc_Nil [OF assms(1)] assms(3) by simp
qed

end

lemma length_EncodeFixed [codec_simps, simp]:
  "length (EncodeFixed32 v) = 4" "length (EncodeFixed64 w) = 8"
  by (simp_all add: EncodeFixed32_def EncodeFixed64_def)

lemma DecodeFixed32_EncodeFixed32 [codec_simps, simp]:
  "DecodeFixed32 (EncodeFixed32 v @ rest) = v"
  using byte_ucast_take [of v] byte_or_take [of 8 v] byte_or_take [of 16 v] byte_or_take [of 24 v]
    take_bit_word_full [of v]
  by (simp add: DecodeFixed32_def EncodeFixed32_def flip: or.assoc)

lemma DecodeFixed64_EncodeFixed64 [codec_simps, simp]:
  "DecodeFixed64 (EncodeFixed64 v @ rest) = v"
  using byte_ucast_take [of v] byte_or_take [of 8 v] byte_or_take [of 16 v] byte_or_take [of 24 v]
    byte_or_take [of 32 v] byte_or_take [of 40 v] byte_or_take [of 48 v] byte_or_take [of 56 v]
    take_bit_word_full [of v]
  by (simp add: DecodeFixed64_def EncodeFixed64_def flip: or.assoc)

text \<open>One byte of a varint: its continuation bit and its seven payload bits.\<close>

lemma mask7: "(127 :: 'a :: len word) = mask 7"
  by (simp add: mask_eq_exp_minus_1)

lemma exp7: "(128 :: 'a :: len word) = push_bit 7 1"
  by simp

lemma varint_more:
  assumes "8 \<le> LENGTH('a :: len)"
  shows "(ucast (ucast ((v :: 'a word) OR 128) :: u8) :: 'a word) AND 128 \<noteq> 0"
proof -
  have "bit ((ucast (ucast (v OR 128) :: u8) :: 'a word) AND 128) 7"
    using assms by (auto simp: exp7 bit_simps simp del: push_bit_of_1)
  then show ?thesis by auto
qed

lemma varint_payload:
  assumes "8 \<le> LENGTH('a :: len)"
  shows "(ucast (ucast ((v :: 'a word) OR 128) :: u8) :: 'a word) AND 127 = take_bit 7 v"
  using assms unfolding mask7 exp7
  by (intro bit_word_eqI) (auto simp: bit_simps simp del: push_bit_of_1)

lemma varint_last_byte:
  assumes "8 \<le> LENGTH('a :: len)" and "(v :: 'a word) < 128"
  shows "(ucast (ucast v :: u8) :: 'a word) = v" and "(ucast (ucast v :: u8) :: 'a word) AND 128 = 0"
proof -
  have "2 ^ 7 < (2 :: nat) ^ LENGTH('a)"
    using assms(1) by (intro power_strict_increasing) auto
  then have u: "unat v < 2 ^ 7"
    using assms(2) by (simp add: word_less_nat_alt unat_numeral take_bit_nat_eq_self)
  then have t: "take_bit 7 v = v"
    by (simp add: word_eq_iff_unsigned [where ?'a = nat] unsigned_take_bit_eq take_bit_nat_eq_self)
  then have b: "\<not> bit v n" if "7 \<le> n" for n
    using that by (metis bit_take_bit_iff not_le)
  show "(ucast (ucast v :: u8) :: 'a word) = v"
    using byte_ucast_take [OF assms(1), of v] take_bit_take_bit [of 8 7 v] t by simp
  then show "(ucast (ucast v :: u8) :: 'a word) AND 128 = 0"
    using b unfolding exp7 by (intro bit_word_eqI) (auto simp: bit_simps simp del: push_bit_of_1)
qed

lemma bytes_of_varint_take_drop:
  "r OR push_bit s (take_bit 7 v) OR push_bit (s + 7) (drop_bit 7 v) = r OR push_bit s (v :: 'a :: len word)"
proof (rule bit_word_eqI)
  fix n
  have "n - s < 7 \<or> 7 + (n - (s + 7)) = n - s" by arith
  then show "bit (r OR push_bit s (take_bit 7 v) OR push_bit (s + 7) (drop_bit 7 v)) n
      = bit (r OR push_bit s v) n"
    by (auto simp: bit_simps)
qed

lemma varint_step:
  assumes "128 \<le> (v :: 'a :: len word)" and "unat v < 2 ^ (k - s)" and "8 \<le> LENGTH('a)"
  shows "s + 7 < k" and "unat (drop_bit 7 v) < 2 ^ (k - (s + 7))"
proof -
  have "2 ^ 7 < (2 :: nat) ^ LENGTH('a)"
    using assms(3) by (intro power_strict_increasing) auto
  then have "2 ^ 7 \<le> unat v"
    using assms(1) by (simp add: word_le_nat_alt unat_numeral take_bit_nat_eq_self)
  then have "(2 :: nat) ^ 7 < 2 ^ (k - s)"
    using assms(2) by linarith
  then have 7: "7 < k - s"
    by (simp only: power_strict_increasing_iff)
  then show "s + 7 < k" by simp
  have "k - s = 7 + (k - (s + 7))" using 7 by simp
  then have "unat v < 2 ^ 7 * 2 ^ (k - (s + 7))"
    using assms(2) by (metis power_add)
  then show "unat (drop_bit 7 v) < 2 ^ (k - (s + 7))"
    by (simp only: unat_drop_bit_div less_mult_imp_div_less mult.commute)
qed

lemma GetVarint64Ptr_loop_enc:
  "s < 64 \<Longrightarrow> unat v < 2 ^ (64 - s) \<Longrightarrow>
   GetVarint64Ptr_loop s r (EncodeVarint64 v @ rest) = Some (r OR push_bit s v, rest)"
proof (induction v arbitrary: s r rule: EncodeVarint64.induct)
  case (1 v)
  show ?case
  proof (cases "v \<ge> 128")
    case True
    note st = varint_step [OF True "1.prems"(2)]
    have "GetVarint64Ptr_loop (s + 7) (r OR push_bit s (take_bit 7 v))
            (EncodeVarint64 (drop_bit 7 v) @ rest)
          = Some (r OR push_bit s v, rest)"
      using "1.IH" [OF True, of "s + 7"] st by (simp add: bytes_of_varint_take_drop or.assoc)
    then show ?thesis
      using True "1.prems" varint_more [of v] varint_payload [of v]
      by (simp add: EncodeVarint64.simps [of v] Let_def)
  next
    case False
    then show ?thesis
      using "1.prems" varint_last_byte [of v]
      by (simp add: EncodeVarint64.simps [of v] Let_def)
  qed
qed

lemma GetVarint64_EncodeVarint64: "GetVarint64 (EncodeVarint64 v @ rest) = Some (v, rest)"
  using GetVarint64Ptr_loop_enc [of 0 v 0 rest] unat_less_exp [of v]
  by (simp add: GetVarint64_def GetVarint64Ptr_def)

lemma GetVarint64Ptr_loop_suffix:
  "GetVarint64Ptr_loop s r p = Some (x, rest) \<Longrightarrow> \<exists>used. used \<noteq> [] \<and> p = used @ rest"
proof (induction s r p rule: GetVarint64Ptr_loop.induct)
  case (2 shift result b p)
  then show ?case
    by (auto simp: Let_def split: if_splits intro: exI [of _ "b # _"])
qed simp

lemma GetVarint64Ptr_loop_append:
  "GetVarint64Ptr_loop s r p = Some (x, rest) \<Longrightarrow> GetVarint64Ptr_loop s r (p @ t) = Some (x, rest @ t)"
  by (induction s r p rule: GetVarint64Ptr_loop.induct) (auto simp: Let_def split: if_splits)

interpretation vi64: codec EncodeVarint64 GetVarint64 "\<lambda>_. True"
  by unfold_locales
    (simp add: GetVarint64_EncodeVarint64,
      simp_all only: GetVarint64_def GetVarint64Ptr_def GetVarint64Ptr_loop_suffix
        GetVarint64Ptr_loop_append)

text \<open>
  The unrolled 32-bit writer produces the bytes of the 64-bit loop, so that the facts about
  the loop carry over to it.
\<close>

lemma varint32_threshold:
  "k + 7 < 32 \<Longrightarrow> (128 \<le> drop_bit k (ucast (v :: u32) :: u64)) = (\<not> v < push_bit (k + 7) 1)"
proof -
  assume k: "k + 7 < 32"
  then have "(2 :: nat) ^ (k + 7) < 2 ^ 32"
    by (intro power_strict_increasing) auto
  moreover have "(push_bit (k + 7) 1 :: u32) = word_of_nat (2 ^ (k + 7))"
    by (simp add: push_bit_eq_mult)
  ultimately have "unat (push_bit (k + 7) 1 :: u32) = 2 ^ (k + 7)"
    by (subst \<open>push_bit (k + 7) 1 = _\<close>) (rule unat_word_of_nat_less, simp)
  then show ?thesis
    by (simp add: word_le_nat_alt word_less_nat_alt unat_drop_bit_div unsigned_ucast_eq
        take_bit_nat_eq_self less_eq_div_iff_mult_less_eq power_add not_less mult.commute
        order_less_le_trans [OF unat_less_exp] del: push_bit_of_1)
qed

lemma varint32_top: "\<not> 128 \<le> drop_bit 28 (ucast (v :: u32) :: u64)"
  using unat_less_exp [of v]
  by (simp add: word_le_nat_alt unat_drop_bit_div unsigned_ucast_eq take_bit_nat_eq_self)

lemma varint32_bytes:
  "(ucast (drop_bit k (ucast (v :: u32) :: u64) OR 128) :: u8) = ucast (drop_bit k v OR 128)"
  "(ucast (drop_bit k (ucast (v :: u32) :: u64)) :: u8) = ucast (drop_bit k v)"
  by (rule bit_word_eqI, auto simp: bit_simps dest: bit_imp_le_length)+

lemma EncodeVarint32_eq_EncodeVarint64: "EncodeVarint32 v = EncodeVarint64 (ucast v)"
proof -
  let ?w = "ucast v :: u64"
  have step: "EncodeVarint64 (drop_bit k ?w) =
      (if \<not> v < push_bit (k + 7) 1
       then ucast (drop_bit k v OR 128) # EncodeVarint64 (drop_bit (k + 7) ?w)
       else [ucast (drop_bit k v)])" if "k + 7 < 32" for k
    using that
    by (subst EncodeVarint64.simps)
      (simp add: varint32_threshold varint32_bytes add.commute [of 7] del: push_bit_of_1)
  have last: "EncodeVarint64 (drop_bit 28 ?w) = [ucast (drop_bit 28 v)]"
    by (subst EncodeVarint64.simps) (simp add: varint32_top varint32_bytes)
  show ?thesis
    using step [of 0] step [of 7] step [of 14] step [of 21] last
    by (simp add: EncodeVarint32_def Let_def del: push_bit_of_1)
qed

lemma VarintLength_eq: "VarintLength v = length (EncodeVarint64 v)"
  by (induction v rule: VarintLength.induct)
    (simp add: VarintLength.simps EncodeVarint64.simps)

lemma length_EncodeVarint64_bound:
  "unat v < 2 ^ (7 * n) \<Longrightarrow> 0 < n \<Longrightarrow> length (EncodeVarint64 v) \<le> n"
proof (induction v arbitrary: n rule: EncodeVarint64.induct)
  case (1 v)
  show ?case
  proof (cases "v \<ge> 128")
    case True
    note st = varint_step [OF True, of "7 * n" 0]
    from st "1.prems" have "0 < n - 1" and "unat (drop_bit 7 v) < 2 ^ (7 * (n - 1))"
      by (simp_all add: right_diff_distrib')
    with "1.IH" [OF True, of "n - 1"] show ?thesis
      using True by (simp add: EncodeVarint64.simps [of v])
  next
    case False
    then show ?thesis using "1.prems" by (simp add: EncodeVarint64.simps [of v])
  qed
qed

lemma GetVarint32PtrFallback_enc:
  "s < 32 \<Longrightarrow> 7 dvd s \<Longrightarrow> unat v < 2 ^ (32 - s) \<Longrightarrow>
   GetVarint32PtrFallback s r (EncodeVarint64 (ucast v) @ rest) = Some (r OR push_bit s v, rest)"
proof (induction "unat v" arbitrary: v s r rule: less_induct)
  case less
  have s28: "s \<le> 28" using less.prems(1,2) by presburger
  have ge: "(128 \<le> (ucast v :: u64)) = (128 \<le> v)"
    by (simp add: word_le_nat_alt unsigned_ucast_eq take_bit_nat_eq_self
        order_less_le_trans [OF unat_less_exp])
  have by0: "(ucast ((ucast v :: u64) OR 128) :: u8) = ucast (v OR 128)"
    "(ucast (ucast v :: u64) :: u8) = ucast v"
    using varint32_bytes [of 0 v] by simp_all
  have dr: "drop_bit 7 (ucast v :: u64) = ucast (drop_bit 7 v)"
    by (rule bit_word_eqI) (auto simp: bit_simps dest: bit_imp_le_length)
  show ?case
  proof (cases "v \<ge> 128")
    case True
    note st = varint_step [OF True less.prems(3)]
    have "v \<noteq> 0" using True by auto
    then have "unat (drop_bit 7 v) < unat v"
      using drop_bit_less_self [of v 7] by (simp add: word_less_nat_alt)
    then have "GetVarint32PtrFallback (s + 7) (r OR push_bit s (take_bit 7 v))
            (EncodeVarint64 (ucast (drop_bit 7 v)) @ rest)
          = Some (r OR push_bit s v, rest)"
      using less.hyps [of "drop_bit 7 v" "s + 7"] st less.prems
      by (simp add: bytes_of_varint_take_drop or.assoc)
    then show ?thesis
      using True s28 varint_more [of v] varint_payload [of v]
      by (simp add: EncodeVarint64.simps [of "ucast v"] Let_def ge by0 dr)
  next
    case False
    then show ?thesis
      using s28 varint_last_byte [of v]
      by (simp add: EncodeVarint64.simps [of "ucast v"] Let_def ge by0)
  qed
qed

lemma GetVarint32Ptr_fast_path: "GetVarint32Ptr p = GetVarint32PtrFallback 0 0 p"
  by (cases p) (auto simp: GetVarint32Ptr_def Let_def)

lemma GetVarint32_EncodeVarint32: "GetVarint32 (EncodeVarint32 v @ rest) = Some (v, rest)"
  using GetVarint32PtrFallback_enc [of 0 v 0 rest] unat_less_exp [of v]
  by (simp add: GetVarint32_def GetVarint32Ptr_fast_path EncodeVarint32_eq_EncodeVarint64)

lemma GetVarint32PtrFallback_suffix:
  "GetVarint32PtrFallback s r p = Some (x, rest) \<Longrightarrow> \<exists>used. used \<noteq> [] \<and> p = used @ rest"
proof (induction s r p rule: GetVarint32PtrFallback.induct)
  case (2 shift result b p)
  then show ?case
    by (auto simp: Let_def split: if_splits intro: exI [of _ "b # _"])
qed simp

lemma GetVarint32PtrFallback_append:
  "GetVarint32PtrFallback s r p = Some (x, rest) \<Longrightarrow>
   GetVarint32PtrFallback s r (p @ t) = Some (x, rest @ t)"
  by (induction s r p rule: GetVarint32PtrFallback.induct) (auto simp: Let_def split: if_splits)

interpretation vi32: codec EncodeVarint32 GetVarint32 "\<lambda>_. True"
  by unfold_locales
    (simp add: GetVarint32_EncodeVarint32,
      simp_all only: GetVarint32_def GetVarint32Ptr_fast_path GetVarint32PtrFallback_suffix
        GetVarint32PtrFallback_append)

interpretation lps: codec "PutLengthPrefixedSlice []" GetLengthPrefixedSlice "\<lambda>s. length s < 2 ^ 32"
proof unfold_locales
  show "GetLengthPrefixedSlice (PutLengthPrefixedSlice [] x @ rest) = Some (x, rest)"
    if "length x < 2 ^ 32" for x rest
    using that by (simp add: GetLengthPrefixedSlice_def PutLengthPrefixedSlice_def PutVarint32_def
        GetVarint32_EncodeVarint32)
  show "\<exists>used. used \<noteq> [] \<and> s = used @ rest"
    if "GetLengthPrefixedSlice s = Some (x, rest)" for s x rest
  proof -
    from that obtain len input' where g: "GetVarint32 s = Some (len, input')"
      and r: "rest = drop (unat len) input'"
      by (auto simp: GetLengthPrefixedSlice_def split: option.splits if_splits)
    from vi32.dec_suffix [OF g] obtain used where "used \<noteq> []" "s = used @ input'" by blast
    then have "used @ take (unat len) input' \<noteq> [] \<and> s = (used @ take (unat len) input') @ rest"
      by (simp add: r)
    then show ?thesis by blast
  qed
  show "GetLengthPrefixedSlice (s @ t) = Some (x, rest @ t)"
    if "GetLengthPrefixedSlice s = Some (x, rest)" for s x rest t
    using that vi32.dec_append [of s _ _ t]
    by (auto simp: GetLengthPrefixedSlice_def split: option.splits if_splits)
qed

lemma PutLengthPrefixedSlice_append:
  "PutLengthPrefixedSlice dst v = dst @ PutLengthPrefixedSlice [] v"
  by (simp add: PutLengthPrefixedSlice_def PutVarint32_def)

lemma GetLengthPrefixedSlicePtr_eq: "GetLengthPrefixedSlicePtr p = GetLengthPrefixedSlice p"
  by (auto simp: GetLengthPrefixedSlicePtr_def GetLengthPrefixedSlice_def GetVarint32_def
      split: option.splits)

section \<open>Properties\<close>

text \<open>
  C26: Both variable-length codecs read back every value they write, whatever follows it, the
  unrolled 32-bit writer emits the bytes of the 64-bit loop, \<^verbatim>\<open>VarintLength\<close> counts the bytes,
  and they fit the buffers of 10 and 5 bytes the callers reserve.
\<close>

theorem varint_round_trip:
  "GetVarint32 (EncodeVarint32 v @ r) = Some (v, r) \<and>
   GetVarint64 (EncodeVarint64 w @ r) = Some (w, r) \<and>
   EncodeVarint32 v = EncodeVarint64 (ucast v) \<and>
   VarintLength w = length (EncodeVarint64 w) \<and>
   length (EncodeVarint64 w) \<le> 10 \<and> length (EncodeVarint32 v) \<le> 5"
proof -
  have "unat w < 2 ^ (7 * 10)"
    by (rule order_less_le_trans [OF unat_less_exp]) simp
  moreover have "unat (ucast v :: u64) < 2 ^ (7 * 5)"
    by (rule order_less_le_trans [of _ "2 ^ 32"])
      (simp_all add: unsigned_ucast_eq take_bit_nat_eq_self order_less_le_trans [OF unat_less_exp])
  ultimately show ?thesis
    using vi32.dec_enc vi64.dec_enc length_EncodeVarint64_bound [of w 10]
      length_EncodeVarint64_bound [of "ucast v" 5]
    by (simp add: EncodeVarint32_eq_EncodeVarint64 VarintLength_eq)
qed

text \<open>
  C27: A length-prefixed slice is read back whatever follows it, and no proper prefix of its
  encoding is accepted: a truncated record is always an error and never a shorter slice.
\<close>

theorem length_prefixed_slice_truncation:
  assumes "length s < 2 ^ 32"
  shows "PutLengthPrefixedSlice dst s = dst @ PutLengthPrefixedSlice [] s \<and>
         GetLengthPrefixedSlice (PutLengthPrefixedSlice [] s @ r) = Some (s, r) \<and>
         GetLengthPrefixedSlice (take k (PutLengthPrefixedSlice [] s)) =
           (if k < length (PutLengthPrefixedSlice [] s) then None else Some (s, []))"
  using lps.dec_enc [OF assms] lps.dec_enc_Nil [OF assms]
    lps.dec_truncated [OF assms append_take_drop_id [symmetric]]
  by (simp add: PutLengthPrefixedSlice_append [of dst])

theorem length_prefixed_slice_truncation_witness:
  "GetLengthPrefixedSlice (PutLengthPrefixedSlice [] [1, 2] @ [3]) = Some ([1, 2], [3]) \<and>
   GetLengthPrefixedSlice (take 2 (PutLengthPrefixedSlice [] [1, 2])) = None"
  using length_prefixed_slice_truncation [of "[1, 2]" "[]" "[3]" 2]
  by (simp add: PutLengthPrefixedSlice_def PutVarint32_def EncodeVarint32_def)

end
