(* ===== verification/Env.thy ===== *)
theory Env
  imports Prelude
begin

text \<open>
  The file interfaces of \<^verbatim>\<open>leveldb/env.h\<close> that the rest of the program writes to and reads
  from, and their POSIX implementations in \<^verbatim>\<open>util/env_posix.cc\<close>. The kernel is not part of the
  program: its answers to \<^verbatim>\<open>write\<close>, \<^verbatim>\<open>read\<close>, \<^verbatim>\<open>fsync\<close> and \<^verbatim>\<open>lseek\<close> are a list carried in the
  descriptor, arbitrary in every theorem; a call that finds the list exhausted succeeds.
\<close>

section \<open>System calls\<close>

record errno =
  err_code :: nat
  err_text :: bytes

definition ENOENT :: nat where
  "ENOENT = 2"

definition PosixError :: "bytes \<Rightarrow> errno \<Rightarrow> status" where
  "PosixError context error_number =
     (if err_code error_number = ENOENT then NotFound (status_msg context (err_text error_number))
      else IOError (status_msg context (err_text error_number)))"

datatype answer = Interrupted | Failed errno | Accepts nat

record fd =
  fd_data :: bytes
  fd_answers :: "answer list"

text \<open>A descriptor open for writing: the bytes the kernel has taken so far.\<close>

definition sys_write :: "fd \<Rightarrow> bytes \<Rightarrow> answer \<times> fd" where
  "sys_write d data =
     (case fd_answers d of
        [] \<Rightarrow> (Accepts (length data), d\<lparr>fd_data := fd_data d @ data\<rparr>)
      | Accepts n # as \<Rightarrow>
          (Accepts (min n (length data)), d\<lparr>fd_data := fd_data d @ take n data, fd_answers := as\<rparr>)
      | a # as \<Rightarrow> (a, d\<lparr>fd_answers := as\<rparr>))"

text \<open>A descriptor open for reading: the bytes after the file position.\<close>

definition sys_read :: "fd \<Rightarrow> nat \<Rightarrow> answer \<times> bytes \<times> fd" where
  "sys_read d n =
     (case fd_answers d of
        Interrupted # as \<Rightarrow> (Interrupted, [], d\<lparr>fd_answers := as\<rparr>)
      | Failed e # as \<Rightarrow> (Failed e, [], d\<lparr>fd_answers := as\<rparr>)
      | as \<Rightarrow> (Accepts (min n (length (fd_data d))), take n (fd_data d),
               d\<lparr>fd_data := drop n (fd_data d), fd_answers := tl as\<rparr>))"

definition sys_call :: "fd \<Rightarrow> errno option \<times> fd" where
  "sys_call d =
     (case fd_answers d of
        Failed e # as \<Rightarrow> (Some e, d\<lparr>fd_answers := as\<rparr>)
      | as \<Rightarrow> (None, d\<lparr>fd_answers := tl as\<rparr>))"

section \<open>Interfaces\<close>

text \<open>The virtual methods of \<^verbatim>\<open>WritableFile\<close> and \<^verbatim>\<open>SequentialFile\<close> as records of functions.\<close>

record 'f writable_ops =
  op_Append :: "'f \<Rightarrow> bytes \<Rightarrow> status \<times> 'f"
  op_Flush :: "'f \<Rightarrow> status \<times> 'f"
  op_Sync :: "'f \<Rightarrow> status \<times> 'f"
  op_Close :: "'f \<Rightarrow> status \<times> 'f"

record 'f sequential_ops =
  op_Read :: "'f \<Rightarrow> nat \<Rightarrow> status \<times> bytes \<times> 'f"
  op_Skip :: "'f \<Rightarrow> nat \<Rightarrow> status \<times> 'f"

text \<open>A sequence of appends, as a client that stops at the first error makes it.\<close>

fun append_all :: "'f writable_ops \<Rightarrow> 'f \<Rightarrow> bytes list \<Rightarrow> status \<times> 'f" where
  "append_all ops f [] = (OK, f)"
| "append_all ops f (d # ds) =
     (let (s, f') = op_Append ops f d in if s = OK then append_all ops f' ds else (s, f'))"

text \<open>
  What a client of a writable file relies on: the bytes of successful appends are in the file
  in order, and a successful flush hands everything to the operating system.
\<close>

locale writable_file =
  fixes ops :: "'f writable_ops"
    and content :: "'f \<Rightarrow> bytes"
    and written :: "'f \<Rightarrow> bytes"
  assumes Append_content: "op_Append ops f d = (OK, f') \<Longrightarrow> content f' = content f @ d"
    and Flush_content: "op_Flush ops f = (OK, f') \<Longrightarrow> content f' = content f"
    and Flush_written: "op_Flush ops f = (OK, f') \<Longrightarrow> written f' = content f'"
begin

lemma append_all_content:
  "append_all ops f ds = (OK, f') \<Longrightarrow> content f' = content f @ concat ds"
  by (induction ds arbitrary: f) (auto simp: Append_content split: prod.splits if_splits)

lemma append_all_Flush_written:
  "append_all ops f ds = (OK, f') \<Longrightarrow> op_Flush ops f' = (OK, f'') \<Longrightarrow>
   written f'' = content f @ concat ds"
  by (simp add: append_all_content Flush_content Flush_written)

end

text \<open>
  What a client of a sequential file relies on: a successful read returns the next bytes,
  fewer than asked for only at the end of the file.
\<close>

locale sequential_file =
  fixes ops :: "'f sequential_ops"
    and remaining :: "'f \<Rightarrow> bytes"
  assumes Read_data: "op_Read ops f n = (OK, data, f') \<Longrightarrow> data = take n (remaining f)"
    and Read_remaining: "op_Read ops f n = (OK, data, f') \<Longrightarrow> remaining f' = drop n (remaining f)"
    and Skip_remaining: "op_Skip ops f n = (OK, f') \<Longrightarrow> remaining f' = drop n (remaining f)"

section \<open>PosixWritableFile\<close>

definition kWritableFileBufferSize :: nat where
  "kWritableFileBufferSize = 65536"

record posix_writable =
  pw_buf :: bytes
  pw_fd :: fd
  pw_is_manifest :: bool
  pw_dirfd :: fd
  pw_filename :: bytes
  pw_dirname :: bytes

text \<open>
  The part of a path behind its last slash; the directory is the part before it, or
  \<^verbatim>\<open>"."\<close> for a path without a slash.
\<close>

definition is_slash :: "u8 \<Rightarrow> bool" where
  "is_slash c = (c = 0x2f)"

definition posix_Dirname :: "bytes \<Rightarrow> bytes" where
  "posix_Dirname filename =
     (if list_ex is_slash filename
      then rev (tl (dropWhile (\<lambda>c. \<not> is_slash c) (rev filename)))
      else bytes_of ''.'')"

definition posix_Basename :: "bytes \<Rightarrow> bytes" where
  "posix_Basename filename = rev (takeWhile (\<lambda>c. \<not> is_slash c) (rev filename))"

definition posix_IsManifest :: "bytes \<Rightarrow> bool" where
  "posix_IsManifest filename =
     (take 8 (posix_Basename filename) = bytes_of ''MANIFEST'')"

text \<open>
  The constructor; \<open>d\<close> is the open file, \<open>dir\<close> stands for what opening and syncing the
  directory will answer.
\<close>

definition new_posix_writable :: "bytes \<Rightarrow> fd \<Rightarrow> fd \<Rightarrow> posix_writable" where
  "new_posix_writable filename d dir =
     \<lparr>pw_buf = [], pw_fd = d, pw_is_manifest = posix_IsManifest filename, pw_dirfd = dir,
      pw_filename = filename, pw_dirname = posix_Dirname filename\<rparr>"

lemma Dirname_Basename:
  "filename = (if list_ex is_slash filename then posix_Dirname filename @ [0x2f] else []) @
              posix_Basename filename"
proof (cases "list_ex is_slash filename")
  case True
  then obtain c where c: "c \<in> set (rev filename)" "is_slash c" by (auto simp: list_ex_iff)
  let ?t = "dropWhile (\<lambda>c. \<not> is_slash c) (rev filename)"
  have "?t \<noteq> []" using c by (auto simp: dropWhile_eq_Nil_conv)
  then have "hd ?t = 0x2f" using hd_dropWhile [of "\<lambda>c. \<not> is_slash c"] by (auto simp: is_slash_def)
  then have "?t = 0x2f # tl ?t" using \<open>?t \<noteq> []\<close> by (metis list.collapse)
  then have "rev filename = takeWhile (\<lambda>c. \<not> is_slash c) (rev filename) @ 0x2f # tl ?t"
    by (metis takeWhile_dropWhile_id)
  then have "filename = rev (takeWhile (\<lambda>c. \<not> is_slash c) (rev filename) @ 0x2f # tl ?t)"
    by (metis rev_rev_ident)
  then show ?thesis
    using True by (simp add: posix_Dirname_def posix_Basename_def)
next
  case False
  then have eq: "takeWhile (\<lambda>c. \<not> is_slash c) (rev filename) = rev filename"
    by (auto simp: takeWhile_eq_all_conv list_ex_iff)
  show ?thesis using False unfolding posix_Basename_def eq by simp
qed

lemma sys_write_progress:
  "sys_write d data = (r, d') \<Longrightarrow> data \<noteq> [] \<Longrightarrow> r = Accepts n \<Longrightarrow>
   length (fd_answers d') + length (drop n data) < length (fd_answers d) + length data"
  by (auto simp: sys_write_def split: list.splits answer.splits)

lemma sys_write_interrupted:
  "sys_write d data = (Interrupted, d') \<Longrightarrow> length (fd_answers d') < length (fd_answers d)"
  by (auto simp: sys_write_def split: list.splits answer.splits)

function WriteUnbuffered :: "bytes \<Rightarrow> fd \<Rightarrow> bytes \<Rightarrow> status \<times> fd" where
  "WriteUnbuffered filename d data =
     (if data = [] then (OK, d)
      else case sys_write d data of
        (Interrupted, d') \<Rightarrow> WriteUnbuffered filename d' data
      | (Failed e, d') \<Rightarrow> (PosixError filename e, d')
      | (Accepts n, d') \<Rightarrow> WriteUnbuffered filename d' (drop n data))"
  by pat_completeness auto
termination
  by (relation "measure (\<lambda>(fn, d, data). length (fd_answers d) + length data)")
    (auto dest: sys_write_interrupted [OF sym] sys_write_progress [OF sym])

declare WriteUnbuffered.simps [simp del]

definition FlushBuffer :: "posix_writable \<Rightarrow> status \<times> posix_writable" where
  "FlushBuffer w =
     (let (status, d) = WriteUnbuffered (pw_filename w) (pw_fd w) (pw_buf w)
      in (status, w\<lparr>pw_fd := d, pw_buf := []\<rparr>))"

definition posix_Append :: "posix_writable \<Rightarrow> bytes \<Rightarrow> status \<times> posix_writable" where
  "posix_Append w data =
     (let copy_size = min (length data) (kWritableFileBufferSize - length (pw_buf w));
          w = w\<lparr>pw_buf := pw_buf w @ take copy_size data\<rparr>;
          data = drop copy_size data
      in if data = [] then (OK, w)
         else
           let (status, w) = FlushBuffer w
           in if \<not> ok status then (status, w)
              else if length data < kWritableFileBufferSize then (OK, w\<lparr>pw_buf := data\<rparr>)
              else let (status, d) = WriteUnbuffered (pw_filename w) (pw_fd w) data
                   in (status, w\<lparr>pw_fd := d\<rparr>))"

definition SyncFd :: "fd \<Rightarrow> bytes \<Rightarrow> status \<times> fd" where
  "SyncFd d fd_path =
     (case sys_call d of
        (None, d) \<Rightarrow> (OK, d)
      | (Some _, d) \<Rightarrow>
          (case sys_call d of
             (None, d) \<Rightarrow> (OK, d)
           | (Some e, d) \<Rightarrow> (PosixError fd_path e, d)))"

definition SyncDirIfManifest :: "posix_writable \<Rightarrow> status \<times> posix_writable" where
  "SyncDirIfManifest w =
     (if \<not> pw_is_manifest w then (OK, w)
      else case sys_call (pw_dirfd w) of
        (Some e, d) \<Rightarrow> (PosixError (pw_dirname w) e, w\<lparr>pw_dirfd := d\<rparr>)
      | (None, d) \<Rightarrow>
          (let (status, d) = SyncFd d (pw_dirname w) in (status, w\<lparr>pw_dirfd := d\<rparr>)))"

definition posix_Sync :: "posix_writable \<Rightarrow> status \<times> posix_writable" where
  "posix_Sync w =
     (let (status, w) = SyncDirIfManifest w
      in if \<not> ok status then (status, w)
         else
           let (status, w) = FlushBuffer w
           in if \<not> ok status then (status, w)
              else let (status, d) = SyncFd (pw_fd w) (pw_filename w) in (status, w\<lparr>pw_fd := d\<rparr>))"

definition posix_Close :: "posix_writable \<Rightarrow> status \<times> posix_writable" where
  "posix_Close w =
     (let (status, w) = FlushBuffer w
      in case sys_call (pw_fd w) of
           (Some e, d) \<Rightarrow>
             ((if ok status then PosixError (pw_filename w) e else status), w\<lparr>pw_fd := d\<rparr>)
         | (None, d) \<Rightarrow> (status, w\<lparr>pw_fd := d\<rparr>))"

definition posix_writable_ops :: "posix_writable writable_ops" where
  "posix_writable_ops =
     \<lparr>op_Append = posix_Append, op_Flush = FlushBuffer, op_Sync = posix_Sync,
      op_Close = posix_Close\<rparr>"

section \<open>PosixSequentialFile\<close>

function posix_Read_loop :: "bytes \<Rightarrow> fd \<Rightarrow> nat \<Rightarrow> status \<times> bytes \<times> fd" where
  "posix_Read_loop filename d n =
     (case sys_read d n of
        (Interrupted, _, d') \<Rightarrow> posix_Read_loop filename d' n
      | (Failed e, _, d') \<Rightarrow> (PosixError filename e, [], d')
      | (Accepts _, data, d') \<Rightarrow> (OK, data, d'))"
  by pat_completeness auto
termination
  by (relation "measure (\<lambda>(fn, d, n). length (fd_answers d))")
    (auto simp: sys_read_def split: list.splits answer.splits)

declare posix_Read_loop.simps [simp del]

record posix_sequential =
  seq_fd :: fd
  seq_filename :: bytes

definition posix_Read :: "posix_sequential \<Rightarrow> nat \<Rightarrow> status \<times> bytes \<times> posix_sequential" where
  "posix_Read f n =
     (let (status, data, d) = posix_Read_loop (seq_filename f) (seq_fd f) n
      in (status, data, f\<lparr>seq_fd := d\<rparr>))"

definition posix_Skip :: "posix_sequential \<Rightarrow> nat \<Rightarrow> status \<times> posix_sequential" where
  "posix_Skip f n =
     (case sys_call (seq_fd f) of
        (Some e, d) \<Rightarrow> (PosixError (seq_filename f) e, f\<lparr>seq_fd := d\<rparr>)
      | (None, d) \<Rightarrow> (OK, f\<lparr>seq_fd := d\<lparr>fd_data := drop n (fd_data d)\<rparr>\<rparr>))"

definition posix_sequential_ops :: "posix_sequential sequential_ops" where
  "posix_sequential_ops = \<lparr>op_Read = posix_Read, op_Skip = posix_Skip\<rparr>"

section \<open>The implementations keep the contracts\<close>

lemma PosixError_not_ok [simp]: "PosixError c e \<noteq> OK" "\<not> ok (PosixError c e)"
  by (simp_all add: PosixError_def)

lemma sys_write_data:
  "sys_write d data = (Accepts n, d') \<Longrightarrow> fd_data d' = fd_data d @ take n data"
  "sys_write d data = (Interrupted, d') \<Longrightarrow> fd_data d' = fd_data d"
  "sys_write d data = (Failed e, d') \<Longrightarrow> fd_data d' = fd_data d"
  by (auto simp: sys_write_def min_def split: list.splits answer.splits)

lemma WriteUnbuffered_data:
  "WriteUnbuffered fn d data = (s, d') \<Longrightarrow>
   \<exists>n. fd_data d' = fd_data d @ take n data \<and> (s = OK \<longrightarrow> length data \<le> n)"
proof (induction fn d data arbitrary: s d' rule: WriteUnbuffered.induct)
  case (1 fn d data)
  show ?case
  proof (cases "data = []")
    case True
    with "1.prems" show ?thesis by (simp add: WriteUnbuffered.simps)
  next
    case False
    obtain a d1 where w: "sys_write d data = (a, d1)" by fastforce
    note step = "1.prems" [unfolded WriteUnbuffered.simps [of fn d data] w]
    show ?thesis
    proof (cases a)
      case Interrupted
      then show ?thesis
        using "1.IH"(1) [OF False w [symmetric] Interrupted, of s d'] step False
          sys_write_data(2) [OF w [unfolded Interrupted]] by simp
    next
      case (Failed e)
      then show ?thesis
        using step False sys_write_data(3) [OF w [unfolded Failed]] by (auto intro: exI [of _ 0])
    next
      case (Accepts n)
      then obtain m where "fd_data d' = fd_data d1 @ take m (drop n data)"
          and "s = OK \<longrightarrow> length (drop n data) \<le> m"
        using "1.IH"(2) [OF False w [symmetric] Accepts, of s d'] step False by auto
      then have "fd_data d' = fd_data d @ take (n + m) data \<and> (s = OK \<longrightarrow> length data \<le> n + m)"
        using sys_write_data(1) [OF w [unfolded Accepts]] by (auto simp: take_add)
      then show ?thesis by blast
    qed
  qed
qed

lemma WriteUnbuffered_OK:
  "WriteUnbuffered fn d data = (OK, d') \<Longrightarrow> fd_data d' = fd_data d @ data"
  by (auto dest: WriteUnbuffered_data)

definition posix_content :: "posix_writable \<Rightarrow> bytes" where
  "posix_content w = fd_data (pw_fd w) @ pw_buf w"

definition posix_written :: "posix_writable \<Rightarrow> bytes" where
  "posix_written w = fd_data (pw_fd w)"

lemma FlushBuffer_OK:
  "FlushBuffer w = (OK, w') \<Longrightarrow>
   fd_data (pw_fd w') = fd_data (pw_fd w) @ pw_buf w \<and> pw_buf w' = [] \<and> pw_filename w' = pw_filename w"
  by (auto simp: FlushBuffer_def Let_def split: prod.splits dest: WriteUnbuffered_OK)

lemma FlushBuffer_content:
  "FlushBuffer w = (OK, w') \<Longrightarrow> posix_content w' = posix_content w"
  "FlushBuffer w = (OK, w') \<Longrightarrow> posix_written w' = posix_content w'"
  by (auto simp: posix_content_def posix_written_def dest: FlushBuffer_OK)

lemma posix_Append_OK:
  assumes "posix_Append w data = (OK, w')"
  shows "posix_content w' = posix_content w @ data"
proof -
  define k where "k = min (length data) (kWritableFileBufferSize - length (pw_buf w))"
  define w1 where "w1 = w\<lparr>pw_buf := pw_buf w @ take k data\<rparr>"
  obtain s2 w2 where f: "FlushBuffer w1 = (s2, w2)" by fastforce
  obtain s3 d3 where u: "WriteUnbuffered (pw_filename w2) (pw_fd w2) (drop k data) = (s3, d3)"
    by fastforce
  have c1: "posix_content w1 = posix_content w @ take k data"
    by (simp add: w1_def posix_content_def)
  have "(if drop k data = [] then (OK, w1)
         else if s2 \<noteq> OK then (s2, w2)
         else if length (drop k data) < kWritableFileBufferSize then (OK, w2\<lparr>pw_buf := drop k data\<rparr>)
         else (s3, w2\<lparr>pw_fd := d3\<rparr>)) = (OK, w')"
    using assms unfolding posix_Append_def Let_def k_def [symmetric] w1_def [symmetric]
    by (simp add: ok_def f u cong: if_cong)
  then consider (fits) "drop k data = []" "w' = w1"
    | (buffered) "s2 = OK" "w' = w2\<lparr>pw_buf := drop k data\<rparr>"
    | (direct) "s2 = OK" "s3 = OK" "w' = w2\<lparr>pw_fd := d3\<rparr>"
    by (auto split: if_splits)
  then show ?thesis
  proof cases
    case fits
    then show ?thesis using c1 by simp
  next
    case buffered
    then show ?thesis
      using c1 FlushBuffer_OK [of w1 w2] f by (simp add: posix_content_def)
  next
    case direct
    then show ?thesis
      using c1 FlushBuffer_OK [of w1 w2] f WriteUnbuffered_OK [of _ _ _ d3] u
      by (simp add: posix_content_def)
  qed
qed

interpretation posix_wf: writable_file posix_writable_ops posix_content posix_written
  by unfold_locales
    (simp_all add: posix_writable_ops_def posix_Append_OK FlushBuffer_content)

lemma posix_Read_loop_OK:
  "posix_Read_loop fn d n = (OK, data, d') \<Longrightarrow>
   data = take n (fd_data d) \<and> fd_data d' = drop n (fd_data d)"
proof (induction fn d n rule: posix_Read_loop.induct)
  case (1 fn d n)
  obtain a r d1 where r: "sys_read d n = (a, r, d1)" by (cases "sys_read d n")
  note step = "1.prems" [unfolded posix_Read_loop.simps [of fn d n] r]
  have data: "a = Interrupted \<Longrightarrow> fd_data d1 = fd_data d"
    "a = Accepts k \<Longrightarrow> r = take n (fd_data d) \<and> fd_data d1 = drop n (fd_data d)" for k
    using r by (auto simp: sys_read_def split: list.splits answer.splits)
  show ?case
  proof (cases a)
    case Interrupted
    then show ?thesis using "1.IH" [OF r [symmetric] Interrupted refl] step data by simp
  qed (use step data in auto)
qed

interpretation posix_sf: sequential_file posix_sequential_ops "\<lambda>f. fd_data (seq_fd f)"
  by unfold_locales
    (auto simp: posix_sequential_ops_def posix_Read_def posix_Skip_def sys_call_def
      split: prod.splits list.splits answer.splits option.splits dest: posix_Read_loop_OK)

section \<open>Progress\<close>

text \<open>A descriptor whose remaining answers hold no failure: only interrupts and short writes.\<close>

definition no_failure :: "fd \<Rightarrow> bool" where
  "no_failure d = (\<forall>a \<in> set (fd_answers d). case a of Failed _ \<Rightarrow> False | _ \<Rightarrow> True)"

lemma no_failure_sys_write:
  "no_failure d \<Longrightarrow> sys_write d data = (a, d') \<Longrightarrow> no_failure d' \<and> (\<forall>e. a \<noteq> Failed e)"
  by (auto simp: no_failure_def sys_write_def split: list.splits answer.splits)

lemma no_failure_WriteUnbuffered:
  "no_failure d \<Longrightarrow> WriteUnbuffered fn d data = (s, d') \<Longrightarrow> s = OK \<and> no_failure d'"
proof (induction fn d data arbitrary: s d' rule: WriteUnbuffered.induct)
  case (1 fn d data)
  obtain a d1 where w: "sys_write d data = (a, d1)" by fastforce
  note step = "1.prems"(2) [unfolded WriteUnbuffered.simps [of fn d data] w]
  note nf = no_failure_sys_write [OF "1.prems"(1) w]
  show ?case
  proof (cases "data = []")
    case False
    show ?thesis
    proof (cases a)
      case Interrupted
      then show ?thesis using "1.IH"(1) [OF False w [symmetric] Interrupted, of s d'] step nf False by simp
    next
      case (Accepts n)
      then show ?thesis using "1.IH"(2) [OF False w [symmetric] Accepts, of s d'] step nf False by simp
    qed (use nf in simp)
  qed (use step "1.prems" in simp)
qed

lemma no_failure_FlushBuffer:
  "no_failure (pw_fd w) \<Longrightarrow> FlushBuffer w = (s, w') \<Longrightarrow> s = OK \<and> no_failure (pw_fd w')"
  by (auto simp: FlushBuffer_def Let_def split: prod.splits dest: no_failure_WriteUnbuffered)

lemma no_failure_posix_Append:
  assumes "no_failure (pw_fd w)" and "posix_Append w data = (s, w')"
  shows "s = OK \<and> no_failure (pw_fd w')"
proof -
  define k where "k = min (length data) (kWritableFileBufferSize - length (pw_buf w))"
  define w1 where "w1 = w\<lparr>pw_buf := pw_buf w @ take k data\<rparr>"
  obtain s2 w2 where f: "FlushBuffer w1 = (s2, w2)" by fastforce
  obtain s3 d3 where u: "WriteUnbuffered (pw_filename w2) (pw_fd w2) (drop k data) = (s3, d3)"
    by fastforce
  have "no_failure (pw_fd w1)" using assms(1) by (simp add: w1_def)
  from no_failure_FlushBuffer [OF this f] have "s2 = OK" "no_failure (pw_fd w2)" by auto
  moreover from no_failure_WriteUnbuffered [OF this(2) u] have "s3 = OK" "no_failure d3" by auto
  ultimately show ?thesis
    using assms(2) \<open>no_failure (pw_fd w1)\<close>
    unfolding posix_Append_def Let_def k_def [symmetric] w1_def [symmetric]
    by (auto simp: f u split: if_splits)
qed

lemma no_failure_append_all:
  "no_failure (pw_fd w) \<Longrightarrow> append_all posix_writable_ops w ds = (s, w') \<Longrightarrow>
   s = OK \<and> no_failure (pw_fd w')"
proof (induction ds arbitrary: w)
  case (Cons d ds)
  obtain s1 w1 where a: "posix_Append w d = (s1, w1)" by fastforce
  have "op_Append posix_writable_ops = posix_Append"
    by (simp add: posix_writable_ops_def)
  then show ?case
    using no_failure_posix_Append [OF Cons.prems(1) a] Cons.IH [of w1] Cons.prems(2)
    by (simp add: a)
qed simp

section \<open>Properties\<close>

text \<open>
  C28: When every append of a sequence and the flush behind it succeed, the kernel holds
  exactly the bytes of the appends in order behind what was there, however the buffer was
  filled and however the kernel cut the writes; and as long as the kernel only interrupts or
  shortens calls, none of them fails.
\<close>

theorem posix_appends_flush:
  assumes "append_all posix_writable_ops w ds = (s, w1)"
    and "FlushBuffer w1 = (s', w2)"
  shows "(s = OK \<and> s' = OK \<longrightarrow>
            fd_data (pw_fd w2) = fd_data (pw_fd w) @ pw_buf w @ concat ds \<and> pw_buf w2 = []) \<and>
         (no_failure (pw_fd w) \<longrightarrow> s = OK \<and> s' = OK)"
proof (intro conjI impI)
  assume "s = OK \<and> s' = OK"
  moreover have "op_Flush posix_writable_ops = FlushBuffer"
    by (simp add: posix_writable_ops_def)
  ultimately show "fd_data (pw_fd w2) = fd_data (pw_fd w) @ pw_buf w @ concat ds" and "pw_buf w2 = []"
    using posix_wf.append_all_Flush_written [of w ds w1 w2] FlushBuffer_OK [of w1 w2] assms
    by (simp_all add: posix_content_def posix_written_def)
qed (use no_failure_append_all [OF _ assms(1)] no_failure_FlushBuffer [OF _ assms(2)] in blast)+

theorem posix_appends_flush_witness:
  "let w = \<lparr>pw_buf = [9], pw_fd = \<lparr>fd_data = [8], fd_answers = [Interrupted, Accepts 2, Accepts 1]\<rparr>,
            pw_is_manifest = False, pw_dirfd = \<lparr>fd_data = [], fd_answers = []\<rparr>,
            pw_filename = [], pw_dirname = []\<rparr>;
       w1 = snd (append_all posix_writable_ops w [[1, 2], [3]])
   in fd_data (pw_fd (snd (FlushBuffer w1))) = [8, 9, 1, 2, 3]"
  using posix_appends_flush
      [of "\<lparr>pw_buf = [9], pw_fd = \<lparr>fd_data = [8], fd_answers = [Interrupted, Accepts 2, Accepts 1]\<rparr>,
            pw_is_manifest = False, pw_dirfd = \<lparr>fd_data = [], fd_answers = []\<rparr>,
            pw_filename = [], pw_dirname = []\<rparr>" "[[1, 2], [3]]", OF prod.collapse [symmetric]
        prod.collapse [symmetric]]
  by (simp add: no_failure_def)

end
