(* ===== verification/Log.thy ===== *)
theory Log
  imports Coding Crc32c Env
begin

text \<open>
  The write-ahead log: \<^verbatim>\<open>db/log_format.h\<close>, \<^verbatim>\<open>db/log_writer.cc\<close> and \<^verbatim>\<open>db/log_reader.cc\<close>.
  A log is a sequence of 32 KiB blocks; a record is cut into physical records that never cross
  a block, each with a 7-byte header of masked checksum, length and type.
\<close>

section \<open>Format\<close>

definition kZeroType :: u32 where "kZeroType = 0"
definition kFullType :: u32 where "kFullType = 1"
definition kFirstType :: u32 where "kFirstType = 2"
definition kMiddleType :: u32 where "kMiddleType = 3"
definition kLastType :: u32 where "kLastType = 4"
definition kMaxRecordType :: u32 where "kMaxRecordType = kLastType"
definition kEof :: u32 where "kEof = kMaxRecordType + 1"
definition kBadRecord :: u32 where "kBadRecord = kMaxRecordType + 2"

lemmas record_type_defs =
  kZeroType_def kFullType_def kFirstType_def kMiddleType_def kLastType_def kMaxRecordType_def
  kEof_def kBadRecord_def

definition kBlockSize :: nat where "kBlockSize = 32768"
definition kHeaderSize :: nat where "kHeaderSize = 4 + 2 + 1"

section \<open>Writer\<close>

record 'f log_writer =
  lw_dest :: 'f
  lw_block_offset :: nat
  lw_type_crc :: "u32 list"

definition InitTypeCrc :: "u32 list" where
  "InitTypeCrc = map (\<lambda>i. Value [word_of_nat i]) [0..<unat kMaxRecordType + 1]"

definition new_log_writer :: "'f \<Rightarrow> nat \<Rightarrow> 'f log_writer" where
  "new_log_writer dest dest_length =
     \<lparr>lw_dest = dest, lw_block_offset = dest_length mod kBlockSize, lw_type_crc = InitTypeCrc\<rparr>"

definition EmitPhysicalRecord ::
    "'f writable_ops \<Rightarrow> 'f log_writer \<Rightarrow> u32 \<Rightarrow> bytes \<Rightarrow> status \<times> 'f log_writer" where
  "EmitPhysicalRecord ops w t data =
     (let len = word_of_nat (length data) :: u32;
          crc = Mask (Extend (lw_type_crc w ! unat t) data);
          buf = EncodeFixed32 crc @ [ucast (len AND 0xff), ucast (drop_bit 8 len), ucast t];
          (s, d) = op_Append ops (lw_dest w) buf;
          (s, d) = (if ok s then
                      let (s, d) = op_Append ops d data in if ok s then op_Flush ops d else (s, d)
                    else (s, d))
      in (s, w\<lparr>lw_dest := d, lw_block_offset := lw_block_offset w + kHeaderSize + length data\<rparr>))"

text \<open>The switch to a new block; the status of the append that fills the trailer is ignored.\<close>

definition switch_block :: "'f writable_ops \<Rightarrow> 'f log_writer \<Rightarrow> 'f log_writer" where
  "switch_block ops w =
     (let leftover = kBlockSize - lw_block_offset w in
      if leftover < kHeaderSize then
        w\<lparr>lw_dest := (if leftover > 0 then snd (op_Append ops (lw_dest w) (replicate leftover 0))
                      else lw_dest w),
          lw_block_offset := 0\<rparr>
      else w)"

definition fragment_type :: "bool \<Rightarrow> bool \<Rightarrow> u32" where
  "fragment_type bgn fin =
     (if bgn \<and> fin then kFullType else if bgn then kFirstType
      else if fin then kLastType else kMiddleType)"

lemma switch_block_offset:
  "lw_block_offset (switch_block ops w) =
     (if kBlockSize - lw_block_offset w < kHeaderSize then 0 else lw_block_offset w)"
  by (simp add: switch_block_def Let_def)

lemma EmitPhysicalRecord_offset:
  "EmitPhysicalRecord ops w t data = (s, w') \<Longrightarrow>
   lw_block_offset w' = lw_block_offset w + kHeaderSize + length data"
  by (auto simp: EmitPhysicalRecord_def Let_def split: prod.splits if_splits)

function AddRecord_loop ::
    "'f writable_ops \<Rightarrow> 'f log_writer \<Rightarrow> bool \<Rightarrow> bytes \<Rightarrow> status \<times> 'f log_writer" where
  "AddRecord_loop ops w bgn ptr =
     (let w = switch_block ops w;
          avail = kBlockSize - lw_block_offset w - kHeaderSize;
          fragment_length = (if length ptr < avail then length ptr else avail);
          fin = (length ptr = fragment_length);
          (s, w) = EmitPhysicalRecord ops w (fragment_type bgn fin) (take fragment_length ptr);
          ptr = drop fragment_length ptr
      in if ok s \<and> ptr \<noteq> [] then AddRecord_loop ops w False ptr else (s, w))"
  by pat_completeness auto
termination
proof (relation "measure (\<lambda>(ops, w, bgn, ptr).
    2 * length ptr + (if lw_block_offset w + kHeaderSize = kBlockSize then 1 else 0))", goal_cases)
  case (2 ops w bgn ptr w1 avail n fin p s w2 rest)
  have "lw_block_offset w2 = lw_block_offset w1 + kHeaderSize + min n (length ptr)"
    using 2(5,6) EmitPhysicalRecord_offset [of ops w1 _ "take n ptr" s w2] by (simp add: min.commute)
  then show ?case
    using 2 switch_block_offset [of ops w]
    by (auto simp: kBlockSize_def kHeaderSize_def split: if_splits)
qed simp

declare AddRecord_loop.simps [simp del]

definition AddRecord :: "'f writable_ops \<Rightarrow> 'f log_writer \<Rightarrow> bytes \<Rightarrow> status \<times> 'f log_writer" where
  "AddRecord ops w data = AddRecord_loop ops w True data"

section \<open>Reader\<close>

text \<open>The reporter is the list of its calls: dropped bytes and reason, oldest first.\<close>

record 'f log_reader =
  lr_file :: 'f
  lr_reports :: "(u64 \<times> status) list"
  lr_checksum :: bool
  lr_buffer :: bytes
  lr_eof :: bool
  lr_last_record_offset :: u64
  lr_end_of_buffer_offset :: u64
  lr_initial_offset :: u64
  lr_resyncing :: bool

definition new_log_reader :: "'f \<Rightarrow> bool \<Rightarrow> u64 \<Rightarrow> 'f log_reader" where
  "new_log_reader file checksum initial_offset =
     \<lparr>lr_file = file, lr_reports = [], lr_checksum = checksum, lr_buffer = [], lr_eof = False,
      lr_last_record_offset = 0, lr_end_of_buffer_offset = 0,
      lr_initial_offset = initial_offset, lr_resyncing = (initial_offset > 0)\<rparr>"

definition ReportDrop :: "'f log_reader \<Rightarrow> u64 \<Rightarrow> status \<Rightarrow> 'f log_reader" where
  "ReportDrop r n reason =
     (if lr_end_of_buffer_offset r - word_of_nat (length (lr_buffer r)) - n \<ge> lr_initial_offset r
      then r\<lparr>lr_reports := lr_reports r @ [(n, reason)]\<rparr> else r)"

definition ReportCorruption :: "'f log_reader \<Rightarrow> u64 \<Rightarrow> bytes \<Rightarrow> 'f log_reader" where
  "ReportCorruption r n reason = ReportDrop r n (Corruption reason)"

definition SkipToInitialBlock :: "'f sequential_ops \<Rightarrow> 'f log_reader \<Rightarrow> bool \<times> 'f log_reader" where
  "SkipToInitialBlock ops r =
     (let offset_in_block = lr_initial_offset r mod 32768;
          start = lr_initial_offset r - offset_in_block;
          start = (if offset_in_block > 32768 - 6 then start + 32768 else start);
          r = r\<lparr>lr_end_of_buffer_offset := start\<rparr>
      in if start > 0 then
           let (skip_status, f) = op_Skip ops (lr_file r) (unat start); r = r\<lparr>lr_file := f\<rparr>
           in if \<not> ok skip_status then (False, ReportDrop r start skip_status) else (True, r)
         else (True, r))"

text \<open>
  One physical record. \<open>result\<close> is the out-parameter, left as it was where the code does not
  assign it; the type is read through a signed \<^verbatim>\<open>char\<close>. The loop reads at most one block: after
  it the buffer holds a header or the end of the file has been seen.
\<close>

definition read_block :: "'f sequential_ops \<Rightarrow> 'f log_reader \<Rightarrow> status \<times> 'f log_reader" where
  "read_block ops r =
     (let (status, data, f) = op_Read ops (lr_file r) kBlockSize
      in (status, r\<lparr>lr_file := f, lr_buffer := data,
                    lr_end_of_buffer_offset :=
                      lr_end_of_buffer_offset r + word_of_nat (length data)\<rparr>))"

definition header_length :: "bytes \<Rightarrow> nat" where
  "header_length header =
     unat ((ucast (header ! 4) AND 0xff) OR push_bit 8 (ucast (header ! 5) AND 0xff) :: u32)"

definition parse_physical :: "'f log_reader \<Rightarrow> bytes \<Rightarrow> u32 \<times> bytes \<times> 'f log_reader" where
  "parse_physical r result =
     (let header = lr_buffer r;
          t = scast (header ! 6) :: u32;
          len = header_length header
      in if kHeaderSize + len > length header then
           let drop_size = word_of_nat (length header); r = r\<lparr>lr_buffer := []\<rparr>
           in if \<not> lr_eof r
              then (kBadRecord, result, ReportCorruption r drop_size (bytes_of ''bad record length''))
              else (kEof, result, r)
         else if t = kZeroType \<and> len = 0 then (kBadRecord, result, r\<lparr>lr_buffer := []\<rparr>)
         else if lr_checksum r \<and>
                 Value (take (1 + len) (drop 6 header)) \<noteq> Unmask (DecodeFixed32 header) then
           let drop_size = word_of_nat (length header); r = r\<lparr>lr_buffer := []\<rparr>
           in (kBadRecord, result, ReportCorruption r drop_size (bytes_of ''checksum mismatch''))
         else
           let r = r\<lparr>lr_buffer := drop (kHeaderSize + len) header\<rparr>
           in if lr_end_of_buffer_offset r - word_of_nat (length (lr_buffer r))
                   - word_of_nat kHeaderSize - word_of_nat len < lr_initial_offset r
              then (kBadRecord, [], r)
              else (t, take len (drop kHeaderSize header), r))"

function ReadPhysicalRecord ::
    "'f sequential_ops \<Rightarrow> 'f log_reader \<Rightarrow> bytes \<Rightarrow> u32 \<times> bytes \<times> 'f log_reader" where
  "ReadPhysicalRecord ops r result =
     (if length (lr_buffer r) < kHeaderSize then
        if \<not> lr_eof r then
          let (status, r) = read_block ops r
          in if \<not> ok status then
               let r = ReportDrop (r\<lparr>lr_buffer := []\<rparr>) (word_of_nat kBlockSize) status
               in (kEof, result, r\<lparr>lr_eof := True\<rparr>)
             else if length (lr_buffer r) < kBlockSize
             then ReadPhysicalRecord ops (r\<lparr>lr_eof := True\<rparr>) result
             else ReadPhysicalRecord ops r result
        else (kEof, result, r\<lparr>lr_buffer := []\<rparr>)
      else parse_physical r result)"
  by pat_completeness auto
termination
  by (relation "measure (\<lambda>(ops, r, result).
        if length (lr_buffer r) < kHeaderSize \<and> \<not> lr_eof r then 1 else 0)")
    (auto simp: kBlockSize_def kHeaderSize_def)

declare ReadPhysicalRecord.simps [simp del]

text \<open>
  The loop of \<^verbatim>\<open>ReadRecord\<close>, whose rounds are bounded by the file, so it carries fuel: \<open>None\<close>
  is a loop cut short. \<open>in_frag\<close>, \<open>scratch\<close>, \<open>prospective\<close> and \<open>fragment\<close> are its locals. The
  inner option is the record, \<open>None\<close> for a return of \<^verbatim>\<open>false\<close>.
\<close>

fun ReadRecord_loop ::
    "nat \<Rightarrow> 'f sequential_ops \<Rightarrow> 'f log_reader \<Rightarrow> bool \<Rightarrow> bytes \<Rightarrow> u64 \<Rightarrow> bytes \<Rightarrow>
     (bytes option \<times> 'f log_reader) option" where
  "ReadRecord_loop 0 ops r in_frag scratch prospective fragment = None"
| "ReadRecord_loop (Suc fuel) ops r in_frag scratch prospective fragment =
     (let (record_type, fragment, r) = ReadPhysicalRecord ops r fragment;
          physical_record_offset =
            lr_end_of_buffer_offset r - word_of_nat (length (lr_buffer r))
              - word_of_nat kHeaderSize - word_of_nat (length fragment);
          again = ReadRecord_loop fuel ops
      in if lr_resyncing r \<and> record_type = kMiddleType then
           again r in_frag scratch prospective fragment
         else if lr_resyncing r \<and> record_type = kLastType then
           again (r\<lparr>lr_resyncing := False\<rparr>) in_frag scratch prospective fragment
         else
           let r = r\<lparr>lr_resyncing := False\<rparr> in
           if record_type = kFullType then
             let r = (if in_frag \<and> scratch \<noteq> [] then
                        ReportCorruption r (word_of_nat (length scratch))
                          (bytes_of ''partial record without end(1)'')
                      else r)
             in Some (Some fragment, r\<lparr>lr_last_record_offset := physical_record_offset\<rparr>)
           else if record_type = kFirstType then
             let r = (if in_frag \<and> scratch \<noteq> [] then
                        ReportCorruption r (word_of_nat (length scratch))
                          (bytes_of ''partial record without end(2)'')
                      else r)
             in again r True fragment physical_record_offset fragment
           else if record_type = kMiddleType then
             if \<not> in_frag then
               again (ReportCorruption r (word_of_nat (length fragment))
                        (bytes_of ''missing start of fragmented record(1)''))
                 in_frag scratch prospective fragment
             else again r in_frag (scratch @ fragment) prospective fragment
           else if record_type = kLastType then
             if \<not> in_frag then
               again (ReportCorruption r (word_of_nat (length fragment))
                        (bytes_of ''missing start of fragmented record(2)''))
                 in_frag scratch prospective fragment
             else Some (Some (scratch @ fragment), r\<lparr>lr_last_record_offset := prospective\<rparr>)
           else if record_type = kEof then Some (None, r)
           else if record_type = kBadRecord then
             if in_frag then
               again (ReportCorruption r (word_of_nat (length scratch))
                        (bytes_of ''error in middle of record''))
                 False [] prospective fragment
             else again r in_frag scratch prospective fragment
           else
             again (ReportCorruption r
                      (word_of_nat (length fragment + (if in_frag then length scratch else 0)))
                      (bytes_of ''unknown record type '' @ decimal (unat record_type)))
               False [] prospective fragment)"

definition ReadRecord ::
    "nat \<Rightarrow> 'f sequential_ops \<Rightarrow> 'f log_reader \<Rightarrow> (bytes option \<times> 'f log_reader) option" where
  "ReadRecord fuel ops r =
     (let (found, r) = (if lr_last_record_offset r < lr_initial_offset r
                        then SkipToInitialBlock ops r else (True, r))
      in if \<not> found then Some (None, r) else ReadRecord_loop fuel ops r False [] 0 [])"

section \<open>What a log looks like\<close>

text \<open>A physical record, and the layout of a record that starts at offset \<open>off\<close> of its block.\<close>

definition physical :: "u32 \<Rightarrow> bytes \<Rightarrow> bytes" where
  "physical t data =
     EncodeFixed32 (Mask (Value (ucast t # data))) @
     [word_of_nat (length data), word_of_nat (length data div 256), ucast t] @ data"

lemma length_physical [simp]: "length (physical t data) = kHeaderSize + length data"
  by (simp add: physical_def kHeaderSize_def)

lemma physical_nonempty [simp]: "physical t data \<noteq> []"
  by (simp add: physical_def)

function log_enc :: "nat \<Rightarrow> bool \<Rightarrow> bytes \<Rightarrow> bytes \<times> nat" where
  "log_enc off bgn data =
     (if kBlockSize - off < kHeaderSize then
        let (s, off') = log_enc 0 bgn data in (replicate (kBlockSize - off) 0 @ s, off')
      else if length data \<le> kBlockSize - off - kHeaderSize then
        (physical (fragment_type bgn True) data, off + kHeaderSize + length data)
      else
        let n = kBlockSize - off - kHeaderSize;
            (s, off') = log_enc kBlockSize False (drop n data)
        in (physical (fragment_type bgn False) (take n data) @ s, off'))"
  by pat_completeness auto
termination
proof (relation "measure (\<lambda>(off, bgn, data). 3 * length data +
    (if kBlockSize - off < kHeaderSize then 2 else if off + kHeaderSize = kBlockSize then 3 else 0))", goal_cases)
  case (3 off bgn data n)
  then show ?case
    by (cases "kBlockSize - off = kHeaderSize") (auto simp: kBlockSize_def kHeaderSize_def)
qed (auto simp: kBlockSize_def kHeaderSize_def)

declare log_enc.simps [simp del]

fun log_encs :: "nat \<Rightarrow> bytes list \<Rightarrow> bytes" where
  "log_encs off [] = []"
| "log_encs off (d # ds) = (let (s, off') = log_enc off True d in s @ log_encs off' ds)"

section \<open>The writer appends the layout\<close>

lemma InitTypeCrc_nth: "t \<le> kMaxRecordType \<Longrightarrow> InitTypeCrc ! unat t = Value [ucast t]"
proof -
  assume "t \<le> kMaxRecordType"
  then have "unat t < 5" by (simp add: record_type_defs word_le_nat_alt)
  then show ?thesis
    by (simp add: InitTypeCrc_def record_type_defs del: upt_Suc)
qed

lemma low_byte: "(ucast ((word_of_nat n :: u32) AND 0xff) :: u8) = word_of_nat n"
  by (rule bit_word_eqI) (auto simp: bit_simps mask8)

lemma high_byte:
  "n < 2 ^ 32 \<Longrightarrow> (ucast (drop_bit 8 (word_of_nat n :: u32)) :: u8) = word_of_nat (n div 256)"
proof -
  assume "n < 2 ^ 32"
  then have "unat (drop_bit 8 (word_of_nat n :: u32)) = n div 2 ^ 8"
    by (simp only: unat_drop_bit_div) (simp add: take_bit_nat_eq_self)
  then have "of_nat (unat (drop_bit 8 (word_of_nat n :: u32))) = (word_of_nat (n div 256) :: u8)"
    by simp
  then show ?thesis by simp
qed

text \<open>
  What the writer needs of its file beyond the contract of every writable file: right after a
  flush a few bytes can always be appended, because the writer does not look at the status of
  the append that fills a block trailer.
\<close>

locale log_dest = writable_file ops content written
  for ops :: "'f writable_ops" and content written +
  fixes ready :: "'f \<Rightarrow> bool"
  assumes Flush_ready: "op_Flush ops f = (OK, f') \<Longrightarrow> ready f'"
    and ready_Append: "ready f \<Longrightarrow> length d < kHeaderSize \<Longrightarrow> \<exists>f'. op_Append ops f d = (OK, f')"
begin

definition at_offset :: "'f log_writer \<Rightarrow> bool" where
  "at_offset w \<longleftrightarrow> lw_type_crc w = InitTypeCrc \<and> lw_block_offset w \<le> kBlockSize \<and> ready (lw_dest w)"

lemma switch_block_content:
  assumes "at_offset w"
  shows "content (lw_dest (switch_block ops w)) =
           content (lw_dest w) @ (if kBlockSize - lw_block_offset w < kHeaderSize
                                  then replicate (kBlockSize - lw_block_offset w) 0 else [])"
    and "lw_type_crc (switch_block ops w) = InitTypeCrc"
proof -
  let ?n = "kBlockSize - lw_block_offset w"
  show "lw_type_crc (switch_block ops w) = InitTypeCrc"
    using assms by (simp add: switch_block_def at_offset_def Let_def)
  show "content (lw_dest (switch_block ops w)) =
           content (lw_dest w) @ (if ?n < kHeaderSize then replicate ?n 0 else [])"
  proof (cases "?n < kHeaderSize \<and> 0 < ?n")
    case True
    obtain f' where "op_Append ops (lw_dest w) (replicate ?n 0) = (OK, f')"
      using ready_Append [of "lw_dest w" "replicate ?n 0"] assms True by (auto simp: at_offset_def)
    then show ?thesis
      using True Append_content by (simp add: switch_block_def Let_def)
  qed (auto simp: switch_block_def Let_def)
qed

lemma EmitPhysicalRecord_content:
  assumes "EmitPhysicalRecord ops w t data = (OK, w')"
    and "lw_type_crc w = InitTypeCrc" and "t \<le> kMaxRecordType" and "length data < 2 ^ 32"
  shows "content (lw_dest w') = content (lw_dest w) @ physical t data"
    and "written (lw_dest w') = content (lw_dest w')"
    and "lw_type_crc w' = InitTypeCrc" and "ready (lw_dest w')"
proof -
  let ?hd = "EncodeFixed32 (Mask (Value (ucast t # data))) @
      [word_of_nat (length data), word_of_nat (length data div 256), ucast t]"
  have crc: "Extend (InitTypeCrc ! unat t) data = Value (ucast t # data)"
    using Extend_Value [of "[ucast t]" data] InitTypeCrc_nth [OF assms(3)] by simp
  obtain d1 d2 where a: "op_Append ops (lw_dest w) ?hd = (OK, d1)"
    and b: "op_Append ops d1 data = (OK, d2)" and c: "op_Flush ops d2 = (OK, lw_dest w')"
    and w': "lw_type_crc w' = lw_type_crc w"
    using assms(1,2)
    by (auto simp: EmitPhysicalRecord_def Let_def crc low_byte high_byte [OF assms(4)] ok_def
        split: prod.splits if_splits)
  show "content (lw_dest w') = content (lw_dest w) @ physical t data"
    using Append_content [OF a] Append_content [OF b] Flush_content [OF c] by (simp add: physical_def)
  show "written (lw_dest w') = content (lw_dest w')" by (rule Flush_written [OF c])
  show "lw_type_crc w' = InitTypeCrc" using w' assms(2) by simp
  show "ready (lw_dest w')" by (rule Flush_ready [OF c])
qed

lemma AddRecord_loop_content:
  "AddRecord_loop op w bgn data = (OK, w') \<Longrightarrow> at_offset w \<Longrightarrow> op = ops \<Longrightarrow>
   content (lw_dest w') = content (lw_dest w) @ fst (log_enc (lw_block_offset w) bgn data) \<and>
   lw_block_offset w' = snd (log_enc (lw_block_offset w) bgn data) \<and>
   written (lw_dest w') = content (lw_dest w') \<and> at_offset w'"
proof (induction op w bgn data arbitrary: w' rule: AddRecord_loop.induct)
  case (1 op w bgn data)
  note ops = "1.prems"(3)
  define w1 where "w1 = switch_block ops w"
  define off where "off = lw_block_offset w1"
  define avail where "avail = kBlockSize - off - kHeaderSize"
  define n where "n = (if length data < avail then length data else avail)"
  define t where "t = fragment_type bgn (length data = n)"
  obtain s w2 where e: "EmitPhysicalRecord ops w1 t (take n data) = (s, w2)" by fastforce
  have off: "off + kHeaderSize \<le> kBlockSize"
    using "1.prems"(2) by (auto simp: off_def w1_def switch_block_offset at_offset_def
        kBlockSize_def kHeaderSize_def)
  then have n: "n \<le> avail" "n \<le> length data" "off + kHeaderSize + n \<le> kBlockSize" "n < 2 ^ 32"
    by (auto simp: n_def avail_def kBlockSize_def kHeaderSize_def)
  have t: "t \<le> kMaxRecordType"
    by (simp add: t_def fragment_type_def record_type_defs)
  note step = "1.prems"(1) [unfolded ops AddRecord_loop.simps [of ops w] Let_def w1_def [symmetric]
      off_def [symmetric] avail_def [symmetric] n_def [symmetric] t_def [symmetric] e prod.case]
  have s: "s = OK" using step by (auto simp: ok_def split: if_splits)
  note sw = switch_block_content [OF "1.prems"(2), folded w1_def]
  have len: "length (take n data) = n" using n by simp
  note em = EmitPhysicalRecord_content [OF e [unfolded s] sw(2) t, unfolded len, OF n(4)]
  have off2: "lw_block_offset w2 = off + kHeaderSize + n"
    using EmitPhysicalRecord_offset [OF e] len by (simp add: off_def)
  have at2: "at_offset w2" using em off2 n by (simp add: at_offset_def)
  have pad: "log_enc (lw_block_offset w) bgn data =
      ((if kBlockSize - lw_block_offset w < kHeaderSize
        then replicate (kBlockSize - lw_block_offset w) 0 else []) @ fst (log_enc off bgn data),
       snd (log_enc off bgn data))"
    by (simp add: off_def w1_def switch_block_offset log_enc.simps [of "lw_block_offset w"]
        split: prod.splits)
  have off': "\<not> kBlockSize - off < kHeaderSize" using off by simp
  show ?case
  proof (cases "drop n data = []")
    case True
    then have dn: "length data \<le> kBlockSize - off - kHeaderSize" "n = length data"
      using n by (auto simp: avail_def)
    then have "log_enc off bgn data = (physical t data, off + kHeaderSize + n)"
      by (subst log_enc.simps) (simp add: off' t_def)
    then show ?thesis
      using step True s em sw at2 off2 pad dn by simp
  next
    case False
    then have gt: "n < length data" "n = avail" by (auto simp: n_def split: if_splits)
    then have ne: "length data \<noteq> n" by simp
    have "log_enc off bgn data =
        (physical t (take n data) @ fst (log_enc (lw_block_offset w2) False (drop n data)),
         snd (log_enc (lw_block_offset w2) False (drop n data)))"
    proof -
      have "off + kHeaderSize + n = kBlockSize" using gt off by (simp add: avail_def)
      then show ?thesis
        using gt off' by (subst log_enc.simps)
          (auto simp: off2 t_def avail_def Let_def split: prod.splits)
    qed
    moreover from step False s have "AddRecord_loop ops w2 False (drop n data) = (OK, w')"
      by (simp add: ok_def)
    ultimately show ?thesis
      using "1.IH" [unfolded ops, OF w1_def avail_def [unfolded off_def] n_def refl
          e [unfolded t_def, symmetric] refl refl _ _ at2 refl]
        em sw pad False s by (simp add: ok_def)
  qed
qed

lemma AddRecord_content:
  "AddRecord ops w data = (OK, w') \<Longrightarrow> at_offset w \<Longrightarrow>
   content (lw_dest w') = content (lw_dest w) @ fst (log_enc (lw_block_offset w) True data) \<and>
   lw_block_offset w' = snd (log_enc (lw_block_offset w) True data) \<and>
   written (lw_dest w') = content (lw_dest w') \<and> at_offset w'"
  unfolding AddRecord_def by (rule AddRecord_loop_content) simp_all

end

fun AddRecords :: "'f writable_ops \<Rightarrow> 'f log_writer \<Rightarrow> bytes list \<Rightarrow> status \<times> 'f log_writer" where
  "AddRecords ops w [] = (OK, w)"
| "AddRecords ops w (d # ds) =
     (let (s, w') = AddRecord ops w d in if s = OK then AddRecords ops w' ds else (s, w'))"

context log_dest
begin

lemma AddRecords_content:
  "AddRecords ops w ds = (OK, w') \<Longrightarrow> at_offset w \<Longrightarrow>
   content (lw_dest w') = content (lw_dest w) @ log_encs (lw_block_offset w) ds \<and>
   (ds \<noteq> [] \<longrightarrow> written (lw_dest w') = content (lw_dest w'))"
proof (induction ds arbitrary: w)
  case (Cons d ds)
  obtain w1 where a: "AddRecord ops w d = (OK, w1)" and rest: "AddRecords ops w1 ds = (OK, w')"
    using Cons.prems(1) by (auto split: prod.splits if_splits)
  note one = AddRecord_content [OF a Cons.prems(2)]
  with Cons.IH [OF rest] rest show ?case
    by (cases ds) (auto split: prod.splits)
qed simp

end

lemma posix_Append_small:
  "pw_buf w = [] \<Longrightarrow> length d < kHeaderSize \<Longrightarrow> \<exists>w'. posix_Append w d = (OK, w')"
  by (simp add: posix_Append_def Let_def kWritableFileBufferSize_def kHeaderSize_def)

interpretation posix_log: log_dest posix_writable_ops posix_content posix_written
    "\<lambda>w. pw_buf w = []"
  by unfold_locales
    (auto simp: posix_writable_ops_def posix_Append_small dest: FlushBuffer_OK)

section \<open>The reader on a log\<close>

text \<open>A sequential file none of whose coming reads fails.\<close>

locale reliable_file = sequential_file ops remaining
  for ops :: "'f sequential_ops" and remaining +
  fixes good :: "'f \<Rightarrow> bool"
  assumes good_Read: "good f \<Longrightarrow> \<exists>data f'. op_Read ops f n = (OK, data, f') \<and> good f'"
begin

lemma Read_good:
  "good f \<Longrightarrow> \<exists>f'. op_Read ops f n = (OK, take n (remaining f), f') \<and> good f' \<and>
     remaining f' = drop n (remaining f)"
  using good_Read [of f n] Read_data Read_remaining by blast

text \<open>
  The reader stands at offset \<open>off\<close> of a block with the bytes \<open>S\<close> of the file still to come.
\<close>

definition reader_at :: "'f log_reader \<Rightarrow> bytes \<Rightarrow> nat \<Rightarrow> bool" where
  "reader_at r S off \<longleftrightarrow>
     lr_checksum r \<and> lr_initial_offset r = 0 \<and> \<not> lr_resyncing r \<and> good (lr_file r) \<and>
     S = lr_buffer r @ remaining (lr_file r) \<and>
     (if lr_eof r then remaining (lr_file r) = [] \<and> off + length (lr_buffer r) < kBlockSize
      else off + length (lr_buffer r) = kBlockSize \<or> lr_buffer r = [] \<and> off = 0)"

end

interpretation posix_rf: reliable_file posix_sequential_ops "\<lambda>f. fd_data (seq_fd f)"
    "\<lambda>f. no_failure (seq_fd f)"
proof unfold_locales
  fix f :: posix_sequential and n
  assume "no_failure (seq_fd f)"
  moreover have "no_failure d \<Longrightarrow> \<exists>data d'. posix_Read_loop fn d n = (OK, data, d') \<and> no_failure d'"
    for fn d
  proof (induction fn d n rule: posix_Read_loop.induct)
    case (1 fn d n)
    obtain a r d1 where r: "sys_read d n = (a, r, d1)" by (cases "sys_read d n")
    then have "no_failure d1" "\<forall>e. a \<noteq> Failed e"
      using "1.prems" by (auto simp: no_failure_def sys_read_def dest: list.set_sel(2)
          split: list.splits answer.splits)
    then show ?case
      using "1.IH" [OF r [symmetric] _ refl] r
      by (cases a) (auto simp: posix_Read_loop.simps [of fn d n])
  qed
  ultimately obtain data d' where "posix_Read_loop (seq_filename f) (seq_fd f) n = (OK, data, d')"
    and "no_failure d'" by blast
  then show "\<exists>data f'. op_Read posix_sequential_ops f n = (OK, data, f') \<and> no_failure (seq_fd f')"
    by (auto simp: posix_sequential_ops_def posix_Read_def)
qed

lemma header_length_enc:
  assumes "n < 65536"
  shows "unat ((ucast (word_of_nat n :: u8) AND 0xff) OR
      push_bit 8 (ucast (word_of_nat (n div 256) :: u8) AND 0xff) :: u32) = n"
proof -
  have n: "take_bit 16 n = n" using assms by (simp add: take_bit_nat_eq_self)
  have hi: "i < 16" if "bit n i" for i
    using that bit_take_bit_iff [of 16 n i] by (simp add: n)
  have div: "n div 256 = drop_bit 8 n" by (simp add: drop_bit_eq_div)
  have "(ucast (word_of_nat n :: u8) AND 0xff) OR
      push_bit 8 (ucast (word_of_nat (n div 256) :: u8) AND 0xff) = (word_of_nat n :: u32)"
    unfolding mask8 div
  proof (rule bit_word_eqI)
    fix i
    assume i: "i < LENGTH(32)"
    consider "i < 8" | "8 \<le> i" "i < 16" | "16 \<le> i" by linarith
    then show "bit ((ucast (word_of_nat n :: u8) AND mask 8) OR
        push_bit 8 (ucast (word_of_nat (drop_bit 8 n) :: u8) AND mask 8) :: u32) i =
        bit (word_of_nat n :: u32) i"
      using i hi [of i] by cases (auto simp: bit_simps)
  qed
  then show ?thesis using assms by (simp add: take_bit_nat_eq_self)
qed

definition data_type :: "u32 \<Rightarrow> bool" where
  "data_type t \<longleftrightarrow> t = kFullType \<or> t = kFirstType \<or> t = kMiddleType \<or> t = kLastType"

lemma fragment_type_data [simp]: "data_type (fragment_type b e)"
  by (simp add: data_type_def fragment_type_def)

lemma scast_u8_eq_0: "(scast (x :: u8) :: u32) = 0 \<Longrightarrow> x = 0"
proof (rule bit_word_eqI)
  fix n
  assume "(scast x :: u32) = 0" and "n < LENGTH(8)"
  then have "\<not> bit (scast x :: u32) n" by simp
  with \<open>n < LENGTH(8)\<close> show "bit x n = bit 0 n" by (cases "n = 7") (simp_all add: bit_signed_iff min_def)
qed

lemma type_byte: "data_type t \<Longrightarrow> scast (ucast t :: u8) = t \<and> t \<noteq> kZeroType"
  by (auto simp: data_type_def record_type_defs)

lemma physical_header:
  assumes "length data < 65536" and "7 \<le> k"
  shows "header_length (take k (physical t data) @ rest) = length data"
    and "(take k (physical t data) @ rest) ! 6 = ucast t"
    and "DecodeFixed32 (take k (physical t data) @ rest) = Mask (Value (ucast t # data))"
proof -
  obtain a b c d where e: "EncodeFixed32 (Mask (Value (ucast t # data))) = [a, b, c, d]"
    by (metis EncodeFixed32_def)
  define hd7 where "hd7 = [a, b, c, d, word_of_nat (length data), word_of_nat (length data div 256), ucast t]"
  have "physical t data = hd7 @ data" and "length hd7 = 7"
    by (simp_all add: physical_def e hd7_def)
  then have "take k (physical t data) @ rest = hd7 @ take (k - 7) data @ rest"
    using assms(2) by simp
  moreover have "DecodeFixed32 ([a, b, c, d] @ x) = Mask (Value (ucast t # data))" for x
    using DecodeFixed32_EncodeFixed32 [of "Mask (Value (ucast t # data))" x] e by simp
  ultimately show "header_length (take k (physical t data) @ rest) = length data"
    and "(take k (physical t data) @ rest) ! 6 = ucast t"
    and "DecodeFixed32 (take k (physical t data) @ rest) = Mask (Value (ucast t # data))"
    using header_length_enc [OF assms(1)] by (simp_all add: header_length_def hd7_def)
qed

lemma parse_physical_good:
  assumes "lr_buffer r = physical t data @ rest" and "data_type t" and "length data < 65536"
    and "lr_initial_offset r = 0"
  shows "parse_physical r result = (t, data, r\<lparr>lr_buffer := rest\<rparr>)"
proof -
  note h = physical_header [OF assms(3), of "kHeaderSize + length data" t rest, unfolded kHeaderSize_def,
      simplified, folded kHeaderSize_def]
  have "take (length (physical t data)) (physical t data) = physical t data" by simp
  moreover have "drop 6 (physical t data) = ucast t # data" "drop 7 (physical t data) = data"
    by (simp_all add: physical_def)
  ultimately show ?thesis
    using assms h type_byte [OF assms(2)]
    by (simp add: parse_physical_def Let_def kHeaderSize_def)
qed

lemma parse_physical_cut:
  assumes "lr_buffer r = take k (physical t data)" and "7 \<le> k" and "k < kHeaderSize + length data"
    and "length data < 65536" and "lr_eof r"
  shows "parse_physical r result = (kEof, result, r\<lparr>lr_buffer := []\<rparr>)"
  using assms physical_header [OF assms(4,2), of t "[]"]
  by (simp add: parse_physical_def Let_def kHeaderSize_def)

context reliable_file
begin

lemma reader_at_update [simp]:
  "reader_at (r\<lparr>lr_last_record_offset := p\<rparr>) S off = reader_at r S off"
  "reader_at r S off \<Longrightarrow> r\<lparr>lr_resyncing := False\<rparr> = r"
  "reader_at r S off \<Longrightarrow> \<not> lr_resyncing r"
  by (simp_all add: reader_at_def)

lemma reader_at_length:
  "reader_at r S off \<Longrightarrow> length S = length (lr_buffer r) + length (remaining (lr_file r))"
  by (simp add: reader_at_def)

lemma reader_at_eof: "reader_at r S off \<Longrightarrow> lr_eof r \<Longrightarrow> S = lr_buffer r \<and> off + length S < kBlockSize"
  by (simp add: reader_at_def)

lemma reader_at_not_eof:
  "reader_at r S off \<Longrightarrow> \<not> lr_eof r \<Longrightarrow>
   off + length (lr_buffer r) = kBlockSize \<or> lr_buffer r = [] \<and> off = 0"
  by (simp add: reader_at_def)

lemma refill:
  assumes "reader_at r S off" and "length (lr_buffer r) < kHeaderSize" and "\<not> lr_eof r"
  shows "\<exists>r'. ReadPhysicalRecord ops r result = ReadPhysicalRecord ops r' result \<and>
      reader_at r' (remaining (lr_file r)) 0 \<and> lr_reports r' = lr_reports r \<and>
      (lr_eof r' \<or> length (lr_buffer r') = kBlockSize)"
proof -
  have "good (lr_file r)" using assms(1) by (simp add: reader_at_def)
  then obtain f' where f': "op_Read ops (lr_file r) kBlockSize =
      (OK, take kBlockSize (remaining (lr_file r)), f')" "good f'"
      "remaining f' = drop kBlockSize (remaining (lr_file r))"
    using Read_good by blast
  define data where "data = take kBlockSize (remaining (lr_file r))"
  define r1 where "r1 = r\<lparr>lr_file := f', lr_buffer := data,
      lr_end_of_buffer_offset := lr_end_of_buffer_offset r + word_of_nat (length data)\<rparr>"
  define r' where "r' = (if length data < kBlockSize then r1\<lparr>lr_eof := True\<rparr> else r1)"
  have rb: "read_block ops r = (OK, r1)"
    by (simp add: read_block_def f'(1) r1_def data_def)
  have "lr_buffer r1 = data" by (simp add: r1_def)
  then have "ReadPhysicalRecord ops r result = ReadPhysicalRecord ops r' result"
    using assms(2,3) by (simp add: ReadPhysicalRecord.simps [of ops r] rb r'_def)
  moreover have "reader_at r' (remaining (lr_file r)) 0"
  proof -
    have "lr_checksum r" "lr_initial_offset r = 0" "\<not> lr_resyncing r"
      using assms(1) by (simp_all add: reader_at_def)
    moreover have "remaining (lr_file r) = data @ remaining f'" by (simp add: data_def f'(3))
    moreover have "if length data < kBlockSize then remaining f' = [] else length data = kBlockSize"
      by (auto simp: data_def f'(3))
    moreover have "lr_checksum r' = lr_checksum r" "lr_initial_offset r' = lr_initial_offset r"
      "lr_resyncing r' = lr_resyncing r" "lr_file r' = f'" "lr_buffer r' = data"
      "lr_eof r' = (length data < kBlockSize)"
      using assms(3) by (simp_all add: r'_def r1_def)
    ultimately show ?thesis
      using f'(2) unfolding reader_at_def by (simp split: if_split_asm)
  qed
  moreover have "lr_reports r' = lr_reports r" "lr_eof r' \<or> length (lr_buffer r') = kBlockSize"
    by (auto simp: r'_def r1_def data_def)
  ultimately show ?thesis by blast
qed

lemma read_physical_buffered:
  assumes "reader_at r (physical t data @ S') off" and "data_type t"
    and "off + kHeaderSize + length data \<le> kBlockSize" and "kHeaderSize \<le> length (lr_buffer r)"
  shows "\<exists>r'. ReadPhysicalRecord ops r result = (t, data, r') \<and>
      reader_at r' S' (off + kHeaderSize + length data) \<and> lr_reports r' = lr_reports r"
proof -
  have le: "kHeaderSize + length data \<le> length (lr_buffer r)"
  proof (cases "lr_eof r")
    case True
    then have "length (physical t data @ S') = length (lr_buffer r)"
      using assms(1) by (simp add: reader_at_def)
    then show ?thesis by simp
  next
    case False
    then have "off + length (lr_buffer r) = kBlockSize"
      using assms(1,4) by (auto simp: reader_at_def kHeaderSize_def)
    then show ?thesis using assms(3) by simp
  qed
  have eq: "physical t data @ S' = lr_buffer r @ remaining (lr_file r)"
    using assms(1) by (simp add: reader_at_def)
  define rest where "rest = drop (length (physical t data)) (lr_buffer r)"
  have "take (length (physical t data)) (lr_buffer r @ remaining (lr_file r)) = physical t data"
    unfolding eq [symmetric] by simp
  then have "take (length (physical t data)) (lr_buffer r) = physical t data"
    using le by simp
  then have buf: "lr_buffer r = physical t data @ rest"
    unfolding rest_def by (metis append_take_drop_id)
  have S': "S' = rest @ remaining (lr_file r)" using eq buf by simp
  have len: "length (lr_buffer r) = kHeaderSize + length data + length rest" by (simp add: buf)
  have "reader_at (r\<lparr>lr_buffer := rest\<rparr>) S' (off + kHeaderSize + length data)"
  proof (cases "lr_eof r")
    case True
    then show ?thesis using assms(1) len by (simp add: reader_at_def S')
  next
    case False
    then have "off + length (lr_buffer r) = kBlockSize"
      using assms(1) len by (auto simp: reader_at_def kHeaderSize_def)
    then show ?thesis using assms(1) False len by (simp add: reader_at_def S')
  qed
  moreover have "length data < 65536" using assms(3) by (simp add: kBlockSize_def kHeaderSize_def)
  moreover have "ReadPhysicalRecord ops r result = parse_physical r result"
    using assms(4) by (simp add: ReadPhysicalRecord.simps [of ops r])
  moreover have "lr_initial_offset r = 0" using assms(1) by (simp add: reader_at_def)
  ultimately show ?thesis
    using parse_physical_good [OF buf assms(2)] by simp
qed

lemma read_physical_good:
  assumes "reader_at r (physical t data @ S') off" and "data_type t"
    and "off + kHeaderSize + length data \<le> kBlockSize"
  shows "\<exists>r'. ReadPhysicalRecord ops r result = (t, data, r') \<and>
      reader_at r' S' (off + kHeaderSize + length data) \<and> lr_reports r' = lr_reports r"
proof (cases "kHeaderSize \<le> length (lr_buffer r)")
  case False
  then have "length (lr_buffer r) < kHeaderSize" by simp
  moreover have "\<not> lr_eof r"
  proof
    assume "lr_eof r"
    then have "length (physical t data @ S') = length (lr_buffer r)"
      using assms(1) by (simp add: reader_at_def)
    then show False using False by simp
  qed
  moreover from this have z: "off = 0" "remaining (lr_file r) = physical t data @ S'"
    using assms(1,3) False by (auto simp: reader_at_def)
  ultimately obtain r' where "ReadPhysicalRecord ops r result = ReadPhysicalRecord ops r' result"
    and "reader_at r' (physical t data @ S') off" and "lr_reports r' = lr_reports r"
    and "lr_eof r' \<or> length (lr_buffer r') = kBlockSize"
    using refill [OF assms(1)] by metis
  moreover from this have "kHeaderSize \<le> length (lr_buffer r')"
  proof -
    have "lr_eof r' \<Longrightarrow> length (physical t data @ S') = length (lr_buffer r')"
      using \<open>reader_at r' _ off\<close> by (simp add: reader_at_def)
    then show ?thesis
      using \<open>lr_eof r' \<or> _\<close> by (auto simp: kBlockSize_def kHeaderSize_def)
  qed
  ultimately show ?thesis
    using read_physical_buffered [of r' t data S' off result] assms(2,3) by simp
qed (use read_physical_buffered assms in blast)

lemma read_physical_pad:
  assumes at: "reader_at r (replicate (kBlockSize - off) 0 @ S') off"
    and "kBlockSize - off < kHeaderSize" and "off \<le> kBlockSize"
  shows "\<exists>r'. ReadPhysicalRecord ops r result = ReadPhysicalRecord ops r' result \<and>
      reader_at r' S' 0 \<and> lr_reports r' = lr_reports r"
proof -
  have eq: "replicate (kBlockSize - off) 0 @ S' = lr_buffer r @ remaining (lr_file r)"
    using at by (simp add: reader_at_def)
  have "\<not> lr_eof r"
  proof
    assume "lr_eof r"
    then show False using reader_at_eof [OF at] assms(3) by simp
  qed
  moreover from this have len: "length (lr_buffer r) = kBlockSize - off"
    using reader_at_not_eof [OF at] assms(2) by (auto simp: kBlockSize_def kHeaderSize_def)
  moreover from len have "remaining (lr_file r) = S'"
    using eq append_eq_same_length [of "replicate (kBlockSize - off) 0" S'] by simp
  ultimately show ?thesis
    using refill [OF at, of result] assms(2) by auto
qed

lemma read_physical_short:
  assumes "reader_at r S off" and "length S < kHeaderSize"
  shows "\<exists>r' f. ReadPhysicalRecord ops r result = (kEof, result, r') \<and> lr_reports r' = lr_reports r"
proof -
  have buf: "length (lr_buffer r) < kHeaderSize" "length (remaining (lr_file r)) < kHeaderSize"
    using assms(2) reader_at_length [OF assms(1)] by simp_all
  show ?thesis
  proof (cases "lr_eof r")
    case False
    from refill [OF assms(1) buf(1) False] obtain r' where
      r': "ReadPhysicalRecord ops r result = ReadPhysicalRecord ops r' result"
        "reader_at r' (remaining (lr_file r)) 0" "lr_reports r' = lr_reports r"
        "lr_eof r' \<or> length (lr_buffer r') = kBlockSize" by blast
    have "length (lr_buffer r') < kHeaderSize"
      using r'(2) buf(2) by (auto simp: reader_at_def)
    then show ?thesis
      using r' by (auto simp: ReadPhysicalRecord.simps [of ops r'] kBlockSize_def kHeaderSize_def)
  qed (use buf in \<open>simp add: ReadPhysicalRecord.simps [of ops r]\<close>)
qed

lemma read_physical_cut:
  assumes at: "reader_at r (take k (physical t data)) off" and k: "k < kHeaderSize + length data"
    and fit: "off + kHeaderSize + length data \<le> kBlockSize"
  shows "\<exists>r'. ReadPhysicalRecord ops r result = (kEof, result, r') \<and> lr_reports r' = lr_reports r"
proof (cases "k < kHeaderSize")
  case True
  then show ?thesis using read_physical_short [OF at] by simp
next
  case False
  have len: "length data < 65536" using fit by (simp add: kBlockSize_def kHeaderSize_def)
  have buffered: "\<exists>r'. ReadPhysicalRecord ops q result = (kEof, result, r') \<and> lr_reports r' = lr_reports q"
    if q: "reader_at q (take k (physical t data)) off" "kHeaderSize \<le> length (lr_buffer q)" for q
  proof -
    have "length (lr_buffer q) \<le> k"
      using reader_at_length [OF q(1)] k by simp
    then have "lr_eof q"
      using q k fit by (auto simp: reader_at_def kHeaderSize_def split: if_splits)
    then have "lr_buffer q = take k (physical t data)" using q(1) by (simp add: reader_at_def)
    then show ?thesis
      using parse_physical_cut [OF _ _ k len \<open>lr_eof q\<close>, where result = result] False q(2)
      by (auto simp: ReadPhysicalRecord.simps [of ops q] kHeaderSize_def)
  qed
  show ?thesis
  proof (cases "kHeaderSize \<le> length (lr_buffer r)")
    case False
    then have short: "length (lr_buffer r) < kHeaderSize" by simp
    moreover have "\<not> lr_eof r"
    proof
      assume "lr_eof r"
      then have "length (take k (physical t data)) = length (lr_buffer r)"
        using at by (simp add: reader_at_def)
      then show False using short \<open>\<not> k < kHeaderSize\<close> k by simp
    qed
    moreover from this have "off = 0" "remaining (lr_file r) = take k (physical t data)"
      using at short fit by (auto simp: reader_at_def)
    ultimately obtain r' where r': "ReadPhysicalRecord ops r result = ReadPhysicalRecord ops r' result"
        "reader_at r' (take k (physical t data)) off" "lr_reports r' = lr_reports r"
        "lr_eof r' \<or> length (lr_buffer r') = kBlockSize"
      using refill [OF at] by metis
    have "lr_eof r' \<Longrightarrow> length (take k (physical t data)) = length (lr_buffer r')"
      using r'(2) by (simp add: reader_at_def)
    then have "kHeaderSize \<le> length (lr_buffer r')"
      using r'(4) \<open>\<not> k < kHeaderSize\<close> k by (auto simp: kBlockSize_def kHeaderSize_def)
    from buffered [OF r'(2) this] r'(1,3) show ?thesis by simp
  qed (use buffered at in blast)
qed

lemma ReadRecord_loop_cong:
  "ReadPhysicalRecord ops r frag = ReadPhysicalRecord ops r' frag \<Longrightarrow>
   ReadRecord_loop fuel ops r b acc p frag = ReadRecord_loop fuel ops r' b acc p frag"
  by (cases fuel) simp_all

lemma ReadRecord_loop_last:
  assumes "ReadPhysicalRecord ops r frag = (fragment_type bgn True, data, r')"
    and "reader_at r' S off" and "bgn \<Longrightarrow> acc = []"
  shows "\<exists>p'. ReadRecord_loop (Suc fuel) ops r (\<not> bgn) acc p frag =
      Some (Some (acc @ data), r'\<lparr>lr_last_record_offset := p'\<rparr>)"
  using assms by (cases bgn) (simp_all add: Let_def fragment_type_def record_type_defs, blast+)

lemma ReadRecord_loop_more:
  assumes "ReadPhysicalRecord ops r frag = (fragment_type bgn False, data, r')"
    and "reader_at r' S off" and "bgn \<Longrightarrow> acc = []"
  shows "\<exists>p'. ReadRecord_loop (Suc fuel) ops r (\<not> bgn) acc p frag =
      ReadRecord_loop fuel ops r' True (acc @ data) p' data"
  using assms by (cases bgn) (auto simp: Let_def fragment_type_def record_type_defs)

lemma ReadRecord_loop_eof:
  assumes "ReadPhysicalRecord ops r frag = (kEof, frag, r')" and "lr_reports r' = lr_reports r"
  shows "\<exists>r''. ReadRecord_loop (Suc fuel) ops r b acc p frag = Some (None, r'') \<and>
      lr_reports r'' = lr_reports r"
  using assms by (simp add: Let_def record_type_defs)

lemma log_enc_pad:
  assumes "kBlockSize - off < kHeaderSize"
  shows "log_enc off bgn data =
      (replicate (kBlockSize - off) 0 @ fst (log_enc 0 bgn data), snd (log_enc 0 bgn data))"
  using assms by (subst log_enc.simps) (simp split: prod.splits)

lemma log_enc_last:
  assumes "\<not> kBlockSize - off < kHeaderSize" and "length data \<le> kBlockSize - off - kHeaderSize"
  shows "log_enc off bgn data =
      (physical (fragment_type bgn True) data, off + kHeaderSize + length data)"
  using assms by (subst log_enc.simps) simp

lemma log_enc_more:
  assumes "\<not> kBlockSize - off < kHeaderSize" and "\<not> length data \<le> kBlockSize - off - kHeaderSize"
    and "n = kBlockSize - off - kHeaderSize"
  shows "log_enc off bgn data =
      (physical (fragment_type bgn False) (take n data) @ fst (log_enc kBlockSize False (drop n data)),
       snd (log_enc kBlockSize False (drop n data)))"
  using assms by (subst log_enc.simps) (simp add: Let_def split: prod.splits)

lemma ReadRecord_loop_enc:
  "off \<le> kBlockSize \<Longrightarrow> reader_at r (fst (log_enc off bgn data) @ S') off \<Longrightarrow>
   length (fst (log_enc off bgn data)) \<le> fuel \<Longrightarrow> (bgn \<Longrightarrow> acc = []) \<Longrightarrow>
   \<exists>r'. ReadRecord_loop fuel ops r (\<not> bgn) acc p frag = Some (Some (acc @ data), r') \<and>
      reader_at r' S' (snd (log_enc off bgn data)) \<and> snd (log_enc off bgn data) \<le> kBlockSize \<and>
      lr_reports r' = lr_reports r"
proof (induction off bgn data arbitrary: r acc p frag fuel rule: log_enc.induct)
  case (1 off bgn data)
  note at = "1.prems"(2) and fuel = "1.prems"(3) and acc = "1.prems"(4)
  show ?case
  proof (cases "kBlockSize - off < kHeaderSize")
    case True
    note enc = log_enc_pad [OF True, of bgn data]
    from read_physical_pad [OF _ True "1.prems"(1), of r "fst (log_enc 0 bgn data) @ S'" frag] at
    obtain r1 where "ReadPhysicalRecord ops r frag = ReadPhysicalRecord ops r1 frag"
      and "reader_at r1 (fst (log_enc 0 bgn data) @ S') 0" and "lr_reports r1 = lr_reports r"
      by (auto simp: enc)
    then show ?thesis
      using "1.IH"(1) [OF True _ _ _ acc, of r1 fuel p frag] fuel ReadRecord_loop_cong [of r frag r1]
      by (simp add: enc)
  next
    case False
    show ?thesis
    proof (cases "length data \<le> kBlockSize - off - kHeaderSize")
      case True
      note enc = log_enc_last [OF False True, of bgn]
      from fuel obtain fuel' where "fuel = Suc fuel'" by (cases fuel) (auto simp: enc kHeaderSize_def)
      have fit: "off + kHeaderSize + length data \<le> kBlockSize"
        using True False "1.prems"(1) by (simp add: kHeaderSize_def)
      from read_physical_good [OF _ fragment_type_data fit, of r bgn True S' frag] at
      obtain r1 where r1: "ReadPhysicalRecord ops r frag = (fragment_type bgn True, data, r1)"
        "reader_at r1 S' (off + kHeaderSize + length data)" "lr_reports r1 = lr_reports r"
        by (auto simp: enc)
      from ReadRecord_loop_last [OF r1(1,2) acc, of fuel' p] obtain p' where
        "ReadRecord_loop (Suc fuel') ops r (\<not> bgn) acc p frag =
           Some (Some (acc @ data), r1\<lparr>lr_last_record_offset := p'\<rparr>)" by blast
      then show ?thesis using r1 fit \<open>fuel = Suc fuel'\<close> by (simp add: enc)
    next
      case more: False
      define n where "n = kBlockSize - off - kHeaderSize"
      note enc = log_enc_more [OF False more n_def, of bgn]
      from fuel obtain fuel' where "fuel = Suc fuel'" by (cases fuel) (auto simp: enc kHeaderSize_def)
      have n: "off + kHeaderSize + length (take n data) = kBlockSize"
        using more False "1.prems"(1) by (simp add: n_def kHeaderSize_def)
      let ?rest = "fst (log_enc kBlockSize False (drop n data)) @ S'"
      from read_physical_good [OF _ fragment_type_data eq_imp_le [OF n], of r bgn False ?rest frag] at
      obtain r1 where r1: "ReadPhysicalRecord ops r frag = (fragment_type bgn False, take n data, r1)"
        "reader_at r1 ?rest kBlockSize" "lr_reports r1 = lr_reports r"
        using n by (auto simp: enc)
      from ReadRecord_loop_more [OF r1(1,2) acc, of fuel' p] obtain p' where
        step: "ReadRecord_loop (Suc fuel') ops r (\<not> bgn) acc p frag =
           ReadRecord_loop fuel' ops r1 True (acc @ take n data) p' (take n data)" by blast
      have "length (fst (log_enc kBlockSize False (drop n data))) \<le> fuel'"
        using fuel \<open>fuel = Suc fuel'\<close> by (simp add: enc kHeaderSize_def)
      from "1.IH"(2) [OF False more n_def _ r1(2) this, of "acc @ take n data" p' "take n data"]
      show ?thesis
        using step \<open>fuel = Suc fuel'\<close> r1(3) by (simp add: enc)
    qed
  qed
qed

lemma ReadRecord_loop_cut:
  "off \<le> kBlockSize \<Longrightarrow> reader_at r (take k (fst (log_enc off bgn data))) off \<Longrightarrow>
   k < length (fst (log_enc off bgn data)) \<Longrightarrow> k < fuel \<Longrightarrow> (bgn \<Longrightarrow> acc = []) \<Longrightarrow>
   \<exists>r'. ReadRecord_loop fuel ops r (\<not> bgn) acc p frag = Some (None, r') \<and> lr_reports r' = lr_reports r"
proof (induction off bgn data arbitrary: r acc p frag fuel k rule: log_enc.induct)
  case (1 off bgn data)
  note at = "1.prems"(2) and k = "1.prems"(3) and fuel = "1.prems"(4) and acc = "1.prems"(5)
  obtain fuel' where fuel': "fuel = Suc fuel'" using fuel by (cases fuel) auto
  have stop: ?case if "\<exists>r'. ReadPhysicalRecord ops r frag = (kEof, frag, r') \<and> lr_reports r' = lr_reports r"
    using that ReadRecord_loop_eof fuel' by metis
  show ?case
  proof (cases "kBlockSize - off < kHeaderSize")
    case True
    note enc = log_enc_pad [OF True, of bgn data]
    show ?thesis
    proof (cases "k < kBlockSize - off")
      case short: True
      show ?thesis
        by (rule stop) (use read_physical_short [OF at, of frag] k short True in \<open>simp add: enc\<close>)
    next
      case False
      let ?rest = "take (k - (kBlockSize - off)) (fst (log_enc 0 bgn data))"
      from read_physical_pad [OF _ True "1.prems"(1), of r ?rest frag] at False
      obtain r1 where r1: "ReadPhysicalRecord ops r frag = ReadPhysicalRecord ops r1 frag"
        "reader_at r1 ?rest 0" "lr_reports r1 = lr_reports r"
        by (auto simp: enc)
      from "1.IH"(1) [OF True _ r1(2) _ _ acc, of fuel p frag] show ?thesis
        using k fuel False r1(3) ReadRecord_loop_cong [OF r1(1)] by (simp add: enc)
    qed
  next
    case False
    note room = False
    show ?thesis
    proof (cases "length data \<le> kBlockSize - off - kHeaderSize")
      case True
      note enc = log_enc_last [OF False True, of bgn]
      have fit: "off + kHeaderSize + length data \<le> kBlockSize"
        using True False "1.prems"(1) by (simp add: kHeaderSize_def)
      show ?thesis
        by (rule stop) (use read_physical_cut [OF _ _ fit] at k in \<open>simp add: enc\<close>)
    next
      case more: False
      define n where "n = kBlockSize - off - kHeaderSize"
      note enc = log_enc_more [OF False more n_def, of bgn]
      have n: "off + kHeaderSize + length (take n data) = kBlockSize"
        using more False "1.prems"(1) by (simp add: n_def kHeaderSize_def)
      let ?ph = "physical (fragment_type bgn False) (take n data)"
      show ?thesis
      proof (cases "k < length ?ph")
        case True
        show ?thesis
          by (rule stop) (use read_physical_cut [OF _ _ eq_imp_le [OF n]] at True in \<open>simp add: enc\<close>)
      next
        case False
        let ?rest = "take (k - length ?ph) (fst (log_enc kBlockSize False (drop n data)))"
        from read_physical_good [OF _ fragment_type_data eq_imp_le [OF n], of r bgn False ?rest frag] at
        obtain r1 where r1: "ReadPhysicalRecord ops r frag = (fragment_type bgn False, take n data, r1)"
          "reader_at r1 ?rest kBlockSize" "lr_reports r1 = lr_reports r"
          using n False by (auto simp: enc)
        from ReadRecord_loop_more [OF r1(1,2) acc, of fuel' p] obtain p' where
          step: "ReadRecord_loop (Suc fuel') ops r (\<not> bgn) acc p frag =
             ReadRecord_loop fuel' ops r1 True (acc @ take n data) p' (take n data)" by blast
        have "k - length ?ph < length (fst (log_enc kBlockSize False (drop n data)))"
            and "k - length ?ph < fuel'"
          using k fuel fuel' False by (simp_all add: enc kHeaderSize_def)
        from "1.IH"(2) [OF room more n_def _ r1(2) this, of "acc @ take n data" p' "take n data"]
        show ?thesis using step fuel' r1(3) by simp
      qed
    qed
  qed
qed

end

text \<open>Reading to the end of a log, as recovery does.\<close>

fun read_log ::
    "nat \<Rightarrow> nat \<Rightarrow> 'f sequential_ops \<Rightarrow> 'f log_reader \<Rightarrow> (bytes list \<times> 'f log_reader) option" where
  "read_log 0 fuel ops r = None"
| "read_log (Suc n) fuel ops r =
     (case ReadRecord fuel ops r of
        None \<Rightarrow> None
      | Some (None, r') \<Rightarrow> Some ([], r')
      | Some (Some rec, r') \<Rightarrow>
          (case read_log n fuel ops r' of
             None \<Rightarrow> None
           | Some (recs, r'') \<Rightarrow> Some (rec # recs, r'')))"

text \<open>The records all of whose bytes are among the first \<open>k\<close> of the log.\<close>

fun log_complete :: "nat \<Rightarrow> nat \<Rightarrow> bytes list \<Rightarrow> bytes list" where
  "log_complete off k [] = []"
| "log_complete off k (d # ds) =
     (let (s, off') = log_enc off True d
      in if length s \<le> k then d # log_complete off' (k - length s) ds else [])"

lemma log_complete_prefix: "\<exists>m. log_complete off k ds = take m ds"
proof (induction ds arbitrary: off k)
  case (Cons d ds)
  obtain s off' where "log_enc off True d = (s, off')" by fastforce
  with Cons [of off' "k - length s"] show ?case
    by (auto intro: exI [of _ "Suc _"] exI [of _ 0])
qed simp

lemma log_complete_all: "length (log_encs off ds) \<le> k \<Longrightarrow> log_complete off k ds = ds"
  by (induction ds arbitrary: off k) (auto split: prod.splits)

context reliable_file
begin

lemma ReadRecord_at: "reader_at r S off \<Longrightarrow> ReadRecord fuel ops r = ReadRecord_loop fuel ops r False [] 0 []"
  by (simp add: ReadRecord_def reader_at_def)

lemma read_log_complete:
  "off \<le> kBlockSize \<Longrightarrow> reader_at r (take k (log_encs off ds)) off \<Longrightarrow>
   k < fuel \<or> length (log_encs off ds) < fuel \<Longrightarrow> length ds < n \<Longrightarrow>
   \<exists>r'. read_log n fuel ops r = Some (log_complete off k ds, r') \<and> lr_reports r' = lr_reports r"
proof (induction ds arbitrary: off k r n)
  case Nil
  obtain n' fuel' where "n = Suc n'" "fuel = Suc fuel'"
    using Nil.prems(3,4) by (cases n; cases fuel) auto
  with read_physical_short [OF Nil.prems(2), of "[]"]
    ReadRecord_loop_eof [where fuel = fuel' and b = False and acc = "[]" and p = 0 and frag = "[]"]
    Nil.prems(2)
  show ?case by (fastforce simp: ReadRecord_at kHeaderSize_def)
next
  case (Cons d ds)
  obtain s off' where enc: "log_enc off True d = (s, off')" by fastforce
  obtain n' where n': "n = Suc n'" using Cons.prems(4) by (cases n) auto
  note at = Cons.prems(2) [unfolded log_encs.simps enc Let_def prod.case]
  show ?case
  proof (cases "length s \<le> k")
    case True
    then have "reader_at r (s @ take (k - length s) (log_encs off' ds)) off" using at by simp
    from ReadRecord_loop_enc [of off r True d "take (k - length s) (log_encs off' ds)" fuel "[]" 0 "[]"]
      this Cons.prems(1,3) True
    obtain r1 where "ReadRecord_loop fuel ops r False [] 0 [] = Some (Some d, r1)"
      and at1: "reader_at r1 (take (k - length s) (log_encs off' ds)) off'" and "off' \<le> kBlockSize"
      and "lr_reports r1 = lr_reports r"
      by (auto simp: enc)
    moreover from Cons.IH [OF \<open>off' \<le> kBlockSize\<close> at1, of n'] Cons.prems(3,4) n'
    obtain r' where "read_log n' fuel ops r1 = Some (log_complete off' (k - length s) ds, r')"
      and "lr_reports r' = lr_reports r1"
      by (auto simp: enc less_imp_diff_less)
    ultimately show ?thesis
      using True n' at by (simp add: enc ReadRecord_at)
  next
    case False
    then have "reader_at r (take k s) off" using at by simp
    moreover have "k < fuel" using Cons.prems(3) False by (auto simp: enc)
    ultimately show ?thesis
      using ReadRecord_loop_cut [of off r k True d fuel "[]" 0 "[]"] Cons.prems(1) False n' at
      by (auto simp: enc ReadRecord_at)
  qed
qed

end

section \<open>The reader on arbitrary bytes\<close>

text \<open>
  Whatever the file holds, a physical record that is not the end of the file uses up bytes, so
  the reader's loop ends.
\<close>

context sequential_file
begin

definition unread :: "'f log_reader \<Rightarrow> nat" where
  "unread r = length (lr_buffer r) + length (remaining (lr_file r))"

lemma parse_physical_unread:
  assumes "parse_physical r result = (t, frag, r')" and "kHeaderSize \<le> length (lr_buffer r)"
  shows "unread r' < unread r"
  using assms
  by (auto simp: parse_physical_def Let_def unread_def ReportCorruption_def ReportDrop_def
      kHeaderSize_def split: if_splits)

lemma read_block_unread:
  assumes "read_block ops r = (OK, r')"
  shows "unread r' \<le> unread r"
proof -
  obtain data f' where rd: "op_Read ops (lr_file r) kBlockSize = (OK, data, f')"
    and r': "r' = r\<lparr>lr_file := f', lr_buffer := data, lr_end_of_buffer_offset :=
                      lr_end_of_buffer_offset r + word_of_nat (length data)\<rparr>"
    using assms by (auto simp: read_block_def split: prod.splits)
  show ?thesis
    using Read_data [OF rd] Read_remaining [OF rd] by (simp add: r' unread_def)
qed

lemma ReadPhysicalRecord_unread:
  "ReadPhysicalRecord op r result = (t, frag, r') \<Longrightarrow> op = ops \<Longrightarrow> t = kEof \<or> unread r' < unread r"
proof (induction op r result arbitrary: t frag r' rule: ReadPhysicalRecord.induct)
  case (1 op r result)
  note ops = "1.prems"(2)
  show ?case
  proof (cases "length (lr_buffer r) < kHeaderSize \<and> \<not> lr_eof r")
    case True
    obtain st r1 where rb: "read_block ops r = (st, r1)" by fastforce
    note step = "1.prems"(1) [unfolded ops ReadPhysicalRecord.simps [of ops r] rb]
    show ?thesis
    proof (cases "ok st")
      case False
      then show ?thesis using step True by (simp add: Let_def)
    next
      case okay: True
      have r1: "unread r1 \<le> unread r" "unread (r1\<lparr>lr_eof := True\<rparr>) = unread r1"
        using read_block_unread rb okay by (simp_all add: ok_def unread_def)
      show ?thesis
      proof (cases "length (lr_buffer r1) < kBlockSize")
        case short: True
        from "1.IH"(1) [unfolded ops, OF _ _ refl rb [symmetric] _ short, of t frag r'] True okay step short r1
        show ?thesis by auto
      next
        case False
        from "1.IH"(2) [unfolded ops, OF _ _ refl rb [symmetric] _ False, of t frag r'] True okay step False r1
        show ?thesis by auto
      qed
    qed
  next
    case False
    then show ?thesis
      using "1.prems"(1) parse_physical_unread [of r result t frag r']
      by (auto simp: ReadPhysicalRecord.simps [of op r] split: if_splits)
  qed
qed

lemma unread_update [simp]:
  "unread (r\<lparr>lr_resyncing := b\<rparr>) = unread r" "unread (ReportCorruption r n m) = unread r"
  by (simp_all add: unread_def ReportCorruption_def ReportDrop_def)

lemma ReadRecord_loop_terminates:
  "unread r < fuel \<Longrightarrow> ReadRecord_loop fuel ops r b acc p frag \<noteq> None"
proof (induction fuel arbitrary: r b acc p frag)
  case (Suc fuel)
  obtain t frag' r' where ph: "ReadPhysicalRecord ops r frag = (t, frag', r')"
    by (cases "ReadPhysicalRecord ops r frag")
  have again: "t = kEof \<or> ReadRecord_loop fuel ops q b acc p frag \<noteq> None"
    if "unread q = unread r'" for q b acc p frag
    using ReadPhysicalRecord_unread [OF ph refl] Suc.prems Suc.IH [of q b acc p frag] that by auto
  show ?case
  proof (cases "t = kEof")
    case True
    then show ?thesis using ph by (simp add: Let_def record_type_defs)
  next
    case False
    then have "ReadRecord_loop fuel ops q b acc p frag \<noteq> None" if "unread q = unread r'" for q b acc p frag
      using again that by blast
    then show ?thesis using ph by (simp add: Let_def del: not_None_eq)
  qed
qed simp

lemma ReadRecord_terminates:
  assumes "unread r < fuel"
  shows "ReadRecord fuel ops r \<noteq> None"
proof (cases "lr_last_record_offset r < lr_initial_offset r")
  case True
  obtain found r1 where sk: "SkipToInitialBlock ops r = (found, r1)" by fastforce
  have "found \<Longrightarrow> unread r1 \<le> unread r"
    using sk by (auto simp: SkipToInitialBlock_def Let_def unread_def ok_def
        split: prod.splits if_splits dest!: Skip_remaining)
  then show ?thesis
    using True sk assms ReadRecord_loop_terminates [of r1 fuel False "[]" 0 "[]"]
    by (auto simp: ReadRecord_def)
qed (use assms ReadRecord_loop_terminates in \<open>simp add: ReadRecord_def\<close>)

end

section \<open>Writing to a kernel that does not fail\<close>

abbreviation healthy :: "posix_writable log_writer \<Rightarrow> bool" where
  "healthy w \<equiv> no_failure (pw_fd (lw_dest w))"

lemma healthy_EmitPhysicalRecord:
  assumes "healthy w" and "EmitPhysicalRecord posix_writable_ops w t data = (s, w')"
  shows "s = OK \<and> healthy w'"
  using assms(2) assms(1)
  by (auto simp: EmitPhysicalRecord_def Let_def posix_writable_ops_def split: prod.splits if_splits
      dest!: no_failure_posix_Append [rotated] no_failure_FlushBuffer [rotated])

lemma healthy_switch_block: "healthy w \<Longrightarrow> healthy (switch_block posix_writable_ops w)"
  using no_failure_posix_Append [of "lw_dest w", OF _ prod.collapse [symmetric]]
  by (simp add: switch_block_def Let_def posix_writable_ops_def)

lemma healthy_AddRecord_loop:
  "AddRecord_loop op w bgn data = (s, w') \<Longrightarrow> op = posix_writable_ops \<Longrightarrow> healthy w \<Longrightarrow>
   s = OK \<and> healthy w'"
proof (induction op w bgn data arbitrary: s w' rule: AddRecord_loop.induct)
  case (1 op w bgn data)
  define w1 where "w1 = switch_block op w"
  define avail where "avail = kBlockSize - lw_block_offset w1 - kHeaderSize"
  define n where "n = (if length data < avail then length data else avail)"
  obtain s2 w2 where e: "EmitPhysicalRecord op w1 (fragment_type bgn (length data = n)) (take n data) = (s2, w2)"
    by fastforce
  note step = "1.prems"(1) [unfolded AddRecord_loop.simps [of op w] Let_def w1_def [symmetric]
      avail_def [symmetric] n_def [symmetric] e prod.case]
  have "s2 = OK \<and> healthy w2"
    using healthy_EmitPhysicalRecord e healthy_switch_block "1.prems"(2,3) w1_def by metis
  then show ?case
    using "1.IH" [OF w1_def avail_def n_def refl e [symmetric] refl refl, of s w'] step "1.prems"(2)
    by (auto split: if_splits)
qed

lemma healthy_AddRecords:
  "healthy w \<Longrightarrow> fst (AddRecords posix_writable_ops w ds) = OK"
proof (induction ds arbitrary: w)
  case (Cons d ds)
  obtain s w' where a: "AddRecord posix_writable_ops w d = (s, w')" by fastforce
  then have "s = OK \<and> healthy w'"
    unfolding AddRecord_def by (rule healthy_AddRecord_loop) (use Cons.prems in simp_all)
  then show ?case using a Cons.IH by simp
qed simp

section \<open>Properties\<close>

text \<open>
  C9: Crash safety of the log. Records are added to an empty file and the file is then cut
  after any number \<open>k\<close> of bytes: reading it back to the end returns exactly the records that
  lie completely within those bytes, in order, and reports no corruption; an uncut file
  returns all of them.
\<close>

theorem log_read_back:
  assumes "AddRecords posix_writable_ops (new_log_writer w 0) ds = (OK, lw)"
    and "posix_content w = []"
    and "fd_data (seq_fd f) = take k (fd_data (pw_fd (lw_dest lw)))"
    and "no_failure (seq_fd f)" and "k < fuel" and "length ds < n"
  shows "\<exists>r. read_log n fuel posix_sequential_ops (new_log_reader f True 0) =
               Some (log_complete 0 k ds, r) \<and> lr_reports r = [] \<and>
             (length (fd_data (pw_fd (lw_dest lw))) \<le> k \<longrightarrow> log_complete 0 k ds = ds)"
proof -
  have "pw_buf w = []" "fd_data (pw_fd w) = []"
    using assms(2) by (simp_all add: posix_content_def)
  then have "posix_log.at_offset (new_log_writer w 0)"
    by (simp add: posix_log.at_offset_def new_log_writer_def)
  note wr = posix_log.AddRecords_content [OF assms(1) this]
  have enc: "fd_data (pw_fd (lw_dest lw)) = log_encs 0 ds"
  proof (cases "ds = []")
    case True
    then show ?thesis
      using assms(1) \<open>fd_data (pw_fd w) = []\<close> by (auto simp: new_log_writer_def)
  next
    case False
    then show ?thesis
      using wr assms(2) by (simp add: posix_written_def new_log_writer_def)
  qed
  have "posix_rf.reader_at (new_log_reader f True 0) (take k (log_encs 0 ds)) 0"
    using assms(3,4) by (simp add: posix_rf.reader_at_def new_log_reader_def enc)
  from posix_rf.read_log_complete [OF _ this disjI1 [OF assms(5)] assms(6)]
  show ?thesis
    using log_complete_all [of 0 ds k] by (auto simp: enc new_log_reader_def)
qed

definition demo_file :: posix_writable where
  "demo_file = new_posix_writable [] \<lparr>fd_data = [], fd_answers = [Interrupted, Accepts 3]\<rparr>
     \<lparr>fd_data = [], fd_answers = []\<rparr>"

definition demo_log :: "posix_writable log_writer" where
  "demo_log = snd (AddRecords posix_writable_ops (new_log_writer demo_file 0) [[1], [2, 3]])"

theorem log_read_back_witness:
  "\<exists>r. read_log 3 10 posix_sequential_ops
         (new_log_reader \<lparr>seq_fd = \<lparr>fd_data = take 9 (fd_data (pw_fd (lw_dest demo_log))),
            fd_answers = [Interrupted]\<rparr>, seq_filename = []\<rparr> True 0) = Some ([[1]], r) \<and>
       lr_reports r = []"
proof -
  have "fst (AddRecords posix_writable_ops (new_log_writer demo_file 0) [[1], [2, 3]]) = OK"
    by (rule healthy_AddRecords)
      (simp add: demo_file_def new_log_writer_def new_posix_writable_def no_failure_def)
  then have "AddRecords posix_writable_ops (new_log_writer demo_file 0) [[1], [2, 3]] = (OK, demo_log)"
    by (simp add: demo_log_def prod_eq_iff)
  from log_read_back [OF this, of "\<lparr>seq_fd = \<lparr>fd_data = take 9 (fd_data (pw_fd (lw_dest demo_log))),
            fd_answers = [Interrupted]\<rparr>, seq_filename = []\<rparr>" 9 10 3]
  show ?thesis
    by (auto simp: demo_file_def new_posix_writable_def posix_content_def no_failure_def
        log_enc.simps kBlockSize_def kHeaderSize_def)
qed

text \<open>
  C17: A physical record one byte of whose payload or type was changed is never delivered by a reader that checks
  checksums and starts at the beginning of the file, as recovery does: it drops its whole buffer, reports a checksum mismatch for all of it, and goes
  on. The only change that is dropped without a report is the one that turns the type of an empty record into zero: that is what
  a preallocated part of a file looks like.
\<close>

theorem log_corruption_detected:
  assumes "lr_buffer r = take 6 (physical t data) @ (ucast t # data)[i := b] @ rest"
    and "i \<le> length data" and "(ucast t # data) ! i \<noteq> b"
    and "data_type t" and "length data < 65536" and "lr_checksum r" and "lr_initial_offset r = 0"
  shows "ReadPhysicalRecord ops r result =
           (kBadRecord, result,
            if data = [] \<and> i = 0 \<and> b = 0 then r\<lparr>lr_buffer := []\<rparr>
            else r\<lparr>lr_buffer := [],
                   lr_reports := lr_reports r @ [(word_of_nat (length (lr_buffer r)),
                                                  Corruption (bytes_of ''checksum mismatch''))]\<rparr>)"
proof -
  define pl where "pl = (ucast t # data)[i := b]"
  have pl: "length pl = Suc (length data)" "pl \<noteq> []" by (simp_all add: pl_def split: nat.splits)
  define crc where "crc = Mask (Value (ucast t # data))"
  obtain h0 h1 h2 h3 where e: "EncodeFixed32 crc = [h0, h1, h2, h3]"
    by (metis EncodeFixed32_def)
  have buf: "lr_buffer r = [h0, h1, h2, h3, word_of_nat (length data), word_of_nat (length data div 256)] @
      pl @ rest"
    by (simp add: assms(1) physical_def e [unfolded crc_def] pl_def)
  have len: "header_length (lr_buffer r) = length data"
    using header_length_enc [OF assms(5)] by (simp add: header_length_def buf)
  have "Value pl \<noteq> Value (ucast t # data)"
    unfolding pl_def using assms(2,3) Value_one_byte [of "(ucast t # data) ! i" b "take i (ucast t # data)"
        "drop (Suc i) (ucast t # data)"]
    by (metis id_take_nth_drop length_Cons less_Suc_eq_le upd_conv_take_nth_drop)
  moreover have "take (1 + length data) (drop 6 (lr_buffer r)) = pl"
    by (simp add: buf pl)
  moreover have "DecodeFixed32 (lr_buffer r) = crc"
    using DecodeFixed32_EncodeFixed32 [of crc] by (simp add: buf e)
  ultimately have crc: "Value (take (1 + length data) (drop 6 (lr_buffer r))) \<noteq>
      Unmask (DecodeFixed32 (lr_buffer r))"
    by (simp add: crc_def)
  have type: "lr_buffer r ! 6 = pl ! 0"
    by (simp add: buf nth_append pl)
  have long: "length (lr_buffer r) = kHeaderSize + length data + length rest"
    by (simp add: buf kHeaderSize_def pl)
  show ?thesis
  proof (cases "data = [] \<and> i = 0 \<and> b = 0")
    case True
    then have "pl ! 0 = 0" by (simp add: pl_def)
    then show ?thesis
      using len type long True by (simp add: ReadPhysicalRecord.simps [of ops r] parse_physical_def Let_def kZeroType_def)
  next
    case False
    then have "length data = 0 \<Longrightarrow> pl ! 0 \<noteq> 0" using assms(2) by (auto simp: pl_def)
    then have "\<not> (scast (lr_buffer r ! 6) = kZeroType \<and> length data = 0)"
      using type by (auto simp: kZeroType_def dest: scast_u8_eq_0)
    then show ?thesis
      using len crc long False assms(6,7)
      by (auto simp: ReadPhysicalRecord.simps [of ops r] parse_physical_def Let_def
          ReportCorruption_def ReportDrop_def)
  qed
qed

theorem log_corruption_detected_witness:
  "fst (ReadPhysicalRecord posix_sequential_ops
     ((new_log_reader \<lparr>seq_fd = \<lparr>fd_data = [], fd_answers = []\<rparr>, seq_filename = []\<rparr> True 0)
        \<lparr>lr_buffer := take 6 (physical kFullType [7]) @ (ucast kFullType # [7])[1 := 8] @ []\<rparr>) []) =
   kBadRecord"
  by (subst log_corruption_detected [where i = 1 and b = 8 and t = kFullType and data = "[7]"])
    (simp_all add: new_log_reader_def data_type_def)

text \<open>
  C18: Reading a record ends on every file, however corrupt, whatever the reader's state and
  the kernel's answers: as many rounds as there are unread bytes, and one, are enough.
\<close>

theorem log_reader_terminates:
  assumes "length (lr_buffer r) + length (fd_data (seq_fd (lr_file r))) < fuel"
  shows "\<exists>record r'. ReadRecord fuel posix_sequential_ops r = Some (record, r')"
  using posix_sf.ReadRecord_terminates [of r fuel] assms by (auto simp: posix_sf.unread_def)

theorem log_reader_terminates_witness:
  "\<exists>record r'. ReadRecord 9 posix_sequential_ops
     (new_log_reader \<lparr>seq_fd = \<lparr>fd_data = [0, 0, 0, 0, 0, 0, 0, 0],
        fd_answers = [Interrupted]\<rparr>, seq_filename = []\<rparr> True 0) = Some (record, r')"
  by (rule log_reader_terminates) (simp add: new_log_reader_def)

end
