(* ===== verification/Comparator.thy ===== *)
theory Comparator
  imports Prelude
begin

text \<open>
  Key order: \<^verbatim>\<open>Slice::compare\<close> of \<^verbatim>\<open>leveldb/slice.h\<close>, the \<^verbatim>\<open>Comparator\<close> interface and the
  bytewise comparator of \<^verbatim>\<open>util/comparator.cc\<close>. Every ordered component of the program (the
  memtable, blocks, tables, versions, iterators) is written against the interface.
\<close>

section \<open>Slices\<close>

text \<open>The sign of the C library's \<^verbatim>\<open>memcmp\<close> on the first \<open>n\<close> bytes, as unsigned characters.\<close>

fun memcmp :: "bytes \<Rightarrow> bytes \<Rightarrow> nat \<Rightarrow> int" where
  "memcmp (x # a) (y # b) (Suc n) = (if x < y then -1 else if y < x then 1 else memcmp a b n)"
| "memcmp a b n = 0"

definition slice_compare :: "bytes \<Rightarrow> bytes \<Rightarrow> int" where
  "slice_compare a b =
     (let min_len = (if length a < length b then length a else length b);
          r = memcmp a b min_len
      in if r = 0 then
           if length a < length b then -1 else if length a > length b then 1 else r
         else r)"

definition slice_starts_with :: "bytes \<Rightarrow> bytes \<Rightarrow> bool" where
  "slice_starts_with s x = (length s \<ge> length x \<and> memcmp s x (length x) = 0)"

definition slice_eq :: "bytes \<Rightarrow> bytes \<Rightarrow> bool" where
  "slice_eq x y = (length x = length y \<and> memcmp x y (length x) = 0)"

lemma slice_compare_simps [simp]:
  "slice_compare [] [] = 0" "slice_compare [] (y # b) = -1" "slice_compare (x # a) [] = 1"
  "slice_compare (x # a) (y # b) = (if x < y then -1 else if y < x then 1 else slice_compare a b)"
  by (simp_all add: slice_compare_def Let_def)

lemma slice_compare_eq_0 [simp]: "slice_compare a b = 0 \<longleftrightarrow> a = b"
proof (induction a arbitrary: b)
  case (Cons x a)
  then show ?case by (cases b) (auto simp: not_less_iff_gr_or_eq)
next
  case Nil
  then show ?case by (cases b) simp_all
qed

lemma slice_compare_self [simp]: "slice_compare a a = 0"
  by simp

lemma slice_compare_swap: "slice_compare b a = - slice_compare a b"
proof (induction a arbitrary: b)
  case (Cons x a)
  then show ?case by (cases b) auto
next
  case Nil
  then show ?case by (cases b) simp_all
qed

lemma slice_compare_trans:
  "slice_compare a b \<le> 0 \<Longrightarrow> slice_compare b c \<le> 0 \<Longrightarrow> slice_compare a c \<le> 0"
proof (induction a arbitrary: b c)
  case (Cons x a)
  then obtain y b' where b: "b = y # b'" by (cases b) auto
  with Cons.prems obtain z c' where "c = z # c'" by (cases c) auto
  with b Cons show ?case by (auto split: if_splits)
next
  case Nil
  then show ?case by (cases c) simp_all
qed

lemma memcmp_eq_0: "length a = length b \<Longrightarrow> memcmp a b (length a) = 0 \<longleftrightarrow> a = b"
  by (induction a b rule: list_induct2) (auto simp: not_less_iff_gr_or_eq)

lemma slice_eq_iff: "slice_eq a b \<longleftrightarrow> a = b"
  unfolding slice_eq_def using memcmp_eq_0 by blast

lemma slice_starts_with_iff: "slice_starts_with s x \<longleftrightarrow> (\<exists>r. s = x @ r)"
proof (induction x arbitrary: s)
  case (Cons y x)
  then show ?case
    by (cases s) (auto simp: slice_starts_with_def not_less_iff_gr_or_eq)
qed (simp add: slice_starts_with_def)

section \<open>The interface\<close>

record comparator =
  cmp_Name :: bytes
  cmp_Compare :: "bytes \<Rightarrow> bytes \<Rightarrow> int"
  cmp_FindShortestSeparator :: "bytes \<Rightarrow> bytes \<Rightarrow> bytes"
  cmp_FindShortSuccessor :: "bytes \<Rightarrow> bytes"

text \<open>
  The contract of \<^verbatim>\<open>leveldb/comparator.h\<close>: a total order (up to keys that compare equal), which
  is all that most clients need and an interface of its own, and
  separators and successors that lie where the index of a table needs them. \<open>valid\<close> is the set
  of keys the comparator is used on. \<open>sep_eq\<close> is not in the header but needed by the internal
  key comparator, which asks for separators between two versions of one user key.
\<close>

locale key_order =
  fixes compare :: "'k \<Rightarrow> 'k \<Rightarrow> int" and valid :: "'k \<Rightarrow> bool"
  assumes swap: "valid a \<Longrightarrow> valid b \<Longrightarrow> sgn (compare b a) = - sgn (compare a b)"
    and trans: "valid a \<Longrightarrow> valid b \<Longrightarrow> valid c \<Longrightarrow>
      compare a b \<le> 0 \<Longrightarrow> compare b c \<le> 0 \<Longrightarrow> compare a c \<le> 0"
begin

abbreviation less :: "'k \<Rightarrow> 'k \<Rightarrow> bool" where
  "less a b \<equiv> compare a b < 0"

lemma compare_refl [simp]: "valid a \<Longrightarrow> compare a a = 0"
  using swap [of a a] by (auto simp: sgn_if split: if_splits)

lemma compare_gt: "valid a \<Longrightarrow> valid b \<Longrightarrow> compare a b > 0 \<longleftrightarrow> less b a"
  using swap [of a b] by (auto simp: sgn_if split: if_splits)

lemma compare_ge: "valid a \<Longrightarrow> valid b \<Longrightarrow> compare a b \<ge> 0 \<longleftrightarrow> compare b a \<le> 0"
  using swap [of a b] by (auto simp: sgn_if split: if_splits)

lemma compare_eq_sym: "valid a \<Longrightarrow> valid b \<Longrightarrow> compare a b = 0 \<longleftrightarrow> compare b a = 0"
  using swap [of a b] by (auto simp: sgn_if split: if_splits)

lemma le_less_trans:
  assumes "valid a" "valid b" "valid c" and "compare a b \<le> 0" and "less b c"
  shows "less a c"
proof (rule ccontr)
  assume "\<not> less a c"
  then have "compare c a \<le> 0" using compare_ge [of a c] assms(1,3) by simp
  then have "compare c b \<le> 0" using trans [of c a b] assms(1-4) by simp
  then show False using compare_ge [of b c] assms(2,3,5) by simp
qed

lemma less_le_trans:
  assumes "valid a" "valid b" "valid c" and "less a b" and "compare b c \<le> 0"
  shows "less a c"
proof (rule ccontr)
  assume "\<not> less a c"
  then have "compare c a \<le> 0" using compare_ge [of a c] assms(1,3) by simp
  then have "compare b a \<le> 0" using trans [of b c a] assms(1-3,5) by simp
  then show False using compare_ge [of a b] assms(1,2,4) by simp
qed

lemma less_trans: "valid a \<Longrightarrow> valid b \<Longrightarrow> valid c \<Longrightarrow> less a b \<Longrightarrow> less b c \<Longrightarrow> less a c"
  using le_less_trans [of a b c] by simp

lemma less_irrefl: "valid a \<Longrightarrow> \<not> less a a"
  by simp

lemma less_asym: "valid a \<Longrightarrow> valid b \<Longrightarrow> less a b \<Longrightarrow> \<not> less b a"
  using compare_gt [of b a] by auto

lemma not_less: "valid a \<Longrightarrow> valid b \<Longrightarrow> \<not> less a b \<longleftrightarrow> compare b a \<le> 0"
  using compare_ge [of a b] by (simp add: linorder_not_less)

text \<open>In a list sorted by its keys \<open>f\<close>, the elements below a target are a prefix.\<close>

lemma sorted_takeWhile_filter:
  assumes "sorted_wrt (\<lambda>a b. less (f a) (f b)) ks" and "\<forall>k \<in> set ks. valid (f k)" and "valid t"
  shows "takeWhile (\<lambda>k. less (f k) t) ks = filter (\<lambda>k. less (f k) t) ks"
  using assms
proof (induction ks)
  case (Cons k ks)
  show ?case
  proof (cases "less (f k) t")
    case False
    then have "\<forall>x \<in> set ks. \<not> less (f x) t" using Cons.prems less_trans [of "f k" _ t] by auto
    then have "filter (\<lambda>k. less (f k) t) ks = []" by (simp add: filter_empty_conv)
    then show ?thesis using False by simp
  qed (use Cons in simp)
qed simp

lemma sorted_dropWhile_ge:
  assumes "sorted_wrt (\<lambda>a b. less (f a) (f b)) ks" and "\<forall>k \<in> set ks. valid (f k)" and "valid t"
    and "k \<in> set (dropWhile (\<lambda>k. less (f k) t) ks)"
  shows "compare t (f k) \<le> 0"
  using assms
proof (induction ks)
  case (Cons a ks)
  show ?case
  proof (cases "less (f a) t")
    case False
    then have "compare t (f a) \<le> 0" using Cons.prems not_less [of "f a" t] by simp
    then show ?thesis
      using Cons.prems False trans [of t "f a" "f k"] by (auto intro: order.strict_implies_order)
  qed (use Cons in simp)
qed simp

end

locale comparator = key_order "cmp_Compare cmp" valid
  for cmp :: comparator and valid :: "bytes \<Rightarrow> bool" +
  assumes sep_valid: "valid a \<Longrightarrow> valid b \<Longrightarrow> valid (cmp_FindShortestSeparator cmp a b)"
    and sep: "valid a \<Longrightarrow> valid b \<Longrightarrow> cmp_Compare cmp a b < 0 \<Longrightarrow>
      cmp_Compare cmp a (cmp_FindShortestSeparator cmp a b) \<le> 0 \<and>
      cmp_Compare cmp (cmp_FindShortestSeparator cmp a b) b < 0"
    and sep_eq: "valid a \<Longrightarrow> valid b \<Longrightarrow> cmp_Compare cmp a b = 0 \<Longrightarrow>
      cmp_Compare cmp a (cmp_FindShortestSeparator cmp a b) = 0"
    and succ_valid: "valid a \<Longrightarrow> valid (cmp_FindShortSuccessor cmp a)"
    and succ: "valid a \<Longrightarrow> cmp_Compare cmp a (cmp_FindShortSuccessor cmp a) \<le> 0"

section \<open>The bytewise comparator\<close>

text \<open>The first position at which the two strings differ, or the length of the shorter one.\<close>

fun diff_index :: "bytes \<Rightarrow> bytes \<Rightarrow> nat" where
  "diff_index (x # a) (y # b) = (if x = y then Suc (diff_index a b) else 0)"
| "diff_index a b = 0"

definition bytewise_FindShortestSeparator :: "bytes \<Rightarrow> bytes \<Rightarrow> bytes" where
  "bytewise_FindShortestSeparator start limit =
     (let min_length = min (length start) (length limit);
          d = diff_index start limit
      in if d \<ge> min_length then start
         else
           let diff_byte = start ! d
           in if diff_byte < 0xff \<and> unat diff_byte + 1 < unat (limit ! d)
              then take (d + 1) (start[d := start ! d + 1])
              else start)"

fun bytewise_FindShortSuccessor :: "bytes \<Rightarrow> bytes" where
  "bytewise_FindShortSuccessor [] = []"
| "bytewise_FindShortSuccessor (byte # key) =
     (if byte \<noteq> 0xff then [byte + 1] else byte # bytewise_FindShortSuccessor key)"

definition BytewiseComparator :: comparator where
  "BytewiseComparator =
     \<lparr>cmp_Name = bytes_of ''leveldb.BytewiseComparator'', cmp_Compare = slice_compare,
      cmp_FindShortestSeparator = bytewise_FindShortestSeparator,
      cmp_FindShortSuccessor = bytewise_FindShortSuccessor\<rparr>"

lemma BytewiseComparator_simps [simp]:
  "cmp_Compare BytewiseComparator = slice_compare"
  "cmp_FindShortestSeparator BytewiseComparator = bytewise_FindShortestSeparator"
  "cmp_FindShortSuccessor BytewiseComparator = bytewise_FindShortSuccessor"
  by (simp_all add: BytewiseComparator_def)

lemma u8_succ:
  assumes "(x :: u8) \<noteq> 0xff"
  shows "unat (x + 1) = unat x + 1" and "x < x + 1"
proof -
  have "unat x \<noteq> 255"
  proof
    assume "unat x = 255"
    then have "unat x = unat (0xff :: u8)" by simp
    then show False using assms by (simp only: word_unat_eq_iff)
  qed
  then have "unat x + 1 < 256" using unat_less_exp [of x] by simp
  then show "unat (x + 1) = unat x + 1" by (simp add: unat_word_ariths)
  then show "x < x + 1" by (simp add: word_less_nat_alt)
qed

lemma diff_index_split:
  "diff_index a b < min (length a) (length b) \<Longrightarrow>
   \<exists>p x u y v. a = p @ x # u \<and> b = p @ y # v \<and> x \<noteq> y \<and> length p = diff_index a b"
proof (induction a b rule: diff_index.induct)
  case (1 x a y b)
  show ?case
  proof (cases "x = y")
    case True
    with 1 obtain p x' u y' v where "a = p @ x' # u" "b = p @ y' # v" "x' \<noteq> y'"
      "length p = diff_index a b" by auto
    with True have "x # a = (x # p) @ x' # u \<and> y # b = (x # p) @ y' # v \<and> x' \<noteq> y' \<and>
      length (x # p) = diff_index (x # a) (y # b)" by simp
    then show ?thesis by blast
  next
    case False
    then have "x # a = [] @ x # a \<and> y # b = [] @ y # b \<and> x \<noteq> y \<and>
      length [] = diff_index (x # a) (y # b)" by simp
    then show ?thesis by blast
  qed
qed simp_all

lemma slice_compare_append [simp]: "slice_compare (p @ a) (p @ b) = slice_compare a b"
  by (induction p) simp_all

text \<open>A separator is the start key itself or a common prefix whose next byte is incremented.\<close>

lemma bytewise_separator_cases:
  obtains (same) "bytewise_FindShortestSeparator start limit = start"
  | (shorter) p x u y v where "start = p @ x # u" and "limit = p @ y # v" and "x < x + 1"
      and "x + 1 < y" and "x < y" and "bytewise_FindShortestSeparator start limit = p @ [x + 1]"
proof (cases "bytewise_FindShortestSeparator start limit = start")
  case False
  let ?d = "diff_index start limit"
  from False have d: "?d < min (length start) (length limit)"
    by (auto simp: bytewise_FindShortestSeparator_def Let_def not_le split: if_splits)
  from diff_index_split [OF d] obtain p x u y v where s: "start = p @ x # u" "limit = p @ y # v"
    and len: "length p = ?d" by blast
  have nth: "start ! ?d = x" "limit ! ?d = y"
    by (metis s(1) len nth_append_length, metis s(2) len nth_append_length)
  have upd: "take (?d + 1) (start[?d := x + 1]) = p @ [x + 1]"
    by (metis s(1) len append_take_drop_id list_update_length take_Suc_conv_app_nth Suc_eq_plus1
        nth_append_length length_list_update take_append_length length_append_singleton append.assoc
        append_Cons append_Nil)
  have c: "x < 0xff" "unat x + 1 < unat y" "bytewise_FindShortestSeparator start limit = p @ [x + 1]"
    using False d upd unfolding bytewise_FindShortestSeparator_def Let_def nth
    by (auto split: if_splits)
  have "x \<noteq> 0xff" using c(1) by auto
  then have "x < x + 1" "x + 1 < y" "x < y"
    using u8_succ [of x] c(2) by (simp_all add: word_less_nat_alt)
  with that(2) s c show ?thesis by blast
qed (use that in blast)

lemma bytewise_separator:
  assumes "slice_compare start limit < 0"
  shows "slice_compare start (bytewise_FindShortestSeparator start limit) \<le> 0"
    and "slice_compare (bytewise_FindShortestSeparator start limit) limit < 0"
    and "length (bytewise_FindShortestSeparator start limit) \<le> length start"
proof -
  have "slice_compare start (bytewise_FindShortestSeparator start limit) \<le> 0 \<and>
      slice_compare (bytewise_FindShortestSeparator start limit) limit < 0 \<and>
      length (bytewise_FindShortestSeparator start limit) \<le> length start"
  proof (cases rule: bytewise_separator_cases [of start limit])
    case (shorter p x u y v)
    show ?thesis
      unfolding shorter(6) using shorter(3-5) by (simp add: shorter(1,2))
  qed (use assms in simp)
  then show "slice_compare start (bytewise_FindShortestSeparator start limit) \<le> 0"
    and "slice_compare (bytewise_FindShortestSeparator start limit) limit < 0"
    and "length (bytewise_FindShortestSeparator start limit) \<le> length start" by simp_all
qed

lemma bytewise_successor:
  "slice_compare key (bytewise_FindShortSuccessor key) \<le> 0"
  "length (bytewise_FindShortSuccessor key) \<le> length key"
  by (induction key) (auto dest: u8_succ(2))

interpretation bytewise: comparator BytewiseComparator "\<lambda>_. True"
proof unfold_locales
  fix a b c :: bytes
  show "sgn (cmp_Compare BytewiseComparator b a) = - sgn (cmp_Compare BytewiseComparator a b)"
    using slice_compare_swap [of a b] by (simp add: BytewiseComparator_def sgn_if)
  show "cmp_Compare BytewiseComparator a (cmp_FindShortestSeparator BytewiseComparator a b) = 0"
    if "cmp_Compare BytewiseComparator a b = 0"
    using that by (cases rule: bytewise_separator_cases [of a b]) (auto simp: BytewiseComparator_def)
qed (auto simp: BytewiseComparator_def bytewise_separator bytewise_successor
    intro: slice_compare_trans)

end
