(* ===== verification/DbFormat.thy ===== *)
theory DbFormat
  imports Coding Comparator "HOL-Library.Word"
begin

text \<open>
  Internal keys, \<^verbatim>\<open>db/dbformat.h\<close> and \<^verbatim>\<open>db/dbformat.cc\<close>: a user key followed by eight bytes
  that pack a 56-bit sequence number and a value type, their order (newer versions of a user
  key first) and the keys used for lookups.
\<close>

section \<open>Constants and keys\<close>

definition kNumLevels :: nat where "kNumLevels = 7"
definition kL0_CompactionTrigger :: nat where "kL0_CompactionTrigger = 4"
definition kL0_SlowdownWritesTrigger :: nat where "kL0_SlowdownWritesTrigger = 8"
definition kL0_StopWritesTrigger :: nat where "kL0_StopWritesTrigger = 12"
definition kMaxMemCompactLevel :: nat where "kMaxMemCompactLevel = 2"
definition kReadBytesPeriod :: nat where "kReadBytesPeriod = 1048576"

datatype ValueType = kTypeDeletion | kTypeValue

definition type_code :: "ValueType \<Rightarrow> u64" where
  "type_code t = (case t of kTypeDeletion \<Rightarrow> 0 | kTypeValue \<Rightarrow> 1)"

definition kValueTypeForSeek :: ValueType where
  "kValueTypeForSeek = kTypeValue"

instantiation ValueType :: linorder
begin

definition less_eq_ValueType :: "ValueType \<Rightarrow> ValueType \<Rightarrow> bool" where
  "less_eq_ValueType a b = (type_code a \<le> type_code b)"

definition less_ValueType :: "ValueType \<Rightarrow> ValueType \<Rightarrow> bool" where
  "less_ValueType a b = (type_code a < type_code b)"

instance
  by standard (auto simp: less_eq_ValueType_def less_ValueType_def type_code_def
      split: ValueType.splits)

end

definition kMaxSequenceNumber :: u64 where
  "kMaxSequenceNumber = push_bit 56 1 - 1"

record parsed_internal_key =
  pik_user_key :: bytes
  pik_sequence :: u64
  pik_type :: ValueType

definition PackSequenceAndType :: "u64 \<Rightarrow> ValueType \<Rightarrow> u64" where
  "PackSequenceAndType seq t = push_bit 8 seq OR type_code t"

definition AppendInternalKey :: "bytes \<Rightarrow> parsed_internal_key \<Rightarrow> bytes" where
  "AppendInternalKey result key =
     PutFixed64 (result @ pik_user_key key) (PackSequenceAndType (pik_sequence key) (pik_type key))"

text \<open>\<^verbatim>\<open>InternalKey(user_key, s, t)\<close>\<close>

definition InternalKey :: "bytes \<Rightarrow> u64 \<Rightarrow> ValueType \<Rightarrow> bytes" where
  "InternalKey user_key s t =
     AppendInternalKey [] \<lparr>pik_user_key = user_key, pik_sequence = s, pik_type = t\<rparr>"

definition ExtractUserKey :: "bytes \<Rightarrow> bytes" where
  "ExtractUserKey internal_key = take (length internal_key - 8) internal_key"

definition ParseInternalKey :: "bytes \<Rightarrow> parsed_internal_key option" where
  "ParseInternalKey internal_key =
     (let n = length internal_key in
      if n < 8 then None
      else
        let num = DecodeFixed64 (drop (n - 8) internal_key);
            c = ucast (num AND 0xff) :: u8
        in if c \<le> 1
           then Some \<lparr>pik_user_key = take (n - 8) internal_key, pik_sequence = drop_bit 8 num,
                      pik_type = (if c = 0 then kTypeDeletion else kTypeValue)\<rparr>
           else None)"

definition InternalKeyEncodingLength :: "parsed_internal_key \<Rightarrow> nat" where
  "InternalKeyEncodingLength key = length (pik_user_key key) + 8"

section \<open>InternalKeyComparator\<close>

text \<open>The packed number in the last eight bytes of an internal key.\<close>

definition key_tag :: "bytes \<Rightarrow> u64" where
  "key_tag ikey = DecodeFixed64 (drop (length ikey - 8) ikey)"

definition ikey_Compare :: "comparator \<Rightarrow> bytes \<Rightarrow> bytes \<Rightarrow> int" where
  "ikey_Compare user akey bkey =
     (let r = cmp_Compare user (ExtractUserKey akey) (ExtractUserKey bkey) in
      if r = 0 then
        if key_tag akey > key_tag bkey then -1 else if key_tag akey < key_tag bkey then 1 else r
      else r)"

definition ikey_FindShortestSeparator :: "comparator \<Rightarrow> bytes \<Rightarrow> bytes \<Rightarrow> bytes" where
  "ikey_FindShortestSeparator user start limit =
     (let user_start = ExtractUserKey start;
          user_limit = ExtractUserKey limit;
          tmp = cmp_FindShortestSeparator user user_start user_limit
      in if length tmp < length user_start \<and> cmp_Compare user user_start tmp < 0
         then PutFixed64 tmp (PackSequenceAndType kMaxSequenceNumber kValueTypeForSeek)
         else start)"

definition ikey_FindShortSuccessor :: "comparator \<Rightarrow> bytes \<Rightarrow> bytes" where
  "ikey_FindShortSuccessor user key =
     (let user_key = ExtractUserKey key;
          tmp = cmp_FindShortSuccessor user user_key
      in if length tmp < length user_key \<and> cmp_Compare user user_key tmp < 0
         then PutFixed64 tmp (PackSequenceAndType kMaxSequenceNumber kValueTypeForSeek)
         else key)"

definition InternalKeyComparator :: "comparator \<Rightarrow> comparator" where
  "InternalKeyComparator user =
     \<lparr>cmp_Name = bytes_of ''leveldb.InternalKeyComparator'', cmp_Compare = ikey_Compare user,
      cmp_FindShortestSeparator = ikey_FindShortestSeparator user,
      cmp_FindShortSuccessor = ikey_FindShortSuccessor user\<rparr>"

section \<open>LookupKey\<close>

text \<open>The buffer and the offsets of the user key and of the end.\<close>

record lookup_key =
  lk_buf :: bytes
  lk_kstart :: nat
  lk_end :: nat

definition LookupKey :: "bytes \<Rightarrow> u64 \<Rightarrow> lookup_key" where
  "LookupKey user_key s =
     (let len = EncodeVarint32 (word_of_nat (length user_key + 8));
          buf = len @ user_key @ EncodeFixed64 (PackSequenceAndType s kValueTypeForSeek)
      in \<lparr>lk_buf = buf, lk_kstart = length len, lk_end = length len + length user_key + 8\<rparr>)"

definition lk_memtable_key :: "lookup_key \<Rightarrow> bytes" where
  "lk_memtable_key k = take (lk_end k) (lk_buf k)"

definition lk_internal_key :: "lookup_key \<Rightarrow> bytes" where
  "lk_internal_key k = take (lk_end k - lk_kstart k) (drop (lk_kstart k) (lk_buf k))"

definition lk_user_key :: "lookup_key \<Rightarrow> bytes" where
  "lk_user_key k = take (lk_end k - lk_kstart k - 8) (drop (lk_kstart k) (lk_buf k))"

section \<open>Keys and their parts\<close>

lemma InternalKey_eq: "InternalKey u s t = u @ EncodeFixed64 (PackSequenceAndType s t)"
  by (simp add: InternalKey_def AppendInternalKey_def PutFixed64_def)

lemma length_InternalKey [simp]: "length (InternalKey u s t) = length u + 8"
  by (simp add: InternalKey_eq)

lemma ExtractUserKey_append [simp]: "ExtractUserKey (u @ EncodeFixed64 n) = u"
  by (simp add: ExtractUserKey_def)

lemma ExtractUserKey_InternalKey [simp]: "ExtractUserKey (InternalKey u s t) = u"
  by (simp add: InternalKey_eq)

lemma key_tag_append [simp]: "key_tag (u @ EncodeFixed64 n) = n"
  using DecodeFixed64_EncodeFixed64 [of n "[]"] by (simp add: key_tag_def)

lemma key_tag_InternalKey [simp]: "key_tag (InternalKey u s t) = PackSequenceAndType s t"
  by (simp add: InternalKey_eq)

lemma type_code_less: "type_code t \<le> 1"
  by (simp add: type_code_def split: ValueType.splits)

lemma kMaxSequenceNumber_mask: "kMaxSequenceNumber = mask 56"
  by (simp add: kMaxSequenceNumber_def mask_eq_exp_minus_1)

lemma seq_bits: "s \<le> kMaxSequenceNumber \<Longrightarrow> take_bit 56 s = s"
proof -
  assume "s \<le> kMaxSequenceNumber"
  then have "unat s \<le> unat (kMaxSequenceNumber)" by (simp only: word_le_nat_alt)
  then have "unat s < 2 ^ 56" by (simp add: kMaxSequenceNumber_def)
  then show ?thesis
    by (simp only: word_unat_eq_iff unsigned_take_bit_eq take_bit_nat_eq_self)
qed

lemma drop_Pack: "s \<le> kMaxSequenceNumber \<Longrightarrow> drop_bit 8 (PackSequenceAndType s t) = s"
proof (rule bit_word_eqI)
  fix n
  assume s: "s \<le> kMaxSequenceNumber" and "n < LENGTH(64)"
  then have "56 \<le> n \<Longrightarrow> \<not> bit s n"
    using seq_bits [OF s] by (metis bit_take_bit_iff not_less)
  then show "bit (drop_bit 8 (PackSequenceAndType s t)) n = bit s n"
    using \<open>n < LENGTH(64)\<close>
    by (cases "n < 56") (auto simp: PackSequenceAndType_def type_code_def bit_simps split: ValueType.splits)
qed

lemma take_Pack: "take_bit 8 (PackSequenceAndType s t) = type_code t"
  by (rule bit_word_eqI)
    (auto simp: PackSequenceAndType_def type_code_def bit_simps split: ValueType.splits)

lemma Parse_InternalKey:
  assumes "s \<le> kMaxSequenceNumber"
  shows "ParseInternalKey (InternalKey u s t) = Some \<lparr>pik_user_key = u, pik_sequence = s, pik_type = t\<rparr>"
proof -
  have "DecodeFixed64 (drop (length u) (InternalKey u s t)) = PackSequenceAndType s t"
    using DecodeFixed64_EncodeFixed64 [of _ "[]"] by (simp add: InternalKey_eq)
  moreover have "(ucast (PackSequenceAndType s t AND 0xff) :: u8) = ucast (type_code t)"
  proof -
    have "PackSequenceAndType s t AND 0xff = type_code t"
      using take_Pack [of s t] by (simp add: take_bit_eq_mask mask_eq_decr_exp)
    then show ?thesis by simp
  qed
  moreover have "take (length u) (InternalKey u s t) = u" by (simp add: InternalKey_eq)
  ultimately show ?thesis
    using drop_Pack [OF assms, of t]
    by (cases t) (simp_all add: ParseInternalKey_def Let_def type_code_def)
qed

lemma Parse_user_key:
  "ParseInternalKey k = Some p \<Longrightarrow> pik_user_key p = ExtractUserKey k \<and> 8 \<le> length k"
  by (auto simp: ParseInternalKey_def Let_def ExtractUserKey_def split: if_splits)

text \<open>The order of packed numbers is the lexicographic order of sequence and type.\<close>

lemma Pack_unat:
  assumes "s \<le> kMaxSequenceNumber"
  shows "unat (PackSequenceAndType s t) = unat s * 256 + unat (type_code t)"
proof -
  have "PackSequenceAndType s t = push_bit 8 (drop_bit 8 (PackSequenceAndType s t)) +
      take_bit 8 (PackSequenceAndType s t)"
    by (simp only: push_bit_eq_mult drop_bit_eq_div take_bit_eq_mod mult.commute mult_div_mod_eq)
  then have eq: "PackSequenceAndType s t = push_bit 8 s + type_code t"
    by (simp only: drop_Pack [OF assms] take_Pack)
  have "unat s \<le> unat kMaxSequenceNumber" using assms by (simp only: word_le_nat_alt)
  then have "unat s < 2 ^ 56" by (simp add: kMaxSequenceNumber_def)
  moreover have "unat (type_code t) \<le> 1" using type_code_less [of t] by (simp add: word_le_nat_alt)
  ultimately show ?thesis
    by (simp add: eq unat_word_ariths push_bit_eq_mult)
qed

lemma Pack_less_iff:
  assumes "s \<le> kMaxSequenceNumber" and "s' \<le> kMaxSequenceNumber"
  shows "PackSequenceAndType s t < PackSequenceAndType s' t' \<longleftrightarrow> s < s' \<or> s = s' \<and> t < t'"
proof -
  have "unat (type_code t) \<le> 1" "unat (type_code t') \<le> 1"
    using type_code_less [of t] type_code_less [of t'] by (simp_all add: word_le_nat_alt)
  then show ?thesis
    by (auto simp: word_less_nat_alt Pack_unat assms less_ValueType_def word_unat_eq_iff)
qed

section \<open>The order of internal keys\<close>

abbreviation internal_key :: "bytes \<Rightarrow> bool" where
  "internal_key k \<equiv> 8 \<le> length k"

text \<open>
  A user comparator works on all strings; then the internal comparator meets the same contract
  on all strings long enough to be internal keys.
\<close>

locale user_comparator = comparator cmp "\<lambda>_. True" for cmp
begin

lemma user_less_trans: "less a b \<Longrightarrow> less b c \<Longrightarrow> less a c"
  by (rule less_trans) simp_all

lemma ikey_sep_cases:
  obtains (same) "ikey_FindShortestSeparator cmp a b = a"
  | (shorter) tmp where "ikey_FindShortestSeparator cmp a b =
        tmp @ EncodeFixed64 (PackSequenceAndType kMaxSequenceNumber kValueTypeForSeek)"
      and "tmp = cmp_FindShortestSeparator cmp (ExtractUserKey a) (ExtractUserKey b)"
      and "less (ExtractUserKey a) tmp" and "length tmp < length a - 8"
proof (cases "ikey_FindShortestSeparator cmp a b = a")
  case False
  then show thesis
    using shorter by (simp add: ikey_FindShortestSeparator_def Let_def PutFixed64_def
        ExtractUserKey_def split: if_splits)
qed (use same in blast)

lemma ikey_Compare_less:
  "ikey_Compare cmp a b < 0 \<longleftrightarrow>
   less (ExtractUserKey a) (ExtractUserKey b) \<or>
   cmp_Compare cmp (ExtractUserKey a) (ExtractUserKey b) = 0 \<and> key_tag a > key_tag b"
  by (auto simp: ikey_Compare_def Let_def)

lemma ikey_Compare_le:
  "ikey_Compare cmp a b \<le> 0 \<longleftrightarrow>
   less (ExtractUserKey a) (ExtractUserKey b) \<or>
   cmp_Compare cmp (ExtractUserKey a) (ExtractUserKey b) = 0 \<and> key_tag a \<ge> key_tag b"
  by (auto simp: ikey_Compare_def Let_def not_less)

lemma compare_eq_trans:
  "cmp_Compare cmp a b = 0 \<Longrightarrow> cmp_Compare cmp b c = 0 \<Longrightarrow> cmp_Compare cmp a c = 0"
  using trans [of a b c] trans [of c b a] compare_eq_sym [of a b] compare_eq_sym [of b c]
    compare_ge [of a c] by auto

lemma ikey_trans:
  assumes "ikey_Compare cmp a b \<le> 0" and "ikey_Compare cmp b c \<le> 0"
  shows "ikey_Compare cmp a c \<le> 0"
  using assms le_less_trans [of "ExtractUserKey a" "ExtractUserKey b" "ExtractUserKey c"]
    less_le_trans [of "ExtractUserKey a" "ExtractUserKey b" "ExtractUserKey c"]
    compare_eq_trans [of "ExtractUserKey a" "ExtractUserKey b" "ExtractUserKey c"]
  unfolding ikey_Compare_le by auto

lemma ikey_swap: "sgn (ikey_Compare cmp b a) = - sgn (ikey_Compare cmp a b)"
  using swap [of "ExtractUserKey a" "ExtractUserKey b"]
  by (auto simp: ikey_Compare_def Let_def sgn_if split: if_splits)

end

sublocale user_comparator \<subseteq> ikey: comparator "InternalKeyComparator cmp" internal_key
proof unfold_locales
  fix a b c :: bytes
  assume a: "internal_key a" and b: "internal_key b"
  show "sgn (cmp_Compare (InternalKeyComparator cmp) b a) =
      - sgn (cmp_Compare (InternalKeyComparator cmp) a b)"
    using ikey_swap [where a = a and b = b] by (simp add: InternalKeyComparator_def)
  show "internal_key (cmp_FindShortestSeparator (InternalKeyComparator cmp) a b)"
    using a by (simp add: InternalKeyComparator_def ikey_FindShortestSeparator_def Let_def PutFixed64_def)
  show "cmp_Compare (InternalKeyComparator cmp) a
          (cmp_FindShortestSeparator (InternalKeyComparator cmp) a b) \<le> 0 \<and>
        cmp_Compare (InternalKeyComparator cmp)
          (cmp_FindShortestSeparator (InternalKeyComparator cmp) a b) b < 0"
    if ab: "cmp_Compare (InternalKeyComparator cmp) a b < 0"
  proof (cases rule: ikey_sep_cases [of a b])
    case (shorter tmp)
    from ab have le: "cmp_Compare cmp (ExtractUserKey a) (ExtractUserKey b) \<le> 0"
      by (auto simp: InternalKeyComparator_def ikey_Compare_less)
    have "less (ExtractUserKey a) (ExtractUserKey b)"
      using le shorter(2,3) sep_eq [of "ExtractUserKey a" "ExtractUserKey b"] by force
    then have "less tmp (ExtractUserKey b)"
      using sep [of "ExtractUserKey a" "ExtractUserKey b"] shorter(2) by simp
    then show ?thesis
      using shorter(1,3) by (simp add: InternalKeyComparator_def ikey_Compare_def)
  next
    case same
    then show ?thesis using ab by (simp add: InternalKeyComparator_def ikey_Compare_def)
  qed
  show "cmp_Compare (InternalKeyComparator cmp) a
          (cmp_FindShortestSeparator (InternalKeyComparator cmp) a b) = 0"
    if ab: "cmp_Compare (InternalKeyComparator cmp) a b = 0"
  proof (cases rule: ikey_sep_cases [of a b])
    case (shorter tmp)
    have "cmp_Compare cmp (ExtractUserKey a) (ExtractUserKey b) = 0"
      using ab by (auto simp: InternalKeyComparator_def ikey_Compare_def Let_def split: if_splits)
    then show ?thesis
      using shorter(2,3) sep_eq [of "ExtractUserKey a" "ExtractUserKey b"] by simp
  next
    case same
    then show ?thesis by (simp add: InternalKeyComparator_def ikey_Compare_def)
  qed
  show "internal_key (cmp_FindShortSuccessor (InternalKeyComparator cmp) a)"
    using a by (simp add: InternalKeyComparator_def ikey_FindShortSuccessor_def Let_def PutFixed64_def)
  show "cmp_Compare (InternalKeyComparator cmp) a
      (cmp_FindShortSuccessor (InternalKeyComparator cmp) a) \<le> 0"
    by (simp add: InternalKeyComparator_def ikey_FindShortSuccessor_def ikey_Compare_def Let_def
        PutFixed64_def)
next
  fix a b c :: bytes
  assume "cmp_Compare (InternalKeyComparator cmp) a b \<le> 0"
    and "cmp_Compare (InternalKeyComparator cmp) b c \<le> 0"
  then show "cmp_Compare (InternalKeyComparator cmp) a c \<le> 0"
    using ikey_trans by (simp add: InternalKeyComparator_def)
qed

interpretation bytewise_user: user_comparator BytewiseComparator
  by unfold_locales

section \<open>Properties\<close>

text \<open>
  C23: Internal keys are ordered by user key, then by falling sequence number, then by falling
  type; parsing an internal key gives back its parts, and a lookup key at a snapshot sorts
  before exactly the versions of its user key that the snapshot may see.
\<close>

theorem internal_key_order:
  assumes "s \<le> kMaxSequenceNumber" and "s' \<le> kMaxSequenceNumber"
  shows "(cmp_Compare (InternalKeyComparator BytewiseComparator) (InternalKey u s t) (InternalKey u' s' t') < 0
            \<longleftrightarrow> slice_compare u u' < 0 \<or> u = u' \<and> (s' < s \<or> s = s' \<and> t' < t)) \<and>
         ParseInternalKey (InternalKey u s t) = Some \<lparr>pik_user_key = u, pik_sequence = s, pik_type = t\<rparr> \<and>
         (cmp_Compare (InternalKeyComparator BytewiseComparator)
            (lk_internal_key (LookupKey u s)) (InternalKey u s' t') \<le> 0 \<longleftrightarrow> s' \<le> s)"
proof (intro conjI)
  show "ParseInternalKey (InternalKey u s t) = Some \<lparr>pik_user_key = u, pik_sequence = s, pik_type = t\<rparr>"
    by (rule Parse_InternalKey [OF assms(1)])
  show "cmp_Compare (InternalKeyComparator BytewiseComparator) (InternalKey u s t) (InternalKey u' s' t') < 0
            \<longleftrightarrow> slice_compare u u' < 0 \<or> u = u' \<and> (s' < s \<or> s = s' \<and> t' < t)"
    using Pack_less_iff [OF assms(2,1), of t' t]
    by (auto simp: InternalKeyComparator_def bytewise_user.ikey_Compare_less)
  have "lk_internal_key (LookupKey u s) = InternalKey u s kTypeValue"
    by (simp add: lk_internal_key_def LookupKey_def Let_def InternalKey_eq kValueTypeForSeek_def)
  moreover have "t' \<le> kTypeValue"
    by (cases t') (simp_all add: less_eq_ValueType_def type_code_def)
  ultimately show "cmp_Compare (InternalKeyComparator BytewiseComparator)
      (lk_internal_key (LookupKey u s)) (InternalKey u s' t') \<le> 0 \<longleftrightarrow> s' \<le> s"
    using Pack_less_iff [OF assms, of kTypeValue t'] linorder_not_less [of s s']
      linorder_not_less [of "PackSequenceAndType s kTypeValue" "PackSequenceAndType s' t'"]
    by (auto simp: InternalKeyComparator_def bytewise_user.ikey_Compare_le)
qed

theorem internal_key_order_witness:
  "cmp_Compare (InternalKeyComparator BytewiseComparator)
     (InternalKey [1] 5 kTypeDeletion) (InternalKey [1] 4 kTypeValue) < 0"
  using internal_key_order [of 5 4 "[1]" kTypeDeletion "[1]" kTypeValue]
  by (simp add: kMaxSequenceNumber_def)

text \<open>
  C24: Index keys. For internal keys \<open>a\<close> before \<open>b\<close>, the separator lies from \<open>a\<close> up to but not
  including \<open>b\<close> and is never longer than \<open>a\<close>; the successor of a key is not before it and
  never longer.
\<close>

theorem internal_separator:
  assumes "8 \<le> length a" and "8 \<le> length b"
    and "cmp_Compare (InternalKeyComparator BytewiseComparator) a b < 0"
  defines "sep \<equiv> cmp_FindShortestSeparator (InternalKeyComparator BytewiseComparator) a b"
    and "succ \<equiv> cmp_FindShortSuccessor (InternalKeyComparator BytewiseComparator) a"
  shows "cmp_Compare (InternalKeyComparator BytewiseComparator) a sep \<le> 0 \<and>
         cmp_Compare (InternalKeyComparator BytewiseComparator) sep b < 0 \<and>
         cmp_Compare (InternalKeyComparator BytewiseComparator) a succ \<le> 0 \<and>
         length sep \<le> length a \<and> length succ \<le> length a"
proof -
  have "length (PutFixed64 tmp n) \<le> length a" if "length tmp < length (ExtractUserKey a)" for tmp n
    using that by (simp add: PutFixed64_def ExtractUserKey_def)
  then have "length sep \<le> length a \<and> length succ \<le> length a"
    by (simp add: sep_def succ_def InternalKeyComparator_def ikey_FindShortestSeparator_def
        ikey_FindShortSuccessor_def Let_def)
  then show ?thesis
    using bytewise_user.ikey.sep [OF assms(1-3)] bytewise_user.ikey.succ [OF assms(1)]
    by (simp add: sep_def succ_def)
qed

theorem internal_separator_witness:
  "cmp_Compare (InternalKeyComparator BytewiseComparator)
     (cmp_FindShortestSeparator (InternalKeyComparator BytewiseComparator)
        (InternalKey [1, 2, 3] 7 kTypeValue) (InternalKey [1, 5] 7 kTypeValue))
     (InternalKey [1, 5] 7 kTypeValue) < 0"
  using internal_separator [of "InternalKey [1, 2, 3] 7 kTypeValue" "InternalKey [1, 5] 7 kTypeValue"]
  by (simp add: InternalKeyComparator_def ikey_Compare_def)

end
