(* ===== verification/FilterPolicy.thy ===== *)
theory FilterPolicy
  imports DbFormat
begin

text \<open>
  Filters: the \<^verbatim>\<open>FilterPolicy\<close> interface, the hash of \<^verbatim>\<open>util/hash.cc\<close>, the Bloom filter of
  \<^verbatim>\<open>util/bloom.cc\<close>, the policy wrapper for internal keys of \<^verbatim>\<open>db/dbformat.cc\<close> and the filter
  block of \<^verbatim>\<open>table/filter_block.cc\<close>. A filter may say yes to a key that is absent but must never
  say no to a key that is present.
\<close>

section \<open>The interface\<close>

record filter_policy =
  fp_Name :: bytes
  fp_CreateFilter :: "bytes list \<Rightarrow> bytes \<Rightarrow> bytes"
  fp_KeyMayMatch :: "bytes \<Rightarrow> bytes \<Rightarrow> bool"

locale filter_policy =
  fixes policy :: filter_policy
  assumes CreateFilter_append:
      "fp_CreateFilter policy keys dst = dst @ fp_CreateFilter policy keys []"
    and KeyMayMatch_CreateFilter:
      "key \<in> set keys \<Longrightarrow> fp_KeyMayMatch policy key (fp_CreateFilter policy keys [])"

section \<open>Hash\<close>

definition hash_m :: u32 where
  "hash_m = 0xc6a4a793"

fun Hash_words :: "u32 \<Rightarrow> bytes \<Rightarrow> u32 \<times> bytes" where
  "Hash_words h (a # b # c # d # data) =
     (let w = DecodeFixed32 [a, b, c, d];
          h = h + w;
          h = h * hash_m;
          h = h XOR drop_bit 16 h
      in Hash_words h data)"
| "Hash_words h data = (h, data)"

definition Hash_tail :: "u32 \<Rightarrow> bytes \<Rightarrow> u32" where
  "Hash_tail h data =
     (let h = (if length data \<ge> 3 then h + push_bit 16 (ucast (data ! 2)) else h);
          h = (if length data \<ge> 2 then h + push_bit 8 (ucast (data ! 1)) else h)
      in if length data \<ge> 1 then
           let h = h + ucast (data ! 0);
               h = h * hash_m
           in h XOR drop_bit 24 h
         else h)"

definition Hash :: "bytes \<Rightarrow> u32 \<Rightarrow> u32" where
  "Hash data seed =
     (let h = seed XOR (word_of_nat (length data) * hash_m);
          (h, data) = Hash_words h data
      in Hash_tail h data)"

section \<open>Bloom filter\<close>

definition BloomHash :: "bytes \<Rightarrow> u32" where
  "BloomHash key = Hash key 0xbc9f1d34"

text \<open>
  The number of probes, \<^verbatim>\<open>0.69 * bits_per_key\<close> rounded down and clamped to 1 up to 30. The exact
  product is an integer only at multiples of 100, which are clamped, so rounding down the
  rational agrees with the code's floating point.
\<close>

definition bloom_k :: "nat \<Rightarrow> nat" where
  "bloom_k bits_per_key =
     (let k = bits_per_key * 69 div 100; k = (if k < 1 then 1 else k) in if k > 30 then 30 else k)"

definition bloom_delta :: "u32 \<Rightarrow> u32" where
  "bloom_delta h = drop_bit 17 h OR push_bit 15 h"

definition set_array_bit :: "bytes \<Rightarrow> nat \<Rightarrow> bytes" where
  "set_array_bit array bitpos =
     array[bitpos div 8 := array ! (bitpos div 8) OR push_bit (bitpos mod 8) 1]"

definition array_bit :: "bytes \<Rightarrow> nat \<Rightarrow> bool" where
  "array_bit array bitpos = (array ! (bitpos div 8) AND push_bit (bitpos mod 8) 1 \<noteq> 0)"

fun bloom_set_probes :: "nat \<Rightarrow> nat \<Rightarrow> u32 \<Rightarrow> u32 \<Rightarrow> bytes \<Rightarrow> bytes" where
  "bloom_set_probes 0 bits h delta array = array"
| "bloom_set_probes (Suc k) bits h delta array =
     (let bitpos = unat h mod bits
      in bloom_set_probes k bits (h + delta) delta (set_array_bit array bitpos))"

definition bloom_add :: "nat \<Rightarrow> nat \<Rightarrow> bytes \<Rightarrow> bytes \<Rightarrow> bytes" where
  "bloom_add k bits key array =
     (let h = BloomHash key in bloom_set_probes k bits h (bloom_delta h) array)"

definition bloom_CreateFilter :: "nat \<Rightarrow> bytes list \<Rightarrow> bytes \<Rightarrow> bytes" where
  "bloom_CreateFilter bits_per_key keys dst =
     (let k = bloom_k bits_per_key;
          bits = length keys * bits_per_key;
          bits = (if bits < 64 then 64 else bits);
          bytes = (bits + 7) div 8;
          bits = bytes * 8;
          array = replicate bytes 0
      in dst @ fold (bloom_add k bits) keys array @ [word_of_nat k])"

fun bloom_check_probes :: "nat \<Rightarrow> nat \<Rightarrow> u32 \<Rightarrow> u32 \<Rightarrow> bytes \<Rightarrow> bool" where
  "bloom_check_probes 0 bits h delta array = True"
| "bloom_check_probes (Suc k) bits h delta array =
     (let bitpos = unat h mod bits
      in if \<not> array_bit array bitpos then False
         else bloom_check_probes k bits (h + delta) delta array)"

definition bloom_KeyMayMatch :: "bytes \<Rightarrow> bytes \<Rightarrow> bool" where
  "bloom_KeyMayMatch key bloom_filter =
     (let len = length bloom_filter in
      if len < 2 then False
      else
        let bits = (len - 1) * 8; k = unat (bloom_filter ! (len - 1))
        in if k > 30 then True
           else let h = BloomHash key
                in bloom_check_probes k bits h (bloom_delta h) bloom_filter)"

definition BloomFilterPolicy :: "nat \<Rightarrow> filter_policy" where
  "BloomFilterPolicy bits_per_key =
     \<lparr>fp_Name = bytes_of ''leveldb.BuiltinBloomFilter2'',
      fp_CreateFilter = bloom_CreateFilter bits_per_key,
      fp_KeyMayMatch = bloom_KeyMayMatch\<rparr>"

subsection \<open>Set bits stay set\<close>

lemma length_set_array_bit [simp]: "length (set_array_bit a p) = length a"
  by (simp add: set_array_bit_def)

lemma length_bloom_set_probes [simp]: "length (bloom_set_probes k bits h d a) = length a"
  by (induction k arbitrary: h a) (simp_all add: Let_def)

lemma length_bloom_add [simp]: "length (bloom_add k bits key a) = length a"
  by (simp add: bloom_add_def Let_def)

lemma length_fold_bloom_add [simp]: "length (fold (bloom_add k bits) keys a) = length a"
  by (induction keys arbitrary: a) simp_all

lemma array_bit_iff: "array_bit a p \<longleftrightarrow> bit (a ! (p div 8)) (p mod 8)"
proof -
  have "a ! (p div 8) AND push_bit (p mod 8) 1 \<noteq> 0 \<longleftrightarrow> bit (a ! (p div 8)) (p mod 8)"
    by (simp add: and_exp_eq_0_iff_not_bit push_bit_of_1)
  then show ?thesis by (simp add: array_bit_def)
qed

lemma array_bit_set:
  "p div 8 < length a \<Longrightarrow> array_bit (set_array_bit a p) q \<longleftrightarrow> array_bit a q \<or> q = p"
proof -
  assume "p div 8 < length a"
  moreover have "q = p \<longleftrightarrow> q div 8 = p div 8 \<and> q mod 8 = p mod 8"
    by (metis div_mult_mod_eq)
  ultimately show ?thesis
    by (auto simp: array_bit_iff set_array_bit_def nth_list_update bit_or_iff bit_push_bit_iff
        bit_1_iff simp del: push_bit_of_1)
qed

lemma bloom_set_probes_mono:
  "bits = length a * 8 \<Longrightarrow> 0 < bits \<Longrightarrow> array_bit a q \<Longrightarrow> array_bit (bloom_set_probes k bits h d a) q"
proof (induction k arbitrary: h a)
  case (Suc k)
  have "unat h mod bits div 8 < length a"
    using Suc.prems(1,2) by (simp add: less_mult_imp_div_less)
  then show ?case
    using Suc.IH [of "set_array_bit a (unat h mod bits)" "h + d"] Suc.prems
    by (simp add: Let_def array_bit_set)
qed simp

lemma bloom_check_mono:
  "bloom_check_probes k bits h d a \<Longrightarrow> (\<And>q. q < bits \<Longrightarrow> array_bit a q \<Longrightarrow> array_bit b q) \<Longrightarrow> 0 < bits \<Longrightarrow>
   bloom_check_probes k bits h d b"
  by (induction k arbitrary: h) (auto simp: Let_def split: if_splits)

lemma bloom_check_set:
  "bits = length a * 8 \<Longrightarrow> 0 < bits \<Longrightarrow> bloom_check_probes k bits h d (bloom_set_probes k bits h d a)"
proof (induction k arbitrary: h a)
  case (Suc k)
  have "unat h mod bits div 8 < length a"
    using Suc.prems(1,2) by (simp add: less_mult_imp_div_less)
  then have "array_bit (bloom_set_probes k bits (h + d) d (set_array_bit a (unat h mod bits)))
      (unat h mod bits)"
    using bloom_set_probes_mono [of bits "set_array_bit a (unat h mod bits)"] Suc.prems
    by (simp add: array_bit_set)
  then show ?case
    using Suc.IH [of "set_array_bit a (unat h mod bits)" "h + d"] Suc.prems by (simp add: Let_def)
qed simp

lemma bloom_add_mono:
  "bits = length a * 8 \<Longrightarrow> 0 < bits \<Longrightarrow> array_bit a q \<Longrightarrow> array_bit (bloom_add k bits key a) q"
  by (simp add: bloom_add_def Let_def bloom_set_probes_mono)

lemma fold_bloom_add_mono:
  "bits = length a * 8 \<Longrightarrow> 0 < bits \<Longrightarrow> array_bit a q \<Longrightarrow> array_bit (fold (bloom_add k bits) keys a) q"
proof (induction keys arbitrary: a)
  case (Cons key keys)
  then show ?case
    using Cons.IH [of "bloom_add k bits key a"] bloom_add_mono [of bits a q k key]
    by (simp add: bloom_add_def Let_def)
qed simp

lemma fold_bloom_add_check:
  "bits = length a * 8 \<Longrightarrow> 0 < bits \<Longrightarrow> key \<in> set keys \<Longrightarrow>
   bloom_check_probes k bits (BloomHash key) (bloom_delta (BloomHash key)) (fold (bloom_add k bits) keys a)"
proof (induction keys arbitrary: a)
  case (Cons key' keys)
  let ?b = "bloom_add k bits key' a"
  have len: "bits = length ?b * 8" using Cons.prems(1) by (simp add: bloom_add_def Let_def)
  show ?case
  proof (cases "key \<in> set keys")
    case False
    then have "key = key'" using Cons.prems(3) by simp
    then have "bloom_check_probes k bits (BloomHash key) (bloom_delta (BloomHash key)) ?b"
      using bloom_check_set Cons.prems(1,2) by (simp add: bloom_add_def Let_def)
    then show ?thesis
      using bloom_check_mono fold_bloom_add_mono [OF len Cons.prems(2)] Cons.prems(2) by fastforce
  qed (use Cons.IH [OF len Cons.prems(2)] in simp)
qed simp

lemma bloom_k_bounds: "1 \<le> bloom_k n" "bloom_k n \<le> 30"
  by (simp_all add: bloom_k_def Let_def)

lemma bloom_no_false_negative:
  assumes "key \<in> set keys"
  shows "bloom_KeyMayMatch key (bloom_CreateFilter bits_per_key keys [])"
proof -
  define k where "k = bloom_k bits_per_key"
  define bits0 where "bits0 = (if length keys * bits_per_key < 64 then 64 else length keys * bits_per_key)"
  define n where "n = (bits0 + 7) div 8"
  define a where "a = fold (bloom_add k (n * 8)) keys (replicate n 0)"
  have "64 \<le> bits0" by (simp add: bits0_def)
  then have n: "0 < n" by (simp add: n_def div_greater_zero_iff)
  have f: "bloom_CreateFilter bits_per_key keys [] = a @ [word_of_nat k]"
    by (simp add: bloom_CreateFilter_def Let_def k_def bits0_def n_def a_def)
  have len: "length a = n" by (simp add: a_def)
  have k: "unat (word_of_nat k :: u8) = k" "k \<le> 30"
    using bloom_k_bounds(2) [of bits_per_key] by (simp_all add: k_def)
  have "bloom_check_probes k (n * 8) (BloomHash key) (bloom_delta (BloomHash key)) a"
    unfolding a_def by (rule fold_bloom_add_check) (use assms n in simp_all)
  then have "bloom_check_probes k (n * 8) (BloomHash key) (bloom_delta (BloomHash key)) (a @ [word_of_nat k])"
  proof (rule bloom_check_mono)
    fix q
    assume "q < n * 8" and "array_bit a q"
    then show "array_bit (a @ [word_of_nat k]) q"
      using len by (simp add: array_bit_def nth_append less_mult_imp_div_less)
  qed (use n in simp)
  then show ?thesis
    using k n len by (simp add: f bloom_KeyMayMatch_def Let_def nth_append)
qed

interpretation bloom: filter_policy "BloomFilterPolicy bits_per_key" for bits_per_key
  by unfold_locales
    (simp_all add: BloomFilterPolicy_def bloom_no_false_negative, simp add: bloom_CreateFilter_def Let_def)

section \<open>InternalFilterPolicy\<close>

definition InternalFilterPolicy :: "filter_policy \<Rightarrow> filter_policy" where
  "InternalFilterPolicy user_policy =
     \<lparr>fp_Name = fp_Name user_policy,
      fp_CreateFilter = (\<lambda>keys dst. fp_CreateFilter user_policy (map ExtractUserKey keys) dst),
      fp_KeyMayMatch = (\<lambda>key f. fp_KeyMayMatch user_policy (ExtractUserKey key) f)\<rparr>"

locale user_filter_policy = filter_policy policy for policy

sublocale user_filter_policy \<subseteq> internal: filter_policy "InternalFilterPolicy policy"
proof unfold_locales
  fix keys dst key
  show "fp_CreateFilter (InternalFilterPolicy policy) keys dst =
      dst @ fp_CreateFilter (InternalFilterPolicy policy) keys []"
    unfolding InternalFilterPolicy_def by simp (rule CreateFilter_append)
  show "fp_KeyMayMatch (InternalFilterPolicy policy) key
      (fp_CreateFilter (InternalFilterPolicy policy) keys [])" if "key \<in> set keys"
    using that by (simp add: InternalFilterPolicy_def KeyMayMatch_CreateFilter)
qed

interpretation user_bloom: user_filter_policy "BloomFilterPolicy bits_per_key" for bits_per_key
  by unfold_locales

section \<open>Filter block\<close>

definition kFilterBaseLg :: nat where "kFilterBaseLg = 11"
definition kFilterBase :: nat where "kFilterBase = 2 ^ kFilterBaseLg"

record filter_block_builder =
  fb_keys :: bytes
  fb_start :: "nat list"
  fb_result :: bytes
  fb_filter_offsets :: "u32 list"

definition new_filter_block_builder :: filter_block_builder where
  "new_filter_block_builder =
     \<lparr>fb_keys = [], fb_start = [], fb_result = [], fb_filter_offsets = []\<rparr>"

definition fb_GenerateFilter :: "filter_policy \<Rightarrow> filter_block_builder \<Rightarrow> filter_block_builder" where
  "fb_GenerateFilter policy b =
     (let num_keys = length (fb_start b) in
      if num_keys = 0 then
        b\<lparr>fb_filter_offsets := fb_filter_offsets b @ [word_of_nat (length (fb_result b))]\<rparr>
      else
        let start = fb_start b @ [length (fb_keys b)];
            tmp_keys = map (\<lambda>i. take (start ! (i + 1) - start ! i) (drop (start ! i) (fb_keys b)))
                         [0..<num_keys]
        in \<lparr>fb_keys = [], fb_start = [],
            fb_result = fp_CreateFilter policy tmp_keys (fb_result b),
            fb_filter_offsets = fb_filter_offsets b @ [word_of_nat (length (fb_result b))]\<rparr>)"

lemma fb_GenerateFilter_offsets:
  "length (fb_filter_offsets (fb_GenerateFilter policy b)) = Suc (length (fb_filter_offsets b))"
  by (simp add: fb_GenerateFilter_def Let_def)

function fb_StartBlock_loop ::
    "filter_policy \<Rightarrow> nat \<Rightarrow> filter_block_builder \<Rightarrow> filter_block_builder" where
  "fb_StartBlock_loop policy filter_index b =
     (if filter_index > length (fb_filter_offsets b)
      then fb_StartBlock_loop policy filter_index (fb_GenerateFilter policy b) else b)"
  by pat_completeness auto
termination
  by (relation "measure (\<lambda>(policy, i, b). i - length (fb_filter_offsets b))")
    (auto simp: fb_GenerateFilter_offsets)

declare fb_StartBlock_loop.simps [simp del]

definition fb_StartBlock ::
    "filter_policy \<Rightarrow> u64 \<Rightarrow> filter_block_builder \<Rightarrow> filter_block_builder" where
  "fb_StartBlock policy block_offset b =
     fb_StartBlock_loop policy (unat block_offset div kFilterBase) b"

definition fb_AddKey :: "bytes \<Rightarrow> filter_block_builder \<Rightarrow> filter_block_builder" where
  "fb_AddKey key b =
     b\<lparr>fb_start := fb_start b @ [length (fb_keys b)], fb_keys := fb_keys b @ key\<rparr>"

definition fb_Finish :: "filter_policy \<Rightarrow> filter_block_builder \<Rightarrow> bytes" where
  "fb_Finish policy b =
     (let b = (if fb_start b \<noteq> [] then fb_GenerateFilter policy b else b);
          array_offset = word_of_nat (length (fb_result b)) :: u32;
          result = foldl PutFixed32 (fb_result b) (fb_filter_offsets b);
          result = PutFixed32 result array_offset
      in result @ [word_of_nat kFilterBaseLg])"

text \<open>The reader: contents, start of the offset array, number of filters and encoding parameter.\<close>

record filter_block_reader =
  fr_data :: bytes
  fr_offset :: nat
  fr_num :: nat
  fr_base_lg :: nat

definition new_filter_block_reader :: "bytes \<Rightarrow> filter_block_reader" where
  "new_filter_block_reader contents =
     (let n = length contents;
          r = \<lparr>fr_data = [], fr_offset = 0, fr_num = 0, fr_base_lg = 0\<rparr>
      in if n < 5 then r
         else
           let base_lg = unat (scast (contents ! (n - 1)) :: u64);
               r = r\<lparr>fr_base_lg := base_lg\<rparr>;
               last_word = unat (DecodeFixed32 (drop (n - 5) contents))
           in if last_word > n - 5 then r
              else r\<lparr>fr_data := contents, fr_offset := last_word, fr_num := (n - 5 - last_word) div 4\<rparr>)"

definition fr_KeyMayMatch :: "filter_policy \<Rightarrow> filter_block_reader \<Rightarrow> u64 \<Rightarrow> bytes \<Rightarrow> bool" where
  "fr_KeyMayMatch policy r block_offset key =
     (let index = unat (drop_bit (fr_base_lg r) block_offset) in
      if index < fr_num r then
        let start = unat (DecodeFixed32 (drop (fr_offset r + index * 4) (fr_data r)));
            limit = unat (DecodeFixed32 (drop (fr_offset r + index * 4 + 4) (fr_data r)))
        in if start \<le> limit \<and> limit \<le> fr_offset r then
             fp_KeyMayMatch policy key (take (limit - start) (drop start (fr_data r)))
           else if start = limit then False
           else True
      else True)"

section \<open>The filter block finds every key\<close>

lemma take_Suc_length_concat:
  "i < length xs \<Longrightarrow> concat (take (Suc i) xs) = concat (take i xs) @ xs ! i"
  by (simp add: take_Suc_conv_app_nth)

lemma slice_concat:
  assumes "i < length xs"
  shows "take (length (concat (take (Suc i) xs)) - length (concat (take i xs)))
           (drop (length (concat (take i xs))) (concat xs @ r)) = xs ! i"
proof -
  have "concat xs = concat (take i xs) @ xs ! i @ concat (drop (Suc i) xs)"
    using arg_cong [OF id_take_nth_drop [OF assms], of concat] by simp
  then show ?thesis by (simp add: take_Suc_length_concat [OF assms])
qed

lemma length_concat_take: "length (concat (map f (take j hs))) \<le> length (concat (map f hs))"
  by (metis append_take_drop_id concat_append le_add1 length_append map_append)

lemma drop_fixed32_array:
  "j \<le> length xs \<Longrightarrow>
   drop (j * 4) (concat (map EncodeFixed32 xs) @ r) = concat (map EncodeFixed32 (drop j xs)) @ r"
proof (induction j arbitrary: xs)
  case (Suc j)
  then obtain x ys where "xs = x # ys" by (cases xs) auto
  then show ?case using Suc by simp
qed simp

text \<open>
  The state after generating one filter for each key list of \<open>gs\<close>, with the keys \<open>ks\<close> pending.
\<close>

definition filter_of :: "filter_policy \<Rightarrow> bytes list \<Rightarrow> bytes" where
  "filter_of policy g = (if g = [] then [] else fp_CreateFilter policy g [])"

definition fb_offsets :: "filter_policy \<Rightarrow> bytes list list \<Rightarrow> u32 list" where
  "fb_offsets policy gs =
     map (\<lambda>i. word_of_nat (length (concat (map (filter_of policy) (take i gs))))) [0..<length gs]"

definition fb_state :: "filter_policy \<Rightarrow> filter_block_builder \<Rightarrow> bytes list list \<Rightarrow> bytes list \<Rightarrow> bool" where
  "fb_state policy b gs ks \<longleftrightarrow>
     fb_keys b = concat ks \<and> fb_start b = map (\<lambda>i. length (concat (take i ks))) [0..<length ks] \<and>
     fb_result b = concat (map (filter_of policy) gs) \<and> fb_filter_offsets b = fb_offsets policy gs"

lemma fb_offsets_snoc:
  "fb_offsets policy (gs @ [g]) =
   fb_offsets policy gs @ [word_of_nat (length (concat (map (filter_of policy) gs)))]"
  by (simp add: fb_offsets_def)

lemma fb_state_length: "fb_state policy b gs ks \<Longrightarrow> length (fb_filter_offsets b) = length gs"
  by (simp add: fb_state_def fb_offsets_def)

lemma fb_AddKey_state: "fb_state policy b gs ks \<Longrightarrow> fb_state policy (fb_AddKey k b) gs (ks @ [k])"
  by (simp add: fb_state_def fb_AddKey_def)

lemma fb_AddKeys_state:
  "fb_state policy b gs ks \<Longrightarrow> fb_state policy (fold fb_AddKey ks' b) gs (ks @ ks')"
proof (induction ks' arbitrary: b ks)
  case (Cons k ks')
  from Cons.IH [OF fb_AddKey_state [OF Cons.prems, of k]] show ?case by simp
qed simp

context filter_policy
begin

lemma fb_GenerateFilter_state:
  assumes "fb_state policy b gs ks"
  shows "fb_state policy (fb_GenerateFilter policy b) (gs @ [ks]) []"
proof (cases "ks = []")
  case True
  then show ?thesis
    using assms by (simp add: fb_state_def fb_GenerateFilter_def fb_offsets_snoc filter_of_def)
next
  case False
  have start: "(fb_start b @ [length (fb_keys b)]) ! i = length (concat (take i ks))" if "i \<le> length ks" for i
    using assms that by (auto simp: fb_state_def nth_append)
  have tmp: "map (\<lambda>i. take ((fb_start b @ [length (fb_keys b)]) ! (i + 1) - (fb_start b @ [length (fb_keys b)]) ! i)
      (drop ((fb_start b @ [length (fb_keys b)]) ! i) (fb_keys b))) [0..<length (fb_start b)] = ks"
    using assms start slice_concat [of _ ks "[]"]
    by (intro nth_equalityI) (auto simp: fb_state_def)
  have num: "length (fb_start b) = length ks" using assms by (simp add: fb_state_def)
  show ?thesis
    using False assms
    unfolding fb_GenerateFilter_def Let_def tmp
    by (simp add: num fb_state_def fb_offsets_snoc filter_of_def CreateFilter_append [of ks "concat _"])
qed

lemma fb_StartBlock_loop_state:
  "fb_state policy b gs ks \<Longrightarrow> length gs \<le> i \<Longrightarrow>
   fb_state policy (fb_StartBlock_loop policy i b)
     (gs @ (if i = length gs then [] else ks # replicate (i - length gs - 1) []))
     (if i = length gs then ks else [])"
proof (induction "i - length gs" arbitrary: b gs ks)
  case 0
  then show ?case
    using fb_state_length [OF 0(2)] by (simp add: fb_StartBlock_loop.simps [of policy "length gs" b])
next
  case (Suc n)
  let ?b = "fb_GenerateFilter policy b"
  have "fb_state policy ?b (gs @ [ks]) []" by (rule fb_GenerateFilter_state [OF Suc.prems(1)])
  from Suc.hyps(1) [OF _ this] Suc.hyps(2) have st: "fb_state policy (fb_StartBlock_loop policy i ?b)
      ((gs @ [ks]) @ (if i = length (gs @ [ks]) then [] else [] # replicate (i - length (gs @ [ks]) - 1) []))
      []" by simp
  have rep: "(if i = length (gs @ [ks]) then [] else [] # replicate (i - length (gs @ [ks]) - 1) []) =
      replicate (i - length gs - 1) ([] :: bytes list)"
    using Suc.hyps(2) by (cases "i - length gs - 1") auto
  have "fb_StartBlock_loop policy i b = fb_StartBlock_loop policy i ?b"
    using Suc.hyps(2) fb_state_length [OF Suc.prems(1)] by (simp add: fb_StartBlock_loop.simps [of policy i b])
  then show ?case
    using st [unfolded rep] Suc.hyps(2) by auto
qed

lemma fb_Finish_state:
  assumes "fb_state policy b gs ks"
  defines "hs \<equiv> (if ks = [] then gs else gs @ [ks])"
  shows "fb_Finish policy b = concat (map (filter_of policy) hs) @
    concat (map EncodeFixed32 (fb_offsets policy hs @ [word_of_nat (length (concat (map (filter_of policy) hs)))])) @
    [word_of_nat kFilterBaseLg]"
proof -
  define b' where "b' = (if fb_start b \<noteq> [] then fb_GenerateFilter policy b else b)"
  have "fb_start b = [] \<longleftrightarrow> ks = []" using assms(1) by (simp add: fb_state_def)
  then have "fb_state policy b' hs (if ks = [] then ks else [])"
    using assms(1) fb_GenerateFilter_state by (cases "ks = []") (auto simp: hs_def b'_def)
  moreover have "foldl PutFixed32 r xs = r @ concat (map EncodeFixed32 xs)" for r xs
    by (induction xs arbitrary: r) (simp_all add: PutFixed32_def)
  ultimately show ?thesis
    by (simp add: fb_Finish_def Let_def b'_def [symmetric] fb_state_def PutFixed32_def)
qed

lemma filter_block_bytes:
  fixes hs :: "bytes list list"
  defines "R \<equiv> concat (map (filter_of policy) hs)"
  defines "contents \<equiv> R @ concat (map EncodeFixed32 (fb_offsets policy hs @ [word_of_nat (length R)])) @
    [word_of_nat kFilterBaseLg]"
  assumes "length R < 2 ^ 32"
  shows "new_filter_block_reader contents =
      \<lparr>fr_data = contents, fr_offset = length R, fr_num = length hs, fr_base_lg = 11\<rparr>"
    and "j \<le> length hs \<Longrightarrow> unat (DecodeFixed32 (drop (length R + j * 4) contents)) =
      length (concat (map (filter_of policy) (take j hs)))"
proof -
  let ?xs = "fb_offsets policy hs @ [word_of_nat (length R)]"
  have len_enc: "length (concat (map EncodeFixed32 xs)) = 4 * length xs" for xs
    by (induction xs) simp_all
  have offs: "length (fb_offsets policy hs) = length hs" by (simp add: fb_offsets_def)
  have le: "length (concat (map (filter_of policy) (take j hs))) \<le> length R" for j
    unfolding R_def by (rule length_concat_take)
  show off: "unat (DecodeFixed32 (drop (length R + j * 4) contents)) =
      length (concat (map (filter_of policy) (take j hs)))" if j: "j \<le> length hs" for j
  proof -
    have x: "?xs ! j = word_of_nat (length (concat (map (filter_of policy) (take j hs))))"
      using j by (auto simp: nth_append fb_offsets_def R_def)
    have "drop j ?xs = ?xs ! j # drop (Suc j) ?xs"
      using j offs by (intro Cons_nth_drop_Suc [symmetric]) simp
    then have "drop (length R + j * 4) contents =
        EncodeFixed32 (?xs ! j) @ concat (map EncodeFixed32 (drop (Suc j) ?xs)) @ [word_of_nat kFilterBaseLg]"
      using drop_fixed32_array [of j ?xs "[word_of_nat kFilterBaseLg]"] j offs
      by (simp add: contents_def del: append_assoc map_append concat_append)
    then have "DecodeFixed32 (drop (length R + j * 4) contents) = ?xs ! j" by simp
    then show ?thesis using le [of j] assms(3) by (simp only: x) simp
  qed
  have n: "length contents = length R + 4 * length hs + 5"
    using len_enc [of ?xs] offs by (simp add: contents_def)
  have last: "contents ! (length contents - 1) = word_of_nat kFilterBaseLg"
    using len_enc [of ?xs] by (simp add: contents_def nth_append)
  have sc: "unat (scast (11 :: u8) :: u64) = 11" by simp
  have "unat (DecodeFixed32 (drop (length contents - 5) contents)) = length R"
    using off [of "length hs"] by (simp add: n R_def mult.commute)
  then show "new_filter_block_reader contents =
      \<lparr>fr_data = contents, fr_offset = length R, fr_num = length hs, fr_base_lg = 11\<rparr>"
    using last sc unfolding new_filter_block_reader_def Let_def
    by (simp add: n kFilterBaseLg_def)
qed

lemma filter_block_match:
  fixes hs :: "bytes list list"
  defines "R \<equiv> concat (map (filter_of policy) hs)"
  defines "contents \<equiv> R @ concat (map EncodeFixed32 (fb_offsets policy hs @ [word_of_nat (length R)])) @
    [word_of_nat kFilterBaseLg]"
  assumes "length R < 2 ^ 32" and j: "j = unat off div kFilterBase" "j < length hs" and k: "k \<in> set (hs ! j)"
  shows "fr_KeyMayMatch policy (new_filter_block_reader contents) off k"
proof -
  let ?len = "\<lambda>i. length (concat (map (filter_of policy) (take i hs)))"
  note rd = filter_block_bytes [where hs = hs, folded R_def, folded contents_def, OF assms(3)]
  have idx: "unat (drop_bit 11 off) = j"
    using j by (simp add: unat_drop_bit_div kFilterBase_def kFilterBaseLg_def)
  have mono: "?len j \<le> ?len (Suc j)" "?len (Suc j) \<le> length R"
  proof -
    show "?len j \<le> ?len (Suc j)" using j by (simp add: take_Suc_conv_app_nth)
    show "?len (Suc j) \<le> length R"
      unfolding R_def by (rule length_concat_take)
  qed
  have "take (?len (Suc j) - ?len j) (drop (?len j) contents) = filter_of policy (hs ! j)"
  proof -
    obtain rest where c: "contents = R @ rest" by (simp add: contents_def)
    show ?thesis
      using slice_concat [of j "map (filter_of policy) hs" rest] j(2)
      by (simp only: c R_def take_map length_map nth_map)
  qed
  moreover have "filter_of policy (hs ! j) = fp_CreateFilter policy (hs ! j) []"
    using k by (auto simp: filter_of_def)
  moreover have "unat (DecodeFixed32 (drop (length R + j * 4 + 4) contents)) = ?len (Suc j)"
  proof -
    have "length R + j * 4 + 4 = length R + Suc j * 4" by simp
    then show ?thesis using rd(2) [of "Suc j"] j(2) by (simp only: Suc_leI)
  qed
  ultimately show ?thesis
    using rd(1) rd(2) [of j] j(2) idx mono KeyMayMatch_CreateFilter [OF k]
    unfolding fr_KeyMayMatch_def Let_def by simp
qed

end

text \<open>
  A run of the builder as the table builder drives it: for each data block its offset and the
  keys added while it was open.
\<close>

definition build_filter_block :: "filter_policy \<Rightarrow> (u64 \<times> bytes list) list \<Rightarrow> filter_block_builder" where
  "build_filter_block policy blocks =
     fold (\<lambda>(off, ks) b. fold fb_AddKey ks (fb_StartBlock policy off b)) blocks new_filter_block_builder"

context filter_policy
begin

lemma build_filter_block_state:
  assumes "sorted (map (unat \<circ> fst) blocks)"
  shows "\<exists>gs ks. fb_state policy (build_filter_block policy blocks) gs ks \<and>
    length gs = (if blocks = [] then 0 else unat (fst (last blocks)) div kFilterBase) \<and>
    (\<forall>(off, kk) \<in> set blocks. \<forall>k \<in> set kk. unat off div kFilterBase \<le> length gs \<and>
        k \<in> set ((gs @ [ks]) ! (unat off div kFilterBase)))"
  using assms
proof (induction blocks rule: rev_induct)
  case Nil
  then show ?case
    by (simp add: build_filter_block_def new_filter_block_builder_def fb_state_def fb_offsets_def)
next
  case (snoc blk blocks)
  obtain off kk where blk: "blk = (off, kk)" by fastforce
  from snoc.IH snoc.prems obtain gs ks where st: "fb_state policy (build_filter_block policy blocks) gs ks"
    and len: "length gs = (if blocks = [] then 0 else unat (fst (last blocks)) div kFilterBase)"
    and cov: "\<forall>(off, kk) \<in> set blocks. \<forall>k \<in> set kk. unat off div kFilterBase \<le> length gs \<and>
        k \<in> set ((gs @ [ks]) ! (unat off div kFilterBase))"
    by (auto simp: sorted_append)
  define i where "i = unat off div kFilterBase"
  have "blocks \<noteq> [] \<Longrightarrow> unat (fst (last blocks)) \<le> unat off"
    using snoc.prems blk by (auto simp: sorted_append)
  then have le: "length gs \<le> i" using len by (auto simp: i_def div_le_mono)
  define gs' where "gs' = gs @ (if i = length gs then [] else ks # replicate (i - length gs - 1) [])"
  define ks' where "ks' = (if i = length gs then ks else []) @ kk"
  have "fb_state policy (build_filter_block policy (blocks @ [blk])) gs' ks'"
    using fb_AddKeys_state [OF fb_StartBlock_loop_state [OF st le], of kk]
    by (simp add: build_filter_block_def blk fb_StartBlock_def i_def gs'_def ks'_def)
  moreover have len': "length gs' = i" using le by (simp add: gs'_def)
  moreover have "unat o' div kFilterBase \<le> i \<and> k \<in> set ((gs' @ [ks']) ! (unat o' div kFilterBase))"
    if "(o', kk') \<in> set (blocks @ [blk])" "k \<in> set kk'" for o' kk' k
  proof (cases "(o', kk') \<in> set blocks")
    case True
    with cov that have c: "unat o' div kFilterBase \<le> length gs" "k \<in> set ((gs @ [ks]) ! (unat o' div kFilterBase))"
      by auto
    then show ?thesis
      using le by (cases "i = length gs")
        (auto simp: gs'_def ks'_def nth_append nth_Cons split: if_splits nat.splits)
  next
    case False
    then have "o' = off" "kk' = kk" using that blk by auto
    then show ?thesis using that len' by (simp add: i_def [symmetric] nth_append ks'_def)
  qed
  ultimately show ?case
    by (intro exI [of _ gs'] exI [of _ ks']) (auto simp: blk i_def)
qed

lemma filter_block_finds:
  assumes "sorted (map (unat \<circ> fst) blocks)" and "(off, kk) \<in> set blocks" and "k \<in> set kk"
    and "length (fb_Finish policy (build_filter_block policy blocks)) < 2 ^ 32"
  shows "fr_KeyMayMatch policy
    (new_filter_block_reader (fb_Finish policy (build_filter_block policy blocks))) off k"
proof -
  from build_filter_block_state [OF assms(1)] assms(2,3) obtain gs ks where
    st: "fb_state policy (build_filter_block policy blocks) gs ks"
    and le: "unat off div kFilterBase \<le> length gs"
    and k: "k \<in> set ((gs @ [ks]) ! (unat off div kFilterBase))"
    by fast
  define hs where "hs = (if ks = [] then gs else gs @ [ks])"
  note fin = fb_Finish_state [OF st, folded hs_def]
  have "unat off div kFilterBase < length hs \<and> k \<in> set (hs ! (unat off div kFilterBase))"
    using le k by (auto simp: hs_def nth_append split: if_splits)
  then show ?thesis
    unfolding fin using assms(4) unfolding fin
    by (intro filter_block_match [OF _ refl]) simp_all
qed

end

section \<open>Properties\<close>

text \<open>
  C21: Filters never hide a stored key. A table's filter block is built from any sequence of
  data blocks at increasing offsets with the Bloom policy on internal keys; asking the finished
  block about a key at the offset of its data block answers yes.
\<close>

theorem filter_block_no_false_negative:
  assumes "sorted (map (unat \<circ> fst) blocks)" and "(off, kk) \<in> set blocks" and "k \<in> set kk"
    and "length (fb_Finish (InternalFilterPolicy (BloomFilterPolicy n))
           (build_filter_block (InternalFilterPolicy (BloomFilterPolicy n)) blocks)) < 2 ^ 32"
  shows "fr_KeyMayMatch (InternalFilterPolicy (BloomFilterPolicy n))
           (new_filter_block_reader (fb_Finish (InternalFilterPolicy (BloomFilterPolicy n))
              (build_filter_block (InternalFilterPolicy (BloomFilterPolicy n)) blocks))) off k"
  by (rule user_bloom.internal.filter_block_finds [OF assms])

theorem filter_block_no_false_negative_witness:
  "fr_KeyMayMatch (InternalFilterPolicy (BloomFilterPolicy 10))
     (new_filter_block_reader (fb_Finish (InternalFilterPolicy (BloomFilterPolicy 10))
        (build_filter_block (InternalFilterPolicy (BloomFilterPolicy 10)) [(0, [[1,2,3,4,5,6,7,8,9]])]))) 0
     [1,2,3,4,5,6,7,8,9]"
  by (rule filter_block_no_false_negative [where kk = "[[1,2,3,4,5,6,7,8,9]]"])
    (simp_all add: build_filter_block_def fb_StartBlock_def fb_StartBlock_loop.simps
      new_filter_block_builder_def fb_AddKey_def fb_Finish_def fb_GenerateFilter_def
      InternalFilterPolicy_def BloomFilterPolicy_def bloom_CreateFilter_def PutFixed32_def Let_def)

end
