(* ===== verification/SkipList.thy ===== *)
theory SkipList
  imports Comparator "HOL-Library.Monad_Syntax"
begin

text \<open>
  The skip list of \<^verbatim>\<open>db/skiplist.h\<close> with its pseudo-random heights (\<^verbatim>\<open>util/random.h\<close>), as a
  store of nodes: a node is a number, 0 is the head, and the links are a map from node and level
  to the next node. Searches follow the links level by level. The list is used by one writer at a
  time; the memory barriers that let readers run beside it are not modelled.
\<close>

section \<open>Random\<close>

definition random_M :: u32 where "random_M = 2147483647"
definition random_A :: u64 where "random_A = 16807"

definition new_Random :: "u32 \<Rightarrow> u32" where
  "new_Random s =
     (let seed = s AND 0x7fffffff in if seed = 0 \<or> seed = 2147483647 then 1 else seed)"

definition Random_Next :: "u32 \<Rightarrow> u32" where
  "Random_Next seed =
     (let product = ucast seed * random_A;
          seed = ucast (drop_bit 31 product + (product AND ucast random_M)) :: u32
      in if seed > random_M then seed - random_M else seed)"

definition Random_Uniform :: "nat \<Rightarrow> u32 \<Rightarrow> u32 \<times> u32" where
  "Random_Uniform n seed = (let s = Random_Next seed in (s mod word_of_nat n, s))"

definition Random_OneIn :: "nat \<Rightarrow> u32 \<Rightarrow> bool \<times> u32" where
  "Random_OneIn n seed = (let s = Random_Next seed in (s mod word_of_nat n = 0, s))"

section \<open>The list\<close>

definition kMaxHeight :: nat where "kMaxHeight = 12"

record 'k skiplist =
  sl_keys :: "'k list"
  sl_next :: "nat \<Rightarrow> nat \<Rightarrow> nat option"
  sl_max_height :: nat
  sl_rnd :: u32

definition new_skiplist :: "'k skiplist" where
  "new_skiplist =
     \<lparr>sl_keys = [], sl_next = (\<lambda>_ _. None), sl_max_height = 1, sl_rnd = new_Random 0xdeadbeef\<rparr>"

text \<open>Node \<open>n + 1\<close> holds the \<open>n\<close>th key that was inserted.\<close>

definition node_key :: "'k skiplist \<Rightarrow> nat \<Rightarrow> 'k" where
  "node_key sl n = sl_keys sl ! (n - 1)"

function RandomHeight_loop :: "nat \<Rightarrow> u32 \<Rightarrow> nat \<times> u32" where
  "RandomHeight_loop height rnd =
     (if height < kMaxHeight then
        let rnd = Random_Next rnd
        in if rnd mod 4 = 0 then RandomHeight_loop (height + 1) rnd else (height, rnd)
      else (height, rnd))"
  by pat_completeness auto
termination
  by (relation "measure (\<lambda>(h, rnd). kMaxHeight - h)") auto

declare RandomHeight_loop.simps [simp del]

definition RandomHeight :: "u32 \<Rightarrow> nat \<times> u32" where
  "RandomHeight rnd = RandomHeight_loop 1 rnd"

definition KeyIsAfterNode :: "('k \<Rightarrow> 'k \<Rightarrow> int) \<Rightarrow> 'k skiplist \<Rightarrow> 'k \<Rightarrow> nat option \<Rightarrow> bool" where
  "KeyIsAfterNode compare sl key n =
     (case n of None \<Rightarrow> False | Some n \<Rightarrow> compare (node_key sl n) key < 0)"

text \<open>
  The searches follow pointers without a bound, so their result is an option: \<open>None\<close> is a search
  that never ends.
\<close>

partial_function (option) FindGreaterOrEqual_loop ::
    "('k \<Rightarrow> 'k \<Rightarrow> int) \<Rightarrow> 'k skiplist \<Rightarrow> 'k \<Rightarrow> nat list \<Rightarrow> nat \<Rightarrow> nat \<Rightarrow> (nat option \<times> nat list) option" where
  "FindGreaterOrEqual_loop compare sl key prev x level =
     (let nxt = sl_next sl x level in
      if KeyIsAfterNode compare sl key nxt
      then FindGreaterOrEqual_loop compare sl key prev (the nxt) level
      else if level = 0 then Some (nxt, prev[level := x])
      else FindGreaterOrEqual_loop compare sl key (prev[level := x]) x (level - 1))"

definition FindGreaterOrEqual ::
    "('k \<Rightarrow> 'k \<Rightarrow> int) \<Rightarrow> 'k skiplist \<Rightarrow> 'k \<Rightarrow> nat list \<Rightarrow> (nat option \<times> nat list) option" where
  "FindGreaterOrEqual compare sl key prev =
     FindGreaterOrEqual_loop compare sl key prev 0 (sl_max_height sl - 1)"

partial_function (option) FindLessThan_loop ::
    "('k \<Rightarrow> 'k \<Rightarrow> int) \<Rightarrow> 'k skiplist \<Rightarrow> 'k \<Rightarrow> nat \<Rightarrow> nat \<Rightarrow> nat option" where
  "FindLessThan_loop compare sl key x level =
     (case sl_next sl x level of
        None \<Rightarrow> if level = 0 then Some x else FindLessThan_loop compare sl key x (level - 1)
      | Some n \<Rightarrow>
          if compare (node_key sl n) key \<ge> 0
          then if level = 0 then Some x else FindLessThan_loop compare sl key x (level - 1)
          else FindLessThan_loop compare sl key n level)"

definition FindLessThan :: "('k \<Rightarrow> 'k \<Rightarrow> int) \<Rightarrow> 'k skiplist \<Rightarrow> 'k \<Rightarrow> nat option" where
  "FindLessThan compare sl key = FindLessThan_loop compare sl key 0 (sl_max_height sl - 1)"

partial_function (option) FindLast_loop :: "'k skiplist \<Rightarrow> nat \<Rightarrow> nat \<Rightarrow> nat option" where
  "FindLast_loop sl x level =
     (case sl_next sl x level of
        None \<Rightarrow> if level = 0 then Some x else FindLast_loop sl x (level - 1)
      | Some n \<Rightarrow> FindLast_loop sl n level)"

definition FindLast :: "'k skiplist \<Rightarrow> nat option" where
  "FindLast sl = FindLast_loop sl 0 (sl_max_height sl - 1)"

text \<open>Linking the new node \<open>x\<close> in behind \<open>prev\<close> at one level.\<close>

definition link_node :: "nat list \<Rightarrow> nat \<Rightarrow> nat \<Rightarrow> 'k skiplist \<Rightarrow> 'k skiplist" where
  "link_node prev x i sl =
     (let nxt = sl_next sl;
          nxt = nxt(x := (nxt x)(i := nxt (prev ! i) i));
          nxt = nxt(prev ! i := (nxt (prev ! i))(i := Some x))
      in sl\<lparr>sl_next := nxt\<rparr>)"

definition sl_Insert :: "('k \<Rightarrow> 'k \<Rightarrow> int) \<Rightarrow> 'k \<Rightarrow> 'k skiplist \<Rightarrow> 'k skiplist option" where
  "sl_Insert compare key sl =
     do {
       (_, prev) \<leftarrow> FindGreaterOrEqual compare sl key (replicate kMaxHeight 0);
       let (height, rnd) = RandomHeight (sl_rnd sl);
       let prev = (if height > sl_max_height sl
                   then map (\<lambda>i. if sl_max_height sl \<le> i \<and> i < height then 0 else prev ! i)
                          [0..<kMaxHeight]
                   else prev);
       let max_height = (if height > sl_max_height sl then height else sl_max_height sl);
       let x = length (sl_keys sl) + 1;
       let sl = sl\<lparr>sl_keys := sl_keys sl @ [key], sl_max_height := max_height, sl_rnd := rnd\<rparr>;
       let sl = fold (link_node prev x) [0..<height] sl;
       Some sl
     }"

definition sl_Contains :: "('k \<Rightarrow> 'k \<Rightarrow> int) \<Rightarrow> 'k \<Rightarrow> 'k skiplist \<Rightarrow> bool option" where
  "sl_Contains compare key sl =
     do {
       (x, _) \<leftarrow> FindGreaterOrEqual compare sl key (replicate kMaxHeight 0);
       Some (case x of None \<Rightarrow> False | Some n \<Rightarrow> compare key (node_key sl n) = 0)
     }"

text \<open>
  Iterators: the current node, or \<open>None\<close> when invalid. A null \<^verbatim>\<open>prev\<close> argument of
  \<^verbatim>\<open>FindGreaterOrEqual\<close> is an array whose contents are dropped.
\<close>

definition sl_iter_Seek :: "('k \<Rightarrow> 'k \<Rightarrow> int) \<Rightarrow> 'k skiplist \<Rightarrow> 'k \<Rightarrow> nat option option" where
  "sl_iter_Seek compare sl target =
     map_option fst (FindGreaterOrEqual compare sl target (replicate kMaxHeight 0))"

definition sl_iter_SeekToFirst :: "'k skiplist \<Rightarrow> nat option" where
  "sl_iter_SeekToFirst sl = sl_next sl 0 0"

definition sl_iter_SeekToLast :: "'k skiplist \<Rightarrow> nat option option" where
  "sl_iter_SeekToLast sl = map_option (\<lambda>n. if n = 0 then None else Some n) (FindLast sl)"

definition sl_iter_Next :: "'k skiplist \<Rightarrow> nat \<Rightarrow> nat option" where
  "sl_iter_Next sl n = sl_next sl n 0"

definition sl_iter_Prev :: "('k \<Rightarrow> 'k \<Rightarrow> int) \<Rightarrow> 'k skiplist \<Rightarrow> nat \<Rightarrow> nat option option" where
  "sl_iter_Prev compare sl n =
     map_option (\<lambda>n. if n = 0 then None else Some n) (FindLessThan compare sl (node_key sl n))"

text \<open>The keys an iterator visits, and a run of insertions.\<close>

fun sl_walk :: "nat \<Rightarrow> 'k skiplist \<Rightarrow> nat option \<Rightarrow> 'k list" where
  "sl_walk (Suc fuel) sl (Some n) = node_key sl n # sl_walk fuel sl (sl_iter_Next sl n)"
| "sl_walk fuel sl n = []"

fun sl_InsertAll :: "('k \<Rightarrow> 'k \<Rightarrow> int) \<Rightarrow> 'k list \<Rightarrow> 'k skiplist \<Rightarrow> 'k skiplist option" where
  "sl_InsertAll compare [] sl = Some sl"
| "sl_InsertAll compare (k # ks) sl =
     do { sl \<leftarrow> sl_Insert compare k sl; sl_InsertAll compare ks sl }"

section \<open>Chains of links\<close>

fun path :: "(nat \<Rightarrow> nat option) \<Rightarrow> nat \<Rightarrow> nat list \<Rightarrow> bool" where
  "path f x [] = (f x = None)"
| "path f x (n # ns) = (f x = Some n \<and> path f n ns)"

definition first :: "nat list \<Rightarrow> nat option" where
  "first ns = (case ns of [] \<Rightarrow> None | n # _ \<Rightarrow> Some n)"

lemma first_simps [simp]: "first [] = None" "first (n # ns) = Some n"
  by (simp_all add: first_def)

lemma path_next: "path f x (as @ bs) \<Longrightarrow> f (last (x # as)) = first bs"
proof (induction as arbitrary: x)
  case Nil
  then show ?case by (cases bs) simp_all
qed auto

lemma path_cong: "path f x ns \<Longrightarrow> (\<And>y. y \<in> set (x # ns) \<Longrightarrow> g y = f y) \<Longrightarrow> path g x ns"
  by (induction ns arbitrary: x) simp_all

lemma path_insert:
  assumes "path f x (as @ bs)" and "distinct (x # as @ bs)" and "new \<notin> set (x # as @ bs)"
    and "g new = first bs" and "g (last (x # as)) = Some new"
    and "\<And>y. y \<noteq> new \<Longrightarrow> y \<noteq> last (x # as) \<Longrightarrow> g y = f y"
  shows "path g x (as @ new # bs)"
  using assms
proof (induction as arbitrary: x)
  case Nil
  have "path g new bs"
  proof (cases bs)
    case (Cons b bs')
    have "path g b bs'"
    proof (rule path_cong [of f])
      fix y
      assume "y \<in> set (b # bs')"
      then have "y \<noteq> new" "y \<noteq> last [x]" using Nil(2,3) Cons by auto
      then show "g y = f y" using Nil(6) by blast
    qed (use Nil Cons in simp)
    with Nil Cons show ?thesis by simp
  qed (use Nil in auto)
  then show ?case using Nil by simp
next
  case (Cons a as)
  have "path g a (as @ new # bs)"
    by (rule Cons.IH) (use Cons.prems in auto)
  moreover have "last (a # as) \<noteq> x"
    using Cons.prems(2) last_in_set [of "a # as"] by auto
  moreover from this have "g x = f x" using Cons.prems(3) Cons.prems(6) [of x] by simp
  ultimately show ?case using Cons.prems by auto
qed

section \<open>One step of a search\<close>

lemma FindGreaterOrEqual_step:
  "sl_next sl x l = Some b \<Longrightarrow> compare (node_key sl b) key < 0 \<Longrightarrow>
   FindGreaterOrEqual_loop compare sl key prev x l = FindGreaterOrEqual_loop compare sl key prev b l"
  by (subst FindGreaterOrEqual_loop.simps) (simp add: KeyIsAfterNode_def)

lemma FindGreaterOrEqual_down:
  "\<not> KeyIsAfterNode compare sl key (sl_next sl x l) \<Longrightarrow>
   FindGreaterOrEqual_loop compare sl key prev x l =
     (if l = 0 then Some (sl_next sl x l, prev[l := x])
      else FindGreaterOrEqual_loop compare sl key (prev[l := x]) x (l - 1))"
  by (subst FindGreaterOrEqual_loop.simps) simp

lemma FindLessThan_step:
  "sl_next sl x l = Some b \<Longrightarrow> compare (node_key sl b) key < 0 \<Longrightarrow>
   FindLessThan_loop compare sl key x l = FindLessThan_loop compare sl key b l"
  by (subst FindLessThan_loop.simps) simp

lemma FindLessThan_down:
  "\<not> KeyIsAfterNode compare sl key (sl_next sl x l) \<Longrightarrow>
   FindLessThan_loop compare sl key x l =
     (if l = 0 then Some x else FindLessThan_loop compare sl key x (l - 1))"
  by (subst FindLessThan_loop.simps) (auto simp: KeyIsAfterNode_def split: option.splits)

lemma FindLast_step: "sl_next sl x l = Some b \<Longrightarrow> FindLast_loop sl x l = FindLast_loop sl b l"
  by (subst FindLast_loop.simps) simp

lemma FindLast_down:
  "sl_next sl x l = None \<Longrightarrow>
   FindLast_loop sl x l = (if l = 0 then Some x else FindLast_loop sl x (l - 1))"
  by (subst FindLast_loop.simps) simp

section \<open>Invariant\<close>

text \<open>
  \<open>ns\<close> are the nodes in list order and \<open>ht\<close> their heights: at every level the links form the
  chain of the nodes that are taller than the level.
\<close>

context key_order
begin

definition sl_ok :: "'k skiplist \<Rightarrow> nat list \<Rightarrow> (nat \<Rightarrow> nat) \<Rightarrow> bool" where
  "sl_ok sl ns ht \<longleftrightarrow>
     sorted_wrt (\<lambda>a b. less (node_key sl a) (node_key sl b)) ns \<and>
     (\<forall>n \<in> set ns. valid (node_key sl n)) \<and> set ns = {1..length (sl_keys sl)} \<and> distinct ns \<and>
     1 \<le> sl_max_height sl \<and> sl_max_height sl \<le> kMaxHeight \<and>
     (\<forall>n \<in> set ns. 1 \<le> ht n \<and> ht n \<le> sl_max_height sl) \<and>
     (\<forall>l. path (\<lambda>x. sl_next sl x l) 0 (filter (\<lambda>n. l < ht n) ns))"

lemma sl_ok_new: "sl_ok new_skiplist [] ht"
  by (simp add: sl_ok_def new_skiplist_def kMaxHeight_def)

abbreviation before :: "'k skiplist \<Rightarrow> nat list \<Rightarrow> 'k \<Rightarrow> nat list" where
  "before sl ns key \<equiv> takeWhile (\<lambda>n. less (node_key sl n) key) ns"

abbreviation after :: "'k skiplist \<Rightarrow> nat list \<Rightarrow> 'k \<Rightarrow> nat list" where
  "after sl ns key \<equiv> dropWhile (\<lambda>n. less (node_key sl n) key) ns"

lemma level_split:
  assumes ok: "sl_ok sl ns ht" and "valid key"
    and split: "filter (\<lambda>n. l < ht n) ns = as @ bs"
    and as: "\<forall>a \<in> set as. less (node_key sl a) key"
    and bs: "bs = [] \<or> \<not> less (node_key sl (hd bs)) key"
  shows "as = filter (\<lambda>n. l < ht n) (before sl ns key)" and "bs = filter (\<lambda>n. l < ht n) (after sl ns key)"
proof -
  let ?P = "\<lambda>n. less (node_key sl n) key"
  have srt: "sorted_wrt (\<lambda>a b. less (node_key sl a) (node_key sl b)) (filter (\<lambda>n. l < ht n) ns)"
    and val: "\<forall>n \<in> set (filter (\<lambda>n. l < ht n) ns). valid (node_key sl n)"
    using ok by (auto simp: sl_ok_def intro: sorted_wrt_filter)
  have "takeWhile ?P (as @ bs) = as" using as bs by (cases bs) (auto simp: takeWhile_append)
  then have as_eq: "as = filter ?P (filter (\<lambda>n. l < ht n) ns)"
    using sorted_takeWhile_filter [OF srt val assms(2)] split by simp
  have tw: "before sl ns key = filter ?P ns"
    using sorted_takeWhile_filter [of "node_key sl" ns key] ok assms(2) by (simp add: sl_ok_def)
  show eq: "as = filter (\<lambda>n. l < ht n) (before sl ns key)"
    unfolding as_eq tw by (simp add: conj_commute)
  have "filter (\<lambda>n. l < ht n) (before sl ns key @ after sl ns key) = as @ bs"
    using split by simp
  then show "bs = filter (\<lambda>n. l < ht n) (after sl ns key)"
    unfolding filter_append eq [symmetric] by simp
qed

lemma level_descend:
  assumes ok: "sl_ok sl ns ht" and "valid key"
    and split: "filter (\<lambda>n. Suc l < ht n) ns = as @ bs"
    and as: "\<forall>a \<in> set as. less (node_key sl a) key"
  shows "\<exists>as' bs'. filter (\<lambda>n. l < ht n) ns = as' @ bs' \<and> last (0 # as') = last (0 # as) \<and>
    (\<forall>a \<in> set as'. less (node_key sl a) key)"
proof (cases "as = []")
  case False
  define x where "x = last as"
  have "x \<in> set as" using False by (simp add: x_def)
  then have "x \<in> set (filter (\<lambda>n. Suc l < ht n) ns)" unfolding split by simp
  then have "x \<in> set (filter (\<lambda>n. l < ht n) ns)" by auto
  then obtain as' bs' where s: "filter (\<lambda>n. l < ht n) ns = as' @ x # bs'" by (auto dest: split_list)
  have "sorted_wrt (\<lambda>a b. less (node_key sl a) (node_key sl b)) (as' @ x # bs')"
    unfolding s [symmetric] using ok by (auto simp: sl_ok_def intro: sorted_wrt_filter)
  moreover have "\<forall>n \<in> set (as' @ x # bs'). valid (node_key sl n)"
    unfolding s [symmetric] using ok by (simp add: sl_ok_def)
  ultimately have "\<forall>a \<in> set as'. less (node_key sl a) key"
    using as \<open>x \<in> set as\<close> assms(2) by (auto simp: sorted_wrt_append intro: less_trans [of _ "node_key sl x" key])
  then show ?thesis
    using s False as \<open>x \<in> set as\<close> by (intro exI [of _ "as' @ [x]"] exI [of _ bs']) (auto simp: x_def)
qed (use split in auto)

lemma level_0: "sl_ok sl ns ht \<Longrightarrow> set xs \<subseteq> set ns \<Longrightarrow> filter (\<lambda>n. 0 < ht n) xs = xs"
  by (force simp: sl_ok_def filter_id_conv)

lemma next_at:
  assumes "sl_ok sl ns ht" and "filter (\<lambda>n. l < ht n) ns = as @ bs"
  shows "sl_next sl (last (0 # as)) l = first bs"
proof -
  have "path (\<lambda>x. sl_next sl x l) 0 (as @ bs)" using assms by (metis sl_ok_def)
  from path_next [OF this] show ?thesis .
qed

text \<open>Along one level the search walks up to the last node below the key.\<close>

lemma FindGreaterOrEqual_walk:
  assumes "sl_ok sl ns ht" and "valid key"
  shows "filter (\<lambda>n. l < ht n) ns = as @ bs \<Longrightarrow> \<forall>a \<in> set as. less (node_key sl a) key \<Longrightarrow>
    FindGreaterOrEqual_loop compare sl key prev (last (0 # as)) l =
    FindGreaterOrEqual_loop compare sl key prev (last (0 # filter (\<lambda>n. l < ht n) (before sl ns key))) l"
proof (induction bs arbitrary: as)
  case Nil
  note sp = level_split [OF assms Nil.prems disjI1 [OF refl]]
  show ?case unfolding sp(1) [symmetric] by simp
next
  case (Cons b bs)
  have nxt: "sl_next sl (last (0 # as)) l = Some b"
    using next_at [OF assms(1) Cons.prems(1)] by simp
  show ?case
  proof (cases "less (node_key sl b) key")
    case True
    have "FindGreaterOrEqual_loop compare sl key prev (last (0 # as)) l =
        FindGreaterOrEqual_loop compare sl key prev (last (0 # as @ [b])) l"
      using FindGreaterOrEqual_step [OF nxt, of compare key] True by simp
    then show ?thesis using Cons.IH [of "as @ [b]"] Cons.prems True by simp
  next
    case False
    note sp = level_split [OF assms Cons.prems, simplified, OF False]
    show ?thesis unfolding sp(1) [symmetric] by simp
  qed
qed

lemma split_before_after:
  "filter P (before sl ns key) @ filter P (after sl ns key) = filter P ns"
  by (metis filter_append takeWhile_dropWhile_id)

lemma level_stop:
  fixes l :: nat
  assumes "sl_ok sl ns ht" and "valid key"
  defines "x \<equiv> last (0 # filter (\<lambda>n. l < ht n) (before sl ns key))"
  shows "sl_next sl x l = first (filter (\<lambda>n. l < ht n) (after sl ns key))"
    and "\<not> KeyIsAfterNode compare sl key (sl_next sl x l)"
proof -
  show nxt: "sl_next sl x l = first (filter (\<lambda>n. l < ht n) (after sl ns key))"
    unfolding x_def by (rule next_at [OF assms(1)]) (simp add: split_before_after)
  show "\<not> KeyIsAfterNode compare sl key (sl_next sl x l)"
  proof (cases "filter (\<lambda>n. l < ht n) (after sl ns key)")
    case (Cons b bs)
    then have "b \<in> set (after sl ns key)" by (auto dest: filter_eq_ConsD)
    then have "compare key (node_key sl b) \<le> 0" and "b \<in> set ns"
      using sorted_dropWhile_ge [of "node_key sl" ns key b] assms(1,2)
      by (simp add: sl_ok_def, metis set_dropWhileD)
    then have "\<not> less (node_key sl b) key"
      using not_less [of "node_key sl b" key] assms(1,2) by (simp add: sl_ok_def)
    then show ?thesis using Cons by (simp add: nxt KeyIsAfterNode_def)
  qed (simp add: nxt KeyIsAfterNode_def)
qed

lemma before_less: "a \<in> set (before sl ns key) \<Longrightarrow> less (node_key sl a) key"
  by (auto dest: set_takeWhileD)

lemma FindGreaterOrEqual_loop_ok:
  assumes "sl_ok sl ns ht" and "valid key"
  shows "filter (\<lambda>n. level < ht n) ns = as @ bs \<Longrightarrow>
    \<forall>a \<in> set as. less (node_key sl a) key \<Longrightarrow> level < length prev \<Longrightarrow>
    \<exists>prev'. FindGreaterOrEqual_loop compare sl key prev (last (0 # as)) level =
      Some (first (after sl ns key), prev') \<and> length prev' = length prev \<and>
      (\<forall>l \<le> level. prev' ! l = last (0 # filter (\<lambda>n. l < ht n) (before sl ns key))) \<and>
      (\<forall>l > level. prev' ! l = prev ! l)"
proof (induction level arbitrary: as bs prev)
  case 0
  define x where "x = last (0 # filter (\<lambda>n. 0 < ht n) (before sl ns key))"
  note stop = level_stop [OF assms, of 0, folded x_def]
  have aft: "filter (\<lambda>n. 0 < ht n) (after sl ns key) = after sl ns key"
    using level_0 [OF assms(1)] by (simp add: set_dropWhileD subsetI)
  have "FindGreaterOrEqual_loop compare sl key prev (last (0 # as)) 0 =
      Some (first (after sl ns key), prev[0 := x])"
    using FindGreaterOrEqual_walk [OF assms 0(1,2), of prev] FindGreaterOrEqual_down [OF stop(2), of prev]
      stop(1) by (simp add: x_def aft del: last.simps)
  then show ?case using 0(3) by (auto simp: x_def)
next
  case (Suc level)
  let ?as = "filter (\<lambda>n. Suc level < ht n) (before sl ns key)"
  define x where "x = last (0 # ?as)"
  note stop = level_stop [OF assms, of "Suc level", folded x_def]
  have "\<forall>a \<in> set ?as. less (node_key sl a) key" by (auto dest: before_less)
  from level_descend [OF assms split_before_after [symmetric] this]
  obtain as' bs' where d: "filter (\<lambda>n. level < ht n) ns = as' @ bs'" "last (0 # as') = x"
      "\<forall>a \<in> set as'. less (node_key sl a) key"
    unfolding x_def by blast
  have step: "FindGreaterOrEqual_loop compare sl key prev (last (0 # as)) (Suc level) =
      FindGreaterOrEqual_loop compare sl key (prev[Suc level := x]) x level"
    using FindGreaterOrEqual_walk [OF assms Suc.prems(1,2), of prev] FindGreaterOrEqual_down [OF stop(2), of prev]
    by (simp add: x_def del: last.simps)
  from Suc.IH [OF d(1,3), of "prev[Suc level := x]"] Suc.prems(3) obtain prev' where
    r: "FindGreaterOrEqual_loop compare sl key (prev[Suc level := x]) x level =
      Some (first (after sl ns key), prev')" "length prev' = length prev"
      "\<forall>l \<le> level. prev' ! l = last (0 # filter (\<lambda>n. l < ht n) (before sl ns key))"
      "\<forall>l > level. prev' ! l = prev[Suc level := x] ! l"
    unfolding d(2) by auto
  have "prev' ! l = last (0 # filter (\<lambda>n. l < ht n) (before sl ns key))" if "l \<le> Suc level" for l
    using r(3,4) that Suc.prems(3) by (cases "l = Suc level") (simp_all add: x_def del: last.simps)
  moreover have "prev' ! l = prev ! l" if "l > Suc level" for l
    using r(4) that by simp
  ultimately show ?case using step r(1,2) by auto
qed

lemma FindGreaterOrEqual_ok:
  assumes "sl_ok sl ns ht" and "valid key" and "length prev = kMaxHeight"
  shows "\<exists>prev'. FindGreaterOrEqual compare sl key prev = Some (first (after sl ns key), prev') \<and>
      length prev' = kMaxHeight \<and>
      (\<forall>l < sl_max_height sl. prev' ! l = last (0 # filter (\<lambda>n. l < ht n) (before sl ns key)))"
proof -
  have "1 \<le> sl_max_height sl" "sl_max_height sl \<le> kMaxHeight" using assms(1) by (simp_all add: sl_ok_def)
  then have "sl_max_height sl - 1 < length prev" using assms(3) by simp
  from FindGreaterOrEqual_loop_ok [OF assms(1,2), where as = "[]", OF _ _ this] assms(1,3)
  show ?thesis by (fastforce simp: FindGreaterOrEqual_def sl_ok_def)
qed

subsection \<open>Insertion\<close>

definition linked :: "nat list \<Rightarrow> nat \<Rightarrow> nat \<Rightarrow> (nat \<Rightarrow> nat \<Rightarrow> nat option) \<Rightarrow> nat \<Rightarrow> nat \<Rightarrow> nat option" where
  "linked prev x h nxt y l =
     (if l < h then
        if y = prev ! l then Some x else if y = x then nxt (prev ! l) l else nxt y l
      else nxt y l)"

lemma fold_link_node:
  assumes "\<forall>l < h. prev ! l \<noteq> x"
  shows "fold (link_node prev x) [0..<h] sl = sl\<lparr>sl_next := linked prev x h (sl_next sl)\<rparr>"
  using assms
proof (induction h)
  case 0
  have "linked prev x 0 (sl_next sl) = sl_next sl" by (intro ext) (simp add: linked_def)
  then show ?case by simp
next
  case (Suc h)
  let ?F = "linked prev x h (sl_next sl)"
  have "(?F(x := (?F x)(h := ?F (prev ! h) h)))
      (prev ! h := ((?F(x := (?F x)(h := ?F (prev ! h) h))) (prev ! h))(h := Some x)) =
      linked prev x (Suc h) (sl_next sl)"
    by (intro ext) (use Suc.prems in \<open>auto simp: linked_def less_Suc_eq\<close>)
  then show ?case using Suc by (simp add: link_node_def Let_def)
qed

lemma RandomHeight_loop_bounds:
  "1 \<le> h \<Longrightarrow> h \<le> kMaxHeight \<Longrightarrow> RandomHeight_loop h rnd = (h', rnd') \<Longrightarrow> h \<le> h' \<and> h' \<le> kMaxHeight"
proof (induction h rnd rule: RandomHeight_loop.induct)
  case (1 h rnd)
  then show ?case
    by (auto simp: RandomHeight_loop.simps [of h rnd] Let_def split: if_splits)
qed

lemma RandomHeight_bounds: "RandomHeight rnd = (h, rnd') \<Longrightarrow> 1 \<le> h \<and> h \<le> kMaxHeight"
  using RandomHeight_loop_bounds [of 1 rnd h rnd'] by (simp add: RandomHeight_def kMaxHeight_def)

lemma sl_Insert_ok:
  assumes ok: "sl_ok sl ns ht" and val: "valid key"
    and new: "\<forall>n \<in> set ns. compare key (node_key sl n) \<noteq> 0"
  shows "\<exists>sl' ht'. sl_Insert compare key sl = Some sl' \<and> sl_keys sl' = sl_keys sl @ [key] \<and>
    sl_ok sl' (before sl ns key @ (length (sl_keys sl) + 1) # after sl ns key) ht'"
proof -
  let ?B = "before sl ns key" and ?A = "after sl ns key"
  obtain prev0 where fge: "FindGreaterOrEqual compare sl key (replicate kMaxHeight 0) = Some (first ?A, prev0)"
    and len0: "length prev0 = kMaxHeight"
    and prev0: "\<forall>l < sl_max_height sl. prev0 ! l = last (0 # filter (\<lambda>n. l < ht n) ?B)"
    using FindGreaterOrEqual_ok [OF ok val, of "replicate kMaxHeight 0"] by auto
  obtain h rnd where rh: "RandomHeight (sl_rnd sl) = (h, rnd)" by fastforce
  note hb = RandomHeight_bounds [OF rh]
  define prev where "prev = (if h > sl_max_height sl
      then map (\<lambda>i. if sl_max_height sl \<le> i \<and> i < h then 0 else prev0 ! i) [0..<kMaxHeight] else prev0)"
  define x where "x = length (sl_keys sl) + 1"
  define m where "m = (if h > sl_max_height sl then h else sl_max_height sl)"
  define sl1 where "sl1 = sl\<lparr>sl_keys := sl_keys sl @ [key], sl_max_height := m, sl_rnd := rnd\<rparr>"
  define sl2 where "sl2 = fold (link_node prev x) [0..<h] sl1"
  define ht' where "ht' = ht(x := h)"
  have ns: "set ns = {1..length (sl_keys sl)}" "distinct ns" and hts: "\<forall>n \<in> set ns. ht n \<le> sl_max_height sl"
    using ok by (simp_all add: sl_ok_def)
  have BA: "?B @ ?A = ns" by simp
  have x_new: "x \<notin> set ns" "x \<noteq> 0" using ns by (auto simp: x_def)
  have prev: "prev ! l = last (0 # filter (\<lambda>n. l < ht n) ?B)" if "l < h" for l
  proof (cases "l < sl_max_height sl")
    case True
    then show ?thesis using prev0 hb that by (simp add: prev_def)
  next
    case False
    have "ht n \<le> sl_max_height sl" if "n \<in> set ?B" for n
      using set_takeWhileD [OF that] hts by simp
    then have "filter (\<lambda>n. l < ht n) ?B = []"
      using False by (fastforce simp: filter_empty_conv)
    then show ?thesis using False that hb by (simp add: prev_def)
  qed
  have prev_x: "\<forall>l < h. prev ! l \<noteq> x"
  proof (intro allI impI)
    fix l assume "l < h"
    have "last (0 # filter (\<lambda>n. l < ht n) ?B) \<in> set (0 # filter (\<lambda>n. l < ht n) ?B)"
      by (rule last_in_set) simp
    then show "prev ! l \<noteq> x"
      unfolding prev [OF \<open>l < h\<close>] using x_new by (auto dest!: set_takeWhileD simp del: last.simps)
  qed
  have nxt: "sl_next sl2 = linked prev x h (sl_next sl)"
    unfolding sl2_def fold_link_node [OF prev_x] by (simp add: sl1_def)
  have keys: "sl_keys sl2 = sl_keys sl @ [key]" "sl_max_height sl2 = m"
    unfolding sl2_def fold_link_node [OF prev_x] by (simp_all add: sl1_def)
  have nk: "node_key sl2 n = node_key sl n" if "n \<in> set ns" for n
    using that ns by (auto simp: node_key_def keys nth_append)
  have nkx: "node_key sl2 x = key" by (simp add: node_key_def keys x_def)
  have ins: "sl_Insert compare key sl = Some sl2"
    by (simp add: sl_Insert_def fge rh Let_def prev_def sl1_def sl2_def m_def x_def)
  have srt: "sorted_wrt (\<lambda>a b. less (node_key sl a) (node_key sl b)) (?B @ ?A)"
    using ok by (simp add: sl_ok_def)
  have A_gt: "less key (node_key sl n)" if "n \<in> set ?A" for n
  proof -
    have "n \<in> set ns" using that by (auto dest: set_dropWhileD)
    moreover have "compare key (node_key sl n) \<le> 0"
      using sorted_dropWhile_ge [of "node_key sl" ns key n] ok val that by (simp add: sl_ok_def)
    ultimately show ?thesis using new by (auto simp: order.order_iff_strict)
  qed
  have sorted': "sorted_wrt (\<lambda>a b. less (node_key sl2 a) (node_key sl2 b)) (?B @ x # ?A)"
  proof -
    have "sorted_wrt (\<lambda>a b. less (node_key sl2 a) (node_key sl2 b)) (?B @ ?A)"
      by (rule sorted_wrt_mono_rel [OF _ srt]) (use nk BA in auto)
    note this [unfolded sorted_wrt_append]
    moreover have "less (node_key sl2 a) (node_key sl2 x)" if "a \<in> set ?B" for a
      using before_less [OF that] set_takeWhileD [OF that] by (simp add: nk nkx)
    moreover have "less (node_key sl2 x) (node_key sl2 a)" if "a \<in> set ?A" for a
      using A_gt [OF that] set_dropWhileD [OF that] by (simp add: nk nkx)
    ultimately show ?thesis by (simp add: sorted_wrt_append)
  qed
  have path': "path (\<lambda>y. sl_next sl2 y l) 0 (filter (\<lambda>n. l < ht' n) (?B @ x # ?A))" for l
  proof -
    let ?b = "filter (\<lambda>n. l < ht n) ?B" and ?a = "filter (\<lambda>n. l < ht n) ?A"
    have same: "filter (\<lambda>n. l < ht' n) ?B = ?b" "filter (\<lambda>n. l < ht' n) ?A = ?a" "ht' x = h"
      using x_new by (auto simp: ht'_def intro!: filter_cong dest: set_takeWhileD set_dropWhileD)
    have flt: "filter (\<lambda>n. l < ht' n) (?B @ x # ?A) = ?b @ (if l < h then [x] else []) @ ?a"
      by (simp only: filter_append filter.simps same) simp
    have old: "path (\<lambda>y. sl_next sl y l) 0 (?b @ ?a)"
      using ok by (simp only: sl_ok_def split_before_after)
    have dist: "distinct (0 # ?b @ ?a)" "x \<notin> set (0 # ?b @ ?a)"
      unfolding split_before_after using ns x_new by auto
    show ?thesis
    proof (cases "l < h")
      case True
      have "sl_next sl (prev ! l) l = first ?a"
        using path_next [OF old] prev [OF True] by simp
      then have "path (\<lambda>y. sl_next sl2 y l) 0 (?b @ x # ?a)"
        using prev [OF True] prev_x True
        by (intro path_insert [OF old dist]) (auto simp: nxt linked_def simp del: last.simps)
      then show ?thesis using True unfolding flt by simp
    next
      case False
      have "path (\<lambda>y. sl_next sl2 y l) 0 (?b @ ?a)"
        using old False by (simp add: nxt linked_def)
      then show ?thesis using False unfolding flt by simp
    qed
  qed
  have BA_set: "set ?B \<union> set ?A = set ns" by (metis set_append takeWhile_dropWhile_id)
  then have set': "set (?B @ x # ?A) = insert x (set ns)" by auto
  have ran: "insert x (set ns) = {1..length (sl_keys sl2)}"
    unfolding ns(1) keys by (auto simp: x_def)
  have val': "\<forall>n \<in> insert x (set ns). valid (node_key sl2 n)"
    using ok val nk nkx unfolding sl_ok_def by simp
  have dist': "distinct (?B @ x # ?A)"
  proof -
    have "distinct (?B @ ?A)" unfolding BA by (rule ns(2))
    then have "distinct ?B" "distinct ?A" "set ?B \<inter> set ?A = {}" unfolding distinct_append by simp_all
    moreover have "x \<notin> set ?B" "x \<notin> set ?A" using x_new(1) BA_set by auto
    ultimately show ?thesis by auto
  qed
  have ht_m: "1 \<le> ht' n \<and> ht' n \<le> m" if "n \<in> insert x (set ns)" for n
  proof (cases "n = x")
    case False
    then have "n \<in> set ns" using that by simp
    then have "1 \<le> ht n" "ht n \<le> sl_max_height sl" using ok unfolding sl_ok_def by blast+
    then show ?thesis using False by (simp add: m_def ht'_def)
  qed (use hb in \<open>simp add: m_def ht'_def\<close>)
  have m: "1 \<le> m" "m \<le> kMaxHeight" using ok hb unfolding sl_ok_def m_def by simp_all
  have "sl_ok sl2 (?B @ x # ?A) ht'"
    unfolding sl_ok_def keys(2)
    by (intro conjI allI ballI; (unfold set')?)
      (use sorted' path' val' dist' ran ht_m m in \<open>blast+\<close>)
  then show ?thesis using ins keys by (auto simp: x_def)
qed

subsection \<open>Backward searches\<close>

lemma FindLessThan_walk:
  assumes "sl_ok sl ns ht" and "valid key"
  shows "filter (\<lambda>n. l < ht n) ns = as @ bs \<Longrightarrow> \<forall>a \<in> set as. less (node_key sl a) key \<Longrightarrow>
    FindLessThan_loop compare sl key (last (0 # as)) l =
    FindLessThan_loop compare sl key (last (0 # filter (\<lambda>n. l < ht n) (before sl ns key))) l"
proof (induction bs arbitrary: as)
  case Nil
  note sp = level_split [OF assms Nil.prems disjI1 [OF refl]]
  show ?case unfolding sp(1) [symmetric] by simp
next
  case (Cons b bs)
  have nxt: "sl_next sl (last (0 # as)) l = Some b"
    using next_at [OF assms(1) Cons.prems(1)] by simp
  show ?case
  proof (cases "less (node_key sl b) key")
    case True
    have "FindLessThan_loop compare sl key (last (0 # as)) l =
        FindLessThan_loop compare sl key (last (0 # as @ [b])) l"
      using FindLessThan_step [OF nxt, of compare key] True by simp
    then show ?thesis using Cons.IH [of "as @ [b]"] Cons.prems True by simp
  next
    case False
    note sp = level_split [OF assms Cons.prems, simplified, OF False]
    show ?thesis unfolding sp(1) [symmetric] by simp
  qed
qed

lemma FindLessThan_loop_ok:
  assumes "sl_ok sl ns ht" and "valid key"
  shows "filter (\<lambda>n. level < ht n) ns = as @ bs \<Longrightarrow> \<forall>a \<in> set as. less (node_key sl a) key \<Longrightarrow>
    FindLessThan_loop compare sl key (last (0 # as)) level = Some (last (0 # before sl ns key))"
proof (induction level arbitrary: as bs)
  case 0
  have "filter (\<lambda>n. 0 < ht n) (before sl ns key) = before sl ns key"
    by (rule level_0 [OF assms(1)]) (meson set_takeWhileD subsetI)
  then show ?case
    using FindLessThan_walk [OF assms 0] FindLessThan_down [OF level_stop(2) [OF assms, of 0]]
    by (simp del: last.simps)
next
  case (Suc level)
  have "\<forall>a \<in> set (filter (\<lambda>n. Suc level < ht n) (before sl ns key)). less (node_key sl a) key"
    by (auto dest: before_less)
  from level_descend [OF assms split_before_after [symmetric] this]
  obtain as' bs' where d: "filter (\<lambda>n. level < ht n) ns = as' @ bs'"
      "last (0 # as') = last (0 # filter (\<lambda>n. Suc level < ht n) (before sl ns key))"
      "\<forall>a \<in> set as'. less (node_key sl a) key" by blast
  show ?case
    using FindLessThan_walk [OF assms Suc.prems] FindLessThan_down [OF level_stop(2) [OF assms, of "Suc level"]]
      Suc.IH [OF d(1,3)] d(2) by (simp del: last.simps)
qed

lemma FindLessThan_ok:
  assumes "sl_ok sl ns ht" and "valid key"
  shows "FindLessThan compare sl key = Some (last (0 # before sl ns key))"
  using FindLessThan_loop_ok [OF assms, where as = "[]"] by (simp add: FindLessThan_def)

lemma FindLast_walk:
  assumes ok: "sl_ok sl ns ht"
  shows "filter (\<lambda>n. l < ht n) ns = as @ bs \<Longrightarrow>
    FindLast_loop sl (last (0 # as)) l = FindLast_loop sl (last (0 # as @ bs)) l \<and>
    sl_next sl (last (0 # as @ bs)) l = None"
proof (induction bs arbitrary: as)
  case Nil
  then show ?case using next_at [OF ok Nil.prems] by simp
next
  case (Cons b bs)
  have "FindLast_loop sl (last (0 # as)) l = FindLast_loop sl (last (0 # as @ [b])) l"
    using FindLast_step [of sl "last (0 # as)" l b] next_at [OF ok Cons.prems] by simp
  then show ?case using Cons.IH [of "as @ [b]"] Cons.prems by simp
qed

lemma FindLast_loop_ok:
  assumes ok: "sl_ok sl ns ht"
  shows "filter (\<lambda>n. level < ht n) ns = as @ bs \<Longrightarrow>
    FindLast_loop sl (last (0 # as)) level = Some (last (0 # ns))"
proof (induction level arbitrary: as bs)
  case 0
  then have "ns = as @ bs" using level_0 [OF ok, of ns] by simp
  then show ?case
    using FindLast_walk [OF ok 0] FindLast_down [of sl "last (0 # as @ bs)" 0] by (simp del: last.simps)
next
  case (Suc level)
  define xs where "xs = as @ bs"
  have "\<exists>as' bs'. filter (\<lambda>n. level < ht n) ns = as' @ bs' \<and> last (0 # as') = last (0 # xs)"
  proof (cases "xs = []")
    case False
    then have "last xs \<in> set (filter (\<lambda>n. Suc level < ht n) ns)"
      using Suc.prems last_in_set [OF False] by (simp add: xs_def)
    then have "last xs \<in> set (filter (\<lambda>n. level < ht n) ns)" by auto
    then obtain p q where "filter (\<lambda>n. level < ht n) ns = (p @ [last xs]) @ q"
      by (metis append.assoc append_Cons append_Nil in_set_conv_decomp)
    then show ?thesis using False by (intro exI [of _ "p @ [last xs]"] exI [of _ q]) simp
  qed auto
  then obtain as' bs' where d: "filter (\<lambda>n. level < ht n) ns = as' @ bs'" "last (0 # as') = last (0 # xs)"
    by blast
  show ?case
    using FindLast_walk [OF ok Suc.prems, folded xs_def] FindLast_down [of sl "last (0 # xs)" "Suc level"]
      Suc.IH [OF d(1)] d(2) by (simp del: last.simps)
qed

lemma FindLast_ok: "sl_ok sl ns ht \<Longrightarrow> FindLast sl = Some (last (0 # ns))"
  using FindLast_loop_ok [where as = "[]"] by (simp add: FindLast_def)

subsection \<open>What clients see: a sorted list of keys\<close>

definition sl_rep :: "'k skiplist \<Rightarrow> 'k list \<Rightarrow> bool" where
  "sl_rep sl ks \<longleftrightarrow> (\<exists>ns ht. sl_ok sl ns ht \<and> ks = map (node_key sl) ns)"

lemma sl_rep_new: "sl_rep new_skiplist []"
  using sl_ok_new by (auto simp: sl_rep_def)

lemma sl_rep_sorted: "sl_rep sl ks \<Longrightarrow> sorted_wrt less ks \<and> (\<forall>k \<in> set ks. valid k)"
  by (auto simp: sl_rep_def sl_ok_def sorted_wrt_map)

lemma sl_rep_Insert:
  assumes "sl_rep sl ks" and "valid key" and "\<forall>k \<in> set ks. compare key k \<noteq> 0"
  shows "\<exists>sl'. sl_Insert compare key sl = Some sl' \<and>
    sl_rep sl' (takeWhile (\<lambda>k. less k key) ks @ key # dropWhile (\<lambda>k. less k key) ks)"
proof -
  obtain ns ht where ok: "sl_ok sl ns ht" and ks: "ks = map (node_key sl) ns"
    using assms(1) by (auto simp: sl_rep_def)
  from sl_Insert_ok [OF ok assms(2)] assms(3) obtain sl' ht' where
    ins: "sl_Insert compare key sl = Some sl'" "sl_keys sl' = sl_keys sl @ [key]" and
    ok': "sl_ok sl' (before sl ns key @ (length (sl_keys sl) + 1) # after sl ns key) ht'"
    by (auto simp: ks)
  have nk: "node_key sl' n = node_key sl n" if "n \<in> set ns" for n
  proof -
    have "n - 1 < length (sl_keys sl)" using that ok by (auto simp: sl_ok_def)
    then show ?thesis by (simp add: node_key_def ins nth_append)
  qed
  have "map (node_key sl') (before sl ns key) = map (node_key sl) (before sl ns key)"
    and "map (node_key sl') (after sl ns key) = map (node_key sl) (after sl ns key)"
    using nk by (auto dest: set_takeWhileD set_dropWhileD)
  moreover have "node_key sl' (length (sl_keys sl) + 1) = key"
    by (simp add: node_key_def ins)
  ultimately have "takeWhile (\<lambda>k. less k key) ks @ key # dropWhile (\<lambda>k. less k key) ks =
      map (node_key sl') (before sl ns key @ (length (sl_keys sl) + 1) # after sl ns key)"
    by (simp add: ks takeWhile_map dropWhile_map comp_def)
  then show ?thesis using ok' ins(1) unfolding sl_rep_def by blast
qed

lemma sl_rep_Seek:
  assumes "sl_rep sl ks" and "valid key"
  shows "\<exists>n. sl_iter_Seek compare sl key = Some n \<and>
    (case n of None \<Rightarrow> dropWhile (\<lambda>k. less k key) ks = []
     | Some n \<Rightarrow> \<exists>ks'. dropWhile (\<lambda>k. less k key) ks = node_key sl n # ks')"
proof -
  obtain ns ht where ok: "sl_ok sl ns ht" and ks: "ks = map (node_key sl) ns"
    using assms(1) by (auto simp: sl_rep_def)
  from FindGreaterOrEqual_ok [OF ok assms(2), of "replicate kMaxHeight 0"]
  have "sl_iter_Seek compare sl key = Some (first (after sl ns key))"
    by (auto simp: sl_iter_Seek_def)
  moreover have "dropWhile (\<lambda>k. less k key) ks = map (node_key sl) (after sl ns key)"
    by (simp add: ks dropWhile_map comp_def)
  ultimately show ?thesis by (cases "after sl ns key") auto
qed

lemma sl_rep_Contains:
  assumes "sl_rep sl ks" and "valid key"
  shows "sl_Contains compare key sl = Some (\<exists>k \<in> set ks. compare key k = 0)"
proof -
  obtain ns ht where ok: "sl_ok sl ns ht" and ks: "ks = map (node_key sl) ns"
    using assms(1) by (auto simp: sl_rep_def)
  obtain prev where f: "FindGreaterOrEqual compare sl key (replicate kMaxHeight 0) =
      Some (first (after sl ns key), prev)"
    using FindGreaterOrEqual_ok [OF ok assms(2), of "replicate kMaxHeight 0"] by auto
  have val: "\<forall>n \<in> set ns. valid (node_key sl n)" using ok by (simp add: sl_ok_def)
  have srt: "sorted_wrt (\<lambda>a b. less (node_key sl a) (node_key sl b)) (before sl ns key @ after sl ns key)"
    using ok by (simp add: sl_ok_def)
  have bef: "compare key (node_key sl n) \<noteq> 0" if "n \<in> set (before sl ns key)" for n
    using before_less [OF that] compare_eq_sym [of key "node_key sl n"] val assms(2)
      set_takeWhileD [OF that] by auto
  have aft: "compare key (node_key sl m) \<noteq> 0" if "after sl ns key = n # ms" "m \<in> set ms" for n m ms
  proof -
    have mem: "n \<in> set ns" "m \<in> set ns" using that by (metis list.set_intros set_dropWhileD)+
    have "compare key (node_key sl n) \<le> 0"
      using sorted_dropWhile_ge [of "node_key sl" ns key n] ok assms(2) that(1) by (simp add: sl_ok_def)
    moreover have "less (node_key sl n) (node_key sl m)"
      using srt that by (simp add: sorted_wrt_append)
    ultimately have "less key (node_key sl m)"
      using le_less_trans [of key "node_key sl n" "node_key sl m"] val assms(2) mem by simp
    then show ?thesis by simp
  qed
  have "set ns = set (before sl ns key) \<union> set (after sl ns key)"
    by (metis set_append takeWhile_dropWhile_id)
  then show ?thesis
    using bef aft by (cases "after sl ns key") (auto simp: sl_Contains_def f ks simp del: dropWhile_eq_Nil_conv)
qed

lemma path_walk: "path (\<lambda>x. sl_next sl x 0) x ns \<Longrightarrow> length ns < fuel \<Longrightarrow> sl_walk fuel sl (sl_next sl x 0) = map (node_key sl) ns"
proof (induction ns arbitrary: x fuel)
  case (Cons n ns)
  then obtain f where "fuel = Suc f" by (cases fuel) auto
  then show ?case using Cons by (simp add: sl_iter_Next_def)
next
  case Nil
  then show ?case by (cases fuel) auto
qed

lemma sl_rep_walk:
  assumes "sl_rep sl ks" and "length ks < fuel"
  shows "sl_walk fuel sl (sl_iter_SeekToFirst sl) = ks"
proof -
  obtain ns ht where ok: "sl_ok sl ns ht" and ks: "ks = map (node_key sl) ns"
    using assms(1) by (auto simp: sl_rep_def)
  have "path (\<lambda>x. sl_next sl x 0) 0 (filter (\<lambda>n. 0 < ht n) ns)" using ok unfolding sl_ok_def by blast
  then have "path (\<lambda>x. sl_next sl x 0) 0 ns" using level_0 [OF ok, of ns] by simp
  then show ?thesis using path_walk assms(2) by (simp add: ks sl_iter_SeekToFirst_def)
qed

lemma sl_InsertAll_rep:
  "sl_rep sl ks \<Longrightarrow> \<forall>k \<in> set new. valid k \<Longrightarrow> sorted_wrt (\<lambda>a b. compare b a \<noteq> 0) new \<Longrightarrow>
   \<forall>k \<in> set new. \<forall>x \<in> set ks. compare k x \<noteq> 0 \<Longrightarrow>
   \<exists>sl' ks'. sl_InsertAll compare new sl = Some sl' \<and> sl_rep sl' ks' \<and> set ks' = set ks \<union> set new \<and>
     length ks' = length ks + length new"
proof (induction new arbitrary: sl ks)
  case (Cons k new)
  let ?ks = "takeWhile (\<lambda>x. less x k) ks @ k # dropWhile (\<lambda>x. less x k) ks"
  have "\<forall>x \<in> set ks. compare k x \<noteq> 0" using Cons.prems(4) by simp
  from sl_rep_Insert [OF Cons.prems(1) _ this] Cons.prems(2) obtain sl1 where
    a: "sl_Insert compare k sl = Some sl1" and r: "sl_rep sl1 ?ks" by auto
  have "set (takeWhile (\<lambda>x. less x k) ks) \<union> set (dropWhile (\<lambda>x. less x k) ks) = set ks"
    by (metis set_append takeWhile_dropWhile_id)
  then have set_ks: "set ?ks = insert k (set ks)" by auto
  have "length ks = length (takeWhile (\<lambda>x. less x k) ks @ dropWhile (\<lambda>x. less x k) ks)" by simp
  then have len: "length ?ks = Suc (length ks)" by (simp only: length_append length_Cons)
  have cross: "\<forall>n \<in> set new. \<forall>x \<in> set ?ks. compare n x \<noteq> 0"
    unfolding set_ks using Cons.prems(3,4) by simp
  have vs: "\<forall>n \<in> set new. valid n" "sorted_wrt (\<lambda>a b. compare b a \<noteq> 0) new"
    using Cons.prems(2,3) by simp_all
  obtain sl' ks' where
    "sl_InsertAll compare new sl1 = Some sl'" "sl_rep sl' ks'" "set ks' = set ?ks \<union> set new"
    "length ks' = length ?ks + length new" using Cons.IH [OF r vs cross] by blast
  then have "sl_InsertAll compare (k # new) sl = Some sl'" "sl_rep sl' ks'"
    "set ks' = set ks \<union> set (k # new)" "length ks' = length ks + length (k # new)"
    unfolding set_ks len by (simp_all add: a)
  then show ?case by blast
qed auto

end

interpretation bytes_order: key_order slice_compare "\<lambda>_. True"
  using bytewise.key_order_axioms by simp

section \<open>Properties\<close>

text \<open>
  C11: The skip list is a sorted set. Inserting distinct byte strings in any order ends, whatever
  heights the generator draws; afterwards the bottom level visits exactly those strings in
  increasing order, and membership through the upper levels answers correctly for every string.
\<close>

theorem skiplist_sorted_set:
  assumes "distinct ks"
  shows "\<exists>sl. sl_InsertAll slice_compare ks new_skiplist = Some sl \<and>
           sorted_wrt (\<lambda>a b. slice_compare a b < 0)
             (sl_walk (length ks + 1) sl (sl_iter_SeekToFirst sl)) \<and>
           set (sl_walk (length ks + 1) sl (sl_iter_SeekToFirst sl)) = set ks \<and>
           (\<forall>k. sl_Contains slice_compare k sl = Some (k \<in> set ks))"
proof -
  have "sorted_wrt (\<lambda>a b. slice_compare b a \<noteq> 0) ks"
    using assms by (induction ks) auto
  then obtain sl ks' where ins: "sl_InsertAll slice_compare ks new_skiplist = Some sl"
    and rep: "bytes_order.sl_rep sl ks'" and ks': "set ks' = set ks" "length ks' = length ks"
    using bytes_order.sl_InsertAll_rep [OF bytes_order.sl_rep_new, of ks] by auto
  have "sl_walk (length ks + 1) sl (sl_iter_SeekToFirst sl) = ks'"
    using bytes_order.sl_rep_walk [OF rep] ks'(2) by simp
  then show ?thesis
    using ins ks'(1) bytes_order.sl_rep_sorted [OF rep] bytes_order.sl_rep_Contains [OF rep]
    by (intro exI [of _ sl]) auto
qed

theorem skiplist_sorted_set_witness:
  "\<exists>sl. sl_InsertAll slice_compare [[3], [1], [2]] new_skiplist = Some sl \<and>
     sl_Contains slice_compare [2] sl = Some True"
  using skiplist_sorted_set [of "[[3], [1], [2]]"] by auto

end
