(* ===== verification/MemTable.thy ===== *)
theory MemTable
  imports DbFormat SkipList
begin

text \<open>
  The memtable of \<^verbatim>\<open>db/memtable.cc\<close>: a skip list of encoded entries, each an internal key and a
  value, both length-prefixed. Reference counting and the arena are not modelled.
\<close>

section \<open>Entries\<close>

text \<open>
  The static \<^verbatim>\<open>GetLengthPrefixedSlice(const char*)\<close>: it looks at five bytes for the length and
  trusts the rest.
\<close>

definition mem_GetLengthPrefixedSlice :: "bytes \<Rightarrow> bytes \<times> bytes" where
  "mem_GetLengthPrefixedSlice data =
     (case GetVarint32Ptr (take 5 data) of
        None \<Rightarrow> ([], data)
      | Some (len, rest) \<Rightarrow>
          let p = drop (length (take 5 data) - length rest) data
          in (take (unat len) p, drop (unat len) p))"

definition mem_KeyComparator :: "comparator \<Rightarrow> bytes \<Rightarrow> bytes \<Rightarrow> int" where
  "mem_KeyComparator user aptr bptr =
     (let a = fst (mem_GetLengthPrefixedSlice aptr); b = fst (mem_GetLengthPrefixedSlice bptr)
      in cmp_Compare (InternalKeyComparator user) a b)"

definition EncodeKey :: "bytes \<Rightarrow> bytes" where
  "EncodeKey target = PutVarint32 [] (word_of_nat (length target)) @ target"

record memtable =
  mt_table :: "bytes skiplist"

definition new_MemTable :: memtable where
  "new_MemTable = \<lparr>mt_table = new_skiplist\<rparr>"

definition mem_encode :: "u64 \<Rightarrow> ValueType \<Rightarrow> bytes \<Rightarrow> bytes \<Rightarrow> bytes" where
  "mem_encode s t key value =
     (let key_size = length key; val_size = length value; internal_key_size = key_size + 8
      in EncodeVarint32 (word_of_nat internal_key_size) @ key @
         EncodeFixed64 (push_bit 8 s OR type_code t) @ EncodeVarint32 (word_of_nat val_size) @ value)"

definition mem_Add ::
    "comparator \<Rightarrow> u64 \<Rightarrow> ValueType \<Rightarrow> bytes \<Rightarrow> bytes \<Rightarrow> memtable \<Rightarrow> memtable option" where
  "mem_Add user s t key value mem =
     do {
       table \<leftarrow> sl_Insert (mem_KeyComparator user) (mem_encode s t key value) (mt_table mem);
       Some (mem\<lparr>mt_table := table\<rparr>)
     }"

text \<open>
  What \<^verbatim>\<open>Get\<close> leaves: \<^verbatim>\<open>false\<close>, or \<^verbatim>\<open>true\<close> with a value or with the status NotFound of a
  deletion.
\<close>

datatype get_result = GetFalse | GetValue bytes | GetStatus status

definition mem_Get :: "comparator \<Rightarrow> lookup_key \<Rightarrow> memtable \<Rightarrow> get_result option" where
  "mem_Get user key mem =
     do {
       node \<leftarrow> sl_iter_Seek (mem_KeyComparator user) (mt_table mem) (lk_memtable_key key);
       Some (case node of
          None \<Rightarrow> GetFalse
        | Some n \<Rightarrow>
            let entry = node_key (mt_table mem) n;
                (ikey, rest) = mem_GetLengthPrefixedSlice entry
            in if cmp_Compare user (take (length ikey - 8) ikey) (lk_user_key key) = 0 then
                 let tag = DecodeFixed64 (drop (length ikey - 8) ikey)
                 in if tag AND 0xff = type_code kTypeValue
                    then GetValue (fst (mem_GetLengthPrefixedSlice rest))
                    else if tag AND 0xff = type_code kTypeDeletion then GetStatus (NotFound [])
                    else GetFalse
               else GetFalse)
     }"

text \<open>The iterator: positions are those of the skip list.\<close>

definition mem_iter_Seek :: "comparator \<Rightarrow> memtable \<Rightarrow> bytes \<Rightarrow> nat option option" where
  "mem_iter_Seek user mem k = sl_iter_Seek (mem_KeyComparator user) (mt_table mem) (EncodeKey k)"

definition mem_iter_SeekToFirst :: "memtable \<Rightarrow> nat option" where
  "mem_iter_SeekToFirst mem = sl_iter_SeekToFirst (mt_table mem)"

definition mem_iter_SeekToLast :: "memtable \<Rightarrow> nat option option" where
  "mem_iter_SeekToLast mem = sl_iter_SeekToLast (mt_table mem)"

definition mem_iter_Next :: "memtable \<Rightarrow> nat \<Rightarrow> nat option" where
  "mem_iter_Next mem n = sl_iter_Next (mt_table mem) n"

definition mem_iter_Prev :: "comparator \<Rightarrow> memtable \<Rightarrow> nat \<Rightarrow> nat option option" where
  "mem_iter_Prev user mem n = sl_iter_Prev (mem_KeyComparator user) (mt_table mem) n"

definition mem_iter_key :: "memtable \<Rightarrow> nat \<Rightarrow> bytes" where
  "mem_iter_key mem n = fst (mem_GetLengthPrefixedSlice (node_key (mt_table mem) n))"

definition mem_iter_value :: "memtable \<Rightarrow> nat \<Rightarrow> bytes" where
  "mem_iter_value mem n =
     (let (key_slice, rest) = mem_GetLengthPrefixedSlice (node_key (mt_table mem) n)
      in fst (mem_GetLengthPrefixedSlice rest))"

section \<open>Reading entries back\<close>

lemma length_EncodeVarint32: "length (EncodeVarint32 v) \<le> 5"
proof -
  have "unat (ucast v :: u64) < 2 ^ (7 * 5)"
    by (rule order_less_le_trans [of _ "2 ^ 32"])
      (simp_all add: unsigned_ucast_eq take_bit_nat_eq_self order_less_le_trans [OF unat_less_exp])
  then show ?thesis
    using length_EncodeVarint64_bound [of "ucast v" 5] by (simp add: EncodeVarint32_eq_EncodeVarint64)
qed

lemma mem_GetLengthPrefixedSlice_enc:
  assumes "length s < 2 ^ 32"
  shows "mem_GetLengthPrefixedSlice (EncodeVarint32 (word_of_nat (length s)) @ s @ r) = (s, r)"
proof -
  let ?e = "EncodeVarint32 (word_of_nat (length s))"
  have "take 5 (?e @ s @ r) = ?e @ take (5 - length ?e) (s @ r)"
    using length_EncodeVarint32 [of "word_of_nat (length s)"] by (simp del: take_append add: take_append [of 5 ?e])
  moreover have "GetVarint32Ptr (?e @ t) = Some (word_of_nat (length s), t)" for t
    using GetVarint32_EncodeVarint32 by (simp add: GetVarint32_def)
  ultimately show ?thesis
    using assms by (simp add: mem_GetLengthPrefixedSlice_def Let_def)
qed

text \<open>An entry, or the key of a lookup: a length-prefixed internal key at the front.\<close>

definition mem_entry :: "bytes \<Rightarrow> bool" where
  "mem_entry e \<longleftrightarrow>
     (\<exists>k r. 8 \<le> length k \<and> length k < 2 ^ 32 \<and> e = EncodeVarint32 (word_of_nat (length k)) @ k @ r)"

lemma mem_entry_key: "mem_entry e \<Longrightarrow> internal_key (fst (mem_GetLengthPrefixedSlice e))"
  by (auto simp: mem_entry_def mem_GetLengthPrefixedSlice_enc)

lemma mem_encode_eq:
  "mem_encode s t key value =
   EncodeVarint32 (word_of_nat (length (InternalKey key s t))) @ InternalKey key s t @
   EncodeVarint32 (word_of_nat (length value)) @ value"
  by (simp add: mem_encode_def Let_def InternalKey_eq PackSequenceAndType_def)

lemma mem_encode_entry: "length key + 8 < 2 ^ 32 \<Longrightarrow> mem_entry (mem_encode s t key value)"
  unfolding mem_encode_eq mem_entry_def
  by (intro exI [of _ "InternalKey key s t"] exI conjI refl) simp_all

lemma mem_encode_parts:
  "length key + 8 < 2 ^ 32 \<Longrightarrow>
   mem_GetLengthPrefixedSlice (mem_encode s t key value) =
     (InternalKey key s t, EncodeVarint32 (word_of_nat (length value)) @ value)"
  unfolding mem_encode_eq by (rule mem_GetLengthPrefixedSlice_enc) simp

lemma mem_value_part:
  "length value < 2 ^ 32 \<Longrightarrow>
   mem_GetLengthPrefixedSlice (EncodeVarint32 (word_of_nat (length value)) @ value) = (value, [])"
  using mem_GetLengthPrefixedSlice_enc [of "value" "[]"] by simp

lemma lk_memtable_key_eq:
  "lk_memtable_key (LookupKey u s) =
   EncodeVarint32 (word_of_nat (length (InternalKey u s kTypeValue))) @ InternalKey u s kTypeValue @ []"
  by (simp add: lk_memtable_key_def LookupKey_def Let_def InternalKey_eq kValueTypeForSeek_def)

lemma lk_user_key_LookupKey: "lk_user_key (LookupKey u s) = u"
  by (simp add: lk_user_key_def LookupKey_def Let_def)

lemma lk_memtable_key_entry: "length u + 8 < 2 ^ 32 \<Longrightarrow> mem_entry (lk_memtable_key (LookupKey u s))"
  unfolding lk_memtable_key_eq mem_entry_def
  by (intro exI [of _ "InternalKey u s kTypeValue"] exI conjI refl) simp_all

lemma lk_memtable_key_part:
  "length u + 8 < 2 ^ 32 \<Longrightarrow>
   fst (mem_GetLengthPrefixedSlice (lk_memtable_key (LookupKey u s))) = InternalKey u s kTypeValue"
  unfolding lk_memtable_key_eq by (subst mem_GetLengthPrefixedSlice_enc) simp_all

sublocale user_comparator \<subseteq> mem: key_order "mem_KeyComparator cmp" mem_entry
proof unfold_locales
  fix a b c
  assume "mem_entry a" and "mem_entry b"
  then show "sgn (mem_KeyComparator cmp b a) = - sgn (mem_KeyComparator cmp a b)"
    unfolding mem_KeyComparator_def Let_def by (intro ikey.swap mem_entry_key)
  show "mem_KeyComparator cmp a c \<le> 0"
    if "mem_entry c" "mem_KeyComparator cmp a b \<le> 0" "mem_KeyComparator cmp b c \<le> 0"
    using that \<open>mem_entry a\<close> \<open>mem_entry b\<close> unfolding mem_KeyComparator_def Let_def
    by (metis ikey.trans mem_entry_key)
qed

section \<open>A memtable holds the writes that were added\<close>

text \<open>A write: sequence number, type, user key and value.\<close>

type_synonym entry = "u64 \<times> ValueType \<times> bytes \<times> bytes"

fun mem_AddAll :: "comparator \<Rightarrow> entry list \<Rightarrow> memtable \<Rightarrow> memtable option" where
  "mem_AddAll user [] mem = Some mem"
| "mem_AddAll user ((s, t, key, val) # es) mem =
     do { mem \<leftarrow> mem_Add user s t key val mem; mem_AddAll user es mem }"

definition valid_write :: "entry \<Rightarrow> bool" where
  "valid_write = (\<lambda>(s, t, key, val). s \<le> kMaxSequenceNumber \<and> length key + 8 < 2 ^ 32 \<and> length val < 2 ^ 32)"

definition encode_write :: "entry \<Rightarrow> bytes" where
  "encode_write = (\<lambda>(s, t, key, val). mem_encode s t key val)"

text \<open>
  The writes of a user key that a read at sequence number \<open>s\<close> may see, and what it returns: the
  last of them, as writes come in the order of their sequence numbers.
\<close>

definition visible :: "entry list \<Rightarrow> bytes \<Rightarrow> u64 \<Rightarrow> entry list" where
  "visible es u s = filter (\<lambda>(q, t, k, v). k = u \<and> q \<le> s) es"

definition mem_get_spec :: "entry list \<Rightarrow> bytes \<Rightarrow> u64 \<Rightarrow> get_result" where
  "mem_get_spec es u s =
     (case rev (visible es u s) of
        [] \<Rightarrow> GetFalse
      | (q, t, k, v) # _ \<Rightarrow>
          (case t of kTypeValue \<Rightarrow> GetValue v | kTypeDeletion \<Rightarrow> GetStatus (NotFound [])))"

lemma mem_get_spec_newest:
  assumes srt: "sorted_wrt (<) (map fst es)" and mem: "(q, t, u, v) \<in> set (visible es u s)"
    and max: "\<forall>e \<in> set (visible es u s). fst e \<le> q"
  shows "mem_get_spec es u s = (case t of kTypeValue \<Rightarrow> GetValue v | kTypeDeletion \<Rightarrow> GetStatus (NotFound []))"
proof -
  have "sorted_wrt (\<lambda>a b. fst a < fst b) (visible es u s)"
    using srt unfolding visible_def sorted_wrt_map by (rule sorted_wrt_filter)
  moreover obtain ys y where vs: "visible es u s = ys @ [y]"
    using mem by (cases "visible es u s" rule: rev_cases) auto
  ultimately have "\<forall>a \<in> set ys. fst a < fst y" by (simp add: sorted_wrt_append)
  then have "y = (q, t, u, v)" using mem max by (force simp: vs)
  then show ?thesis by (simp add: mem_get_spec_def vs)
qed

context user_comparator
begin

definition mem_rep :: "memtable \<Rightarrow> entry list \<Rightarrow> bytes list \<Rightarrow> bool" where
  "mem_rep mt es ks \<longleftrightarrow> mem.sl_rep (mt_table mt) ks \<and> set ks = encode_write ` set es \<and> (\<forall>e \<in> set es. valid_write e)"

lemma mem_rep_new: "mem_rep new_MemTable [] []"
  by (simp add: mem_rep_def new_MemTable_def mem.sl_rep_new)

lemma KeyComparator_writes:
  assumes "valid_write (s, t, k, v)" and "valid_write (s', t', k', v')"
  shows "mem_KeyComparator cmp (encode_write (s, t, k, v)) (encode_write (s', t', k', v')) =
    ikey_Compare cmp (InternalKey k s t) (InternalKey k' s' t')"
  using assms by (simp add: mem_KeyComparator_def encode_write_def valid_write_def mem_encode_parts
      InternalKeyComparator_def)

lemma Pack_inj:
  assumes "s \<le> kMaxSequenceNumber" and "s' \<le> kMaxSequenceNumber"
    and "PackSequenceAndType s t = PackSequenceAndType s' t'"
  shows "s = s'"
  using assms drop_Pack by metis

lemma mem_rep_Add:
  assumes rep: "mem_rep mt es ks" and e: "valid_write (s, t, k, v)" and fresh: "s \<notin> fst ` set es"
  shows "\<exists>mt' ks'. mem_Add cmp s t k v mt = Some mt' \<and> mem_rep mt' (es @ [(s, t, k, v)]) ks'"
proof -
  let ?e = "encode_write (s, t, k, v)"
  have ent: "mem_entry ?e"
    using e by (simp add: encode_write_def valid_write_def mem_encode_entry)
  have new: "mem_KeyComparator cmp ?e k' \<noteq> 0" if "k' \<in> set ks" for k'
  proof -
    from that rep obtain q t' u w where w: "(q, t', u, w) \<in> set es" "k' = encode_write (q, t', u, w)"
      and vw: "valid_write (q, t', u, w)"
      unfolding mem_rep_def by fastforce
    have "s \<noteq> q" using fresh w(1) by force
    then have "PackSequenceAndType s t \<noteq> PackSequenceAndType q t'"
      using Pack_inj e vw by (auto simp: valid_write_def)
    then show ?thesis
      unfolding w(2) KeyComparator_writes [OF e vw]
      by (auto simp: ikey_Compare_def Let_def)
  qed
  have sr: "mem.sl_rep (mt_table mt) ks" using rep by (simp add: mem_rep_def)
  from mem.sl_rep_Insert [OF sr ent] new obtain sl' where
    ins: "sl_Insert (mem_KeyComparator cmp) ?e (mt_table mt) = Some sl'" and
    rep': "mem.sl_rep sl' (takeWhile (\<lambda>k. mem.less k ?e) ks @ ?e # dropWhile (\<lambda>k. mem.less k ?e) ks)"
    by blast
  have "set (takeWhile (\<lambda>k. mem.less k ?e) ks @ ?e # dropWhile (\<lambda>k. mem.less k ?e) ks) = insert ?e (set ks)"
    using arg_cong [OF takeWhile_dropWhile_id [of "\<lambda>k. mem.less k ?e" ks], of set]
    by (auto simp del: takeWhile_dropWhile_id)
  then have "mem_rep (mt\<lparr>mt_table := sl'\<rparr>) (es @ [(s, t, k, v)])
      (takeWhile (\<lambda>k. mem.less k ?e) ks @ ?e # dropWhile (\<lambda>k. mem.less k ?e) ks)"
    using rep rep' e by (simp add: mem_rep_def)
  moreover have "mem_Add cmp s t k v mt = Some (mt\<lparr>mt_table := sl'\<rparr>)"
    using ins by (simp add: mem_Add_def encode_write_def)
  ultimately show ?thesis by blast
qed

lemma mem_rep_AddAll:
  "mem_rep mt es ks \<Longrightarrow> \<forall>e \<in> set es'. valid_write e \<Longrightarrow> distinct (map fst (es @ es')) \<Longrightarrow>
   \<exists>mt' ks'. mem_AddAll cmp es' mt = Some mt' \<and> mem_rep mt' (es @ es') ks'"
proof (induction es' arbitrary: mt es ks)
  case (Cons e es')
  obtain s t k v where e: "e = (s, t, k, v)" by (metis prod_cases4)
  have "s \<notin> fst ` set es" using Cons.prems(3) by (auto simp: e)
  with mem_rep_Add [OF Cons.prems(1), of s t k v] Cons.prems(2) e obtain mt1 ks1 where
    a: "mem_Add cmp s t k v mt = Some mt1" and r: "mem_rep mt1 (es @ [(s, t, k, v)]) ks1" by auto
  from Cons.IH [OF r] Cons.prems(2,3) e obtain mt' ks' where
    "mem_AddAll cmp es' mt1 = Some mt'" "mem_rep mt' (es @ e # es') ks'" by auto
  then show ?case using a e by auto
qed auto

end

text \<open>Reading a memtable that holds the writes \<open>es\<close>, with the bytewise user comparator.\<close>

lemma bytewise_key_less:
  assumes "valid_write (q, t, k, v)" and "length u + 8 < 2 ^ 32" and "s \<le> kMaxSequenceNumber"
  shows "mem_KeyComparator BytewiseComparator (encode_write (q, t, k, v)) (lk_memtable_key (LookupKey u s)) < 0
    \<longleftrightarrow> slice_compare k u < 0 \<or> k = u \<and> s < q"
proof -
  have "t \<le> kTypeValue" by (cases t) (simp_all add: less_eq_ValueType_def type_code_def)
  moreover have "mem_KeyComparator BytewiseComparator (encode_write (q, t, k, v)) (lk_memtable_key (LookupKey u s)) =
      ikey_Compare BytewiseComparator (InternalKey k q t) (InternalKey u s kTypeValue)"
    using assms by (simp add: mem_KeyComparator_def encode_write_def valid_write_def mem_encode_parts
        lk_memtable_key_part InternalKeyComparator_def)
  ultimately show ?thesis
    using assms Pack_less_iff [of s q kTypeValue t]
    by (auto simp: bytewise_user.ikey_Compare_less valid_write_def)
qed

lemma bytewise_writes_less:
  assumes "valid_write (q, t, k, v)" and "valid_write (q', t', k', v')"
    and "mem_KeyComparator BytewiseComparator (encode_write (q, t, k, v)) (encode_write (q', t', k', v')) < 0"
  shows "slice_compare k k' < 0 \<or> k = k' \<and> q' \<le> q"
  using assms Pack_less_iff [of q' q t' t]
  by (auto simp: bytewise_user.KeyComparator_writes bytewise_user.ikey_Compare_less
      valid_write_def)

lemma mem_Get_found:
  assumes "node_key (mt_table mt) n = encode_write (q, t, k, v)" and "valid_write (q, t, k, v)"
    and "sl_iter_Seek (mem_KeyComparator BytewiseComparator) (mt_table mt) (lk_memtable_key (LookupKey u s)) =
      Some (Some n)"
  shows "mem_Get BytewiseComparator (LookupKey u s) mt = Some (if k = u then
      case t of kTypeValue \<Rightarrow> GetValue v | kTypeDeletion \<Rightarrow> GetStatus (NotFound []) else GetFalse)"
proof -
  have "PackSequenceAndType q t AND 0xff = type_code t"
    using take_Pack [of q t] by (simp add: take_bit_eq_mask mask_eq_decr_exp)
  moreover have "DecodeFixed64 (drop (length k) (InternalKey k q t)) = PackSequenceAndType q t"
    using DecodeFixed64_EncodeFixed64 [of _ "[]"] by (simp add: InternalKey_eq)
  moreover have "take (length k) (InternalKey k q t) = k" by (simp add: InternalKey_eq)
  ultimately show ?thesis
    using assms
    by (cases t; cases "k = u") (simp_all add: mem_Get_def encode_write_def valid_write_def mem_encode_parts Let_def
        lk_user_key_LookupKey mem_value_part type_code_def)
qed

lemma bytewise_mem_Get:
  assumes rep: "bytewise_user.mem_rep mt es ks" and srt: "sorted_wrt (<) (map fst es)"
    and u: "length u + 8 < 2 ^ 32" and s: "s \<le> kMaxSequenceNumber"
  shows "mem_Get BytewiseComparator (LookupKey u s) mt = Some (mem_get_spec es u s)"
proof -
  let ?T = "lk_memtable_key (LookupKey u s)"
  let ?P = "\<lambda>k. mem_KeyComparator BytewiseComparator k ?T < 0"
  have T: "mem_entry ?T" by (rule lk_memtable_key_entry [OF u])
  have sr: "bytewise_user.mem.sl_rep (mt_table mt) ks" and set: "set ks = encode_write ` set es"
    and val: "\<And>e. e \<in> set es \<Longrightarrow> valid_write e"
    using rep by (simp_all add: bytewise_user.mem_rep_def)
  have srt_ks: "sorted_wrt (\<lambda>a b. mem_KeyComparator BytewiseComparator a b < 0) ks"
    using bytewise_user.mem.sl_rep_sorted [OF sr] by simp
  have vis: "encode_write e \<in> set (dropWhile ?P ks)" if "e \<in> set (visible es u s)" for e
  proof -
    obtain q t k v where "e = (q, t, k, v)" by (metis prod_cases4)
    then have e: "e = (q, t, u, v)" "q \<le> s" "e \<in> set es"
      using that by (auto simp: visible_def)
    then have "\<not> ?P (encode_write e)"
      using bytewise_key_less [OF _ u s, of q t u v] val by auto
    then have "encode_write e \<notin> set (takeWhile ?P ks)" by (auto dest: set_takeWhileD)
    moreover have "encode_write e \<in> set (takeWhile ?P ks @ dropWhile ?P ks)"
      using e set by simp
    ultimately show ?thesis by (metis Un_iff set_append)
  qed
  obtain n where n: "sl_iter_Seek (mem_KeyComparator BytewiseComparator) (mt_table mt) ?T = Some n"
    and case_n: "case n of None \<Rightarrow> dropWhile ?P ks = []
      | Some n \<Rightarrow> \<exists>ks'. dropWhile ?P ks = node_key (mt_table mt) n # ks'"
    using bytewise_user.mem.sl_rep_Seek [OF sr T] by blast
  show ?thesis
  proof (cases n)
    case None
    then have "dropWhile ?P ks = []" using case_n by simp
    then have "visible es u s = []" using vis by (cases "visible es u s") (auto simp del: dropWhile_eq_Nil_conv)
    then show ?thesis using n None by (simp add: mem_Get_def mem_get_spec_def)
  next
    case (Some m)
    obtain ks' where dw: "dropWhile ?P ks = node_key (mt_table mt) m # ks'"
      using case_n Some by auto
    then have "node_key (mt_table mt) m \<in> set ks" by (metis list.set_intros(1) set_dropWhileD)
    then obtain q t k v where h: "node_key (mt_table mt) m = encode_write (q, t, k, v)"
      and mem: "(q, t, k, v) \<in> set es"
      unfolding set by auto
    have "\<not> ?P (encode_write (q, t, k, v))" using hd_dropWhile [of ?P ks] dw h by simp
    then have nl: "\<not> slice_compare k u < 0" "k = u \<longrightarrow> q \<le> s"
      using bytewise_key_less [OF val [OF mem] u s] by auto
    have after: "slice_compare k u < 0 \<or> k = u \<and> q' \<le> q" if "(q', t', u, v') \<in> set (visible es u s)" for q' t' v'
    proof (cases "encode_write (q', t', u, v') = encode_write (q, t, k, v)")
      case True
      have w: "valid_write (q', t', u, v')" using that val by (auto simp: visible_def)
      have "InternalKey u q' t' = InternalKey k q t"
        using True mem_encode_parts [of u q' t' v'] mem_encode_parts [of k q t v] w val [OF mem]
        by (simp add: encode_write_def valid_write_def)
      then have "u = k" "PackSequenceAndType q' t' = PackSequenceAndType q t"
        by (metis ExtractUserKey_InternalKey, metis key_tag_InternalKey)
      then show ?thesis
        using bytewise_user.Pack_inj w val [OF mem] by (force simp: valid_write_def)
    next
      case False
      then have "encode_write (q', t', u, v') \<in> set ks'" using vis [OF that] dw h by simp
      moreover have "sorted_wrt (\<lambda>a b. mem_KeyComparator BytewiseComparator a b < 0) (dropWhile ?P ks)"
        using srt_ks by (metis sorted_wrt_append takeWhile_dropWhile_id)
      ultimately have "mem_KeyComparator BytewiseComparator (encode_write (q, t, k, v)) (encode_write (q', t', u, v')) < 0"
        using dw h by simp
      then show ?thesis
        using bytewise_writes_less [OF val [OF mem] val] that by (force simp: visible_def)
    qed
    have get: "mem_Get BytewiseComparator (LookupKey u s) mt = Some (if k = u then
        case t of kTypeValue \<Rightarrow> GetValue v | kTypeDeletion \<Rightarrow> GetStatus (NotFound []) else GetFalse)"
      using mem_Get_found [OF h val [OF mem]] n Some by simp
    show ?thesis
    proof (cases "k = u")
      case True
      have "(q, t, u, v) \<in> set (visible es u s)" using mem nl True by (simp add: visible_def)
      moreover have "\<forall>e \<in> set (visible es u s). fst e \<le> q"
        using after nl(1) by (auto simp: visible_def)
      ultimately show ?thesis using mem_get_spec_newest [OF srt] get True by simp
    next
      case False
      then have "visible es u s = []"
        using after nl(1) by (auto simp: visible_def filter_empty_conv)
      then show ?thesis using get False by (simp add: mem_get_spec_def)
    qed
  qed
qed

section \<open>Properties\<close>

text \<open>
  C10: Reads of the memtable. After any sequence of writes with increasing sequence numbers, every
  insertion having ended, a read at a snapshot returns the value of the last write to its key at
  or before the snapshot, NotFound if that write is a deletion, and otherwise nothing.
\<close>

theorem memtable_reads_newest_visible:
  assumes "\<forall>e \<in> set es. valid_write e" and "sorted_wrt (<) (map fst es)"
    and "length u + 8 < 2 ^ 32" and "s \<le> kMaxSequenceNumber"
  shows "\<exists>mem. mem_AddAll BytewiseComparator es new_MemTable = Some mem \<and>
           mem_Get BytewiseComparator (LookupKey u s) mem = Some (mem_get_spec es u s)"
proof -
  have "distinct (map fst ([] @ es))" using assms(2) by (simp add: strict_sorted_iff)
  from bytewise_user.mem_rep_AddAll [OF bytewise_user.mem_rep_new assms(1) this] obtain mem ks where
    "mem_AddAll BytewiseComparator es new_MemTable = Some mem" "bytewise_user.mem_rep mem es ks" by auto
  then show ?thesis using bytewise_mem_Get [OF _ assms(2-4)] by blast
qed

theorem memtable_reads_newest_visible_witness:
  "\<exists>mem. mem_AddAll BytewiseComparator
       [(1, kTypeValue, [7], [10]), (2, kTypeValue, [7], [20]), (3, kTypeDeletion, [7], [])] new_MemTable = Some mem \<and>
     mem_Get BytewiseComparator (LookupKey [7] 2) mem = Some (GetValue [20])"
  using memtable_reads_newest_visible
      [of "[(1, kTypeValue, [7], [10]), (2, kTypeValue, [7], [20]), (3, kTypeDeletion, [7], [])]" "[7]" 2]
  by (simp add: valid_write_def mem_get_spec_def visible_def kMaxSequenceNumber_def)

end
