(* ===== verification/WriteBatch.thy ===== *)
theory WriteBatch
  imports MemTable
begin

text \<open>
  Write batches, \<^verbatim>\<open>db/write_batch.cc\<close>: one string with a sequence number, a count and the
  encoded operations, which is also what the log stores and what is replayed into a memtable.
\<close>

section \<open>The batch\<close>

definition kHeader :: nat where "kHeader = 12"

record write_batch =
  wb_rep :: bytes

definition wb_Count :: "write_batch \<Rightarrow> u32" where
  "wb_Count b = DecodeFixed32 (drop 8 (wb_rep b))"

definition wb_SetCount :: "u32 \<Rightarrow> write_batch \<Rightarrow> write_batch" where
  "wb_SetCount n b = b\<lparr>wb_rep := take 8 (wb_rep b) @ EncodeFixed32 n @ drop 12 (wb_rep b)\<rparr>"

definition wb_Sequence :: "write_batch \<Rightarrow> u64" where
  "wb_Sequence b = DecodeFixed64 (wb_rep b)"

definition wb_SetSequence :: "u64 \<Rightarrow> write_batch \<Rightarrow> write_batch" where
  "wb_SetSequence seq b = b\<lparr>wb_rep := EncodeFixed64 seq @ drop 8 (wb_rep b)\<rparr>"

definition wb_Clear :: "write_batch \<Rightarrow> write_batch" where
  "wb_Clear b = b\<lparr>wb_rep := replicate kHeader 0\<rparr>"

definition new_WriteBatch :: write_batch where
  "new_WriteBatch = wb_Clear \<lparr>wb_rep = []\<rparr>"

definition wb_ApproximateSize :: "write_batch \<Rightarrow> nat" where
  "wb_ApproximateSize b = length (wb_rep b)"

definition wb_Put :: "bytes \<Rightarrow> bytes \<Rightarrow> write_batch \<Rightarrow> write_batch" where
  "wb_Put key val b =
     (let b = wb_SetCount (wb_Count b + 1) b;
          rep = wb_rep b @ [ucast (type_code kTypeValue)];
          rep = PutLengthPrefixedSlice rep key;
          rep = PutLengthPrefixedSlice rep val
      in b\<lparr>wb_rep := rep\<rparr>)"

definition wb_Delete :: "bytes \<Rightarrow> write_batch \<Rightarrow> write_batch" where
  "wb_Delete key b =
     (let b = wb_SetCount (wb_Count b + 1) b;
          rep = wb_rep b @ [ucast (type_code kTypeDeletion)];
          rep = PutLengthPrefixedSlice rep key
      in b\<lparr>wb_rep := rep\<rparr>)"

definition wb_Append :: "write_batch \<Rightarrow> write_batch \<Rightarrow> write_batch" where
  "wb_Append dst src =
     (let dst = wb_SetCount (wb_Count dst + wb_Count src) dst
      in dst\<lparr>wb_rep := wb_rep dst @ drop kHeader (wb_rep src)\<rparr>)"

definition wb_SetContents :: "bytes \<Rightarrow> write_batch \<Rightarrow> write_batch" where
  "wb_SetContents contents b = b\<lparr>wb_rep := contents\<rparr>"

section \<open>Iteration\<close>

text \<open>A \<^verbatim>\<open>WriteBatch::Handler\<close> as functions on its state.\<close>

record 'h handler =
  h_Put :: "bytes \<Rightarrow> bytes \<Rightarrow> 'h \<Rightarrow> 'h"
  h_Delete :: "bytes \<Rightarrow> 'h \<Rightarrow> 'h"

function wb_Iterate_loop :: "'h handler \<Rightarrow> nat \<Rightarrow> 'h \<Rightarrow> bytes \<Rightarrow> status \<times> nat \<times> 'h" where
  "wb_Iterate_loop hdl found h [] = (OK, found, h)"
| "wb_Iterate_loop hdl found h (tag # input) =
     (if tag = ucast (type_code kTypeValue) then
        (case GetLengthPrefixedSlice input of
           None \<Rightarrow> (Corruption (bytes_of ''bad WriteBatch Put''), found + 1, h)
         | Some (key, input1) \<Rightarrow>
             (case GetLengthPrefixedSlice input1 of
                None \<Rightarrow> (Corruption (bytes_of ''bad WriteBatch Put''), found + 1, h)
              | Some (val, input2) \<Rightarrow> wb_Iterate_loop hdl (found + 1) (h_Put hdl key val h) input2))
      else if tag = ucast (type_code kTypeDeletion) then
        (case GetLengthPrefixedSlice input of
           None \<Rightarrow> (Corruption (bytes_of ''bad WriteBatch Delete''), found + 1, h)
         | Some (key, input1) \<Rightarrow> wb_Iterate_loop hdl (found + 1) (h_Delete hdl key h) input1)
      else (Corruption (bytes_of ''unknown WriteBatch tag''), found + 1, h))"
  by pat_completeness auto
termination
  by (relation "measure (\<lambda>(hdl, found, h, input). length input)")
    (auto dest!: lps.dec_shorter)

definition wb_Iterate :: "'h handler \<Rightarrow> 'h \<Rightarrow> write_batch \<Rightarrow> status \<times> 'h" where
  "wb_Iterate hdl h b =
     (if length (wb_rep b) < kHeader
      then (Corruption (bytes_of ''malformed WriteBatch (too small)''), h)
      else
        let (s, found, h) = wb_Iterate_loop hdl 0 h (drop kHeader (wb_rep b))
        in if \<not> ok s then (s, h)
           else if int found \<noteq> sint (wb_Count b)
           then (Corruption (bytes_of ''WriteBatch has wrong count''), h)
           else (OK, h))"

text \<open>
  \<^verbatim>\<open>MemTableInserter\<close>: its sequence number and its memtable, \<open>None\<close> once an insertion did not
  end.
\<close>

definition MemTableInserter :: "comparator \<Rightarrow> (u64 \<times> memtable option) handler" where
  "MemTableInserter user =
     \<lparr>h_Put = (\<lambda>key val (seq, mem).
        (seq + 1, Option.bind mem (mem_Add user seq kTypeValue key val))),
      h_Delete = (\<lambda>key (seq, mem).
        (seq + 1, Option.bind mem (mem_Add user seq kTypeDeletion key [])))\<rparr>"

definition wb_InsertInto :: "comparator \<Rightarrow> write_batch \<Rightarrow> memtable \<Rightarrow> status \<times> memtable option" where
  "wb_InsertInto user b mem =
     (let (s, (seq, mem)) = wb_Iterate (MemTableInserter user) (wb_Sequence b, Some mem) b
      in (s, mem))"

section \<open>The operations in a batch\<close>

datatype batch_op = BPut bytes bytes | BDelete bytes

fun enc_op :: "batch_op \<Rightarrow> bytes" where
  "enc_op (BPut k v) = 1 # PutLengthPrefixedSlice [] k @ PutLengthPrefixedSlice [] v"
| "enc_op (BDelete k) = 0 # PutLengthPrefixedSlice [] k"

fun valid_op :: "batch_op \<Rightarrow> bool" where
  "valid_op (BPut k v) = (length k < 2 ^ 32 \<and> length v < 2 ^ 32)"
| "valid_op (BDelete k) = (length k < 2 ^ 32)"

fun apply_op :: "'h handler \<Rightarrow> batch_op \<Rightarrow> 'h \<Rightarrow> 'h" where
  "apply_op hdl (BPut k v) h = h_Put hdl k v h"
| "apply_op hdl (BDelete k) h = h_Delete hdl k h"

fun wb_apply :: "batch_op \<Rightarrow> write_batch \<Rightarrow> write_batch" where
  "wb_apply (BPut k v) b = wb_Put k v b"
| "wb_apply (BDelete k) b = wb_Delete k b"

text \<open>The batch \<open>b\<close> holds the operations \<open>ops\<close> under the sequence number \<open>seq\<close>.\<close>

definition wb_holds :: "write_batch \<Rightarrow> u64 \<Rightarrow> batch_op list \<Rightarrow> bool" where
  "wb_holds b seq ops \<longleftrightarrow>
     wb_rep b = EncodeFixed64 seq @ EncodeFixed32 (word_of_nat (length ops)) @ concat (map enc_op ops) \<and>
     (\<forall>op \<in> set ops. valid_op op)"

lemma type_bytes [simp]:
  "(ucast (type_code kTypeValue) :: u8) = 1" "(ucast (type_code kTypeDeletion) :: u8) = 0"
  by (simp_all add: type_code_def)

lemma wb_Count_holds: "wb_holds b seq ops \<Longrightarrow> wb_Count b = word_of_nat (length ops)"
  by (simp add: wb_holds_def wb_Count_def)

lemma wb_Sequence_holds: "wb_holds b seq ops \<Longrightarrow> wb_Sequence b = seq"
  by (simp add: wb_holds_def wb_Sequence_def)

lemma EncodeFixed64_0: "EncodeFixed64 0 = replicate 8 0"
  by (simp add: EncodeFixed64_def numeral_eq_Suc)

lemma EncodeFixed32_0: "EncodeFixed32 0 = replicate 4 0"
  by (simp add: EncodeFixed32_def numeral_eq_Suc)

lemma wb_holds_new: "wb_holds new_WriteBatch 0 []"
  by (simp add: wb_holds_def new_WriteBatch_def wb_Clear_def kHeader_def EncodeFixed64_0 EncodeFixed32_0
      flip: replicate_add)

lemma wb_holds_apply:
  assumes "wb_holds b seq ops" and "valid_op op"
  shows "wb_holds (wb_apply op b) seq (ops @ [op])"
  using assms wb_Count_holds [OF assms(1)]
  by (cases op) (simp_all add: wb_holds_def wb_Put_def wb_Delete_def wb_SetCount_def Let_def
      PutLengthPrefixedSlice_append [of "_ @ _"] PutLengthPrefixedSlice_append [of "_ # _"] add.commute)

lemma wb_holds_SetSequence: "wb_holds b seq ops \<Longrightarrow> wb_holds (wb_SetSequence seq' b) seq' ops"
  by (simp add: wb_holds_def wb_SetSequence_def)

lemma wb_holds_Append:
  "wb_holds dst seq ops \<Longrightarrow> wb_holds src seq' ops' \<Longrightarrow> wb_holds (wb_Append dst src) seq (ops @ ops')"
  by (auto simp: wb_holds_def wb_Append_def wb_SetCount_def wb_Count_def Let_def kHeader_def)

lemma wb_Iterate_loop_ops:
  "\<forall>op \<in> set ops. valid_op op \<Longrightarrow>
   wb_Iterate_loop hdl found h (concat (map enc_op ops) @ r) =
   wb_Iterate_loop hdl (found + length ops) (fold (apply_op hdl) ops h) r"
proof (induction ops arbitrary: found h)
  case (Cons op ops)
  then show ?case
    by (cases op) (simp_all add: lps.dec_enc)
qed simp

lemma wb_Iterate_holds:
  assumes "wb_holds b seq ops" and "length ops < 2 ^ 31"
  shows "wb_Iterate hdl h b = (OK, fold (apply_op hdl) ops h)"
proof -
  have "sint (word_of_nat (length ops) :: u32) = int (length ops)"
    using assms(2) by (simp add: signed_of_nat signed_take_bit_int_eq_self)
  moreover have "drop kHeader (wb_rep b) = concat (map enc_op ops)"
    using assms(1) by (simp add: wb_holds_def kHeader_def)
  moreover have "kHeader \<le> length (wb_rep b)" using assms(1) by (simp add: wb_holds_def kHeader_def)
  ultimately show ?thesis
    using assms(1) wb_Iterate_loop_ops [of ops hdl 0 h "[]"] wb_Count_holds [OF assms(1)]
    by (simp add: wb_Iterate_def wb_holds_def)
qed

section \<open>Truncated batches\<close>

fun cut_error :: "batch_op \<Rightarrow> status" where
  "cut_error (BPut k v) = Corruption (bytes_of ''bad WriteBatch Put'')"
| "cut_error (BDelete k) = Corruption (bytes_of ''bad WriteBatch Delete'')"

lemma enc_op_cut:
  assumes "valid_op op" and "k < length (enc_op op)"
  shows "wb_Iterate_loop hdl found h (take k (enc_op op)) = (if k = 0 then (OK, found, h) else (cut_error op, found + 1, h))"
proof (cases k)
  case (Suc j)
  show ?thesis
  proof (cases op)
    case (BDelete key)
    have "GetLengthPrefixedSlice (take j (PutLengthPrefixedSlice [] key)) = None"
      using lps.dec_truncated [OF _ append_take_drop_id [symmetric], of key j] assms Suc BDelete by simp
    then show ?thesis using Suc BDelete by simp
  next
    case (BPut key val)
    let ?a = "PutLengthPrefixedSlice [] key" and ?b = "PutLengthPrefixedSlice [] val"
    show ?thesis
    proof (cases "j < length ?a")
      case True
      then have "GetLengthPrefixedSlice (take j (?a @ ?b)) = None"
        using lps.dec_truncated [OF _ append_take_drop_id [symmetric], of key j] assms BPut by simp
      then show ?thesis using Suc BPut by simp
    next
      case False
      then have "GetLengthPrefixedSlice (take j (?a @ ?b)) = Some (key, take (j - length ?a) ?b)"
        using lps.dec_enc [of key] assms(1) BPut by simp
      moreover have "GetLengthPrefixedSlice (take (j - length ?a) ?b) = None"
        using lps.dec_truncated [OF _ append_take_drop_id [symmetric], of val "j - length ?a"]
          assms BPut Suc False by simp
      ultimately show ?thesis using Suc BPut by (simp del: take_append)
    qed
  qed
qed simp

text \<open>The operations before the cut are handed on; what is left of the one behind them is an error.\<close>

lemma wb_Iterate_loop_cut:
  "\<forall>op \<in> set ops. valid_op op \<Longrightarrow> k < length (concat (map enc_op ops)) \<Longrightarrow>
   \<exists>n < length ops. length (concat (map enc_op (take n ops))) \<le> k \<and> k < length (concat (map enc_op (take (Suc n) ops))) \<and>
     wb_Iterate_loop hdl found h (take k (concat (map enc_op ops))) =
       (if k = length (concat (map enc_op (take n ops))) then (OK, found + n, fold (apply_op hdl) (take n ops) h)
        else (cut_error (ops ! n), found + n + 1, fold (apply_op hdl) (take n ops) h))"
proof (induction ops arbitrary: k found h)
  case (Cons op ops)
  show ?case
  proof (cases "k < length (enc_op op)")
    case True
    then have "take k (enc_op op @ concat (map enc_op ops)) = take k (enc_op op)" by simp
    then show ?thesis
      using enc_op_cut [of op k hdl found h] Cons.prems True by (intro exI [of _ 0]) auto
  next
    case False
    let ?k = "k - length (enc_op op)"
    have t: "take k (concat (map enc_op (op # ops))) = concat (map enc_op [op]) @ take ?k (concat (map enc_op ops))"
      using False by simp
    have "?k < length (concat (map enc_op ops))" using Cons.prems(2) False by simp
    from Cons.IH [OF _ this, where found = "found + 1" and h = "apply_op hdl op h"] obtain n where n: "n < length ops"
      "length (concat (map enc_op (take n ops))) \<le> ?k" "?k < length (concat (map enc_op (take (Suc n) ops)))"
      "wb_Iterate_loop hdl (found + 1) (apply_op hdl op h) (take ?k (concat (map enc_op ops))) =
       (if ?k = length (concat (map enc_op (take n ops))) then (OK, found + 1 + n, fold (apply_op hdl) (take n ops) (apply_op hdl op h))
        else (cut_error (ops ! n), found + 1 + n + 1, fold (apply_op hdl) (take n ops) (apply_op hdl op h)))"
      using Cons.prems(1) by auto
    have "wb_Iterate_loop hdl found h (take k (concat (map enc_op (op # ops)))) =
        wb_Iterate_loop hdl (found + 1) (apply_op hdl op h) (take ?k (concat (map enc_op ops)))"
      unfolding t using wb_Iterate_loop_ops [of "[op]" hdl found h] Cons.prems(1) by simp
    then show ?thesis using n False by (intro exI [of _ "Suc n"]) auto
  qed
qed simp

section \<open>Inserting a batch into a memtable\<close>

text \<open>The writes of a batch: consecutive sequence numbers in the order of the operations.\<close>

fun numbered :: "u64 \<Rightarrow> batch_op list \<Rightarrow> entry list" where
  "numbered seq [] = []"
| "numbered seq (BPut k v # ops) = (seq, kTypeValue, k, v) # numbered (seq + 1) ops"
| "numbered seq (BDelete k # ops) = (seq, kTypeDeletion, k, []) # numbered (seq + 1) ops"

lemma fold_MemTableInserter:
  "mem_AddAll user (numbered seq ops) mem = Some mem' \<Longrightarrow>
   \<exists>seq'. fold (apply_op (MemTableInserter user)) ops (seq, Some mem) = (seq', Some mem')"
proof (induction ops arbitrary: seq mem)
  case (Cons op ops)
  then show ?case
    by (cases op) (auto simp: MemTableInserter_def split: Option.bind_split_asm)
qed simp

lemma numbered_seqs:
  "unat seq + length ops \<le> 2 ^ 56 \<Longrightarrow> map fst (numbered seq ops) = map (\<lambda>i. seq + word_of_nat i) [0..<length ops]"
proof (induction ops arbitrary: seq)
  case (Cons op ops)
  have "unat (seq + 1) = unat seq + 1"
    using Cons.prems by (simp add: unat_word_ariths)
  with Cons have "map fst (numbered (seq + 1) ops) = map (\<lambda>i. seq + 1 + word_of_nat i) [0..<length ops]" by simp
  moreover have "map (\<lambda>i. seq + word_of_nat i) [0..<length (op # ops)] =
      seq # map (\<lambda>i. seq + 1 + word_of_nat i) [0..<length ops]"
    by (simp add: map_upt_Suc add.assoc del: upt_Suc)
  ultimately show ?case by (cases op) simp_all
qed simp

fun memtable_op :: "batch_op \<Rightarrow> bool" where
  "memtable_op (BPut k v) = (length k + 8 < 2 ^ 32 \<and> length v < 2 ^ 32)"
| "memtable_op (BDelete k) = (length k + 8 < 2 ^ 32)"

lemma memtable_op_valid: "memtable_op op \<Longrightarrow> valid_op op"
  by (cases op) simp_all

lemma numbered_valid:
  "\<forall>op \<in> set ops. memtable_op op \<Longrightarrow> unat seq + length ops \<le> 2 ^ 56 \<Longrightarrow>
   \<forall>e \<in> set (numbered seq ops). valid_write e"
proof (induction ops arbitrary: seq)
  case (Cons op ops)
  have "unat (seq + 1) = unat seq + 1"
    using Cons.prems by (simp add: unat_word_ariths)
  moreover have "seq \<le> kMaxSequenceNumber"
    using Cons.prems by (simp add: word_le_nat_alt kMaxSequenceNumber_def)
  ultimately show ?case
    using Cons.prems Cons.IH [of "seq + 1"] by (cases op) (simp_all add: valid_write_def)
qed simp

lemma numbered_sorted:
  assumes "unat seq + length ops \<le> 2 ^ 56"
  shows "sorted_wrt (<) (map fst (numbered seq ops))" and "\<forall>q \<in> fst ` set (numbered seq ops). seq \<le> q"
proof -
  have u: "unat (seq + word_of_nat i) = unat seq + i" if "i < length ops" for i
    using that assms by (simp add: unat_word_ariths take_bit_nat_eq_self)
  show "sorted_wrt (<) (map fst (numbered seq ops))"
    unfolding numbered_seqs [OF assms] sorted_wrt_iff_nth_less
    by (auto simp: word_less_nat_alt u)
  have "fst ` set (numbered seq ops) = set (map fst (numbered seq ops))" by simp
  then show "\<forall>q \<in> fst ` set (numbered seq ops). seq \<le> q"
    unfolding numbered_seqs [OF assms] by (auto simp: word_le_nat_alt u)
qed

lemma mem_AddAll_append:
  "mem_AddAll user (es @ es') mem = Option.bind (mem_AddAll user es mem) (mem_AddAll user es')"
proof (induction es arbitrary: mem)
  case (Cons e es)
  obtain s t key val where e: "e = (s, t, key, val)" by (rule prod_cases4)
  show ?case unfolding e by (cases "mem_Add user s t key val mem") (simp_all add: Cons.IH)
qed simp

lemma fold_wb_holds:
  "wb_holds b seq ops \<Longrightarrow> \<forall>op \<in> set ops'. valid_op op \<Longrightarrow> wb_holds (fold wb_apply ops' b) seq (ops @ ops')"
proof (induction ops' arbitrary: b ops)
  case (Cons op ops')
  then show ?case using Cons.IH [OF wb_holds_apply [OF Cons.prems(1)]] by simp
qed simp

section \<open>Properties\<close>

text \<open>
  C19: A batch written through \<^verbatim>\<open>Put\<close> and \<^verbatim>\<open>Delete\<close> and inserted under a sequence number gives
  its operations consecutive sequence numbers in their order: the insertion ends with OK, and
  from then on the memtable reads as if the numbered writes were appended to its history.
\<close>

theorem write_batch_insert:
  assumes "mem_AddAll BytewiseComparator es new_MemTable = Some mem"
    and "\<forall>e \<in> set es. valid_write e" and "sorted_wrt (<) (map fst es)" and "\<forall>e \<in> set es. fst e < seq"
    and "\<forall>op \<in> set ops. memtable_op op" and "unat seq + length ops \<le> 2 ^ 56" and "length ops < 2 ^ 31"
    and "length u + 8 < 2 ^ 32" and "s \<le> kMaxSequenceNumber"
  shows "\<exists>mem'. wb_InsertInto BytewiseComparator (wb_SetSequence seq (fold wb_apply ops new_WriteBatch)) mem =
             (OK, Some mem') \<and>
           mem_Get BytewiseComparator (LookupKey u s) mem' =
             Some (mem_get_spec (es @ numbered seq ops) u s)"
proof -
  let ?all = "es @ numbered seq ops"
  let ?b = "wb_SetSequence seq (fold wb_apply ops new_WriteBatch)"
  have val: "\<forall>e \<in> set ?all. valid_write e" using assms(2) numbered_valid [OF assms(5,6)] by auto
  have srt: "sorted_wrt (<) (map fst ?all)"
    using assms(3,4) numbered_sorted [OF assms(6)]
    by (fastforce simp: sorted_wrt_append intro: order_less_le_trans)
  have dist: "distinct (map fst ([] @ ?all))" using srt by (simp add: strict_sorted_iff del: map_append)
  from bytewise_user.mem_rep_AddAll [OF bytewise_user.mem_rep_new val dist] obtain mem' ks where
    all: "mem_AddAll BytewiseComparator ?all new_MemTable = Some mem'"
    and rep: "bytewise_user.mem_rep mem' ?all ks" by auto
  then have "mem_AddAll BytewiseComparator (numbered seq ops) mem = Some mem'"
    using assms(1) by (simp add: mem_AddAll_append)
  from fold_MemTableInserter [OF this] obtain seq' where
    f: "fold (apply_op (MemTableInserter BytewiseComparator)) ops (seq, Some mem) = (seq', Some mem')" by blast
  have h: "wb_holds ?b seq ops"
    using fold_wb_holds [OF wb_holds_new, of ops] assms(5) memtable_op_valid
    by (auto intro: wb_holds_SetSequence)
  have "wb_InsertInto BytewiseComparator ?b mem = (OK, Some mem')"
    unfolding wb_InsertInto_def wb_Sequence_holds [OF h] wb_Iterate_holds [OF h assms(7)] f by simp
  then show ?thesis
    using bytewise_mem_Get [OF rep srt assms(8,9)] by blast
qed

theorem write_batch_insert_witness:
  "\<exists>mem'. wb_InsertInto BytewiseComparator
      (wb_SetSequence 5 (fold wb_apply [BPut [1] [2], BDelete [1]] new_WriteBatch)) new_MemTable = (OK, Some mem') \<and>
     mem_Get BytewiseComparator (LookupKey [1] 5) mem' = Some (GetValue [2])"
  using write_batch_insert [of "[]" new_MemTable 5 "[BPut [1] [2], BDelete [1]]" "[1]" 5]
  by (simp add: mem_get_spec_def visible_def kMaxSequenceNumber_def word_le_nat_alt)

text \<open>
  C29: A batch that lost its tail is always noticed. When a batch of fewer than 2^31 operations is cut anywhere behind its
  header, iteration hands exactly the operations that are complete to the handler, and then returns a corruption: of the operation that was
  cut, or of the count when the cut is between two operations.
\<close>

theorem truncated_batch_rejected:
  assumes "\<forall>op \<in> set ops. valid_op op" and "length ops < 2 ^ 31"
    and "kHeader \<le> k" and "k < length (wb_rep (fold wb_apply ops new_WriteBatch))"
  shows "\<exists>n < length ops. kHeader + length (concat (map enc_op (take n ops))) \<le> k \<and> k < kHeader + length (concat (map enc_op (take (Suc n) ops))) \<and>
    wb_Iterate hdl h (wb_SetContents (take k (wb_rep (fold wb_apply ops new_WriteBatch))) b) =
      (if k = kHeader + length (concat (map enc_op (take n ops))) then Corruption (bytes_of ''WriteBatch has wrong count'')
       else case ops ! n of BPut _ _ \<Rightarrow> Corruption (bytes_of ''bad WriteBatch Put'') | BDelete _ \<Rightarrow> Corruption (bytes_of ''bad WriteBatch Delete''),
       fold (apply_op hdl) (take n ops) h)"
proof -
  let ?rep = "wb_rep (fold wb_apply ops new_WriteBatch)"
  have rep: "?rep = EncodeFixed64 0 @ EncodeFixed32 (word_of_nat (length ops)) @ concat (map enc_op ops)"
    using fold_wb_holds [OF wb_holds_new assms(1)] by (simp add: wb_holds_def)
  define j where "j = k - kHeader"
  have k: "k = 12 + j" "j < length (concat (map enc_op ops))" using assms(3,4) by (simp_all add: j_def kHeader_def rep)
  have drop: "drop kHeader (take k ?rep) = take j (concat (map enc_op ops))" by (simp add: rep kHeader_def k)
  have cnt: "wb_Count (wb_SetContents (take k ?rep) b) = word_of_nat (length ops)" by (simp add: rep k wb_Count_def wb_SetContents_def)
  have len: "\<not> length (take k ?rep) < kHeader" using assms(3,4) by simp
  have int: "sint (word_of_nat (length ops) :: u32) = int (length ops)"
    using assms(2) by (simp add: signed_of_nat signed_take_bit_int_eq_self)
  obtain n where n: "n < length ops" "length (concat (map enc_op (take n ops))) \<le> j" "j < length (concat (map enc_op (take (Suc n) ops)))"
    "wb_Iterate_loop hdl 0 h (take j (concat (map enc_op ops))) =
       (if j = length (concat (map enc_op (take n ops))) then (OK, n, fold (apply_op hdl) (take n ops) h)
        else (cut_error (ops ! n), n + 1, fold (apply_op hdl) (take n ops) h))"
    using wb_Iterate_loop_cut [OF assms(1) k(2), of hdl 0 h] by auto
  have bad: "\<not> ok (cut_error op)" "cut_error op = (case op of BPut _ _ \<Rightarrow> Corruption (bytes_of ''bad WriteBatch Put'') |
      BDelete _ \<Rightarrow> Corruption (bytes_of ''bad WriteBatch Delete''))" for op
    by (cases op; simp)+
  have "wb_Iterate hdl h (wb_SetContents (take k ?rep) b) =
      (if j = length (concat (map enc_op (take n ops))) then Corruption (bytes_of ''WriteBatch has wrong count'') else cut_error (ops ! n),
       fold (apply_op hdl) (take n ops) h)"
    using len n(1,4) cnt drop int bad(1) by (simp add: wb_Iterate_def wb_SetContents_def)
  then show ?thesis using n(1-3) unfolding bad(2) by (intro exI [of _ n]) (simp add: k(1) kHeader_def)
qed

theorem truncated_batch_rejected_witness:
  "fst (wb_Iterate (MemTableInserter BytewiseComparator) (0, None)
      (wb_SetContents (take 13 (wb_rep (fold wb_apply [BDelete [1]] new_WriteBatch))) new_WriteBatch)) =
   Corruption (bytes_of ''bad WriteBatch Delete'')"
proof -
  have "13 < length (wb_rep (fold wb_apply [BDelete [1]] new_WriteBatch))"
    by (simp add: new_WriteBatch_def wb_Clear_def wb_Delete_def wb_SetCount_def Let_def kHeader_def PutLengthPrefixedSlice_def
        PutVarint32_def EncodeVarint32_def)
  from truncated_batch_rejected [OF _ _ _ this, of "MemTableInserter BytewiseComparator" "(0, None)" new_WriteBatch]
  show ?thesis by (auto simp: kHeader_def)
qed

end
