(* ===== verification/Logging.thy ===== *)
theory Logging
  imports Prelude
begin

text \<open>
  Numbers and escaped strings as text, \<^verbatim>\<open>util/logging.cc\<close>: what file names and the human-readable
  dumps are made of.
\<close>

section \<open>Writers\<close>

definition AppendNumberTo :: "bytes \<Rightarrow> u64 \<Rightarrow> bytes" where
  "AppendNumberTo str num = str @ decimal (unat num)"

definition NumberToString :: "u64 \<Rightarrow> bytes" where
  "NumberToString num = AppendNumberTo [] num"

text \<open>One digit of the \<^verbatim>\<open>%02x\<close> conversion.\<close>

definition hex_digit :: "u8 \<Rightarrow> u8" where
  "hex_digit d = (if d < 10 then 48 + d else 87 + d)"

text \<open>\<^verbatim>\<open>char\<close> is signed; 92 and 120 are a backslash and an \<^verbatim>\<open>x\<close>.\<close>

definition escape_char :: "u8 \<Rightarrow> bytes" where
  "escape_char c =
     (if 32 \<le> sint c \<and> sint c \<le> 126 then [c]
      else [92, 120] @ [hex_digit (c div 16), hex_digit (c mod 16)])"

fun AppendEscapedStringTo :: "bytes \<Rightarrow> bytes \<Rightarrow> bytes" where
  "AppendEscapedStringTo str [] = str"
| "AppendEscapedStringTo str (c # val) = AppendEscapedStringTo (str @ escape_char c) val"

definition EscapeString :: "bytes \<Rightarrow> bytes" where
  "EscapeString val = AppendEscapedStringTo [] val"

section \<open>Reader\<close>

definition kMaxUint64 :: u64 where "kMaxUint64 = - 1"

definition kLastDigitOfMaxUint64 :: u8 where
  "kLastDigitOfMaxUint64 = 48 + ucast (kMaxUint64 mod 10)"

text \<open>The digits from the front: \<open>None\<close> is the early return on overflow.\<close>

fun ConsumeDecimalNumber_loop :: "u64 \<Rightarrow> bytes \<Rightarrow> (u64 \<times> bytes) option" where
  "ConsumeDecimalNumber_loop val [] = Some (val, [])"
| "ConsumeDecimalNumber_loop val (ch # rest) =
     (if ch < 48 \<or> ch > 57 then Some (val, ch # rest)
      else if val > kMaxUint64 div 10 \<or> val = kMaxUint64 div 10 \<and> ch > kLastDigitOfMaxUint64 then None
      else ConsumeDecimalNumber_loop (val * 10 + ucast (ch - 48)) rest)"

text \<open>The returned flag, the number if it was stored, and the rest of the input.\<close>

definition ConsumeDecimalNumber :: "bytes \<Rightarrow> bool \<times> u64 option \<times> bytes" where
  "ConsumeDecimalNumber s =
     (case ConsumeDecimalNumber_loop 0 s of
        None \<Rightarrow> (False, None, s)
      | Some (val, rest) \<Rightarrow> (length s - length rest \<noteq> 0, Some val, rest))"

section \<open>The value of a numeral\<close>

definition is_digit :: "u8 \<Rightarrow> bool" where
  "is_digit ch \<longleftrightarrow> 48 \<le> ch \<and> ch \<le> 57"

definition digits_value :: "nat \<Rightarrow> bytes \<Rightarrow> nat" where
  "digits_value = foldl (\<lambda>v ch. v * 10 + (unat ch - 48))"

lemma digits_value_simps [simp]:
  "digits_value v [] = v"
  "digits_value v (ch # ds) = digits_value (v * 10 + (unat ch - 48)) ds"
  "digits_value v (ds @ ds') = digits_value (digits_value v ds) ds'"
  by (simp_all add: digits_value_def)

lemma digits_value_mono: "v \<le> digits_value v ds"
proof (induction ds arbitrary: v)
  case (Cons ch ds)
  then show ?case
    using order_trans [OF _ Cons [of "v * 10 + (unat ch - 48)"], of v] by simp
qed simp

lemma is_digit_unat: "is_digit ch \<longleftrightarrow> 48 \<le> unat ch \<and> unat ch \<le> 57"
  by (simp add: is_digit_def word_le_nat_alt)

lemma digit_word: "n < 10 \<Longrightarrow> unat (48 + word_of_nat n :: u8) = 48 + n"
  by (simp add: unat_word_ariths)

lemma decimal_digits: "\<forall>ch \<in> set (decimal n). is_digit ch"
proof (induction n rule: decimal.induct)
  case (1 n)
  then show ?case
    unfolding decimal.simps [of n] by (auto simp: is_digit_unat digit_word)
qed

lemma digits_value_decimal: "digits_value 0 (decimal n) = n"
proof (induction n rule: decimal.induct)
  case (1 n)
  then show ?case
    unfolding decimal.simps [of n] by (auto simp: digit_word)
qed

lemma decimal_nonempty [simp]: "decimal n \<noteq> []"
  unfolding decimal.simps [of n] by simp

lemma max_div: "unat (kMaxUint64 div 10) = 1844674407370955161" "kLastDigitOfMaxUint64 = 53"
  by (simp_all add: kMaxUint64_def kLastDigitOfMaxUint64_def)

lemma consume_overflow:
  assumes "is_digit ch"
  shows "(val > kMaxUint64 div 10 \<or> val = kMaxUint64 div 10 \<and> ch > kLastDigitOfMaxUint64) \<longleftrightarrow>
         \<not> unat val * 10 + (unat ch - 48) < 2 ^ 64"
proof -
  have "val > kMaxUint64 div 10 \<longleftrightarrow> unat val > 1844674407370955161"
    by (simp add: word_less_nat_alt max_div)
  moreover have "val = kMaxUint64 div 10 \<longleftrightarrow> unat val = 1844674407370955161"
    using max_div(1) by (simp add: word_unat_eq_iff)
  moreover have "ch > kLastDigitOfMaxUint64 \<longleftrightarrow> unat ch > 53"
    by (simp add: word_less_nat_alt max_div)
  ultimately show ?thesis
    using assms by (auto simp: is_digit_unat)
qed

lemma consume_step:
  assumes "is_digit ch" and "unat (val :: u64) * 10 + (unat ch - 48) < 2 ^ 64"
  shows "unat (val * 10 + ucast (ch - 48)) = unat val * 10 + (unat ch - 48)"
proof -
  have "unat (ch - 48) = unat ch - 48"
    using assms(1) by (simp add: is_digit_def unat_sub)
  moreover have "unat (ucast (ch - 48) :: u64) = unat (ch - 48)"
    by (simp add: unsigned_ucast_eq take_bit_nat_eq_self order_less_le_trans [OF unat_less_exp])
  ultimately show ?thesis
    using assms(2) by (simp add: unat_word_ariths)
qed

lemma ConsumeDecimalNumber_loop_eq:
  "ConsumeDecimalNumber_loop val s =
     (let v = digits_value (unat val) (takeWhile is_digit s)
      in if v < 2 ^ 64 then Some (word_of_nat v, dropWhile is_digit s) else None)"
proof (induction val s rule: ConsumeDecimalNumber_loop.induct)
  case (1 val)
  then show ?case using unat_less_exp [of val] by simp
next
  case (2 val ch rest)
  show ?case
  proof (cases "is_digit ch")
    case False
    then have "ch < 48 \<or> ch > 57" by (auto simp: is_digit_def not_le)
    then show ?thesis using False unat_less_exp [of val] by simp
  next
    case True
    then have d: "\<not> (ch < 48 \<or> ch > 57)" by (auto simp: is_digit_def not_le)
    show ?thesis
    proof (cases "unat val * 10 + (unat ch - 48) < 2 ^ 64")
      case True': True
      then have n: "\<not> (val > kMaxUint64 div 10 \<or> val = kMaxUint64 div 10 \<and> ch > kLastDigitOfMaxUint64)"
        using consume_overflow [OF True, of val] by blast
      show ?thesis
        unfolding ConsumeDecimalNumber_loop.simps(2) if_not_P [OF d] if_not_P [OF n] 2 [OF d n]
          consume_step [OF True True']
        using True by (simp add: Let_def)
    next
      case False
      then have n: "val > kMaxUint64 div 10 \<or> val = kMaxUint64 div 10 \<and> ch > kLastDigitOfMaxUint64"
        using consume_overflow [OF True, of val] by blast
      have "\<not> digits_value (unat val * 10 + (unat ch - 48)) (takeWhile is_digit rest) < 2 ^ 64"
        using False digits_value_mono [of "unat val * 10 + (unat ch - 48)" "takeWhile is_digit rest"] by linarith
      then show ?thesis
        unfolding ConsumeDecimalNumber_loop.simps(2) if_not_P [OF d] if_P [OF n] using True by simp
    qed
  qed
qed

lemma ConsumeDecimalNumber_eq:
  "ConsumeDecimalNumber s =
     (let v = digits_value 0 (takeWhile is_digit s)
      in if v < 2 ^ 64 then (takeWhile is_digit s \<noteq> [], Some (word_of_nat v), dropWhile is_digit s)
         else (False, None, s))"
proof -
  have "length s = length (takeWhile is_digit s) + length (dropWhile is_digit s)"
    by (metis length_append takeWhile_dropWhile_id)
  then have "length s - length (dropWhile is_digit s) \<noteq> 0 \<longleftrightarrow> takeWhile is_digit s \<noteq> []" by simp
  then show ?thesis
    by (simp del: diff_is_0_eq diff_is_0_eq' add: ConsumeDecimalNumber_def ConsumeDecimalNumber_loop_eq Let_def)
qed

text \<open>A numeral behind any number of zeros reads back up to the first byte that is not a digit.\<close>

lemma ConsumeDecimalNumber_numeral:
  assumes "rest = [] \<or> \<not> is_digit (hd rest)"
  shows "ConsumeDecimalNumber (replicate k 48 @ decimal (unat num) @ rest) = (True, Some num, rest)"
proof -
  let ?ds = "replicate k 48 @ decimal (unat num)"
  have ds: "\<forall>ch \<in> set ?ds. is_digit ch"
    using decimal_digits by (auto simp: is_digit_def)
  have r: "takeWhile is_digit rest = []" "dropWhile is_digit rest = rest"
    using assms by (cases rest; simp)+
  have tw: "takeWhile is_digit (?ds @ rest) = ?ds" "dropWhile is_digit (?ds @ rest) = rest"
    using takeWhile_append2 [of ?ds is_digit rest] dropWhile_append2 [of ?ds is_digit rest] ds
    unfolding r append_Nil2 by (blast, blast)
  have "digits_value 0 (replicate k 48) = 0"
    by (induction k) simp_all
  then have v: "digits_value 0 ?ds = unat num"
    using digits_value_decimal [of "unat num"] by simp
  have l: "unat num < 2 ^ 64" using unat_less_exp [of num] by simp
  have "ConsumeDecimalNumber (?ds @ rest) = (True, Some num, rest)"
    unfolding ConsumeDecimalNumber_eq tw v Let_def if_P [OF l] by simp
  then show ?thesis by simp
qed

section \<open>Properties\<close>

text \<open>
  C31: \<^verbatim>\<open>ConsumeDecimalNumber\<close> takes the longest run of digits from the front. It succeeds with their
  value exactly when there is a digit and the value fits 64 bits, however many digits there are;
  on overflow it fails without touching its input. Printed numbers read back.
\<close>

theorem consume_decimal_number:
  "ConsumeDecimalNumber s =
     (let v = foldl (\<lambda>v ch. v * 10 + (unat ch - 48)) 0 (takeWhile is_digit s)
      in if v < 2 ^ 64 then (takeWhile is_digit s \<noteq> [], Some (word_of_nat v), dropWhile is_digit s)
         else (False, None, s)) \<and>
   ConsumeDecimalNumber (NumberToString num) = (True, Some num, [])"
  using ConsumeDecimalNumber_eq [of s] ConsumeDecimalNumber_numeral [of "[]" 0 num]
  by (simp add: digits_value_def NumberToString_def AppendNumberTo_def)

end
