(* ===== verification/FileSystem.thy ===== *)
theory FileSystem
  imports Env
begin

text \<open>
  The file-system calls of \<^verbatim>\<open>PosixEnv\<close> (\<^verbatim>\<open>util/env_posix.cc\<close>) and the helpers built on them in
  \<^verbatim>\<open>util/env.cc\<close>. The file system is a map from names to contents; as in \<^verbatim>\<open>Env\<close> the kernel may
  fail any call, its answers being lists that are arbitrary in every theorem: one for the calls on
  names, and one for each descriptor it hands out.
\<close>

section \<open>The kernel's view\<close>

record posix_env =
  pe_files :: "bytes \<Rightarrow> bytes option"
  pe_answers :: "answer list"
  pe_fd_answers :: "answer list list"
  pe_dir_answers :: "answer list"

definition no_such_file :: errno where
  "no_such_file = \<lparr>err_code = ENOENT, err_text = bytes_of ''No such file or directory''\<rparr>"

text \<open>Whether the next call on a name fails.\<close>

definition name_call :: "posix_env \<Rightarrow> errno option \<times> posix_env" where
  "name_call env =
     (case pe_answers env of
        Failed e # as \<Rightarrow> (Some e, env\<lparr>pe_answers := as\<rparr>)
      | as \<Rightarrow> (None, env\<lparr>pe_answers := tl as\<rparr>))"

definition new_fd :: "bytes \<Rightarrow> posix_env \<Rightarrow> fd \<times> posix_env" where
  "new_fd data env =
     (case pe_fd_answers env of
        [] \<Rightarrow> (\<lparr>fd_data = data, fd_answers = []\<rparr>, env)
      | as # rest \<Rightarrow> (\<lparr>fd_data = data, fd_answers = as\<rparr>, env\<lparr>pe_fd_answers := rest\<rparr>))"

definition sys_open_read :: "bytes \<Rightarrow> posix_env \<Rightarrow> (errno + fd) \<times> posix_env" where
  "sys_open_read filename env =
     (let (r, env) = name_call env
      in case r of
           Some e \<Rightarrow> (Inl e, env)
         | None \<Rightarrow>
             (case pe_files env filename of
                None \<Rightarrow> (Inl no_such_file, env)
              | Some data \<Rightarrow> (let (d, env) = new_fd data env in (Inr d, env))))"

definition sys_open_write :: "bool \<Rightarrow> bytes \<Rightarrow> posix_env \<Rightarrow> (errno + fd) \<times> posix_env" where
  "sys_open_write trunc filename env =
     (let (r, env) = name_call env
      in case r of
           Some e \<Rightarrow> (Inl e, env)
         | None \<Rightarrow>
             (let old = (if trunc then [] else case pe_files env filename of None \<Rightarrow> [] | Some data \<Rightarrow> data);
                  (d, env) = new_fd old env
              in (Inr d, env\<lparr>pe_files := (pe_files env)(filename \<mapsto> old)\<rparr>)))"

definition sys_unlink :: "bytes \<Rightarrow> posix_env \<Rightarrow> errno option \<times> posix_env" where
  "sys_unlink filename env =
     (let (r, env) = name_call env
      in case r of
           Some e \<Rightarrow> (Some e, env)
         | None \<Rightarrow>
             if pe_files env filename = None then (Some no_such_file, env)
             else (None, env\<lparr>pe_files := (pe_files env)(filename := None)\<rparr>))"

definition sys_rename :: "bytes \<Rightarrow> bytes \<Rightarrow> posix_env \<Rightarrow> errno option \<times> posix_env" where
  "sys_rename src target env =
     (let (r, env) = name_call env
      in case r of
           Some e \<Rightarrow> (Some e, env)
         | None \<Rightarrow>
             (case pe_files env src of
                None \<Rightarrow> (Some no_such_file, env)
              | Some data \<Rightarrow>
                  (None, if src = target then env
                         else env\<lparr>pe_files := (pe_files env)(target \<mapsto> data, src := None)\<rparr>)))"

text \<open>What the kernel took through a descriptor is what the file holds.\<close>

definition store_fd :: "bytes \<Rightarrow> fd \<Rightarrow> posix_env \<Rightarrow> posix_env" where
  "store_fd filename d env = env\<lparr>pe_files := (pe_files env)(filename \<mapsto> fd_data d)\<rparr>"

section \<open>PosixEnv\<close>

definition env_NewSequentialFile :: "bytes \<Rightarrow> posix_env \<Rightarrow> (status + posix_sequential) \<times> posix_env" where
  "env_NewSequentialFile filename env =
     (case sys_open_read filename env of
        (Inl e, env) \<Rightarrow> (Inl (PosixError filename e), env)
      | (Inr d, env) \<Rightarrow> (Inr \<lparr>seq_fd = d, seq_filename = filename\<rparr>, env))"

definition env_NewWritableFile :: "bytes \<Rightarrow> posix_env \<Rightarrow> (status + posix_writable) \<times> posix_env" where
  "env_NewWritableFile filename env =
     (case sys_open_write True filename env of
        (Inl e, env) \<Rightarrow> (Inl (PosixError filename e), env)
      | (Inr d, env) \<Rightarrow>
          (Inr (new_posix_writable filename d \<lparr>fd_data = [], fd_answers = pe_dir_answers env\<rparr>), env))"

definition env_NewAppendableFile :: "bytes \<Rightarrow> posix_env \<Rightarrow> (status + posix_writable) \<times> posix_env" where
  "env_NewAppendableFile filename env =
     (case sys_open_write False filename env of
        (Inl e, env) \<Rightarrow> (Inl (PosixError filename e), env)
      | (Inr d, env) \<Rightarrow>
          (Inr (new_posix_writable filename d \<lparr>fd_data = [], fd_answers = pe_dir_answers env\<rparr>), env))"

definition env_FileExists :: "bytes \<Rightarrow> posix_env \<Rightarrow> bool \<times> posix_env" where
  "env_FileExists filename env =
     (let (r, env) = name_call env in (r = None \<and> pe_files env filename \<noteq> None, env))"

definition env_RemoveFile :: "bytes \<Rightarrow> posix_env \<Rightarrow> status \<times> posix_env" where
  "env_RemoveFile filename env =
     (case sys_unlink filename env of
        (Some e, env) \<Rightarrow> (PosixError filename e, env)
      | (None, env) \<Rightarrow> (OK, env))"

definition env_GetFileSize :: "bytes \<Rightarrow> posix_env \<Rightarrow> status \<times> u64 \<times> posix_env" where
  "env_GetFileSize filename env =
     (let (r, env) = name_call env
      in case r of
           Some e \<Rightarrow> (PosixError filename e, 0, env)
         | None \<Rightarrow>
             (case pe_files env filename of
                None \<Rightarrow> (PosixError filename no_such_file, 0, env)
              | Some data \<Rightarrow> (OK, word_of_nat (length data), env)))"

definition env_RenameFile :: "bytes \<Rightarrow> bytes \<Rightarrow> posix_env \<Rightarrow> status \<times> posix_env" where
  "env_RenameFile src target env =
     (case sys_rename src target env of
        (Some e, env) \<Rightarrow> (PosixError src e, env)
      | (None, env) \<Rightarrow> (OK, env))"

section \<open>Helpers of \<^verbatim>\<open>util/env.cc\<close>\<close>

text \<open>
  \<^verbatim>\<open>delete file\<close> closes a file that is still open; what reached the kernel by then is in the file.
\<close>

definition DoWriteStringToFile :: "bytes \<Rightarrow> bytes \<Rightarrow> bool \<Rightarrow> posix_env \<Rightarrow> status \<times> posix_env" where
  "DoWriteStringToFile data fname should_sync env =
     (case env_NewWritableFile fname env of
        (Inl s, env) \<Rightarrow> (s, env)
      | (Inr file, env) \<Rightarrow>
          let (s, file) = posix_Append file data;
              (s, file) = (if ok s \<and> should_sync then posix_Sync file else (s, file));
              closed = ok s;
              (s, file) = (if closed then posix_Close file else (s, file));
              file = (if closed then file else snd (posix_Close file));
              env = store_fd fname (pw_fd file) env;
              env = (if ok s then env else snd (env_RemoveFile fname env))
          in (s, env))"

definition WriteStringToFile :: "bytes \<Rightarrow> bytes \<Rightarrow> posix_env \<Rightarrow> status \<times> posix_env" where
  "WriteStringToFile data fname env = DoWriteStringToFile data fname False env"

definition WriteStringToFileSync :: "bytes \<Rightarrow> bytes \<Rightarrow> posix_env \<Rightarrow> status \<times> posix_env" where
  "WriteStringToFileSync data fname env = DoWriteStringToFile data fname True env"

definition kReadBufferSize :: nat where "kReadBufferSize = 8192"

lemma posix_Read_OK:
  "posix_Read sf n = (OK, data, sf') \<Longrightarrow>
   data = take n (fd_data (seq_fd sf)) \<and> fd_data (seq_fd sf') = drop n (fd_data (seq_fd sf))"
  by (cases "posix_Read_loop (seq_filename sf) (seq_fd sf) n")
    (auto simp: posix_Read_def dest: posix_Read_loop_OK)

lemma posix_Read_shrinks:
  assumes "posix_Read sf kReadBufferSize = (s, data, sf')" and "ok s" and "data \<noteq> []"
  shows "length (fd_data (seq_fd sf')) < length (fd_data (seq_fd sf))"
  using posix_Read_OK [of sf kReadBufferSize data sf'] assms
  by (auto simp: ok_def kReadBufferSize_def)

function ReadFileToString_loop :: "posix_sequential \<Rightarrow> bytes \<Rightarrow> status \<times> bytes" where
  "ReadFileToString_loop sf data =
     (let (s, fragment, sf) = posix_Read sf kReadBufferSize
      in if \<not> ok s then (s, data)
         else if fragment = [] then (OK, data)
         else ReadFileToString_loop sf (data @ fragment))"
  by pat_completeness auto
termination
  by (relation "measure (\<lambda>(sf, data). length (fd_data (seq_fd sf)))")
    (auto dest: posix_Read_shrinks [OF sym])

declare ReadFileToString_loop.simps [simp del]

definition ReadFileToString :: "bytes \<Rightarrow> posix_env \<Rightarrow> status \<times> bytes \<times> posix_env" where
  "ReadFileToString fname env =
     (case env_NewSequentialFile fname env of
        (Inl s, env) \<Rightarrow> (s, [], env)
      | (Inr file, env) \<Rightarrow> (let (s, data) = ReadFileToString_loop file [] in (s, data, env)))"

section \<open>What the calls do to the files\<close>

lemma name_call_files [simp]: "name_call env = (r, env') \<Longrightarrow> pe_files env' = pe_files env"
  by (auto simp: name_call_def split: list.splits answer.splits)

lemma new_fd_files:
  "new_fd data env = (d, env') \<Longrightarrow> pe_files env' = pe_files env \<and> fd_data d = data"
  by (auto simp: new_fd_def split: list.splits)

lemma env_RemoveFile_files:
  assumes "env_RemoveFile f env = (s, env')"
  shows "s = OK \<Longrightarrow> pe_files env' = (pe_files env)(f := None)"
    and "s \<noteq> OK \<Longrightarrow> pe_files env' = pe_files env" and "g \<noteq> f \<Longrightarrow> pe_files env' g = pe_files env g"
  using assms
  by (auto simp: env_RemoveFile_def sys_unlink_def dest: name_call_files split: prod.splits option.splits if_splits)

lemma env_RenameFile_files:
  assumes "env_RenameFile a b env = (s, env')" and "a \<noteq> b"
  shows "s = OK \<Longrightarrow> pe_files env' = (pe_files env)(b := pe_files env a, a := None)"
    and "s \<noteq> OK \<Longrightarrow> pe_files env' = pe_files env"
  using assms
  by (auto simp: env_RenameFile_def sys_rename_def dest: name_call_files split: prod.splits option.splits if_splits)

lemma env_NewWritableFile_files:
  "env_NewWritableFile f env = (Inl s, env') \<Longrightarrow> s \<noteq> OK \<and> pe_files env' = pe_files env"
  "env_NewWritableFile f env = (Inr w, env') \<Longrightarrow>
   pe_files env' = (pe_files env)(f \<mapsto> []) \<and> posix_content w = [] \<and> pw_buf w = []"
  by (auto simp: env_NewWritableFile_def sys_open_write_def posix_content_def new_posix_writable_def
      dest: name_call_files new_fd_files split: prod.splits option.splits sum.splits)

lemma sys_call_data: "sys_call d = (r, d') \<Longrightarrow> fd_data d' = fd_data d"
  by (auto simp: sys_call_def split: list.splits answer.splits)

lemma SyncFd_data: "SyncFd d p = (s, d') \<Longrightarrow> fd_data d' = fd_data d"
  by (auto simp: SyncFd_def dest!: sys_call_data split: prod.splits option.splits)

lemma SyncDirIfManifest_content: "SyncDirIfManifest w = (s, w') \<Longrightarrow> posix_content w' = posix_content w"
  by (auto simp: SyncDirIfManifest_def posix_content_def Let_def split: prod.splits option.splits if_splits)

lemma posix_Sync_OK:
  assumes "posix_Sync w = (OK, w')"
  shows "posix_content w' = posix_content w"
proof -
  obtain s1 w1 where d: "SyncDirIfManifest w = (s1, w1)" by fastforce
  obtain s2 w2 where f: "FlushBuffer w1 = (s2, w2)" by fastforce
  obtain s3 d3 where y: "SyncFd (pw_fd w2) (pw_filename w2) = (s3, d3)" by fastforce
  have "s1 = OK" "s2 = OK" "w' = w2\<lparr>pw_fd := d3\<rparr>"
    using assms by (auto simp: posix_Sync_def d f y ok_def split: if_splits)
  then show ?thesis
    using SyncDirIfManifest_content [OF d] FlushBuffer_content(1) [of w1 w2] f SyncFd_data [OF y]
    by (simp add: posix_content_def)
qed

lemma posix_Close_OK:
  assumes "posix_Close w = (OK, w')"
  shows "fd_data (pw_fd w') = posix_content w"
proof -
  obtain s2 w2 where f: "FlushBuffer w = (s2, w2)" by fastforce
  obtain r d3 where c: "sys_call (pw_fd w2) = (r, d3)" by fastforce
  have "s2 = OK" "w' = w2\<lparr>pw_fd := d3\<rparr>"
    using assms by (auto simp: posix_Close_def f c ok_def split: if_splits option.splits)
  then show ?thesis
    using FlushBuffer_OK [of w w2] f sys_call_data [OF c] by (simp add: posix_content_def)
qed

lemma DoWriteStringToFile_files:
  assumes "DoWriteStringToFile data f sync env = (s, env')"
  shows "s = OK \<Longrightarrow> pe_files env' = (pe_files env)(f \<mapsto> data)"
    and "g \<noteq> f \<Longrightarrow> pe_files env' g = pe_files env g"
proof -
  obtain r env1 where n: "env_NewWritableFile f env = (r, env1)" by fastforce
  have "(s = OK \<longrightarrow> pe_files env' = (pe_files env)(f \<mapsto> data)) \<and> (g \<noteq> f \<longrightarrow> pe_files env' g = pe_files env g)"
  proof (cases r)
    case (Inl s0)
    then show ?thesis
      using assms n env_NewWritableFile_files(1) [of f env s0 env1] by (auto simp: DoWriteStringToFile_def)
  next
    case (Inr w)
    note new = env_NewWritableFile_files(2) [OF n [unfolded Inr]]
    obtain s1 w1 where a: "posix_Append w data = (s1, w1)" by fastforce
    obtain s2 w2 where y: "(if ok s1 \<and> sync then posix_Sync w1 else (s1, w1)) = (s2, w2)" by fastforce
    obtain s3 w3 where c: "(if ok s2 then posix_Close w2 else (s2, w2)) = (s3, w3)" by fastforce
    obtain s5 env5 where d: "env_RemoveFile f
        (store_fd f (pw_fd (if ok s2 then w3 else snd (posix_Close w3))) env1) = (s5, env5)" by fastforce
    have fin: "s = s3" "env' = (if ok s3 then store_fd f (pw_fd (if ok s2 then w3 else snd (posix_Close w3))) env1
                              else env5)"
      using assms d unfolding DoWriteStringToFile_def n Inr
      by (simp_all add: a y c Let_def split: if_splits)
    have content: "fd_data (pw_fd w3) = data" if "ok s3"
    proof -
      have "s2 = OK" using c that by (auto simp: ok_def split: if_splits)
      moreover from this have "s1 = OK" using y by (auto simp: ok_def split: if_splits)
      ultimately have "posix_content w2 = data" "posix_Close w2 = (s3, w3)"
        using posix_Append_OK [of w data w1] a y c new posix_Sync_OK [of w1 w2] by (auto split: if_splits)
      then show ?thesis using posix_Close_OK [of w2 w3] that by (simp add: ok_def)
    qed
    show ?thesis
    proof (intro conjI impI)
      assume "s = OK"
      then have "ok s2" using fin c by (auto split: if_splits)
      then show "pe_files env' = (pe_files env)(f \<mapsto> data)"
        using \<open>s = OK\<close> fin content new by (simp add: store_fd_def)
    next
      assume "g \<noteq> f"
      then show "pe_files env' g = pe_files env g"
        using fin(2) new env_RemoveFile_files(3) [OF d, of g] by (auto simp: store_fd_def split: if_splits)
    qed
  qed
  then show "s = OK \<Longrightarrow> pe_files env' = (pe_files env)(f \<mapsto> data)"
    and "g \<noteq> f \<Longrightarrow> pe_files env' g = pe_files env g" by auto
qed

lemma ReadFileToString_loop_OK:
  "ReadFileToString_loop sf data = (OK, out) \<Longrightarrow> out = data @ fd_data (seq_fd sf)"
proof (induction sf data rule: ReadFileToString_loop.induct)
  case (1 sf data)
  obtain s frag sf' where r: "posix_Read sf kReadBufferSize = (s, frag, sf')" by (metis prod_cases3)
  note step = "1.prems" [unfolded ReadFileToString_loop.simps [of sf data] r]
  have d: "s = OK \<Longrightarrow> frag = take kReadBufferSize (fd_data (seq_fd sf)) \<and>
      fd_data (seq_fd sf') = drop kReadBufferSize (fd_data (seq_fd sf))"
    using r posix_Read_OK by blast
  show ?case
    using step "1.IH" [OF r [symmetric] refl] d by (auto simp: kReadBufferSize_def ok_def split: if_splits)
qed

lemma ReadFileToString_OK:
  "ReadFileToString f env = (OK, out, env') \<Longrightarrow> pe_files env f = Some out \<and> pe_files env' = pe_files env"
  by (auto simp: ReadFileToString_def env_NewSequentialFile_def sys_open_read_def
      split: prod.splits sum.splits option.splits
      dest!: ReadFileToString_loop_OK name_call_files new_fd_files)

section \<open>A kernel that refuses nothing\<close>

text \<open>Files of which no coming call fails.\<close>

definition steady :: "answer \<Rightarrow> bool" where
  "steady a = (case a of Failed _ \<Rightarrow> False | _ \<Rightarrow> True)"

definition reliable_env :: "posix_env \<Rightarrow> bool" where
  "reliable_env env \<longleftrightarrow> list_all steady (pe_answers env) \<and> list_all (list_all steady) (pe_fd_answers env)"

lemma no_failure_steady: "no_failure d \<longleftrightarrow> list_all steady (fd_answers d)"
  by (simp add: no_failure_def steady_def list_all_iff)

lemma reliable_name_call:
  assumes "reliable_env env"
  obtains env' where "name_call env = (None, env')" and "reliable_env env'" and "pe_files env' = pe_files env"
proof -
  have "\<exists>env'. name_call env = (None, env') \<and> reliable_env env' \<and> pe_files env' = pe_files env"
  proof (cases "pe_answers env")
    case Nil
    then show ?thesis using assms by (simp add: name_call_def reliable_env_def)
  next
    case (Cons a as)
    then have "steady a" "list_all steady as" using assms by (simp_all add: reliable_env_def)
    then show ?thesis using assms Cons by (cases a) (simp_all add: name_call_def reliable_env_def steady_def)
  qed
  then show thesis using that by blast
qed

section \<open>Properties\<close>

text \<open>
  C30: A string written to a file with status OK is the file's whole content, whatever the kernel
  interrupted or cut short, and a read of the file that succeeds returns it; in every case no other
  file is touched.
\<close>

theorem write_string_read_back:
  assumes "DoWriteStringToFile data f sync env = (s, env1)"
  shows "(s = OK \<longrightarrow> pe_files env1 = (pe_files env)(f \<mapsto> data)) \<and>
         (\<forall>g. g \<noteq> f \<longrightarrow> pe_files env1 g = pe_files env g) \<and>
         (\<forall>out env2. s = OK \<longrightarrow> ReadFileToString f env1 = (OK, out, env2) \<longrightarrow> out = data)"
proof (intro conjI impI allI)
  fix out env2
  assume "s = OK" and "ReadFileToString f env1 = (OK, out, env2)"
  then show "out = data"
    using DoWriteStringToFile_files(1) [OF assms] ReadFileToString_OK [of f env1 out env2] by simp
qed (use DoWriteStringToFile_files [OF assms] in blast)+

definition example_env :: posix_env where
  "example_env = \<lparr>pe_files = (\<lambda>_. None), pe_answers = [], pe_fd_answers = [[Interrupted, Accepts 1]],
                   pe_dir_answers = []\<rparr>"

theorem write_string_read_back_witness:
  "pe_files (snd (WriteStringToFileSync [1, 2] [9] example_env)) [9] = Some [1, 2]"
proof -
  have "fst (WriteStringToFileSync [1, 2] [9] example_env) = OK"
    by (simp add: example_env_def WriteStringToFileSync_def DoWriteStringToFile_def env_NewWritableFile_def
        sys_open_write_def name_call_def new_fd_def new_posix_writable_def posix_Append_def
        kWritableFileBufferSize_def posix_IsManifest_def posix_Basename_def posix_Sync_def
        SyncDirIfManifest_def FlushBuffer_def WriteUnbuffered.simps sys_write_def SyncFd_def sys_call_def
        posix_Close_def is_slash_def bytes_of_def)
  then show ?thesis
    using write_string_read_back [of "[1, 2]" "[9]" True example_env, OF prod.collapse [symmetric]]
    by (simp add: WriteStringToFileSync_def)
qed

end
