(* ===== verification/Filename.thy ===== *)
theory Filename
  imports Logging FileSystem Comparator
begin

text \<open>
  File names of a database, \<^verbatim>\<open>db/filename.cc\<close>: how they are made, how they are recognised, and how
  the CURRENT file is switched to a new manifest.
\<close>

section \<open>Making names\<close>

text \<open>The conversion \<^verbatim>\<open>%06llu\<close>: at least six digits, padded with zeros.\<close>

definition pad6 :: "u64 \<Rightarrow> bytes" where
  "pad6 num = replicate (6 - length (decimal (unat num))) 48 @ decimal (unat num)"

definition MakeFileName :: "bytes \<Rightarrow> u64 \<Rightarrow> bytes \<Rightarrow> bytes" where
  "MakeFileName dbname number suffix = dbname @ bytes_of ''/'' @ pad6 number @ bytes_of ''.'' @ suffix"

definition LogFileName :: "bytes \<Rightarrow> u64 \<Rightarrow> bytes" where
  "LogFileName dbname number = MakeFileName dbname number (bytes_of ''log'')"

definition TableFileName :: "bytes \<Rightarrow> u64 \<Rightarrow> bytes" where
  "TableFileName dbname number = MakeFileName dbname number (bytes_of ''ldb'')"

definition SSTTableFileName :: "bytes \<Rightarrow> u64 \<Rightarrow> bytes" where
  "SSTTableFileName dbname number = MakeFileName dbname number (bytes_of ''sst'')"

definition DescriptorFileName :: "bytes \<Rightarrow> u64 \<Rightarrow> bytes" where
  "DescriptorFileName dbname number = dbname @ bytes_of ''/MANIFEST-'' @ pad6 number"

definition CurrentFileName :: "bytes \<Rightarrow> bytes" where
  "CurrentFileName dbname = dbname @ bytes_of ''/CURRENT''"

definition LockFileName :: "bytes \<Rightarrow> bytes" where
  "LockFileName dbname = dbname @ bytes_of ''/LOCK''"

definition TempFileName :: "bytes \<Rightarrow> u64 \<Rightarrow> bytes" where
  "TempFileName dbname number = MakeFileName dbname number (bytes_of ''dbtmp'')"

definition InfoLogFileName :: "bytes \<Rightarrow> bytes" where
  "InfoLogFileName dbname = dbname @ bytes_of ''/LOG''"

definition OldInfoLogFileName :: "bytes \<Rightarrow> bytes" where
  "OldInfoLogFileName dbname = dbname @ bytes_of ''/LOG.old''"

section \<open>Recognising names\<close>

datatype file_type =
  kLogFile | kDBLockFile | kTableFile | kDescriptorFile | kCurrentFile | kTempFile | kInfoLogFile

definition ParseFileName :: "bytes \<Rightarrow> (u64 \<times> file_type) option" where
  "ParseFileName filename =
     (if filename = bytes_of ''CURRENT'' then Some (0, kCurrentFile)
      else if filename = bytes_of ''LOCK'' then Some (0, kDBLockFile)
      else if filename = bytes_of ''LOG'' \<or> filename = bytes_of ''LOG.old'' then Some (0, kInfoLogFile)
      else if slice_starts_with filename (bytes_of ''MANIFEST-'') then
        (case ConsumeDecimalNumber (drop (length (bytes_of ''MANIFEST-'')) filename) of
           (True, Some num, rest) \<Rightarrow> if rest \<noteq> [] then None else Some (num, kDescriptorFile)
         | _ \<Rightarrow> None)
      else
        (case ConsumeDecimalNumber filename of
           (True, Some num, suffix) \<Rightarrow>
             if suffix = bytes_of ''.log'' then Some (num, kLogFile)
             else if suffix = bytes_of ''.sst'' \<or> suffix = bytes_of ''.ldb'' then Some (num, kTableFile)
             else if suffix = bytes_of ''.dbtmp'' then Some (num, kTempFile)
             else None
         | _ \<Rightarrow> None))"

section \<open>Switching CURRENT\<close>

text \<open>10 is a newline.\<close>

definition SetCurrentFile :: "bytes \<Rightarrow> u64 \<Rightarrow> posix_env \<Rightarrow> status \<times> posix_env" where
  "SetCurrentFile dbname descriptor_number env =
     (let manifest = DescriptorFileName dbname descriptor_number;
          contents = drop (length dbname + 1) manifest;
          tmp = TempFileName dbname descriptor_number;
          (s, env) = WriteStringToFileSync (contents @ [10]) tmp env;
          (s, env) = (if ok s then env_RenameFile tmp (CurrentFileName dbname) env else (s, env));
          env = (if \<not> ok s then snd (env_RemoveFile tmp env) else env)
      in (s, env))"

section \<open>Names read back\<close>

lemma ConsumeDecimalNumber_pad6:
  "rest = [] \<or> \<not> is_digit (hd rest) \<Longrightarrow> ConsumeDecimalNumber (pad6 num @ rest) = (True, Some num, rest)"
  using ConsumeDecimalNumber_numeral by (simp add: pad6_def)

lemma pad6_hd: "pad6 num \<noteq> []" "is_digit (hd (pad6 num @ rest))"
proof -
  show "pad6 num \<noteq> []" by (simp add: pad6_def)
  have "\<forall>ch \<in> set (pad6 num). is_digit ch"
    using decimal_digits by (auto simp: pad6_def is_digit_def)
  with \<open>pad6 num \<noteq> []\<close> show "is_digit (hd (pad6 num @ rest))" by (cases "pad6 num") auto
qed

lemma letters_not_digits:
  "\<not> is_digit (hd (bytes_of ''CURRENT''))" "\<not> is_digit (hd (bytes_of ''LOCK''))"
  "\<not> is_digit (hd (bytes_of ''LOG''))" "\<not> is_digit (hd (bytes_of ''LOG.old''))"
  "\<not> is_digit (hd (bytes_of ''MANIFEST-'' @ rest))" "\<not> is_digit (hd (bytes_of ''.'' @ rest))"
  by (simp_all add: is_digit_def bytes_of_def)

lemma ParseFileName_number:
  "ParseFileName (pad6 num @ bytes_of ''.'' @ suffix) =
     (if suffix = bytes_of ''log'' then Some (num, kLogFile)
      else if suffix = bytes_of ''sst'' \<or> suffix = bytes_of ''ldb'' then Some (num, kTableFile)
      else if suffix = bytes_of ''dbtmp'' then Some (num, kTempFile) else None)"
proof -
  let ?f = "pad6 num @ bytes_of ''.'' @ suffix"
  have d: "is_digit (hd ?f)" by (rule pad6_hd)
  have n: "?f \<noteq> bytes_of ''CURRENT''" "?f \<noteq> bytes_of ''LOCK''" "?f \<noteq> bytes_of ''LOG''"
    "?f \<noteq> bytes_of ''LOG.old''" "\<not> slice_starts_with ?f (bytes_of ''MANIFEST-'')"
    using d letters_not_digits unfolding slice_starts_with_iff by metis+
  have c: "ConsumeDecimalNumber ?f = (True, Some num, bytes_of ''.'' @ suffix)"
    using ConsumeDecimalNumber_pad6 letters_not_digits(6) by blast
  have dots: "bytes_of ''.log'' = bytes_of ''.'' @ bytes_of ''log''"
    "bytes_of ''.sst'' = bytes_of ''.'' @ bytes_of ''sst''" "bytes_of ''.ldb'' = bytes_of ''.'' @ bytes_of ''ldb''"
    "bytes_of ''.dbtmp'' = bytes_of ''.'' @ bytes_of ''dbtmp''"
    by (simp_all add: bytes_of_def)
  show ?thesis
    unfolding ParseFileName_def if_not_P [OF n(1)] if_not_P [OF n(2)] if_not_P [OF n(5)] c dots
    using n(3,4) by simp
qed

lemma ParseFileName_manifest:
  "ParseFileName (bytes_of ''MANIFEST-'' @ pad6 num) = Some (num, kDescriptorFile)"
proof -
  have "ConsumeDecimalNumber (pad6 num) = (True, Some num, [])"
    using ConsumeDecimalNumber_pad6 [of "[]"] by simp
  moreover have "slice_starts_with (bytes_of ''MANIFEST-'' @ pad6 num) (bytes_of ''MANIFEST-'')"
    unfolding slice_starts_with_iff by blast
  moreover have "hd (bytes_of ''MANIFEST-'' @ pad6 num) \<noteq> hd (bytes_of ''CURRENT'')"
    "hd (bytes_of ''MANIFEST-'' @ pad6 num) \<noteq> hd (bytes_of ''LOCK'')"
    "hd (bytes_of ''MANIFEST-'' @ pad6 num) \<noteq> hd (bytes_of ''LOG'')"
    "hd (bytes_of ''MANIFEST-'' @ pad6 num) \<noteq> hd (bytes_of ''LOG.old'')"
    by (simp_all add: bytes_of_def)
  ultimately show ?thesis
    unfolding ParseFileName_def by fastforce
qed

lemma ParseFileName_fixed:
  "ParseFileName (bytes_of ''CURRENT'') = Some (0, kCurrentFile)"
  "ParseFileName (bytes_of ''LOCK'') = Some (0, kDBLockFile)"
  "ParseFileName (bytes_of ''LOG'') = Some (0, kInfoLogFile)"
  "ParseFileName (bytes_of ''LOG.old'') = Some (0, kInfoLogFile)"
  by (simp_all add: ParseFileName_def bytes_of_def)

lemma Temp_not_Current: "TempFileName db n \<noteq> CurrentFileName db"
proof
  assume "TempFileName db n = CurrentFileName db"
  then have "hd (pad6 n @ bytes_of ''.'' @ bytes_of ''dbtmp'') = hd (bytes_of ''CURRENT'')"
    by (simp add: TempFileName_def MakeFileName_def CurrentFileName_def bytes_of_def)
  then show False using pad6_hd(2) letters_not_digits(1) by metis
qed

text \<open>What switching does to the files.\<close>

lemma SetCurrentFile_files:
  assumes "SetCurrentFile db n env = (s, env')"
  shows "(s = OK \<longrightarrow> pe_files env' (CurrentFileName db) = Some (bytes_of ''MANIFEST-'' @ pad6 n @ [10]) \<and>
                    pe_files env' (TempFileName db n) = None) \<and>
         (s \<noteq> OK \<longrightarrow> pe_files env' (CurrentFileName db) = pe_files env (CurrentFileName db)) \<and>
         (\<forall>g. g \<noteq> CurrentFileName db \<longrightarrow> g \<noteq> TempFileName db n \<longrightarrow> pe_files env' g = pe_files env g)"
proof -
  let ?t = "TempFileName db n" and ?c = "CurrentFileName db"
  let ?data = "bytes_of ''MANIFEST-'' @ pad6 n @ [10]"
  have tc: "?t \<noteq> ?c" "?c \<noteq> ?t" using Temp_not_Current by metis+
  obtain s1 env1 where w: "DoWriteStringToFile ?data ?t True env = (s1, env1)" by fastforce
  obtain s2 env2 where r: "(if ok s1 then env_RenameFile ?t ?c env1 else (s1, env1)) = (s2, env2)" by fastforce
  obtain s3 env3 where d: "env_RemoveFile ?t env2 = (s3, env3)" by fastforce
  have contents: "drop (length db + 1) (DescriptorFileName db n) @ [10] = ?data"
    by (simp add: DescriptorFileName_def bytes_of_def)
  have fin: "s = s2" "env' = (if ok s2 then env2 else env3)"
    using assms unfolding SetCurrentFile_def WriteStringToFileSync_def Let_def contents w
    by (simp_all add: r d split: if_splits)
  note written = DoWriteStringToFile_files [OF w]
  have ren: "s1 = OK" "pe_files env2 = (pe_files env1)(?c := pe_files env1 ?t, ?t := None)" if "s2 = OK"
    using r that env_RenameFile_files(1) [of ?t ?c env1 s2 env2] tc by (auto simp: ok_def split: if_splits)
  have norename: "pe_files env2 = pe_files env1" if "s2 \<noteq> OK"
    using r that env_RenameFile_files(2) [of ?t ?c env1 s2 env2] tc by (auto split: if_splits)
  note removed = env_RemoveFile_files(3) [OF d]
  show ?thesis
  proof (intro conjI impI allI)
    assume "s = OK"
    then show "pe_files env' ?c = Some ?data" and "pe_files env' ?t = None"
      using fin ren written(1) tc by (simp_all add: ok_def)
  next
    assume "s \<noteq> OK"
    then show "pe_files env' ?c = pe_files env ?c"
      using fin norename removed [OF tc(2)] written(2) [OF tc(2)] by (simp add: ok_def)
  next
    fix g
    assume g: "g \<noteq> ?c" "g \<noteq> ?t"
    show "pe_files env' g = pe_files env g"
      using fin ren(2) norename removed [OF g(2)] written(2) [OF g(2)] g by (cases "s = OK") (simp_all add: ok_def)
  qed
qed

section \<open>Properties\<close>

text \<open>
  C36: Every name the database gives to one of its files is recognised as what it is: the type and
  the 64-bit number it was made from, whatever the number's length. Files of different types or
  numbers therefore never share a name.
\<close>

theorem filename_round_trip:
  "(\<exists>f. LogFileName db n = db @ bytes_of ''/'' @ f \<and> ParseFileName f = Some (n, kLogFile)) \<and>
   (\<exists>f. TableFileName db n = db @ bytes_of ''/'' @ f \<and> ParseFileName f = Some (n, kTableFile)) \<and>
   (\<exists>f. SSTTableFileName db n = db @ bytes_of ''/'' @ f \<and> ParseFileName f = Some (n, kTableFile)) \<and>
   (\<exists>f. TempFileName db n = db @ bytes_of ''/'' @ f \<and> ParseFileName f = Some (n, kTempFile)) \<and>
   (\<exists>f. DescriptorFileName db n = db @ bytes_of ''/'' @ f \<and> ParseFileName f = Some (n, kDescriptorFile)) \<and>
   (\<exists>f. CurrentFileName db = db @ bytes_of ''/'' @ f \<and> ParseFileName f = Some (0, kCurrentFile)) \<and>
   (\<exists>f. LockFileName db = db @ bytes_of ''/'' @ f \<and> ParseFileName f = Some (0, kDBLockFile)) \<and>
   (\<exists>f. InfoLogFileName db = db @ bytes_of ''/'' @ f \<and> ParseFileName f = Some (0, kInfoLogFile)) \<and>
   (\<exists>f. OldInfoLogFileName db = db @ bytes_of ''/'' @ f \<and> ParseFileName f = Some (0, kInfoLogFile))"
proof -
  have num: "\<exists>f. MakeFileName db n suffix = db @ bytes_of ''/'' @ f \<and> ParseFileName f = Some (n, t)"
    if "ParseFileName (pad6 n @ bytes_of ''.'' @ suffix) = Some (n, t)" for suffix t
    using that by (auto simp: MakeFileName_def)
  have sfx: "bytes_of ''sst'' \<noteq> bytes_of ''log''" "bytes_of ''ldb'' \<noteq> bytes_of ''log''"
    "bytes_of ''dbtmp'' \<noteq> bytes_of ''log''" "bytes_of ''dbtmp'' \<noteq> bytes_of ''sst''"
    "bytes_of ''dbtmp'' \<noteq> bytes_of ''ldb''"
    by (simp_all add: bytes_of_def)
  have man: "DescriptorFileName db n = db @ bytes_of ''/'' @ bytes_of ''MANIFEST-'' @ pad6 n"
    by (simp add: DescriptorFileName_def bytes_of_def)
  have fixed: "CurrentFileName db = db @ bytes_of ''/'' @ bytes_of ''CURRENT''"
    "LockFileName db = db @ bytes_of ''/'' @ bytes_of ''LOCK''"
    "InfoLogFileName db = db @ bytes_of ''/'' @ bytes_of ''LOG''"
    "OldInfoLogFileName db = db @ bytes_of ''/'' @ bytes_of ''LOG.old''"
    by (simp_all add: CurrentFileName_def LockFileName_def InfoLogFileName_def OldInfoLogFileName_def
        bytes_of_def)
  have base: "\<exists>f. db @ bytes_of ''/'' @ g = db @ bytes_of ''/'' @ f \<and> ParseFileName f = Some x"
    if "ParseFileName g = Some x" for g x
    using that by blast
  show ?thesis
    unfolding LogFileName_def TableFileName_def SSTTableFileName_def TempFileName_def man fixed
    by (intro conjI num base) (simp_all only: ParseFileName_number ParseFileName_manifest
        ParseFileName_fixed sfx if_True if_False simp_thms)
qed

text \<open>
  C32: Switching to a new manifest is atomic. If \<^verbatim>\<open>SetCurrentFile\<close> returns OK, CURRENT names the new
  manifest and a newline, and nothing else; on any error, whatever call failed, CURRENT is what it
  was. No file but CURRENT and the temporary one is touched.
\<close>

theorem set_current_file_atomic:
  assumes "SetCurrentFile db n env = (s, env')"
  shows "(s = OK \<longrightarrow> pe_files env' (CurrentFileName db) = Some (bytes_of ''MANIFEST-'' @ pad6 n @ [10]) \<and>
                    pe_files env' (TempFileName db n) = None) \<and>
         (s \<noteq> OK \<longrightarrow> pe_files env' (CurrentFileName db) = pe_files env (CurrentFileName db)) \<and>
         (\<forall>g. g \<noteq> CurrentFileName db \<longrightarrow> g \<noteq> TempFileName db n \<longrightarrow> pe_files env' g = pe_files env g)"
  by (rule SetCurrentFile_files [OF assms])

theorem set_current_file_atomic_witness:
  "pe_files (snd (SetCurrentFile [1] 5 (example_env\<lparr>pe_answers := [Failed no_such_file]\<rparr>))) (CurrentFileName [1]) = None"
proof -
  let ?env = "example_env\<lparr>pe_answers := [Failed no_such_file]\<rparr>"
  have "fst (SetCurrentFile [1] 5 ?env) \<noteq> OK"
    by (simp add: SetCurrentFile_def WriteStringToFileSync_def DoWriteStringToFile_def env_NewWritableFile_def
        sys_open_write_def name_call_def Let_def split: prod.splits)
  then show ?thesis
    using set_current_file_atomic [of "[1]" 5 ?env, OF prod.collapse [symmetric]]
    by (simp add: example_env_def)
qed

end
