(* ===== verification/VersionEdit.thy ===== *)
theory VersionEdit
  imports DbFormat Logging "HOL-Library.Monad_Syntax" "HOL-Library.Product_Lexorder"
begin

text \<open>
  Version edits, \<^verbatim>\<open>db/version_edit.h\<close> and \<^verbatim>\<open>db/version_edit.cc\<close>: the records of the manifest.
\<close>

section \<open>Data\<close>

record file_meta =
  fm_refs :: int
  fm_allowed_seeks :: int
  fm_number :: u64
  fm_file_size :: u64
  fm_smallest :: bytes
  fm_largest :: bytes

definition new_FileMetaData :: file_meta where
  "new_FileMetaData =
     \<lparr>fm_refs = 0, fm_allowed_seeks = 2 ^ 30, fm_number = 0, fm_file_size = 0, fm_smallest = [],
      fm_largest = []\<rparr>"

record version_edit =
  ve_comparator :: bytes
  ve_log_number :: u64
  ve_prev_log_number :: u64
  ve_next_file_number :: u64
  ve_last_sequence :: u64
  ve_has_comparator :: bool
  ve_has_log_number :: bool
  ve_has_prev_log_number :: bool
  ve_has_next_file_number :: bool
  ve_has_last_sequence :: bool
  ve_compact_pointers :: "(nat \<times> bytes) list"
  ve_deleted_files :: "(nat \<times> u64) set"
  ve_new_files :: "(nat \<times> file_meta) list"

definition ve_Clear :: "version_edit \<Rightarrow> version_edit" where
  "ve_Clear e =
     e\<lparr>ve_comparator := [], ve_log_number := 0, ve_prev_log_number := 0, ve_last_sequence := 0,
       ve_next_file_number := 0, ve_has_comparator := False, ve_has_log_number := False,
       ve_has_prev_log_number := False, ve_has_next_file_number := False,
       ve_has_last_sequence := False, ve_deleted_files := {}, ve_new_files := []\<rparr>"

definition new_VersionEdit :: version_edit where
  "new_VersionEdit =
     ve_Clear \<lparr>ve_comparator = [], ve_log_number = 0, ve_prev_log_number = 0, ve_next_file_number = 0,
       ve_last_sequence = 0, ve_has_comparator = False, ve_has_log_number = False,
       ve_has_prev_log_number = False, ve_has_next_file_number = False, ve_has_last_sequence = False,
       ve_compact_pointers = [], ve_deleted_files = {}, ve_new_files = []\<rparr>"

definition SetComparatorName :: "bytes \<Rightarrow> version_edit \<Rightarrow> version_edit" where
  "SetComparatorName name e = e\<lparr>ve_has_comparator := True, ve_comparator := name\<rparr>"

definition SetLogNumber :: "u64 \<Rightarrow> version_edit \<Rightarrow> version_edit" where
  "SetLogNumber num e = e\<lparr>ve_has_log_number := True, ve_log_number := num\<rparr>"

definition SetPrevLogNumber :: "u64 \<Rightarrow> version_edit \<Rightarrow> version_edit" where
  "SetPrevLogNumber num e = e\<lparr>ve_has_prev_log_number := True, ve_prev_log_number := num\<rparr>"

definition SetNextFile :: "u64 \<Rightarrow> version_edit \<Rightarrow> version_edit" where
  "SetNextFile num e = e\<lparr>ve_has_next_file_number := True, ve_next_file_number := num\<rparr>"

definition SetLastSequence :: "u64 \<Rightarrow> version_edit \<Rightarrow> version_edit" where
  "SetLastSequence seq e = e\<lparr>ve_has_last_sequence := True, ve_last_sequence := seq\<rparr>"

definition SetCompactPointer :: "nat \<Rightarrow> bytes \<Rightarrow> version_edit \<Rightarrow> version_edit" where
  "SetCompactPointer level key e = e\<lparr>ve_compact_pointers := ve_compact_pointers e @ [(level, key)]\<rparr>"

definition ve_AddFile :: "nat \<Rightarrow> u64 \<Rightarrow> u64 \<Rightarrow> bytes \<Rightarrow> bytes \<Rightarrow> version_edit \<Rightarrow> version_edit" where
  "ve_AddFile level num file_size smallest largest e =
     (let f = new_FileMetaData\<lparr>fm_number := num, fm_file_size := file_size, fm_smallest := smallest,
                               fm_largest := largest\<rparr>
      in e\<lparr>ve_new_files := ve_new_files e @ [(level, f)]\<rparr>)"

definition ve_RemoveFile :: "nat \<Rightarrow> u64 \<Rightarrow> version_edit \<Rightarrow> version_edit" where
  "ve_RemoveFile level num e = e\<lparr>ve_deleted_files := insert (level, num) (ve_deleted_files e)\<rparr>"

section \<open>Encoding\<close>

definition kComparator :: u32 where "kComparator = 1"
definition kLogNumber :: u32 where "kLogNumber = 2"
definition kNextFileNumber :: u32 where "kNextFileNumber = 3"
definition kLastSequence :: u32 where "kLastSequence = 4"
definition kCompactPointer :: u32 where "kCompactPointer = 5"
definition kDeletedFile :: u32 where "kDeletedFile = 6"
definition kNewFile :: u32 where "kNewFile = 7"
definition kPrevLogNumber :: u32 where "kPrevLogNumber = 9"

lemmas tag_defs = kComparator_def kLogNumber_def kNextFileNumber_def kLastSequence_def
  kCompactPointer_def kDeletedFile_def kNewFile_def kPrevLogNumber_def

definition enc_compact_pointer :: "nat \<times> bytes \<Rightarrow> bytes \<Rightarrow> bytes" where
  "enc_compact_pointer = (\<lambda>(level, key) dst.
     PutLengthPrefixedSlice (PutVarint32 (PutVarint32 dst kCompactPointer) (word_of_nat level)) key)"

definition enc_deleted_file :: "nat \<times> u64 \<Rightarrow> bytes \<Rightarrow> bytes" where
  "enc_deleted_file = (\<lambda>(level, num) dst.
     PutVarint64 (PutVarint32 (PutVarint32 dst kDeletedFile) (word_of_nat level)) num)"

definition enc_new_file :: "nat \<times> file_meta \<Rightarrow> bytes \<Rightarrow> bytes" where
  "enc_new_file = (\<lambda>(level, f) dst.
     let dst = PutVarint32 (PutVarint32 dst kNewFile) (word_of_nat level);
         dst = PutVarint64 (PutVarint64 dst (fm_number f)) (fm_file_size f)
     in PutLengthPrefixedSlice (PutLengthPrefixedSlice dst (fm_smallest f)) (fm_largest f))"

definition ve_EncodeTo :: "version_edit \<Rightarrow> bytes \<Rightarrow> bytes" where
  "ve_EncodeTo e dst =
     (let dst = (if ve_has_comparator e
                 then PutLengthPrefixedSlice (PutVarint32 dst kComparator) (ve_comparator e) else dst);
          dst = (if ve_has_log_number e
                 then PutVarint64 (PutVarint32 dst kLogNumber) (ve_log_number e) else dst);
          dst = (if ve_has_prev_log_number e
                 then PutVarint64 (PutVarint32 dst kPrevLogNumber) (ve_prev_log_number e) else dst);
          dst = (if ve_has_next_file_number e
                 then PutVarint64 (PutVarint32 dst kNextFileNumber) (ve_next_file_number e) else dst);
          dst = (if ve_has_last_sequence e
                 then PutVarint64 (PutVarint32 dst kLastSequence) (ve_last_sequence e) else dst);
          dst = fold enc_compact_pointer (ve_compact_pointers e) dst;
          dst = fold enc_deleted_file (sorted_list_of_set (ve_deleted_files e)) dst
      in fold enc_new_file (ve_new_files e) dst)"

section \<open>Decoding\<close>

definition GetInternalKey :: "bytes \<Rightarrow> (bytes \<times> bytes) option" where
  "GetInternalKey input =
     (case GetLengthPrefixedSlice input of
        Some (str, rest) \<Rightarrow> if str \<noteq> [] then Some (str, rest) else None
      | None \<Rightarrow> None)"

definition GetLevel :: "bytes \<Rightarrow> (nat \<times> bytes) option" where
  "GetLevel input =
     (case GetVarint32 input of
        Some (v, rest) \<Rightarrow> if v < word_of_nat kNumLevels then Some (unat v, rest) else None
      | None \<Rightarrow> None)"

text \<open>One turn of the loop behind the tag: an error message, or the rest of the input and the edit.\<close>

definition decode_field :: "u32 \<Rightarrow> bytes \<Rightarrow> version_edit \<Rightarrow> string + (bytes \<times> version_edit)" where
  "decode_field tag input e =
     (if tag = kComparator then
        (case GetLengthPrefixedSlice input of
           Some (str, input) \<Rightarrow> Inr (input, e\<lparr>ve_comparator := str, ve_has_comparator := True\<rparr>)
         | None \<Rightarrow> Inl ''comparator name'')
      else if tag = kLogNumber then
        (case GetVarint64 input of
           Some (num, input) \<Rightarrow> Inr (input, e\<lparr>ve_log_number := num, ve_has_log_number := True\<rparr>)
         | None \<Rightarrow> Inl ''log number'')
      else if tag = kPrevLogNumber then
        (case GetVarint64 input of
           Some (num, input) \<Rightarrow> Inr (input, e\<lparr>ve_prev_log_number := num, ve_has_prev_log_number := True\<rparr>)
         | None \<Rightarrow> Inl ''previous log number'')
      else if tag = kNextFileNumber then
        (case GetVarint64 input of
           Some (num, input) \<Rightarrow> Inr (input, e\<lparr>ve_next_file_number := num, ve_has_next_file_number := True\<rparr>)
         | None \<Rightarrow> Inl ''next file number'')
      else if tag = kLastSequence then
        (case GetVarint64 input of
           Some (num, input) \<Rightarrow> Inr (input, e\<lparr>ve_last_sequence := num, ve_has_last_sequence := True\<rparr>)
         | None \<Rightarrow> Inl ''last sequence number'')
      else if tag = kCompactPointer then
        (case do { (level, input) \<leftarrow> GetLevel input; (key, input) \<leftarrow> GetInternalKey input;
                   Some (input, e\<lparr>ve_compact_pointers := ve_compact_pointers e @ [(level, key)]\<rparr>) } of
           Some r \<Rightarrow> Inr r
         | None \<Rightarrow> Inl ''compaction pointer'')
      else if tag = kDeletedFile then
        (case do { (level, input) \<leftarrow> GetLevel input; (num, input) \<leftarrow> GetVarint64 input;
                   Some (input, e\<lparr>ve_deleted_files := insert (level, num) (ve_deleted_files e)\<rparr>) } of
           Some r \<Rightarrow> Inr r
         | None \<Rightarrow> Inl ''deleted file'')
      else if tag = kNewFile then
        (case do { (level, input) \<leftarrow> GetLevel input; (num, input) \<leftarrow> GetVarint64 input;
                   (file_size, input) \<leftarrow> GetVarint64 input; (smallest, input) \<leftarrow> GetInternalKey input;
                   (largest, input) \<leftarrow> GetInternalKey input;
                   let f = new_FileMetaData\<lparr>fm_number := num, fm_file_size := file_size,
                             fm_smallest := smallest, fm_largest := largest\<rparr>;
                   Some (input, e\<lparr>ve_new_files := ve_new_files e @ [(level, f)]\<rparr>) } of
           Some r \<Rightarrow> Inr r
         | None \<Rightarrow> Inl ''new-file entry'')
      else Inl ''unknown tag'')"

lemma GetInternalKey_shorter: "GetInternalKey input = Some (k, rest) \<Longrightarrow> length rest < length input"
  by (auto simp: GetInternalKey_def split: option.splits if_splits dest: lps.dec_shorter)

lemma GetLevel_shorter: "GetLevel input = Some (l, rest) \<Longrightarrow> length rest < length input"
  by (auto simp: GetLevel_def split: option.splits if_splits dest: vi32.dec_shorter)

lemma decode_field_shorter:
  "decode_field tag input e = Inr (rest, e') \<Longrightarrow> length rest < length input"
  unfolding decode_field_def
  by (auto split: if_splits option.splits Option.bind_splits
      dest!: lps.dec_shorter vi64.dec_shorter GetLevel_shorter GetInternalKey_shorter)

function ve_Decode_loop :: "bytes \<Rightarrow> version_edit \<Rightarrow> string option \<times> bytes \<times> version_edit" where
  "ve_Decode_loop input e =
     (case GetVarint32 input of
        None \<Rightarrow> (None, input, e)
      | Some (tag, input) \<Rightarrow>
          (case decode_field tag input e of
             Inl msg \<Rightarrow> (Some msg, input, e)
           | Inr (input, e) \<Rightarrow> ve_Decode_loop input e))"
  by pat_completeness auto
termination
  by (relation "measure (\<lambda>(input, e). length input)")
    (auto dest!: vi32.dec_shorter decode_field_shorter)

declare ve_Decode_loop.simps [simp del]

definition ve_DecodeFrom :: "bytes \<Rightarrow> version_edit \<Rightarrow> status \<times> version_edit" where
  "ve_DecodeFrom src e =
     (let (msg, input, e) = ve_Decode_loop src (ve_Clear e);
          msg = (if msg = None \<and> input \<noteq> [] then Some ''invalid tag'' else msg)
      in (case msg of
            Some m \<Rightarrow> Corruption (status_msg (bytes_of ''VersionEdit'') (bytes_of m))
          | None \<Rightarrow> OK, e))"

section \<open>Encoded fields read back\<close>

lemmas put_simps = PutVarint32_def PutVarint64_def

lemma PutLengthPrefixedSlice_dst [simp]:
  "dst \<noteq> [] \<Longrightarrow> PutLengthPrefixedSlice dst s = dst @ PutLengthPrefixedSlice [] s"
  by (rule PutLengthPrefixedSlice_append)

lemma EncodeVarint_nonempty [simp]: "EncodeVarint32 v \<noteq> []" "EncodeVarint64 w \<noteq> []"
  using vi32.enc_nonempty vi64.enc_nonempty by blast+

lemma ve_Decode_loop_Nil: "ve_Decode_loop [] e = (None, [], e)"
proof -
  have "GetVarint32 [] = None"
    using vi32.dec_shorter [of "[]"] by (cases "GetVarint32 []") auto
  then show ?thesis by (simp add: ve_Decode_loop.simps [of "[]"])
qed

lemma ve_Decode_loop_field:
  "decode_field tag input e = Inr (rest, e') \<Longrightarrow>
   ve_Decode_loop (EncodeVarint32 tag @ input) e = ve_Decode_loop rest e'"
  by (subst ve_Decode_loop.simps) (simp add: vi32.dec_enc)

lemma GetLevel_enc:
  "level < kNumLevels \<Longrightarrow> GetLevel (EncodeVarint32 (word_of_nat level) @ rest) = Some (level, rest)"
  by (simp add: GetLevel_def vi32.dec_enc kNumLevels_def word_less_nat_alt)

definition ikey_ok :: "bytes \<Rightarrow> bool" where
  "ikey_ok k \<longleftrightarrow> k \<noteq> [] \<and> length k < 2 ^ 32"

lemma GetInternalKey_enc:
  "ikey_ok k \<Longrightarrow> GetInternalKey (PutLengthPrefixedSlice [] k @ rest) = Some (k, rest)"
  by (simp add: GetInternalKey_def ikey_ok_def lps.dec_enc)

fun compact_pointer_ok :: "nat \<times> bytes \<Rightarrow> bool" where
  "compact_pointer_ok (level, key) = (level < kNumLevels \<and> ikey_ok key)"

definition file_ok :: "file_meta \<Rightarrow> bool" where
  "file_ok f \<longleftrightarrow> fm_refs f = 0 \<and> fm_allowed_seeks f = 2 ^ 30 \<and> ikey_ok (fm_smallest f) \<and>
               ikey_ok (fm_largest f)"

fun new_file_ok :: "nat \<times> file_meta \<Rightarrow> bool" where
  "new_file_ok (level, f) = (level < kNumLevels \<and> file_ok f)"

fun deleted_ok :: "nat \<times> u64 \<Rightarrow> bool" where
  "deleted_ok (level, num) = (level < kNumLevels)"

text \<open>The edits that the setters build: fields that were not set have their initial values.\<close>

definition edit_ok :: "version_edit \<Rightarrow> bool" where
  "edit_ok e \<longleftrightarrow>
     length (ve_comparator e) < 2 ^ 32 \<and> (\<not> ve_has_comparator e \<longrightarrow> ve_comparator e = []) \<and>
     (\<not> ve_has_log_number e \<longrightarrow> ve_log_number e = 0) \<and>
     (\<not> ve_has_prev_log_number e \<longrightarrow> ve_prev_log_number e = 0) \<and>
     (\<not> ve_has_next_file_number e \<longrightarrow> ve_next_file_number e = 0) \<and>
     (\<not> ve_has_last_sequence e \<longrightarrow> ve_last_sequence e = 0) \<and>
     (\<forall>p \<in> set (ve_compact_pointers e). compact_pointer_ok p) \<and>
     finite (ve_deleted_files e) \<and> (\<forall>d \<in> ve_deleted_files e. deleted_ok d) \<and>
     (\<forall>f \<in> set (ve_new_files e). new_file_ok f)"

lemma decode_compact_pointer:
  assumes "compact_pointer_ok p"
  shows "ve_Decode_loop (enc_compact_pointer p [] @ rest) e =
         ve_Decode_loop rest (e\<lparr>ve_compact_pointers := ve_compact_pointers e @ [p]\<rparr>)"
proof (cases p)
  case (Pair level key)
  have "decode_field kCompactPointer
      (EncodeVarint32 (word_of_nat level) @ PutLengthPrefixedSlice [] key @ rest) e =
      Inr (rest, e\<lparr>ve_compact_pointers := ve_compact_pointers e @ [p]\<rparr>)"
    using assms Pair by (simp add: decode_field_def tag_defs GetLevel_enc GetInternalKey_enc)
  from ve_Decode_loop_field [OF this] show ?thesis
    by (simp add: Pair enc_compact_pointer_def put_simps)
qed

lemma decode_deleted_file:
  assumes "deleted_ok d"
  shows "ve_Decode_loop (enc_deleted_file d [] @ rest) e =
         ve_Decode_loop rest (e\<lparr>ve_deleted_files := insert d (ve_deleted_files e)\<rparr>)"
proof (cases d)
  case (Pair level num)
  have "decode_field kDeletedFile (EncodeVarint32 (word_of_nat level) @ EncodeVarint64 num @ rest) e =
      Inr (rest, e\<lparr>ve_deleted_files := insert d (ve_deleted_files e)\<rparr>)"
    using assms Pair by (simp add: decode_field_def tag_defs GetLevel_enc vi64.dec_enc)
  from ve_Decode_loop_field [OF this] show ?thesis
    by (simp add: Pair enc_deleted_file_def put_simps)
qed

lemma file_ok_eq:
  "file_ok f \<Longrightarrow> new_FileMetaData\<lparr>fm_number := fm_number f, fm_file_size := fm_file_size f,
     fm_smallest := fm_smallest f, fm_largest := fm_largest f\<rparr> = f"
  by (simp add: file_ok_def new_FileMetaData_def)

lemma decode_new_file:
  assumes "new_file_ok p"
  shows "ve_Decode_loop (enc_new_file p [] @ rest) e =
         ve_Decode_loop rest (e\<lparr>ve_new_files := ve_new_files e @ [p]\<rparr>)"
proof (cases p)
  case (Pair level f)
  then have f: "level < kNumLevels" "ikey_ok (fm_smallest f)" "ikey_ok (fm_largest f)" "file_ok f"
    using assms by (simp_all add: file_ok_def)
  have "decode_field kNewFile
      (EncodeVarint32 (word_of_nat level) @ EncodeVarint64 (fm_number f) @ EncodeVarint64 (fm_file_size f) @
       PutLengthPrefixedSlice [] (fm_smallest f) @ PutLengthPrefixedSlice [] (fm_largest f) @ rest) e =
      Inr (rest, e\<lparr>ve_new_files := ve_new_files e @ [p]\<rparr>)"
    using f by (simp add: Pair decode_field_def tag_defs GetLevel_enc vi64.dec_enc GetInternalKey_enc file_ok_eq)
  from ve_Decode_loop_field [OF this] show ?thesis
    by (simp add: Pair enc_new_file_def put_simps)
qed

lemma decode_lists:
  "\<forall>p \<in> set ps. compact_pointer_ok p \<Longrightarrow>
   ve_Decode_loop (concat (map (\<lambda>p. enc_compact_pointer p []) ps) @ rest) e =
   ve_Decode_loop rest (e\<lparr>ve_compact_pointers := ve_compact_pointers e @ ps\<rparr>)"
  "\<forall>d \<in> set ds. deleted_ok d \<Longrightarrow>
   ve_Decode_loop (concat (map (\<lambda>d. enc_deleted_file d []) ds) @ rest) e =
   ve_Decode_loop rest (e\<lparr>ve_deleted_files := ve_deleted_files e \<union> set ds\<rparr>)"
  "\<forall>f \<in> set fs. new_file_ok f \<Longrightarrow>
   ve_Decode_loop (concat (map (\<lambda>f. enc_new_file f []) fs) @ rest) e =
   ve_Decode_loop rest (e\<lparr>ve_new_files := ve_new_files e @ fs\<rparr>)"
proof -
  show "\<forall>p \<in> set ps. compact_pointer_ok p \<Longrightarrow>
   ve_Decode_loop (concat (map (\<lambda>p. enc_compact_pointer p []) ps) @ rest) e =
   ve_Decode_loop rest (e\<lparr>ve_compact_pointers := ve_compact_pointers e @ ps\<rparr>)"
    by (induction ps arbitrary: e) (simp_all add: decode_compact_pointer)
  show "\<forall>d \<in> set ds. deleted_ok d \<Longrightarrow>
   ve_Decode_loop (concat (map (\<lambda>d. enc_deleted_file d []) ds) @ rest) e =
   ve_Decode_loop rest (e\<lparr>ve_deleted_files := ve_deleted_files e \<union> set ds\<rparr>)"
    by (induction ds arbitrary: e) (simp_all add: decode_deleted_file)
  show "\<forall>f \<in> set fs. new_file_ok f \<Longrightarrow>
   ve_Decode_loop (concat (map (\<lambda>f. enc_new_file f []) fs) @ rest) e =
   ve_Decode_loop rest (e\<lparr>ve_new_files := ve_new_files e @ fs\<rparr>)"
    by (induction fs arbitrary: e) (simp_all add: decode_new_file)
qed

lemma enc_folds:
  "fold enc_compact_pointer ps dst = dst @ concat (map (\<lambda>p. enc_compact_pointer p []) ps)"
  "fold enc_deleted_file ds dst = dst @ concat (map (\<lambda>d. enc_deleted_file d []) ds)"
  "fold enc_new_file fs dst = dst @ concat (map (\<lambda>f. enc_new_file f []) fs)"
proof -
  have step: "enc_compact_pointer p dst = dst @ enc_compact_pointer p []"
    "enc_deleted_file d dst = dst @ enc_deleted_file d []"
    "enc_new_file f dst = dst @ enc_new_file f []" for p d f dst
    by (simp_all add: enc_compact_pointer_def enc_deleted_file_def enc_new_file_def put_simps
        split: prod.splits)
  show "fold enc_compact_pointer ps dst = dst @ concat (map (\<lambda>p. enc_compact_pointer p []) ps)"
    by (induction ps arbitrary: dst) (simp, simp, subst step, simp)
  show "fold enc_deleted_file ds dst = dst @ concat (map (\<lambda>d. enc_deleted_file d []) ds)"
    by (induction ds arbitrary: dst) (simp, simp, subst step, simp)
  show "fold enc_new_file fs dst = dst @ concat (map (\<lambda>f. enc_new_file f []) fs)"
    by (induction fs arbitrary: dst) (simp, simp, subst step, simp)
qed

text \<open>The scalar fields, one after the other.\<close>

definition enc_scalars :: "version_edit \<Rightarrow> bytes" where
  "enc_scalars e =
     (if ve_has_comparator e then EncodeVarint32 kComparator @ PutLengthPrefixedSlice [] (ve_comparator e) else []) @
     (if ve_has_log_number e then EncodeVarint32 kLogNumber @ EncodeVarint64 (ve_log_number e) else []) @
     (if ve_has_prev_log_number e then EncodeVarint32 kPrevLogNumber @ EncodeVarint64 (ve_prev_log_number e) else []) @
     (if ve_has_next_file_number e then EncodeVarint32 kNextFileNumber @ EncodeVarint64 (ve_next_file_number e) else []) @
     (if ve_has_last_sequence e then EncodeVarint32 kLastSequence @ EncodeVarint64 (ve_last_sequence e) else [])"

lemma ve_EncodeTo_eq:
  "ve_EncodeTo e [] = enc_scalars e @ concat (map (\<lambda>p. enc_compact_pointer p []) (ve_compact_pointers e)) @
     concat (map (\<lambda>d. enc_deleted_file d []) (sorted_list_of_set (ve_deleted_files e))) @
     concat (map (\<lambda>f. enc_new_file f []) (ve_new_files e))"
  unfolding ve_EncodeTo_def Let_def enc_folds enc_scalars_def
  by (simp add: put_simps)

lemma decode_scalar_fields:
  "length name < 2 ^ 32 \<Longrightarrow>
   ve_Decode_loop (EncodeVarint32 kComparator @ PutLengthPrefixedSlice [] name @ rest) e =
     ve_Decode_loop rest (SetComparatorName name e)"
  "ve_Decode_loop (EncodeVarint32 kLogNumber @ EncodeVarint64 n @ rest) e =
     ve_Decode_loop rest (SetLogNumber n e)"
  "ve_Decode_loop (EncodeVarint32 kPrevLogNumber @ EncodeVarint64 n @ rest) e =
     ve_Decode_loop rest (SetPrevLogNumber n e)"
  "ve_Decode_loop (EncodeVarint32 kNextFileNumber @ EncodeVarint64 n @ rest) e =
     ve_Decode_loop rest (SetNextFile n e)"
  "ve_Decode_loop (EncodeVarint32 kLastSequence @ EncodeVarint64 n @ rest) e =
     ve_Decode_loop rest (SetLastSequence n e)"
  by (rule ve_Decode_loop_field;
      simp add: decode_field_def tag_defs lps.dec_enc vi64.dec_enc SetComparatorName_def SetLogNumber_def
        SetPrevLogNumber_def SetNextFile_def SetLastSequence_def)+

lemma decode_scalars:
  assumes "edit_ok e"
  shows "ve_Decode_loop (enc_scalars e @ rest) (ve_Clear e0) =
         ve_Decode_loop rest (e\<lparr>ve_compact_pointers := ve_compact_pointers e0, ve_deleted_files := {},
                                ve_new_files := []\<rparr>)"
  using assms unfolding enc_scalars_def edit_ok_def
  by (cases e; cases e0) (simp add: decode_scalar_fields SetComparatorName_def SetLogNumber_def
      SetPrevLogNumber_def SetNextFile_def SetLastSequence_def ve_Clear_def split: if_splits)

lemma ve_Decode_EncodeTo:
  assumes "edit_ok e"
  shows "ve_DecodeFrom (ve_EncodeTo e []) e0 =
         (OK, e\<lparr>ve_compact_pointers := ve_compact_pointers e0 @ ve_compact_pointers e\<rparr>)"
proof -
  have ok: "\<forall>p \<in> set (ve_compact_pointers e). compact_pointer_ok p"
    "\<forall>d \<in> set (sorted_list_of_set (ve_deleted_files e)). deleted_ok d"
    "\<forall>f \<in> set (ve_new_files e). new_file_ok f" "finite (ve_deleted_files e)"
    using assms by (simp_all add: edit_ok_def)
  have "ve_Decode_loop (ve_EncodeTo e [] @ []) (ve_Clear e0) =
      (None, [], e\<lparr>ve_compact_pointers := ve_compact_pointers e0 @ ve_compact_pointers e\<rparr>)"
    unfolding ve_EncodeTo_eq append_assoc decode_scalars [OF assms] decode_lists(1) [OF ok(1)]
      decode_lists(2) [OF ok(2)] decode_lists(3) [OF ok(3)] ve_Decode_loop_Nil
    using ok(4) by simp
  then show ?thesis by (simp add: ve_DecodeFrom_def)
qed

section \<open>What decoding accepts\<close>

lemma GetLevel_less: "GetLevel input = Some (l, rest) \<Longrightarrow> l < kNumLevels"
  by (auto simp: GetLevel_def kNumLevels_def word_less_nat_alt split: option.splits if_splits)

lemma GetLengthPrefixedSlice_length:
  "GetLengthPrefixedSlice input = Some (k, rest) \<Longrightarrow> length k < 2 ^ 32"
proof (cases "GetVarint32 input")
  case (Some p)
  assume g: "GetLengthPrefixedSlice input = Some (k, rest)"
  obtain len i where p: "p = (len, i)" by fastforce
  have "length k \<le> unat len" using g Some p by (auto simp: GetLengthPrefixedSlice_def split: if_splits)
  then show ?thesis using unat_less_exp [of len] by simp
qed (simp add: GetLengthPrefixedSlice_def)

lemma GetInternalKey_ok: "GetInternalKey input = Some (k, rest) \<Longrightarrow> ikey_ok k"
  by (auto simp: GetInternalKey_def ikey_ok_def split: option.splits if_splits
      dest!: GetLengthPrefixedSlice_length)

lemma edit_ok_updates:
  assumes "edit_ok e"
  shows "length name < 2 ^ 32 \<Longrightarrow> edit_ok (e\<lparr>ve_comparator := name, ve_has_comparator := True\<rparr>)"
    and "edit_ok (e\<lparr>ve_log_number := num, ve_has_log_number := True\<rparr>)"
    and "edit_ok (e\<lparr>ve_prev_log_number := num, ve_has_prev_log_number := True\<rparr>)"
    and "edit_ok (e\<lparr>ve_next_file_number := num, ve_has_next_file_number := True\<rparr>)"
    and "edit_ok (e\<lparr>ve_last_sequence := num, ve_has_last_sequence := True\<rparr>)"
    and "level < kNumLevels \<Longrightarrow> ikey_ok key \<Longrightarrow>
         edit_ok (e\<lparr>ve_compact_pointers := ve_compact_pointers e @ [(level, key)]\<rparr>)"
    and "level < kNumLevels \<Longrightarrow>
         edit_ok (e\<lparr>ve_deleted_files := insert (level, num) (ve_deleted_files e)\<rparr>)"
    and "level < kNumLevels \<Longrightarrow> ikey_ok a \<Longrightarrow> ikey_ok b \<Longrightarrow>
         edit_ok (e\<lparr>ve_new_files := ve_new_files e @ [(level, new_FileMetaData\<lparr>fm_number := num,
           fm_file_size := file_size, fm_smallest := a, fm_largest := b\<rparr>)]\<rparr>)"
  using assms by (simp_all add: edit_ok_def file_ok_def new_FileMetaData_def)

lemma decode_field_ok:
  assumes "edit_ok e" and "decode_field tag input e = Inr (rest, e')"
  shows "edit_ok e'"
  using assms(2) unfolding decode_field_def
  by (auto simp: Let_def split: if_splits option.splits Option.bind_splits
      dest!: GetLevel_less GetInternalKey_ok GetLengthPrefixedSlice_length
      intro!: edit_ok_updates [OF assms(1), simplified])

lemma ve_Decode_loop_ok:
  "edit_ok e \<Longrightarrow> ve_Decode_loop input e = (msg, rest, e') \<Longrightarrow> edit_ok e'"
proof (induction input e rule: ve_Decode_loop.induct)
  case (1 input e)
  note step = "1.prems"(2) [unfolded ve_Decode_loop.simps [of input e]]
  show ?case
  proof (cases "GetVarint32 input")
    case (Some r)
    then obtain tag inp where v: "GetVarint32 input = Some (tag, inp)" by (cases r) simp
    show ?thesis
    proof (cases "decode_field tag inp e")
      case (Inr q)
      obtain i e1 where q: "q = (i, e1)" by fastforce
      show ?thesis
        using "1.IH" [OF v refl Inr q [symmetric]] step v Inr q decode_field_ok [OF "1.prems"(1)] by simp
    qed (use step v "1.prems" in simp)
  qed (use step "1.prems" in simp)
qed

section \<open>Properties\<close>

text \<open>
  C20: An edit that was built with the setters is written and read back unchanged, field by field,
  list by list, with its deleted files as a set. One exception is in the code: decoding clears every
  field of the target except its compaction pointers, which survive in front of the new ones.
\<close>

theorem version_edit_round_trip:
  assumes "edit_ok e"
  shows "ve_DecodeFrom (ve_EncodeTo e []) e0 =
           (OK, e\<lparr>ve_compact_pointers := ve_compact_pointers e0 @ ve_compact_pointers e\<rparr>) \<and>
         ve_DecodeFrom (ve_EncodeTo e []) new_VersionEdit = (OK, e)"
  using ve_Decode_EncodeTo [OF assms] by (simp add: new_VersionEdit_def ve_Clear_def)

definition example_edit :: version_edit where
  "example_edit =
     ve_AddFile 2 7 100 [1] [2] (ve_RemoveFile 1 3 (SetCompactPointer 1 [9] (SetLogNumber 5 new_VersionEdit)))"

theorem version_edit_round_trip_witness:
  "ve_DecodeFrom (ve_EncodeTo example_edit []) new_VersionEdit = (OK, example_edit)"
proof -
  have "edit_ok example_edit"
    by (simp add: example_edit_def edit_ok_def ve_AddFile_def ve_RemoveFile_def SetCompactPointer_def
        SetLogNumber_def new_VersionEdit_def ve_Clear_def new_FileMetaData_def file_ok_def ikey_ok_def
        kNumLevels_def)
  from version_edit_round_trip [OF this] show ?thesis by blast
qed

text \<open>
  C33: Whatever bytes a manifest record holds, a decoded edit is well formed: its levels exist, its
  keys are not empty, and fields that were not present have their initial values. So an edit that
  was read can be written and read again without loss.
\<close>

theorem version_edit_decode_ok:
  assumes "\<forall>p \<in> set (ve_compact_pointers e0). compact_pointer_ok p"
    and "ve_DecodeFrom src e0 = (s, e)"
  shows "edit_ok e \<and> ve_DecodeFrom (ve_EncodeTo e []) new_VersionEdit = (OK, e)"
proof -
  obtain msg rest e1 where loop: "ve_Decode_loop src (ve_Clear e0) = (msg, rest, e1)" by (metis prod_cases3)
  have "edit_ok (ve_Clear e0)" using assms(1) by (simp add: edit_ok_def ve_Clear_def)
  then have "edit_ok e1" using ve_Decode_loop_ok loop by blast
  moreover have "e1 = e" using assms(2) loop by (simp add: ve_DecodeFrom_def Let_def)
  ultimately have ok: "edit_ok e" by simp
  with ve_Decode_EncodeTo [OF ok, of new_VersionEdit] show ?thesis
    by (simp add: new_VersionEdit_def ve_Clear_def)
qed

theorem version_edit_decode_ok_witness:
  "edit_ok (snd (ve_DecodeFrom [5, 2, 1, 9, 6] new_VersionEdit))"
  using version_edit_decode_ok [of new_VersionEdit "[5, 2, 1, 9, 6]", OF _ prod.collapse [symmetric]]
  by (simp add: new_VersionEdit_def ve_Clear_def)

end
