(* ===== verification/Format.thy ===== *)
theory Format
  imports Coding Crc32c FileSystem
begin

text \<open>
  The outer format of table files, \<^verbatim>\<open>table/format.h\<close> and \<^verbatim>\<open>table/format.cc\<close>: block handles, the
  footer, and blocks with their type and checksum. Files open for random access are those of
  \<^verbatim>\<open>util/env_posix.cc\<close>. Reads that leave the buffer they are made from have the value \<open>None\<close>.
\<close>

section \<open>Random access files\<close>

text \<open>\<open>ra_fails\<close> is what the kernel refuses; a refusal carries an error.\<close>

record random_file =
  ra_filename :: bytes
  ra_data :: bytes
  ra_mmapped :: bool
  ra_fails :: "u64 \<Rightarrow> u64 \<Rightarrow> errno option"

definition PosixRandomAccessFile_Read :: "random_file \<Rightarrow> u64 \<Rightarrow> u64 \<Rightarrow> status \<times> bytes" where
  "PosixRandomAccessFile_Read f offset n =
     (case ra_fails f offset n of
        Some e \<Rightarrow> (PosixError (ra_filename f) e, [])
      | None \<Rightarrow> (OK, take (unat n) (drop (unat offset) (ra_data f))))"

definition einval :: errno where
  "einval = \<lparr>err_code = 22, err_text = bytes_of ''Invalid argument''\<rparr>"

text \<open>The sum of the check may wrap around; the read then leaves the mapped region.\<close>

definition PosixMmapReadableFile_Read :: "random_file \<Rightarrow> u64 \<Rightarrow> u64 \<Rightarrow> (status \<times> bytes) option" where
  "PosixMmapReadableFile_Read f offset n =
     (if offset + n > word_of_nat (length (ra_data f)) then Some (PosixError (ra_filename f) einval, [])
      else if unat offset + unat n \<le> length (ra_data f) then Some (OK, take (unat n) (drop (unat offset) (ra_data f)))
      else None)"

definition ra_Read :: "random_file \<Rightarrow> u64 \<Rightarrow> u64 \<Rightarrow> (status \<times> bytes) option" where
  "ra_Read f offset n =
     (if ra_mmapped f then PosixMmapReadableFile_Read f offset n else Some (PosixRandomAccessFile_Read f offset n))"

section \<open>Block handles\<close>

record block_handle =
  bh_offset :: u64
  bh_size :: u64

definition kMaxEncodedLength :: nat where "kMaxEncodedLength = 10 + 10"

definition new_BlockHandle :: block_handle where
  "new_BlockHandle = \<lparr>bh_offset = NOT 0, bh_size = NOT 0\<rparr>"

definition BlockHandle_EncodeTo :: "block_handle \<Rightarrow> bytes \<Rightarrow> bytes" where
  "BlockHandle_EncodeTo h dst = PutVarint64 (PutVarint64 dst (bh_offset h)) (bh_size h)"

definition BlockHandle_DecodeFrom :: "bytes \<Rightarrow> status \<times> block_handle \<times> bytes" where
  "BlockHandle_DecodeFrom input =
     (case GetVarint64 input of
        None \<Rightarrow> (Corruption (bytes_of ''bad block handle''), new_BlockHandle, input)
      | Some (offset, input) \<Rightarrow>
          (case GetVarint64 input of
             None \<Rightarrow> (Corruption (bytes_of ''bad block handle''), new_BlockHandle\<lparr>bh_offset := offset\<rparr>, input)
           | Some (n, input) \<Rightarrow> (OK, \<lparr>bh_offset = offset, bh_size = n\<rparr>, input)))"

section \<open>Footer\<close>

record footer =
  ft_metaindex_handle :: block_handle
  ft_index_handle :: block_handle

definition kEncodedLength :: nat where "kEncodedLength = 2 * kMaxEncodedLength + 8"
definition kTableMagicNumber :: u64 where "kTableMagicNumber = 0xdb4775248b80fb57"

definition resize :: "bytes \<Rightarrow> nat \<Rightarrow> bytes" where
  "resize s n = take n s @ replicate (n - length s) 0"

definition Footer_EncodeTo :: "footer \<Rightarrow> bytes \<Rightarrow> bytes" where
  "Footer_EncodeTo f dst =
     (let dst = BlockHandle_EncodeTo (ft_metaindex_handle f) dst;
          dst = BlockHandle_EncodeTo (ft_index_handle f) dst;
          dst = resize dst (2 * kMaxEncodedLength);
          dst = PutFixed32 dst (ucast (kTableMagicNumber AND 0xffffffff))
      in PutFixed32 dst (ucast (drop_bit 32 kTableMagicNumber)))"

definition Footer_DecodeFrom :: "bytes \<Rightarrow> (status \<times> footer \<times> bytes) option" where
  "Footer_DecodeFrom input =
     (if length input < kEncodedLength then None
      else Some (
        let magic_ptr = drop (kEncodedLength - 8) input;
            magic_lo = DecodeFixed32 magic_ptr;
            magic_hi = DecodeFixed32 (drop 4 magic_ptr);
            magic = push_bit 32 (ucast magic_hi :: u64) OR ucast magic_lo;
            none = \<lparr>ft_metaindex_handle = new_BlockHandle, ft_index_handle = new_BlockHandle\<rparr>
        in if magic \<noteq> kTableMagicNumber
           then (Corruption (bytes_of ''not an sstable (bad magic number)''), none, input)
           else
             let (result, meta, input) = BlockHandle_DecodeFrom input
             in if \<not> ok result then (result, none\<lparr>ft_metaindex_handle := meta\<rparr>, input)
                else
                  let (result, idx, input) = BlockHandle_DecodeFrom input;
                      f = \<lparr>ft_metaindex_handle = meta, ft_index_handle = idx\<rparr>
                  in if \<not> ok result then (result, f, input) else (OK, f, drop 8 magic_ptr)))"

section \<open>Blocks with trailer\<close>

definition kNoCompression :: u8 where "kNoCompression = 0"
definition kSnappyCompression :: u8 where "kSnappyCompression = 1"
definition kBlockTrailerSize :: nat where "kBlockTrailerSize = 5"

text \<open>The build has no Snappy: compression, decompression and the length query fail.\<close>

definition Snappy_Compress :: "bytes \<Rightarrow> bytes option" where "Snappy_Compress input = None"
definition Snappy_GetUncompressedLength :: "bytes \<Rightarrow> nat option" where
  "Snappy_GetUncompressedLength input = None"
definition Snappy_Uncompress :: "bytes \<Rightarrow> bytes option" where "Snappy_Uncompress input = None"

record block_contents =
  bc_data :: bytes
  bc_cachable :: bool
  bc_heap_allocated :: bool

definition no_contents :: block_contents where
  "no_contents = \<lparr>bc_data = [], bc_cachable = False, bc_heap_allocated = False\<rparr>"

text \<open>\<open>None\<close> is a read outside of the buffer or the mapped region: only when a sum overflows 64 bits.\<close>

definition ReadBlock :: "random_file \<Rightarrow> bool \<Rightarrow> block_handle \<Rightarrow> (status \<times> block_contents) option" where
  "ReadBlock file verify_checksums handle =
     (let n = bh_size handle;
          total = n + word_of_nat kBlockTrailerSize
      in (case ra_Read file (bh_offset handle) total of
            None \<Rightarrow> None
          | Some (s, contents) \<Rightarrow>
              if \<not> ok s then Some (s, no_contents)
              else if length contents \<noteq> unat total
              then Some (Corruption (bytes_of ''truncated block read''), no_contents)
              else if length contents < unat n + kBlockTrailerSize then None
              else
                let crc = Unmask (DecodeFixed32 (drop (unat n + 1) contents));
                    actual = Value (take (unat n + 1) contents);
                    data = take (unat n) contents;
                    type = contents ! unat n
                in if verify_checksums \<and> actual \<noteq> crc
                   then Some (Corruption (bytes_of ''block checksum mismatch''), no_contents)
                   else if type = kNoCompression
                   then Some (OK, \<lparr>bc_data = data, bc_cachable = \<not> ra_mmapped file,
                                   bc_heap_allocated = \<not> ra_mmapped file\<rparr>)
                   else if type = kSnappyCompression then
                     (case Snappy_GetUncompressedLength data of
                        None \<Rightarrow> Some (Corruption (bytes_of ''corrupted compressed block contents''), no_contents)
                      | Some ulength \<Rightarrow>
                          (case Snappy_Uncompress data of
                             None \<Rightarrow> Some (Corruption (bytes_of ''corrupted compressed block contents''), no_contents)
                           | Some ubuf \<Rightarrow> Some (OK, \<lparr>bc_data = ubuf, bc_cachable = True, bc_heap_allocated = True\<rparr>)))
                   else Some (Corruption (bytes_of ''bad block type''), no_contents)))"

text \<open>What \<^verbatim>\<open>TableBuilder::WriteRawBlock\<close> appends behind the contents.\<close>

definition block_trailer :: "bytes \<Rightarrow> u8 \<Rightarrow> bytes" where
  "block_trailer block_contents type =
     (let crc = Value block_contents;
          crc = Extend crc [type]
      in type # EncodeFixed32 (Mask crc))"

section \<open>Handles and footers read back\<close>

lemma BlockHandle_round_trip:
  "BlockHandle_DecodeFrom (BlockHandle_EncodeTo h [] @ rest) = (OK, h, rest)"
  by (simp add: BlockHandle_DecodeFrom_def BlockHandle_EncodeTo_def PutVarint64_def vi64.dec_enc)

lemma BlockHandle_EncodeTo_append: "BlockHandle_EncodeTo h dst = dst @ BlockHandle_EncodeTo h []"
  by (simp add: BlockHandle_EncodeTo_def PutVarint64_def)

lemma length_EncodeVarint64: "length (EncodeVarint64 v) \<le> 10"
  using length_EncodeVarint64_bound [of v 10] unat_less_exp [of v] by (simp add: order_less_le_trans)

lemma length_BlockHandle: "length (BlockHandle_EncodeTo h []) \<le> kMaxEncodedLength"
  using length_EncodeVarint64 [of "bh_offset h"] length_EncodeVarint64 [of "bh_size h"]
  by (simp add: BlockHandle_EncodeTo_def PutVarint64_def kMaxEncodedLength_def)

lemma Footer_EncodeTo_eq:
  "\<exists>pad. Footer_EncodeTo f [] =
     BlockHandle_EncodeTo (ft_metaindex_handle f) [] @ BlockHandle_EncodeTo (ft_index_handle f) [] @ pad @
     EncodeFixed32 (ucast (kTableMagicNumber AND 0xffffffff)) @ EncodeFixed32 (ucast (drop_bit 32 kTableMagicNumber)) \<and>
     length (BlockHandle_EncodeTo (ft_metaindex_handle f) [] @ BlockHandle_EncodeTo (ft_index_handle f) [] @ pad) = 40"
proof -
  let ?h = "BlockHandle_EncodeTo (ft_metaindex_handle f) [] @ BlockHandle_EncodeTo (ft_index_handle f) []"
  have "length ?h \<le> 40"
    using length_BlockHandle [of "ft_metaindex_handle f"] length_BlockHandle [of "ft_index_handle f"]
    by (simp add: kMaxEncodedLength_def)
  then have "resize ?h 40 = ?h @ replicate (40 - length ?h) 0"
    by (simp add: resize_def)
  moreover have "BlockHandle_EncodeTo (ft_index_handle f) (BlockHandle_EncodeTo (ft_metaindex_handle f) []) = ?h"
    by (rule BlockHandle_EncodeTo_append)
  ultimately show ?thesis
    using \<open>length ?h \<le> 40\<close>
    by (intro exI [of _ "replicate (40 - length ?h) 0"])
      (simp add: Footer_EncodeTo_def kMaxEncodedLength_def PutFixed32_def)
qed

lemma length_Footer: "length (Footer_EncodeTo f []) = kEncodedLength"
  using Footer_EncodeTo_eq [of f] by (auto simp: kEncodedLength_def kMaxEncodedLength_def)

lemma Footer_round_trip: "Footer_DecodeFrom (Footer_EncodeTo f [] @ rest) = Some (OK, f, rest)"
proof -
  let ?m = "BlockHandle_EncodeTo (ft_metaindex_handle f) []" and ?i = "BlockHandle_EncodeTo (ft_index_handle f) []"
  let ?lo = "EncodeFixed32 (ucast (kTableMagicNumber AND 0xffffffff))"
  let ?hi = "EncodeFixed32 (ucast (drop_bit 32 kTableMagicNumber))"
  obtain pad where enc: "Footer_EncodeTo f [] = ?m @ ?i @ pad @ ?lo @ ?hi" and len: "length (?m @ ?i @ pad) = 40"
    using Footer_EncodeTo_eq by blast
  define input where "input = Footer_EncodeTo f [] @ rest"
  have "input = (?m @ ?i @ pad) @ ?lo @ ?hi @ rest" unfolding input_def enc by simp
  then have "drop 40 input = ?lo @ ?hi @ rest"
    using len by (metis append_eq_conv_conj)
  moreover have "push_bit 32 (ucast (ucast (drop_bit 32 kTableMagicNumber) :: u32) :: u64) OR
      ucast (ucast (kTableMagicNumber AND 0xffffffff) :: u32) = kTableMagicNumber"
    by (simp add: kTableMagicNumber_def)
  moreover have "BlockHandle_DecodeFrom input = (OK, ft_metaindex_handle f, ?i @ pad @ ?lo @ ?hi @ rest)"
    unfolding input_def enc using BlockHandle_round_trip by simp
  moreover have "48 \<le> length input"
    using length_Footer [of f] by (simp add: input_def kEncodedLength_def kMaxEncodedLength_def)
  ultimately have "Footer_DecodeFrom input = Some (OK, f, rest)"
    using BlockHandle_round_trip [of "ft_index_handle f"]
    by (simp add: Footer_DecodeFrom_def kEncodedLength_def kMaxEncodedLength_def)
  then show ?thesis by (simp add: input_def)
qed

section \<open>Blocks read back\<close>

lemma length_block_trailer [simp]: "length (block_trailer d t) = kBlockTrailerSize"
  by (simp add: block_trailer_def kBlockTrailerSize_def)

text \<open>A file that holds some bytes at an offset, and a kernel that does not refuse to read them.\<close>

definition file_holds :: "random_file \<Rightarrow> u64 \<Rightarrow> bytes \<Rightarrow> bool" where
  "file_holds f offset d \<longleftrightarrow>
     length (ra_data f) < 2 ^ 64 \<and> (\<exists>pre post. ra_data f = pre @ d @ post \<and> length pre = unat offset) \<and>
     (\<not> ra_mmapped f \<longrightarrow> ra_fails f offset (word_of_nat (length d)) = None)"

lemma ra_Read_holds:
  assumes "file_holds f offset d"
  shows "ra_Read f offset (word_of_nat (length d)) = Some (OK, d)"
proof -
  obtain pre post where d: "ra_data f = pre @ d @ post" "length pre = unat offset" "length (ra_data f) < 2 ^ 64"
    using assms by (auto simp: file_holds_def)
  have l: "length d < 2 ^ 64" using d by simp
  have "unat (offset + word_of_nat (length d)) = length pre + length d"
    using d l by (simp add: unat_word_ariths)
  moreover have "unat (word_of_nat (length (ra_data f)) :: u64) = length (ra_data f)"
    using d(3) by (simp add: unat_of_nat take_bit_nat_eq_self)
  ultimately have "\<not> offset + word_of_nat (length d) > word_of_nat (length (ra_data f))"
    using d(1) by (simp only: word_less_nat_alt) simp
  moreover have "unat (word_of_nat (length d) :: u64) = length d" using l by (simp add: unat_of_nat take_bit_nat_eq_self)
  ultimately show ?thesis
    using assms d l
    by (auto simp: ra_Read_def PosixMmapReadableFile_Read_def PosixRandomAccessFile_Read_def file_holds_def)
qed

lemma ReadBlock_holds:
  assumes "file_holds f offset (d @ t # EncodeFixed32 m)"
  shows "ReadBlock f verify \<lparr>bh_offset = offset, bh_size = word_of_nat (length d)\<rparr> =
    Some (if verify \<and> Value (d @ [t]) \<noteq> Unmask m then (Corruption (bytes_of ''block checksum mismatch''), no_contents)
          else if t = kNoCompression
          then (OK, \<lparr>bc_data = d, bc_cachable = \<not> ra_mmapped f, bc_heap_allocated = \<not> ra_mmapped f\<rparr>)
          else if t = kSnappyCompression
          then (Corruption (bytes_of ''corrupted compressed block contents''), no_contents)
          else (Corruption (bytes_of ''bad block type''), no_contents))"
proof -
  let ?c = "d @ t # EncodeFixed32 m"
  have "length (ra_data f) < 2 ^ 64" "length ?c \<le> length (ra_data f)"
    using assms by (auto simp: file_holds_def)
  then have l: "length d + 5 < 2 ^ 64" by simp
  have total: "word_of_nat (length d) + word_of_nat kBlockTrailerSize = (word_of_nat (length ?c) :: u64)"
    by (simp add: kBlockTrailerSize_def)
  have u: "unat (word_of_nat (length d) :: u64) = length d" "unat (word_of_nat (length ?c) :: u64) = length ?c"
    using l by (simp_all del: of_nat_add of_nat_Suc add: unat_of_nat take_bit_nat_eq_self)
  have v: "Value (take (length d + 1) ?c) = Value (d @ [t])" by simp
  have parts: "take (length d) ?c = d" "?c ! length d = t" "drop (length d + 1) ?c = EncodeFixed32 m"
    by simp_all
  have n: "\<not> length ?c < length d + kBlockTrailerSize" by (simp add: kBlockTrailerSize_def)
  show ?thesis
    unfolding ReadBlock_def block_handle.simps total ra_Read_holds [OF assms] Let_def option.case prod.case u v parts
      if_not_P [OF n]
    using DecodeFixed32_EncodeFixed32 [of m "[]"]
    by (simp add: Snappy_GetUncompressedLength_def)
qed

lemma word_of_nat_le_bound: "unat (word_of_nat n :: u64) \<le> n"
  by (simp add: unat_of_nat)

section \<open>Properties\<close>

text \<open>
  C34: A block written with its trailer reads back unchanged through either kind of file, with or
  without checksum verification; with verification, a block in which any one byte of the contents or
  the type was changed is rejected.
\<close>

theorem read_block_round_trip:
  assumes "file_holds f offset ((d @ block_trailer d kNoCompression)[i := b])" and "i \<le> length d"
  shows "(b = (d @ block_trailer d kNoCompression) ! i \<longrightarrow>
            ReadBlock f verify \<lparr>bh_offset = offset, bh_size = word_of_nat (length d)\<rparr> =
              Some (OK, \<lparr>bc_data = d, bc_cachable = \<not> ra_mmapped f, bc_heap_allocated = \<not> ra_mmapped f\<rparr>)) \<and>
         (b \<noteq> (d @ block_trailer d kNoCompression) ! i \<longrightarrow>
            ReadBlock f True \<lparr>bh_offset = offset, bh_size = word_of_nat (length d)\<rparr> =
              Some (Corruption (bytes_of ''block checksum mismatch''), no_contents))"
proof -
  let ?m = "Mask (Value (d @ [kNoCompression]))"
  define e where "e = (d @ [kNoCompression])[i := b]"
  have trailer: "block_trailer d kNoCompression = kNoCompression # EncodeFixed32 ?m"
    by (simp add: block_trailer_def Extend_Value)
  have e: "length e = length d + 1" by (simp add: e_def)
  then obtain d' t where dt: "e = d' @ [t]" "length d' = length d"
    by (metis add.right_neutral add_Suc_right length_append length_Suc_conv_rev One_nat_def add_right_cancel list.size(3,4))
  have "(d @ block_trailer d kNoCompression)[i := b] = e @ EncodeFixed32 ?m"
    using assms(2) by (simp add: trailer e_def list_update_append split: nat.splits)
  then have h: "file_holds f offset (d' @ t # EncodeFixed32 ?m)" using assms(1) dt by simp
  note r = ReadBlock_holds [OF h, unfolded dt(2)]
  have old: "(d @ block_trailer d kNoCompression) ! i = (d @ [kNoCompression]) ! i"
    using assms(2) by (simp add: trailer nth_append)
  have split: "d @ [kNoCompression] = take i (d @ [kNoCompression]) @ (d @ [kNoCompression]) ! i # drop (Suc i) (d @ [kNoCompression])"
    using assms(2) by (metis id_take_nth_drop length_append_singleton less_Suc_eq_le)
  have e': "e = take i (d @ [kNoCompression]) @ b # drop (Suc i) (d @ [kNoCompression])"
    using assms(2) unfolding e_def by (simp add: upd_conv_take_nth_drop)
  have v: "Value e = Value (d @ [kNoCompression]) \<longleftrightarrow> b = (d @ [kNoCompression]) ! i"
    using Value_one_byte split e' by metis
  have same: "d' = d \<and> t = kNoCompression" if "b = (d @ [kNoCompression]) ! i"
    using that dt by (simp add: e_def)
  show ?thesis
    unfolding old using r v same dt by (auto simp: kSnappyCompression_def)
qed

theorem read_block_round_trip_witness:
  "fst (the (ReadBlock \<lparr>ra_filename = [], ra_data = [7, 8] @ block_trailer [7, 8] 0, ra_mmapped = True,
      ra_fails = (\<lambda>_ _. None)\<rparr> True \<lparr>bh_offset = 0, bh_size = 2\<rparr>)) = OK"
proof -
  let ?f = "\<lparr>ra_filename = [], ra_data = [7, 8] @ block_trailer [7, 8] 0, ra_mmapped = True,
      ra_fails = (\<lambda>_ _. None)\<rparr>"
  have "file_holds ?f 0 (([7, 8] @ block_trailer [7, 8] kNoCompression)[0 := 7])"
    by (simp add: file_holds_def kNoCompression_def kBlockTrailerSize_def)
  from read_block_round_trip [OF this] show ?thesis
    by (simp add: kNoCompression_def)
qed

text \<open>Both fields were set; encoding a handle asserts it.\<close>

definition handle_set :: "block_handle \<Rightarrow> bool" where
  "handle_set h \<longleftrightarrow> bh_offset h \<noteq> - 1 \<and> bh_size h \<noteq> - 1"

text \<open>
  C35: A handle whose offset and size were set reads back, whatever follows it, and so does the footer of a table, which has 48 bytes;
  but the check of a block's size can be fooled by a handle in a damaged file: when its size is the largest number but four,
  size and trailer wrap to zero, the truncation check passes on an empty read, and the code
  goes on to read behind its buffer. With a mapped file an offset close to the largest number fools the check of
  the end in the same way. When offset, size and trailer do not wrap, every read stays inside.
\<close>

theorem footer_and_handle_bounds:
  assumes "handle_set h" and "handle_set (ft_metaindex_handle f)" and "handle_set (ft_index_handle f)"
  shows "Footer_DecodeFrom (Footer_EncodeTo f [] @ rest) = Some (OK, f, rest) \<and>
   length (Footer_EncodeTo f []) = kEncodedLength \<and>
   BlockHandle_DecodeFrom (BlockHandle_EncodeTo h [] @ rest) = (OK, h, rest) \<and>
   (unat (bh_offset h) + unat (bh_size h) + 5 < 2 ^ 64 \<longrightarrow> ReadBlock file verify h \<noteq> None) \<and>
   ReadBlock \<lparr>ra_filename = [], ra_data = d, ra_mmapped = False, ra_fails = (\<lambda>_ _. None)\<rparr> verify
     \<lparr>bh_offset = 0, bh_size = - 5\<rparr> = None \<and>
   ReadBlock \<lparr>ra_filename = [], ra_data = [b], ra_mmapped = True, ra_fails = (\<lambda>_ _. None)\<rparr> verify
     \<lparr>bh_offset = - 5, bh_size = 0\<rparr> = None"
proof (intro conjI impI)
  assume b: "unat (bh_offset h) + unat (bh_size h) + 5 < 2 ^ 64"
  then have u: "unat (bh_size h + word_of_nat kBlockTrailerSize) = unat (bh_size h) + kBlockTrailerSize"
    by (simp add: kBlockTrailerSize_def unat_word_ariths)
  have "ra_Read file (bh_offset h) (bh_size h + word_of_nat kBlockTrailerSize) \<noteq> None"
    using b u word_of_nat_le_bound [of "length (ra_data file)"]
    by (auto simp: ra_Read_def PosixMmapReadableFile_Read_def word_less_nat_alt unat_word_ariths kBlockTrailerSize_def not_less)
  then show "ReadBlock file verify h \<noteq> None"
    unfolding ReadBlock_def Let_def u by (auto simp: Snappy_GetUncompressedLength_def split: prod.splits)
qed (simp_all add: Footer_round_trip length_Footer BlockHandle_round_trip ReadBlock_def ra_Read_def
    PosixRandomAccessFile_Read_def PosixMmapReadableFile_Read_def kBlockTrailerSize_def)

theorem footer_and_handle_bounds_witness:
  "Footer_DecodeFrom (Footer_EncodeTo \<lparr>ft_metaindex_handle = \<lparr>bh_offset = 300, bh_size = 8\<rparr>, ft_index_handle = \<lparr>bh_offset = 313, bh_size = 20\<rparr>\<rparr> []) =
     Some (OK, \<lparr>ft_metaindex_handle = \<lparr>bh_offset = 300, bh_size = 8\<rparr>, ft_index_handle = \<lparr>bh_offset = 313, bh_size = 20\<rparr>\<rparr>, []) \<and>
   ReadBlock \<lparr>ra_filename = [], ra_data = [], ra_mmapped = False, ra_fails = (\<lambda>_ _. None)\<rparr> True
     \<lparr>bh_offset = 0, bh_size = 3\<rparr> \<noteq> None"
  using footer_and_handle_bounds
    [of "\<lparr>bh_offset = 0, bh_size = 3\<rparr>" "\<lparr>ft_metaindex_handle = \<lparr>bh_offset = 300, bh_size = 8\<rparr>, ft_index_handle = \<lparr>bh_offset = 313, bh_size = 20\<rparr>\<rparr>"
      "[]" "\<lparr>ra_filename = [], ra_data = [], ra_mmapped = False, ra_fails = (\<lambda>_ _. None)\<rparr>" True "[]"]
  by (simp add: handle_set_def word_less_nat_alt)

end
