(* ===== verification/Iterator.thy ===== *)
theory Iterator
  imports Comparator
begin

text \<open>
  The iterator interface of \<^verbatim>\<open>leveldb/iterator.h\<close>: the virtual methods as a record of functions,
  and the contract that blocks, two-level iterators and merging iterators share, a cursor over a
  list of entries sorted by key.
\<close>

section \<open>The interface\<close>

record 'i iter_ops =
  it_Valid :: "'i \<Rightarrow> bool"
  it_SeekToFirst :: "'i \<Rightarrow> 'i"
  it_SeekToLast :: "'i \<Rightarrow> 'i"
  it_Seek :: "'i \<Rightarrow> bytes \<Rightarrow> 'i"
  it_Next :: "'i \<Rightarrow> 'i"
  it_Prev :: "'i \<Rightarrow> 'i"
  it_key :: "'i \<Rightarrow> bytes"
  it_value :: "'i \<Rightarrow> bytes"
  it_status :: "'i \<Rightarrow> status"

text \<open>The entries an iterator passes from its position on, at most \<open>fuel\<close> of them.\<close>

fun it_collect :: "'i iter_ops \<Rightarrow> nat \<Rightarrow> 'i \<Rightarrow> (bytes \<times> bytes) list" where
  "it_collect ops 0 i = []"
| "it_collect ops (Suc fuel) i =
     (if it_Valid ops i then (it_key ops i, it_value ops i) # it_collect ops fuel (it_Next ops i) else [])"

fun it_collect_back :: "'i iter_ops \<Rightarrow> nat \<Rightarrow> 'i \<Rightarrow> (bytes \<times> bytes) list" where
  "it_collect_back ops 0 i = []"
| "it_collect_back ops (Suc fuel) i =
     (if it_Valid ops i then (it_key ops i, it_value ops i) # it_collect_back ops fuel (it_Prev ops i) else [])"

section \<open>Cleanup functions\<close>

text \<open>The list of registered functions in the order in which they run: the head node first.\<close>

fun RegisterCleanup :: "'c list \<Rightarrow> 'c \<Rightarrow> 'c list" where
  "RegisterCleanup [] f = [f]"
| "RegisterCleanup (hdl # nodes) f = hdl # f # nodes"

section \<open>The contract\<close>

text \<open>
  \<open>rep i es p\<close>: the iterator \<open>i\<close> stands at position \<open>p\<close> of the entries \<open>es\<close>; behind the last
  position (also after stepping back from the first entry) it is invalid.
\<close>

locale sorted_iterator = key_order compare valid
  for compare :: "bytes \<Rightarrow> bytes \<Rightarrow> int" and valid :: "bytes \<Rightarrow> bool" +
  fixes ops :: "'i iter_ops" and rep :: "'i \<Rightarrow> (bytes \<times> bytes) list \<Rightarrow> nat \<Rightarrow> bool"
  assumes rep_sorted: "rep i es p \<Longrightarrow> sorted_wrt (\<lambda>a b. compare (fst a) (fst b) < 0) es"
    and rep_valid: "rep i es p \<Longrightarrow> e \<in> set es \<Longrightarrow> valid (fst e)"
    and rep_pos: "rep i es p \<Longrightarrow> p \<le> length es"
    and Valid_rep: "rep i es p \<Longrightarrow> it_Valid ops i \<longleftrightarrow> p < length es"
    and key_rep: "rep i es p \<Longrightarrow> p < length es \<Longrightarrow> it_key ops i = fst (es ! p)"
    and value_rep: "rep i es p \<Longrightarrow> p < length es \<Longrightarrow> it_value ops i = snd (es ! p)"
    and status_rep: "rep i es p \<Longrightarrow> it_status ops i = OK"
    and SeekToFirst_rep: "rep i es p \<Longrightarrow> rep (it_SeekToFirst ops i) es 0"
    and SeekToLast_rep: "rep i es p \<Longrightarrow> rep (it_SeekToLast ops i) es (length es - 1)"
    and Next_rep: "rep i es p \<Longrightarrow> p < length es \<Longrightarrow> rep (it_Next ops i) es (p + 1)"
    and Prev_rep: "rep i es p \<Longrightarrow> p < length es \<Longrightarrow>
      rep (it_Prev ops i) es (if p = 0 then length es else p - 1)"
    and Seek_rep: "rep i es p \<Longrightarrow> valid t \<Longrightarrow>
      rep (it_Seek ops i t) es (length (takeWhile (\<lambda>e. compare (fst e) t < 0) es))"
begin

lemma collect_rep: "rep i es p \<Longrightarrow> length es - p \<le> fuel \<Longrightarrow> it_collect ops fuel i = drop p es"
proof (induction fuel arbitrary: i p)
  case 0
  then show ?case using rep_pos [OF 0(1)] by simp
next
  case (Suc fuel)
  show ?case
  proof (cases "p < length es")
    case True
    have "it_collect ops fuel (it_Next ops i) = drop (p + 1) es"
      using Suc.IH [OF Next_rep [OF Suc.prems(1) True]] Suc.prems(2) by simp
    then show ?thesis
      using True Valid_rep [OF Suc.prems(1)] key_rep [OF Suc.prems(1) True] value_rep [OF Suc.prems(1) True]
      by (simp add: Cons_nth_drop_Suc)
  qed (use Suc Valid_rep in simp)
qed

lemma collect_back_rep:
  "rep i es p \<Longrightarrow> p < length es \<Longrightarrow> p < fuel \<Longrightarrow> it_collect_back ops fuel i = rev (take (p + 1) es)"
proof (induction fuel arbitrary: i p)
  case (Suc fuel)
  note rep = Prev_rep [OF Suc.prems(1,2)]
  have cur: "it_key ops i = fst (es ! p)" "it_value ops i = snd (es ! p)" "it_Valid ops i"
    using Suc.prems Valid_rep key_rep value_rep by blast+
  show ?case
  proof (cases p)
    case 0
    then have "it_collect_back ops fuel (it_Prev ops i) = []"
      using rep Valid_rep [of "it_Prev ops i" es "length es"] by (cases fuel) simp_all
    then show ?thesis using cur 0 Suc.prems(2) by (cases es) simp_all
  next
    case (Suc q)
    then have "it_collect_back ops fuel (it_Prev ops i) = rev (take (q + 1) es)"
      using Suc.IH [of "it_Prev ops i" q] rep Suc.prems by simp
    then show ?thesis using cur Suc Suc.prems(2) by (simp add: take_Suc_conv_app_nth)
  qed
qed simp

text \<open>The entries before a target are a prefix.\<close>

lemma takeWhile_less_iff:
  assumes "sorted_wrt (\<lambda>a b. less (fst a) (fst b)) l" and "\<forall>e \<in> set l. valid (fst e)" and "valid t" and "i < length l"
  shows "i < length (takeWhile (\<lambda>e. less (fst e) t) l) \<longleftrightarrow> less (fst (l ! i)) t"
proof
  assume i: "i < length (takeWhile (\<lambda>e. less (fst e) t) l)"
  have "l ! i \<in> set (takeWhile (\<lambda>e. less (fst e) t) l)"
    using nth_mem [OF i] takeWhile_nth [OF i] by simp
  then show "less (fst (l ! i)) t" by (rule set_takeWhileD [THEN conjunct2])
next
  assume lt: "less (fst (l ! i)) t"
  show "i < length (takeWhile (\<lambda>e. less (fst e) t) l)"
  proof (rule ccontr)
    let ?n = "length (takeWhile (\<lambda>e. less (fst e) t) l)"
    assume "\<not> i < ?n"
    then have n: "?n < length l" "?n \<le> i" using assms(4) by simp_all
    then have "\<not> less (fst (l ! ?n)) t" using nth_length_takeWhile [of "\<lambda>e. less (fst e) t" l] by simp
    moreover have "l ! ?n = l ! i \<or> less (fst (l ! ?n)) (fst (l ! i))"
      using n assms(1,4) by (cases "?n = i") (simp_all add: sorted_wrt_iff_nth_less)
    moreover have v: "valid (fst (l ! ?n))" "valid (fst (l ! i))" using n(1) assms(2,4) by simp_all
    ultimately show False using lt less_trans [OF v assms(3)] by auto
  qed
qed

text \<open>Turning around after a seek.\<close>

lemma collect_back_from:
  assumes "rep i es p" and "valid t" and "it_Valid ops (it_Seek ops i t)"
  shows "it_collect_back ops (length es) (it_Prev ops (it_Seek ops i t)) = rev (takeWhile (\<lambda>e. compare (fst e) t < 0) es)"
proof -
  let ?n = "length (takeWhile (\<lambda>e. compare (fst e) t < 0) es)"
  note s = Seek_rep [OF assms(1,2)]
  have n: "?n < length es" using Valid_rep [OF s] assms(3) by simp
  note r = Prev_rep [OF s n]
  show ?thesis
  proof (cases "?n = 0")
    case True
    then have "\<not> it_Valid ops (it_Prev ops (it_Seek ops i t))" using Valid_rep [OF r] by simp
    then show ?thesis using True by (cases "length es") simp_all
  next
    case False
    then have "rep (it_Prev ops (it_Seek ops i t)) es (?n - 1)" using r by simp
    from collect_back_rep [OF this, of "length es"] n False
    show ?thesis using takeWhile_eq_take [of "\<lambda>e. compare (fst e) t < 0" es] by simp
  qed
qed

text \<open>All entries, in both directions; and the entries from a target on.\<close>

lemma collect_all: "rep i es p \<Longrightarrow> it_collect ops (length es) (it_SeekToFirst ops i) = es"
  using collect_rep [OF SeekToFirst_rep] by simp

lemma collect_all_back:
  assumes "rep i es p"
  shows "it_collect_back ops (length es) (it_SeekToLast ops i) = rev es"
proof (cases "es = []")
  case False
  then show ?thesis
    using collect_back_rep [OF SeekToLast_rep [OF assms], of "length es"] by simp
qed simp

lemma dropWhile_drop: "drop (length (takeWhile P xs)) xs = dropWhile P xs"
  by (simp add: dropWhile_eq_drop)

lemma collect_from:
  "rep i es p \<Longrightarrow> valid t \<Longrightarrow>
   it_collect ops (length es) (it_Seek ops i t) = dropWhile (\<lambda>e. compare (fst e) t < 0) es"
  using collect_rep [OF Seek_rep] by (simp add: dropWhile_drop)

lemma dropWhile_filter:
  assumes "rep i es p" and "valid t"
  shows "dropWhile (\<lambda>e. compare (fst e) t < 0) es = filter (\<lambda>e. \<not> compare (fst e) t < 0) es"
proof -
  have v: "\<forall>e \<in> set es. valid (fst e)" using rep_valid assms(1) by blast
  have "filter (\<lambda>e. \<not> compare (fst e) t < 0) es =
      filter (\<lambda>e. \<not> compare (fst e) t < 0) (takeWhile (\<lambda>e. compare (fst e) t < 0) es @
        dropWhile (\<lambda>e. compare (fst e) t < 0) es)" by (simp only: takeWhile_dropWhile_id)
  also have "\<dots> = filter (\<lambda>e. \<not> compare (fst e) t < 0) (dropWhile (\<lambda>e. compare (fst e) t < 0) es)"
    unfolding filter_append by (auto simp: filter_empty_conv dest: set_takeWhileD)
  also have "\<dots> = dropWhile (\<lambda>e. compare (fst e) t < 0) es"
  proof (rule filter_True, rule ballI)
    fix e
    assume e: "e \<in> set (dropWhile (\<lambda>e. compare (fst e) t < 0) es)"
    have "compare t (fst e) \<le> 0"
      using sorted_dropWhile_ge [OF rep_sorted [OF assms(1)] v assms(2) e] .
    moreover have "valid (fst e)" using v set_dropWhileD [OF e] by blast
    ultimately show "\<not> compare (fst e) t < 0" using not_less [of "fst e" t] assms(2) by simp
  qed
  finally show ?thesis by simp
qed

end

section \<open>IteratorWrapper\<close>

text \<open>
  \<^verbatim>\<open>table/iterator_wrapper.h\<close>: an iterator, perhaps none, with the cached results of \<^verbatim>\<open>Valid\<close> and
  \<^verbatim>\<open>key\<close>.
\<close>

record 'i wrapper =
  iw_iter :: "'i option"
  iw_valid :: bool
  iw_key :: bytes

definition iw_Update :: "'i iter_ops \<Rightarrow> 'i wrapper \<Rightarrow> 'i wrapper" where
  "iw_Update ops w =
     (let i = the (iw_iter w);
          w = w\<lparr>iw_valid := it_Valid ops i\<rparr>
      in if iw_valid w then w\<lparr>iw_key := it_key ops i\<rparr> else w)"

definition iw_Set :: "'i iter_ops \<Rightarrow> 'i option \<Rightarrow> 'i wrapper \<Rightarrow> 'i wrapper" where
  "iw_Set ops i w =
     (let w = w\<lparr>iw_iter := i\<rparr>
      in case i of None \<Rightarrow> w\<lparr>iw_valid := False\<rparr> | Some _ \<Rightarrow> iw_Update ops w)"

definition new_wrapper :: "'i iter_ops \<Rightarrow> 'i option \<Rightarrow> 'i wrapper" where
  "new_wrapper ops i = iw_Set ops i \<lparr>iw_iter = None, iw_valid = False, iw_key = []\<rparr>"

definition iw_value :: "'i iter_ops \<Rightarrow> 'i wrapper \<Rightarrow> bytes" where
  "iw_value ops w = it_value ops (the (iw_iter w))"

definition iw_status :: "'i iter_ops \<Rightarrow> 'i wrapper \<Rightarrow> status" where
  "iw_status ops w = it_status ops (the (iw_iter w))"

definition iw_Next :: "'i iter_ops \<Rightarrow> 'i wrapper \<Rightarrow> 'i wrapper" where
  "iw_Next ops w = iw_Update ops (w\<lparr>iw_iter := Some (it_Next ops (the (iw_iter w)))\<rparr>)"

definition iw_Prev :: "'i iter_ops \<Rightarrow> 'i wrapper \<Rightarrow> 'i wrapper" where
  "iw_Prev ops w = iw_Update ops (w\<lparr>iw_iter := Some (it_Prev ops (the (iw_iter w)))\<rparr>)"

definition iw_Seek :: "'i iter_ops \<Rightarrow> bytes \<Rightarrow> 'i wrapper \<Rightarrow> 'i wrapper" where
  "iw_Seek ops k w = iw_Update ops (w\<lparr>iw_iter := Some (it_Seek ops (the (iw_iter w)) k)\<rparr>)"

definition iw_SeekToFirst :: "'i iter_ops \<Rightarrow> 'i wrapper \<Rightarrow> 'i wrapper" where
  "iw_SeekToFirst ops w = iw_Update ops (w\<lparr>iw_iter := Some (it_SeekToFirst ops (the (iw_iter w)))\<rparr>)"

definition iw_SeekToLast :: "'i iter_ops \<Rightarrow> 'i wrapper \<Rightarrow> 'i wrapper" where
  "iw_SeekToLast ops w = iw_Update ops (w\<lparr>iw_iter := Some (it_SeekToLast ops (the (iw_iter w)))\<rparr>)"

context sorted_iterator
begin

text \<open>A wrapper is at a position when its iterator is and its cache is up to date.\<close>

definition wrep :: "'i wrapper \<Rightarrow> (bytes \<times> bytes) list \<Rightarrow> nat \<Rightarrow> bool" where
  "wrep w es p \<longleftrightarrow>
     (\<exists>i. iw_iter w = Some i \<and> rep i es p \<and> iw_valid w = (p < length es) \<and>
          (p < length es \<longrightarrow> iw_key w = fst (es ! p)))"

lemma wrep_Update: "iw_iter w = Some i \<Longrightarrow> rep i es p \<Longrightarrow> wrep (iw_Update ops w) es p"
  using Valid_rep [of i es p] key_rep [of i es p] by (auto simp: wrep_def iw_Update_def Let_def)

lemma wrep_new: "rep i es p \<Longrightarrow> wrep (new_wrapper ops (Some i)) es p"
  by (simp add: new_wrapper_def iw_Set_def wrep_Update)

lemma wrep_ops:
  assumes "wrep w es p"
  shows "p \<le> length es" and "iw_valid w \<longleftrightarrow> p < length es" and "p < length es \<Longrightarrow> iw_key w = fst (es ! p)"
    and "p < length es \<Longrightarrow> iw_value ops w = snd (es ! p)" and "iw_status ops w = OK"
    and "wrep (iw_SeekToFirst ops w) es 0" and "wrep (iw_SeekToLast ops w) es (length es - 1)"
    and "p < length es \<Longrightarrow> wrep (iw_Next ops w) es (p + 1)"
    and "p < length es \<Longrightarrow> wrep (iw_Prev ops w) es (if p = 0 then length es else p - 1)"
    and "valid t \<Longrightarrow> wrep (iw_Seek ops t w) es (length (takeWhile (\<lambda>e. less (fst e) t) es))"
    and "sorted_wrt (\<lambda>a b. less (fst a) (fst b)) es" and "e \<in> set es \<Longrightarrow> valid (fst e)"
proof -
  obtain i where i: "iw_iter w = Some i" "rep i es p" "iw_valid w \<longleftrightarrow> p < length es"
    "p < length es \<longrightarrow> iw_key w = fst (es ! p)"
    using assms by (auto simp: wrep_def)
  show "p \<le> length es" "iw_valid w \<longleftrightarrow> p < length es" "p < length es \<Longrightarrow> iw_key w = fst (es ! p)"
    "p < length es \<Longrightarrow> iw_value ops w = snd (es ! p)" "iw_status ops w = OK"
    using i rep_pos value_rep status_rep by (auto simp: iw_value_def iw_status_def)
  show "wrep (iw_SeekToFirst ops w) es 0" "wrep (iw_SeekToLast ops w) es (length es - 1)"
    "p < length es \<Longrightarrow> wrep (iw_Next ops w) es (p + 1)"
    "p < length es \<Longrightarrow> wrep (iw_Prev ops w) es (if p = 0 then length es else p - 1)"
    "valid t \<Longrightarrow> wrep (iw_Seek ops t w) es (length (takeWhile (\<lambda>e. less (fst e) t) es))"
    unfolding iw_SeekToFirst_def iw_SeekToLast_def iw_Next_def iw_Prev_def iw_Seek_def i(1) option.sel
    by (rule wrep_Update, simp, rule SeekToFirst_rep SeekToLast_rep Next_rep Prev_rep Seek_rep, rule i(2), assumption?)+
  show "sorted_wrt (\<lambda>a b. less (fst a) (fst b)) es" "e \<in> set es \<Longrightarrow> valid (fst e)"
    using i(2) rep_sorted rep_valid by blast+
qed

end

section \<open>Empty iterators\<close>

record empty_iterator =
  ei_status :: status

definition NewErrorIterator :: "status \<Rightarrow> empty_iterator" where
  "NewErrorIterator s = \<lparr>ei_status = s\<rparr>"

definition NewEmptyIterator :: empty_iterator where
  "NewEmptyIterator = NewErrorIterator OK"

text \<open>\<^verbatim>\<open>Next\<close> and \<^verbatim>\<open>Prev\<close> fail an assertion; a key or value read here is empty.\<close>

definition empty_iter_ops :: "empty_iterator iter_ops" where
  "empty_iter_ops =
     \<lparr>it_Valid = (\<lambda>i. False), it_SeekToFirst = (\<lambda>i. i), it_SeekToLast = (\<lambda>i. i), it_Seek = (\<lambda>i target. i),
      it_Next = (\<lambda>i. i), it_Prev = (\<lambda>i. i), it_key = (\<lambda>i. []), it_value = (\<lambda>i. []), it_status = ei_status\<rparr>"

interpretation empty_iter: sorted_iterator slice_compare "\<lambda>_. True" empty_iter_ops
  "\<lambda>i es p. i = NewEmptyIterator \<and> es = [] \<and> p = 0"
proof unfold_locales
  fix a b :: bytes
  show "sgn (slice_compare b a) = - sgn (slice_compare a b)"
    using slice_compare_swap [of a b] by (simp add: sgn_if)
qed (auto simp: empty_iter_ops_def NewEmptyIterator_def NewErrorIterator_def intro: slice_compare_trans)

end
