(* ===== verification/Block.thy ===== *)
theory Block
  imports Iterator Coding
begin

text \<open>
  Blocks of prefix-compressed entries: \<^verbatim>\<open>table/block_builder.cc\<close> writes them, \<^verbatim>\<open>table/block.cc\<close>
  reads them with an iterator that searches the restart points. Offsets into a block are natural
  numbers; the code keeps them in 32 bits, which suffices for the blocks of less than 4 GiB that
  the theorems are about.
\<close>

section \<open>Builder\<close>

record block_builder =
  bb_interval :: nat
  bb_buffer :: bytes
  bb_restarts :: "u32 list"
  bb_counter :: nat
  bb_finished :: bool
  bb_last_key :: bytes

definition new_BlockBuilder :: "nat \<Rightarrow> block_builder" where
  "new_BlockBuilder interval =
     \<lparr>bb_interval = interval, bb_buffer = [], bb_restarts = [0], bb_counter = 0, bb_finished = False,
      bb_last_key = []\<rparr>"

definition bb_Reset :: "block_builder \<Rightarrow> block_builder" where
  "bb_Reset b = b\<lparr>bb_buffer := [], bb_restarts := [0], bb_counter := 0, bb_finished := False,
                  bb_last_key := []\<rparr>"

definition bb_CurrentSizeEstimate :: "block_builder \<Rightarrow> nat" where
  "bb_CurrentSizeEstimate b = length (bb_buffer b) + length (bb_restarts b) * 4 + 4"

definition bb_empty :: "block_builder \<Rightarrow> bool" where
  "bb_empty b = (bb_buffer b = [])"

definition bb_Finish :: "block_builder \<Rightarrow> bytes \<times> block_builder" where
  "bb_Finish b =
     (let buffer = fold (\<lambda>r buffer. PutFixed32 buffer r) (bb_restarts b) (bb_buffer b);
          buffer = PutFixed32 buffer (word_of_nat (length (bb_restarts b)))
      in (buffer, b\<lparr>bb_buffer := buffer, bb_finished := True\<rparr>))"

text \<open>The length of the common prefix of the last key and the new one.\<close>

fun shared_prefix :: "bytes \<Rightarrow> bytes \<Rightarrow> nat" where
  "shared_prefix (x # last_key_piece) (y # key) = (if x = y then Suc (shared_prefix last_key_piece key) else 0)"
| "shared_prefix last_key_piece key = 0"

definition bb_Add :: "bytes \<Rightarrow> bytes \<Rightarrow> block_builder \<Rightarrow> block_builder" where
  "bb_Add key val b =
     (let (shared, b) =
            (if bb_counter b < bb_interval b then (shared_prefix (bb_last_key b) key, b)
             else (0, b\<lparr>bb_restarts := bb_restarts b @ [word_of_nat (length (bb_buffer b))], bb_counter := 0\<rparr>));
          non_shared = length key - shared;
          buffer = PutVarint32 (bb_buffer b) (word_of_nat shared);
          buffer = PutVarint32 buffer (word_of_nat non_shared);
          buffer = PutVarint32 buffer (word_of_nat (length val));
          buffer = buffer @ drop shared key;
          buffer = buffer @ val
      in b\<lparr>bb_buffer := buffer, bb_last_key := take shared (bb_last_key b) @ drop shared key,
           bb_counter := bb_counter b + 1\<rparr>)"

text \<open>The size estimate is the length of the finished block, and an entry adds a bounded amount.\<close>

lemma length_fold_PutFixed32: "length (fold (\<lambda>r buffer. PutFixed32 buffer r) rs buf) = length buf + 4 * length rs"
  by (induction rs arbitrary: buf) (simp_all add: PutFixed32_def)

lemma length_bb_Finish: "length (fst (bb_Finish b)) = bb_CurrentSizeEstimate b"
proof -
  have "length (PutFixed32 buf w) = length buf + 4" for buf w by (simp add: PutFixed32_def)
  then show ?thesis unfolding bb_Finish_def Let_def fst_conv by (simp add: length_fold_PutFixed32 bb_CurrentSizeEstimate_def)
qed

lemma length_EncodeVarint32_bound: "length (EncodeVarint32 v) \<le> 5"
  by (simp add: EncodeVarint32_def)

lemma size_estimate_Add:
  "bb_CurrentSizeEstimate (bb_Add k v b) \<le> bb_CurrentSizeEstimate b + length k + length v + 19"
  using length_EncodeVarint32_bound [of "word_of_nat (length v)"] length_EncodeVarint32_bound [of 0]
    length_EncodeVarint32_bound [of "word_of_nat (length k)"]
    length_EncodeVarint32_bound [of "word_of_nat (shared_prefix (bb_last_key b) k)"]
    length_EncodeVarint32_bound [of "word_of_nat (length k - shared_prefix (bb_last_key b) k)"]
  by (auto simp: bb_Add_def Let_def PutVarint32_def bb_CurrentSizeEstimate_def)

section \<open>Block\<close>

record block =
  blk_data :: bytes
  blk_size :: nat
  blk_restart_offset :: nat

definition NumRestarts :: "block \<Rightarrow> nat" where
  "NumRestarts b = unat (DecodeFixed32 (drop (blk_size b - 4) (blk_data b)))"

definition new_Block :: "bytes \<Rightarrow> block" where
  "new_Block contents =
     (let b = \<lparr>blk_data = contents, blk_size = length contents, blk_restart_offset = 0\<rparr>
      in if blk_size b < 4 then b\<lparr>blk_size := 0\<rparr>
         else
           let max_restarts_allowed = (blk_size b - 4) div 4
           in if NumRestarts b > max_restarts_allowed then b\<lparr>blk_size := 0\<rparr>
              else b\<lparr>blk_restart_offset := blk_size b - (1 + NumRestarts b) * 4\<rparr>)"

text \<open>
  The header of the entry at the front of \<open>p\<close>, which ends at the limit: the three lengths and the
  bytes behind them.
\<close>

definition DecodeEntry :: "bytes \<Rightarrow> (u32 \<times> u32 \<times> u32 \<times> bytes) option" where
  "DecodeEntry p =
     (if length p < 3 then None
      else
        let header =
              (if ((ucast (p ! 0) :: u32) OR ucast (p ! 1) OR ucast (p ! 2)) < 128
               then Some (ucast (p ! 0), ucast (p ! 1), ucast (p ! 2), drop 3 p)
               else (case GetVarint32Ptr p of None \<Rightarrow> None
                 | Some (shared, p) \<Rightarrow> (case GetVarint32Ptr p of None \<Rightarrow> None
                 | Some (non_shared, p) \<Rightarrow> (case GetVarint32Ptr p of None \<Rightarrow> None
                 | Some (value_length, p) \<Rightarrow> Some (shared, non_shared, value_length, p)))))
        in case header of
             None \<Rightarrow> None
           | Some (shared, non_shared, value_length, p) \<Rightarrow>
               if word_of_nat (length p) < non_shared + value_length then None
               else Some (shared, non_shared, value_length, p))"

section \<open>Iterator\<close>

text \<open>\<^verbatim>\<open>value_\<close> is an offset into the data and a length.\<close>

record block_iter =
  bi_data :: bytes
  bi_restarts :: nat
  bi_num_restarts :: nat
  bi_current :: nat
  bi_restart_index :: nat
  bi_key :: bytes
  bi_value_offset :: nat
  bi_value_length :: nat
  bi_status :: status

definition new_block_iter :: "bytes \<Rightarrow> nat \<Rightarrow> nat \<Rightarrow> block_iter" where
  "new_block_iter data restarts num_restarts =
     \<lparr>bi_data = data, bi_restarts = restarts, bi_num_restarts = num_restarts, bi_current = restarts,
      bi_restart_index = num_restarts, bi_key = [], bi_value_offset = 0, bi_value_length = 0,
      bi_status = OK\<rparr>"

definition NextEntryOffset :: "block_iter \<Rightarrow> nat" where
  "NextEntryOffset it = bi_value_offset it + bi_value_length it"

definition GetRestartPoint :: "block_iter \<Rightarrow> nat \<Rightarrow> nat" where
  "GetRestartPoint it index = unat (DecodeFixed32 (drop (bi_restarts it + index * 4) (bi_data it)))"

definition SeekToRestartPoint :: "nat \<Rightarrow> block_iter \<Rightarrow> block_iter" where
  "SeekToRestartPoint index it =
     it\<lparr>bi_key := [], bi_restart_index := index, bi_value_offset := GetRestartPoint it index,
        bi_value_length := 0\<rparr>"

definition bi_Valid :: "block_iter \<Rightarrow> bool" where
  "bi_Valid it = (bi_current it < bi_restarts it)"

definition bi_value :: "block_iter \<Rightarrow> bytes" where
  "bi_value it = take (bi_value_length it) (drop (bi_value_offset it) (bi_data it))"

definition CorruptionError :: "block_iter \<Rightarrow> block_iter" where
  "CorruptionError it =
     it\<lparr>bi_current := bi_restarts it, bi_restart_index := bi_num_restarts it,
        bi_status := Corruption (bytes_of ''bad entry in block''), bi_key := [],
        bi_value_offset := 0, bi_value_length := 0\<rparr>"

function advance_restart_index :: "block_iter \<Rightarrow> block_iter" where
  "advance_restart_index it =
     (if bi_restart_index it + 1 < bi_num_restarts it \<and>
         GetRestartPoint it (bi_restart_index it + 1) < bi_current it
      then advance_restart_index (it\<lparr>bi_restart_index := bi_restart_index it + 1\<rparr>) else it)"
  by pat_completeness auto
termination
  by (relation "measure (\<lambda>it. bi_num_restarts it - bi_restart_index it)") auto

declare advance_restart_index.simps [simp del]

text \<open>
  A length that wraps around in \<open>DecodeEntry\<close> lets the code read behind the block; here such a read
  ends at the end of the data.
\<close>

definition ParseNextKey :: "block_iter \<Rightarrow> bool \<times> block_iter" where
  "ParseNextKey it =
     (let it = it\<lparr>bi_current := NextEntryOffset it\<rparr>
      in if bi_current it \<ge> bi_restarts it
         then (False, it\<lparr>bi_current := bi_restarts it, bi_restart_index := bi_num_restarts it\<rparr>)
         else
           let limit = take (bi_restarts it) (bi_data it)
           in case DecodeEntry (drop (bi_current it) limit) of
                None \<Rightarrow> (False, CorruptionError it)
              | Some (shared, non_shared, value_length, p) \<Rightarrow>
                  if length (bi_key it) < unat shared then (False, CorruptionError it)
                  else (True, advance_restart_index
                    (it\<lparr>bi_key := take (unat shared) (bi_key it) @ take (unat non_shared) p,
                        bi_value_offset := length limit - length p + unat non_shared,
                        bi_value_length := unat value_length\<rparr>)))"

lemma advance_restart_index_fields [simp]:
  "bi_data (advance_restart_index it) = bi_data it"
  "bi_restarts (advance_restart_index it) = bi_restarts it"
  "bi_num_restarts (advance_restart_index it) = bi_num_restarts it"
  "bi_current (advance_restart_index it) = bi_current it"
  "bi_key (advance_restart_index it) = bi_key it"
  "bi_value_offset (advance_restart_index it) = bi_value_offset it"
  "bi_value_length (advance_restart_index it) = bi_value_length it"
  "bi_status (advance_restart_index it) = bi_status it"
  by (induction it rule: advance_restart_index.induct; subst advance_restart_index.simps; simp)+

lemma DecodeEntry_shorter:
  "DecodeEntry p = Some (shared, non_shared, value_length, r) \<Longrightarrow> length r + 3 \<le> length p"
  by (auto simp: DecodeEntry_def Let_def split: if_splits option.splits
      dest!: vi32.dec_shorter [unfolded GetVarint32_def])

lemma ParseNextKey_progress:
  assumes "ParseNextKey it = (True, it')"
  shows "bi_restarts it' = bi_restarts it \<and> NextEntryOffset it < bi_restarts it \<and>
         NextEntryOffset it < NextEntryOffset it'"
  using assms unfolding ParseNextKey_def
  by (auto simp: Let_def NextEntryOffset_def split: if_splits option.splits dest!: DecodeEntry_shorter)

text \<open>Parsing forward until an entry ends at the given offset, or no entry is left.\<close>

function parse_until :: "nat \<Rightarrow> block_iter \<Rightarrow> block_iter" where
  "parse_until original it =
     (let (parsed, it) = ParseNextKey it
      in if parsed \<and> NextEntryOffset it < original then parse_until original it else it)"
  by pat_completeness auto
termination
  by (relation "measure (\<lambda>(original, it). bi_restarts it - NextEntryOffset it)")
    (auto dest!: ParseNextKey_progress [OF sym])

declare parse_until.simps [simp del]

text \<open>The restart point before the current entry; \<open>None\<close> when there is none.\<close>

fun restart_before :: "block_iter \<Rightarrow> nat \<Rightarrow> nat \<Rightarrow> nat option" where
  "restart_before it original 0 = (if GetRestartPoint it 0 \<ge> original then None else Some 0)"
| "restart_before it original (Suc index) =
     (if GetRestartPoint it (Suc index) \<ge> original then restart_before it original index else Some (Suc index))"

definition bi_Next :: "block_iter \<Rightarrow> block_iter" where
  "bi_Next it = snd (ParseNextKey it)"

definition bi_Prev :: "block_iter \<Rightarrow> block_iter" where
  "bi_Prev it =
     (let original = bi_current it
      in case restart_before it original (bi_restart_index it) of
           None \<Rightarrow> it\<lparr>bi_current := bi_restarts it, bi_restart_index := bi_num_restarts it\<rparr>
         | Some index \<Rightarrow> parse_until original (SeekToRestartPoint index it))"

definition bi_SeekToFirst :: "block_iter \<Rightarrow> block_iter" where
  "bi_SeekToFirst it = snd (ParseNextKey (SeekToRestartPoint 0 it))"

definition bi_SeekToLast :: "block_iter \<Rightarrow> block_iter" where
  "bi_SeekToLast it = parse_until (bi_restarts it) (SeekToRestartPoint (bi_num_restarts it - 1) it)"

text \<open>The binary search over the restart points; \<open>None\<close> when it meets a corrupted entry.\<close>

function search_restarts :: "comparator \<Rightarrow> block_iter \<Rightarrow> bytes \<Rightarrow> nat \<Rightarrow> nat \<Rightarrow> nat option" where
  "search_restarts cmp it target left right =
     (if left < right then
        let mid = (left + right + 1) div 2;
            region_offset = GetRestartPoint it mid
        in case DecodeEntry (drop region_offset (take (bi_restarts it) (bi_data it))) of
             None \<Rightarrow> None
           | Some (shared, non_shared, value_length, key_ptr) \<Rightarrow>
               if shared \<noteq> 0 then None
               else if cmp_Compare cmp (take (unat non_shared) key_ptr) target < 0
               then search_restarts cmp it target mid right
               else search_restarts cmp it target left (mid - 1)
      else Some left)"
  by pat_completeness auto
termination
  by (relation "measure (\<lambda>(cmp, it, target, left, right). right - left)") auto

declare search_restarts.simps [simp del]

function linear_search :: "comparator \<Rightarrow> bytes \<Rightarrow> block_iter \<Rightarrow> block_iter" where
  "linear_search cmp target it =
     (let (parsed, it) = ParseNextKey it
      in if \<not> parsed then it
         else if cmp_Compare cmp (bi_key it) target \<ge> 0 then it
         else linear_search cmp target it)"
  by pat_completeness auto
termination
  by (relation "measure (\<lambda>(cmp, target, it). bi_restarts it - NextEntryOffset it)")
    (auto dest!: ParseNextKey_progress [OF sym])

declare linear_search.simps [simp del]

definition bi_Seek :: "comparator \<Rightarrow> block_iter \<Rightarrow> bytes \<Rightarrow> block_iter" where
  "bi_Seek cmp it target =
     (let current_key_compare = (if bi_Valid it then cmp_Compare cmp (bi_key it) target else 0)
      in if bi_Valid it \<and> current_key_compare = 0 then it
         else
           let left = (if current_key_compare < 0 then bi_restart_index it else 0);
               right = (if current_key_compare > 0 then bi_restart_index it else bi_num_restarts it - 1)
           in case search_restarts cmp it target left right of
                None \<Rightarrow> CorruptionError it
              | Some left \<Rightarrow>
                  let skip_seek = (left = bi_restart_index it \<and> current_key_compare < 0);
                      it = (if skip_seek then it else SeekToRestartPoint left it)
                  in linear_search cmp target it)"

text \<open>The virtual methods, and the three kinds of iterators a block can give out.\<close>

definition block_iter_ops :: "comparator \<Rightarrow> block_iter iter_ops" where
  "block_iter_ops cmp =
     \<lparr>it_Valid = bi_Valid, it_SeekToFirst = bi_SeekToFirst, it_SeekToLast = bi_SeekToLast,
      it_Seek = bi_Seek cmp, it_Next = bi_Next, it_Prev = bi_Prev, it_key = bi_key, it_value = bi_value,
      it_status = bi_status\<rparr>"

definition blk_NewIterator :: "block \<Rightarrow> empty_iterator + block_iter" where
  "blk_NewIterator b =
     (if blk_size b < 4 then Inl (NewErrorIterator (Corruption (bytes_of ''bad block contents'')))
      else
        let num_restarts = NumRestarts b
        in if num_restarts = 0 then Inl NewEmptyIterator
           else Inr (new_block_iter (blk_data b) (blk_restart_offset b) num_restarts))"

section \<open>Entries decode\<close>

lemma less_128_bits: "(x :: 'a :: len word) < 128 \<longleftrightarrow> (\<forall>n \<ge> 7. \<not> bit x n)" if "7 < LENGTH('a)"
proof -
  have "(2 :: nat) ^ 7 < 2 ^ LENGTH('a)" using that by (intro power_strict_increasing) auto
  then have "unat (128 :: 'a word) = 128"
    using unat_word_of_nat_less [of 128, where 'a = 'a] by simp
  then have "x < 128 \<longleftrightarrow> unat x < 2 ^ 7" by (simp only: word_less_nat_alt) simp
  also have "\<dots> \<longleftrightarrow> take_bit 7 (unat x) = unat x" by (simp only: take_bit_nat_eq_self_iff)
  also have "\<dots> \<longleftrightarrow> take_bit 7 x = x"
    by (simp add: word_unat_eq_iff unsigned_take_bit_eq)
  also have "\<dots> \<longleftrightarrow> (\<forall>n \<ge> 7. \<not> bit x n)"
  proof
    assume eq: "take_bit 7 x = x"
    show "\<forall>n \<ge> 7. \<not> bit x n"
    proof (intro allI impI)
      fix n :: nat
      assume "7 \<le> n"
      then have "\<not> bit (take_bit 7 x) n" by (simp add: bit_take_bit_iff)
      then show "\<not> bit x n" unfolding eq .
    qed
  next
    assume "\<forall>n \<ge> 7. \<not> bit x n"
    then show "take_bit 7 x = x" by (intro bit_word_eqI) (auto simp: bit_take_bit_iff not_le)
  qed
  finally show ?thesis .
qed

lemma byte_less_128: "(b :: u8) < 128 \<longleftrightarrow> \<not> bit b 7"
proof -
  have "n = 7" if "7 \<le> n" "bit b n" for n using bit_u8_less [OF that(2)] that(1) by simp
  then show ?thesis using less_128_bits [of b] by auto
qed

lemma byte_bit_7: "7 \<le> n \<Longrightarrow> bit (b :: u8) n \<Longrightarrow> bit b 7"
  using bit_u8_less [of b n] by (cases "n = 7") auto

lemma GetVarint32Ptr_byte:
  assumes "b < 128"
  shows "GetVarint32Ptr (b # p) = Some (ucast b, p)"
proof -
  have "\<not> bit b 7" using assms by (simp only: byte_less_128 simp_thms)
  then have "(ucast b :: u32) AND 128 = 0"
    unfolding exp7 by (intro bit_word_eqI) (auto simp: bit_simps simp del: push_bit_of_1)
  then show ?thesis by (simp add: GetVarint32Ptr_def)
qed

text \<open>The fast path computes what the three varints would.\<close>

definition decode_lengths :: "bytes \<Rightarrow> (u32 \<times> u32 \<times> u32 \<times> bytes) option" where
  "decode_lengths p =
     (case GetVarint32Ptr p of None \<Rightarrow> None
      | Some (shared, p) \<Rightarrow> (case GetVarint32Ptr p of None \<Rightarrow> None
      | Some (non_shared, p) \<Rightarrow> (case GetVarint32Ptr p of None \<Rightarrow> None
      | Some (value_length, p) \<Rightarrow> Some (shared, non_shared, value_length, p))))"

lemma or_bytes_small:
  fixes a b c :: u8
  shows "((ucast a :: u32) OR ucast b OR ucast c) < 128 \<longleftrightarrow> a < 128 \<and> b < 128 \<and> c < 128"
proof -
  have "((ucast a :: u32) OR ucast b OR ucast c) < 128 \<longleftrightarrow>
      (\<forall>n \<ge> 7. \<not> bit ((ucast a :: u32) OR ucast b OR ucast c) n)"
    by (rule less_128_bits) simp
  then show ?thesis
    unfolding byte_less_128 by (auto simp: bit_simps dest: byte_bit_7)
qed

lemma DecodeEntry_eq:
  assumes "3 \<le> length p"
  shows "DecodeEntry p =
    (case decode_lengths p of
       None \<Rightarrow> None
     | Some (shared, non_shared, value_length, r) \<Rightarrow>
         if word_of_nat (length r) < non_shared + value_length then None
         else Some (shared, non_shared, value_length, r))"
proof -
  obtain a b c r where p: "p = a # b # c # r"
    using assms by (metis Suc_le_length_iff numeral_3_eq_3)
  show ?thesis
  proof (cases "a < 128 \<and> b < 128 \<and> c < 128")
    case True
    then show ?thesis
      by (simp add: DecodeEntry_def p or_bytes_small decode_lengths_def GetVarint32Ptr_byte)
  next
    case False
    then have "\<not> ((ucast (p ! 0) :: u32) OR ucast (p ! 1) OR ucast (p ! 2)) < 128"
      using p or_bytes_small [of a b c] by simp
    then show ?thesis
      using assms unfolding DecodeEntry_def decode_lengths_def by (simp add: Let_def)
  qed
qed

end
