(* ===== verification/BlockIter.thy ===== *)
theory BlockIter
  imports Block
begin

text \<open>
  The layout of a finished block, and the block iterator as a cursor over its entries: each
  operation of the iterator against the list of entries, for any comparator.
\<close>

section \<open>Layout\<close>

text \<open>An entry with the number of bytes it shares with the key before it.\<close>

type_synonym bentry = "nat \<times> bytes \<times> bytes"

fun enc_entry :: "bentry \<Rightarrow> bytes" where
  "enc_entry (s, k, v) =
     EncodeVarint32 (word_of_nat s) @ EncodeVarint32 (word_of_nat (length k - s)) @
     EncodeVarint32 (word_of_nat (length v)) @ drop s k @ v"

definition off :: "bentry list \<Rightarrow> nat \<Rightarrow> nat" where
  "off ents i = length (concat (map enc_entry (take i ents)))"

text \<open>Each entry's shared bytes are those of the key before it.\<close>

fun chain :: "bytes \<Rightarrow> bentry list \<Rightarrow> bool" where
  "chain prev [] = True"
| "chain prev ((s, k, v) # ents) =
     (s \<le> length prev \<and> s \<le> length k \<and> take s k = take s prev \<and> chain k ents)"

definition block_layout :: "bytes \<Rightarrow> nat \<Rightarrow> nat \<Rightarrow> bentry list \<Rightarrow> nat list \<Rightarrow> bool" where
  "block_layout data restarts num ents rs \<longleftrightarrow>
     length data < 2 ^ 32 \<and> take restarts data = concat (map enc_entry ents) \<and>
     restarts = off ents (length ents) \<and> chain [] ents \<and>
     num = length rs \<and> rs \<noteq> [] \<and> rs ! 0 = 0 \<and> sorted_wrt (<) rs \<and>
     (\<forall>j < num. rs ! j \<le> length ents \<and> (0 < j \<longrightarrow> rs ! j < length ents) \<and>
       (rs ! j < length ents \<longrightarrow> fst (ents ! (rs ! j)) = 0)) \<and>
     (\<forall>j < num. DecodeFixed32 (drop (restarts + j * 4) data) = word_of_nat (off ents (rs ! j)))"

lemma length_enc_entry: "3 \<le> length (enc_entry e)"
proof -
  obtain s k v where e: "e = (s, k, v)" by (cases e)
  have w: "1 \<le> length (EncodeVarint32 w)" for w
    using vi32.enc_nonempty [of w] by (cases "EncodeVarint32 w") auto
  show ?thesis
    using w [of "word_of_nat s"] w [of "word_of_nat (length k - s)"] w [of "word_of_nat (length v)"]
    unfolding e enc_entry.simps length_append by linarith
qed

lemma off_0 [simp]: "off ents 0 = 0"
  by (simp add: off_def)

lemma off_Suc: "i < length ents \<Longrightarrow> off ents (Suc i) = off ents i + length (enc_entry (ents ! i))"
  by (simp add: off_def take_Suc_conv_app_nth)

lemma off_mono: "i \<le> j \<Longrightarrow> off ents i \<le> off ents j"
proof -
  assume "i \<le> j"
  then have "take j ents = take i ents @ take (j - i) (drop i ents)"
    by (metis le_add_diff_inverse take_add)
  then show ?thesis by (simp add: off_def)
qed

lemma off_strict: "i < j \<Longrightarrow> j \<le> length ents \<Longrightarrow> off ents i < off ents j"
proof -
  assume ij: "i < j" "j \<le> length ents"
  then have "off ents i < off ents (Suc i)"
    using off_Suc [of i ents] length_enc_entry [of "ents ! i"] by linarith
  also have "\<dots> \<le> off ents j" using ij by (intro off_mono) simp
  finally show ?thesis .
qed

lemma off_less_iff: "i \<le> length ents \<Longrightarrow> j \<le> length ents \<Longrightarrow> off ents i < off ents j \<longleftrightarrow> i < j"
  using off_strict [of i j ents] off_mono [of j i ents] by (meson leD linorder_not_less)

lemma drop_off: "i \<le> length ents \<Longrightarrow> drop (off ents i) (concat (map enc_entry ents)) = concat (map enc_entry (drop i ents))"
proof -
  assume "i \<le> length ents"
  have "concat (map enc_entry ents) = concat (map enc_entry (take i ents)) @ concat (map enc_entry (drop i ents))"
    by (metis append_take_drop_id concat_append map_append)
  then show ?thesis by (simp add: off_def)
qed

lemma chain_nth:
  "chain prev ents \<Longrightarrow> i < length ents \<Longrightarrow> ents ! i = (s, k, v) \<Longrightarrow>
   s \<le> length k \<and>
   (let p = (if i = 0 then prev else fst (snd (ents ! (i - 1)))) in s \<le> length p \<and> take s k = take s p)"
proof (induction ents arbitrary: prev i)
  case (Cons e ents)
  obtain s0 k0 v0 where e: "e = (s0, k0, v0)" by (cases e)
  show ?case
  proof (cases i)
    case (Suc j)
    then show ?thesis
      using Cons.IH [of k0 j] Cons.prems e by (cases j) (simp_all add: Let_def)
  qed (use Cons.prems e in simp)
qed simp

lemma key_length:
  "chain [] ents \<Longrightarrow> i < length ents \<Longrightarrow> length (fst (snd (ents ! i))) \<le> off ents (Suc i)"
proof (induction i)
  case 0
  obtain s k v where e: "ents ! 0 = (s, k, v)" by (cases "ents ! 0")
  then show ?case using chain_nth [OF 0 e] off_Suc [OF 0(2)] by simp
next
  case (Suc i)
  obtain s k v where e: "ents ! Suc i = (s, k, v)" by (cases "ents ! Suc i")
  then have "s \<le> length (fst (snd (ents ! i)))" "s \<le> length k"
    using chain_nth [OF Suc.prems e] by (simp_all add: Let_def)
  then show ?case using Suc e off_Suc [OF Suc.prems(2)] by simp
qed

section \<open>Decoding an entry\<close>

lemma DecodeEntry_enc:
  assumes "s \<le> length k" and "length (enc_entry (s, k, v) @ r) < 2 ^ 32"
  shows "DecodeEntry (enc_entry (s, k, v) @ r) =
    Some (word_of_nat s, word_of_nat (length k - s), word_of_nat (length v), drop s k @ v @ r)"
proof -
  let ?r = "drop s k @ v @ r"
  have len: "length ?r < 2 ^ 32" using assms(2) by simp
  have "decode_lengths (enc_entry (s, k, v) @ r) =
      Some (word_of_nat s, word_of_nat (length k - s), word_of_nat (length v), ?r)"
    using GetVarint32_EncodeVarint32 by (simp add: decode_lengths_def GetVarint32_def)
  moreover have "\<not> (word_of_nat (length ?r) :: u32) < word_of_nat (length k - s) + word_of_nat (length v)"
  proof -
    define a where "a = length k - s + length v"
    have sum: "(word_of_nat (length k - s) + word_of_nat (length v) :: u32) = word_of_nat a"
      by (simp add: a_def del: of_nat_diff)
    have r: "length ?r = a + length r" by (simp add: a_def)
    have "unat (word_of_nat (a + length r) :: u32) = a + length r" "unat (word_of_nat a :: u32) = a"
      using len unfolding r by (simp_all del: of_nat_add)
    then show ?thesis unfolding sum r word_less_nat_alt by linarith
  qed
  moreover have "3 \<le> length (enc_entry (s, k, v) @ r)"
    using length_enc_entry [of "(s, k, v)"] by simp
  ultimately show ?thesis by (simp add: DecodeEntry_eq del: enc_entry.simps)
qed

section \<open>Positions of the iterator\<close>

abbreviation bi_layout :: "block_iter \<Rightarrow> bentry list \<Rightarrow> nat list \<Rightarrow> bool" where
  "bi_layout it ents rs \<equiv> block_layout (bi_data it) (bi_restarts it) (bi_num_restarts it) ents rs"

text \<open>The restart point \<open>bi_restart_index\<close> is at or before the entry.\<close>

definition restart_ok :: "block_iter \<Rightarrow> nat list \<Rightarrow> nat \<Rightarrow> bool" where
  "restart_ok it rs i \<longleftrightarrow> bi_restart_index it < bi_num_restarts it \<and> rs ! bi_restart_index it \<le> i"

definition at_entry :: "block_iter \<Rightarrow> bentry list \<Rightarrow> nat list \<Rightarrow> nat \<Rightarrow> bool" where
  "at_entry it ents rs i \<longleftrightarrow>
     bi_layout it ents rs \<and> i < length ents \<and> bi_current it = off ents i \<and>
     (bi_key it, bi_value it) = snd (ents ! i) \<and> NextEntryOffset it = off ents (Suc i) \<and> restart_ok it rs i"

definition at_end :: "block_iter \<Rightarrow> bentry list \<Rightarrow> nat list \<Rightarrow> bool" where
  "at_end it ents rs \<longleftrightarrow> bi_layout it ents rs \<and> \<not> bi_Valid it"

text \<open>The next call of \<open>ParseNextKey\<close> reads entry \<open>i\<close>.\<close>

definition ready :: "block_iter \<Rightarrow> bentry list \<Rightarrow> nat list \<Rightarrow> nat \<Rightarrow> bool" where
  "ready it ents rs i \<longleftrightarrow>
     bi_layout it ents rs \<and> i \<le> length ents \<and> NextEntryOffset it = off ents i \<and> restart_ok it rs i \<and>
     (i < length ents \<longrightarrow>
        (let (s, k, v) = ents ! i in s \<le> length (bi_key it) \<and> take s k = take s (bi_key it)))"

lemma layout_take: "block_layout data restarts num ents rs \<Longrightarrow> take restarts data = concat (map enc_entry ents)"
  unfolding block_layout_def by blast

lemma layout_restarts:
  assumes "block_layout data restarts num ents rs"
  shows "restarts = off ents (length ents)" and "restarts \<le> length data"
proof -
  show r: "restarts = off ents (length ents)" using assms by (simp add: block_layout_def)
  then have "restarts = length (take restarts data)" using layout_take [OF assms] by (simp add: off_def)
  then show "restarts \<le> length data" by simp
qed

lemma off_bound:
  assumes "block_layout data restarts num ents rs" and "i \<le> length ents"
  shows "off ents i < 2 ^ 32"
proof -
  have "off ents i \<le> restarts" using off_mono [OF assms(2)] layout_restarts(1) [OF assms(1)] by simp
  then show ?thesis using layout_restarts(2) [OF assms(1)] assms(1) by (simp add: block_layout_def)
qed

lemma rs_nth:
  assumes "block_layout data restarts num ents rs" and "j < num"
  shows "rs ! j \<le> length ents" and "0 < j \<Longrightarrow> rs ! j < length ents"
    and "rs ! j < length ents \<Longrightarrow> fst (ents ! (rs ! j)) = 0"
  using assms by (simp_all add: block_layout_def)

lemma GetRestartPoint_layout:
  assumes "bi_layout it ents rs" and "j < bi_num_restarts it"
  shows "GetRestartPoint it j = off ents (rs ! j)"
proof -
  have "DecodeFixed32 (drop (bi_restarts it + j * 4) (bi_data it)) = word_of_nat (off ents (rs ! j))"
    using assms unfolding block_layout_def by blast
  then show ?thesis
    using off_bound [OF assms(1) rs_nth(1) [OF assms]] by (simp add: GetRestartPoint_def)
qed

lemma advance_restart_index_ok:
  "bi_layout it ents rs \<Longrightarrow> bi_current it = off ents i \<Longrightarrow> i \<le> length ents \<Longrightarrow> restart_ok it rs i \<Longrightarrow>
   restart_ok (advance_restart_index it) rs i"
proof (induction it rule: advance_restart_index.induct)
  case (1 it)
  let ?r = "bi_restart_index it + 1"
  show ?case
  proof (cases "?r < bi_num_restarts it \<and> GetRestartPoint it ?r < bi_current it")
    case True
    then have "rs ! ?r < i"
      using GetRestartPoint_layout [OF "1.prems"(1)] "1.prems" rs_nth(1) [OF "1.prems"(1)] off_less_iff by auto
    then have "restart_ok (it\<lparr>bi_restart_index := ?r\<rparr>) rs i" using True by (simp add: restart_ok_def)
    then show ?thesis using "1.IH" [OF True] "1.prems" True by (subst advance_restart_index.simps) simp
  next
    case False
    then show ?thesis
      using "1.prems"(4) unfolding advance_restart_index.simps [of it] if_not_P [OF False] by simp
  qed
qed

section \<open>Parsing\<close>

lemma ParseNextKey_ready:
  assumes "ready it ents rs i" and "i < length ents"
  shows "\<exists>it'. ParseNextKey it = (True, it') \<and> at_entry it' ents rs i \<and> bi_status it' = bi_status it"
proof -
  obtain s k v where e: "ents ! i = (s, k, v)" by (cases "ents ! i")
  let ?it = "it\<lparr>bi_current := NextEntryOffset it\<rparr>"
  let ?limit = "take (bi_restarts it) (bi_data it)"
  have lay: "bi_layout it ents rs" and nxt: "NextEntryOffset it = off ents i" and rok: "restart_ok it rs i"
    and key: "s \<le> length (bi_key it)" "take s k = take s (bi_key it)"
    using assms e by (simp_all add: ready_def)
  have ch: "s \<le> length k"
    using chain_nth [OF _ assms(2) e, of "[]"] lay by (simp add: block_layout_def)
  let ?rest = "concat (map enc_entry (drop (Suc i) ents))"
  have limit: "drop (off ents i) ?limit = enc_entry (s, k, v) @ ?rest"
    using layout_take [OF lay] drop_off [of i ents] assms(2) e
    by (simp del: enc_entry.simps add: Cons_nth_drop_Suc [symmetric])
  have lo: "off ents i < bi_restarts it"
    using layout_restarts(1) [OF lay] off_strict [OF assms(2)] by simp
  have llen: "length ?limit = bi_restarts it" using layout_restarts(2) [OF lay] by simp
  have lens: "bi_restarts it = off ents i + length (enc_entry (s, k, v) @ ?rest)"
    using arg_cong [OF limit, of length] lo llen by simp
  have small: "bi_restarts it < 2 ^ 32" using layout_restarts(2) [OF lay] lay by (simp add: block_layout_def)
  then have "length (enc_entry (s, k, v) @ ?rest) < 2 ^ 32" using lens by linarith
  note dec = DecodeEntry_enc [OF ch this]
  have "length k \<le> bi_restarts it"
    using key_length [of ents i] lay assms(2) e off_mono [of "Suc i" "length ents" ents] layout_restarts(1) [OF lay]
    by (simp add: block_layout_def)
  then have l32: "s < 2 ^ 32" "length k - s < 2 ^ 32" "length v < 2 ^ 32"
    using small ch lens by simp_all
  define it1 where "it1 = ?it\<lparr>bi_key := k, bi_value_offset := off ents (Suc i) - length v,
      bi_value_length := length v\<rparr>"
  have offS: "off ents (Suc i) = off ents i + length (enc_entry (s, k, v))"
    using off_Suc [OF assms(2)] e by simp
  have voff: "bi_restarts it - (length k - s + (length v + length ?rest)) + (length k - s) =
      off ents (Suc i) - length v"
    using lens offS ch by simp
  have lmin: "min (length (bi_data it)) (bi_restarts it) = bi_restarts it"
    using layout_restarts(2) [OF lay] by simp
  have "ParseNextKey it = (True, advance_restart_index it1)"
    using lo key(1) l32 unfolding ParseNextKey_def Let_def nxt
    by (simp add: limit dec it1_def nxt lmin voff key(2) [symmetric] del: enc_entry.simps)
  moreover have "bi_value it1 = v"
  proof -
    have "drop (off ents (Suc i) - length v) ?limit = v @ ?rest"
    proof -
      let ?x = "length (enc_entry (s, k, v)) - length v"
      have "off ents (Suc i) - length v = ?x + off ents i" using offS by simp
      then have "drop (off ents (Suc i) - length v) ?limit = drop ?x (drop (off ents i) ?limit)"
        by (simp only: drop_drop)
      then show ?thesis unfolding limit by simp
    qed
    then have "take (length v) (drop (off ents (Suc i) - length v) ?limit) = v" by simp
    moreover have "take (length v) (drop (off ents (Suc i) - length v) ?limit) =
        take (length v) (drop (off ents (Suc i) - length v) (bi_data it))"
      using off_mono [of "Suc i" "length ents" ents] layout_restarts(1) [OF lay] assms(2) offS
      by (simp add: drop_take min_def)
    ultimately show ?thesis by (simp add: bi_value_def it1_def)
  qed
  moreover have "restart_ok (advance_restart_index it1) rs i"
    using advance_restart_index_ok [of it1 ents rs i] lay rok nxt assms(2)
    by (simp add: it1_def restart_ok_def)
  ultimately show ?thesis
    using lay assms(2) e nxt offS
    by (intro exI [of _ "advance_restart_index it1"])
      (simp add: at_entry_def it1_def NextEntryOffset_def bi_value_def)
qed

lemma ParseNextKey_end:
  assumes "ready it ents rs (length ents)"
  shows "\<exists>it'. ParseNextKey it = (False, it') \<and> at_end it' ents rs \<and> bi_status it' = bi_status it"
  using assms layout_restarts(1) [of "bi_data it" "bi_restarts it"]
  by (auto simp: ready_def ParseNextKey_def Let_def at_end_def bi_Valid_def)

lemma at_entry_ready: "at_entry it ents rs i \<Longrightarrow> ready it ents rs (Suc i)"
proof -
  assume a: "at_entry it ents rs i"
  have "let (s, k, v) = ents ! Suc i in s \<le> length (bi_key it) \<and> take s k = take s (bi_key it)"
    if "Suc i < length ents"
  proof -
    obtain s k v where e: "ents ! Suc i = (s, k, v)" by (cases "ents ! Suc i")
    have "bi_key it = fst (snd (ents ! i))" using a by (metis at_entry_def fst_conv)
    then show ?thesis
      using chain_nth [OF _ that e, of "[]"] a e by (simp add: at_entry_def block_layout_def Let_def)
  qed
  then show ?thesis using a by (simp add: ready_def at_entry_def restart_ok_def)
qed

lemma SeekToRestartPoint_ready:
  assumes "bi_layout it ents rs" and "j < bi_num_restarts it"
  shows "ready (SeekToRestartPoint j it) ents rs (rs ! j)"
  using assms GetRestartPoint_layout [OF assms] rs_nth [OF assms]
  by (auto simp: ready_def SeekToRestartPoint_def NextEntryOffset_def restart_ok_def split: prod.splits)

lemma parse_until_ready:
  "ready it ents rs i \<Longrightarrow> i < m \<Longrightarrow> m \<le> length ents \<Longrightarrow>
   at_entry (parse_until (off ents m) it) ents rs (m - 1) \<and> bi_status (parse_until (off ents m) it) = bi_status it"
proof (induction "m - i" arbitrary: it i)
  case (Suc d)
  obtain it' where p: "ParseNextKey it = (True, it')" "at_entry it' ents rs i" "bi_status it' = bi_status it"
    using ParseNextKey_ready [OF Suc.prems(1)] Suc.prems by auto
  then have nxt: "NextEntryOffset it' = off ents (Suc i)" by (simp add: at_entry_def)
  show ?case
  proof (cases "Suc i < m")
    case True
    then have "NextEntryOffset it' < off ents m" using nxt off_strict Suc.prems by simp
    then show ?thesis
      using Suc.hyps(1) [of "Suc i" it'] Suc.hyps(2) at_entry_ready [OF p(2)] True Suc.prems(3) p
      unfolding parse_until.simps [of _ it] by simp
  next
    case False
    then have "m = Suc i" using Suc.prems by simp
    then show ?thesis using p nxt unfolding parse_until.simps [of _ it] by simp
  qed
qed simp

lemma parse_until_end:
  "ready it ents rs (length ents) \<Longrightarrow>
   at_end (parse_until m it) ents rs \<and> bi_status (parse_until m it) = bi_status it"
  using ParseNextKey_end [of it ents rs] unfolding parse_until.simps [of m it] by auto

lemma linear_search_ready:
  "ready it ents rs i \<Longrightarrow> p = i + length (takeWhile (\<lambda>e. cmp_Compare cmp (fst (snd e)) t < 0) (drop i ents)) \<Longrightarrow>
   (if p < length ents then at_entry (linear_search cmp t it) ents rs p else at_end (linear_search cmp t it) ents rs) \<and>
   bi_status (linear_search cmp t it) = bi_status it"
proof (induction "length ents - i" arbitrary: it i)
  case 0
  then have "i = length ents" by (simp add: ready_def)
  then show ?case
    using 0 ParseNextKey_end [of it ents rs] unfolding linear_search.simps [of cmp t it] by auto
next
  case (Suc d)
  then have i: "i < length ents" and d: "d = length ents - Suc i" by simp_all
  obtain it' where p: "ParseNextKey it = (True, it')" "at_entry it' ents rs i" "bi_status it' = bi_status it"
    using ParseNextKey_ready [OF Suc.prems(1) i] by auto
  have key: "bi_key it' = fst (snd (ents ! i))" using p(2) by (metis at_entry_def fst_conv)
  have drop: "drop i ents = ents ! i # drop (Suc i) ents" using i by (simp add: Cons_nth_drop_Suc)
  show ?case
  proof (cases "cmp_Compare cmp (bi_key it') t < 0")
    case True
    have "p = Suc i + length (takeWhile (\<lambda>e. cmp_Compare cmp (fst (snd e)) t < 0) (drop (Suc i) ents))"
      using Suc.prems(2) True key unfolding drop by simp
    from Suc.hyps(1) [OF d at_entry_ready [OF p(2)] this] show ?thesis
      using p(1,3) True unfolding linear_search.simps [of cmp t it] by simp
  next
    case False
    then show ?thesis
      using Suc.prems(2) p key drop i unfolding linear_search.simps [of cmp t it] by simp
  qed
qed

lemma restart_before_layout:
  "bi_layout it ents rs \<Longrightarrow> j < bi_num_restarts it \<Longrightarrow> i \<le> length ents \<Longrightarrow>
   (case restart_before it (off ents i) j of
      None \<Rightarrow> i = 0
    | Some l \<Rightarrow> l < bi_num_restarts it \<and> rs ! l < i)"
proof (induction j)
  case 0
  then have "rs ! 0 = 0" by (simp add: block_layout_def)
  then show ?case
    using 0 GetRestartPoint_layout [OF 0(1,2)] off_less_iff [of 0 ents i] by (auto simp: not_le not_less)
next
  case (Suc j)
  show ?case
  proof (cases "GetRestartPoint it (Suc j) \<ge> off ents i")
    case False
    then show ?thesis
      using Suc.prems GetRestartPoint_layout [OF Suc.prems(1,2)] rs_nth(1) [OF Suc.prems(1,2)]
        off_less_iff [of "rs ! Suc j" ents i] by (simp add: not_le)
  qed (use Suc in simp)
qed

lemma search_restarts_layout:
  "bi_layout it ents rs \<Longrightarrow> left \<le> right \<Longrightarrow> right < bi_num_restarts it \<Longrightarrow>
   \<exists>l. search_restarts cmp it t left right = Some l \<and> left \<le> l \<and> l \<le> right \<and>
       (l = left \<or> rs ! l < length ents \<and> cmp_Compare cmp (fst (snd (ents ! (rs ! l)))) t < 0)"
proof (induction "right - left" arbitrary: left right rule: less_induct)
  case less
  show ?case
  proof (cases "left < right")
    case True
    define mid where "mid = (left + right + 1) div 2"
    have mid: "left < mid" "mid \<le> right" "mid < bi_num_restarts it"
      using True less.prems by (simp_all add: mid_def)
    have smaller: "right - mid < right - left" "mid - 1 - left < right - left" "left \<le> mid - 1"
      "mid - 1 < bi_num_restarts it"
      using mid less.prems(3) by linarith+
    have r: "rs ! mid < length ents" "fst (ents ! (rs ! mid)) = 0"
      using rs_nth [OF less.prems(1) mid(3)] mid(1) by simp_all
    obtain k v where e: "ents ! (rs ! mid) = (0, k, v)" using r(2) by (cases "ents ! (rs ! mid)") simp
    let ?limit = "take (bi_restarts it) (bi_data it)" and ?rest = "concat (map enc_entry (drop (Suc (rs ! mid)) ents))"
    have limit: "drop (off ents (rs ! mid)) ?limit = enc_entry (0, k, v) @ ?rest"
      using layout_take [OF less.prems(1)] drop_off [of "rs ! mid" ents] r(1) e
      by (simp del: enc_entry.simps add: Cons_nth_drop_Suc [symmetric])
    have "length (enc_entry (0, k, v) @ ?rest) \<le> length (bi_data it)"
      using arg_cong [OF limit, of length] by simp
    then have len: "length (enc_entry (0, k, v) @ ?rest) < 2 ^ 32"
      using less.prems(1) unfolding block_layout_def by linarith
    then have "length k < 2 ^ 32" by simp
    then have dec: "DecodeEntry (drop (GetRestartPoint it mid) ?limit) =
        Some (0, word_of_nat (length k), word_of_nat (length v), k @ v @ ?rest)"
      and k: "take (unat (word_of_nat (length k) :: u32)) (k @ v @ ?rest) = k"
      using DecodeEntry_enc [OF _ len] GetRestartPoint_layout [OF less.prems(1) mid(3)] limit by simp_all
    note step = search_restarts.simps [of cmp it t left right, unfolded Let_def mid_def [symmetric] dec
        option.case prod.case k if_P [OF True]]
    show ?thesis
    proof (cases "cmp_Compare cmp k t < 0")
      case True
      obtain l where "search_restarts cmp it t mid right = Some l" "mid \<le> l" "l \<le> right"
        "l = mid \<or> rs ! l < length ents \<and> cmp_Compare cmp (fst (snd (ents ! (rs ! l)))) t < 0"
        using less.hyps [OF smaller(1) less.prems(1) mid(2) less.prems(3)] by blast
      then show ?thesis using True step e mid(1) r(1) by auto
    next
      case False
      obtain l where "search_restarts cmp it t left (mid - 1) = Some l" "left \<le> l" "l \<le> mid - 1"
        "l = left \<or> rs ! l < length ents \<and> cmp_Compare cmp (fst (snd (ents ! (rs ! l)))) t < 0"
        using less.hyps [OF smaller(2) less.prems(1) smaller(3,4)] by blast
      then show ?thesis using False step mid(2) by auto
    qed
  next
    case False
    then show ?thesis using less.prems(2) by (subst search_restarts.simps) simp
  qed
qed

section \<open>The contract\<close>

context comparator
begin

abbreviation sorted_entries :: "(bytes \<times> bytes) list \<Rightarrow> bool" where
  "sorted_entries es \<equiv> sorted_wrt (\<lambda>a b. less (fst a) (fst b)) es \<and> (\<forall>e \<in> set es. valid (fst e))"

text \<open>\<open>p\<close> is the position of the iterator in the entries \<open>es\<close> of its block.\<close>

definition block_rep :: "block_iter \<Rightarrow> (bytes \<times> bytes) list \<Rightarrow> nat \<Rightarrow> bool" where
  "block_rep it es p \<longleftrightarrow>
     (\<exists>ents rs. es = map snd ents \<and> sorted_entries es \<and> bi_status it = OK \<and>
        (if p < length ents then at_entry it ents rs p else p = length ents \<and> at_end it ents rs))"

lemma block_repI:
  "es = map snd ents \<Longrightarrow> sorted_entries es \<Longrightarrow> bi_status it = OK \<Longrightarrow>
   (if p < length ents then at_entry it ents rs p else at_end it ents rs) \<Longrightarrow> p \<le> length ents \<Longrightarrow> block_rep it es p"
  unfolding block_rep_def by (intro exI [of _ ents] exI [of _ rs]) (auto split: if_splits)

lemma at_entry_Valid: "at_entry it ents rs i \<Longrightarrow> bi_Valid it"
  using layout_restarts(1) [of "bi_data it" "bi_restarts it" _ ents rs] off_strict [of i "length ents" ents]
  by (auto simp: at_entry_def bi_Valid_def)

lemma block_repE:
  assumes "block_rep it es p"
  obtains ents rs where "es = map snd ents" "sorted_entries es" "bi_status it = OK" "p \<le> length ents"
    "bi_layout it ents rs" "p < length ents \<longrightarrow> at_entry it ents rs p" "bi_Valid it \<longleftrightarrow> p < length ents"
proof -
  obtain ents rs where e: "es = map snd ents" "sorted_entries es" "bi_status it = OK"
    and p: "if p < length ents then at_entry it ents rs p else p = length ents \<and> at_end it ents rs"
    using assms unfolding block_rep_def by blast
  have "bi_layout it ents rs" using p by (auto simp: at_entry_def at_end_def split: if_splits)
  moreover have "bi_Valid it \<longleftrightarrow> p < length ents"
    using p at_entry_Valid by (auto simp: at_end_def split: if_splits)
  ultimately show ?thesis using that e p by (auto split: if_splits)
qed

text \<open>Parsing the next entry from a prepared iterator.\<close>

lemma ParseNextKey_rep:
  assumes "ready it ents rs i" and "bi_status it = OK" and "es = map snd ents" and "sorted_entries es"
  shows "block_rep (snd (ParseNextKey it)) es i"
proof (cases "i < length ents")
  case True
  obtain it' where "ParseNextKey it = (True, it')" "at_entry it' ents rs i" "bi_status it' = bi_status it"
    using ParseNextKey_ready [OF assms(1) True] by blast
  then show ?thesis using assms True by (intro block_repI [of es ents]) simp_all
next
  case False
  then have i: "i = length ents" using assms(1) by (simp add: ready_def)
  then obtain it' where "ParseNextKey it = (False, it')" "at_end it' ents rs" "bi_status it' = bi_status it"
    using ParseNextKey_end assms(1) by blast
  then show ?thesis using assms i by (intro block_repI [of es ents]) simp_all
qed

lemma SeekToRestartPoint_status [simp]: "bi_status (SeekToRestartPoint j it) = bi_status it"
  by (simp add: SeekToRestartPoint_def)

lemma bi_Prev_rep:
  assumes "block_rep it es p" and "p < length es"
  shows "block_rep (bi_Prev it) es (if p = 0 then length es else p - 1)"
proof -
  from assms(1) obtain ents rs where e: "es = map snd ents" "sorted_entries es" "bi_status it = OK"
    and lay: "bi_layout it ents rs" and at: "p < length ents \<longrightarrow> at_entry it ents rs p"
    by (rule block_repE)
  have p: "p < length ents" using assms(2) e(1) by simp
  have cur: "bi_current it = off ents p" "bi_restart_index it < bi_num_restarts it"
    using mp [OF at p] by (simp_all add: at_entry_def restart_ok_def)
  show ?thesis
  proof (cases "restart_before it (off ents p) (bi_restart_index it)")
    case None
    then have "p = 0" using restart_before_layout [OF lay cur(2), of p] p by simp
    moreover have "at_end (it\<lparr>bi_current := bi_restarts it, bi_restart_index := bi_num_restarts it\<rparr>) ents rs"
      using lay by (simp add: at_end_def bi_Valid_def)
    ultimately show ?thesis
      using e None cur(1) by (intro block_repI [of es ents _ _ rs]) (simp_all add: bi_Prev_def)
  next
    case (Some l)
    then have l: "l < bi_num_restarts it" "rs ! l < p"
      using restart_before_layout [OF lay cur(2), of p] p by simp_all
    have "at_entry (bi_Prev it) ents rs (p - 1) \<and> bi_status (bi_Prev it) = OK"
      using parse_until_ready [OF SeekToRestartPoint_ready [OF lay l(1)] l(2), of] p e(3) Some cur(1)
      by (simp add: bi_Prev_def)
    moreover have "p - 1 < length ents" using l(2) p by simp
    ultimately show ?thesis using l(2) e by (intro block_repI [of es ents _ _ rs]) simp_all
  qed
qed

lemma bi_SeekToLast_rep:
  assumes "block_rep it es p"
  shows "block_rep (bi_SeekToLast it) es (length es - 1)"
proof -
  from assms obtain ents rs where e: "es = map snd ents" "sorted_entries es" "bi_status it = OK"
    and lay: "bi_layout it ents rs"
    by (rule block_repE)
  have last: "bi_num_restarts it - 1 < bi_num_restarts it" using lay by (simp add: block_layout_def)
  note rdy = SeekToRestartPoint_ready [OF lay last] and rs = rs_nth [OF lay last]
  have r: "bi_restarts it = off ents (length ents)" using layout_restarts(1) [OF lay] .
  show ?thesis
  proof (cases "rs ! (bi_num_restarts it - 1) < length ents")
    case True
    then have "at_entry (bi_SeekToLast it) ents rs (length ents - 1) \<and> bi_status (bi_SeekToLast it) = OK"
      using parse_until_ready [OF rdy True] e(3) r by (simp add: bi_SeekToLast_def)
    then show ?thesis using True e by (intro block_repI [of es ents _ _ rs]) auto
  next
    case False
    then have "\<not> 0 < bi_num_restarts it - 1" using rs(2) by blast
    then have "bi_num_restarts it - 1 = 0" by simp
    moreover from this have "length ents \<le> rs ! 0" using False by simp
    ultimately have n: "length ents = 0" "rs ! 0 = 0" using lay by (simp_all add: block_layout_def)
    then have "at_end (bi_SeekToLast it) ents rs \<and> bi_status (bi_SeekToLast it) = OK"
      using parse_until_end [of _ ents rs "bi_restarts it"] rdy e(3) \<open>\<not> 0 < bi_num_restarts it - 1\<close>
      by (simp add: bi_SeekToLast_def)
    then show ?thesis using n e by (intro block_repI [of es ents _ _ rs]) simp_all
  qed
qed

lemma takeWhile_split:
  assumes "\<forall>j < i. P (xs ! j)" and "i \<le> length xs"
  shows "length (takeWhile P xs) = i + length (takeWhile P (drop i xs))"
proof -
  have "\<forall>x \<in> set (take i xs). P x" using assms by (auto simp: in_set_conv_nth)
  then have "takeWhile P (take i xs @ drop i xs) = take i xs @ takeWhile P (drop i xs)"
    by (intro takeWhile_append2) blast
  then show ?thesis using assms(2) by (metis append_take_drop_id length_append length_take min.absorb2)
qed

text \<open>In sorted entries everything before an entry below the target is below it.\<close>

lemma below_before:
  assumes "sorted_entries es" and "valid t" and "j < length es" and "less (fst (es ! j)) t" and "i \<le> j"
  shows "less (fst (es ! i)) t"
proof (cases "i = j")
  case False
  then have "less (fst (es ! i)) (fst (es ! j))"
    using assms by (simp add: sorted_wrt_iff_nth_less)
  moreover have "valid (fst (es ! i))" "valid (fst (es ! j))" using assms by auto
  ultimately show ?thesis using less_trans assms(2,4) by blast
qed (use assms in simp)

lemma bi_Seek_rep:
  assumes "block_rep it es p" and "valid t"
  shows "block_rep (bi_Seek cmp it t) es (length (takeWhile (\<lambda>e. less (fst e) t) es))"
proof -
  from assms(1) obtain ents rs where e: "es = map snd ents" "sorted_entries es" "bi_status it = OK"
    and p: "p \<le> length ents" and lay: "bi_layout it ents rs"
    and at: "p < length ents \<longrightarrow> at_entry it ents rs p" and V: "bi_Valid it \<longleftrightarrow> p < length ents"
    by (rule block_repE)
  let ?P = "\<lambda>e. less (fst e) t"
  define q where "q = length (takeWhile ?P es)"
  have q: "q = i + length (takeWhile (\<lambda>e. less (fst (snd e)) t) (drop i ents))"
    if "\<forall>j < i. ?P (es ! j)" "i \<le> length ents" for i
    using takeWhile_split [of i ?P es] that e(1)
    by (simp add: q_def drop_map takeWhile_map comp_def)
  have qn: "q \<le> length ents" using e(1) length_takeWhile_le [of ?P es] by (simp add: q_def)
  have fin: "block_rep (linear_search cmp t it1) es q"
    if "ready it1 ents rs i" "\<forall>j < i. ?P (es ! j)" "bi_status it1 = OK" for it1 i
  proof -
    have "i \<le> length ents" using that(1) by (simp add: ready_def)
    from linear_search_ready [OF that(1) q [OF that(2) this]] show ?thesis
      using e that(3) qn by (intro block_repI [of es ents _ _ rs]) simp_all
  qed
  show ?thesis
  proof (cases "bi_Valid it \<and> cmp_Compare cmp (bi_key it) t = 0")
    case True
    then have pl: "p < length ents" using V by simp
    then have key: "bi_key it = fst (es ! p)" using at e(1) by (simp add: at_entry_def) (metis fst_conv)
    have "less (fst (es ! j)) t" if "j < p" for j
    proof -
      have "less (fst (es ! j)) (fst (es ! p))" "valid (fst (es ! j))" "valid (fst (es ! p))"
        using that e pl by (auto simp: sorted_wrt_iff_nth_less)
      then show ?thesis using less_le_trans [of "fst (es ! j)" "fst (es ! p)" t] True key assms(2) by simp
    qed
    moreover have "takeWhile (\<lambda>e. less (fst (snd e)) t) (drop p ents) = []"
      using True key pl e(1) by (simp add: Cons_nth_drop_Suc [symmetric])
    ultimately have "q = p" using q [of p] pl by simp
    then show ?thesis using True assms(1) by (simp add: bi_Seek_def q_def)
  next
    case False
    define c where "c = (if bi_Valid it then cmp_Compare cmp (bi_key it) t else 0)"
    define left where "left = (if c < 0 then bi_restart_index it else 0)"
    define right where "right = (if c > 0 then bi_restart_index it else bi_num_restarts it - 1)"
    have num: "0 < bi_num_restarts it" "rs ! 0 = 0" using lay by (simp_all add: block_layout_def)
    have cur: "p < length ents \<and> restart_ok it rs p \<and> bi_key it = fst (es ! p)" if "c \<noteq> 0"
      using that V at e(1) by (auto simp: c_def at_entry_def split: if_splits) (metis fst_conv)
    have ri: "bi_restart_index it < bi_num_restarts it" if "c \<noteq> 0"
      using cur [OF that] by (simp add: restart_ok_def)
    have lr: "left \<le> right" "right < bi_num_restarts it"
      using ri num by (auto simp: left_def right_def)
    from search_restarts_layout [OF lay lr, of cmp t] obtain l where
      s: "search_restarts cmp it t left right = Some l" and l: "left \<le> l" "l \<le> right"
      "l = left \<or> rs ! l < length ents \<and> less (fst (snd (ents ! (rs ! l)))) t" by blast
    have before_p: "\<forall>j < Suc p. ?P (es ! j)" if "c < 0"
    proof (intro allI impI)
      fix j
      assume "j < Suc p"
      have "cmp_Compare cmp (bi_key it) t = c" using that by (simp add: c_def split: if_splits)
      then have "less (fst (es ! p)) t" "p < length es" "j \<le> p" using cur that e(1) \<open>j < Suc p\<close> by simp_all
      then show "?P (es ! j)" using below_before [OF e(2) assms(2)] by blast
    qed
    have before_l: "\<forall>j < rs ! l. ?P (es ! j)"
    proof (cases "l = left")
      case False
      then have "less (fst (es ! (rs ! l))) t" "rs ! l < length es" using l(3) e(1) by simp_all
      then show ?thesis using below_before [OF e(2) assms(2), of "rs ! l"] by simp
    next
      case True
      show ?thesis
      proof (cases "c < 0")
        case True
        then show ?thesis using before_p cur \<open>l = left\<close> by (auto simp: left_def restart_ok_def)
      qed (use num \<open>l = left\<close> in \<open>simp add: left_def\<close>)
    qed
    have ln: "l < bi_num_restarts it" using l lr by simp
    have nc: "\<not> (bi_Valid it \<and> c = 0)" using False by (auto simp: c_def)
    have seek: "bi_Seek cmp it t =
        linear_search cmp t (if l = bi_restart_index it \<and> c < 0 then it else SeekToRestartPoint l it)"
      unfolding bi_Seek_def Let_def c_def [symmetric] if_not_P [OF nc] left_def [symmetric]
        right_def [symmetric] s by simp
    show ?thesis
    proof (cases "l = bi_restart_index it \<and> c < 0")
      case True
      then have "ready it ents rs (Suc p)" using cur at at_entry_ready by auto
      then show ?thesis using fin before_p True e(3) seek by (auto simp: q_def [symmetric])
    next
      case False
      then show ?thesis
        using fin [OF SeekToRestartPoint_ready [OF lay ln] before_l] e(3) seek by (simp add: q_def [symmetric] if_not_P)
    qed
  qed
qed

lemma block_iter_contract: "sorted_iterator (cmp_Compare cmp) valid (block_iter_ops cmp) block_rep"
proof unfold_locales
  fix it es p
  assume rep: "block_rep it es p"
  from rep obtain ents rs where e: "es = map snd ents" "sorted_entries es" "bi_status it = OK"
    and p: "p \<le> length ents" and lay: "bi_layout it ents rs"
    and at: "p < length ents \<longrightarrow> at_entry it ents rs p" and V: "bi_Valid it \<longleftrightarrow> p < length ents"
    by (rule block_repE)
  show "sorted_wrt (\<lambda>a b. less (fst a) (fst b)) es" using e by blast
  show "valid (fst x)" if "x \<in> set es" for x using e that by blast
  show "p \<le> length es" using p e by simp
  show "it_Valid (block_iter_ops cmp) it = (p < length es)" using V e by (simp add: block_iter_ops_def)
  show "it_status (block_iter_ops cmp) it = OK" using e by (simp add: block_iter_ops_def)
  have kv: "(bi_key it, bi_value it) = es ! p" if "p < length es"
    using at that e(1) by (simp add: at_entry_def)
  show "it_key (block_iter_ops cmp) it = fst (es ! p)" if "p < length es"
    using kv [OF that] by (metis block_iter_ops_def fst_conv iter_ops.select_convs(7))
  show "it_value (block_iter_ops cmp) it = snd (es ! p)" if "p < length es"
    using kv [OF that] by (metis block_iter_ops_def snd_conv iter_ops.select_convs(8))
  have r0: "0 < bi_num_restarts it" "rs ! 0 = 0" using lay by (simp_all add: block_layout_def)
  then have "ready (SeekToRestartPoint 0 it) ents rs 0" using SeekToRestartPoint_ready [OF lay] by metis
  then show "block_rep (it_SeekToFirst (block_iter_ops cmp) it) es 0"
    using ParseNextKey_rep e by (simp add: block_iter_ops_def bi_SeekToFirst_def)
  show "block_rep (it_SeekToLast (block_iter_ops cmp) it) es (length es - 1)"
    using bi_SeekToLast_rep [OF rep] by (simp add: block_iter_ops_def)
  show "block_rep (it_Next (block_iter_ops cmp) it) es (p + 1)" if "p < length es"
    using ParseNextKey_rep [OF at_entry_ready [OF mp [OF at]], OF _ e(3,1,2)] that e(1)
    by (simp add: block_iter_ops_def bi_Next_def)
  show "block_rep (it_Prev (block_iter_ops cmp) it) es (if p = 0 then length es else p - 1)" if "p < length es"
    using bi_Prev_rep [OF rep that] by (simp add: block_iter_ops_def)
  show "block_rep (it_Seek (block_iter_ops cmp) it t) es (length (takeWhile (\<lambda>e. less (fst e) t) es))"
    if "valid t" for t
    using bi_Seek_rep [OF rep that] by (simp add: block_iter_ops_def)
qed

end

sublocale comparator \<subseteq> blk: sorted_iterator "cmp_Compare cmp" valid "block_iter_ops cmp" block_rep
  by (rule block_iter_contract)

section \<open>Building a block\<close>

text \<open>The builder holds the entries \<open>ents\<close>, with restarts at the entries \<open>rs\<close>.\<close>

definition bb_holds :: "block_builder \<Rightarrow> bentry list \<Rightarrow> nat list \<Rightarrow> bool" where
  "bb_holds b ents rs \<longleftrightarrow>
     1 \<le> bb_interval b \<and> bb_buffer b = concat (map enc_entry ents) \<and>
     bb_restarts b = map (\<lambda>r. word_of_nat (off ents r)) rs \<and> chain [] ents \<and>
     bb_last_key b = (if ents = [] then [] else fst (snd (last ents))) \<and>
     rs \<noteq> [] \<and> rs ! 0 = 0 \<and> sorted_wrt (<) rs \<and> last rs + bb_counter b = length ents \<and>
     (\<forall>j < length rs. (0 < j \<longrightarrow> rs ! j < length ents) \<and> (rs ! j < length ents \<longrightarrow> fst (ents ! (rs ! j)) = 0))"

lemma bb_holds_new: "1 \<le> interval \<Longrightarrow> bb_holds (new_BlockBuilder interval) [] [0]"
  by (simp add: bb_holds_def new_BlockBuilder_def)

lemma bb_holds_Reset: "bb_holds b ents rs \<Longrightarrow> bb_holds (bb_Reset b) [] [0]"
  by (simp add: bb_holds_def bb_Reset_def)

lemma shared_prefix_take:
  "shared_prefix a b \<le> length a \<and> shared_prefix a b \<le> length b \<and>
   take (shared_prefix a b) b = take (shared_prefix a b) a"
  by (induction a b rule: shared_prefix.induct) auto

lemma chain_append:
  "chain prev (ents @ [(s, k, v)]) \<longleftrightarrow>
   chain prev ents \<and>
   (let p = (if ents = [] then prev else fst (snd (last ents))) in s \<le> length p \<and> s \<le> length k \<and> take s k = take s p)"
  by (induction prev ents rule: chain.induct) (auto simp: Let_def)

lemma off_append: "i \<le> length ents \<Longrightarrow> off (ents @ ents') i = off ents i"
  by (simp add: off_def)

lemma bb_holds_Add:
  assumes "bb_holds b ents rs"
  shows "\<exists>s rs'. bb_holds (bb_Add k v b) (ents @ [(s, k, v)]) rs'"
proof -
  let ?n = "length ents"
  let ?last = "if ents = [] then [] else fst (snd (last ents))"
  have h: "1 \<le> bb_interval b" "bb_buffer b = concat (map enc_entry ents)"
    "bb_restarts b = map (\<lambda>r. word_of_nat (off ents r)) rs" "chain [] ents" "bb_last_key b = ?last"
    "rs \<noteq> []" "rs ! 0 = 0" "sorted_wrt (<) rs" "last rs + bb_counter b = ?n"
    and hj: "\<And>j. j < length rs \<Longrightarrow> 0 < j \<Longrightarrow> rs ! j < ?n"
      "\<And>j. j < length rs \<Longrightarrow> rs ! j < ?n \<Longrightarrow> fst (ents ! (rs ! j)) = 0"
    using assms by (simp_all add: bb_holds_def)
  have rle: "r \<le> ?n" if r: "r \<in> set rs" for r
  proof -
    obtain j where "j < length rs" "r = rs ! j" using r by (auto simp: in_set_conv_nth)
    then show ?thesis using hj(1) [of j] h(7) by (cases "j = 0") simp_all
  qed
  show ?thesis
  proof (cases "bb_counter b < bb_interval b")
    case True
    let ?s = "shared_prefix ?last k"
    have t: "?s \<le> length ?last" "?s \<le> length k" "take ?s k = take ?s ?last"
      using shared_prefix_take by blast+
    have "fst ((ents @ [(?s, k, v)]) ! (rs ! j)) = 0" if "j < length rs" for j
    proof (cases "rs ! j < ?n")
      case False
      then have "j = 0" using hj(1) that by auto
      then have "?n = 0" using False h(7) by simp
      then show ?thesis using \<open>j = 0\<close> h(7) by simp
    qed (use hj(2) that in \<open>simp add: nth_append\<close>)
    moreover have "rs ! j < Suc ?n" if "j < length rs" for j using rle that by (simp add: less_Suc_eq_le)
    moreover have "map (\<lambda>r. word_of_nat (off ents r) :: u32) rs = map (\<lambda>r. word_of_nat (off (ents @ [(?s, k, v)]) r)) rs"
      using rle by (simp add: off_append)
    moreover have "take ?s ?last @ drop ?s k = k" using t(3) by (metis append_take_drop_id)
    moreover have "chain [] (ents @ [(?s, k, v)])" using h(4) t by (simp add: chain_append Let_def)
    ultimately have "bb_holds (bb_Add k v b) (ents @ [(?s, k, v)]) rs"
      using h(1-3,5-9) True by (simp add: bb_holds_def bb_Add_def Let_def PutVarint32_def)
    then show ?thesis by blast
  next
    case False
    then have "bb_counter b \<noteq> 0" using h(1) by simp
    then have n: "0 < ?n" "last rs < ?n" using h(9) by linarith+
    have lt: "rs ! j < ?n" if "j < length rs" for j using hj(1) that n h(7) by (cases "j = 0") simp_all
    let ?rs = "rs @ [?n]" and ?e = "ents @ [(0, k, v)]"
    have "fst (?e ! (?rs ! j)) = 0" if "j < length ?rs" for j
      using hj(2) lt that by (cases "j < length rs") (simp_all add: nth_append)
    moreover have "?rs ! j < Suc ?n" if "j < length ?rs" for j
      using lt that by (cases "j < length rs") (simp_all add: nth_append less_SucI)
    moreover have "sorted_wrt (<) ?rs"
      using h(8) lt by (auto simp: sorted_wrt_append in_set_conv_nth)
    moreover have "map (\<lambda>r. word_of_nat (off ents r) :: u32) rs = map (\<lambda>r. word_of_nat (off ?e r)) rs"
      using rle by (simp add: off_append)
    moreover have "length (concat (map enc_entry ents)) = off ?e ?n" by (simp add: off_def)
    moreover have "chain [] ?e" using h(4) by (simp add: chain_append)
    moreover have "?rs ! 0 = 0" using h(6,7) by (cases rs) simp_all
    ultimately have "bb_holds (bb_Add k v b) ?e ?rs"
      using h(1-3,5,6) False unfolding bb_holds_def bb_Add_def
      by (simp add: Let_def PutVarint32_def)
    then show ?thesis by blast
  qed
qed

text \<open>Finishing gives a block whose iterator ranges over the entries.\<close>

lemma drop_fixed32:
  "j < length ws \<Longrightarrow> drop (j * 4) (concat (map EncodeFixed32 ws) @ r) =
   EncodeFixed32 (ws ! j) @ concat (map EncodeFixed32 (drop (Suc j) ws)) @ r"
proof (induction ws arbitrary: j)
  case (Cons w ws)
  then show ?case by (cases j) simp_all
qed simp

lemma fold_PutFixed32: "fold (\<lambda>r buffer. PutFixed32 buffer r) ws buf = buf @ concat (map EncodeFixed32 ws)"
  by (induction ws arbitrary: buf) (simp_all add: PutFixed32_def)

lemma bb_Finish_layout:
  assumes "bb_holds b ents rs" and "bb_Finish b = (data, b')" and "length data < 2 ^ 32"
  shows "block_layout data (off ents (length ents)) (length rs) ents rs \<and>
         blk_NewIterator (new_Block data) = Inr (new_block_iter data (off ents (length ents)) (length rs))"
proof -
  let ?ws = "map (\<lambda>r. word_of_nat (off ents r) :: u32) rs"
  let ?num = "word_of_nat (length rs) :: u32"
  have rep: "bb_buffer b = concat (map enc_entry ents)" "bb_restarts b = ?ws"
    using assms(1) by (simp_all add: bb_holds_def)
  have data: "data = concat (map enc_entry ents) @ concat (map EncodeFixed32 ?ws) @ EncodeFixed32 ?num"
    using assms(2) unfolding bb_Finish_def rep fold_PutFixed32 Let_def by (simp add: PutFixed32_def)
  have o: "off ents (length ents) = length (concat (map enc_entry ents))" by (simp add: off_def)
  have len4: "length (concat (map EncodeFixed32 ws)) = 4 * length ws" for ws
    by (induction ws) simp_all
  have len: "length data = off ents (length ents) + 4 * length rs + 4"
    unfolding data o length_append len4 by simp
  then have num: "length rs < 2 ^ 32" using assms(3) by simp
  have restart: "DecodeFixed32 (drop (off ents (length ents) + j * 4) data) = word_of_nat (off ents (rs ! j))"
    if "j < length rs" for j
    unfolding data o using that drop_fixed32 [of j ?ws "EncodeFixed32 ?num"] by (simp add: drop_map)
  have tail: "DecodeFixed32 (drop (length data - 4) data) = ?num"
  proof -
    have "drop (length data - 4) data = EncodeFixed32 ?num" unfolding data by simp
    then show ?thesis using DecodeFixed32_EncodeFixed32 [of ?num "[]"] by simp
  qed
  have "block_layout data (off ents (length ents)) (length rs) ents rs"
  proof -
    have "take (off ents (length ents)) data = concat (map enc_entry ents)" unfolding data o by simp
    moreover have "rs ! j \<le> length ents" if "j < length rs" for j
      using assms(1) that by (cases "j = 0") (auto simp: bb_holds_def intro: less_imp_le)
    ultimately show ?thesis
      using assms(1,3) restart unfolding block_layout_def bb_holds_def by auto
  qed
  moreover have "blk_NewIterator (new_Block data) = Inr (new_block_iter data (off ents (length ents)) (length rs))"
    using tail len num assms(1) by (auto simp: blk_NewIterator_def new_Block_def NumRestarts_def Let_def bb_holds_def)
  ultimately show ?thesis by blast
qed

text \<open>Adding a list of entries to an empty builder.\<close>

fun bb_AddAll :: "(bytes \<times> bytes) list \<Rightarrow> block_builder \<Rightarrow> block_builder" where
  "bb_AddAll [] b = b"
| "bb_AddAll ((k, v) # es) b = bb_AddAll es (bb_Add k v b)"

text \<open>The contents of the block of a list of entries.\<close>

definition built_block :: "nat \<Rightarrow> (bytes \<times> bytes) list \<Rightarrow> bytes" where
  "built_block interval es = fst (bb_Finish (bb_AddAll es (new_BlockBuilder interval)))"

lemma size_estimate_AddAll:
  "bb_CurrentSizeEstimate (bb_AddAll es b) \<le> bb_CurrentSizeEstimate b + (\<Sum>(k, v) \<leftarrow> es. length k + length v + 19)"
proof (induction es arbitrary: b)
  case (Cons e es)
  obtain k v where e: "e = (k, v)" by (cases e)
  show ?case
    using Cons.IH [of "bb_Add k v b"] size_estimate_Add [of k v b]
    unfolding e bb_AddAll.simps list.map sum_list.Cons prod.case by linarith
qed simp

lemma length_built: "length (fst (bb_Finish (bb_AddAll es (new_BlockBuilder n)))) \<le> 8 + (\<Sum>(k, v) \<leftarrow> es. length k + length v + 19)"
  using size_estimate_AddAll [of es "new_BlockBuilder n"]
  by (simp add: length_bb_Finish) (simp add: bb_CurrentSizeEstimate_def new_BlockBuilder_def)

lemma bb_holds_AddAll:
  "bb_holds b ents rs \<Longrightarrow> \<exists>ents' rs'. bb_holds (bb_AddAll es b) ents' rs' \<and> map snd ents' = map snd ents @ es"
proof (induction es arbitrary: b ents rs)
  case (Cons e es)
  obtain k v where e: "e = (k, v)" by (cases e)
  obtain s rs1 where "bb_holds (bb_Add k v b) (ents @ [(s, k, v)]) rs1"
    using bb_holds_Add [OF Cons.prems] by blast
  from Cons.IH [OF this] show ?case using e by auto
qed auto

text \<open>What reading a finished block gives, for any builder that holds sorted entries.\<close>

context comparator
begin

lemma block_rep_Finish:
  assumes "bb_holds b ents rs" and "bb_Finish b = (data, b')" and "length data < 2 ^ 32"
    and "sorted_entries (map snd ents)"
  shows "\<exists>it. blk_NewIterator (new_Block data) = Inr it \<and> block_rep it (map snd ents) (length ents)"
proof -
  from bb_Finish_layout [OF assms(1-3)]
  have lay: "block_layout data (off ents (length ents)) (length rs) ents rs"
    and it: "blk_NewIterator (new_Block data) = Inr (new_block_iter data (off ents (length ents)) (length rs))" by auto
  have "at_end (new_block_iter data (off ents (length ents)) (length rs)) ents rs"
    using lay by (simp add: at_end_def new_block_iter_def bi_Valid_def)
  then have "block_rep (new_block_iter data (off ents (length ents)) (length rs)) (map snd ents) (length ents)"
    using assms(4) by (intro block_repI [of _ ents _ _ rs]) (simp_all add: new_block_iter_def)
  with it show ?thesis by blast
qed

lemma block_rep_AddAll:
  assumes "1 \<le> interval" and "sorted_entries es"
    and "bb_Finish (bb_AddAll es (new_BlockBuilder interval)) = (data, b')" and "length data < 2 ^ 32"
  shows "\<exists>it. blk_NewIterator (new_Block data) = Inr it \<and> block_rep it es (length es)"
proof -
  obtain ents rs where h: "bb_holds (bb_AddAll es (new_BlockBuilder interval)) ents rs" "map snd ents = es"
    using bb_holds_AddAll [OF bb_holds_new [OF assms(1)], of es] by auto
  have "length ents = length es" using arg_cong [OF h(2), of length] by simp
  then show ?thesis using block_rep_Finish [OF h(1) assms(3,4)] assms(2) h(2) by simp
qed

end

section \<open>Properties\<close>

text \<open>
  C16: A block built from sorted entries reads back through its iterator, for every comparator that
  keeps its contract and every restart interval: forwards from the first entry, backwards from the
  last, and from any target on, also when the iterator already stands anywhere in the block and uses
  its position to shorten the search.
\<close>

theorem block_round_trip:
  assumes "comparator cmp valid" and "1 \<le> interval"
    and "sorted_wrt (\<lambda>a b. cmp_Compare cmp (fst a) (fst b) < 0) es" and "\<forall>e \<in> set es. valid (fst e)"
    and "bb_Finish (bb_AddAll es (new_BlockBuilder interval)) = (data, b')" and "length data < 2 ^ 32"
  shows "\<exists>it. blk_NewIterator (new_Block data) = Inr it \<and>
           it_collect (block_iter_ops cmp) (length es) (bi_SeekToFirst it) = es \<and>
           it_collect_back (block_iter_ops cmp) (length es) (bi_SeekToLast it) = rev es \<and>
           (\<forall>t t'. valid t \<longrightarrow> valid t' \<longrightarrow>
              it_collect (block_iter_ops cmp) (length es) (bi_Seek cmp (bi_Seek cmp it t') t) =
                filter (\<lambda>e. \<not> cmp_Compare cmp (fst e) t < 0) es)"
proof -
  note c = assms(1) and contract = comparator.block_iter_contract [OF assms(1)]
  from comparator.block_rep_AddAll [OF c assms(2) conjI [OF assms(3,4)] assms(5,6)] obtain it where
    it: "blk_NewIterator (new_Block data) = Inr it" and rep: "comparator.block_rep cmp valid it es (length es)" by blast
  have ops: "it_SeekToFirst (block_iter_ops cmp) = bi_SeekToFirst" "it_SeekToLast (block_iter_ops cmp) = bi_SeekToLast"
    "it_Seek (block_iter_ops cmp) = bi_Seek cmp"
    by (simp_all add: block_iter_ops_def)
  have "it_collect (block_iter_ops cmp) (length es) (bi_Seek cmp (bi_Seek cmp it t') t) =
      filter (\<lambda>e. \<not> cmp_Compare cmp (fst e) t < 0) es" if "valid t" "valid t'" for t t'
    using sorted_iterator.collect_from [OF contract sorted_iterator.Seek_rep [OF contract rep that(2)] that(1)]
      sorted_iterator.dropWhile_filter [OF contract rep that(1)] unfolding ops by simp
  then show ?thesis
    using it sorted_iterator.collect_all [OF contract rep] sorted_iterator.collect_all_back [OF contract rep]
    unfolding ops by blast
qed

theorem block_round_trip_witness:
  "\<exists>it. blk_NewIterator (new_Block (fst (bb_Finish (bb_AddAll [([1, 2], [7]), ([1, 3], [8])] (new_BlockBuilder 16))))) =
      Inr it \<and>
    it_collect (block_iter_ops BytewiseComparator) 2 (bi_SeekToFirst it) = [([1, 2], [7]), ([1, 3], [8])]"
proof -
  let ?es = "[([1, 2], [7]), ([1, 3], [8])] :: (bytes \<times> bytes) list"
  have "length (fst (bb_Finish (bb_AddAll ?es (new_BlockBuilder 16)))) < 2 ^ 32"
    by (simp add: bb_Finish_def bb_Add_def new_BlockBuilder_def PutVarint32_def PutFixed32_def EncodeVarint32_def
        Let_def)
  from block_round_trip [OF bytewise.comparator_axioms _ _ _ prod.collapse [symmetric] this]
  obtain it where "blk_NewIterator (new_Block (fst (bb_Finish (bb_AddAll ?es (new_BlockBuilder 16))))) = Inr it"
    "it_collect (block_iter_ops BytewiseComparator) (length ?es) (bi_SeekToFirst it) = ?es" by auto
  then show ?thesis by (simp add: numeral_2_eq_2)
qed

text \<open>
  C37: The three lengths at the front of an entry decode to what the builder wrote on the fast path
  and on the slow one, and an entry whose key and value lengths do not overflow 32 bits is accepted
  only if both are inside the block. Lengths that do overflow slip through: the sum wraps, and the
  iterator would read a key of four gigabytes from an empty buffer.
\<close>

theorem decode_entry_bounds:
  "(s \<le> length k \<and> length (enc_entry (s, k, v) @ r) < 2 ^ 32 \<longrightarrow>
      DecodeEntry (enc_entry (s, k, v) @ r) =
        Some (word_of_nat s, word_of_nat (length k - s), word_of_nat (length v), drop s k @ v @ r)) \<and>
   (DecodeEntry p = Some (shared, non_shared, value_length, rest) \<and> length p < 2 ^ 32 \<and>
      unat non_shared + unat value_length < 2 ^ 32 \<longrightarrow>
      unat non_shared + unat value_length \<le> length rest) \<and>
   DecodeEntry (EncodeVarint32 0 @ EncodeVarint32 (- 1) @ EncodeVarint32 1) = Some (0, - 1, 1, [])"
proof (intro conjI impI)
  assume a: "DecodeEntry p = Some (shared, non_shared, value_length, rest) \<and> length p < 2 ^ 32 \<and>
      unat non_shared + unat value_length < 2 ^ 32"
  then have "\<not> word_of_nat (length rest) < non_shared + value_length"
    unfolding DecodeEntry_def Let_def by (auto split: if_splits option.splits)
  moreover have "length rest < 2 ^ 32" using DecodeEntry_shorter a by fastforce
  moreover have "unat (non_shared + value_length) = unat non_shared + unat value_length"
    using a by (simp add: unat_word_ariths)
  ultimately show "unat non_shared + unat value_length \<le> length rest"
    by (simp add: word_less_nat_alt not_less)
next
  have "decode_lengths (EncodeVarint32 0 @ EncodeVarint32 (- 1) @ EncodeVarint32 1) = Some (0, - 1, 1, [])"
    using GetVarint32_EncodeVarint32 [of 1 "[]"] GetVarint32_EncodeVarint32 [of "- 1" "EncodeVarint32 1"]
      GetVarint32_EncodeVarint32 [of 0]
    by (simp add: decode_lengths_def GetVarint32_def)
  moreover have "3 \<le> length (EncodeVarint32 0 @ EncodeVarint32 (- 1) @ EncodeVarint32 1)"
    by (simp add: EncodeVarint32_def)
  ultimately show "DecodeEntry (EncodeVarint32 0 @ EncodeVarint32 (- 1) @ EncodeVarint32 1) = Some (0, - 1, 1, [])"
    by (simp add: DecodeEntry_eq)
qed (use DecodeEntry_enc in blast)

theorem decode_entry_bounds_witness:
  "DecodeEntry (enc_entry (0, [5], [6])) = Some (0, 1, 1, [5, 6])"
  using decode_entry_bounds [of 0 "[5]" "[6]" "[]"] by (simp add: EncodeVarint32_def)

end
