(* ===== verification/Merger.thy ===== *)
theory Merger
  imports BlockIter
begin

text \<open>
  The merging iterator, \<^verbatim>\<open>table/merger.cc\<close>, over children with the iterator contract: it is itself
  a cursor, over the merged entries, in both directions and through every change of direction.
\<close>

section \<open>The iterator\<close>

datatype direction = kForward | kReverse

record 'i merging_iterator =
  mi_children :: "'i wrapper list"
  mi_current :: "nat option"
  mi_direction :: direction

definition new_MergingIterator :: "'i iter_ops \<Rightarrow> 'i list \<Rightarrow> 'i merging_iterator" where
  "new_MergingIterator ops children =
     \<lparr>mi_children = map (\<lambda>c. new_wrapper ops (Some c)) children, mi_current = None, mi_direction = kForward\<rparr>"

definition FindSmallest :: "(bytes \<Rightarrow> bytes \<Rightarrow> int) \<Rightarrow> 'i wrapper list \<Rightarrow> nat option" where
  "FindSmallest compare children =
     foldl (\<lambda>smallest i.
        let child = children ! i
        in if iw_valid child then
             (case smallest of
                None \<Rightarrow> Some i
              | Some s \<Rightarrow> if compare (iw_key child) (iw_key (children ! s)) < 0 then Some i else smallest)
           else smallest) None [0..<length children]"

definition FindLargest :: "(bytes \<Rightarrow> bytes \<Rightarrow> int) \<Rightarrow> 'i wrapper list \<Rightarrow> nat option" where
  "FindLargest compare children =
     foldl (\<lambda>largest i.
        let child = children ! i
        in if iw_valid child then
             (case largest of
                None \<Rightarrow> Some i
              | Some l \<Rightarrow> if compare (iw_key child) (iw_key (children ! l)) > 0 then Some i else largest)
           else largest) None (rev [0..<length children])"

definition mi_Valid :: "'i merging_iterator \<Rightarrow> bool" where
  "mi_Valid m = (mi_current m \<noteq> None)"

definition mi_key :: "'i merging_iterator \<Rightarrow> bytes" where
  "mi_key m = iw_key (mi_children m ! the (mi_current m))"

definition mi_value :: "'i iter_ops \<Rightarrow> 'i merging_iterator \<Rightarrow> bytes" where
  "mi_value ops m = iw_value ops (mi_children m ! the (mi_current m))"

definition mi_SeekToFirst :: "(bytes \<Rightarrow> bytes \<Rightarrow> int) \<Rightarrow> 'i iter_ops \<Rightarrow> 'i merging_iterator \<Rightarrow> 'i merging_iterator" where
  "mi_SeekToFirst compare ops m =
     (let children = map (iw_SeekToFirst ops) (mi_children m)
      in m\<lparr>mi_children := children, mi_current := FindSmallest compare children, mi_direction := kForward\<rparr>)"

definition mi_SeekToLast :: "(bytes \<Rightarrow> bytes \<Rightarrow> int) \<Rightarrow> 'i iter_ops \<Rightarrow> 'i merging_iterator \<Rightarrow> 'i merging_iterator" where
  "mi_SeekToLast compare ops m =
     (let children = map (iw_SeekToLast ops) (mi_children m)
      in m\<lparr>mi_children := children, mi_current := FindLargest compare children, mi_direction := kReverse\<rparr>)"

definition mi_Seek :: "(bytes \<Rightarrow> bytes \<Rightarrow> int) \<Rightarrow> 'i iter_ops \<Rightarrow> 'i merging_iterator \<Rightarrow> bytes \<Rightarrow> 'i merging_iterator" where
  "mi_Seek compare ops m target =
     (let children = map (iw_Seek ops target) (mi_children m)
      in m\<lparr>mi_children := children, mi_current := FindSmallest compare children, mi_direction := kForward\<rparr>)"

text \<open>The children other than the current one moved behind, or before, the current key.\<close>

definition after_key :: "(bytes \<Rightarrow> bytes \<Rightarrow> int) \<Rightarrow> 'i iter_ops \<Rightarrow> bytes \<Rightarrow> 'i wrapper \<Rightarrow> 'i wrapper" where
  "after_key compare ops key child =
     (let child = iw_Seek ops key child
      in if iw_valid child \<and> compare key (iw_key child) = 0 then iw_Next ops child else child)"

definition before_key :: "'i iter_ops \<Rightarrow> bytes \<Rightarrow> 'i wrapper \<Rightarrow> 'i wrapper" where
  "before_key ops key child =
     (let child = iw_Seek ops key child
      in if iw_valid child then iw_Prev ops child else iw_SeekToLast ops child)"

definition others :: "nat \<Rightarrow> ('i wrapper \<Rightarrow> 'i wrapper) \<Rightarrow> 'i wrapper list \<Rightarrow> 'i wrapper list" where
  "others current f children = map (\<lambda>i. if i \<noteq> current then f (children ! i) else children ! i) [0..<length children]"

definition mi_Next :: "(bytes \<Rightarrow> bytes \<Rightarrow> int) \<Rightarrow> 'i iter_ops \<Rightarrow> 'i merging_iterator \<Rightarrow> 'i merging_iterator" where
  "mi_Next compare ops m =
     (let current = the (mi_current m);
          children = (if mi_direction m \<noteq> kForward
                      then others current (after_key compare ops (mi_key m)) (mi_children m) else mi_children m);
          children = children[current := iw_Next ops (children ! current)]
      in m\<lparr>mi_children := children, mi_current := FindSmallest compare children, mi_direction := kForward\<rparr>)"

definition mi_Prev :: "(bytes \<Rightarrow> bytes \<Rightarrow> int) \<Rightarrow> 'i iter_ops \<Rightarrow> 'i merging_iterator \<Rightarrow> 'i merging_iterator" where
  "mi_Prev compare ops m =
     (let current = the (mi_current m);
          children = (if mi_direction m \<noteq> kReverse
                      then others current (before_key ops (mi_key m)) (mi_children m) else mi_children m);
          children = children[current := iw_Prev ops (children ! current)]
      in m\<lparr>mi_children := children, mi_current := FindLargest compare children, mi_direction := kReverse\<rparr>)"

fun mi_status_loop :: "'i iter_ops \<Rightarrow> 'i wrapper list \<Rightarrow> status" where
  "mi_status_loop ops [] = OK"
| "mi_status_loop ops (c # cs) =
     (let status = iw_status ops c in if \<not> ok status then status else if cs = [] then status else mi_status_loop ops cs)"

definition merging_iter_ops :: "(bytes \<Rightarrow> bytes \<Rightarrow> int) \<Rightarrow> 'i iter_ops \<Rightarrow> 'i merging_iterator iter_ops" where
  "merging_iter_ops compare ops =
     \<lparr>it_Valid = mi_Valid, it_SeekToFirst = mi_SeekToFirst compare ops, it_SeekToLast = mi_SeekToLast compare ops,
      it_Seek = mi_Seek compare ops, it_Next = mi_Next compare ops, it_Prev = mi_Prev compare ops,
      it_key = mi_key, it_value = mi_value ops, it_status = (\<lambda>m. mi_status_loop ops (mi_children m))\<rparr>"

text \<open>\<^verbatim>\<open>NewMergingIterator\<close>: none, one or many children.\<close>

datatype 'i merged = NoChild empty_iterator | OneChild 'i | Merging "'i merging_iterator"

definition NewMergingIterator :: "'i iter_ops \<Rightarrow> 'i list \<Rightarrow> 'i merged" where
  "NewMergingIterator ops children =
     (if children = [] then NoChild NewEmptyIterator
      else if length children = 1 then OneChild (children ! 0)
      else Merging (new_MergingIterator ops children))"

section \<open>Smallest and largest child\<close>

text \<open>Selecting by a fold: the result is valid, and at least as good as every valid candidate.\<close>

lemma select_fold:
  assumes "\<And>a b. D a \<Longrightarrow> D b \<Longrightarrow> better a b \<Longrightarrow> le a b" and "\<And>a b. D a \<Longrightarrow> D b \<Longrightarrow> \<not> better a b \<Longrightarrow> le b a"
    and "\<And>a b c. D a \<Longrightarrow> D b \<Longrightarrow> D c \<Longrightarrow> le a b \<Longrightarrow> le b c \<Longrightarrow> le a c" and "\<And>a. D a \<Longrightarrow> le a a"
    and "\<And>i. i \<in> set is \<Longrightarrow> V i \<Longrightarrow> D (K i)"
  shows "case foldl (\<lambda>best i. if V i then (case best of None \<Rightarrow> Some i
             | Some s \<Rightarrow> if better (K i) (K s) then Some i else best) else best) None is of
      None \<Rightarrow> \<forall>i \<in> set is. \<not> V i
    | Some s \<Rightarrow> s \<in> set is \<and> V s \<and> (\<forall>i \<in> set is. V i \<longrightarrow> le (K s) (K i))"
  using assms(5)
proof (induction "is" rule: rev_induct)
  case (snoc n "is")
  let ?f = "\<lambda>best i. if V i then (case best of None \<Rightarrow> Some i
             | Some s \<Rightarrow> if better (K i) (K s) then Some i else best) else best"
  show ?case
  proof (cases "foldl ?f None is")
    case None
    then show ?thesis using snoc assms(4) by auto
  next
    case (Some s)
    then have s: "s \<in> set is" "V s" "\<And>i. i \<in> set is \<Longrightarrow> V i \<Longrightarrow> le (K s) (K i)" using snoc by simp_all
    have D: "D (K s)" "\<And>i. i \<in> set is \<Longrightarrow> V i \<Longrightarrow> D (K i)" "V n \<Longrightarrow> D (K n)" using s snoc.prems by simp_all
    show ?thesis
    proof (cases "V n \<and> better (K n) (K s)")
      case True
      then have "le (K n) (K s)" using assms(1) D by blast
      then have "le (K n) (K i)" if "i \<in> set is" "V i" for i
        using assms(3) [of "K n" "K s" "K i"] s(3) D that True by blast
      then show ?thesis using Some True assms(4) D by auto
    next
      case False
      then have "le (K s) (K n)" if "V n" using assms(2) D that by blast
      then show ?thesis using Some False s by auto
    qed
  qed
qed simp

context sorted_iterator
begin

lemma FindSmallest_spec:
  assumes "\<And>i. i < length cs \<Longrightarrow> iw_valid (cs ! i) \<Longrightarrow> valid (iw_key (cs ! i))"
  shows "case FindSmallest compare cs of
      None \<Rightarrow> \<forall>i < length cs. \<not> iw_valid (cs ! i)
    | Some s \<Rightarrow> s < length cs \<and> iw_valid (cs ! s) \<and>
        (\<forall>i < length cs. iw_valid (cs ! i) \<longrightarrow> compare (iw_key (cs ! s)) (iw_key (cs ! i)) \<le> 0)"
proof -
  have "case FindSmallest compare cs of
      None \<Rightarrow> \<forall>i \<in> set [0..<length cs]. \<not> iw_valid (cs ! i)
    | Some s \<Rightarrow> s \<in> set [0..<length cs] \<and> iw_valid (cs ! s) \<and>
        (\<forall>i \<in> set [0..<length cs]. iw_valid (cs ! i) \<longrightarrow> compare (iw_key (cs ! s)) (iw_key (cs ! i)) \<le> 0)"
    unfolding FindSmallest_def Let_def
    by (rule select_fold [where D = valid])
      (simp, simp add: not_less, blast intro: trans, simp, simp add: assms)
  then show ?thesis by (simp split: option.splits)
qed

lemma FindLargest_spec:
  assumes "\<And>i. i < length cs \<Longrightarrow> iw_valid (cs ! i) \<Longrightarrow> valid (iw_key (cs ! i))"
  shows "case FindLargest compare cs of
      None \<Rightarrow> \<forall>i < length cs. \<not> iw_valid (cs ! i)
    | Some s \<Rightarrow> s < length cs \<and> iw_valid (cs ! s) \<and>
        (\<forall>i < length cs. iw_valid (cs ! i) \<longrightarrow> compare (iw_key (cs ! i)) (iw_key (cs ! s)) \<le> 0)"
proof -
  have "case FindLargest compare cs of
      None \<Rightarrow> \<forall>i \<in> set (rev [0..<length cs]). \<not> iw_valid (cs ! i)
    | Some s \<Rightarrow> s \<in> set (rev [0..<length cs]) \<and> iw_valid (cs ! s) \<and>
        (\<forall>i \<in> set (rev [0..<length cs]). iw_valid (cs ! i) \<longrightarrow> compare (iw_key (cs ! i)) (iw_key (cs ! s)) \<le> 0)"
    unfolding FindLargest_def Let_def
    by (rule select_fold [where D = valid])
      (simp add: compare_gt, simp, blast intro: trans, simp, simp add: assms)
  then show ?thesis by (simp split: option.splits)
qed

section \<open>Merged entries\<close>

text \<open>
  \<open>es\<close> merges the lists \<open>ess\<close>: it is sorted and its entries are those of the lists, each in one of
  them. \<open>split_at es k ess ps\<close>: the positions \<open>ps\<close> divide every list into what is among the first \<open>k\<close>
  merged entries and the rest.
\<close>

definition merges :: "(bytes \<times> bytes) list \<Rightarrow> (bytes \<times> bytes) list list \<Rightarrow> bool" where
  "merges es ess \<longleftrightarrow>
     sorted_wrt (\<lambda>a b. less (fst a) (fst b)) es \<and> (\<forall>e \<in> set es. valid (fst e)) \<and>
     set es = (\<Union>l \<in> set ess. set l) \<and>
     (\<forall>l \<in> set ess. sorted_wrt (\<lambda>a b. less (fst a) (fst b)) l) \<and>
     (\<forall>i < length ess. \<forall>j < length ess. i \<noteq> j \<longrightarrow> set (ess ! i) \<inter> set (ess ! j) = {})"

definition split_at :: "(bytes \<times> bytes) list \<Rightarrow> nat \<Rightarrow> (bytes \<times> bytes) list list \<Rightarrow> nat list \<Rightarrow> bool" where
  "split_at es k ess ps \<longleftrightarrow>
     length ps = length ess \<and>
     (\<forall>j < length ess. ps ! j \<le> length (ess ! j) \<and>
        (\<forall>i < length (ess ! j). i < ps ! j \<longleftrightarrow> ess ! j ! i \<in> set (take k es)))"

text \<open>The position of an iterator that moves backwards: before the split.\<close>

definition back_pos :: "(bytes \<times> bytes) list \<Rightarrow> nat \<Rightarrow> nat" where
  "back_pos es p = (if p = 0 then length es else p - 1)"

lemma sorted_keys_inj:
  assumes "sorted_wrt (\<lambda>a b. less (fst a) (fst b)) es" and "\<forall>e \<in> set es. valid (fst e)"
    and "i < length es" and "j < length es"
  shows "less (fst (es ! i)) (fst (es ! j)) \<longleftrightarrow> i < j" and "compare (fst (es ! i)) (fst (es ! j)) = 0 \<longleftrightarrow> i = j"
proof -
  have v: "valid (fst (es ! i))" "valid (fst (es ! j))" using assms by auto
  have lt: "a < b \<Longrightarrow> b < length es \<Longrightarrow> less (fst (es ! a)) (fst (es ! b))" for a b
    using assms(1) by (simp add: sorted_wrt_iff_nth_less)
  consider "i < j" "less (fst (es ! i)) (fst (es ! j))" | "i = j" | "j < i" "less (fst (es ! j)) (fst (es ! i))"
    using lt assms(3,4) by (cases i j rule: linorder_cases) blast+
  then have "(less (fst (es ! i)) (fst (es ! j)) \<longleftrightarrow> i < j) \<and> (compare (fst (es ! i)) (fst (es ! j)) = 0 \<longleftrightarrow> i = j)"
  proof cases
    case 3
    then show ?thesis using less_asym [OF v(2,1)] compare_gt [OF v] by simp
  qed (use v in simp_all)
  then show "less (fst (es ! i)) (fst (es ! j)) \<longleftrightarrow> i < j" "compare (fst (es ! i)) (fst (es ! j)) = 0 \<longleftrightarrow> i = j"
    by blast+
qed

lemma mergesD:
  assumes "merges es ess"
  shows "sorted_wrt (\<lambda>a b. less (fst a) (fst b)) es" and "\<forall>e \<in> set es. valid (fst e)"
    and "j < length ess \<Longrightarrow> sorted_wrt (\<lambda>a b. less (fst a) (fst b)) (ess ! j)"
    and "j < length ess \<Longrightarrow> i < length (ess ! j) \<Longrightarrow> \<exists>m < length es. ess ! j ! i = es ! m"
    and "m < length es \<Longrightarrow> \<exists>j < length ess. \<exists>i < length (ess ! j). ess ! j ! i = es ! m"
    and "j < length ess \<Longrightarrow> i < length (ess ! j) \<Longrightarrow> j' < length ess \<Longrightarrow> i' < length (ess ! j') \<Longrightarrow>
         ess ! j ! i = ess ! j' ! i' \<Longrightarrow> j = j'"
proof -
  show "sorted_wrt (\<lambda>a b. less (fst a) (fst b)) es" "\<forall>e \<in> set es. valid (fst e)"
    "j < length ess \<Longrightarrow> sorted_wrt (\<lambda>a b. less (fst a) (fst b)) (ess ! j)"
    using assms by (auto simp: merges_def)
  have U: "set es = (\<Union>l \<in> set ess. set l)" using assms by (simp add: merges_def)
  show "\<exists>m < length es. ess ! j ! i = es ! m" if "j < length ess" "i < length (ess ! j)"
  proof -
    have "ess ! j \<in> set ess" "ess ! j ! i \<in> set (ess ! j)" using that by simp_all
    then have "ess ! j ! i \<in> set es" unfolding U by blast
    then show ?thesis by (metis in_set_conv_nth)
  qed
  show "\<exists>j < length ess. \<exists>i < length (ess ! j). ess ! j ! i = es ! m" if "m < length es"
  proof -
    have "es ! m \<in> (\<Union>l \<in> set ess. set l)" unfolding U [symmetric] using that by simp
    then obtain l where "l \<in> set ess" "es ! m \<in> set l" by blast
    then show ?thesis unfolding in_set_conv_nth by blast
  qed
  show "j = j'" if "j < length ess" "i < length (ess ! j)" "j' < length ess" "i' < length (ess ! j')"
    "ess ! j ! i = ess ! j' ! i'"
  proof (rule ccontr)
    assume "j \<noteq> j'"
    then have "set (ess ! j) \<inter> set (ess ! j') = {}" using assms that by (simp add: merges_def)
    moreover have "ess ! j ! i \<in> set (ess ! j)" using that(2) by simp
    moreover have "ess ! j ! i \<in> set (ess ! j')" unfolding that(5) using that(4) by simp
    ultimately show False by blast
  qed
qed

lemma in_take_sorted:
  assumes "merges es ess" and "m < length es"
  shows "es ! m \<in> set (take k es) \<longleftrightarrow> m < k"
proof
  assume "es ! m \<in> set (take k es)"
  then obtain a where "a < k" "a < length es" "es ! m = es ! a" by (auto simp: in_set_conv_nth)
  then have "compare (fst (es ! m)) (fst (es ! a)) = 0"
    using sorted_keys_inj(2) [OF mergesD(1,2) [OF assms(1)], of m m] assms(2) by simp
  then have "m = a"
    using sorted_keys_inj(2) [OF mergesD(1,2) [OF assms(1)] assms(2) \<open>a < length es\<close>] by blast
  then show "m < k" using \<open>a < k\<close> by simp
next
  assume "m < k"
  then have "take k es ! m = es ! m" "m < length (take k es)" using assms(2) by simp_all
  then show "es ! m \<in> set (take k es)" by (metis nth_mem)
qed

text \<open>The order of a child's entries is the order of their places in the merged list.\<close>

lemma child_order:
  assumes "merges es ess" and "j < length ess" and "i < length (ess ! j)" and "i' < length (ess ! j)"
    and "ess ! j ! i = es ! m" "m < length es" and "ess ! j ! i' = es ! m'" "m' < length es"
  shows "i < i' \<longleftrightarrow> m < m'"
proof -
  have "\<forall>e \<in> set (ess ! j). valid (fst e)"
    using assms(1,2) by (auto simp: merges_def)
  then have "less (fst (ess ! j ! i)) (fst (ess ! j ! i')) \<longleftrightarrow> i < i'"
    using sorted_keys_inj(1) [OF mergesD(3) [OF assms(1,2)]] assms(3,4) by blast
  moreover have "less (fst (es ! m)) (fst (es ! m')) \<longleftrightarrow> m < m'"
    using sorted_keys_inj(1) [OF mergesD(1,2) [OF assms(1)]] assms(6,8) by blast
  ultimately show ?thesis using assms(5,7) by simp
qed

text \<open>The first entry behind the split, and the last one before it, by child.\<close>

lemma split_iff:
  assumes "merges es ess" and "split_at es k ess ps" and "j < length ess" and "i < length (ess ! j)"
    and "ess ! j ! i = es ! m" and "m < length es"
  shows "i < ps ! j \<longleftrightarrow> m < k"
  using assms in_take_sorted [OF assms(1,6)] by (simp add: split_at_def)

lemma split_first:
  assumes "merges es ess" and "split_at es k ess ps" and "k < length es"
  shows "\<exists>j < length ess. ps ! j < length (ess ! j) \<and> ess ! j ! (ps ! j) = es ! k"
proof -
  obtain j i where j: "j < length ess" "i < length (ess ! j)" "ess ! j ! i = es ! k"
    using mergesD(5) [OF assms(1,3)] by blast
  have i: "ps ! j \<le> i" using split_iff [OF assms(1,2) j assms(3)] by simp
  then have p: "ps ! j < length (ess ! j)" using j(2) by simp
  then obtain m where m: "m < length es" "ess ! j ! (ps ! j) = es ! m" using mergesD(4) [OF assms(1) j(1)] by blast
  have "\<not> m < k" using split_iff [OF assms(1,2) j(1) p m(2,1)] by simp
  then have "\<not> ps ! j < i" using child_order [OF assms(1) j(1) p j(2) m(2,1) j(3) assms(3)] by simp
  then show ?thesis using i j p by (intro exI [of _ j]) simp
qed

lemma split_last:
  assumes "merges es ess" and "split_at es k ess ps" and "0 < k" and "k \<le> length es"
  shows "\<exists>j < length ess. 0 < ps ! j \<and> ess ! j ! (ps ! j - 1) = es ! (k - 1)"
proof -
  have k: "k - 1 < length es" using assms(3,4) by simp
  obtain j i where j: "j < length ess" "i < length (ess ! j)" "ess ! j ! i = es ! (k - 1)"
    using mergesD(5) [OF assms(1) k] by blast
  have i: "i < ps ! j" using split_iff [OF assms(1,2) j k] assms(3) by simp
  have p: "ps ! j - 1 < length (ess ! j)" "ps ! j - 1 < ps ! j"
    using assms(2) j(1) i by (auto simp: split_at_def)
  then obtain m where m: "m < length es" "ess ! j ! (ps ! j - 1) = es ! m" using mergesD(4) [OF assms(1) j(1)] by blast
  have "m < k" using split_iff [OF assms(1,2) j(1) p(1) m(2,1)] p(2) by simp
  then have "\<not> i < ps ! j - 1" using child_order [OF assms(1) j(1,2) p(1) j(3) k m(2,1)] by simp
  then have "i = ps ! j - 1" using i by simp
  then show ?thesis using i j by (intro exI [of _ j]) auto
qed

text \<open>Moving the split over one entry moves one child.\<close>

lemma split_step:
  assumes "merges es ess" and "split_at es k ess ps" and "c < length ess" and "ps ! c < length (ess ! c)"
    and "ess ! c ! (ps ! c) = es ! k" and "k < length es"
  shows "split_at es (k + 1) ess (ps[c := ps ! c + 1])"
  unfolding split_at_def
proof (intro conjI allI impI)
  fix j
  assume j: "j < length ess"
  have l: "length ps = length ess" "ps ! j \<le> length (ess ! j)" using assms(2) j by (simp_all add: split_at_def)
  show "ps[c := ps ! c + 1] ! j \<le> length (ess ! j)" using l assms(4) j by (cases "j = c") auto
  fix i
  assume i: "i < length (ess ! j)"
  obtain m where m: "m < length es" "ess ! j ! i = es ! m" using mergesD(4) [OF assms(1) j i] by blast
  have "i < ps ! j \<longleftrightarrow> m < k" using split_iff [OF assms(1,2) j i m(2,1)] .
  moreover have "m = k \<longleftrightarrow> j = c \<and> i = ps ! c"
  proof
    assume mk: "m = k"
    then have jc: "j = c" using mergesD(6) [OF assms(1) j i assms(3,4)] m(2) assms(5) by simp
    moreover have "i = ps ! c"
      using child_order [OF assms(1,3) _ assms(4) _ m(1) assms(5,6), of i]
        child_order [OF assms(1,3,4) _ assms(5,6) _ m(1), of i] i m(2) jc mk by auto
    ultimately show "j = c \<and> i = ps ! c" by simp
  next
    assume "j = c \<and> i = ps ! c"
    then have "es ! m \<in> set (take (k + 1) es) \<longleftrightarrow> es ! k \<in> set (take (k + 1) es)"
      "es ! m \<in> set (take k es) \<longleftrightarrow> es ! k \<in> set (take k es)" using m(2) assms(5) by simp_all
    then show "m = k" using in_take_sorted [OF assms(1)] m(1) assms(6) by simp
  qed
  ultimately show "i < ps[c := ps ! c + 1] ! j \<longleftrightarrow> ess ! j ! i \<in> set (take (k + 1) es)"
    using in_take_sorted [OF assms(1) m(1), of "k + 1"] m(2) l assms(3) j by (cases "j = c") auto
qed (use assms(2) in \<open>simp add: split_at_def\<close>)

lemma split_unique: "split_at es k ess ps \<Longrightarrow> split_at es k ess qs \<Longrightarrow> ps = qs"
proof (rule nth_equalityI)
  assume a: "split_at es k ess ps" "split_at es k ess qs"
  show "length ps = length qs" using a by (simp add: split_at_def)
  fix j
  assume "j < length ps"
  then have j: "j < length ess" using a(1) by (simp add: split_at_def)
  then have "ps ! j \<le> length (ess ! j)" "qs ! j \<le> length (ess ! j)"
    "\<And>i. i < length (ess ! j) \<Longrightarrow> i < ps ! j \<longleftrightarrow> i < qs ! j"
    using a by (simp_all add: split_at_def)
  note iff = this
  show "ps ! j = qs ! j"
  proof (cases "ps ! j" "qs ! j" rule: linorder_cases)
    case less
    then show ?thesis using iff(3) [of "ps ! j"] iff(2) by simp
  next
    case greater
    then show ?thesis using iff(3) [of "qs ! j"] iff(1) by simp
  qed
qed

text \<open>The positions at a target divide the lists where the target divides the merged list.\<close>

definition seek_positions :: "bytes \<Rightarrow> (bytes \<times> bytes) list list \<Rightarrow> nat list" where
  "seek_positions t ess = map (\<lambda>l. length (takeWhile (\<lambda>e. less (fst e) t) l)) ess"

lemma merges_child:
  assumes "merges es ess" and "j < length ess"
  shows "sorted_wrt (\<lambda>a b. less (fst a) (fst b)) (ess ! j)" and "\<forall>e \<in> set (ess ! j). valid (fst e)"
  using assms by (auto simp: merges_def)

lemma split_seek:
  assumes "merges es ess" and "valid t"
  shows "split_at es (length (takeWhile (\<lambda>e. less (fst e) t) es)) ess (seek_positions t ess)"
  unfolding split_at_def
proof (intro conjI allI impI)
  fix j i
  assume j: "j < length ess" and i: "i < length (ess ! j)"
  obtain m where m: "m < length es" "ess ! j ! i = es ! m" using mergesD(4) [OF assms(1) j i] by blast
  show "i < seek_positions t ess ! j \<longleftrightarrow> ess ! j ! i \<in> set (take (length (takeWhile (\<lambda>e. less (fst e) t) es)) es)"
    using takeWhile_less_iff [OF merges_child [OF assms(1) j] assms(2) i]
      takeWhile_less_iff [OF mergesD(1,2) [OF assms(1)] assms(2) m(1)]
      in_take_sorted [OF assms(1) m(1)] m(2) j by (simp add: seek_positions_def)
qed (simp_all add: seek_positions_def length_takeWhile_le)

lemma takeWhile_key:
  assumes "merges es ess" and "p < length es"
  shows "length (takeWhile (\<lambda>e. less (fst e) (fst (es ! p))) es) = p"
proof -
  have v: "valid (fst (es ! p))" using mergesD(2) [OF assms(1)] assms(2) by simp
  let ?n = "length (takeWhile (\<lambda>e. less (fst e) (fst (es ! p))) es)"
  have iff: "i < ?n \<longleftrightarrow> i < p" if "i < length es" for i
    using takeWhile_less_iff [OF mergesD(1,2) [OF assms(1)] v that]
      sorted_keys_inj(1) [OF mergesD(1,2) [OF assms(1)] that assms(2)] by simp
  have "?n \<le> length es" by (rule length_takeWhile_le)
  then show ?thesis using iff [of p] iff [of ?n] assms(2) by (cases ?n p rule: linorder_cases) simp_all
qed

lemma split_key:
  assumes "merges es ess" and "p < length es"
  shows "split_at es p ess (seek_positions (fst (es ! p)) ess)"
  using split_seek [OF assms(1), of "fst (es ! p)"] takeWhile_key [OF assms] mergesD(2) [OF assms(1)] assms(2) by simp

section \<open>The contract of the merging iterator\<close>

definition children_at :: "'i wrapper list \<Rightarrow> (bytes \<times> bytes) list list \<Rightarrow> nat list \<Rightarrow> bool" where
  "children_at cs ess qs \<longleftrightarrow>
     length cs = length ess \<and> length qs = length ess \<and> (\<forall>j < length ess. wrep (cs ! j) (ess ! j) (qs ! j))"

definition merge_rep :: "'i merging_iterator \<Rightarrow> (bytes \<times> bytes) list \<Rightarrow> nat \<Rightarrow> bool" where
  "merge_rep m es p \<longleftrightarrow>
     (\<exists>ess qs. merges es ess \<and> children_at (mi_children m) ess qs \<and>
        (if p < length es then
           \<exists>c < length ess. mi_current m = Some c \<and> qs ! c < length (ess ! c) \<and> ess ! c ! (qs ! c) = es ! p \<and>
             (case mi_direction m of
                kForward \<Rightarrow> split_at es p ess qs
              | kReverse \<Rightarrow> \<exists>ps. split_at es (p + 1) ess ps \<and> (\<forall>j < length ess. qs ! j = back_pos (ess ! j) (ps ! j)))
         else p = length es \<and> mi_current m = None))"

lemma children_at_valid:
  assumes "children_at cs ess qs" and "merges es ess" and "i < length cs" and "iw_valid (cs ! i)"
  shows "valid (iw_key (cs ! i))"
proof -
  have "wrep (cs ! i) (ess ! i) (qs ! i)" "i < length ess" using assms(1,3) by (simp_all add: children_at_def)
  then show ?thesis
    using wrep_ops(2,3) [of "cs ! i" "ess ! i" "qs ! i"] merges_child(2) [OF assms(2)] assms(4) by auto
qed

lemma child_facts:
  assumes "children_at cs ess qs" and "j < length ess"
  shows "iw_valid (cs ! j) \<longleftrightarrow> qs ! j < length (ess ! j)"
    and "qs ! j < length (ess ! j) \<Longrightarrow> iw_key (cs ! j) = fst (ess ! j ! (qs ! j))"
  using assms wrep_ops(2,3) by (auto simp: children_at_def)

lemma forward_state:
  assumes "merges es ess" and "children_at cs ess qs" and "split_at es k ess qs" and "k \<le> length es"
  shows "merge_rep (m\<lparr>mi_children := cs, mi_current := FindSmallest compare cs, mi_direction := kForward\<rparr>) es k"
proof -
  have lcs: "length cs = length ess" using assms(2) by (simp add: children_at_def)
  note spec = FindSmallest_spec [of cs, OF children_at_valid [OF assms(2,1)]]
  show ?thesis
  proof (cases "k < length es")
    case True
    obtain j where j: "j < length ess" "qs ! j < length (ess ! j)" "ess ! j ! (qs ! j) = es ! k"
      using split_first [OF assms(1,3) True] by blast
    then have "iw_valid (cs ! j)" using child_facts(1) [OF assms(2) j(1)] by simp
    then obtain s where s: "FindSmallest compare cs = Some s" "s < length ess" "iw_valid (cs ! s)"
      "compare (iw_key (cs ! s)) (iw_key (cs ! j)) \<le> 0"
      using spec j(1) lcs by (cases "FindSmallest compare cs") auto
    have qs: "qs ! s < length (ess ! s)" using child_facts(1) [OF assms(2) s(2)] s(3) by simp
    obtain a where a: "a < length es" "ess ! s ! (qs ! s) = es ! a" using mergesD(4) [OF assms(1) s(2) qs] by blast
    have "\<not> a < k" using split_iff [OF assms(1,3) s(2) qs a(2,1)] by simp
    moreover have "compare (fst (es ! a)) (fst (es ! k)) \<le> 0"
      using s(4) child_facts(2) [OF assms(2) s(2) qs] child_facts(2) [OF assms(2) j(1,2)] a(2) j(3) by simp
    then have "\<not> k < a"
      using sorted_keys_inj(1) [OF mergesD(1,2) [OF assms(1)] True a(1)]
        not_less [of "fst (es ! k)" "fst (es ! a)"] mergesD(2) [OF assms(1)] True a(1) by auto
    ultimately have "a = k" by simp
    then show ?thesis
      unfolding merge_rep_def using assms(1-3) True s(1,2) qs a(2)
      by (intro exI [of _ ess] exI [of _ qs]) auto
  next
    case False
    then have k: "k = length es" using assms(4) by simp
    have "\<not> iw_valid (cs ! j)" if jl: "j < length ess" for j
    proof
      assume "iw_valid (cs ! j)"
      then have q: "qs ! j < length (ess ! j)" using child_facts(1) [OF assms(2) jl] by simp
      obtain a where "a < length es" "ess ! j ! (qs ! j) = es ! a" using mergesD(4) [OF assms(1) jl q] by blast
      then show False using split_iff [OF assms(1,3) jl q] k by auto
    qed
    then have "FindSmallest compare cs = None"
      using spec lcs by (cases "FindSmallest compare cs") auto
    then show ?thesis unfolding merge_rep_def using assms(1,2) k by auto
  qed
qed

lemma back_pos_valid: "back_pos l p < length l \<longleftrightarrow> 0 < p" if "p \<le> length l"
  using that by (auto simp: back_pos_def)

lemma reverse_state:
  assumes "merges es ess" and "children_at cs ess qs" and "split_at es k ess ps" and "k \<le> length es"
    and "\<forall>j < length ess. qs ! j = back_pos (ess ! j) (ps ! j)"
  shows "merge_rep (m\<lparr>mi_children := cs, mi_current := FindLargest compare cs, mi_direction := kReverse\<rparr>) es (back_pos es k)"
proof -
  have lcs: "length cs = length ess" using assms(2) by (simp add: children_at_def)
  have ple: "ps ! j \<le> length (ess ! j)" if "j < length ess" for j using assms(3) that by (simp add: split_at_def)
  note spec = FindLargest_spec [of cs, OF children_at_valid [OF assms(2,1)]]
  show ?thesis
  proof (cases "0 < k")
    case True
    let ?p = "k - 1"
    have p: "?p < length es" "back_pos es k = ?p" using True assms(4) by (simp_all add: back_pos_def)
    obtain j where j: "j < length ess" "0 < ps ! j" "ess ! j ! (ps ! j - 1) = es ! ?p"
      using split_last [OF assms(1,3) True assms(4)] by blast
    have qj: "qs ! j < length (ess ! j)" "qs ! j = ps ! j - 1"
      using assms(5) j(1,2) ple [OF j(1)] by (auto simp: back_pos_def)
    then have "iw_valid (cs ! j)" using child_facts(1) [OF assms(2) j(1)] by simp
    then obtain s where s: "FindLargest compare cs = Some s" "s < length ess" "iw_valid (cs ! s)"
      "compare (iw_key (cs ! j)) (iw_key (cs ! s)) \<le> 0"
      using spec j(1) lcs by (cases "FindLargest compare cs") auto
    have qs: "qs ! s < length (ess ! s)" using child_facts(1) [OF assms(2) s(2)] s(3) by simp
    then have "0 < ps ! s" "qs ! s < ps ! s"
      using assms(5) s(2) ple [OF s(2)] by (auto simp: back_pos_def split: if_splits)
    obtain a where a: "a < length es" "ess ! s ! (qs ! s) = es ! a" using mergesD(4) [OF assms(1) s(2) qs] by blast
    have "a < k" using split_iff [OF assms(1,3) s(2) qs a(2,1)] \<open>qs ! s < ps ! s\<close> by simp
    moreover have "compare (fst (es ! ?p)) (fst (es ! a)) \<le> 0"
      using s(4) child_facts(2) [OF assms(2) s(2) qs] child_facts(2) [OF assms(2) j(1) qj(1)] a(2) j(3) qj(2) by simp
    then have "\<not> a < ?p"
      using sorted_keys_inj(1) [OF mergesD(1,2) [OF assms(1)] a(1) p(1)]
        not_less [of "fst (es ! a)" "fst (es ! ?p)"] mergesD(2) [OF assms(1)] p(1) a(1) by auto
    ultimately have "a = ?p" by simp
    then show ?thesis
      unfolding merge_rep_def p(2) using assms(1-3,5) p True s(1,2) qs a(2)
      by (intro exI [of _ ess] exI [of _ qs]) auto
  next
    case False
    have "\<not> iw_valid (cs ! j)" if jl: "j < length ess" for j
    proof
      assume "iw_valid (cs ! j)"
      then have q: "qs ! j < length (ess ! j)" using child_facts(1) [OF assms(2) jl] by simp
      then have "qs ! j < ps ! j" using assms(5) jl ple [OF jl] by (auto simp: back_pos_def split: if_splits)
      moreover obtain a where "a < length es" "ess ! j ! (qs ! j) = es ! a" using mergesD(4) [OF assms(1) jl q] by blast
      ultimately show False using split_iff [OF assms(1,3) jl q] False by auto
    qed
    then have "FindLargest compare cs = None"
      using spec lcs by (cases "FindLargest compare cs") auto
    then show ?thesis unfolding merge_rep_def using assms(1,2) False by (auto simp: back_pos_def)
  qed
qed

text \<open>The position of the current entry in its child; no other child stands at an equal key.\<close>

lemma split_pos:
  assumes "merges es ess" and "split_at es p ess lb" and "p < length es"
    and "c < length ess" and "i < length (ess ! c)" and "ess ! c ! i = es ! p"
  shows "lb ! c = i"
proof (cases "lb ! c" i rule: linorder_cases)
  case less
  then have l: "lb ! c < length (ess ! c)" using assms(5) by simp
  obtain m where m: "m < length es" "ess ! c ! (lb ! c) = es ! m" using mergesD(4) [OF assms(1,4) l] by blast
  have "m < p" using child_order [OF assms(1,4) l assms(5) m(2,1) assms(6,3)] less by simp
  then show ?thesis using split_iff [OF assms(1,2,4) l m(2,1)] by simp
next
  case greater
  then show ?thesis using split_iff [OF assms(1,2,4,5,6,3)] by simp
qed simp

lemma other_child_key:
  assumes "merges es ess" and "p < length es" and "c < length ess" and "i < length (ess ! c)" and "ess ! c ! i = es ! p"
    and "j < length ess" and "j \<noteq> c" and "i' < length (ess ! j)"
  shows "compare (fst (es ! p)) (fst (ess ! j ! i')) \<noteq> 0"
proof
  assume z: "compare (fst (es ! p)) (fst (ess ! j ! i')) = 0"
  obtain m where m: "m < length es" "ess ! j ! i' = es ! m" using mergesD(4) [OF assms(1,6,8)] by blast
  then have "p = m" using sorted_keys_inj(2) [OF mergesD(1,2) [OF assms(1)] assms(2) m(1)] z by simp
  then show False using mergesD(6) [OF assms(1,6,8,3,4)] m(2) assms(5,7) by simp
qed

lemma others_nth: "j < length cs \<Longrightarrow> others c f cs ! j = (if j \<noteq> c then f (cs ! j) else cs ! j)"
  by (simp add: others_def)

lemma length_others [simp]: "length (others c f cs) = length cs"
  by (simp add: others_def)

lemma wrep_before_key:
  assumes "wrep w es p" and "valid t"
  shows "wrep (before_key ops t w) es (back_pos es (length (takeWhile (\<lambda>e. less (fst e) t) es)))"
proof -
  let ?n = "length (takeWhile (\<lambda>e. less (fst e) t) es)"
  have s: "wrep (iw_Seek ops t w) es ?n" by (rule wrep_ops(10) [OF assms])
  have n: "?n \<le> length es" by (rule length_takeWhile_le)
  show ?thesis
  proof (cases "?n < length es")
    case True
    then show ?thesis using wrep_ops(9) [OF s True] wrep_ops(2) [OF s] by (simp add: before_key_def Let_def back_pos_def)
  next
    case False
    then have "\<not> iw_valid (iw_Seek ops t w)" using wrep_ops(2) [OF s] by simp
    moreover have "back_pos es ?n = length es - 1" using n False by (auto simp: back_pos_def)
    ultimately show ?thesis using wrep_ops(7) [OF s] by (simp add: before_key_def Let_def)
  qed
qed

lemma wrep_after_key:
  assumes "wrep w es p" and "valid t" and "\<And>i. i < length es \<Longrightarrow> compare t (fst (es ! i)) \<noteq> 0"
  shows "wrep (after_key compare ops t w) es (length (takeWhile (\<lambda>e. less (fst e) t) es))"
proof -
  have s: "wrep (iw_Seek ops t w) es (length (takeWhile (\<lambda>e. less (fst e) t) es))" by (rule wrep_ops(10) [OF assms(1,2)])
  have "\<not> (iw_valid (iw_Seek ops t w) \<and> compare t (iw_key (iw_Seek ops t w)) = 0)"
    using wrep_ops(2,3) [OF s] assms(3) by auto
  then show ?thesis using s by (auto simp: after_key_def Let_def)
qed

lemma merge_repE:
  assumes "merge_rep m es p" and "p < length es"
  obtains ess qs c where "merges es ess" "children_at (mi_children m) ess qs" "c < length ess" "mi_current m = Some c"
    "qs ! c < length (ess ! c)" "ess ! c ! (qs ! c) = es ! p"
    "mi_direction m = kForward \<longrightarrow> qs = seek_positions (fst (es ! p)) ess"
    "mi_direction m = kReverse \<longrightarrow>
      (\<forall>j < length ess. j \<noteq> c \<longrightarrow> qs ! j = back_pos (ess ! j) (seek_positions (fst (es ! p)) ess ! j))"
    "qs ! c = seek_positions (fst (es ! p)) ess ! c" "split_at es p ess (seek_positions (fst (es ! p)) ess)"
proof -
  obtain ess qs c where r: "merges es ess" "children_at (mi_children m) ess qs" "c < length ess" "mi_current m = Some c"
    "qs ! c < length (ess ! c)" "ess ! c ! (qs ! c) = es ! p"
    "case mi_direction m of kForward \<Rightarrow> split_at es p ess qs
     | kReverse \<Rightarrow> \<exists>ps. split_at es (p + 1) ess ps \<and> (\<forall>j < length ess. qs ! j = back_pos (ess ! j) (ps ! j))"
    using assms unfolding merge_rep_def by auto
  let ?lb = "seek_positions (fst (es ! p)) ess"
  have lb: "split_at es p ess ?lb" by (rule split_key [OF r(1) assms(2)])
  have c: "?lb ! c = qs ! c" by (rule split_pos [OF r(1) lb assms(2) r(3,5,6)])
  have "split_at es (p + 1) ess (?lb[c := ?lb ! c + 1])"
    by (rule split_step [OF r(1) lb r(3)]) (use c r(5,6) assms(2) in simp_all)
  then have rev: "mi_direction m = kReverse \<longrightarrow> (\<forall>j < length ess. j \<noteq> c \<longrightarrow> qs ! j = back_pos (ess ! j) (?lb ! j))"
    using r(7) split_unique by fastforce
  have "mi_direction m = kForward \<longrightarrow> qs = ?lb" using r(7) lb split_unique by auto
  then show thesis by (rule that [OF r(1-6) _ rev c [symmetric] lb])
qed

lemma children_at_update:
  assumes "length cs = length ess" and "length qs = length ess"
    and "\<And>j. j < length ess \<Longrightarrow> j \<noteq> c \<Longrightarrow> wrep (cs ! j) (ess ! j) (qs ! j)"
    and "wrep w (ess ! c) q" and "c < length ess"
  shows "children_at (cs[c := w]) ess (qs[c := q])"
  unfolding children_at_def
proof (intro conjI allI impI)
  fix j
  assume "j < length ess"
  then show "wrep (cs[c := w] ! j) (ess ! j) (qs[c := q] ! j)"
    using assms by (cases "j = c") simp_all
qed (use assms in simp_all)

lemma mi_Next_rep:
  assumes "merge_rep m es p" and "p < length es"
  shows "merge_rep (mi_Next compare ops m) es (p + 1)"
proof -
  obtain ess qs c where r: "merges es ess" "children_at (mi_children m) ess qs" "c < length ess" "mi_current m = Some c"
    "qs ! c < length (ess ! c)" "ess ! c ! (qs ! c) = es ! p"
    "mi_direction m = kForward \<longrightarrow> qs = seek_positions (fst (es ! p)) ess"
    "qs ! c = seek_positions (fst (es ! p)) ess ! c" "split_at es p ess (seek_positions (fst (es ! p)) ess)"
    by (rule merge_repE [OF assms])
  let ?lb = "seek_positions (fst (es ! p)) ess"
  let ?cs = "if mi_direction m \<noteq> kForward then others c (after_key compare ops (mi_key m)) (mi_children m) else mi_children m"
  have key: "mi_key m = fst (es ! p)" "valid (fst (es ! p))"
    using child_facts(2) [OF r(2,3,5)] r(4,6) mergesD(2) [OF r(1)] assms(2) by (simp_all add: mi_key_def)
  have len: "length (mi_children m) = length ess" "length ?lb = length ess"
    using r(2) by (simp_all add: children_at_def seek_positions_def)
  have cs: "wrep (?cs ! j) (ess ! j) (?lb ! j)" if j: "j < length ess" for j
  proof -
    have w: "wrep (mi_children m ! j) (ess ! j) (qs ! j)" using r(2) j by (simp add: children_at_def)
    show ?thesis
    proof (cases "mi_direction m = kForward \<or> j = c")
      case True
      then show ?thesis using w r(7,8) len j by (auto simp: others_nth)
    next
      case False
      have "wrep (after_key compare ops (fst (es ! p)) (mi_children m ! j)) (ess ! j) (?lb ! j)"
        using wrep_after_key [OF w key(2) other_child_key [OF r(1) assms(2) r(3,5,6) j]] False j
        by (simp add: seek_positions_def)
      then show ?thesis using False key(1) len j by (simp add: others_nth)
    qed
  qed
  have n: "wrep (iw_Next ops (?cs ! c)) (ess ! c) (?lb ! c + 1)"
    by (rule wrep_ops(8) [OF cs [OF r(3)]]) (use r(5,8) in simp)
  have "length ?cs = length ess" using len by simp
  then have at: "children_at (?cs[c := iw_Next ops (?cs ! c)]) ess (?lb[c := ?lb ! c + 1])"
    by (rule children_at_update [OF _ len(2) _ n r(3)]) (rule cs)
  have "split_at es (p + 1) ess (?lb[c := ?lb ! c + 1])"
    by (rule split_step [OF r(1,9,3)]) (use r(5,6,8) assms(2) in simp_all)
  from forward_state [OF r(1) at this]
  show ?thesis using assms(2) r(4) by (simp add: mi_Next_def Let_def)
qed

lemma mi_Prev_rep:
  assumes "merge_rep m es p" and "p < length es"
  shows "merge_rep (mi_Prev compare ops m) es (if p = 0 then length es else p - 1)"
proof -
  obtain ess qs c where r: "merges es ess" "children_at (mi_children m) ess qs" "c < length ess" "mi_current m = Some c"
    "qs ! c < length (ess ! c)" "ess ! c ! (qs ! c) = es ! p"
    "mi_direction m = kReverse \<longrightarrow>
      (\<forall>j < length ess. j \<noteq> c \<longrightarrow> qs ! j = back_pos (ess ! j) (seek_positions (fst (es ! p)) ess ! j))"
    "qs ! c = seek_positions (fst (es ! p)) ess ! c" "split_at es p ess (seek_positions (fst (es ! p)) ess)"
    by (rule merge_repE [OF assms])
  let ?lb = "seek_positions (fst (es ! p)) ess"
  let ?cs = "if mi_direction m \<noteq> kReverse then others c (before_key ops (mi_key m)) (mi_children m) else mi_children m"
  let ?qs = "map (\<lambda>j. back_pos (ess ! j) (?lb ! j)) [0..<length ess]"
  have key: "mi_key m = fst (es ! p)" "valid (fst (es ! p))"
    using child_facts(2) [OF r(2,3,5)] r(4,6) mergesD(2) [OF r(1)] assms(2) by (simp_all add: mi_key_def)
  have len: "length (mi_children m) = length ess" "length ?lb = length ess"
    using r(2) by (simp_all add: children_at_def seek_positions_def)
  have w: "wrep (mi_children m ! j) (ess ! j) (qs ! j)" if "j < length ess" for j
    using r(2) that by (simp add: children_at_def)
  have cs: "wrep (?cs ! j) (ess ! j) (?qs ! j)" if j: "j < length ess" "j \<noteq> c" for j
  proof (cases "mi_direction m")
    case kReverse
    then show ?thesis using w [OF j(1)] r(7) len j by simp
  next
    case kForward
    have "wrep (before_key ops (fst (es ! p)) (mi_children m ! j)) (ess ! j) (?qs ! j)"
      using wrep_before_key [OF w [OF j(1)] key(2)] j(1) by (simp add: seek_positions_def)
    then show ?thesis using kForward key(1) len j by (simp add: others_nth)
  qed
  have cc: "?cs ! c = mi_children m ! c" using r(3) len by (simp add: others_nth)
  have "?qs ! c = (if qs ! c = 0 then length (ess ! c) else qs ! c - 1)" using r(3,8) by (simp add: back_pos_def)
  then have n: "wrep (iw_Prev ops (?cs ! c)) (ess ! c) (?qs ! c)"
    using wrep_ops(9) [OF w [OF r(3)] r(5)] unfolding cc by (simp only:)
  have "length ?cs = length ess" "length ?qs = length ess" using len by simp_all
  then have "children_at (?cs[c := iw_Prev ops (?cs ! c)]) ess (?qs[c := ?qs ! c])"
    by (rule children_at_update [OF _ _ cs n r(3)])
  then have at: "children_at (?cs[c := iw_Prev ops (?cs ! c)]) ess ?qs" by simp
  have "merge_rep (mi_Prev compare ops m) es (back_pos es p)"
    using reverse_state [OF r(1) at r(9)] assms(2) r(4) by (simp add: mi_Prev_def Let_def)
  then show ?thesis by (simp add: back_pos_def)
qed

lemma merge_repM:
  assumes "merge_rep m es p"
  obtains ess qs where "merges es ess" "children_at (mi_children m) ess qs"
  using assms unfolding merge_rep_def by auto

lemma children_at_map:
  assumes "children_at cs ess qs" and "\<And>w es p. wrep w es p \<Longrightarrow> wrep (f w) es (g es)"
  shows "children_at (map f cs) ess (map g ess)"
  unfolding children_at_def
proof (intro conjI allI impI)
  fix j
  assume j: "j < length ess"
  then have "wrep (cs ! j) (ess ! j) (qs ! j)" using assms(1) by (simp add: children_at_def)
  from assms(2) [OF this] show "wrep (map f cs ! j) (ess ! j) (map g ess ! j)"
    using assms(1) j by (simp add: children_at_def)
qed (use assms(1) in \<open>simp_all add: children_at_def\<close>)

lemma mi_SeekToFirst_rep:
  assumes "merge_rep m es p"
  shows "merge_rep (mi_SeekToFirst compare ops m) es 0"
proof -
  obtain ess qs where r: "merges es ess" "children_at (mi_children m) ess qs" by (rule merge_repM [OF assms])
  have "split_at es 0 ess (map (\<lambda>_. 0) ess)" by (simp add: split_at_def)
  from forward_state [OF r(1) children_at_map [OF r(2) wrep_ops(6)] this]
  show ?thesis by (simp add: mi_SeekToFirst_def Let_def)
qed

lemma mi_SeekToLast_rep:
  assumes "merge_rep m es p"
  shows "merge_rep (mi_SeekToLast compare ops m) es (length es - 1)"
proof -
  obtain ess qs where r: "merges es ess" "children_at (mi_children m) ess qs" by (rule merge_repM [OF assms])
  have "ess ! j ! i \<in> set es" if "j < length ess" "i < length (ess ! j)" for j i
    using mergesD(4) [OF r(1) that] by auto
  then have s: "split_at es (length es) ess (map length ess)" by (simp add: split_at_def)
  have c: "children_at (map (iw_SeekToLast ops) (mi_children m)) ess (map (\<lambda>l. length l - 1) ess)"
    by (rule children_at_map [OF r(2) wrep_ops(7)])
  have "\<forall>j < length ess. map (\<lambda>l. length l - 1) ess ! j = back_pos (ess ! j) (map length ess ! j)"
    by (simp add: back_pos_def)
  from reverse_state [OF r(1) c s order_refl this]
  have "merge_rep (mi_SeekToLast compare ops m) es (back_pos es (length es))"
    by (simp add: mi_SeekToLast_def Let_def)
  moreover have "back_pos es (length es) = length es - 1" by (simp add: back_pos_def)
  ultimately show ?thesis by simp
qed

lemma mi_Seek_rep:
  assumes "merge_rep m es p" and "valid t"
  shows "merge_rep (mi_Seek compare ops m t) es (length (takeWhile (\<lambda>e. less (fst e) t) es))"
proof -
  obtain ess qs where r: "merges es ess" "children_at (mi_children m) ess qs" by (rule merge_repM [OF assms(1)])
  have "children_at (map (iw_Seek ops t) (mi_children m)) ess (seek_positions t ess)"
    unfolding seek_positions_def by (rule children_at_map [OF r(2) wrep_ops(10) [OF _ assms(2)]])
  from forward_state [OF r(1) this split_seek [OF r(1) assms(2)] length_takeWhile_le]
  show ?thesis by (simp add: mi_Seek_def Let_def)
qed

lemma mi_status_rep: "\<forall>w \<in> set cs. iw_status ops w = OK \<Longrightarrow> mi_status_loop ops cs = OK"
  by (induction cs) (auto simp: Let_def)

lemma new_MergingIterator_rep:
  assumes "merges es ess" and "length its = length ess" and "\<And>j. j < length ess \<Longrightarrow> rep (its ! j) (ess ! j) (ps j)"
  shows "merge_rep (new_MergingIterator ops its) es (length es)"
proof -
  have "children_at (map (\<lambda>c. new_wrapper ops (Some c)) its) ess (map ps [0..<length ess])"
    using assms(2) wrep_new [OF assms(3)] by (simp add: children_at_def)
  then show ?thesis using assms(1) by (auto simp: merge_rep_def new_MergingIterator_def)
qed

lemma merging_contract: "sorted_iterator compare valid (merging_iter_ops compare ops) merge_rep"
proof unfold_locales
  fix m es p
  assume r: "merge_rep m es p"
  obtain ess qs where e: "merges es ess" "children_at (mi_children m) ess qs" by (rule merge_repM [OF r])
  show "sorted_wrt (\<lambda>a b. compare (fst a) (fst b) < 0) es" using mergesD(1) [OF e(1)] .
  show "valid (fst x)" if "x \<in> set es" for x using mergesD(2) [OF e(1)] that by blast
  show "p \<le> length es" "it_Valid (merging_iter_ops compare ops) m \<longleftrightarrow> p < length es"
    using r by (auto simp: merge_rep_def merging_iter_ops_def mi_Valid_def split: if_splits)
  have "iw_status ops w = OK" if "w \<in> set (mi_children m)" for w
    using e(2) that wrep_ops(5) by (auto simp: children_at_def in_set_conv_nth)
  then show "it_status (merging_iter_ops compare ops) m = OK"
    using mi_status_rep by (simp add: merging_iter_ops_def)
  show "it_key (merging_iter_ops compare ops) m = fst (es ! p)" "it_value (merging_iter_ops compare ops) m = snd (es ! p)"
    if pl: "p < length es"
  proof -
    obtain ess qs c where "children_at (mi_children m) ess qs" "c < length ess" "mi_current m = Some c"
      "qs ! c < length (ess ! c)" "ess ! c ! (qs ! c) = es ! p"
      by (rule merge_repE [OF r pl])
    then show "it_key (merging_iter_ops compare ops) m = fst (es ! p)" "it_value (merging_iter_ops compare ops) m = snd (es ! p)"
      using child_facts(2) [of "mi_children m" ess qs c] wrep_ops(4) [of "mi_children m ! c" "ess ! c" "qs ! c"]
      by (simp_all add: merging_iter_ops_def mi_key_def mi_value_def children_at_def)
  qed
  show "merge_rep (it_SeekToFirst (merging_iter_ops compare ops) m) es 0"
    "merge_rep (it_SeekToLast (merging_iter_ops compare ops) m) es (length es - 1)"
    using mi_SeekToFirst_rep [OF r] mi_SeekToLast_rep [OF r] by (simp_all add: merging_iter_ops_def)
  show "merge_rep (it_Next (merging_iter_ops compare ops) m) es (p + 1)"
    "merge_rep (it_Prev (merging_iter_ops compare ops) m) es (if p = 0 then length es else p - 1)" if "p < length es"
    using mi_Next_rep [OF r that] mi_Prev_rep [OF r that] by (simp_all add: merging_iter_ops_def)
  show "merge_rep (it_Seek (merging_iter_ops compare ops) m t) es (length (takeWhile (\<lambda>e. compare (fst e) t < 0) es))"
    if "valid t" for t
    using mi_Seek_rep [OF r that] by (simp add: merging_iter_ops_def)
qed

end

section \<open>Properties\<close>

text \<open>The merged view of block iterators.\<close>

context comparator
begin

lemma merging_blocks_rep:
  assumes "1 \<le> interval" and "blk.merges es ess" and "length its = length ess"
    and "\<forall>j < length ess. length (built_block interval (ess ! j)) < 2 ^ 32 \<and>
           blk_NewIterator (new_Block (built_block interval (ess ! j))) = Inr (its ! j)"
  shows "blk.merge_rep (new_MergingIterator (block_iter_ops cmp) its) es (length es)"
proof (rule blk.new_MergingIterator_rep [OF assms(2,3)])
  fix j
  assume j: "j < length ess"
  have "sorted_entries (ess ! j)" using blk.merges_child [OF assms(2) j] by blast
  from block_rep_AddAll [OF assms(1) this prod.collapse [symmetric, of "bb_Finish _"], folded built_block_def] assms(4) j
  show "block_rep (its ! j) (ess ! j) (length (ess ! j))" by force
qed

end

text \<open>
  C15: The merging iterator over the iterators of several blocks shows the merged entries of all
  blocks in order, forwards and backwards; from any target on it shows the entries at and behind the
  target; and turning around after a seek it walks exactly the entries before the target backwards.
\<close>

theorem merging_iterator_merges:
  fixes es :: "(bytes \<times> bytes) list"
  assumes "comparator cmp valid" and "1 \<le> interval"
    and "sorted_wrt (\<lambda>a b. cmp_Compare cmp (fst a) (fst b) < 0) es" and "\<forall>e \<in> set es. valid (fst e)"
    and "set es = (\<Union>l \<in> set ess. set l)" and "\<forall>l \<in> set ess. sorted_wrt (\<lambda>a b. cmp_Compare cmp (fst a) (fst b) < 0) l"
    and "\<forall>i < length ess. \<forall>j < length ess. i \<noteq> j \<longrightarrow> set (ess ! i) \<inter> set (ess ! j) = {}"
    and "length its = length ess"
    and "\<forall>j < length ess. length (built_block interval (ess ! j)) < 2 ^ 32 \<and>
           blk_NewIterator (new_Block (built_block interval (ess ! j))) = Inr (its ! j)"
    and "ops = merging_iter_ops (cmp_Compare cmp) (block_iter_ops cmp)"
    and "m = new_MergingIterator (block_iter_ops cmp) its"
  shows "it_collect ops (length es) (it_SeekToFirst ops m) = es \<and>
         it_collect_back ops (length es) (it_SeekToLast ops m) = rev es \<and>
         (\<forall>t. valid t \<longrightarrow>
            it_collect ops (length es) (it_Seek ops m t) = filter (\<lambda>e. \<not> cmp_Compare cmp (fst e) t < 0) es \<and>
            (it_Valid ops (it_Seek ops m t) \<longrightarrow>
               it_collect_back ops (length es) (it_Prev ops (it_Seek ops m t)) =
                 rev (takeWhile (\<lambda>e. cmp_Compare cmp (fst e) t < 0) es)))"
proof -
  note blk = comparator.block_iter_contract [OF assms(1)]
  note contract = sorted_iterator.merging_contract [OF blk, folded assms(10)]
  have "sorted_iterator.merges (cmp_Compare cmp) valid es ess"
    unfolding sorted_iterator.merges_def [OF blk] using assms(3-7) by blast
  note rep = comparator.merging_blocks_rep [OF assms(1,2) this assms(8,9), folded assms(11)]
  have back_from: "it_collect_back ops (length es) (it_Prev ops (it_Seek ops m t)) =
      rev (takeWhile (\<lambda>e. cmp_Compare cmp (fst e) t < 0) es)" if t: "valid t" "it_Valid ops (it_Seek ops m t)" for t
    using sorted_iterator.collect_back_from [OF contract rep t] .
  show ?thesis
    using sorted_iterator.collect_all [OF contract rep] sorted_iterator.collect_all_back [OF contract rep]
      sorted_iterator.collect_from [OF contract rep] sorted_iterator.dropWhile_filter [OF contract rep] back_from
    by simp
qed

theorem merging_iterator_merges_witness:
  "\<exists>a b. let ops = merging_iter_ops slice_compare (block_iter_ops BytewiseComparator)
         in it_collect_back ops 3 (it_SeekToLast ops (new_MergingIterator (block_iter_ops BytewiseComparator) [a, b])) =
            [([3], [9]), ([2], [8]), ([1], [7])]"
proof -
  let ?ess = "[[([1], [7]), ([3], [9])], [([2], [8])]] :: (bytes \<times> bytes) list list"
  let ?es = "[([1], [7]), ([2], [8]), ([3], [9])] :: (bytes \<times> bytes) list"
  have len: "length (built_block 16 (?ess ! j)) < 2 ^ 32" if "j < 2" for j
    using that by (auto simp: built_block_def less_2_cases_iff bb_Finish_def bb_Add_def new_BlockBuilder_def
        PutVarint32_def PutFixed32_def EncodeVarint32_def Let_def)
  have it: "\<exists>it. blk_NewIterator (new_Block (built_block 16 (?ess ! j))) = Inr it" if "j < 2" for j
  proof -
    have "bytewise.sorted_entries (?ess ! j)" using that
      by (auto simp: less_2_cases_iff BytewiseComparator_def slice_compare_def)
    from bytewise.block_rep_AddAll [OF _ this prod.collapse [symmetric] len [OF that, unfolded built_block_def]]
    show ?thesis unfolding built_block_def by auto
  qed
  obtain a b where ab: "blk_NewIterator (new_Block (built_block 16 (?ess ! 0))) = Inr a"
    "blk_NewIterator (new_Block (built_block 16 (?ess ! 1))) = Inr b" using it [of 0] it [of 1] by auto
  have its: "\<forall>j < length ?ess. length (built_block 16 (?ess ! j)) < 2 ^ 32 \<and>
      blk_NewIterator (new_Block (built_block 16 (?ess ! j))) = Inr ([a, b] ! j)"
    using ab len [of 0] len [of 1] by (auto simp: less_Suc_eq)
  have disjoint: "\<forall>i < length ?ess. \<forall>j < length ?ess. i \<noteq> j \<longrightarrow> set (?ess ! i) \<inter> set (?ess ! j) = {}"
    by (auto simp: less_Suc_eq)
  have facts: "sorted_wrt (\<lambda>a b. cmp_Compare BytewiseComparator (fst a) (fst b) < 0) ?es" "\<forall>e \<in> set ?es. True"
    "set ?es = (\<Union>l \<in> set ?ess. set l)" "length [a, b] = length ?ess"
    "\<forall>l \<in> set ?ess. sorted_wrt (\<lambda>a b. cmp_Compare BytewiseComparator (fst a) (fst b) < 0) l"
    by (auto simp: BytewiseComparator_def slice_compare_def)
  have cmp: "cmp_Compare BytewiseComparator = slice_compare" by (simp add: BytewiseComparator_def)
  note r = merging_iterator_merges [OF bytewise.comparator_axioms _ facts(1,2,3,5) disjoint facts(4) its refl refl,
      THEN conjunct2, THEN conjunct1, unfolded cmp]
  have n: "length ?es = 3" "rev ?es = [([3], [9]), ([2], [8]), ([1], [7])]" by simp_all
  show ?thesis by (intro exI [of _ a] exI [of _ b]) (use r in \<open>simp only: n Let_def one_le_numeral\<close>)
qed

end
