(* ===== verification/DbIter.thy ===== *)
theory DbIter
  imports Merger DbFormat SkipList
begin

text \<open>
  The iterator of the database, \<^verbatim>\<open>db/db_iter.cc\<close>: it turns a cursor over versions of user keys into a
  cursor over what a snapshot shows, in both directions. The loops are partial functions, so that not
  returning is a value, and \<^verbatim>\<open>DBImpl::RecordReadSample\<close> appears as the list of keys it was called with.
\<close>

section \<open>State\<close>

record 'i db_iter =
  di_iter :: 'i
  di_sequence :: u64
  di_status :: status
  di_saved_key :: bytes
  di_saved_value :: bytes
  di_direction :: direction
  di_valid :: bool
  di_rnd :: u32
  di_bytes_until_read_sampling :: nat
  di_samples :: "bytes list"

definition RandomCompactionPeriod :: "u32 \<Rightarrow> nat \<times> u32" where
  "RandomCompactionPeriod rnd = (let (r, rnd) = Random_Uniform (2 * kReadBytesPeriod) rnd in (unat r, rnd))"

definition NewDBIterator :: "'i \<Rightarrow> u64 \<Rightarrow> u32 \<Rightarrow> 'i db_iter" where
  "NewDBIterator internal_iter sequence seed =
     (let (period, rnd) = RandomCompactionPeriod (new_Random seed)
      in \<lparr>di_iter = internal_iter, di_sequence = sequence, di_status = OK, di_saved_key = [], di_saved_value = [],
          di_direction = kForward, di_valid = False, di_rnd = rnd, di_bytes_until_read_sampling = period,
          di_samples = []\<rparr>)"

definition di_key :: "'i iter_ops \<Rightarrow> 'i db_iter \<Rightarrow> bytes" where
  "di_key ops d = (if di_direction d = kForward then ExtractUserKey (it_key ops (di_iter d)) else di_saved_key d)"

definition di_value :: "'i iter_ops \<Rightarrow> 'i db_iter \<Rightarrow> bytes" where
  "di_value ops d = (if di_direction d = kForward then it_value ops (di_iter d) else di_saved_value d)"

definition di_get_status :: "'i iter_ops \<Rightarrow> 'i db_iter \<Rightarrow> status" where
  "di_get_status ops d = (if ok (di_status d) then it_status ops (di_iter d) else di_status d)"

definition ClearSavedValue :: "'i db_iter \<Rightarrow> 'i db_iter" where
  "ClearSavedValue d = d\<lparr>di_saved_value := []\<rparr>"

section \<open>Read sampling and parsing\<close>

text \<open>A period may be zero, but never twice in a row: two rounds per byte are enough.\<close>

fun read_sampling :: "nat \<Rightarrow> nat \<Rightarrow> bytes \<Rightarrow> 'i db_iter \<Rightarrow> 'i db_iter" where
  "read_sampling 0 bytes_read k d = d"
| "read_sampling (Suc fuel) bytes_read k d =
     (if di_bytes_until_read_sampling d < bytes_read then
        let (period, rnd) = RandomCompactionPeriod (di_rnd d)
        in read_sampling fuel bytes_read k
             (d\<lparr>di_bytes_until_read_sampling := di_bytes_until_read_sampling d + period, di_rnd := rnd,
                di_samples := di_samples d @ [k]\<rparr>)
      else d)"

definition ParseKey :: "'i iter_ops \<Rightarrow> 'i db_iter \<Rightarrow> parsed_internal_key option \<times> 'i db_iter" where
  "ParseKey ops d =
     (let k = it_key ops (di_iter d);
          bytes_read = length k + length (it_value ops (di_iter d));
          d = read_sampling (2 * bytes_read + 1) bytes_read k d;
          d = d\<lparr>di_bytes_until_read_sampling := di_bytes_until_read_sampling d - bytes_read\<rparr>
      in case ParseInternalKey k of
           None \<Rightarrow> (None, d\<lparr>di_status := Corruption (bytes_of ''corrupted internal key in DBIter'')\<rparr>)
         | Some ikey \<Rightarrow> (Some ikey, d))"

section \<open>Forward\<close>

text \<open>One round of \<^verbatim>\<open>FindNextUserEntry\<close>, up to the step to the next entry. \<^verbatim>\<open>skip\<close> always is \<^verbatim>\<open>saved_key_\<close>.\<close>

definition examine_next ::
  "comparator \<Rightarrow> parsed_internal_key option \<Rightarrow> bool \<Rightarrow> 'i db_iter \<Rightarrow> bool \<times> bool \<times> 'i db_iter" where
  "examine_next cmp parsed skipping d =
     (case parsed of
        None \<Rightarrow> (False, skipping, d)
      | Some ikey \<Rightarrow>
          if pik_sequence ikey \<le> di_sequence d then
            (case pik_type ikey of
               kTypeDeletion \<Rightarrow> (False, True, d\<lparr>di_saved_key := pik_user_key ikey\<rparr>)
             | kTypeValue \<Rightarrow>
                 if skipping \<and> cmp_Compare cmp (pik_user_key ikey) (di_saved_key d) \<le> 0 then (False, skipping, d)
                 else (True, skipping, d))
          else (False, skipping, d))"

partial_function (option) FindNextUserEntry ::
  "'i iter_ops \<Rightarrow> comparator \<Rightarrow> bool \<Rightarrow> 'i db_iter \<Rightarrow> 'i db_iter option" where
  "FindNextUserEntry ops cmp skipping d =
     (let (parsed, d) = ParseKey ops d;
          (found, skipping, d) = examine_next cmp parsed skipping d
      in if found then Some (d\<lparr>di_valid := True, di_saved_key := []\<rparr>)
         else
           let d = d\<lparr>di_iter := it_Next ops (di_iter d)\<rparr>
           in if it_Valid ops (di_iter d) then FindNextUserEntry ops cmp skipping d
              else Some (d\<lparr>di_saved_key := [], di_valid := False\<rparr>))"

definition di_Next :: "'i iter_ops \<Rightarrow> comparator \<Rightarrow> 'i db_iter \<Rightarrow> 'i db_iter option" where
  "di_Next ops cmp d =
     (let d =
        (if di_direction d = kReverse then
           let d = d\<lparr>di_direction := kForward\<rparr>
           in if \<not> it_Valid ops (di_iter d) then d\<lparr>di_iter := it_SeekToFirst ops (di_iter d)\<rparr>
              else d\<lparr>di_iter := it_Next ops (di_iter d)\<rparr>
         else
           let d = d\<lparr>di_saved_key := ExtractUserKey (it_key ops (di_iter d))\<rparr>
           in d\<lparr>di_iter := it_Next ops (di_iter d)\<rparr>)
      in if \<not> it_Valid ops (di_iter d) then Some (d\<lparr>di_valid := False, di_saved_key := []\<rparr>)
         else FindNextUserEntry ops cmp True d)"

definition di_Seek :: "'i iter_ops \<Rightarrow> comparator \<Rightarrow> 'i db_iter \<Rightarrow> bytes \<Rightarrow> 'i db_iter option" where
  "di_Seek ops cmp d target =
     (let d = (ClearSavedValue (d\<lparr>di_direction := kForward\<rparr>))\<lparr>di_saved_key := []\<rparr>;
          d = d\<lparr>di_saved_key := AppendInternalKey (di_saved_key d)
                  \<lparr>pik_user_key = target, pik_sequence = di_sequence d, pik_type = kValueTypeForSeek\<rparr>\<rparr>;
          d = d\<lparr>di_iter := it_Seek ops (di_iter d) (di_saved_key d)\<rparr>
      in if it_Valid ops (di_iter d) then FindNextUserEntry ops cmp False d else Some (d\<lparr>di_valid := False\<rparr>))"

definition di_SeekToFirst :: "'i iter_ops \<Rightarrow> comparator \<Rightarrow> 'i db_iter \<Rightarrow> 'i db_iter option" where
  "di_SeekToFirst ops cmp d =
     (let d = ClearSavedValue (d\<lparr>di_direction := kForward\<rparr>);
          d = d\<lparr>di_iter := it_SeekToFirst ops (di_iter d)\<rparr>
      in if it_Valid ops (di_iter d) then FindNextUserEntry ops cmp False d else Some (d\<lparr>di_valid := False\<rparr>))"

section \<open>Backward\<close>

text \<open>One round of \<^verbatim>\<open>FindPrevUserEntry\<close>; the first result tells whether the loop breaks.\<close>

definition examine_prev ::
  "'i iter_ops \<Rightarrow> comparator \<Rightarrow> parsed_internal_key option \<Rightarrow> ValueType \<Rightarrow> 'i db_iter \<Rightarrow> bool \<times> ValueType \<times> 'i db_iter" where
  "examine_prev ops cmp parsed value_type d =
     (case parsed of
        None \<Rightarrow> (False, value_type, d)
      | Some ikey \<Rightarrow>
          if pik_sequence ikey \<le> di_sequence d then
            if value_type \<noteq> kTypeDeletion \<and> cmp_Compare cmp (pik_user_key ikey) (di_saved_key d) < 0
            then (True, value_type, d)
            else
              (case pik_type ikey of
                 kTypeDeletion \<Rightarrow> (False, kTypeDeletion, ClearSavedValue (d\<lparr>di_saved_key := []\<rparr>))
               | kTypeValue \<Rightarrow>
                   (False, kTypeValue,
                    d\<lparr>di_saved_key := ExtractUserKey (it_key ops (di_iter d)), di_saved_value := it_value ops (di_iter d)\<rparr>))
          else (False, value_type, d))"

partial_function (option) FindPrev_loop ::
  "'i iter_ops \<Rightarrow> comparator \<Rightarrow> ValueType \<Rightarrow> 'i db_iter \<Rightarrow> (ValueType \<times> 'i db_iter) option" where
  "FindPrev_loop ops cmp value_type d =
     (let (parsed, d) = ParseKey ops d;
          (stop, value_type, d) = examine_prev ops cmp parsed value_type d
      in if stop then Some (value_type, d)
         else
           let d = d\<lparr>di_iter := it_Prev ops (di_iter d)\<rparr>
           in if it_Valid ops (di_iter d) then FindPrev_loop ops cmp value_type d else Some (value_type, d))"

definition FindPrevUserEntry :: "'i iter_ops \<Rightarrow> comparator \<Rightarrow> 'i db_iter \<Rightarrow> 'i db_iter option" where
  "FindPrevUserEntry ops cmp d =
     (case (if it_Valid ops (di_iter d) then FindPrev_loop ops cmp kTypeDeletion d else Some (kTypeDeletion, d)) of
        None \<Rightarrow> None
      | Some (value_type, d) \<Rightarrow>
          Some (if value_type = kTypeDeletion
                then (ClearSavedValue (d\<lparr>di_valid := False, di_saved_key := []\<rparr>))\<lparr>di_direction := kForward\<rparr>
                else d\<lparr>di_valid := True\<rparr>))"

text \<open>The scan that \<^verbatim>\<open>Prev\<close> starts with when it turns around.\<close>

partial_function (option) before_saved_key :: "'i iter_ops \<Rightarrow> comparator \<Rightarrow> 'i db_iter \<Rightarrow> 'i db_iter option" where
  "before_saved_key ops cmp d =
     (let d = d\<lparr>di_iter := it_Prev ops (di_iter d)\<rparr>
      in if \<not> it_Valid ops (di_iter d) then Some d
         else if cmp_Compare cmp (ExtractUserKey (it_key ops (di_iter d))) (di_saved_key d) < 0 then Some d
         else before_saved_key ops cmp d)"

definition di_Prev :: "'i iter_ops \<Rightarrow> comparator \<Rightarrow> 'i db_iter \<Rightarrow> 'i db_iter option" where
  "di_Prev ops cmp d =
     (if di_direction d = kForward then
        let d = d\<lparr>di_saved_key := ExtractUserKey (it_key ops (di_iter d))\<rparr>
        in case before_saved_key ops cmp d of
             None \<Rightarrow> None
           | Some d \<Rightarrow>
               if \<not> it_Valid ops (di_iter d) then Some (ClearSavedValue (d\<lparr>di_valid := False, di_saved_key := []\<rparr>))
               else FindPrevUserEntry ops cmp (d\<lparr>di_direction := kReverse\<rparr>)
      else FindPrevUserEntry ops cmp d)"

definition di_SeekToLast :: "'i iter_ops \<Rightarrow> comparator \<Rightarrow> 'i db_iter \<Rightarrow> 'i db_iter option" where
  "di_SeekToLast ops cmp d =
     (let d = ClearSavedValue (d\<lparr>di_direction := kReverse\<rparr>);
          d = d\<lparr>di_iter := it_SeekToLast ops (di_iter d)\<rparr>
      in FindPrevUserEntry ops cmp d)"

section \<open>Runs of an iterator\<close>

text \<open>
  Sequences of calls, observed after each one, with the calls of \<^verbatim>\<open>Next\<close> and \<^verbatim>\<open>Prev\<close> that an invalid
  iterator does not allow left out; and the same for a plain cursor over a sorted list.
\<close>

datatype move = ToFirst | ToLast | To bytes | Forward | Backward

definition di_move :: "'i iter_ops \<Rightarrow> comparator \<Rightarrow> 'i db_iter \<Rightarrow> move \<Rightarrow> 'i db_iter option" where
  "di_move ops cmp d m =
     (case m of
        ToFirst \<Rightarrow> di_SeekToFirst ops cmp d
      | ToLast \<Rightarrow> di_SeekToLast ops cmp d
      | To t \<Rightarrow> di_Seek ops cmp d t
      | Forward \<Rightarrow> if di_valid d then di_Next ops cmp d else Some d
      | Backward \<Rightarrow> if di_valid d then di_Prev ops cmp d else Some d)"

fun di_run :: "'i iter_ops \<Rightarrow> comparator \<Rightarrow> 'i db_iter \<Rightarrow> move list \<Rightarrow> ((bytes \<times> bytes) option list \<times> 'i db_iter) option" where
  "di_run ops cmp d [] = Some ([], d)"
| "di_run ops cmp d (m # ms) =
     (case di_move ops cmp d m of
        None \<Rightarrow> None
      | Some d \<Rightarrow>
          let seen = (if di_valid d then Some (di_key ops d, di_value ops d) else None)
          in case di_run ops cmp d ms of None \<Rightarrow> None | Some (rest, d) \<Rightarrow> Some (seen # rest, d))"

definition cursor_move :: "(bytes \<Rightarrow> bytes \<Rightarrow> int) \<Rightarrow> (bytes \<times> bytes) list \<Rightarrow> nat \<Rightarrow> move \<Rightarrow> nat" where
  "cursor_move compare es p m =
     (case m of
        ToFirst \<Rightarrow> 0
      | ToLast \<Rightarrow> length es - 1
      | To t \<Rightarrow> length (takeWhile (\<lambda>e. compare (fst e) t < 0) es)
      | Forward \<Rightarrow> if p < length es then p + 1 else p
      | Backward \<Rightarrow> if p < length es then (if p = 0 then length es else p - 1) else p)"

fun cursor_run :: "(bytes \<Rightarrow> bytes \<Rightarrow> int) \<Rightarrow> (bytes \<times> bytes) list \<Rightarrow> nat \<Rightarrow> move list \<Rightarrow> (bytes \<times> bytes) option list" where
  "cursor_run compare es p [] = []"
| "cursor_run compare es p (m # ms) =
     (let p = cursor_move compare es p m
      in (if p < length es then Some (es ! p) else None) # cursor_run compare es p ms)"

section \<open>What a snapshot shows\<close>

text \<open>
  An entry is visible at a snapshot when its key parses and its sequence number is not newer. It is
  live when it is a value and no visible entry of the same user key precedes it, since newer versions
  come first. The snapshot shows the user keys and values of the live entries.
\<close>

definition user_key_of :: "bytes \<times> bytes \<Rightarrow> bytes" where
  "user_key_of e = ExtractUserKey (fst e)"

definition entry_visible :: "u64 \<Rightarrow> bytes \<times> bytes \<Rightarrow> bool" where
  "entry_visible s e = (case ParseInternalKey (fst e) of None \<Rightarrow> False | Some k \<Rightarrow> pik_sequence k \<le> s)"

definition entry_is_value :: "bytes \<times> bytes \<Rightarrow> bool" where
  "entry_is_value e = (case ParseInternalKey (fst e) of None \<Rightarrow> False | Some k \<Rightarrow> pik_type k = kTypeValue)"

definition entry_live :: "comparator \<Rightarrow> u64 \<Rightarrow> (bytes \<times> bytes) list \<Rightarrow> nat \<Rightarrow> bool" where
  "entry_live cmp s es i =
     (entry_visible s (es ! i) \<and> entry_is_value (es ! i) \<and>
      (\<forall>j \<in> set [0..<i]. entry_visible s (es ! j) \<longrightarrow> cmp_Compare cmp (user_key_of (es ! j)) (user_key_of (es ! i)) \<noteq> 0))"

definition snapshot_view :: "comparator \<Rightarrow> u64 \<Rightarrow> (bytes \<times> bytes) list \<Rightarrow> (bytes \<times> bytes) list" where
  "snapshot_view cmp s es =
     map (\<lambda>i. (user_key_of (es ! i), snd (es ! i))) (filter (entry_live cmp s es) [0..<length es])"

text \<open>The number of live entries before a position.\<close>

definition live_before :: "comparator \<Rightarrow> u64 \<Rightarrow> (bytes \<times> bytes) list \<Rightarrow> nat \<Rightarrow> nat" where
  "live_before cmp s es q = length (filter (entry_live cmp s es) [0..<q])"

lemma live_before_Suc: "live_before cmp s es (Suc q) = live_before cmp s es q + (if entry_live cmp s es q then 1 else 0)"
  by (simp add: live_before_def)

lemma live_before_same:
  assumes "a \<le> b" and "\<forall>j. a \<le> j \<longrightarrow> j < b \<longrightarrow> \<not> entry_live cmp s es j"
  shows "live_before cmp s es b = live_before cmp s es a"
  using assms by (induction rule: dec_induct) (simp_all add: live_before_Suc)

lemma live_before_end: "live_before cmp s es (length es) = length (snapshot_view cmp s es)"
  by (simp add: live_before_def snapshot_view_def)

lemma filter_upt_split: "q < n \<Longrightarrow> filter P [0..<n] = filter P [0..<q] @ (if P q then [q] else []) @ filter P [Suc q..<n]"
proof -
  assume "q < n"
  then have "[0..<n] = [0..<q] @ q # [Suc q..<n]" using upt_add_eq_append [of 0 q "n - q"] by (simp add: upt_conv_Cons)
  then show ?thesis by simp
qed

lemma live_before_nth:
  assumes "entry_live cmp s es q" and "q < length es"
  shows "live_before cmp s es q < length (snapshot_view cmp s es)"
    and "snapshot_view cmp s es ! live_before cmp s es q = (user_key_of (es ! q), snd (es ! q))"
proof -
  note f = filter_upt_split [OF assms(2), of "entry_live cmp s es"]
  show "live_before cmp s es q < length (snapshot_view cmp s es)"
    using f assms(1) by (simp add: live_before_def snapshot_view_def)
  show "snapshot_view cmp s es ! live_before cmp s es q = (user_key_of (es ! q), snd (es ! q))"
    unfolding snapshot_view_def live_before_def f using assms(1) by (simp add: nth_append)
qed

section \<open>Frames\<close>

lemma read_sampling_frame:
  "\<exists>n rnd samples. read_sampling fuel b k d =
     d\<lparr>di_bytes_until_read_sampling := n, di_rnd := rnd, di_samples := samples\<rparr>"
proof (induction fuel arbitrary: d)
  case 0
  show ?case
    by (intro exI [of _ "di_bytes_until_read_sampling d"] exI [of _ "di_rnd d"] exI [of _ "di_samples d"]) simp
next
  case (Suc fuel)
  show ?case
  proof (cases "di_bytes_until_read_sampling d < b")
    case True
    obtain period rnd where r: "RandomCompactionPeriod (di_rnd d) = (period, rnd)" by fastforce
    from Suc [of "d\<lparr>di_bytes_until_read_sampling := di_bytes_until_read_sampling d + period, di_rnd := rnd,
                di_samples := di_samples d @ [k]\<rparr>"]
    show ?thesis using True r by auto
  next
    case False
    then show ?thesis
      by (intro exI [of _ "di_bytes_until_read_sampling d"] exI [of _ "di_rnd d"] exI [of _ "di_samples d"]) simp
  qed
qed

text \<open>What the loops keep of the state.\<close>

definition same_cursor :: "'i db_iter \<Rightarrow> 'i db_iter \<Rightarrow> bool" where
  "same_cursor d d' \<longleftrightarrow>
     di_iter d' = di_iter d \<and> di_sequence d' = di_sequence d \<and> di_saved_key d' = di_saved_key d \<and>
     di_saved_value d' = di_saved_value d \<and> di_direction d' = di_direction d \<and> di_valid d' = di_valid d"

lemma ParseKey_frame:
  obtains d' where "ParseKey ops d = (ParseInternalKey (it_key ops (di_iter d)), d')" "same_cursor d d'"
    "di_status d' = di_status d \<or> ParseInternalKey (it_key ops (di_iter d)) = None"
proof -
  obtain n rnd samples where eq:
    "read_sampling (2 * (length (it_key ops (di_iter d)) + length (it_value ops (di_iter d))) + 1)
       (length (it_key ops (di_iter d)) + length (it_value ops (di_iter d))) (it_key ops (di_iter d)) d =
     d\<lparr>di_bytes_until_read_sampling := n, di_rnd := rnd, di_samples := samples\<rparr>"
    using read_sampling_frame by blast
  have p: "ParseKey ops d =
      (let d = d\<lparr>di_bytes_until_read_sampling := n - (length (it_key ops (di_iter d)) + length (it_value ops (di_iter d))),
                di_rnd := rnd, di_samples := samples\<rparr>
       in case ParseInternalKey (it_key ops (di_iter d)) of
           None \<Rightarrow> (None, d\<lparr>di_status := Corruption (bytes_of ''corrupted internal key in DBIter'')\<rparr>)
         | Some ikey \<Rightarrow> (Some ikey, d))"
    unfolding ParseKey_def Let_def eq by (simp split: option.split)
  show thesis
  proof (cases "ParseInternalKey (it_key ops (di_iter d))")
    case None
    then show thesis
      by (intro that [of "snd (ParseKey ops d)"]) (simp_all add: p Let_def same_cursor_def)
  next
    case (Some k)
    then show thesis
      by (intro that [of "snd (ParseKey ops d)"]) (simp_all add: p Let_def same_cursor_def)
  qed
qed

section \<open>The contract of the database iterator\<close>

text \<open>A cursor over internal keys, with a user comparator that works on all strings.\<close>

locale internal_iterator =
  user_comparator cmp + int: sorted_iterator "cmp_Compare (InternalKeyComparator cmp)" internal_key ops rep
  for cmp and ops :: "'i iter_ops" and rep
begin

abbreviation same_user :: "bytes \<times> bytes \<Rightarrow> bytes \<times> bytes \<Rightarrow> bool" where
  "same_user a b \<equiv> cmp_Compare cmp (user_key_of a) (user_key_of b) = 0"

definition parsed_or_corrupt :: "'i db_iter \<Rightarrow> (bytes \<times> bytes) list \<Rightarrow> bool" where
  "parsed_or_corrupt d es \<longleftrightarrow> di_status d = OK \<or> (\<exists>e \<in> set es. ParseInternalKey (fst e) = None)"

definition di_at :: "'i db_iter \<Rightarrow> u64 \<Rightarrow> (bytes \<times> bytes) list \<Rightarrow> nat \<Rightarrow> bool" where
  "di_at d s es p \<longleftrightarrow>
     di_sequence d = s \<and> parsed_or_corrupt d es \<and>
     (\<exists>r. rep (di_iter d) es r \<and>
        (if di_valid d then
           \<exists>q < length es. entry_live cmp s es q \<and> p = live_before cmp s es q \<and>
             (case di_direction d of
                kForward \<Rightarrow> r = q
              | kReverse \<Rightarrow> di_saved_key d = user_key_of (es ! q) \<and> di_saved_value d = snd (es ! q) \<and>
                  (\<forall>j. (r < length es \<longrightarrow> r < j) \<longrightarrow> j < q \<longrightarrow> \<not> entry_visible s (es ! j)) \<and> (r < length es \<longrightarrow> r < q))
         else p = length (snapshot_view cmp s es)))"

lemma user_sorted:
  assumes "rep i es r" and "j < k" and "k < length es"
  shows "cmp_Compare cmp (user_key_of (es ! j)) (user_key_of (es ! k)) \<le> 0"
proof -
  have "cmp_Compare (InternalKeyComparator cmp) (fst (es ! j)) (fst (es ! k)) < 0"
    using int.rep_sorted [OF assms(1)] assms(2,3) by (simp add: sorted_wrt_iff_nth_less)
  then show ?thesis by (auto simp: InternalKeyComparator_def ikey_Compare_less user_key_of_def)
qed

lemma user_sorted_le:
  "rep i es r \<Longrightarrow> j \<le> k \<Longrightarrow> k < length es \<Longrightarrow> cmp_Compare cmp (user_key_of (es ! j)) (user_key_of (es ! k)) \<le> 0"
  using user_sorted [of i es r j k] by (cases "j = k") simp_all

lemma cmp_refl [simp]: "cmp_Compare cmp a a = 0"
  by simp

lemma antisym_user: "cmp_Compare cmp a b \<le> 0 \<Longrightarrow> cmp_Compare cmp b a \<le> 0 \<Longrightarrow> cmp_Compare cmp a b = 0"
  using compare_gt [of a b] compare_eq_sym [of a b] by simp

text \<open>The state of \<^verbatim>\<open>FindNextUserEntry\<close> before entry \<open>q\<close>, looking for the first live entry from \<open>b\<close> on.\<close>

definition next_inv :: "u64 \<Rightarrow> (bytes \<times> bytes) list \<Rightarrow> nat \<Rightarrow> nat \<Rightarrow> bool \<Rightarrow> bytes \<Rightarrow> bool" where
  "next_inv s es b q skipping skip \<longleftrightarrow>
     (\<forall>i. q \<le> i \<longrightarrow> i < length es \<longrightarrow> entry_visible s (es ! i) \<longrightarrow>
        ((skipping \<and> cmp_Compare cmp (user_key_of (es ! i)) skip \<le> 0) \<longleftrightarrow>
         (\<exists>j. (j < q \<or> j < b) \<and> entry_visible s (es ! j) \<and> same_user (es ! j) (es ! i)))) \<and>
     (\<forall>j. q \<le> j \<longrightarrow> j < b \<longrightarrow> entry_visible s (es ! j) \<longrightarrow> entry_is_value (es ! j)) \<and>
     (\<forall>j. b \<le> j \<longrightarrow> j < q \<longrightarrow> \<not> entry_live cmp s es j)"

lemma next_inv_invisible:
  "next_inv s es b q skipping skip \<Longrightarrow> \<not> entry_visible s (es ! q) \<Longrightarrow> next_inv s es b (Suc q) skipping skip"
  unfolding next_inv_def by (auto simp: less_Suc_eq entry_live_def)

text \<open>Skipping the rest of the user key of a visible entry \<open>q\<close>, also from before it.\<close>

lemma next_inv_skip:
  assumes "rep i es r" and "q < length es" and "entry_visible s (es ! q)" and "x \<le> Suc q" and "b \<le> Suc q"
    and "q < x \<or> q < b" and "\<forall>j. x \<le> j \<longrightarrow> j < q \<longrightarrow> \<not> entry_visible s (es ! j)"
    and "x \<le> q \<longrightarrow> entry_is_value (es ! q)" and "\<forall>j. b \<le> j \<longrightarrow> j < x \<longrightarrow> \<not> entry_live cmp s es j"
  shows "next_inv s es b x True (user_key_of (es ! q))"
proof -
  have iff: "cmp_Compare cmp (user_key_of (es ! k)) (user_key_of (es ! q)) \<le> 0 \<longleftrightarrow>
      (\<exists>j. (j < x \<or> j < b) \<and> entry_visible s (es ! j) \<and> same_user (es ! j) (es ! k))"
    if k: "x \<le> k" "k < length es" "entry_visible s (es ! k)" for k
  proof
    assume le: "cmp_Compare cmp (user_key_of (es ! k)) (user_key_of (es ! q)) \<le> 0"
    have "q \<le> k" using k assms(7) by (auto simp: not_less [symmetric])
    then have "same_user (es ! q) (es ! k)" using antisym_user [OF _ le] user_sorted_le [OF assms(1), of q k] k by simp
    then show "\<exists>j. (j < x \<or> j < b) \<and> entry_visible s (es ! j) \<and> same_user (es ! j) (es ! k)" using assms(3,6) by blast
  next
    assume "\<exists>j. (j < x \<or> j < b) \<and> entry_visible s (es ! j) \<and> same_user (es ! j) (es ! k)"
    then obtain j where "j < x \<or> j < b" and eq: "same_user (es ! j) (es ! k)" by blast
    then have j: "j \<le> q" using assms(4,5) by linarith
    have "cmp_Compare cmp (user_key_of (es ! j)) (user_key_of (es ! q)) \<le> 0"
      by (rule user_sorted_le [OF assms(1) j assms(2)])
    moreover have "cmp_Compare cmp (user_key_of (es ! k)) (user_key_of (es ! j)) \<le> 0"
      using eq compare_eq_sym [of "user_key_of (es ! j)" "user_key_of (es ! k)"] by simp
    ultimately show "cmp_Compare cmp (user_key_of (es ! k)) (user_key_of (es ! q)) \<le> 0"
      using trans [of "user_key_of (es ! k)" "user_key_of (es ! j)"] by simp
  qed
  have "entry_is_value (es ! j)" if "x \<le> j" "j < b" "entry_visible s (es ! j)" for j
  proof -
    have "\<not> j < q" using that(1,3) assms(7) by blast
    then have "j = q" using that(2) assms(5) by simp
    then show ?thesis using that(1) assms(8) by simp
  qed
  then show ?thesis using assms(9) iff unfolding next_inv_def by simp
qed

lemma next_inv_delete:
  assumes "rep i es r" and "next_inv s es b q skipping skip" and "q < length es" and "entry_visible s (es ! q)"
    and "\<not> entry_is_value (es ! q)"
  shows "next_inv s es b (Suc q) True (user_key_of (es ! q))"
proof (rule next_inv_skip [OF assms(1,3,4)])
  have "\<not> q < b" using assms(2,4,5) unfolding next_inv_def by auto
  then show "b \<le> Suc q" by simp
  have "\<not> entry_live cmp s es q" using assms(5) by (simp add: entry_live_def)
  then show "\<forall>j. b \<le> j \<longrightarrow> j < Suc q \<longrightarrow> \<not> entry_live cmp s es j"
    using assms(2) by (simp add: next_inv_def less_Suc_eq)
qed simp_all

lemma next_inv_hidden:
  assumes "next_inv s es b q True skip" and "q < length es" and "entry_visible s (es ! q)"
    and "cmp_Compare cmp (user_key_of (es ! q)) skip \<le> 0"
  shows "next_inv s es b (Suc q) True skip"
proof -
  obtain j where j: "j < q \<or> j < b" "entry_visible s (es ! j)" "same_user (es ! j) (es ! q)"
    using assms unfolding next_inv_def by blast
  have eq: "(\<exists>j. (j < Suc q \<or> j < b) \<and> entry_visible s (es ! j) \<and> same_user (es ! j) (es ! i)) \<longleftrightarrow>
      (\<exists>j. (j < q \<or> j < b) \<and> entry_visible s (es ! j) \<and> same_user (es ! j) (es ! i))" for i
    using j compare_eq_trans [OF j(3)] by (auto simp: less_Suc_eq)
  have "\<not> entry_live cmp s es q" if "b \<le> q" using that j by (auto simp: entry_live_def)
  then show ?thesis using assms(1) unfolding next_inv_def eq by (auto simp: less_Suc_eq)
qed

lemma next_inv_found:
  assumes "next_inv s es b q skipping skip" and "q < length es" and "entry_visible s (es ! q)" and "entry_is_value (es ! q)"
    and "\<not> (skipping \<and> cmp_Compare cmp (user_key_of (es ! q)) skip \<le> 0)"
  shows "entry_live cmp s es q" and "live_before cmp s es q = live_before cmp s es b"
proof -
  have none: "\<not> (\<exists>j. (j < q \<or> j < b) \<and> entry_visible s (es ! j) \<and> same_user (es ! j) (es ! q))"
    using assms unfolding next_inv_def by blast
  then have b: "b \<le> q" using assms(3) by (auto simp: not_less [symmetric])
  show "entry_live cmp s es q" using none assms(3,4) by (auto simp: entry_live_def)
  show "live_before cmp s es q = live_before cmp s es b"
    by (rule live_before_same [OF b]) (use assms(1) in \<open>simp add: next_inv_def\<close>)
qed

lemma examine_next_inv:
  assumes "rep i es r" and "next_inv s es b q skipping (di_saved_key d)" and "q < length es" and "di_sequence d = s"
  shows "\<exists>found skipping' skip. examine_next cmp (ParseInternalKey (fst (es ! q))) skipping d =
             (found, skipping', d\<lparr>di_saved_key := skip\<rparr>) \<and>
           (if found then entry_live cmp s es q \<and> live_before cmp s es q = live_before cmp s es b
            else next_inv s es b (Suc q) skipping' skip)"
proof (cases "ParseInternalKey (fst (es ! q))")
  case None
  then have "\<not> entry_visible s (es ! q)" by (simp add: entry_visible_def)
  from next_inv_invisible [OF assms(2) this] show ?thesis
    using None by (intro exI [of _ False] exI [of _ skipping] exI [of _ "di_saved_key d"]) (simp add: examine_next_def)
next
  case (Some k)
  have uk: "pik_user_key k = user_key_of (es ! q)" using Parse_user_key [OF Some] by (simp add: user_key_of_def)
  have vis: "entry_visible s (es ! q) \<longleftrightarrow> pik_sequence k \<le> s" using Some by (simp add: entry_visible_def)
  have val: "entry_is_value (es ! q) \<longleftrightarrow> pik_type k = kTypeValue" using Some by (simp add: entry_is_value_def)
  consider (invisible) "\<not> pik_sequence k \<le> s" | (delete) "pik_sequence k \<le> s" "pik_type k = kTypeDeletion"
    | (hidden) "pik_sequence k \<le> s" "pik_type k = kTypeValue" "skipping" "cmp_Compare cmp (user_key_of (es ! q)) (di_saved_key d) \<le> 0"
    | (found) "pik_sequence k \<le> s" "pik_type k = kTypeValue" "\<not> (skipping \<and> cmp_Compare cmp (user_key_of (es ! q)) (di_saved_key d) \<le> 0)"
    by (cases "pik_type k") auto
  then show ?thesis
  proof cases
    case invisible
    then show ?thesis using Some next_inv_invisible [OF assms(2)] vis assms(4)
      by (intro exI [of _ False] exI [of _ skipping] exI [of _ "di_saved_key d"]) (simp add: examine_next_def)
  next
    case delete
    then have "next_inv s es b (Suc q) True (user_key_of (es ! q))" by (intro next_inv_delete [OF assms(1-3)]) (simp_all add: vis val)
    then show ?thesis using Some delete uk assms(4)
      by (intro exI [of _ False] exI [of _ True] exI [of _ "user_key_of (es ! q)"]) (simp add: examine_next_def)
  next
    case hidden
    then have "next_inv s es b (Suc q) True (di_saved_key d)"
      using assms(2) by (intro next_inv_hidden [OF _ assms(3)]) (simp_all add: vis)
    then show ?thesis using Some hidden uk assms(4)
      by (intro exI [of _ False] exI [of _ True] exI [of _ "di_saved_key d"]) (simp add: examine_next_def)
  next
    case found
    then have "entry_live cmp s es q \<and> live_before cmp s es q = live_before cmp s es b"
      using next_inv_found [OF assms(2,3)] vis val by blast
    then show ?thesis using Some found uk assms(4)
      by (intro exI [of _ True] exI [of _ skipping] exI [of _ "di_saved_key d"]) (simp add: examine_next_def)
  qed
qed

lemma parsed_or_corrupt_ParseKey:
  assumes "rep (di_iter d) es q" and "q < length es" and "parsed_or_corrupt d es"
    and "di_status d' = di_status d \<or> ParseInternalKey (it_key ops (di_iter d)) = None"
  shows "parsed_or_corrupt d' es"
proof -
  have "it_key ops (di_iter d) = fst (es ! q)" by (rule int.key_rep [OF assms(1,2)])
  then show ?thesis using assms(2-4) nth_mem [OF assms(2)] by (auto simp: parsed_or_corrupt_def)
qed

lemma di_at_end:
  assumes "rep (di_iter d) es r" and "parsed_or_corrupt d es" and "\<not> di_valid d"
    and "b \<le> length es" and "\<forall>j. b \<le> j \<longrightarrow> j < length es \<longrightarrow> \<not> entry_live cmp (di_sequence d) es j"
  shows "di_at d (di_sequence d) es (live_before cmp (di_sequence d) es b)"
  using assms live_before_same [OF assms(4), of cmp "di_sequence d" es] by (auto simp: di_at_def live_before_end)

lemma FindNext_at:
  assumes "rep (di_iter d) es q" and "q < length es" and "next_inv s es b q skipping (di_saved_key d)"
    and "di_sequence d = s" and "di_direction d = kForward" and "parsed_or_corrupt d es" and "b \<le> length es"
  shows "\<exists>d'. FindNextUserEntry ops cmp skipping d = Some d' \<and> di_at d' s es (live_before cmp s es b)"
  using assms
proof (induction "length es - q" arbitrary: d q skipping rule: less_induct)
  case less
  note prems = less.prems
  obtain d1 where d1: "ParseKey ops d = (ParseInternalKey (it_key ops (di_iter d)), d1)" "same_cursor d d1"
    "di_status d1 = di_status d \<or> ParseInternalKey (it_key ops (di_iter d)) = None"
    by (rule ParseKey_frame)
  have key: "it_key ops (di_iter d) = fst (es ! q)" by (rule int.key_rep [OF prems(1,2)])
  have pc: "parsed_or_corrupt d1 es" by (rule parsed_or_corrupt_ParseKey [OF prems(1,2,6) d1(3)])
  have fr: "di_iter d1 = di_iter d" "di_sequence d1 = s" "di_saved_key d1 = di_saved_key d" "di_direction d1 = kForward"
    using d1(2) prems(4,5) by (simp_all add: same_cursor_def)
  obtain found sk skip where e: "examine_next cmp (ParseInternalKey (fst (es ! q))) skipping d1 =
      (found, sk, d1\<lparr>di_saved_key := skip\<rparr>)"
    "if found then entry_live cmp s es q \<and> live_before cmp s es q = live_before cmp s es b
     else next_inv s es b (Suc q) sk skip"
    using examine_next_inv [OF prems(1), of s b q skipping d1] prems(2,3) fr by auto
  let ?d2 = "d1\<lparr>di_saved_key := skip, di_iter := it_Next ops (di_iter d)\<rparr>"
  have unfold: "FindNextUserEntry ops cmp skipping d =
      (if found then Some (d1\<lparr>di_valid := True, di_saved_key := []\<rparr>)
       else if it_Valid ops (di_iter ?d2) then FindNextUserEntry ops cmp sk ?d2
       else Some (?d2\<lparr>di_saved_key := [], di_valid := False\<rparr>))"
    by (subst FindNextUserEntry.simps) (simp add: d1(1) key e(1) fr(1) Let_def)
  show ?case
  proof (cases found)
    case True
    then have "di_at (d1\<lparr>di_valid := True, di_saved_key := []\<rparr>) s es (live_before cmp s es b)"
      using e(2) prems(1,2) fr pc unfolding di_at_def
      by (auto simp: parsed_or_corrupt_def intro!: exI [of _ q])
    then show ?thesis using True unfold by simp
  next
    case False
    then have inv: "next_inv s es b (Suc q) sk skip" using e(2) by simp
    have r2: "rep (di_iter ?d2) es (Suc q)" using int.Next_rep [OF prems(1,2)] by simp
    show ?thesis
    proof (cases "Suc q < length es")
      case True
      have "\<exists>d'. FindNextUserEntry ops cmp sk ?d2 = Some d' \<and> di_at d' s es (live_before cmp s es b)"
        by (rule less.hyps [OF _ r2 True])
          (use inv fr pc prems(2,7) in \<open>simp_all add: parsed_or_corrupt_def\<close>)
      then show ?thesis using int.Valid_rep [OF r2] True \<open>\<not> found\<close> unfold by simp
    next
      case end': False
      have "\<forall>j. b \<le> j \<longrightarrow> j < length es \<longrightarrow> \<not> entry_live cmp s es j" using inv end' by (simp add: next_inv_def)
      with di_at_end [of "?d2\<lparr>di_saved_key := [], di_valid := False\<rparr>" es "Suc q" b]
      have "di_at (?d2\<lparr>di_saved_key := [], di_valid := False\<rparr>) s es (live_before cmp s es b)"
        using r2 pc fr prems(7) by (simp add: parsed_or_corrupt_def)
      then show ?thesis using int.Valid_rep [OF r2] end' \<open>\<not> found\<close> unfold by simp
    qed
  qed
qed

lemma di_atE:
  assumes "di_at d s es p"
  obtains r where "rep (di_iter d) es r" "di_sequence d = s" "parsed_or_corrupt d es"
  using assms unfolding di_at_def by blast

lemma di_SeekToFirst_at:
  assumes "di_at d s es p"
  shows "\<exists>d'. di_SeekToFirst ops cmp d = Some d' \<and> di_at d' s es 0"
proof -
  obtain r where r: "rep (di_iter d) es r" "di_sequence d = s" "parsed_or_corrupt d es" by (rule di_atE [OF assms])
  let ?d = "(ClearSavedValue (d\<lparr>di_direction := kForward\<rparr>))\<lparr>di_iter := it_SeekToFirst ops (di_iter d)\<rparr>"
  have f: "rep (di_iter ?d) es 0" "parsed_or_corrupt ?d es" "di_sequence ?d = s" "di_direction ?d = kForward"
    using int.SeekToFirst_rep [OF r(1)] r(2,3) by (simp_all add: ClearSavedValue_def parsed_or_corrupt_def)
  have e: "di_SeekToFirst ops cmp d =
      (if it_Valid ops (di_iter ?d) then FindNextUserEntry ops cmp False ?d else Some (?d\<lparr>di_valid := False\<rparr>))"
    by (simp add: di_SeekToFirst_def ClearSavedValue_def Let_def)
  have b: "live_before cmp s es 0 = 0" by (simp add: live_before_def)
  show ?thesis
  proof (cases "0 < length es")
    case True
    have "next_inv s es 0 0 False (di_saved_key ?d)" by (simp add: next_inv_def)
    from FindNext_at [OF f(1) True this f(3,4,2)] show ?thesis unfolding e using int.Valid_rep [OF f(1)] True b by simp
  next
    case False
    have "di_at (?d\<lparr>di_valid := False\<rparr>) s es (live_before cmp s es 0)"
      using di_at_end [of "?d\<lparr>di_valid := False\<rparr>" es 0 0] f False by (simp add: parsed_or_corrupt_def)
    then show ?thesis unfolding e using int.Valid_rep [OF f(1)] False b by simp
  qed
qed

lemma di_Next_at:
  assumes "di_at d s es p" and "di_valid d"
  shows "\<exists>d'. di_Next ops cmp d = Some d' \<and> di_at d' s es (p + 1)"
proof -
  obtain q r where q: "rep (di_iter d) es r" "di_sequence d = s" "parsed_or_corrupt d es"
    "q < length es" "entry_live cmp s es q" "p = live_before cmp s es q"
    "di_direction d = kForward \<longrightarrow> r = q"
    "di_direction d = kReverse \<longrightarrow> di_saved_key d = user_key_of (es ! q) \<and>
       (\<forall>j. (r < length es \<longrightarrow> r < j) \<longrightarrow> j < q \<longrightarrow> \<not> entry_visible s (es ! j)) \<and> (r < length es \<longrightarrow> r < q)"
    using assms unfolding di_at_def by (cases "di_direction d") auto
  have p: "live_before cmp s es (Suc q) = p + 1" using q(5,6) by (simp add: live_before_Suc)
  have live: "entry_visible s (es ! q)" "entry_is_value (es ! q)" using q(5) by (simp_all add: entry_live_def)
  obtain d1 x where d1: "rep (di_iter d1) es x" "di_sequence d1 = s" "parsed_or_corrupt d1 es" "di_direction d1 = kForward"
    "next_inv s es (Suc q) x True (di_saved_key d1)" "x \<le> Suc q"
    "di_Next ops cmp d = (if \<not> it_Valid ops (di_iter d1) then Some (d1\<lparr>di_valid := False, di_saved_key := []\<rparr>)
         else FindNextUserEntry ops cmp True d1)"
  proof (cases "di_direction d")
    case kForward
    then have r: "r = q" using q(7) by simp
    let ?d = "d\<lparr>di_saved_key := ExtractUserKey (it_key ops (di_iter d)), di_iter := it_Next ops (di_iter d)\<rparr>"
    have "next_inv s es (Suc q) (Suc q) True (user_key_of (es ! q))"
      by (rule next_inv_skip [OF q(1,4) live(1)]) auto
    then have "next_inv s es (Suc q) (Suc q) True (di_saved_key ?d)"
      using int.key_rep [OF q(1)] q(4) r by (simp add: user_key_of_def)
    moreover have "rep (di_iter ?d) es (Suc q)" using int.Next_rep [OF q(1)] q(4) r by simp
    ultimately show thesis using that [of ?d "Suc q"] q(2,3) kForward
      by (simp add: di_Next_def Let_def parsed_or_corrupt_def)
  next
    case kReverse
    let ?x = "if r < length es then Suc r else 0"
    let ?d = "d\<lparr>di_direction := kForward, di_iter :=
        (if it_Valid ops (di_iter d) then it_Next ops (di_iter d) else it_SeekToFirst ops (di_iter d))\<rparr>"
    have x: "?x \<le> q" "\<forall>j. ?x \<le> j \<longrightarrow> j < q \<longrightarrow> \<not> entry_visible s (es ! j)" using q(8) kReverse by auto
    have "next_inv s es (Suc q) ?x True (user_key_of (es ! q))"
      by (rule next_inv_skip [OF q(1,4) live(1)]) (use x live(2) in auto)
    then have "next_inv s es (Suc q) ?x True (di_saved_key ?d)" using q(8) kReverse by simp
    moreover have "rep (di_iter ?d) es ?x"
      using int.Next_rep [OF q(1)] int.SeekToFirst_rep [OF q(1)] int.Valid_rep [OF q(1)] by auto
    ultimately show thesis using that [of ?d ?x] q(2,3) kReverse x(1)
      by (simp add: di_Next_def Let_def parsed_or_corrupt_def split del: if_split) (simp split: if_splits)
  qed
  show ?thesis
  proof (cases "x < length es")
    case True
    from FindNext_at [OF d1(1) True d1(5,2,4,3)] show ?thesis
      using d1(7) int.Valid_rep [OF d1(1)] True p q(4) by simp
  next
    case False
    then have "\<forall>j. Suc q \<le> j \<longrightarrow> j < length es \<longrightarrow> \<not> entry_live cmp s es j" using d1(5) by (simp add: next_inv_def)
    then have "di_at (d1\<lparr>di_valid := False, di_saved_key := []\<rparr>) s es (live_before cmp s es (Suc q))"
      using di_at_end [of "d1\<lparr>di_valid := False, di_saved_key := []\<rparr>" es x "Suc q"] d1(1-3) q(4)
      by (simp add: parsed_or_corrupt_def)
    then show ?thesis using d1(7) int.Valid_rep [OF d1(1)] False p by simp
  qed
qed

text \<open>A visible version sorts at or behind the seek key of its snapshot.\<close>

lemma visible_tag:
  assumes "entry_visible s e" and "s \<le> kMaxSequenceNumber"
  shows "key_tag (fst e) \<le> PackSequenceAndType s kTypeValue"
proof -
  let ?n = "key_tag (fst e)"
  have v: "drop_bit 8 ?n \<le> s" "(ucast (?n AND 0xff) :: u8) \<le> 1"
    using assms(1) by (auto simp: entry_visible_def ParseInternalKey_def Let_def key_tag_def split: if_splits option.splits)
  have "unat (ucast (?n AND 0xff) :: u8) = unat (?n AND 0xff)"
  proof -
    have "?n AND 0xff = take_bit 8 ?n" by (simp add: take_bit_eq_mask mask_eq_decr_exp)
    then have "unat (?n AND 0xff) < 256" using take_bit_nat_less_exp [of 8 "unat ?n"] by (simp add: unsigned_take_bit_eq)
    then show ?thesis by (simp add: unsigned_ucast_eq take_bit_nat_eq_self)
  qed
  then have low: "unat (?n AND 0xff) \<le> 1" using v(2) by (simp add: word_le_nat_alt)
  have "unat ?n = 256 * unat (drop_bit 8 ?n) + unat (?n AND 0xff)"
  proof -
    have "?n AND 0xff = take_bit 8 ?n" by (simp add: take_bit_eq_mask mask_eq_decr_exp)
    then show ?thesis by (simp add: unat_div_distrib unat_mod_distrib drop_bit_eq_div take_bit_eq_mod)
  qed
  moreover have "unat (drop_bit 8 ?n) \<le> unat s" using v(1) by (simp only: word_le_nat_alt)
  ultimately have "unat ?n \<le> unat s * 256 + 1" using low by simp
  then show ?thesis using Pack_unat [OF assms(2), of kTypeValue] by (simp add: word_le_nat_alt type_code_def)
qed

lemma view_takeWhile:
  assumes "q \<le> length es"
    and "\<And>j. j < q \<Longrightarrow> entry_live cmp s es j \<Longrightarrow> P (user_key_of (es ! j), snd (es ! j))"
    and "\<And>j. q \<le> j \<Longrightarrow> j < length es \<Longrightarrow> entry_live cmp s es j \<Longrightarrow> \<not> P (user_key_of (es ! j), snd (es ! j))"
  shows "length (takeWhile P (snapshot_view cmp s es)) = live_before cmp s es q"
proof -
  let ?f = "\<lambda>i. (user_key_of (es ! i), snd (es ! i))"
  have upt: "[0..<length es] = [0..<q] @ [q..<length es]" using upt_add_eq_append [of 0 q "length es - q"] assms(1) by simp
  have nil: "\<forall>x \<in> set xs. \<not> P x \<Longrightarrow> takeWhile P xs = []" for xs by (cases xs) simp_all
  have "takeWhile P (map ?f (filter (entry_live cmp s es) [q..<length es])) = []"
    by (rule nil) (use assms(3) in auto)
  moreover have "P x" if "x \<in> set (map ?f (filter (entry_live cmp s es) [0..<q]))" for x using assms(2) that by auto
  ultimately show ?thesis
    by (simp only: snapshot_view_def upt filter_append map_append takeWhile_append2 append_Nil2 length_map live_before_def)
qed

lemma di_Seek_at:
  assumes "di_at d s es p" and "s \<le> kMaxSequenceNumber"
  shows "\<exists>d'. di_Seek ops cmp d t = Some d' \<and>
           di_at d' s es (length (takeWhile (\<lambda>e. cmp_Compare cmp (fst e) t < 0) (snapshot_view cmp s es)))"
proof -
  obtain r where r: "rep (di_iter d) es r" "di_sequence d = s" "parsed_or_corrupt d es" by (rule di_atE [OF assms(1)])
  let ?t = "InternalKey t s kValueTypeForSeek"
  let ?d = "(ClearSavedValue (d\<lparr>di_direction := kForward\<rparr>))\<lparr>di_saved_key := ?t, di_iter := it_Seek ops (di_iter d) ?t\<rparr>"
  let ?q = "length (takeWhile (\<lambda>e. cmp_Compare (InternalKeyComparator cmp) (fst e) ?t < 0) es)"
  have t: "internal_key ?t" by simp
  have q: "?q \<le> length es" by (rule length_takeWhile_le)
  have f: "rep (di_iter ?d) es ?q" "parsed_or_corrupt ?d es" "di_sequence ?d = s" "di_direction ?d = kForward"
    using int.Seek_rep [OF r(1) t] r(2,3) by (simp_all add: ClearSavedValue_def parsed_or_corrupt_def)
  have iff: "j < ?q \<longleftrightarrow> cmp_Compare (InternalKeyComparator cmp) (fst (es ! j)) ?t < 0" if "j < length es" for j
    by (rule int.takeWhile_less_iff [OF int.rep_sorted [OF r(1)] _ t that]) (use int.rep_valid [OF r(1)] in blast)
  have below: "cmp_Compare cmp (user_key_of (es ! j)) t < 0" if "j < ?q" "entry_visible s (es ! j)" for j
  proof -
    have j: "j < length es" using that(1) q by simp
    show ?thesis using iff [OF j] that(1) visible_tag [OF that(2) assms(2)]
      by (auto simp: InternalKeyComparator_def ikey_Compare_less user_key_of_def kValueTypeForSeek_def)
  qed
  have above: "\<not> cmp_Compare cmp (user_key_of (es ! j)) t < 0" if "?q \<le> j" "j < length es" for j
    using iff [OF that(2)] that(1) by (auto simp: InternalKeyComparator_def ikey_Compare_less user_key_of_def)
  have differ: "\<not> same_user (es ! j) (es ! k)" if "j < ?q" "entry_visible s (es ! j)" "?q \<le> k" "k < length es" for j k
    using le_less_trans [of "user_key_of (es ! k)" "user_key_of (es ! j)" t] below [OF that(1,2)] above [OF that(3,4)]
      compare_eq_sym [of "user_key_of (es ! j)" "user_key_of (es ! k)"] by auto
  have inv: "next_inv s es ?q ?q False (di_saved_key ?d)" using differ unfolding next_inv_def by auto
  have pos: "length (takeWhile (\<lambda>e. cmp_Compare cmp (fst e) t < 0) (snapshot_view cmp s es)) = live_before cmp s es ?q"
    by (rule view_takeWhile [OF q]) (use below above in \<open>auto simp: entry_live_def\<close>)
  have e: "di_Seek ops cmp d t =
      (if it_Valid ops (di_iter ?d) then FindNextUserEntry ops cmp False ?d else Some (?d\<lparr>di_valid := False\<rparr>))"
    by (simp add: di_Seek_def ClearSavedValue_def Let_def InternalKey_def r(2))
  show ?thesis
  proof (cases "?q < length es")
    case True
    from FindNext_at [OF f(1) True inv f(3,4,2) q] show ?thesis unfolding e pos using int.Valid_rep [OF f(1)] True by simp
  next
    case False
    have "di_at (?d\<lparr>di_valid := False\<rparr>) s es (live_before cmp s es ?q)"
      using di_at_end [of "?d\<lparr>di_valid := False\<rparr>" es ?q ?q] f q False by (simp add: parsed_or_corrupt_def)
    then show ?thesis unfolding e pos using int.Valid_rep [OF f(1)] False by simp
  qed
qed

text \<open>
  The state of the backward loop before entry \<open>q\<close>, looking for the last live entry before \<open>u\<close>: either
  nothing pending, or the oldest candidate \<open>V\<close> seen is saved.
\<close>

definition prev_inv :: "u64 \<Rightarrow> (bytes \<times> bytes) list \<Rightarrow> nat \<Rightarrow> nat \<Rightarrow> ValueType \<Rightarrow> 'i db_iter \<Rightarrow> bool" where
  "prev_inv s es u q value_type d \<longleftrightarrow>
     (case value_type of
        kTypeDeletion \<Rightarrow> \<forall>j. q \<le> j \<longrightarrow> j < u \<longrightarrow> \<not> entry_live cmp s es j
      | kTypeValue \<Rightarrow>
          \<exists>V. q \<le> V \<and> V < u \<and> entry_visible s (es ! V) \<and> entry_is_value (es ! V) \<and>
              di_saved_key d = user_key_of (es ! V) \<and> di_saved_value d = snd (es ! V) \<and>
              (\<forall>j. q \<le> j \<longrightarrow> j < V \<longrightarrow> \<not> entry_visible s (es ! j)) \<and>
              (\<forall>j. V < j \<longrightarrow> j < u \<longrightarrow> \<not> entry_live cmp s es j))"

lemma prev_inv_cases:
  assumes "rep i es r" and "prev_inv s es u (Suc q) vt d" and "q < u" and "u \<le> length es" and "entry_visible s (es ! q)"
    and "\<not> (vt \<noteq> kTypeDeletion \<and> cmp_Compare cmp (user_key_of (es ! q)) (di_saved_key d) < 0)"
  shows "\<forall>j. q < j \<longrightarrow> j < u \<longrightarrow> \<not> entry_live cmp s es j"
proof (cases vt)
  case kTypeDeletion
  then show ?thesis using assms(2) by (simp add: prev_inv_def)
next
  case kTypeValue
  then obtain V where V: "Suc q \<le> V" "V < u" "di_saved_key d = user_key_of (es ! V)"
    "\<forall>j. Suc q \<le> j \<longrightarrow> j < V \<longrightarrow> \<not> entry_visible s (es ! j)" "\<forall>j. V < j \<longrightarrow> j < u \<longrightarrow> \<not> entry_live cmp s es j"
    using assms(2) by (auto simp: prev_inv_def)
  have "cmp_Compare cmp (user_key_of (es ! q)) (user_key_of (es ! V)) \<le> 0"
    by (rule user_sorted_le [OF assms(1)]) (use V assms(4) in simp_all)
  then have "same_user (es ! q) (es ! V)" using assms(6) V(3) kTypeValue by simp
  then have "\<not> entry_live cmp s es V" using V(1) assms(5) by (auto simp: entry_live_def)
  moreover have "\<not> entry_live cmp s es j" if "q < j" "j < V" for j using V(4) that by (simp add: entry_live_def)
  ultimately show ?thesis using V(5) by (metis nat_neq_iff)
qed

lemma examine_prev_inv:
  assumes "rep (di_iter d) es q" and "q < u" and "u \<le> length es" and "prev_inv s es u (Suc q) vt d" and "di_sequence d = s"
  shows "\<exists>stop vt' key val. examine_prev ops cmp (ParseInternalKey (fst (es ! q))) vt d =
             (stop, vt', d\<lparr>di_saved_key := key, di_saved_value := val\<rparr>) \<and>
           (if stop then vt' = kTypeValue \<and> prev_inv s es u (Suc q) vt' (d\<lparr>di_saved_key := key, di_saved_value := val\<rparr>) \<and>
              cmp_Compare cmp (user_key_of (es ! q)) key < 0
            else prev_inv s es u q vt' (d\<lparr>di_saved_key := key, di_saved_value := val\<rparr>))"
proof -
  have q: "q < length es" using assms(2,3) by simp
  have kv: "it_key ops (di_iter d) = fst (es ! q)" "it_value ops (di_iter d) = snd (es ! q)"
    using int.key_rep [OF assms(1) q] int.value_rep [OF assms(1) q] .
  have invisible: ?thesis if "\<not> entry_visible s (es ! q)"
    "examine_prev ops cmp (ParseInternalKey (fst (es ! q))) vt d = (False, vt, d)"
  proof -
    have "\<not> entry_live cmp s es q" using that(1) by (simp add: entry_live_def)
    moreover have nv: "q \<le> j \<longleftrightarrow> j = q \<or> Suc q \<le> j" for j by auto
    ultimately have "prev_inv s es u q vt d" using assms(4) that(1)
      unfolding prev_inv_def nv by (cases vt) (auto simp del: not_less_eq_eq)
    then show ?thesis using that(2) by (intro exI [of _ False] exI [of _ vt] exI [of _ "di_saved_key d"] exI [of _ "di_saved_value d"]) simp
  qed
  show ?thesis
  proof (cases "ParseInternalKey (fst (es ! q))")
    case None
    then show ?thesis by (intro invisible) (simp_all add: entry_visible_def examine_prev_def)
  next
    case (Some k)
    have uk: "pik_user_key k = user_key_of (es ! q)" using Parse_user_key [OF Some] by (simp add: user_key_of_def)
    show ?thesis
    proof (cases "pik_sequence k \<le> s")
      case False
      then show ?thesis using Some assms(5) by (intro invisible) (simp_all add: entry_visible_def examine_prev_def)
    next
      case True
      then have vis: "entry_visible s (es ! q)" using Some by (simp add: entry_visible_def)
      show ?thesis
      proof (cases "vt \<noteq> kTypeDeletion \<and> cmp_Compare cmp (user_key_of (es ! q)) (di_saved_key d) < 0")
        case stop: True
        then have "vt = kTypeValue" by (cases vt) simp_all
        then show ?thesis using stop True Some uk assms(4,5)
          by (intro exI [of _ True] exI [of _ vt] exI [of _ "di_saved_key d"] exI [of _ "di_saved_value d"])
            (simp add: examine_prev_def)
      next
        case go: False
        note none = prev_inv_cases [OF assms(1,4,2,3) vis go]
        show ?thesis
        proof (cases "pik_type k")
          case kTypeDeletion
          then have "\<not> entry_live cmp s es q" using Some by (simp add: entry_live_def entry_is_value_def)
          then have "prev_inv s es u q kTypeDeletion (d\<lparr>di_saved_key := [], di_saved_value := []\<rparr>)"
            using none by (simp add: prev_inv_def le_less)
          then show ?thesis using go True Some uk assms(5) kTypeDeletion
            by (intro exI [of _ False] exI [of _ kTypeDeletion] exI [of _ "[]"]) (simp add: examine_prev_def ClearSavedValue_def)
        next
          case kTypeValue
          then have "prev_inv s es u q kTypeValue (d\<lparr>di_saved_key := user_key_of (es ! q), di_saved_value := snd (es ! q)\<rparr>)"
            using none vis Some assms(2) unfolding prev_inv_def by (auto simp: entry_is_value_def)
          then show ?thesis using go True Some uk assms(5) kTypeValue kv
            by (intro exI [of _ False] exI [of _ kTypeValue] exI [of _ "user_key_of (es ! q)"] exI [of _ "snd (es ! q)"])
              (simp add: examine_prev_def user_key_of_def)
        qed
      qed
    qed
  qed
qed

text \<open>A saved candidate is live when nothing visible of its key comes before it.\<close>

lemma di_at_reverseI:
  assumes "rep (di_iter d) es r" and "di_sequence d = s" and "parsed_or_corrupt d es" and "di_direction d = kReverse"
    and "q < length es" and "entry_live cmp s es q" and "di_saved_key d = user_key_of (es ! q)" and "di_saved_value d = snd (es ! q)"
    and "di_valid d" and "\<And>j. (r < length es \<Longrightarrow> r < j) \<Longrightarrow> j < q \<Longrightarrow> \<not> entry_visible s (es ! j)" and "r < length es \<Longrightarrow> r < q"
  shows "di_at d s es (live_before cmp s es q)"
proof -
  have "\<exists>r. rep (di_iter d) es r \<and> (\<exists>q' < length es. entry_live cmp s es q' \<and> live_before cmp s es q = live_before cmp s es q' \<and>
      di_saved_key d = user_key_of (es ! q') \<and> di_saved_value d = snd (es ! q') \<and>
      (\<forall>j. (r < length es \<longrightarrow> r < j) \<longrightarrow> j < q' \<longrightarrow> \<not> entry_visible s (es ! j)) \<and> (r < length es \<longrightarrow> r < q'))"
    using assms by blast
  then show ?thesis unfolding di_at_def using assms(2-4,9) by simp
qed

lemma saved_live:
  assumes "rep (di_iter d) es r" and "prev_inv s es u x kTypeValue d" and "u \<le> length es"
    and "x = (if r < length es then Suc r else 0)" and "r < length es \<longrightarrow> cmp_Compare cmp (user_key_of (es ! r)) (di_saved_key d) < 0"
    and "di_sequence d = s" and "di_direction d = kReverse" and "parsed_or_corrupt d es"
  shows "di_at (d\<lparr>di_valid := True\<rparr>) s es (live_before cmp s es u - 1) \<and> 0 < live_before cmp s es u"
proof -
  obtain V where V: "x \<le> V" "V < u" "entry_visible s (es ! V)" "entry_is_value (es ! V)"
    "di_saved_key d = user_key_of (es ! V)" "di_saved_value d = snd (es ! V)"
    "\<forall>j. x \<le> j \<longrightarrow> j < V \<longrightarrow> \<not> entry_visible s (es ! j)" "\<forall>j. V < j \<longrightarrow> j < u \<longrightarrow> \<not> entry_live cmp s es j"
    using assms(2) by (auto simp: prev_inv_def)
  have "\<not> same_user (es ! j) (es ! V)" if "j < V" "entry_visible s (es ! j)" for j
  proof -
    have "j < x" by (rule ccontr) (use V(7) that in simp)
    then have j: "r < length es" "j \<le> r" using assms(4) by (auto split: if_splits)
    have "cmp_Compare cmp (user_key_of (es ! j)) (user_key_of (es ! r)) \<le> 0" by (rule user_sorted_le [OF assms(1) j(2,1)])
    then have "cmp_Compare cmp (user_key_of (es ! j)) (user_key_of (es ! V)) < 0"
      using le_less_trans [of "user_key_of (es ! j)" "user_key_of (es ! r)" "user_key_of (es ! V)"] assms(5) V(5) j(1) by simp
    then show ?thesis by simp
  qed
  then have live: "entry_live cmp s es V" using V(3,4) by (simp add: entry_live_def)
  have "live_before cmp s es u = live_before cmp s es V + 1"
    using live_before_same [of "Suc V" u cmp s es] V(2,8) live by (simp add: live_before_Suc)
  moreover have "di_at (d\<lparr>di_valid := True\<rparr>) s es (live_before cmp s es V)"
    by (rule di_at_reverseI [of _ _ r _ V]) (use assms(1,3,4,6-8) V live in \<open>auto simp: parsed_or_corrupt_def split: if_splits\<close>)
  ultimately show ?thesis by simp
qed

text \<open>What \<^verbatim>\<open>FindPrevUserEntry\<close> leaves behind.\<close>

lemma FindPrev_loop_at:
  assumes "rep (di_iter d) es q" and "q < u" and "u \<le> length es" and "prev_inv s es u (Suc q) vt d"
    and "di_sequence d = s" and "di_direction d = kReverse" and "parsed_or_corrupt d es"
  shows "\<exists>vt' d' r. FindPrev_loop ops cmp vt d = Some (vt', d') \<and> di_sequence d' = s \<and> di_direction d' = kReverse \<and>
           parsed_or_corrupt d' es \<and> rep (di_iter d') es r \<and>
           (case vt' of
              kTypeDeletion \<Rightarrow> live_before cmp s es u = 0
            | kTypeValue \<Rightarrow> di_at (d'\<lparr>di_valid := True\<rparr>) s es (live_before cmp s es u - 1) \<and> 0 < live_before cmp s es u)"
  using assms
proof (induction q arbitrary: d vt rule: less_induct)
  case (less q)
  note prems = less.prems
  have ql: "q < length es" using prems(2,3) by simp
  obtain d1 where d1: "ParseKey ops d = (ParseInternalKey (it_key ops (di_iter d)), d1)" "same_cursor d d1"
    "di_status d1 = di_status d \<or> ParseInternalKey (it_key ops (di_iter d)) = None"
    by (rule ParseKey_frame)
  have key: "it_key ops (di_iter d) = fst (es ! q)" by (rule int.key_rep [OF prems(1) ql])
  have pc: "parsed_or_corrupt d1 es" by (rule parsed_or_corrupt_ParseKey [OF prems(1) ql prems(7) d1(3)])
  have fr: "di_iter d1 = di_iter d" "di_sequence d1 = s" "di_direction d1 = kReverse"
    using d1(2) prems(5,6) by (simp_all add: same_cursor_def)
  have inv1: "prev_inv s es u (Suc q) vt d1"
    using prems(4) d1(2) by (simp add: prev_inv_def same_cursor_def split: ValueType.splits)
  obtain stop vt' key' val where e: "examine_prev ops cmp (ParseInternalKey (fst (es ! q))) vt d1 =
      (stop, vt', d1\<lparr>di_saved_key := key', di_saved_value := val\<rparr>)"
    "if stop then vt' = kTypeValue \<and> prev_inv s es u (Suc q) vt' (d1\<lparr>di_saved_key := key', di_saved_value := val\<rparr>) \<and>
              cmp_Compare cmp (user_key_of (es ! q)) key' < 0
            else prev_inv s es u q vt' (d1\<lparr>di_saved_key := key', di_saved_value := val\<rparr>)"
    using examine_prev_inv [of d1 es q u s vt] prems(1-3) fr inv1 by auto
  let ?d2 = "d1\<lparr>di_saved_key := key', di_saved_value := val\<rparr>"
  let ?d3 = "?d2\<lparr>di_iter := it_Prev ops (di_iter d)\<rparr>"
  have unfold: "FindPrev_loop ops cmp vt d =
      (if stop then Some (vt', ?d2)
       else if it_Valid ops (di_iter ?d3) then FindPrev_loop ops cmp vt' ?d3 else Some (vt', ?d3))"
    by (subst FindPrev_loop.simps) (simp add: d1(1) key e(1) fr(1) Let_def)
  show ?case
  proof (cases stop)
    case True
    then have inv: "vt' = kTypeValue" "prev_inv s es u (Suc q) kTypeValue ?d2" "cmp_Compare cmp (user_key_of (es ! q)) key' < 0"
      using e(2) by auto
    have r2: "rep (di_iter ?d2) es q" using prems(1) fr(1) by simp
    have v: "di_at (?d2\<lparr>di_valid := True\<rparr>) s es (live_before cmp s es u - 1) \<and> 0 < live_before cmp s es u"
      by (rule saved_live [OF r2 inv(2) prems(3)]) (use ql inv(3) fr pc in \<open>auto simp: parsed_or_corrupt_def\<close>)
    show ?thesis
      by (rule exI [of _ vt'], rule exI [of _ ?d2], rule exI [of _ q])
        (use True unfold v inv(1) r2 fr pc in \<open>auto simp: parsed_or_corrupt_def\<close>)
  next
    case False
    then have inv: "prev_inv s es u q vt' ?d3"
      using e(2) by (simp add: prev_inv_def split: ValueType.splits)
    have r3: "rep (di_iter ?d3) es (if q = 0 then length es else q - 1)" using int.Prev_rep [OF prems(1) ql] by simp
    have pc3: "parsed_or_corrupt ?d3 es" using pc by (simp add: parsed_or_corrupt_def)
    show ?thesis
    proof (cases q)
      case (Suc q')
      then have "rep (di_iter ?d3) es q'" using r3 by simp
      then show ?thesis
        using less.IH [of q' ?d3 vt'] Suc prems(2,3) inv fr pc3 unfold False int.Valid_rep [of "di_iter ?d3" es q'] by simp
    next
      case 0
      then have r: "rep (di_iter ?d3) es (length es)" using r3 by simp
      have unf: "FindPrev_loop ops cmp vt d = Some (vt', ?d3)" using unfold False int.Valid_rep [OF r] by simp
      show ?thesis
      proof (cases vt')
        case kTypeDeletion
        then have "live_before cmp s es u = 0"
          using inv 0 live_before_same [of 0 u cmp s es] by (simp add: prev_inv_def live_before_def)
        then show ?thesis using unf kTypeDeletion fr pc3 r
          by (intro exI [of _ vt'] exI [of _ ?d3] exI [of _ "length es"]) simp
      next
        case kTypeValue
        have v: "di_at (?d3\<lparr>di_valid := True\<rparr>) s es (live_before cmp s es u - 1) \<and> 0 < live_before cmp s es u"
          by (rule saved_live [OF r _ prems(3)]) (use inv 0 kTypeValue fr pc3 in auto)
        show ?thesis
          by (rule exI [of _ vt'], rule exI [of _ ?d3], rule exI [of _ "length es"])
            (use unf v kTypeValue r fr pc3 in auto)
      qed
    qed
  qed
qed

lemma FindPrevUserEntry_at:
  assumes "rep (di_iter d) es r" and "di_sequence d = s" and "di_direction d = kReverse" and "parsed_or_corrupt d es"
    and "u \<le> length es" and "r < length es \<longrightarrow> r < u"
    and "\<forall>j. (r < length es \<longrightarrow> r < j) \<longrightarrow> j < u \<longrightarrow> \<not> entry_live cmp s es j"
  shows "\<exists>d'. FindPrevUserEntry ops cmp d = Some d' \<and>
           di_at d' s es (if live_before cmp s es u = 0 then length (snapshot_view cmp s es) else live_before cmp s es u - 1)"
proof -
  have none: "\<exists>d''. (ClearSavedValue (d'\<lparr>di_valid := False, di_saved_key := []\<rparr>))\<lparr>di_direction := kForward\<rparr> = d'' \<and>
      di_at d'' s es (length (snapshot_view cmp s es))"
    if "rep (di_iter d') es r'" "di_sequence d' = s" "parsed_or_corrupt d' es" for d' r'
    using that by (auto simp: di_at_def ClearSavedValue_def parsed_or_corrupt_def)
  show ?thesis
  proof (cases "r < length es")
    case True
    then have "prev_inv s es u (Suc r) kTypeDeletion d" "r < u" using assms(6,7) by (simp_all add: prev_inv_def)
    from FindPrev_loop_at [OF assms(1) this(2) assms(5) this(1) assms(2-4)] obtain vt' d' r' where
      l: "FindPrev_loop ops cmp kTypeDeletion d = Some (vt', d')" "di_sequence d' = s" "parsed_or_corrupt d' es"
      "rep (di_iter d') es r'"
      "case vt' of kTypeDeletion \<Rightarrow> live_before cmp s es u = 0
       | kTypeValue \<Rightarrow> di_at (d'\<lparr>di_valid := True\<rparr>) s es (live_before cmp s es u - 1) \<and> 0 < live_before cmp s es u"
      by blast
    show ?thesis
    proof (cases vt')
      case kTypeDeletion
      then show ?thesis using l(1,5) none [OF l(4,2,3)] int.Valid_rep [OF assms(1)] True
        by (simp add: FindPrevUserEntry_def)
    next
      case kTypeValue
      then show ?thesis using l(1,5) int.Valid_rep [OF assms(1)] True by (simp add: FindPrevUserEntry_def)
    qed
  next
    case False
    then have "live_before cmp s es u = live_before cmp s es 0"
      by (intro live_before_same) (use assms(7) in simp_all)
    then have "live_before cmp s es u = 0" by (simp add: live_before_def)
    then show ?thesis using none [OF assms(1,2,4)] int.Valid_rep [OF assms(1)] False
      by (simp add: FindPrevUserEntry_def)
  qed
qed

lemma di_SeekToLast_at:
  assumes "di_at d s es p"
  shows "\<exists>d'. di_SeekToLast ops cmp d = Some d' \<and> di_at d' s es (length (snapshot_view cmp s es) - 1)"
proof -
  obtain r where r: "rep (di_iter d) es r" "di_sequence d = s" "parsed_or_corrupt d es" by (rule di_atE [OF assms])
  let ?d = "(ClearSavedValue (d\<lparr>di_direction := kReverse\<rparr>))\<lparr>di_iter := it_SeekToLast ops (di_iter d)\<rparr>"
  have f: "rep (di_iter ?d) es (length es - 1)" "parsed_or_corrupt ?d es" "di_sequence ?d = s" "di_direction ?d = kReverse"
    using int.SeekToLast_rep [OF r(1)] r(2,3) by (simp_all add: ClearSavedValue_def parsed_or_corrupt_def)
  have "\<exists>d'. FindPrevUserEntry ops cmp ?d = Some d' \<and> di_at d' s es
      (if live_before cmp s es (length es) = 0 then length (snapshot_view cmp s es) else live_before cmp s es (length es) - 1)"
    by (rule FindPrevUserEntry_at [OF f(1,3,4,2)]) auto
  then show ?thesis
    by (simp add: di_SeekToLast_def ClearSavedValue_def Let_def live_before_end split: if_splits)
qed

lemma before_saved_key_at:
  assumes "rep (di_iter d) es q" and "q \<le> L" and "L < length es" and "entry_live cmp s es L"
    and "di_saved_key d = user_key_of (es ! L)" and "\<forall>j. q \<le> j \<longrightarrow> j < L \<longrightarrow> \<not> entry_live cmp s es j"
  shows "\<exists>i r. before_saved_key ops cmp d = Some (d\<lparr>di_iter := i\<rparr>) \<and> rep i es r \<and> (r < length es \<longrightarrow> r < L) \<and>
           (\<forall>j. (r < length es \<longrightarrow> r < j) \<longrightarrow> j < L \<longrightarrow> \<not> entry_live cmp s es j)"
  using assms
proof (induction q arbitrary: d rule: less_induct)
  case (less q)
  note prems = less.prems
  have q: "q < length es" using prems(2,3) by simp
  let ?i = "it_Prev ops (di_iter d)"
  let ?d = "d\<lparr>di_iter := ?i\<rparr>"
  have r: "rep ?i es (if q = 0 then length es else q - 1)" using int.Prev_rep [OF prems(1) q] by simp
  show ?case
  proof (cases q)
    case 0
    then have "before_saved_key ops cmp d = Some ?d"
      using int.Valid_rep [OF r] by (subst before_saved_key.simps) (simp add: Let_def)
    then show ?thesis using r 0 prems(6) by (intro exI [of _ ?i] exI [of _ "length es"]) simp
  next
    case (Suc q')
    then have r': "rep ?i es q'" "q' < length es" using r q by simp_all
    note key = int.key_rep [OF r']
    show ?thesis
    proof (cases "cmp_Compare cmp (user_key_of (es ! q')) (user_key_of (es ! L)) < 0")
      case True
      then have "before_saved_key ops cmp d = Some ?d"
        using prems(5) key by (subst before_saved_key.simps) (simp add: Let_def user_key_of_def)
      then show ?thesis using r' Suc prems(2,6) by (intro exI [of _ ?i] exI [of _ q']) auto
    next
      case False
      then have "before_saved_key ops cmp d = before_saved_key ops cmp ?d"
        using prems(5) key r' int.Valid_rep [OF r'(1)]
        by (subst before_saved_key.simps) (simp add: Let_def user_key_of_def)
      moreover have "same_user (es ! q') (es ! L)" using False user_sorted [OF r'(1), of q' L] Suc prems(2,3) by simp
      then have "\<not> entry_visible s (es ! q')" using prems(2,4) Suc by (auto simp: entry_live_def)
      then have "\<forall>j. q' \<le> j \<longrightarrow> j < L \<longrightarrow> \<not> entry_live cmp s es j"
        using prems(6) Suc by (metis entry_live_def le_antisym not_less_eq_eq)
      ultimately show ?thesis using less.IH [of q' ?d] Suc r' prems(2-5) by simp
    qed
  qed
qed

lemma di_Prev_at:
  assumes "di_at d s es p" and "di_valid d"
  shows "\<exists>d'. di_Prev ops cmp d = Some d' \<and>
           di_at d' s es (if p = 0 then length (snapshot_view cmp s es) else p - 1)"
proof -
  obtain q r where q: "rep (di_iter d) es r" "di_sequence d = s" "parsed_or_corrupt d es"
    "q < length es" "entry_live cmp s es q" "p = live_before cmp s es q"
    "di_direction d = kForward \<longrightarrow> r = q"
    "di_direction d = kReverse \<longrightarrow> di_saved_key d = user_key_of (es ! q) \<and>
       (\<forall>j. (r < length es \<longrightarrow> r < j) \<longrightarrow> j < q \<longrightarrow> \<not> entry_visible s (es ! j)) \<and> (r < length es \<longrightarrow> r < q)"
    using assms unfolding di_at_def by (cases "di_direction d") auto
  show ?thesis
  proof (cases "di_direction d")
    case kReverse
    have "\<exists>d'. FindPrevUserEntry ops cmp d = Some d' \<and> di_at d' s es
        (if live_before cmp s es q = 0 then length (snapshot_view cmp s es) else live_before cmp s es q - 1)"
      by (rule FindPrevUserEntry_at [OF q(1,2) kReverse q(3)]) (use q(4,8) kReverse in \<open>auto simp: entry_live_def\<close>)
    moreover have "di_Prev ops cmp d = FindPrevUserEntry ops cmp d" using kReverse by (simp add: di_Prev_def)
    ultimately show ?thesis unfolding q(6) by simp
  next
    case kForward
    let ?d = "d\<lparr>di_saved_key := user_key_of (es ! q)\<rparr>"
    have r: "r = q" using q(7) kForward by simp
    have key: "ExtractUserKey (it_key ops (di_iter d)) = user_key_of (es ! q)"
      using int.key_rep [OF q(1)] q(4) r by (simp add: user_key_of_def)
    have "rep (di_iter ?d) es q" using q(1) r by simp
    from before_saved_key_at [OF this order_refl q(4,5)] obtain i x where
      i: "before_saved_key ops cmp ?d = Some (?d\<lparr>di_iter := i\<rparr>)" "rep i es x" "x < length es \<longrightarrow> x < q"
      "\<forall>j. (x < length es \<longrightarrow> x < j) \<longrightarrow> j < q \<longrightarrow> \<not> entry_live cmp s es j" by auto
    show ?thesis
    proof (cases "x < length es")
      case True
      have "\<exists>d'. FindPrevUserEntry ops cmp (?d\<lparr>di_iter := i, di_direction := kReverse\<rparr>) = Some d' \<and> di_at d' s es
          (if live_before cmp s es q = 0 then length (snapshot_view cmp s es) else live_before cmp s es q - 1)"
        by (rule FindPrevUserEntry_at [of _ _ x]) (use i(2-4) q(2-4) in \<open>auto simp: parsed_or_corrupt_def\<close>)
      moreover have "di_Prev ops cmp d = FindPrevUserEntry ops cmp (?d\<lparr>di_iter := i, di_direction := kReverse\<rparr>)"
        using kForward key i(1) int.Valid_rep [OF i(2)] True by (simp add: di_Prev_def)
      ultimately show ?thesis unfolding q(6) by simp
    next
      case False
      then have "live_before cmp s es q = live_before cmp s es 0"
        by (intro live_before_same) (use i(4) in simp_all)
      then have p: "p = 0" using q(6) by (simp add: live_before_def)
      have "di_at (ClearSavedValue (?d\<lparr>di_iter := i, di_valid := False, di_saved_key := []\<rparr>)) s es (length (snapshot_view cmp s es))"
        using i(2) q(2,3) by (auto simp: di_at_def ClearSavedValue_def parsed_or_corrupt_def)
      then show ?thesis using kForward key i(1) int.Valid_rep [OF i(2)] False p by (simp add: di_Prev_def)
    qed
  qed
qed

lemma di_at_cursor:
  assumes "di_at d s es p"
  shows "p \<le> length (snapshot_view cmp s es)" and "di_valid d \<longleftrightarrow> p < length (snapshot_view cmp s es)"
    and "di_valid d \<Longrightarrow> (di_key ops d, di_value ops d) = snapshot_view cmp s es ! p"
proof -
  show "p \<le> length (snapshot_view cmp s es)" "di_valid d \<longleftrightarrow> p < length (snapshot_view cmp s es)"
    using assms live_before_nth(1) [of cmp s es] unfolding di_at_def
    by (cases "di_valid d"; force simp: less_imp_le)+
  assume "di_valid d"
  then obtain q r where q: "rep (di_iter d) es r" "q < length es" "entry_live cmp s es q" "p = live_before cmp s es q"
    "di_direction d = kForward \<longrightarrow> r = q"
    "di_direction d = kReverse \<longrightarrow> di_saved_key d = user_key_of (es ! q) \<and> di_saved_value d = snd (es ! q)"
    using assms unfolding di_at_def by (cases "di_direction d") auto
  then show "(di_key ops d, di_value ops d) = snapshot_view cmp s es ! p"
    using live_before_nth(2) [OF q(3,2)] int.key_rep [OF q(1)] int.value_rep [OF q(1)]
    by (cases "di_direction d") (simp_all add: di_key_def di_value_def user_key_of_def)
qed

lemma NewDBIterator_at: "rep i es r \<Longrightarrow> di_at (NewDBIterator i s seed) s es (length (snapshot_view cmp s es))"
  by (auto simp: di_at_def NewDBIterator_def parsed_or_corrupt_def split: prod.split)

lemma di_move_at:
  assumes "di_at d s es p" and "s \<le> kMaxSequenceNumber"
  shows "\<exists>d'. di_move ops cmp d m = Some d' \<and> di_at d' s es (cursor_move (cmp_Compare cmp) (snapshot_view cmp s es) p m)"
  using di_SeekToFirst_at [OF assms(1)] di_SeekToLast_at [OF assms(1)] di_Seek_at [OF assms]
    di_Next_at [OF assms(1)] di_Prev_at [OF assms(1)] di_at_cursor(2) [OF assms(1)] assms(1)
  by (cases m; cases "di_valid d") (simp_all add: di_move_def cursor_move_def)

lemma di_run_at:
  assumes "di_at d s es p" and "s \<le> kMaxSequenceNumber"
  shows "\<exists>d' p'. di_run ops cmp d ms = Some (cursor_run (cmp_Compare cmp) (snapshot_view cmp s es) p ms, d') \<and> di_at d' s es p'"
  using assms(1)
proof (induction ms arbitrary: d p)
  case (Cons m ms)
  let ?p = "cursor_move (cmp_Compare cmp) (snapshot_view cmp s es) p m"
  obtain d' where d': "di_move ops cmp d m = Some d'" "di_at d' s es ?p" using di_move_at [OF Cons.prems assms(2)] by blast
  obtain d'' p'' where "di_run ops cmp d' ms = Some (cursor_run (cmp_Compare cmp) (snapshot_view cmp s es) ?p ms, d'')"
    "di_at d'' s es p''" using Cons.IH [OF d'(2)] by blast
  then show ?case using d'(1) di_at_cursor(2,3) [OF d'(2)] by (auto simp: Let_def)
qed auto

lemma di_at_status:
  assumes "di_at d s es p" and "\<forall>e \<in> set es. ParseInternalKey (fst e) \<noteq> None"
  shows "di_get_status ops d = OK"
proof -
  obtain r where r: "rep (di_iter d) es r" "parsed_or_corrupt d es" using assms(1) by (rule di_atE)
  then have "di_status d = OK" using assms(2) by (auto simp: parsed_or_corrupt_def)
  then show ?thesis using int.status_rep [OF r(1)] by (simp add: di_get_status_def)
qed

end

text \<open>Blocks of internal keys are such cursors.\<close>

interpretation bytewise_internal: internal_iterator BytewiseComparator
  "block_iter_ops (InternalKeyComparator BytewiseComparator)"
  "comparator.block_rep (InternalKeyComparator BytewiseComparator) internal_key"
  by (rule internal_iterator.intro [OF bytewise_user.user_comparator_axioms
        comparator.block_iter_contract [OF bytewise_user.ikey.comparator_axioms]])

section \<open>The random periods\<close>

definition random_seed :: "u32 \<Rightarrow> bool" where
  "random_seed r \<longleftrightarrow> 0 < unat r \<and> unat r < 2147483647"

lemma random_seed_new: "random_seed (new_Random s)"
proof -
  have "s AND 0x7fffffff = take_bit 31 s" by (simp add: take_bit_eq_mask mask_eq_decr_exp)
  then have lt: "unat (s AND 0x7fffffff) < 2 ^ 31" using take_bit_nat_less_exp [of 31 "unat s"] by (simp add: unsigned_take_bit_eq)
  define x where "x = s AND 0x7fffffff"
  have d: "new_Random s = (if x = 0 \<or> x = 2147483647 then 1 else x)" by (simp add: new_Random_def x_def Let_def)
  show ?thesis
  proof (cases "x = 0 \<or> x = 2147483647")
    case True
    then have "new_Random s = 1" using d by simp
    then show ?thesis by (simp add: random_seed_def)
  next
    case False
    then have "unat x \<noteq> unat (0 :: u32)" "unat x \<noteq> unat (2147483647 :: u32)" by (simp_all only: word_unat_eq_iff not_False_eq_True de_Morgan_disj)
    then have "0 < unat x" "unat x < 2147483647" using lt unfolding x_def [symmetric] by simp_all
    then show ?thesis using False d by (simp add: random_seed_def)
  qed
qed

text \<open>The modulus is prime: multiplying by the inverse of the factor recovers the seed.\<close>

lemma product_nonzero:
  assumes "random_seed r"
  shows "(unat r * 16807) mod 2147483647 \<noteq> 0"
proof
  assume z: "(unat r * 16807) mod 2147483647 = 0"
  have "unat r * 16807 * 1407677000 = unat r + 2147483647 * (unat r * 11017)" by simp
  then have "(unat r * 16807 * 1407677000) mod 2147483647 = unat r mod 2147483647" by (simp only: mod_mult_self2)
  moreover have "(unat r * 16807 * 1407677000) mod 2147483647 = 0" using z by (metis mod_0 mod_mult_left_eq mult_0)
  ultimately show False using assms by (simp add: random_seed_def)
qed

lemma Random_Next_unat:
  assumes "random_seed r"
  shows "unat (Random_Next r) = (unat r * 16807) mod 2147483647"
proof -
  let ?p = "unat r * 16807"
  have r: "unat r < 2147483647" "0 < unat r" using assms by (simp_all add: random_seed_def)
  define prod where "prod = ucast r * random_A"
  have p: "unat prod = ?p"
    using r(1) by (simp add: prod_def random_A_def unat_word_ariths unsigned_ucast_eq take_bit_nat_eq_self)
  define a b where "a = ?p div 2 ^ 31" and "b = ?p mod 2 ^ 31"
  have ab: "?p = 2147483647 * a + (a + b)" "a < 16807" "b < 2 ^ 31" using r(1) by (simp_all add: a_def b_def)
  have "unat (drop_bit 31 prod) = a" using p by (simp add: drop_bit_eq_div unat_div_distrib a_def)
  moreover have M: "ucast random_M = (2147483647 :: u64)"
    by (simp add: word_unat_eq_iff unsigned_ucast_eq random_M_def take_bit_nat_eq_self)
  have "prod AND ucast random_M = take_bit 31 prod"
    unfolding M by (simp add: take_bit_eq_mask mask_eq_decr_exp)
  then have "unat (prod AND ucast random_M) = b" using p by (simp add: take_bit_eq_mod unat_mod_distrib b_def)
  ultimately have s: "unat (ucast (drop_bit 31 prod + (prod AND ucast random_M)) :: u32) = a + b"
    using ab by (simp add: unsigned_ucast_eq unat_word_ariths take_bit_nat_eq_self)
  have mod: "?p mod 2147483647 = (a + b) mod 2147483647" unfolding ab(1) by (simp only: mod_mult_self4)
  have "?p mod 2147483647 \<noteq> 0" by (rule product_nonzero [OF assms])
  then have ne: "a + b \<noteq> 2147483647" using mod by auto
  show ?thesis
  proof (cases "2147483647 < a + b")
    case True
    then have "(a + b) mod 2147483647 = a + b - 2147483647" using ab(2,3) by (simp add: mod_if)
    then show ?thesis using True s mod unfolding Random_Next_def Let_def prod_def [symmetric]
      by (simp add: random_M_def word_less_nat_alt unat_sub word_le_nat_alt)
  next
    case False
    then show ?thesis using ne s mod unfolding Random_Next_def Let_def prod_def [symmetric]
      by (simp add: random_M_def word_less_nat_alt)
  qed
qed

lemma Random_Next_seed: "random_seed r \<Longrightarrow> random_seed (Random_Next r)"
proof -
  assume r: "random_seed r"
  note product_nonzero [OF r]
  moreover have "(unat r * 16807) mod 2147483647 < 2147483647" by simp
  ultimately show ?thesis unfolding random_seed_def Random_Next_unat [OF r] by linarith
qed

text \<open>A seed that gives a zero period is followed by one that does not.\<close>

lemma Random_Next_no_second_zero:
  assumes "random_seed r" and "unat r mod 2097152 = 0"
  shows "unat (Random_Next r) mod 2097152 \<noteq> 0"
proof -
  define k where "k = unat r div 2097152"
  have k: "unat r = 2097152 * k" using assms(2) by (auto simp: k_def)
  then have kb: "0 < k" "k < 1024" using assms(1) by (auto simp: random_seed_def)
  define a b where "a = (16807 * k) div 1024" and "b = (16807 * k) mod 1024"
  have ab: "16807 * k = 1024 * a + b" "b < 1024" "0 < a" "a < 16807" using kb by (simp_all add: a_def b_def div_greater_zero_iff)
  have "unat r * 16807 = 2097152 * (16807 * k)" using k by simp
  also have "\<dots> = (a + 2097152 * b) + 2147483647 * a" unfolding ab(1) by simp
  finally have "unat (Random_Next r) = (a + 2097152 * b) mod 2147483647"
    unfolding Random_Next_unat [OF assms(1)] by (simp only: mod_mult_self2)
  also have "\<dots> = a + 2097152 * b" using ab by simp
  finally show ?thesis using ab(3,4) by simp
qed

lemma period_seed: "RandomCompactionPeriod rnd = (unat (Random_Next rnd) mod 2097152, Random_Next rnd)"
  by (simp add: RandomCompactionPeriod_def Random_Uniform_def kReadBytesPeriod_def Let_def unat_mod_distrib)

lemma read_sampling_enough:
  assumes "random_seed (di_rnd d)"
    and "2 * (b - di_bytes_until_read_sampling d) + (if unat (di_rnd d) mod 2097152 = 0 then 0 else 1) \<le> fuel"
  shows "b \<le> di_bytes_until_read_sampling (read_sampling fuel b k d) \<and> random_seed (di_rnd (read_sampling fuel b k d)) \<and>
         read_sampling (fuel + extra) b k d = read_sampling fuel b k d"
  using assms
proof (induction fuel arbitrary: d)
  case 0
  then show ?case by (cases extra) (simp_all split: if_splits)
next
  case (Suc fuel)
  show ?case
  proof (cases "di_bytes_until_read_sampling d < b")
    case True
    let ?r = "Random_Next (di_rnd d)"
    let ?d = "d\<lparr>di_bytes_until_read_sampling := di_bytes_until_read_sampling d + unat ?r mod 2097152, di_rnd := ?r,
                di_samples := di_samples d @ [k]\<rparr>"
    have "unat ?r mod 2097152 = 0 \<Longrightarrow> unat (di_rnd d) mod 2097152 \<noteq> 0"
      using Random_Next_no_second_zero [OF Suc.prems(1)] by auto
    then have "2 * (b - di_bytes_until_read_sampling ?d) + (if unat (di_rnd ?d) mod 2097152 = 0 then 0 else 1) \<le> fuel"
      using Suc.prems(2) True by (auto split: if_splits)
    from Suc.IH [OF _ this] show ?thesis
      using True Random_Next_seed [OF Suc.prems(1)] by (simp add: period_seed)
  next
    case False
    then show ?thesis using Suc.prems by simp
  qed
qed

section \<open>Properties\<close>

text \<open>
  C7: However \<^verbatim>\<open>Next\<close>, \<^verbatim>\<open>Prev\<close> and the seeks are mixed, the database iterator over a sorted cursor of
  internal keys returns from every call and behaves as a cursor over what its snapshot shows: the user
  keys whose newest visible version is a value, with these values. Entries whose key does not parse
  are skipped; without such entries the status stays OK.
\<close>

theorem db_iterator_is_snapshot_cursor:
  assumes "internal_iterator cmp ops rep" and "rep i es r" and "s \<le> kMaxSequenceNumber"
  shows "\<exists>d. di_run ops cmp (NewDBIterator i s seed) moves =
             Some (cursor_run (cmp_Compare cmp) (snapshot_view cmp s es) (length (snapshot_view cmp s es)) moves, d) \<and>
           ((\<forall>e \<in> set es. ParseInternalKey (fst e) \<noteq> None) \<longrightarrow> di_get_status ops d = OK)"
  using internal_iterator.di_run_at [OF assms(1) internal_iterator.NewDBIterator_at [OF assms(1,2)] assms(3)]
    internal_iterator.di_at_status [OF assms(1)] by blast

theorem db_iterator_is_snapshot_cursor_witness:
  "\<exists>it d. di_run (block_iter_ops (InternalKeyComparator BytewiseComparator)) BytewiseComparator (NewDBIterator it 5 1)
            [ToFirst, Forward, Backward, Backward] =
          Some ([Some ([1], [7]), Some ([3], [9]), Some ([1], [7]), None], d)"
proof -
  let ?icmp = "InternalKeyComparator BytewiseComparator"
  let ?es = "[(InternalKey [1] 6 kTypeDeletion, []), (InternalKey [1] 5 kTypeValue, [7]), (InternalKey [2] 4 kTypeDeletion, []),
     (InternalKey [2] 3 kTypeValue, [8]), (InternalKey [3] 2 kTypeValue, [9])] :: (bytes \<times> bytes) list"
  have srt: "sorted_wrt (\<lambda>a b. cmp_Compare ?icmp (fst a) (fst b) < 0) ?es" "\<forall>e \<in> set ?es. internal_key (fst e)"
    by (simp_all add: InternalKeyComparator_def ikey_Compare_def BytewiseComparator_def slice_compare_def
        PackSequenceAndType_def type_code_def)
  have len: "length (fst (bb_Finish (bb_AddAll ?es (new_BlockBuilder 16)))) < 2 ^ 32"
    by (rule le_less_trans [OF length_built]) simp
  obtain it where "comparator.block_rep ?icmp internal_key it ?es (length ?es)"
    using comparator.block_rep_AddAll [OF bytewise_user.ikey.comparator_axioms, of 16, OF _ _ prod.collapse [symmetric] len] srt
    by auto
  from db_iterator_is_snapshot_cursor [OF bytewise_internal.internal_iterator_axioms, OF this, of 5 1]
  have "\<exists>d. di_run (block_iter_ops ?icmp) BytewiseComparator (NewDBIterator it 5 1) moves =
      Some (cursor_run slice_compare (snapshot_view BytewiseComparator 5 ?es) (length (snapshot_view BytewiseComparator 5 ?es)) moves, d)"
    for moves by (auto simp: BytewiseComparator_def kMaxSequenceNumber_def)
  note run = this
  have view: "snapshot_view BytewiseComparator 5 ?es = [([1], [7]), ([3], [9])]"
    by (simp add: snapshot_view_def entry_live_def entry_visible_def entry_is_value_def Parse_InternalKey kMaxSequenceNumber_def
        user_key_of_def BytewiseComparator_def slice_compare_def upt_rec)
  have "cursor_run slice_compare [([1], [7]), ([3], [9])] (length [([1] :: bytes, [7] :: bytes), ([3], [9])]) [ToFirst, Forward, Backward, Backward] =
      [Some ([1], [7]), Some ([3], [9]), Some ([1], [7]), None]"
    by (simp add: cursor_move_def)
  with run [of "[ToFirst, Forward, Backward, Backward]"] show ?thesis unfolding view by metis
qed

text \<open>
  Read sampling ends. The loop in \<^verbatim>\<open>ParseKey\<close> draws periods that may be zero, but for every seed a
  \<^verbatim>\<open>Random\<close> can hold it covers the bytes read after at most two rounds per byte, so the fuel of the model
  never runs out and the assertion behind the loop holds; seeds stay proper.
\<close>

theorem read_sampling_ends:
  assumes "di_rnd d = (Random_Next ^^ n) (new_Random seed)"
  shows "bytes_read \<le> di_bytes_until_read_sampling (read_sampling (2 * bytes_read + 1) bytes_read k d) \<and>
         read_sampling (2 * bytes_read + 1 + extra) bytes_read k d = read_sampling (2 * bytes_read + 1) bytes_read k d \<and>
         0 < unat (di_rnd (read_sampling (2 * bytes_read + 1) bytes_read k d))"
proof -
  have "random_seed ((Random_Next ^^ n) (new_Random seed))"
    by (induction n) (simp_all add: random_seed_new Random_Next_seed)
  then have seed: "random_seed (di_rnd d)" using assms by simp
  have "2 * (bytes_read - di_bytes_until_read_sampling d) + (if unat (di_rnd d) mod 2097152 = 0 then 0 else 1) \<le> 2 * bytes_read + 1"
    by (rule add_mono [OF mult_le_mono2 [OF diff_le_self]]) simp
  from read_sampling_enough [OF seed this] show ?thesis unfolding random_seed_def by blast
qed

theorem read_sampling_ends_witness:
  "30 \<le> di_bytes_until_read_sampling (read_sampling 61 30 [] (NewDBIterator () 5 1))"
proof -
  have "di_rnd (NewDBIterator () 5 1) = (Random_Next ^^ 1) (new_Random 1)"
    by (simp add: NewDBIterator_def period_seed)
  from read_sampling_ends [OF this, of 30 "[]" 0] show ?thesis by simp
qed

end
