(* ===== verification/TwoLevel.thy ===== *)
theory TwoLevel
  imports Iterator
begin

text \<open>
  The two-level iterator, \<^verbatim>\<open>table/two_level_iterator.cc\<close>: an index iterator whose values name blocks,
  and a function that opens the iterator of a block. It is a cursor over the concatenated blocks, empty
  blocks included. The loops over empty blocks are partial functions, so that not returning is a value.
\<close>

section \<open>The iterator\<close>

record ('x, 'd) two_level =
  tl_status :: status
  tl_index :: "'x wrapper"
  tl_data :: "'d wrapper"
  tl_data_block_handle :: bytes

definition NewTwoLevelIterator :: "'x iter_ops \<Rightarrow> 'd iter_ops \<Rightarrow> 'x \<Rightarrow> ('x, 'd) two_level" where
  "NewTwoLevelIterator iops dops index_iter =
     \<lparr>tl_status = OK, tl_index = new_wrapper iops (Some index_iter), tl_data = new_wrapper dops None,
      tl_data_block_handle = []\<rparr>"

definition SaveError :: "status \<Rightarrow> ('x, 'd) two_level \<Rightarrow> ('x, 'd) two_level" where
  "SaveError s t = (if ok (tl_status t) \<and> \<not> ok s then t\<lparr>tl_status := s\<rparr> else t)"

definition SetDataIterator :: "'d iter_ops \<Rightarrow> 'd option \<Rightarrow> ('x, 'd) two_level \<Rightarrow> ('x, 'd) two_level" where
  "SetDataIterator dops data_iter t =
     (let t = (if iw_iter (tl_data t) \<noteq> None then SaveError (iw_status dops (tl_data t)) t else t)
      in t\<lparr>tl_data := iw_Set dops data_iter (tl_data t)\<rparr>)"

definition InitDataBlock ::
  "'x iter_ops \<Rightarrow> 'd iter_ops \<Rightarrow> (bytes \<Rightarrow> 'd) \<Rightarrow> ('x, 'd) two_level \<Rightarrow> ('x, 'd) two_level" where
  "InitDataBlock iops dops block_function t =
     (if \<not> iw_valid (tl_index t) then SetDataIterator dops None t
      else
        let hdl = iw_value iops (tl_index t)
        in if iw_iter (tl_data t) \<noteq> None \<and> slice_compare hdl (tl_data_block_handle t) = 0 then t
           else
             let i = block_function hdl;
                 t = t\<lparr>tl_data_block_handle := hdl\<rparr>
             in SetDataIterator dops (Some i) t)"

text \<open>\<open>on_data f\<close>: \<^verbatim>\<open>if (data_iter_.iter() != nullptr) data_iter_.f()\<close>.\<close>

definition on_data :: "('d wrapper \<Rightarrow> 'd wrapper) \<Rightarrow> ('x, 'd) two_level \<Rightarrow> ('x, 'd) two_level" where
  "on_data f t = (if iw_iter (tl_data t) \<noteq> None then t\<lparr>tl_data := f (tl_data t)\<rparr> else t)"

partial_function (option) SkipEmptyDataBlocksForward ::
  "'x iter_ops \<Rightarrow> 'd iter_ops \<Rightarrow> (bytes \<Rightarrow> 'd) \<Rightarrow> ('x, 'd) two_level \<Rightarrow> ('x, 'd) two_level option" where
  "SkipEmptyDataBlocksForward iops dops block_function t =
     (if iw_iter (tl_data t) = None \<or> \<not> iw_valid (tl_data t) then
        if \<not> iw_valid (tl_index t) then Some (SetDataIterator dops None t)
        else
          let t = InitDataBlock iops dops block_function (t\<lparr>tl_index := iw_Next iops (tl_index t)\<rparr>);
              t = on_data (iw_SeekToFirst dops) t
          in SkipEmptyDataBlocksForward iops dops block_function t
      else Some t)"

partial_function (option) SkipEmptyDataBlocksBackward ::
  "'x iter_ops \<Rightarrow> 'd iter_ops \<Rightarrow> (bytes \<Rightarrow> 'd) \<Rightarrow> ('x, 'd) two_level \<Rightarrow> ('x, 'd) two_level option" where
  "SkipEmptyDataBlocksBackward iops dops block_function t =
     (if iw_iter (tl_data t) = None \<or> \<not> iw_valid (tl_data t) then
        if \<not> iw_valid (tl_index t) then Some (SetDataIterator dops None t)
        else
          let t = InitDataBlock iops dops block_function (t\<lparr>tl_index := iw_Prev iops (tl_index t)\<rparr>);
              t = on_data (iw_SeekToLast dops) t
          in SkipEmptyDataBlocksBackward iops dops block_function t
      else Some t)"

definition tl_Seek ::
  "'x iter_ops \<Rightarrow> 'd iter_ops \<Rightarrow> (bytes \<Rightarrow> 'd) \<Rightarrow> ('x, 'd) two_level \<Rightarrow> bytes \<Rightarrow> ('x, 'd) two_level option" where
  "tl_Seek iops dops block_function t target =
     (let t = InitDataBlock iops dops block_function (t\<lparr>tl_index := iw_Seek iops target (tl_index t)\<rparr>);
          t = on_data (iw_Seek dops target) t
      in SkipEmptyDataBlocksForward iops dops block_function t)"

definition tl_SeekToFirst ::
  "'x iter_ops \<Rightarrow> 'd iter_ops \<Rightarrow> (bytes \<Rightarrow> 'd) \<Rightarrow> ('x, 'd) two_level \<Rightarrow> ('x, 'd) two_level option" where
  "tl_SeekToFirst iops dops block_function t =
     (let t = InitDataBlock iops dops block_function (t\<lparr>tl_index := iw_SeekToFirst iops (tl_index t)\<rparr>);
          t = on_data (iw_SeekToFirst dops) t
      in SkipEmptyDataBlocksForward iops dops block_function t)"

definition tl_SeekToLast ::
  "'x iter_ops \<Rightarrow> 'd iter_ops \<Rightarrow> (bytes \<Rightarrow> 'd) \<Rightarrow> ('x, 'd) two_level \<Rightarrow> ('x, 'd) two_level option" where
  "tl_SeekToLast iops dops block_function t =
     (let t = InitDataBlock iops dops block_function (t\<lparr>tl_index := iw_SeekToLast iops (tl_index t)\<rparr>);
          t = on_data (iw_SeekToLast dops) t
      in SkipEmptyDataBlocksBackward iops dops block_function t)"

definition tl_Next ::
  "'x iter_ops \<Rightarrow> 'd iter_ops \<Rightarrow> (bytes \<Rightarrow> 'd) \<Rightarrow> ('x, 'd) two_level \<Rightarrow> ('x, 'd) two_level option" where
  "tl_Next iops dops block_function t =
     SkipEmptyDataBlocksForward iops dops block_function (t\<lparr>tl_data := iw_Next dops (tl_data t)\<rparr>)"

definition tl_Prev ::
  "'x iter_ops \<Rightarrow> 'd iter_ops \<Rightarrow> (bytes \<Rightarrow> 'd) \<Rightarrow> ('x, 'd) two_level \<Rightarrow> ('x, 'd) two_level option" where
  "tl_Prev iops dops block_function t =
     SkipEmptyDataBlocksBackward iops dops block_function (t\<lparr>tl_data := iw_Prev dops (tl_data t)\<rparr>)"

definition tl_get_status :: "'x iter_ops \<Rightarrow> 'd iter_ops \<Rightarrow> ('x, 'd) two_level \<Rightarrow> status" where
  "tl_get_status iops dops t =
     (if \<not> ok (iw_status iops (tl_index t)) then iw_status iops (tl_index t)
      else if iw_iter (tl_data t) \<noteq> None \<and> \<not> ok (iw_status dops (tl_data t)) then iw_status dops (tl_data t)
      else tl_status t)"

text \<open>The virtual methods, where a call that does not return has an arbitrary result.\<close>

definition two_level_iter_ops :: "'x iter_ops \<Rightarrow> 'd iter_ops \<Rightarrow> (bytes \<Rightarrow> 'd) \<Rightarrow> ('x, 'd) two_level iter_ops" where
  "two_level_iter_ops iops dops block_function =
     \<lparr>it_Valid = (\<lambda>t. iw_valid (tl_data t)),
      it_SeekToFirst = (\<lambda>t. the (tl_SeekToFirst iops dops block_function t)),
      it_SeekToLast = (\<lambda>t. the (tl_SeekToLast iops dops block_function t)),
      it_Seek = (\<lambda>t target. the (tl_Seek iops dops block_function t target)),
      it_Next = (\<lambda>t. the (tl_Next iops dops block_function t)),
      it_Prev = (\<lambda>t. the (tl_Prev iops dops block_function t)),
      it_key = (\<lambda>t. iw_key (tl_data t)), it_value = (\<lambda>t. iw_value dops (tl_data t)),
      it_status = tl_get_status iops dops\<rparr>"

section \<open>The contract\<close>

locale two_level_blocks =
  idx: sorted_iterator compare valid iops irep + dat: sorted_iterator compare valid dops drep
  for compare :: "bytes \<Rightarrow> bytes \<Rightarrow> int" and valid :: "bytes \<Rightarrow> bool" and iops :: "'x iter_ops" and irep
    and dops :: "'d iter_ops" and drep +
  fixes block_function :: "bytes \<Rightarrow> 'd"
begin

text \<open>
  \<open>blocks_ok ixs content\<close>: the index entries \<open>ixs\<close> name the blocks; the content of each is what its
  iterator runs over, and the index keys separate the blocks.
\<close>

definition blocks_ok :: "(bytes \<times> bytes) list \<Rightarrow> (bytes \<Rightarrow> (bytes \<times> bytes) list) \<Rightarrow> bool" where
  "blocks_ok ixs content \<longleftrightarrow>
     (\<forall>x \<in> set ixs. \<exists>p. drep (block_function (snd x)) (content (snd x)) p) \<and>
     (\<forall>i < length ixs. \<forall>e \<in> set (content (snd (ixs ! i))). compare (fst e) (fst (ixs ! i)) \<le> 0) \<and>
     (\<forall>i j. i < j \<longrightarrow> j < length ixs \<longrightarrow>
        (\<forall>e \<in> set (content (snd (ixs ! j))). compare (fst (ixs ! i)) (fst e) < 0))"

abbreviation entries :: "(bytes \<times> bytes) list \<Rightarrow> (bytes \<Rightarrow> (bytes \<times> bytes) list) \<Rightarrow> (bytes \<times> bytes) list" where
  "entries ixs content \<equiv> concat (map (\<lambda>x. content (snd x)) ixs)"

abbreviation start :: "(bytes \<times> bytes) list \<Rightarrow> (bytes \<Rightarrow> (bytes \<times> bytes) list) \<Rightarrow> nat \<Rightarrow> nat" where
  "start ixs content q \<equiv> length (entries (take q ixs) content)"

text \<open>\<open>tl_at\<close>: the index stands at \<open>q\<close> and the data iterator, if there is a block, at \<open>x\<close> in it.\<close>

definition tl_at :: "('x, 'd) two_level \<Rightarrow> (bytes \<times> bytes) list \<Rightarrow> (bytes \<Rightarrow> (bytes \<times> bytes) list) \<Rightarrow> nat \<Rightarrow> nat \<Rightarrow> bool" where
  "tl_at t ixs content q x \<longleftrightarrow>
     idx.wrep (tl_index t) ixs q \<and> tl_status t = OK \<and>
     (if q < length ixs then
        dat.wrep (tl_data t) (content (snd (ixs ! q))) x \<and> tl_data_block_handle t = snd (ixs ! q)
      else iw_iter (tl_data t) = None \<and> \<not> iw_valid (tl_data t))"

text \<open>Between calls, or before the index has moved on.\<close>

definition data_ok :: "('x, 'd) two_level \<Rightarrow> (bytes \<Rightarrow> (bytes \<times> bytes) list) \<Rightarrow> bool" where
  "data_ok t content \<longleftrightarrow>
     tl_status t = OK \<and> (iw_iter (tl_data t) = None \<and> \<not> iw_valid (tl_data t) \<or> (\<exists>x. dat.wrep (tl_data t) (content (tl_data_block_handle t)) x))"

definition tl_rep :: "('x, 'd) two_level \<Rightarrow> (bytes \<times> bytes) list \<Rightarrow> nat \<Rightarrow> bool" where
  "tl_rep t es p \<longleftrightarrow>
     (\<exists>ixs content q. blocks_ok ixs content \<and> es = entries ixs content \<and> p \<le> length es \<and>
        (if p < length es then
           \<exists>x. q < length ixs \<and> tl_at t ixs content q x \<and> x < length (content (snd (ixs ! q))) \<and> p = start ixs content q + x
         else idx.wrep (tl_index t) ixs q \<and> tl_status t = OK \<and> iw_iter (tl_data t) = None \<and> \<not> iw_valid (tl_data t)))"

lemma wrep_iter: "dat.wrep w es x \<Longrightarrow> iw_iter w \<noteq> None"
  by (auto simp: dat.wrep_def)

lemma start_Suc: "q < length ixs \<Longrightarrow> start ixs content (Suc q) = start ixs content q + length (content (snd (ixs ! q)))"
  by (simp add: take_Suc_conv_app_nth)

lemma entries_split:
  "q < length ixs \<Longrightarrow> entries ixs content =
     entries (take q ixs) content @ content (snd (ixs ! q)) @ entries (drop (Suc q) ixs) content"
  by (simp add: id_take_nth_drop [of q ixs, THEN arg_cong [of _ _ "\<lambda>l. entries l content"]])

lemma entries_nth:
  assumes "q < length ixs" and "x < length (content (snd (ixs ! q)))"
  shows "start ixs content q + x < length (entries ixs content)"
    and "entries ixs content ! (start ixs content q + x) = content (snd (ixs ! q)) ! x"
  using assms(2) unfolding entries_split [OF assms(1)] by (simp_all add: nth_append)

lemma tl_at_data_ok: "tl_at t ixs content q x \<Longrightarrow> data_ok t content"
  by (auto simp: tl_at_def data_ok_def split: if_splits)

lemma data_ok_index [simp]: "data_ok (t\<lparr>tl_index := w\<rparr>) content = data_ok t content"
  by (simp add: data_ok_def)

lemma SetDataIterator_None:
  assumes "data_ok t content"
  shows "SetDataIterator dops None t = t\<lparr>tl_data := (tl_data t)\<lparr>iw_iter := None, iw_valid := False\<rparr>\<rparr>"
proof -
  have "iw_status dops (tl_data t) = OK" if "iw_iter (tl_data t) \<noteq> None"
    using assms that dat.wrep_ops(5) by (auto simp: data_ok_def)
  then show ?thesis by (cases "iw_iter (tl_data t) = None") (simp_all add: SetDataIterator_def SaveError_def iw_Set_def Let_def)
qed

lemma SetDataIterator_Some:
  assumes "data_ok t content" and "drep d es x"
  shows "\<exists>w. SetDataIterator dops (Some d) t = t\<lparr>tl_data := w\<rparr> \<and> dat.wrep w es x"
proof -
  have "iw_status dops (tl_data t) = OK" if "iw_iter (tl_data t) \<noteq> None"
    using assms(1) that dat.wrep_ops(5) by (auto simp: data_ok_def)
  then have "SetDataIterator dops (Some d) t = t\<lparr>tl_data := iw_Update dops ((tl_data t)\<lparr>iw_iter := Some d\<rparr>)\<rparr>"
    by (cases "iw_iter (tl_data t) = None") (simp_all add: SetDataIterator_def SaveError_def iw_Set_def Let_def)
  then show ?thesis using dat.wrep_Update [OF _ assms(2)] by auto
qed

lemma InitDataBlock_at:
  assumes "idx.wrep (tl_index t) ixs q" and "blocks_ok ixs content" and "data_ok t content"
  shows "\<exists>x. tl_at (InitDataBlock iops dops block_function t) ixs content q x"
proof -
  have st: "tl_status t = OK" using assms(3) by (simp add: data_ok_def)
  show ?thesis
  proof (cases "q < length ixs")
    case False
    then have "\<not> iw_valid (tl_index t)" using idx.wrep_ops(2) [OF assms(1)] by simp
    then show ?thesis using SetDataIterator_None [OF assms(3)] False assms(1) st
      by (simp add: InitDataBlock_def tl_at_def)
  next
    case True
    let ?h = "snd (ixs ! q)"
    have v: "iw_valid (tl_index t)" "iw_value iops (tl_index t) = ?h"
      using idx.wrep_ops(2,4) [OF assms(1)] True by simp_all
    show ?thesis
    proof (cases "iw_iter (tl_data t) \<noteq> None \<and> slice_compare ?h (tl_data_block_handle t) = 0")
      case same: True
      then have "tl_data_block_handle t = ?h" by simp
      moreover obtain x where "dat.wrep (tl_data t) (content (tl_data_block_handle t)) x"
        using assms(3) same by (auto simp: data_ok_def)
      ultimately have "tl_at t ixs content q x" using assms(1) st True by (simp add: tl_at_def)
      then show ?thesis using same v by (auto simp: InitDataBlock_def Let_def)
    next
      case new: False
      let ?t = "t\<lparr>tl_data_block_handle := ?h\<rparr>"
      obtain p where p: "drep (block_function ?h) (content ?h) p"
        using assms(2) True nth_mem [OF True] unfolding blocks_ok_def by blast
      have ok: "iw_status dops (tl_data t) = OK" if "iw_iter (tl_data t) \<noteq> None"
        using assms(3) that dat.wrep_ops(5) by (auto simp: data_ok_def)
      then have "SetDataIterator dops (Some (block_function ?h)) ?t =
          ?t\<lparr>tl_data := iw_Update dops ((tl_data t)\<lparr>iw_iter := Some (block_function ?h)\<rparr>)\<rparr>"
        by (cases "iw_iter (tl_data t) = None") (simp_all add: SetDataIterator_def SaveError_def iw_Set_def Let_def)
      moreover have "dat.wrep (iw_Update dops ((tl_data t)\<lparr>iw_iter := Some (block_function ?h)\<rparr>)) (content ?h) p"
        by (rule dat.wrep_Update [OF _ p]) simp
      moreover have "InitDataBlock iops dops block_function t = SetDataIterator dops (Some (block_function ?h)) ?t"
        by (simp only: InitDataBlock_def Let_def v not_True_eq_False if_False if_not_P [OF new])
      ultimately have "tl_at (InitDataBlock iops dops block_function t) ixs content q p"
        using assms(1) st True by (simp add: tl_at_def)
      then show ?thesis by blast
    qed
  qed
qed

lemma on_data_at:
  assumes "tl_at t ixs content q x" and "\<And>w es x. dat.wrep w es x \<Longrightarrow> dat.wrep (f w) es (g es)"
  shows "tl_at (on_data f t) ixs content q (g (content (snd (ixs ! q))))"
proof (cases "q < length ixs")
  case True
  then have w: "dat.wrep (tl_data t) (content (snd (ixs ! q))) x" using assms(1) by (simp add: tl_at_def)
  have "on_data f t = t\<lparr>tl_data := f (tl_data t)\<rparr>" unfolding on_data_def by (rule if_P) (rule wrep_iter [OF w])
  then show ?thesis using assms(1) assms(2) [OF w] True by (simp add: tl_at_def)
next
  case False
  then have "on_data f t = t" using assms(1) by (simp add: tl_at_def on_data_def)
  then show ?thesis using assms(1) False by (simp add: tl_at_def)
qed

lemma SkipForward_rep:
  assumes "blocks_ok ixs content" and "tl_at t ixs content q x"
  shows "\<exists>t'. SkipEmptyDataBlocksForward iops dops block_function t = Some t' \<and>
           tl_rep t' (entries ixs content) (if q < length ixs then start ixs content q + x else length (entries ixs content))"
  using assms(2)
proof (induction "length ixs - q" arbitrary: t q x rule: less_induct)
  case less
  note at = less.prems
  have iw: "idx.wrep (tl_index t) ixs q" and st: "tl_status t = OK" using at by (simp_all add: tl_at_def)
  show ?case
  proof (cases "q < length ixs")
    case True
    then have dw: "dat.wrep (tl_data t) (content (snd (ixs ! q))) x" using at by (simp add: tl_at_def)
    note ops = dat.wrep_ops [OF dw]
    show ?thesis
    proof (cases "x < length (content (snd (ixs ! q)))")
      case inside: True
      have "SkipEmptyDataBlocksForward iops dops block_function t = Some t"
        using ops(2) inside wrep_iter [OF dw] by (subst SkipEmptyDataBlocksForward.simps) auto
      moreover have "tl_rep t (entries ixs content) (start ixs content q + x)"
        using assms(1) at True inside entries_nth(1) [of q ixs x content, OF True inside] unfolding tl_rep_def
        by (intro exI [of _ ixs] exI [of _ content] exI [of _ q]) auto
      ultimately show ?thesis using True by simp
    next
      case past: False
      let ?t1 = "t\<lparr>tl_index := iw_Next iops (tl_index t)\<rparr>"
      let ?t2 = "on_data (iw_SeekToFirst dops) (InitDataBlock iops dops block_function ?t1)"
      have x: "x = length (content (snd (ixs ! q)))" using ops(1) past by simp
      have "SkipEmptyDataBlocksForward iops dops block_function t = SkipEmptyDataBlocksForward iops dops block_function ?t2"
        using ops(2) past idx.wrep_ops(2) [OF iw] True by (subst SkipEmptyDataBlocksForward.simps) (simp add: Let_def)
      moreover have "idx.wrep (tl_index ?t1) ixs (Suc q)" using idx.wrep_ops(8) [OF iw True] by simp
      then obtain x' where "tl_at (InitDataBlock iops dops block_function ?t1) ixs content (Suc q) x'"
        using InitDataBlock_at [OF _ assms(1), of ?t1 "Suc q"] tl_at_data_ok [OF at] by auto
      then have at2: "tl_at ?t2 ixs content (Suc q) 0" by (rule on_data_at [where g = "\<lambda>_. 0"]) (rule dat.wrep_ops(6))
      have "length ixs - Suc q < length ixs - q" using True by simp
      from less.hyps [OF this at2] obtain t' where "SkipEmptyDataBlocksForward iops dops block_function ?t2 = Some t'"
        "tl_rep t' (entries ixs content) (if Suc q < length ixs then start ixs content (Suc q) + 0 else length (entries ixs content))"
        using True by auto
      moreover have "start ixs content q + x = start ixs content (Suc q)" using start_Suc [OF True] x by simp
      moreover have "(if Suc q < length ixs then start ixs content (Suc q) + 0 else length (entries ixs content)) =
          start ixs content (Suc q)" by simp
      ultimately show ?thesis using True by simp
    qed
  next
    case False
    then have d: "iw_iter (tl_data t) = None" "\<not> iw_valid (tl_data t)" using at by (simp_all add: tl_at_def)
    have "SkipEmptyDataBlocksForward iops dops block_function t = Some (SetDataIterator dops None t)"
      using d idx.wrep_ops(2) [OF iw] False by (subst SkipEmptyDataBlocksForward.simps) simp
    moreover have "tl_rep (SetDataIterator dops None t) (entries ixs content) (length (entries ixs content))"
      using SetDataIterator_None [OF tl_at_data_ok [OF at]] assms(1) iw st unfolding tl_rep_def
      by (intro exI [of _ ixs] exI [of _ content] exI [of _ q]) simp
    ultimately show ?thesis using False by simp
  qed
qed

definition back_to :: "nat \<Rightarrow> nat \<Rightarrow> nat" where
  "back_to n p = (if p = 0 then n else p - 1)"

lemma back_arith: "(if l - 1 < l then s + (l - 1) else back_to n s) = back_to n (s + l)"
  by (auto simp: back_to_def)

lemma SkipBackward_rep:
  assumes "blocks_ok ixs content" and "tl_at t ixs content q x"
  shows "\<exists>t'. SkipEmptyDataBlocksBackward iops dops block_function t = Some t' \<and>
           tl_rep t' (entries ixs content)
             (if q < length ixs then
                if x < length (content (snd (ixs ! q))) then start ixs content q + x
                else back_to (length (entries ixs content)) (start ixs content q)
              else length (entries ixs content))"
  using assms(2)
proof (induction "if q < length ixs then Suc q else 0" arbitrary: t q x rule: less_induct)
  case less
  note at = less.prems
  have iw: "idx.wrep (tl_index t) ixs q" and st: "tl_status t = OK" using at by (simp_all add: tl_at_def)
  show ?case
  proof (cases "q < length ixs")
    case True
    then have dw: "dat.wrep (tl_data t) (content (snd (ixs ! q))) x" using at by (simp add: tl_at_def)
    note ops = dat.wrep_ops [OF dw]
    show ?thesis
    proof (cases "x < length (content (snd (ixs ! q)))")
      case inside: True
      have "SkipEmptyDataBlocksBackward iops dops block_function t = Some t"
        using ops(2) inside wrep_iter [OF dw] by (subst SkipEmptyDataBlocksBackward.simps) auto
      moreover have "tl_rep t (entries ixs content) (start ixs content q + x)"
        using assms(1) at True inside entries_nth(1) [of q ixs x content, OF True inside] unfolding tl_rep_def
        by (intro exI [of _ ixs] exI [of _ content] exI [of _ q]) auto
      ultimately show ?thesis using True inside by simp
    next
      case past: False
      let ?t1 = "t\<lparr>tl_index := iw_Prev iops (tl_index t)\<rparr>"
      let ?t2 = "on_data (iw_SeekToLast dops) (InitDataBlock iops dops block_function ?t1)"
      let ?q = "if q = 0 then length ixs else q - 1"
      let ?x = "length (content (snd (ixs ! ?q))) - 1"
      have "SkipEmptyDataBlocksBackward iops dops block_function t = SkipEmptyDataBlocksBackward iops dops block_function ?t2"
        using ops(2) past idx.wrep_ops(2) [OF iw] True by (subst SkipEmptyDataBlocksBackward.simps) (simp add: Let_def)
      moreover have "idx.wrep (tl_index ?t1) ixs ?q" using idx.wrep_ops(9) [OF iw True] by simp
      then obtain x' where "tl_at (InitDataBlock iops dops block_function ?t1) ixs content ?q x'"
        using InitDataBlock_at [OF _ assms(1), of ?t1 ?q] tl_at_data_ok [OF at] by auto
      then have at2: "tl_at ?t2 ixs content ?q ?x" by (rule on_data_at [where g = "\<lambda>es. length es - 1"]) (rule dat.wrep_ops(7))
      have "(if ?q < length ixs then Suc ?q else 0) < (if q < length ixs then Suc q else 0)" using True by auto
      from less.hyps [OF this at2] obtain t' where t': "SkipEmptyDataBlocksBackward iops dops block_function ?t2 = Some t'"
        "tl_rep t' (entries ixs content)
             (if ?q < length ixs then
                if ?x < length (content (snd (ixs ! ?q))) then start ixs content ?q + ?x
                else back_to (length (entries ixs content)) (start ixs content ?q)
              else length (entries ixs content))"
        by blast
      moreover have "(if ?q < length ixs then
                if ?x < length (content (snd (ixs ! ?q))) then start ixs content ?q + ?x
                else back_to (length (entries ixs content)) (start ixs content ?q)
              else length (entries ixs content)) = back_to (length (entries ixs content)) (start ixs content q)"
      proof (cases q)
        case (Suc q')
        then have "start ixs content q = start ixs content q' + length (content (snd (ixs ! q')))"
          using start_Suc [of q' ixs content] True by simp
        then show ?thesis using Suc True back_arith [of "length (content (snd (ixs ! q')))" "start ixs content q'" "length (entries ixs content)"]
          by (simp only: Suc diff_Suc_1 nat.distinct if_False Suc_lessD if_True)
      qed (simp add: back_to_def)
      ultimately show ?thesis using True past by simp
    qed
  next
    case False
    then have d: "iw_iter (tl_data t) = None" "\<not> iw_valid (tl_data t)" using at by (simp_all add: tl_at_def)
    have "SkipEmptyDataBlocksBackward iops dops block_function t = Some (SetDataIterator dops None t)"
      using d idx.wrep_ops(2) [OF iw] False by (subst SkipEmptyDataBlocksBackward.simps) simp
    moreover have "tl_rep (SetDataIterator dops None t) (entries ixs content) (length (entries ixs content))"
      using SetDataIterator_None [OF tl_at_data_ok [OF at]] assms(1) iw st unfolding tl_rep_def
      by (intro exI [of _ ixs] exI [of _ content] exI [of _ q]) simp
    ultimately show ?thesis using False by simp
  qed
qed

text \<open>Every operation returns, at the right place.\<close>

lemma tl_repM:
  assumes "tl_rep t es p"
  obtains ixs content q where "blocks_ok ixs content" "es = entries ixs content" "idx.wrep (tl_index t) ixs q" "data_ok t content"
proof -
  obtain ixs content q where r: "blocks_ok ixs content" "es = entries ixs content"
    "if p < length es then
           \<exists>x. q < length ixs \<and> tl_at t ixs content q x \<and> x < length (content (snd (ixs ! q))) \<and> p = start ixs content q + x
         else idx.wrep (tl_index t) ixs q \<and> tl_status t = OK \<and> iw_iter (tl_data t) = None \<and> \<not> iw_valid (tl_data t)"
    using assms unfolding tl_rep_def by blast
  then show thesis
  proof (cases "p < length es")
    case True
    then obtain x where "tl_at t ixs content q x" using r(3) by auto
    then show thesis using that [OF r(1,2)] tl_at_data_ok by (auto simp: tl_at_def)
  next
    case False
    then show thesis using that [OF r(1,2), of q] r(3) by (simp add: data_ok_def)
  qed
qed

lemma tl_repE:
  assumes "tl_rep t es p" and "p < length es"
  obtains ixs content q x where "blocks_ok ixs content" "es = entries ixs content" "q < length ixs" "tl_at t ixs content q x"
    "x < length (content (snd (ixs ! q)))" "p = start ixs content q + x"
  using assms unfolding tl_rep_def by auto

lemma seek_block:
  assumes "idx.wrep w ixs q" and "blocks_ok ixs content" and "data_ok t content"
    and "\<And>w es x. dat.wrep w es x \<Longrightarrow> dat.wrep (f w) es (g es)"
  shows "tl_at (on_data f (InitDataBlock iops dops block_function (t\<lparr>tl_index := w\<rparr>))) ixs content q (g (content (snd (ixs ! q))))"
proof -
  obtain x where "tl_at (InitDataBlock iops dops block_function (t\<lparr>tl_index := w\<rparr>)) ixs content q x"
    using InitDataBlock_at [of "t\<lparr>tl_index := w\<rparr>" ixs q content] assms(1-3) by auto
  then show ?thesis by (rule on_data_at) (rule assms(4))
qed

lemma tl_SeekToFirst_rep:
  assumes "tl_rep t es p"
  shows "\<exists>t'. tl_SeekToFirst iops dops block_function t = Some t' \<and> tl_rep t' es 0"
proof -
  obtain ixs content q where r: "blocks_ok ixs content" "es = entries ixs content" "idx.wrep (tl_index t) ixs q" "data_ok t content"
    by (rule tl_repM [OF assms])
  from SkipForward_rep [OF r(1) seek_block [OF idx.wrep_ops(6) [OF r(3)] r(1,4) dat.wrep_ops(6)]]
  show ?thesis unfolding tl_SeekToFirst_def Let_def r(2) by (cases ixs) simp_all
qed

lemma tl_SeekToLast_rep:
  assumes "tl_rep t es p"
  shows "\<exists>t'. tl_SeekToLast iops dops block_function t = Some t' \<and> tl_rep t' es (length es - 1)"
proof -
  obtain ixs content q where r: "blocks_ok ixs content" "es = entries ixs content" "idx.wrep (tl_index t) ixs q" "data_ok t content"
    by (rule tl_repM [OF assms])
  let ?q = "length ixs - 1"
  let ?p = "if ?q < length ixs then
                if length (content (snd (ixs ! ?q))) - 1 < length (content (snd (ixs ! ?q)))
                then start ixs content ?q + (length (content (snd (ixs ! ?q))) - 1)
                else back_to (length (entries ixs content)) (start ixs content ?q)
              else length (entries ixs content)"
  have "?p = length es - 1"
  proof (cases ixs rule: rev_cases)
    case (snoc ys y)
    then have e: "?q = length ys" "length ys < length ixs" "ixs ! length ys = y"
      "length (entries ixs content) = start ixs content (length ys) + length (content (snd y))" by simp_all
    have "?p = back_to (length (entries ixs content)) (length (entries ixs content))"
      using back_arith [of "length (content (snd y))" "start ixs content (length ys)" "length (entries ixs content)"]
      by (simp only: e(1-3) if_True e(4) [symmetric])
    moreover have "back_to n n = n - 1" for n by (simp add: back_to_def)
    ultimately show ?thesis unfolding r(2) by (simp only:)
  qed (simp add: r(2))
  with SkipBackward_rep [OF r(1) seek_block [OF idx.wrep_ops(7) [OF r(3)] r(1,4) dat.wrep_ops(7)]]
  show ?thesis unfolding tl_SeekToLast_def Let_def r(2) by simp
qed

lemma tl_Next_rep:
  assumes "tl_rep t es p" and "p < length es"
  shows "\<exists>t'. tl_Next iops dops block_function t = Some t' \<and> tl_rep t' es (p + 1)"
proof -
  obtain ixs content q x where r: "blocks_ok ixs content" "es = entries ixs content" "q < length ixs" "tl_at t ixs content q x"
    "x < length (content (snd (ixs ! q)))" "p = start ixs content q + x" by (rule tl_repE [OF assms])
  then have "dat.wrep (tl_data t) (content (snd (ixs ! q))) x" by (simp add: tl_at_def)
  from dat.wrep_ops(8) [OF this r(5)] r(3,4)
  have "tl_at (t\<lparr>tl_data := iw_Next dops (tl_data t)\<rparr>) ixs content q (x + 1)" by (simp add: tl_at_def)
  from SkipForward_rep [OF r(1) this] show ?thesis using r(2,3,6) by (simp add: tl_Next_def)
qed

lemma tl_Prev_rep:
  assumes "tl_rep t es p" and "p < length es"
  shows "\<exists>t'. tl_Prev iops dops block_function t = Some t' \<and> tl_rep t' es (if p = 0 then length es else p - 1)"
proof -
  obtain ixs content q x where r: "blocks_ok ixs content" "es = entries ixs content" "q < length ixs" "tl_at t ixs content q x"
    "x < length (content (snd (ixs ! q)))" "p = start ixs content q + x" by (rule tl_repE [OF assms])
  let ?x = "if x = 0 then length (content (snd (ixs ! q))) else x - 1"
  have "dat.wrep (tl_data t) (content (snd (ixs ! q))) x" using r(3,4) by (simp add: tl_at_def)
  from dat.wrep_ops(9) [OF this r(5)] r(3,4)
  have at: "tl_at (t\<lparr>tl_data := iw_Prev dops (tl_data t)\<rparr>) ixs content q ?x" by (simp add: tl_at_def)
  have "(if q < length ixs then
                if ?x < length (content (snd (ixs ! q))) then start ixs content q + ?x
                else back_to (length (entries ixs content)) (start ixs content q)
              else length (entries ixs content)) = (if p = 0 then length es else p - 1)"
    using r(2,3,5,6) by (auto simp: back_to_def)
  with SkipBackward_rep [OF r(1) at] show ?thesis unfolding r(2) tl_Prev_def by simp
qed

lemma in_entries_take:
  assumes "e \<in> set (entries (take n ixs) content)"
  shows "\<exists>i < n. i < length ixs \<and> e \<in> set (content (snd (ixs ! i)))"
proof -
  obtain x where x: "x \<in> set (take n ixs)" "e \<in> set (content (snd x))" using assms by auto
  obtain i where "i < length (take n ixs)" "x = take n ixs ! i" using x(1) unfolding in_set_conv_nth by blast
  then show ?thesis using x(2) by (intro exI [of _ i]) simp
qed

lemma takeWhile_middle:
  assumes "\<forall>x \<in> set xs. P x" and "\<forall>z \<in> set zs. \<not> P z"
  shows "length (takeWhile P (xs @ ys @ zs)) = length xs + length (takeWhile P ys)"
proof -
  have z: "takeWhile P zs = []" using assms(2) by (cases zs) simp_all
  have "takeWhile P (ys @ zs) = takeWhile P ys"
  proof (cases "\<forall>y \<in> set ys. P y")
    case True
    have "takeWhile P ys = ys" by (rule takeWhile_eq_all_conv [THEN iffD2]) (rule True)
    moreover have "takeWhile P (ys @ zs) = ys @ takeWhile P zs" by (rule takeWhile_append2) (use True in blast)
    ultimately show ?thesis by (simp only: z append_Nil2)
  next
    case False
    then obtain y where "y \<in> set ys" "\<not> P y" by blast
    then show ?thesis by (rule takeWhile_append1)
  qed
  then show ?thesis using assms(1) by (simp add: takeWhile_append2)
qed

lemma tl_Seek_rep:
  assumes "tl_rep t es p" and "valid k"
  shows "\<exists>t'. tl_Seek iops dops block_function t k = Some t' \<and>
           tl_rep t' es (length (takeWhile (\<lambda>e. compare (fst e) k < 0) es))"
proof -
  obtain ixs content q where r: "blocks_ok ixs content" "es = entries ixs content" "idx.wrep (tl_index t) ixs q" "data_ok t content"
    by (rule tl_repM [OF assms(1)])
  let ?q = "length (takeWhile (\<lambda>e. compare (fst e) k < 0) ixs)"
  let ?b = "content (snd (ixs ! ?q))"
  have vi: "valid (fst e)" if "e \<in> set ixs" for e using idx.wrep_ops(12) [OF r(3) that] .
  have vd: "valid (fst e)" if e: "x \<in> set ixs" "e \<in> set (content (snd x))" for x e
  proof -
    obtain p' where "drep (block_function (snd x)) (content (snd x)) p'" using r(1) e(1) unfolding blocks_ok_def by blast
    then show ?thesis by (rule dat.rep_valid) (rule e(2))
  qed
  have lt: "i < ?q \<longleftrightarrow> compare (fst (ixs ! i)) k < 0" if "i < length ixs" for i
    by (rule idx.takeWhile_less_iff [OF idx.wrep_ops(11) [OF r(3)] _ assms(2) that]) (use vi in blast)
  have before: "compare (fst e) k < 0" if e: "i < ?q" "i < length ixs" "e \<in> set (content (snd (ixs ! i)))" for i e
  proof -
    have "compare (fst e) (fst (ixs ! i)) \<le> 0" using r(1) e(2,3) unfolding blocks_ok_def by blast
    moreover have "compare (fst (ixs ! i)) k < 0" using lt [OF e(2)] e(1) by simp
    ultimately show ?thesis using idx.le_less_trans [OF vd [OF nth_mem [OF e(2)] e(3)] vi [OF nth_mem [OF e(2)]] assms(2)] by simp
  qed
  have pos: "(if ?q < length ixs then start ixs content ?q + length (takeWhile (\<lambda>e. compare (fst e) k < 0) ?b)
      else length es) = length (takeWhile (\<lambda>e. compare (fst e) k < 0) es)"
  proof (cases "?q < length ixs")
    case True
    have after: "\<not> compare (fst e) k < 0" if e: "?q < j" "j < length ixs" "e \<in> set (content (snd (ixs ! j)))" for j e
    proof -
      have "compare (fst (ixs ! ?q)) (fst e) < 0" using r(1) e unfolding blocks_ok_def by blast
      moreover have "\<not> compare (fst (ixs ! ?q)) k < 0" using lt [OF True] by simp
      ultimately show ?thesis
        using idx.less_trans [OF vi [OF nth_mem [OF True]] vd [OF nth_mem [OF e(2)] e(3)] assms(2)] by blast
    qed
    have "\<forall>e \<in> set (entries (take ?q ixs) content). compare (fst e) k < 0"
    proof
      fix e
      assume "e \<in> set (entries (take ?q ixs) content)"
      from in_entries_take [OF this] obtain i where "i < ?q" "i < length ixs" "e \<in> set (content (snd (ixs ! i)))" by blast
      then show "compare (fst e) k < 0" by (rule before)
    qed
    moreover have "\<forall>e \<in> set (entries (drop (Suc ?q) ixs) content). \<not> compare (fst e) k < 0"
    proof
      fix e
      assume "e \<in> set (entries (drop (Suc ?q) ixs) content)"
      then obtain x where "x \<in> set (drop (Suc ?q) ixs)" and e: "e \<in> set (content (snd x))" by auto
      then obtain i where "i < length ixs - Suc ?q" "x = ixs ! (Suc ?q + i)" by (auto simp: in_set_conv_nth)
      then show "\<not> compare (fst e) k < 0" using after [of "Suc ?q + i" e] e by simp
    qed
    ultimately have "length (takeWhile (\<lambda>e. compare (fst e) k < 0) es) =
        start ixs content ?q + length (takeWhile (\<lambda>e. compare (fst e) k < 0) ?b)"
      unfolding r(2) entries_split [OF True, of content] by (rule takeWhile_middle)
    then show ?thesis using True by simp
  next
    case False
    then have q: "?q = length ixs" using length_takeWhile_le [of "\<lambda>e. compare (fst e) k < 0" ixs] by linarith
    have "\<forall>e \<in> set es. compare (fst e) k < 0"
    proof
      fix e
      assume "e \<in> set es"
      then have "e \<in> set (entries (take (length ixs) ixs) content)" by (simp add: r(2))
      from in_entries_take [OF this] obtain i where "i < length ixs" "e \<in> set (content (snd (ixs ! i)))" by blast
      then show "compare (fst e) k < 0" using before q by metis
    qed
    then have "takeWhile (\<lambda>e. compare (fst e) k < 0) es = es" by (rule takeWhile_eq_all_conv [THEN iffD2])
    from arg_cong [OF this, of length] show ?thesis using False by (simp only: if_False)
  qed
  from SkipForward_rep [OF r(1) seek_block [OF idx.wrep_ops(10) [OF r(3) assms(2)] r(1,4) dat.wrep_ops(10) [OF _ assms(2)]]]
  show ?thesis unfolding tl_Seek_def Let_def r(2) [symmetric] pos .
qed

lemma entries_sorted:
  assumes "blocks_ok ixs content" and "\<forall>x \<in> set ixs. valid (fst x)"
  shows "sorted_wrt (\<lambda>a b. compare (fst a) (fst b) < 0) (entries ixs content)"
    and "e \<in> set (entries ixs content) \<Longrightarrow> valid (fst e)"
proof -
  show v: "e \<in> set (entries ixs content) \<Longrightarrow> valid (fst e)" for e
  proof -
    assume "e \<in> set (entries ixs content)"
    then obtain x where x: "x \<in> set ixs" "e \<in> set (content (snd x))" by auto
    then obtain p where "drep (block_function (snd x)) (content (snd x)) p" using assms(1) unfolding blocks_ok_def by blast
    then show "valid (fst e)" by (rule dat.rep_valid) (rule x(2))
  qed
  have "sorted_wrt (\<lambda>a b. compare (fst a) (fst b) < 0) (entries (take n ixs) content)" if "n \<le> length ixs" for n
    using that
  proof (induction n)
    case (Suc n)
    then have n: "n < length ixs" by simp
    obtain p where "drep (block_function (snd (ixs ! n))) (content (snd (ixs ! n))) p"
      using assms(1) nth_mem [OF n] unfolding blocks_ok_def by blast
    then have "sorted_wrt (\<lambda>a b. compare (fst a) (fst b) < 0) (content (snd (ixs ! n)))" by (rule dat.rep_sorted)
    moreover have "compare (fst a) (fst b) < 0" if a: "a \<in> set (entries (take n ixs) content)" and b: "b \<in> set (content (snd (ixs ! n)))" for a b
    proof -
      from in_entries_take [OF a] obtain i where i: "i < n" "i < length ixs" "a \<in> set (content (snd (ixs ! i)))" by blast
      have "compare (fst a) (fst (ixs ! i)) \<le> 0" "compare (fst (ixs ! i)) (fst b) < 0"
        using assms(1) i n b unfolding blocks_ok_def by blast+
      moreover have "a \<in> set (entries ixs content)" "b \<in> set (entries ixs content)"
        using i(3) b nth_mem [OF i(2)] nth_mem [OF n] by auto
      then have "valid (fst a)" "valid (fst b)" using v by blast+
      moreover have "valid (fst (ixs ! i))" using assms(2) i(2) by simp
      ultimately show ?thesis using idx.le_less_trans by blast
    qed
    ultimately show ?case using Suc n by (simp add: take_Suc_conv_app_nth sorted_wrt_append)
  qed simp
  from this [of "length ixs"] show "sorted_wrt (\<lambda>a b. compare (fst a) (fst b) < 0) (entries ixs content)" by simp
qed

lemma tl_rep_index:
  assumes "tl_rep t es p"
  shows "\<exists>ixs content. blocks_ok ixs content \<and> es = entries ixs content \<and> (\<forall>x \<in> set ixs. valid (fst x)) \<and> p \<le> length es"
proof -
  obtain ixs content q where r: "blocks_ok ixs content" "es = entries ixs content" "idx.wrep (tl_index t) ixs q" "data_ok t content"
    by (rule tl_repM [OF assms])
  have "p \<le> length es" using assms by (auto simp: tl_rep_def)
  then show ?thesis using r(1,2) idx.wrep_ops(12) [OF r(3)] by blast
qed

lemma two_level_contract: "sorted_iterator compare valid (two_level_iter_ops iops dops block_function) tl_rep"
proof unfold_locales
  fix t es p
  assume r: "tl_rep t es p"
  show "sorted_wrt (\<lambda>a b. compare (fst a) (fst b) < 0) es" "p \<le> length es"
    using tl_rep_index [OF r] entries_sorted(1) by blast+
  show "valid (fst e)" if "e \<in> set es" for e using tl_rep_index [OF r] entries_sorted(2) that by blast
  show "it_Valid (two_level_iter_ops iops dops block_function) t \<longleftrightarrow> p < length es"
  proof (cases "p < length es")
    case True
    obtain ixs content q x where c: "q < length ixs" "tl_at t ixs content q x" "x < length (content (snd (ixs ! q)))"
      by (rule tl_repE [OF r True])
    then have "dat.wrep (tl_data t) (content (snd (ixs ! q))) x" by (simp add: tl_at_def)
    from dat.wrep_ops(2) [OF this] show ?thesis using True c(3) by (simp add: two_level_iter_ops_def)
  next
    case False
    then show ?thesis using r by (auto simp: two_level_iter_ops_def tl_rep_def)
  qed
  show "it_key (two_level_iter_ops iops dops block_function) t = fst (es ! p)"
    "it_value (two_level_iter_ops iops dops block_function) t = snd (es ! p)" if pl: "p < length es"
  proof -
    obtain ixs content q x where c: "es = entries ixs content" "q < length ixs" "tl_at t ixs content q x"
      "x < length (content (snd (ixs ! q)))" "p = start ixs content q + x" by (rule tl_repE [OF r pl])
    have "dat.wrep (tl_data t) (content (snd (ixs ! q))) x" using c(2,3) by (simp add: tl_at_def)
    then show "it_key (two_level_iter_ops iops dops block_function) t = fst (es ! p)"
      "it_value (two_level_iter_ops iops dops block_function) t = snd (es ! p)"
      using dat.wrep_ops(3,4) c(4) entries_nth(2) [of q ixs x content, OF c(2,4)] c(1,5) by (simp_all add: two_level_iter_ops_def)
  qed
  show "it_status (two_level_iter_ops iops dops block_function) t = OK"
  proof -
    obtain ixs content q where c: "idx.wrep (tl_index t) ixs q" "data_ok t content" by (rule tl_repM [OF r])
    have "iw_status dops (tl_data t) = OK" if "iw_iter (tl_data t) \<noteq> None"
      using c(2) that dat.wrep_ops(5) by (auto simp: data_ok_def)
    then show ?thesis using idx.wrep_ops(5) [OF c(1)] c(2)
      by (auto simp: two_level_iter_ops_def tl_get_status_def data_ok_def)
  qed
  show "tl_rep (it_SeekToFirst (two_level_iter_ops iops dops block_function) t) es 0"
    "tl_rep (it_SeekToLast (two_level_iter_ops iops dops block_function) t) es (length es - 1)"
    using tl_SeekToFirst_rep [OF r] tl_SeekToLast_rep [OF r] by (auto simp: two_level_iter_ops_def)
  show "tl_rep (it_Next (two_level_iter_ops iops dops block_function) t) es (p + 1)"
    "tl_rep (it_Prev (two_level_iter_ops iops dops block_function) t) es (if p = 0 then length es else p - 1)" if "p < length es"
    using tl_Next_rep [OF r that] tl_Prev_rep [OF r that] by (auto simp: two_level_iter_ops_def)
  show "tl_rep (it_Seek (two_level_iter_ops iops dops block_function) t k) es (length (takeWhile (\<lambda>e. compare (fst e) k < 0) es))"
    if "valid k" for k using tl_Seek_rep [OF r that] by (auto simp: two_level_iter_ops_def)
qed

lemma NewTwoLevelIterator_rep:
  assumes "blocks_ok ixs content" and "irep i ixs q"
  shows "tl_rep (NewTwoLevelIterator iops dops i) (entries ixs content) (length (entries ixs content))"
  unfolding tl_rep_def
  by (intro exI [of _ ixs] exI [of _ content] exI [of _ q])
    (use assms idx.wrep_new [OF assms(2)] in \<open>simp add: NewTwoLevelIterator_def new_wrapper_def iw_Set_def Let_def\<close>)

end

end
