(* ===== verification/TableBuilder.thy ===== *)
theory TableBuilder
  imports TwoLevel BlockIter FilterPolicy Format
begin

text \<open>
  The table builder, \<^verbatim>\<open>table/table_builder.cc\<close>: data blocks with trailers, the index with shortened
  separators, the filter block, the metaindex and the footer, written to any writable file.
\<close>

section \<open>Options and state\<close>

text \<open>The options that concern tables. Block restart intervals are the builders' own parameter.\<close>

record table_options =
  to_comparator :: comparator
  to_paranoid_checks :: bool
  to_block_cache :: bool
  to_block_size :: nat
  to_block_restart_interval :: nat
  to_compression :: u8
  to_filter_policy :: "filter_policy option"

record 'f table_builder =
  tb_options :: table_options
  tb_file :: 'f
  tb_offset :: u64
  tb_status :: status
  tb_data_block :: block_builder
  tb_index_block :: block_builder
  tb_last_key :: bytes
  tb_num_entries :: nat
  tb_closed :: bool
  tb_filter_block :: "(filter_policy \<times> filter_block_builder) option"
  tb_pending_index_entry :: bool
  tb_pending_handle :: block_handle

definition new_TableBuilder :: "table_options \<Rightarrow> 'f \<Rightarrow> 'f table_builder" where
  "new_TableBuilder opt f =
     \<lparr>tb_options = opt, tb_file = f, tb_offset = 0, tb_status = OK,
      tb_data_block = new_BlockBuilder (to_block_restart_interval opt), tb_index_block = new_BlockBuilder 1,
      tb_last_key = [], tb_num_entries = 0, tb_closed = False,
      tb_filter_block = map_option (\<lambda>p. (p, fb_StartBlock p 0 new_filter_block_builder)) (to_filter_policy opt),
      tb_pending_index_entry = False, tb_pending_handle = new_BlockHandle\<rparr>"

definition tb_ok :: "'f table_builder \<Rightarrow> bool" where
  "tb_ok b = ok (tb_status b)"

text \<open>Comparators are equal when they are the same object; here, the same record.\<close>

definition ChangeOptions :: "(comparator \<Rightarrow> comparator \<Rightarrow> bool) \<Rightarrow> table_options \<Rightarrow> 'f table_builder \<Rightarrow> status \<times> 'f table_builder" where
  "ChangeOptions same options b =
     (if \<not> same (to_comparator options) (to_comparator (tb_options b))
      then (InvalidArgument (bytes_of ''changing comparator while building table''), b)
      else (OK, b\<lparr>tb_options := options,
                  tb_data_block := (tb_data_block b)\<lparr>bb_interval := to_block_restart_interval options\<rparr>,
                  tb_index_block := (tb_index_block b)\<lparr>bb_interval := 1\<rparr>\<rparr>))"

section \<open>Writing blocks\<close>

definition WriteRawBlock ::
  "'f writable_ops \<Rightarrow> bytes \<Rightarrow> u8 \<Rightarrow> 'f table_builder \<Rightarrow> block_handle \<times> 'f table_builder" where
  "WriteRawBlock ops block_contents type b =
     (let hdl = \<lparr>bh_offset = tb_offset b, bh_size = word_of_nat (length block_contents)\<rparr>;
          (s, f) = op_Append ops (tb_file b) block_contents;
          b = b\<lparr>tb_status := s, tb_file := f\<rparr>
      in if tb_ok b then
           let (s, f) = op_Append ops (tb_file b) (block_trailer block_contents type);
               b = b\<lparr>tb_status := s, tb_file := f\<rparr>
           in if tb_ok b
              then (hdl, b\<lparr>tb_offset := tb_offset b + word_of_nat (length block_contents + kBlockTrailerSize)\<rparr>)
              else (hdl, b)
         else (hdl, b))"

text \<open>The contents and the type that are stored for a raw block.\<close>

definition compress_block :: "u8 \<Rightarrow> bytes \<Rightarrow> bytes \<times> u8" where
  "compress_block type raw =
     (if type = kSnappyCompression then
        (case Snappy_Compress raw of
           Some compressed \<Rightarrow>
             if length compressed < length raw - length raw div 8 then (compressed, type) else (raw, kNoCompression)
         | None \<Rightarrow> (raw, kNoCompression))
      else (raw, type))"

definition WriteBlock ::
  "'f writable_ops \<Rightarrow> block_builder \<Rightarrow> 'f table_builder \<Rightarrow> block_handle \<times> block_builder \<times> 'f table_builder" where
  "WriteBlock ops blk b =
     (let (raw, blk) = bb_Finish blk;
          (block_contents, type) = compress_block (to_compression (tb_options b)) raw;
          (hdl, b) = WriteRawBlock ops block_contents type b
      in (hdl, bb_Reset blk, b))"

definition tb_Flush :: "'f writable_ops \<Rightarrow> 'f table_builder \<Rightarrow> 'f table_builder" where
  "tb_Flush ops b =
     (if \<not> tb_ok b \<or> bb_empty (tb_data_block b) then b
      else
        let (hdl, blk, b) = WriteBlock ops (tb_data_block b) b;
            b = b\<lparr>tb_data_block := blk, tb_pending_handle := hdl\<rparr>;
            b = (if tb_ok b then
                   let (s, f) = op_Flush ops (tb_file b)
                   in b\<lparr>tb_pending_index_entry := True, tb_status := s, tb_file := f\<rparr>
                 else b)
        in case tb_filter_block b of
             None \<Rightarrow> b
           | Some (p, fb) \<Rightarrow> b\<lparr>tb_filter_block := Some (p, fb_StartBlock p (tb_offset b) fb)\<rparr>)"

definition add_index_entry :: "'f table_builder \<Rightarrow> 'f table_builder" where
  "add_index_entry b =
     (let handle_encoding = BlockHandle_EncodeTo (tb_pending_handle b) []
      in b\<lparr>tb_index_block := bb_Add (tb_last_key b) handle_encoding (tb_index_block b),
           tb_pending_index_entry := False\<rparr>)"

definition tb_Add :: "'f writable_ops \<Rightarrow> bytes \<Rightarrow> bytes \<Rightarrow> 'f table_builder \<Rightarrow> 'f table_builder" where
  "tb_Add ops key val b =
     (if \<not> tb_ok b then b
      else
        let b = (if tb_pending_index_entry b then
                   add_index_entry
                     (b\<lparr>tb_last_key := cmp_FindShortestSeparator (to_comparator (tb_options b)) (tb_last_key b) key\<rparr>)
                 else b);
            b = (case tb_filter_block b of
                   None \<Rightarrow> b | Some (p, fb) \<Rightarrow> b\<lparr>tb_filter_block := Some (p, fb_AddKey key fb)\<rparr>);
            b = b\<lparr>tb_last_key := key, tb_num_entries := tb_num_entries b + 1,
                  tb_data_block := bb_Add key val (tb_data_block b)\<rparr>
        in if bb_CurrentSizeEstimate (tb_data_block b) \<ge> to_block_size (tb_options b) then tb_Flush ops b else b)"

section \<open>Finishing\<close>

text \<open>The filter, metaindex and index blocks and the footer, each only while the status is OK.\<close>

definition filter_meta_key :: "filter_policy \<Rightarrow> bytes" where
  "filter_meta_key p = bytes_of ''filter.'' @ fp_Name p"

definition finish_filter :: "'f writable_ops \<Rightarrow> 'f table_builder \<Rightarrow> block_handle \<times> 'f table_builder" where
  "finish_filter ops b =
     (case tb_filter_block b of
        Some (p, fb) \<Rightarrow> if tb_ok b then WriteRawBlock ops (fb_Finish p fb) kNoCompression b else (new_BlockHandle, b)
      | None \<Rightarrow> (new_BlockHandle, b))"

definition finish_metaindex :: "'f writable_ops \<Rightarrow> block_handle \<Rightarrow> 'f table_builder \<Rightarrow> block_handle \<times> 'f table_builder" where
  "finish_metaindex ops filter_block_handle b =
     (if tb_ok b then
        let meta = new_BlockBuilder (to_block_restart_interval (tb_options b));
            meta = (case (tb_filter_block b, to_filter_policy (tb_options b)) of
                      (Some _, Some p) \<Rightarrow> bb_Add (filter_meta_key p) (BlockHandle_EncodeTo filter_block_handle []) meta
                    | _ \<Rightarrow> meta);
            (hdl, _, b) = WriteBlock ops meta b
        in (hdl, b)
      else (new_BlockHandle, b))"

definition finish_index :: "'f writable_ops \<Rightarrow> 'f table_builder \<Rightarrow> block_handle \<times> 'f table_builder" where
  "finish_index ops b =
     (if tb_ok b then
        let b = (if tb_pending_index_entry b then
                   add_index_entry
                     (b\<lparr>tb_last_key := cmp_FindShortSuccessor (to_comparator (tb_options b)) (tb_last_key b)\<rparr>)
                 else b);
            (hdl, blk, b) = WriteBlock ops (tb_index_block b) b
        in (hdl, b\<lparr>tb_index_block := blk\<rparr>)
      else (new_BlockHandle, b))"

definition finish_footer :: "'f writable_ops \<Rightarrow> block_handle \<Rightarrow> block_handle \<Rightarrow> 'f table_builder \<Rightarrow> 'f table_builder" where
  "finish_footer ops metaindex_handle index_handle b =
     (if tb_ok b then
        let footer_encoding = Footer_EncodeTo \<lparr>ft_metaindex_handle = metaindex_handle, ft_index_handle = index_handle\<rparr> [];
            (s, f) = op_Append ops (tb_file b) footer_encoding;
            b = b\<lparr>tb_status := s, tb_file := f\<rparr>
        in if tb_ok b then b\<lparr>tb_offset := tb_offset b + word_of_nat (length footer_encoding)\<rparr> else b
      else b)"

definition tb_Finish :: "'f writable_ops \<Rightarrow> 'f table_builder \<Rightarrow> status \<times> 'f table_builder" where
  "tb_Finish ops b =
     (let b = (tb_Flush ops b)\<lparr>tb_closed := True\<rparr>;
          (filter_block_handle, b) = finish_filter ops b;
          (metaindex_block_handle, b) = finish_metaindex ops filter_block_handle b;
          (index_block_handle, b) = finish_index ops b;
          b = finish_footer ops metaindex_block_handle index_block_handle b
      in (tb_status b, b))"

text \<open>Adding a list of entries.\<close>

fun tb_AddAll :: "'f writable_ops \<Rightarrow> (bytes \<times> bytes) list \<Rightarrow> 'f table_builder \<Rightarrow> 'f table_builder" where
  "tb_AddAll ops [] b = b"
| "tb_AddAll ops ((k, v) # es) b = tb_AddAll ops es (tb_Add ops k v b)"

definition tb_Abandon :: "'f table_builder \<Rightarrow> 'f table_builder" where
  "tb_Abandon b = b\<lparr>tb_closed := True\<rparr>"

definition tb_NumEntries :: "'f table_builder \<Rightarrow> nat" where "tb_NumEntries b = tb_num_entries b"
definition tb_FileSize :: "'f table_builder \<Rightarrow> u64" where "tb_FileSize b = tb_offset b"

text \<open>After an error a builder writes nothing more.\<close>

lemma tb_AddAll_error: "\<not> tb_ok b \<Longrightarrow> tb_AddAll ops es b = b"
  by (induction ops es b rule: tb_AddAll.induct) (simp_all add: tb_Add_def)

lemma tb_Finish_error:
  assumes "\<not> tb_ok b"
  shows "tb_Finish ops b = (tb_status b, b\<lparr>tb_closed := True\<rparr>)"
proof -
  let ?b = "b\<lparr>tb_closed := True\<rparr>"
  have b: "\<not> tb_ok ?b" using assms by (simp add: tb_ok_def)
  have "tb_Flush ops b = b" using assms by (simp add: tb_Flush_def)
  moreover have "finish_filter ops ?b = (new_BlockHandle, ?b)" using b by (simp add: finish_filter_def split: option.split)
  moreover have "finish_metaindex ops h ?b = (new_BlockHandle, ?b)" for h using b by (simp add: finish_metaindex_def)
  moreover have "finish_index ops ?b = (new_BlockHandle, ?b)" using b by (simp add: finish_index_def)
  moreover have "finish_footer ops h i ?b = ?b" for h i using b by (simp add: finish_footer_def)
  ultimately show ?thesis by (simp add: tb_Finish_def)
qed

section \<open>What a builder has built\<close>

text \<open>
  A finished block is described by its separator key, its offset and its entries. \<open>seps\<close>: every
  separator is at or behind its block and before everything later.
\<close>

type_synonym built = "bytes \<times> nat \<times> (bytes \<times> bytes) list"

abbreviation block_entries :: "built list \<Rightarrow> (bytes \<times> bytes) list" where
  "block_entries ds \<equiv> concat (map (\<lambda>(k, n, es). es) ds)"

definition handle_of :: "nat \<Rightarrow> nat \<Rightarrow> (bytes \<times> bytes) list \<Rightarrow> block_handle" where
  "handle_of interval n es = \<lparr>bh_offset = word_of_nat n, bh_size = word_of_nat (length (built_block interval es))\<rparr>"

definition index_entry :: "nat \<Rightarrow> built \<Rightarrow> bytes \<times> bytes" where
  "index_entry interval d = (case d of (k, n, es) \<Rightarrow> (k, BlockHandle_EncodeTo (handle_of interval n es) []))"

text \<open>\<open>data_at W n d\<close>: the bytes \<open>d\<close> with their trailer stand at offset \<open>n\<close> of \<open>W\<close>.\<close>

definition data_at :: "bytes \<Rightarrow> nat \<Rightarrow> bytes \<Rightarrow> bool" where
  "data_at W n d \<longleftrightarrow> n \<le> length W \<and> (\<exists>post. drop n W = d @ block_trailer d kNoCompression @ post)"

definition with_trailer :: "bytes \<Rightarrow> bytes" where
  "with_trailer d = d @ block_trailer d kNoCompression"

text \<open>The data blocks, one after the other.\<close>

abbreviation blocks_bytes :: "nat \<Rightarrow> (bytes \<times> bytes) list list \<Rightarrow> bytes" where
  "blocks_bytes interval bs \<equiv> concat (map (\<lambda>es. with_trailer (built_block interval es)) bs)"

lemma data_at_append: "data_at W n d \<Longrightarrow> data_at (W @ V) n d"
  by (auto simp: data_at_def)

lemma data_at_end: "data_at (W @ d @ block_trailer d kNoCompression) (length W) d"
  by (simp add: data_at_def)

lemma bb_AddAll_append: "bb_AddAll (xs @ [(k, v)]) b = bb_Add k v (bb_AddAll xs b)"
  by (induction xs arbitrary: b) auto

lemma bb_AddAll_interval [simp]: "bb_interval (bb_AddAll es b) = bb_interval b"
proof (induction es arbitrary: b)
  case (Cons e es)
  obtain k v where "e = (k, v)" by (cases e)
  then show ?case using Cons [of "bb_Add k v b"] by (simp add: bb_Add_def Let_def split: prod.splits if_splits)
qed simp

lemma bb_Reset_Finish: "bb_Reset (snd (bb_Finish (bb_AddAll es (new_BlockBuilder n)))) = new_BlockBuilder n"
proof -
  have "bb_Reset (snd (bb_Finish b)) = new_BlockBuilder (bb_interval b)" for b
    by (cases b) (simp add: bb_Reset_def bb_Finish_def Let_def new_BlockBuilder_def)
  then show ?thesis by (simp add: new_BlockBuilder_def)
qed

lemma bb_Add_not_empty: "\<not> bb_empty (bb_Add k v b)"
proof -
  have "EncodeVarint32 w \<noteq> []" for w by (simp add: EncodeVarint32_def)
  then show ?thesis by (auto simp: bb_empty_def bb_Add_def Let_def PutVarint32_def split: prod.splits if_splits)
qed

lemma bb_empty_AddAll: "bb_empty (bb_AddAll es (new_BlockBuilder n)) \<longleftrightarrow> es = []"
proof (cases es rule: rev_cases)
  case (snoc ys y)
  then show ?thesis using bb_Add_not_empty by (cases y) (simp add: bb_AddAll_append)
qed (simp add: bb_empty_def new_BlockBuilder_def)

text \<open>The filter builder after a list of blocks, given by offset and keys.\<close>

abbreviation filter_of_blocks :: "filter_policy \<Rightarrow> (nat \<times> bytes list) list \<Rightarrow> filter_block_builder" where
  "filter_of_blocks p bs \<equiv> build_filter_block p (map (\<lambda>(n, ks). (word_of_nat n, ks)) bs)"

lemma filter_of_blocks_AddKey:
  "fb_AddKey k (filter_of_blocks p (bs @ [(n, ks)])) = filter_of_blocks p (bs @ [(n, ks @ [k])])"
  by (simp add: build_filter_block_def)

lemma filter_of_blocks_StartBlock:
  "fb_StartBlock p (word_of_nat n) (filter_of_blocks p bs) = filter_of_blocks p (bs @ [(n, [])])"
  by (simp add: build_filter_block_def)

locale table_building =
  comparator "to_comparator opt" valid + wf: writable_file wops content written
  for opt :: table_options and valid and wops :: "'f writable_ops" and content written +
  assumes interval: "1 \<le> to_block_restart_interval opt"
    and compression: "to_compression opt = kNoCompression \<or> to_compression opt = kSnappyCompression"
begin

abbreviation cmp :: comparator where "cmp \<equiv> to_comparator opt"
abbreviation ival :: nat where "ival \<equiv> to_block_restart_interval opt"

definition sep_ok :: "built \<Rightarrow> (bytes \<times> bytes) list \<Rightarrow> bool" where
  "sep_ok d rest \<longleftrightarrow> (case d of (k, n, es) \<Rightarrow>
     es \<noteq> [] \<and> valid k \<and> (\<forall>e \<in> set es. cmp_Compare cmp (fst e) k \<le> 0) \<and> (\<forall>e \<in> set rest. cmp_Compare cmp k (fst e) < 0) \<and>
     k = (if rest = [] then cmp_FindShortSuccessor cmp (fst (last es))
          else cmp_FindShortestSeparator cmp (fst (last es)) (fst (hd rest))))"

primrec seps :: "built list \<Rightarrow> (bytes \<times> bytes) list \<Rightarrow> bool" where
  "seps [] rest = True"
| "seps (d # ds) rest = (sep_ok d (block_entries ds @ rest) \<and> seps ds rest)"

lemma seps_snoc: "seps (ds @ [(k, n, es)]) rest \<longleftrightarrow> seps ds (es @ rest) \<and> sep_ok (k, n, es) rest"
  by (induction ds) auto

abbreviation pend_entries :: "(nat \<times> (bytes \<times> bytes) list) option \<Rightarrow> (bytes \<times> bytes) list" where
  "pend_entries pend \<equiv> (case pend of None \<Rightarrow> [] | Some (n, es) \<Rightarrow> es)"

abbreviation filter_blocks :: "built list \<Rightarrow> (nat \<times> (bytes \<times> bytes) list) option \<Rightarrow> (nat \<times> bytes list) list" where
  "filter_blocks ds pend \<equiv>
     map (\<lambda>(k, n, es). (n, map fst es)) ds @ (case pend of None \<Rightarrow> [] | Some (n, es) \<Rightarrow> [(n, map fst es)])"

text \<open>
  The builder after some of the entries \<open>es\<close>: \<open>ds\<close> are finished, \<open>pend\<close> is written but not in the index,
  \<open>cur\<close> is in the open block and \<open>fut\<close> still to come.
\<close>

definition building ::
  "'f table_builder \<Rightarrow> bytes \<Rightarrow> (bytes \<times> bytes) list \<Rightarrow> built list \<Rightarrow> (nat \<times> (bytes \<times> bytes) list) option \<Rightarrow>
   (bytes \<times> bytes) list \<Rightarrow> (bytes \<times> bytes) list \<Rightarrow> bool" where
  "building b W es ds pend cur fut \<longleftrightarrow>
     tb_options b = opt \<and> tb_status b = OK \<and> content (tb_file b) = W \<and> tb_offset b = word_of_nat (length W) \<and>
     tb_data_block b = bb_AddAll cur (new_BlockBuilder ival) \<and>
     tb_index_block b = bb_AddAll (map (index_entry ival) ds) (new_BlockBuilder 1) \<and>
     (case pend of
        None \<Rightarrow> \<not> tb_pending_index_entry b \<and> (cur \<noteq> [] \<longrightarrow> tb_last_key b = fst (last cur))
      | Some (n, pes) \<Rightarrow> tb_pending_index_entry b \<and> tb_pending_handle b = handle_of ival n pes \<and> cur = [] \<and> pes \<noteq> [] \<and>
          tb_last_key b = fst (last pes) \<and> data_at W n (built_block ival pes)) \<and>
     (\<forall>(k, n, bes) \<in> set ds. data_at W n (built_block ival bes)) \<and>
     es = block_entries ds @ pend_entries pend @ cur @ fut \<and>
     seps ds (pend_entries pend @ cur @ fut) \<and>
     sorted_wrt (\<lambda>a b. cmp_Compare cmp (fst a) (fst b) < 0) es \<and> (\<forall>e \<in> set es. valid (fst e)) \<and>
     tb_filter_block b = map_option (\<lambda>p. (p, filter_of_blocks p (filter_blocks ds pend @ [(length W, map fst cur)]))) (to_filter_policy opt) \<and>
     sorted_wrt (<) (map fst (filter_blocks ds pend @ [(length W, map fst cur)])) \<and>
     tb_num_entries b = length (block_entries ds @ pend_entries pend @ cur) \<and>
     blocks_bytes ival (map (\<lambda>(k, n, es). es) ds @ (case pend of None \<Rightarrow> [] | Some (n, es) \<Rightarrow> [es])) = W"

lemma building_new:
  assumes "content f = []" and "sorted_wrt (\<lambda>a b. cmp_Compare cmp (fst a) (fst b) < 0) es" and "\<forall>e \<in> set es. valid (fst e)"
  shows "building (new_TableBuilder opt f) [] es [] None [] es"
  using assms by (simp add: building_def new_TableBuilder_def build_filter_block_def)

lemma tb_ok_iff: "tb_ok b \<longleftrightarrow> tb_status b = OK"
  by (simp add: tb_ok_def ok_def)

lemma WriteRawBlock_OK:
  assumes "WriteRawBlock wops d t b = (h, b')" and "tb_ok b'" and "content (tb_file b) = W" and "tb_offset b = word_of_nat (length W)"
  shows "h = \<lparr>bh_offset = word_of_nat (length W), bh_size = word_of_nat (length d)\<rparr>"
    and "\<exists>f. content f = W @ d @ block_trailer d t \<and>
      b' = b\<lparr>tb_status := OK, tb_file := f, tb_offset := word_of_nat (length (W @ d @ block_trailer d t))\<rparr>"
proof -
  obtain s1 f1 where a1: "op_Append wops (tb_file b) d = (s1, f1)" by fastforce
  obtain s2 f2 where a2: "op_Append wops f1 (block_trailer d t) = (s2, f2)" by fastforce
  show "h = \<lparr>bh_offset = word_of_nat (length W), bh_size = word_of_nat (length d)\<rparr>"
    using assms a1 a2 by (auto simp: WriteRawBlock_def Let_def split: if_splits)
  have "s1 = OK" "s2 = OK" "b' = b\<lparr>tb_status := OK, tb_file := f2, tb_offset := tb_offset b + word_of_nat (length d + kBlockTrailerSize)\<rparr>"
    using assms(1,2) a1 a2 by (auto simp: WriteRawBlock_def Let_def tb_ok_iff split: if_splits)
  moreover have "content f2 = W @ d @ block_trailer d t"
    using wf.Append_content [of "tb_file b" d f1] wf.Append_content [of f1 "block_trailer d t" f2] a1 a2 assms(3) calculation(1,2) by simp
  ultimately show "\<exists>f. content f = W @ d @ block_trailer d t \<and>
      b' = b\<lparr>tb_status := OK, tb_file := f, tb_offset := word_of_nat (length (W @ d @ block_trailer d t))\<rparr>"
    using assms(4) by (intro exI [of _ f2]) (simp add: add.assoc)
qed

lemma compress_none: "compress_block (to_compression opt) raw = (raw, kNoCompression)"
  using compression by (auto simp: compress_block_def Snappy_Compress_def)

lemma WriteBlock_OK:
  assumes "WriteBlock wops (bb_AddAll cur (new_BlockBuilder i)) b = (h, blk, b')" and "tb_ok b'" and "tb_options b = opt"
    and "content (tb_file b) = W" and "tb_offset b = word_of_nat (length W)"
  shows "h = handle_of i (length W) cur" and "blk = new_BlockBuilder i"
    and "\<exists>f. content f = W @ built_block i cur @ block_trailer (built_block i cur) kNoCompression \<and>
      b' = b\<lparr>tb_status := OK, tb_file := f,
             tb_offset := word_of_nat (length (W @ built_block i cur @ block_trailer (built_block i cur) kNoCompression))\<rparr>"
proof -
  obtain raw blk' where fin: "bb_Finish (bb_AddAll cur (new_BlockBuilder i)) = (raw, blk')" by fastforce
  have raw: "raw = built_block i cur" "bb_Reset blk' = new_BlockBuilder i"
    using fin bb_Reset_Finish [of cur i] by (simp_all add: built_block_def)
  obtain h' b'' where w: "WriteRawBlock wops raw kNoCompression b = (h', b'')" by fastforce
  have e: "h = h'" "blk = bb_Reset blk'" "b' = b''"
    using assms(1) w fin by (simp_all add: WriteBlock_def assms(3) compress_none)
  note r = WriteRawBlock_OK [OF w _ assms(4,5)]
  show "h = handle_of i (length W) cur" using r(1) assms(2) e raw by (simp add: handle_of_def)
  show "blk = new_BlockBuilder i" using e raw by simp
  show "\<exists>f. content f = W @ built_block i cur @ block_trailer (built_block i cur) kNoCompression \<and>
      b' = b\<lparr>tb_status := OK, tb_file := f,
             tb_offset := word_of_nat (length (W @ built_block i cur @ block_trailer (built_block i cur) kNoCompression))\<rparr>"
    using r(2) assms(2) e raw by simp
qed

lemma tb_Flush_eq:
  assumes "tb_ok (tb_Flush wops b)" and "tb_status b = OK" and "tb_options b = opt" and "tb_data_block b = bb_AddAll cur (new_BlockBuilder ival)"
    and "cur \<noteq> []" and "content (tb_file b) = W" and "tb_offset b = word_of_nat (length W)"
    and "W' = W @ built_block ival cur @ block_trailer (built_block ival cur) kNoCompression"
  shows "\<exists>f. content f = W' \<and> tb_Flush wops b =
    b\<lparr>tb_status := OK, tb_file := f, tb_offset := word_of_nat (length W'), tb_data_block := new_BlockBuilder ival,
      tb_pending_handle := handle_of ival (length W) cur, tb_pending_index_entry := True,
      tb_filter_block := map_option (\<lambda>(p, fb). (p, fb_StartBlock p (word_of_nat (length W')) fb)) (tb_filter_block b)\<rparr>"
proof -
  obtain h blk b1 where w: "WriteBlock wops (tb_data_block b) b = (h, blk, b1)" by (metis prod_cases3)
  obtain s f where fl: "op_Flush wops (tb_file b1) = (s, f)" by fastforce
  have st: "tb_ok b" "\<not> bb_empty (tb_data_block b)" using assms(2,4,5) bb_empty_AddAll by (simp_all add: tb_ok_iff)
  let ?b2 = "b1\<lparr>tb_data_block := blk, tb_pending_handle := h\<rparr>"
  let ?b3 = "if tb_ok ?b2 then ?b2\<lparr>tb_pending_index_entry := True, tb_status := s, tb_file := f\<rparr> else ?b2"
  have e: "tb_Flush wops b = (case tb_filter_block ?b3 of None \<Rightarrow> ?b3
      | Some (p, fb) \<Rightarrow> ?b3\<lparr>tb_filter_block := Some (p, fb_StartBlock p (tb_offset ?b3) fb)\<rparr>)"
    using st w fl by (simp add: tb_Flush_def Let_def cong: option.case_cong)
  have "tb_status (tb_Flush wops b) = tb_status ?b3" unfolding e by (simp split: option.split prod.split)
  then have "tb_status ?b3 = OK" using assms(1) by (simp only: tb_ok_iff)
  then have ok: "tb_ok b1" "s = OK" by (auto simp: tb_ok_iff split: if_splits)
  note wb = WriteBlock_OK [OF w [unfolded assms(4)] ok(1) assms(3,6,7), folded assms(8)]
  obtain f1 where f1: "content f1 = W'" "b1 = b\<lparr>tb_status := OK, tb_file := f1, tb_offset := word_of_nat (length W')\<rparr>"
    using wb(3) by blast
  have "content f = W'" using wf.Flush_content [of f1 f] fl ok(2) f1 by simp
  moreover have eq3: "?b3 = b\<lparr>tb_status := OK, tb_file := f, tb_offset := word_of_nat (length W'), tb_data_block := new_BlockBuilder ival,
      tb_pending_handle := handle_of ival (length W) cur, tb_pending_index_entry := True\<rparr>"
    using f1(2) wb(1,2) ok(2) by (simp add: tb_ok_iff)
  then have "tb_Flush wops b =
    b\<lparr>tb_status := OK, tb_file := f, tb_offset := word_of_nat (length W'), tb_data_block := new_BlockBuilder ival,
      tb_pending_handle := handle_of ival (length W) cur, tb_pending_index_entry := True,
      tb_filter_block := map_option (\<lambda>(p, fb). (p, fb_StartBlock p (word_of_nat (length W')) fb)) (tb_filter_block b)\<rparr>"
    unfolding e eq3 by (simp split: option.split prod.split)
  ultimately show ?thesis by blast
qed

lemma building_Flush:
  assumes "building b W es ds None cur fut" and "cur \<noteq> []" and "tb_ok (tb_Flush wops b)"
  shows "\<exists>W'. building (tb_Flush wops b) W' es ds (Some (length W, cur)) [] fut"
proof -
  define W' where "W' = W @ built_block ival cur @ block_trailer (built_block ival cur) kNoCompression"
  note b = assms(1) [unfolded building_def]
  have pre: "tb_status b = OK" "tb_options b = opt" "tb_data_block b = bb_AddAll cur (new_BlockBuilder ival)"
    "content (tb_file b) = W" "tb_offset b = word_of_nat (length W)" using b by blast+
  from tb_Flush_eq [OF assms(3) pre(1-3) assms(2) pre(4,5) W'_def] obtain f where f: "content f = W'"
    "tb_Flush wops b =
    b\<lparr>tb_status := OK, tb_file := f, tb_offset := word_of_nat (length W'), tb_data_block := new_BlockBuilder ival,
      tb_pending_handle := handle_of ival (length W) cur, tb_pending_index_entry := True,
      tb_filter_block := map_option (\<lambda>(p, fb). (p, fb_StartBlock p (word_of_nat (length W')) fb)) (tb_filter_block b)\<rparr>"
    by blast
  have at: "data_at W' (length W) (built_block ival cur)" unfolding W'_def by (rule data_at_end)
  have old: "data_at W' n (built_block ival bes)" if "(k, n, bes) \<in> set ds" for k n bes
    using b that data_at_append unfolding W'_def by blast
  have srt: "sorted_wrt (<) (map fst (filter_blocks ds None @ [(length W, map fst cur)]))" using b by blast
  have len: "length W < length W'" by (simp add: W'_def kBlockTrailerSize_def)
  have "tb_filter_block b = map_option (\<lambda>p. (p, filter_of_blocks p (filter_blocks ds None @ [(length W, map fst cur)]))) (to_filter_policy opt)"
    using b by blast
  then have flt: "map_option (\<lambda>(p, fb). (p, fb_StartBlock p (word_of_nat (length W')) fb)) (tb_filter_block b) =
      map_option (\<lambda>p. (p, filter_of_blocks p (filter_blocks ds (Some (length W, cur)) @ [(length W', map fst [])]))) (to_filter_policy opt)"
    using filter_of_blocks_StartBlock [of _ "length W'" "filter_blocks ds None @ [(length W, map fst cur)]"]
    by (cases "to_filter_policy opt") simp_all
  have srt': "sorted_wrt (<) (map fst (filter_blocks ds (Some (length W, cur)) @ [(length W', map fst [])]))"
    using srt len by (auto simp: sorted_wrt_append)
  have "blocks_bytes ival (map (\<lambda>(k, n, es). es) ds) = W" using b by simp
  then have wb: "blocks_bytes ival (map (\<lambda>(k, n, es). es) ds @ [cur]) = W'" by (simp add: W'_def with_trailer_def)
  have "building (tb_Flush wops b) W' es ds (Some (length W, cur)) [] fut"
    unfolding building_def f(2)
    by (intro conjI, use b assms(2) f(1) at old flt srt' wb in simp_all) (use b old in auto)
  then show ?thesis by blast
qed

text \<open>The entries of a pending block get their index entry.\<close>

lemma building_index:
  assumes "building b W es ds (Some (n, pes)) [] fut" and "valid k" and "cmp_Compare cmp (fst (last pes)) k \<le> 0"
    and "\<forall>e \<in> set fut. cmp_Compare cmp k (fst e) < 0"
    and "k = (if fut = [] then cmp_FindShortSuccessor cmp (fst (last pes))
              else cmp_FindShortestSeparator cmp (fst (last pes)) (fst (hd fut)))"
  shows "building (add_index_entry (b\<lparr>tb_last_key := k\<rparr>)) W es (ds @ [(k, n, pes)]) None [] fut"
proof -
  note b = assms(1) [unfolded building_def]
  have es: "es = block_entries ds @ pes @ fut" "\<forall>e \<in> set es. valid (fst e)" "pes \<noteq> []"
    "sorted_wrt (\<lambda>a b. cmp_Compare cmp (fst a) (fst b) < 0) es" subgoal using b by simp subgoal using b by blast
    subgoal using b by simp subgoal using b by blast done
  have "cmp_Compare cmp (fst e) k \<le> 0" if e: "e \<in> set pes" for e
  proof -
    obtain ys where ys: "pes = ys @ [last pes]" using es(3) by (metis append_butlast_last_id)
    then have "e = last pes \<or> e \<in> set ys" using e by (metis Un_iff empty_iff insert_iff list.set(1,2) set_append)
    then have "cmp_Compare cmp (fst e) (fst (last pes)) \<le> 0"
    proof
      assume "e \<in> set ys"
      moreover have "sorted_wrt (\<lambda>a b. cmp_Compare cmp (fst a) (fst b) < 0) (ys @ [last pes])"
        using es(1,4) ys by (simp add: sorted_wrt_append)
      ultimately show ?thesis by (simp add: sorted_wrt_append less_imp_le)
    next
      assume "e = last pes"
      then show ?thesis using es(1-3) by simp
    qed
    moreover have "valid (fst e)" "valid (fst (last pes))" using es(1-3) e by simp_all
    ultimately show ?thesis using trans [OF _ _ assms(2) _ assms(3)] by blast
  qed
  then have sep: "sep_ok (k, n, pes) fut" using assms(2,4,5) by (simp add: sep_ok_def es(3))
  have idx: "bb_Add k (BlockHandle_EncodeTo (handle_of ival n pes) []) (bb_AddAll (map (index_entry ival) ds) (new_BlockBuilder 1)) =
      bb_AddAll (map (index_entry ival) (ds @ [(k, n, pes)])) (new_BlockBuilder 1)"
    by (simp add: index_entry_def bb_AddAll_append)
  show ?thesis
    unfolding building_def add_index_entry_def Let_def using b sep idx
    by (auto simp: seps_snoc)
qed

lemma building_entry:
  assumes "building b W es ds None cur ((k, v) # fut)"
    and "b2 = (case tb_filter_block b of None \<Rightarrow> b | Some (p, fb) \<Rightarrow> b\<lparr>tb_filter_block := Some (p, fb_AddKey k fb)\<rparr>)"
  shows "building (b2\<lparr>tb_last_key := k, tb_num_entries := tb_num_entries b2 + 1, tb_data_block := bb_Add k v (tb_data_block b2)\<rparr>)
    W es ds None (cur @ [(k, v)]) fut"
proof -
  note b = assms(1) [unfolded building_def]
  have eq: "b2 = b\<lparr>tb_filter_block := map_option (\<lambda>(p, fb). (p, fb_AddKey k fb)) (tb_filter_block b)\<rparr>"
    unfolding assms(2) by (simp split: option.split prod.split)
  have "tb_filter_block b = map_option (\<lambda>p. (p, filter_of_blocks p (filter_blocks ds None @ [(length W, map fst cur)]))) (to_filter_policy opt)"
    using b by blast
  then have flt: "map_option (\<lambda>(p, fb). (p, fb_AddKey k fb)) (tb_filter_block b) =
      map_option (\<lambda>p. (p, filter_of_blocks p (filter_blocks ds None @ [(length W, map fst (cur @ [(k, v)]))]))) (to_filter_policy opt)"
    using filter_of_blocks_AddKey [of k _ "filter_blocks ds None" "length W" "map fst cur"]
    by (cases "to_filter_policy opt") simp_all
  show ?thesis
    unfolding building_def eq
    by (intro conjI, use b flt in \<open>simp_all add: bb_AddAll_append\<close>) (use b in auto)
qed

lemma building_Add:
  assumes "building b W es ds pend cur ((k, v) # fut)" and "tb_ok (tb_Add wops k v b)"
  shows "\<exists>W' ds' pend' cur'. building (tb_Add wops k v b) W' es ds' pend' cur' fut"
proof -
  note b = assms(1) [unfolded building_def]
  let ?b1 = "if tb_pending_index_entry b then
               add_index_entry (b\<lparr>tb_last_key := cmp_FindShortestSeparator cmp (tb_last_key b) k\<rparr>) else b"
  have "\<exists>ds'. building ?b1 W es ds' None cur ((k, v) # fut)"
  proof (cases pend)
    case None
    then have "\<not> tb_pending_index_entry b" using b by simp
    then show ?thesis using assms(1) None by auto
  next
    case (Some q)
    obtain n pes where q: "q = (n, pes)" by fastforce
    have p: "tb_pending_index_entry b" "cur = []" "pes \<noteq> []" "tb_last_key b = fst (last pes)" using b Some q by simp_all
    have es: "es = block_entries ds @ pes @ (k, v) # fut" "\<forall>e \<in> set es. valid (fst e)"
      "sorted_wrt (\<lambda>a b. cmp_Compare cmp (fst a) (fst b) < 0) es"
      subgoal using b Some q p(2) by simp subgoal using b by blast subgoal using b by blast done
    have v: "valid (fst (last pes))" "valid k" using es p(3) by simp_all
    have lt: "cmp_Compare cmp (fst (last pes)) k < 0" using es(1,3) last_in_set [OF p(3)] by (simp add: sorted_wrt_append)
    let ?s = "cmp_FindShortestSeparator cmp (fst (last pes)) k"
    have s: "valid ?s" "cmp_Compare cmp (fst (last pes)) ?s \<le> 0" "cmp_Compare cmp ?s k < 0"
      using sep_valid [OF v] sep [OF v lt] by simp_all
    have after: "\<forall>e \<in> set ((k, v) # fut). cmp_Compare cmp ?s (fst e) < 0"
    proof (rule ballI)
      fix e
      assume that: "e \<in> set ((k, v) # fut)"
      show "cmp_Compare cmp ?s (fst e) < 0"
      proof (cases "e = (k, v)")
        case False
        then have "cmp_Compare cmp k (fst e) < 0" using that es(1,3) by (auto simp: sorted_wrt_append)
        moreover have "valid (fst e)" using that es(1,2) by auto
        ultimately show ?thesis using less_trans [OF s(1) v(2) _ s(3)] by blast
      qed (use s in simp)
    qed
    have "building b W es ds (Some (n, pes)) [] ((k, v) # fut)" using assms(1) Some q p(2) by simp
    from building_index [OF this s(1,2) after] show ?thesis using p(1,2,4) by auto
  qed
  then obtain ds' where b1: "building ?b1 W es ds' None cur ((k, v) # fut)" by blast
  let ?b2 = "case tb_filter_block ?b1 of None \<Rightarrow> ?b1 | Some (p, fb) \<Rightarrow> ?b1\<lparr>tb_filter_block := Some (p, fb_AddKey k fb)\<rparr>"
  let ?b3 = "?b2\<lparr>tb_last_key := k, tb_num_entries := tb_num_entries ?b2 + 1, tb_data_block := bb_Add k v (tb_data_block ?b2)\<rparr>"
  have b3: "building ?b3 W es ds' None (cur @ [(k, v)]) fut" by (rule building_entry [OF b1 refl])
  have st: "tb_ok b" "tb_options b = opt" using b by (simp_all add: tb_ok_iff)
  have e: "tb_Add wops k v b =
      (if bb_CurrentSizeEstimate (tb_data_block ?b3) \<ge> to_block_size (tb_options ?b3) then tb_Flush wops ?b3 else ?b3)"
    unfolding tb_Add_def Let_def using st by (simp only: if_False not_True_eq_False)
  from e b3 obtain B where B: "tb_Add wops k v b =
      (if bb_CurrentSizeEstimate (tb_data_block B) \<ge> to_block_size (tb_options B) then tb_Flush wops B else B)"
    "building B W es ds' None (cur @ [(k, v)]) fut" by blast
  show ?thesis
  proof (cases "bb_CurrentSizeEstimate (tb_data_block B) \<ge> to_block_size (tb_options B)")
    case True
    then have f: "tb_Add wops k v b = tb_Flush wops B" unfolding B(1) by (rule if_P)
    from building_Flush [OF B(2)] assms(2) show ?thesis unfolding f by blast
  next
    case False
    then have f: "tb_Add wops k v b = B" unfolding B(1) by (rule if_not_P)
    show ?thesis unfolding f using B(2) by blast
  qed
qed

lemma building_AddAll:
  assumes "building b W es ds pend cur fut" and "tb_ok (tb_AddAll wops fut b)"
  shows "\<exists>W' ds' pend' cur'. building (tb_AddAll wops fut b) W' es ds' pend' cur' []"
  using assms
proof (induction fut arbitrary: b W ds pend cur)
  case (Cons e fut)
  obtain k v where e: "e = (k, v)" by (cases e)
  have stuck: "\<not> tb_ok b \<Longrightarrow> tb_AddAll wops l b = b" for l b by (induction wops l b rule: tb_AddAll.induct) (auto simp: tb_Add_def)
  have ok: "tb_ok (tb_Add wops k v b)"
    by (rule ccontr) (use Cons.prems(2) stuck [of "tb_Add wops k v b" fut] e in simp)
  from building_Add [OF _ ok] Cons.prems(1) e obtain W' ds' pend' cur' where
    "building (tb_Add wops k v b) W' es ds' pend' cur' fut" by blast
  from Cons.IH [OF this] Cons.prems(2) e show ?case by simp
qed auto

text \<open>The bytes of a finished table, from the data blocks \<open>W\<close> on.\<close>

definition filter_data :: "filter_policy \<Rightarrow> built list \<Rightarrow> bytes \<Rightarrow> bytes" where
  "filter_data p ds W = fb_Finish p (filter_of_blocks p (filter_blocks ds None @ [(length W, [])]))"

definition image_filter :: "built list \<Rightarrow> bytes \<Rightarrow> bytes" where
  "image_filter ds W = W @ (case to_filter_policy opt of None \<Rightarrow> [] | Some p \<Rightarrow> with_trailer (filter_data p ds W))"

definition meta_entries :: "built list \<Rightarrow> bytes \<Rightarrow> (bytes \<times> bytes) list" where
  "meta_entries ds W =
     (case to_filter_policy opt of
        None \<Rightarrow> []
      | Some p \<Rightarrow> [(filter_meta_key p, BlockHandle_EncodeTo
          \<lparr>bh_offset = word_of_nat (length W), bh_size = word_of_nat (length (filter_data p ds W))\<rparr> [])])"

definition image_meta :: "built list \<Rightarrow> bytes \<Rightarrow> bytes" where
  "image_meta ds W = image_filter ds W @ with_trailer (built_block ival (meta_entries ds W))"

definition image_index :: "built list \<Rightarrow> bytes \<Rightarrow> bytes" where
  "image_index ds W = image_meta ds W @ with_trailer (built_block 1 (map (index_entry ival) ds))"

definition image_footer :: "built list \<Rightarrow> bytes \<Rightarrow> footer" where
  "image_footer ds W =
     \<lparr>ft_metaindex_handle = handle_of ival (length (image_filter ds W)) (meta_entries ds W),
      ft_index_handle = handle_of 1 (length (image_meta ds W)) (map (index_entry ival) ds)\<rparr>"

definition table_image :: "built list \<Rightarrow> bytes \<Rightarrow> bytes" where
  "table_image ds W = image_index ds W @ Footer_EncodeTo (image_footer ds W) []"

definition written_blocks :: "bytes \<Rightarrow> (bytes \<times> bytes) list \<Rightarrow> built list \<Rightarrow> bool" where
  "written_blocks W es ds \<longleftrightarrow>
     es = block_entries ds \<and> seps ds [] \<and> (\<forall>(k, n, bes) \<in> set ds. data_at W n (built_block ival bes)) \<and>
     sorted_wrt (<) (map fst (filter_blocks ds None @ [(length W, [])])) \<and>
     sorted_wrt (\<lambda>a b. cmp_Compare cmp (fst a) (fst b) < 0) es \<and> (\<forall>e \<in> set es. valid (fst e)) \<and>
     blocks_bytes ival (map (\<lambda>(k, n, es). es) ds) = W"

text \<open>One step of \<^verbatim>\<open>Finish\<close> after the other.\<close>

abbreviation step_ok :: "'f table_builder \<Rightarrow> bytes \<Rightarrow> bool" where
  "step_ok b W \<equiv> tb_options b = opt \<and> tb_status b = OK \<and> content (tb_file b) = W \<and> tb_offset b = word_of_nat (length W)"

lemma finish_filter_OK:
  assumes "finish_filter wops b = (h, b')" and "tb_ok b'" and "step_ok b W"
    and "tb_filter_block b = map_option (\<lambda>p. (p, filter_of_blocks p (filter_blocks ds None @ [(length W, [])]))) (to_filter_policy opt)"
  shows "step_ok b' (image_filter ds W)"
    and "b' = b\<lparr>tb_status := tb_status b', tb_file := tb_file b', tb_offset := tb_offset b'\<rparr>"
    and "to_filter_policy opt = Some p \<Longrightarrow>
      h = \<lparr>bh_offset = word_of_nat (length W), bh_size = word_of_nat (length (filter_data p ds W))\<rparr>"
proof -
  have "step_ok b' (image_filter ds W) \<and> b' = b\<lparr>tb_status := tb_status b', tb_file := tb_file b', tb_offset := tb_offset b'\<rparr> \<and>
    (\<forall>p. to_filter_policy opt = Some p \<longrightarrow>
      h = \<lparr>bh_offset = word_of_nat (length W), bh_size = word_of_nat (length (filter_data p ds W))\<rparr>)"
  proof (cases "to_filter_policy opt")
    case None
    then show ?thesis using assms by (simp add: finish_filter_def image_filter_def)
  next
    case (Some p)
    then have "WriteRawBlock wops (filter_data p ds W) kNoCompression b = (h, b')"
      using assms(1,3,4) by (simp add: finish_filter_def tb_ok_iff filter_data_def del: map_append)
    from WriteRawBlock_OK [OF this assms(2)] assms(3) obtain f where
      f: "h = \<lparr>bh_offset = word_of_nat (length W), bh_size = word_of_nat (length (filter_data p ds W))\<rparr>"
      "content f = W @ with_trailer (filter_data p ds W)"
      "b' = b\<lparr>tb_status := OK, tb_file := f, tb_offset := word_of_nat (length (W @ with_trailer (filter_data p ds W)))\<rparr>"
      unfolding with_trailer_def by blast
    then show ?thesis using assms(3) Some by (simp add: image_filter_def)
  qed
  then show "step_ok b' (image_filter ds W)" "b' = b\<lparr>tb_status := tb_status b', tb_file := tb_file b', tb_offset := tb_offset b'\<rparr>"
    "to_filter_policy opt = Some p \<Longrightarrow>
      h = \<lparr>bh_offset = word_of_nat (length W), bh_size = word_of_nat (length (filter_data p ds W))\<rparr>" by blast+
qed

lemma finish_metaindex_OK:
  assumes "finish_metaindex wops fh b = (h, b')" and "tb_ok b'" and "tb_ok b" and "step_ok b (image_filter ds W)"
    and "tb_filter_block b = map_option f (to_filter_policy opt)"
    and "\<And>p. to_filter_policy opt = Some p \<Longrightarrow>
      fh = \<lparr>bh_offset = word_of_nat (length W), bh_size = word_of_nat (length (filter_data p ds W))\<rparr>"
  shows "step_ok b' (image_meta ds W)"
    and "b' = b\<lparr>tb_status := tb_status b', tb_file := tb_file b', tb_offset := tb_offset b'\<rparr>"
    and "h = handle_of ival (length (image_filter ds W)) (meta_entries ds W)"
proof -
  have meta: "(case (tb_filter_block b, to_filter_policy (tb_options b)) of
                 (Some _, Some p) \<Rightarrow> bb_Add (filter_meta_key p) (BlockHandle_EncodeTo fh []) (new_BlockBuilder ival)
               | _ \<Rightarrow> new_BlockBuilder ival) = bb_AddAll (meta_entries ds W) (new_BlockBuilder ival)"
    using assms(4-6) by (simp add: meta_entries_def split: option.split)
  obtain h' blk b'' where w: "WriteBlock wops (bb_AddAll (meta_entries ds W) (new_BlockBuilder ival)) b = (h', blk, b'')"
    by (metis prod_cases3)
  have o: "tb_options b = opt" using assms(4) by blast
  have e: "h = h'" "b' = b''"
    using assms(1,3) w meta unfolding finish_metaindex_def o Let_def by simp_all
  note wb = WriteBlock_OK [OF w, of "image_filter ds W"]
  show "step_ok b' (image_meta ds W)" "b' = b\<lparr>tb_status := tb_status b', tb_file := tb_file b', tb_offset := tb_offset b'\<rparr>"
    "h = handle_of ival (length (image_filter ds W)) (meta_entries ds W)"
    using wb assms(2,4) e by (auto simp: image_meta_def with_trailer_def)
qed

text \<open>The last pending block gets a successor of its last key.\<close>

definition with_last_index :: "'f table_builder \<Rightarrow> 'f table_builder" where
  "with_last_index b =
     (if tb_pending_index_entry b then
        add_index_entry (b\<lparr>tb_last_key := cmp_FindShortSuccessor cmp (tb_last_key b)\<rparr>) else b)"

lemma final_blocks:
  assumes "building b W es ds pend [] []"
  shows "\<exists>ds'. written_blocks W es ds' \<and> filter_blocks ds' None = filter_blocks ds pend \<and>
    tb_index_block (with_last_index b) = bb_AddAll (map (index_entry ival) ds') (new_BlockBuilder 1)"
proof (cases pend)
  note b = assms [unfolded building_def]
  case None
  have "written_blocks W es ds" unfolding written_blocks_def
    by (intro conjI) (use b None in auto)
  then show ?thesis using None b by (auto simp: with_last_index_def)
next
  note b = assms [unfolded building_def]
  case (Some q)
  obtain n pes where q: "q = (n, pes)" by fastforce
  let ?k = "cmp_FindShortSuccessor cmp (fst (last pes))"
  have es: "es = block_entries ds @ pes" "pes \<noteq> []" "tb_pending_index_entry b" "tb_last_key b = fst (last pes)"
    "tb_pending_handle b = handle_of ival n pes"
    using b Some q by simp_all
  have "\<forall>e \<in> set es. valid (fst e)" using b by blast
  then have v: "valid (fst (last pes))" using es(1,2) by simp
  have bi: "building (add_index_entry (b\<lparr>tb_last_key := ?k\<rparr>)) W es (ds @ [(?k, n, pes)]) None [] []"
    by (rule building_index) (use assms Some q succ_valid [OF v] succ [OF v] in simp_all)
  note d = bi [unfolded building_def]
  have "written_blocks W es (ds @ [(?k, n, pes)])" unfolding written_blocks_def
    by (intro conjI) (use d in auto)
  moreover have "with_last_index b = add_index_entry (b\<lparr>tb_last_key := ?k\<rparr>)"
    using es(3,4) by (simp add: with_last_index_def)
  ultimately show ?thesis using d Some q by (intro exI [of _ "ds @ [(?k, n, pes)]"]) simp
qed

lemma finish_index_OK:
  assumes "finish_index wops b = (h, b')" and "tb_ok b'" and "tb_ok b" and "step_ok b V"
    and "tb_index_block (with_last_index b) = bb_AddAll (map (index_entry ival) ds) (new_BlockBuilder 1)"
  shows "step_ok b' (V @ with_trailer (built_block 1 (map (index_entry ival) ds)))"
    and "h = handle_of 1 (length V) (map (index_entry ival) ds)" and "tb_closed b' = tb_closed b"
proof -
  have o: "tb_options b = opt" using assms(4) by blast
  have s1: "step_ok (with_last_index b) V" "tb_closed (with_last_index b) = tb_closed b"
    using assms(4) by (simp_all add: with_last_index_def add_index_entry_def Let_def)
  obtain h' blk b'' where w: "WriteBlock wops (bb_AddAll (map (index_entry ival) ds) (new_BlockBuilder 1)) (with_last_index b) = (h', blk, b'')"
    by (metis prod_cases3)
  have "finish_index wops b =
      (let (hdl, blk, b) = WriteBlock wops (tb_index_block (with_last_index b)) (with_last_index b) in (hdl, b\<lparr>tb_index_block := blk\<rparr>))"
    unfolding finish_index_def using assms(3) by (simp add: with_last_index_def o Let_def)
  then have e: "h = h'" "b' = b''\<lparr>tb_index_block := blk\<rparr>" using assms(1,5) w by simp_all
  then have ok: "tb_ok b''" using assms(2) by (simp add: tb_ok_iff)
  have c: "content (tb_file (with_last_index b)) = V" "tb_offset (with_last_index b) = word_of_nat (length V)"
    "tb_options (with_last_index b) = opt" using s1 by blast+
  note r = WriteBlock_OK [OF w ok c(3,1,2), folded with_trailer_def]
  show "h = handle_of 1 (length V) (map (index_entry ival) ds)" using r(1) e by simp
  show "step_ok b' (V @ with_trailer (built_block 1 (map (index_entry ival) ds)))" "tb_closed b' = tb_closed b"
    using r(3) e s1 by auto
qed

lemma tb_Finish_image:
  assumes "building b W es ds pend cur []" and "tb_Finish wops b = (OK, b')"
  shows "\<exists>W ds. written_blocks W es ds \<and> content (tb_file b') = table_image ds W \<and>
    tb_FileSize b' = word_of_nat (length (table_image ds W)) \<and> tb_closed b'"
proof -
  define b0 where "b0 = tb_Flush wops b"
  define b1 where "b1 = b0\<lparr>tb_closed := True\<rparr>"
  obtain fh b2 where f2: "finish_filter wops b1 = (fh, b2)" by fastforce
  obtain mh b3 where f3: "finish_metaindex wops fh b2 = (mh, b3)" by fastforce
  obtain ih b4 where f4: "finish_index wops b3 = (ih, b4)" by fastforce
  have fin: "b' = finish_footer wops mh ih b4" "tb_status b' = OK"
    using assms(2) f2 f3 f4 by (auto simp: tb_Finish_def Let_def b0_def b1_def)
  have ok4: "tb_ok b4" by (rule ccontr) (use fin in \<open>simp add: finish_footer_def tb_ok_iff\<close>)
  have ok3: "tb_ok b3" by (rule ccontr) (use f4 ok4 in \<open>simp add: finish_index_def tb_ok_iff\<close>)
  have ok2: "tb_ok b2" by (rule ccontr) (use f3 ok3 in \<open>simp add: finish_metaindex_def tb_ok_iff\<close>)
  have ok1: "tb_ok b1"
    by (rule ccontr) (use f2 ok2 in \<open>auto simp: finish_filter_def tb_ok_iff split: option.splits prod.splits\<close>)
  then have ok0: "tb_ok (tb_Flush wops b)" by (simp add: b1_def b0_def tb_ok_iff)
  have "\<exists>W' ds' pend'. building b0 W' es ds' pend' [] []"
  proof (cases "cur = []")
    case True
    then have "tb_Flush wops b = b"
      using assms(1) bb_empty_AddAll [of "[]"] by (simp add: building_def tb_Flush_def)
    then show ?thesis using assms(1) True b0_def by auto
  next
    case False
    then have "pend = None" using assms(1) by (auto simp: building_def split: option.splits)
    then show ?thesis using building_Flush [OF _ False ok0] assms(1) b0_def by blast
  qed
  then obtain W0 ds0 pend0 where bd: "building b0 W0 es ds0 pend0 [] []" by blast
  note d = bd [unfolded building_def]
  obtain ds where ds: "written_blocks W0 es ds" "filter_blocks ds None = filter_blocks ds0 pend0"
    "tb_index_block (with_last_index b0) = bb_AddAll (map (index_entry ival) ds) (new_BlockBuilder 1)"
    using final_blocks [OF bd] by blast
  have s1: "step_ok b1 W0" using d by (simp add: b1_def)
  have flt: "tb_filter_block b1 =
      map_option (\<lambda>p. (p, filter_of_blocks p (filter_blocks ds None @ [(length W0, [])]))) (to_filter_policy opt)"
    unfolding ds(2) using d by (simp add: b1_def)
  note r2 = finish_filter_OK [OF f2 ok2 s1 flt]
  have "tb_filter_block b2 = tb_filter_block b1" by (subst r2(2)) simp
  note r3 = finish_metaindex_OK [OF f3 ok3 ok2 r2(1) this [unfolded flt] r2(3)]
  obtain st2 fl2 off2 where b2: "b2 = b1\<lparr>tb_status := st2, tb_file := fl2, tb_offset := off2\<rparr>"
    using r2(2) by blast
  obtain st fl off where "b3 = b2\<lparr>tb_status := st, tb_file := fl, tb_offset := off\<rparr>"
    using r3(2) by blast
  then have b3: "b3 = b0\<lparr>tb_closed := True, tb_status := st, tb_file := fl, tb_offset := off\<rparr>"
    by (simp add: b2 b1_def)
  have same: "tb_index_block b3 = tb_index_block b0" "tb_pending_index_entry b3 = tb_pending_index_entry b0"
    "tb_last_key b3 = tb_last_key b0" "tb_pending_handle b3 = tb_pending_handle b0" "tb_closed b3"
    unfolding b3 by simp_all
  have "tb_index_block (with_last_index b3) = tb_index_block (with_last_index b0)"
    using same by (simp add: with_last_index_def add_index_entry_def)
  note r4 = finish_index_OK [OF f4 ok4 ok3 r3(1) this [unfolded ds(3)], folded image_index_def]
  have ft: "Footer_EncodeTo \<lparr>ft_metaindex_handle = mh, ft_index_handle = ih\<rparr> [] = Footer_EncodeTo (image_footer ds W0) []"
    using r3(3) r4(2) by (simp add: image_footer_def)
  obtain s f where a: "op_Append wops (tb_file b4) (Footer_EncodeTo (image_footer ds W0) []) = (s, f)" by fastforce
  have "s = OK" using fin ok4 a ft by (auto simp: finish_footer_def tb_ok_iff Let_def split: if_splits)
  moreover have "b' = b4\<lparr>tb_status := OK, tb_file := f,
      tb_offset := tb_offset b4 + word_of_nat (length (Footer_EncodeTo (image_footer ds W0) []))\<rparr>"
    using fin ok4 a ft by (auto simp: finish_footer_def tb_ok_iff Let_def split: if_splits)
  moreover have "content f = table_image ds W0"
    using wf.Append_content [of "tb_file b4" _ f] a calculation(1) r4(1) by (simp add: table_image_def)
  ultimately show ?thesis using ds(1) r4(1,3) same(5)
    by (intro exI [of _ W0] exI [of _ ds]) (simp add: tb_FileSize_def table_image_def)
qed

end

section \<open>A file that does not fail\<close>

lemma FlushBuffer_dirfd: "FlushBuffer w = (s, w') \<Longrightarrow> pw_dirfd w' = pw_dirfd w"
  by (auto simp: FlushBuffer_def Let_def split: prod.splits)

lemma posix_Append_dirfd: "posix_Append w data = (s, w') \<Longrightarrow> pw_dirfd w' = pw_dirfd w"
  by (auto simp: posix_Append_def Let_def split: prod.splits if_splits dest!: FlushBuffer_dirfd)

lemma calm_posix_Append:
  "posix_Append w data = (s, w') \<Longrightarrow> (no_failure (pw_fd w) \<longrightarrow> s = OK \<and> no_failure (pw_fd w')) \<and> pw_dirfd w' = pw_dirfd w"
  using no_failure_posix_Append posix_Append_dirfd by blast

text \<open>The descriptor of the directory is never used.\<close>

abbreviation healthy_builder :: "fd \<Rightarrow> posix_writable table_builder \<Rightarrow> bool" where
  "healthy_builder d b \<equiv> tb_status b = OK \<and> no_failure (pw_fd (tb_file b)) \<and> pw_dirfd (tb_file b) = d"

lemma healthy_WriteRawBlock:
  "WriteRawBlock posix_writable_ops contents t b = (h, b') \<Longrightarrow> healthy_builder d b \<Longrightarrow> healthy_builder d b'"
  by (auto simp: WriteRawBlock_def Let_def posix_writable_ops_def tb_ok_def ok_def split: prod.splits if_splits
      dest!: calm_posix_Append)

lemma healthy_WriteBlock:
  "WriteBlock posix_writable_ops blk b = (h, blk', b') \<Longrightarrow> healthy_builder d b \<Longrightarrow> healthy_builder d b'"
  by (auto simp: WriteBlock_def split: prod.splits dest: healthy_WriteRawBlock)

lemma healthy_Flush:
  assumes "healthy_builder d b"
  shows "healthy_builder d (tb_Flush posix_writable_ops b)"
proof (cases "bb_empty (tb_data_block b)")
  case False
  obtain h blk b1 where w: "WriteBlock posix_writable_ops (tb_data_block b) b = (h, blk, b1)" by (metis prod_cases3)
  have b1: "healthy_builder d b1" by (rule healthy_WriteBlock [OF w assms])
  obtain s f where fl: "op_Flush posix_writable_ops (tb_file b1) = (s, f)" by fastforce
  have "s = OK \<and> no_failure (pw_fd f) \<and> pw_dirfd f = d"
    using fl b1 no_failure_FlushBuffer [of "tb_file b1" s f] FlushBuffer_dirfd [of "tb_file b1" s f] by (simp add: posix_writable_ops_def)
  then show ?thesis
    using False assms w fl b1 by (simp add: tb_Flush_def tb_ok_def ok_def Let_def split: option.split prod.split)
qed (use assms in \<open>simp add: tb_Flush_def\<close>)

lemma healthy_Add:
  assumes "healthy_builder d b"
  shows "healthy_builder d (tb_Add posix_writable_ops k v b)"
proof -
  define b1 where "b1 = (if tb_pending_index_entry b then
      add_index_entry (b\<lparr>tb_last_key := cmp_FindShortestSeparator (to_comparator (tb_options b)) (tb_last_key b) k\<rparr>) else b)"
  define b2 where "b2 = (case tb_filter_block b1 of None \<Rightarrow> b1 | Some (p, fb) \<Rightarrow> b1\<lparr>tb_filter_block := Some (p, fb_AddKey k fb)\<rparr>)"
  define b3 where "b3 = b2\<lparr>tb_last_key := k, tb_num_entries := tb_num_entries b2 + 1, tb_data_block := bb_Add k v (tb_data_block b2)\<rparr>"
  have "healthy_builder d b1" using assms by (simp add: b1_def add_index_entry_def Let_def)
  then have "healthy_builder d b2" unfolding b2_def by (simp split: option.split prod.split)
  then have b3: "healthy_builder d b3" by (simp add: b3_def)
  have "tb_ok b" using assms by (simp add: tb_ok_def ok_def)
  then have "tb_Add posix_writable_ops k v b =
      (if bb_CurrentSizeEstimate (tb_data_block b3) \<ge> to_block_size (tb_options b3) then tb_Flush posix_writable_ops b3 else b3)"
    unfolding tb_Add_def Let_def b3_def b2_def b1_def by (simp only: if_False not_True_eq_False)
  then show ?thesis using b3 healthy_Flush [OF b3] by (auto split: if_splits)
qed

lemma healthy_AddAll: "healthy_builder d b \<Longrightarrow> healthy_builder d (tb_AddAll posix_writable_ops es b)"
  by (induction posix_writable_ops es b rule: tb_AddAll.induct) (simp_all add: healthy_Add)

lemma healthy_finish_filter:
  "finish_filter posix_writable_ops b = (h, b') \<Longrightarrow> healthy_builder d b \<Longrightarrow> healthy_builder d b'"
  by (auto simp: finish_filter_def split: option.splits if_splits prod.splits dest: healthy_WriteRawBlock)

lemma healthy_finish_metaindex:
  "finish_metaindex posix_writable_ops fh b = (h, b') \<Longrightarrow> healthy_builder d b \<Longrightarrow> healthy_builder d b'"
  unfolding finish_metaindex_def Let_def by (auto split: if_splits prod.splits dest: healthy_WriteBlock)

lemma healthy_finish_index:
  assumes "finish_index posix_writable_ops b = (h, b')" and "healthy_builder d b"
  shows "healthy_builder d b'"
proof -
  define b1 where "b1 = (if tb_pending_index_entry b then
      add_index_entry (b\<lparr>tb_last_key := cmp_FindShortSuccessor (to_comparator (tb_options b)) (tb_last_key b)\<rparr>) else b)"
  obtain h1 blk b2 where w: "WriteBlock posix_writable_ops (tb_index_block b1) b1 = (h1, blk, b2)" by (metis prod_cases3)
  have "healthy_builder d b1" using assms(2) by (simp add: b1_def add_index_entry_def Let_def)
  then have "healthy_builder d b2" by (rule healthy_WriteBlock [OF w])
  moreover have "tb_ok b" using assms(2) by (simp add: tb_ok_def ok_def)
  then have "b' = b2\<lparr>tb_index_block := blk\<rparr>"
    using assms(1) w unfolding finish_index_def Let_def b1_def by simp
  ultimately show ?thesis by simp
qed

lemma healthy_finish_footer: "healthy_builder d b \<Longrightarrow> healthy_builder d (finish_footer posix_writable_ops m i b)"
  by (auto simp: finish_footer_def Let_def posix_writable_ops_def split: prod.splits
      dest!: calm_posix_Append)

lemma healthy_Finish:
  assumes "healthy_builder d b0"
  shows "fst (tb_Finish posix_writable_ops b0) = OK" and "healthy_builder d (snd (tb_Finish posix_writable_ops b0))"
proof -
  define b where "b = (tb_Flush posix_writable_ops b0)\<lparr>tb_closed := True\<rparr>"
  have b: "healthy_builder d b" using healthy_Flush [OF assms] by (simp add: b_def)
  obtain fh b1 where 1: "finish_filter posix_writable_ops b = (fh, b1)" by fastforce
  obtain mh b2 where 2: "finish_metaindex posix_writable_ops fh b1 = (mh, b2)" by fastforce
  obtain ih b3 where 3: "finish_index posix_writable_ops b2 = (ih, b3)" by fastforce
  have "healthy_builder d (finish_footer posix_writable_ops mh ih b3)"
    by (rule healthy_finish_footer, rule healthy_finish_index [OF 3], rule healthy_finish_metaindex [OF 2],
      rule healthy_finish_filter [OF 1], rule b)
  then show "fst (tb_Finish posix_writable_ops b0) = OK" and "healthy_builder d (snd (tb_Finish posix_writable_ops b0))"
    using 1 2 3 by (simp_all add: tb_Finish_def b_def Let_def)
qed

lemma tb_Flush_num_entries: "tb_num_entries (tb_Flush ops b) = tb_num_entries b"
  by (auto simp: tb_Flush_def WriteBlock_def WriteRawBlock_def Let_def split: prod.splits option.splits)

lemma tb_Add_num_entries: "tb_num_entries (tb_Add ops k v b) = tb_num_entries b + (if tb_ok b then 1 else 0)"
  by (auto simp: tb_Add_def Let_def tb_Flush_num_entries add_index_entry_def split: option.splits)

lemma new_TableBuilder_entries: "tb_NumEntries (new_TableBuilder opt f) = 0"
  by (simp add: new_TableBuilder_def tb_NumEntries_def)

lemma healthy_AddAll_entries:
  "healthy_builder d b \<Longrightarrow> tb_NumEntries (tb_AddAll posix_writable_ops es b) = tb_NumEntries b + length es"
proof (induction es arbitrary: b)
  case (Cons e es)
  have "tb_ok b" using Cons.prems by (simp add: tb_ok_def ok_def)
  then show ?case using Cons.IH [OF healthy_Add [OF Cons.prems]] by (cases e) (simp add: tb_NumEntries_def tb_Add_num_entries)
qed simp

section \<open>Properties\<close>

text \<open>
  C38: Building a table does not fail on its own account: for options with a comparator that keeps its contract and a restart interval of at least
  one, and entries in strictly rising order, as the interface requires, all entries are added and the table is finished
  with status OK on every file whose kernel calls do not fail, whatever short or interrupted writes there are.
\<close>

theorem builder_finishes:
  assumes "comparator (to_comparator opt) valid" and "1 \<le> to_block_restart_interval opt"
    and "sorted_wrt (\<lambda>a b. cmp_Compare (to_comparator opt) (fst a) (fst b) < 0) es" and "\<forall>e \<in> set es. valid (fst e)"
    and "no_failure (pw_fd f)"
  shows "tb_NumEntries (tb_AddAll posix_writable_ops es (new_TableBuilder opt f)) = length es \<and>
    (\<exists>b. tb_Finish posix_writable_ops (tb_AddAll posix_writable_ops es (new_TableBuilder opt f)) = (OK, b))"
proof -
  have new: "healthy_builder (pw_dirfd f) (new_TableBuilder opt f)" using assms(5) by (simp add: new_TableBuilder_def)
  note add = healthy_AddAll [OF new, of es]
  have "fst (tb_Finish posix_writable_ops (tb_AddAll posix_writable_ops es (new_TableBuilder opt f))) = OK" by (rule healthy_Finish(1) [OF add])
  then show ?thesis using healthy_AddAll_entries [OF new, of es] by (metis new_TableBuilder_entries add_0 prod.collapse)
qed

theorem builder_finishes_witness:
  "\<forall>opt d. \<exists>b. tb_Finish posix_writable_ops (tb_AddAll posix_writable_ops [([1], [2]), ([3], [])]
     (new_TableBuilder (opt\<lparr>to_comparator := BytewiseComparator, to_block_restart_interval := 16\<rparr>)
       (new_posix_writable [] \<lparr>fd_data = [], fd_answers = [Interrupted, Accepts 1]\<rparr> d))) = (OK, b)"
proof (intro allI)
  fix opt :: table_options and d
  have "comparator BytewiseComparator (\<lambda>_. True)" by (rule bytewise.comparator_axioms)
  from builder_finishes [where valid = "\<lambda>_. True" and es = "[([1], [2]), ([3], [])]" and
      opt = "opt\<lparr>to_comparator := BytewiseComparator, to_block_restart_interval := 16\<rparr>" and
      f = "new_posix_writable [] \<lparr>fd_data = [], fd_answers = [Interrupted, Accepts 1]\<rparr> d"] this
  show "\<exists>b. tb_Finish posix_writable_ops (tb_AddAll posix_writable_ops [([1], [2]), ([3], [])]
     (new_TableBuilder (opt\<lparr>to_comparator := BytewiseComparator, to_block_restart_interval := 16\<rparr>)
       (new_posix_writable [] \<lparr>fd_data = [], fd_answers = [Interrupted, Accepts 1]\<rparr> d))) = (OK, b)"
    by (simp add: new_posix_writable_def no_failure_def BytewiseComparator_def slice_compare_def Let_def)
qed

text \<open>
  C39: The first failed write of a table builder is final: from then on adding and flushing change nothing,
  and finishing only closes the builder and reports that error, so a table with a missing piece is never
  reported as good. This holds for every kind of file.
\<close>

theorem builder_error_is_final:
  assumes "\<not> tb_ok b"
  shows "tb_AddAll ops es b = b \<and> tb_Flush ops b = b \<and>
    tb_Finish ops (tb_AddAll ops es b) = (tb_status b, b\<lparr>tb_closed := True\<rparr>) \<and>
    tb_FileSize (snd (tb_Finish ops b)) = tb_FileSize b \<and> tb_NumEntries (tb_AddAll ops es b) = tb_NumEntries b"
  using tb_AddAll_error [OF assms] tb_Finish_error [OF assms] assms
  by (simp add: tb_Flush_def tb_FileSize_def)

theorem builder_error_is_final_witness:
  "\<forall>opt f. fst (tb_Finish posix_writable_ops (tb_AddAll posix_writable_ops [([1], [2])]
     (tb_Flush posix_writable_ops ((new_TableBuilder opt f)\<lparr>tb_status := IOError [7]\<rparr>)))) = IOError [7]"
proof (intro allI)
  fix opt :: table_options and f :: posix_writable
  have "\<not> tb_ok ((new_TableBuilder opt f)\<lparr>tb_status := IOError [7]\<rparr>)" by (simp add: tb_ok_def ok_def)
  note e = builder_error_is_final [OF this]
  have "tb_Flush posix_writable_ops ((new_TableBuilder opt f)\<lparr>tb_status := IOError [7]\<rparr>) =
      (new_TableBuilder opt f)\<lparr>tb_status := IOError [7]\<rparr>" using e by blast
  moreover have "tb_Finish posix_writable_ops (tb_AddAll posix_writable_ops [([1], [2])] ((new_TableBuilder opt f)\<lparr>tb_status := IOError [7]\<rparr>)) =
      (tb_status ((new_TableBuilder opt f)\<lparr>tb_status := IOError [7]\<rparr>), (new_TableBuilder opt f)\<lparr>tb_status := IOError [7], tb_closed := True\<rparr>)"
    using e by blast
  ultimately show "fst (tb_Finish posix_writable_ops (tb_AddAll posix_writable_ops [([1], [2])]
     (tb_Flush posix_writable_ops ((new_TableBuilder opt f)\<lparr>tb_status := IOError [7]\<rparr>)))) = IOError [7]"
    by (simp only: fst_conv) simp
qed

end
