(* ===== verification/Table.thy ===== *)
theory Table
  imports TableBuilder
begin

text \<open>
  Reading tables, \<^verbatim>\<open>table/table.cc\<close>, and the round trip with the builder. \<open>None\<close> is a read outside of a
  buffer, as in \<^verbatim>\<open>ReadBlock\<close>. The block cache is a map that may hold any of the blocks read before.
\<close>

section \<open>Iterators that may be errors\<close>

definition either_iter_ops :: "'a iter_ops \<Rightarrow> 'b iter_ops \<Rightarrow> ('a + 'b) iter_ops" where
  "either_iter_ops a b =
     \<lparr>it_Valid = case_sum (it_Valid a) (it_Valid b),
      it_SeekToFirst = map_sum (it_SeekToFirst a) (it_SeekToFirst b),
      it_SeekToLast = map_sum (it_SeekToLast a) (it_SeekToLast b),
      it_Seek = (\<lambda>i t. map_sum (\<lambda>i. it_Seek a i t) (\<lambda>i. it_Seek b i t) i),
      it_Next = map_sum (it_Next a) (it_Next b), it_Prev = map_sum (it_Prev a) (it_Prev b),
      it_key = case_sum (it_key a) (it_key b), it_value = case_sum (it_value a) (it_value b),
      it_status = case_sum (it_status a) (it_status b)\<rparr>"

type_synonym data_iter = "empty_iterator + block_iter"

abbreviation data_iter_ops :: "comparator \<Rightarrow> data_iter iter_ops" where
  "data_iter_ops cmp \<equiv> either_iter_ops empty_iter_ops (block_iter_ops cmp)"

section \<open>State\<close>

record table =
  t_options :: table_options
  t_file :: random_file
  t_cache_id :: u64
  t_filter :: "(filter_policy \<times> filter_block_reader) option"
  t_metaindex_handle :: block_handle
  t_index_block :: block

record read_options =
  ro_verify_checksums :: bool
  ro_fill_cache :: bool

type_synonym block_cache = "bytes \<Rightarrow> block option"

section \<open>Opening\<close>

definition ReadFilter :: "table \<Rightarrow> filter_policy \<Rightarrow> bytes \<Rightarrow> table option" where
  "ReadFilter t policy filter_handle_value =
     (let (s, filter_handle, _) = BlockHandle_DecodeFrom filter_handle_value
      in if \<not> ok s then Some t
         else
           (case ReadBlock (t_file t) (to_paranoid_checks (t_options t)) filter_handle of
              None \<Rightarrow> None
            | Some (s, block) \<Rightarrow>
                if \<not> ok s then Some t
                else Some (t\<lparr>t_filter := Some (policy, new_filter_block_reader (bc_data block))\<rparr>)))"

definition ReadMeta :: "table \<Rightarrow> footer \<Rightarrow> table option" where
  "ReadMeta t footer =
     (case to_filter_policy (t_options t) of
        None \<Rightarrow> Some t
      | Some policy \<Rightarrow>
          (case ReadBlock (t_file t) (to_paranoid_checks (t_options t)) (ft_metaindex_handle footer) of
             None \<Rightarrow> None
           | Some (s, contents) \<Rightarrow>
               if \<not> ok s then Some t
               else
                 let meta = new_Block (bc_data contents);
                     ops = data_iter_ops BytewiseComparator;
                     key = filter_meta_key policy;
                     i = it_Seek ops (blk_NewIterator meta) key
                 in if it_Valid ops i \<and> it_key ops i = key then ReadFilter t policy (it_value ops i) else Some t))"

definition Table_Open :: "table_options \<Rightarrow> random_file \<Rightarrow> u64 \<Rightarrow> u64 \<Rightarrow> (status \<times> table option) option" where
  "Table_Open options f file_size new_id =
     (if file_size < word_of_nat kEncodedLength
      then Some (Corruption (bytes_of ''file is too short to be an sstable''), None)
      else
        (case ra_Read f (file_size - word_of_nat kEncodedLength) (word_of_nat kEncodedLength) of
           None \<Rightarrow> None
         | Some (s, footer_input) \<Rightarrow>
             if \<not> ok s then Some (s, None)
             else
             (case Footer_DecodeFrom footer_input of
                None \<Rightarrow> None
              | Some (s, footer, _) \<Rightarrow>
                  if \<not> ok s then Some (s, None)
                  else
                    (case ReadBlock f (to_paranoid_checks options) (ft_index_handle footer) of
                       None \<Rightarrow> None
                     | Some (s, index_block_contents) \<Rightarrow>
                         if \<not> ok s then Some (s, None)
                         else
                           let t = \<lparr>t_options = options, t_file = f,
                                    t_cache_id = (if to_block_cache options then new_id else 0), t_filter = None,
                                    t_metaindex_handle = ft_metaindex_handle footer,
                                    t_index_block = new_Block (bc_data index_block_contents)\<rparr>
                           in (case ReadMeta t footer of None \<Rightarrow> None | Some t \<Rightarrow> Some (s, Some t))))))"

section \<open>Reading\<close>

definition block_cache_key :: "table \<Rightarrow> block_handle \<Rightarrow> bytes" where
  "block_cache_key t hdl = EncodeFixed64 (t_cache_id t) @ EncodeFixed64 (bh_offset hdl)"

text \<open>The block of a handle: from the cache, or from the file and then perhaps into the cache.\<close>

definition fetch_block :: "table \<Rightarrow> read_options \<Rightarrow> block_handle \<Rightarrow> block_cache \<Rightarrow> (status \<times> block option \<times> block_cache) option" where
  "fetch_block t options hdl cache =
     (if to_block_cache (t_options t) \<and> cache (block_cache_key t hdl) \<noteq> None
      then Some (OK, cache (block_cache_key t hdl), cache)
      else
        (case ReadBlock (t_file t) (ro_verify_checksums options) hdl of
           None \<Rightarrow> None
         | Some (s, contents) \<Rightarrow>
             if ok s then
               let block = new_Block (bc_data contents);
                   cache = (if to_block_cache (t_options t) \<and> bc_cachable contents \<and> ro_fill_cache options
                            then cache(block_cache_key t hdl \<mapsto> block) else cache)
               in Some (s, Some block, cache)
             else Some (s, None, cache)))"

definition BlockReader :: "table \<Rightarrow> read_options \<Rightarrow> block_cache \<Rightarrow> bytes \<Rightarrow> (data_iter \<times> block_cache) option" where
  "BlockReader t options cache index_value =
     (let (s, hdl, _) = BlockHandle_DecodeFrom index_value
      in if \<not> ok s then Some (Inl (NewErrorIterator s), cache)
         else
           (case fetch_block t options hdl cache of
              None \<Rightarrow> None
            | Some (s, block, cache) \<Rightarrow>
                (case block of
                   Some b \<Rightarrow> Some (blk_NewIterator b, cache)
                 | None \<Rightarrow> Some (Inl (NewErrorIterator s), cache))))"

text \<open>The blocks as the two-level iterator opens them, from a cache that does not change.\<close>

definition block_function_of :: "table \<Rightarrow> read_options \<Rightarrow> block_cache \<Rightarrow> bytes \<Rightarrow> data_iter" where
  "block_function_of t options cache index_value = fst (the (BlockReader t options cache index_value))"

type_synonym table_iter = "(data_iter, data_iter) two_level"

definition table_iter_ops :: "table \<Rightarrow> read_options \<Rightarrow> block_cache \<Rightarrow> table_iter iter_ops" where
  "table_iter_ops t options cache =
     (let ops = data_iter_ops (to_comparator (t_options t))
      in two_level_iter_ops ops ops (block_function_of t options cache))"

definition Table_NewIterator :: "table \<Rightarrow> table_iter" where
  "Table_NewIterator t =
     (let ops = data_iter_ops (to_comparator (t_options t))
      in NewTwoLevelIterator ops ops (blk_NewIterator (t_index_block t)))"

text \<open>The result holds what \<^verbatim>\<open>handle_result\<close> was called with.\<close>

definition InternalGet ::
  "table \<Rightarrow> read_options \<Rightarrow> block_cache \<Rightarrow> bytes \<Rightarrow> (status \<times> (bytes \<times> bytes) option \<times> block_cache) option" where
  "InternalGet t options cache k =
     (let ops = data_iter_ops (to_comparator (t_options t));
          iiter = it_Seek ops (blk_NewIterator (t_index_block t)) k;
          finish = (\<lambda>s found cache. Some (if ok s then it_status ops iiter else s, found, cache))
      in if it_Valid ops iiter then
           let (s, hdl, _) = BlockHandle_DecodeFrom (it_value ops iiter)
           in if (case t_filter t of None \<Rightarrow> False | Some (p, f) \<Rightarrow> ok s \<and> \<not> fr_KeyMayMatch p f (bh_offset hdl) k)
              then finish OK None cache
              else
                (case BlockReader t options cache (it_value ops iiter) of
                   None \<Rightarrow> None
                 | Some (block_iter, cache) \<Rightarrow>
                     let block_iter = it_Seek ops block_iter k;
                         found = (if it_Valid ops block_iter then Some (it_key ops block_iter, it_value ops block_iter) else None)
                     in finish (it_status ops block_iter) found cache)
         else finish OK None cache)"

definition ApproximateOffsetOf :: "table \<Rightarrow> bytes \<Rightarrow> u64" where
  "ApproximateOffsetOf t key =
     (let ops = data_iter_ops (to_comparator (t_options t));
          index_iter = it_Seek ops (blk_NewIterator (t_index_block t)) key
      in if it_Valid ops index_iter then
           let (s, hdl, _) = BlockHandle_DecodeFrom (it_value ops index_iter)
           in if ok s then bh_offset hdl else bh_offset (t_metaindex_handle t)
         else bh_offset (t_metaindex_handle t))"

section \<open>Iterators over data blocks\<close>

context comparator
begin

text \<open>A block without restart points has the empty iterator.\<close>

definition data_rep :: "data_iter \<Rightarrow> (bytes \<times> bytes) list \<Rightarrow> nat \<Rightarrow> bool" where
  "data_rep i es p \<longleftrightarrow> (case i of Inl e \<Rightarrow> e = NewEmptyIterator \<and> es = [] \<and> p = 0 | Inr it \<Rightarrow> block_rep it es p)"

lemma data_iter_contract: "sorted_iterator (cmp_Compare cmp) valid (data_iter_ops cmp) data_rep"
proof unfold_locales
  note b = blk.rep_sorted blk.rep_valid blk.rep_pos blk.Valid_rep blk.key_rep blk.value_rep blk.status_rep
    blk.SeekToFirst_rep blk.SeekToLast_rep blk.Next_rep blk.Prev_rep blk.Seek_rep
  note e = empty_iter_ops_def NewEmptyIterator_def NewErrorIterator_def
  fix i es p
  assume r: "data_rep i es p"
  show "sorted_wrt (\<lambda>a b. less (fst a) (fst b)) es" "p \<le> length es"
    using r b(1,3) by (auto simp: data_rep_def split: sum.splits)
  show "valid (fst x)" if "x \<in> set es" for x
    using r that b(2) by (cases i) (auto simp: data_rep_def)
  show "it_Valid (data_iter_ops cmp) i = (p < length es)" "it_status (data_iter_ops cmp) i = OK"
    using r b(4,7) by (auto simp: data_rep_def either_iter_ops_def e split: sum.splits)
  show "it_key (data_iter_ops cmp) i = fst (es ! p)" "it_value (data_iter_ops cmp) i = snd (es ! p)" if "p < length es"
    using r that b(5,6) by (auto simp: data_rep_def either_iter_ops_def split: sum.splits)
  show "data_rep (it_SeekToFirst (data_iter_ops cmp) i) es 0" "data_rep (it_SeekToLast (data_iter_ops cmp) i) es (length es - 1)"
    using r b(8,9) by (auto simp: data_rep_def either_iter_ops_def e split: sum.splits)
  show "data_rep (it_Next (data_iter_ops cmp) i) es (p + 1)"
    "data_rep (it_Prev (data_iter_ops cmp) i) es (if p = 0 then length es else p - 1)" if "p < length es"
    subgoal using r that b(10) by (cases i) (simp_all add: data_rep_def either_iter_ops_def)
    subgoal using r that b(11) [of _ es p] by (cases i) (simp_all only: data_rep_def either_iter_ops_def, simp_all)
    done
  show "data_rep (it_Seek (data_iter_ops cmp) i t) es (length (takeWhile (\<lambda>e. less (fst e) t) es))" if "valid t" for t
    using r that b(12) by (auto simp: data_rep_def either_iter_ops_def e split: sum.splits)
qed

lemma data_blocks: "two_level_blocks (cmp_Compare cmp) valid (data_iter_ops cmp) data_rep (data_iter_ops cmp) data_rep"
  by (intro two_level_blocks.intro data_iter_contract)

lemma built_block_rep:
  assumes "1 \<le> interval" and "sorted_entries es" and "length (built_block interval es) < 2 ^ 32"
  shows "\<exists>p. data_rep (blk_NewIterator (new_Block (built_block interval es))) es p"
proof -
  obtain d b' where d: "bb_Finish (bb_AddAll es (new_BlockBuilder interval)) = (d, b')" by fastforce
  then show ?thesis
    using block_rep_AddAll [OF assms(1,2) d] assms(3) by (auto simp: built_block_def data_rep_def)
qed

end

interpretation bytewise_table: two_level_blocks "cmp_Compare (InternalKeyComparator BytewiseComparator)" internal_key
  "data_iter_ops (InternalKeyComparator BytewiseComparator)"
  "comparator.data_rep (InternalKeyComparator BytewiseComparator) internal_key"
  "data_iter_ops (InternalKeyComparator BytewiseComparator)"
  "comparator.data_rep (InternalKeyComparator BytewiseComparator) internal_key"
  "block_function_of t options cache" for t options cache
  by (rule comparator.data_blocks [OF bytewise_user.ikey.comparator_axioms])

section \<open>The block cache\<close>

text \<open>A cached block is the block that a read would give.\<close>

definition cache_coherent :: "table \<Rightarrow> block_handle set \<Rightarrow> block_cache \<Rightarrow> bool" where
  "cache_coherent t hs cache \<longleftrightarrow>
     (\<forall>h \<in> hs. \<forall>b. cache (block_cache_key t h) = Some b \<longrightarrow>
        (\<exists>verify c. ReadBlock (t_file t) verify h = Some (OK, c) \<and> b = new_Block (bc_data c)))"

lemma block_cache_key_eq: "block_cache_key t h = block_cache_key t h' \<longleftrightarrow> bh_offset h = bh_offset h'"
proof
  assume "block_cache_key t h = block_cache_key t h'"
  then have "EncodeFixed64 (bh_offset h) = EncodeFixed64 (bh_offset h')" by (simp add: block_cache_key_def)
  then show "bh_offset h = bh_offset h'" by (metis DecodeFixed64_EncodeFixed64)
qed (simp add: block_cache_key_def)

lemma fetch_block_coherent:
  assumes "cache_coherent t hs cache" and "inj_on bh_offset hs" and "h \<in> hs"
    and "\<And>verify. ReadBlock (t_file t) verify h = Some (OK, c)"
  shows "\<exists>cache'. fetch_block t ro h cache = Some (OK, Some (new_Block (bc_data c)), cache') \<and> cache_coherent t hs cache'"
proof (cases "to_block_cache (t_options t) \<and> cache (block_cache_key t h) \<noteq> None")
  case True
  then obtain b where b: "cache (block_cache_key t h) = Some b" by auto
  then have "b = new_Block (bc_data c)" using assms(1,3,4) by (auto simp: cache_coherent_def)
  then show ?thesis using True assms(1) b by (simp add: fetch_block_def)
next
  case False
  let ?c = "if to_block_cache (t_options t) \<and> bc_cachable c \<and> ro_fill_cache ro
              then cache(block_cache_key t h \<mapsto> new_Block (bc_data c)) else cache"
  have "fetch_block t ro h cache = Some (OK, Some (new_Block (bc_data c)), ?c)"
    unfolding fetch_block_def if_not_P [OF False] using assms(4) by (simp add: ok_def Let_def)
  moreover have "h' = h" if "h' \<in> hs" "block_cache_key t h' = block_cache_key t h" for h'
    using assms(2,3) that by (auto simp: block_cache_key_eq dest: inj_onD)
  then have "cache_coherent t hs ?c"
    unfolding cache_coherent_def
  proof (intro ballI allI impI)
    fix h' b
    assume h': "\<And>h'. h' \<in> hs \<Longrightarrow> block_cache_key t h' = block_cache_key t h \<Longrightarrow> h' = h" "h' \<in> hs" "?c (block_cache_key t h') = Some b"
    then show "\<exists>verify c. ReadBlock (t_file t) verify h' = Some (OK, c) \<and> b = new_Block (bc_data c)"
      using assms(1,4) unfolding cache_coherent_def
      by (cases "block_cache_key t h' = block_cache_key t h") (fastforce split: if_splits)+
  qed
  ultimately show ?thesis by blast
qed

section \<open>A built table as a file\<close>

text \<open>A file the kernel does not refuse to read, small enough for the 32-bit offsets in blocks.\<close>

definition readable :: "random_file \<Rightarrow> bool" where
  "readable f \<longleftrightarrow> length (ra_data f) < 2 ^ 32 \<and> (ra_mmapped f \<or> (\<forall>offset n. ra_fails f offset n = None))"

lemma readable_holds:
  assumes "readable f" and "ra_data f = pre @ d @ post"
  shows "file_holds f (word_of_nat (length pre)) d"
proof -
  have l: "length (ra_data f) < 2 ^ 32" using assms(1) by (simp add: readable_def)
  then have "length pre < 2 ^ 64" using assms(2) by simp
  then have "unat (word_of_nat (length pre) :: u64) = length pre" by (simp add: unat_of_nat take_bit_nat_eq_self)
  then have "\<exists>pre' post. ra_data f = pre' @ d @ post \<and> length pre' = unat (word_of_nat (length pre) :: u64)"
    using assms(2) by (intro exI [of _ pre] exI [of _ post]) simp
  then show ?thesis using assms(1) l unfolding file_holds_def readable_def by auto
qed

lemma data_at_split:
  assumes "data_at W n d"
  shows "\<exists>pre post. W = pre @ (d @ block_trailer d kNoCompression) @ post \<and> length pre = n"
proof -
  obtain post where "n \<le> length W" "drop n W = d @ block_trailer d kNoCompression @ post"
    using assms by (auto simp: data_at_def)
  then show ?thesis
    using append_take_drop_id [of n W] by (intro exI [of _ "take n W"] exI [of _ post]) simp
qed

lemma ReadBlock_at:
  assumes "readable f" and "data_at (ra_data f) n d"
  shows "ReadBlock f verify \<lparr>bh_offset = word_of_nat n, bh_size = word_of_nat (length d)\<rparr> =
    Some (OK, \<lparr>bc_data = d, bc_cachable = \<not> ra_mmapped f, bc_heap_allocated = \<not> ra_mmapped f\<rparr>)"
proof -
  obtain pre post where s: "ra_data f = pre @ (d @ block_trailer d kNoCompression) @ post" "length pre = n"
    using data_at_split [OF assms(2)] by blast
  have "file_holds f (word_of_nat n) (d @ kNoCompression # EncodeFixed32 (Mask (Value (d @ [kNoCompression]))))"
    using readable_holds [OF assms(1) s(1)] s(2) by (simp add: block_trailer_def Extend_Value)
  from ReadBlock_holds [OF this, of verify] show ?thesis by simp
qed

lemma data_at_length: "data_at W n d \<Longrightarrow> n + length d < length W"
  using data_at_split [of W n d] by (auto simp: kBlockTrailerSize_def)

context table_building
begin

lemma image_parts:
  "data_at (table_image ds W) (length (image_meta ds W)) (built_block 1 (map (index_entry ival) ds))"
  "data_at (table_image ds W) (length (image_filter ds W)) (built_block ival (meta_entries ds W))"
  "to_filter_policy opt = Some p \<Longrightarrow> data_at (table_image ds W) (length W) (filter_data p ds W)"
  unfolding table_image_def image_index_def image_meta_def image_filter_def with_trailer_def
  by (simp_all only: append.assoc) (simp_all add: data_at_def)

lemma data_at_image: "data_at W n d \<Longrightarrow> data_at (table_image ds W) n d"
  unfolding table_image_def image_index_def image_meta_def image_filter_def append.assoc
  by (rule data_at_append)

text \<open>What the index lists.\<close>

lemma seps_split:
  assumes "seps ds rest" and "i < length ds" and "ds ! i = (k, n, es)"
  shows "es \<noteq> []" and "valid k" and "\<forall>e \<in> set es. cmp_Compare cmp (fst e) k \<le> 0"
    and "\<forall>j < length ds. i < j \<longrightarrow> (\<forall>e \<in> set (snd (snd (ds ! j))). cmp_Compare cmp k (fst e) < 0)"
    and "block_entries (drop (Suc i) ds) @ rest \<noteq> [] \<Longrightarrow>
      k = cmp_FindShortestSeparator cmp (fst (last es)) (fst (hd (block_entries (drop (Suc i) ds) @ rest)))"
    and "block_entries (drop (Suc i) ds) @ rest = [] \<Longrightarrow> k = cmp_FindShortSuccessor cmp (fst (last es))"
proof -
  have s: "sep_ok (ds ! i) (block_entries (drop (Suc i) ds) @ rest)"
    using assms(1,2)
  proof (induction ds arbitrary: i)
    case (Cons d ds)
    then show ?case by (cases i) simp_all
  qed simp
  then show "es \<noteq> []" "valid k" "\<forall>e \<in> set es. cmp_Compare cmp (fst e) k \<le> 0"
    "block_entries (drop (Suc i) ds) @ rest \<noteq> [] \<Longrightarrow>
      k = cmp_FindShortestSeparator cmp (fst (last es)) (fst (hd (block_entries (drop (Suc i) ds) @ rest)))"
    "block_entries (drop (Suc i) ds) @ rest = [] \<Longrightarrow> k = cmp_FindShortSuccessor cmp (fst (last es))"
    unfolding assms(3) sep_ok_def prod.case by (blast, blast, blast, presburger, presburger)
  show "\<forall>j < length ds. i < j \<longrightarrow> (\<forall>e \<in> set (snd (snd (ds ! j))). cmp_Compare cmp k (fst e) < 0)"
  proof (intro allI impI ballI)
    fix j e
    assume j: "j < length ds" "i < j" "e \<in> set (snd (snd (ds ! j)))"
    then have "drop (Suc i) ds ! (j - Suc i) = ds ! j" "j - Suc i < length (drop (Suc i) ds)" by simp_all
    then have "ds ! j \<in> set (drop (Suc i) ds)" by (metis nth_mem)
    then have "e \<in> \<Union> (set ` (\<lambda>(k, n, es). es) ` set (drop (Suc i) ds))"
      using j(3) by (intro UN_I [of "snd (snd (ds ! j))"] imageI) (auto simp: split_def)
    then have "e \<in> set (block_entries (drop (Suc i) ds))" by (simp only: set_concat set_map)
    then have "e \<in> set (block_entries (drop (Suc i) ds) @ rest)" unfolding set_append by (rule UnI1)
    moreover have "\<forall>e \<in> set (block_entries (drop (Suc i) ds) @ rest). cmp_Compare cmp k (fst e) < 0"
      using s unfolding assms(3) sep_ok_def prod.case by blast
    ultimately show "cmp_Compare cmp k (fst e) < 0" by blast
  qed
qed

abbreviation index_entries :: "built list \<Rightarrow> (bytes \<times> bytes) list" where
  "index_entries ds \<equiv> map (index_entry ival) ds"

lemma index_sorted:
  assumes "written_blocks W es ds"
  shows "sorted_entries (index_entries ds)"
proof
  have sp: "seps ds []" and v: "\<forall>e \<in> set es. valid (fst e)" and es: "es = block_entries ds"
    using assms by (simp_all add: written_blocks_def)
  have key: "fst (index_entry ival d) = fst d" for d by (cases d) (simp add: index_entry_def)
  show "\<forall>e \<in> set (index_entries ds). valid (fst e)"
  proof
    fix e
    assume "e \<in> set (index_entries ds)"
    then obtain i where "i < length ds" "e = index_entry ival (ds ! i)" by (auto simp: in_set_conv_nth)
    then show "valid (fst e)" using seps_split(2) [OF sp, of i "fst (ds ! i)" "fst (snd (ds ! i))" "snd (snd (ds ! i))"] key by simp
  qed
  show "sorted_wrt (\<lambda>a b. less (fst a) (fst b)) (index_entries ds)"
    unfolding sorted_wrt_iff_nth_less
  proof (intro allI impI)
    fix i j
    assume ij: "i < j" "j < length (index_entries ds)"
    obtain k n bs where di: "ds ! i = (k, n, bs)" by (cases "ds ! i")
    obtain k' n' bs' where dj: "ds ! j = (k', n', bs')" by (cases "ds ! j")
    have l: "i < length ds" "j < length ds" using ij by simp_all
    have "bs' \<noteq> []" using seps_split(1) [OF sp l(2) dj] .
    then obtain e where e: "e \<in> set bs'" by (meson last_in_set)
    have "less k (fst e)" "cmp_Compare cmp (fst e) k' \<le> 0"
      using seps_split(4) [OF sp l(1) di] seps_split(3) [OF sp l(2) dj] l(2) ij(1) e dj by auto
    moreover have "valid k" "valid k'" using seps_split(2) [OF sp l(1) di] seps_split(2) [OF sp l(2) dj] .
    moreover have "e \<in> set es" using es e dj nth_mem [OF l(2)] by force
    then have "valid (fst e)" using v by blast
    ultimately have "less k k'" using less_le_trans [of k "fst e" k'] by blast
    then show "less (fst (index_entries ds ! i)) (fst (index_entries ds ! j))" using l key di dj by simp
  qed
qed

text \<open>What \<^verbatim>\<open>Open\<close> makes of the file.\<close>

definition opened :: "random_file \<Rightarrow> u64 \<Rightarrow> bytes \<Rightarrow> built list \<Rightarrow> table" where
  "opened f new_id W ds =
     \<lparr>t_options = opt, t_file = f, t_cache_id = (if to_block_cache opt then new_id else 0),
      t_filter = map_option (\<lambda>p. (p, new_filter_block_reader (filter_data p ds W))) (to_filter_policy opt),
      t_metaindex_handle = handle_of ival (length (image_filter ds W)) (meta_entries ds W),
      t_index_block = new_Block (built_block 1 (index_entries ds))\<rparr>"

lemma ReadMeta_image:
  assumes "readable f" and "ra_data f = table_image ds W" and "t_options t = opt" and "t_file t = f" and "t_filter t = None"
    and "ft_metaindex_handle ft = handle_of ival (length (image_filter ds W)) (meta_entries ds W)"
  shows "ReadMeta t ft = Some (t\<lparr>t_filter :=
    map_option (\<lambda>p. (p, new_filter_block_reader (filter_data p ds W))) (to_filter_policy opt)\<rparr>)"
proof (cases "to_filter_policy opt")
  case (Some p)
  let ?es = "meta_entries ds W"
  let ?ops = "data_iter_ops BytewiseComparator"
  note at = image_parts(2) [of ds W, folded assms(2)] image_parts(3) [OF Some, of ds W, folded assms(2)]
  have es: "?es = [(filter_meta_key p, BlockHandle_EncodeTo
      \<lparr>bh_offset = word_of_nat (length W), bh_size = word_of_nat (length (filter_data p ds W))\<rparr> [])]"
    using Some by (simp add: meta_entries_def)
  have "length (built_block ival ?es) < 2 ^ 32"
    using data_at_length [OF at(1)] assms(1) by (simp add: readable_def)
  then obtain n where r: "bytewise.data_rep (blk_NewIterator (new_Block (built_block ival ?es))) ?es n"
    using bytewise.built_block_rep [OF interval, of ?es] es by auto
  let ?i = "it_Seek ?ops (blk_NewIterator (new_Block (built_block ival ?es))) (filter_meta_key p)"
  note c = bytewise.data_iter_contract
  have "bytewise.data_rep ?i ?es 0"
    using sorted_iterator.Seek_rep [OF c r, of "filter_meta_key p"] es by (simp add: BytewiseComparator_def)
  note k = sorted_iterator.Valid_rep [OF c this] sorted_iterator.key_rep [OF c this] sorted_iterator.value_rep [OF c this]
  have v: "it_Valid ?ops ?i" "it_key ?ops ?i = filter_meta_key p" "it_value ?ops ?i = BlockHandle_EncodeTo
      \<lparr>bh_offset = word_of_nat (length W), bh_size = word_of_nat (length (filter_data p ds W))\<rparr> []"
    using k es by simp_all
  have rf: "ReadFilter t p (it_value ?ops ?i) = Some (t\<lparr>t_filter := Some (p, new_filter_block_reader (filter_data p ds W))\<rparr>)"
    unfolding ReadFilter_def v(3) assms(4) using BlockHandle_round_trip [of _ "[]"] ReadBlock_at [OF assms(1) at(2)]
    by (simp add: ok_def)
  show ?thesis
    unfolding ReadMeta_def assms(3,4,6) using Some ReadBlock_at [OF assms(1) at(1)] v(1,2) rf
    by (simp add: handle_of_def ok_def Let_def)
qed (use assms(3,5) in \<open>simp add: ReadMeta_def\<close>)

lemma Table_Open_image:
  assumes "readable f" and "ra_data f = table_image ds W"
  shows "Table_Open opt f (word_of_nat (length (ra_data f))) new_id = Some (OK, Some (opened f new_id W ds))"
proof -
  let ?n = "length (image_index ds W)"
  let ?foot = "Footer_EncodeTo (image_footer ds W) []"
  have len: "length (ra_data f) = ?n + kEncodedLength" "length (ra_data f) < 2 ^ 32"
    using assms length_Footer [of "image_footer ds W"] by (simp_all add: table_image_def readable_def)
  then have sz: "word_of_nat (length (ra_data f)) - (word_of_nat kEncodedLength :: u64) = word_of_nat ?n" by simp
  have "unat (word_of_nat (length (ra_data f)) :: u64) = length (ra_data f)"
    using len(2) by (simp add: unat_of_nat take_bit_nat_eq_self)
  then have short: "\<not> word_of_nat (length (ra_data f)) < (word_of_nat kEncodedLength :: u64)"
    using len(1) by (simp add: word_less_nat_alt kEncodedLength_def kMaxEncodedLength_def)
  have "file_holds f (word_of_nat ?n) ?foot"
    by (rule readable_holds [OF assms(1), of _ _ "[]"]) (simp add: assms(2) table_image_def)
  from ra_Read_holds [OF this]
  have rd: "ra_Read f (word_of_nat ?n) (word_of_nat kEncodedLength) = Some (OK, ?foot)" by (simp add: length_Footer)
  have idx: "ReadBlock f v (handle_of 1 (length (image_meta ds W)) (index_entries ds)) =
      Some (OK, \<lparr>bc_data = built_block 1 (index_entries ds), bc_cachable = \<not> ra_mmapped f, bc_heap_allocated = \<not> ra_mmapped f\<rparr>)" for v
    unfolding handle_of_def by (rule ReadBlock_at [OF assms(1) image_parts(1) [of ds W, folded assms(2)]])
  have "Footer_DecodeFrom ?foot = Some (OK, image_footer ds W, [])" using Footer_round_trip [of _ "[]"] by simp
  moreover have "ReadMeta \<lparr>t_options = opt, t_file = f, t_cache_id = (if to_block_cache opt then new_id else 0), t_filter = None,
      t_metaindex_handle = ft_metaindex_handle (image_footer ds W), t_index_block = new_Block (built_block 1 (index_entries ds))\<rparr>
      (image_footer ds W) = Some (opened f new_id W ds)"
    by (subst ReadMeta_image [OF assms]) (simp_all add: image_footer_def opened_def)
  ultimately show ?thesis
    unfolding Table_Open_def sz if_not_P [OF short] rd using idx by (simp add: ok_def image_footer_def)
qed

text \<open>The handles of the data blocks, and what they hold.\<close>

definition data_handles :: "built list \<Rightarrow> block_handle set" where
  "data_handles ds = (\<lambda>(k, n, es). handle_of ival n es) ` set ds"

definition content_of :: "built list \<Rightarrow> bytes \<Rightarrow> (bytes \<times> bytes) list" where
  "content_of ds hdl = the (map_of (map (\<lambda>(k, n, es). (BlockHandle_EncodeTo (handle_of ival n es) [], es)) ds) hdl)"

abbreviation table_of :: "random_file \<Rightarrow> bytes \<Rightarrow> (bytes \<times> bytes) list \<Rightarrow> built list \<Rightarrow> bool" where
  "table_of f W es ds \<equiv> readable f \<and> ra_data f = table_image ds W \<and> written_blocks W es ds"

lemma block_entries_middle: "block_entries (xs @ (k, n, bs) # ys) = block_entries xs @ bs @ block_entries ys"
  by simp

lemma block_nth:
  assumes "table_of f W es ds" and "i < length ds" and "ds ! i = (k, n, bs)"
  shows "data_at (ra_data f) n (built_block ival bs)" and "n + length (built_block ival bs) < 2 ^ 32"
    and "sorted_entries bs" and "\<exists>p. data_rep (blk_NewIterator (new_Block (built_block ival bs))) bs p"
    and "ReadBlock f verify (handle_of ival n bs) =
      Some (OK, \<lparr>bc_data = built_block ival bs, bc_cachable = \<not> ra_mmapped f, bc_heap_allocated = \<not> ra_mmapped f\<rparr>)"
proof -
  have m: "(k, n, bs) \<in> set ds" using nth_mem [OF assms(2)] assms(3) by simp
  then show at: "data_at (ra_data f) n (built_block ival bs)"
    using assms(1) data_at_image unfolding written_blocks_def by fastforce
  then show l: "n + length (built_block ival bs) < 2 ^ 32"
    using data_at_length [OF at] assms(1) unfolding readable_def by linarith
  have "es = block_entries ds" "sorted_entries es" using assms(1) unfolding written_blocks_def by blast+
  moreover have "ds = take i ds @ (k, n, bs) # drop (Suc i) ds" using id_take_nth_drop [OF assms(2)] assms(3) by simp
  then have "block_entries ds = block_entries (take i ds) @ bs @ block_entries (drop (Suc i) ds)"
    using arg_cong [of ds _ block_entries] by (metis (no_types, lifting) block_entries_middle)
  ultimately have "sorted_entries (block_entries (take i ds) @ bs @ block_entries (drop (Suc i) ds))" by simp
  then show s: "sorted_entries bs"
    by (simp add: sorted_wrt_append)
  show "\<exists>p. data_rep (blk_NewIterator (new_Block (built_block ival bs))) bs p"
    by (rule built_block_rep [OF interval s]) (use l in simp)
  show "ReadBlock f verify (handle_of ival n bs) =
      Some (OK, \<lparr>bc_data = built_block ival bs, bc_cachable = \<not> ra_mmapped f, bc_heap_allocated = \<not> ra_mmapped f\<rparr>)"
    unfolding handle_of_def by (rule ReadBlock_at) (use assms(1) at in blast)+
qed

lemma offsets_increase:
  assumes "table_of f W es ds" and "i < j" and "j < length ds"
  shows "fst (snd (ds ! i)) < fst (snd (ds ! j))" and "fst (snd (ds ! i)) < length W"
proof -
  have "sorted_wrt (<) (map (\<lambda>d. fst (snd d)) ds @ [length W])"
    using assms(1) unfolding written_blocks_def by (simp add: comp_def split_def)
  then have s: "sorted_wrt (<) (map (\<lambda>d. fst (snd d)) ds)" "\<forall>d \<in> set ds. fst (snd d) < length W"
    by (simp_all add: sorted_wrt_append)
  show "fst (snd (ds ! i)) < fst (snd (ds ! j))" using sorted_wrt_nth_less [OF s(1), of i j] assms(2,3) by simp
  show "fst (snd (ds ! i)) < length W" using s(2) assms(2,3) by simp
qed

lemma offset_inj:
  assumes "table_of f W es ds" and "i < length ds" and "j < length ds"
    and "(word_of_nat (fst (snd (ds ! i))) :: u64) = word_of_nat (fst (snd (ds ! j)))"
  shows "i = j"
proof -
  have l: "fst (snd (ds ! m)) < 2 ^ 64" if m: "m < length ds" for m
    using block_nth(2) [OF assms(1) m, of "fst (ds ! m)" "fst (snd (ds ! m))" "snd (snd (ds ! m))"] by simp
  from arg_cong [OF assms(4), of unat] have "fst (snd (ds ! i)) = fst (snd (ds ! j))"
    using l assms(2,3) by (simp add: unat_of_nat take_bit_nat_eq_self)
  then show ?thesis
    using offsets_increase(1) [OF assms(1), of i j] offsets_increase(1) [OF assms(1), of j i] assms(2,3)
    by (metis less_irrefl_nat linorder_neqE_nat)
qed

lemma handles_inj:
  assumes "table_of f W es ds"
  shows "inj_on bh_offset (data_handles ds)"
proof (rule inj_onI)
  fix h h'
  assume h: "h \<in> data_handles ds" "h' \<in> data_handles ds" "bh_offset h = bh_offset h'"
  obtain i j where i: "i < length ds" "h = (case ds ! i of (k, n, es) \<Rightarrow> handle_of ival n es)"
    "j < length ds" "h' = (case ds ! j of (k, n, es) \<Rightarrow> handle_of ival n es)"
    using h(1,2) by (fastforce simp: data_handles_def in_set_conv_nth)
  have "i = j" by (rule offset_inj [OF assms i(1,3)]) (use h(3) i in \<open>simp add: handle_of_def split_def\<close>)
  then show "h = h'" using i by simp
qed

lemma content_nth:
  assumes "table_of f W es ds" and "i < length ds" and "ds ! i = (k, n, bs)"
  shows "content_of ds (snd (index_entries ds ! i)) = bs"
proof -
  let ?m = "map (\<lambda>(k, n, es). (BlockHandle_EncodeTo (handle_of ival n es) [], es)) ds"
  have "distinct (map fst ?m)"
    unfolding distinct_conv_nth
  proof (intro allI impI notI)
    fix a b
    assume ab: "a < length (map fst ?m)" "b < length (map fst ?m)" "a \<noteq> b" "map fst ?m ! a = map fst ?m ! b"
    then have "BlockHandle_EncodeTo (handle_of ival (fst (snd (ds ! a))) (snd (snd (ds ! a)))) [] =
        BlockHandle_EncodeTo (handle_of ival (fst (snd (ds ! b))) (snd (snd (ds ! b)))) []"
      by (simp add: split_def)
    then have "handle_of ival (fst (snd (ds ! a))) (snd (snd (ds ! a))) = handle_of ival (fst (snd (ds ! b))) (snd (snd (ds ! b)))"
      using BlockHandle_round_trip [of _ "[]"] by (metis append_Nil2 prod.inject)
    then have "a = b" using offset_inj [OF assms(1), of a b] ab(1,2) by (simp add: handle_of_def)
    then show False using ab(3) by simp
  qed
  moreover have "(BlockHandle_EncodeTo (handle_of ival n bs) [], bs) \<in> set ?m"
    using nth_mem [OF assms(2)] assms(3) by force
  ultimately have "map_of ?m (BlockHandle_EncodeTo (handle_of ival n bs) []) = Some bs" by (rule map_of_is_SomeI)
  then show ?thesis using assms(2,3) by (simp add: content_of_def index_entry_def)
qed

lemma entries_content:
  assumes "table_of f W es ds"
  shows "concat (map (\<lambda>x. content_of ds (snd x)) (index_entries ds)) = es"
proof -
  have "map (\<lambda>x. content_of ds (snd x)) (index_entries ds) = map (\<lambda>(k, n, es). es) ds"
  proof (rule nth_equalityI)
    fix i
    assume "i < length (map (\<lambda>x. content_of ds (snd x)) (index_entries ds))"
    then have i: "i < length ds" by simp
    then show "map (\<lambda>x. content_of ds (snd x)) (index_entries ds) ! i = map (\<lambda>(k, n, es). es) ds ! i"
      using content_nth [OF assms i, of "fst (ds ! i)" "fst (snd (ds ! i))" "snd (snd (ds ! i))"] by (simp add: split_def)
  qed simp
  from arg_cong [OF this, of concat] show ?thesis using assms unfolding written_blocks_def by (simp only:)
qed

lemma BlockReader_nth:
  assumes "table_of f W es ds" and "i < length ds" and "ds ! i = (k, n, bs)"
    and "cache_coherent (opened f new_id W ds) (data_handles ds) cache"
  shows "\<exists>cache'. BlockReader (opened f new_id W ds) ro cache (snd (index_entries ds ! i)) =
      Some (blk_NewIterator (new_Block (built_block ival bs)), cache') \<and>
      cache_coherent (opened f new_id W ds) (data_handles ds) cache'"
proof -
  have h: "handle_of ival n bs \<in> data_handles ds"
    using nth_mem [OF assms(2)] assms(3) by (force simp: data_handles_def)
  have "snd (index_entries ds ! i) = BlockHandle_EncodeTo (handle_of ival n bs) []"
    using assms(2,3) by (simp add: index_entry_def)
  moreover have "BlockHandle_DecodeFrom (BlockHandle_EncodeTo (handle_of ival n bs) []) = (OK, handle_of ival n bs, [])"
    using BlockHandle_round_trip [of _ "[]"] by simp
  moreover have "t_file (opened f new_id W ds) = f" by (simp add: opened_def)
  ultimately show ?thesis
    using fetch_block_coherent [OF assms(4) handles_inj [OF assms(1)] h, of
        "\<lparr>bc_data = built_block ival bs, bc_cachable = \<not> ra_mmapped f, bc_heap_allocated = \<not> ra_mmapped f\<rparr>" ro]
      block_nth(5) [OF assms(1-3)]
    by (auto simp: BlockReader_def ok_def)
qed

lemma index_rep:
  assumes "table_of f W es ds"
  shows "\<exists>q. data_rep (blk_NewIterator (new_Block (built_block 1 (index_entries ds)))) (index_entries ds) q"
proof -
  have table_bytes: "ra_data f = table_image ds W" using assms by blast
  have table_small: "length (ra_data f) < 2 ^ 32" using assms unfolding readable_def by blast
  have "length (built_block 1 (index_entries ds)) < 2 ^ 32"
    using data_at_length [OF image_parts(1) [of ds W, folded table_bytes]] table_small by linarith
  then show ?thesis using built_block_rep [OF _ index_sorted] assms by blast
qed

text \<open>The iterator of the table is a cursor over all entries, whatever coherent cache it reads through.\<close>

lemma table_iterator:
  assumes "table_of f W es ds" and "cache_coherent (opened f new_id W ds) (data_handles ds) cache"
  shows "\<exists>rep. sorted_iterator (cmp_Compare cmp) valid (table_iter_ops (opened f new_id W ds) ro cache) rep \<and>
    rep (Table_NewIterator (opened f new_id W ds)) es (length es)"
proof -
  let ?t = "opened f new_id W ds"
  let ?f = "block_function_of ?t ro cache"
  note tb = data_blocks
  have opt: "to_comparator (t_options ?t) = cmp" "t_index_block ?t = new_Block (built_block 1 (index_entries ds))"
    by (simp_all add: opened_def)
  obtain q where idx: "data_rep (blk_NewIterator (t_index_block ?t)) (index_entries ds) q"
    using index_rep [OF assms(1)] unfolding opt(2) by blast
  have "two_level_blocks.blocks_ok (cmp_Compare cmp) data_rep ?f (index_entries ds) (content_of ds)"
    unfolding two_level_blocks.blocks_ok_def [OF tb]
  proof (intro conjI allI impI ballI)
    fix x
    assume "x \<in> set (index_entries ds)"
    then obtain i where i: "i < length ds" "x = index_entries ds ! i" by (auto simp: in_set_conv_nth)
    obtain k n bs where d: "ds ! i = (k, n, bs)" by (cases "ds ! i")
    obtain cache' where "BlockReader ?t ro cache (snd x) = Some (blk_NewIterator (new_Block (built_block ival bs)), cache')"
      using BlockReader_nth [OF assms(1) i(1) d assms(2), of ro] i(2) by auto
    then have "?f (snd x) = blk_NewIterator (new_Block (built_block ival bs))" by (simp add: block_function_of_def)
    then show "\<exists>p. data_rep (?f (snd x)) (content_of ds (snd x)) p"
      using block_nth(4) [OF assms(1) i(1) d] content_nth [OF assms(1) i(1) d] i(2) by simp
  next
    fix i e
    assume i: "i < length (index_entries ds)" "e \<in> set (content_of ds (snd (index_entries ds ! i)))"
    obtain k n bs where d: "ds ! i = (k, n, bs)" by (cases "ds ! i")
    have "seps ds []" using assms(1) by (simp add: written_blocks_def)
    from seps_split(3) [OF this _ d] i content_nth [OF assms(1) _ d]
    show "cmp_Compare cmp (fst e) (fst (index_entries ds ! i)) \<le> 0" using d by (simp add: index_entry_def)
  next
    fix i j e
    assume ij: "i < j" "j < length (index_entries ds)" "e \<in> set (content_of ds (snd (index_entries ds ! j)))"
    obtain k n bs where d: "ds ! i = (k, n, bs)" by (cases "ds ! i")
    obtain k' n' bs' where d': "ds ! j = (k', n', bs')" by (cases "ds ! j")
    have "seps ds []" using assms(1) by (simp add: written_blocks_def)
    from seps_split(4) [OF this _ d] ij content_nth [OF assms(1) _ d'] d' d
    show "less (fst (index_entries ds ! i)) (fst e)" by (simp add: index_entry_def)
  qed
  from two_level_blocks.NewTwoLevelIterator_rep [OF tb this idx] two_level_blocks.two_level_contract [OF tb, of ?f]
  show ?thesis unfolding table_iter_ops_def Table_NewIterator_def opt(1) Let_def entries_content [OF assms(1)] by blast
qed

text \<open>A point lookup goes to one block: the first whose separator is not before the key.\<close>

definition denied :: "bytes \<Rightarrow> built list \<Rightarrow> nat \<Rightarrow> bytes \<Rightarrow> bool" where
  "denied W ds i k \<longleftrightarrow>
     (\<exists>p. to_filter_policy opt = Some p \<and>
        \<not> fr_KeyMayMatch p (new_filter_block_reader (filter_data p ds W)) (word_of_nat (fst (snd (ds ! i)))) k)"

lemma find_takeWhile:
  "find (\<lambda>e. \<not> P e) bs = (let n = length (takeWhile P bs) in if n < length bs then Some (bs ! n) else None)"
  by (induction bs) (auto simp: Let_def)

lemma seek_find:
  assumes "data_rep i bs p" and "valid k"
  shows "(if it_Valid (data_iter_ops cmp) (it_Seek (data_iter_ops cmp) i k)
          then Some (it_key (data_iter_ops cmp) (it_Seek (data_iter_ops cmp) i k),
                     it_value (data_iter_ops cmp) (it_Seek (data_iter_ops cmp) i k)) else None) =
         find (\<lambda>e. \<not> less (fst e) k) bs"
    and "it_status (data_iter_ops cmp) (it_Seek (data_iter_ops cmp) i k) = OK"
proof -
  note c = data_iter_contract and s = sorted_iterator.Seek_rep [OF data_iter_contract assms]
  show "it_status (data_iter_ops cmp) (it_Seek (data_iter_ops cmp) i k) = OK" by (rule sorted_iterator.status_rep [OF c s])
  show "(if it_Valid (data_iter_ops cmp) (it_Seek (data_iter_ops cmp) i k)
          then Some (it_key (data_iter_ops cmp) (it_Seek (data_iter_ops cmp) i k),
                     it_value (data_iter_ops cmp) (it_Seek (data_iter_ops cmp) i k)) else None) =
         find (\<lambda>e. \<not> less (fst e) k) bs"
    using sorted_iterator.Valid_rep [OF c s] sorted_iterator.key_rep [OF c s] sorted_iterator.value_rep [OF c s]
    by (simp add: find_takeWhile Let_def)
qed

lemma InternalGet_image:
  assumes "table_of f W es ds" and "valid k" and "cache_coherent (opened f new_id W ds) (data_handles ds) cache"
  shows "\<exists>i found cache'. InternalGet (opened f new_id W ds) ro cache k = Some (OK, found, cache') \<and>
    cache_coherent (opened f new_id W ds) (data_handles ds) cache' \<and> i \<le> length ds \<and>
    (\<forall>j < i. less (fst (ds ! j)) k) \<and> (i < length ds \<longrightarrow> \<not> less (fst (ds ! i)) k) \<and>
    found = (if i < length ds \<and> \<not> denied W ds i k then find (\<lambda>e. \<not> less (fst e) k) (snd (snd (ds ! i))) else None)"
proof -
  let ?t = "opened f new_id W ds"
  let ?ops = "data_iter_ops cmp"
  let ?it = "it_Seek ?ops (blk_NewIterator (t_index_block ?t)) k"
  let ?i = "length (takeWhile (\<lambda>e. less (fst e) k) (index_entries ds))"
  have opt: "to_comparator (t_options ?t) = cmp" "t_index_block ?t = new_Block (built_block 1 (index_entries ds))"
    "t_filter ?t = map_option (\<lambda>p. (p, new_filter_block_reader (filter_data p ds W))) (to_filter_policy opt)"
    by (simp_all add: opened_def)
  obtain q where idx: "data_rep (blk_NewIterator (t_index_block ?t)) (index_entries ds) q"
    using index_rep [OF assms(1)] unfolding opt(2) by blast
  note c = data_iter_contract and s = sorted_iterator.Seek_rep [OF data_iter_contract idx assms(2)]
  note V = sorted_iterator.Valid_rep [OF c s]
  have st: "it_status ?ops ?it = OK" by (rule sorted_iterator.status_rep [OF c s])
  have key: "fst (index_entries ds ! j) = fst (ds ! j)" if "j < length ds" for j
    using that by (simp add: index_entry_def split: prod.split)
  have i: "?i \<le> length ds" using length_takeWhile_le [of "\<lambda>e. less (fst e) k" "index_entries ds"] by simp
  have before: "\<forall>j < ?i. less (fst (ds ! j)) k"
  proof (intro allI impI)
    fix j
    assume j: "j < ?i"
    then have "index_entries ds ! j \<in> set (takeWhile (\<lambda>e. less (fst e) k) (index_entries ds))"
      using nth_mem [OF j] takeWhile_nth [OF j] by simp
    then have "less (fst (index_entries ds ! j)) k" by (rule set_takeWhileD [THEN conjunct2])
    then show "less (fst (ds ! j)) k" using key i j by simp
  qed
  have at: "?i < length ds \<longrightarrow> \<not> less (fst (ds ! ?i)) k"
    using nth_length_takeWhile [of "\<lambda>e. less (fst e) k" "index_entries ds"] key by simp
  show ?thesis
  proof (cases "?i < length ds")
    case False
    then have "InternalGet ?t ro cache k = Some (OK, None, cache)"
      using V st by (simp add: InternalGet_def opt(1) ok_def)
    then show ?thesis using i before at False assms(3) by (intro exI [of _ ?i]) auto
  next
    case True
    obtain s n bs where d: "ds ! ?i = (s, n, bs)" by (cases "ds ! ?i")
    have val: "it_value ?ops ?it = snd (index_entries ds ! ?i)"
      using sorted_iterator.value_rep [OF c s] True by simp
    have "snd (index_entries ds ! ?i) = BlockHandle_EncodeTo (handle_of ival n bs) []"
      using True d by (simp add: index_entry_def)
    then have dec: "BlockHandle_DecodeFrom (snd (index_entries ds ! ?i)) = (OK, handle_of ival n bs, [])"
      using BlockHandle_round_trip [of _ "[]"] by simp
    have "(case t_filter ?t of None \<Rightarrow> False
        | Some (p, f) \<Rightarrow> ok OK \<and> \<not> fr_KeyMayMatch p f (bh_offset (handle_of ival n bs)) k) = denied W ds ?i k"
      using d by (auto simp: opt(3) denied_def handle_of_def ok_def split: option.split)
    note den = this
    obtain cache' where br: "BlockReader ?t ro cache (snd (index_entries ds ! ?i)) =
        Some (blk_NewIterator (new_Block (built_block ival bs)), cache')"
      and coh: "cache_coherent ?t (data_handles ds) cache'"
      using BlockReader_nth [OF assms(1) True d assms(3)] by blast
    obtain p where rep: "data_rep (blk_NewIterator (new_Block (built_block ival bs))) bs p"
      using block_nth(4) [OF assms(1) True d] by blast
    have "InternalGet ?t ro cache k = (if denied W ds ?i k then Some (OK, None, cache)
        else Some (OK, find (\<lambda>e. \<not> less (fst e) k) bs, cache'))"
      unfolding InternalGet_def opt(1) Let_def val dec prod.case den br
      using V True st seek_find [OF rep assms(2)] by (simp add: ok_def)
    then show ?thesis using i before at True assms(3) coh d by (intro exI [of _ ?i]) auto
  qed
qed

end

section \<open>Tables of internal keys\<close>

text \<open>
  A lookup answers for a key when it gives the first entry from the key on; it may give nothing only
  when that entry, if there is one, belongs to another user key.
\<close>

definition first_from :: "comparator \<Rightarrow> (bytes \<times> bytes) list \<Rightarrow> bytes \<Rightarrow> (bytes \<times> bytes) option" where
  "first_from cmp es k = find (\<lambda>e. \<not> cmp_Compare cmp (fst e) k < 0) es"

definition answers :: "comparator \<Rightarrow> (bytes \<times> bytes) list \<Rightarrow> bytes \<Rightarrow> (bytes \<times> bytes) option \<Rightarrow> bool" where
  "answers cmp es k found \<longleftrightarrow>
     (case found of
        Some e \<Rightarrow> first_from cmp es k = Some e
      | None \<Rightarrow> (\<forall>e. first_from cmp es k = Some e \<longrightarrow> ExtractUserKey (fst e) \<noteq> ExtractUserKey k))"

text \<open>Many lookups, one after the other through the same cache.\<close>

fun InternalGets ::
  "table \<Rightarrow> read_options \<Rightarrow> block_cache \<Rightarrow> bytes list \<Rightarrow> (status \<times> (bytes \<times> bytes) option) list option" where
  "InternalGets t ro cache [] = Some []"
| "InternalGets t ro cache (k # ks) =
     (case InternalGet t ro cache k of
        None \<Rightarrow> None
      | Some (s, found, cache) \<Rightarrow> map_option ((#) (s, found)) (InternalGets t ro cache ks))"

context user_comparator
begin

lemma sep_gap:
  assumes "ikey_Compare cmp a k < 0" and "ikey_Compare cmp a b < 0" and "\<not> ikey_Compare cmp (ikey_FindShortestSeparator cmp a b) k < 0"
  shows "ExtractUserKey k \<noteq> ExtractUserKey b"
proof (cases rule: ikey_sep_cases [of a b])
  case same
  then show ?thesis using assms(1,3) by simp
next
  case (shorter tmp)
  have "less (ExtractUserKey a) (ExtractUserKey b)"
    using assms(2) shorter(2,3) sep_eq [of "ExtractUserKey a" "ExtractUserKey b"] unfolding ikey_Compare_less by force
  then have "less tmp (ExtractUserKey b)"
    using sep [of "ExtractUserKey a" "ExtractUserKey b"] shorter(2) by simp
  moreover have "\<not> less tmp (ExtractUserKey k)"
    using assms(3) shorter(1) by (simp add: ikey_Compare_less)
  ultimately show ?thesis by metis
qed

end

context user_filter_policy
begin

lemma internal_policy: "filter_policy (InternalFilterPolicy policy)"
  by (rule internal.filter_policy_axioms)

end

lemma fr_KeyMayMatch_user:
  assumes "ExtractUserKey k = ExtractUserKey k'"
  shows "fr_KeyMayMatch (InternalFilterPolicy u) r offset k = fr_KeyMayMatch (InternalFilterPolicy u) r offset k'"
proof -
  have "fp_KeyMayMatch (InternalFilterPolicy u) k = fp_KeyMayMatch (InternalFilterPolicy u) k'"
    using assms by (simp add: InternalFilterPolicy_def)
  then show ?thesis unfolding fr_KeyMayMatch_def by (simp only:)
qed

lemma find_append: "find P (xs @ ys) = (case find P xs of None \<Rightarrow> find P ys | Some x \<Rightarrow> Some x)"
  by (induction xs) auto

context table_building
begin

lemma filter_no_false_negative:
  assumes "table_of f W es ds" and "i < length ds" and "to_filter_policy opt = Some p" and "filter_policy p"
    and "k \<in> fst ` set (snd (snd (ds ! i)))"
  shows "fr_KeyMayMatch p (new_filter_block_reader (filter_data p ds W)) (word_of_nat (fst (snd (ds ! i)))) k"
proof -
  let ?bs = "map (\<lambda>(n, ks). (word_of_nat n :: u64, ks)) (filter_blocks ds None @ [(length W, [])])"
  have bytes: "ra_data f = table_image ds W" using assms(1) by blast
  have small: "length (ra_data f) < 2 ^ 32" using assms(1) unfolding readable_def by blast
  have at: "data_at (ra_data f) (length W) (filter_data p ds W)" using image_parts(3) [OF assms(3), of ds W] bytes by simp
  have len: "length W + length (filter_data p ds W) < 2 ^ 32" using data_at_length [OF at] small by linarith
  have srt: "sorted_wrt (<) (map fst (filter_blocks ds None @ [(length W, [])]))"
    using assms(1) unfolding written_blocks_def by blast
  have "\<forall>x \<in> set (filter_blocks ds None @ [(length W, [])]). fst x \<le> length W"
    using srt by (auto simp: sorted_wrt_append)
  then have "map (unat \<circ> fst) ?bs = map fst (filter_blocks ds None @ [(length W, [])])"
    using len by (fastforce simp: unat_of_nat take_bit_nat_eq_self)
  moreover have "sorted (map fst (filter_blocks ds None @ [(length W, [])]))"
    by (rule strict_sorted_imp_sorted) (rule srt)
  ultimately have s: "sorted (map (unat \<circ> fst) ?bs)" by (simp only:)
  have "(fst (snd (ds ! i)), map fst (snd (snd (ds ! i)))) \<in> set (filter_blocks ds None)"
    using nth_mem [OF assms(2)] by (force simp: split_def)
  then have m: "(word_of_nat (fst (snd (ds ! i))), map fst (snd (snd (ds ! i)))) \<in> set ?bs" by force
  show ?thesis
    unfolding filter_data_def
    by (rule filter_policy.filter_block_finds [OF assms(4) s m])
      (use assms(5) len in \<open>simp_all add: filter_data_def\<close>)
qed

lemma split_at:
  assumes "table_of f W es ds" and "valid k" and "i \<le> length ds" and "\<forall>j < i. less (fst (ds ! j)) k"
  shows "first_from cmp es k = find (\<lambda>e. \<not> less (fst e) k) (block_entries (drop i ds))"
proof -
  have sp: "seps ds []" and es: "es = block_entries ds" and v: "\<forall>e \<in> set es. valid (fst e)"
    using assms(1) unfolding written_blocks_def by blast+
  have "block_entries ds = block_entries (take i ds) @ block_entries (drop i ds)"
    by (metis append_take_drop_id concat_append map_append)
  moreover have "find (\<lambda>e. \<not> less (fst e) k) (block_entries (take i ds)) = None"
  proof -
    have "less (fst e) k" if m: "e \<in> set (block_entries (take i ds))" for e
    proof -
      obtain d where d: "d \<in> set (take i ds)" "e \<in> set (snd (snd d))" using m by force
      then obtain j where j: "j < i" "j < length ds" "ds ! j = d" by (auto simp: in_set_conv_nth)
      have ds: "ds ! j = (fst d, fst (snd d), snd (snd d))" using j(3) by simp
      have "cmp_Compare cmp (fst e) (fst d) \<le> 0" "valid (fst d)"
        using seps_split(2,3) [OF sp j(2) ds] d(2) by blast+
      moreover have "e \<in> set es" using m es by (auto dest: in_set_takeD)
      then have "valid (fst e)" using v by blast
      ultimately show ?thesis using le_less_trans [of "fst e" "fst d" k] assms(2,4) j by auto
    qed
    then show ?thesis unfolding find_None_iff by blast
  qed
  ultimately show ?thesis unfolding first_from_def es by (simp only: find_append option.case)
qed

lemma gap_other_user:
  assumes "table_of f W es ds" and "i < length ds" and "ds ! i = (s, n, bs)" and "valid k" and "\<not> less s k"
    and "cmp = InternalKeyComparator BytewiseComparator" and "find (\<lambda>e. \<not> less (fst e) k) bs = None"
    and "find (\<lambda>e. \<not> less (fst e) k) (block_entries (drop (Suc i) ds)) = Some e"
  shows "ExtractUserKey (fst e) \<noteq> ExtractUserKey k"
proof -
  let ?rest = "block_entries (drop (Suc i) ds)"
  have sp: "seps ds []" and es: "es = block_entries ds" and v: "\<forall>e \<in> set es. valid (fst e)"
    and srt: "sorted_wrt (\<lambda>a b. less (fst a) (fst b)) es"
    using assms(1) unfolding written_blocks_def by blast+
  have ne: "?rest \<noteq> []" using assms(8) by (metis find.simps(1) option.distinct(1))
  note b = seps_split [OF sp assms(2,3)]
  have all: "\<forall>e \<in> set bs. less (fst e) k" using assms(7) unfolding find_None_iff by blast
  obtain h t where r: "?rest = h # t" using ne by (cases ?rest) auto
  have "ds = take i ds @ (s, n, bs) # drop (Suc i) ds" using id_take_nth_drop [OF assms(2)] assms(3) by simp
  then have "block_entries ds = block_entries (take i ds) @ bs @ ?rest"
    using arg_cong [of ds _ block_entries] by (metis (no_types, lifting) block_entries_middle)
  then have es': "es = block_entries (take i ds) @ bs @ h # t" using es r by simp
  have s: "s = cmp_FindShortestSeparator cmp (fst (last bs)) (fst h)" using b(5) r by simp
  have lh: "less (fst (last bs)) (fst h)" using srt b(1) unfolding es' by (simp add: sorted_wrt_append)
  have vl: "valid (fst (last bs))" "valid (fst h)" using v b(1) unfolding es' by simp_all
  have "less s (fst h)" using sep [OF vl lh] s by simp
  then have "\<not> less (fst h) k" using less_trans [of s "fst h" k] b(2) vl(2) assms(4,5) by blast
  then have e: "e = h" using assms(8) r by simp
  have lk: "less (fst (last bs)) k" using all b(1) by simp
  have cc: "cmp_Compare cmp = ikey_Compare BytewiseComparator" "cmp_FindShortestSeparator cmp = ikey_FindShortestSeparator BytewiseComparator"
    using assms(6) by (simp_all add: InternalKeyComparator_def)
  have "ExtractUserKey k \<noteq> ExtractUserKey (fst h)"
    by (rule bytewise_user.sep_gap) (use lk lh assms(5) s in \<open>simp_all add: cc\<close>)
  then show ?thesis using e by simp
qed

text \<open>The filter works on user keys.\<close>

lemma lookup_answers:
  assumes "table_of f W es ds" and "valid k" and "cache_coherent (opened f new_id W ds) (data_handles ds) cache"
    and "cmp = InternalKeyComparator BytewiseComparator"
    and "\<And>p. to_filter_policy opt = Some p \<Longrightarrow> \<exists>u. p = InternalFilterPolicy u \<and> filter_policy u"
  shows "\<exists>found cache'. InternalGet (opened f new_id W ds) ro cache k = Some (OK, found, cache') \<and>
    cache_coherent (opened f new_id W ds) (data_handles ds) cache' \<and> answers cmp es k found"
proof -
  obtain i found cache' where g: "InternalGet (opened f new_id W ds) ro cache k = Some (OK, found, cache')"
    "cache_coherent (opened f new_id W ds) (data_handles ds) cache'"
    and i: "i \<le> length ds" "\<forall>j < i. less (fst (ds ! j)) k" "i < length ds \<longrightarrow> \<not> less (fst (ds ! i)) k"
    and found: "found = (if i < length ds \<and> \<not> denied W ds i k then find (\<lambda>e. \<not> less (fst e) k) (snd (snd (ds ! i))) else None)"
    using InternalGet_image [OF assms(1-3), of ro] by blast
  note ff = split_at [OF assms(1,2) i(1,2)]
  have "answers cmp es k found"
  proof (cases "i < length ds")
    case False
    then show ?thesis using ff found by (simp add: answers_def)
  next
    case True
    obtain s n bs where d: "ds ! i = (s, n, bs)" by (cases "ds ! i")
    have "block_entries (drop i ds) = bs @ block_entries (drop (Suc i) ds)"
      unfolding Cons_nth_drop_Suc [OF True, symmetric] d by simp
    then have ff': "first_from cmp es k = (case find (\<lambda>e. \<not> less (fst e) k) bs of
        None \<Rightarrow> find (\<lambda>e. \<not> less (fst e) k) (block_entries (drop (Suc i) ds)) | Some x \<Rightarrow> Some x)"
      using ff by (simp only: find_append)
    show ?thesis
    proof (cases "find (\<lambda>e. \<not> less (fst e) k) bs")
      case None
      then have "found = None" using found d by simp
      moreover have "ExtractUserKey (fst e) \<noteq> ExtractUserKey k" if e: "first_from cmp es k = Some e" for e
      proof -
        have "\<not> less s k" using i(3) True d by simp
        moreover have "find (\<lambda>e. \<not> less (fst e) k) (block_entries (drop (Suc i) ds)) = Some e"
          using e unfolding ff' None option.case .
        ultimately show ?thesis by (rule gap_other_user [OF assms(1) True d assms(2) _ assms(4) None])
      qed
      ultimately show ?thesis by (simp add: answers_def)
    next
      case (Some e)
      show ?thesis
      proof (cases "denied W ds i k")
        case False
        then show ?thesis using True Some found d ff' by (simp add: answers_def)
      next
        case den: True
        then obtain p where p: "to_filter_policy opt = Some p"
          "\<not> fr_KeyMayMatch p (new_filter_block_reader (filter_data p ds W)) (word_of_nat n) k"
          using d by (auto simp: denied_def)
        obtain u where u: "p = InternalFilterPolicy u" "filter_policy u" using assms(5) [OF p(1)] by blast
        have fp: "filter_policy p"
          unfolding u(1) by (rule user_filter_policy.internal_policy) (use u(2) in \<open>simp add: user_filter_policy_def\<close>)
        have "e \<in> set bs" using Some by (auto simp: find_Some_iff)
        then have "fr_KeyMayMatch p (new_filter_block_reader (filter_data p ds W)) (word_of_nat n) (fst e)"
          using filter_no_false_negative [OF assms(1) True p(1) fp, of "fst e"] d by simp
        then have "ExtractUserKey (fst e) \<noteq> ExtractUserKey k"
          using p(2) fr_KeyMayMatch_user [of "fst e" k u] unfolding u(1) by auto
        then show ?thesis using den Some found ff' by (simp add: answers_def)
      qed
    qed
  qed
  then show ?thesis using g by blast
qed

lemma lookups_answer:
  assumes "table_of f W es ds" and "\<forall>k \<in> set ks. valid k" and "cache_coherent (opened f new_id W ds) (data_handles ds) cache"
    and "cmp = InternalKeyComparator BytewiseComparator"
    and "\<And>p. to_filter_policy opt = Some p \<Longrightarrow> \<exists>u. p = InternalFilterPolicy u \<and> filter_policy u"
  shows "\<exists>rs. InternalGets (opened f new_id W ds) ro cache ks = Some (map (Pair OK) rs) \<and> list_all2 (answers cmp es) ks rs"
  using assms(2,3)
proof (induction ks arbitrary: cache)
  case (Cons k ks)
  obtain found cache' where g: "InternalGet (opened f new_id W ds) ro cache k = Some (OK, found, cache')"
    "cache_coherent (opened f new_id W ds) (data_handles ds) cache'" "answers cmp es k found"
    using lookup_answers [OF assms(1) _ Cons.prems(2) assms(4,5), of k ro] Cons.prems(1) by auto
  from Cons.IH [OF _ g(2)] Cons.prems(1) obtain rs where
    "InternalGets (opened f new_id W ds) ro cache' ks = Some (map (Pair OK) rs)" "list_all2 (answers cmp es) ks rs" by auto
  then show ?case using g by (intro exI [of _ "found # rs"]) simp
qed simp

text \<open>Offsets of keys in the file.\<close>

lemma ApproximateOffsetOf_image:
  assumes "table_of f W es ds" and "valid k"
  shows "\<exists>i \<le> length ds. (\<forall>j < length ds. j < i \<longleftrightarrow> less (fst (ds ! j)) k) \<and>
    unat (ApproximateOffsetOf (opened f new_id W ds) k) =
      (if i < length ds then fst (snd (ds ! i)) else length (image_filter ds W))"
proof -
  let ?t = "opened f new_id W ds"
  let ?ops = "data_iter_ops cmp"
  let ?it = "it_Seek ?ops (blk_NewIterator (t_index_block ?t)) k"
  let ?i = "length (takeWhile (\<lambda>e. less (fst e) k) (index_entries ds))"
  have opt: "to_comparator (t_options ?t) = cmp" "t_index_block ?t = new_Block (built_block 1 (index_entries ds))"
    "bh_offset (t_metaindex_handle ?t) = word_of_nat (length (image_filter ds W))"
    by (simp_all add: opened_def handle_of_def)
  obtain q where idx: "data_rep (blk_NewIterator (t_index_block ?t)) (index_entries ds) q"
    using index_rep [OF assms(1)] unfolding opt(2) by blast
  note c = data_iter_contract and s = sorted_iterator.Seek_rep [OF data_iter_contract idx assms(2)]
  note V = sorted_iterator.Valid_rep [OF c s]
  have key: "fst (index_entries ds ! j) = fst (ds ! j)" if "j < length ds" for j
    using that by (simp add: index_entry_def split: prod.split)
  have i: "?i \<le> length ds" using length_takeWhile_le [of "\<lambda>e. less (fst e) k" "index_entries ds"] by simp
  have srt: "sorted_entries (index_entries ds)" using index_sorted assms(1) by blast
  have lt: "\<forall>j < length ds. j < ?i \<longleftrightarrow> less (fst (ds ! j)) k"
    using blk.takeWhile_less_iff [OF srt [THEN conjunct1] srt [THEN conjunct2] assms(2)] key by simp
  have small: "length (image_filter ds W) < 2 ^ 64"
  proof -
    have "length (image_filter ds W) \<le> length (ra_data f)"
      using assms(1) by (simp add: table_image_def image_index_def image_meta_def)
    moreover have "length (ra_data f) < 2 ^ 32" using assms(1) unfolding readable_def by blast
    ultimately show ?thesis by simp
  qed
  have "unat (ApproximateOffsetOf ?t k) = (if ?i < length ds then fst (snd (ds ! ?i)) else length (image_filter ds W))"
  proof (cases "?i < length ds")
    case False
    then show ?thesis using V opt small by (simp add: ApproximateOffsetOf_def unat_of_nat take_bit_nat_eq_self)
  next
    case True
    obtain s' n bs where d: "ds ! ?i = (s', n, bs)" by (cases "ds ! ?i")
    have val: "it_value ?ops ?it = snd (index_entries ds ! ?i)"
      using sorted_iterator.value_rep [OF c s] True by simp
    have "snd (index_entries ds ! ?i) = BlockHandle_EncodeTo (handle_of ival n bs) []"
      using True d by (simp add: index_entry_def)
    then have "BlockHandle_DecodeFrom (snd (index_entries ds ! ?i)) = (OK, handle_of ival n bs, [])"
      using BlockHandle_round_trip [of _ "[]"] by simp
    moreover have "n < 2 ^ 64" using block_nth(2) [OF assms(1) True d] by simp
    ultimately show ?thesis using V True d opt val
      by (simp add: ApproximateOffsetOf_def ok_def handle_of_def unat_of_nat take_bit_nat_eq_self)
  qed
  then show ?thesis using i lt by blast
qed

lemma ApproximateOffsetOf_mono:
  assumes "table_of f W es ds" and "valid a" and "valid b" and "cmp_Compare cmp a b \<le> 0"
  shows "ApproximateOffsetOf (opened f new_id W ds) a \<le> ApproximateOffsetOf (opened f new_id W ds) b"
    and "unat (ApproximateOffsetOf (opened f new_id W ds) b) < length (ra_data f)"
proof -
  obtain i where i: "i \<le> length ds" "\<forall>j < length ds. j < i \<longleftrightarrow> less (fst (ds ! j)) a"
    "unat (ApproximateOffsetOf (opened f new_id W ds) a) = (if i < length ds then fst (snd (ds ! i)) else length (image_filter ds W))"
    using ApproximateOffsetOf_image [OF assms(1,2)] by blast
  obtain j where j: "j \<le> length ds" "\<forall>i < length ds. i < j \<longleftrightarrow> less (fst (ds ! i)) b"
    "unat (ApproximateOffsetOf (opened f new_id W ds) b) = (if j < length ds then fst (snd (ds ! j)) else length (image_filter ds W))"
    using ApproximateOffsetOf_image [OF assms(1,3)] by blast
  have v: "valid (fst (ds ! m))" if m: "m < length ds" for m
  proof -
    have "seps ds []" using assms(1) unfolding written_blocks_def by blast
    then show ?thesis using seps_split(2) [OF _ m, of "[]" "fst (ds ! m)" "fst (snd (ds ! m))" "snd (snd (ds ! m))"] by simp
  qed
  have ij: "i \<le> j"
  proof (rule ccontr)
    assume "\<not> i \<le> j"
    then have l: "j < length ds" "j < i" using i(1) by simp_all
    then have "less (fst (ds ! j)) a" "\<not> less (fst (ds ! j)) b" using i(2) j(2) by auto
    then show False using less_le_trans [OF v [OF l(1)] assms(2,3) _ assms(4)] by blast
  qed
  have W: "length W \<le> length (image_filter ds W)" "length (image_filter ds W) < length (ra_data f)"
    using assms(1) length_Footer [of "image_footer ds W"]
    by (simp_all add: image_filter_def table_image_def image_index_def image_meta_def kEncodedLength_def)
  have off: "fst (snd (ds ! m)) < length W" if "m < length ds" for m
    using assms(1) that unfolding written_blocks_def by (auto simp: sorted_wrt_append split_def)
  have "unat (ApproximateOffsetOf (opened f new_id W ds) a) \<le> unat (ApproximateOffsetOf (opened f new_id W ds) b)"
    unfolding i(3) j(3) using off [of i] W(1) offsets_increase(1) [OF assms(1), of i j] ij j(1)
    by (cases "i = j") auto
  then show "ApproximateOffsetOf (opened f new_id W ds) a \<le> ApproximateOffsetOf (opened f new_id W ds) b"
    by (simp add: word_le_nat_alt)
  show "unat (ApproximateOffsetOf (opened f new_id W ds) b) < length (ra_data f)"
    unfolding j(3) using off [of j] W by (auto split: if_splits)
qed

end

lemma table_building_posix:
  assumes "comparator (to_comparator opt) valid" and "1 \<le> to_block_restart_interval opt"
    and "to_compression opt = kNoCompression \<or> to_compression opt = kSnappyCompression"
  shows "table_building opt valid posix_writable_ops posix_content posix_written"
  by (intro table_building.intro table_building_axioms.intro assms posix_wf.writable_file_axioms)

text \<open>The options of a database for its tables: internal keys and filters on user keys.\<close>

definition db_table_options :: "nat \<Rightarrow> bool \<Rightarrow> table_options \<Rightarrow> table_options" where
  "db_table_options n snappy src =
     src\<lparr>to_comparator := InternalKeyComparator BytewiseComparator,
         to_filter_policy := map_option InternalFilterPolicy (to_filter_policy src),
         to_block_restart_interval := Suc n, to_compression := if snappy then kSnappyCompression else kNoCompression\<rparr>"

interpretation db_tables: table_building "db_table_options n snappy src" internal_key posix_writable_ops posix_content posix_written
  for n snappy src
  by (rule table_building_posix) (simp_all add: db_table_options_def bytewise_user.ikey.comparator_axioms)

text \<open>A finished build is a table file.\<close>

lemma finished_table:
  assumes "table_building opt valid wops content written" and "content f0 = []"
    and "sorted_wrt (\<lambda>a b. cmp_Compare (to_comparator opt) (fst a) (fst b) < 0) es" and "\<forall>e \<in> set es. valid (fst e)"
    and "tb_Finish wops (tb_AddAll wops es (new_TableBuilder opt f0)) = (OK, b')"
    and "ra_data f = content (tb_file b')" and "readable f"
  shows "\<exists>W ds. (readable f \<and> ra_data f = table_building.table_image opt ds W \<and> table_building.written_blocks opt valid W es ds) \<and>
    Table_Open opt f (tb_FileSize b') new_id = Some (OK, Some (table_building.opened opt f new_id W ds))"
proof -
  note tb = assms(1)
  note new = table_building.building_new [OF tb assms(2-4)]
  have ok: "tb_ok (tb_AddAll wops es (new_TableBuilder opt f0))"
    using tb_Finish_error [of "tb_AddAll wops es (new_TableBuilder opt f0)" wops] assms(5) by (auto simp: tb_ok_def ok_def)
  obtain W ds pend cur where "table_building.building opt valid content (tb_AddAll wops es (new_TableBuilder opt f0)) W es ds pend cur []"
    using table_building.building_AddAll [OF tb new ok] by blast
  from table_building.tb_Finish_image [OF tb this assms(5)] obtain W ds where
    w: "table_building.written_blocks opt valid W es ds" "content (tb_file b') = table_building.table_image opt ds W"
    "tb_FileSize b' = word_of_nat (length (table_building.table_image opt ds W))" by blast
  have "ra_data f = table_building.table_image opt ds W" using w(2) assms(6) by simp
  from table_building.Table_Open_image [OF tb assms(7) this] w assms(7) this show ?thesis by auto
qed

section \<open>A small table\<close>

definition demo_options :: table_options where
  "demo_options =
     \<lparr>to_comparator = InternalKeyComparator BytewiseComparator, to_paranoid_checks = True, to_block_cache = True,
      to_block_size = 4096, to_block_restart_interval = 16, to_compression = kSnappyCompression, to_filter_policy = None\<rparr>"

definition demo_entry :: "bytes \<times> bytes" where
  "demo_entry = ([5, 1, 7, 0, 0, 0, 0, 0, 0], [10, 11])"

definition demo_file :: posix_writable where
  "demo_file = new_posix_writable [] \<lparr>fd_data = [], fd_answers = [Interrupted, Accepts 4]\<rparr> \<lparr>fd_data = [], fd_answers = []\<rparr>"

definition demo_built :: "posix_writable table_builder" where
  "demo_built = snd (tb_Finish posix_writable_ops (tb_AddAll posix_writable_ops [demo_entry] (new_TableBuilder demo_options demo_file)))"

definition demo_table_file :: random_file where
  "demo_table_file = \<lparr>ra_filename = [], ra_data = posix_content (tb_file demo_built), ra_mmapped = False, ra_fails = (\<lambda>_ _. None)\<rparr>"

lemma demo_Finish:
  "tb_Finish posix_writable_ops (tb_AddAll posix_writable_ops [demo_entry] (new_TableBuilder demo_options demo_file)) = (OK, demo_built)"
proof -
  have "fst (tb_Finish posix_writable_ops (tb_AddAll posix_writable_ops [demo_entry] (new_TableBuilder demo_options demo_file))) = OK"
    by (rule healthy_Finish(1), rule healthy_AddAll) (simp add: new_TableBuilder_def demo_file_def new_posix_writable_def no_failure_def)
  then show ?thesis by (simp add: demo_built_def prod_eq_iff)
qed

lemma demo_building: "table_building demo_options internal_key posix_writable_ops posix_content posix_written"
  by (rule table_building_posix) (simp_all add: demo_options_def bytewise_user.ikey.comparator_axioms)

lemma demo_content: "posix_content demo_file = []"
  by (simp add: demo_file_def posix_content_def new_posix_writable_def)

lemma length_with_trailer: "length (with_trailer d) = length d + 5"
  by (simp add: with_trailer_def kBlockTrailerSize_def)

lemma demo_image_size:
  assumes w: "table_building.written_blocks demo_options internal_key W [demo_entry] ds"
  shows "length (table_building.table_image demo_options ds W) < 2 ^ 32"
proof -
  note tb = demo_building
  note wb = w [unfolded table_building.written_blocks_def [OF tb]]
  have sp: "table_building.seps demo_options internal_key ds []" and es: "[demo_entry] = block_entries ds"
    and W: "blocks_bytes (to_block_restart_interval demo_options) (map (\<lambda>(k, n, es). es) ds) = W" using wb by blast+
  obtain k n bs ds' where ds: "ds = (k, n, bs) # ds'" using es by (cases ds) auto
  have one: "ds' = []" "bs = [demo_entry]"
  proof -
    have ne: "bs' \<noteq> []" if "(k', n', bs') \<in> set ds" for k' n' bs'
      using table_building.seps_split(1) [OF tb sp] that by (metis in_set_conv_nth)
    have "bs \<noteq> []" by (rule ne [of k n]) (simp add: ds)
    then show "bs = [demo_entry]" using es ds by (cases bs) simp_all
    then have "block_entries ds' = []" using es ds by simp
    then show "ds' = []" using ne ds by (cases ds') auto
  qed
  have k: "k = cmp_FindShortSuccessor (to_comparator demo_options) (fst demo_entry)"
    using table_building.seps_split(6) [OF tb sp, of 0 k n bs] ds one by simp
  have lk: "length k = 9"
    by (simp add: k demo_options_def demo_entry_def InternalKeyComparator_def ikey_FindShortSuccessor_def
        BytewiseComparator_def ExtractUserKey_def Let_def)
  have b: "length (built_block i es) \<le> 8 + (\<Sum>(k, v) \<leftarrow> es. length k + length v + 19)" for i es
    unfolding built_block_def by (rule length_built)
  have lW: "length W \<le> 43" unfolding W [symmetric] ds one
    using b [of "to_block_restart_interval demo_options" "[demo_entry]"] by (simp add: length_with_trailer demo_entry_def)
  have None: "to_filter_policy demo_options = None" by (simp add: demo_options_def)
  have "length (BlockHandle_EncodeTo (handle_of (to_block_restart_interval demo_options) n [demo_entry]) []) \<le> 20"
    using length_BlockHandle [of "handle_of (to_block_restart_interval demo_options) n [demo_entry]"] by (simp add: kMaxEncodedLength_def)
  then show ?thesis
    using lW b [of "to_block_restart_interval demo_options" "[]"]
      b [of 1 "map (index_entry (to_block_restart_interval demo_options)) ds"] lk length_Footer
    unfolding table_building.table_image_def [OF tb] table_building.image_index_def [OF tb]
      table_building.image_meta_def [OF tb] table_building.image_filter_def [OF tb] table_building.meta_entries_def [OF tb]
    by (simp add: None length_with_trailer ds one index_entry_def kEncodedLength_def kMaxEncodedLength_def)
qed

lemma demo_readable: "readable demo_table_file"
proof -
  note tb = demo_building
  have v: "\<forall>e \<in> set [demo_entry]. internal_key (fst e)" by (simp add: demo_entry_def)
  note new = table_building.building_new [OF tb demo_content _ v, simplified]
  have ok: "tb_ok (tb_AddAll posix_writable_ops [demo_entry] (new_TableBuilder demo_options demo_file))"
    using healthy_AddAll [where d = "pw_dirfd demo_file" and b = "new_TableBuilder demo_options demo_file" and es = "[demo_entry]"]
    by (simp add: tb_ok_def ok_def new_TableBuilder_def demo_file_def new_posix_writable_def no_failure_def)
  obtain W ds where w: "table_building.written_blocks demo_options internal_key W [demo_entry] ds"
    "posix_content (tb_file demo_built) = table_building.table_image demo_options ds W"
    using table_building.building_AddAll [OF tb new ok] table_building.tb_Finish_image [OF tb _ demo_Finish] by blast
  then have "length (posix_content (tb_file demo_built)) < 2 ^ 32" using demo_image_size by simp
  then show ?thesis by (simp add: readable_def demo_table_file_def)
qed

section \<open>Properties\<close>

text \<open>
  C12: What a table builder was given comes back: when adding sorted entries and finishing succeeded, the
  file opens as a table, and the table's iterator gives all entries forwards, all entries backwards, and
  from any key on the entries at or after it. For every comparator that keeps its contract, block size,
  restart interval and filter policy.
\<close>

theorem table_round_trip:
  assumes "comparator (to_comparator opt) valid" and "1 \<le> to_block_restart_interval opt"
    and "to_compression opt = kNoCompression \<or> to_compression opt = kSnappyCompression"
    and "posix_content f0 = []"
    and "sorted_wrt (\<lambda>a b. cmp_Compare (to_comparator opt) (fst a) (fst b) < 0) es" and "\<forall>e \<in> set es. valid (fst e)"
    and "tb_Finish posix_writable_ops (tb_AddAll posix_writable_ops es (new_TableBuilder opt f0)) = (OK, b')"
    and "ra_data f = posix_content (tb_file b')" and "readable f"
  shows "\<exists>t. Table_Open opt f (tb_FileSize b') new_id = Some (OK, Some t) \<and>
    (let ops = table_iter_ops t ro (\<lambda>_. None); i = Table_NewIterator t
     in it_collect ops (length es) (it_SeekToFirst ops i) = es \<and>
        it_collect_back ops (length es) (it_SeekToLast ops i) = rev es \<and>
        (\<forall>k. valid k \<longrightarrow> it_collect ops (length es) (it_Seek ops i k) =
           filter (\<lambda>e. \<not> cmp_Compare (to_comparator opt) (fst e) k < 0) es))"
proof -
  note tb = table_building_posix [OF assms(1-3)]
  obtain W ds where t: "readable f \<and> ra_data f = table_building.table_image opt ds W \<and> table_building.written_blocks opt valid W es ds"
    and o: "Table_Open opt f (tb_FileSize b') new_id = Some (OK, Some (table_building.opened opt f new_id W ds))"
    using finished_table [OF tb assms(4-9)] by blast
  have "cache_coherent (table_building.opened opt f new_id W ds) (table_building.data_handles opt ds) (\<lambda>_. None)"
    by (simp add: cache_coherent_def)
  from table_building.table_iterator [OF tb t this, of ro] obtain rep where
    c: "sorted_iterator (cmp_Compare (to_comparator opt)) valid (table_iter_ops (table_building.opened opt f new_id W ds) ro (\<lambda>_. None)) rep"
    and r: "rep (Table_NewIterator (table_building.opened opt f new_id W ds)) es (length es)" by blast
  show ?thesis
    using o sorted_iterator.collect_all [OF c r] sorted_iterator.collect_all_back [OF c r]
      sorted_iterator.collect_from [OF c r] sorted_iterator.dropWhile_filter [OF c r]
    by (intro exI [of _ "table_building.opened opt f new_id W ds"]) (simp add: Let_def)
qed

theorem table_round_trip_witness:
  "\<exists>t. Table_Open demo_options demo_table_file (tb_FileSize demo_built) 7 = Some (OK, Some t) \<and>
    it_collect (table_iter_ops t \<lparr>ro_verify_checksums = True, ro_fill_cache = True\<rparr> (\<lambda>_. None)) 1
      (it_SeekToFirst (table_iter_ops t \<lparr>ro_verify_checksums = True, ro_fill_cache = True\<rparr> (\<lambda>_. None)) (Table_NewIterator t)) =
    [demo_entry]"
proof -
  have "comparator (to_comparator demo_options) internal_key" "1 \<le> to_block_restart_interval demo_options"
    "to_compression demo_options = kNoCompression \<or> to_compression demo_options = kSnappyCompression"
    by (simp_all add: demo_options_def bytewise_user.ikey.comparator_axioms)
  note c = this
  have s: "sorted_wrt (\<lambda>a b. cmp_Compare (to_comparator demo_options) (fst a) (fst b) < 0) [demo_entry]" by simp
  have v: "\<forall>e \<in> set [demo_entry]. internal_key (fst e)" by (simp add: demo_entry_def)
  have f: "ra_data demo_table_file = posix_content (tb_file demo_built)" by (simp add: demo_table_file_def)
  have "length [demo_entry] = 1" by simp
  then show ?thesis
    using table_round_trip [OF c demo_content s v demo_Finish f demo_readable,
      of 7 "\<lparr>ro_verify_checksums = True, ro_fill_cache = True\<rparr>"] unfolding Let_def by metis
qed

text \<open>
  C13: Point lookups in a table of internal keys are right: for every sequence of lookup keys, threaded
  through a block cache that starts empty and is filled or not, each lookup succeeds, what it finds is the
  first entry at or after the lookup key, and it finds nothing only when no entry of that user key is at or
  after the lookup key. This covers the gap between a block and its shortened separator, and filters that
  say no.
\<close>

theorem table_lookups:
  assumes "1 \<le> to_block_restart_interval opt"
    and "to_compression opt = kNoCompression \<or> to_compression opt = kSnappyCompression"
    and "to_comparator opt = InternalKeyComparator BytewiseComparator"
    and "\<And>p. to_filter_policy opt = Some p \<Longrightarrow> \<exists>u. p = InternalFilterPolicy u \<and> filter_policy u"
    and "posix_content f0 = []"
    and "sorted_wrt (\<lambda>a b. cmp_Compare (to_comparator opt) (fst a) (fst b) < 0) es" and "\<forall>e \<in> set es. internal_key (fst e)"
    and "tb_Finish posix_writable_ops (tb_AddAll posix_writable_ops es (new_TableBuilder opt f0)) = (OK, b')"
    and "ra_data f = posix_content (tb_file b')" and "readable f" and "\<forall>k \<in> set ks. internal_key k"
  shows "\<exists>t rs. Table_Open opt f (tb_FileSize b') new_id = Some (OK, Some t) \<and>
    InternalGets t ro (\<lambda>_. None) ks = Some (map (Pair OK) rs) \<and>
    list_all2 (answers (to_comparator opt) es) ks rs"
proof -
  have "comparator (to_comparator opt) internal_key" unfolding assms(3) by (rule bytewise_user.ikey.comparator_axioms)
  note tb = table_building_posix [OF this assms(1,2)]
  obtain W ds where t: "readable f \<and> ra_data f = table_building.table_image opt ds W \<and> table_building.written_blocks opt internal_key W es ds"
    and o: "Table_Open opt f (tb_FileSize b') new_id = Some (OK, Some (table_building.opened opt f new_id W ds))"
    using finished_table [OF tb assms(5-10)] by blast
  have "cache_coherent (table_building.opened opt f new_id W ds) (table_building.data_handles opt ds) (\<lambda>_. None)"
    by (simp add: cache_coherent_def)
  from table_building.lookups_answer [OF tb t assms(11) this assms(3,4)] o show ?thesis by blast
qed

theorem table_lookups_witness:
  "\<exists>t rs. Table_Open demo_options demo_table_file (tb_FileSize demo_built) 7 = Some (OK, Some t) \<and>
    InternalGets t \<lparr>ro_verify_checksums = True, ro_fill_cache = True\<rparr> (\<lambda>_. None) [[5, 1, 8, 0, 0, 0, 0, 0, 0], [6, 1, 8, 0, 0, 0, 0, 0, 0]] =
      Some [(OK, Some demo_entry), (OK, None)]"
proof -
  have o: "1 \<le> to_block_restart_interval demo_options"
    "to_compression demo_options = kNoCompression \<or> to_compression demo_options = kSnappyCompression"
    "to_comparator demo_options = InternalKeyComparator BytewiseComparator"
    "to_filter_policy demo_options = Some p \<Longrightarrow> \<exists>u. p = InternalFilterPolicy u \<and> filter_policy u" for p
    by (simp_all add: demo_options_def)
  have s: "sorted_wrt (\<lambda>a b. cmp_Compare (to_comparator demo_options) (fst a) (fst b) < 0) [demo_entry]" by simp
  have v: "\<forall>e \<in> set [demo_entry]. internal_key (fst e)" by (simp add: demo_entry_def)
  have f: "ra_data demo_table_file = posix_content (tb_file demo_built)" by (simp add: demo_table_file_def)
  let ?ks = "[[5, 1, 8, 0, 0, 0, 0, 0, 0], [6, 1, 8, 0, 0, 0, 0, 0, 0]] :: bytes list"
  have ks: "\<forall>k \<in> set ?ks. internal_key k" by simp
  from table_lookups [OF o demo_content s v demo_Finish f demo_readable ks,
      of 7 "\<lparr>ro_verify_checksums = True, ro_fill_cache = True\<rparr>"] obtain t rs where
    t: "Table_Open demo_options demo_table_file (tb_FileSize demo_built) 7 = Some (OK, Some t)"
    and g: "InternalGets t \<lparr>ro_verify_checksums = True, ro_fill_cache = True\<rparr> (\<lambda>_. None) ?ks = Some (map (Pair OK) rs)"
    and r: "list_all2 (answers (to_comparator demo_options) [demo_entry]) ?ks rs" by blast
  obtain a b where rs: "rs = [a, b]" "answers (to_comparator demo_options) [demo_entry] (?ks ! 0) a"
    "answers (to_comparator demo_options) [demo_entry] (?ks ! 1) b"
    using r by (auto simp: list_all2_Cons1)
  have tags: "key_tag [5, 1, 7, 0, 0, 0, 0, 0, 0] = 0x701" "key_tag [5, 1, 8, 0, 0, 0, 0, 0, 0] = 0x801"
    "key_tag [6, 1, 8, 0, 0, 0, 0, 0, 0] = 0x801"
    by (simp_all add: key_tag_def DecodeFixed64_def)
  have ff: "first_from (to_comparator demo_options) [demo_entry] (?ks ! 0) = Some demo_entry"
    "first_from (to_comparator demo_options) [demo_entry] (?ks ! 1) = None"
    by (simp_all add: first_from_def demo_options_def demo_entry_def InternalKeyComparator_def ikey_Compare_def
        BytewiseComparator_def ExtractUserKey_def slice_compare_def Let_def tags)
  have "a = Some demo_entry"
    using rs(2) ff(1) by (auto simp: answers_def demo_entry_def ExtractUserKey_def split: option.splits)
  moreover have "b = None" using rs(3) ff(2) by (auto simp: answers_def split: option.splits)
  ultimately show ?thesis using t g rs(1) by auto
qed

text \<open>
  The approximate offset of a key in a table is inside the file and grows with the key.
\<close>

theorem approximate_offsets:
  assumes "comparator (to_comparator opt) valid" and "1 \<le> to_block_restart_interval opt"
    and "to_compression opt = kNoCompression \<or> to_compression opt = kSnappyCompression"
    and "posix_content f0 = []"
    and "sorted_wrt (\<lambda>a b. cmp_Compare (to_comparator opt) (fst a) (fst b) < 0) es" and "\<forall>e \<in> set es. valid (fst e)"
    and "tb_Finish posix_writable_ops (tb_AddAll posix_writable_ops es (new_TableBuilder opt f0)) = (OK, b')"
    and "ra_data f = posix_content (tb_file b')" and "readable f"
    and "valid k" and "valid k'" and "cmp_Compare (to_comparator opt) k k' \<le> 0"
  shows "\<exists>t. Table_Open opt f (tb_FileSize b') new_id = Some (OK, Some t) \<and>
    ApproximateOffsetOf t k \<le> ApproximateOffsetOf t k' \<and> unat (ApproximateOffsetOf t k') < length (ra_data f)"
proof -
  note tb = table_building_posix [OF assms(1-3)]
  obtain W ds where t: "readable f \<and> ra_data f = table_building.table_image opt ds W \<and> table_building.written_blocks opt valid W es ds"
    and o: "Table_Open opt f (tb_FileSize b') new_id = Some (OK, Some (table_building.opened opt f new_id W ds))"
    using finished_table [OF tb assms(4-9)] by blast
  show ?thesis
    using o table_building.ApproximateOffsetOf_mono [OF tb t assms(10-12)] by blast
qed

theorem approximate_offsets_witness:
  "\<exists>t. Table_Open demo_options demo_table_file (tb_FileSize demo_built) 7 = Some (OK, Some t) \<and>
    ApproximateOffsetOf t [5, 1, 8, 0, 0, 0, 0, 0, 0] \<le> ApproximateOffsetOf t [6, 1, 8, 0, 0, 0, 0, 0, 0]"
proof -
  have "comparator (to_comparator demo_options) internal_key" "1 \<le> to_block_restart_interval demo_options"
    "to_compression demo_options = kNoCompression \<or> to_compression demo_options = kSnappyCompression"
    by (simp_all add: demo_options_def bytewise_user.ikey.comparator_axioms)
  note c = this
  have s: "sorted_wrt (\<lambda>a b. cmp_Compare (to_comparator demo_options) (fst a) (fst b) < 0) [demo_entry]" by simp
  have v: "\<forall>e \<in> set [demo_entry]. internal_key (fst e)" by (simp add: demo_entry_def)
  have f: "ra_data demo_table_file = posix_content (tb_file demo_built)" by (simp add: demo_table_file_def)
  have k: "internal_key [5, 1, 8, 0, 0, 0, 0, 0, 0]" "internal_key [6, 1, 8, 0, 0, 0, 0, 0, 0]" by simp_all
  have "cmp_Compare (to_comparator demo_options) [5, 1, 8, 0, 0, 0, 0, 0, 0] [6, 1, 8, 0, 0, 0, 0, 0, 0] \<le> 0"
    by (simp add: demo_options_def InternalKeyComparator_def ikey_Compare_def BytewiseComparator_def slice_compare_def
        ExtractUserKey_def Let_def)
  from approximate_offsets [OF c demo_content s v demo_Finish f demo_readable k this] show ?thesis by blast
qed

end
