(* ===== verification/FileRange.thy ===== *)
theory FileRange
  imports DbFormat VersionEdit
begin

text \<open>
  Ranges of table files, the first part of \<^verbatim>\<open>db/version_set.cc\<close>: searching a sorted level, files that
  overlap a range of user keys, and the files a compaction must take along. Null pointers to keys are
  \<open>None\<close>. Loops that end only for a proper order are partial functions; asserts are not modelled.
\<close>

section \<open>Searching\<close>

abbreviation f_start :: "file_meta \<Rightarrow> bytes" where "f_start f \<equiv> ExtractUserKey (fm_smallest f)"
abbreviation f_limit :: "file_meta \<Rightarrow> bytes" where "f_limit f \<equiv> ExtractUserKey (fm_largest f)"

function FindFile_loop :: "comparator \<Rightarrow> file_meta list \<Rightarrow> bytes \<Rightarrow> nat \<Rightarrow> nat \<Rightarrow> nat" where
  "FindFile_loop user files key left right =
     (if left < right then
        let mid = (left + right) div 2
        in if ikey_Compare user (fm_largest (files ! mid)) key < 0 then FindFile_loop user files key (mid + 1) right
           else FindFile_loop user files key left mid
      else right)"
  by pat_completeness auto
termination by (relation "measure (\<lambda>(user, files, key, left, right). right - left)") auto

declare FindFile_loop.simps [simp del]

definition FindFile :: "comparator \<Rightarrow> file_meta list \<Rightarrow> bytes \<Rightarrow> nat" where
  "FindFile user files key = FindFile_loop user files key 0 (length files)"

definition AfterFile :: "comparator \<Rightarrow> bytes option \<Rightarrow> file_meta \<Rightarrow> bool" where
  "AfterFile user user_key f = (case user_key of None \<Rightarrow> False | Some k \<Rightarrow> cmp_Compare user k (f_limit f) > 0)"

definition BeforeFile :: "comparator \<Rightarrow> bytes option \<Rightarrow> file_meta \<Rightarrow> bool" where
  "BeforeFile user user_key f = (case user_key of None \<Rightarrow> False | Some k \<Rightarrow> cmp_Compare user k (f_start f) < 0)"

definition SomeFileOverlapsRange :: "comparator \<Rightarrow> bool \<Rightarrow> file_meta list \<Rightarrow> bytes option \<Rightarrow> bytes option \<Rightarrow> bool" where
  "SomeFileOverlapsRange user disjoint_sorted_files files smallest_user_key largest_user_key =
     (if \<not> disjoint_sorted_files
      then list_ex (\<lambda>f. \<not> (AfterFile user smallest_user_key f \<or> BeforeFile user largest_user_key f)) files
      else
        let index = (case smallest_user_key of
                       None \<Rightarrow> 0
                     | Some k \<Rightarrow> FindFile user files (InternalKey k kMaxSequenceNumber kValueTypeForSeek))
        in if index \<ge> length files then False else \<not> BeforeFile user largest_user_key (files ! index))"

section \<open>Overlapping inputs\<close>

partial_function (option) GetOverlappingInputs_loop ::
  "comparator \<Rightarrow> nat \<Rightarrow> file_meta list \<Rightarrow> bytes option \<Rightarrow> bytes option \<Rightarrow> nat \<Rightarrow> file_meta list \<Rightarrow> file_meta list option" where
  "GetOverlappingInputs_loop user level files user_begin user_end i inputs =
     (if i < length files then
        let f = files ! i in
        if (case user_begin of None \<Rightarrow> False | Some b \<Rightarrow> cmp_Compare user (f_limit f) b < 0)
        then GetOverlappingInputs_loop user level files user_begin user_end (i + 1) inputs
        else if (case user_end of None \<Rightarrow> False | Some e \<Rightarrow> cmp_Compare user (f_start f) e > 0)
        then GetOverlappingInputs_loop user level files user_begin user_end (i + 1) inputs
        else if level = 0 \<and> (case user_begin of None \<Rightarrow> False | Some b \<Rightarrow> cmp_Compare user (f_start f) b < 0)
        then GetOverlappingInputs_loop user level files (Some (f_start f)) user_end 0 []
        else if level = 0 \<and> (case user_end of None \<Rightarrow> False | Some e \<Rightarrow> cmp_Compare user (f_limit f) e > 0)
        then GetOverlappingInputs_loop user level files user_begin (Some (f_limit f)) 0 []
        else GetOverlappingInputs_loop user level files user_begin user_end (i + 1) (inputs @ [f])
      else Some inputs)"

definition GetOverlappingInputs ::
  "comparator \<Rightarrow> file_meta list list \<Rightarrow> nat \<Rightarrow> bytes option \<Rightarrow> bytes option \<Rightarrow> file_meta list option" where
  "GetOverlappingInputs user files level bgn fin =
     GetOverlappingInputs_loop user level (files ! level) (map_option ExtractUserKey bgn) (map_option ExtractUserKey fin) 0 []"

section \<open>Sizes\<close>

definition TotalFileSize :: "file_meta list \<Rightarrow> int" where
  "TotalFileSize files = sum_list (map (\<lambda>f. uint (fm_file_size f)) files)"

definition TargetFileSize :: "nat \<Rightarrow> int" where "TargetFileSize max_file_size = int max_file_size"
definition MaxGrandParentOverlapBytes :: "nat \<Rightarrow> int" where
  "MaxGrandParentOverlapBytes max_file_size = 10 * TargetFileSize max_file_size"
definition ExpandedCompactionByteSizeLimit :: "nat \<Rightarrow> int" where
  "ExpandedCompactionByteSizeLimit max_file_size = 25 * TargetFileSize max_file_size"
definition MaxFileSizeForLevel :: "nat \<Rightarrow> nat \<Rightarrow> int" where
  "MaxFileSizeForLevel max_file_size level = TargetFileSize max_file_size"

fun MaxBytesForLevel_loop :: "int \<Rightarrow> nat \<Rightarrow> int" where
  "MaxBytesForLevel_loop result level = (if level > 1 then MaxBytesForLevel_loop (result * 10) (level - 1) else result)"

declare MaxBytesForLevel_loop.simps [simp del]

definition MaxBytesForLevel :: "nat \<Rightarrow> int" where
  "MaxBytesForLevel level = MaxBytesForLevel_loop (10 * 1048576) level"

section \<open>Ranges and boundary files\<close>

definition GetRange :: "comparator \<Rightarrow> file_meta list \<Rightarrow> bytes \<times> bytes" where
  "GetRange user inputs =
     (case inputs of
        [] \<Rightarrow> ([], [])
      | f0 # fs \<Rightarrow>
          fold (\<lambda>f (smallest, largest).
                  (if ikey_Compare user (fm_smallest f) smallest < 0 then fm_smallest f else smallest,
                   if ikey_Compare user (fm_largest f) largest > 0 then fm_largest f else largest))
            fs (fm_smallest f0, fm_largest f0))"

definition GetRange2 :: "comparator \<Rightarrow> file_meta list \<Rightarrow> file_meta list \<Rightarrow> bytes \<times> bytes" where
  "GetRange2 user inputs1 inputs2 = GetRange user (inputs1 @ inputs2)"

definition FindLargestKey :: "comparator \<Rightarrow> file_meta list \<Rightarrow> bytes option" where
  "FindLargestKey user files =
     (case files of
        [] \<Rightarrow> None
      | f0 # fs \<Rightarrow> Some (fold (\<lambda>f largest_key. if ikey_Compare user (fm_largest f) largest_key > 0 then fm_largest f else largest_key)
                         fs (fm_largest f0)))"

definition FindSmallestBoundaryFile :: "comparator \<Rightarrow> file_meta list \<Rightarrow> bytes \<Rightarrow> file_meta option" where
  "FindSmallestBoundaryFile user level_files largest_key =
     fold (\<lambda>f smallest_boundary_file.
             if ikey_Compare user (fm_smallest f) largest_key > 0 \<and>
                cmp_Compare user (f_start f) (ExtractUserKey largest_key) = 0 \<and>
                (case smallest_boundary_file of None \<Rightarrow> True
                 | Some g \<Rightarrow> ikey_Compare user (fm_smallest f) (fm_smallest g) < 0)
             then Some f else smallest_boundary_file)
       level_files None"

partial_function (option) AddBoundaryInputs_loop ::
  "comparator \<Rightarrow> file_meta list \<Rightarrow> bytes \<Rightarrow> file_meta list \<Rightarrow> file_meta list option" where
  "AddBoundaryInputs_loop user level_files largest_key compaction_files =
     (case FindSmallestBoundaryFile user level_files largest_key of
        Some f \<Rightarrow> AddBoundaryInputs_loop user level_files (fm_largest f) (compaction_files @ [f])
      | None \<Rightarrow> Some compaction_files)"

definition AddBoundaryInputs :: "comparator \<Rightarrow> file_meta list \<Rightarrow> file_meta list \<Rightarrow> file_meta list option" where
  "AddBoundaryInputs user level_files compaction_files =
     (case FindLargestKey user compaction_files of
        None \<Rightarrow> Some compaction_files
      | Some largest_key \<Rightarrow> AddBoundaryInputs_loop user level_files largest_key compaction_files)"

section \<open>Where a memtable goes\<close>

definition OverlapInLevel :: "comparator \<Rightarrow> file_meta list list \<Rightarrow> nat \<Rightarrow> bytes option \<Rightarrow> bytes option \<Rightarrow> bool" where
  "OverlapInLevel user files level smallest_user_key largest_user_key =
     SomeFileOverlapsRange user (level > 0) (files ! level) smallest_user_key largest_user_key"

function PickLevel_loop :: "comparator \<Rightarrow> nat \<Rightarrow> file_meta list list \<Rightarrow> bytes \<Rightarrow> bytes \<Rightarrow> nat \<Rightarrow> nat option" where
  "PickLevel_loop user max_file_size files smallest_user_key largest_user_key level =
     (if level < kMaxMemCompactLevel then
        if OverlapInLevel user files (level + 1) (Some smallest_user_key) (Some largest_user_key) then Some level
        else if level + 2 < kNumLevels then
          (case GetOverlappingInputs user files (level + 2)
                  (Some (InternalKey smallest_user_key kMaxSequenceNumber kValueTypeForSeek))
                  (Some (InternalKey largest_user_key 0 kTypeDeletion)) of
             None \<Rightarrow> None
           | Some overlaps \<Rightarrow>
               if TotalFileSize overlaps > MaxGrandParentOverlapBytes max_file_size then Some level
               else PickLevel_loop user max_file_size files smallest_user_key largest_user_key (level + 1))
        else PickLevel_loop user max_file_size files smallest_user_key largest_user_key (level + 1)
      else Some level)"
  by pat_completeness auto
termination by (relation "measure (\<lambda>(user, m, files, s, l, level). kMaxMemCompactLevel - level)") auto

declare PickLevel_loop.simps [simp del]

definition PickLevelForMemTableOutput :: "comparator \<Rightarrow> nat \<Rightarrow> file_meta list list \<Rightarrow> bytes \<Rightarrow> bytes \<Rightarrow> nat option" where
  "PickLevelForMemTableOutput user max_file_size files smallest_user_key largest_user_key =
     (if \<not> OverlapInLevel user files 0 (Some smallest_user_key) (Some largest_user_key)
      then PickLevel_loop user max_file_size files smallest_user_key largest_user_key 0 else Some 0)"

section \<open>The order of internal keys\<close>

sublocale user_comparator \<subseteq> ik: key_order "ikey_Compare cmp" "\<lambda>_. True"
  by unfold_locales (rule ikey_swap, rule ikey_trans)

context user_comparator
begin

text \<open>The order, without the validity every key has here.\<close>

lemma user_trans: "cmp_Compare cmp a b \<le> 0 \<Longrightarrow> cmp_Compare cmp b c \<le> 0 \<Longrightarrow> cmp_Compare cmp a c \<le> 0"
  by (rule trans [of a b c]) simp_all

lemma user_le_less: "cmp_Compare cmp a b \<le> 0 \<Longrightarrow> less b c \<Longrightarrow> less a c"
  by (rule le_less_trans [of a b c]) simp_all

lemma user_less_le: "less a b \<Longrightarrow> cmp_Compare cmp b c \<le> 0 \<Longrightarrow> less a c"
  by (rule less_le_trans [of a b c]) simp_all

lemma user_antisym: "cmp_Compare cmp a b \<le> 0 \<Longrightarrow> cmp_Compare cmp b a \<le> 0 \<Longrightarrow> cmp_Compare cmp a b = 0"
  using compare_ge [of a b] by simp

lemma ik_trans: "ikey_Compare cmp a b < 0 \<Longrightarrow> ikey_Compare cmp b c < 0 \<Longrightarrow> ikey_Compare cmp a c < 0"
  by (rule ik.less_trans [of a b c]) simp_all

lemma ik_le_less: "ikey_Compare cmp a b \<le> 0 \<Longrightarrow> ikey_Compare cmp b c < 0 \<Longrightarrow> ikey_Compare cmp a c < 0"
  by (rule ik.le_less_trans [of a b c]) simp_all

lemma ik_less_le: "ikey_Compare cmp a b < 0 \<Longrightarrow> ikey_Compare cmp b c \<le> 0 \<Longrightarrow> ikey_Compare cmp a c < 0"
  by (rule ik.less_le_trans [of a b c]) simp_all

lemma ik_irrefl: "\<not> ikey_Compare cmp a a < 0"
  by (rule ik.less_irrefl) simp

lemma ikey_less_user: "ikey_Compare cmp a b < 0 \<Longrightarrow> cmp_Compare cmp (ExtractUserKey a) (ExtractUserKey b) \<le> 0"
  by (auto simp: ikey_Compare_less)

lemma ikey_le_user: "ikey_Compare cmp a b \<le> 0 \<Longrightarrow> cmp_Compare cmp (ExtractUserKey a) (ExtractUserKey b) \<le> 0"
  by (auto simp: ikey_Compare_le)

text \<open>Files with their keys in order, and the disjoint sorted files of a level.\<close>

definition file_wf :: "file_meta \<Rightarrow> bool" where
  "file_wf f \<longleftrightarrow> ikey_Compare cmp (fm_smallest f) (fm_largest f) \<le> 0 \<and>
     key_tag (fm_largest f) \<le> PackSequenceAndType kMaxSequenceNumber kValueTypeForSeek"

definition level_sorted :: "file_meta list \<Rightarrow> bool" where
  "level_sorted files \<longleftrightarrow>
     sorted_wrt (\<lambda>f g. ikey_Compare cmp (fm_largest f) (fm_smallest g) < 0) files \<and> (\<forall>f \<in> set files. file_wf f)"

lemma level_sorted_largest:
  assumes "level_sorted files"
  shows "sorted_wrt (\<lambda>f g. ikey_Compare cmp (fm_largest f) (fm_largest g) < 0) files"
  using assms ik.less_le_trans unfolding level_sorted_def file_wf_def
  by (fastforce elim: sorted_wrt_mono_rel [rotated])

lemma FindFile_loop_bounds:
  assumes "left \<le> right" and "right \<le> length files"
    and "sorted_wrt (\<lambda>f g. ikey_Compare cmp (fm_largest f) (fm_largest g) < 0) files"
    and "\<forall>i < left. ikey_Compare cmp (fm_largest (files ! i)) key < 0"
    and "\<forall>i. right \<le> i \<longrightarrow> i < length files \<longrightarrow> \<not> ikey_Compare cmp (fm_largest (files ! i)) key < 0"
  shows "FindFile_loop cmp files key left right \<le> length files \<and>
    (\<forall>i < FindFile_loop cmp files key left right. ikey_Compare cmp (fm_largest (files ! i)) key < 0) \<and>
    (\<forall>i. FindFile_loop cmp files key left right \<le> i \<longrightarrow> i < length files \<longrightarrow>
       \<not> ikey_Compare cmp (fm_largest (files ! i)) key < 0)"
  using assms
proof (induction "right - left" arbitrary: left right rule: less_induct)
  case less
  let ?P = "\<lambda>i. ikey_Compare cmp (fm_largest (files ! i)) key < 0"
  show ?case
  proof (cases "left < right")
    case False
    then have "FindFile_loop cmp files key left right = right" by (simp add: FindFile_loop.simps)
    then show ?thesis using less.prems False by simp
  next
    case True
    let ?mid = "(left + right) div 2"
    have mid: "left \<le> ?mid" "?mid < right" "?mid < length files" using True less.prems(2) by linarith+
    note srt = less.prems(3)
    show ?thesis
    proof (cases "?P ?mid")
      case below: True
      have "?P i" if "i < ?mid + 1" for i
      proof (cases "i = ?mid")
        case False
        then have "ikey_Compare cmp (fm_largest (files ! i)) (fm_largest (files ! ?mid)) < 0"
          using sorted_wrt_nth_less [OF srt, of i ?mid] that mid(3) by simp
        then show ?thesis using ik.less_trans below by blast
      qed (use below in simp)
      then have lt: "\<forall>i < ?mid + 1. ?P i" by blast
      have eq: "FindFile_loop cmp files key left right = FindFile_loop cmp files key (?mid + 1) right"
        using True below by (subst FindFile_loop.simps) (simp add: Let_def)
      show ?thesis unfolding eq by (rule less.hyps [OF _ _ less.prems(2) srt lt less.prems(5)]) (use mid True in linarith)+
    next
      case above: False
      have "\<not> ?P i" if "?mid \<le> i" "i < length files" for i
      proof (cases "i = ?mid")
        case False
        then have "ikey_Compare cmp (fm_largest (files ! ?mid)) (fm_largest (files ! i)) < 0"
          using sorted_wrt_nth_less [OF srt, of ?mid i] that by simp
        then show ?thesis using ik.less_trans above by blast
      qed (use above in simp)
      then have ge: "\<forall>i. ?mid \<le> i \<longrightarrow> i < length files \<longrightarrow> \<not> ?P i" by blast
      have eq: "FindFile_loop cmp files key left right = FindFile_loop cmp files key left ?mid"
        using True above by (subst FindFile_loop.simps) (simp add: Let_def)
      show ?thesis unfolding eq by (rule less.hyps [OF _ mid(1) _ srt less.prems(4) ge]) (use mid True in linarith)+
    qed
  qed
qed

lemma FindFile_spec:
  assumes "level_sorted files"
  shows "FindFile cmp files key \<le> length files"
    and "i < FindFile cmp files key \<Longrightarrow> ikey_Compare cmp (fm_largest (files ! i)) key < 0"
    and "FindFile cmp files key \<le> i \<Longrightarrow> i < length files \<Longrightarrow> \<not> ikey_Compare cmp (fm_largest (files ! i)) key < 0"
proof -
  have "FindFile cmp files key \<le> length files \<and>
    (\<forall>i < FindFile cmp files key. ikey_Compare cmp (fm_largest (files ! i)) key < 0) \<and>
    (\<forall>i. FindFile cmp files key \<le> i \<longrightarrow> i < length files \<longrightarrow> \<not> ikey_Compare cmp (fm_largest (files ! i)) key < 0)"
    unfolding FindFile_def by (rule FindFile_loop_bounds [OF _ _ level_sorted_largest [OF assms]]) simp_all
  then show "FindFile cmp files key \<le> length files"
    "i < FindFile cmp files key \<Longrightarrow> ikey_Compare cmp (fm_largest (files ! i)) key < 0"
    "FindFile cmp files key \<le> i \<Longrightarrow> i < length files \<Longrightarrow> \<not> ikey_Compare cmp (fm_largest (files ! i)) key < 0"
    by blast+
qed

text \<open>The range of user keys of a file against a range of user keys.\<close>

definition before_range :: "file_meta \<Rightarrow> bytes option \<Rightarrow> bool" where
  "before_range f bgn \<longleftrightarrow> (\<exists>b. bgn = Some b \<and> less (f_limit f) b)"

definition after_range :: "file_meta \<Rightarrow> bytes option \<Rightarrow> bool" where
  "after_range f fin \<longleftrightarrow> (\<exists>e. fin = Some e \<and> less e (f_start f))"

definition overlaps :: "bytes option \<Rightarrow> bytes option \<Rightarrow> file_meta \<Rightarrow> bool" where
  "overlaps bgn fin f \<longleftrightarrow> \<not> before_range f bgn \<and> \<not> after_range f fin"

lemma AfterFile_range: "AfterFile cmp k f \<longleftrightarrow> before_range f k"
  using compare_gt by (auto simp: AfterFile_def before_range_def split: option.splits)

lemma BeforeFile_range: "BeforeFile cmp k f \<longleftrightarrow> after_range f k"
  by (auto simp: BeforeFile_def after_range_def split: option.splits)

lemma seek_key_less:
  assumes "key_tag a \<le> PackSequenceAndType kMaxSequenceNumber kValueTypeForSeek"
  shows "ikey_Compare cmp a (InternalKey k kMaxSequenceNumber kValueTypeForSeek) < 0 \<longleftrightarrow> less (ExtractUserKey a) k"
  using assms by (auto simp: ikey_Compare_less)

lemma level_sorted_starts:
  assumes "level_sorted files" and "i < j" and "j < length files"
  shows "cmp_Compare cmp (f_start (files ! i)) (f_start (files ! j)) \<le> 0"
    and "cmp_Compare cmp (f_limit (files ! i)) (f_start (files ! j)) \<le> 0"
    and "cmp_Compare cmp (f_limit (files ! i)) (f_limit (files ! j)) \<le> 0"
proof -
  have l: "ikey_Compare cmp (fm_largest (files ! i)) (fm_smallest (files ! j)) < 0"
    and w: "file_wf (files ! i)" "file_wf (files ! j)"
    using assms sorted_wrt_nth_less unfolding level_sorted_def by fastforce+
  then have "ikey_Compare cmp (fm_smallest (files ! i)) (fm_smallest (files ! j)) \<le> 0"
    "ikey_Compare cmp (fm_largest (files ! i)) (fm_largest (files ! j)) \<le> 0"
    unfolding file_wf_def using ikey_trans by (meson less_imp_le)+
  then show "cmp_Compare cmp (f_start (files ! i)) (f_start (files ! j)) \<le> 0"
    "cmp_Compare cmp (f_limit (files ! i)) (f_start (files ! j)) \<le> 0"
    "cmp_Compare cmp (f_limit (files ! i)) (f_limit (files ! j)) \<le> 0"
    using ikey_less_user [OF l] ikey_le_user by blast+
qed

text \<open>Both ways of looking for an overlap give the same answer.\<close>

lemma SomeFileOverlapsRange_spec:
  assumes "ordered \<Longrightarrow> level_sorted files"
  shows "SomeFileOverlapsRange cmp ordered files bgn fin \<longleftrightarrow> (\<exists>f \<in> set files. overlaps bgn fin f)"
proof (cases ordered)
  case False
  then show ?thesis by (simp add: SomeFileOverlapsRange_def AfterFile_range BeforeFile_range overlaps_def list_ex_iff)
next
  case True
  note srt = assms [OF True]
  define index where "index = (case bgn of None \<Rightarrow> 0 | Some k \<Rightarrow> FindFile cmp files (InternalKey k kMaxSequenceNumber kValueTypeForSeek))"
  have e: "SomeFileOverlapsRange cmp ordered files bgn fin \<longleftrightarrow> index < length files \<and> \<not> after_range (files ! index) fin"
    unfolding SomeFileOverlapsRange_def using True by (simp add: index_def [symmetric] BeforeFile_range Let_def not_less)
  have tag: "key_tag (fm_largest (files ! i)) \<le> PackSequenceAndType kMaxSequenceNumber kValueTypeForSeek" if "i < length files" for i
    using srt nth_mem [OF that] unfolding level_sorted_def file_wf_def by blast
  have before: "before_range (files ! i) bgn \<longleftrightarrow> i < index" if "i < length files" for i
  proof (cases bgn)
    case (Some k)
    show ?thesis
      using FindFile_spec(2,3) [OF srt, where i = i and key = "InternalKey k kMaxSequenceNumber kValueTypeForSeek"] that
        seek_key_less [OF tag [OF that], of k] Some
      by (cases "i < index") (simp_all add: before_range_def index_def)
  qed (simp add: before_range_def index_def)
  show ?thesis
  proof
    assume "SomeFileOverlapsRange cmp ordered files bgn fin"
    then have "overlaps bgn fin (files ! index)" "files ! index \<in> set files"
      using e before [of index] by (simp_all add: overlaps_def)
    then show "\<exists>f \<in> set files. overlaps bgn fin f" by blast
  next
    assume "\<exists>f \<in> set files. overlaps bgn fin f"
    then obtain i where i: "i < length files" "overlaps bgn fin (files ! i)" by (auto simp: in_set_conv_nth)
    then have le: "index \<le> i" using before by (simp add: overlaps_def)
    have "\<not> after_range (files ! index) fin"
    proof
      assume "after_range (files ! index) fin"
      then obtain k where k: "fin = Some k" "less k (f_start (files ! index))" by (auto simp: after_range_def)
      have "cmp_Compare cmp (f_start (files ! index)) (f_start (files ! i)) \<le> 0"
        using level_sorted_starts(1) [OF srt, of index i] le i(1) by (cases "index = i") simp_all
      then have "after_range (files ! i) fin" using k less_le_trans by (auto simp: after_range_def)
      then show False using i(2) by (simp add: overlaps_def)
    qed
    then show "SomeFileOverlapsRange cmp ordered files bgn fin" using e le i(1) by simp
  qed
qed

text \<open>Overlapping inputs: the search restarts only with a wider range, of which there are finitely many.\<close>

definition inside :: "bytes option \<Rightarrow> bytes option \<Rightarrow> file_meta \<Rightarrow> bool" where
  "inside bgn fin f \<longleftrightarrow> (\<forall>b. bgn = Some b \<longrightarrow> \<not> less (f_start f) b) \<and> (\<forall>e. fin = Some e \<longrightarrow> \<not> less e (f_limit f))"

definition wider :: "file_meta list \<Rightarrow> bytes option \<Rightarrow> bytes option \<Rightarrow> bytes option \<Rightarrow> bytes option \<Rightarrow> bool" where
  "wider files bgn fin bgn' fin' \<longleftrightarrow>
     (bgn' = bgn \<or> (\<exists>b. \<exists>f \<in> set files. bgn = Some b \<and> bgn' = Some (f_start f) \<and> less (f_start f) b)) \<and>
     (fin' = fin \<or> (\<exists>e. \<exists>f \<in> set files. fin = Some e \<and> fin' = Some (f_limit f) \<and> less e (f_limit f)))"

lemma wider_trans: "wider files b e b' e' \<Longrightarrow> wider files b' e' b'' e'' \<Longrightarrow> wider files b e b'' e''"
  unfolding wider_def using user_less_trans by (smt (verit) option.inject)

definition outside :: "file_meta list \<Rightarrow> bytes option \<Rightarrow> bytes option \<Rightarrow> nat" where
  "outside files bgn fin =
     card {i. i < length files \<and> (\<exists>b. bgn = Some b \<and> less (f_start (files ! i)) b)} +
     card {i. i < length files \<and> (\<exists>e. fin = Some e \<and> less e (f_limit (files ! i)))}"

lemma outside_begin:
  assumes "i < length files" and "less (f_start (files ! i)) b"
  shows "outside files (Some (f_start (files ! i))) fin < outside files (Some b) fin"
proof -
  let ?S = "\<lambda>b. {j. j < length files \<and> less (f_start (files ! j)) b}"
  have "?S (f_start (files ! i)) \<subset> ?S b"
  proof
    show "?S (f_start (files ! i)) \<subseteq> ?S b" using assms(2) user_less_trans by blast
    have "i \<in> ?S b" "i \<notin> ?S (f_start (files ! i))" using assms less_irrefl by blast+
    then show "?S (f_start (files ! i)) \<noteq> ?S b" by blast
  qed
  then have "card (?S (f_start (files ! i))) < card (?S b)" by (rule psubset_card_mono [rotated]) simp
  then show ?thesis by (simp add: outside_def)
qed

lemma outside_end:
  assumes "i < length files" and "less e (f_limit (files ! i))"
  shows "outside files bgn (Some (f_limit (files ! i))) < outside files bgn (Some e)"
proof -
  let ?S = "\<lambda>e. {j. j < length files \<and> less e (f_limit (files ! j))}"
  have "?S (f_limit (files ! i)) \<subset> ?S e"
  proof
    show "?S (f_limit (files ! i)) \<subseteq> ?S e" using assms(2) user_less_trans by blast
    have "i \<in> ?S e" "i \<notin> ?S (f_limit (files ! i))" using assms less_irrefl by blast+
    then show "?S (f_limit (files ! i)) \<noteq> ?S e" by blast
  qed
  then have "card (?S (f_limit (files ! i))) < card (?S e)" by (rule psubset_card_mono [rotated]) simp
  then show ?thesis by (simp add: outside_def)
qed

lemma GetOverlappingInputs_loop_spec:
  assumes "i \<le> length files" and "inputs = filter (overlaps bgn fin) (take i files)"
    and "level = 0 \<Longrightarrow> \<forall>f \<in> set inputs. inside bgn fin f"
  shows "\<exists>bgn' fin'. GetOverlappingInputs_loop cmp level files bgn fin i inputs = Some (filter (overlaps bgn' fin') files) \<and>
    wider files bgn fin bgn' fin' \<and> (level \<noteq> 0 \<longrightarrow> bgn' = bgn \<and> fin' = fin) \<and>
    (level = 0 \<longrightarrow> (\<forall>f \<in> set files. overlaps bgn' fin' f \<longrightarrow> inside bgn' fin' f))"
  using assms
proof (induction "(outside files bgn fin, length files - i)" arbitrary: bgn fin i inputs rule: wf_induct_rule [OF wf_lex_prod [OF wf_less wf_less]])
  case 1
  let ?loop = "GetOverlappingInputs_loop cmp level files"
  have IH: "\<exists>bgn'' fin''. ?loop bgn' fin' i' inputs' = Some (filter (overlaps bgn'' fin'') files) \<and>
      wider files bgn' fin' bgn'' fin'' \<and> (level \<noteq> 0 \<longrightarrow> bgn'' = bgn' \<and> fin'' = fin') \<and>
      (level = 0 \<longrightarrow> (\<forall>f \<in> set files. overlaps bgn'' fin'' f \<longrightarrow> inside bgn'' fin'' f))"
    if "outside files bgn' fin' < outside files bgn fin \<or> bgn' = bgn \<and> fin' = fin \<and> length files - i' < length files - i"
      and "i' \<le> length files" and "inputs' = filter (overlaps bgn' fin') (take i' files)"
      and "level = 0 \<Longrightarrow> \<forall>f \<in> set inputs'. inside bgn' fin' f" for bgn' fin' i' inputs'
    by (rule "1.hyps" [OF _ that(2-4)]) (use that(1) in auto)
  show ?case
  proof (cases "i < length files")
    case False
    then have "?loop bgn fin i inputs = Some inputs" by (subst GetOverlappingInputs_loop.simps) simp
    then show ?thesis using 1 False by (intro exI [of _ bgn] exI [of _ fin]) (auto simp: wider_def)
  next
    case True
    define f where "f = files ! i"
    have take: "take (Suc i) files = take i files @ [f]" using True by (simp add: f_def take_Suc_conv_app_nth)
    have c: "(case bgn of None \<Rightarrow> False | Some b \<Rightarrow> less (f_limit f) b) = before_range f bgn"
      "(case fin of None \<Rightarrow> False | Some e \<Rightarrow> cmp_Compare cmp (f_start f) e > 0) = after_range f fin"
      using compare_gt by (auto simp: before_range_def after_range_def split: option.split)
    have step: "?loop bgn fin i inputs =
      (if before_range f bgn \<or> after_range f fin then ?loop bgn fin (i + 1) inputs
       else if level = 0 \<and> (\<exists>b. bgn = Some b \<and> less (f_start f) b) then ?loop (Some (f_start f)) fin 0 []
       else if level = 0 \<and> (\<exists>e. fin = Some e \<and> less e (f_limit f)) then ?loop bgn (Some (f_limit f)) 0 []
       else ?loop bgn fin (i + 1) (inputs @ [f]))"
      using True compare_gt
      by (subst GetOverlappingInputs_loop.simps) (simp add: f_def [symmetric] Let_def c split: option.split)
    consider (skip) "\<not> overlaps bgn fin f"
      | (wb) b where "overlaps bgn fin f" "level = 0" "bgn = Some b" "less (f_start f) b"
      | (we) e where "overlaps bgn fin f" "level = 0" "\<not> (\<exists>b. bgn = Some b \<and> less (f_start f) b)" "fin = Some e" "less e (f_limit f)"
      | (take') "overlaps bgn fin f" "level = 0 \<longrightarrow> inside bgn fin f"
      unfolding inside_def by blast
    then show ?thesis
    proof cases
      case skip
      then have "?loop bgn fin i inputs = ?loop bgn fin (i + 1) inputs" unfolding step overlaps_def by simp
      then show ?thesis using IH [of bgn fin "i + 1" inputs] 1 True take skip by simp
    next
      case wb
      then have e: "?loop bgn fin i inputs = ?loop (Some (f_start f)) fin 0 []" unfolding step overlaps_def by simp
      obtain bgn' fin' where r: "?loop (Some (f_start f)) fin 0 [] = Some (filter (overlaps bgn' fin') files)"
        "wider files (Some (f_start f)) fin bgn' fin'"
        "level = 0 \<longrightarrow> (\<forall>f \<in> set files. overlaps bgn' fin' f \<longrightarrow> inside bgn' fin' f)"
        using IH [of "Some (f_start f)" fin 0 "[]"] outside_begin [OF True, of b fin] wb by (auto simp: f_def)
      have "wider files bgn fin (Some (f_start f)) fin" using wb True by (auto simp: wider_def f_def)
      from wider_trans [OF this r(2)] show ?thesis using e r wb(2) by auto
    next
      case we
      then have e: "?loop bgn fin i inputs = ?loop bgn (Some (f_limit f)) 0 []"
        unfolding step overlaps_def by (auto split: if_splits)
      obtain bgn' fin' where r: "?loop bgn (Some (f_limit f)) 0 [] = Some (filter (overlaps bgn' fin') files)"
        "wider files bgn (Some (f_limit f)) bgn' fin'"
        "level = 0 \<longrightarrow> (\<forall>f \<in> set files. overlaps bgn' fin' f \<longrightarrow> inside bgn' fin' f)"
        using IH [of bgn "Some (f_limit f)" 0 "[]"] outside_end [OF True, of _ bgn] we by (auto simp: f_def)
      have "wider files bgn fin bgn (Some (f_limit f))" using we True by (auto simp: wider_def f_def)
      from wider_trans [OF this r(2)] show ?thesis using e r we(2) by auto
    next
      case take'
      then have "?loop bgn fin i inputs = ?loop bgn fin (i + 1) (inputs @ [f])"
        unfolding step overlaps_def inside_def by auto
      then show ?thesis using IH [of bgn fin "i + 1" "inputs @ [f]"] 1 True take take' by auto
    qed
  qed
qed

lemma GetOverlappingInputs_spec:
  "\<exists>bgn' fin'. GetOverlappingInputs cmp files level bgn fin = Some (filter (overlaps bgn' fin') (files ! level)) \<and>
    wider (files ! level) (map_option ExtractUserKey bgn) (map_option ExtractUserKey fin) bgn' fin' \<and>
    (level \<noteq> 0 \<longrightarrow> bgn' = map_option ExtractUserKey bgn \<and> fin' = map_option ExtractUserKey fin) \<and>
    (level = 0 \<longrightarrow> (\<forall>f \<in> set (files ! level). overlaps bgn' fin' f \<longrightarrow> inside bgn' fin' f))"
  unfolding GetOverlappingInputs_def by (rule GetOverlappingInputs_loop_spec) simp_all

text \<open>Boundary files: a file that continues the user key with which a set of files ends.\<close>

definition boundary :: "bytes \<Rightarrow> file_meta \<Rightarrow> bool" where
  "boundary key f \<longleftrightarrow> ik.less key (fm_smallest f) \<and> cmp_Compare cmp (f_start f) (ExtractUserKey key) = 0"

lemma FindSmallestBoundaryFile_fold:
  "(case fold (\<lambda>f acc. if ikey_Compare cmp (fm_smallest f) key > 0 \<and> cmp_Compare cmp (f_start f) (ExtractUserKey key) = 0 \<and>
                (case acc of None \<Rightarrow> True | Some g \<Rightarrow> ikey_Compare cmp (fm_smallest f) (fm_smallest g) < 0)
             then Some f else acc) fs acc of
      None \<Rightarrow> acc = None \<and> (\<forall>f \<in> set fs. \<not> boundary key f)
    | Some g \<Rightarrow> (acc = Some g \<or> g \<in> set fs \<and> boundary key g) \<and>
        (\<forall>f \<in> set fs. boundary key f \<longrightarrow> \<not> ik.less (fm_smallest f) (fm_smallest g)) \<and>
        (\<forall>f. acc = Some f \<longrightarrow> \<not> ik.less (fm_smallest f) (fm_smallest g)))"
proof (induction fs arbitrary: acc)
  case Nil
  then show ?case by (simp split: option.split)
next
  case (Cons h fs)
  have b: "boundary key h \<longleftrightarrow> ikey_Compare cmp (fm_smallest h) key > 0 \<and> cmp_Compare cmp (f_start h) (ExtractUserKey key) = 0"
    using ik.compare_gt by (simp add: boundary_def)
  let ?step = "\<lambda>f acc. if ikey_Compare cmp (fm_smallest f) key > 0 \<and> cmp_Compare cmp (f_start f) (ExtractUserKey key) = 0 \<and>
                (case acc of None \<Rightarrow> True | Some g \<Rightarrow> ikey_Compare cmp (fm_smallest f) (fm_smallest g) < 0)
             then Some f else acc"
  have t: "\<not> ik.less c a" if "\<not> ik.less b a" "\<not> ik.less c b" for a b c
    using that ik.less_le_trans [of c a b] ik.not_less by blast
  show ?case
  proof (cases "boundary key h \<and> (case acc of None \<Rightarrow> True | Some g \<Rightarrow> ik.less (fm_smallest h) (fm_smallest g))")
    case True
    then have e: "fold ?step (h # fs) acc = fold ?step fs (Some h)" using b by simp
    have "\<not> ik.less (fm_smallest a) (fm_smallest g)" if "acc = Some a" "\<not> ik.less (fm_smallest h) (fm_smallest g)" for a g
      using True that ik.less_trans by auto
    then show ?thesis unfolding e using Cons.IH [of "Some h"] True by (auto split: option.splits)
  next
    case False
    then have e: "fold ?step (h # fs) acc = fold ?step fs acc" using b by auto
    have n: "acc = None \<Longrightarrow> \<not> boundary key h" using False by auto
    have "\<not> ik.less (fm_smallest h) (fm_smallest g)"
      if bh: "boundary key h" and ag: "\<forall>f. acc = Some f \<longrightarrow> \<not> ik.less (fm_smallest f) (fm_smallest g)" for g
    proof -
      obtain a where "acc = Some a" "\<not> ik.less (fm_smallest h) (fm_smallest a)" using False bh by (cases acc) auto
      then show ?thesis using t [of "fm_smallest a" "fm_smallest g" "fm_smallest h"] ag by blast
    qed
    then show ?thesis unfolding e using Cons.IH [of acc] n by (auto split: option.splits)
  qed
qed

lemma FindSmallestBoundaryFile_spec:
  "FindSmallestBoundaryFile cmp files key = None \<Longrightarrow> f \<in> set files \<Longrightarrow> \<not> boundary key f"
  "FindSmallestBoundaryFile cmp files key = Some g \<Longrightarrow> g \<in> set files \<and> boundary key g"
  "FindSmallestBoundaryFile cmp files key = Some g \<Longrightarrow> f \<in> set files \<Longrightarrow> boundary key f \<Longrightarrow>
    \<not> ik.less (fm_smallest f) (fm_smallest g)"
  using FindSmallestBoundaryFile_fold [where key = key and fs = files and acc = None] unfolding FindSmallestBoundaryFile_def
  by (auto split: option.splits)

definition is_largest :: "file_meta list \<Rightarrow> bytes \<Rightarrow> bool" where
  "is_largest files k \<longleftrightarrow> k \<in> fm_largest ` set files \<and> (\<forall>f \<in> set files. ikey_Compare cmp (fm_largest f) k \<le> 0)"

lemma FindLargestKey_spec:
  "FindLargestKey cmp files = None \<longleftrightarrow> files = []"
  "FindLargestKey cmp files = Some k \<Longrightarrow> is_largest files k"
proof -
  show "FindLargestKey cmp files = None \<longleftrightarrow> files = []" by (simp add: FindLargestKey_def split: list.split)
  have "is_largest (gs @ fs) (fold (\<lambda>f k. if ikey_Compare cmp (fm_largest f) k > 0 then fm_largest f else k) fs k)"
    if "is_largest gs k" for gs fs k
    using that
  proof (induction fs arbitrary: gs k)
    case (Cons f fs)
    have "is_largest (gs @ [f]) (if ikey_Compare cmp (fm_largest f) k > 0 then fm_largest f else k)"
      using Cons.prems ik.compare_gt [of "fm_largest f" k] ik.compare_ge ikey_trans unfolding is_largest_def
      by (auto simp: not_less)
    from Cons.IH [OF this] show ?case by simp
  qed simp
  from this [of "[hd files]" "fm_largest (hd files)" "tl files"]
  show "FindLargestKey cmp files = Some k \<Longrightarrow> is_largest files k"
    by (cases files) (auto simp: FindLargestKey_def is_largest_def)
qed

lemma is_largest_snoc:
  assumes "is_largest files k" and "file_wf f" and "boundary k f"
  shows "is_largest (files @ [f]) (fm_largest f)"
proof -
  have "ik.less k (fm_largest f)"
    using assms(2,3) ik.less_le_trans [of k "fm_smallest f" "fm_largest f"] unfolding boundary_def file_wf_def by blast
  then have "ikey_Compare cmp (fm_largest g) (fm_largest f) \<le> 0" if "g \<in> set files" for g
    using assms(1) that ikey_trans [of "fm_largest g" k "fm_largest f"] unfolding is_largest_def by (meson less_imp_le)
  then show ?thesis by (auto simp: is_largest_def)
qed

lemma boundary_cong:
  assumes "ikey_Compare cmp k k' \<le> 0" and "ikey_Compare cmp k' k \<le> 0" and "boundary k f"
  shows "boundary k' f"
proof -
  have "cmp_Compare cmp (ExtractUserKey k) (ExtractUserKey k') \<le> 0" "cmp_Compare cmp (ExtractUserKey k') (ExtractUserKey k) \<le> 0"
    using assms(1,2) ikey_le_user by blast+
  then have "cmp_Compare cmp (ExtractUserKey k) (ExtractUserKey k') = 0"
    using compare_ge [of "ExtractUserKey k" "ExtractUserKey k'"] by simp
  then show ?thesis
    using assms(2,3) ik.le_less_trans [of k' k "fm_smallest f"] compare_eq_trans unfolding boundary_def by blast
qed

lemma AddBoundaryInputs_loop_spec:
  assumes "is_largest files key" and "Q files" and "\<forall>f \<in> set level_files. file_wf f"
    and "\<And>fs k f. Q fs \<Longrightarrow> is_largest fs k \<Longrightarrow> FindSmallestBoundaryFile cmp level_files k = Some f \<Longrightarrow> Q (fs @ [f])"
  shows "\<exists>added. AddBoundaryInputs_loop cmp level_files key files = Some (files @ added) \<and> set added \<subseteq> set level_files \<and>
    Q (files @ added) \<and> (\<forall>k. is_largest (files @ added) k \<longrightarrow> (\<forall>f \<in> set level_files. \<not> boundary k f))"
  using assms(1,2)
proof (induction "card {i. i < length level_files \<and> ik.less key (fm_smallest (level_files ! i))}" arbitrary: key files rule: less_induct)
  case less
  show ?case
  proof (cases "FindSmallestBoundaryFile cmp level_files key")
    case None
    then have "AddBoundaryInputs_loop cmp level_files key files = Some (files @ [])"
      by (subst AddBoundaryInputs_loop.simps) simp
    moreover have "\<not> boundary k f" if "is_largest files k" "f \<in> set level_files" for k f
    proof -
      have "ikey_Compare cmp k key \<le> 0" "ikey_Compare cmp key k \<le> 0"
        using that(1) less.prems(1) unfolding is_largest_def by blast+
      then show ?thesis using boundary_cong FindSmallestBoundaryFile_spec(1) [OF None that(2)] by blast
    qed
    ultimately show ?thesis using less.prems(2) by (intro exI [of _ "[]"]) simp
  next
    case (Some f)
    then have f: "f \<in> set level_files" "boundary key f" using FindSmallestBoundaryFile_spec(2) by blast+
    then have wf: "file_wf f" using assms(3) by blast
    let ?S = "\<lambda>k. {i. i < length level_files \<and> ik.less k (fm_smallest (level_files ! i))}"
    have lt: "ik.less key (fm_largest f)"
      using f(2) wf ik.less_le_trans [of key "fm_smallest f" "fm_largest f"] unfolding boundary_def file_wf_def by blast
    have "?S (fm_largest f) \<subset> ?S key"
    proof
      show "?S (fm_largest f) \<subseteq> ?S key" using lt ik.less_trans by blast
      obtain i where i: "i < length level_files" "level_files ! i = f" using f(1) by (auto simp: in_set_conv_nth)
      have "i \<in> ?S key" using i f(2) by (simp add: boundary_def)
      moreover have "i \<notin> ?S (fm_largest f)"
        using i wf ik.less_le_trans [of "fm_largest f" "fm_smallest f" "fm_largest f"] ik.less_irrefl
        unfolding file_wf_def by blast
      ultimately show "?S (fm_largest f) \<noteq> ?S key" by blast
    qed
    then have "card (?S (fm_largest f)) < card (?S key)" by (rule psubset_card_mono [rotated]) simp
    from less.hyps [OF this is_largest_snoc [OF less.prems(1) wf f(2)] assms(4) [OF less.prems(2,1) Some]] obtain added where
      r: "AddBoundaryInputs_loop cmp level_files (fm_largest f) (files @ [f]) = Some ((files @ [f]) @ added)"
      "set added \<subseteq> set level_files" "Q ((files @ [f]) @ added)" "\<forall>k. is_largest ((files @ [f]) @ added) k \<longrightarrow> (\<forall>f \<in> set level_files. \<not> boundary k f)"
      by blast
    have "AddBoundaryInputs_loop cmp level_files key files = AddBoundaryInputs_loop cmp level_files (fm_largest f) (files @ [f])"
      using Some by (subst AddBoundaryInputs_loop.simps) simp
    then show ?thesis using r f(1) by (intro exI [of _ "f # added"]) simp
  qed
qed

lemma AddBoundaryInputs_spec:
  assumes "Q files" and "\<forall>f \<in> set level_files. file_wf f"
    and "\<And>fs k f. Q fs \<Longrightarrow> is_largest fs k \<Longrightarrow> FindSmallestBoundaryFile cmp level_files k = Some f \<Longrightarrow> Q (fs @ [f])"
  shows "\<exists>added. AddBoundaryInputs cmp level_files files = Some (files @ added) \<and> set added \<subseteq> set level_files \<and>
    Q (files @ added) \<and> (\<forall>k. is_largest (files @ added) k \<longrightarrow> (\<forall>f \<in> set level_files. \<not> boundary k f))"
proof (cases "FindLargestKey cmp files")
  case None
  then have "files = []" using FindLargestKey_spec(1) by blast
  then show ?thesis using assms(1)
    by (intro exI [of _ "[]"]) (simp add: AddBoundaryInputs_def is_largest_def FindLargestKey_def)
next
  case (Some k)
  then show ?thesis
    using AddBoundaryInputs_loop_spec [OF FindLargestKey_spec(2) [OF Some] assms] by (simp add: AddBoundaryInputs_def)
qed

text \<open>The range of some files.\<close>

definition in_range :: "bytes \<times> bytes \<Rightarrow> file_meta list \<Rightarrow> bool" where
  "in_range r files \<longleftrightarrow>
     fst r \<in> fm_smallest ` set files \<and> snd r \<in> fm_largest ` set files \<and>
     (\<forall>f \<in> set files. ikey_Compare cmp (fst r) (fm_smallest f) \<le> 0 \<and> ikey_Compare cmp (fm_largest f) (snd r) \<le> 0)"

lemma GetRange_spec:
  assumes "files \<noteq> []"
  shows "in_range (GetRange cmp files) files"
proof -
  let ?step = "\<lambda>f (smallest, largest). (if ikey_Compare cmp (fm_smallest f) smallest < 0 then fm_smallest f else smallest,
                   if ikey_Compare cmp (fm_largest f) largest > 0 then fm_largest f else largest)"
  have "in_range (fold ?step fs r) (gs @ fs)" if "in_range r gs" for gs fs r
    using that
  proof (induction fs arbitrary: gs r)
    case (Cons f fs)
    obtain a b where r: "r = (a, b)" by fastforce
    let ?a = "if ik.less (fm_smallest f) a then fm_smallest f else a"
    let ?b = "if ikey_Compare cmp (fm_largest f) b > 0 then fm_largest f else b"
    have a: "ikey_Compare cmp ?a (fm_smallest f) \<le> 0" "ikey_Compare cmp ?a a \<le> 0"
      using ik.not_less [of "fm_smallest f" a] by (auto intro: less_imp_le)
    have b: "ikey_Compare cmp (fm_largest f) ?b \<le> 0" "ikey_Compare cmp b ?b \<le> 0"
      using ik.compare_gt [of "fm_largest f" b] ik.not_less [of b "fm_largest f"] by (auto intro: less_imp_le)
    have "in_range (?a, ?b) (gs @ [f])"
      using Cons.prems a b ikey_trans [OF a(2)] ikey_trans [OF _ b(2)] unfolding in_range_def r by auto
    from Cons.IH [OF this] show ?case by (simp add: r)
  qed simp
  from this [of "(fm_smallest (hd files), fm_largest (hd files))" "[hd files]" "tl files"] show ?thesis
    using assms by (cases files) (simp_all add: GetRange_def in_range_def)
qed

lemma in_range_user:
  assumes "in_range r files" and "f \<in> set files"
  shows "cmp_Compare cmp (ExtractUserKey (fst r)) (f_start f) \<le> 0" and "cmp_Compare cmp (f_limit f) (ExtractUserKey (snd r)) \<le> 0"
  using assms ikey_le_user unfolding in_range_def by blast+

text \<open>A memtable is pushed below only levels that hold nothing of its range.\<close>

lemma PickLevel_loop_spec:
  assumes "\<forall>i. 0 < i \<longrightarrow> i < kNumLevels \<longrightarrow> level_sorted (files ! i)"
    and "level \<le> kMaxMemCompactLevel" and "\<forall>i \<le> level. \<forall>f \<in> set (files ! i). \<not> overlaps (Some a) (Some b) f"
  shows "\<exists>r. PickLevel_loop cmp m files a b level = Some r \<and> level \<le> r \<and> r \<le> kMaxMemCompactLevel \<and>
    (\<forall>i \<le> r. \<forall>f \<in> set (files ! i). \<not> overlaps (Some a) (Some b) f)"
  using assms(2,3)
proof (induction "kMaxMemCompactLevel - level" arbitrary: level)
  case 0
  then show ?case by (subst PickLevel_loop.simps) simp
next
  case (Suc n)
  then have l: "level < kMaxMemCompactLevel" by simp
  have next_level: "\<exists>r. PickLevel_loop cmp m files a b (level + 1) = Some r \<and> level \<le> r \<and> r \<le> kMaxMemCompactLevel \<and>
    (\<forall>i \<le> r. \<forall>f \<in> set (files ! i). \<not> overlaps (Some a) (Some b) f)"
    if "\<not> OverlapInLevel cmp files (level + 1) (Some a) (Some b)"
  proof -
    have "level_sorted (files ! (level + 1))" using assms(1) l by (simp add: kMaxMemCompactLevel_def kNumLevels_def)
    then have "\<forall>f \<in> set (files ! (level + 1)). \<not> overlaps (Some a) (Some b) f"
      using that SomeFileOverlapsRange_spec unfolding OverlapInLevel_def by simp
    then have "\<forall>i \<le> level + 1. \<forall>f \<in> set (files ! i). \<not> overlaps (Some a) (Some b) f"
      using Suc.prems(2) by (metis Suc_eq_plus1 le_Suc_eq)
    moreover have "n = kMaxMemCompactLevel - (level + 1)" "level + 1 \<le> kMaxMemCompactLevel" using Suc.hyps(2) l by linarith+
    ultimately obtain r where
      "PickLevel_loop cmp m files a b (level + 1) = Some r" "level + 1 \<le> r" "r \<le> kMaxMemCompactLevel"
      "\<forall>i \<le> r. \<forall>f \<in> set (files ! i). \<not> overlaps (Some a) (Some b) f" using Suc.hyps(1) by blast
    then show ?thesis by auto
  qed
  obtain ov where ov: "GetOverlappingInputs cmp files (level + 2)
      (Some (InternalKey a kMaxSequenceNumber kValueTypeForSeek)) (Some (InternalKey b 0 kTypeDeletion)) = Some ov"
    using GetOverlappingInputs_spec by blast
  have e: "PickLevel_loop cmp m files a b level =
      (if OverlapInLevel cmp files (level + 1) (Some a) (Some b) then Some level
       else if level + 2 < kNumLevels \<and> TotalFileSize ov > MaxGrandParentOverlapBytes m then Some level
       else PickLevel_loop cmp m files a b (level + 1))"
    using l ov by (subst PickLevel_loop.simps) simp
  show ?case unfolding e using next_level Suc.prems by auto
qed

end

section \<open>Properties\<close>

text \<open>
  C40: Whether a level is searched file by file or, when its files are disjoint and sorted, by bisection,
  \<open>SomeFileOverlapsRange\<close> says the same: whether a file holds a user key of the range, with null for an open
  end; and a memtable is put into a level below level zero only when no file of that level or of any level above it overlaps its keys.
  Into level zero it is put whatever is there, where newer files are searched first.
\<close>

theorem overlap_checks:
  assumes "\<And>i. 0 < i \<Longrightarrow> i < kNumLevels \<Longrightarrow> bytewise_user.level_sorted (files ! i)"
    and "ordered \<Longrightarrow> bytewise_user.level_sorted fs"
  shows "(SomeFileOverlapsRange BytewiseComparator ordered fs bgn fin \<longleftrightarrow>
            (\<exists>f \<in> set fs. (\<forall>b. bgn = Some b \<longrightarrow> \<not> slice_compare (f_limit f) b < 0) \<and> (\<forall>e. fin = Some e \<longrightarrow> \<not> slice_compare e (f_start f) < 0))) \<and>
         (\<exists>r \<le> kMaxMemCompactLevel. PickLevelForMemTableOutput BytewiseComparator m files a b = Some r \<and>
            (r = 0 \<or> (\<forall>i \<le> r. \<forall>f \<in> set (files ! i). slice_compare (f_limit f) a < 0 \<or> slice_compare b (f_start f) < 0)))"
proof
  have ov: "bytewise_user.overlaps bgn fin f \<longleftrightarrow>
      (\<forall>b. bgn = Some b \<longrightarrow> \<not> slice_compare (f_limit f) b < 0) \<and> (\<forall>e. fin = Some e \<longrightarrow> \<not> slice_compare e (f_start f) < 0)" for bgn fin f
  proof -
    have "cmp_Compare BytewiseComparator = slice_compare" by (simp add: BytewiseComparator_def)
    then show ?thesis
      unfolding bytewise_user.overlaps_def bytewise_user.before_range_def bytewise_user.after_range_def by auto
  qed
  show "SomeFileOverlapsRange BytewiseComparator ordered fs bgn fin \<longleftrightarrow>
            (\<exists>f \<in> set fs. (\<forall>b. bgn = Some b \<longrightarrow> \<not> slice_compare (f_limit f) b < 0) \<and> (\<forall>e. fin = Some e \<longrightarrow> \<not> slice_compare e (f_start f) < 0))"
    unfolding ov [symmetric] by (rule bytewise_user.SomeFileOverlapsRange_spec) (rule assms(2))
  show "\<exists>r \<le> kMaxMemCompactLevel. PickLevelForMemTableOutput BytewiseComparator m files a b = Some r \<and>
            (r = 0 \<or> (\<forall>i \<le> r. \<forall>f \<in> set (files ! i). slice_compare (f_limit f) a < 0 \<or> slice_compare b (f_start f) < 0))"
  proof (cases "OverlapInLevel BytewiseComparator files 0 (Some a) (Some b)")
    case False
    then have "\<forall>i \<le> 0. \<forall>f \<in> set (files ! i). \<not> bytewise_user.overlaps (Some a) (Some b) f"
      using bytewise_user.SomeFileOverlapsRange_spec [of False "files ! 0" "Some a" "Some b"] by (simp add: OverlapInLevel_def)
    from bytewise_user.PickLevel_loop_spec [OF _ _ this, of m] assms(1) False ov show ?thesis
      by (auto simp: PickLevelForMemTableOutput_def)
  qed (simp add: PickLevelForMemTableOutput_def)
qed

definition demo_meta :: "u64 \<Rightarrow> u8 \<Rightarrow> u8 \<Rightarrow> file_meta" where
  "demo_meta num a b = new_FileMetaData
     \<lparr>fm_number := num, fm_smallest := InternalKey [a] 9 kTypeValue, fm_largest := InternalKey [b] 3 kTypeValue\<rparr>"

definition demo_levels :: "file_meta list list" where
  "demo_levels = [[demo_meta 7 1 2], [], [demo_meta 5 1 3, demo_meta 6 5 5], [], [], [], []]"

lemma demo_level_sorted: "0 < i \<Longrightarrow> i < kNumLevels \<Longrightarrow> bytewise_user.level_sorted (demo_levels ! i)"
proof -
  have c: "cmp_Compare BytewiseComparator = slice_compare" by (simp add: BytewiseComparator_def)
  have "bytewise_user.level_sorted [demo_meta 5 1 3, demo_meta 6 5 5]"
    by (simp add: bytewise_user.level_sorted_def bytewise_user.file_wf_def demo_meta_def bytewise_user.ikey_Compare_less
        bytewise_user.ikey_Compare_le PackSequenceAndType_def kMaxSequenceNumber_def type_code_def kValueTypeForSeek_def
        c slice_compare_def Let_def)
  moreover have "bytewise_user.level_sorted []" by (simp add: bytewise_user.level_sorted_def)
  ultimately show "0 < i \<Longrightarrow> i < kNumLevels \<Longrightarrow> bytewise_user.level_sorted (demo_levels ! i)"
    by (auto simp: demo_levels_def kNumLevels_def less_Suc_eq numeral_nat)
qed

theorem overlap_checks_witness:
  "SomeFileOverlapsRange BytewiseComparator True (demo_levels ! 2) (Some [2]) (Some [4]) \<and>
   (\<exists>r \<le> kMaxMemCompactLevel. PickLevelForMemTableOutput BytewiseComparator 100 demo_levels [3] [4] = Some r)"
proof -
  have "bytewise_user.level_sorted (demo_levels ! 2)" by (rule demo_level_sorted) (simp_all add: kNumLevels_def)
  from overlap_checks [OF demo_level_sorted this, of True "Some [2]" "Some [4]" 100 "[3]" "[4]"]
  show ?thesis by (auto simp: demo_levels_def demo_meta_def slice_compare_def Let_def)
qed

end
