(* ===== verification/Compaction.thy ===== *)
theory Compaction
  imports FileRange Log Filename Complex_Main "HOL-Library.Monad_Syntax"
begin

text \<open>
  Choosing compactions, \<^verbatim>\<open>db/version_set.h\<close> and the end of \<^verbatim>\<open>db/version_set.cc\<close>: scores of levels,
  seek statistics, the inputs of a compaction with all that must go along, and the questions a running
  compaction asks about deeper levels. \<open>None\<close> is a search that does not end. Scores are exact quotients.
\<close>

section \<open>State\<close>

record version =
  v_files :: "file_meta list list"
  v_file_to_compact :: "file_meta option"
  v_file_to_compact_level :: nat
  v_compaction_score :: rat
  v_compaction_level :: int

definition new_Version :: version where
  "new_Version = \<lparr>v_files = replicate kNumLevels [], v_file_to_compact = None, v_file_to_compact_level = 0,
     v_compaction_score = -1, v_compaction_level = -1\<rparr>"

text \<open>
  Older versions that are still in use are kept with their reference counts, oldest first; the manifest is
  open for writing when there is a descriptor.
\<close>

record version_set =
  vs_dbname :: bytes
  vs_user :: comparator
  vs_max_file_size :: nat
  vs_reuse_logs :: bool
  vs_next_file_number :: u64
  vs_manifest_file_number :: u64
  vs_last_sequence :: u64
  vs_log_number :: u64
  vs_prev_log_number :: u64
  vs_descriptor :: "posix_writable log_writer option"
  vs_versions :: "(version \<times> nat) list"
  vs_current :: version
  vs_current_refs :: nat
  vs_compact_pointer :: "bytes list"

record compaction =
  c_level :: nat
  c_max_output_file_size :: int
  c_input_version :: version
  c_edit :: version_edit
  c_inputs0 :: "file_meta list"
  c_inputs1 :: "file_meta list"
  c_grandparents :: "file_meta list"
  c_grandparent_index :: nat
  c_seen_key :: bool
  c_overlapped_bytes :: int
  c_level_ptrs :: "nat list"

definition new_Compaction :: "version_set \<Rightarrow> nat \<Rightarrow> compaction" where
  "new_Compaction vs level =
     \<lparr>c_level = level, c_max_output_file_size = MaxFileSizeForLevel (vs_max_file_size vs) level,
      c_input_version = vs_current vs, c_edit = new_VersionEdit, c_inputs0 = [], c_inputs1 = [], c_grandparents = [],
      c_grandparent_index = 0, c_seen_key = False, c_overlapped_bytes = 0, c_level_ptrs = replicate kNumLevels 0\<rparr>"

section \<open>Scores and seeks\<close>

definition level_score :: "version \<Rightarrow> nat \<Rightarrow> rat" where
  "level_score v level =
     (if level = 0 then of_nat (length (v_files v ! level)) / of_nat kL0_CompactionTrigger
      else of_int (TotalFileSize (v_files v ! level)) / of_int (MaxBytesForLevel level))"

definition Finalize :: "version \<Rightarrow> version" where
  "Finalize v =
     (let (best_level, best_score) =
        fold (\<lambda>level (best_level, best_score).
                let score = level_score v level
                in if score > best_score then (int level, score) else (best_level, best_score))
          [0..<kNumLevels - 1] (-1, -1)
      in v\<lparr>v_compaction_level := best_level, v_compaction_score := best_score\<rparr>)"

text \<open>The file charged with a seek is given by its level and number; its count of seeks is in the version.\<close>

record get_stats =
  seek_file :: "file_meta option"
  seek_file_level :: nat

definition charge_seek :: "file_meta \<Rightarrow> file_meta" where
  "charge_seek f = f\<lparr>fm_allowed_seeks := fm_allowed_seeks f - 1\<rparr>"

definition UpdateStats :: "get_stats \<Rightarrow> version \<Rightarrow> bool \<times> version" where
  "UpdateStats stats v =
     (case seek_file stats of
        None \<Rightarrow> (False, v)
      | Some f \<Rightarrow>
          let charge = (\<lambda>g. if fm_number g = fm_number f then charge_seek g else g);
              v = v\<lparr>v_files := map (map charge) (v_files v), v_file_to_compact := map_option charge (v_file_to_compact v)\<rparr>
          in if fm_allowed_seeks (charge_seek f) \<le> 0 \<and> v_file_to_compact v = None
             then (True, v\<lparr>v_file_to_compact := Some (charge_seek f), v_file_to_compact_level := seek_file_level stats\<rparr>)
             else (False, v))"

section \<open>Choosing the inputs\<close>

definition overlapping :: "version_set \<Rightarrow> nat \<Rightarrow> bytes \<times> bytes \<Rightarrow> file_meta list option" where
  "overlapping vs level r =
     GetOverlappingInputs (vs_user vs) (v_files (vs_current vs)) level (Some (fst r)) (Some (snd r))"

text \<open>Growing the inputs of the level without picking up more files of the next one.\<close>

definition expand_inputs :: "version_set \<Rightarrow> compaction \<Rightarrow> bytes \<times> bytes \<Rightarrow> bytes \<times> bytes \<Rightarrow>
    (compaction \<times> (bytes \<times> bytes) \<times> (bytes \<times> bytes)) option" where
  "expand_inputs vs c rng all =
     (if c_inputs1 c = [] then Some (c, rng, all)
      else do {
        expanded0 \<leftarrow> overlapping vs (c_level c) all;
        expanded0 \<leftarrow> AddBoundaryInputs (vs_user vs) (v_files (vs_current vs) ! c_level c) expanded0;
        if length expanded0 > length (c_inputs0 c) \<and>
           TotalFileSize (c_inputs1 c) + TotalFileSize expanded0 < ExpandedCompactionByteSizeLimit (vs_max_file_size vs)
        then do {
          let new_range = GetRange (vs_user vs) expanded0;
          expanded1 \<leftarrow> overlapping vs (c_level c + 1) new_range;
          if length expanded1 = length (c_inputs1 c)
          then Some (c\<lparr>c_inputs0 := expanded0, c_inputs1 := expanded1\<rparr>, new_range, GetRange2 (vs_user vs) expanded0 expanded1)
          else Some (c, rng, all)
        }
        else Some (c, rng, all)
      })"

definition SetupOtherInputs :: "version_set \<Rightarrow> compaction \<Rightarrow> (compaction \<times> version_set) option" where
  "SetupOtherInputs vs c = do {
     let level = c_level c;
     inputs0 \<leftarrow> AddBoundaryInputs (vs_user vs) (v_files (vs_current vs) ! level) (c_inputs0 c);
     let rng = GetRange (vs_user vs) inputs0;
     inputs1 \<leftarrow> overlapping vs (level + 1) rng;
     let all = GetRange2 (vs_user vs) inputs0 inputs1;
     (c, rng, all) \<leftarrow> expand_inputs vs (c\<lparr>c_inputs0 := inputs0, c_inputs1 := inputs1\<rparr>) rng all;
     grandparents \<leftarrow> (if level + 2 < kNumLevels then overlapping vs (level + 2) all else Some (c_grandparents c));
     Some (c\<lparr>c_grandparents := grandparents, c_edit := SetCompactPointer level (snd rng) (c_edit c)\<rparr>,
           vs\<lparr>vs_compact_pointer := (vs_compact_pointer vs)[level := snd rng]\<rparr>)
   }"

text \<open>The file to start from, by size or by seeks.\<close>

definition pick_file :: "version_set \<Rightarrow> (nat \<times> file_meta) option" where
  "pick_file vs =
     (let v = vs_current vs in
      if v_compaction_score v \<ge> 1 then
        let level = nat (v_compaction_level v);
            files = v_files v ! level;
            pointer = vs_compact_pointer vs ! level
        in case find (\<lambda>f. pointer = [] \<or> ikey_Compare (vs_user vs) (fm_largest f) pointer > 0) files of
             Some f \<Rightarrow> Some (level, f)
           | None \<Rightarrow> Some (level, files ! 0)
      else case v_file_to_compact v of
             Some f \<Rightarrow> Some (v_file_to_compact_level v, f)
           | None \<Rightarrow> None)"

text \<open>The inner option is the null pointer: nothing to compact.\<close>

definition PickCompaction :: "version_set \<Rightarrow> (compaction option \<times> version_set) option" where
  "PickCompaction vs =
     (case pick_file vs of
        None \<Rightarrow> Some (None, vs)
      | Some (level, f) \<Rightarrow> do {
          inputs0 \<leftarrow> (if level = 0 then overlapping vs 0 (GetRange (vs_user vs) [f]) else Some [f]);
          let vs = vs\<lparr>vs_current_refs := vs_current_refs vs + 1\<rparr>;
          (c, vs) \<leftarrow> SetupOtherInputs vs ((new_Compaction vs level)\<lparr>c_inputs0 := inputs0\<rparr>);
          Some (Some c, vs)
        })"

text \<open>A prefix of the files that reaches the limit.\<close>

fun truncate_inputs :: "int \<Rightarrow> int \<Rightarrow> file_meta list \<Rightarrow> file_meta list" where
  "truncate_inputs limit acc [] = []"
| "truncate_inputs limit acc (f # fs) =
     (let acc = acc + uint (fm_file_size f)
      in if acc \<ge> limit then [f] else f # truncate_inputs limit acc fs)"

definition CompactRange :: "version_set \<Rightarrow> nat \<Rightarrow> bytes option \<Rightarrow> bytes option \<Rightarrow> (compaction option \<times> version_set) option" where
  "CompactRange vs level bgn fin = do {
     inputs \<leftarrow> GetOverlappingInputs (vs_user vs) (v_files (vs_current vs)) level bgn fin;
     if inputs = [] then Some (None, vs)
     else do {
       let inputs = (if level > 0 then truncate_inputs (MaxFileSizeForLevel (vs_max_file_size vs) level) 0 inputs else inputs);
       let vs = vs\<lparr>vs_current_refs := vs_current_refs vs + 1\<rparr>;
       (c, vs) \<leftarrow> SetupOtherInputs vs ((new_Compaction vs level)\<lparr>c_inputs0 := inputs\<rparr>);
       Some (Some c, vs)
     }
   }"

section \<open>A running compaction\<close>

definition IsTrivialMove :: "version_set \<Rightarrow> compaction \<Rightarrow> bool" where
  "IsTrivialMove vs c \<longleftrightarrow>
     length (c_inputs0 c) = 1 \<and> length (c_inputs1 c) = 0 \<and>
     TotalFileSize (c_grandparents c) \<le> MaxGrandParentOverlapBytes (vs_max_file_size vs)"

definition AddInputDeletions :: "compaction \<Rightarrow> version_edit \<Rightarrow> version_edit" where
  "AddInputDeletions c e =
     fold (\<lambda>f. ve_RemoveFile (c_level c + 1) (fm_number f)) (c_inputs1 c)
       (fold (\<lambda>f. ve_RemoveFile (c_level c) (fm_number f)) (c_inputs0 c) e)"

text \<open>Moving the pointer of a level to the first file that does not end before the key.\<close>

function advance_ptr :: "comparator \<Rightarrow> bytes \<Rightarrow> file_meta list \<Rightarrow> nat \<Rightarrow> nat" where
  "advance_ptr user user_key files p =
     (if p < length files \<and> \<not> cmp_Compare user user_key (f_limit (files ! p)) \<le> 0
      then advance_ptr user user_key files (p + 1) else p)"
  by pat_completeness auto
termination by (relation "measure (\<lambda>(user, k, files, p). length files - p)") auto

declare advance_ptr.simps [simp del]

fun IsBaseLevelForKey_loop :: "comparator \<Rightarrow> bytes \<Rightarrow> file_meta list list \<Rightarrow> nat list \<Rightarrow> nat list \<Rightarrow> bool \<times> nat list" where
  "IsBaseLevelForKey_loop user user_key files [] level_ptrs = (True, level_ptrs)"
| "IsBaseLevelForKey_loop user user_key files (lvl # lvls) level_ptrs =
     (let p = advance_ptr user user_key (files ! lvl) (level_ptrs ! lvl);
          level_ptrs = level_ptrs[lvl := p]
      in if p < length (files ! lvl) \<and> cmp_Compare user user_key (f_start (files ! lvl ! p)) \<ge> 0
         then (False, level_ptrs)
         else IsBaseLevelForKey_loop user user_key files lvls level_ptrs)"

definition IsBaseLevelForKey :: "comparator \<Rightarrow> bytes \<Rightarrow> compaction \<Rightarrow> bool \<times> compaction" where
  "IsBaseLevelForKey user user_key c =
     (let (r, ptrs) = IsBaseLevelForKey_loop user user_key (v_files (c_input_version c)) [c_level c + 2..<kNumLevels] (c_level_ptrs c)
      in (r, c\<lparr>c_level_ptrs := ptrs\<rparr>))"

function ShouldStopBefore_loop :: "comparator \<Rightarrow> bytes \<Rightarrow> compaction \<Rightarrow> compaction" where
  "ShouldStopBefore_loop user ikey c =
     (if c_grandparent_index c < length (c_grandparents c) \<and>
         ikey_Compare user ikey (fm_largest (c_grandparents c ! c_grandparent_index c)) > 0
      then ShouldStopBefore_loop user ikey
             (c\<lparr>c_overlapped_bytes := (if c_seen_key c then c_overlapped_bytes c + uint (fm_file_size (c_grandparents c ! c_grandparent_index c))
                                       else c_overlapped_bytes c),
                c_grandparent_index := c_grandparent_index c + 1\<rparr>)
      else c)"
  by pat_completeness auto
termination by (relation "measure (\<lambda>(user, k, c). length (c_grandparents c) - c_grandparent_index c)") auto

declare ShouldStopBefore_loop.simps [simp del]

definition ShouldStopBefore :: "version_set \<Rightarrow> bytes \<Rightarrow> compaction \<Rightarrow> bool \<times> compaction" where
  "ShouldStopBefore vs ikey c =
     (let c = (ShouldStopBefore_loop (vs_user vs) ikey c)\<lparr>c_seen_key := True\<rparr>
      in if c_overlapped_bytes c > MaxGrandParentOverlapBytes (vs_max_file_size vs)
         then (True, c\<lparr>c_overlapped_bytes := 0\<rparr>) else (False, c))"

section \<open>The inputs are closed\<close>

context user_comparator
begin

definition version_wf :: "file_meta list list \<Rightarrow> bool" where
  "version_wf files \<longleftrightarrow>
     length files = kNumLevels \<and> (\<forall>f \<in> set (files ! 0). file_wf f) \<and>
     (\<forall>i. 0 < i \<longrightarrow> i < kNumLevels \<longrightarrow> level_sorted (files ! i))"

lemma version_wf_files: "version_wf files \<Longrightarrow> i < kNumLevels \<Longrightarrow> f \<in> set (files ! i) \<Longrightarrow> file_wf f"
  unfolding version_wf_def level_sorted_def by (cases "i = 0") auto

text \<open>
  In a sorted level the inputs have no gaps; in level zero no file outside shares user keys with one inside.
\<close>

definition segment :: "file_meta list \<Rightarrow> file_meta list \<Rightarrow> bool" where
  "segment files fs \<longleftrightarrow>
     set fs \<subseteq> set files \<and>
     (\<forall>f \<in> set fs. \<forall>h \<in> set fs. \<forall>g \<in> set files.
        ik.less (fm_largest f) (fm_smallest g) \<longrightarrow> ik.less (fm_largest g) (fm_smallest h) \<longrightarrow> g \<in> set fs)"

definition apart :: "file_meta \<Rightarrow> file_meta \<Rightarrow> bool" where
  "apart f g \<longleftrightarrow> less (f_limit f) (f_start g) \<or> less (f_limit g) (f_start f)"

definition closed0 :: "file_meta list \<Rightarrow> file_meta list \<Rightarrow> bool" where
  "closed0 files fs \<longleftrightarrow> set fs \<subseteq> set files \<and> (\<forall>f \<in> set fs. \<forall>g \<in> set files - set fs. apart f g)"

definition inputs_ok :: "file_meta list list \<Rightarrow> nat \<Rightarrow> file_meta list \<Rightarrow> bool" where
  "inputs_ok files level fs \<longleftrightarrow> fs \<noteq> [] \<and> (if level = 0 then closed0 (files ! 0) fs else segment (files ! level) fs)"

lemma file_user: "file_wf f \<Longrightarrow> cmp_Compare cmp (f_start f) (f_limit f) \<le> 0"
  using ikey_le_user unfolding file_wf_def by blast

text \<open>Two files of a sorted level: one is before the other.\<close>

lemma level_sorted_cases:
  assumes "level_sorted files" and "f \<in> set files" and "g \<in> set files"
  obtains "f = g" | "ik.less (fm_largest f) (fm_smallest g)" | "ik.less (fm_largest g) (fm_smallest f)"
proof -
  obtain i j where i: "i < length files" "f = files ! i" and j: "j < length files" "g = files ! j"
    using assms(2,3) by (auto simp: in_set_conv_nth)
  have s: "sorted_wrt (\<lambda>f g. ik.less (fm_largest f) (fm_smallest g)) files" using assms(1) by (simp add: level_sorted_def)
  consider "i = j" | "i < j" | "j < i" by linarith
  then show thesis
  proof cases
    case 1 then show ?thesis using i j that(1) by simp
  next
    case 2 then show ?thesis using sorted_wrt_nth_less [OF s, of i j] i j that(2) by simp
  next
    case 3 then show ?thesis using sorted_wrt_nth_less [OF s, of j i] i j that(3) by simp
  qed
qed

lemma less_largest: "file_wf f \<Longrightarrow> ik.less k (fm_smallest f) \<Longrightarrow> ik.less k (fm_largest f)"
  using ik_less_le unfolding file_wf_def by blast

lemma not_both: "file_wf f \<Longrightarrow> \<not> ik.less (fm_largest f) (fm_smallest f)"
  using ik_less_le ik_irrefl unfolding file_wf_def by blast

text \<open>A boundary file keeps a segment without gaps, and is already in a closed set of level zero.\<close>

lemma segment_boundary:
  assumes "segment files fs" and "level_sorted files" and "is_largest fs k" and "FindSmallestBoundaryFile cmp files k = Some f"
  shows "segment files (fs @ [f])"
proof -
  have f: "f \<in> set files" "boundary k f" using FindSmallestBoundaryFile_spec(2) [OF assms(4)] by blast+
  have wf: "file_wf g" if "g \<in> set files" for g using assms(2) that unfolding level_sorted_def by blast
  have sub: "set fs \<subseteq> set files" using assms(1) by (simp add: segment_def)
  obtain m where m: "m \<in> set fs" "k = fm_largest m" using assms(3) by (auto simp: is_largest_def)
  have largest: "\<not> ik.less k (fm_smallest g)" if "g \<in> set fs" for g
    using assms(3) that less_largest [OF wf] sub ik_less_le ik_irrefl unfolding is_largest_def by blast
  have kf: "ik.less k (fm_smallest f)" using f(2) by (simp add: boundary_def)
  have gap: "g \<in> set fs" if g: "g \<in> set files" "e \<in> set fs" "ik.less (fm_largest e) (fm_smallest g)" "ik.less (fm_largest g) (fm_smallest f)" for e g
  proof (cases rule: level_sorted_cases [OF assms(2), of m g])
    case 4
    text \<open>then \<open>g\<close> would be a smaller boundary file\<close>
    have kg: "ik.less k (fm_smallest g)" using 4 m by simp
    have gf: "ik.less (fm_smallest g) (fm_smallest f)"
      using ik_le_less g(4) wf [OF g(1)] unfolding file_wf_def by blast
    have "cmp_Compare cmp (ExtractUserKey k) (f_start g) \<le> 0" "cmp_Compare cmp (f_start g) (f_start f) \<le> 0"
      using ikey_less_user [OF kg] ikey_less_user [OF gf] .
    moreover have fk: "cmp_Compare cmp (f_start f) (ExtractUserKey k) = 0" using f(2) by (simp add: boundary_def)
    ultimately have "cmp_Compare cmp (f_start g) (ExtractUserKey k) \<le> 0"
      using trans [of "f_start g" "f_start f" "ExtractUserKey k"] by simp
    with \<open>cmp_Compare cmp (ExtractUserKey k) (f_start g) \<le> 0\<close> have "cmp_Compare cmp (f_start g) (ExtractUserKey k) = 0"
      using compare_ge [of "f_start g" "ExtractUserKey k"] by simp
    then have "boundary k g" using kg by (simp add: boundary_def)
    then show ?thesis using FindSmallestBoundaryFile_spec(3) [OF assms(4) g(1)] gf by blast
  next
    case 5
    then have "ik.less (fm_largest g) (fm_smallest m)" .
    then show ?thesis using assms(1) g(1-3) m(1) unfolding segment_def by blast
  qed (use m g sub in auto)
  show ?thesis
    unfolding segment_def
  proof (intro conjI ballI impI)
    show "set (fs @ [f]) \<subseteq> set files" using sub f(1) by simp
    fix a h g
    assume a: "a \<in> set (fs @ [f])" and h: "h \<in> set (fs @ [f])" and g: "g \<in> set files"
      and ag: "ik.less (fm_largest a) (fm_smallest g)" and gh: "ik.less (fm_largest g) (fm_smallest h)"
    show "g \<in> set (fs @ [f])"
    proof (cases "a \<in> set fs")
      case True
      have "h \<in> set fs \<or> h = f" using h by auto
      then have "g \<in> set fs"
      proof
        assume "h \<in> set fs"
        then show ?thesis using assms(1) g True ag gh unfolding segment_def by blast
      next
        assume "h = f"
        then show ?thesis using gap [OF g True ag] gh by simp
      qed
      then show ?thesis by simp
    next
      case False
      then have "a = f" using a by simp
      then have "ik.less (fm_largest f) (fm_largest g)" using less_largest [OF wf [OF g]] ag by simp
      then have "ik.less (fm_largest f) (fm_smallest h)" using gh ik_trans by blast
      moreover have kl: "ik.less k (fm_largest f)" by (rule less_largest [OF wf [OF f(1)] kf])
      ultimately have hf: "ik.less k (fm_smallest h)" "ik.less (fm_largest f) (fm_smallest h)" using ik_trans by blast+
      have "h = f \<or> h \<in> set fs" using h by auto
      then show ?thesis
      proof
        assume "h = f"
        then show ?thesis using hf(2) not_both [OF wf [OF f(1)]] by simp
      next
        assume "h \<in> set fs"
        then show ?thesis using largest hf(1) by blast
      qed
    qed
  qed
qed

lemma closed0_boundary:
  assumes "closed0 files fs" and "\<forall>f \<in> set files. file_wf f" and "is_largest fs k" and "FindSmallestBoundaryFile cmp files k = Some f"
  shows "closed0 files (fs @ [f])"
proof -
  have f: "f \<in> set files" "boundary k f" using FindSmallestBoundaryFile_spec(2) [OF assms(4)] by blast+
  obtain m where m: "m \<in> set fs" "k = fm_largest m" using assms(3) by (auto simp: is_largest_def)
  have sub: "set fs \<subseteq> set files" using assms(1) by (simp add: closed0_def)
  have eq: "cmp_Compare cmp (f_start f) (f_limit m) = 0" using f(2) m(2) by (simp add: boundary_def)
  have "\<not> apart m f"
  proof -
    have "\<not> less (f_limit m) (f_start f)" using eq compare_eq_sym [of "f_start f" "f_limit m"] by simp
    moreover have "cmp_Compare cmp (f_start m) (f_limit m) \<le> 0" "cmp_Compare cmp (f_start f) (f_limit f) \<le> 0"
      using assms(2) m(1) f(1) sub file_user by blast+
    then have "cmp_Compare cmp (f_start m) (f_limit f) \<le> 0"
      using trans [of "f_start m" "f_limit m" "f_start f"] trans [of "f_start m" "f_start f" "f_limit f"]
        eq compare_eq_sym [of "f_start f" "f_limit m"] by simp
    then have "\<not> less (f_limit f) (f_start m)" using not_less by simp
    ultimately show ?thesis by (simp add: apart_def)
  qed
  then have "f \<in> set fs" using assms(1) m(1) f(1) unfolding closed0_def by blast
  then have "set (fs @ [f]) = set fs" by auto
  then show ?thesis using assms(1) unfolding closed0_def by simp
qed

lemma AddBoundaryInputs_ok:
  assumes "version_wf files" and "level < kNumLevels" and "inputs_ok files level fs"
  shows "\<exists>added. AddBoundaryInputs cmp (files ! level) fs = Some (fs @ added) \<and> inputs_ok files level (fs @ added) \<and>
    (\<forall>k. is_largest (fs @ added) k \<longrightarrow> (\<forall>f \<in> set (files ! level). \<not> boundary k f))"
proof -
  have wf: "\<forall>f \<in> set (files ! level). file_wf f" using assms(1,2) version_wf_files by blast
  have step: "inputs_ok files level (gs @ [f])"
    if "inputs_ok files level gs" "is_largest gs k" "FindSmallestBoundaryFile cmp (files ! level) k = Some f" for gs k f
    using that assms(1,2) segment_boundary [of "files ! level" gs k f] closed0_boundary [of "files ! 0" gs k f] wf
    by (auto simp: inputs_ok_def version_wf_def)
  from AddBoundaryInputs_spec [where Q = "inputs_ok files level", OF assms(3) wf] step show ?thesis by blast
qed

text \<open>What makes it safe to move the inputs down: nothing older of a user key stays behind.\<close>

definition compaction_ok :: "file_meta list list \<Rightarrow> compaction \<Rightarrow> bool" where
  "compaction_ok files c \<longleftrightarrow>
     c_level c + 1 < kNumLevels \<and> c_inputs0 c \<noteq> [] \<and> set (c_inputs0 c) \<subseteq> set (files ! c_level c) \<and>
     c_inputs1 c = filter (\<lambda>g. \<not> less (f_limit g) (ExtractUserKey (fst (GetRange cmp (c_inputs0 c)))) \<and>
                               \<not> less (ExtractUserKey (snd (GetRange cmp (c_inputs0 c)))) (f_start g)) (files ! (c_level c + 1)) \<and>
     (\<forall>f \<in> set (c_inputs0 c). \<forall>g \<in> set (files ! c_level c) - set (c_inputs0 c).
        if c_level c = 0 then apart f g
        else ik.less (fm_largest f) (fm_smallest g) \<longrightarrow> less (f_limit f) (f_start g))"

lemma inputs_closed:
  assumes "version_wf files" and "level < kNumLevels" and "inputs_ok files level fs"
    and "\<forall>k. is_largest fs k \<longrightarrow> (\<forall>f \<in> set (files ! level). \<not> boundary k f)"
    and "f \<in> set fs" and "g \<in> set (files ! level) - set fs"
  shows "if level = 0 then apart f g else ik.less (fm_largest f) (fm_smallest g) \<longrightarrow> less (f_limit f) (f_start g)"
proof (cases "level = 0")
  case True
  then show ?thesis using assms(3,5,6) unfolding inputs_ok_def closed0_def by auto
next
  case False
  have srt: "level_sorted (files ! level)" using assms(1,2) False by (simp add: version_wf_def)
  have wf: "\<And>h. h \<in> set (files ! level) \<Longrightarrow> file_wf h" using srt unfolding level_sorted_def by blast
  have seg: "segment (files ! level) fs" using assms(3) False by (simp add: inputs_ok_def)
  obtain k where k: "is_largest fs k" using FindLargestKey_spec assms(3) unfolding inputs_ok_def by (metis option.exhaust)
  then obtain m where m: "m \<in> set fs" "k = fm_largest m" by (auto simp: is_largest_def)
  have "less (f_limit f) (f_start g)" if fg: "ik.less (fm_largest f) (fm_smallest g)"
  proof (rule ccontr)
    assume n: "\<not> less (f_limit f) (f_start g)"
    have sub: "m \<in> set (files ! level)" "f \<in> set (files ! level)" "g \<in> set (files ! level)"
      using seg m(1) assms(5,6) unfolding segment_def by blast+
    have mg: "ik.less (fm_largest m) (fm_smallest g)"
    proof (cases rule: level_sorted_cases [OF srt sub(1,3)])
      case 1 then show ?thesis using assms(6) m(1) by simp
    next
      case 3 then show ?thesis using seg fg m(1) assms(5,6) sub(3) unfolding segment_def by blast
    qed
    have "cmp_Compare cmp (f_limit f) (f_limit m) \<le> 0"
      using k assms(5) ikey_le_user [of "fm_largest f" "fm_largest m"] unfolding is_largest_def m(2) by blast
    moreover have "cmp_Compare cmp (f_limit m) (f_start g) \<le> 0" using ikey_less_user [OF mg] .
    moreover have "cmp_Compare cmp (f_start g) (f_limit f) \<le> 0" using n not_less by simp
    ultimately have "cmp_Compare cmp (f_start g) (f_limit m) = 0"
      using user_trans [of "f_start g" "f_limit f" "f_limit m"] user_antisym by blast
    then have "boundary k g" using mg m(2) by (simp add: boundary_def)
    then show False using assms(4) k sub(3) by blast
  qed
  then show ?thesis using False by simp
qed

text \<open>Starting points: the files that overlap a range, and one file.\<close>

lemma overlapping_ok:
  assumes "version_wf files" and "level < kNumLevels" and "f \<in> set (files ! level)"
    and "overlaps (map_option ExtractUserKey bgn) (map_option ExtractUserKey fin) f"
    and "GetOverlappingInputs cmp files level bgn fin = Some fs"
  shows "f \<in> set fs"
proof -
  obtain b' e' where r: "fs = filter (overlaps b' e') (files ! level)"
    "wider (files ! level) (map_option ExtractUserKey bgn) (map_option ExtractUserKey fin) b' e'"
    using GetOverlappingInputs_spec [of files level bgn fin] assms(5) by auto
  have "overlaps b' e' f"
    using r(2) assms(4) user_less_trans unfolding wider_def overlaps_def before_range_def after_range_def by fastforce
  then show ?thesis using r(1) assms(3) by simp
qed

lemma GetOverlappingInputs_inputs_ok:
  assumes "version_wf files" and "level < kNumLevels" and "GetOverlappingInputs cmp files level bgn fin = Some fs" and "fs \<noteq> []"
  shows "inputs_ok files level fs"
proof -
  obtain b' e' where r: "fs = filter (overlaps b' e') (files ! level)"
    "level = 0 \<longrightarrow> (\<forall>f \<in> set (files ! level). overlaps b' e' f \<longrightarrow> inside b' e' f)"
    using GetOverlappingInputs_spec [of files level bgn fin] assms(3) by auto
  show ?thesis
  proof (cases "level = 0")
    case True
    have "apart f g" if "f \<in> set fs" "g \<in> set (files ! 0) - set fs" for f g
    proof -
      have w: "inside b' e' f" using r that(1) True by auto
      have "before_range g b' \<or> after_range g e'" using r(1) that(2) True by (auto simp: overlaps_def)
      then show ?thesis
      proof
        assume "before_range g b'"
        then obtain b where "b' = Some b" "less (f_limit g) b" by (auto simp: before_range_def)
        moreover have "cmp_Compare cmp b (f_start f) \<le> 0" using w \<open>b' = Some b\<close> not_less by (simp add: inside_def)
        ultimately show ?thesis using less_le_trans [of "f_limit g" b "f_start f"] by (simp add: apart_def)
      next
        assume "after_range g e'"
        then obtain e where "e' = Some e" "less e (f_start g)" by (auto simp: after_range_def)
        moreover have "cmp_Compare cmp (f_limit f) e \<le> 0" using w \<open>e' = Some e\<close> not_less by (simp add: inside_def)
        ultimately show ?thesis using le_less_trans [of "f_limit f" e "f_start g"] by (simp add: apart_def)
      qed
    qed
    then show ?thesis using True r(1) assms(4) by (auto simp: inputs_ok_def closed0_def)
  next
    case False
    have srt: "level_sorted (files ! level)" using assms(1,2) False by (simp add: version_wf_def)
    have "segment (files ! level) fs"
      unfolding segment_def
    proof (intro conjI ballI impI)
      show "set fs \<subseteq> set (files ! level)" using r(1) by simp
      fix f h g
      assume f: "f \<in> set fs" and h: "h \<in> set fs" and g: "g \<in> set (files ! level)"
        and fg: "ik.less (fm_largest f) (fm_smallest g)" and gh: "ik.less (fm_largest g) (fm_smallest h)"
      have u: "cmp_Compare cmp (f_limit f) (f_start g) \<le> 0" "cmp_Compare cmp (f_limit g) (f_start h) \<le> 0"
        using ikey_less_user [OF fg] ikey_less_user [OF gh] .
      have gg: "cmp_Compare cmp (f_start g) (f_limit g) \<le> 0" using g srt file_user unfolding level_sorted_def by blast
      have o: "overlaps b' e' f" "overlaps b' e' h" using f h r(1) by auto
      have fgl: "cmp_Compare cmp (f_limit f) (f_limit g) \<le> 0" and gsh: "cmp_Compare cmp (f_start g) (f_start h) \<le> 0"
        using user_trans [OF u(1) gg] user_trans [OF gg u(2)] .
      have "\<not> before_range g b'"
        using o(1) user_le_less [OF fgl] unfolding overlaps_def before_range_def by blast
      moreover have "\<not> after_range g e'"
        using o(2) user_less_le [OF _ gsh] unfolding overlaps_def after_range_def by blast
      ultimately show "g \<in> set fs" using g r(1) by (simp add: overlaps_def)
    qed
    then show ?thesis using False assms(4) by (simp add: inputs_ok_def)
  qed
qed

text \<open>The files that go along from the next level are those the range of the inputs meets.\<close>

definition next_inputs :: "file_meta list list \<Rightarrow> nat \<Rightarrow> bytes \<times> bytes \<Rightarrow> file_meta list" where
  "next_inputs files level r =
     filter (\<lambda>g. \<not> less (f_limit g) (ExtractUserKey (fst r)) \<and> \<not> less (ExtractUserKey (snd r)) (f_start g)) (files ! level)"

lemma overlapping_next:
  assumes "vs_user vs = cmp" and "0 < level"
  shows "overlapping vs level r = Some (next_inputs (v_files (vs_current vs)) level r)"
proof -
  have "overlaps (Some (ExtractUserKey (fst r))) (Some (ExtractUserKey (snd r))) =
      (\<lambda>g. \<not> less (f_limit g) (ExtractUserKey (fst r)) \<and> \<not> less (ExtractUserKey (snd r)) (f_start g))"
    by (rule ext) (simp add: overlaps_def before_range_def after_range_def)
  moreover obtain b e where
    "GetOverlappingInputs cmp (v_files (vs_current vs)) level (Some (fst r)) (Some (snd r)) = Some (filter (overlaps b e) (v_files (vs_current vs) ! level))"
    "b = Some (ExtractUserKey (fst r))" "e = Some (ExtractUserKey (snd r))"
    using GetOverlappingInputs_spec [of "v_files (vs_current vs)" level "Some (fst r)" "Some (snd r)"] assms(2) by auto
  ultimately show ?thesis using assms(1) by (simp add: overlapping_def next_inputs_def)
qed

definition chosen :: "file_meta list list \<Rightarrow> nat \<Rightarrow> file_meta list \<Rightarrow> bool" where
  "chosen files level fs \<longleftrightarrow>
     inputs_ok files level fs \<and> set fs \<subseteq> set (files ! level) \<and> (\<forall>k. is_largest fs k \<longrightarrow> (\<forall>f \<in> set (files ! level). \<not> boundary k f))"

lemma inputs_ok_subset: "inputs_ok files level fs \<Longrightarrow> set fs \<subseteq> set (files ! level)"
  by (auto simp: inputs_ok_def closed0_def segment_def split: if_splits)

lemma AddBoundaryInputs_chosen:
  assumes "version_wf files" and "level < kNumLevels" and "inputs_ok files level fs"
  obtains added where "AddBoundaryInputs cmp (files ! level) fs = Some (fs @ added)" and "chosen files level (fs @ added)"
  using AddBoundaryInputs_ok [OF assms] inputs_ok_subset unfolding chosen_def by blast

lemma range_overlaps:
  assumes "in_range r fs" and "f \<in> set fs" and "file_wf f"
  shows "overlaps (Some (ExtractUserKey (fst r))) (Some (ExtractUserKey (snd r))) f"
proof -
  note u = in_range_user [OF assms(1,2)] file_user [OF assms(3)]
  have "cmp_Compare cmp (ExtractUserKey (fst r)) (f_limit f) \<le> 0" "cmp_Compare cmp (f_start f) (ExtractUserKey (snd r)) \<le> 0"
    using user_trans [OF u(1,3)] user_trans [OF u(3,2)] .
  then show ?thesis using not_less by (simp add: overlaps_def before_range_def after_range_def)
qed

text \<open>Growing the inputs keeps what is required of them.\<close>

lemma expand_inputs_ok:
  assumes "version_wf files" and "files = v_files (vs_current vs)" and "vs_user vs = cmp" and "c_level c + 1 < kNumLevels"
    and "chosen files (c_level c) (c_inputs0 c)" and "rng = GetRange cmp (c_inputs0 c)"
    and "c_inputs1 c = next_inputs files (c_level c + 1) rng" and "all = GetRange2 cmp (c_inputs0 c) (c_inputs1 c)"
  shows "\<exists>fs gs all'. expand_inputs vs c rng all = Some (c\<lparr>c_inputs0 := fs, c_inputs1 := gs\<rparr>, GetRange cmp fs, all') \<and>
    chosen files (c_level c) fs \<and> set (c_inputs0 c) \<subseteq> set fs \<and> gs = next_inputs files (c_level c + 1) (GetRange cmp fs)"
proof -
  have keep: "expand_inputs vs c rng all = Some (c, rng, all) \<Longrightarrow> ?thesis"
    using assms(5-7) by (intro exI [of _ "c_inputs0 c"] exI [of _ "c_inputs1 c"] exI [of _ all]) auto
  have l: "c_level c < kNumLevels" using assms(4) by simp
  obtain ex where ex: "overlapping vs (c_level c) all = Some ex"
    using GetOverlappingInputs_spec unfolding overlapping_def assms(3) by blast
  have sub: "set (c_inputs0 c) \<subseteq> set (files ! c_level c)" "c_inputs0 c \<noteq> []"
    using assms(5) by (auto simp: chosen_def inputs_ok_def)
  have rng: "in_range all (c_inputs0 c @ c_inputs1 c)"
    using GetRange_spec [of "c_inputs0 c @ c_inputs1 c"] sub(2) assms(8) by (simp add: GetRange2_def)
  have ex_sub: "set (c_inputs0 c) \<subseteq> set ex"
  proof
    fix f
    assume f: "f \<in> set (c_inputs0 c)"
    then have ff: "f \<in> set (files ! c_level c)" using sub by blast
    have o: "overlaps (map_option ExtractUserKey (Some (fst all))) (map_option ExtractUserKey (Some (snd all))) f"
      using range_overlaps [OF rng, of f] f version_wf_files [OF assms(1) l ff] by simp
    show "f \<in> set ex"
      by (rule overlapping_ok [OF assms(1) l ff o]) (use ex assms(2,3) in \<open>simp add: overlapping_def\<close>)
  qed
  then have "ex \<noteq> []" using sub(2) by auto
  then have "inputs_ok files (c_level c) ex"
    using GetOverlappingInputs_inputs_ok [OF assms(1) l, of "Some (fst all)" "Some (snd all)" ex] ex assms(2,3)
    by (simp add: overlapping_def)
  from AddBoundaryInputs_chosen [OF assms(1) l this] obtain added where
    added: "AddBoundaryInputs cmp (files ! c_level c) ex = Some (ex @ added)" "chosen files (c_level c) (ex @ added)" .
  let ?fs = "ex @ added"
  let ?gs = "next_inputs files (c_level c + 1) (GetRange cmp ?fs)"
  have ov1: "overlapping vs (c_level c + 1) (GetRange cmp ?fs) = Some ?gs"
    using overlapping_next [OF assms(3), of "c_level c + 1"] assms(2) by simp
  show ?thesis
  proof (cases "c_inputs1 c = [] \<or> \<not> (length ?fs > length (c_inputs0 c) \<and>
      TotalFileSize (c_inputs1 c) + TotalFileSize ?fs < ExpandedCompactionByteSizeLimit (vs_max_file_size vs)) \<or>
      length ?gs \<noteq> length (c_inputs1 c)")
    case True
    show ?thesis
      by (rule keep) (use True ex added(1) ov1 assms(2,3) in \<open>auto simp: expand_inputs_def Let_def\<close>)
  next
    case False
    then have "expand_inputs vs c rng all = Some (c\<lparr>c_inputs0 := ?fs, c_inputs1 := ?gs\<rparr>, GetRange cmp ?fs, GetRange2 cmp ?fs ?gs)"
      using ex added(1) ov1 assms(2,3) by (auto simp: expand_inputs_def Let_def)
    moreover have "set (c_inputs0 c) \<subseteq> set ?fs" using ex_sub by auto
    ultimately show ?thesis using added(2) by blast
  qed
qed

lemma SetupOtherInputs_ok:
  assumes "version_wf (v_files (vs_current vs))" and "vs_user vs = cmp" and "c_level c + 1 < kNumLevels"
    and "inputs_ok (v_files (vs_current vs)) (c_level c) (c_inputs0 c)"
  shows "\<exists>c' vs'. SetupOtherInputs vs c = Some (c', vs') \<and> compaction_ok (v_files (vs_current vs)) c' \<and>
    c_level c' = c_level c \<and> set (c_inputs0 c) \<subseteq> set (c_inputs0 c') \<and>
    vs' = vs\<lparr>vs_compact_pointer := (vs_compact_pointer vs)[c_level c := snd (GetRange cmp (c_inputs0 c'))]\<rparr>"
proof -
  let ?files = "v_files (vs_current vs)"
  have l: "c_level c < kNumLevels" using assms(3) by simp
  obtain added where added: "AddBoundaryInputs cmp (?files ! c_level c) (c_inputs0 c) = Some (c_inputs0 c @ added)"
    "chosen ?files (c_level c) (c_inputs0 c @ added)"
    by (rule AddBoundaryInputs_chosen [OF assms(1) l assms(4)])
  let ?in0 = "c_inputs0 c @ added"
  let ?rng = "GetRange cmp ?in0"
  let ?in1 = "next_inputs ?files (c_level c + 1) ?rng"
  let ?c = "c\<lparr>c_inputs0 := ?in0, c_inputs1 := ?in1\<rparr>"
  have ov: "overlapping vs (c_level c + 1) ?rng = Some ?in1" using overlapping_next [OF assms(2), of "c_level c + 1"] by simp
  obtain fs gs all where e:
    "expand_inputs vs ?c ?rng (GetRange2 cmp ?in0 ?in1) = Some (?c\<lparr>c_inputs0 := fs, c_inputs1 := gs\<rparr>, GetRange cmp fs, all)"
    "chosen ?files (c_level c) fs" "set ?in0 \<subseteq> set fs" "gs = next_inputs ?files (c_level c + 1) (GetRange cmp fs)"
    using expand_inputs_ok [OF assms(1) HOL.refl assms(2), of ?c ?rng "GetRange2 cmp ?in0 ?in1"] assms(3) added(2) by auto
  obtain gp where gp: "overlapping vs (c_level c + 2) all = Some gp"
    using overlapping_next [OF assms(2), of "c_level c + 2"] by simp
  let ?c' = "c\<lparr>c_inputs0 := fs, c_inputs1 := gs,
      c_grandparents := (if c_level c + 2 < kNumLevels then gp else c_grandparents c),
      c_edit := SetCompactPointer (c_level c) (snd (GetRange cmp fs)) (c_edit c)\<rparr>"
  have "SetupOtherInputs vs c = Some (?c', vs\<lparr>vs_compact_pointer := (vs_compact_pointer vs)[c_level c := snd (GetRange cmp fs)]\<rparr>)"
    using added(1) ov e(1) gp assms(2) by (cases "c_level c + 2 < kNumLevels") (simp_all add: SetupOtherInputs_def Let_def)
  moreover have "compaction_ok ?files ?c'"
    using e(2,4) assms(3) inputs_closed [OF assms(1) l, of fs]
    by (auto simp: compaction_ok_def chosen_def next_inputs_def inputs_ok_def)
  ultimately show ?thesis using e(3)
    by (intro exI [of _ ?c'] exI [of _ "vs\<lparr>vs_compact_pointer := (vs_compact_pointer vs)[c_level c := snd (GetRange cmp fs)]\<rparr>"]) simp
qed

text \<open>What a version promises about the compaction it asks for.\<close>

definition wants_ok :: "version \<Rightarrow> bool" where
  "wants_ok v \<longleftrightarrow>
     (v_compaction_score v \<ge> 1 \<longrightarrow> 0 \<le> v_compaction_level v \<and> v_compaction_level v + 1 < int kNumLevels \<and>
        v_files v ! nat (v_compaction_level v) \<noteq> []) \<and>
     (\<forall>f. v_file_to_compact v = Some f \<longrightarrow> v_file_to_compact_level v + 1 < kNumLevels \<and> f \<in> set (v_files v ! v_file_to_compact_level v))"

lemma single_inputs_ok:
  assumes "version_wf files" and "level < kNumLevels" and "0 < level" and "f \<in> set (files ! level)"
  shows "inputs_ok files level [f]"
proof -
  have srt: "level_sorted (files ! level)" using assms(1-3) by (simp add: version_wf_def)
  have "\<not> (ik.less (fm_largest f) (fm_smallest g) \<and> ik.less (fm_largest g) (fm_smallest f))" if "g \<in> set (files ! level)" for g
    using less_largest [of g "fm_largest f"] not_both [of f] ik_trans srt that assms(4) unfolding level_sorted_def by blast
  then show ?thesis using assms(3,4) by (auto simp: inputs_ok_def segment_def)
qed

lemma PickCompaction_ok:
  assumes "version_wf (v_files (vs_current vs))" and "wants_ok (vs_current vs)" and "vs_user vs = cmp"
  shows "case pick_file vs of
      None \<Rightarrow> PickCompaction vs = Some (None, vs)
    | Some (level, f) \<Rightarrow> \<exists>c. PickCompaction vs =
          Some (Some c, vs\<lparr>vs_current_refs := vs_current_refs vs + 1, vs_compact_pointer := (vs_compact_pointer vs)[level := snd (GetRange cmp (c_inputs0 c))]\<rparr>) \<and>
        c_level c = level \<and> f \<in> set (c_inputs0 c) \<and> compaction_ok (v_files (vs_current vs)) c"
proof (cases "pick_file vs")
  case None
  then show ?thesis by (simp add: PickCompaction_def)
next
  case (Some p)
  then obtain level f where p: "pick_file vs = Some (level, f)" by (cases p) auto
  let ?files = "v_files (vs_current vs)"
  let ?vs = "vs\<lparr>vs_current_refs := vs_current_refs vs + 1\<rparr>"
  have lf: "level + 1 < kNumLevels" "f \<in> set (?files ! level)"
    using p assms(2) by (auto simp: pick_file_def wants_ok_def Let_def find_Some_iff nth_mem split: if_splits option.splits)
  have l: "level < kNumLevels" using lf by simp
  have wf: "file_wf f" using version_wf_files [OF assms(1) l lf(2)] .
  have "\<exists>fs. (if level = 0 then overlapping vs 0 (GetRange cmp [f]) else Some [f]) = Some fs \<and> inputs_ok ?files level fs \<and> f \<in> set fs"
  proof (cases "level = 0")
    case True
    obtain fs where fs: "GetOverlappingInputs cmp ?files 0 (Some (fm_smallest f)) (Some (fm_largest f)) = Some fs"
      using GetOverlappingInputs_spec by blast
    have "f \<in> set fs"
      by (rule overlapping_ok [OF assms(1) _ _ _ fs])
        (use True lf(2) wf range_overlaps [of "GetRange cmp [f]" "[f]" f] GetRange_spec [of "[f]"] in
          \<open>simp_all add: GetRange_def kNumLevels_def\<close>)
    moreover from this have "inputs_ok ?files 0 fs" using GetOverlappingInputs_inputs_ok [OF assms(1) _ fs] by (force simp: kNumLevels_def)
    ultimately show ?thesis using fs True assms(3) by (simp add: overlapping_def GetRange_def)
  next
    case False
    then show ?thesis using single_inputs_ok [OF assms(1) l _ lf(2)] by simp
  qed
  then obtain fs where fs: "(if level = 0 then overlapping vs 0 (GetRange cmp [f]) else Some [f]) = Some fs"
    "inputs_ok ?files level fs" "f \<in> set fs" by blast
  obtain c' vs' where c': "SetupOtherInputs ?vs ((new_Compaction ?vs level)\<lparr>c_inputs0 := fs\<rparr>) = Some (c', vs')"
    "compaction_ok ?files c'" "c_level c' = level" "set fs \<subseteq> set (c_inputs0 c')"
    "vs' = vs\<lparr>vs_current_refs := vs_current_refs vs + 1, vs_compact_pointer := (vs_compact_pointer vs)[level := snd (GetRange cmp (c_inputs0 c'))]\<rparr>"
    using SetupOtherInputs_ok [of ?vs "(new_Compaction ?vs level)\<lparr>c_inputs0 := fs\<rparr>"] assms(1,3) lf(1) fs(2)
    by (auto simp: new_Compaction_def)
  have "PickCompaction vs = Some (Some c', vs')" using p fs(1) c'(1) assms(3) by (cases "level = 0") (simp_all add: PickCompaction_def)
  then show ?thesis using c' fs(3) p by auto
qed

text \<open>Cutting a compaction short keeps a prefix of the files, which has no gaps either.\<close>

lemma truncate_inputs_prefix: "\<exists>n. truncate_inputs limit acc fs = take n fs \<and> (fs \<noteq> [] \<longrightarrow> n > 0)"
proof (induction fs arbitrary: acc)
  case (Cons f fs)
  obtain n where "truncate_inputs limit (acc + uint (fm_file_size f)) fs = take n fs" using Cons.IH by blast
  then show ?case
    by (cases "acc + uint (fm_file_size f) \<ge> limit") (auto simp: Let_def intro: exI [of _ 1] exI [of _ "Suc n"])
qed simp

lemma segment_prefix:
  assumes "segment files fs" and "level_sorted fs"
  shows "segment files (take n fs)"
  unfolding segment_def
proof (intro conjI ballI impI)
  show "set (take n fs) \<subseteq> set files" using assms(1) set_take_subset [of n fs] unfolding segment_def by blast
  fix f h g
  assume f: "f \<in> set (take n fs)" and h: "h \<in> set (take n fs)" and g: "g \<in> set files"
    and fg: "ik.less (fm_largest f) (fm_smallest g)" and gh: "ik.less (fm_largest g) (fm_smallest h)"
  have "g \<in> set fs" using assms(1) f h g fg gh in_set_takeD unfolding segment_def by metis
  then obtain i where i: "i < length fs" "g = fs ! i" by (auto simp: in_set_conv_nth)
  obtain j where j: "j < n" "j < length fs" "h = fs ! j" using h by (auto simp: in_set_conv_nth)
  have wf: "file_wf g" "file_wf h" using assms(2) i j unfolding level_sorted_def by auto
  have "i < j"
  proof (rule ccontr)
    assume "\<not> i < j"
    moreover have "i \<noteq> j" using gh not_both [OF wf(1)] i j by auto
    ultimately have "j < i" by simp
    then have "ik.less (fm_largest h) (fm_smallest g)"
      using sorted_wrt_nth_less [of _ fs j i] assms(2) i j unfolding level_sorted_def by blast
    then have "ik.less (fm_largest h) (fm_largest g)" using less_largest wf(1) by blast
    then show False using gh not_both [OF wf(2)] ik_trans by blast
  qed
  then show "g \<in> set (take n fs)" using i j by (auto simp: in_set_conv_nth intro!: exI [of _ i])
qed

lemma level_sorted_filter: "level_sorted files \<Longrightarrow> level_sorted (filter P files)"
  by (auto simp: level_sorted_def sorted_wrt_filter)

lemma CompactRange_ok:
  assumes "version_wf (v_files (vs_current vs))" and "vs_user vs = cmp" and "level + 1 < kNumLevels"
  shows "\<exists>fs. GetOverlappingInputs cmp (v_files (vs_current vs)) level bgn fin = Some fs \<and>
    (if fs = [] then CompactRange vs level bgn fin = Some (None, vs)
     else \<exists>c. CompactRange vs level bgn fin =
          Some (Some c, vs\<lparr>vs_current_refs := vs_current_refs vs + 1, vs_compact_pointer := (vs_compact_pointer vs)[level := snd (GetRange cmp (c_inputs0 c))]\<rparr>) \<and>
        c_level c = level \<and> compaction_ok (v_files (vs_current vs)) c \<and> hd fs \<in> set (c_inputs0 c) \<and>
        (level = 0 \<longrightarrow> set fs \<subseteq> set (c_inputs0 c)))"
proof -
  let ?files = "v_files (vs_current vs)"
  let ?vs = "vs\<lparr>vs_current_refs := vs_current_refs vs + 1\<rparr>"
  have l: "level < kNumLevels" using assms(3) by simp
  obtain b e where b: "GetOverlappingInputs cmp ?files level bgn fin = Some (filter (overlaps b e) (?files ! level))"
    using GetOverlappingInputs_spec by blast
  let ?fs = "filter (overlaps b e) (?files ! level)"
  show ?thesis
  proof (cases "?fs = []")
    case True
    then show ?thesis using b assms(2) by (simp add: CompactRange_def)
  next
    case False
    let ?in = "if level > 0 then truncate_inputs (MaxFileSizeForLevel (vs_max_file_size vs) level) 0 ?fs else ?fs"
    have ok: "inputs_ok ?files level ?fs" by (rule GetOverlappingInputs_inputs_ok [OF assms(1) l b False])
    obtain n where n: "truncate_inputs (MaxFileSizeForLevel (vs_max_file_size vs) level) 0 ?fs = take n ?fs" "n > 0"
      using truncate_inputs_prefix [of "MaxFileSizeForLevel (vs_max_file_size vs) level" 0 ?fs] False by blast
    have "inputs_ok ?files level ?in \<and> hd ?fs \<in> set ?in"
    proof (cases "level = 0")
      case True
      moreover have "hd ?fs \<in> set ?fs" using False by (rule hd_in_set)
      ultimately show ?thesis using ok by simp
    next
      case pos: False
      have "level_sorted (?files ! level)" using assms(1) l pos by (simp add: version_wf_def)
      then have "segment (?files ! level) (take n ?fs)"
        using segment_prefix level_sorted_filter ok pos by (simp add: inputs_ok_def)
      moreover have "hd ?fs \<in> set (take n ?fs)" using False n(2) by (cases ?fs; cases n) auto
      ultimately show ?thesis using n pos by (auto simp: inputs_ok_def)
    qed
    moreover obtain c' vs' where
      "inputs_ok ?files level ?in \<Longrightarrow> SetupOtherInputs ?vs ((new_Compaction ?vs level)\<lparr>c_inputs0 := ?in\<rparr>) = Some (c', vs') \<and>
        compaction_ok ?files c' \<and> c_level c' = level \<and> set ?in \<subseteq> set (c_inputs0 c') \<and>
        vs' = vs\<lparr>vs_current_refs := vs_current_refs vs + 1, vs_compact_pointer := (vs_compact_pointer vs)[level := snd (GetRange cmp (c_inputs0 c'))]\<rparr>"
      using SetupOtherInputs_ok [of ?vs "(new_Compaction ?vs level)\<lparr>c_inputs0 := ?in\<rparr>"] assms
      by (auto simp: new_Compaction_def)
    moreover have "SetupOtherInputs ?vs ((new_Compaction ?vs level)\<lparr>c_inputs0 := ?in\<rparr>) = Some (c', vs') \<Longrightarrow>
        CompactRange vs level bgn fin = Some (Some c', vs')"
      using b assms(2) False by (simp add: CompactRange_def Let_def)
    ultimately show ?thesis using b False by auto
  qed
qed

text \<open>
  While the keys of a compaction do not decrease, the pointers pass only files before the key, and the question
  whether a deeper level has the key is answered exactly.
\<close>

definition ptrs_ok :: "file_meta list list \<Rightarrow> nat \<Rightarrow> nat list \<Rightarrow> bytes \<Rightarrow> bool" where
  "ptrs_ok files first ptrs k \<longleftrightarrow>
     length ptrs = kNumLevels \<and>
     (\<forall>lvl. first \<le> lvl \<longrightarrow> lvl < kNumLevels \<longrightarrow> (\<forall>i < ptrs ! lvl. i < length (files ! lvl) \<longrightarrow> less (f_limit (files ! lvl ! i)) k))"

lemma ptrs_ok_mono: "ptrs_ok files first ptrs k \<Longrightarrow> cmp_Compare cmp k k' \<le> 0 \<Longrightarrow> ptrs_ok files first ptrs k'"
  unfolding ptrs_ok_def using user_less_le by blast

lemma ptrs_ok_new: "ptrs_ok files first (replicate kNumLevels 0) k"
  by (simp add: ptrs_ok_def)

lemma advance_ptr_spec:
  assumes "\<forall>i < p. i < length files \<longrightarrow> less (f_limit (files ! i)) k"
  shows "(\<forall>i < advance_ptr cmp k files p. i < length files \<longrightarrow> less (f_limit (files ! i)) k) \<and>
    (advance_ptr cmp k files p < length files \<longrightarrow> cmp_Compare cmp k (f_limit (files ! advance_ptr cmp k files p)) \<le> 0)"
  using assms
proof (induction "length files - p" arbitrary: p rule: less_induct)
  case less
  show ?case
  proof (cases "p < length files \<and> \<not> cmp_Compare cmp k (f_limit (files ! p)) \<le> 0")
    case True
    then have "less (f_limit (files ! p)) k" using compare_gt [of k "f_limit (files ! p)"] by simp
    then have "\<forall>i < p + 1. i < length files \<longrightarrow> less (f_limit (files ! i)) k" using less.prems less_Suc_eq by auto
    moreover have "advance_ptr cmp k files p = advance_ptr cmp k files (p + 1)" using True by (subst advance_ptr.simps) simp
    ultimately show ?thesis using less.hyps [of "p + 1"] True by auto
  next
    case False
    then have "advance_ptr cmp k files p = p" by (subst advance_ptr.simps) auto
    then show ?thesis using less.prems False by auto
  qed
qed

definition holds_key :: "file_meta list \<Rightarrow> bytes \<Rightarrow> bool" where
  "holds_key files k \<longleftrightarrow> (\<exists>f \<in> set files. cmp_Compare cmp (f_start f) k \<le> 0 \<and> cmp_Compare cmp k (f_limit f) \<le> 0)"

lemma advance_ptr_holds:
  assumes "level_sorted files" and "\<forall>i < p. i < length files \<longrightarrow> less (f_limit (files ! i)) k"
  shows "holds_key files k \<longleftrightarrow> advance_ptr cmp k files p < length files \<and>
    cmp_Compare cmp k (f_start (files ! advance_ptr cmp k files p)) \<ge> 0"
proof -
  let ?p = "advance_ptr cmp k files p"
  note s = advance_ptr_spec [OF assms(2)]
  show ?thesis
  proof
    assume "holds_key files k"
    then obtain i where i: "i < length files" "cmp_Compare cmp (f_start (files ! i)) k \<le> 0" "cmp_Compare cmp k (f_limit (files ! i)) \<le> 0"
      by (auto simp: holds_key_def in_set_conv_nth)
    then have "?p \<le> i" using s i(3) not_less by (meson leI)
    then have "cmp_Compare cmp (f_start (files ! ?p)) (f_start (files ! i)) \<le> 0"
      using level_sorted_starts(1) [OF assms(1), of ?p i] i(1) by (cases "?p = i") auto
    then have "cmp_Compare cmp (f_start (files ! ?p)) k \<le> 0" using user_trans i(2) by blast
    then show "?p < length files \<and> cmp_Compare cmp k (f_start (files ! ?p)) \<ge> 0"
      using \<open>?p \<le> i\<close> i(1) compare_ge by simp
  next
    assume "?p < length files \<and> cmp_Compare cmp k (f_start (files ! ?p)) \<ge> 0"
    then show "holds_key files k" using s compare_ge unfolding holds_key_def by (intro bexI [of _ "files ! ?p"]) simp_all
  qed
qed

lemma IsBaseLevelForKey_loop_spec:
  assumes "\<And>lvl. lvl \<in> set lvls \<Longrightarrow> first \<le> lvl \<and> lvl < kNumLevels" and "\<And>lvl. lvl \<in> set lvls \<Longrightarrow> level_sorted (files ! lvl)"
    and "ptrs_ok files first ptrs k"
  shows "(fst (IsBaseLevelForKey_loop cmp k files lvls ptrs) \<longleftrightarrow> (\<forall>lvl \<in> set lvls. \<not> holds_key (files ! lvl) k)) \<and>
    ptrs_ok files first (snd (IsBaseLevelForKey_loop cmp k files lvls ptrs)) k"
  using assms
proof (induction lvls arbitrary: ptrs)
  case (Cons lvl lvls)
  let ?p = "advance_ptr cmp k (files ! lvl) (ptrs ! lvl)"
  have lvl: "first \<le> lvl" "lvl < kNumLevels" using Cons.prems(1) by simp_all
  have before: "\<forall>i < ptrs ! lvl. i < length (files ! lvl) \<longrightarrow> less (f_limit (files ! lvl ! i)) k"
    using Cons.prems(3) lvl unfolding ptrs_ok_def by blast
  note h = advance_ptr_holds [OF Cons.prems(2) before, simplified]
  have ok: "ptrs_ok files first (ptrs[lvl := ?p]) k"
    unfolding ptrs_ok_def
  proof (intro conjI allI impI)
    show "length (ptrs[lvl := ?p]) = kNumLevels" using Cons.prems(3) by (simp add: ptrs_ok_def)
    fix l i
    assume l: "first \<le> l" "l < kNumLevels" "i < ptrs[lvl := ?p] ! l" "i < length (files ! l)"
    show "less (f_limit (files ! l ! i)) k"
    proof (cases "l = lvl")
      case True
      then have "i < ?p" using l(2,3) Cons.prems(3) by (simp add: ptrs_ok_def)
      then show ?thesis using advance_ptr_spec [OF before] l(4) True by blast
    next
      case False
      then have "i < ptrs ! l" using l(3) by simp
      then show ?thesis using Cons.prems(3) l unfolding ptrs_ok_def by blast
    qed
  qed
  show ?case
  proof (cases "holds_key (files ! lvl) k")
    case True
    then show ?thesis using h ok by (simp add: Let_def)
  next
    case False
    then have n: "\<not> (?p < length (files ! lvl) \<and> cmp_Compare cmp k (f_start (files ! lvl ! ?p)) \<ge> 0)" using h by simp
    have "IsBaseLevelForKey_loop cmp k files (lvl # lvls) ptrs = IsBaseLevelForKey_loop cmp k files lvls (ptrs[lvl := ?p])"
    proof (cases "?p < length (files ! lvl)")
      case True
      then show ?thesis using n by (simp add: Let_def)
    qed (simp add: Let_def)
    then show ?thesis using Cons.IH [OF _ _ ok] Cons.prems(1,2) False by simp
  qed
qed simp

lemma IsBaseLevelForKey_ok:
  assumes "version_wf (v_files (c_input_version c))" and "ptrs_ok (v_files (c_input_version c)) (c_level c + 2) (c_level_ptrs c) k"
  obtains ptrs where "IsBaseLevelForKey cmp k c =
      (\<forall>lvl. c_level c + 2 \<le> lvl \<longrightarrow> lvl < kNumLevels \<longrightarrow> \<not> holds_key (v_files (c_input_version c) ! lvl) k, c\<lparr>c_level_ptrs := ptrs\<rparr>)"
    and "ptrs_ok (v_files (c_input_version c)) (c_level c + 2) ptrs k"
proof -
  let ?files = "v_files (c_input_version c)"
  let ?r = "IsBaseLevelForKey_loop cmp k ?files [c_level c + 2..<kNumLevels] (c_level_ptrs c)"
  have "(fst ?r \<longleftrightarrow> (\<forall>lvl \<in> set [c_level c + 2..<kNumLevels]. \<not> holds_key (?files ! lvl) k)) \<and> ptrs_ok ?files (c_level c + 2) (snd ?r) k"
    by (rule IsBaseLevelForKey_loop_spec [OF _ _ assms(2)]) (use assms(1) in \<open>auto simp: version_wf_def\<close>)
  then have "fst ?r = (\<forall>lvl. c_level c + 2 \<le> lvl \<longrightarrow> lvl < kNumLevels \<longrightarrow> \<not> holds_key (?files ! lvl) k)"
    and "ptrs_ok ?files (c_level c + 2) (snd ?r) k" by auto
  then show thesis using that [of "snd ?r"] by (simp add: IsBaseLevelForKey_def case_prod_unfold)
qed

text \<open>The version a compaction is chosen from: \<open>Finalize\<close> and \<open>UpdateStats\<close> keep the promises.\<close>

lemma MaxBytesForLevel_loop_pos: "0 < r \<Longrightarrow> 0 < MaxBytesForLevel_loop r level"
  by (induction r level rule: MaxBytesForLevel_loop.induct) (subst MaxBytesForLevel_loop.simps, simp)

lemma level_score_nonempty: "level_score v level \<ge> 1 \<Longrightarrow> v_files v ! level \<noteq> []"
  by (auto simp: level_score_def TotalFileSize_def split: if_splits)

lemma Finalize_best:
  "fold (\<lambda>level (best_level, best_score).
      let score = level_score v level in if score > best_score then (int level, score) else (best_level, best_score)) lvls (bl, bs) =
    (bl', bs') \<Longrightarrow> bs \<le> bs' \<and> ((bl', bs') = (bl, bs) \<or> (\<exists>level \<in> set lvls. bl' = int level \<and> bs' = level_score v level)) \<and>
    (\<forall>level \<in> set lvls. level_score v level \<le> bs')"
proof (induction lvls arbitrary: bl bs)
  case (Cons level lvls)
  show ?case
  proof (cases "level_score v level > bs")
    case True
    then show ?thesis using Cons.IH [of "int level" "level_score v level"] Cons.prems by (auto simp: Let_def)
  next
    case False
    then show ?thesis using Cons.IH [of bl bs] Cons.prems by (auto simp: Let_def)
  qed
qed simp

lemma Finalize_wants:
  assumes "\<forall>f. v_file_to_compact v = Some f \<longrightarrow> v_file_to_compact_level v + 1 < kNumLevels \<and> f \<in> set (v_files v ! v_file_to_compact_level v)"
  shows "wants_ok (Finalize v)"
    and "v_compaction_score (Finalize v) \<ge> 1 \<longleftrightarrow> (\<exists>level < kNumLevels - 1. level_score v level \<ge> 1)"
proof -
  obtain bl bs where e: "fold (\<lambda>level (best_level, best_score).
      let score = level_score v level in if score > best_score then (int level, score) else (best_level, best_score))
      [0..<kNumLevels - 1] (-1, -1) = (bl, bs)" by fastforce
  note b = Finalize_best [OF e]
  have f: "Finalize v = v\<lparr>v_compaction_level := bl, v_compaction_score := bs\<rparr>" unfolding Finalize_def e by simp
  have pick: "\<exists>level < kNumLevels - 1. bl = int level \<and> bs = level_score v level" if "bs \<ge> 1"
    using b that by auto
  show "wants_ok (Finalize v)" using assms pick level_score_nonempty by (fastforce simp: wants_ok_def f)
  show "v_compaction_score (Finalize v) \<ge> 1 \<longleftrightarrow> (\<exists>level < kNumLevels - 1. level_score v level \<ge> 1)"
  proof
    assume "v_compaction_score (Finalize v) \<ge> 1"
    then have "bs \<ge> 1" by (simp add: f)
    with pick show "\<exists>level < kNumLevels - 1. level_score v level \<ge> 1" by auto
  next
    assume "\<exists>level < kNumLevels - 1. level_score v level \<ge> 1"
    then obtain level where "level \<in> set [0..<kNumLevels - 1]" "level_score v level \<ge> 1" by auto
    then have "bs \<ge> 1" using b order_trans by blast
    then show "v_compaction_score (Finalize v) \<ge> 1" by (simp add: f)
  qed
qed

lemma UpdateStats_wants:
  assumes "wants_ok v" and "\<forall>f. seek_file stats = Some f \<longrightarrow> seek_file_level stats + 1 < kNumLevels \<and>
      seek_file_level stats < length (v_files v) \<and> f \<in> set (v_files v ! seek_file_level stats)"
    and "length (v_files v) = kNumLevels"
  shows "wants_ok (snd (UpdateStats stats v))"
proof (cases "seek_file stats")
  case None
  then show ?thesis using assms(1) by (simp add: UpdateStats_def)
next
  case (Some f)
  let ?ch = "\<lambda>g. if fm_number g = fm_number f then charge_seek g else g"
  have s: "seek_file_level stats + 1 < kNumLevels" "f \<in> set (v_files v ! seek_file_level stats)" using assms(2) Some by auto
  have "charge_seek f \<in> ?ch ` set (v_files v ! seek_file_level stats)" using s(2) by force
  moreover have "0 \<le> v_compaction_level v" "nat (v_compaction_level v) < length (v_files v)" if "v_compaction_score v \<ge> 1"
    using assms(1,3) that by (auto simp: wants_ok_def)
  ultimately show ?thesis
    using assms(1,3) s(1) Some by (auto simp: wants_ok_def UpdateStats_def Let_def)
qed

end

section \<open>Properties\<close>

text \<open>
  C14: Choosing a compaction, by size, by seeks or by hand, always ends, and what is chosen is closed at its own level:
  it takes some files of a level and exactly the files of the next level that meet their range, and leaves no
  file behind in the level of the first ones that could hold an older entry of a user key of theirs: above level
  zero a later file starts with a larger user key, in level zero the user keys are disjoint. Nothing of the kind is said of the files of
  the next level: a user key with which one of them ends may go on in a file that is left there. The file that asked for
  the compaction is among the inputs, the level next remembers where the inputs end, the version is kept alive by
  one more reference, and nothing else of the version set changes. By hand, nothing is done only if no file of the level overlaps the range, and the first
  file that does is among the inputs (all of them in level zero). Scoring and charging seeks keep what the
  choice relies on, and a compaction is asked for by size exactly when a level above the last is over its limit.
\<close>

theorem compaction_inputs_closed:
  assumes "bytewise_user.version_wf (v_files (vs_current vs))" and "bytewise_user.wants_ok (vs_current vs)"
    and "vs_user vs = BytewiseComparator" and "level + 1 < kNumLevels"
    and "\<And>f. seek_file stats = Some f \<Longrightarrow> seek_file_level stats + 1 < kNumLevels \<and> f \<in> set (v_files (vs_current vs) ! seek_file_level stats)"
  shows "(case pick_file vs of
            None \<Rightarrow> PickCompaction vs = Some (None, vs)
          | Some (level, f) \<Rightarrow> \<exists>c. PickCompaction vs =
                Some (Some c, vs\<lparr>vs_current_refs := vs_current_refs vs + 1, vs_compact_pointer := (vs_compact_pointer vs)[level := snd (GetRange BytewiseComparator (c_inputs0 c))]\<rparr>) \<and>
              c_level c = level \<and> f \<in> set (c_inputs0 c) \<and> bytewise_user.compaction_ok (v_files (vs_current vs)) c) \<and>
         (\<exists>fs. GetOverlappingInputs BytewiseComparator (v_files (vs_current vs)) level bgn fin = Some fs \<and>
            (if fs = [] then CompactRange vs level bgn fin = Some (None, vs)
             else \<exists>c. CompactRange vs level bgn fin =
                  Some (Some c, vs\<lparr>vs_current_refs := vs_current_refs vs + 1, vs_compact_pointer := (vs_compact_pointer vs)[level := snd (GetRange BytewiseComparator (c_inputs0 c))]\<rparr>) \<and>
                c_level c = level \<and> bytewise_user.compaction_ok (v_files (vs_current vs)) c \<and> List.hd fs \<in> set (c_inputs0 c) \<and>
                (level = 0 \<longrightarrow> set fs \<subseteq> set (c_inputs0 c)))) \<and>
         bytewise_user.wants_ok (Finalize (vs_current vs)) \<and>
         (v_compaction_score (Finalize (vs_current vs)) \<ge> 1 \<longleftrightarrow> (\<exists>l < kNumLevels - 1. level_score (vs_current vs) l \<ge> 1)) \<and>
         bytewise_user.wants_ok (snd (UpdateStats stats (vs_current vs)))"
proof (intro conjI)
  have len: "length (v_files (vs_current vs)) = kNumLevels" using assms(1) by (simp add: bytewise_user.version_wf_def)
  have seek: "\<forall>f. seek_file stats = Some f \<longrightarrow> seek_file_level stats + 1 < kNumLevels \<and>
      seek_file_level stats < length (v_files (vs_current vs)) \<and> f \<in> set (v_files (vs_current vs) ! seek_file_level stats)"
    using assms(5) len by fastforce
  have asked: "\<forall>f. v_file_to_compact (vs_current vs) = Some f \<longrightarrow> v_file_to_compact_level (vs_current vs) + 1 < kNumLevels \<and>
      f \<in> set (v_files (vs_current vs) ! v_file_to_compact_level (vs_current vs))"
    using assms(2) unfolding bytewise_user.wants_ok_def by blast
  show "bytewise_user.wants_ok (Finalize (vs_current vs))"
    and "v_compaction_score (Finalize (vs_current vs)) \<ge> 1 \<longleftrightarrow> (\<exists>l < kNumLevels - 1. level_score (vs_current vs) l \<ge> 1)"
    using bytewise_user.Finalize_wants [OF asked] .
  show "bytewise_user.wants_ok (snd (UpdateStats stats (vs_current vs)))"
    by (rule bytewise_user.UpdateStats_wants [OF assms(2) seek len])
qed (rule bytewise_user.PickCompaction_ok [OF assms(1-3)], rule bytewise_user.CompactRange_ok [OF assms(1,3,4)])

definition demo_version_set :: version_set where
  "demo_version_set =
     \<lparr>vs_dbname = [], vs_user = BytewiseComparator, vs_max_file_size = 2097152, vs_reuse_logs = False,
      vs_next_file_number = 9, vs_manifest_file_number = 8, vs_last_sequence = 9, vs_log_number = 4, vs_prev_log_number = 0,
      vs_descriptor = None, vs_versions = [],
      vs_current = new_Version\<lparr>v_files := demo_levels, v_file_to_compact := Some (demo_meta 6 5 5), v_file_to_compact_level := 2\<rparr>,
      vs_current_refs = 1, vs_compact_pointer = replicate kNumLevels []\<rparr>"

lemma demo_version_wf: "bytewise_user.version_wf demo_levels"
proof -
  have c: "cmp_Compare BytewiseComparator = slice_compare" by (simp add: BytewiseComparator_def)
  have "bytewise_user.file_wf (demo_meta 7 1 2)"
    by (simp add: bytewise_user.file_wf_def demo_meta_def bytewise_user.ikey_Compare_le PackSequenceAndType_def
        kMaxSequenceNumber_def type_code_def kValueTypeForSeek_def c slice_compare_def Let_def)
  moreover have "length demo_levels = kNumLevels" "demo_levels ! 0 = [demo_meta 7 1 2]" by (simp_all add: demo_levels_def kNumLevels_def)
  ultimately show ?thesis using demo_level_sorted by (simp add: bytewise_user.version_wf_def)
qed

theorem compaction_inputs_closed_witness:
  "(\<exists>c vs'. PickCompaction demo_version_set = Some (Some c, vs') \<and> demo_meta 6 5 5 \<in> set (c_inputs0 c) \<and>
      bytewise_user.compaction_ok demo_levels c) \<and>
   bytewise_user.wants_ok (snd (UpdateStats \<lparr>seek_file = Some (demo_meta 7 1 2), seek_file_level = 0\<rparr> (vs_current demo_version_set)))"
proof -
  have v: "v_files (vs_current demo_version_set) = demo_levels" by (simp add: demo_version_set_def)
  have w: "bytewise_user.wants_ok (vs_current demo_version_set)"
    by (simp add: bytewise_user.wants_ok_def demo_version_set_def new_Version_def demo_levels_def kNumLevels_def)
  have p: "pick_file demo_version_set = Some (2, demo_meta 6 5 5)"
    by (simp add: pick_file_def demo_version_set_def new_Version_def)
  have u: "vs_user demo_version_set = BytewiseComparator" by (simp add: demo_version_set_def)
  have wf: "bytewise_user.version_wf (v_files (vs_current demo_version_set))" unfolding v by (rule demo_version_wf)
  have l: "2 + 1 < kNumLevels" by (simp add: kNumLevels_def)
  have st: "seek_file_level \<lparr>seek_file = Some (demo_meta 7 1 2), seek_file_level = 0\<rparr> + 1 < kNumLevels \<and>
      f \<in> set (v_files (vs_current demo_version_set) ! seek_file_level \<lparr>seek_file = Some (demo_meta 7 1 2), seek_file_level = 0\<rparr>)"
    if "seek_file \<lparr>seek_file = Some (demo_meta 7 1 2), seek_file_level = 0\<rparr> = Some f" for f
    using that by (simp add: v demo_levels_def kNumLevels_def)
  note all = compaction_inputs_closed [OF wf w u l st, of None None]
  from conjunct1 [OF all] obtain c where c: "PickCompaction demo_version_set =
      Some (Some c, demo_version_set\<lparr>vs_current_refs := vs_current_refs demo_version_set + 1, vs_compact_pointer := (vs_compact_pointer demo_version_set)[2 := snd (GetRange BytewiseComparator (c_inputs0 c))]\<rparr>)"
    "demo_meta 6 5 5 \<in> set (c_inputs0 c)" "bytewise_user.compaction_ok demo_levels c" unfolding p v by auto
  moreover have "bytewise_user.wants_ok (snd (UpdateStats \<lparr>seek_file = Some (demo_meta 7 1 2), seek_file_level = 0\<rparr> (vs_current demo_version_set)))"
    using all by blast
  ultimately show ?thesis by blast
qed

end
