(* ===== verification/VersionBuilder.thy ===== *)
theory VersionBuilder
  imports Compaction "HOL-Library.Multiset"
begin

text \<open>
  Making a version from another one and edits, \<^verbatim>\<open>VersionSet::Builder\<close> of \<^verbatim>\<open>db/version_set.cc\<close>. A \<^verbatim>\<open>std::set\<close>
  with an order is a list in that order; reference counts of files are not modelled, since a version owns its list.
\<close>

section \<open>The builder\<close>

definition BySmallestKey :: "comparator \<Rightarrow> file_meta \<Rightarrow> file_meta \<Rightarrow> bool" where
  "BySmallestKey user f1 f2 =
     (let r = ikey_Compare user (fm_smallest f1) (fm_smallest f2)
      in if r \<noteq> 0 then r < 0 else fm_number f1 < fm_number f2)"

fun set_insert :: "('a \<Rightarrow> 'a \<Rightarrow> bool) \<Rightarrow> 'a \<Rightarrow> 'a list \<Rightarrow> 'a list" where
  "set_insert lt x [] = [x]"
| "set_insert lt x (y # ys) = (if lt x y then x # y # ys else if lt y x then y # set_insert lt x ys else y # ys)"

record builder =
  b_base :: "file_meta list list"
  b_deleted :: "u64 set list"
  b_added :: "file_meta list list"

definition new_Builder :: "version \<Rightarrow> builder" where
  "new_Builder base = \<lparr>b_base = v_files base, b_deleted = replicate kNumLevels {}, b_added = replicate kNumLevels []\<rparr>"

definition allowed_seeks_for :: "u64 \<Rightarrow> int" where
  "allowed_seeks_for file_size =
     (let n = sint (ucast (file_size div 16384) :: u32) in if n < 100 then 100 else n)"

definition builder_add :: "comparator \<Rightarrow> nat \<times> file_meta \<Rightarrow> builder \<Rightarrow> builder" where
  "builder_add user p b =
     (let (level, f) = p;
          f = f\<lparr>fm_refs := 1, fm_allowed_seeks := allowed_seeks_for (fm_file_size f)\<rparr>
      in b\<lparr>b_deleted := (b_deleted b)[level := b_deleted b ! level - {fm_number f}],
           b_added := (b_added b)[level := set_insert (BySmallestKey user) f (b_added b ! level)]\<rparr>)"

definition builder_delete :: "(nat \<times> u64) set \<Rightarrow> builder \<Rightarrow> builder" where
  "builder_delete deleted b =
     b\<lparr>b_deleted := map (\<lambda>level. b_deleted b ! level \<union> snd ` Set.filter (\<lambda>d. fst d = level) deleted) [0..<kNumLevels]\<rparr>"

definition apply_pointers :: "version_edit \<Rightarrow> bytes list \<Rightarrow> bytes list" where
  "apply_pointers edit = fold (\<lambda>(level, key) pointers. pointers[level := key]) (ve_compact_pointers edit)"

definition builder_Apply :: "comparator \<Rightarrow> version_edit \<Rightarrow> builder \<Rightarrow> builder" where
  "builder_Apply user edit b = fold (builder_add user) (ve_new_files edit) (builder_delete (ve_deleted_files edit) b)"

definition MaybeAddFile :: "u64 set \<Rightarrow> file_meta \<Rightarrow> file_meta list \<Rightarrow> file_meta list" where
  "MaybeAddFile deleted f files = (if fm_number f \<in> deleted then files else files @ [f])"

fun save_level :: "comparator \<Rightarrow> u64 set \<Rightarrow> file_meta list \<Rightarrow> file_meta list \<Rightarrow> file_meta list \<Rightarrow> file_meta list" where
  "save_level user deleted base [] files = fold (MaybeAddFile deleted) base files"
| "save_level user deleted base (added_file # added_files) files =
     (let smaller = takeWhile (\<lambda>f. \<not> BySmallestKey user added_file f) base;
          files = fold (MaybeAddFile deleted) smaller files;
          files = MaybeAddFile deleted added_file files
      in save_level user deleted (drop (length smaller) base) added_files files)"

definition builder_SaveTo :: "comparator \<Rightarrow> builder \<Rightarrow> version" where
  "builder_SaveTo user b =
     new_Version\<lparr>v_files :=
       map (\<lambda>level. save_level user (b_deleted b ! level) (b_base b ! level) (b_added b ! level) []) [0..<kNumLevels]\<rparr>"

section \<open>What it builds\<close>

lemma fold_MaybeAddFile: "fold (MaybeAddFile deleted) fs files = files @ filter (\<lambda>f. fm_number f \<notin> deleted) fs"
  by (induction fs arbitrary: files) (simp_all add: MaybeAddFile_def)

lemma save_level_mset:
  "mset (save_level user deleted base added files) =
   mset files + filter_mset (\<lambda>f. fm_number f \<notin> deleted) (mset base + mset added)"
proof (induction added arbitrary: base files)
  case Nil
  then show ?case by (simp add: fold_MaybeAddFile)
next
  case (Cons a added)
  let ?n = "length (takeWhile (\<lambda>f. \<not> BySmallestKey user a f) base)"
  have "mset base = mset (takeWhile (\<lambda>f. \<not> BySmallestKey user a f) base) + mset (drop ?n base)"
    by (metis append_take_drop_id mset_append takeWhile_eq_take)
  then show ?case using Cons.IH by (simp add: Let_def fold_MaybeAddFile MaybeAddFile_def)
qed

lemma save_level_append: "save_level user deleted base added files = files @ save_level user deleted base added []"
proof (induction added arbitrary: base files)
  case Nil
  then show ?case by (simp add: fold_MaybeAddFile)
next
  case (Cons a added)
  let ?s = "takeWhile (\<lambda>f. \<not> BySmallestKey user a f) base"
  let ?x = "\<lambda>files. MaybeAddFile deleted a (fold (MaybeAddFile deleted) ?s files)"
  have "?x files = files @ ?x []" by (simp add: fold_MaybeAddFile MaybeAddFile_def)
  then show ?case
    using Cons.IH [of "drop (length ?s) base" "?x files"] Cons.IH [of "drop (length ?s) base" "?x []"] by (simp add: Let_def)
qed

lemma set_insert_set: "set (set_insert lt x ys) \<subseteq> insert x (set ys)" "set ys \<subseteq> set (set_insert lt x ys)"
  by (induction ys) auto

lemma set_insert_in:
  assumes "\<And>y. y \<in> set ys \<Longrightarrow> lt x y \<or> lt y x"
  shows "mset (set_insert lt x ys) = add_mset x (mset ys)"
  using assms by (induction ys) auto

lemma save_level_set: "set (save_level user deleted base added []) = {f \<in> set base \<union> set added. fm_number f \<notin> deleted}"
proof -
  have "set_mset (mset (save_level user deleted base added [])) = {f \<in> set base \<union> set added. fm_number f \<notin> deleted}"
    unfolding save_level_mset by auto
  then show ?thesis by simp
qed

text \<open>The abstract view: an edit removes files from levels and adds others.\<close>

definition prepared :: "file_meta \<Rightarrow> file_meta" where
  "prepared f = f\<lparr>fm_refs := 1, fm_allowed_seeks := allowed_seeks_for (fm_file_size f)\<rparr>"

definition apply_edit :: "version_edit \<Rightarrow> (nat \<Rightarrow> file_meta set) \<Rightarrow> nat \<Rightarrow> file_meta set" where
  "apply_edit e files level =
     {f \<in> files level. (level, fm_number f) \<notin> ve_deleted_files e} \<union> {prepared f | f. (level, f) \<in> set (ve_new_files e)}"

fun fresh_files :: "(nat \<Rightarrow> u64 set) \<Rightarrow> (nat \<times> file_meta) list \<Rightarrow> bool" where
  "fresh_files used [] = True"
| "fresh_files used ((level, f) # fs) =
     (fm_number f \<notin> used level \<and> fresh_files (used(level := insert (fm_number f) (used level))) fs)"

definition use_files :: "(nat \<times> file_meta) list \<Rightarrow> (nat \<Rightarrow> u64 set) \<Rightarrow> nat \<Rightarrow> u64 set" where
  "use_files fs used = (\<lambda>level. used level \<union> {fm_number f | f. (level, f) \<in> set fs})"

lemma fresh_files_append: "fresh_files used (fs @ gs) \<longleftrightarrow> fresh_files used fs \<and> fresh_files (use_files fs used) gs"
proof (induction fs arbitrary: used)
  case Nil
  then show ?case by (simp add: use_files_def)
next
  case (Cons p fs)
  obtain l f where p: "p = (l, f)" by fastforce
  have "use_files fs (used(l := insert (fm_number f) (used l))) = use_files (p # fs) used"
    by (rule ext) (auto simp: use_files_def p)
  then show ?case using Cons.IH by (simp add: p fun_upd_def)
qed

context user_comparator
begin

abbreviation key_le :: "file_meta \<Rightarrow> file_meta \<Rightarrow> bool" where
  "key_le f g \<equiv> \<not> BySmallestKey cmp g f"

lemma key_le_iff:
  "key_le f g \<longleftrightarrow> ik.less (fm_smallest f) (fm_smallest g) \<or>
     ikey_Compare cmp (fm_smallest f) (fm_smallest g) = 0 \<and> fm_number f \<le> fm_number g"
  using ik.compare_gt [of "fm_smallest g" "fm_smallest f"] ik.compare_eq_sym [of "fm_smallest g" "fm_smallest f"]
  by (auto simp: BySmallestKey_def Let_def not_less)

lemma key_le_trans: "key_le f g \<Longrightarrow> key_le g h \<Longrightarrow> key_le f h"
  using ik_trans [of "fm_smallest f" "fm_smallest g" "fm_smallest h"]
    ik_le_less [of "fm_smallest f" "fm_smallest g" "fm_smallest h"]
    ik_less_le [of "fm_smallest f" "fm_smallest g" "fm_smallest h"]
    ikey_trans [of "fm_smallest f" "fm_smallest g" "fm_smallest h"]
    ikey_trans [of "fm_smallest h" "fm_smallest g" "fm_smallest f"]
    ik.compare_eq_sym [of "fm_smallest g" "fm_smallest f"] ik.compare_eq_sym [of "fm_smallest g" "fm_smallest h"]
    ik.compare_ge [of "fm_smallest f" "fm_smallest h"]
  unfolding key_le_iff by auto

lemma key_le_total: "BySmallestKey cmp f g \<Longrightarrow> key_le f g"
  using ik.compare_gt [of "fm_smallest g" "fm_smallest f"] ik.compare_eq_sym [of "fm_smallest g" "fm_smallest f"]
  by (auto simp: BySmallestKey_def Let_def split: if_splits)

definition key_sorted :: "file_meta list \<Rightarrow> bool" where
  "key_sorted fs \<longleftrightarrow> sorted_wrt key_le fs"

lemma save_level_sorted:
  assumes "key_sorted base" and "key_sorted added"
  shows "key_sorted (save_level cmp deleted base added [])"
  using assms
proof (induction added arbitrary: base)
  case Nil
  then show ?case by (simp add: fold_MaybeAddFile key_sorted_def sorted_wrt_filter)
next
  case (Cons a added)
  let ?s = "takeWhile (\<lambda>f. \<not> BySmallestKey cmp a f) base"
  let ?r = "drop (length ?s) base"
  let ?x = "filter (\<lambda>f. fm_number f \<notin> deleted) (?s @ [a])"
  have b: "base = ?s @ ?r" by (metis append_take_drop_id takeWhile_eq_take)
  then have srt: "sorted_wrt key_le ?s" "sorted_wrt key_le ?r" "\<forall>f \<in> set ?s. \<forall>g \<in> set ?r. key_le f g"
    using Cons.prems(1) unfolding key_sorted_def by (metis sorted_wrt_append)+
  have sa: "key_le f a" if "f \<in> set ?s" for f using that by (auto dest: set_takeWhileD)
  have ar: "key_le a f" if "f \<in> set ?r" for f
  proof -
    have ne: "?r \<noteq> []" using that by auto
    then have n: "length ?s < length base" by simp
    have "BySmallestKey cmp a (base ! length ?s)" using nth_length_takeWhile [of _ base] n by blast
    moreover have "List.hd ?r = base ! length ?s" using hd_drop_conv_nth [OF n] .
    ultimately have h: "key_le a (List.hd ?r)" using key_le_total by simp
    have "f = List.hd ?r \<or> key_le (List.hd ?r) f" using srt(2) that ne by (cases ?r) auto
    then show ?thesis using h key_le_trans by blast
  qed
  have aa: "key_le a f" if "f \<in> set added" for f using Cons.prems(2) that unfolding key_sorted_def by simp
  have e: "save_level cmp deleted base (a # added) [] = ?x @ save_level cmp deleted ?r added []"
    using save_level_append [of cmp deleted ?r added ?x]
    by (cases "fm_number a \<in> deleted") (simp_all add: Let_def fold_MaybeAddFile MaybeAddFile_def)
  have "set (save_level cmp deleted ?r added []) \<subseteq> set ?r \<union> set added"
    by (auto simp: save_level_set)
  moreover have "sorted_wrt key_le (save_level cmp deleted ?r added [])"
    using Cons.IH [of ?r] srt(2) Cons.prems(2) by (simp add: key_sorted_def)
  moreover have "sorted_wrt key_le ?x" 
    by (rule sorted_wrt_filter) (use srt(1) sa in \<open>simp add: sorted_wrt_append\<close>)
  moreover have "key_le f g" if "f \<in> set ?x" "g \<in> set ?r \<union> set added" for f g
  proof -
    have "f \<in> set (?s @ [a])" using that(1) unfolding set_filter by blast
    then have "f = a \<or> key_le f a" using sa by auto
    moreover have "key_le a g" using that(2) ar aa by blast
    ultimately show ?thesis using key_le_trans by blast
  qed
  ultimately show ?case unfolding e key_sorted_def by (subst sorted_wrt_append) blast
qed

definition builder_ok :: "builder \<Rightarrow> (nat \<Rightarrow> file_meta set) \<Rightarrow> (nat \<Rightarrow> u64 set) \<Rightarrow> bool" where
  "builder_ok b files used \<longleftrightarrow>
     length (b_base b) = kNumLevels \<and> length (b_deleted b) = kNumLevels \<and> length (b_added b) = kNumLevels \<and>
     (\<forall>l < kNumLevels.
        files l = {f \<in> set (b_base b ! l) \<union> set (b_added b ! l). fm_number f \<notin> b_deleted b ! l} \<and>
        key_sorted (b_added b ! l) \<and> key_sorted (b_base b ! l) \<and> distinct (b_base b ! l @ b_added b ! l) \<and>
        fm_number ` (set (b_base b ! l) \<union> set (b_added b ! l)) \<subseteq> used l)"

lemma builder_okD:
  assumes "builder_ok b files used" and "l < kNumLevels"
  shows "files l = {f \<in> set (b_base b ! l) \<union> set (b_added b ! l). fm_number f \<notin> b_deleted b ! l}"
    and "key_sorted (b_added b ! l)" and "key_sorted (b_base b ! l)" and "distinct (b_base b ! l @ b_added b ! l)"
    and "fm_number ` (set (b_base b ! l) \<union> set (b_added b ! l)) \<subseteq> used l"
  using assms unfolding builder_ok_def by blast+

lemma set_insert_key_sorted: "key_sorted ys \<Longrightarrow> key_sorted (set_insert (BySmallestKey cmp) x ys)"
proof (induction ys)
  case (Cons y ys)
  have y: "\<forall>z \<in> set ys. key_le y z" "key_sorted ys" using Cons.prems by (simp_all add: key_sorted_def)
  consider "BySmallestKey cmp x y" | "\<not> BySmallestKey cmp x y" "BySmallestKey cmp y x" | "\<not> BySmallestKey cmp x y" "\<not> BySmallestKey cmp y x"
    by blast
  then show ?case
  proof cases
    case 1
    then have "key_le x y" by (rule key_le_total)
    then have "\<forall>z \<in> set (y # ys). key_le x z" using y(1) key_le_trans by auto
    then show ?thesis using 1 Cons.prems by (simp add: key_sorted_def)
  next
    case 2
    then have "\<forall>z \<in> set (set_insert (BySmallestKey cmp) x ys). key_le y z"
      using y(1) key_le_total set_insert_set(1) [of "BySmallestKey cmp" x ys] by blast
    then show ?thesis using 2 Cons.IH y(2) by (simp add: key_sorted_def)
  qed (use Cons.prems in simp)
qed (simp add: key_sorted_def)

lemma BySmallestKey_number: "fm_number f \<noteq> fm_number g \<Longrightarrow> BySmallestKey cmp f g \<or> BySmallestKey cmp g f"
  using ik.compare_gt [of "fm_smallest f" "fm_smallest g"] ik.compare_eq_sym [of "fm_smallest f" "fm_smallest g"]
  by (cases "fm_number f" "fm_number g" rule: linorder_cases) (auto simp: BySmallestKey_def Let_def not_less order_le_less)

lemma builder_add_ok:
  assumes "builder_ok b files used" and "level < kNumLevels" and "fm_number f \<notin> used level"
  shows "builder_ok (builder_add cmp (level, f) b) (files(level := insert (prepared f) (files level)))
    (used(level := insert (fm_number f) (used level)))"
proof -
  note o = builder_okD [OF assms(1)]
  let ?b = "builder_add cmp (level, f) b"
  have n: "fm_number (prepared f) = fm_number f" by (simp add: prepared_def)
  have fresh: "fm_number g \<noteq> fm_number f" if "g \<in> set (b_base b ! level) \<union> set (b_added b ! level)" for g
    using o(5) [OF assms(2)] assms(3) that by auto
  have ins: "mset (set_insert (BySmallestKey cmp) (prepared f) (b_added b ! level)) = add_mset (prepared f) (mset (b_added b ! level))"
    by (rule set_insert_in) (metis BySmallestKey_number UnI2 fresh n)
  then have set_ins: "set (set_insert (BySmallestKey cmp) (prepared f) (b_added b ! level)) = insert (prepared f) (set (b_added b ! level))"
    by (metis set_mset_add_mset_insert set_mset_mset)
  have dist: "distinct (b_base b ! level @ set_insert (BySmallestKey cmp) (prepared f) (b_added b ! level))"
  proof -
    have "distinct (set_insert (BySmallestKey cmp) (prepared f) (b_added b ! level)) = distinct (prepared f # b_added b ! level)"
      by (rule mset_eq_imp_distinct_iff) (simp add: ins)
    then show ?thesis using o(4) [OF assms(2)] fresh n set_ins by auto
  qed
  have len: "level < length (b_deleted b)" "level < length (b_added b)" "length (b_base b) = kNumLevels" "length (b_deleted b) = kNumLevels"
    "length (b_added b) = kNumLevels"
    using assms(1,2) by (simp_all add: builder_ok_def)
  have b: "b_base ?b = b_base b" "b_deleted ?b = (b_deleted b)[level := b_deleted b ! level - {fm_number f}]"
    "b_added ?b = (b_added b)[level := set_insert (BySmallestKey cmp) (prepared f) (b_added b ! level)]"
    by (simp_all add: builder_add_def prepared_def)
  show ?thesis
    unfolding builder_ok_def
  proof (intro conjI allI impI)
    fix l
    assume l: "l < kNumLevels"
    show "(files(level := insert (prepared f) (files level))) l =
        {f \<in> set (b_base ?b ! l) \<union> set (b_added ?b ! l). fm_number f \<notin> b_deleted ?b ! l}"
      using o(1) [OF l] len set_ins n fresh by (cases "l = level") (auto simp: b)
    show "key_sorted (b_added ?b ! l)"
      using o(2) [OF l] len set_insert_key_sorted by (cases "l = level") (auto simp: b)
    show "key_sorted (b_base ?b ! l)" using o(3) [OF l] by (simp add: b)
    show "distinct (b_base ?b ! l @ b_added ?b ! l)" using o(4) [OF l] dist len by (cases "l = level") (auto simp: b)
    show "fm_number ` (set (b_base ?b ! l) \<union> set (b_added ?b ! l)) \<subseteq> (used(level := insert (fm_number f) (used level))) l"
      using o(5) [OF l] set_ins len n by (cases "l = level") (auto simp: b)
  qed (use len in \<open>simp_all add: b\<close>)
qed

lemma builder_adds_ok:
  assumes "builder_ok b files used" and "\<forall>(l, f) \<in> set fs. l < kNumLevels" and "fresh_files used fs"
  shows "builder_ok (fold (builder_add cmp) fs b) (\<lambda>l. files l \<union> {prepared f | f. (l, f) \<in> set fs}) (use_files fs used)"
  using assms
proof (induction fs arbitrary: b files used)
  case Nil
  then show ?case by (simp add: use_files_def)
next
  case (Cons p fs)
  obtain level f where p: "p = (level, f)" by fastforce
  note one = builder_add_ok [OF Cons.prems(1), of level f]
  have e1: "(\<lambda>l. (files(level := insert (prepared f) (files level))) l \<union> {prepared f | f. (l, f) \<in> set fs}) =
      (\<lambda>l. files l \<union> {prepared f | f. (l, f) \<in> set (p # fs)})" by (rule ext) (auto simp: p)
  have e2: "use_files fs (used(level := insert (fm_number f) (used level))) = use_files (p # fs) used"
    by (rule ext) (auto simp: use_files_def p)
  have "builder_ok (fold (builder_add cmp) fs (builder_add cmp (level, f) b))
      (\<lambda>l. files l \<union> {prepared f | f. (l, f) \<in> set (p # fs)}) (use_files (p # fs) used)"
    unfolding e1 [symmetric] e2 [symmetric] by (rule Cons.IH [OF one]) (use Cons.prems in \<open>auto simp: p fun_upd_def\<close>)
  then show ?case by (simp add: p)
qed

lemma builder_delete_ok:
  assumes "builder_ok b files used"
  shows "builder_ok (builder_delete deleted b) (\<lambda>l. {f \<in> files l. (l, fm_number f) \<notin> deleted}) used"
proof -
  have d: "b_deleted (builder_delete deleted b) ! l = b_deleted b ! l \<union> {n. (l, n) \<in> deleted}" if "l < kNumLevels" for l
    using that by (force simp: builder_delete_def)
  have b: "b_base (builder_delete deleted b) = b_base b" "b_added (builder_delete deleted b) = b_added b"
    "length (b_deleted (builder_delete deleted b)) = kNumLevels" by (simp_all add: builder_delete_def)
  show ?thesis using assms unfolding builder_ok_def b by (auto simp: d)
qed

definition edit_levels_ok :: "version_edit \<Rightarrow> bool" where
  "edit_levels_ok e \<longleftrightarrow> (\<forall>(l, f) \<in> set (ve_new_files e). l < kNumLevels)"

lemma builder_Apply_ok:
  assumes "builder_ok b files used" and "edit_levels_ok e" and "fresh_files used (ve_new_files e)"
  shows "builder_ok (builder_Apply cmp e b) (apply_edit e files) (use_files (ve_new_files e) used)"
  using builder_adds_ok [OF builder_delete_ok [OF assms(1)], of "ve_new_files e" "ve_deleted_files e"] assms(2,3)
  by (simp add: builder_Apply_def apply_edit_def [abs_def] edit_levels_ok_def)

lemma builder_Applies_ok:
  assumes "builder_ok b files used" and "\<forall>e \<in> set es. edit_levels_ok e" and "fresh_files used (concat (map ve_new_files es))"
  shows "\<exists>used'. builder_ok (fold (builder_Apply cmp) es b) (fold apply_edit es files) used'"
  using assms
proof (induction es arbitrary: b files used)
  case (Cons e es)
  then show ?case using builder_Apply_ok [OF Cons.prems(1), of e] by (simp add: fresh_files_append)
qed auto

text \<open>What is saved, level by level.\<close>

definition files_of :: "file_meta list list \<Rightarrow> nat \<Rightarrow> file_meta set" where
  "files_of files l = (if l < kNumLevels then set (files ! l) else {})"

lemma new_Builder_ok:
  assumes "length (v_files v) = kNumLevels" and "\<forall>l < kNumLevels. key_sorted (v_files v ! l) \<and> distinct (v_files v ! l)"
  shows "builder_ok (new_Builder v) (\<lambda>l. set (v_files v ! l)) (\<lambda>l. fm_number ` set (v_files v ! l))"
  using assms by (auto simp: builder_ok_def new_Builder_def key_sorted_def)

lemma builder_SaveTo_level:
  assumes "builder_ok b files used" and "l < kNumLevels"
  shows "set (v_files (builder_SaveTo cmp b) ! l) = files l"
    and "key_sorted (v_files (builder_SaveTo cmp b) ! l)" and "distinct (v_files (builder_SaveTo cmp b) ! l)"
proof -
  note o = builder_okD [OF assms]
  let ?r = "save_level cmp (b_deleted b ! l) (b_base b ! l) (b_added b ! l) []"
  have r: "v_files (builder_SaveTo cmp b) ! l = ?r" using assms(2) by (simp add: builder_SaveTo_def)
  have m: "mset ?r = mset (filter (\<lambda>f. fm_number f \<notin> b_deleted b ! l) (b_base b ! l @ b_added b ! l))"
    by (simp add: save_level_mset mset_filter)
  show "set (v_files (builder_SaveTo cmp b) ! l) = files l" unfolding r save_level_set using o(1) by blast
  show "key_sorted (v_files (builder_SaveTo cmp b) ! l)" unfolding r by (rule save_level_sorted [OF o(3,2)])
  show "distinct (v_files (builder_SaveTo cmp b) ! l)"
    unfolding r using mset_eq_imp_distinct_iff [OF m] distinct_filter [OF o(4)] by blast
qed

text \<open>Disjoint files in the order of their smallest keys make a sorted level.\<close>

definition disjoint_files :: "file_meta set \<Rightarrow> bool" where
  "disjoint_files S \<longleftrightarrow> (\<forall>f \<in> S. file_wf f) \<and>
     (\<forall>f \<in> S. \<forall>g \<in> S. f \<noteq> g \<longrightarrow> ik.less (fm_largest f) (fm_smallest g) \<or> ik.less (fm_largest g) (fm_smallest f))"

lemma level_sorted_disjoint:
  assumes "disjoint_files (set fs)" and "key_sorted fs" and "distinct fs"
  shows "level_sorted fs"
  unfolding level_sorted_def
proof
  show "\<forall>f \<in> set fs. file_wf f" using assms(1) unfolding disjoint_files_def by blast
  show "sorted_wrt (\<lambda>f g. ik.less (fm_largest f) (fm_smallest g)) fs"
    unfolding sorted_wrt_iff_nth_less
  proof (intro allI impI)
    fix i j
    assume ij: "i < j" "j < length fs"
    let ?f = "fs ! i" and ?g = "fs ! j"
    have m: "?f \<in> set fs" "?g \<in> set fs" "?f \<noteq> ?g" using ij assms(3) by (auto simp: nth_eq_iff_index_eq)
    have "key_le ?f ?g" using sorted_wrt_nth_less assms(2) ij unfolding key_sorted_def by blast
    then have "ikey_Compare cmp (fm_smallest ?f) (fm_smallest ?g) \<le> 0" unfolding key_le_iff by auto
    moreover have "ikey_Compare cmp (fm_smallest ?g) (fm_largest ?g) \<le> 0" using assms(1) m(2) unfolding disjoint_files_def file_wf_def by blast
    ultimately have "ikey_Compare cmp (fm_smallest ?f) (fm_largest ?g) \<le> 0" by (rule ikey_trans)
    then have "\<not> ik.less (fm_largest ?g) (fm_smallest ?f)" using ik.compare_ge [of "fm_largest ?g" "fm_smallest ?f"] by simp
    then show "ik.less (fm_largest ?f) (fm_smallest ?g)" using assms(1) m unfolding disjoint_files_def by blast
  qed
qed

lemma level_sorted_disjoint_files: "level_sorted fs \<Longrightarrow> disjoint_files (set fs)"
  using level_sorted_cases unfolding disjoint_files_def level_sorted_def by metis

lemma level_sorted_key_sorted:
  assumes "level_sorted fs"
  shows "key_sorted fs" and "distinct fs"
proof -
  have lt: "ik.less (fm_smallest (fs ! i)) (fm_smallest (fs ! j))" if "i < j" "j < length fs" for i j
  proof -
    have "ik.less (fm_largest (fs ! i)) (fm_smallest (fs ! j))"
      using sorted_wrt_nth_less [OF _ that] assms unfolding level_sorted_def by blast
    moreover have "file_wf (fs ! i)" using assms that unfolding level_sorted_def by auto
    ultimately show ?thesis using ik_le_less unfolding file_wf_def by blast
  qed
  then show "key_sorted fs" unfolding key_sorted_def sorted_wrt_iff_nth_less key_le_iff by blast
  show "distinct fs" unfolding distinct_conv_nth
    using lt ik_irrefl by (metis linorder_neqE_nat)
qed

end

end
