(* ===== verification/Levels.thy ===== *)
theory Levels
  imports VersionBuilder
begin

text \<open>
  What makes the levels of a version a correct picture of the database: above level zero the files of a level are
  disjoint, and of two files that hold entries of one user key, the one in the upper level (in level zero, the one with the
  larger number) holds the newer ones. Flushing a memtable and installing a compaction keep this.
\<close>

section \<open>Edits that install results\<close>

text \<open>The output files of a compaction as \<^verbatim>\<open>DBImpl::InstallCompactionResults\<close> adds them, and a trivial move.\<close>

definition add_outputs :: "nat \<Rightarrow> file_meta list \<Rightarrow> version_edit \<Rightarrow> version_edit" where
  "add_outputs level outs e =
     fold (\<lambda>out. ve_AddFile level (fm_number out) (fm_file_size out) (fm_smallest out) (fm_largest out)) outs e"

definition install_edit :: "compaction \<Rightarrow> file_meta list \<Rightarrow> version_edit" where
  "install_edit c outs = add_outputs (c_level c + 1) outs (AddInputDeletions c (c_edit c))"

definition move_edit :: "compaction \<Rightarrow> version_edit" where
  "move_edit c =
     (let f = c_inputs0 c ! 0
      in ve_AddFile (c_level c + 1) (fm_number f) (fm_file_size f) (fm_smallest f) (fm_largest f)
           (ve_RemoveFile (c_level c) (fm_number f) (c_edit c)))"

definition meta_new :: "file_meta \<Rightarrow> file_meta" where
  "meta_new f = new_FileMetaData\<lparr>fm_number := fm_number f, fm_file_size := fm_file_size f,
     fm_smallest := fm_smallest f, fm_largest := fm_largest f\<rparr>"

lemma meta_new_simps [simp]:
  "fm_number (meta_new f) = fm_number f" "fm_smallest (meta_new f) = fm_smallest f" "fm_largest (meta_new f) = fm_largest f"
  "fm_file_size (meta_new f) = fm_file_size f"
  by (simp_all add: meta_new_def)

lemma prepared_simps [simp]:
  "fm_number (prepared f) = fm_number f" "fm_smallest (prepared f) = fm_smallest f" "fm_largest (prepared f) = fm_largest f"
  "fm_file_size (prepared f) = fm_file_size f"
  by (simp_all add: prepared_def)

definition installed :: "file_meta \<Rightarrow> file_meta" where "installed f = prepared (meta_new f)"

lemma add_outputs_fields:
  "ve_new_files (add_outputs level outs e) = ve_new_files e @ map (\<lambda>f. (level, meta_new f)) outs"
  "ve_deleted_files (add_outputs level outs e) = ve_deleted_files e"
  "ve_compact_pointers (add_outputs level outs e) = ve_compact_pointers e"
  unfolding add_outputs_def by (induction outs arbitrary: e) (simp_all add: ve_AddFile_def meta_new_def Let_def)

lemma fold_RemoveFile:
  "ve_deleted_files (fold (\<lambda>f. ve_RemoveFile level (fm_number f)) fs e) = ve_deleted_files e \<union> (\<lambda>f. (level, fm_number f)) ` set fs"
  "ve_new_files (fold (\<lambda>f. ve_RemoveFile level (fm_number f)) fs e) = ve_new_files e"
  "ve_compact_pointers (fold (\<lambda>f. ve_RemoveFile level (fm_number f)) fs e) = ve_compact_pointers e"
  by (induction fs arbitrary: e) (auto simp: ve_RemoveFile_def)

lemma AddInputDeletions_fields:
  "ve_deleted_files (AddInputDeletions c e) = ve_deleted_files e \<union> (\<lambda>f. (c_level c, fm_number f)) ` set (c_inputs0 c) \<union>
     (\<lambda>f. (c_level c + 1, fm_number f)) ` set (c_inputs1 c)"
  "ve_new_files (AddInputDeletions c e) = ve_new_files e"
  by (auto simp: AddInputDeletions_def fold_RemoveFile)

text \<open>The files of each level after a compaction, and after a flush.\<close>

definition compacted :: "file_meta list list \<Rightarrow> compaction \<Rightarrow> file_meta list \<Rightarrow> nat \<Rightarrow> file_meta set" where
  "compacted files c outs l =
     (if l = c_level c then set (files ! l) - set (c_inputs0 c)
      else if l = c_level c + 1 then (set (files ! l) - set (c_inputs1 c)) \<union> installed ` set outs
      else set (files ! l))"

definition flushed :: "file_meta list list \<Rightarrow> nat \<Rightarrow> file_meta \<Rightarrow> nat \<Rightarrow> file_meta set" where
  "flushed files level f l = (if l = level then insert (installed f) (set (files ! l)) else set (files ! l))"

section \<open>Keys of files, and layers\<close>

context user_comparator
begin

text \<open>The internal keys of each file, by number.\<close>

definition newer :: "bytes set \<Rightarrow> bytes set \<Rightarrow> bool" where
  "newer K K' \<longleftrightarrow> (\<forall>k \<in> K. \<forall>k' \<in> K'. cmp_Compare cmp (ExtractUserKey k) (ExtractUserKey k') = 0 \<longrightarrow> key_tag k' < key_tag k)"

definition holds :: "(u64 \<Rightarrow> bytes set) \<Rightarrow> file_meta \<Rightarrow> bool" where
  "holds keys f \<longleftrightarrow> (\<forall>k \<in> keys (fm_number f). ikey_Compare cmp (fm_smallest f) k \<le> 0 \<and> ikey_Compare cmp k (fm_largest f) \<le> 0)"

definition levels_ok :: "(u64 \<Rightarrow> bytes set) \<Rightarrow> file_meta list list \<Rightarrow> bool" where
  "levels_ok keys files \<longleftrightarrow>
     version_wf files \<and> (\<forall>l < kNumLevels. key_sorted (files ! l) \<and> distinct (files ! l) \<and> inj_on fm_number (set (files ! l))) \<and>
     (\<forall>i j. i < j \<longrightarrow> j < kNumLevels \<longrightarrow> (\<forall>f \<in> set (files ! i). \<forall>g \<in> set (files ! j). fm_number f \<noteq> fm_number g)) \<and>
     (\<forall>l < kNumLevels. \<forall>f \<in> set (files ! l). holds keys f) \<and>
     (\<forall>i j. i < j \<longrightarrow> j < kNumLevels \<longrightarrow> (\<forall>f \<in> set (files ! i). \<forall>g \<in> set (files ! j). newer (keys (fm_number f)) (keys (fm_number g)))) \<and>
     (\<forall>f \<in> set (files ! 0). \<forall>g \<in> set (files ! 0). fm_number g < fm_number f \<longrightarrow> newer (keys (fm_number f)) (keys (fm_number g)))"

lemma levels_okD:
  assumes "levels_ok keys files"
  shows "version_wf files" and "l < kNumLevels \<Longrightarrow> key_sorted (files ! l) \<and> distinct (files ! l)"
    and "l < kNumLevels \<Longrightarrow> inj_on fm_number (set (files ! l))"
    and "l < kNumLevels \<Longrightarrow> f \<in> set (files ! l) \<Longrightarrow> holds keys f"
    and "i < j \<Longrightarrow> j < kNumLevels \<Longrightarrow> f \<in> set (files ! i) \<Longrightarrow> g \<in> set (files ! j) \<Longrightarrow> newer (keys (fm_number f)) (keys (fm_number g))"
    and "f \<in> set (files ! 0) \<Longrightarrow> g \<in> set (files ! 0) \<Longrightarrow> fm_number g < fm_number f \<Longrightarrow> newer (keys (fm_number f)) (keys (fm_number g))"
    and "i < j \<Longrightarrow> j < kNumLevels \<Longrightarrow> f \<in> set (files ! i) \<Longrightarrow> g \<in> set (files ! j) \<Longrightarrow> fm_number f \<noteq> fm_number g"
proof -
  note parts = assms [unfolded levels_ok_def]
  show "version_wf files" by (rule conjunct1 [OF parts])
  show "l < kNumLevels \<Longrightarrow> key_sorted (files ! l) \<and> distinct (files ! l)" and "l < kNumLevels \<Longrightarrow> inj_on fm_number (set (files ! l))"
    using conjunct1 [OF conjunct2 [OF parts]] by blast+
  note parts = conjunct2 [OF conjunct2 [OF parts]]
  show "i < j \<Longrightarrow> j < kNumLevels \<Longrightarrow> f \<in> set (files ! i) \<Longrightarrow> g \<in> set (files ! j) \<Longrightarrow> fm_number f \<noteq> fm_number g"
    using conjunct1 [OF parts] by blast
  note parts = conjunct2 [OF parts]
  show "l < kNumLevels \<Longrightarrow> f \<in> set (files ! l) \<Longrightarrow> holds keys f" using conjunct1 [OF parts] by blast
  note parts = conjunct2 [OF parts]
  show "i < j \<Longrightarrow> j < kNumLevels \<Longrightarrow> f \<in> set (files ! i) \<Longrightarrow> g \<in> set (files ! j) \<Longrightarrow> newer (keys (fm_number f)) (keys (fm_number g))"
    using conjunct1 [OF parts] by blast
  show "f \<in> set (files ! 0) \<Longrightarrow> g \<in> set (files ! 0) \<Longrightarrow> fm_number g < fm_number f \<Longrightarrow> newer (keys (fm_number f)) (keys (fm_number g))"
    using conjunct2 [OF parts] by blast
qed

lemma newer_empty [simp]: "newer {} K" "newer K {}" by (simp_all add: newer_def)

lemma newer_Un: "newer K K' \<Longrightarrow> newer K K'' \<Longrightarrow> newer K (K' \<union> K'')" "newer K' K \<Longrightarrow> newer K'' K \<Longrightarrow> newer (K' \<union> K'') K"
  unfolding newer_def by blast+

lemma user_less_ik: "less (ExtractUserKey a) (ExtractUserKey b) \<Longrightarrow> ikey_Compare cmp a b < 0"
  by (simp add: ikey_Compare_less)

text \<open>Entries of files that share no user key, and of files that lie one before the other.\<close>

lemma newer_apart:
  assumes "holds keys f" and "holds keys g" and "apart f g"
  shows "newer (keys (fm_number f)) (keys (fm_number g))"
proof -
  have False if k: "k \<in> keys (fm_number f)" "k' \<in> keys (fm_number g)" and eq: "cmp_Compare cmp (ExtractUserKey k) (ExtractUserKey k') = 0" for k k'
  proof -
    have b: "cmp_Compare cmp (f_start f) (ExtractUserKey k) \<le> 0" "cmp_Compare cmp (ExtractUserKey k) (f_limit f) \<le> 0"
      "cmp_Compare cmp (f_start g) (ExtractUserKey k') \<le> 0" "cmp_Compare cmp (ExtractUserKey k') (f_limit g) \<le> 0"
      using assms(1,2) k ikey_le_user unfolding holds_def by blast+
    have eq': "cmp_Compare cmp (ExtractUserKey k') (ExtractUserKey k) \<le> 0" "cmp_Compare cmp (ExtractUserKey k) (ExtractUserKey k') \<le> 0"
      using eq compare_ge [of "ExtractUserKey k" "ExtractUserKey k'"] by simp_all
    from assms(3) show False
      unfolding apart_def
    proof
      assume "less (f_limit f) (f_start g)"
      then have "less (ExtractUserKey k) (ExtractUserKey k')" using user_le_less [OF b(2)] user_less_le [OF _ b(3)] by blast
      then show False using eq by simp
    next
      assume "less (f_limit g) (f_start f)"
      then have "less (ExtractUserKey k') (ExtractUserKey k)" using user_le_less [OF b(4)] user_less_le [OF _ b(1)] by blast
      then show False using eq'(2) user_le_less [of "ExtractUserKey k" "ExtractUserKey k'" "ExtractUserKey k"] by simp
    qed
  qed
  then show ?thesis unfolding newer_def by blast
qed

lemma newer_before:
  assumes "holds keys f" and "holds keys g" and "ik.less (fm_largest f) (fm_smallest g)"
  shows "newer (keys (fm_number f)) (keys (fm_number g))"
  unfolding newer_def
proof (intro ballI impI)
  fix k k'
  assume k: "k \<in> keys (fm_number f)" "k' \<in> keys (fm_number g)" and eq: "cmp_Compare cmp (ExtractUserKey k) (ExtractUserKey k') = 0"
  have "ikey_Compare cmp k (fm_largest f) \<le> 0" "ikey_Compare cmp (fm_smallest g) k' \<le> 0"
    using assms(1,2) k unfolding holds_def by blast+
  then have "ikey_Compare cmp k k' < 0" using ik_le_less ik_less_le assms(3) by blast
  then show "key_tag k' < key_tag k" using eq by (simp add: ikey_Compare_less)
qed

section \<open>Installing a compaction\<close>

text \<open>The outputs: sorted and disjoint, their keys among those of the inputs.\<close>

definition input_files :: "compaction \<Rightarrow> file_meta set" where
  "input_files c = set (c_inputs0 c) \<union> set (c_inputs1 c)"

definition outputs_ok :: "(u64 \<Rightarrow> bytes set) \<Rightarrow> compaction \<Rightarrow> file_meta list \<Rightarrow> bool" where
  "outputs_ok keys c outs \<longleftrightarrow>
     level_sorted outs \<and> distinct (map fm_number outs) \<and>
     (\<forall>out \<in> set outs. holds keys out \<and>
        (\<exists>a \<in> input_files c. ikey_Compare cmp (fm_smallest a) (fm_smallest out) \<le> 0) \<and>
        (\<exists>b \<in> input_files c. ikey_Compare cmp (fm_largest out) (fm_largest b) \<le> 0) \<and>
        keys (fm_number out) \<subseteq> (\<Union>a \<in> input_files c. keys (fm_number a)))"

text \<open>A file of the next level that was not chosen lies before or behind all inputs.\<close>

lemma unchosen_beside:
  assumes "version_wf files" and "compaction_ok files c" and "g \<in> set (files ! (c_level c + 1))" and "g \<notin> set (c_inputs1 c)"
  shows "(\<forall>h \<in> input_files c. ik.less (fm_largest g) (fm_smallest h)) \<or> (\<forall>h \<in> input_files c. ik.less (fm_largest h) (fm_smallest g))"
proof -
  let ?r = "GetRange cmp (c_inputs0 c)"
  note ok = assms(2) [unfolded compaction_ok_def]
  have r: "in_range ?r (c_inputs0 c)" using ok by (intro GetRange_spec) blast
  have srt: "level_sorted (files ! (c_level c + 1))" using assms(1) ok by (simp add: version_wf_def)
  have in1: "set (c_inputs1 c) \<subseteq> set (files ! (c_level c + 1))" using ok by auto
  have not1: "less (f_limit g) (ExtractUserKey (fst ?r)) \<or> less (ExtractUserKey (snd ?r)) (f_start g)"
    using assms(3,4) ok by auto
  have h1: "\<not> less (f_limit h) (ExtractUserKey (fst ?r))" "\<not> less (ExtractUserKey (snd ?r)) (f_start h)" if "h \<in> set (c_inputs1 c)" for h
    using that ok by auto
  have gg: "cmp_Compare cmp (f_start g) (f_limit g) \<le> 0" using file_user srt assms(3) unfolding level_sorted_def by blast
  from not1 show ?thesis
  proof
    assume l: "less (f_limit g) (ExtractUserKey (fst ?r))"
    have "ik.less (fm_largest g) (fm_smallest h)" if "h \<in> input_files c" for h
    proof (cases "h \<in> set (c_inputs0 c)")
      case True
      then show ?thesis using user_less_ik user_less_le [OF l] in_range_user(1) [OF r] by blast
    next
      case False
      then have h: "h \<in> set (c_inputs1 c)" using that by (simp add: input_files_def)
      then have hf: "h \<in> set (files ! (c_level c + 1))" using in1 by blast
      show ?thesis
      proof (cases rule: level_sorted_cases [OF srt assms(3) hf])
        case 1 then show ?thesis using h assms(4) by simp
      next
        case 3
        have "cmp_Compare cmp (f_limit h) (f_limit g) \<le> 0" using ikey_less_user [OF 3] gg by (rule user_trans)
        then show ?thesis using user_le_less l h1(1) [OF h] by blast
      qed
    qed
    then show ?thesis by blast
  next
    assume l: "less (ExtractUserKey (snd ?r)) (f_start g)"
    have "ik.less (fm_largest h) (fm_smallest g)" if "h \<in> input_files c" for h
    proof (cases "h \<in> set (c_inputs0 c)")
      case True
      then show ?thesis using user_less_ik user_le_less [OF _ l] in_range_user(2) [OF r] by blast
    next
      case False
      then have h: "h \<in> set (c_inputs1 c)" using that by (simp add: input_files_def)
      then have hf: "h \<in> set (files ! (c_level c + 1))" using in1 by blast
      show ?thesis
      proof (cases rule: level_sorted_cases [OF srt assms(3) hf])
        case 1 then show ?thesis using h assms(4) by simp
      next
        case 2
        have "cmp_Compare cmp (f_start g) (f_start h) \<le> 0" using gg ikey_less_user [OF 2] by (rule user_trans)
        then show ?thesis using user_less_le [OF l] h1(2) [OF h] by blast
      qed
    qed
    then show ?thesis by blast
  qed
qed

lemma file_wf_prepared [simp]: "file_wf (prepared f) = file_wf f" "file_wf (meta_new f) = file_wf f"
  by (simp_all add: file_wf_def)

lemma holds_prepared [simp]: "holds keys (prepared f) = holds keys f" "holds keys (meta_new f) = holds keys f"
  by (simp_all add: holds_def)

abbreviation beside :: "file_meta \<Rightarrow> file_meta \<Rightarrow> bool" where
  "beside f g \<equiv> ik.less (fm_largest f) (fm_smallest g) \<or> ik.less (fm_largest g) (fm_smallest f)"

lemma disjoint_files_Un:
  assumes "disjoint_files S" and "disjoint_files T" and "\<And>f g. f \<in> S \<Longrightarrow> g \<in> T \<Longrightarrow> beside f g"
  shows "disjoint_files (S \<union> T)"
  using assms unfolding disjoint_files_def by (metis Un_iff)

lemma disjoint_files_subset: "disjoint_files S \<Longrightarrow> T \<subseteq> S \<Longrightarrow> disjoint_files T"
  unfolding disjoint_files_def by blast

lemma installed_simps [simp]:
  "fm_number (installed f) = fm_number f" "fm_smallest (installed f) = fm_smallest f" "fm_largest (installed f) = fm_largest f"
  "file_wf (installed f) = file_wf f" "holds keys (installed f) = holds keys f"
  by (simp_all add: installed_def)

lemma disjoint_files_installed: "disjoint_files S \<Longrightarrow> disjoint_files (installed ` S)"
  unfolding disjoint_files_def by (metis imageE installed_simps(2,3,4))

lemma next_level_disjoint:
  assumes "version_wf files" and "compaction_ok files c" and "outputs_ok keys c outs"
  shows "disjoint_files ((set (files ! (c_level c + 1)) - set (c_inputs1 c)) \<union> installed ` set outs)"
proof (rule disjoint_files_Un)
  have "level_sorted (files ! (c_level c + 1))" using assms(1,2) unfolding compaction_ok_def version_wf_def by simp
  then show "disjoint_files (set (files ! (c_level c + 1)) - set (c_inputs1 c))"
    using level_sorted_disjoint_files disjoint_files_subset by blast
  have "level_sorted outs" using assms(3) unfolding outputs_ok_def by blast
  then show "disjoint_files (installed ` set outs)" using level_sorted_disjoint_files disjoint_files_installed by blast
  fix g f
  assume g: "g \<in> set (files ! (c_level c + 1)) - set (c_inputs1 c)" and "f \<in> installed ` set outs"
  then obtain out where out: "out \<in> set outs" "f = installed out" by blast
  obtain a b where ab: "a \<in> input_files c" "ikey_Compare cmp (fm_smallest a) (fm_smallest out) \<le> 0"
    "b \<in> input_files c" "ikey_Compare cmp (fm_largest out) (fm_largest b) \<le> 0"
    using assms(3) out(1) unfolding outputs_ok_def by blast
  have "(\<forall>h \<in> input_files c. ik.less (fm_largest g) (fm_smallest h)) \<or> (\<forall>h \<in> input_files c. ik.less (fm_largest h) (fm_smallest g))"
    using unchosen_beside [OF assms(1,2)] g by blast
  then show "beside g f" using ab ik_less_le ik_le_less out(2) by (metis installed_simps(2,3))
qed

text \<open>The layers after the compaction.\<close>

lemma outputs_newer:
  assumes "outputs_ok keys c outs" and "f \<in> set outs"
  shows "(\<And>a. a \<in> input_files c \<Longrightarrow> newer (keys (fm_number a)) K) \<Longrightarrow> newer (keys (fm_number f)) K"
    and "(\<And>a. a \<in> input_files c \<Longrightarrow> newer K (keys (fm_number a))) \<Longrightarrow> newer K (keys (fm_number f))"
  using assms unfolding outputs_ok_def newer_def by blast+

lemma remaining_newer:
  assumes "levels_ok keys files" and "compaction_ok files c" and "g \<in> set (files ! c_level c)" and "g \<notin> set (c_inputs0 c)"
    and "a \<in> input_files c"
  shows "newer (keys (fm_number g)) (keys (fm_number a))"
proof -
  note ok = assms(2) [unfolded compaction_ok_def]
  have l: "c_level c < kNumLevels" "c_level c + 1 < kNumLevels" using ok by simp_all
  have hg: "holds keys g" using levels_okD(4) [OF assms(1) l(1) assms(3)] .
  show ?thesis
  proof (cases "a \<in> set (c_inputs0 c)")
    case False
    then have "a \<in> set (files ! (c_level c + 1))" using assms(5) ok by (auto simp: input_files_def)
    then show ?thesis using levels_okD(5) [OF assms(1) _ l(2) assms(3)] by simp
  next
    case True
    then have af: "a \<in> set (files ! c_level c)" using ok by blast
    have ha: "holds keys a" using levels_okD(4) [OF assms(1) l(1) af] .
    have rel: "if c_level c = 0 then apart a g else ik.less (fm_largest a) (fm_smallest g) \<longrightarrow> less (f_limit a) (f_start g)"
      using ok True assms(3,4) by blast
    show ?thesis
    proof (cases "c_level c = 0")
      case True
      then have "apart g a" using rel by (auto simp: apart_def)
      then show ?thesis using newer_apart [OF hg ha] by blast
    next
      case False
      have srt: "level_sorted (files ! c_level c)" using levels_okD(1) [OF assms(1)] l(1) False by (simp add: version_wf_def)
      show ?thesis
      proof (cases rule: level_sorted_cases [OF srt af assms(3)])
        case 1 then show ?thesis using True assms(4) by simp
      next
        case 2
        then have "apart g a" using rel False by (simp add: apart_def)
        then show ?thesis using newer_apart [OF hg ha] by blast
      next
        case 3
        then show ?thesis using newer_before [OF hg ha] by blast
      qed
    qed
  qed
qed

lemma compacted_layers:
  assumes "levels_ok keys files" and "compaction_ok files c" and "outputs_ok keys c outs"
    and "i < j" and "j < kNumLevels" and "f \<in> compacted files c outs i" and "g \<in> compacted files c outs j"
  shows "newer (keys (fm_number f)) (keys (fm_number g))"
proof -
  note ok = assms(2) [unfolded compaction_ok_def]
  have inp: "a \<in> set (files ! c_level c) \<or> a \<in> set (files ! (c_level c + 1))" if "a \<in> input_files c" for a
    using that ok by (auto simp: input_files_def)
  have old: "newer (keys (fm_number f)) (keys (fm_number g))" if "f \<in> set (files ! i)" "g \<in> set (files ! j)"
    using levels_okD(5) [OF assms(1,4,5) that] .
  have sub: "compacted files c outs l \<subseteq> set (files ! l) \<union> (if l = c_level c + 1 then installed ` set outs else {})" for l
    by (auto simp: compacted_def)
  consider "f \<in> set (files ! i)" "g \<in> set (files ! j)"
    | out where "i = c_level c + 1" "out \<in> set outs" "f = installed out" "g \<in> set (files ! j)"
    | out where "j = c_level c + 1" "out \<in> set outs" "g = installed out" "f \<in> compacted files c outs i" "f \<in> set (files ! i)"
    using assms(4,6,7) sub [of i] sub [of j] by (auto split: if_splits)
  then show ?thesis
  proof cases
    case 1 then show ?thesis by (rule old)
  next
    case 2
    have "newer (keys (fm_number a)) (keys (fm_number g))" if "a \<in> input_files c" for a
      using inp [OF that] levels_okD(5) [OF assms(1) _ assms(5) _ 2(4)] 2(1) assms(4) by (metis Suc_eq_plus1 Suc_lessD)
    then show ?thesis using outputs_newer(1) [OF assms(3) 2(2)] 2(3) by simp
  next
    case 3
    have "newer (keys (fm_number f)) (keys (fm_number a))" if "a \<in> input_files c" for a
    proof (cases "i = c_level c")
      case True
      then have "f \<in> set (files ! c_level c)" "f \<notin> set (c_inputs0 c)" using 3(4) by (simp_all add: compacted_def)
      then show ?thesis using remaining_newer [OF assms(1,2)] that by blast
    next
      case False
      then have "i < c_level c" using 3(1) assms(4) by simp
      moreover have "c_level c < kNumLevels" "c_level c + 1 < kNumLevels" using ok by simp_all
      moreover note newer_below = levels_okD(5) [OF assms(1) _ _ 3(5)]
      ultimately show ?thesis using inp [OF that] newer_below [of "c_level c" a] newer_below [of "c_level c + 1" a] by auto
    qed
    then show ?thesis using outputs_newer(2) [OF assms(3) 3(2)] 3(3) by simp
  qed
qed

text \<open>A version whose files are known as sets.\<close>

lemma levels_ok_sets:
  assumes "length files = kNumLevels"
    and "\<And>l. l < kNumLevels \<Longrightarrow> set (files ! l) = S l \<and> key_sorted (files ! l) \<and> distinct (files ! l) \<and> inj_on fm_number (S l)"
    and "\<And>f. f \<in> S 0 \<Longrightarrow> file_wf f" and "\<And>l. 0 < l \<Longrightarrow> l < kNumLevels \<Longrightarrow> disjoint_files (S l)"
    and "\<And>l f. l < kNumLevels \<Longrightarrow> f \<in> S l \<Longrightarrow> holds keys f"
    and "\<And>i j f g. i < j \<Longrightarrow> j < kNumLevels \<Longrightarrow> f \<in> S i \<Longrightarrow> g \<in> S j \<Longrightarrow> newer (keys (fm_number f)) (keys (fm_number g))"
    and "\<And>f g. f \<in> S 0 \<Longrightarrow> g \<in> S 0 \<Longrightarrow> fm_number g < fm_number f \<Longrightarrow> newer (keys (fm_number f)) (keys (fm_number g))"
    and "\<And>i j f g. i < j \<Longrightarrow> j < kNumLevels \<Longrightarrow> f \<in> S i \<Longrightarrow> g \<in> S j \<Longrightarrow> fm_number f \<noteq> fm_number g"
  shows "levels_ok keys files"
proof -
  have z: "0 < kNumLevels" by (simp add: kNumLevels_def)
  have srt: "level_sorted (files ! l)" if "0 < l" "l < kNumLevels" for l
    using level_sorted_disjoint [of "files ! l"] assms(2) [OF that(2)] assms(4) [OF that] by simp
  have set_S: "set (files ! l) = S l" if "l < kNumLevels" for l using assms(2) [OF that] by blast
  show ?thesis
    unfolding levels_ok_def version_wf_def
  proof (intro conjI allI impI ballI)
    fix i j f g assume ij: "i < j" "j < kNumLevels" and fg: "f \<in> set (files ! i)" "g \<in> set (files ! j)"
    have "i < kNumLevels" using ij by simp
    then show "newer (keys (fm_number f)) (keys (fm_number g))" and "fm_number f \<noteq> fm_number g"
      using assms(6,8) [OF ij] fg set_S ij(2) by blast+
  qed (use assms(1-3,5,7) srt set_S z in auto)
qed

lemma levels_new_Builder_ok:
  assumes "levels_ok keys (v_files v)"
  shows "builder_ok (new_Builder v) (\<lambda>l. set (v_files v ! l)) (\<lambda>l. fm_number ` set (v_files v ! l))"
  using levels_okD(1,2) [OF assms] by (intro new_Builder_ok) (simp_all add: version_wf_def)

lemma fresh_outputs:
  assumes "distinct (map fm_number outs)" and "\<And>f. f \<in> set outs \<Longrightarrow> fm_number f \<notin> used level"
  shows "fresh_files used (map (\<lambda>f. (level, meta_new f)) outs)"
  using assms
proof (induction outs arbitrary: used)
  case (Cons a outs)
  have "fresh_files (used(level := insert (fm_number a) (used level))) (map (\<lambda>f. (level, meta_new f)) outs)"
  proof (rule Cons.IH)
    show "distinct (map fm_number outs)" using Cons.prems(1) by simp
    show "fm_number f \<notin> (used(level := insert (fm_number a) (used level))) level" if f: "f \<in> set outs" for f
    proof -
      have "fm_number f \<noteq> fm_number a" using Cons.prems(1) f by (metis distinct.simps(2) image_eqI list.set_map list.simps(9))
      then show ?thesis using Cons.prems(2) [of f] f by simp
    qed
  qed
  then show ?case using Cons.prems(2) [of a] by simp
qed simp

lemma inj_on_disjoint: "inj_on h A \<Longrightarrow> inj_on h B \<Longrightarrow> (\<And>a b. a \<in> A \<Longrightarrow> b \<in> B \<Longrightarrow> h a \<noteq> h b) \<Longrightarrow> inj_on h (A \<union> B)"
  unfolding inj_on_def by (metis Un_iff)

lemma install_levels_ok:
  assumes "levels_ok keys (v_files v)" and "compaction_ok (v_files v) c" and "outputs_ok keys c outs"
    and "ve_deleted_files e = (\<lambda>f. (c_level c, fm_number f)) ` set (c_inputs0 c) \<union> (\<lambda>f. (c_level c + 1, fm_number f)) ` set (c_inputs1 c)"
    and "ve_new_files e = map (\<lambda>f. (c_level c + 1, meta_new f)) outs"
    and "\<And>f g l. f \<in> set outs \<Longrightarrow> l < kNumLevels \<Longrightarrow> g \<in> set (v_files v ! l) \<Longrightarrow> l = c_level c \<Longrightarrow> g \<in> set (c_inputs0 c) \<or> fm_number f \<noteq> fm_number g"
    and "\<And>f g l. f \<in> set outs \<Longrightarrow> l < kNumLevels \<Longrightarrow> g \<in> set (v_files v ! l) \<Longrightarrow> l \<noteq> c_level c \<Longrightarrow> fm_number f \<noteq> fm_number g"
  shows "levels_ok keys (v_files (builder_SaveTo cmp (builder_Apply cmp e (new_Builder v))))"
    and "l < kNumLevels \<Longrightarrow> set (v_files (builder_SaveTo cmp (builder_Apply cmp e (new_Builder v))) ! l) = compacted (v_files v) c outs l"
proof -
  let ?files = "v_files v"
  let ?S = "compacted ?files c outs"
  let ?v' = "builder_SaveTo cmp (builder_Apply cmp e (new_Builder v))"
  note ok = assms(2) [unfolded compaction_ok_def]
  have L: "c_level c < kNumLevels" "c_level c + 1 < kNumLevels" using ok by simp_all
  have in0: "set (c_inputs0 c) \<subseteq> set (?files ! c_level c)" and in1: "set (c_inputs1 c) \<subseteq> set (?files ! (c_level c + 1))"
    using ok by auto
  have out: "level_sorted outs" "distinct (map fm_number outs)" using assms(3) unfolding outputs_ok_def by blast+
  have fresh1: "fm_number f \<notin> fm_number ` set (?files ! (c_level c + 1))" if "f \<in> set outs" for f
    using assms(7) [OF that L(2)] by auto
  have fresh: "fresh_files (\<lambda>l. fm_number ` set (?files ! l)) (ve_new_files e)"
    unfolding assms(5) by (rule fresh_outputs [OF out(2)]) (rule fresh1)
  obtain used where b: "builder_ok (builder_Apply cmp e (new_Builder v)) (apply_edit e (\<lambda>l. set (?files ! l))) used"
    using builder_Apply_ok [OF levels_new_Builder_ok [OF assms(1)] _ fresh] L by (auto simp: edit_levels_ok_def assms(5))
  have e: "apply_edit e (\<lambda>l. set (?files ! l)) l = ?S l" if l: "l < kNumLevels" for l
  proof -
    have del: "(l, fm_number f) \<in> ve_deleted_files e \<longleftrightarrow> l = c_level c \<and> f \<in> set (c_inputs0 c) \<or> l = c_level c + 1 \<and> f \<in> set (c_inputs1 c)"
      if "f \<in> set (?files ! l)" for f
      using that levels_okD(3) [OF assms(1) l] in0 in1 unfolding assms(4) inj_on_def by blast
    have new: "{prepared f | f. (l, f) \<in> set (ve_new_files e)} = (if l = c_level c + 1 then installed ` set outs else {})"
      unfolding assms(5) installed_def by auto
    show ?thesis unfolding apply_edit_def new compacted_def using del by auto
  qed
  note saved = builder_SaveTo_level [OF b]
  show set_eq: "set (v_files ?v' ! l) = ?S l" if "l < kNumLevels" for l using saved(1) [OF that] e [OF that] by simp
  have inj: "inj_on fm_number (?S l)" if l: "l < kNumLevels" for l
  proof -
    note i = levels_okD(3) [OF assms(1) l]
    have o: "inj_on fm_number (installed ` set outs)"
      using out(2) by (auto simp: inj_on_def distinct_map)
    have i': "inj_on fm_number (set (?files ! l) - A)" for A using inj_on_subset [OF i] by blast
    show ?thesis
    proof (cases "l = c_level c + 1")
      case True
      have "inj_on fm_number ((set (?files ! l) - set (c_inputs1 c)) \<union> installed ` set outs)"
        by (rule inj_on_disjoint [OF i' o]) (use fresh1 True in \<open>fastforce simp: image_iff\<close>)
      then show ?thesis using True by (simp add: compacted_def)
    next
      case False
      then show ?thesis using i i' [of "set (c_inputs0 c)"] by (cases "l = c_level c") (simp_all add: compacted_def)
    qed
  qed
  show "levels_ok keys (v_files ?v')"
  proof (rule levels_ok_sets [where S = ?S])
    show "length (v_files ?v') = kNumLevels" by (simp add: builder_SaveTo_def)
    show "set (v_files ?v' ! l) = ?S l \<and> key_sorted (v_files ?v' ! l) \<and> distinct (v_files ?v' ! l) \<and> inj_on fm_number (?S l)"
      if "l < kNumLevels" for l using set_eq [OF that] saved(2,3) [OF that] inj [OF that] by blast
    show "file_wf f" if "f \<in> ?S 0" for f
      using that levels_okD(1) [OF assms(1)] by (auto simp: compacted_def version_wf_def split: if_splits)
    show "disjoint_files (?S l)" if "0 < l" "l < kNumLevels" for l
    proof -
      have d: "disjoint_files (set (?files ! l))"
        using level_sorted_disjoint_files levels_okD(1) [OF assms(1)] that by (simp add: version_wf_def)
      show ?thesis
        using d disjoint_files_subset [OF d] next_level_disjoint [OF levels_okD(1) [OF assms(1)] assms(2,3)]
        by (auto simp: compacted_def)
    qed
    show "holds keys f" if "l < kNumLevels" "f \<in> ?S l" for l f
      using that levels_okD(4) [OF assms(1) that(1)] assms(3) by (auto simp: compacted_def outputs_ok_def split: if_splits)
    show "newer (keys (fm_number f)) (keys (fm_number g))" if "i < j" "j < kNumLevels" "f \<in> ?S i" "g \<in> ?S j" for i j f g
      by (rule compacted_layers [OF assms(1-3) that])
    show "newer (keys (fm_number f)) (keys (fm_number g))" if "f \<in> ?S 0" "g \<in> ?S 0" "fm_number g < fm_number f" for f g
      using that levels_okD(6) [OF assms(1)] by (auto simp: compacted_def split: if_splits)
    show "fm_number f \<noteq> fm_number g" if ij: "i < j" "j < kNumLevels" and fg: "f \<in> ?S i" "g \<in> ?S j" for i j f g
    proof -
      have i: "i < kNumLevels" using ij by simp
      consider "f \<in> set (?files ! i)" "g \<in> set (?files ! j)"
        | out where "out \<in> set outs" "f = installed out" "g \<in> set (?files ! j)" "j \<noteq> c_level c"
        | out where "out \<in> set outs" "g = installed out" "f \<in> set (?files ! i)" "i = c_level c \<longrightarrow> f \<notin> set (c_inputs0 c)"
        using fg ij by (auto simp: compacted_def split: if_splits)
      then show ?thesis
      proof cases
        case 1 then show ?thesis using levels_okD(7) [OF assms(1) ij] by blast
      next
        case 2 then show ?thesis using assms(7) [OF 2(1) ij(2) 2(3)] by simp
      next
        case 3 then show ?thesis using assms(6,7) [OF 3(1) i 3(3)] by (cases "i = c_level c") auto
      qed
    qed
  qed
qed

section \<open>Flushing a memtable\<close>

lemma flush_levels_ok:
  assumes "levels_ok keys (v_files v)" and "level < kNumLevels" and "file_wf f" and "holds keys f"
    and "0 < level \<Longrightarrow> \<forall>l \<le> level. \<forall>g \<in> set (v_files v ! l). apart f g"
    and "\<And>l g. l < kNumLevels \<Longrightarrow> g \<in> set (v_files v ! l) \<Longrightarrow> fm_number g < fm_number f \<and> newer (keys (fm_number f)) (keys (fm_number g))"
    and "ve_deleted_files e = {}" and "ve_new_files e = [(level, meta_new f)]"
  shows "levels_ok keys (v_files (builder_SaveTo cmp (builder_Apply cmp e (new_Builder v))))"
    and "l < kNumLevels \<Longrightarrow> set (v_files (builder_SaveTo cmp (builder_Apply cmp e (new_Builder v))) ! l) = flushed (v_files v) level f l"
proof -
  let ?files = "v_files v"
  let ?S = "flushed ?files level f"
  let ?v' = "builder_SaveTo cmp (builder_Apply cmp e (new_Builder v))"
  have fresh: "fresh_files (\<lambda>l. fm_number ` set (?files ! l)) (ve_new_files e)"
    using assms(2,6,8) by fastforce
  obtain used where b: "builder_ok (builder_Apply cmp e (new_Builder v)) (apply_edit e (\<lambda>l. set (?files ! l))) used"
    using builder_Apply_ok [OF levels_new_Builder_ok [OF assms(1)] _ fresh] assms(2) by (auto simp: edit_levels_ok_def assms(8))
  have e: "apply_edit e (\<lambda>l. set (?files ! l)) l = ?S l" for l
    by (auto simp: apply_edit_def flushed_def assms(7,8) installed_def)
  note saved = builder_SaveTo_level [OF b]
  show set_eq: "set (v_files ?v' ! l) = ?S l" if "l < kNumLevels" for l using saved(1) [OF that] e by simp
  have wf: "version_wf ?files" using levels_okD(1) [OF assms(1)] .
  show "levels_ok keys (v_files ?v')"
  proof (rule levels_ok_sets [where S = ?S])
    show "length (v_files ?v') = kNumLevels" by (simp add: builder_SaveTo_def)
    show "set (v_files ?v' ! l) = ?S l \<and> key_sorted (v_files ?v' ! l) \<and> distinct (v_files ?v' ! l) \<and> inj_on fm_number (?S l)"
      if l: "l < kNumLevels" for l
    proof -
      have "fm_number f \<notin> fm_number ` set (?files ! l)" using assms(6) [OF l] by force
      then have "inj_on fm_number (?S l)" using levels_okD(3) [OF assms(1) l] by (auto simp: flushed_def)
      then show ?thesis using set_eq [OF l] saved(2,3) [OF l] by blast
    qed
    show "file_wf g" if "g \<in> ?S 0" for g
      using that wf assms(3) by (auto simp: flushed_def version_wf_def split: if_splits)
    show "disjoint_files (?S l)" if l: "0 < l" "l < kNumLevels" for l
    proof (cases "l = level")
      case True
      have d: "disjoint_files (set (?files ! l))"
        using level_sorted_disjoint_files wf l by (simp add: version_wf_def)
      have "disjoint_files ({installed f} \<union> set (?files ! l))"
      proof (rule disjoint_files_Un [OF _ d])
        show "disjoint_files {installed f}" using assms(3) by (simp add: disjoint_files_def)
        fix x g assume "x \<in> {installed f}" and g: "g \<in> set (?files ! l)"
        then have "apart f g" "x = installed f" using assms(5) True l by auto
        then show "beside x g" using user_less_ik by (auto simp: apart_def)
      qed
      then show ?thesis using True by (simp add: flushed_def)
    next
      case False
      then show ?thesis using level_sorted_disjoint_files wf l by (simp add: flushed_def version_wf_def)
    qed
    show "holds keys g" if "l < kNumLevels" "g \<in> ?S l" for l g
      using that levels_okD(4) [OF assms(1) that(1)] assms(4) by (auto simp: flushed_def split: if_splits)
    show "newer (keys (fm_number x)) (keys (fm_number g))" if ij: "i < j" "j < kNumLevels" "x \<in> ?S i" "g \<in> ?S j" for i j x g
    proof -
      have i: "i < kNumLevels" using ij by simp
      consider "x \<in> set (?files ! i)" "g \<in> set (?files ! j)" | "x = installed f" "g \<in> set (?files ! j)"
        | "x \<in> set (?files ! i)" "g = installed f" "j = level"
        using ij by (auto simp: flushed_def split: if_splits)
      then show ?thesis
      proof cases
        case 1 then show ?thesis using levels_okD(5) [OF assms(1) ij(1,2)] by blast
      next
        case 2 then show ?thesis using assms(6) [OF ij(2)] by simp
      next
        case 3
        then have "0 < level" "i \<le> level" using ij(1) by simp_all
        then have "apart f x" using assms(5) 3(1) by blast
        then have "apart x f" by (auto simp: apart_def)
        then show ?thesis using newer_apart [OF levels_okD(4) [OF assms(1) i 3(1)] assms(4)] 3(2) by simp
      qed
    qed
    show "newer (keys (fm_number x)) (keys (fm_number g))" if xg: "x \<in> ?S 0" "g \<in> ?S 0" "fm_number g < fm_number x" for x g
    proof -
      have z: "0 < kNumLevels" by (simp add: kNumLevels_def)
      consider "x \<in> set (?files ! 0)" "g \<in> set (?files ! 0)" | "x = installed f" "g \<in> set (?files ! 0)"
        | "x \<in> set (?files ! 0)" "g = installed f" | "x = installed f" "g = installed f"
        using xg by (auto simp: flushed_def split: if_splits)
      then show ?thesis
      proof cases
        case 1 then show ?thesis using levels_okD(6) [OF assms(1)] xg(3) by blast
      next
        case 2 then show ?thesis using assms(6) [OF z] by simp
      next
        case 3 then show ?thesis using assms(6) [OF z 3(1)] xg(3) less_asym by fastforce
      qed (use xg in simp)
    qed
    show "fm_number x \<noteq> fm_number g" if ij: "i < j" "j < kNumLevels" "x \<in> ?S i" "g \<in> ?S j" for i j x g
    proof -
      have i: "i < kNumLevels" using ij by simp
      consider "x \<in> set (?files ! i)" "g \<in> set (?files ! j)" | "x = installed f" "g \<in> set (?files ! j)"
        | "x \<in> set (?files ! i)" "g = installed f"
        using ij by (auto simp: flushed_def split: if_splits)
      then show ?thesis
      proof cases
        case 1 then show ?thesis using levels_okD(7) [OF assms(1) ij(1,2)] by blast
      next
        case 2 then show ?thesis using assms(6) [OF ij(2)] by force
      next
        case 3 then show ?thesis using assms(6) [OF i] by force
      qed
    qed
  qed
qed

text \<open>Moving one file is a compaction whose output is its input.\<close>

lemma single_output_ok:
  assumes "levels_ok keys files" and "compaction_ok files c" and "c_inputs0 c = [f]"
  shows "outputs_ok keys c [f]"
proof -
  note ok = assms(2) [unfolded compaction_ok_def]
  have l: "c_level c < kNumLevels" and f: "f \<in> set (files ! c_level c)" using ok assms(3) by auto
  have wf: "file_wf f" by (rule version_wf_files [OF levels_okD(1) [OF assms(1)] l f])
  have h: "holds keys f" by (rule levels_okD(4) [OF assms(1) l f])
  have "f \<in> input_files c" using assms(3) by (simp add: input_files_def)
  then show ?thesis using wf h ik.compare_refl by (auto simp: outputs_ok_def level_sorted_def intro!: bexI [of _ f])
qed

lemma installed_compaction:
  assumes "levels_ok keys (v_files v)" and "compaction_ok (v_files v) c" and "outputs_ok keys c outs"
    and "ve_deleted_files (c_edit c) = {}" and "ve_new_files (c_edit c) = []"
    and "\<And>f g l. f \<in> set outs \<Longrightarrow> l < kNumLevels \<Longrightarrow> g \<in> set (v_files v ! l) \<Longrightarrow> fm_number f \<noteq> fm_number g"
  shows "levels_ok keys (v_files (builder_SaveTo cmp (builder_Apply cmp (install_edit c outs) (new_Builder v))))"
    and "l < kNumLevels \<Longrightarrow>
      set (v_files (builder_SaveTo cmp (builder_Apply cmp (install_edit c outs) (new_Builder v))) ! l) = compacted (v_files v) c outs l"
proof -
  have d: "ve_deleted_files (install_edit c outs) =
      (\<lambda>f. (c_level c, fm_number f)) ` set (c_inputs0 c) \<union> (\<lambda>f. (c_level c + 1, fm_number f)) ` set (c_inputs1 c)"
    by (simp add: install_edit_def add_outputs_fields AddInputDeletions_fields assms(4))
  have n: "ve_new_files (install_edit c outs) = map (\<lambda>f. (c_level c + 1, meta_new f)) outs"
    by (simp add: install_edit_def add_outputs_fields AddInputDeletions_fields assms(5))
  note r = install_levels_ok [OF assms(1-3) d n]
  show "levels_ok keys (v_files (builder_SaveTo cmp (builder_Apply cmp (install_edit c outs) (new_Builder v))))"
    by (rule r(1)) (use assms(6) in blast)+
  show "l < kNumLevels \<Longrightarrow>
      set (v_files (builder_SaveTo cmp (builder_Apply cmp (install_edit c outs) (new_Builder v))) ! l) = compacted (v_files v) c outs l"
    by (rule r(2)) (use assms(6) in blast)+
qed

lemma installed_move:
  assumes "levels_ok keys (v_files v)" and "compaction_ok (v_files v) c" and "c_inputs0 c = [f]" and "c_inputs1 c = []"
    and "ve_deleted_files (c_edit c) = {}" and "ve_new_files (c_edit c) = []"
  shows "levels_ok keys (v_files (builder_SaveTo cmp (builder_Apply cmp (move_edit c) (new_Builder v))))"
    and "l < kNumLevels \<Longrightarrow>
      set (v_files (builder_SaveTo cmp (builder_Apply cmp (move_edit c) (new_Builder v))) ! l) = compacted (v_files v) c [f] l"
proof -
  note ok = assms(2) [unfolded compaction_ok_def]
  have l: "c_level c < kNumLevels" and f: "f \<in> set (v_files v ! c_level c)" using ok assms(3) by auto
  have d: "ve_deleted_files (move_edit c) =
      (\<lambda>f. (c_level c, fm_number f)) ` set (c_inputs0 c) \<union> (\<lambda>f. (c_level c + 1, fm_number f)) ` set (c_inputs1 c)"
    by (simp add: move_edit_def Let_def ve_AddFile_def ve_RemoveFile_def assms(3-5))
  have n: "ve_new_files (move_edit c) = map (\<lambda>f. (c_level c + 1, meta_new f)) [f]"
    by (simp add: move_edit_def Let_def ve_AddFile_def ve_RemoveFile_def meta_new_def assms(3,6))
  have same: "g = f \<or> fm_number f \<noteq> fm_number g" if "g \<in> set (v_files v ! c_level c)" for g
    using levels_okD(3) [OF assms(1) l] f that unfolding inj_on_def by blast
  have other: "fm_number f \<noteq> fm_number g" if g: "i < kNumLevels" "g \<in> set (v_files v ! i)" "i \<noteq> c_level c" for g i
    using levels_okD(7) [OF assms(1) _ l g(2) f] levels_okD(7) [OF assms(1) _ g(1) f g(2)] g(3) by (metis linorder_neqE_nat)
  note r = install_levels_ok [OF assms(1,2) single_output_ok [OF assms(1-3)] d n]
  show "levels_ok keys (v_files (builder_SaveTo cmp (builder_Apply cmp (move_edit c) (new_Builder v))))"
    by (rule r(1)) (use same other assms(3) in auto)
  show "l < kNumLevels \<Longrightarrow>
      set (v_files (builder_SaveTo cmp (builder_Apply cmp (move_edit c) (new_Builder v))) ! l) = compacted (v_files v) c [f] l"
    by (rule r(2)) (use same other assms(3) in auto)
qed

text \<open>The level a memtable's file goes to.\<close>

lemma picked_level_apart:
  assumes "version_wf files" and "PickLevelForMemTableOutput cmp m files (f_start f) (f_limit f) = Some level"
  shows "level < kNumLevels" and "0 < level \<Longrightarrow> \<forall>l \<le> level. \<forall>g \<in> set (files ! l). apart f g"
proof -
  have "level \<le> kMaxMemCompactLevel \<and> (0 < level \<longrightarrow> (\<forall>l \<le> level. \<forall>g \<in> set (files ! l). \<not> overlaps (Some (f_start f)) (Some (f_limit f)) g))"
  proof (cases "OverlapInLevel cmp files 0 (Some (f_start f)) (Some (f_limit f))")
    case True
    then show ?thesis using assms(2) by (simp add: PickLevelForMemTableOutput_def)
  next
    case False
    then have z: "\<forall>l \<le> 0. \<forall>g \<in> set (files ! l). \<not> overlaps (Some (f_start f)) (Some (f_limit f)) g"
      using SomeFileOverlapsRange_spec [of False "files ! 0"] by (simp add: OverlapInLevel_def)
    have "\<forall>i. 0 < i \<longrightarrow> i < kNumLevels \<longrightarrow> level_sorted (files ! i)" using assms(1) by (simp add: version_wf_def)
    from PickLevel_loop_spec [OF this _ z, of m] show ?thesis
      using assms(2) False by (auto simp: PickLevelForMemTableOutput_def)
  qed
  then show "level < kNumLevels" and "0 < level \<Longrightarrow> \<forall>l \<le> level. \<forall>g \<in> set (files ! l). apart f g"
    by (auto simp: kMaxMemCompactLevel_def kNumLevels_def overlaps_def before_range_def after_range_def apart_def)
qed

end

section \<open>Properties\<close>

text \<open>
  C6: The levels of a version stay disjoint and layered (of two files in different levels with entries of one user key, the
  upper one has the newer entries; in level zero the one with the larger number), file numbers stay unique, and exactly
  the intended files change: when a finished compaction is installed, dropping its inputs and adding its outputs
  one level down, when a single file is moved down, and when a memtable newer than all files is flushed to the level the
  program picks for it.
\<close>

theorem levels_stay_layered:
  assumes "bytewise_user.levels_ok keys (v_files v)"
    and "bytewise_user.compaction_ok (v_files v) c" and "bytewise_user.outputs_ok keys c outs"
    and "ve_deleted_files (c_edit c) = {}" and "ve_new_files (c_edit c) = []"
    and "\<And>x g l. x \<in> set outs \<Longrightarrow> l < kNumLevels \<Longrightarrow> g \<in> set (v_files v ! l) \<Longrightarrow> fm_number x \<noteq> fm_number g"
    and "PickLevelForMemTableOutput BytewiseComparator m (v_files v) (f_start f) (f_limit f) = Some level"
    and "bytewise_user.file_wf f" and "bytewise_user.holds keys f"
    and "\<And>l g. l < kNumLevels \<Longrightarrow> g \<in> set (v_files v ! l) \<Longrightarrow>
           fm_number g < fm_number f \<and> bytewise_user.newer (keys (fm_number f)) (keys (fm_number g))"
  shows "(let v' = builder_SaveTo BytewiseComparator (builder_Apply BytewiseComparator (install_edit c outs) (new_Builder v))
          in bytewise_user.levels_ok keys (v_files v') \<and> (\<forall>l < kNumLevels. set (v_files v' ! l) = compacted (v_files v) c outs l)) \<and>
         (\<forall>x. c_inputs0 c = [x] \<longrightarrow> c_inputs1 c = [] \<longrightarrow>
          (let v' = builder_SaveTo BytewiseComparator (builder_Apply BytewiseComparator (move_edit c) (new_Builder v))
           in bytewise_user.levels_ok keys (v_files v') \<and> (\<forall>l < kNumLevels. set (v_files v' ! l) = compacted (v_files v) c [x] l))) \<and>
         (let e = ve_AddFile level (fm_number f) (fm_file_size f) (fm_smallest f) (fm_largest f) new_VersionEdit;
              v' = builder_SaveTo BytewiseComparator (builder_Apply BytewiseComparator e (new_Builder v))
          in bytewise_user.levels_ok keys (v_files v') \<and> (\<forall>l < kNumLevels. set (v_files v' ! l) = flushed (v_files v) level f l))"
proof -
  have e: "ve_deleted_files (ve_AddFile level (fm_number f) (fm_file_size f) (fm_smallest f) (fm_largest f) new_VersionEdit) = {}"
    "ve_new_files (ve_AddFile level (fm_number f) (fm_file_size f) (fm_smallest f) (fm_largest f) new_VersionEdit) = [(level, meta_new f)]"
    by (simp_all add: ve_AddFile_def new_VersionEdit_def ve_Clear_def meta_new_def)
  note ins = bytewise_user.installed_compaction [OF assms(1-5)]
  note fl = bytewise_user.flush_levels_ok [OF assms(1) bytewise_user.picked_level_apart(1) [OF bytewise_user.levels_okD(1) [OF assms(1)] assms(7)]
      assms(8,9) bytewise_user.picked_level_apart(2) [OF bytewise_user.levels_okD(1) [OF assms(1)] assms(7)] _ e]
  show ?thesis
    unfolding Let_def
  proof (intro conjI allI impI)
    show "bytewise_user.levels_ok keys (v_files (builder_SaveTo BytewiseComparator
        (builder_Apply BytewiseComparator (install_edit c outs) (new_Builder v))))"
      by (rule ins(1)) (rule assms(6))
    show "set (v_files (builder_SaveTo BytewiseComparator (builder_Apply BytewiseComparator (install_edit c outs) (new_Builder v))) ! l) =
        compacted (v_files v) c outs l" if "l < kNumLevels" for l
      by (rule ins(2) [OF _ that]) (rule assms(6))
    fix x
    assume x: "c_inputs0 c = [x]" "c_inputs1 c = []"
    show "bytewise_user.levels_ok keys (v_files (builder_SaveTo BytewiseComparator
        (builder_Apply BytewiseComparator (move_edit c) (new_Builder v))))"
      by (rule bytewise_user.installed_move(1) [OF assms(1,2) x assms(4,5)])
    show "set (v_files (builder_SaveTo BytewiseComparator (builder_Apply BytewiseComparator (move_edit c) (new_Builder v))) ! l) =
        compacted (v_files v) c [x] l" if "l < kNumLevels" for l
      by (rule bytewise_user.installed_move(2) [OF assms(1,2) x assms(4,5) that])
  next
    show "bytewise_user.levels_ok keys (v_files (builder_SaveTo BytewiseComparator (builder_Apply BytewiseComparator
        (ve_AddFile level (fm_number f) (fm_file_size f) (fm_smallest f) (fm_largest f) new_VersionEdit) (new_Builder v))))"
      by (rule fl(1)) (assumption, erule (1) assms(10))
    show "set (v_files (builder_SaveTo BytewiseComparator (builder_Apply BytewiseComparator
        (ve_AddFile level (fm_number f) (fm_file_size f) (fm_smallest f) (fm_largest f) new_VersionEdit) (new_Builder v))) ! l) =
        flushed (v_files v) level f l" if "l < kNumLevels" for l
      by (rule fl(2) [OF _ _ that]) (assumption, erule (1) assms(10))
  qed
qed

definition demo_keys :: "u64 \<Rightarrow> bytes set" where
  "demo_keys n = (if n = 7 then {InternalKey [1] 9 kTypeValue} else if n = 5 then {InternalKey [1] 9 kTypeDeletion} else {})"

definition demo_compaction :: compaction where
  "demo_compaction = (new_Compaction demo_version_set 2)\<lparr>c_inputs0 := [demo_meta 6 5 5]\<rparr>"

theorem levels_stay_layered_witness:
  "set (v_files (builder_SaveTo BytewiseComparator (builder_Apply BytewiseComparator
     (install_edit demo_compaction [demo_meta 10 5 5]) (new_Builder (vs_current demo_version_set)))) ! 3) = {installed (demo_meta 10 5 5)}"
proof -
  have cc: "cmp_Compare BytewiseComparator = slice_compare" by (simp add: BytewiseComparator_def)
  have v: "v_files (vs_current demo_version_set) = demo_levels" by (simp add: demo_version_set_def)
  note order = bytewise_user.ikey_Compare_less bytewise_user.ikey_Compare_le PackSequenceAndType_def kMaxSequenceNumber_def
    type_code_def kValueTypeForSeek_def cc slice_compare_def Let_def demo_meta_def
  have levels: "demo_levels ! l = (if l = 0 then [demo_meta 7 1 2] else if l = 2 then [demo_meta 5 1 3, demo_meta 6 5 5] else [])"
    if "l < kNumLevels" for l
    using that by (auto simp: demo_levels_def kNumLevels_def less_Suc_eq numeral_nat)
  have num: "fm_number (demo_meta n a b) = n" for n a b by (simp add: demo_meta_def)
  have tag: "key_tag (InternalKey [1] 9 kTypeDeletion) < key_tag (InternalKey [1] 9 kTypeValue)"
    by (simp add: PackSequenceAndType_def type_code_def)
  have ok: "bytewise_user.levels_ok demo_keys (v_files (vs_current demo_version_set))"
    unfolding v bytewise_user.levels_ok_def
  proof (intro conjI allI impI ballI)
    show "bytewise_user.version_wf demo_levels" by (rule demo_version_wf)
    fix l
    assume l: "l < kNumLevels"
    show "bytewise_user.key_sorted (demo_levels ! l)" and "distinct (demo_levels ! l)"
      using bytewise_user.level_sorted_key_sorted [OF demo_level_sorted [OF _ l]] levels [OF l]
      by (cases "l = 0"; simp add: bytewise_user.key_sorted_def)+
    show "inj_on fm_number (set (demo_levels ! l))" using levels [OF l] by (auto simp: num inj_on_def split: if_splits)
    fix f
    assume "f \<in> set (demo_levels ! l)"
    then show "bytewise_user.holds demo_keys f"
      using levels [OF l] by (auto simp: bytewise_user.holds_def demo_keys_def order split: if_splits)
  next
    fix i j f g
    assume ij: "i < j" "j < kNumLevels" and fg: "f \<in> set (demo_levels ! i)" "g \<in> set (demo_levels ! j)"
    then have "i < kNumLevels" by simp
    then have "f = demo_meta 7 1 2 \<and> (g = demo_meta 5 1 3 \<or> g = demo_meta 6 5 5)"
      using fg ij levels [of i] levels [of j] by (auto split: if_splits)
    then show "fm_number f \<noteq> fm_number g"
      and "bytewise_user.newer (demo_keys (fm_number f)) (demo_keys (fm_number g))"
      using tag by (auto simp: num demo_keys_def bytewise_user.newer_def)
  next
    fix f g
    assume "f \<in> set (demo_levels ! 0)" "g \<in> set (demo_levels ! 0)" "fm_number g < fm_number f"
    then show "bytewise_user.newer (demo_keys (fm_number f)) (demo_keys (fm_number g))"
      using levels [of 0] by (simp add: kNumLevels_def)
  qed
  have c: "bytewise_user.compaction_ok (v_files (vs_current demo_version_set)) demo_compaction"
    by (auto simp: v bytewise_user.compaction_ok_def demo_compaction_def new_Compaction_def demo_levels_def kNumLevels_def order)
  have out: "bytewise_user.outputs_ok demo_keys demo_compaction [demo_meta 10 5 5]"
    by (simp add: bytewise_user.outputs_ok_def bytewise_user.level_sorted_def bytewise_user.file_wf_def bytewise_user.holds_def
        bytewise_user.input_files_def demo_compaction_def new_Compaction_def demo_keys_def order)
  have edit: "ve_deleted_files (c_edit demo_compaction) = {}" "ve_new_files (c_edit demo_compaction) = []"
    by (simp_all add: demo_compaction_def new_Compaction_def new_VersionEdit_def ve_Clear_def)
  have fresh: "fm_number x \<noteq> fm_number g"
    if "x \<in> set [demo_meta 10 5 5]" "l < kNumLevels" "g \<in> set (v_files (vs_current demo_version_set) ! l)" for x g l
    using that levels [of l] by (auto simp: v num split: if_splits)
  have pick: "PickLevelForMemTableOutput BytewiseComparator 100 (v_files (vs_current demo_version_set))
      (f_start (demo_meta 11 1 9)) (f_limit (demo_meta 11 1 9)) = Some 0"
    by (simp add: v PickLevelForMemTableOutput_def OverlapInLevel_def SomeFileOverlapsRange_def AfterFile_def BeforeFile_def demo_levels_def order)
  have wf: "bytewise_user.file_wf (demo_meta 11 1 9)" "bytewise_user.holds demo_keys (demo_meta 11 1 9)"
    by (simp_all add: bytewise_user.file_wf_def bytewise_user.holds_def demo_keys_def order)
  have newest: "fm_number g < fm_number (demo_meta 11 1 9) \<and>
      bytewise_user.newer (demo_keys (fm_number (demo_meta 11 1 9))) (demo_keys (fm_number g))"
    if "l < kNumLevels" "g \<in> set (v_files (vs_current demo_version_set) ! l)" for l g
    using that levels [of l] by (auto simp: v num demo_keys_def split: if_splits)
  from levels_stay_layered [OF ok c out edit fresh pick wf newest] have
    "set (v_files (builder_SaveTo BytewiseComparator (builder_Apply BytewiseComparator
       (install_edit demo_compaction [demo_meta 10 5 5]) (new_Builder (vs_current demo_version_set)))) ! 3) =
     compacted (v_files (vs_current demo_version_set)) demo_compaction [demo_meta 10 5 5] 3"
    unfolding Let_def by (simp add: kNumLevels_def)
  then show ?thesis
    by (simp add: compacted_def demo_compaction_def new_Compaction_def v demo_levels_def)
qed

end
