(* ===== verification/VersionSet.thy ===== *)
theory VersionSet
  imports Levels
begin

text \<open>
  The set of versions and its manifest, \<^verbatim>\<open>VersionSet\<close> of \<^verbatim>\<open>db/version_set.cc\<close>: applying an edit by writing it
  to the manifest first, recovering the last version from the manifest, and the small questions about the current version.
  What reached the kernel through an open manifest is in the file. Messages to the info log are not modelled, and the
  mutex that is released while the manifest is written guards against callers of which there is one at a time.
\<close>

section \<open>Versions and numbers\<close>

definition status_ToString :: "status \<Rightarrow> bytes" where
  "status_ToString s =
     (case s of
        OK \<Rightarrow> bytes_of ''OK''
      | NotFound m \<Rightarrow> bytes_of ''NotFound: '' @ m
      | Corruption m \<Rightarrow> bytes_of ''Corruption: '' @ m
      | NotSupported m \<Rightarrow> bytes_of ''Not implemented: '' @ m
      | InvalidArgument m \<Rightarrow> bytes_of ''Invalid argument: '' @ m
      | IOError m \<Rightarrow> bytes_of ''IO error: '' @ m)"

definition new_VersionSet :: "bytes \<Rightarrow> comparator \<Rightarrow> nat \<Rightarrow> bool \<Rightarrow> version_set" where
  "new_VersionSet dbname user max_file_size reuse_logs =
     \<lparr>vs_dbname = dbname, vs_user = user, vs_max_file_size = max_file_size, vs_reuse_logs = reuse_logs,
      vs_next_file_number = 2, vs_manifest_file_number = 0, vs_last_sequence = 0, vs_log_number = 0, vs_prev_log_number = 0,
      vs_descriptor = None, vs_versions = [], vs_current = new_Version, vs_current_refs = 1,
      vs_compact_pointer = replicate kNumLevels []\<rparr>"

definition NewFileNumber :: "version_set \<Rightarrow> u64 \<times> version_set" where
  "NewFileNumber vs = (vs_next_file_number vs, vs\<lparr>vs_next_file_number := vs_next_file_number vs + 1\<rparr>)"

definition ReuseFileNumber :: "u64 \<Rightarrow> version_set \<Rightarrow> version_set" where
  "ReuseFileNumber file_number vs =
     (if vs_next_file_number vs = file_number + 1 then vs\<lparr>vs_next_file_number := file_number\<rparr> else vs)"

definition MarkFileNumberUsed :: "u64 \<Rightarrow> version_set \<Rightarrow> version_set" where
  "MarkFileNumberUsed num vs = (if vs_next_file_number vs \<le> num then vs\<lparr>vs_next_file_number := num + 1\<rparr> else vs)"

definition vs_SetLastSequence :: "u64 \<Rightarrow> version_set \<Rightarrow> version_set" where
  "vs_SetLastSequence s vs = vs\<lparr>vs_last_sequence := s\<rparr>"

definition NumLevelFiles :: "version_set \<Rightarrow> nat \<Rightarrow> nat" where
  "NumLevelFiles vs level = length (v_files (vs_current vs) ! level)"

definition NumLevelBytes :: "version_set \<Rightarrow> nat \<Rightarrow> int" where
  "NumLevelBytes vs level = TotalFileSize (v_files (vs_current vs) ! level)"

definition NeedsCompaction :: "version_set \<Rightarrow> bool" where
  "NeedsCompaction vs \<longleftrightarrow> v_compaction_score (vs_current vs) \<ge> 1 \<or> v_file_to_compact (vs_current vs) \<noteq> None"

definition LevelSummary :: "version_set \<Rightarrow> bytes" where
  "LevelSummary vs =
     bytes_of ''files[ '' @ concat (map (\<lambda>files. decimal (length files) @ bytes_of '' '') (v_files (vs_current vs))) @ bytes_of '']''"

definition MaxNextLevelOverlappingBytes :: "version_set \<Rightarrow> int option" where
  "MaxNextLevelOverlappingBytes vs =
     fold (\<lambda>level result.
             fold (\<lambda>f result. do {
                     result \<leftarrow> result;
                     overlaps \<leftarrow> GetOverlappingInputs (vs_user vs) (v_files (vs_current vs)) (level + 1) (Some (fm_smallest f)) (Some (fm_largest f));
                     Some (max result (TotalFileSize overlaps))
                   })
               (v_files (vs_current vs) ! level) result)
       [1..<kNumLevels - 1] (Some 0)"

section \<open>The list of versions\<close>

definition version_Ref :: "version_set \<Rightarrow> version_set" where
  "version_Ref vs = vs\<lparr>vs_current_refs := vs_current_refs vs + 1\<rparr>"

text \<open>Giving up the \<open>i\<close>-th older version; the last holder deletes it.\<close>

definition version_Unref :: "nat \<Rightarrow> version_set \<Rightarrow> version_set" where
  "version_Unref i vs =
     (case vs_versions vs ! i of
        (v, refs) \<Rightarrow> vs\<lparr>vs_versions := (if refs - 1 = 0 then take i (vs_versions vs) @ drop (i + 1) (vs_versions vs)
                                      else (vs_versions vs)[i := (v, refs - 1)])\<rparr>)"

definition AppendVersion :: "version \<Rightarrow> version_set \<Rightarrow> version_set" where
  "AppendVersion v vs =
     vs\<lparr>vs_versions := (if vs_current_refs vs - 1 = 0 then vs_versions vs
                        else vs_versions vs @ [(vs_current vs, vs_current_refs vs - 1)]),
        vs_current := v, vs_current_refs := 1\<rparr>"

definition AddLiveFiles :: "version_set \<Rightarrow> u64 set \<Rightarrow> u64 set" where
  "AddLiveFiles vs live =
     fold (\<lambda>v live. fold (\<lambda>files live. fold (\<lambda>f. insert (fm_number f)) files live) (v_files v) live)
       (map fst (vs_versions vs) @ [vs_current vs]) live"

section \<open>Writing the manifest\<close>

definition snapshot_edit :: "version_set \<Rightarrow> version_edit" where
  "snapshot_edit vs =
     (let edit = SetComparatorName (cmp_Name (vs_user vs)) new_VersionEdit;
          edit = fold (\<lambda>level edit. if vs_compact_pointer vs ! level \<noteq> []
                                    then SetCompactPointer level (vs_compact_pointer vs ! level) edit else edit)
                   [0..<kNumLevels] edit
      in fold (\<lambda>level edit. fold (\<lambda>f. ve_AddFile level (fm_number f) (fm_file_size f) (fm_smallest f) (fm_largest f))
                              (v_files (vs_current vs) ! level) edit)
           [0..<kNumLevels] edit)"

definition WriteSnapshot :: "version_set \<Rightarrow> posix_writable log_writer \<Rightarrow> status \<times> posix_writable log_writer" where
  "WriteSnapshot vs w = AddRecord posix_writable_ops w (ve_EncodeTo (snapshot_edit vs) [])"

definition store_log :: "posix_writable log_writer \<Rightarrow> posix_env \<Rightarrow> posix_env" where
  "store_log w env = store_fd (pw_filename (lw_dest w)) (pw_fd (lw_dest w)) env"

definition write_manifest :: "version_edit \<Rightarrow> posix_writable log_writer \<Rightarrow> posix_env \<Rightarrow> status \<times> posix_writable log_writer \<times> posix_env" where
  "write_manifest edit w env =
     (let (s, w) = AddRecord posix_writable_ops w (ve_EncodeTo edit []);
          (s, d) = (if ok s then posix_Sync (lw_dest w) else (s, lw_dest w));
          w = w\<lparr>lw_dest := d\<rparr>
      in (s, w, store_log w env))"

text \<open>A new manifest starts with a snapshot of the current version.\<close>

definition create_manifest :: "version_set \<Rightarrow> posix_env \<Rightarrow> status \<times> version_set \<times> posix_env" where
  "create_manifest vs env =
     (case env_NewWritableFile (DescriptorFileName (vs_dbname vs) (vs_manifest_file_number vs)) env of
        (Inl s, env) \<Rightarrow> (s, vs, env)
      | (Inr descriptor_file, env) \<Rightarrow>
          (let (s, w) = WriteSnapshot vs (new_log_writer descriptor_file 0)
           in (s, vs\<lparr>vs_descriptor := Some w\<rparr>, store_log w env)))"

text \<open>The edit with the numbers of the version set.\<close>

definition complete_edit :: "version_edit \<Rightarrow> version_set \<Rightarrow> version_edit" where
  "complete_edit edit vs =
     (let edit = (if ve_has_log_number edit then edit else SetLogNumber (vs_log_number vs) edit);
          edit = (if ve_has_prev_log_number edit then edit else SetPrevLogNumber (vs_prev_log_number vs) edit);
          edit = SetNextFile (vs_next_file_number vs) edit
      in SetLastSequence (vs_last_sequence vs) edit)"

definition LogAndApply :: "version_edit \<Rightarrow> version_set \<Rightarrow> posix_env \<Rightarrow> status \<times> version_edit \<times> version_set \<times> posix_env" where
  "LogAndApply edit vs env =
     (let edit = complete_edit edit vs;
          v = builder_SaveTo (vs_user vs) (builder_Apply (vs_user vs) edit (new_Builder (vs_current vs)));
          vs = vs\<lparr>vs_compact_pointer := apply_pointers edit (vs_compact_pointer vs)\<rparr>;
          v = Finalize v;
          new_manifest = (vs_descriptor vs = None);
          (s, vs, env) = (if new_manifest then create_manifest vs env else (OK, vs, env));
          (s, vs, env) =
            (if ok s then case vs_descriptor vs of
                            Some w \<Rightarrow> let (s, w, env) = write_manifest edit w env in (s, vs\<lparr>vs_descriptor := Some w\<rparr>, env)
                          | None \<Rightarrow> (s, vs, env)
             else (s, vs, env));
          (s, env) = (if ok s \<and> new_manifest then SetCurrentFile (vs_dbname vs) (vs_manifest_file_number vs) env else (s, env))
      in if ok s then
           (s, edit, (AppendVersion v vs)\<lparr>vs_log_number := ve_log_number edit, vs_prev_log_number := ve_prev_log_number edit\<rparr>, env)
         else if new_manifest then
           let env = (case vs_descriptor vs of None \<Rightarrow> env | Some w \<Rightarrow> store_log (w\<lparr>lw_dest := snd (posix_Close (lw_dest w))\<rparr>) env);
               env = snd (env_RemoveFile (DescriptorFileName (vs_dbname vs) (vs_manifest_file_number vs)) env)
           in (s, edit, vs\<lparr>vs_descriptor := None\<rparr>, env)
         else (s, edit, vs, env))"

section \<open>Recovering\<close>

text \<open>A number that was not found is \<open>None\<close>.\<close>

record recovery =
  rc_status :: status
  rc_builder :: builder
  rc_pointers :: "bytes list"
  rc_log_number :: "u64 option"
  rc_prev_log_number :: "u64 option"
  rc_next_file :: "u64 option"
  rc_last_sequence :: "u64 option"

text \<open>The reporter keeps the first error.\<close>

definition reported :: "(u64 \<times> status) list \<Rightarrow> status \<Rightarrow> status" where
  "reported reports s = fold (\<lambda>(n, e) s. if ok s then e else s) reports s"

definition recover_record :: "comparator \<Rightarrow> bytes \<Rightarrow> recovery \<Rightarrow> recovery" where
  "recover_record user record rc =
     (let (s, edit) = ve_DecodeFrom record new_VersionEdit;
          s = (if ok s \<and> ve_has_comparator edit \<and> ve_comparator edit \<noteq> cmp_Name user
               then InvalidArgument (status_msg (ve_comparator edit @ bytes_of '' does not match existing comparator '') (cmp_Name user))
               else s);
          rc = rc\<lparr>rc_status := s\<rparr>;
          rc = (if ok s then rc\<lparr>rc_builder := builder_Apply user edit (rc_builder rc), rc_pointers := apply_pointers edit (rc_pointers rc)\<rparr> else rc);
          rc = (if ve_has_log_number edit then rc\<lparr>rc_log_number := Some (ve_log_number edit)\<rparr> else rc);
          rc = (if ve_has_prev_log_number edit then rc\<lparr>rc_prev_log_number := Some (ve_prev_log_number edit)\<rparr> else rc);
          rc = (if ve_has_next_file_number edit then rc\<lparr>rc_next_file := Some (ve_next_file_number edit)\<rparr> else rc)
      in if ve_has_last_sequence edit then rc\<lparr>rc_last_sequence := Some (ve_last_sequence edit)\<rparr> else rc)"

fun Recover_loop :: "nat \<Rightarrow> nat \<Rightarrow> comparator \<Rightarrow> posix_sequential log_reader \<Rightarrow> recovery \<Rightarrow> recovery option" where
  "Recover_loop 0 fuel user r rc = None"
| "Recover_loop (Suc n) fuel user r rc =
     (case ReadRecord fuel posix_sequential_ops r of
        None \<Rightarrow> None
      | Some (result, r') \<Rightarrow>
          (let rc = rc\<lparr>rc_status := reported (drop (length (lr_reports r)) (lr_reports r')) (rc_status rc)\<rparr>
           in case result of
                None \<Rightarrow> Some rc
              | Some record \<Rightarrow> if ok (rc_status rc) then Recover_loop n fuel user r' (recover_record user record rc) else Some rc))"

text \<open>Continuing an old manifest that is not too big.\<close>

definition ReuseManifest :: "bytes \<Rightarrow> bytes \<Rightarrow> version_set \<Rightarrow> posix_env \<Rightarrow> bool \<times> version_set \<times> posix_env" where
  "ReuseManifest dscname dscbase vs env =
     (if \<not> vs_reuse_logs vs then (False, vs, env)
      else case ParseFileName dscbase of
        None \<Rightarrow> (False, vs, env)
      | Some (manifest_number, manifest_type) \<Rightarrow>
          if manifest_type \<noteq> kDescriptorFile then (False, vs, env)
          else case env_GetFileSize dscname env of
            (s, manifest_size, env) \<Rightarrow>
              if \<not> ok s \<or> int (unat manifest_size) \<ge> TargetFileSize (vs_max_file_size vs) then (False, vs, env)
              else case env_NewAppendableFile dscname env of
                (Inl r, env) \<Rightarrow> (False, vs, env)
              | (Inr f, env) \<Rightarrow>
                  (True, vs\<lparr>vs_descriptor := Some (new_log_writer f (unat manifest_size)), vs_manifest_file_number := manifest_number\<rparr>, env))"

definition finish_recovery :: "bytes \<Rightarrow> bytes \<Rightarrow> recovery \<Rightarrow> version_set \<Rightarrow> posix_env \<Rightarrow> status \<times> bool \<times> version_set \<times> posix_env" where
  "finish_recovery dscname current rc vs env =
     (let vs = vs\<lparr>vs_compact_pointer := rc_pointers rc\<rparr>;
          num = (\<lambda>x. case x of None \<Rightarrow> 0 | Some n \<Rightarrow> n);
          s = rc_status rc;
          (s, vs) =
            (if ok s then
               let s = (if rc_next_file rc = None then Corruption (bytes_of ''no meta-nextfile entry in descriptor'')
                        else if rc_log_number rc = None then Corruption (bytes_of ''no meta-lognumber entry in descriptor'')
                        else if rc_last_sequence rc = None then Corruption (bytes_of ''no last-sequence-number entry in descriptor'')
                        else s)
               in (s, MarkFileNumberUsed (num (rc_log_number rc)) (MarkFileNumberUsed (num (rc_prev_log_number rc)) vs))
             else (s, vs))
      in if ok s then
           let v = Finalize (builder_SaveTo (vs_user vs) (rc_builder rc));
               vs = (AppendVersion v vs)\<lparr>vs_manifest_file_number := num (rc_next_file rc), vs_next_file_number := num (rc_next_file rc) + 1,
                       vs_last_sequence := num (rc_last_sequence rc), vs_log_number := num (rc_log_number rc),
                       vs_prev_log_number := num (rc_prev_log_number rc)\<rparr>;
               (reused, vs, env) = ReuseManifest dscname current vs env
           in (s, \<not> reused, vs, env)
         else (s, False, vs, env))"

text \<open>The result says whether a new manifest must be saved; \<open>None\<close> if the fuel did not suffice for the records.\<close>

definition Recover :: "nat \<Rightarrow> version_set \<Rightarrow> posix_env \<Rightarrow> (status \<times> bool \<times> version_set \<times> posix_env) option" where
  "Recover fuel vs env =
     (let (s, current, env) = ReadFileToString (CurrentFileName (vs_dbname vs)) env
      in if \<not> ok s then Some (s, False, vs, env)
         else if current = [] \<or> last current \<noteq> 10
         then Some (Corruption (bytes_of ''CURRENT file does not end with newline''), False, vs, env)
         else
           let current = butlast current;
               dscname = vs_dbname vs @ bytes_of ''/'' @ current
           in case env_NewSequentialFile dscname env of
                (Inl s, env) \<Rightarrow>
                  Some (if IsNotFound s then Corruption (status_msg (bytes_of ''CURRENT points to a non-existent file'') (status_ToString s)) else s,
                        False, vs, env)
              | (Inr f, env) \<Rightarrow>
                  map_option (\<lambda>rc. finish_recovery dscname current rc vs env)
                    (Recover_loop fuel fuel (vs_user vs) (new_log_reader f True 0)
                      \<lparr>rc_status = OK, rc_builder = new_Builder (vs_current vs), rc_pointers = vs_compact_pointer vs,
                       rc_log_number = None, rc_prev_log_number = None, rc_next_file = None, rc_last_sequence = None\<rparr>))"

end
