(* ===== verification/Manifest.thy ===== *)
theory Manifest
  imports VersionSet
begin

text \<open>
  The manifest is a faithful record of the current version: whatever edits were applied, a recovery from the files
  rebuilds the version, file by file and level by level, with the numbers that were saved.
\<close>

section \<open>Logs that grow\<close>

fun log_end :: "nat \<Rightarrow> bytes list \<Rightarrow> nat" where
  "log_end off [] = off"
| "log_end off (d # ds) = log_end (snd (log_enc off True d)) ds"

lemma log_encs_snoc: "log_encs off (ds @ [d]) = log_encs off ds @ fst (log_enc (log_end off ds) True d)"
  by (induction ds arbitrary: off) (auto split: prod.splits)

lemma log_end_snoc: "log_end off (ds @ [d]) = snd (log_enc (log_end off ds) True d)"
  by (induction ds arbitrary: off) simp_all

text \<open>The name and the directory of an open file never change.\<close>

definition dest_id :: "posix_writable \<Rightarrow> bytes \<times> fd" where
  "dest_id w = (pw_filename w, pw_dirfd w)"

lemma dest_FlushBuffer: "FlushBuffer w = (s, w') \<Longrightarrow> dest_id w' = dest_id w"
  by (auto simp: FlushBuffer_def dest_id_def Let_def split: prod.splits)

lemma dest_Append: "posix_Append w d = (s, w') \<Longrightarrow> dest_id w' = dest_id w"
proof -
  assume a: "posix_Append w d = (s, w')"
  have n: "dest_id (w\<lparr>pw_buf := b\<rparr>) = dest_id w" "dest_id (w\<lparr>pw_fd := x\<rparr>) = dest_id w" for b x and w :: posix_writable
    by (simp_all add: dest_id_def)
  show ?thesis using a by (auto simp: posix_Append_def Let_def n dest!: dest_FlushBuffer split: prod.splits if_splits)
qed

lemma dest_Emit:
  "EmitPhysicalRecord posix_writable_ops w t d = (s, w') \<Longrightarrow> dest_id (lw_dest w') = dest_id (lw_dest w)"
  by (auto simp: EmitPhysicalRecord_def Let_def posix_writable_ops_def dest!: dest_FlushBuffer dest_Append
      split: prod.splits if_splits)

lemma dest_switch: "dest_id (lw_dest (switch_block posix_writable_ops w)) = dest_id (lw_dest w)"
  using dest_Append [of "lw_dest w", OF prod.collapse [symmetric]]
  by (simp add: switch_block_def Let_def posix_writable_ops_def)

lemma dest_AddRecord_loop:
  "AddRecord_loop op w bgn data = (s, w') \<Longrightarrow> op = posix_writable_ops \<Longrightarrow> dest_id (lw_dest w') = dest_id (lw_dest w)"
proof (induction op w bgn data arbitrary: s w' rule: AddRecord_loop.induct)
  case (1 op w bgn data)
  define w1 where "w1 = switch_block op w"
  define avail where "avail = kBlockSize - lw_block_offset w1 - kHeaderSize"
  define n where "n = (if length data < avail then length data else avail)"
  obtain s2 w2 where e: "EmitPhysicalRecord op w1 (fragment_type bgn (length data = n)) (take n data) = (s2, w2)"
    by fastforce
  note step = "1.prems"(1) [unfolded AddRecord_loop.simps [of op w] Let_def w1_def [symmetric]
      avail_def [symmetric] n_def [symmetric] e prod.case]
  have f: "dest_id (lw_dest w2) = dest_id (lw_dest w)"
    using dest_Emit [of w1 _ _ s2 w2] e dest_switch [of w] "1.prems"(2) w1_def by metis
  show ?case
    using "1.IH" [OF w1_def avail_def n_def refl e [symmetric] refl refl, of s w'] step "1.prems"(2) f
    by (auto split: if_splits)
qed

lemma dest_AddRecord: "AddRecord posix_writable_ops w d = (s, w') \<Longrightarrow> dest_id (lw_dest w') = dest_id (lw_dest w)"
  unfolding AddRecord_def by (rule dest_AddRecord_loop) simp_all

lemma log_enc_nonempty: "fst (log_enc off b d) \<noteq> []"
proof (cases "kBlockSize - off < kHeaderSize")
  case True
  have "fst (log_enc 0 b d) \<noteq> []"
    by (subst log_enc.simps) (simp add: kBlockSize_def kHeaderSize_def Let_def split: prod.splits)
  then show ?thesis using True by (subst log_enc.simps) (cases "log_enc 0 b d"; simp add: Let_def)
next
  case False
  then show ?thesis by (subst log_enc.simps) (simp add: Let_def split: prod.splits)
qed

lemma log_encs_length: "length ds \<le> length (log_encs off ds)"
proof (induction ds arbitrary: off)
  case (Cons d ds)
  have "0 < length (fst (log_enc off True d))" using log_enc_nonempty by simp
  then have "Suc 0 \<le> length (fst (log_enc off True d))" by linarith
  then have "Suc (length ds) \<le> length (fst (log_enc off True d)) + length (log_encs (snd (log_enc off True d)) ds)"
    using Cons.IH [of "snd (log_enc off True d)"] by linarith
  then show ?case by (simp add: case_prod_unfold Let_def)
qed simp

lemma filename_AddRecord: "AddRecord posix_writable_ops w d = (s, w') \<Longrightarrow> pw_filename (lw_dest w') = pw_filename (lw_dest w)"
  using dest_AddRecord by (fastforce simp: dest_id_def)

definition log_at :: "posix_writable log_writer \<Rightarrow> bytes list \<Rightarrow> bool" where
  "log_at w ds \<longleftrightarrow> posix_log.at_offset w \<and> posix_content (lw_dest w) = log_encs 0 ds \<and> lw_block_offset w = log_end 0 ds"

lemma log_at_AddRecord:
  assumes "log_at w ds" and "AddRecord posix_writable_ops w d = (OK, w')"
  shows "log_at w' (ds @ [d])" and "fd_data (pw_fd (lw_dest w')) = log_encs 0 (ds @ [d])"
proof -
  have "posix_log.at_offset w" using assms(1) by (simp add: log_at_def)
  note a = posix_log.AddRecord_content [OF assms(2) this]
  show l: "log_at w' (ds @ [d])" using a assms(1) by (simp add: log_at_def log_encs_snoc log_end_snoc)
  show "fd_data (pw_fd (lw_dest w')) = log_encs 0 (ds @ [d])" using a l by (simp add: posix_written_def log_at_def)
qed

lemma new_log_at: "posix_content f = [] \<Longrightarrow> log_at (new_log_writer f 0) []"
  by (simp add: log_at_def posix_log.at_offset_def new_log_writer_def posix_content_def)

lemma posix_Sync_OK':
  assumes "posix_Sync w = (OK, w')"
  shows "pw_buf w' = []" and "fd_data (pw_fd w') = posix_content w" and "pw_filename w' = pw_filename w"
proof -
  obtain s1 w1 where d: "SyncDirIfManifest w = (s1, w1)" by fastforce
  obtain s2 w2 where f: "FlushBuffer w1 = (s2, w2)" by fastforce
  obtain s3 d3 where y: "SyncFd (pw_fd w2) (pw_filename w2) = (s3, d3)" by fastforce
  have e: "s2 = OK" "w' = w2\<lparr>pw_fd := d3\<rparr>"
    using assms by (auto simp: posix_Sync_def d f y ok_def split: if_splits)
  have n: "pw_filename w1 = pw_filename w"
    using d by (auto simp: SyncDirIfManifest_def Let_def split: prod.splits option.splits if_splits)
  show "pw_buf w' = []" "pw_filename w' = pw_filename w" using e f FlushBuffer_OK n by auto
  show "fd_data (pw_fd w') = posix_content w"
    using e f FlushBuffer_OK [of w1 w2] SyncFd_data [OF y] SyncDirIfManifest_content [OF d] by (simp add: posix_content_def)
qed

lemma write_manifest_OK:
  assumes "log_at w ds" and "write_manifest e w env = (OK, w', env')"
  shows "log_at w' (ds @ [ve_EncodeTo e []])" and "pw_filename (lw_dest w') = pw_filename (lw_dest w)"
    and "pe_files env' = (pe_files env)(pw_filename (lw_dest w) \<mapsto> log_encs 0 (ds @ [ve_EncodeTo e []]))"
proof -
  obtain s1 w1 where a: "AddRecord posix_writable_ops w (ve_EncodeTo e []) = (s1, w1)" by fastforce
  obtain s2 d where y: "(if ok s1 then posix_Sync (lw_dest w1) else (s1, lw_dest w1)) = (s2, d)" by fastforce
  have e: "s2 = OK" "w' = w1\<lparr>lw_dest := d\<rparr>" "env' = store_log w' env"
    using assms(2) by (auto simp: write_manifest_def a y Let_def)
  then have s1: "s1 = OK" "posix_Sync (lw_dest w1) = (OK, d)" using y by (auto simp: ok_def split: if_splits)
  note one = log_at_AddRecord [OF assms(1) a [unfolded s1(1)]]
  note sync = posix_Sync_OK' [OF s1(2)]
  have n: "pw_filename (lw_dest w1) = pw_filename (lw_dest w)" by (rule filename_AddRecord [OF a])
  show "log_at w' (ds @ [ve_EncodeTo e []])"
    using one sync e(2) by (simp add: log_at_def posix_log.at_offset_def posix_content_def)
  show "pw_filename (lw_dest w') = pw_filename (lw_dest w)" using sync e(2) n by simp
  show "pe_files env' = (pe_files env)(pw_filename (lw_dest w) \<mapsto> log_encs 0 (ds @ [ve_EncodeTo e []]))"
    using e sync n one(1) by (simp add: store_log_def store_fd_def log_at_def)
qed

section \<open>The snapshot\<close>

definition level_files :: "file_meta list list \<Rightarrow> (nat \<times> file_meta) list" where
  "level_files files = concat (map (\<lambda>l. map (\<lambda>f. (l, meta_new f)) (files ! l)) [0..<kNumLevels])"

lemma fold_AddFile_fields:
  "ve_new_files (fold (\<lambda>f. ve_AddFile l (fm_number f) (fm_file_size f) (fm_smallest f) (fm_largest f)) fs e) =
     ve_new_files e @ map (\<lambda>f. (l, meta_new f)) fs"
  using add_outputs_fields(1) [of l fs e] by (simp add: add_outputs_def)

lemma fold_level_files:
  "ve_new_files (fold (\<lambda>l. fold (\<lambda>f. ve_AddFile l (fm_number f) (fm_file_size f) (fm_smallest f) (fm_largest f)) (files ! l)) ls e) =
     ve_new_files e @ concat (map (\<lambda>l. map (\<lambda>f. (l, meta_new f)) (files ! l)) ls)"
  by (induction ls arbitrary: e) (simp_all add: fold_AddFile_fields)

text \<open>Every field but the list of new files is as before.\<close>

lemma ve_AddFile_other: "(ve_AddFile l n sz a b e)\<lparr>ve_new_files := x\<rparr> = e\<lparr>ve_new_files := x\<rparr>"
  by (simp add: ve_AddFile_def Let_def)

lemma fold_AddFile_other:
  "(fold (\<lambda>f. ve_AddFile l (fm_number f) (fm_file_size f) (fm_smallest f) (fm_largest f)) fs e)\<lparr>ve_new_files := x\<rparr> = e\<lparr>ve_new_files := x\<rparr>"
  by (induction fs arbitrary: e) (simp_all add: ve_AddFile_other)

lemma fold_level_files_other:
  "(fold (\<lambda>l. fold (\<lambda>f. ve_AddFile l (fm_number f) (fm_file_size f) (fm_smallest f) (fm_largest f)) (files ! l)) ls e)\<lparr>ve_new_files := x\<rparr> =
     e\<lparr>ve_new_files := x\<rparr>"
  by (induction ls arbitrary: e) (simp_all add: fold_AddFile_other)

lemma edit_with_files: "e\<lparr>ve_new_files := x\<rparr> = e'\<lparr>ve_new_files := x\<rparr> \<Longrightarrow> ve_new_files e = fs \<Longrightarrow> e = e'\<lparr>ve_new_files := fs\<rparr>"
  by (cases e; cases e') simp

definition pointer_edit :: "version_set \<Rightarrow> version_edit" where
  "pointer_edit vs =
     fold (\<lambda>level edit. if vs_compact_pointer vs ! level \<noteq> []
                        then SetCompactPointer level (vs_compact_pointer vs ! level) edit else edit)
       [0..<kNumLevels] (SetComparatorName (cmp_Name (vs_user vs)) new_VersionEdit)"

lemma fold_pointers:
  "fold (\<lambda>level edit. if ptrs ! level \<noteq> [] then SetCompactPointer level (ptrs ! level) edit else edit) ls e =
     e\<lparr>ve_compact_pointers := ve_compact_pointers e @ map (\<lambda>l. (l, ptrs ! l)) (filter (\<lambda>l. ptrs ! l \<noteq> []) ls)\<rparr>"
  by (induction ls arbitrary: e) (simp_all add: SetCompactPointer_def)

lemma snapshot_edit_eq: "snapshot_edit vs = (pointer_edit vs)\<lparr>ve_new_files := level_files (v_files (vs_current vs))\<rparr>"
proof -
  have n: "ve_new_files (pointer_edit vs) = []"
    unfolding pointer_edit_def fold_pointers by (simp add: SetComparatorName_def new_VersionEdit_def ve_Clear_def)
  let ?e = "fold (\<lambda>l. fold (\<lambda>f. ve_AddFile l (fm_number f) (fm_file_size f) (fm_smallest f) (fm_largest f))
      (v_files (vs_current vs) ! l)) [0..<kNumLevels] (pointer_edit vs)"
  have f: "ve_new_files ?e = level_files (v_files (vs_current vs))"
    using fold_level_files [of "v_files (vs_current vs)" "[0..<kNumLevels]" "pointer_edit vs"] n by (simp add: level_files_def)
  have "?e = (pointer_edit vs)\<lparr>ve_new_files := level_files (v_files (vs_current vs))\<rparr>"
    by (rule edit_with_files [OF fold_level_files_other f])
  then show ?thesis by (simp add: snapshot_edit_def Let_def pointer_edit_def)
qed

text \<open>Keys and names that fit their 32-bit length fields.\<close>

definition snapshot_ok :: "version_set \<Rightarrow> bool" where
  "snapshot_ok vs \<longleftrightarrow>
     length (cmp_Name (vs_user vs)) < 2 ^ 32 \<and> (\<forall>l < kNumLevels. length (vs_compact_pointer vs ! l) < 2 ^ 32) \<and>
     (\<forall>l < kNumLevels. \<forall>f \<in> set (v_files (vs_current vs) ! l). ikey_ok (fm_smallest f) \<and> ikey_ok (fm_largest f))"

lemma snapshot_edit_ok:
  assumes "snapshot_ok vs"
  shows "edit_ok (snapshot_edit vs)" and "ve_comparator (snapshot_edit vs) = cmp_Name (vs_user vs)"
    and "ve_deleted_files (snapshot_edit vs) = {}" and "ve_new_files (snapshot_edit vs) = level_files (v_files (vs_current vs))"
proof -
  have p: "pointer_edit vs = (SetComparatorName (cmp_Name (vs_user vs)) new_VersionEdit)\<lparr>ve_compact_pointers :=
      map (\<lambda>l. (l, vs_compact_pointer vs ! l)) (filter (\<lambda>l. vs_compact_pointer vs ! l \<noteq> []) [0..<kNumLevels])\<rparr>"
    unfolding pointer_edit_def fold_pointers by (simp add: SetComparatorName_def new_VersionEdit_def ve_Clear_def)
  show "edit_ok (snapshot_edit vs)"
    using assms unfolding snapshot_edit_eq p
    by (auto simp: edit_ok_def snapshot_ok_def SetComparatorName_def new_VersionEdit_def ve_Clear_def ikey_ok_def
        level_files_def meta_new_def file_ok_def new_FileMetaData_def)
  show "ve_comparator (snapshot_edit vs) = cmp_Name (vs_user vs)"
    and "ve_deleted_files (snapshot_edit vs) = {}" and "ve_new_files (snapshot_edit vs) = level_files (v_files (vs_current vs))"
    unfolding snapshot_edit_eq p by (simp_all add: SetComparatorName_def new_VersionEdit_def ve_Clear_def)
qed

lemma edit_ok_levels: "edit_ok e \<Longrightarrow> \<forall>(l, f) \<in> set (ve_new_files e). l < kNumLevels"
  unfolding edit_ok_def by fastforce

lemma complete_edit_ok:
  assumes "edit_ok e"
  shows "edit_ok (complete_edit e vs)" and "ve_new_files (complete_edit e vs) = ve_new_files e"
    and "ve_deleted_files (complete_edit e vs) = ve_deleted_files e" and "ve_has_comparator (complete_edit e vs) = ve_has_comparator e"
    and "ve_comparator (complete_edit e vs) = ve_comparator e"
    and "ve_has_log_number (complete_edit e vs)" and "ve_has_prev_log_number (complete_edit e vs)"
    and "ve_has_next_file_number (complete_edit e vs)" and "ve_has_last_sequence (complete_edit e vs)"
    and "ve_next_file_number (complete_edit e vs) = vs_next_file_number vs" and "ve_last_sequence (complete_edit e vs) = vs_last_sequence vs"
  using assms by (simp_all add: complete_edit_def Let_def SetLogNumber_def SetPrevLogNumber_def SetNextFile_def SetLastSequence_def edit_ok_def)

section \<open>Edits replayed\<close>

lemma fresh_files_inj:
  assumes "fresh_files used fs"
  shows "(l, f) \<in> set fs \<Longrightarrow> fm_number f \<notin> used l" and "inj_on fm_number {f. (l, f) \<in> set fs}"
proof -
  have "(\<forall>(l, f) \<in> set fs. fm_number f \<notin> used l) \<and> (\<forall>l. inj_on fm_number {f. (l, f) \<in> set fs})"
    using assms
  proof (induction fs arbitrary: used)
    case (Cons p fs)
    obtain k g where p: "p = (k, g)" by fastforce
    note IH = Cons.IH [of "used(k := insert (fm_number g) (used k))"]
    have fresh: "fm_number g \<notin> used k" "fresh_files (used(k := insert (fm_number g) (used k))) fs"
      using Cons.prems by (simp_all add: p)
    have notin: "fm_number f \<notin> (used(k := insert (fm_number g) (used k))) l" if "(l, f) \<in> set fs" for l f
      using IH fresh(2) that by blast
    have 1: "fm_number f \<notin> used l" if "(l, f) \<in> set (p # fs)" for l f
    proof (cases "(l, f) = p")
      case True
      then show ?thesis using fresh(1) p by simp
    next
      case False
      then show ?thesis using notin [of l f] that by (cases "l = k") auto
    qed
    have rest: "inj_on fm_number {f. (l, f) \<in> set fs}" for l using IH [OF fresh(2)] by blast
    have 2: "inj_on fm_number {f. (l, f) \<in> set (p # fs)}" for l
    proof (cases "l = k")
      case True
      have "{f. (l, f) \<in> set (p # fs)} = insert g {f. (l, f) \<in> set fs}" using True p by auto
      moreover have "fm_number g \<noteq> fm_number f" if "(l, f) \<in> set fs" for f using notin [OF that] True by auto
      then have "fm_number g \<notin> fm_number ` {f. (l, f) \<in> set fs}" by (metis (mono_tags, lifting) imageE mem_Collect_eq)
      ultimately show ?thesis using rest [of l] by auto
    next
      case False
      then have "{f. (l, f) \<in> set (p # fs)} = {f. (l, f) \<in> set fs}" using p by auto
      then show ?thesis using rest [of l] by simp
    qed
    show ?case using 1 2 by blast
  qed simp
  then show "(l, f) \<in> set fs \<Longrightarrow> fm_number f \<notin> used l" and "inj_on fm_number {f. (l, f) \<in> set fs}" by auto
qed

lemma meta_new_idem [simp]: "meta_new (meta_new f) = meta_new f" "meta_new (prepared f) = meta_new f"
  by (simp_all add: meta_new_def prepared_def)

lemma apply_edit_meta:
  "meta_new ` apply_edit e S l = {f \<in> meta_new ` S l. (l, fm_number f) \<notin> ve_deleted_files e} \<union> {meta_new f | f. (l, f) \<in> set (ve_new_files e)}"
proof -
  have "meta_new ` {f \<in> S l. (l, fm_number f) \<notin> ve_deleted_files e} = {f \<in> meta_new ` S l. (l, fm_number f) \<notin> ve_deleted_files e}"
    by auto
  moreover have "{prepared f | f. (l, f) \<in> set (ve_new_files e)} = prepared ` {f. (l, f) \<in> set (ve_new_files e)}" by blast
  then have "meta_new ` {prepared f | f. (l, f) \<in> set (ve_new_files e)} = {meta_new f | f. (l, f) \<in> set (ve_new_files e)}"
    by (simp add: image_image) blast
  ultimately show ?thesis unfolding apply_edit_def image_Un by simp
qed

lemma apply_edit_meta_cong: "meta_new ` S l = meta_new ` T l \<Longrightarrow> meta_new ` apply_edit e S l = meta_new ` apply_edit e T l"
  by (simp add: apply_edit_meta)

lemma apply_edits_numbers:
  "fm_number ` fold apply_edit es S l \<subseteq> fm_number ` S l \<union> {fm_number f | f. (l, f) \<in> set (concat (map ve_new_files es))}"
proof (induction es arbitrary: S)
  case (Cons e es)
  let ?A = "\<lambda>es. {fm_number f | f. (l, f) \<in> set (concat (map ve_new_files es))}"
  have a: "fm_number ` apply_edit e S l \<subseteq> fm_number ` S l \<union> ?A (e # es)" by (auto simp: apply_edit_def)
  have b: "?A es \<subseteq> ?A (e # es)" by auto
  have c: "fm_number ` fold apply_edit es (apply_edit e S) l \<subseteq> fm_number ` apply_edit e S l \<union> ?A es" by (rule Cons.IH)
  have "fm_number ` fold apply_edit es (apply_edit e S) l \<subseteq> fm_number ` S l \<union> ?A (e # es)"
    by (rule subset_trans [OF c]) (use a b in blast)
  then show ?case by (simp only: fold_simps)
qed simp

lemma sorted_wrt_set_unique:
  assumes "\<And>x y. P x y \<Longrightarrow> \<not> P y x" and "sorted_wrt P xs" and "sorted_wrt P ys" and "set xs = set ys"
  shows "xs = ys"
  using assms(2-4)
proof (induction xs arbitrary: ys)
  case (Cons x xs)
  then obtain y ys' where ys: "ys = y # ys'" by (cases ys) auto
  have irr: "\<not> P z z" for z using assms(1) [of z z] by blast
  have "x = y"
  proof (rule ccontr)
    assume "x \<noteq> y"
    then have "x \<in> set ys'" "y \<in> set xs" using Cons.prems(3) ys by auto
    then have "P y x" "P x y" using Cons.prems(1,2) ys by auto
    then show False using assms(1) by blast
  qed
  moreover have "x \<notin> set xs" "y \<notin> set ys'" using Cons.prems(1,2) ys irr by auto
  ultimately have "set xs = set ys'" using Cons.prems(3) ys by auto
  then show ?case using Cons.IH [of ys'] Cons.prems(1,2) ys \<open>x = y\<close> by simp
qed simp

definition replays :: "version_edit list \<Rightarrow> file_meta list list \<Rightarrow> bool" where
  "replays es files \<longleftrightarrow> (\<forall>l < kNumLevels. meta_new ` set (files ! l) = meta_new ` fold apply_edit es (\<lambda>_. {}) l)"

lemma replays_numbers: "replays es files \<Longrightarrow> l < kNumLevels \<Longrightarrow> f \<in> set (files ! l) \<Longrightarrow> fm_number f \<in> use_files (concat (map ve_new_files es)) (\<lambda>_. {}) l"
proof -
  assume r: "replays es files" and l: "l < kNumLevels" and f: "f \<in> set (files ! l)"
  have "meta_new f \<in> meta_new ` fold apply_edit es (\<lambda>_. {}) l" using r l f unfolding replays_def by blast
  then have "fm_number f \<in> fm_number ` fold apply_edit es (\<lambda>_. {}) l" by (metis (no_types, lifting) image_iff meta_new_simps(1))
  then show ?thesis using apply_edits_numbers [of es "\<lambda>_. {}" l] by (auto simp: use_files_def)
qed

lemma fresh_files_levels:
  "fresh_files used fs \<Longrightarrow> (\<And>l. l < kNumLevels \<Longrightarrow> used' l \<subseteq> used l) \<Longrightarrow> \<forall>(l, f) \<in> set fs. l < kNumLevels \<Longrightarrow> fresh_files used' fs"
proof (induction fs arbitrary: used used')
  case (Cons p fs)
  obtain k g where p: "p = (k, g)" by fastforce
  have "fresh_files (used'(k := insert (fm_number g) (used' k))) fs"
    by (rule Cons.IH [of "used(k := insert (fm_number g) (used k))"]) (use Cons.prems p in \<open>auto simp: fun_upd_def split: if_splits\<close>)
  then show ?case using Cons.prems p by auto
qed simp

lemma Descriptor_names: "DescriptorFileName db n \<noteq> CurrentFileName db" "DescriptorFileName db n \<noteq> TempFileName db n"
proof -
  show "DescriptorFileName db n \<noteq> CurrentFileName db" by (simp add: DescriptorFileName_def CurrentFileName_def bytes_of_def)
  have "List.hd (pad6 n @ bytes_of ''.dbtmp'') \<noteq> 77"
    using pad6_hd(2) [of n "bytes_of ''.dbtmp''"] by (auto simp: is_digit_def)
  moreover have "pad6 n \<noteq> []" by (rule pad6_hd(1))
  ultimately show "DescriptorFileName db n \<noteq> TempFileName db n"
    by (cases "pad6 n") (auto simp: DescriptorFileName_def TempFileName_def MakeFileName_def bytes_of_def)
qed

context user_comparator
begin

definition version_sorted :: "file_meta list list \<Rightarrow> bool" where
  "version_sorted files \<longleftrightarrow>
     length files = kNumLevels \<and>
     (\<forall>l < kNumLevels. key_sorted (files ! l) \<and> distinct (files ! l) \<and> inj_on fm_number (set (files ! l)))"

lemma levels_ok_version_sorted: "levels_ok keys files \<Longrightarrow> version_sorted files"
  using levels_okD(1-3) unfolding version_sorted_def version_wf_def by blast

lemma same_sorted_files:
  assumes "key_sorted xs" and "distinct xs" and "inj_on fm_number (set xs)"
    and "key_sorted ys" and "distinct ys" and "inj_on fm_number (set ys)" and "meta_new ` set xs = meta_new ` set ys"
  shows "map meta_new xs = map meta_new ys"
proof (rule sorted_wrt_set_unique [where P = "BySmallestKey cmp"])
  show "BySmallestKey cmp x y \<Longrightarrow> \<not> BySmallestKey cmp y x" for x y by (rule key_le_total)
  have strict: "sorted_wrt (BySmallestKey cmp) (map meta_new zs)"
    if "key_sorted zs" "distinct zs" "inj_on fm_number (set zs)" for zs
    unfolding sorted_wrt_iff_nth_less
  proof (intro allI impI)
    fix i j
    assume ij: "i < j" "j < length (map meta_new zs)"
    then have "zs ! i \<noteq> zs ! j" using that(2) by (simp add: nth_eq_iff_index_eq)
    then have "fm_number (zs ! i) \<noteq> fm_number (zs ! j)" using that(3) ij by (auto simp: inj_on_def)
    moreover have "key_le (zs ! i) (zs ! j)" using sorted_wrt_nth_less [of _ zs i j] that(1) ij unfolding key_sorted_def by simp
    ultimately have "BySmallestKey cmp (zs ! i) (zs ! j)" using BySmallestKey_number by blast
    then show "BySmallestKey cmp (map meta_new zs ! i) (map meta_new zs ! j)" using ij by (simp add: BySmallestKey_def Let_def)
  qed
  show "sorted_wrt (BySmallestKey cmp) (map meta_new xs)" "sorted_wrt (BySmallestKey cmp) (map meta_new ys)"
    using strict assms(1-6) by blast+
  show "set (map meta_new xs) = set (map meta_new ys)" using assms(7) by simp
qed

lemma builder_new_ok:
  assumes "version_sorted (v_files v)"
  shows "builder_ok (new_Builder v) (\<lambda>l. set (v_files v ! l)) (\<lambda>l. fm_number ` set (v_files v ! l))"
  using assms by (intro new_Builder_ok) (simp_all add: version_sorted_def)

text \<open>One edit on a sorted version.\<close>

lemma builder_version_sorted:
  assumes "version_sorted (v_files v)" and "\<forall>(l, f) \<in> set (ve_new_files e). l < kNumLevels"
    and "fresh_files (\<lambda>l. fm_number ` set (v_files v ! l)) (ve_new_files e)"
  shows "version_sorted (v_files (builder_SaveTo cmp (builder_Apply cmp e (new_Builder v))))"
    and "l < kNumLevels \<Longrightarrow> set (v_files (builder_SaveTo cmp (builder_Apply cmp e (new_Builder v))) ! l) = apply_edit e (\<lambda>l. set (v_files v ! l)) l"
proof -
  let ?v' = "builder_SaveTo cmp (builder_Apply cmp e (new_Builder v))"
  obtain used where b: "builder_ok (builder_Apply cmp e (new_Builder v)) (apply_edit e (\<lambda>l. set (v_files v ! l))) used"
    using builder_Apply_ok [OF builder_new_ok [OF assms(1)] _ assms(3)] assms(2) by (auto simp: edit_levels_ok_def)
  note saved = builder_SaveTo_level [OF b]
  show "l < kNumLevels \<Longrightarrow> set (v_files ?v' ! l) = apply_edit e (\<lambda>l. set (v_files v ! l)) l" by (rule saved(1))
  have "inj_on fm_number (set (v_files ?v' ! l))" if l: "l < kNumLevels" for l
  proof -
    note fr = fresh_files_inj [OF assms(3), of l]
    have "inj_on fm_number {f \<in> set (v_files v ! l). (l, fm_number f) \<notin> ve_deleted_files e}"
      by (rule inj_on_subset [of _ "set (v_files v ! l)"]) (use assms(1) l in \<open>auto simp: version_sorted_def\<close>)
    moreover have "inj_on fm_number {prepared f | f. (l, f) \<in> set (ve_new_files e)}"
      using fr(2) unfolding inj_on_def by fastforce
    moreover have "fm_number a \<noteq> fm_number b"
      if in_v: "a \<in> set (v_files v ! l)" and in_e: "b \<in> {prepared f | f. (l, f) \<in> set (ve_new_files e)}" for a b
    proof -
      obtain f where "b = prepared f" "(l, f) \<in> set (ve_new_files e)" using in_e by blast
      then show ?thesis using fr(1) [of f] in_v by (metis imageI prepared_simps(1))
    qed
    ultimately show ?thesis unfolding saved(1) [OF l] apply_edit_def by (intro inj_on_disjoint) auto
  qed
  then show "version_sorted (v_files ?v')" using saved by (simp add: version_sorted_def builder_SaveTo_def)
qed

definition edits_ok :: "version_edit list \<Rightarrow> bool" where
  "edits_ok es \<longleftrightarrow>
     (\<forall>e \<in> set es. edit_ok e \<and> (ve_has_comparator e \<longrightarrow> ve_comparator e = cmp_Name cmp)) \<and>
     fresh_files (\<lambda>_. {}) (concat (map ve_new_files es))"

lemma replays_snoc:
  assumes "version_sorted (v_files v)" and "replays es (v_files v)" and "edits_ok es" and "edits_ok (es @ [e])"
  shows "version_sorted (v_files (builder_SaveTo cmp (builder_Apply cmp e (new_Builder v))))"
    and "replays (es @ [e]) (v_files (builder_SaveTo cmp (builder_Apply cmp e (new_Builder v))))"
proof -
  have lv: "\<forall>(l, f) \<in> set (ve_new_files e). l < kNumLevels" 
    using assms(4) by (intro edit_ok_levels) (simp add: edits_ok_def)
  have "fresh_files (use_files (concat (map ve_new_files es)) (\<lambda>_. {})) (ve_new_files e)"
    using assms(4) by (simp add: edits_ok_def fresh_files_append)
  then have fresh: "fresh_files (\<lambda>l. fm_number ` set (v_files v ! l)) (ve_new_files e)"
    by (rule fresh_files_levels [OF _ _ lv]) (use replays_numbers [OF assms(2)] in blast)
  note one = builder_version_sorted [OF assms(1) lv fresh]
  show "version_sorted (v_files (builder_SaveTo cmp (builder_Apply cmp e (new_Builder v))))" by (rule one(1))
  show "replays (es @ [e]) (v_files (builder_SaveTo cmp (builder_Apply cmp e (new_Builder v))))"
    unfolding replays_def
  proof (intro allI impI)
    fix l
    assume l: "l < kNumLevels"
    have "meta_new ` set (v_files v ! l) = meta_new ` fold apply_edit es (\<lambda>_. {}) l" using assms(2) l by (simp add: replays_def)
    then have "meta_new ` apply_edit e (\<lambda>l. set (v_files v ! l)) l = meta_new ` apply_edit e (fold apply_edit es (\<lambda>_. {})) l"
      by (rule apply_edit_meta_cong)
    then show "meta_new ` set (v_files (builder_SaveTo cmp (builder_Apply cmp e (new_Builder v))) ! l) =
        meta_new ` fold apply_edit (es @ [e]) (\<lambda>_. {}) l"
      using one(2) [OF l] by simp
  qed
qed

section \<open>Applying an edit\<close>

text \<open>The manifest on disk holds the edits \<open>es\<close>, CURRENT names it, and replaying them gives the current version.\<close>

definition manifest_ok :: "version_edit list \<Rightarrow> version_set \<Rightarrow> posix_env \<Rightarrow> bool" where
  "manifest_ok es vs env \<longleftrightarrow>
     vs_user vs = cmp \<and> version_sorted (v_files (vs_current vs)) \<and> edits_ok es \<and> replays es (v_files (vs_current vs)) \<and>
     (\<exists>w. vs_descriptor vs = Some w \<and> log_at w (map (\<lambda>e. ve_EncodeTo e []) es) \<and>
        pw_filename (lw_dest w) = DescriptorFileName (vs_dbname vs) (vs_manifest_file_number vs)) \<and>
     pe_files env (DescriptorFileName (vs_dbname vs) (vs_manifest_file_number vs)) = Some (log_encs 0 (map (\<lambda>e. ve_EncodeTo e []) es)) \<and>
     pe_files env (CurrentFileName (vs_dbname vs)) = Some (bytes_of ''MANIFEST-'' @ pad6 (vs_manifest_file_number vs) @ [10])"

definition next_version :: "version_edit \<Rightarrow> version_set \<Rightarrow> version" where
  "next_version e vs = Finalize (builder_SaveTo cmp (builder_Apply cmp e (new_Builder (vs_current vs))))"

definition with_pointers :: "version_edit \<Rightarrow> version_set \<Rightarrow> version_set" where
  "with_pointers e vs = vs\<lparr>vs_compact_pointer := apply_pointers e (vs_compact_pointer vs)\<rparr>"

definition installed_version :: "version_edit \<Rightarrow> version_set \<Rightarrow> version_set \<Rightarrow> version_set" where
  "installed_version e vs0 vs =
     (AppendVersion (next_version e vs0) vs)\<lparr>vs_log_number := ve_log_number e, vs_prev_log_number := ve_prev_log_number e\<rparr>"

lemma LogAndApply_open:
  assumes "vs_user vs = cmp" and "vs_descriptor vs = Some w" and "write_manifest (complete_edit e vs) w env = (s, w', env')"
  shows "LogAndApply e vs env =
    (s, complete_edit e vs,
     (if ok s then installed_version (complete_edit e vs) vs ((with_pointers (complete_edit e vs) vs)\<lparr>vs_descriptor := Some w'\<rparr>)
      else (with_pointers (complete_edit e vs) vs)\<lparr>vs_descriptor := Some w'\<rparr>), env')"
  using assms by (simp add: LogAndApply_def Let_def installed_version_def next_version_def with_pointers_def)

lemma AppendVersion_fields:
  "vs_user (AppendVersion v vs) = vs_user vs" "vs_current (AppendVersion v vs) = v" "vs_descriptor (AppendVersion v vs) = vs_descriptor vs"
  "vs_dbname (AppendVersion v vs) = vs_dbname vs" "vs_manifest_file_number (AppendVersion v vs) = vs_manifest_file_number vs"
  "vs_next_file_number (AppendVersion v vs) = vs_next_file_number vs" "vs_last_sequence (AppendVersion v vs) = vs_last_sequence vs"
  by (simp_all add: AppendVersion_def)

lemma installed_version_fields:
  "vs_user (installed_version e vs0 vs) = vs_user vs" "vs_current (installed_version e vs0 vs) = next_version e vs0"
  "vs_descriptor (installed_version e vs0 vs) = vs_descriptor vs" "vs_dbname (installed_version e vs0 vs) = vs_dbname vs"
  "vs_manifest_file_number (installed_version e vs0 vs) = vs_manifest_file_number vs"
  "vs_log_number (installed_version e vs0 vs) = ve_log_number e" "vs_prev_log_number (installed_version e vs0 vs) = ve_prev_log_number e"
  "vs_next_file_number (installed_version e vs0 vs) = vs_next_file_number vs" "vs_last_sequence (installed_version e vs0 vs) = vs_last_sequence vs"
  by (simp_all add: installed_version_def AppendVersion_fields)

lemma with_pointers_fields:
  "vs_user (with_pointers e vs) = vs_user vs" "vs_current (with_pointers e vs) = vs_current vs"
  "vs_descriptor (with_pointers e vs) = vs_descriptor vs" "vs_dbname (with_pointers e vs) = vs_dbname vs"
  "vs_manifest_file_number (with_pointers e vs) = vs_manifest_file_number vs"
  "vs_log_number (with_pointers e vs) = vs_log_number vs" "vs_prev_log_number (with_pointers e vs) = vs_prev_log_number vs"
  "vs_next_file_number (with_pointers e vs) = vs_next_file_number vs" "vs_last_sequence (with_pointers e vs) = vs_last_sequence vs"
  by (simp_all add: with_pointers_def)

lemma Finalize_files: "v_files (Finalize v) = v_files v"
  by (simp add: Finalize_def case_prod_unfold Let_def)

text \<open>What the fresh numbers of an edit are measured against.\<close>

lemma edits_ok_snoc:
  assumes "edits_ok es" and "edit_ok e" and "ve_has_comparator e \<longrightarrow> ve_comparator e = cmp_Name cmp"
    and "fresh_files (use_files (concat (map ve_new_files es)) (\<lambda>_. {})) (ve_new_files e)"
  shows "edits_ok (es @ [complete_edit e vs])"
  using assms complete_edit_ok [OF assms(2), of vs] by (auto simp: edits_ok_def fresh_files_append)

lemma LogAndApply_open_ok:
  assumes "manifest_ok es vs env" and "LogAndApply e vs env = (OK, e', vs', env')"
    and "edits_ok (es @ [complete_edit e vs])"
  shows "manifest_ok (es @ [e']) vs' env'" and "e' = complete_edit e vs"
    and "vs_log_number vs' = ve_log_number e'" and "vs_prev_log_number vs' = ve_prev_log_number e'"
    and "vs_next_file_number vs' = vs_next_file_number vs" and "vs_last_sequence vs' = vs_last_sequence vs"
    and "vs_dbname vs' = vs_dbname vs"
proof -
  let ?e = "complete_edit e vs"
  note m = assms(1) [unfolded manifest_ok_def]
  obtain w where w: "vs_descriptor vs = Some w" "log_at w (map (\<lambda>e. ve_EncodeTo e []) es)"
    "pw_filename (lw_dest w) = DescriptorFileName (vs_dbname vs) (vs_manifest_file_number vs)" using m by blast
  have u: "vs_user vs = cmp" using m by blast
  obtain s w' env1 where wm: "write_manifest ?e w env = (s, w', env1)" by (metis prod_cases3)
  note la = LogAndApply_open [OF u w(1) wm]
  have s: "s = OK" using la assms(2) by (auto simp: ok_def)
  have r: "e' = ?e" "env' = env1" "vs' = installed_version ?e vs ((with_pointers ?e vs)\<lparr>vs_descriptor := Some w'\<rparr>)"
    using la assms(2) s by simp_all
  note wr = write_manifest_OK [OF w(2) wm [unfolded s]]
  have srt: "version_sorted (v_files (vs_current vs))" "replays es (v_files (vs_current vs))" "edits_ok es" using m by blast+
  note rp = replays_snoc [OF srt assms(3)]
  have cur: "v_files (vs_current vs') = v_files (builder_SaveTo cmp (builder_Apply cmp ?e (new_Builder (vs_current vs))))"
    by (simp add: r(3) installed_version_fields next_version_def Finalize_files)
  have fl: "vs_user vs' = cmp" "vs_descriptor vs' = Some w'" "vs_dbname vs' = vs_dbname vs"
    "vs_manifest_file_number vs' = vs_manifest_file_number vs"
    by (simp_all add: r(3) installed_version_fields with_pointers_fields u)
  show "e' = ?e" by (rule r(1))
  show "vs_log_number vs' = ve_log_number e'" "vs_prev_log_number vs' = ve_prev_log_number e'"
    "vs_next_file_number vs' = vs_next_file_number vs" "vs_last_sequence vs' = vs_last_sequence vs" "vs_dbname vs' = vs_dbname vs"
    by (simp_all add: r installed_version_fields with_pointers_fields)
  show "manifest_ok (es @ [e']) vs' env'"
    unfolding manifest_ok_def fl cur r(1,2)
  proof (intro conjI)
    show "\<exists>w. Some w' = Some w \<and> log_at w (map (\<lambda>e. ve_EncodeTo e []) (es @ [?e])) \<and>
        pw_filename (lw_dest w) = DescriptorFileName (vs_dbname vs) (vs_manifest_file_number vs)"
      using wr w(3) by simp
    show "pe_files env1 (DescriptorFileName (vs_dbname vs) (vs_manifest_file_number vs)) =
        Some (log_encs 0 (map (\<lambda>e. ve_EncodeTo e []) (es @ [?e])))"
      using wr(3) w(3) by simp
    show "pe_files env1 (CurrentFileName (vs_dbname vs)) = Some (bytes_of ''MANIFEST-'' @ pad6 (vs_manifest_file_number vs) @ [10])"
      using wr(3) w(3) m Descriptor_names(1) [of "vs_dbname vs" "vs_manifest_file_number vs", symmetric] by simp
  qed (use rp assms(3) in simp_all)
qed

text \<open>The first edit creates the manifest.\<close>

lemma LogAndApply_new:
  assumes "vs_user vs = cmp" and "vs_descriptor vs = None" and "LogAndApply e vs env = (OK, e', vs', env')"
  obtains f env1 w env2 w' env3 where
    "env_NewWritableFile (DescriptorFileName (vs_dbname vs) (vs_manifest_file_number vs)) env = (Inr f, env1)"
    and "WriteSnapshot (with_pointers (complete_edit e vs) vs) (new_log_writer f 0) = (OK, w)"
    and "write_manifest (complete_edit e vs) w (store_log w env1) = (OK, w', env3)"
    and "SetCurrentFile (vs_dbname vs) (vs_manifest_file_number vs) env3 = (OK, env')"
    and "e' = complete_edit e vs"
    and "vs' = installed_version (complete_edit e vs) vs ((with_pointers (complete_edit e vs) vs)\<lparr>vs_descriptor := Some w'\<rparr>)"
proof -
  let ?e = "complete_edit e vs"
  let ?vs = "with_pointers ?e vs"
  obtain r env1 where n: "env_NewWritableFile (DescriptorFileName (vs_dbname vs) (vs_manifest_file_number vs)) env = (r, env1)" by fastforce
  have vs1: "vs_descriptor ?vs = None" "vs_dbname ?vs = vs_dbname vs" "vs_manifest_file_number ?vs = vs_manifest_file_number vs"
    using assms(2) by (simp_all add: with_pointers_fields)
  note def = assms(3) [unfolded LogAndApply_def Let_def, folded with_pointers_def, unfolded vs1 create_manifest_def n assms(1)]
  show thesis
  proof (cases r)
    case (Inl s)
    then have "s \<noteq> OK" using env_NewWritableFile_files(1) n by blast
    then show ?thesis using def Inl vs1 by (auto simp: ok_def split: prod.splits)
  next
    case (Inr f)
    obtain s2 w where sn: "WriteSnapshot ?vs (new_log_writer f 0) = (s2, w)" by fastforce
    show ?thesis
    proof (cases "s2 = OK")
      case False
      then show ?thesis using def Inr sn by (auto simp: ok_def)
    next
      case True
      obtain s3 w' env3 where wm: "write_manifest ?e w (store_log w env1) = (s3, w', env3)" by (metis prod_cases3)
      show ?thesis
      proof (cases "s3 = OK")
        case False
        then show ?thesis using def Inr sn True wm by (auto simp: ok_def)
      next
        case s3: True
        obtain s4 env4 where sc: "SetCurrentFile (vs_dbname vs) (vs_manifest_file_number vs) env3 = (s4, env4)" by fastforce
        have s4: "s4 = OK" "e' = ?e" "env' = env4"
          "vs' = installed_version ?e vs (?vs\<lparr>vs_descriptor := Some w'\<rparr>)"
          using def Inr sn True wm s3 sc vs1
          by (auto simp: ok_def installed_version_def next_version_def split: if_splits)
        show ?thesis
          using that [of f env1 w w' env3] n Inr sn True wm s3 sc s4 by simp
      qed
    qed
  qed
qed

text \<open>The snapshot lists each file once.\<close>

lemma fresh_levels:
  assumes "distinct ls" and "\<And>l. l \<in> set ls \<Longrightarrow> distinct (map fm_number (files ! l)) \<and> used l = {}"
  shows "fresh_files used (concat (map (\<lambda>l. map (\<lambda>f. (l, meta_new f)) (files ! l)) ls))"
  using assms
proof (induction ls arbitrary: used)
  case (Cons l ls)
  have "fresh_files used (map (\<lambda>f. (l, meta_new f)) (files ! l))"
    by (rule fresh_outputs) (use Cons.prems(2) [of l] in simp_all)
  moreover have "fresh_files (use_files (map (\<lambda>f. (l, meta_new f)) (files ! l)) used)
      (concat (map (\<lambda>l. map (\<lambda>f. (l, meta_new f)) (files ! l)) ls))"
    by (rule Cons.IH) (use Cons.prems in \<open>auto simp: use_files_def\<close>)
  ultimately show ?case by (simp add: fresh_files_append)
qed simp

lemma in_level_files: "(l, f) \<in> set (level_files files) \<longleftrightarrow> l < kNumLevels \<and> f \<in> meta_new ` set (files ! l)"
  by (auto simp: level_files_def)

lemma use_level_files: "l < kNumLevels \<Longrightarrow> use_files (level_files files) (\<lambda>_. {}) l = fm_number ` set (files ! l)"
  by (auto simp: use_files_def in_level_files intro: exI [of _ "meta_new _"])

lemma snapshot_edits_ok:
  assumes "vs_user vs = cmp" and "version_sorted (v_files (vs_current vs))" and "snapshot_ok vs"
  shows "edits_ok [snapshot_edit vs]" and "replays [snapshot_edit vs] (v_files (vs_current vs))"
proof -
  note sn = snapshot_edit_ok [OF assms(3)]
  have d: "distinct (map fm_number (v_files (vs_current vs) ! l))" if "l < kNumLevels" for l
    using assms(2) that by (simp add: version_sorted_def distinct_map)
  have "fresh_files (\<lambda>_. {}) (level_files (v_files (vs_current vs)))"
    unfolding level_files_def by (rule fresh_levels) (use d in simp_all)
  then show "edits_ok [snapshot_edit vs]" using sn assms(1) by (simp add: edits_ok_def)
  show "replays [snapshot_edit vs] (v_files (vs_current vs))"
    unfolding replays_def
  proof (intro allI impI)
    fix l
    assume l: "l < kNumLevels"
    have "{meta_new f | f. (l, f) \<in> set (level_files (v_files (vs_current vs)))} = meta_new ` set (v_files (vs_current vs) ! l)"
      using l by (auto simp: in_level_files intro: exI [of _ "meta_new _"])
    then show "meta_new ` set (v_files (vs_current vs) ! l) = meta_new ` fold apply_edit [snapshot_edit vs] (\<lambda>_. {}) l"
      by (simp add: apply_edit_meta sn(3,4))
  qed
qed

lemma LogAndApply_new_ok:
  assumes "vs_user vs = cmp" and "vs_descriptor vs = None" and "LogAndApply e vs env = (OK, e', vs', env')"
    and "version_sorted (v_files (vs_current vs))" and "snapshot_ok (with_pointers (complete_edit e vs) vs)"
    and "edit_ok e" and "ve_has_comparator e \<longrightarrow> ve_comparator e = cmp_Name cmp"
    and "fresh_files (\<lambda>l. fm_number ` set (v_files (vs_current vs) ! l)) (ve_new_files e)"
  shows "\<exists>es. manifest_ok (es @ [e']) vs' env' \<and> concat (map ve_new_files es) = level_files (v_files (vs_current vs))"
    and "e' = complete_edit e vs"
    and "vs_log_number vs' = ve_log_number e'" and "vs_prev_log_number vs' = ve_prev_log_number e'"
    and "vs_next_file_number vs' = vs_next_file_number vs" and "vs_last_sequence vs' = vs_last_sequence vs"
    and "vs_dbname vs' = vs_dbname vs"
proof -
  let ?e = "complete_edit e vs"
  let ?vs = "with_pointers ?e vs"
  obtain f env1 w w' env3 where c:
    "env_NewWritableFile (DescriptorFileName (vs_dbname vs) (vs_manifest_file_number vs)) env = (Inr f, env1)"
    "WriteSnapshot ?vs (new_log_writer f 0) = (OK, w)"
    "write_manifest ?e w (store_log w env1) = (OK, w', env3)"
    "SetCurrentFile (vs_dbname vs) (vs_manifest_file_number vs) env3 = (OK, env')"
    "e' = ?e" "vs' = installed_version ?e vs (?vs\<lparr>vs_descriptor := Some w'\<rparr>)"
    by (rule LogAndApply_new [OF assms(1-3)])
  show "e' = ?e" by (rule c(5))
  show "vs_log_number vs' = ve_log_number e'" "vs_prev_log_number vs' = ve_prev_log_number e'"
    "vs_next_file_number vs' = vs_next_file_number vs" "vs_last_sequence vs' = vs_last_sequence vs" "vs_dbname vs' = vs_dbname vs"
    by (simp_all add: c(5,6) installed_version_fields with_pointers_fields)
  have name: "pw_filename f = DescriptorFileName (vs_dbname vs) (vs_manifest_file_number vs)"
    using c(1) by (auto simp: env_NewWritableFile_def new_posix_writable_def split: prod.splits sum.splits)
  have l0: "log_at (new_log_writer f 0) []" by (rule new_log_at) (use env_NewWritableFile_files(2) [OF c(1)] in blast)
  have l1: "log_at w [ve_EncodeTo (snapshot_edit ?vs) []]"
    using log_at_AddRecord(1) [OF l0] c(2) by (simp add: WriteSnapshot_def)
  have nw: "pw_filename (lw_dest w) = pw_filename f"
    using c(2) filename_AddRecord unfolding WriteSnapshot_def by (fastforce simp: new_log_writer_def)
  note wr = write_manifest_OK [OF l1 c(3)]
  have cur: "vs_current ?vs = vs_current vs" "vs_user ?vs = cmp" using assms(1) by (simp_all add: with_pointers_fields)
  have sn: "edits_ok [snapshot_edit ?vs]" "replays [snapshot_edit ?vs] (v_files (vs_current vs))"
    using snapshot_edits_ok [of ?vs] assms(4,5) cur by simp_all
  have nf: "ve_new_files (snapshot_edit ?vs) = level_files (v_files (vs_current vs))"
    using snapshot_edit_ok(4) [OF assms(5)] cur by simp
  have "fresh_files (use_files (concat (map ve_new_files [snapshot_edit ?vs])) (\<lambda>_. {})) (ve_new_files e)"
    by (rule fresh_files_levels [OF assms(8)]) (use nf use_level_files edit_ok_levels [OF assms(6)] in auto)
  then have ok2: "edits_ok ([snapshot_edit ?vs] @ [?e])" by (rule edits_ok_snoc [OF sn(1) assms(6,7)])
  note rp = replays_snoc [OF assms(4) sn(2,1) ok2]
  have cur': "v_files (vs_current vs') = v_files (builder_SaveTo cmp (builder_Apply cmp ?e (new_Builder (vs_current vs))))"
    by (simp add: c(6) installed_version_fields next_version_def Finalize_files)
  have fl: "vs_user vs' = cmp" "vs_descriptor vs' = Some w'" "vs_dbname vs' = vs_dbname vs"
    "vs_manifest_file_number vs' = vs_manifest_file_number vs"
    by (simp_all add: c(6) installed_version_fields with_pointers_fields assms(1))
  note sc = SetCurrentFile_files [OF c(4)]
  have "manifest_ok ([snapshot_edit ?vs] @ [?e]) vs' env'"
    unfolding manifest_ok_def fl cur'
  proof (intro conjI)
    show "\<exists>w. Some w' = Some w \<and> log_at w (map (\<lambda>e. ve_EncodeTo e []) ([snapshot_edit ?vs] @ [?e])) \<and>
        pw_filename (lw_dest w) = DescriptorFileName (vs_dbname vs) (vs_manifest_file_number vs)"
      using wr nw name by simp
    show "pe_files env' (DescriptorFileName (vs_dbname vs) (vs_manifest_file_number vs)) =
        Some (log_encs 0 (map (\<lambda>e. ve_EncodeTo e []) ([snapshot_edit ?vs] @ [?e])))"
      using wr(3) nw name sc Descriptor_names [of "vs_dbname vs" "vs_manifest_file_number vs"] by simp
    show "pe_files env' (CurrentFileName (vs_dbname vs)) = Some (bytes_of ''MANIFEST-'' @ pad6 (vs_manifest_file_number vs) @ [10])"
      using sc by simp
  qed (use rp ok2 in simp_all)
  moreover have "concat (map ve_new_files [snapshot_edit ?vs]) = level_files (v_files (vs_current vs))" using nf by simp
  ultimately show "\<exists>es. manifest_ok (es @ [e']) vs' env' \<and> concat (map ve_new_files es) = level_files (v_files (vs_current vs))"
    using c(5) by blast
qed

end

section \<open>Recovering\<close>

lemma reliable_NewSequentialFile:
  assumes "reliable_env env" and "pe_files env f = Some data"
  obtains sf env' where "env_NewSequentialFile f env = (Inr sf, env')" and "no_failure (seq_fd sf)" and "fd_data (seq_fd sf) = data"
    and "reliable_env env'" and "pe_files env' = pe_files env"
proof -
  obtain env1 where n: "name_call env = (None, env1)" "reliable_env env1" "pe_files env1 = pe_files env"
    by (rule reliable_name_call [OF assms(1)])
  obtain d env2 where d: "new_fd data env1 = (d, env2)" by fastforce
  have "no_failure d \<and> fd_data d = data \<and> reliable_env env2 \<and> pe_files env2 = pe_files env1"
    using d n(2) by (auto simp: new_fd_def no_failure_steady reliable_env_def split: list.splits)
  then show thesis
    using that [of "\<lparr>seq_fd = d, seq_filename = f\<rparr>" env2] n d assms(2) by (simp add: env_NewSequentialFile_def sys_open_read_def)
qed

lemma reliable_read_loop: "no_failure (seq_fd sf) \<Longrightarrow> fst (ReadFileToString_loop sf data) = OK"
proof (induction sf data rule: ReadFileToString_loop.induct)
  case (1 sf data)
  obtain frag sf' where r: "posix_Read sf kReadBufferSize = (OK, frag, sf')" "no_failure (seq_fd sf')"
    using posix_rf.good_Read [OF "1.prems", of kReadBufferSize] by (auto simp: posix_sequential_ops_def)
  show ?case
    using "1.IH" [OF r(1) [symmetric] refl refl _ _ r(2)] by (subst ReadFileToString_loop.simps) (simp add: r(1))
qed

lemma reliable_ReadFileToString:
  assumes "reliable_env env" and "pe_files env f = Some data"
  obtains env' where "ReadFileToString f env = (OK, data, env')" and "reliable_env env'" and "pe_files env' = pe_files env"
proof -
  obtain sf env' where sf: "env_NewSequentialFile f env = (Inr sf, env')" "no_failure (seq_fd sf)" "fd_data (seq_fd sf) = data"
    "reliable_env env'" "pe_files env' = pe_files env"
    by (rule reliable_NewSequentialFile [OF assms])
  obtain s out where l: "ReadFileToString_loop sf [] = (s, out)" by fastforce
  have "s = OK" using reliable_read_loop [OF sf(2), of "[]"] l by simp
  moreover from this have "out = data" using ReadFileToString_loop_OK [of sf "[]" out] l sf(3) by simp
  ultimately show thesis using that [of env'] sf l by (simp add: ReadFileToString_def)
qed

context user_comparator
begin

lemma recover_record_edit:
  assumes "edit_ok e" and "ve_has_comparator e \<longrightarrow> ve_comparator e = cmp_Name cmp"
  shows "rc_status (recover_record cmp (ve_EncodeTo e []) rc) = OK"
    and "rc_builder (recover_record cmp (ve_EncodeTo e []) rc) = builder_Apply cmp e (rc_builder rc)"
    and "ve_has_log_number e \<Longrightarrow> rc_log_number (recover_record cmp (ve_EncodeTo e []) rc) = Some (ve_log_number e)"
    and "ve_has_prev_log_number e \<Longrightarrow> rc_prev_log_number (recover_record cmp (ve_EncodeTo e []) rc) = Some (ve_prev_log_number e)"
    and "ve_has_next_file_number e \<Longrightarrow> rc_next_file (recover_record cmp (ve_EncodeTo e []) rc) = Some (ve_next_file_number e)"
    and "ve_has_last_sequence e \<Longrightarrow> rc_last_sequence (recover_record cmp (ve_EncodeTo e []) rc) = Some (ve_last_sequence e)"
proof -
  have d: "ve_DecodeFrom (ve_EncodeTo e []) new_VersionEdit = (OK, e)"
    using ve_Decode_EncodeTo [OF assms(1), of new_VersionEdit] by (simp add: new_VersionEdit_def ve_Clear_def)
  show "rc_status (recover_record cmp (ve_EncodeTo e []) rc) = OK"
    and "rc_builder (recover_record cmp (ve_EncodeTo e []) rc) = builder_Apply cmp e (rc_builder rc)"
    and "ve_has_log_number e \<Longrightarrow> rc_log_number (recover_record cmp (ve_EncodeTo e []) rc) = Some (ve_log_number e)"
    and "ve_has_prev_log_number e \<Longrightarrow> rc_prev_log_number (recover_record cmp (ve_EncodeTo e []) rc) = Some (ve_prev_log_number e)"
    and "ve_has_next_file_number e \<Longrightarrow> rc_next_file (recover_record cmp (ve_EncodeTo e []) rc) = Some (ve_next_file_number e)"
    and "ve_has_last_sequence e \<Longrightarrow> rc_last_sequence (recover_record cmp (ve_EncodeTo e []) rc) = Some (ve_last_sequence e)"
    using assms(2) by (auto simp: recover_record_def d Let_def)
qed

lemma Recover_loop_log:
  assumes "off \<le> kBlockSize" and "posix_rf.reader_at r (log_encs off (map (\<lambda>e. ve_EncodeTo e []) es)) off"
    and "length (log_encs off (map (\<lambda>e. ve_EncodeTo e []) es)) < fuel" and "length es < n" and "rc_status rc = OK"
    and "\<forall>e \<in> set es. edit_ok e \<and> (ve_has_comparator e \<longrightarrow> ve_comparator e = cmp_Name cmp)"
  shows "Recover_loop n fuel cmp r rc = Some (fold (\<lambda>e. recover_record cmp (ve_EncodeTo e [])) es rc)"
  using assms
proof (induction es arbitrary: off r n rc)
  case Nil
  obtain n' fuel' where n: "n = Suc n'" "fuel = Suc fuel'" using Nil.prems(3,4) by (cases n; cases fuel) auto
  have "\<exists>r'. ReadRecord fuel posix_sequential_ops r = Some (None, r') \<and> lr_reports r' = lr_reports r"
    using posix_rf.read_physical_short [OF Nil.prems(2), of "[]"]
      posix_rf.ReadRecord_loop_eof [where fuel = fuel' and b = False and acc = "[]" and p = 0 and frag = "[]"]
      Nil.prems(2) n by (fastforce simp: posix_rf.ReadRecord_at kHeaderSize_def)
  then show ?case using n by (auto simp: reported_def)
next
  case (Cons e es)
  let ?d = "ve_EncodeTo e []"
  let ?rest = "map (\<lambda>e. ve_EncodeTo e []) es"
  obtain s off' where enc: "log_enc off True ?d = (s, off')" by fastforce
  obtain n' where n': "n = Suc n'" using Cons.prems(4) by (cases n) auto
  have at: "posix_rf.reader_at r (s @ log_encs off' ?rest) off" using Cons.prems(2) enc by simp
  have len: "length s \<le> fuel" "length (log_encs off' ?rest) < fuel" using Cons.prems(3) enc by simp_all
  from posix_rf.ReadRecord_loop_enc [of off r True ?d "log_encs off' ?rest" fuel "[]" 0 "[]"] Cons.prems(1) at len(1) enc
  obtain r1 where r1: "ReadRecord_loop fuel posix_sequential_ops r False [] 0 [] = Some (Some ?d, r1)"
    "posix_rf.reader_at r1 (log_encs off' ?rest) off'" "off' \<le> kBlockSize" "lr_reports r1 = lr_reports r" by auto
  have rr: "ReadRecord fuel posix_sequential_ops r = Some (Some ?d, r1)"
    using posix_rf.ReadRecord_at [OF at] r1(1) by simp
  have e: "edit_ok e" "ve_has_comparator e \<longrightarrow> ve_comparator e = cmp_Name cmp" using Cons.prems(6) by simp_all
  have "Recover_loop n' fuel cmp r1 (recover_record cmp ?d rc) = Some (fold (\<lambda>e. recover_record cmp (ve_EncodeTo e [])) es (recover_record cmp ?d rc))"
    by (rule Cons.IH [OF r1(3,2) len(2)]) (use Cons.prems(4,6) n' recover_record_edit(1) [OF e] in simp_all)
  moreover have same: "rc\<lparr>rc_status := reported (drop (length (lr_reports r)) (lr_reports r1)) (rc_status rc)\<rparr> = rc"
    using r1(4) Cons.prems(5) by (cases rc) (simp add: reported_def)
  have "Recover_loop n fuel cmp r rc = Recover_loop n' fuel cmp r1 (recover_record cmp ?d rc)"
    unfolding n' Recover_loop.simps rr option.case prod.case same Let_def using Cons.prems(5) by simp
  ultimately show ?case by simp
qed

lemma recovered_builder:
  "\<forall>e \<in> set es. edit_ok e \<and> (ve_has_comparator e \<longrightarrow> ve_comparator e = cmp_Name cmp) \<Longrightarrow>
   rc_builder (fold (\<lambda>e. recover_record cmp (ve_EncodeTo e [])) es rc) = fold (builder_Apply cmp) es (rc_builder rc)"
  using recover_record_edit(2) by (induction es arbitrary: rc) simp_all

lemma ReuseManifest_fields:
  "ReuseManifest dscname dscbase vs env = (b, vs', env') \<Longrightarrow>
   vs_current vs' = vs_current vs \<and> vs_log_number vs' = vs_log_number vs \<and> vs_prev_log_number vs' = vs_prev_log_number vs \<and>
   vs_next_file_number vs' = vs_next_file_number vs \<and> vs_last_sequence vs' = vs_last_sequence vs"
  by (auto simp: ReuseManifest_def split: if_splits option.splits prod.splits sum.splits)

lemma applied_installed:
  "\<forall>e \<in> set es. edit_ok e \<Longrightarrow> f \<in> fold apply_edit es S l \<Longrightarrow> (\<And>g. g \<in> S l \<Longrightarrow> installed g = g) \<Longrightarrow> installed f = f"
proof (induction es arbitrary: S)
  case (Cons e es)
  have "installed g = g" if g: "g \<in> apply_edit e S l" for g
  proof -
    consider "g \<in> S l" | h where "(l, h) \<in> set (ve_new_files e)" "g = prepared h" using g by (auto simp: apply_edit_def)
    then show ?thesis
    proof cases
      case 2
      then have "new_file_ok (l, h)" using Cons.prems(1) by (auto simp: edit_ok_def)
      then have "meta_new h = h" using file_ok_eq [of h] by (simp add: meta_new_def)
      then show ?thesis using 2(2) by (simp add: installed_def)
    qed (rule Cons.prems(3))
  qed
  then show ?case using Cons.IH [of "apply_edit e S"] Cons.prems(1,2) by simp
qed simp

text \<open>What a recovery finds in a manifest whose last edit carries all numbers.\<close>

lemma Recover_manifest:
  assumes "manifest_ok (es @ [e]) vs0 env0" and "ve_has_log_number e" and "ve_has_prev_log_number e" and "ve_has_next_file_number e"
    and "ve_has_last_sequence e" and "reliable_env env" and "pe_files env = pe_files env0"
    and "length (log_encs 0 (map (\<lambda>e. ve_EncodeTo e []) (es @ [e]))) < fuel" and "length (es @ [e]) < fuel"
  shows "\<exists>save vs env'. Recover fuel (new_VersionSet (vs_dbname vs0) cmp m reuse) env = Some (OK, save, vs, env') \<and>
    (\<forall>l < kNumLevels. map meta_new (v_files (vs_current vs) ! l) = map meta_new (v_files (vs_current vs0) ! l)) \<and>
    vs_log_number vs = ve_log_number e \<and> vs_prev_log_number vs = ve_prev_log_number e \<and>
    vs_next_file_number vs = ve_next_file_number e + 1 \<and> vs_last_sequence vs = ve_last_sequence e"
proof -
  let ?db = "vs_dbname vs0"
  let ?n = "vs_manifest_file_number vs0"
  let ?vs = "new_VersionSet ?db cmp m reuse"
  let ?es = "es @ [e]"
  note mo = assms(1) [unfolded manifest_ok_def]
  have files: "pe_files env (CurrentFileName ?db) = Some (bytes_of ''MANIFEST-'' @ pad6 ?n @ [10])"
    "pe_files env (DescriptorFileName ?db ?n) = Some (log_encs 0 (map (\<lambda>e. ve_EncodeTo e []) ?es))"
    using mo assms(7) by simp_all
  obtain env1 where rd: "ReadFileToString (CurrentFileName ?db) env = (OK, bytes_of ''MANIFEST-'' @ pad6 ?n @ [10], env1)"
    and env1: "reliable_env env1" "pe_files env1 = pe_files env"
    by (rule reliable_ReadFileToString [OF assms(6) files(1)])
  have dsc: "?db @ bytes_of ''/'' @ butlast (bytes_of ''MANIFEST-'' @ pad6 ?n @ [10]) = DescriptorFileName ?db ?n"
    by (simp add: DescriptorFileName_def bytes_of_def butlast_append)
  have files1: "pe_files env1 (DescriptorFileName ?db ?n) = Some (log_encs 0 (map (\<lambda>e. ve_EncodeTo e []) ?es))" using files(2) env1(2) by simp
  obtain sf env2 where sf: "env_NewSequentialFile (DescriptorFileName ?db ?n) env1 = (Inr sf, env2)" "no_failure (seq_fd sf)"
    "fd_data (seq_fd sf) = log_encs 0 (map (\<lambda>e. ve_EncodeTo e []) ?es)"
    by (rule reliable_NewSequentialFile [OF env1(1) files1])
  let ?rc = "\<lparr>rc_status = OK, rc_builder = new_Builder (vs_current ?vs), rc_pointers = vs_compact_pointer ?vs,
     rc_log_number = None, rc_prev_log_number = None, rc_next_file = None, rc_last_sequence = None\<rparr>"
  define out where "out = fold (\<lambda>e. recover_record cmp (ve_EncodeTo e [])) ?es ?rc"
  have eok: "\<forall>e \<in> set ?es. edit_ok e \<and> (ve_has_comparator e \<longrightarrow> ve_comparator e = cmp_Name cmp)"
    using mo unfolding edits_ok_def by blast
  have loop: "Recover_loop fuel fuel cmp (new_log_reader sf True 0) ?rc = Some out"
    unfolding out_def by (rule Recover_loop_log [of 0]) (use sf eok assms(8,9) in \<open>simp_all add: posix_rf.reader_at_def new_log_reader_def\<close>)
  have last_e: "edit_ok e" "ve_has_comparator e \<longrightarrow> ve_comparator e = cmp_Name cmp" using eok by simp_all
  have outs: "rc_status out = OK" "rc_log_number out = Some (ve_log_number e)" "rc_prev_log_number out = Some (ve_prev_log_number e)"
    "rc_next_file out = Some (ve_next_file_number e)" "rc_last_sequence out = Some (ve_last_sequence e)"
    using recover_record_edit [OF last_e] assms(2-5) by (simp_all add: out_def)
  have bld: "rc_builder out = fold (builder_Apply cmp) ?es (new_Builder new_Version)"
    using recovered_builder [OF eok, of ?rc] by (simp add: out_def new_VersionSet_def)
  have b0: "builder_ok (new_Builder new_Version) (\<lambda>_. {}) (\<lambda>_. {})"
    by (simp add: builder_ok_def new_Builder_def new_Version_def key_sorted_def)
  obtain used where b: "builder_ok (fold (builder_Apply cmp) ?es (new_Builder new_Version)) (fold apply_edit ?es (\<lambda>_. {})) used"
    using builder_Applies_ok [OF b0, of ?es] mo edit_ok_levels unfolding edits_ok_def edit_levels_ok_def by blast
  note saved = builder_SaveTo_level [OF b]
  let ?v = "builder_SaveTo cmp (rc_builder out)"
  have same: "map meta_new (v_files ?v ! l) = map meta_new (v_files (vs_current vs0) ! l)" if l: "l < kNumLevels" for l
  proof -
    have srt: "key_sorted (v_files (vs_current vs0) ! l)" "distinct (v_files (vs_current vs0) ! l)"
      "inj_on fm_number (set (v_files (vs_current vs0) ! l))"
      using mo l unfolding version_sorted_def by blast+
    have eq: "meta_new ` set (v_files ?v ! l) = meta_new ` set (v_files (vs_current vs0) ! l)"
      using mo l saved(1) [OF l] bld by (simp add: replays_def)
    have inj: "inj_on fm_number (set (v_files ?v ! l))"
    proof (rule inj_onI)
      fix x y
      assume x: "x \<in> set (v_files ?v ! l)" and y: "y \<in> set (v_files ?v ! l)" and n: "fm_number x = fm_number y"
      have "meta_new x \<in> meta_new ` set (v_files (vs_current vs0) ! l)" "meta_new y \<in> meta_new ` set (v_files (vs_current vs0) ! l)"
        using x y eq by blast+
      then obtain a b where "a \<in> set (v_files (vs_current vs0) ! l)" "b \<in> set (v_files (vs_current vs0) ! l)"
        "meta_new x = meta_new a" "meta_new y = meta_new b" by blast
      moreover from this have "fm_number a = fm_number b" using n by (metis meta_new_simps(1))
      ultimately have "meta_new x = meta_new y" using srt(3) unfolding inj_on_def by metis
      moreover have "installed x = x" "installed y = y"
        using x y saved(1) [OF l] bld applied_installed [of ?es _ "\<lambda>_. {}" l] eok by auto
      ultimately show "x = y" by (metis installed_def)
    qed
    show ?thesis by (rule same_sorted_files) (use srt eq inj saved(2,3) [OF l] bld in simp_all)
  qed
  let ?cur = "butlast (bytes_of ''MANIFEST-'' @ pad6 ?n @ [10])"
  let ?vs1 = "(AppendVersion (Finalize ?v) (MarkFileNumberUsed (ve_log_number e) (MarkFileNumberUsed (ve_prev_log_number e)
      (?vs\<lparr>vs_compact_pointer := rc_pointers out\<rparr>))))\<lparr>vs_manifest_file_number := ve_next_file_number e,
      vs_next_file_number := ve_next_file_number e + 1, vs_last_sequence := ve_last_sequence e, vs_log_number := ve_log_number e,
      vs_prev_log_number := ve_prev_log_number e\<rparr>"
  obtain reused vs2 env3 where reuse: "ReuseManifest (DescriptorFileName ?db ?n) ?cur ?vs1 env2 = (reused, vs2, env3)" by (metis prod_cases3)
  have user: "vs_user (MarkFileNumberUsed a (MarkFileNumberUsed b (?vs\<lparr>vs_compact_pointer := p\<rparr>))) = cmp" for a b p
    by (simp add: MarkFileNumberUsed_def new_VersionSet_def)
  have fin: "finish_recovery (DescriptorFileName ?db ?n) ?cur out ?vs env2 = (OK, \<not> reused, vs2, env3)"
    unfolding finish_recovery_def Let_def outs option.case by (simp add: outs user reuse)
  have vs2: "vs_current vs2 = Finalize ?v" "vs_log_number vs2 = ve_log_number e" "vs_prev_log_number vs2 = ve_prev_log_number e"
    "vs_next_file_number vs2 = ve_next_file_number e + 1" "vs_last_sequence vs2 = ve_last_sequence e"
    using ReuseManifest_fields [OF reuse] by (simp_all add: AppendVersion_fields)
  have "Recover fuel ?vs env = Some (OK, \<not> reused, vs2, env3)"
  proof -
    have db: "vs_dbname ?vs = ?db" "vs_user ?vs = cmp" by (simp_all add: new_VersionSet_def)
    have cur: "bytes_of ''MANIFEST-'' @ pad6 ?n @ [10] \<noteq> []" "last (bytes_of ''MANIFEST-'' @ pad6 ?n @ [10]) = 10" by simp_all
    show ?thesis unfolding Recover_def db rd Let_def prod.case dsc sf(1) sum.case loop using cur fin by simp
  qed
  then show ?thesis using vs2 same by (auto simp: Finalize_files)
qed

end

section \<open>The life of a manifest\<close>

text \<open>The files of a level below the first one do not meet, which \<^verbatim>\<open>MaybeAddFile\<close> asserts.\<close>

definition levels_apart :: "comparator \<Rightarrow> file_meta list list \<Rightarrow> bool" where
  "levels_apart user files \<longleftrightarrow>
     (\<forall>l. 0 < l \<longrightarrow> l < kNumLevels \<longrightarrow> sorted_wrt (\<lambda>f g. ikey_Compare user (fm_largest f) (fm_smallest g) < 0) (files ! l))"

text \<open>
  An edit that can be applied: its fields fit their encodings, its files have numbers not used before in their level, and
  what \<^verbatim>\<open>LogAndApply\<close> and \<^verbatim>\<open>MaybeAddFile\<close> assert holds: a log number is not below the current one and has been handed out, and
  the new files do not meet others of their level.
\<close>

definition edit_fits :: "comparator \<Rightarrow> (nat \<Rightarrow> u64 set) \<Rightarrow> version_edit \<Rightarrow> version_set \<Rightarrow> bool" where
  "edit_fits user used e vs \<longleftrightarrow>
     edit_ok e \<and> (ve_has_comparator e \<longrightarrow> ve_comparator e = cmp_Name user) \<and> fresh_files used (ve_new_files e) \<and>
     (ve_has_log_number e \<longrightarrow> vs_log_number vs \<le> ve_log_number e \<and> ve_log_number e < vs_next_file_number vs) \<and>
     levels_apart user (v_files (builder_SaveTo user (builder_Apply user e (new_Builder (vs_current vs))))) \<and>
     (vs_descriptor vs = None \<longrightarrow> snapshot_ok (vs\<lparr>vs_compact_pointer := apply_pointers (complete_edit e vs) (vs_compact_pointer vs)\<rparr>))"

text \<open>What happens between edits: seeks are charged, compactions chosen, numbers taken, other files written.\<close>

definition same_manifest :: "version_set \<Rightarrow> posix_env \<Rightarrow> version_set \<Rightarrow> posix_env \<Rightarrow> bool" where
  "same_manifest vs env vs' env' \<longleftrightarrow>
     vs_user vs' = vs_user vs \<and> vs_dbname vs' = vs_dbname vs \<and> vs_manifest_file_number vs' = vs_manifest_file_number vs \<and>
     vs_descriptor vs' = vs_descriptor vs \<and> length (v_files (vs_current vs')) = kNumLevels \<and>
     (\<forall>l < kNumLevels. map meta_new (v_files (vs_current vs') ! l) = map meta_new (v_files (vs_current vs) ! l)) \<and>
     (\<forall>f \<in> {DescriptorFileName (vs_dbname vs) (vs_manifest_file_number vs), CurrentFileName (vs_dbname vs)}.
        pe_files env' f = pe_files env f)"

inductive manifest_run :: "comparator \<Rightarrow> (nat \<Rightarrow> u64 set) \<Rightarrow> version_set \<Rightarrow> posix_env \<Rightarrow> bool" for user where
  run_start: "vs_user vs = user \<Longrightarrow> vs_descriptor vs = None \<Longrightarrow> user_comparator.version_sorted user (v_files (vs_current vs)) \<Longrightarrow>
    levels_apart user (v_files (vs_current vs)) \<Longrightarrow>
    manifest_run user (\<lambda>l. fm_number ` set (v_files (vs_current vs) ! l)) vs env"
| run_apply: "manifest_run user used vs env \<Longrightarrow> edit_fits user used e vs \<Longrightarrow> LogAndApply e vs env = (OK, e', vs', env') \<Longrightarrow>
    manifest_run user (use_files (ve_new_files e) used) vs' env'"
| run_other: "manifest_run user used vs env \<Longrightarrow> same_manifest vs env vs' env' \<Longrightarrow> manifest_run user used vs' env'"

lemma map_meta_new_facts:
  assumes "map meta_new xs = map meta_new ys"
  shows "map fm_number xs = map fm_number ys" and "map fm_smallest xs = map fm_smallest ys" and "meta_new ` set xs = meta_new ` set ys"
proof -
  have "map fm_number (map meta_new xs) = map fm_number (map meta_new ys)" "map fm_smallest (map meta_new xs) = map fm_smallest (map meta_new ys)"
    using assms by simp_all
  then show "map fm_number xs = map fm_number ys" "map fm_smallest xs = map fm_smallest ys" by (simp_all add: comp_def)
  show "meta_new ` set xs = meta_new ` set ys" using assms by (metis list.set_map)
qed

context user_comparator
begin

lemma version_sorted_same:
  assumes "version_sorted files" and "length files' = kNumLevels" and "\<forall>l < kNumLevels. map meta_new (files' ! l) = map meta_new (files ! l)"
  shows "version_sorted files'"
  unfolding version_sorted_def
proof (intro conjI allI impI)
  fix l
  assume l: "l < kNumLevels"
  note m = map_meta_new_facts [OF assms(3) [rule_format, OF l]]
  have o: "key_sorted (files ! l)" "distinct (files ! l)" "inj_on fm_number (set (files ! l))" using assms(1) l by (auto simp: version_sorted_def)
  have "distinct (map fm_number (files' ! l))" using m(1) o by (simp add: distinct_map)
  then show "distinct (files' ! l)" "inj_on fm_number (set (files' ! l))" by (simp_all add: distinct_map)
  have len: "length (files' ! l) = length (files ! l)" using m(1) by (metis length_map)
  have nth: "fm_number (files' ! l ! i) = fm_number (files ! l ! i)" "fm_smallest (files' ! l ! i) = fm_smallest (files ! l ! i)"
    if "i < length (files ! l)" for i
    using m(1,2) that len by (metis nth_map)+
  show "key_sorted (files' ! l)"
    unfolding key_sorted_def sorted_wrt_iff_nth_less
  proof (intro allI impI)
    fix i j
    assume ij: "i < j" "j < length (files' ! l)"
    have "key_le (files ! l ! i) (files ! l ! j)" using sorted_wrt_nth_less [of _ "files ! l" i j] o(1) ij len unfolding key_sorted_def by simp
    moreover have "BySmallestKey cmp (files' ! l ! j) (files' ! l ! i) = BySmallestKey cmp (files ! l ! j) (files ! l ! i)"
      using nth [of i] nth [of j] ij len by (simp add: BySmallestKey_def)
    ultimately show "key_le (files' ! l ! i) (files' ! l ! j)" by simp
  qed
qed (rule assms(2))

definition run_inv :: "(nat \<Rightarrow> u64 set) \<Rightarrow> version_set \<Rightarrow> posix_env \<Rightarrow> bool" where
  "run_inv used vs env \<longleftrightarrow>
     vs_user vs = cmp \<and> version_sorted (v_files (vs_current vs)) \<and>
     (\<forall>l < kNumLevels. fm_number ` set (v_files (vs_current vs) ! l) \<subseteq> used l) \<and>
     (vs_descriptor vs = None \<or>
      (\<exists>es. manifest_ok es vs env \<and> (\<forall>l < kNumLevels. use_files (concat (map ve_new_files es)) (\<lambda>_. {}) l \<subseteq> used l)))"

lemma use_files_append: "use_files (fs @ gs) used = use_files gs (use_files fs used)"
  by (rule ext) (auto simp: use_files_def)

lemma run_inv_apply:
  assumes "run_inv used vs env" and "edit_fits cmp used e vs" and "LogAndApply e vs env = (OK, e', vs', env')"
  shows "run_inv (use_files (ve_new_files e) used) vs' env'" and "\<exists>es. manifest_ok (es @ [e']) vs' env'" and "e' = complete_edit e vs"
    and "vs_log_number vs' = ve_log_number e'" and "vs_prev_log_number vs' = ve_prev_log_number e'"
    and "vs_next_file_number vs' = vs_next_file_number vs" and "vs_last_sequence vs' = vs_last_sequence vs" and "vs_dbname vs' = vs_dbname vs"
proof -
  have e: "edit_ok e" "ve_has_comparator e \<longrightarrow> ve_comparator e = cmp_Name cmp" "fresh_files used (ve_new_files e)"
    using assms(2) unfolding edit_fits_def by blast+
  have lv: "\<forall>(l, f) \<in> set (ve_new_files e). l < kNumLevels" by (rule edit_ok_levels [OF e(1)])
  have inv: "vs_user vs = cmp" "version_sorted (v_files (vs_current vs))" "\<And>l. l < kNumLevels \<Longrightarrow> fm_number ` set (v_files (vs_current vs) ! l) \<subseteq> used l"
    using assms(1) unfolding run_inv_def by blast+
  have main: "(\<exists>es. manifest_ok (es @ [e']) vs' env' \<and>
      (\<forall>l < kNumLevels. use_files (concat (map ve_new_files (es @ [e']))) (\<lambda>_. {}) l \<subseteq> use_files (ve_new_files e) used l)) \<and> e' = complete_edit e vs \<and>
      vs_log_number vs' = ve_log_number e' \<and> vs_prev_log_number vs' = ve_prev_log_number e' \<and>
      vs_next_file_number vs' = vs_next_file_number vs \<and> vs_last_sequence vs' = vs_last_sequence vs \<and> vs_dbname vs' = vs_dbname vs"
  proof (cases "vs_descriptor vs")
    case None
    have fr: "fresh_files (\<lambda>l. fm_number ` set (v_files (vs_current vs) ! l)) (ve_new_files e)"
      by (rule fresh_files_levels [OF e(3) _ lv]) (rule inv(3))
    have sn: "snapshot_ok (with_pointers (complete_edit e vs) vs)" using assms(2) None by (simp add: edit_fits_def with_pointers_def)
    note n = LogAndApply_new_ok [OF inv(1) None assms(3) inv(2) sn e(1,2) fr]
    from n(1) obtain es where es: "manifest_ok (es @ [e']) vs' env'" "concat (map ve_new_files es) = level_files (v_files (vs_current vs))"
      by blast
    have "use_files (concat (map ve_new_files (es @ [e']))) (\<lambda>_. {}) l \<subseteq> use_files (ve_new_files e) used l" if l: "l < kNumLevels" for l
    proof -
      have "use_files (level_files (v_files (vs_current vs))) (\<lambda>_. {}) l \<subseteq> used l" using use_level_files [OF l] inv(3) [OF l] by simp
      then show ?thesis using es(2) n(2) complete_edit_ok(2) [OF e(1), of vs] by (auto simp: use_files_append) (auto simp: use_files_def)
    qed
    then show ?thesis using es(1) n(2-7) by blast
  next
    case (Some w)
    then obtain es where es: "manifest_ok es vs env" "\<And>l. l < kNumLevels \<Longrightarrow> use_files (concat (map ve_new_files es)) (\<lambda>_. {}) l \<subseteq> used l"
      using assms(1) unfolding run_inv_def by auto
    have "edits_ok es" using es(1) unfolding manifest_ok_def by blast
    moreover have "fresh_files (use_files (concat (map ve_new_files es)) (\<lambda>_. {})) (ve_new_files e)"
      by (rule fresh_files_levels [OF e(3) _ lv]) (rule es(2))
    ultimately have "edits_ok (es @ [complete_edit e vs])" by (rule edits_ok_snoc [OF _ e(1,2)])
    note n = LogAndApply_open_ok [OF es(1) assms(3) this]
    have "use_files (concat (map ve_new_files (es @ [e']))) (\<lambda>_. {}) l \<subseteq> use_files (ve_new_files e) used l" if "l < kNumLevels" for l
      using es(2) [OF that] n(2) complete_edit_ok(2) [OF e(1), of vs] by (auto simp: use_files_append) (auto simp: use_files_def)
    then show ?thesis using n by blast
  qed
  have cur: "\<forall>l < kNumLevels. fm_number ` set (v_files (vs_current vs') ! l) \<subseteq> use_files (ve_new_files e) used l"
    using main replays_numbers unfolding manifest_ok_def by blast
  show "run_inv (use_files (ve_new_files e) used) vs' env'" using main cur unfolding run_inv_def manifest_ok_def by blast
  show "\<exists>es. manifest_ok (es @ [e']) vs' env'" "e' = complete_edit e vs"
    "vs_log_number vs' = ve_log_number e'" "vs_prev_log_number vs' = ve_prev_log_number e'"
    "vs_next_file_number vs' = vs_next_file_number vs" "vs_last_sequence vs' = vs_last_sequence vs" "vs_dbname vs' = vs_dbname vs"
    using main by blast+
qed

lemma run_inv_other:
  assumes "run_inv used vs env" and "same_manifest vs env vs' env'"
  shows "run_inv used vs' env'"
proof -
  note sm = assms(2) [unfolded same_manifest_def]
  have m: "map meta_new (v_files (vs_current vs') ! l) = map meta_new (v_files (vs_current vs) ! l)" if "l < kNumLevels" for l
    using sm that by blast
  have srt: "version_sorted (v_files (vs_current vs'))"
    by (rule version_sorted_same [of "v_files (vs_current vs)"]) (use assms(1) sm in \<open>auto simp: run_inv_def\<close>)
  have num: "fm_number ` set (v_files (vs_current vs') ! l) = fm_number ` set (v_files (vs_current vs) ! l)" if "l < kNumLevels" for l
    using map_meta_new_facts(1) [OF m [OF that]] by (metis list.set_map)
  have rep: "replays es (v_files (vs_current vs'))" if "replays es (v_files (vs_current vs))" for es
    using that map_meta_new_facts(3) [OF m] by (simp add: replays_def)
  have "manifest_ok es vs' env'" if "manifest_ok es vs env" for es
    using that sm srt rep unfolding manifest_ok_def by auto
  then show ?thesis using assms(1) sm srt num unfolding run_inv_def by (metis (no_types, lifting))
qed

lemma run_inv_run: "manifest_run cmp used vs env \<Longrightarrow> run_inv used vs env"
proof (induction rule: manifest_run.induct)
  case (run_start vs env)
  then show ?case by (simp add: run_inv_def)
next
  case (run_apply used vs env e e' vs' env')
  then show ?case using run_inv_apply(1) by blast
next
  case (run_other used vs env vs' env')
  then show ?case using run_inv_other by blast
qed

end

section \<open>When no call fails\<close>

definition calm :: "posix_writable \<Rightarrow> bool" where
  "calm w \<longleftrightarrow> no_failure (pw_fd w) \<and> no_failure (pw_dirfd w)"

definition calm_env :: "posix_env \<Rightarrow> bool" where
  "calm_env env \<longleftrightarrow> reliable_env env \<and> list_all steady (pe_dir_answers env)"

lemma calm_sys_call:
  assumes "no_failure d"
  shows "\<exists>d'. sys_call d = (None, d') \<and> no_failure d'"
proof (cases "fd_answers d")
  case (Cons a as)
  then have "steady a" "list_all steady as" using assms by (simp_all add: no_failure_steady)
  then show ?thesis using Cons by (cases a) (simp_all add: sys_call_def no_failure_steady steady_def)
qed (simp add: sys_call_def no_failure_steady)

lemma calm_SyncFd: "no_failure d \<Longrightarrow> \<exists>d'. SyncFd d p = (OK, d') \<and> no_failure d'"
  using calm_sys_call [of d] by (auto simp: SyncFd_def)

lemma calm_Sync:
  assumes "calm w"
  shows "\<exists>w'. posix_Sync w = (OK, w') \<and> calm w'"
proof -
  have "\<exists>w1. SyncDirIfManifest w = (OK, w1) \<and> calm w1"
  proof (cases "pw_is_manifest w")
    case True
    obtain d1 where d1: "sys_call (pw_dirfd w) = (None, d1)" "no_failure d1" using calm_sys_call assms unfolding calm_def by blast
    obtain d2 where "SyncFd d1 (pw_dirname w) = (OK, d2)" "no_failure d2" using calm_SyncFd [OF d1(2)] by blast
    then show ?thesis using True d1 assms by (simp add: SyncDirIfManifest_def calm_def)
  qed (use assms in \<open>simp add: SyncDirIfManifest_def\<close>)
  then obtain w1 where w1: "SyncDirIfManifest w = (OK, w1)" "calm w1" by blast
  obtain s w2 where f: "FlushBuffer w1 = (s, w2)" by fastforce
  have w2: "s = OK" "no_failure (pw_fd w2)" "no_failure (pw_dirfd w2)"
    using no_failure_FlushBuffer [of w1 s w2] w1(2) f dest_FlushBuffer [OF f] by (auto simp: calm_def dest_id_def)
  obtain d3 where "SyncFd (pw_fd w2) (pw_filename w2) = (OK, d3)" "no_failure d3" using calm_SyncFd [OF w2(2)] by blast
  then show ?thesis using w1 f w2 by (simp add: posix_Sync_def calm_def)
qed

lemma calm_Append: "calm w \<Longrightarrow> \<exists>w'. posix_Append w d = (OK, w') \<and> calm w'"
proof -
  assume c: "calm w"
  obtain s w' where a: "posix_Append w d = (s, w')" by fastforce
  have s: "s = OK" "no_failure (pw_fd w')" using no_failure_posix_Append [OF _ a] c unfolding calm_def by blast+
  have "pw_dirfd w' = pw_dirfd w" using dest_Append [OF a] by (simp add: dest_id_def)
  then have "calm w'" using s(2) c by (simp add: calm_def)
  then show ?thesis using a s(1) by blast
qed

lemma calm_Close: "calm w \<Longrightarrow> \<exists>w'. posix_Close w = (OK, w')"
proof -
  assume c: "calm w"
  obtain s w2 where f: "FlushBuffer w = (s, w2)" by fastforce
  have w2: "s = OK" "no_failure (pw_fd w2)" using no_failure_FlushBuffer [of w s w2] c f by (auto simp: calm_def)
  then show ?thesis using calm_sys_call [OF w2(2)] f by (auto simp: posix_Close_def)
qed

lemma calm_AddRecord: "calm (lw_dest w) \<Longrightarrow> \<exists>w'. AddRecord posix_writable_ops w d = (OK, w') \<and> calm (lw_dest w')"
proof -
  assume c: "calm (lw_dest w)"
  obtain s w' where a: "AddRecord posix_writable_ops w d = (s, w')" by fastforce
  have "s = OK \<and> no_failure (pw_fd (lw_dest w'))"
    using a c unfolding AddRecord_def calm_def by (intro healthy_AddRecord_loop [of posix_writable_ops w True d]) simp_all
  then show ?thesis using a c dest_AddRecord [OF a] by (simp add: calm_def dest_id_def)
qed

lemma name_call_dirs:
  assumes "name_call env = (r, env')"
  shows "pe_dir_answers env' = pe_dir_answers env"
proof (cases "pe_answers env")
  case Nil
  then show ?thesis using assms by (auto simp: name_call_def)
next
  case (Cons a as)
  then show ?thesis using assms by (cases a) (auto simp: name_call_def)
qed

lemma calm_NewWritableFile:
  assumes "calm_env env"
  shows "\<exists>w env'. env_NewWritableFile f env = (Inr w, env') \<and> calm w \<and> calm_env env'"
proof -
  obtain env1 where n: "name_call env = (None, env1)" "reliable_env env1" "pe_files env1 = pe_files env"
    by (rule reliable_name_call [of env]) (use assms in \<open>simp_all add: calm_env_def\<close>)
  have dirs: "pe_dir_answers env1 = pe_dir_answers env"
    by (rule name_call_dirs [OF n(1)])
  obtain d env2 where d: "new_fd [] env1 = (d, env2)" by fastforce
  have "no_failure d \<and> reliable_env env2 \<and> pe_dir_answers env2 = pe_dir_answers env1"
    using d n(2) by (auto simp: new_fd_def no_failure_steady reliable_env_def split: list.splits)
  then show ?thesis
    using n(1) d dirs assms
    by (auto simp: env_NewWritableFile_def sys_open_write_def new_posix_writable_def calm_def calm_env_def no_failure_steady reliable_env_def)
qed

lemma calm_store: "calm_env (store_fd f d env) = calm_env env"
  by (simp add: store_fd_def calm_env_def reliable_env_def)

lemma calm_DoWrite:
  assumes "calm_env env"
  shows "\<exists>env'. DoWriteStringToFile data f True env = (OK, env') \<and> calm_env env'"
proof -
  obtain w env1 where w: "env_NewWritableFile f env = (Inr w, env1)" "calm w" "calm_env env1" using calm_NewWritableFile [OF assms] by blast
  obtain w1 where w1: "posix_Append w data = (OK, w1)" "calm w1" using calm_Append [OF w(2)] by blast
  obtain w2 where w2: "posix_Sync w1 = (OK, w2)" "calm w2" using calm_Sync [OF w1(2)] by blast
  obtain w3 where "posix_Close w2 = (OK, w3)" using calm_Close [OF w2(2)] by blast
  then show ?thesis using w w1 w2 by (simp add: DoWriteStringToFile_def calm_store)
qed

lemma calm_SetCurrentFile:
  assumes "calm_env env"
  shows "\<exists>env'. SetCurrentFile db n env = (OK, env')"
proof -
  let ?data = "drop (length db + 1) (DescriptorFileName db n) @ [10]"
  obtain env1 where w: "DoWriteStringToFile ?data (TempFileName db n) True env = (OK, env1)" "calm_env env1"
    using calm_DoWrite [OF assms] by blast
  have f: "pe_files env1 (TempFileName db n) = Some ?data" using DoWriteStringToFile_files(1) [OF w(1)] by simp
  obtain env2 where "name_call env1 = (None, env2)" "pe_files env2 = pe_files env1"
    by (rule reliable_name_call [of env1]) (use w(2) in \<open>simp_all add: calm_env_def\<close>)
  then have "\<exists>env3. env_RenameFile (TempFileName db n) (CurrentFileName db) env1 = (OK, env3)"
    using f by (simp add: env_RenameFile_def sys_rename_def)
  then show ?thesis using w(1) by (auto simp: SetCurrentFile_def WriteStringToFileSync_def Let_def)
qed

lemma calm_LogAndApply:
  assumes "calm_env env" and "\<And>w. vs_descriptor vs = Some w \<Longrightarrow> calm (lw_dest w)"
  shows "fst (LogAndApply e vs env) = OK"
proof -
  have wm: "\<exists>w' env'. write_manifest x w env = (OK, w', env') \<and> calm_env env'" if c: "calm (lw_dest w)" "calm_env env" for x w env
  proof -
    obtain w1 where w1: "AddRecord posix_writable_ops w (ve_EncodeTo x []) = (OK, w1)" "calm (lw_dest w1)"
      using calm_AddRecord [OF c(1)] by blast
    obtain d where "posix_Sync (lw_dest w1) = (OK, d)" using calm_Sync [OF w1(2)] by blast
    then show ?thesis using w1(1) c(2) by (simp add: write_manifest_def store_log_def calm_store)
  qed
  let ?e = "complete_edit e vs"
  let ?vs = "vs\<lparr>vs_compact_pointer := apply_pointers ?e (vs_compact_pointer vs)\<rparr>"
  show ?thesis
  proof (cases "vs_descriptor vs")
    case None
    obtain f env1 where f: "env_NewWritableFile (DescriptorFileName (vs_dbname vs) (vs_manifest_file_number vs)) env = (Inr f, env1)"
      "calm f" "calm_env env1" using calm_NewWritableFile [OF assms(1)] by blast
    obtain w where w: "WriteSnapshot ?vs (new_log_writer f 0) = (OK, w)" "calm (lw_dest w)"
      using calm_AddRecord [of "new_log_writer f 0"] f(2) by (auto simp: WriteSnapshot_def new_log_writer_def)
    have "calm_env (store_log w env1)" using f(3) by (simp add: store_log_def calm_store)
    then obtain w' env3 where m: "write_manifest ?e w (store_log w env1) = (OK, w', env3)" "calm_env env3" using wm [OF w(2)] by blast
    obtain env4 where "SetCurrentFile (vs_dbname vs) (vs_manifest_file_number vs) env3 = (OK, env4)"
      using calm_SetCurrentFile [OF m(2)] by blast
    then show ?thesis using None f(1) w(1) m(1) by (simp add: LogAndApply_def Let_def create_manifest_def)
  next
    case (Some w)
    obtain w' env' where "write_manifest ?e w env = (OK, w', env')" using wm [OF assms(2) [OF Some] assms(1)] by blast
    then show ?thesis using Some by (simp add: LogAndApply_def Let_def)
  qed
qed

text \<open>An edit that cannot be written changes neither the current version nor, when the manifest is new, CURRENT.\<close>

lemma Sync_filename:
  assumes "posix_Sync w = (s, w')"
  shows "pw_filename w' = pw_filename w"
proof -
  obtain s1 w1 where d: "SyncDirIfManifest w = (s1, w1)" by fastforce
  obtain s2 w2 where f: "FlushBuffer w1 = (s2, w2)" by fastforce
  have "pw_filename w1 = pw_filename w"
    using d by (auto simp: SyncDirIfManifest_def Let_def split: prod.splits option.splits if_splits)
  moreover have "pw_filename w2 = pw_filename w1" using dest_FlushBuffer [OF f] by (simp add: dest_id_def)
  ultimately show ?thesis using assms d f by (auto simp: posix_Sync_def Let_def split: prod.splits if_splits)
qed

lemma write_manifest_files: "write_manifest e w env = (s, w', env') \<Longrightarrow>
    pw_filename (lw_dest w') = pw_filename (lw_dest w) \<and> (\<forall>f. f \<noteq> pw_filename (lw_dest w) \<longrightarrow> pe_files env' f = pe_files env f)"
proof -
  assume wm: "write_manifest e w env = (s, w', env')"
  obtain s1 w1 where a: "AddRecord posix_writable_ops w (ve_EncodeTo e []) = (s1, w1)" by fastforce
  obtain s2 d where y: "(if ok s1 then posix_Sync (lw_dest w1) else (s1, lw_dest w1)) = (s2, d)" by fastforce
  have e: "w' = w1\<lparr>lw_dest := d\<rparr>" "env' = store_log w' env" using wm by (auto simp: write_manifest_def a y Let_def)
  have "pw_filename d = pw_filename (lw_dest w1)"
    using y Sync_filename [of "lw_dest w1" s2 d] by (simp split: if_splits)
  then show ?thesis using filename_AddRecord [OF a] e by (simp add: store_log_def store_fd_def)
qed

lemma create_manifest_files:
  assumes "create_manifest vs env = (s, vs', env')" and "vs_descriptor vs = None"
  shows "\<exists>d. vs' = vs\<lparr>vs_descriptor := d\<rparr> \<and> (\<forall>w. d = Some w \<longrightarrow> pw_filename (lw_dest w) = DescriptorFileName (vs_dbname vs) (vs_manifest_file_number vs))"
    and "f \<noteq> DescriptorFileName (vs_dbname vs) (vs_manifest_file_number vs) \<Longrightarrow> pe_files env' f = pe_files env f"
proof -
  let ?man = "DescriptorFileName (vs_dbname vs) (vs_manifest_file_number vs)"
  obtain r env1 where n: "env_NewWritableFile ?man env = (r, env1)" by fastforce
  have "(\<exists>d. vs' = vs\<lparr>vs_descriptor := d\<rparr> \<and> (\<forall>w. d = Some w \<longrightarrow> pw_filename (lw_dest w) = ?man)) \<and>
      (f \<noteq> ?man \<longrightarrow> pe_files env' f = pe_files env f)"
  proof (cases r)
    case (Inl s0)
    then have "vs' = vs\<lparr>vs_descriptor := None\<rparr>" "env' = env1" using assms n by (simp_all add: create_manifest_def)
    then show ?thesis using env_NewWritableFile_files(1) [OF n [unfolded Inl]] by (intro conjI exI [of _ None]) simp_all
  next
    case (Inr x)
    obtain s1 w where w: "WriteSnapshot vs (new_log_writer x 0) = (s1, w)" by fastforce
    have x: "pw_filename x = ?man"
      using n Inr by (auto simp: env_NewWritableFile_def new_posix_writable_def split: prod.splits sum.splits)
    have "pw_filename (lw_dest w) = ?man"
      using filename_AddRecord w x unfolding WriteSnapshot_def by (fastforce simp: new_log_writer_def)
    moreover have "vs' = vs\<lparr>vs_descriptor := Some w\<rparr>" "env' = store_log w env1" using assms(1) n Inr w by (simp_all add: create_manifest_def)
    ultimately show ?thesis using env_NewWritableFile_files(2) [OF n [unfolded Inr]] by (auto simp: store_log_def store_fd_def)
  qed
  then show "\<exists>d. vs' = vs\<lparr>vs_descriptor := d\<rparr> \<and> (\<forall>w. d = Some w \<longrightarrow> pw_filename (lw_dest w) = ?man)"
    and "f \<noteq> ?man \<Longrightarrow> pe_files env' f = pe_files env f" by blast+
qed

lemma LogAndApply_failed:
  assumes "LogAndApply e vs env = (s, e', vs', env')" and "s \<noteq> OK"
  shows "vs' = vs\<lparr>vs_descriptor := vs_descriptor vs', vs_compact_pointer := apply_pointers e' (vs_compact_pointer vs)\<rparr>"
    and "vs_descriptor vs = None \<Longrightarrow> vs_descriptor vs' = None \<and> pe_files env' (CurrentFileName (vs_dbname vs)) = pe_files env (CurrentFileName (vs_dbname vs))"
proof -
  let ?e = "complete_edit e vs"
  let ?vs = "vs\<lparr>vs_compact_pointer := apply_pointers ?e (vs_compact_pointer vs)\<rparr>"
  let ?man = "DescriptorFileName (vs_dbname vs) (vs_manifest_file_number vs)"
  let ?fresh = "vs_descriptor vs = None"
  obtain s1 vs1 env1 where c1': "(if vs_descriptor ?vs = None then create_manifest ?vs env else (OK, ?vs, env)) = (s1, vs1, env1)"
    by (metis prod_cases3)
  obtain s2 vs2 env2 where c2: "(if ok s1 then case vs_descriptor vs1 of
      Some w \<Rightarrow> (case write_manifest ?e w env1 of (s, w, env) \<Rightarrow> (s, vs1\<lparr>vs_descriptor := Some w\<rparr>, env)) | None \<Rightarrow> (s1, vs1, env1)
      else (s1, vs1, env1)) = (s2, vs2, env2)" by (metis prod_cases3)
  obtain s3 env3 where c3': "(if ok s2 \<and> vs_descriptor ?vs = None then SetCurrentFile (vs_dbname vs2) (vs_manifest_file_number vs2) env2 else (s2, env2)) = (s3, env3)"
    by fastforce
  have c1: "(if ?fresh then create_manifest ?vs env else (OK, ?vs, env)) = (s1, vs1, env1)"
    and c3: "(if ok s2 \<and> ?fresh then SetCurrentFile (vs_dbname vs2) (vs_manifest_file_number vs2) env2 else (s2, env2)) = (s3, env3)"
    using c1' c3' by simp_all
  note def = assms(1) [unfolded LogAndApply_def Let_def c1' prod.case c2 c3']
  have d1: "\<exists>d. vs1 = ?vs\<lparr>vs_descriptor := d\<rparr> \<and> (?fresh \<longrightarrow> (\<forall>w. d = Some w \<longrightarrow> pw_filename (lw_dest w) = ?man))"
  proof (cases ?fresh)
    case True
    then show ?thesis using c1 create_manifest_files(1) [of ?vs env s1 vs1 env1] by simp
  next
    case False
    then have "vs1 = ?vs" using c1 by (simp only: if_False) simp
    then show ?thesis using False by (intro exI [of _ "vs_descriptor vs"]) (cases vs; simp)
  qed
  have f1: "pe_files env1 f = pe_files env f" if "f \<noteq> ?man" for f
    using c1 create_manifest_files(2) [of ?vs env s1 vs1 env1 f] that by (cases ?fresh) simp_all
  from d1 obtain d where d: "vs1 = ?vs\<lparr>vs_descriptor := d\<rparr>" "?fresh \<longrightarrow> (\<forall>w. d = Some w \<longrightarrow> pw_filename (lw_dest w) = ?man)"
    by (elim exE conjE)
  have d2: "(\<exists>d'. vs2 = ?vs\<lparr>vs_descriptor := d'\<rparr> \<and> (?fresh \<longrightarrow> (\<forall>w. d' = Some w \<longrightarrow> pw_filename (lw_dest w) = ?man))) \<and>
      (?fresh \<longrightarrow> (\<forall>f. f \<noteq> ?man \<longrightarrow> pe_files env2 f = pe_files env1 f))"
  proof (cases "ok s1 \<and> d \<noteq> None")
    case True
    then obtain w where w: "d = Some w" by blast
    obtain s' w' env' where wm: "write_manifest ?e w env1 = (s', w', env')" by (metis prod_cases3)
    then have "vs2 = ?vs\<lparr>vs_descriptor := Some w'\<rparr>" "env2 = env'" using c2 True w d(1) by simp_all
    then show ?thesis using write_manifest_files [OF wm] d(2) w by auto
  next
    case False
    then have "vs2 = vs1" "env2 = env1" using c2 d(1) by (auto split: if_splits)
    then show ?thesis using d by auto
  qed
  from d2 obtain d' where d': "vs2 = ?vs\<lparr>vs_descriptor := d'\<rparr>" "?fresh \<longrightarrow> (\<forall>w. d' = Some w \<longrightarrow> pw_filename (lw_dest w) = ?man)"
    by (elim exE conjE)
  have s3: "s = s3" "\<not> ok s3"
    using def assms(2) by (auto simp: ok_def split: if_splits)
  have res: "vs' = (if ?fresh then vs2\<lparr>vs_descriptor := None\<rparr> else vs2)"
    "env' = (if ?fresh then snd (env_RemoveFile (DescriptorFileName (vs_dbname vs2) (vs_manifest_file_number vs2))
        (case vs_descriptor vs2 of None \<Rightarrow> env3 | Some w \<Rightarrow> store_log (w\<lparr>lw_dest := snd (posix_Close (lw_dest w))\<rparr>) env3)) else env3)"
    using def s3(2) by (auto split: if_splits)
  have "e' = ?e" using def by (auto split: if_splits)
  then show "vs' = vs\<lparr>vs_descriptor := vs_descriptor vs', vs_compact_pointer := apply_pointers e' (vs_compact_pointer vs)\<rparr>"
    by (simp add: res(1) d'(1))
  show "vs_descriptor vs' = None \<and> pe_files env' (CurrentFileName (vs_dbname vs)) = pe_files env (CurrentFileName (vs_dbname vs))" if ?fresh
  proof -
    have f2: "\<forall>f. f \<noteq> ?man \<longrightarrow> pe_files env2 f = pe_files env f" using d2 f1 that by simp
    have f3: "pe_files env3 (CurrentFileName (vs_dbname vs)) = pe_files env (CurrentFileName (vs_dbname vs))"
    proof (cases "ok s2")
      case True
      then have "SetCurrentFile (vs_dbname vs) (vs_manifest_file_number vs) env2 = (s3, env3)" using c3 that d'(1) by simp
      from SetCurrentFile_files [OF this] s3(2) have "pe_files env3 (CurrentFileName (vs_dbname vs)) = pe_files env2 (CurrentFileName (vs_dbname vs))"
        by (auto simp: ok_def)
      also have "\<dots> = pe_files env (CurrentFileName (vs_dbname vs))"
        using f2 Descriptor_names(1) [of "vs_dbname vs" "vs_manifest_file_number vs"] by simp
      finally show ?thesis .
    next
      case False
      then have "env3 = env2" using c3 by simp
      then show ?thesis using f2 Descriptor_names(1) [of "vs_dbname vs" "vs_manifest_file_number vs"] by simp
    qed
    let ?env4 = "case vs_descriptor vs2 of None \<Rightarrow> env3 | Some w \<Rightarrow> store_log (w\<lparr>lw_dest := snd (posix_Close (lw_dest w))\<rparr>) env3"
    have close: "pw_filename (snd (posix_Close w)) = pw_filename w" for w
    proof -
      obtain s w2 where f: "FlushBuffer w = (s, w2)" by fastforce
      show ?thesis using dest_FlushBuffer [OF f] f by (simp add: posix_Close_def dest_id_def split: prod.splits option.splits)
    qed
    have f4: "pe_files ?env4 (CurrentFileName (vs_dbname vs)) = pe_files env3 (CurrentFileName (vs_dbname vs))"
    proof (cases d')
      case (Some w)
      then have "pw_filename (lw_dest w) = ?man" using d'(2) that by blast
      then show ?thesis using Descriptor_names(1) [of "vs_dbname vs" "vs_manifest_file_number vs", symmetric] close [of "lw_dest w"]
        by (simp add: d'(1) Some store_log_def store_fd_def)
    qed (simp add: d'(1))
    obtain s5 env5 where rm: "env_RemoveFile ?man ?env4 = (s5, env5)" by fastforce
    have "env' = env5" using res(2) that rm d'(1) by simp
    then have "pe_files env' (CurrentFileName (vs_dbname vs)) = pe_files ?env4 (CurrentFileName (vs_dbname vs))"
      using env_RemoveFile_files(3) [OF rm] Descriptor_names(1) [of "vs_dbname vs" "vs_manifest_file_number vs"] by simp
    then show ?thesis using f3 f4 res(1) that by simp
  qed
qed

section \<open>Properties\<close>

text \<open>
  C5: The manifest is a faithful record of the current version. After any run of applied edits, whatever else happened in between
  to seeks, numbers and other files, and a last edit that was applied with status OK: a new process that recovers from the
  files as they are (with calls that do not fail) reports OK and has the same files in every level, in the same order, with the same numbers, sizes
  and keys, and the log numbers, the sequence number and the next file number that were current. The edits are those for which the assertions of
  \<^verbatim>\<open>LogAndApply\<close> and \<^verbatim>\<open>MaybeAddFile\<close> hold. When the last edit fails, the version set keeps its version and all its numbers: it only
  takes over the edit's compaction pointers, and a manifest that was open may or may not hold the edit now; if the manifest would have been new, none
  is open and CURRENT is as it was. When no call fails, an edit is always applied.
\<close>

theorem manifest_recovers:
  assumes "manifest_run BytewiseComparator used vs env" and "edit_fits BytewiseComparator used e vs"
    and "LogAndApply e vs env = (s, e', vs', env')"
    and "reliable_env env2" and "pe_files env2 = pe_files env'"
    and "s = OK \<Longrightarrow> length (the (pe_files env' (DescriptorFileName (vs_dbname vs') (vs_manifest_file_number vs')))) < fuel"
  shows "(s = OK \<longrightarrow>
           (\<exists>save r env3. Recover fuel (new_VersionSet (vs_dbname vs') BytewiseComparator m reuse) env2 = Some (OK, save, r, env3) \<and>
              (\<forall>l < kNumLevels. map meta_new (v_files (vs_current r) ! l) = map meta_new (v_files (vs_current vs') ! l)) \<and>
              vs_log_number r = vs_log_number vs' \<and> vs_prev_log_number r = vs_prev_log_number vs' \<and>
              vs_last_sequence r = vs_last_sequence vs' \<and> vs_next_file_number r = vs_next_file_number vs' + 1)) \<and>
         (s \<noteq> OK \<longrightarrow> vs' = vs\<lparr>vs_descriptor := vs_descriptor vs', vs_compact_pointer := apply_pointers e' (vs_compact_pointer vs)\<rparr> \<and>
            (vs_descriptor vs = None \<longrightarrow> vs_descriptor vs' = None \<and>
               pe_files env' (CurrentFileName (vs_dbname vs)) = pe_files env (CurrentFileName (vs_dbname vs)))) \<and>
         (calm_env env \<and> (\<forall>w. vs_descriptor vs = Some w \<longrightarrow> calm (lw_dest w)) \<longrightarrow> s = OK)"
proof (intro conjI impI)
  assume s: "s = OK"
  note a = bytewise_user.run_inv_apply [OF bytewise_user.run_inv_run [OF assms(1)] assms(2) assms(3) [unfolded s]]
  obtain es where es: "bytewise_user.manifest_ok (es @ [e']) vs' env'" using a(2) by blast
  have ok: "edit_ok e" using assms(2) by (simp add: edit_fits_def)
  note c = complete_edit_ok [OF ok, of vs, folded a(3)]
  let ?log = "log_encs 0 (map (\<lambda>e. ve_EncodeTo e []) (es @ [e']))"
  have "pe_files env' (DescriptorFileName (vs_dbname vs') (vs_manifest_file_number vs')) = Some ?log"
    using es unfolding bytewise_user.manifest_ok_def by blast
  then have fuel: "length ?log < fuel" using assms(6) [OF s] by simp
  have "length (es @ [e']) \<le> length ?log" using log_encs_length [of "map (\<lambda>e. ve_EncodeTo e []) (es @ [e'])" 0] by simp
  then have "length (es @ [e']) < fuel" using fuel by simp
  from bytewise_user.Recover_manifest [OF es c(6-9) assms(4,5) fuel this, of m reuse] obtain save r env3 where r:
    "Recover fuel (new_VersionSet (vs_dbname vs') BytewiseComparator m reuse) env2 = Some (OK, save, r, env3)"
    "\<forall>l < kNumLevels. map meta_new (v_files (vs_current r) ! l) = map meta_new (v_files (vs_current vs') ! l)"
    "vs_log_number r = ve_log_number e'" "vs_prev_log_number r = ve_prev_log_number e'"
    "vs_next_file_number r = ve_next_file_number e' + 1" "vs_last_sequence r = ve_last_sequence e'" by blast
  have n: "vs_log_number r = vs_log_number vs'" "vs_prev_log_number r = vs_prev_log_number vs'"
    "vs_last_sequence r = vs_last_sequence vs'" "vs_next_file_number r = vs_next_file_number vs' + 1"
    using r a(4-7) c(10,11) by simp_all
  show "\<exists>save r env3. Recover fuel (new_VersionSet (vs_dbname vs') BytewiseComparator m reuse) env2 = Some (OK, save, r, env3) \<and>
      (\<forall>l < kNumLevels. map meta_new (v_files (vs_current r) ! l) = map meta_new (v_files (vs_current vs') ! l)) \<and>
      vs_log_number r = vs_log_number vs' \<and> vs_prev_log_number r = vs_prev_log_number vs' \<and>
      vs_last_sequence r = vs_last_sequence vs' \<and> vs_next_file_number r = vs_next_file_number vs' + 1"
    using r(1,2) n by blast
next
  assume "s \<noteq> OK"
  note f = LogAndApply_failed [OF assms(3) this]
  show "vs' = vs\<lparr>vs_descriptor := vs_descriptor vs', vs_compact_pointer := apply_pointers e' (vs_compact_pointer vs)\<rparr>" by (rule f(1))
  assume "vs_descriptor vs = None"
  then show "vs_descriptor vs' = None" "pe_files env' (CurrentFileName (vs_dbname vs)) = pe_files env (CurrentFileName (vs_dbname vs))"
    using f(2) by blast+
next
  assume c: "calm_env env \<and> (\<forall>w. vs_descriptor vs = Some w \<longrightarrow> calm (lw_dest w))"
  have "fst (LogAndApply e vs env) = OK" by (rule calm_LogAndApply) (use c in blast)+
  then show "s = OK" using assms(3) by simp
qed

definition demo_edit :: version_edit where
  "demo_edit = ve_AddFile 1 5 100 [1] [2] new_VersionEdit"

theorem manifest_recovers_witness:
  "\<exists>s e vs env. LogAndApply demo_edit (new_VersionSet [1] BytewiseComparator 100 False) example_env = (s, e, vs, env) \<and> s = OK \<and>
     (\<exists>fuel save r env3. Recover fuel (new_VersionSet [1] BytewiseComparator 100 False)
          \<lparr>pe_files = pe_files env, pe_answers = [], pe_fd_answers = [], pe_dir_answers = []\<rparr> = Some (OK, save, r, env3) \<and>
        (\<forall>l < kNumLevels. map meta_new (v_files (vs_current r) ! l) = map meta_new (v_files (vs_current vs) ! l)))"
proof -
  let ?vs = "new_VersionSet [1] BytewiseComparator 100 False"
  obtain s e vs env where la: "LogAndApply demo_edit ?vs example_env = (s, e, vs, env)" by (metis prod_cases4)
  let ?used = "\<lambda>l. fm_number ` set (v_files (vs_current ?vs) ! l)"
  have files: "v_files (vs_current ?vs) ! l = []" if "l < kNumLevels" for l
    using that by (simp add: new_VersionSet_def new_Version_def)
  have run: "manifest_run BytewiseComparator ?used ?vs example_env"
  proof (rule run_start)
    have "bytewise_user.version_sorted (v_files (vs_current ?vs))"
      unfolding bytewise_user.version_sorted_def using files
      by (simp add: bytewise_user.key_sorted_def new_VersionSet_def new_Version_def)
    then show "bytewise_user.version_sorted (v_files (vs_current ?vs))" .
    show "levels_apart BytewiseComparator (v_files (vs_current ?vs))" using files by (simp add: levels_apart_def)
  qed (simp_all add: new_VersionSet_def)
  have fits: "edit_fits BytewiseComparator ?used demo_edit ?vs"
    unfolding edit_fits_def
  proof (intro conjI impI)
    show "edit_ok demo_edit" by (simp add: demo_edit_def ve_AddFile_def new_VersionEdit_def ve_Clear_def edit_ok_def file_ok_def ikey_ok_def
        new_FileMetaData_def kNumLevels_def)
    show "fresh_files ?used (ve_new_files demo_edit)" using files [of 1]
      by (simp add: demo_edit_def ve_AddFile_def new_VersionEdit_def ve_Clear_def kNumLevels_def)
    show "ve_comparator demo_edit = cmp_Name BytewiseComparator" if "ve_has_comparator demo_edit"
      using that by (simp add: demo_edit_def ve_AddFile_def new_VersionEdit_def ve_Clear_def)
    have "length (v_files (builder_SaveTo BytewiseComparator (builder_Apply BytewiseComparator demo_edit (new_Builder (vs_current ?vs)))) ! l) \<le> 1"
      if "l < kNumLevels" for l
      using files [OF that] that by (simp add: builder_SaveTo_def builder_Apply_def demo_edit_def ve_AddFile_def new_VersionEdit_def ve_Clear_def
          builder_add_def builder_delete_def new_Builder_def nth_list_update Let_def MaybeAddFile_def kNumLevels_def)
    then show "levels_apart BytewiseComparator (v_files (builder_SaveTo BytewiseComparator (builder_Apply BytewiseComparator demo_edit (new_Builder (vs_current ?vs)))))"
      unfolding levels_apart_def by (intro allI impI sorted_wrt01)
    show "vs_log_number ?vs \<le> ve_log_number demo_edit" "ve_log_number demo_edit < vs_next_file_number ?vs" if "ve_has_log_number demo_edit"
      using that by (simp_all add: demo_edit_def ve_AddFile_def new_VersionEdit_def ve_Clear_def)
    show "snapshot_ok (?vs\<lparr>vs_compact_pointer := apply_pointers (complete_edit demo_edit ?vs) (vs_compact_pointer ?vs)\<rparr>)"
      using files unfolding snapshot_ok_def
      by (simp add: complete_edit_def SetLogNumber_def SetPrevLogNumber_def SetNextFile_def SetLastSequence_def apply_pointers_def
          demo_edit_def ve_AddFile_def new_VersionEdit_def ve_Clear_def new_VersionSet_def BytewiseComparator_def bytes_of_def)
  qed
  have "fst (LogAndApply demo_edit ?vs example_env) = OK"
    by (rule calm_LogAndApply) (simp_all add: calm_env_def reliable_env_def example_env_def steady_def new_VersionSet_def)
  then have s: "s = OK" using la by simp
  have user: "vs_dbname vs = [1]" using bytewise_user.run_inv_apply(8) [OF bytewise_user.run_inv_run [OF run] fits la [unfolded s]]
    by (simp add: new_VersionSet_def)
  let ?calm = "\<lparr>pe_files = pe_files env, pe_answers = [], pe_fd_answers = [], pe_dir_answers = []\<rparr>"
  let ?n = "Suc (length (the (pe_files env (DescriptorFileName (vs_dbname vs) (vs_manifest_file_number vs)))))"
  have "reliable_env ?calm" by (simp add: reliable_env_def)
  then have "\<exists>save r env3. Recover ?n (new_VersionSet [1] BytewiseComparator 100 False) ?calm = Some (OK, save, r, env3) \<and>
      (\<forall>l < kNumLevels. map meta_new (v_files (vs_current r) ! l) = map meta_new (v_files (vs_current vs) ! l))"
    using manifest_recovers [OF run fits la, of ?calm ?n 100 False] s user by auto
  then show ?thesis using la s by auto
qed

end
