(* ===== verification/Cache.thy ===== *)
theory Cache
  imports FilterPolicy "HOL-Library.Multiset"
begin

text \<open>
  The LRU cache of \<^verbatim>\<open>util/cache.cc\<close>: entries in a store, the hash table that finds them, the two circular lists
  that order them, and reference counts shared with the clients. An entry is named by a number that stands for
  its address; the calls of deleters are recorded in order.
\<close>

section \<open>State\<close>

record 'v lru_handle =
  h_value :: 'v
  h_key :: bytes
  h_charge :: u64
  h_in_cache :: bool
  h_refs :: u32
  h_hash :: u32

type_synonym 'v handle_store = "nat \<Rightarrow> 'v lru_handle option"

text \<open>The buckets are the chains of \<^verbatim>\<open>next_hash\<close> pointers.\<close>

record handle_table =
  ht_length :: u32
  ht_elems :: u32
  ht_list :: "nat list list"

text \<open>The nodes of the circular lists: their two heads, and entries.\<close>

datatype node = LruHead | InUseHead | Entry nat

record 'v lru_cache =
  lc_capacity :: u64
  lc_usage :: u64
  lc_next :: "node \<Rightarrow> node"
  lc_prev :: "node \<Rightarrow> node"
  lc_table :: handle_table
  lc_store :: "'v handle_store"
  lc_fresh :: nat
  lc_deleted :: "(bytes \<times> 'v) list"

abbreviation handle_of :: "'v lru_cache \<Rightarrow> nat \<Rightarrow> 'v lru_handle" where
  "handle_of c e \<equiv> the (lc_store c e)"

section \<open>The hash table\<close>

definition bucket_of :: "u32 \<Rightarrow> u32 \<Rightarrow> nat" where
  "bucket_of len hash = unat (hash AND (len - 1))"

text \<open>The slot of a key: its bucket, and its place there, the end of the chain when the key is not there.\<close>

definition FindPointer :: "'v handle_store \<Rightarrow> bytes \<Rightarrow> u32 \<Rightarrow> handle_table \<Rightarrow> nat \<times> nat" where
  "FindPointer store key hash t =
     (let b = bucket_of (ht_length t) hash
      in (b, length (takeWhile (\<lambda>e. h_hash (the (store e)) \<noteq> hash \<or> key \<noteq> h_key (the (store e))) (ht_list t ! b))))"

definition slot :: "handle_table \<Rightarrow> nat \<times> nat \<Rightarrow> nat option" where
  "slot t p = (let (b, i) = p in if i < length (ht_list t ! b) then Some (ht_list t ! b ! i) else None)"

definition ht_Lookup :: "'v handle_store \<Rightarrow> bytes \<Rightarrow> u32 \<Rightarrow> handle_table \<Rightarrow> nat option" where
  "ht_Lookup store key hash t = slot t (FindPointer store key hash t)"

text \<open>The doubling of the length wraps around to zero, and then never ends.\<close>

partial_function (option) new_table_length :: "u32 \<Rightarrow> u32 \<Rightarrow> u32 option" where
  [code]: "new_table_length elems new_length =
     (if new_length < elems then new_table_length elems (new_length * 2) else Some new_length)"

definition rehash :: "'v handle_store \<Rightarrow> u32 \<Rightarrow> nat \<Rightarrow> nat list list \<Rightarrow> nat list list" where
  "rehash store new_length e new_list =
     (let b = bucket_of new_length (h_hash (the (store e))) in new_list[b := e # new_list ! b])"

definition Resize :: "'v handle_store \<Rightarrow> handle_table \<Rightarrow> handle_table option" where
  "Resize store t =
     (case new_table_length (ht_elems t) 4 of
        None \<Rightarrow> None
      | Some new_length \<Rightarrow>
          Some (t\<lparr>ht_length := new_length,
                  ht_list := fold (fold (rehash store new_length)) (ht_list t) (replicate (unat new_length) [])\<rparr>))"

definition new_HandleTable :: handle_table where
  "new_HandleTable = the (Resize (\<lambda>_. None :: unit lru_handle option) \<lparr>ht_length = 0, ht_elems = 0, ht_list = []\<rparr>)"

definition ht_Insert :: "'v handle_store \<Rightarrow> nat \<Rightarrow> handle_table \<Rightarrow> (nat option \<times> handle_table) option" where
  "ht_Insert store e t =
     (let (b, i) = FindPointer store (h_key (the (store e))) (h_hash (the (store e))) t;
          old = slot t (b, i);
          chain = ht_list t ! b;
          t = t\<lparr>ht_list := (ht_list t)[b := take i chain @ e # drop (i + 1) chain]\<rparr>
      in case old of
           Some x \<Rightarrow> Some (old, t)
         | None \<Rightarrow>
             let t = t\<lparr>ht_elems := ht_elems t + 1\<rparr>
             in if ht_elems t > ht_length t then map_option (Pair old) (Resize store t) else Some (old, t))"

definition ht_Remove :: "'v handle_store \<Rightarrow> bytes \<Rightarrow> u32 \<Rightarrow> handle_table \<Rightarrow> nat option \<times> handle_table" where
  "ht_Remove store key hash t =
     (let (b, i) = FindPointer store key hash t;
          chain = ht_list t ! b
      in case slot t (b, i) of
           None \<Rightarrow> (None, t)
         | Some x \<Rightarrow> (Some x, t\<lparr>ht_list := (ht_list t)[b := take i chain @ drop (i + 1) chain], ht_elems := ht_elems t - 1\<rparr>))"

section \<open>The lists\<close>

definition LRU_Remove :: "nat \<Rightarrow> 'v lru_cache \<Rightarrow> 'v lru_cache" where
  "LRU_Remove e c =
     (let c = c\<lparr>lc_prev := (lc_prev c)(lc_next c (Entry e) := lc_prev c (Entry e))\<rparr>
      in c\<lparr>lc_next := (lc_next c)(lc_prev c (Entry e) := lc_next c (Entry e))\<rparr>)"

definition LRU_Append :: "node \<Rightarrow> nat \<Rightarrow> 'v lru_cache \<Rightarrow> 'v lru_cache" where
  "LRU_Append lst e c =
     (let c = c\<lparr>lc_next := (lc_next c)(Entry e := lst)\<rparr>;
          c = c\<lparr>lc_prev := (lc_prev c)(Entry e := lc_prev c lst)\<rparr>;
          c = c\<lparr>lc_next := (lc_next c)(lc_prev c (Entry e) := Entry e)\<rparr>
      in c\<lparr>lc_prev := (lc_prev c)(lc_next c (Entry e) := Entry e)\<rparr>)"

definition update_handle :: "nat \<Rightarrow> ('v lru_handle \<Rightarrow> 'v lru_handle) \<Rightarrow> 'v lru_cache \<Rightarrow> 'v lru_cache" where
  "update_handle e f c = c\<lparr>lc_store := (lc_store c)(e \<mapsto> f (handle_of c e))\<rparr>"

definition cache_Ref :: "nat \<Rightarrow> 'v lru_cache \<Rightarrow> 'v lru_cache" where
  "cache_Ref e c =
     (let c = (if h_refs (handle_of c e) = 1 \<and> h_in_cache (handle_of c e) then LRU_Append InUseHead e (LRU_Remove e c) else c)
      in update_handle e (\<lambda>h. h\<lparr>h_refs := h_refs h + 1\<rparr>) c)"

text \<open>The last reference calls the deleter and frees the entry.\<close>

definition cache_Unref :: "nat \<Rightarrow> 'v lru_cache \<Rightarrow> 'v lru_cache" where
  "cache_Unref e c =
     (let c = update_handle e (\<lambda>h. h\<lparr>h_refs := h_refs h - 1\<rparr>) c;
          h = handle_of c e
      in if h_refs h = 0 then c\<lparr>lc_deleted := lc_deleted c @ [(h_key h, h_value h)], lc_store := (lc_store c)(e := None)\<rparr>
         else if h_in_cache h \<and> h_refs h = 1 then LRU_Append LruHead e (LRU_Remove e c)
         else c)"

definition FinishErase :: "nat option \<Rightarrow> 'v lru_cache \<Rightarrow> 'v lru_cache" where
  "FinishErase e c =
     (case e of
        None \<Rightarrow> c
      | Some e \<Rightarrow>
          let c = LRU_Remove e c;
              c = update_handle e (\<lambda>h. h\<lparr>h_in_cache := False\<rparr>) c;
              c = c\<lparr>lc_usage := lc_usage c - h_charge (handle_of c e)\<rparr>
          in cache_Unref e c)"

section \<open>One shard\<close>

definition new_LRUCache :: "u64 \<Rightarrow> 'v lru_cache" where
  "new_LRUCache capacity =
     \<lparr>lc_capacity = capacity, lc_usage = 0, lc_next = (\<lambda>n. n), lc_prev = (\<lambda>n. n), lc_table = new_HandleTable,
      lc_store = (\<lambda>_. None), lc_fresh = 0, lc_deleted = []\<rparr>"

definition cache_Lookup :: "bytes \<Rightarrow> u32 \<Rightarrow> 'v lru_cache \<Rightarrow> nat option \<times> 'v lru_cache" where
  "cache_Lookup key hash c =
     (case ht_Lookup (lc_store c) key hash (lc_table c) of
        None \<Rightarrow> (None, c)
      | Some e \<Rightarrow> (Some e, cache_Ref e c))"

definition cache_Release :: "nat \<Rightarrow> 'v lru_cache \<Rightarrow> 'v lru_cache" where
  "cache_Release = cache_Unref"

text \<open>Taking an entry out of the table and dropping the cache's reference.\<close>

definition erase_entry :: "bytes \<Rightarrow> u32 \<Rightarrow> 'v lru_cache \<Rightarrow> 'v lru_cache" where
  "erase_entry key hash c =
     (let (e, t) = ht_Remove (lc_store c) key hash (lc_table c) in FinishErase e (c\<lparr>lc_table := t\<rparr>))"

definition cache_Erase :: "bytes \<Rightarrow> u32 \<Rightarrow> 'v lru_cache \<Rightarrow> 'v lru_cache" where
  "cache_Erase = erase_entry"

text \<open>Erasing the oldest entry no client uses; the second loop runs until there is none.\<close>

definition erase_oldest :: "'v lru_cache \<Rightarrow> 'v lru_cache" where
  "erase_oldest c =
     (case lc_next c LruHead of
        Entry old \<Rightarrow> erase_entry (h_key (handle_of c old)) (h_hash (handle_of c old)) c
      | _ \<Rightarrow> c)"

partial_function (option) evict_loop :: "'v lru_cache \<Rightarrow> 'v lru_cache option" where
  [code]: "evict_loop c =
     (if lc_usage c > lc_capacity c \<and> lc_next c LruHead \<noteq> LruHead then evict_loop (erase_oldest c) else Some c)"

partial_function (option) cache_Prune :: "'v lru_cache \<Rightarrow> 'v lru_cache option" where
  [code]: "cache_Prune c = (if lc_next c LruHead \<noteq> LruHead then cache_Prune (erase_oldest c) else Some c)"

definition cache_Insert :: "bytes \<Rightarrow> u32 \<Rightarrow> 'v \<Rightarrow> u64 \<Rightarrow> 'v lru_cache \<Rightarrow> (nat \<times> 'v lru_cache) option" where
  "cache_Insert key hash v charge c =
     (let e = lc_fresh c;
          h = \<lparr>h_value = v, h_key = key, h_charge = charge, h_in_cache = False, h_refs = 1, h_hash = hash\<rparr>;
          c = c\<lparr>lc_store := (lc_store c)(e \<mapsto> h), lc_fresh := e + 1\<rparr>;
          inserted =
            (if lc_capacity c > 0 then
               let c = update_handle e (\<lambda>h. h\<lparr>h_refs := h_refs h + 1, h_in_cache := True\<rparr>) c;
                   c = LRU_Append InUseHead e c;
                   c = c\<lparr>lc_usage := lc_usage c + charge\<rparr>
               in (case ht_Insert (lc_store c) e (lc_table c) of
                     None \<Rightarrow> None
                   | Some (old, t) \<Rightarrow> Some (FinishErase old (c\<lparr>lc_table := t\<rparr>)))
             else Some c)
      in case inserted of
           None \<Rightarrow> None
         | Some c \<Rightarrow> (case evict_loop c of None \<Rightarrow> None | Some c \<Rightarrow> Some (e, c)))"

text \<open>The destructor walks the list of unused entries; their links stay as they are.\<close>

partial_function (option) destroy_loop :: "node \<Rightarrow> 'v lru_cache \<Rightarrow> 'v lru_cache option" where
  [code]: "destroy_loop n c =
     (case n of
        Entry e \<Rightarrow> destroy_loop (lc_next c n) (cache_Unref e (update_handle e (\<lambda>h. h\<lparr>h_in_cache := False\<rparr>) c))
      | _ \<Rightarrow> Some c)"

definition destroy_LRUCache :: "'v lru_cache \<Rightarrow> 'v lru_cache option" where
  "destroy_LRUCache c = destroy_loop (lc_next c LruHead) c"

section \<open>Shards\<close>

definition kNumShardBits :: nat where "kNumShardBits = 4"
definition kNumShards :: nat where "kNumShards = 2 ^ kNumShardBits"

definition HashSlice :: "bytes \<Rightarrow> u32" where "HashSlice s = Hash s 0"

definition Shard :: "u32 \<Rightarrow> nat" where "Shard hash = unat (drop_bit (32 - kNumShardBits) hash)"

record 'v sharded_cache =
  sc_shards :: "'v lru_cache list"
  sc_last_id :: u64

definition NewLRUCache :: "u64 \<Rightarrow> 'v sharded_cache" where
  "NewLRUCache capacity =
     (let per_shard = (capacity + (word_of_nat kNumShards - 1)) div word_of_nat kNumShards
      in \<lparr>sc_shards = replicate kNumShards (new_LRUCache per_shard), sc_last_id = 0\<rparr>)"

text \<open>A handle is an entry of a shard; the hash it stores leads back to that shard.\<close>

type_synonym handle = "nat \<times> nat"

definition sc_Insert :: "bytes \<Rightarrow> 'v \<Rightarrow> u64 \<Rightarrow> 'v sharded_cache \<Rightarrow> (handle \<times> 'v sharded_cache) option" where
  "sc_Insert key v charge sc =
     (let hash = HashSlice key; s = Shard hash
      in map_option (\<lambda>(e, c). ((s, e), sc\<lparr>sc_shards := (sc_shards sc)[s := c]\<rparr>)) (cache_Insert key hash v charge (sc_shards sc ! s)))"

definition sc_Lookup :: "bytes \<Rightarrow> 'v sharded_cache \<Rightarrow> handle option \<times> 'v sharded_cache" where
  "sc_Lookup key sc =
     (let hash = HashSlice key; s = Shard hash; (e, c) = cache_Lookup key hash (sc_shards sc ! s)
      in (map_option (Pair s) e, sc\<lparr>sc_shards := (sc_shards sc)[s := c]\<rparr>))"

definition sc_Value :: "handle \<Rightarrow> 'v sharded_cache \<Rightarrow> 'v" where
  "sc_Value h sc = h_value (handle_of (sc_shards sc ! fst h) (snd h))"

definition sc_Release :: "handle \<Rightarrow> 'v sharded_cache \<Rightarrow> 'v sharded_cache" where
  "sc_Release h sc =
     (let s = Shard (h_hash (handle_of (sc_shards sc ! fst h) (snd h)))
      in sc\<lparr>sc_shards := (sc_shards sc)[s := cache_Release (snd h) (sc_shards sc ! s)]\<rparr>)"

definition sc_Erase :: "bytes \<Rightarrow> 'v sharded_cache \<Rightarrow> 'v sharded_cache" where
  "sc_Erase key sc =
     (let hash = HashSlice key; s = Shard hash in sc\<lparr>sc_shards := (sc_shards sc)[s := cache_Erase key hash (sc_shards sc ! s)]\<rparr>)"

definition sc_NewId :: "'v sharded_cache \<Rightarrow> u64 \<times> 'v sharded_cache" where
  "sc_NewId sc = (sc_last_id sc + 1, sc\<lparr>sc_last_id := sc_last_id sc + 1\<rparr>)"

fun prune_shards :: "'v lru_cache list \<Rightarrow> 'v lru_cache list option" where
  "prune_shards [] = Some []"
| "prune_shards (c # cs) =
     (case cache_Prune c of None \<Rightarrow> None | Some c \<Rightarrow> map_option ((#) c) (prune_shards cs))"

definition sc_Prune :: "'v sharded_cache \<Rightarrow> 'v sharded_cache option" where
  "sc_Prune sc = map_option (\<lambda>cs. sc\<lparr>sc_shards := cs\<rparr>) (prune_shards (sc_shards sc))"

definition sc_TotalCharge :: "'v sharded_cache \<Rightarrow> u64" where
  "sc_TotalCharge sc = sum_list (map lc_usage (sc_shards sc))"

section \<open>The lists\<close>

fun links :: "(node \<Rightarrow> node) \<Rightarrow> (node \<Rightarrow> node) \<Rightarrow> node \<Rightarrow> nat list \<Rightarrow> node \<Rightarrow> bool" where
  "links n p a [] b \<longleftrightarrow> n a = b \<and> p b = a"
| "links n p a (e # es) b \<longleftrightarrow> n a = Entry e \<and> p (Entry e) = a \<and> links n p (Entry e) es b"

lemma links_frame:
  assumes "links n p a es b" and "\<forall>x \<in> insert a (Entry ` set es). n' x = n x" and "\<forall>x \<in> insert b (Entry ` set es). p' x = p x"
  shows "links n' p' a es b"
  using assms by (induction es arbitrary: a) auto

lemma links_ends:
  assumes "links n p a es b"
  shows "p b \<in> insert a (Entry ` set es)" and "n a \<in> insert b (Entry ` set es)"
  using assms by (induction es arbitrary: a) auto

lemma links_split: "links n p a (xs @ e # ys) b \<longleftrightarrow> links n p a xs (Entry e) \<and> links n p (Entry e) ys b"
  by (induction xs arbitrary: a) auto

lemma links_remove:
  assumes "links n p a (xs @ e # ys) b" and "distinct (xs @ e # ys)" and "a \<notin> Entry ` set (xs @ e # ys)" and "b \<notin> Entry ` set (xs @ e # ys)"
  shows "links (n(p (Entry e) := n (Entry e))) (p(n (Entry e) := p (Entry e))) a (xs @ ys) b"
  using assms
proof (induction xs arbitrary: a)
  case Nil
  show ?case
  proof (cases ys)
    case (Cons y zs)
    have f: "n a = Entry e" "p (Entry e) = a" "n (Entry e) = Entry y" "links n p (Entry y) zs b" using Nil Cons by simp_all
    have "links (n(a := Entry y)) (p(Entry y := a)) (Entry y) zs b"
      by (rule links_frame [OF f(4)]) (use Nil.prems(2-4) Cons f(1,2) in \<open>auto simp: image_iff\<close>)
    then show ?thesis using f Cons by (simp del: fun_upd_apply add: fun_upd_same)
  qed (use Nil in simp)
next
  case (Cons x xs)
  have f: "n a = Entry x" "p (Entry x) = a" "links n p (Entry x) (xs @ e # ys) b" using Cons.prems(1) by simp_all
  then have l: "links n p (Entry x) xs (Entry e)" "links n p (Entry e) ys b" by (simp_all add: links_split)
  have "a \<noteq> p (Entry e)" using links_ends(1) [OF l(1)] Cons.prems(3) by auto
  moreover have "Entry x \<noteq> n (Entry e)" using links_ends(2) [OF l(2)] Cons.prems(2,4) by auto
  moreover have "links (n(p (Entry e) := n (Entry e))) (p(n (Entry e) := p (Entry e))) (Entry x) (xs @ ys) b"
    by (rule Cons.IH [OF f(3)]) (use Cons.prems in auto)
  ultimately show ?case using f by (simp del: fun_upd_apply add: fun_upd_other)
qed

lemma links_append:
  assumes "links n p a xs b" and "e \<notin> set xs" and "distinct xs" and "a \<notin> Entry ` set (e # xs)" and "b \<notin> Entry ` set (e # xs)"
  shows "links (n(Entry e := b, p b := Entry e)) (p(Entry e := p b, b := Entry e)) a (xs @ [e]) b"
  using assms
proof (induction xs arbitrary: a)
  case (Cons x xs)
  have f: "n a = Entry x" "p (Entry x) = a" "links n p (Entry x) xs b" using Cons.prems(1) by simp_all
  have "a \<noteq> p b" using links_ends(1) [OF f(3)] Cons.prems(4) by auto
  moreover have "links (n(Entry e := b, p b := Entry e)) (p(Entry e := p b, b := Entry e)) (Entry x) (xs @ [e]) b"
    by (rule Cons.IH [OF f(3)]) (use Cons.prems in auto)
  moreover have "a \<noteq> Entry e" "e \<noteq> x" "Entry x \<noteq> b" using Cons.prems by auto
  ultimately show ?case using f by (simp del: fun_upd_apply) (simp add: fun_upd_other)
qed auto

definition lists_ok :: "'v lru_cache \<Rightarrow> nat list \<Rightarrow> nat list \<Rightarrow> bool" where
  "lists_ok c unused used \<longleftrightarrow>
     links (lc_next c) (lc_prev c) LruHead unused LruHead \<and> links (lc_next c) (lc_prev c) InUseHead used InUseHead \<and>
     distinct (unused @ used)"

lemma LRU_Remove_fields:
  assumes "lc_next c (Entry e) \<noteq> Entry e"
  shows "LRU_Remove e c = c\<lparr>lc_next := (lc_next c)(lc_prev c (Entry e) := lc_next c (Entry e)),
    lc_prev := (lc_prev c)(lc_next c (Entry e) := lc_prev c (Entry e))\<rparr>"
  using assms by (simp add: LRU_Remove_def)

lemma lists_ok_self: "lists_ok c unused used \<Longrightarrow> e \<in> set (unused @ used) \<Longrightarrow> lc_next c (Entry e) \<noteq> Entry e"
proof -
  assume l: "lists_ok c unused used" and e: "e \<in> set (unused @ used)"
  have one: "lc_next c (Entry e) \<noteq> Entry e"
    if "links (lc_next c) (lc_prev c) h es h" "e \<in> set es" "distinct es" "h \<notin> range Entry" for h es
  proof -
    obtain xs ys where "es = xs @ e # ys" using \<open>e \<in> set es\<close> split_list by metis
    then show ?thesis using that links_ends(2) [of "lc_next c" "lc_prev c" "Entry e" ys h] by (auto simp: links_split)
  qed
  show ?thesis using l e one [of LruHead unused] one [of InUseHead used] by (auto simp: lists_ok_def)
qed

lemma fields:
  "lc_next (c\<lparr>lc_next := n, lc_prev := p\<rparr>) = n" "lc_prev (c\<lparr>lc_next := n, lc_prev := p\<rparr>) = p"
  by simp_all

lemma upd_outside: "y \<notin> A \<Longrightarrow> \<forall>x\<in>A. (g(y := z)) x = g x"
  by auto

lemma upd2_outside: "y \<notin> A \<Longrightarrow> y' \<notin> A \<Longrightarrow> \<forall>x\<in>A. (g(y := z, y' := z')) x = g x"
  by auto

lemma LRU_Remove_links:
  assumes "links (lc_next c) (lc_prev c) h es h" and "links (lc_next c) (lc_prev c) h' es' h'" and "e \<in> set es"
    and "distinct (es @ es')" and "h \<noteq> h'" and "h \<notin> range Entry" and "h' \<notin> range Entry"
  shows "links (lc_next (LRU_Remove e c)) (lc_prev (LRU_Remove e c)) h (remove1 e es) h"
    and "links (lc_next (LRU_Remove e c)) (lc_prev (LRU_Remove e c)) h' es' h'"
proof -
  obtain xs ys where es: "es = xs @ e # ys" using assms(3) split_list by metis
  have l: "links (lc_next c) (lc_prev c) h xs (Entry e)" "links (lc_next c) (lc_prev c) (Entry e) ys h"
    using assms(1) by (simp_all add: es links_split)
  note n = links_ends(2) [OF l(2)]
  note p = links_ends(1) [OF l(1)]
  have "lc_next c (Entry e) \<noteq> Entry e" using n assms(4,6) by (auto simp: es)
  note f = LRU_Remove_fields [OF this]
  have d: "distinct (xs @ e # ys)" using assms(4) unfolding es distinct_append by blast
  then have "e \<notin> set xs" by simp
  then have "remove1 e es = xs @ ys" by (simp add: es remove1_append)
  moreover have "links (lc_next (LRU_Remove e c)) (lc_prev (LRU_Remove e c)) h (xs @ ys) h"
    using links_remove [OF assms(1) [unfolded es] d] assms(6) unfolding f by (auto simp: image_iff)
  ultimately show "links (lc_next (LRU_Remove e c)) (lc_prev (LRU_Remove e c)) h (remove1 e es) h" by simp
  show "links (lc_next (LRU_Remove e c)) (lc_prev (LRU_Remove e c)) h' es' h'"
  proof (rule links_frame [OF assms(2)])
    have h: "Entry x \<noteq> h" "h \<noteq> Entry x" "Entry x \<noteq> h'" "h' \<noteq> Entry x" for x using assms(6,7) by auto
    have d': "e \<notin> set es'" "set xs \<inter> set es' = {}" "set ys \<inter> set es' = {}" using assms(4) by (auto simp: es)
    have "lc_prev c (Entry e) \<notin> insert h' (Entry ` set es')" using p d' assms(5) by (auto simp: h)
    then show "\<forall>x\<in>insert h' (Entry ` set es'). lc_next (LRU_Remove e c) x = lc_next c x" by (simp only: f fields) (rule upd_outside)
    have "lc_next c (Entry e) \<notin> insert h' (Entry ` set es')" using n d' assms(5) by (auto simp: h)
    then show "\<forall>x\<in>insert h' (Entry ` set es'). lc_prev (LRU_Remove e c) x = lc_prev c x" by (simp only: f fields) (rule upd_outside)
  qed
qed

lemma LRU_Remove_lists:
  assumes "lists_ok c unused used" and "e \<in> set (unused @ used)"
  shows "lists_ok (LRU_Remove e c) (remove1 e unused) (remove1 e used)"
proof -
  have l: "links (lc_next c) (lc_prev c) LruHead unused LruHead" "links (lc_next c) (lc_prev c) InUseHead used InUseHead"
    "distinct (unused @ used)" using assms(1) by (simp_all add: lists_ok_def)
  have h: "LruHead \<noteq> InUseHead" "LruHead \<notin> range Entry" "InUseHead \<notin> range Entry" by auto
  show ?thesis
  proof (cases "e \<in> set unused")
    case True
    then have "e \<notin> set used" using l(3) by auto
    then have "remove1 e used = used" by (rule remove1_idem)
    then show ?thesis using LRU_Remove_links [OF l(1,2) True l(3) h] l(3)
      by (auto simp: lists_ok_def dest: in_set_remove1)
  next
    case False
    then have e: "e \<in> set used" "remove1 e unused = unused" using assms(2) by (auto simp: remove1_idem)
    have d: "distinct (used @ unused)" using l(3) by auto
    show ?thesis using LRU_Remove_links [OF l(2,1) e(1) d h(1) [symmetric] h(3,2)] l(3) e(2)
      by (auto simp: lists_ok_def dest: in_set_remove1)
  qed
qed

lemma LRU_Append_links:
  assumes "links (lc_next c) (lc_prev c) h es h" and "links (lc_next c) (lc_prev c) h' es' h'" and "e \<notin> set (es @ es')"
    and "distinct (es @ es')" and "h \<noteq> h'" and "h \<notin> range Entry" and "h' \<notin> range Entry"
  shows "links (lc_next (LRU_Append h e c)) (lc_prev (LRU_Append h e c)) h (es @ [e]) h"
    and "links (lc_next (LRU_Append h e c)) (lc_prev (LRU_Append h e c)) h' es' h'"
proof -
  note p = links_ends(1) [OF assms(1)]
  have "lc_prev c h \<noteq> Entry e" using p assms(3,6) by auto
  then have f: "LRU_Append h e c = c\<lparr>lc_next := (lc_next c)(Entry e := h, lc_prev c h := Entry e),
      lc_prev := (lc_prev c)(Entry e := lc_prev c h, h := Entry e)\<rparr>"
    using assms(6) by (simp add: LRU_Append_def image_iff)
  show "links (lc_next (LRU_Append h e c)) (lc_prev (LRU_Append h e c)) h (es @ [e]) h"
    using links_append [OF assms(1), of e] assms(3,4,6) unfolding f by (auto simp: image_iff)
  show "links (lc_next (LRU_Append h e c)) (lc_prev (LRU_Append h e c)) h' es' h'"
  proof (rule links_frame [OF assms(2)])
    have h: "Entry x \<noteq> h" "h \<noteq> Entry x" "Entry x \<noteq> h'" "h' \<noteq> Entry x" for x using assms(6,7) by auto
    have "Entry e \<notin> insert h' (Entry ` set es')" "lc_prev c h \<notin> insert h' (Entry ` set es')" using p assms(3-5) by (auto simp: h)
    then show "\<forall>x\<in>insert h' (Entry ` set es'). lc_next (LRU_Append h e c) x = lc_next c x" by (simp only: f fields) (rule upd2_outside)
    have "Entry e \<notin> insert h' (Entry ` set es')" "h \<notin> insert h' (Entry ` set es')" using assms(3,5) by (auto simp: h)
    then show "\<forall>x\<in>insert h' (Entry ` set es'). lc_prev (LRU_Append h e c) x = lc_prev c x" by (simp only: f fields) (rule upd2_outside)
  qed
qed

section \<open>The table holds the entries of the cache\<close>

abbreviation hash_in :: "'v handle_store \<Rightarrow> nat \<Rightarrow> u32" where "hash_in store e \<equiv> h_hash (the (store e))"
abbreviation key_in :: "'v handle_store \<Rightarrow> nat \<Rightarrow> bytes" where "key_in store e \<equiv> h_key (the (store e))"

definition in_buckets :: "'v handle_store \<Rightarrow> u32 \<Rightarrow> nat list list \<Rightarrow> bool" where
  "in_buckets store len xss \<longleftrightarrow> (\<exists>k. 2 \<le> k \<and> k \<le> 31 \<and> len = 2 ^ k) \<and> length xss = unat len \<and>
     (\<forall>b < length xss. \<forall>e \<in> set (xss ! b). bucket_of len (hash_in store e) = b)"

definition ht_ok :: "'v handle_store \<Rightarrow> handle_table \<Rightarrow> nat set \<Rightarrow> bool" where
  "ht_ok store t S \<longleftrightarrow>
     in_buckets store (ht_length t) (ht_list t) \<and> finite S \<and> mset (concat (ht_list t)) = mset_set S \<and>
     inj_on (\<lambda>e. (hash_in store e, key_in store e)) S \<and> unat (ht_elems t) = card S"

lemma bucket_of_less:
  assumes "in_buckets store len xss"
  shows "bucket_of len hash < length xss"
proof -
  obtain k :: nat where k: "k \<le> 31" "len = 2 ^ k" "length xss = unat len" using assms by (auto simp: in_buckets_def)
  have "hash AND (len - 1) \<le> len - 1" by (rule word_and_le1)
  moreover have "len \<noteq> 0" using k(1,2) by simp
  then have "len - 1 < len" using unat_gt_0 [of len] by (simp add: word_less_nat_alt unat_minus_one)
  ultimately have "hash AND (len - 1) < len" by simp
  then show ?thesis using k(3) by (simp add: bucket_of_def word_less_nat_alt)
qed

lemma slot_find: "slot t (b, length (takeWhile (\<lambda>e. \<not> P e) (ht_list t ! b))) = find P (ht_list t ! b)"
proof -
  have "(let i = length (takeWhile (\<lambda>e. \<not> P e) xs) in if i < length xs then Some (xs ! i) else None) = find P xs" for xs
    by (induction xs) (auto simp: Let_def split: if_splits)
  from this [of "ht_list t ! b"] show ?thesis by (simp add: slot_def Let_def)
qed

lemma mset_concat_update: "b < length xss \<Longrightarrow> mset (concat (xss[b := ys])) + mset (xss ! b) = mset (concat xss) + mset ys"
  by (induction xss arbitrary: b) (auto simp: nth_Cons split: nat.splits)

lemma find_in: "find P xs = Some x \<Longrightarrow> x \<in> set xs \<and> P x"
  by (auto simp: find_Some_iff)

lemma find_none: "find P xs = None \<longleftrightarrow> (\<forall>x \<in> set xs. \<not> P x)"
  by (auto simp: find_None_iff)

abbreviation matches :: "'v handle_store \<Rightarrow> bytes \<Rightarrow> u32 \<Rightarrow> nat \<Rightarrow> bool" where
  "matches store key hash e \<equiv> hash_in store e = hash \<and> key_in store e = key"

lemma FindPointer_eq:
  "FindPointer store key hash t =
     (bucket_of (ht_length t) hash, length (takeWhile (\<lambda>e. \<not> matches store key hash e) (ht_list t ! bucket_of (ht_length t) hash)))"
  unfolding FindPointer_def Let_def by (simp add: eq_commute [of key])

lemma ht_ok_set:
  assumes "ht_ok store t S"
  shows "S = (\<Union>xs \<in> set (ht_list t). set xs)"
proof -
  have "finite S" "mset (concat (ht_list t)) = mset_set S" using assms by (simp_all add: ht_ok_def)
  then have "S = set_mset (mset (concat (ht_list t)))" by simp
  also have "\<dots> = (\<Union>xs \<in> set (ht_list t). set xs)" by (simp only: set_mset_mset set_concat)
  finally show ?thesis .
qed

lemma slot_spec:
  assumes "ht_ok store t S"
  shows "slot t (FindPointer store key hash t) = Some e \<longleftrightarrow> e \<in> S \<and> matches store key hash e"
proof -
  let ?b = "bucket_of (ht_length t) hash"
  have ib: "in_buckets store (ht_length t) (ht_list t)" and m: "mset (concat (ht_list t)) = mset_set S" "finite S"
    and inj: "inj_on (\<lambda>e. (hash_in store e, key_in store e)) S" using assms by (simp_all add: ht_ok_def)
  note S = ht_ok_set [OF assms]
  have b: "?b < length (ht_list t)" by (rule bucket_of_less [OF ib])
  have eq: "slot t (FindPointer store key hash t) = find (matches store key hash) (ht_list t ! ?b)"
    unfolding FindPointer_eq by (rule slot_find)
  have here: "x \<in> set (ht_list t ! ?b)" if "x \<in> S" "matches store key hash x" for x
  proof -
    obtain xs where "xs \<in> set (ht_list t)" "x \<in> set xs" using \<open>x \<in> S\<close> S by blast
    then obtain b' where "b' < length (ht_list t)" "x \<in> set (ht_list t ! b')" by (metis in_set_conv_nth)
    then show ?thesis using ib that(2) by (auto simp: in_buckets_def)
  qed
  have inS: "x \<in> S" if "x \<in> set (ht_list t ! ?b)" for x using that b S by auto
  show ?thesis
  proof
    assume "slot t (FindPointer store key hash t) = Some e"
    then have "find (matches store key hash) (ht_list t ! ?b) = Some e" using eq by simp
    from find_in [OF this] show "e \<in> S \<and> matches store key hash e" using inS by blast
  next
    assume e: "e \<in> S \<and> matches store key hash e"
    then have "find (matches store key hash) (ht_list t ! ?b) \<noteq> None" using here [of e] unfolding find_none by blast
    then obtain x where x: "find (matches store key hash) (ht_list t ! ?b) = Some x" by blast
    then have "x \<in> S" "matches store key hash x" using find_in [OF x] inS by blast+
    then have "x = e" using e inj by (auto dest: inj_onD)
    then show "slot t (FindPointer store key hash t) = Some e" using eq x by simp
  qed
qed

lemma ht_Lookup_spec: "ht_ok store t S \<Longrightarrow> ht_Lookup store key hash t = Some e \<longleftrightarrow> e \<in> S \<and> matches store key hash e"
  unfolding ht_Lookup_def by (rule slot_spec)

lemma ht_ok_cong:
  assumes "ht_ok store t S" and "\<And>e. e \<in> S \<Longrightarrow> hash_in store' e = hash_in store e \<and> key_in store' e = key_in store e"
  shows "ht_ok store' t S"
proof -
  have "e \<in> S" if "b < length (ht_list t)" "e \<in> set (ht_list t ! b)" for b e
    using that ht_ok_set [OF assms(1)] by auto
  then have "in_buckets store' (ht_length t) (ht_list t)" using assms by (simp add: ht_ok_def in_buckets_def)
  moreover have "inj_on (\<lambda>e. (hash_in store' e, key_in store' e)) S \<longleftrightarrow> inj_on (\<lambda>e. (hash_in store e, key_in store e)) S"
    using assms(2) by (intro inj_on_cong) simp
  ultimately show ?thesis using assms(1) by (simp add: ht_ok_def)
qed

lemma slot_nth:
  assumes "slot t (b, i) = Some x"
  shows "i < length (ht_list t ! b)" and "ht_list t ! b ! i = x"
  using assms by (auto simp: slot_def split: if_splits)

lemma ht_Remove_spec:
  assumes "ht_ok store t S" and "ht_Remove store key hash t = (r, t')"
  shows "\<And>e. r = Some e \<longleftrightarrow> e \<in> S \<and> matches store key hash e" and "ht_ok store t' (S - set_option r)"
proof -
  obtain b i where bi: "FindPointer store key hash t = (b, i)" by fastforce
  have r: "r = slot t (b, i)" using assms(2) by (auto simp: ht_Remove_def bi Let_def split: option.splits)
  then show spec: "r = Some e \<longleftrightarrow> e \<in> S \<and> matches store key hash e" for e using slot_spec [OF assms(1), of key hash e] bi by simp
  show "ht_ok store t' (S - set_option r)"
  proof (cases r)
    case None
    then show ?thesis using assms r by (simp add: ht_Remove_def bi)
  next
    case (Some x)
    note ok = assms(1) [unfolded ht_ok_def]
    have s: "slot t (b, i) = Some x" using r Some by simp
    have b: "b < length (ht_list t)" using bi bucket_of_less ok by (auto simp: FindPointer_eq)
    let ?chain = "ht_list t ! b"
    have i: "?chain = take i ?chain @ x # drop (i + 1) ?chain" using slot_nth [OF s] id_take_nth_drop by fastforce
    have x: "x \<in> S" using spec Some by blast
    have t': "t' = t\<lparr>ht_list := (ht_list t)[b := take i ?chain @ drop (i + 1) ?chain], ht_elems := ht_elems t - 1\<rparr>"
      using assms(2) s by (simp add: ht_Remove_def bi Let_def)
    have "mset (concat (ht_list t')) + mset ?chain = mset (concat (ht_list t)) + mset (take i ?chain @ drop (i + 1) ?chain)"
      unfolding t' by (simp add: mset_concat_update [OF b] del: mset_append)
    moreover have "mset ?chain = mset (take i ?chain @ drop (i + 1) ?chain) + {#x#}" by (subst i) simp
    ultimately have "add_mset x (mset (concat (ht_list t'))) = mset_set S" using ok by (simp add: ac_simps del: mset_append)
    then have "mset (concat (ht_list t')) = mset_set (S - {x})" 
      using ok x mset_set.remove [of S x] by simp
    moreover have "in_buckets store (ht_length t') (ht_list t')"
      using ok b i unfolding t' in_buckets_def
      by (auto simp: nth_list_update dest: in_set_takeD in_set_dropD)
    moreover have "unat (ht_elems t') = card (S - {x})"
    proof -
      have "card S \<noteq> 0" using x ok by auto
      then have "ht_elems t \<noteq> 0" using ok by auto
      then show ?thesis using ok x by (simp add: t' unat_minus_one)
    qed
    ultimately show ?thesis using ok Some by (auto simp: ht_ok_def intro: inj_on_subset)
  qed
qed

lemma new_table_length_ok:
  assumes "2 \<le> j" and "j \<le> 31" and "unat elems \<le> 2 ^ 31"
  shows "\<exists>k. 2 \<le> k \<and> k \<le> 31 \<and> new_table_length elems (2 ^ j) = Some (2 ^ k)"
  using assms
proof (induction "31 - j" arbitrary: j)
  case 0
  then have "j = 31" by simp
  moreover have "\<not> (2 ^ 31 :: u32) < elems" using assms(3) by (simp add: word_less_nat_alt)
  ultimately show ?case by (subst new_table_length.simps) (intro exI [of _ 31], simp)
next
  case (Suc n)
  show ?case
  proof (cases "(2 ^ j :: u32) < elems")
    case True
    have "\<exists>k. 2 \<le> k \<and> k \<le> 31 \<and> new_table_length elems (2 ^ Suc j) = Some (2 ^ k)"
      by (rule Suc.hyps(1)) (use Suc.hyps(2) Suc.prems in auto)
    moreover have "new_table_length elems (2 ^ j) = new_table_length elems (2 ^ Suc j)"
      by (subst new_table_length.simps) (simp add: True mult.commute)
    ultimately show ?thesis by simp
  next
    case False
    then have "new_table_length elems (2 ^ j) = Some (2 ^ j)" by (subst new_table_length.simps) simp
    then show ?thesis using Suc.prems by blast
  qed
qed

lemma fold_fold: "fold (fold f) xss a = fold f (concat xss) a"
  by (induction xss arbitrary: a) simp_all

lemma rehash_ok:
  assumes "in_buckets store len xss"
  shows "in_buckets store len (fold (rehash store len) es xss) \<and>
    mset (concat (fold (rehash store len) es xss)) = mset es + mset (concat xss)"
  using assms
proof (induction es arbitrary: xss)
  case (Cons e es)
  let ?b = "bucket_of len (hash_in store e)"
  have b: "?b < length xss" by (rule bucket_of_less [OF Cons.prems])
  have ib: "in_buckets store len (rehash store len e xss)"
    using Cons.prems b by (auto simp: rehash_def Let_def in_buckets_def nth_list_update)
  have "mset (concat (rehash store len e xss)) = add_mset e (mset (concat xss))"
    using mset_concat_update [OF b, of "e # xss ! ?b"] by (simp add: rehash_def Let_def)
  then show ?case using Cons.IH [OF ib] by simp
qed simp

lemma concat_replicate_Nil: "concat (replicate n []) = []"
  by (induction n) simp_all

lemma Resize_ok:
  assumes "finite S" and "mset (concat (ht_list t)) = mset_set S" and "inj_on (\<lambda>e. (hash_in store e, key_in store e)) S"
    and "unat (ht_elems t) = card S" and "card S \<le> 2 ^ 31"
  shows "\<exists>t'. Resize store t = Some t' \<and> ht_ok store t' S"
proof -
  obtain k where k: "2 \<le> k" "k \<le> 31" "new_table_length (ht_elems t) (2 ^ 2) = Some (2 ^ k)"
    using new_table_length_ok [of 2 "ht_elems t"] assms(4,5) by auto
  let ?new = "replicate (unat (2 ^ k :: u32)) [] :: nat list list"
  have "in_buckets store (2 ^ k) ?new" using k by (auto simp: in_buckets_def)
  note r = rehash_ok [OF this, of "concat (ht_list t)"]
  show ?thesis using k(3) r assms by (simp add: Resize_def ht_ok_def fold_fold concat_replicate_Nil)
qed

lemma ht_Insert_spec:
  assumes "ht_ok store t S" and "e \<notin> S" and "card S < 2 ^ 31"
  shows "\<exists>old t'. ht_Insert store e t = Some (old, t') \<and> ht_ok store t' (insert e (S - set_option old)) \<and>
    (\<forall>x. old = Some x \<longleftrightarrow> x \<in> S \<and> matches store (key_in store e) (hash_in store e) x)"
proof -
  obtain b i where bi: "FindPointer store (key_in store e) (hash_in store e) t = (b, i)" by fastforce
  let ?chain = "ht_list t ! b"
  let ?t = "t\<lparr>ht_list := (ht_list t)[b := take i ?chain @ e # drop (i + 1) ?chain]\<rparr>"
  note ok = assms(1) [unfolded ht_ok_def]
  have b: "b < length (ht_list t)" "b = bucket_of (ht_length t) (hash_in store e)" using bi bucket_of_less ok by (auto simp: FindPointer_eq)
  have spec: "slot t (b, i) = Some x \<longleftrightarrow> x \<in> S \<and> matches store (key_in store e) (hash_in store e) x" for x
    using slot_spec [OF assms(1), of "key_in store e" "hash_in store e" x] bi by simp
  have ib: "in_buckets store (ht_length ?t) (ht_list ?t)"
    using ok b unfolding in_buckets_def by (auto simp: nth_list_update dest: in_set_takeD in_set_dropD)
  have m: "mset (concat (ht_list ?t)) + mset ?chain = mset (concat (ht_list t)) + mset (take i ?chain @ e # drop (i + 1) ?chain)"
    by (simp add: mset_concat_update [OF b(1)] del: mset_append)
  show ?thesis
  proof (cases "slot t (b, i)")
    case (Some x)
    have i: "?chain = take i ?chain @ x # drop (i + 1) ?chain" using slot_nth [OF Some] id_take_nth_drop by fastforce
    have x: "x \<in> S" "matches store (key_in store e) (hash_in store e) x" using spec [of x] Some by auto
    have "mset ?chain = mset (take i ?chain @ drop (i + 1) ?chain) + {#x#}" by (subst i) simp
    then have "add_mset x (mset (concat (ht_list ?t))) = add_mset e (mset_set S)" using m ok by (simp add: ac_simps)
    then have "mset (concat (ht_list ?t)) = add_mset e (mset_set (S - {x}))"
      using ok x(1) mset_set.remove [of S x] by (simp add: add_mset_commute)
    then have "mset (concat (ht_list ?t)) = mset_set (insert e (S - {x}))" using ok assms(2) by simp
    moreover have "inj_on (\<lambda>e. (hash_in store e, key_in store e)) (insert e (S - {x}))"
      using ok x by (auto simp: inj_on_def)
    moreover have "card S > 0" using ok x(1) card_gt_0_iff by blast
    then have "unat (ht_elems ?t) = card (insert e (S - {x}))"
      using ok x(1) assms(2) by simp
    ultimately have "ht_ok store ?t (insert e (S - {x}))" using ok ib by (simp add: ht_ok_def)
    moreover have "ht_Insert store e t = Some (Some x, ?t)" using Some by (simp add: ht_Insert_def bi Let_def)
    ultimately show ?thesis using spec Some by auto
  next
    case None
    have no: "\<not> (x \<in> S \<and> matches store (key_in store e) (hash_in store e) x)" for x using spec None by simp
    have "length ?chain \<le> i" using None by (auto simp: slot_def split: if_splits)
    then have "mset (take i ?chain @ e # drop (i + 1) ?chain) = add_mset e (mset ?chain)" by simp
    then have m': "mset (concat (ht_list ?t)) = mset_set (insert e S)" using m ok assms(2) by simp
    have "(hash_in store e, key_in store e) \<noteq> (hash_in store x, key_in store x)" if "x \<in> S" for x using no [of x] that by auto
    then have inj: "inj_on (\<lambda>e. (hash_in store e, key_in store e)) (insert e S)"
      unfolding inj_on_insert using ok by blast
    let ?t1 = "?t\<lparr>ht_elems := ht_elems ?t + 1\<rparr>"
    have card: "unat (ht_elems ?t1) = card (insert e S)"
      using ok assms(2,3) by (simp add: unat_plus_if_size word_size)
    have fin: "finite (insert e S)" "card (insert e S) \<le> 2 ^ 31" using ok assms(2,3) by simp_all
    obtain t' where t': "Resize store ?t1 = Some t'" "ht_ok store t' (insert e S)"
      using Resize_ok [of "insert e S" ?t1 store] fin m' inj card by auto
    have "ht_ok store ?t1 (insert e S)" using ok ib m' inj card fin by (simp add: ht_ok_def)
    moreover have "ht_Insert store e t = (if ht_elems ?t1 > ht_length ?t1 then Some (None, t') else Some (None, ?t1))"
      using None t'(1) by (simp add: ht_Insert_def bi Let_def)
    ultimately show ?thesis using t'(2) no by auto
  qed
qed

lemma new_HandleTable_ok: "ht_ok store new_HandleTable {}"
proof -
  have "new_table_length 0 4 = Some 4" by (subst new_table_length.simps) simp
  then have "new_HandleTable = \<lparr>ht_length = 4, ht_elems = 0, ht_list = replicate 4 []\<rparr>"
    by (simp add: new_HandleTable_def Resize_def)
  note eq = this
  show ?thesis unfolding eq
    by (auto simp: ht_ok_def in_buckets_def concat_replicate_Nil intro: exI [of _ 2])
qed

section \<open>What a cache promises\<close>

text \<open>
  Every entry ever inserted is live until it is neither cached nor held by a client; then it is deleted. The
  cached entries that nobody holds are ordered by when they were last used.
\<close>

record 'v entry =
  e_key :: bytes
  e_hash :: u32
  e_value :: 'v
  e_charge :: u64

record 'v acache =
  a_capacity :: u64
  a_entries :: "nat \<Rightarrow> 'v entry option"
  a_fresh :: nat
  a_held :: "nat \<Rightarrow> nat"
  a_cached :: "nat set"
  a_unused :: "nat list"
  a_deleted :: "(bytes \<times> 'v) list"

definition a_new :: "u64 \<Rightarrow> 'v acache" where
  "a_new capacity = \<lparr>a_capacity = capacity, a_entries = (\<lambda>_. None), a_fresh = 0, a_held = (\<lambda>_. 0), a_cached = {}, a_unused = [], a_deleted = []\<rparr>"

definition a_usage :: "'v acache \<Rightarrow> u64" where
  "a_usage a = (\<Sum>e \<in> a_cached a. e_charge (the (a_entries a e)))"

definition a_find :: "bytes \<Rightarrow> u32 \<Rightarrow> 'v acache \<Rightarrow> nat option" where
  "a_find key hash a =
     find (\<lambda>e. e \<in> a_cached a \<and> e_key (the (a_entries a e)) = key \<and> e_hash (the (a_entries a e)) = hash) [0..<a_fresh a]"

definition a_delete :: "nat \<Rightarrow> 'v acache \<Rightarrow> 'v acache" where
  "a_delete e a =
     (if a_held a e = 0 \<and> e \<notin> a_cached a
      then a\<lparr>a_deleted := a_deleted a @ [(e_key (the (a_entries a e)), e_value (the (a_entries a e)))], a_entries := (a_entries a)(e := None)\<rparr>
      else a)"

definition a_forget :: "nat \<Rightarrow> 'v acache \<Rightarrow> 'v acache" where
  "a_forget e a = a_delete e (a\<lparr>a_cached := a_cached a - {e}, a_unused := remove1 e (a_unused a)\<rparr>)"

definition a_Lookup :: "bytes \<Rightarrow> u32 \<Rightarrow> 'v acache \<Rightarrow> nat option \<times> 'v acache" where
  "a_Lookup key hash a =
     (case a_find key hash a of
        None \<Rightarrow> (None, a)
      | Some e \<Rightarrow> (Some e, a\<lparr>a_held := (a_held a)(e := a_held a e + 1), a_unused := remove1 e (a_unused a)\<rparr>))"

definition a_Release :: "nat \<Rightarrow> 'v acache \<Rightarrow> 'v acache" where
  "a_Release e a =
     (let a = a\<lparr>a_held := (a_held a)(e := a_held a e - 1)\<rparr>
      in if a_held a e = 0 \<and> e \<in> a_cached a then a\<lparr>a_unused := a_unused a @ [e]\<rparr> else a_delete e a)"

definition a_Erase :: "bytes \<Rightarrow> u32 \<Rightarrow> 'v acache \<Rightarrow> 'v acache" where
  "a_Erase key hash a = (case a_find key hash a of None \<Rightarrow> a | Some e \<Rightarrow> a_forget e a)"

fun a_evict :: "nat list \<Rightarrow> 'v acache \<Rightarrow> 'v acache" where
  "a_evict [] a = a"
| "a_evict (e # es) a = (if a_usage a > a_capacity a then a_evict es (a_forget e a) else a)"

definition a_Insert :: "bytes \<Rightarrow> u32 \<Rightarrow> 'v \<Rightarrow> u64 \<Rightarrow> 'v acache \<Rightarrow> nat \<times> 'v acache" where
  "a_Insert key hash v charge a =
     (let e = a_fresh a;
          a' = a\<lparr>a_entries := (a_entries a)(e \<mapsto> \<lparr>e_key = key, e_hash = hash, e_value = v, e_charge = charge\<rparr>),
                 a_fresh := e + 1, a_held := (a_held a)(e := 1)\<rparr>;
          a' = (if a_capacity a > 0 then
                  let a' = (case a_find key hash a of None \<Rightarrow> a' | Some old \<Rightarrow> a_forget old a')
                  in a'\<lparr>a_cached := insert e (a_cached a')\<rparr>
                else a')
      in (e, a_evict (a_unused a') a'))"

definition a_Prune :: "'v acache \<Rightarrow> 'v acache" where
  "a_Prune a = fold a_forget (a_unused a) a"

section \<open>The cache keeps the promise\<close>

definition entry_rep :: "'v acache \<Rightarrow> nat \<Rightarrow> 'v lru_handle option \<Rightarrow> bool" where
  "entry_rep a e h \<longleftrightarrow>
     (case h of
        None \<Rightarrow> a_entries a e = None \<and> a_held a e = 0 \<and> e \<notin> a_cached a
      | Some h \<Rightarrow>
          a_entries a e = Some \<lparr>e_key = h_key h, e_hash = h_hash h, e_value = h_value h, e_charge = h_charge h\<rparr> \<and>
          h_in_cache h = (e \<in> a_cached a) \<and> h_refs h \<noteq> 0 \<and> unat (h_refs h) = a_held a e + (if e \<in> a_cached a then 1 else 0))"

definition store_rep :: "'v lru_cache \<Rightarrow> 'v acache \<Rightarrow> bool" where
  "store_rep c a \<longleftrightarrow>
     lc_capacity c = a_capacity a \<and> lc_fresh c = a_fresh a \<and> lc_deleted c = a_deleted a \<and> lc_usage c = a_usage a \<and>
     finite (a_cached a) \<and> (\<forall>e. entry_rep a e (lc_store c e)) \<and> (\<forall>e \<ge> a_fresh a. a_entries a e = None)"

text \<open>The table may already be ahead of the lists.\<close>

definition rep_with :: "nat set \<Rightarrow> 'v lru_cache \<Rightarrow> 'v acache \<Rightarrow> bool" where
  "rep_with S c a \<longleftrightarrow>
     store_rep c a \<and> ht_ok (lc_store c) (lc_table c) S \<and>
     (\<exists>used. lists_ok c (a_unused a) used \<and> set (a_unused a @ used) = a_cached a \<and>
        (\<forall>e \<in> set used. a_held a e > 0) \<and> (\<forall>e \<in> set (a_unused a). a_held a e = 0))"

abbreviation cache_rep :: "'v lru_cache \<Rightarrow> 'v acache \<Rightarrow> bool" where
  "cache_rep c a \<equiv> rep_with (a_cached a) c a"

lemma entry_rep_cong:
  "a_entries a' x = a_entries a x \<Longrightarrow> a_held a' x = a_held a x \<Longrightarrow> (x \<in> a_cached a') = (x \<in> a_cached a) \<Longrightarrow>
   entry_rep a' x h = entry_rep a x h"
  by (simp add: entry_rep_def split: option.split)

lemma rep_withD:
  assumes "rep_with S c a"
  shows "store_rep c a" and "ht_ok (lc_store c) (lc_table c) S"
    and "\<exists>used. lists_ok c (a_unused a) used \<and> set (a_unused a @ used) = a_cached a \<and>
        (\<forall>e \<in> set used. a_held a e > 0) \<and> (\<forall>e \<in> set (a_unused a). a_held a e = 0)"
  using assms by (simp_all add: rep_with_def)

lemma rep_with_table: "rep_with S c a \<Longrightarrow> ht_ok (lc_store c) t S' \<Longrightarrow> rep_with S' (c\<lparr>lc_table := t\<rparr>) a"
  by (simp add: rep_with_def store_rep_def lists_ok_def)

lemma store_repD:
  assumes "store_rep c a"
  shows "lc_capacity c = a_capacity a" and "lc_fresh c = a_fresh a" and "lc_deleted c = a_deleted a" and "lc_usage c = a_usage a"
    and "finite (a_cached a)" and "\<And>e. entry_rep a e (lc_store c e)" and "\<And>e. e \<ge> a_fresh a \<Longrightarrow> a_entries a e = None"
  using assms by (simp_all add: store_rep_def)

lemma live_entry:
  assumes "store_rep c a" and "a_held a e > 0 \<or> e \<in> a_cached a"
  shows "\<exists>h. lc_store c e = Some h \<and> a_entries a e = Some \<lparr>e_key = h_key h, e_hash = h_hash h, e_value = h_value h, e_charge = h_charge h\<rparr> \<and>
    h_in_cache h = (e \<in> a_cached a) \<and> h_refs h \<noteq> 0 \<and> unat (h_refs h) = a_held a e + (if e \<in> a_cached a then 1 else 0) \<and> e < a_fresh a"
proof -
  have r: "entry_rep a e (lc_store c e)" using store_repD(6) [OF assms(1)] .
  then obtain h where h: "lc_store c e = Some h" using assms(2) by (cases "lc_store c e") (auto simp: entry_rep_def)
  have "a_entries a e \<noteq> None" using r h by (simp add: entry_rep_def)
  then have "e < a_fresh a" using store_repD(7) [OF assms(1), of e] by (meson not_le)
  then show ?thesis using r h by (simp add: entry_rep_def)
qed

lemma Lookup_find:
  assumes "cache_rep c a"
  shows "ht_Lookup (lc_store c) key hash (lc_table c) = a_find key hash a"
proof -
  note st = rep_withD(1) [OF assms] and ht = rep_withD(2) [OF assms]
  have same: "matches (lc_store c) key hash e \<longleftrightarrow> e_key (the (a_entries a e)) = key \<and> e_hash (the (a_entries a e)) = hash"
    and less: "e < a_fresh a" if "e \<in> a_cached a" for e
    using live_entry [OF st, of e] that by auto
  show ?thesis
  proof (cases "a_find key hash a")
    case None
    then have "ht_Lookup (lc_store c) key hash (lc_table c) \<noteq> Some e" for e
      using ht_Lookup_spec [OF ht, of key hash e] same less by (auto simp: a_find_def find_None_iff)
    then show ?thesis using None by (cases "ht_Lookup (lc_store c) key hash (lc_table c)") auto
  next
    case (Some e)
    then have "e \<in> a_cached a" "e_key (the (a_entries a e)) = key" "e_hash (the (a_entries a e)) = hash"
      unfolding a_find_def by (auto dest: find_in)
    then show ?thesis using ht_Lookup_spec [OF ht, of key hash e] same Some by simp
  qed
qed

lemma a_find_cached: "a_find key hash a = Some e \<Longrightarrow> e \<in> a_cached a"
  unfolding a_find_def by (auto dest: find_in)

lemma upd_entry_other: "x \<noteq> e \<Longrightarrow> lc_store (update_handle e f c) x = lc_store c x"
  by (simp add: update_handle_def)

lemma update_handle_fields [simp]:
  "lc_capacity (update_handle e f c) = lc_capacity c" "lc_fresh (update_handle e f c) = lc_fresh c"
  "lc_deleted (update_handle e f c) = lc_deleted c" "lc_usage (update_handle e f c) = lc_usage c"
  "lc_next (update_handle e f c) = lc_next c" "lc_prev (update_handle e f c) = lc_prev c"
  "lc_table (update_handle e f c) = lc_table c" "lc_store (update_handle e f c) = (lc_store c)(e \<mapsto> f (handle_of c e))"
  by (simp_all add: update_handle_def)

lemma LRU_fields [simp]:
  "lc_capacity (LRU_Remove e c) = lc_capacity c" "lc_fresh (LRU_Remove e c) = lc_fresh c"
  "lc_deleted (LRU_Remove e c) = lc_deleted c" "lc_usage (LRU_Remove e c) = lc_usage c"
  "lc_table (LRU_Remove e c) = lc_table c" "lc_store (LRU_Remove e c) = lc_store c"
  "lc_capacity (LRU_Append l e c) = lc_capacity c" "lc_fresh (LRU_Append l e c) = lc_fresh c"
  "lc_deleted (LRU_Append l e c) = lc_deleted c" "lc_usage (LRU_Append l e c) = lc_usage c"
  "lc_table (LRU_Append l e c) = lc_table c" "lc_store (LRU_Append l e c) = lc_store c"
  by (simp_all add: LRU_Remove_def LRU_Append_def Let_def)

lemma lists_ok_links: "lc_next c' = lc_next c \<Longrightarrow> lc_prev c' = lc_prev c \<Longrightarrow> lists_ok c' u v = lists_ok c u v"
  by (simp add: lists_ok_def)

lemma store_rep_links: "store_rep (LRU_Append l e c) a = store_rep c a" "store_rep (LRU_Remove e c) a = store_rep c a"
  by (simp_all add: store_rep_def)

lemma store_rep_unused: "store_rep c (a\<lparr>a_unused := u\<rparr>) = store_rep c a"
proof -
  have "entry_rep (a\<lparr>a_unused := u\<rparr>) x h = entry_rep a x h" for x h by (rule entry_rep_cong) simp_all
  then show ?thesis by (simp add: store_rep_def a_usage_def)
qed

lemma LRU_Append_lists:
  assumes "lists_ok c unused used" and "e \<notin> set (unused @ used)"
  shows "lists_ok (LRU_Append LruHead e c) (unused @ [e]) used" and "lists_ok (LRU_Append InUseHead e c) unused (used @ [e])"
proof -
  have l: "links (lc_next c) (lc_prev c) LruHead unused LruHead" "links (lc_next c) (lc_prev c) InUseHead used InUseHead"
    "distinct (unused @ used)" using assms(1) by (simp_all add: lists_ok_def)
  have h: "LruHead \<noteq> InUseHead" "LruHead \<notin> range Entry" "InUseHead \<notin> range Entry" by auto
  have d: "distinct (used @ unused)" "e \<notin> set (used @ unused)" using l(3) assms(2) by auto
  show "lists_ok (LRU_Append LruHead e c) (unused @ [e]) used"
    using LRU_Append_links [OF l(1,2) assms(2) l(3) h] l(3) assms(2) by (auto simp: lists_ok_def)
  show "lists_ok (LRU_Append InUseHead e c) unused (used @ [e])"
    using LRU_Append_links [OF l(2,1) d(2,1) h(1) [symmetric] h(3,2)] l(3) assms(2) by (auto simp: lists_ok_def)
qed

text \<open>Taking and dropping references.\<close>

lemma Ref_rep:
  assumes "rep_with S c a" and "e \<in> a_cached a" and "a_held a e + 2 < 2 ^ 32"
  shows "rep_with S (cache_Ref e c) (a\<lparr>a_held := (a_held a)(e := a_held a e + 1), a_unused := remove1 e (a_unused a)\<rparr>)"
proof -
  let ?a = "a\<lparr>a_held := (a_held a)(e := a_held a e + 1), a_unused := remove1 e (a_unused a)\<rparr>"
  note st = rep_withD(1) [OF assms(1)] and ht = rep_withD(2) [OF assms(1)]
  obtain used where u: "lists_ok c (a_unused a) used" "set (a_unused a @ used) = a_cached a"
    "\<forall>e \<in> set used. a_held a e > 0" "\<forall>e \<in> set (a_unused a). a_held a e = 0" using rep_withD(3) [OF assms(1)] by blast
  obtain h where h: "lc_store c e = Some h" "h_in_cache h" "unat (h_refs h) = a_held a e + 1"
    "a_entries a e = Some \<lparr>e_key = h_key h, e_hash = h_hash h, e_value = h_value h, e_charge = h_charge h\<rparr>"
    using live_entry [OF st, of e] assms(2) by auto
  have d: "distinct (a_unused a @ used)" using u(1) by (simp add: lists_ok_def)
  have one: "h_refs h = 1 \<longleftrightarrow> a_held a e = 0" using h(3) by (auto simp: word_unat_eq_iff)
  have refs: "unat (h_refs h + 1) = a_held a e + 2" using h(3) assms(3) by (simp add: unat_plus_if_size word_size)
  let ?c = "if a_held a e = 0 then LRU_Append InUseHead e (LRU_Remove e c) else c"
  have c: "cache_Ref e c = update_handle e (\<lambda>h. h\<lparr>h_refs := h_refs h + 1\<rparr>) ?c"
    using h one by (simp add: cache_Ref_def Let_def)
  have fields: "lc_capacity ?c = lc_capacity c" "lc_fresh ?c = lc_fresh c" "lc_deleted ?c = lc_deleted c"
    "lc_usage ?c = lc_usage c" "lc_table ?c = lc_table c" "lc_store ?c = lc_store c" by simp_all
  have "entry_rep ?a x (lc_store (cache_Ref e c) x)" for x
  proof (cases "x = e")
    case True
    have "h_refs h + 1 \<noteq> 0" using refs by auto
    then show ?thesis unfolding c using True h assms(2) refs fields by (simp add: entry_rep_def)
  next
    case False
    then have "lc_store (cache_Ref e c) x = lc_store c x" unfolding c using fields by simp
    moreover have "entry_rep ?a x h = entry_rep a x h" for h by (rule entry_rep_cong) (use False in simp_all)
    ultimately show ?thesis using store_repD(6) [OF st, of x] by simp
  qed
  then have "store_rep (cache_Ref e c) ?a"
    using store_repD(1-5,7) [OF st] fields by (simp add: store_rep_def c a_usage_def)
  moreover have "ht_ok (lc_store (cache_Ref e c)) (lc_table (cache_Ref e c)) S"
    unfolding c update_handle_fields fields by (rule ht_ok_cong [OF ht]) (simp add: h)
  moreover have "\<exists>used. lists_ok (cache_Ref e c) (a_unused ?a) used \<and> set (a_unused ?a @ used) = a_cached ?a \<and>
      (\<forall>e \<in> set used. a_held ?a e > 0) \<and> (\<forall>e \<in> set (a_unused ?a). a_held ?a e = 0)"
  proof (cases "a_held a e = 0")
    case True
    then have "e \<notin> set used" using u(3) by auto
    moreover have "e \<in> set (a_unused a @ used)" using assms(2) u(2) by simp
    ultimately have e: "e \<in> set (a_unused a)" "e \<notin> set used" by simp_all
    have "lists_ok (LRU_Remove e c) (remove1 e (a_unused a)) (remove1 e used)"
      by (rule LRU_Remove_lists [OF u(1)]) (use e in simp)
    then have "lists_ok (LRU_Append InUseHead e (LRU_Remove e c)) (remove1 e (a_unused a)) (used @ [e])"
      using LRU_Append_lists(2) [of "LRU_Remove e c" "remove1 e (a_unused a)" used e] e d by (simp add: remove1_idem)
    then have "lists_ok (cache_Ref e c) (a_unused ?a) (used @ [e])"
      unfolding c using True by (simp add: lists_ok_def)
    moreover have "set (remove1 e (a_unused a)) = set (a_unused a) - {e}" using d by simp
    ultimately show ?thesis using u e by (intro exI [of _ "used @ [e]"]) auto
  next
    case False
    then have e: "e \<notin> set (a_unused a)" using u(4) by auto
    then have "lists_ok (cache_Ref e c) (a_unused ?a) used" unfolding c using False u(1) by (simp add: lists_ok_def remove1_idem)
    then show ?thesis using u e by (intro exI [of _ used]) (auto simp: remove1_idem)
  qed
  ultimately show ?thesis by (simp add: rep_with_def)
qed

lemma a_delete_fields [simp]:
  "a_capacity (a_delete e a) = a_capacity a" "a_fresh (a_delete e a) = a_fresh a" "a_held (a_delete e a) = a_held a"
  "a_cached (a_delete e a) = a_cached a" "a_unused (a_delete e a) = a_unused a"
  by (simp_all add: a_delete_def)

lemma usage_delete: "a_usage (a_delete e a) = a_usage a"
  unfolding a_usage_def by (rule sum.cong) (auto simp: a_delete_def)

lemma Unref_rep:
  assumes "rep_with S c a" and "a_held a e > 0" and "S \<subseteq> a_cached a" and "card (a_cached a) < 2 ^ 31" and "a_held a e < 2 ^ 31"
  shows "rep_with S (cache_Unref e c) (a_Release e a)"
proof -
  let ?a = "a\<lparr>a_held := (a_held a)(e := a_held a e - 1)\<rparr>"
  note st = rep_withD(1) [OF assms(1)] and ht = rep_withD(2) [OF assms(1)]
  obtain used where u: "lists_ok c (a_unused a) used" "set (a_unused a @ used) = a_cached a"
    "\<forall>e \<in> set used. a_held a e > 0" "\<forall>e \<in> set (a_unused a). a_held a e = 0" using rep_withD(3) [OF assms(1)] by blast
  obtain h where h: "lc_store c e = Some h" "h_in_cache h = (e \<in> a_cached a)" "unat (h_refs h) = a_held a e + (if e \<in> a_cached a then 1 else 0)"
    "a_entries a e = Some \<lparr>e_key = h_key h, e_hash = h_hash h, e_value = h_value h, e_charge = h_charge h\<rparr>"
    using live_entry [OF st, of e] assms(2) by auto
  have d: "distinct (a_unused a @ used)" using u(1) by (simp add: lists_ok_def)
  have en: "e \<notin> set (a_unused a)" using u(4) assms(2) by auto
  let ?h = "h\<lparr>h_refs := h_refs h - 1\<rparr>"
  let ?c = "update_handle e (\<lambda>h. h\<lparr>h_refs := h_refs h - 1\<rparr>) c"
  have "h_refs h \<noteq> 0" using h(3) assms(2) by auto
  then have refs: "unat (h_refs ?h) = a_held a e - 1 + (if e \<in> a_cached a then 1 else 0)"
    using h(3) assms(2) by (simp add: unat_minus_one)
  then have zero: "h_refs ?h = 0 \<longleftrightarrow> a_held ?a e = 0 \<and> e \<notin> a_cached a" and one: "e \<in> a_cached a \<Longrightarrow> h_refs ?h = 1 \<longleftrightarrow> a_held ?a e = 0"
    by (auto simp: word_unat_eq_iff)
  have c: "cache_Unref e c =
      (if h_refs ?h = 0 then ?c\<lparr>lc_deleted := lc_deleted c @ [(h_key h, h_value h)], lc_store := (lc_store c)(e := None)\<rparr>
       else if e \<in> a_cached a \<and> h_refs ?h = 1 then LRU_Append LruHead e (LRU_Remove e ?c) else ?c)"
    using h by (simp add: cache_Unref_def Let_def)
  have uc: "lists_ok ?c x y = lists_ok c x y" for x y by (simp add: lists_ok_def)
  show ?thesis
  proof (cases "h_refs ?h = 0")
    case True
    then have z: "a_held ?a e = 0" "e \<notin> a_cached a" using zero by simp_all
    let ?c' = "cache_Unref e c"
    have c': "?c' = ?c\<lparr>lc_deleted := lc_deleted c @ [(h_key h, h_value h)], lc_store := (lc_store c)(e := None)\<rparr>" using c True by simp
    have a': "a_Release e a = a_delete e ?a" using z by (simp add: a_Release_def Let_def)
    have "entry_rep (a_delete e ?a) x (lc_store ?c' x)" for x
    proof (cases "x = e")
      case True
      then show ?thesis using z by (simp add: c' a_delete_def entry_rep_def)
    next
      case False
      then have "entry_rep (a_delete e ?a) x h = entry_rep a x h" for h by (intro entry_rep_cong) (simp_all add: a_delete_def)
      then show ?thesis using store_repD(6) [OF st, of x] False by (simp add: c')
    qed
    then have "store_rep ?c' (a_delete e ?a)"
      using store_repD(1-5,7) [OF st] z by (simp add: store_rep_def usage_delete) (simp add: c' a_delete_def h(4) a_usage_def)
    moreover have "ht_ok (lc_store ?c') (lc_table ?c') S"
    proof -
      have "ht_ok ((lc_store c)(e := None)) (lc_table c) S" by (rule ht_ok_cong [OF ht]) (use z(2) assms(3) in auto)
      then show ?thesis by (simp add: c')
    qed
    moreover have "lists_ok ?c' (a_unused a) used" unfolding c' using u(1) by (simp add: lists_ok_def)
    ultimately show ?thesis unfolding a' rep_with_def using u z en by (auto intro!: exI [of _ used])
  next
    case False
    have st': "store_rep ?c ?a"
    proof -
      have "entry_rep ?a x (lc_store ?c x)" for x
      proof (cases "x = e")
        case True
        then show ?thesis using h refs \<open>h_refs ?h \<noteq> 0\<close> by (simp add: entry_rep_def)
      next
        case False
        then have "entry_rep ?a x h = entry_rep a x h" for h by (intro entry_rep_cong) simp_all
        then show ?thesis using store_repD(6) [OF st, of x] False by simp
      qed
      then show ?thesis using store_repD(1-5,7) [OF st] by (simp add: store_rep_def a_usage_def)
    qed
    have ht': "ht_ok (lc_store ?c) (lc_table ?c) S" unfolding update_handle_fields by (rule ht_ok_cong [OF ht]) (simp add: h)
    show ?thesis
    proof (cases "e \<in> a_cached a \<and> a_held ?a e = 0")
      case True
      then have e: "e \<in> set used" using u(2) en by auto
      have c': "cache_Unref e c = LRU_Append LruHead e (LRU_Remove e ?c)" using c False one True by auto
      have a': "a_Release e a = ?a\<lparr>a_unused := a_unused a @ [e]\<rparr>" using True by (simp add: a_Release_def Let_def)
      have "lists_ok (LRU_Remove e ?c) (remove1 e (a_unused a)) (remove1 e used)"
        by (rule LRU_Remove_lists) (use u(1) e in \<open>simp_all add: uc\<close>)
      then have "lists_ok (LRU_Append LruHead e (LRU_Remove e ?c)) (a_unused a @ [e]) (remove1 e used)"
        using LRU_Append_lists(1) [of "LRU_Remove e ?c" "a_unused a" "remove1 e used" e] en d by (simp add: remove1_idem)
      moreover have "set (remove1 e used) = set used - {e}" using d by simp
      moreover have "store_rep (LRU_Append LruHead e (LRU_Remove e ?c)) (?a\<lparr>a_unused := a_unused a @ [e]\<rparr>)"
        unfolding store_rep_links store_rep_unused by (rule st')
      ultimately show ?thesis unfolding rep_with_def c' a' using u e True ht' en
        by (auto intro!: exI [of _ "remove1 e used"])
    next
      case F: False
      then have "\<not> (e \<in> a_cached a \<and> h_refs ?h = 1)" using one by blast
      then have c': "cache_Unref e c = ?c" using c False by auto
      have "a_held ?a e > 0 \<or> e \<in> a_cached a" using False zero by auto
      then have a': "a_Release e a = ?a" using F by (auto simp: a_Release_def Let_def a_delete_def)
      have "lists_ok ?c (a_unused a) used" using u(1) uc by simp
      moreover have "e \<notin> set used \<or> a_held ?a e > 0" using F u(2) by auto
      ultimately show ?thesis unfolding rep_with_def c' a' using u st' ht' en by (auto intro!: exI [of _ used])
    qed
  qed
qed

lemma FinishErase_rep:
  assumes "rep_with S c a" and "e \<in> a_cached a" and "e \<notin> S" and "S \<subseteq> a_cached a" and "card (a_cached a) < 2 ^ 31" and "a_held a e + 1 < 2 ^ 31"
  shows "rep_with S (FinishErase (Some e) c) (a_forget e a)"
proof -
  let ?a = "a\<lparr>a_cached := a_cached a - {e}, a_unused := remove1 e (a_unused a)\<rparr>"
  let ?a1 = "?a\<lparr>a_held := (a_held a)(e := a_held a e + 1)\<rparr>"
  note st = rep_withD(1) [OF assms(1)] and ht = rep_withD(2) [OF assms(1)]
  obtain used where u: "lists_ok c (a_unused a) used" "set (a_unused a @ used) = a_cached a"
    "\<forall>e \<in> set used. a_held a e > 0" "\<forall>e \<in> set (a_unused a). a_held a e = 0" using rep_withD(3) [OF assms(1)] by blast
  obtain h where h: "lc_store c e = Some h" "h_in_cache h" "unat (h_refs h) = a_held a e + 1" "h_refs h \<noteq> 0"
    "a_entries a e = Some \<lparr>e_key = h_key h, e_hash = h_hash h, e_value = h_value h, e_charge = h_charge h\<rparr>"
    using live_entry [OF st, of e] assms(2) by auto
  have d: "distinct (a_unused a @ used)" using u(1) by (simp add: lists_ok_def)
  let ?c1 = "update_handle e (\<lambda>h. h\<lparr>h_in_cache := False\<rparr>) (LRU_Remove e c)"
  let ?c = "?c1\<lparr>lc_usage := lc_usage ?c1 - h_charge (handle_of ?c1 e)\<rparr>"
  have c: "FinishErase (Some e) c = cache_Unref e ?c" by (simp add: FinishErase_def Let_def)
  have usage: "a_usage ?a1 = a_usage a - h_charge h"
    using store_repD(5) [OF st] assms(2) h(5) by (simp add: a_usage_def sum_diff1)
  have "entry_rep ?a1 x (lc_store ?c x)" for x
  proof (cases "x = e")
    case True
    then show ?thesis using h by (simp add: entry_rep_def)
  next
    case False
    then have "entry_rep ?a1 x h = entry_rep a x h" for h by (intro entry_rep_cong) simp_all
    then show ?thesis using store_repD(6) [OF st, of x] False by simp
  qed
  moreover have "lc_usage ?c = a_usage ?a1" unfolding usage using store_repD(4) [OF st] h by simp
  ultimately have "store_rep ?c ?a1" using store_repD(1-3,5,7) [OF st] by (simp add: store_rep_def)
  moreover have "ht_ok (lc_store ?c) (lc_table ?c) S" using ht_ok_cong [OF ht, of "lc_store ?c"] h by simp
  moreover have "lists_ok ?c (remove1 e (a_unused a)) (remove1 e used)"
  proof -
    have "e \<in> set (a_unused a @ used)" using assms(2) u(2) by simp
    from LRU_Remove_lists [OF u(1) this] show ?thesis by (simp add: lists_ok_def)
  qed
  moreover have "set (remove1 e (a_unused a)) = set (a_unused a) - {e}" "set (remove1 e used) = set used - {e}" using d by simp_all
  ultimately have r: "rep_with S ?c ?a1" unfolding rep_with_def using u by (auto intro!: exI [of _ "remove1 e used"])
  have "rep_with S (cache_Unref e ?c) (a_Release e ?a1)"
  proof (rule Unref_rep [OF r])
    show "card (a_cached ?a1) < 2 ^ 31" using assms(5) card_Diff1_le [of "a_cached a" e] by simp
  qed (use assms(3,4,6) in auto)
  moreover have "a_Release e ?a1 = a_forget e a" by (simp add: a_Release_def a_forget_def Let_def fun_upd_idem)
  ultimately show ?thesis using c by simp
qed

text \<open>The bound that keeps the counts from wrapping around.\<close>

definition few_left :: "nat \<Rightarrow> 'v acache \<Rightarrow> bool" where
  "few_left n a \<longleftrightarrow> a_fresh a + n < 2 ^ 31 \<and> (\<forall>e. a_held a e + n < 2 ^ 31)"

abbreviation few :: "'v acache \<Rightarrow> bool" where "few \<equiv> few_left 2"

lemma cached_below: "store_rep c a \<Longrightarrow> card (a_cached a) \<le> a_fresh a"
proof -
  assume st: "store_rep c a"
  have "a_cached a \<subseteq> {..<a_fresh a}" using live_entry [OF st] by blast
  from card_mono [OF _ this] show ?thesis by simp
qed

lemma erase_entry_rep:
  assumes "cache_rep c a" and "few a"
  shows "cache_rep (erase_entry key hash c) (a_Erase key hash a)"
proof -
  note st = rep_withD(1) [OF assms(1)] and ht = rep_withD(2) [OF assms(1)]
  obtain r t where r: "ht_Remove (lc_store c) key hash (lc_table c) = (r, t)" by fastforce
  note spec = ht_Remove_spec [OF ht r]
  have "r = ht_Lookup (lc_store c) key hash (lc_table c)"
  proof -
    have "r = Some e \<longleftrightarrow> ht_Lookup (lc_store c) key hash (lc_table c) = Some e" for e
      using spec(1) [of e] ht_Lookup_spec [OF ht, of key hash e] by blast
    then show ?thesis by (metis not_Some_eq)
  qed
  then have find: "a_find key hash a = r" using Lookup_find [OF assms(1)] by simp
  have c: "erase_entry key hash c = FinishErase r (c\<lparr>lc_table := t\<rparr>)" by (simp add: erase_entry_def r)
  have rep: "rep_with (a_cached a - set_option r) (c\<lparr>lc_table := t\<rparr>) a"
    by (rule rep_with_table [OF assms(1) spec(2)])
  show ?thesis
  proof (cases r)
    case None
    then show ?thesis using rep find c by (simp add: FinishErase_def a_Erase_def)
  next
    case (Some e)
    have "e \<in> a_cached a" using spec(1) Some by blast
    have "card (a_cached a) < 2 ^ 31" using cached_below [OF st] assms(2) by (simp add: few_left_def)
    moreover have "a_held a e + 2 < 2 ^ 31" using assms(2) by (simp add: few_left_def)
    ultimately have "rep_with (a_cached a - {e}) (FinishErase (Some e) (c\<lparr>lc_table := t\<rparr>)) (a_forget e a)"
      using rep Some \<open>e \<in> a_cached a\<close> by (intro FinishErase_rep) auto
    then show ?thesis using find c Some by (simp add: a_Erase_def a_forget_def)
  qed
qed

lemma Lookup_rep:
  assumes "cache_rep c a" and "few a" and "cache_Lookup key hash c = (r, c')"
  shows "r = fst (a_Lookup key hash a)" and "cache_rep c' (snd (a_Lookup key hash a))"
proof -
  have f: "a_held a e + 2 < 2 ^ 32" for e using assms(2) by (auto simp: few_left_def dest: spec [of _ e])
  show "r = fst (a_Lookup key hash a)"
    using assms(3) Lookup_find [OF assms(1), of key hash] by (simp add: cache_Lookup_def a_Lookup_def split: option.splits)
  show "cache_rep c' (snd (a_Lookup key hash a))"
    using assms(1,3) Lookup_find [OF assms(1), of key hash] Ref_rep [OF assms(1) a_find_cached f]
    by (auto simp: cache_Lookup_def a_Lookup_def split: option.splits)
qed

lemma Release_rep:
  assumes "cache_rep c a" and "few a" and "a_held a e > 0"
  shows "cache_rep (cache_Release e c) (a_Release e a)"
proof -
  have "card (a_cached a) < 2 ^ 31" using cached_below [OF rep_withD(1) [OF assms(1)]] assms(2) by (simp add: few_left_def)
  moreover have "a_held a e + 2 < 2 ^ 31" using assms(2) by (simp add: few_left_def)
  moreover have "a_cached (a_Release e a) = a_cached a" by (simp add: a_Release_def Let_def)
  ultimately show ?thesis unfolding cache_Release_def using Unref_rep [OF assms(1,3)] by simp
qed

lemma few_forget: "few_left n (a_forget e a) = few_left n a"
  by (simp add: few_left_def a_forget_def)

lemma find_self:
  assumes "cache_rep c a" and "e \<in> a_cached a"
  shows "a_find (h_key (handle_of c e)) (h_hash (handle_of c e)) a = Some e"
  using Lookup_find [OF assms(1)] ht_Lookup_spec [OF rep_withD(2) [OF assms(1)]] assms(2) by metis

lemma oldest:
  assumes "cache_rep c a"
  shows "lc_next c LruHead = (case a_unused a of [] \<Rightarrow> LruHead | e # es \<Rightarrow> Entry e)"
    and "few a \<Longrightarrow> a_unused a = e # es \<Longrightarrow> cache_rep (erase_oldest c) (a_forget e a)"
proof -
  obtain used where u: "lists_ok c (a_unused a) used" "set (a_unused a @ used) = a_cached a" using rep_withD(3) [OF assms] by blast
  show n: "lc_next c LruHead = (case a_unused a of [] \<Rightarrow> LruHead | e # es \<Rightarrow> Entry e)"
    using u(1) by (cases "a_unused a") (simp_all add: lists_ok_def)
  assume f: "few a" and e: "a_unused a = e # es"
  then have "e \<in> a_cached a" using u(2) by auto
  then have "a_Erase (h_key (handle_of c e)) (h_hash (handle_of c e)) a = a_forget e a"
    using find_self [OF assms] by (simp add: a_Erase_def)
  then show "cache_rep (erase_oldest c) (a_forget e a)"
    using erase_entry_rep [OF assms f, of "h_key (handle_of c e)" "h_hash (handle_of c e)"] n e by (simp add: erase_oldest_def)
qed

lemma unused_forget: "a_unused a = e # es \<Longrightarrow> a_unused (a_forget e a) = es"
  by (simp add: a_forget_def)

lemma evict_rep:
  assumes "cache_rep c a" and "few a"
  shows "\<exists>c'. evict_loop c = Some c' \<and> cache_rep c' (a_evict (a_unused a) a)"
  using assms
proof (induction "a_unused a" arbitrary: a c)
  case Nil
  then have "lc_next c LruHead = LruHead" using oldest(1) [OF Nil.prems(1)] by (simp split: list.splits)
  then show ?case using Nil by (subst evict_loop.simps) (simp add: Nil(1) [symmetric])
next
  case (Cons e es)
  note u = Cons.hyps(2) [symmetric]
  have n: "lc_next c LruHead \<noteq> LruHead" using oldest(1) [OF Cons.prems(1)] u by simp
  have s: "lc_usage c = a_usage a" "lc_capacity c = a_capacity a" using store_repD(1,4) [OF rep_withD(1) [OF Cons.prems(1)]] by simp_all
  show ?case
  proof (cases "a_usage a > a_capacity a")
    case True
    have "\<exists>c'. evict_loop (erase_oldest c) = Some c' \<and> cache_rep c' (a_evict (a_unused (a_forget e a)) (a_forget e a))"
      by (rule Cons.hyps(1)) (use oldest(2) [OF Cons.prems u] Cons.prems(2) few_forget unused_forget [OF u] in auto)
    then show ?thesis using True n s u by (subst evict_loop.simps) (simp add: unused_forget)
  next
    case False
    then show ?thesis using Cons.prems(1) s u by (subst evict_loop.simps) simp
  qed
qed

lemma Prune_rep:
  assumes "cache_rep c a" and "few a"
  shows "\<exists>c'. cache_Prune c = Some c' \<and> cache_rep c' (a_Prune a)"
  using assms
proof (induction "a_unused a" arbitrary: a c)
  case Nil
  then have "lc_next c LruHead = LruHead" using oldest(1) [OF Nil.prems(1)] by (simp split: list.splits)
  then show ?case using Nil by (subst cache_Prune.simps) (simp add: a_Prune_def)
next
  case (Cons e es)
  note u = Cons.hyps(2) [symmetric]
  have n: "lc_next c LruHead \<noteq> LruHead" using oldest(1) [OF Cons.prems(1)] u by simp
  have "\<exists>c'. cache_Prune (erase_oldest c) = Some c' \<and> cache_rep c' (a_Prune (a_forget e a))"
    by (rule Cons.hyps(1)) (use oldest(2) [OF Cons.prems u] Cons.prems(2) few_forget unused_forget [OF u] in auto)
  then show ?case using n u by (subst cache_Prune.simps) (simp add: a_Prune_def unused_forget)
qed

text \<open>Inserting.\<close>

lemma new_entry_rep:
  fixes v :: 'v and key :: bytes and charge :: u64 and hash :: u32
  assumes "cache_rep c a"
  defines "h \<equiv> \<lparr>h_value = v, h_key = key, h_charge = charge, h_in_cache = False, h_refs = 1, h_hash = hash\<rparr>"
  defines "c1 \<equiv> c\<lparr>lc_store := (lc_store c)(lc_fresh c \<mapsto> h), lc_fresh := lc_fresh c + 1\<rparr>"
  defines "a1 \<equiv> a\<lparr>a_entries := (a_entries a)(a_fresh a \<mapsto> \<lparr>e_key = key, e_hash = hash, e_value = v, e_charge = charge\<rparr>),
                 a_fresh := a_fresh a + 1, a_held := (a_held a)(a_fresh a := 1)\<rparr>"
  shows "cache_rep c1 a1" and "a_fresh a \<notin> a_cached a" and "a_held a (a_fresh a) = 0"
proof -
  note st = rep_withD(1) [OF assms(1)] and ht = rep_withD(2) [OF assms(1)]
  obtain used where u: "lists_ok c (a_unused a) used" "set (a_unused a @ used) = a_cached a"
    "\<forall>e \<in> set used. a_held a e > 0" "\<forall>e \<in> set (a_unused a). a_held a e = 0" using rep_withD(3) [OF assms(1)] by blast
  show n: "a_fresh a \<notin> a_cached a" using live_entry [OF st, of "a_fresh a"] by auto
  show "a_held a (a_fresh a) = 0" using live_entry [OF st, of "a_fresh a"] by (cases "a_held a (a_fresh a) > 0") auto
  have fr: "lc_fresh c = a_fresh a" using store_repD(2) [OF st] .
  have "entry_rep a1 x (lc_store c1 x)" for x
  proof (cases "x = a_fresh a")
    case True
    then show ?thesis using n by (simp add: c1_def a1_def h_def fr entry_rep_def)
  next
    case False
    then have "entry_rep a1 x g = entry_rep a x g" for g by (intro entry_rep_cong) (simp_all add: a1_def)
    then show ?thesis using store_repD(6) [OF st, of x] False by (simp add: c1_def fr)
  qed
  moreover have "a_usage a1 = a_usage a" unfolding a_usage_def by (rule sum.cong) (use n in \<open>auto simp: a1_def\<close>)
  ultimately have "store_rep c1 a1"
    using store_repD(1-5,7) [OF st] by (simp add: store_rep_def) (simp add: c1_def a1_def)
  moreover have "ht_ok (lc_store c1) (lc_table c1) (a_cached a1)"
  proof -
    have "ht_ok (lc_store c1) (lc_table c) (a_cached a)" by (rule ht_ok_cong [OF ht]) (use n fr in \<open>auto simp: c1_def\<close>)
    then show ?thesis by (simp add: c1_def a1_def)
  qed
  moreover have "lists_ok c1 (a_unused a) used" using u(1) by (simp add: c1_def lists_ok_def)
  ultimately show "cache_rep c1 a1" unfolding rep_with_def using u n
    by (auto simp: a1_def intro!: exI [of _ used])
qed

lemma cached_rep:
  assumes "cache_rep c a" and "e \<notin> a_cached a" and "a_held a e = 1" and "e \<notin> set (a_unused a)" and "lc_store c e = Some h"
    and "c2 = (LRU_Append InUseHead e (update_handle e (\<lambda>h. h\<lparr>h_refs := h_refs h + 1, h_in_cache := True\<rparr>) c))"
    and "c3 = c2\<lparr>lc_usage := lc_usage c2 + h_charge h\<rparr>"
  shows "rep_with (a_cached a) c3 (a\<lparr>a_cached := insert e (a_cached a)\<rparr>)"
proof -
  let ?a = "a\<lparr>a_cached := insert e (a_cached a)\<rparr>"
  note st = rep_withD(1) [OF assms(1)] and ht = rep_withD(2) [OF assms(1)]
  obtain used where u: "lists_ok c (a_unused a) used" "set (a_unused a @ used) = a_cached a"
    "\<forall>e \<in> set used. a_held a e > 0" "\<forall>e \<in> set (a_unused a). a_held a e = 0" using rep_withD(3) [OF assms(1)] by blast
  have h: "h_in_cache h = False" "unat (h_refs h) = 1"
    "a_entries a e = Some \<lparr>e_key = h_key h, e_hash = h_hash h, e_value = h_value h, e_charge = h_charge h\<rparr>"
    using store_repD(6) [OF st, of e] assms(2,3,5) by (simp_all add: entry_rep_def)
  have refs: "unat (h_refs h + 1) = 2" using h(2) by (simp add: unat_plus_if_size word_size)
  have store: "lc_store c3 = (lc_store c)(e \<mapsto> h\<lparr>h_refs := h_refs h + 1, h_in_cache := True\<rparr>)" by (simp add: assms(5-7))
  have "entry_rep ?a x (lc_store c3 x)" for x
  proof (cases "x = e")
    case True
    have "h_refs h + 1 \<noteq> 0" using refs by auto
    then show ?thesis using True h refs assms(3) by (simp add: store entry_rep_def)
  next
    case False
    then have "entry_rep ?a x g = entry_rep a x g" for g by (intro entry_rep_cong) simp_all
    then show ?thesis using store_repD(6) [OF st, of x] False by (simp add: store)
  qed
  moreover have "a_usage ?a = a_usage a + h_charge h"
    using assms(2) h(3) store_repD(5) [OF st] by (simp add: a_usage_def add.commute)
  ultimately have "store_rep c3 ?a" using store_repD(1-5,7) [OF st] by (simp add: store_rep_def assms(6,7))
  moreover have "ht_ok (lc_store c3) (lc_table c3) (a_cached a)"
  proof -
    have "ht_ok (lc_store c3) (lc_table c) (a_cached a)" by (rule ht_ok_cong [OF ht]) (simp add: store assms(5))
    then show ?thesis by (simp add: assms(6,7))
  qed
  moreover have "lists_ok c3 (a_unused a) (used @ [e])"
  proof -
    let ?c = "update_handle e (\<lambda>h. h\<lparr>h_refs := h_refs h + 1, h_in_cache := True\<rparr>) c"
    have "lists_ok ?c (a_unused a) used" using u(1) by (simp add: lists_ok_def)
    moreover have "e \<notin> set (a_unused a @ used)" using assms(2) u(2) by simp
    ultimately have "lists_ok c2 (a_unused a) (used @ [e])" unfolding assms(6) by (rule LRU_Append_lists(2))
    then show ?thesis by (simp add: assms(7) lists_ok_def)
  qed
  ultimately show ?thesis unfolding rep_with_def using u assms(3) by (auto intro!: exI [of _ "used @ [e]"])
qed

lemma a_evict_fields [simp]:
  "a_held (a_evict es a) = a_held a" "a_fresh (a_evict es a) = a_fresh a" "a_capacity (a_evict es a) = a_capacity a"
  by (induction es arbitrary: a) (simp_all add: a_forget_def)

lemma Insert_rep:
  assumes "cache_rep c a" and "few_left 3 a"
  shows "\<exists>c'. cache_Insert key hash v charge c = Some (fst (a_Insert key hash v charge a), c') \<and> cache_rep c' (snd (a_Insert key hash v charge a))"
proof -
  let ?h = "\<lparr>h_value = v, h_key = key, h_charge = charge, h_in_cache = False, h_refs = 1, h_hash = hash\<rparr>"
  let ?c1 = "c\<lparr>lc_store := (lc_store c)(lc_fresh c \<mapsto> ?h), lc_fresh := lc_fresh c + 1\<rparr>"
  let ?a1 = "a\<lparr>a_entries := (a_entries a)(a_fresh a \<mapsto> \<lparr>e_key = key, e_hash = hash, e_value = v, e_charge = charge\<rparr>),
                 a_fresh := a_fresh a + 1, a_held := (a_held a)(a_fresh a := 1)\<rparr>"
  let ?e = "a_fresh a"
  note st = rep_withD(1) [OF assms(1)]
  have r1: "cache_rep ?c1 ?a1" and n: "?e \<notin> a_cached a" "a_held a ?e = 0"
    using new_entry_rep(1) [OF assms(1), where key = key and hash = hash and v = v and charge = charge] new_entry_rep(2,3) [OF assms(1)]
    by simp_all
  have fr: "lc_fresh c = ?e" "lc_capacity c = a_capacity a" using store_repD(1,2) [OF st] by simp_all
  have unused: "set (a_unused a) \<subseteq> a_cached a" using rep_withD(3) [OF assms(1)] by auto
  have "a_held a x + 2 < 2 ^ 31" for x using assms(2) [unfolded few_left_def] by (auto dest: spec [of _ x])
  then have few1: "few ?a1" using assms(2) by (simp add: few_left_def)
  have evicted: "\<exists>c'. (case evict_loop c2 of None \<Rightarrow> None | Some c \<Rightarrow> Some (?e, c)) = Some (?e, c') \<and> cache_rep c' (a_evict (a_unused a2) a2)"
    if "cache_rep c2 a2" "few a2" for c2 and a2 :: "'a acache" using evict_rep [OF that] by auto
  show ?thesis
  proof (cases "a_capacity a > 0")
    case False
    then have "cache_Insert key hash v charge c = (case evict_loop ?c1 of None \<Rightarrow> None | Some c \<Rightarrow> Some (?e, c))"
      using fr by (simp add: cache_Insert_def Let_def)
    moreover have "a_Insert key hash v charge a = (?e, a_evict (a_unused ?a1) ?a1)" using False by (simp add: a_Insert_def Let_def)
    ultimately show ?thesis using evicted [OF r1 few1] by simp
  next
    case True
    let ?a2 = "?a1\<lparr>a_cached := insert ?e (a_cached a)\<rparr>"
    let ?c2 = "LRU_Append InUseHead ?e (update_handle ?e (\<lambda>h. h\<lparr>h_refs := h_refs h + 1, h_in_cache := True\<rparr>) ?c1)"
    let ?c3 = "?c2\<lparr>lc_usage := lc_usage ?c2 + charge\<rparr>"
    have h: "lc_store ?c1 ?e = Some ?h" using fr by simp
    have r3: "rep_with (a_cached a) ?c3 ?a2"
      using cached_rep [OF r1 _ _ _ h refl refl] n unused by auto
    note ht3 = rep_withD(2) [OF r3]
    have card: "card (a_cached a) < 2 ^ 31" using cached_below [OF st] assms(2) by (simp add: few_left_def)
    obtain old t where i: "ht_Insert (lc_store ?c3) ?e (lc_table ?c3) = Some (old, t)"
      "ht_ok (lc_store ?c3) t (insert ?e (a_cached a - set_option old))"
      "\<forall>x. old = Some x \<longleftrightarrow> x \<in> a_cached a \<and> matches (lc_store ?c3) (key_in (lc_store ?c3) ?e) (hash_in (lc_store ?c3) ?e) x"
      using ht_Insert_spec [OF ht3 n(1) card] by blast
    have kh: "key_in (lc_store ?c3) ?e = key" "hash_in (lc_store ?c3) ?e = hash" using fr by simp_all
    have same: "lc_store ?c3 x = lc_store c x" if "x \<in> a_cached a" for x using that n(1) fr by auto
    have "old = Some x \<longleftrightarrow> a_find key hash a = Some x" for x
    proof -
      have "a_find key hash a = Some x \<longleftrightarrow> x \<in> a_cached a \<and> matches (lc_store c) key hash x"
        using ht_Lookup_spec [OF rep_withD(2) [OF assms(1)]] Lookup_find [OF assms(1)] by metis
      also have "\<dots> \<longleftrightarrow> x \<in> a_cached a \<and> matches (lc_store ?c3) key hash x" by (rule conj_cong [OF refl]) (simp only: same)
      also have "\<dots> \<longleftrightarrow> old = Some x" using i(3) unfolding kh by blast
      finally show ?thesis by blast
    qed
    then have old: "old = a_find key hash a" by (metis not_Some_eq)
    let ?c4 = "?c3\<lparr>lc_table := t\<rparr>"
    have r4: "rep_with (insert ?e (a_cached a - set_option old)) ?c4 ?a2"
      by (rule rep_with_table [OF r3 i(2)])
    let ?a3 = "let a' = (case old of None \<Rightarrow> ?a1 | Some x \<Rightarrow> a_forget x ?a1) in a'\<lparr>a_cached := insert ?e (a_cached a')\<rparr>"
    have r5: "cache_rep (FinishErase old ?c4) ?a3"
    proof (cases old)
      case None
      then show ?thesis using r4 by (simp add: FinishErase_def)
    next
      case (Some x)
      have x: "x \<in> a_cached a" using i(3) Some by blast
      then have xe: "x \<noteq> ?e" using n(1) by auto
      have "rep_with (insert ?e (a_cached a - {x})) (FinishErase (Some x) ?c4) (a_forget x ?a2)"
      proof (rule FinishErase_rep)
        show "rep_with (insert ?e (a_cached a - {x})) ?c4 ?a2" using r4 Some by simp
        have "card (insert ?e (a_cached a)) \<le> ?e + 1" using cached_below [OF st] card_insert_le_m1 [of "?e + 1" "a_cached a" ?e] by simp
        then show "card (a_cached ?a2) < 2 ^ 31" using assms(2) by (simp add: few_left_def)
        have "a_held a x + 3 < 2 ^ 31" using assms(2) unfolding few_left_def by blast
        then show "a_held ?a2 x + 1 < 2 ^ 31" using xe by simp
      qed (use x xe in auto)
      moreover have "a_forget x ?a2 = ?a3" using xe by (simp add: Some a_forget_def a_delete_def Let_def insert_Diff_if)
      ultimately show ?thesis using xe Some by (simp add: a_forget_def insert_Diff_if)
    qed
    have few3: "few ?a3" using few1 by (cases old) (auto simp: few_left_def a_forget_def Let_def)
    have "cache_Insert key hash v charge c = (case evict_loop (FinishErase old ?c4) of None \<Rightarrow> None | Some c \<Rightarrow> Some (?e, c))"
      using True i(1) fr(2) unfolding cache_Insert_def Let_def fr(1) by simp
    moreover have "a_Insert key hash v charge a = (?e, a_evict (a_unused ?a3) ?a3)"
      unfolding a_Insert_def Let_def if_P [OF True] old ..
    ultimately show ?thesis using evicted [OF r5 few3] by simp
  qed
qed

section \<open>Sequences of calls\<close>

text \<open>What the clients of one shard do. A client releases what it holds.\<close>

datatype 'v cache_call =
    Call_Insert bytes u32 'v u64
  | Call_Lookup bytes u32
  | Call_Release nat
  | Call_Erase bytes u32
  | Call_Prune

fun cache_step :: "'v cache_call \<Rightarrow> 'v lru_cache \<Rightarrow> (nat option \<times> 'v lru_cache) option" where
  "cache_step (Call_Insert key hash v charge) c = map_option (\<lambda>(e, c). (Some e, c)) (cache_Insert key hash v charge c)"
| "cache_step (Call_Lookup key hash) c = Some (cache_Lookup key hash c)"
| "cache_step (Call_Release e) c = Some (None, cache_Release e c)"
| "cache_step (Call_Erase key hash) c = Some (None, cache_Erase key hash c)"
| "cache_step Call_Prune c = map_option (Pair None) (cache_Prune c)"

fun a_step :: "'v cache_call \<Rightarrow> 'v acache \<Rightarrow> nat option \<times> 'v acache" where
  "a_step (Call_Insert key hash v charge) a = (let (e, a) = a_Insert key hash v charge a in (Some e, a))"
| "a_step (Call_Lookup key hash) a = a_Lookup key hash a"
| "a_step (Call_Release e) a = (None, a_Release e a)"
| "a_step (Call_Erase key hash) a = (None, a_Erase key hash a)"
| "a_step Call_Prune a = (None, a_Prune a)"

fun legal :: "'v cache_call \<Rightarrow> 'v acache \<Rightarrow> bool" where
  "legal (Call_Release e) a = (a_held a e > 0)"
| "legal _ a = True"

fun cache_run :: "'v cache_call list \<Rightarrow> 'v lru_cache \<Rightarrow> (nat option list \<times> 'v lru_cache) option" where
  "cache_run [] c = Some ([], c)"
| "cache_run (call # calls) c =
     (case cache_step call c of
        None \<Rightarrow> None
      | Some (r, c) \<Rightarrow> map_option (\<lambda>(rs, c). (r # rs, c)) (cache_run calls c))"

fun a_run :: "'v cache_call list \<Rightarrow> 'v acache \<Rightarrow> (nat option list \<times> 'v acache) option" where
  "a_run [] a = Some ([], a)"
| "a_run (call # calls) a =
     (if legal call a then map_option (\<lambda>(rs, a'). (fst (a_step call a) # rs, a')) (a_run calls (snd (a_step call a))) else None)"

lemma few_mono: "few_left n a \<Longrightarrow> m \<le> n \<Longrightarrow> few_left m a"
  unfolding few_left_def by (meson add_le_cancel_left order_le_less_trans)

lemma a_Erase_fields [simp]: "a_held (a_Erase key hash a) = a_held a" "a_fresh (a_Erase key hash a) = a_fresh a"
  by (simp_all add: a_Erase_def a_forget_def split: option.splits)

lemma a_Prune_fields [simp]: "a_held (a_Prune a) = a_held a" "a_fresh (a_Prune a) = a_fresh a"
proof -
  have "a_held (fold a_forget es a) = a_held a \<and> a_fresh (fold a_forget es a) = a_fresh a" for es
    by (induction es arbitrary: a) (simp_all add: a_forget_def)
  then show "a_held (a_Prune a) = a_held a" "a_fresh (a_Prune a) = a_fresh a" by (simp_all add: a_Prune_def)
qed

lemma a_step_held:
  "a_fresh (snd (a_step call a)) \<le> a_fresh a + 1" "a_held (snd (a_step call a)) e \<le> a_held a e + 1"
proof -
  have "a_fresh (snd (a_step call a)) \<le> a_fresh a + 1 \<and> (\<forall>e. a_held (snd (a_step call a)) e \<le> a_held a e + 1)"
    by (cases call)
      (auto simp: a_Insert_def a_Lookup_def a_Release_def a_forget_def Let_def split: option.splits)
  then show "a_fresh (snd (a_step call a)) \<le> a_fresh a + 1" "a_held (snd (a_step call a)) e \<le> a_held a e + 1" by blast+
qed

lemma few_step:
  assumes "few_left (Suc n) a"
  shows "few_left n (snd (a_step call a))"
proof -
  have "a_held (snd (a_step call a)) e + n < 2 ^ 31" for e
    using assms [unfolded few_left_def] a_step_held(2) [of call a e] by (auto dest: spec [of _ e])
  moreover have "a_fresh (snd (a_step call a)) + n < 2 ^ 31"
    using assms [unfolded few_left_def] a_step_held(1) [of call a] by linarith
  ultimately show ?thesis by (simp add: few_left_def)
qed

lemma step_rep:
  assumes "cache_rep c a" and "few_left 3 a" and "legal call a"
  shows "\<exists>c'. cache_step call c = Some (fst (a_step call a), c') \<and> cache_rep c' (snd (a_step call a))"
proof -
  note few = few_mono [OF assms(2), of 2, simplified]
  show ?thesis
  proof (cases call)
    case (Call_Insert key hash v charge)
    then show ?thesis using Insert_rep [OF assms(1,2), of key hash v charge] by (auto simp: case_prod_unfold Let_def)
  next
    case (Call_Lookup key hash)
    then show ?thesis using Lookup_rep [OF assms(1) few, of key hash] by (cases "cache_Lookup key hash c") auto
  next
    case (Call_Release e)
    then show ?thesis using Release_rep [OF assms(1) few] assms(3) by simp
  next
    case (Call_Erase key hash)
    then show ?thesis using erase_entry_rep [OF assms(1) few] by (simp add: cache_Erase_def)
  next
    case Call_Prune
    then show ?thesis using Prune_rep [OF assms(1) few] by auto
  qed
qed

lemma new_cache_rep: "cache_rep (new_LRUCache capacity) (a_new capacity)"
  unfolding rep_with_def using new_HandleTable_ok
  by (auto simp: store_rep_def new_LRUCache_def a_new_def entry_rep_def a_usage_def lists_ok_def intro!: exI [of _ "[]"])

lemma run_rep:
  assumes "cache_rep c a" and "few_left (length calls + 3) a" and "a_run calls a = Some (rs, a')"
  shows "\<exists>c'. cache_run calls c = Some (rs, c') \<and> cache_rep c' a'"
  using assms
proof (induction calls arbitrary: c a rs)
  case (Cons call calls)
  have l: "legal call a" using Cons.prems(3) by (auto split: if_splits)
  obtain rs' where rs: "rs = fst (a_step call a) # rs'" "a_run calls (snd (a_step call a)) = Some (rs', a')"
    using Cons.prems(3) l by auto
  obtain c1 where c1: "cache_step call c = Some (fst (a_step call a), c1)" "cache_rep c1 (snd (a_step call a))"
    using step_rep [OF Cons.prems(1) few_mono [OF Cons.prems(2)] l] by auto
  have "few_left (length calls + 3) (snd (a_step call a))"
    by (rule few_step) (use Cons.prems(2) in simp)
  from Cons.IH [OF c1(2) this rs(2)] show ?case using c1(1) rs(1) by auto
qed simp

section \<open>Nothing is lost\<close>

text \<open>Every entry is live or was deleted once.\<close>

definition conserved :: "'v acache \<Rightarrow> bool" where
  "conserved a \<longleftrightarrow> finite (dom (a_entries a)) \<and> length (a_deleted a) + card (dom (a_entries a)) = a_fresh a"

lemma conserved_cong:
  "a_entries a' = a_entries a \<Longrightarrow> a_deleted a' = a_deleted a \<Longrightarrow> a_fresh a' = a_fresh a \<Longrightarrow> conserved a' = conserved a"
  by (simp add: conserved_def)

lemma conserved_delete:
  assumes "conserved a" and "e \<in> dom (a_entries a)"
  shows "conserved (a_delete e a)"
proof -
  have "card (dom (a_entries a)) > 0" using assms by (auto simp: conserved_def card_gt_0_iff)
  then show ?thesis using assms by (simp add: a_delete_def conserved_def)
qed

lemma conserved_forget: "conserved a \<Longrightarrow> e \<in> dom (a_entries a) \<Longrightarrow> conserved (a_forget e a)"
  unfolding a_forget_def by (rule conserved_delete) (simp_all add: conserved_def)

lemma dom_forget: "x \<noteq> e \<Longrightarrow> x \<in> dom (a_entries (a_forget e a)) \<longleftrightarrow> x \<in> dom (a_entries a)"
  by (auto simp: a_forget_def a_delete_def)

lemma subset_dom_forget:
  assumes "A \<subseteq> dom (a_entries a)" and "e \<notin> A"
  shows "A \<subseteq> dom (a_entries (a_forget e a))"
proof
  fix x
  assume "x \<in> A"
  then have "x \<noteq> e" "x \<in> dom (a_entries a)" using assms by blast+
  then show "x \<in> dom (a_entries (a_forget e a))" by (simp only: dom_forget not_False_eq_True)
qed

lemma conserved_evict: "conserved a \<Longrightarrow> set es \<subseteq> dom (a_entries a) \<Longrightarrow> distinct es \<Longrightarrow> conserved (a_evict es a)"
proof (induction es arbitrary: a)
  case (Cons e es)
  have "conserved (a_forget e a)" using Cons.prems by (intro conserved_forget) auto
  moreover have "set es \<subseteq> dom (a_entries (a_forget e a))" using Cons.prems by (intro subset_dom_forget) auto
  ultimately show ?case using Cons by simp
qed simp

lemma conserved_fold: "conserved a \<Longrightarrow> set es \<subseteq> dom (a_entries a) \<Longrightarrow> distinct es \<Longrightarrow> conserved (fold a_forget es a)"
proof (induction es arbitrary: a)
  case (Cons e es)
  have "conserved (a_forget e a)" using Cons.prems by (intro conserved_forget) auto
  moreover have "set es \<subseteq> dom (a_entries (a_forget e a))" using Cons.prems by (intro subset_dom_forget) auto
  ultimately show ?case using Cons by simp
qed simp

lemma rep_facts:
  assumes "cache_rep c a"
  shows "set (a_unused a) \<subseteq> a_cached a" and "distinct (a_unused a)" and "a_cached a \<subseteq> dom (a_entries a)"
    and "a_fresh a \<notin> dom (a_entries a)" and "a_held a e > 0 \<Longrightarrow> e \<in> dom (a_entries a)"
proof -
  note st = rep_withD(1) [OF assms]
  show "set (a_unused a) \<subseteq> a_cached a" "distinct (a_unused a)" using rep_withD(3) [OF assms] by (auto simp: lists_ok_def)
  show "a_cached a \<subseteq> dom (a_entries a)" using live_entry [OF st] by blast
  show "a_fresh a \<notin> dom (a_entries a)" using store_repD(7) [OF st, of "a_fresh a"] by (simp add: domIff)
  show "a_held a e > 0 \<Longrightarrow> e \<in> dom (a_entries a)" using live_entry [OF st, of e] by blast
qed

lemma step_conserved:
  assumes "cache_rep c a" and "conserved a" and "legal call a"
  shows "conserved (snd (a_step call a))"
proof (cases call)
  case (Call_Insert key hash v charge)
  let ?a1 = "a\<lparr>a_entries := (a_entries a)(a_fresh a \<mapsto> \<lparr>e_key = key, e_hash = hash, e_value = v, e_charge = charge\<rparr>),
                 a_fresh := a_fresh a + 1, a_held := (a_held a)(a_fresh a := 1)\<rparr>"
  note f = rep_facts(1-4) [OF assms(1)]
  have c1: "conserved ?a1" using assms(2) f(4) by (simp add: conserved_def)
  let ?a2 = "case a_find key hash a of None \<Rightarrow> ?a1 | Some old \<Rightarrow> a_forget old ?a1"
  have c2: "conserved ?a2 \<and> distinct (a_unused ?a2) \<and> set (a_unused ?a2) \<subseteq> dom (a_entries ?a2)"
  proof (cases "a_find key hash a")
    case None
    then show ?thesis using c1 f by auto
  next
    case (Some old)
    have "old \<in> dom (a_entries ?a1)" using a_find_cached [OF Some] f(3) by auto
    moreover have "a_unused (a_forget old ?a1) = remove1 old (a_unused a)" by (simp add: a_forget_def)
    moreover have "set (remove1 old (a_unused a)) \<subseteq> dom (a_entries (a_forget old ?a1))"
      by (rule subset_dom_forget) (use f(1-3) in auto)
    ultimately show ?thesis using Some conserved_forget [OF c1] f(2) by simp
  qed
  let ?a3 = "if a_capacity a > 0 then let a' = ?a2 in a'\<lparr>a_cached := insert (a_fresh a) (a_cached a')\<rparr> else ?a1"
  have w: "conserved (b\<lparr>a_cached := S\<rparr>) \<and> distinct (a_unused (b\<lparr>a_cached := S\<rparr>)) \<and> set (a_unused (b\<lparr>a_cached := S\<rparr>)) \<subseteq> dom (a_entries (b\<lparr>a_cached := S\<rparr>))"
    if "conserved b \<and> distinct (a_unused b) \<and> set (a_unused b) \<subseteq> dom (a_entries b)" for b :: "'a acache" and S
    using that by (simp add: conserved_def)
  have b: "conserved ?a1 \<and> distinct (a_unused ?a1) \<and> set (a_unused ?a1) \<subseteq> dom (a_entries ?a1)" using c1 f by auto
  have "conserved ?a3 \<and> distinct (a_unused ?a3) \<and> set (a_unused ?a3) \<subseteq> dom (a_entries ?a3)"
  proof (cases "a_capacity a > 0")
    case True
    show ?thesis unfolding if_P [OF True] Let_def by (rule w [OF c2])
  next
    case False
    show ?thesis unfolding if_not_P [OF False] by (rule b)
  qed
  then have "conserved (a_evict (a_unused ?a3) ?a3)" by (intro conserved_evict) simp_all
  moreover have "snd (a_step call a) = a_evict (a_unused ?a3) ?a3" by (simp only: Call_Insert a_step.simps a_Insert_def Let_def prod.case snd_conv)
  ultimately show ?thesis by (simp only:)
next
  case (Call_Release e)
  let ?a = "a\<lparr>a_held := (a_held a)(e := a_held a e - 1)\<rparr>"
  have "e \<in> dom (a_entries a)" using assms(3) rep_facts(5) [OF assms(1)] by (simp add: Call_Release)
  then have "conserved (a_delete e ?a)" using assms(2) by (intro conserved_delete) (simp_all add: conserved_def)
  then show ?thesis using assms(2) by (simp add: Call_Release a_Release_def Let_def conserved_def)
next
  case (Call_Lookup key hash)
  then show ?thesis using assms(2) by (simp add: a_Lookup_def conserved_def split: option.splits)
next
  case (Call_Erase key hash)
  show ?thesis
  proof (cases "a_find key hash a")
    case (Some e)
    then have "e \<in> dom (a_entries a)" using a_find_cached rep_facts(3) [OF assms(1)] by blast
    then show ?thesis using conserved_forget [OF assms(2)] Some Call_Erase by (simp add: a_Erase_def)
  qed (use assms(2) Call_Erase in \<open>simp add: a_Erase_def\<close>)
next
  case Call_Prune
  then show ?thesis using conserved_fold [OF assms(2), of "a_unused a"] rep_facts(1-3) [OF assms(1)] by (simp add: a_Prune_def)
qed

lemma run_conserved:
  assumes "cache_rep c a" and "few_left (length calls + 3) a" and "a_run calls a = Some (rs, a')" and "conserved a"
  shows "conserved a'"
  using assms
proof (induction calls arbitrary: c a rs)
  case (Cons call calls)
  have l: "legal call a" using Cons.prems(3) by (auto split: if_splits)
  obtain rs' where rs: "a_run calls (snd (a_step call a)) = Some (rs', a')" using Cons.prems(3) l by auto
  obtain c1 where c1: "cache_rep c1 (snd (a_step call a))"
    using step_rep [OF Cons.prems(1) few_mono [OF Cons.prems(2)] l] by auto
  have "few_left (length calls + 3) (snd (a_step call a))" by (rule few_step) (use Cons.prems(2) in simp)
  from Cons.IH [OF c1 this rs step_conserved [OF Cons.prems(1,4) l]] show ?case .
qed simp

text \<open>The destructor.\<close>

lemma destroy_loop_ok:
  assumes "links (lc_next c) p a es LruHead" and "distinct es" and "\<forall>e \<in> set es. \<exists>h. lc_store c e = Some h \<and> h_refs h = 1"
  shows "\<exists>c'. destroy_loop (lc_next c a) c = Some c' \<and>
    lc_deleted c' = lc_deleted c @ map (\<lambda>e. (h_key (handle_of c e), h_value (handle_of c e))) es \<and>
    lc_store c' = (\<lambda>e. if e \<in> set es then None else lc_store c e)"
  using assms
proof (induction es arbitrary: a c)
  case Nil
  then show ?case by (subst destroy_loop.simps) simp
next
  case (Cons e es)
  obtain h where h: "lc_store c e = Some h" "h_refs h = 1" using Cons.prems(3) by auto
  let ?c = "cache_Unref e (update_handle e (\<lambda>h. h\<lparr>h_in_cache := False\<rparr>) c)"
  have c: "lc_next ?c = lc_next c" "lc_store ?c = (lc_store c)(e := None)" "lc_deleted ?c = lc_deleted c @ [(h_key h, h_value h)]"
    using h by (simp_all add: cache_Unref_def Let_def)
  have "\<exists>c'. destroy_loop (lc_next ?c (Entry e)) ?c = Some c' \<and>
    lc_deleted c' = lc_deleted ?c @ map (\<lambda>e. (h_key (handle_of ?c e), h_value (handle_of ?c e))) es \<and>
    lc_store c' = (\<lambda>x. if x \<in> set es then None else lc_store ?c x)"
    by (rule Cons.IH) (use Cons.prems c in auto)
  then obtain c' where c': "destroy_loop (lc_next c (Entry e)) ?c = Some c'"
    "lc_deleted c' = lc_deleted ?c @ map (\<lambda>e. (h_key (handle_of ?c e), h_value (handle_of ?c e))) es"
    "lc_store c' = (\<lambda>x. if x \<in> set es then None else lc_store ?c x)" unfolding c(1) by blast
  have "map (\<lambda>e. (h_key (handle_of ?c e), h_value (handle_of ?c e))) es = map (\<lambda>e. (h_key (handle_of c e), h_value (handle_of c e))) es"
    using Cons.prems(2) by (intro map_cong) (auto simp: c(2))
  moreover have "destroy_loop (lc_next c a) c = Some c'" using Cons.prems(1) c'(1) by (subst destroy_loop.simps) simp
  ultimately show ?case using c' h by (intro exI [of _ c']) (auto simp: c fun_eq_iff)
qed

lemma destroy_ok:
  assumes "cache_rep c a" and "conserved a" and "\<And>e. a_held a e = 0"
  shows "\<exists>c'. destroy_LRUCache c = Some c' \<and> lc_store c' = (\<lambda>_. None) \<and> length (lc_deleted c') = lc_fresh c"
proof -
  note st = rep_withD(1) [OF assms(1)]
  obtain used where u: "lists_ok c (a_unused a) used" "set (a_unused a @ used) = a_cached a"
    "\<forall>e \<in> set used. a_held a e > 0" using rep_withD(3) [OF assms(1)] by blast
  have "used = []" using u(3) assms(3) by (cases used) auto
  then have cached: "set (a_unused a) = a_cached a" "distinct (a_unused a)" using u(1,2) by (simp_all add: lists_ok_def)
  have l: "links (lc_next c) (lc_prev c) LruHead (a_unused a) LruHead" using u(1) by (simp add: lists_ok_def)
  have refs: "\<forall>e \<in> set (a_unused a). \<exists>h. lc_store c e = Some h \<and> h_refs h = 1"
  proof
    fix e
    assume "e \<in> set (a_unused a)"
    then show "\<exists>h. lc_store c e = Some h \<and> h_refs h = 1"
      using live_entry [OF st, of e] cached(1) assms(3) [of e] by (auto simp: word_unat_eq_iff)
  qed
  have live: "lc_store c e = None" if "e \<notin> a_cached a" for e
    using store_repD(6) [OF st, of e] that assms(3) [of e] by (cases "lc_store c e") (auto simp: entry_rep_def unat_eq_0)
  have dom: "dom (a_entries a) = a_cached a"
  proof
    show "dom (a_entries a) \<subseteq> a_cached a"
    proof
      fix e
      assume e: "e \<in> dom (a_entries a)"
      show "e \<in> a_cached a"
      proof (rule ccontr)
        assume "e \<notin> a_cached a"
        then have "a_entries a e = None" using live [of e] store_repD(6) [OF st, of e] by (simp add: entry_rep_def)
        then show False using e by blast
      qed
    qed
  qed (rule rep_facts(3) [OF assms(1)])
  have "length (a_unused a) = card (a_cached a)" using cached distinct_card by metis
  then have n: "length (lc_deleted c) + length (a_unused a) = lc_fresh c"
    using assms(2) store_repD(2,3) [OF st] dom by (simp add: conserved_def)
  obtain c' where c': "destroy_loop (lc_next c LruHead) c = Some c'"
    "lc_deleted c' = lc_deleted c @ map (\<lambda>e. (h_key (handle_of c e), h_value (handle_of c e))) (a_unused a)"
    "lc_store c' = (\<lambda>e. if e \<in> set (a_unused a) then None else lc_store c e)"
    using destroy_loop_ok [OF l cached(2) refs] by blast
  have "lc_store c' = (\<lambda>_. None)" unfolding c'(3) cached(1) using live by (intro ext) simp
  then show ?thesis using c'(1,2) n by (simp add: destroy_LRUCache_def)
qed

section \<open>Properties\<close>

text \<open>
  C8: The cache does what a cache promises, whatever its clients do as long as they release only handles they hold: every call ends
  and returns what the abstract cache returns, a lookup finds exactly the cached entry of its key, a handle that is held
  keeps its key and value even after its entry was erased, replaced or evicted, deleters are called in the
  abstract order, the recorded usage is the sum of the charges of the cached entries, and every entry is live or was
  deleted exactly once. When no handle is held any more the destructor deletes all that is left. The bound on the number of calls
  keeps the 32-bit counts from wrapping around.
\<close>

theorem cache_keeps_promise:
  assumes "a_run calls (a_new capacity) = Some (rs, a)" and "length calls < 2 ^ 31 - 3"
  shows "\<exists>c. cache_run calls (new_LRUCache capacity) = Some (rs, c) \<and>
    (\<forall>key hash. fst (cache_Lookup key hash c) = a_find key hash a) \<and>
    (\<forall>e. a_held a e > 0 \<longrightarrow> (\<exists>h. lc_store c e = Some h \<and> a_entries a e =
       Some \<lparr>e_key = h_key h, e_hash = h_hash h, e_value = h_value h, e_charge = h_charge h\<rparr>)) \<and>
    lc_deleted c = a_deleted a \<and> lc_usage c = (\<Sum>e \<in> a_cached a. e_charge (the (a_entries a e))) \<and>
    length (lc_deleted c) + card (dom (lc_store c)) = lc_fresh c \<and>
    ((\<forall>e. a_held a e = 0) \<longrightarrow>
       (\<exists>c'. destroy_LRUCache c = Some c' \<and> lc_store c' = (\<lambda>_. None) \<and> length (lc_deleted c') = lc_fresh c))"
proof -
  have few: "few_left (length calls + 3) (a_new capacity)" using assms(2) by (simp add: few_left_def a_new_def)
  obtain c where c: "cache_run calls (new_LRUCache capacity) = Some (rs, c)" "cache_rep c a"
    using run_rep [OF new_cache_rep few assms(1)] by blast
  have "conserved (a_new capacity)" by (simp add: conserved_def a_new_def)
  then have k: "conserved a" by (rule run_conserved [OF new_cache_rep few assms(1)])
  note st = rep_withD(1) [OF c(2)]
  have "a_entries a e = None \<longleftrightarrow> lc_store c e = None" for e
    using store_repD(6) [OF st, of e] by (auto simp: entry_rep_def split: option.splits)
  then have "dom (lc_store c) = dom (a_entries a)" unfolding dom_def by simp
  then have n: "length (lc_deleted c) + card (dom (lc_store c)) = lc_fresh c"
    using k store_repD(2,3) [OF st] by (simp add: conserved_def)
  have f: "fst (cache_Lookup key hash c) = a_find key hash a" for key hash
    using Lookup_find [OF c(2), of key hash] by (simp add: cache_Lookup_def split: option.splits)
  have "\<exists>h. lc_store c e = Some h \<and> a_entries a e =
       Some \<lparr>e_key = h_key h, e_hash = h_hash h, e_value = h_value h, e_charge = h_charge h\<rparr>" if "a_held a e > 0" for e
    using live_entry [OF st, of e] that by blast
  then show ?thesis using c(1) f n store_repD(3,4) [OF st] destroy_ok [OF c(2) k] unfolding a_usage_def by blast
qed

text \<open>A cache with room for one unit: the second entry pushes out the first once nobody holds it.\<close>

definition demo_calls :: "nat cache_call list" where
  "demo_calls = [Call_Insert [1] 5 10 1, Call_Release 0, Call_Insert [2] 5 20 1, Call_Lookup [1] 5, Call_Lookup [2] 5]"

theorem cache_keeps_promise_witness:
  "\<exists>c. cache_run demo_calls (new_LRUCache 1) = Some ([Some 0, None, Some 1, None, Some 1], c) \<and> lc_deleted c = [([1], 10)]"
proof -
  obtain rs a where r: "a_run demo_calls (a_new 1) = Some (rs, a)" "rs = [Some 0, None, Some 1, None, Some 1]" "a_deleted a = [([1], 10)]"
    by (simp add: demo_calls_def a_new_def a_Insert_def a_Lookup_def a_Release_def a_find_def a_forget_def a_delete_def a_usage_def Let_def)
  have "length demo_calls < 2 ^ 31 - 3" by (simp add: demo_calls_def)
  from cache_keeps_promise [OF r(1) this] obtain c where
    "cache_run demo_calls (new_LRUCache 1) = Some (rs, c)" "lc_deleted c = a_deleted a" by (elim exE conjE)
  then show ?thesis using r(2,3) by simp
qed

end
