(* ===== verification/RandomFiles.thy ===== *)
theory RandomFiles
  imports Format
begin

text \<open>
  Opening files for random access (\<^verbatim>\<open>PosixEnv::NewRandomAccessFile\<close> and \<^verbatim>\<open>class Limiter\<close> in
  \<^verbatim>\<open>util/env_posix.cc\<close>): at most a fixed number of files are mapped into memory, at most a fixed number of the
  others keep a descriptor, and the rest are opened again for every read.
\<close>

section \<open>Limiters\<close>

definition Limiter_Acquire :: "int \<Rightarrow> bool \<times> int" where
  "Limiter_Acquire acquires_allowed =
     (let old_acquires_allowed = acquires_allowed; acquires_allowed = acquires_allowed - 1
      in if old_acquires_allowed > 0 then (True, acquires_allowed) else (False, acquires_allowed + 1))"

definition Limiter_Release :: "int \<Rightarrow> int" where
  "Limiter_Release acquires_allowed = acquires_allowed + 1"

section \<open>Opening and deleting\<close>

text \<open>\<open>re_refused\<close> says which reads of which file the kernel will refuse.\<close>

record random_env =
  re_posix :: posix_env
  re_mmap_limiter :: int
  re_fd_limiter :: int
  re_refused :: "bytes \<Rightarrow> u64 \<Rightarrow> u64 \<Rightarrow> errno option"

record open_file =
  of_file :: random_file
  of_has_permanent_fd :: bool

definition new_PosixRandomAccessFile :: "bytes \<Rightarrow> fd \<Rightarrow> random_env \<Rightarrow> open_file \<times> random_env" where
  "new_PosixRandomAccessFile filename d env =
     (let (permanent, allowed) = Limiter_Acquire (re_fd_limiter env)
      in (\<lparr>of_file = \<lparr>ra_filename = filename, ra_data = fd_data d, ra_mmapped = False, ra_fails = re_refused env filename\<rparr>,
           of_has_permanent_fd = permanent\<rparr>,
          env\<lparr>re_fd_limiter := allowed\<rparr>))"

text \<open>A region of no bytes cannot be mapped.\<close>

definition sys_mmap :: "u64 \<Rightarrow> fd \<Rightarrow> posix_env \<Rightarrow> (errno + bytes) \<times> posix_env" where
  "sys_mmap n d env =
     (let (r, env) = name_call env
      in case r of
           Some e \<Rightarrow> (Inl e, env)
         | None \<Rightarrow> (if n = 0 then Inl einval else Inr (take (unat n) (fd_data d)), env))"

definition env_NewRandomAccessFile :: "bytes \<Rightarrow> random_env \<Rightarrow> (status + open_file) \<times> random_env" where
  "env_NewRandomAccessFile filename env =
     (case sys_open_read filename (re_posix env) of
        (Inl e, p) \<Rightarrow> (Inl (PosixError filename e), env\<lparr>re_posix := p\<rparr>)
      | (Inr d, p) \<Rightarrow>
          let (acquired, allowed) = Limiter_Acquire (re_mmap_limiter env);
              env = env\<lparr>re_posix := p, re_mmap_limiter := allowed\<rparr>
          in if \<not> acquired then let (f, env) = new_PosixRandomAccessFile filename d env in (Inr f, env)
             else
               let (s, file_size, p) = env_GetFileSize filename (re_posix env);
                   (result, p) =
                     (if ok s then
                        (case sys_mmap file_size d p of
                           (Inl e, p) \<Rightarrow> (Inl (PosixError filename e), p)
                         | (Inr mmap_base, p) \<Rightarrow>
                             (Inr \<lparr>of_file = \<lparr>ra_filename = filename, ra_data = mmap_base, ra_mmapped = True, ra_fails = (\<lambda>_ _. None)\<rparr>,
                                   of_has_permanent_fd = False\<rparr>, p))
                      else (Inl s, p));
                   env = env\<lparr>re_posix := p\<rparr>
               in (case result of
                     Inr f \<Rightarrow> (Inr f, env)
                   | Inl s \<Rightarrow> (Inl s, env\<lparr>re_mmap_limiter := Limiter_Release (re_mmap_limiter env)\<rparr>)))"

text \<open>The destructors of the two kinds of file.\<close>

definition delete_file :: "open_file \<Rightarrow> random_env \<Rightarrow> random_env" where
  "delete_file f env =
     (if ra_mmapped (of_file f) then env\<lparr>re_mmap_limiter := Limiter_Release (re_mmap_limiter env)\<rparr>
      else if of_has_permanent_fd f then env\<lparr>re_fd_limiter := Limiter_Release (re_fd_limiter env)\<rparr>
      else env)"

section \<open>Resources are returned\<close>

text \<open>What a file holds of the two limits.\<close>

definition mmaps_of :: "open_file \<Rightarrow> int" where
  "mmaps_of f = (if ra_mmapped (of_file f) then 1 else 0)"

definition fds_of :: "open_file \<Rightarrow> int" where
  "fds_of f = (if \<not> ra_mmapped (of_file f) \<and> of_has_permanent_fd f then 1 else 0)"

lemma sys_open_read_files: "sys_open_read f env = (r, env') \<Longrightarrow> pe_files env' = pe_files env"
  by (auto simp: sys_open_read_def new_fd_files split: prod.splits option.splits)

lemma env_GetFileSize_files: "env_GetFileSize f env = (s, n, env') \<Longrightarrow> pe_files env' = pe_files env"
  by (auto simp: env_GetFileSize_def split: prod.splits option.splits)

lemma sys_mmap_files: "sys_mmap n d env = (r, env') \<Longrightarrow> pe_files env' = pe_files env"
  by (auto simp: sys_mmap_def split: prod.splits option.splits)

text \<open>What opening takes from the limits.\<close>

definition takes :: "random_env \<Rightarrow> status + open_file \<Rightarrow> random_env \<Rightarrow> bool" where
  "takes env r env' \<longleftrightarrow>
     (case r of
        Inl s \<Rightarrow> re_mmap_limiter env' = re_mmap_limiter env \<and> re_fd_limiter env' = re_fd_limiter env
      | Inr f \<Rightarrow> re_mmap_limiter env' + mmaps_of f = re_mmap_limiter env \<and> re_fd_limiter env' + fds_of f = re_fd_limiter env \<and>
          (mmaps_of f = 1 \<longrightarrow> re_mmap_limiter env > 0) \<and> (fds_of f = 1 \<longrightarrow> re_fd_limiter env > 0)) \<and>
     re_refused env' = re_refused env \<and> pe_files (re_posix env') = pe_files (re_posix env)"

lemma new_PosixRandomAccessFile_takes:
  "new_PosixRandomAccessFile filename d env = (f, env') \<Longrightarrow> takes env (Inr f) env'"
  by (auto simp: takes_def new_PosixRandomAccessFile_def Limiter_Acquire_def mmaps_of_def fds_of_def Let_def split: if_splits)

lemma takes_posix: "takes (env\<lparr>re_posix := p\<rparr>) r env' \<Longrightarrow> pe_files p = pe_files (re_posix env) \<Longrightarrow> takes env r env'"
  by (cases r) (simp_all add: takes_def)

lemma NewRandomAccessFile_takes:
  assumes "env_NewRandomAccessFile filename env = (r, env')"
  shows "takes env r env'"
proof -
  obtain x p where o: "sys_open_read filename (re_posix env) = (x, p)" by fastforce
  note files = sys_open_read_files [OF o]
  show ?thesis
  proof (cases x)
    case (Inl e)
    then show ?thesis using assms o files by (auto simp: env_NewRandomAccessFile_def takes_def)
  next
    case (Inr d)
    show ?thesis
    proof (cases "re_mmap_limiter env > 0")
      case False
      then have "\<exists>f. new_PosixRandomAccessFile filename d (env\<lparr>re_posix := p\<rparr>) = (f, env') \<and> r = Inr f"
        using assms o Inr by (auto simp: env_NewRandomAccessFile_def Limiter_Acquire_def Let_def split: prod.splits)
      then show ?thesis using new_PosixRandomAccessFile_takes takes_posix [OF _ files] by blast
    next
      case True
      obtain s n p1 where g: "env_GetFileSize filename p = (s, n, p1)" by (cases "env_GetFileSize filename p")
      obtain m p2 where m: "sys_mmap n d p1 = (m, p2)" by fastforce
      note files' = files env_GetFileSize_files [OF g] sys_mmap_files [OF m]
      show ?thesis
        using assms o Inr g m True files'
        by (cases "ok s"; cases m)
          (auto simp: env_NewRandomAccessFile_def Limiter_Acquire_def Limiter_Release_def Let_def takes_def mmaps_of_def fds_of_def)
    qed
  qed
qed

lemma delete_file_limits:
  "re_mmap_limiter (delete_file f env) = re_mmap_limiter env + mmaps_of f"
  "re_fd_limiter (delete_file f env) = re_fd_limiter env + fds_of f"
  "re_refused (delete_file f env) = re_refused env" "re_posix (delete_file f env) = re_posix env"
  by (auto simp: delete_file_def mmaps_of_def fds_of_def Limiter_Release_def)

section \<open>Opening from a reliable kernel\<close>

definition reliable_random :: "random_env \<Rightarrow> bool" where
  "reliable_random env \<longleftrightarrow> reliable_env (re_posix env) \<and> re_refused env = (\<lambda>_ _ _. None)"

lemma reliable_open_read:
  assumes "reliable_env env" and "pe_files env f = Some data"
  shows "\<exists>d env'. sys_open_read f env = (Inr d, env') \<and> fd_data d = data \<and> reliable_env env' \<and> pe_files env' = pe_files env"
proof -
  obtain env1 where n: "name_call env = (None, env1)" "reliable_env env1" "pe_files env1 = pe_files env"
    by (rule reliable_name_call [OF assms(1)])
  obtain d env2 where d: "new_fd data env1 = (d, env2)" by fastforce
  have "fd_data d = data \<and> reliable_env env2 \<and> pe_files env2 = pe_files env1"
    using d n(2) by (auto simp: new_fd_def reliable_env_def split: list.splits)
  then show ?thesis using n d assms(2) by (simp add: sys_open_read_def)
qed

lemma reliable_GetFileSize:
  assumes "reliable_env env" and "pe_files env f = Some data"
  shows "\<exists>env'. env_GetFileSize f env = (OK, word_of_nat (length data), env') \<and> reliable_env env' \<and> pe_files env' = pe_files env"
proof -
  obtain env1 where n: "name_call env = (None, env1)" "reliable_env env1" "pe_files env1 = pe_files env"
    by (rule reliable_name_call [OF assms(1)])
  then show ?thesis using assms(2) by (simp add: env_GetFileSize_def)
qed

lemma reliable_mmap:
  assumes "reliable_env env" and "fd_data d \<noteq> []" and "length (fd_data d) < 2 ^ 64"
  shows "\<exists>env'. sys_mmap (word_of_nat (length (fd_data d))) d env = (Inr (fd_data d), env') \<and> reliable_env env' \<and> pe_files env' = pe_files env"
proof -
  obtain env1 where n: "name_call env = (None, env1)" "reliable_env env1" "pe_files env1 = pe_files env"
    by (rule reliable_name_call [OF assms(1)])
  have u: "unat (word_of_nat (length (fd_data d)) :: u64) = length (fd_data d)"
    using assms(3) by (simp add: unat_of_nat take_bit_nat_eq_self)
  then have "(word_of_nat (length (fd_data d)) :: u64) \<noteq> 0" using assms(2) by (metis length_0_conv unat_0)
  then show ?thesis using n u by (simp add: sys_mmap_def)
qed

lemma reliable_NewRandomAccessFile:
  assumes "reliable_random env" and "pe_files (re_posix env) filename = Some data" and "data \<noteq> []" and "length data < 2 ^ 64"
  shows "\<exists>f env'. env_NewRandomAccessFile filename env = (Inr f, env') \<and> ra_data (of_file f) = data \<and>
    ra_fails (of_file f) = (\<lambda>_ _. None) \<and> reliable_random env' \<and> pe_files (re_posix env') = pe_files (re_posix env)"
proof -
  have r: "reliable_env (re_posix env)" "re_refused env = (\<lambda>_ _ _. None)" using assms(1) by (simp_all add: reliable_random_def)
  obtain d p where d: "sys_open_read filename (re_posix env) = (Inr d, p)" "fd_data d = data" "reliable_env p"
    "pe_files p = pe_files (re_posix env)" using reliable_open_read [OF r(1) assms(2)] by blast
  show ?thesis
  proof (cases "re_mmap_limiter env > 0")
    case False
    then show ?thesis using d r
      by (auto simp: env_NewRandomAccessFile_def new_PosixRandomAccessFile_def Limiter_Acquire_def Let_def reliable_random_def)
  next
    case True
    obtain p1 where g: "env_GetFileSize filename p = (OK, word_of_nat (length data), p1)" "reliable_env p1" "pe_files p1 = pe_files p"
      using reliable_GetFileSize [OF d(3), of filename data] d(4) assms(2) by auto
    obtain p2 where m: "sys_mmap (word_of_nat (length data)) d p1 = (Inr data, p2)" "reliable_env p2" "pe_files p2 = pe_files p1"
      using reliable_mmap [OF g(2), of d] d(2) assms(3,4) by auto
    show ?thesis using True d g m r
      by (simp add: env_NewRandomAccessFile_def Limiter_Acquire_def Let_def ok_def reliable_random_def)
  qed
qed

end
