(* ===== verification/ReadPath.thy ===== *)
theory ReadPath
  imports Levels Table
begin

text \<open>
  Reading a key from a version (\<^verbatim>\<open>Version::Get\<close> and \<^verbatim>\<open>Version::ForEachOverlapping\<close> in \<^verbatim>\<open>db/version_set.cc\<close>): the files that
  may hold the key are visited from the newest to the oldest, each through the cache of tables.
\<close>

section \<open>The files that may hold a key\<close>

definition overlapping_files :: "comparator \<Rightarrow> file_meta list list \<Rightarrow> bytes \<Rightarrow> bytes \<Rightarrow> (nat \<times> file_meta) list" where
  "overlapping_files user files user_key ikey =
     (let tmp = filter (\<lambda>f. cmp_Compare user user_key (f_start f) \<ge> 0 \<and> cmp_Compare user user_key (f_limit f) \<le> 0) (files ! 0)
      in map (Pair 0) (rev (sort_key fm_number tmp)) @
         concat (map (\<lambda>level.
             let index = FindFile user (files ! level) ikey
             in if index < length (files ! level) then
                  let f = files ! level ! index
                  in if cmp_Compare user user_key (f_start f) < 0 then [] else [(level, f)]
                else [])
           [1..<kNumLevels]))"

text \<open>The callback says whether to go on; \<open>None\<close> is a read outside of a buffer, as in \<open>Table\<close>.\<close>

fun visit :: "('s \<Rightarrow> nat \<times> file_meta \<Rightarrow> (bool \<times> 's) option) \<Rightarrow> (nat \<times> file_meta) list \<Rightarrow> 's \<Rightarrow> 's option" where
  "visit func [] st = Some st"
| "visit func (p # ps) st =
     (case func st p of
        None \<Rightarrow> None
      | Some (go_on, st) \<Rightarrow> if go_on then visit func ps st else Some st)"

definition ForEachOverlapping ::
  "comparator \<Rightarrow> file_meta list list \<Rightarrow> bytes \<Rightarrow> bytes \<Rightarrow> ('s \<Rightarrow> nat \<times> file_meta \<Rightarrow> (bool \<times> 's) option) \<Rightarrow> 's \<Rightarrow> 's option" where
  "ForEachOverlapping user files user_key ikey func st =
     visit func (overlapping_files user files user_key ikey) st"

section \<open>Looking up\<close>

datatype saver_state = SaverNotFound | SaverFound | SaverDeleted | SaverCorrupt

record saver =
  sv_state :: saver_state
  sv_user_key :: bytes
  sv_value :: "bytes option"

definition SaveValue :: "comparator \<Rightarrow> bytes \<Rightarrow> bytes \<Rightarrow> saver \<Rightarrow> saver" where
  "SaveValue user ikey v s =
     (case ParseInternalKey ikey of
        None \<Rightarrow> s\<lparr>sv_state := SaverCorrupt\<rparr>
      | Some parsed_key \<Rightarrow>
          if cmp_Compare user (pik_user_key parsed_key) (sv_user_key s) = 0 then
            (if pik_type parsed_key = kTypeValue then s\<lparr>sv_state := SaverFound, sv_value := Some v\<rparr>
             else s\<lparr>sv_state := SaverDeleted\<rparr>)
          else s)"

text \<open>What \<^verbatim>\<open>TableCache::Get\<close> does with a cache: status, the entry handed to the callback, and the cache after.\<close>

type_synonym 'tc table_get = "'tc \<Rightarrow> u64 \<Rightarrow> u64 \<Rightarrow> bytes \<Rightarrow> (status \<times> (bytes \<times> bytes) option \<times> 'tc) option"

record 'tc get_state =
  gs_cache :: 'tc
  gs_saver :: saver
  gs_stats :: get_stats
  gs_last_file_read :: "(nat \<times> file_meta) option"
  gs_status :: status
  gs_found :: bool

definition Get_Match :: "comparator \<Rightarrow> 'tc table_get \<Rightarrow> bytes \<Rightarrow> 'tc get_state \<Rightarrow> nat \<times> file_meta \<Rightarrow> (bool \<times> 'tc get_state) option" where
  "Get_Match user tc_Get ikey st p =
     (let (level, f) = p;
          st = (case gs_last_file_read st of
                  Some (last_level, last_file) \<Rightarrow>
                    if seek_file (gs_stats st) = None
                    then st\<lparr>gs_stats := \<lparr>seek_file = Some last_file, seek_file_level = last_level\<rparr>\<rparr> else st
                | None \<Rightarrow> st);
          st = st\<lparr>gs_last_file_read := Some (level, f)\<rparr>
      in case tc_Get (gs_cache st) (fm_number f) (fm_file_size f) ikey of
           None \<Rightarrow> None
         | Some (s, found, tc) \<Rightarrow>
             let st = st\<lparr>gs_cache := tc, gs_status := s,
                         gs_saver := (case found of None \<Rightarrow> gs_saver st | Some (k, v) \<Rightarrow> SaveValue user k v (gs_saver st))\<rparr>
             in if \<not> ok s then Some (False, st\<lparr>gs_found := True\<rparr>)
                else (case sv_state (gs_saver st) of
                        SaverNotFound \<Rightarrow> Some (True, st)
                      | SaverFound \<Rightarrow> Some (False, st\<lparr>gs_found := True\<rparr>)
                      | SaverDeleted \<Rightarrow> Some (False, st)
                      | SaverCorrupt \<Rightarrow>
                          Some (False, st\<lparr>gs_status := Corruption (status_msg (bytes_of ''corrupted key for '') (sv_user_key (gs_saver st))),
                                         gs_found := True\<rparr>)))"

definition Version_Get ::
  "comparator \<Rightarrow> 'tc table_get \<Rightarrow> version \<Rightarrow> lookup_key \<Rightarrow> 'tc \<Rightarrow> (status \<times> bytes option \<times> get_stats \<times> 'tc) option" where
  "Version_Get user tc_Get v k tc =
     map_option (\<lambda>st. (if gs_found st then gs_status st else NotFound [], sv_value (gs_saver st), gs_stats st, gs_cache st))
       (ForEachOverlapping user (v_files v) (lk_user_key k) (lk_internal_key k) (Get_Match user tc_Get (lk_internal_key k))
         \<lparr>gs_cache = tc, gs_saver = \<lparr>sv_state = SaverNotFound, sv_user_key = lk_user_key k, sv_value = None\<rparr>,
          gs_stats = \<lparr>seek_file = None, seek_file_level = 0\<rparr>, gs_last_file_read = None, gs_status = OK, gs_found = False\<rparr>)"

text \<open>Charging a seek when a sampled key has two files to merge.\<close>

definition RecordReadSample :: "comparator \<Rightarrow> bytes \<Rightarrow> version \<Rightarrow> bool \<times> version" where
  "RecordReadSample user key v =
     (case ParseInternalKey key of
        None \<Rightarrow> (False, v)
      | Some parsed \<Rightarrow>
          let Match = (\<lambda>(matches, stats) (level, f).
                 let matches = matches + 1;
                     stats = (if matches = 1 then \<lparr>seek_file = Some f, seek_file_level = level\<rparr> else stats)
                 in Some (matches < 2, matches, stats))
          in case ForEachOverlapping user (v_files v) (pik_user_key parsed) key Match (0 :: nat, \<lparr>seek_file = None, seek_file_level = 0\<rparr>) of
               Some (matches, stats) \<Rightarrow> if matches \<ge> 2 then UpdateStats stats v else (False, v)
             | None \<Rightarrow> (False, v))"

section \<open>The newest visible entry\<close>

definition visible_in :: "(bytes \<times> bytes) set \<Rightarrow> bytes \<Rightarrow> u64 \<Rightarrow> (bytes \<times> bytes) set" where
  "visible_in E u s = {e \<in> E. ExtractUserKey (fst e) = u \<and> key_tag (fst e) \<le> PackSequenceAndType s kValueTypeForSeek}"

definition newest :: "(bytes \<times> bytes) set \<Rightarrow> bytes \<Rightarrow> u64 \<Rightarrow> (bytes \<times> bytes) option \<Rightarrow> bool" where
  "newest E u s r \<longleftrightarrow>
     (case r of
        None \<Rightarrow> visible_in E u s = {}
      | Some e \<Rightarrow> e \<in> visible_in E u s \<and> (\<forall>e' \<in> visible_in E u s. key_tag (fst e') \<le> key_tag (fst e)))"

text \<open>What reading the entry gives.\<close>

definition read_entry :: "(bytes \<times> bytes) option \<Rightarrow> status \<times> bytes option" where
  "read_entry r =
     (case r of
        None \<Rightarrow> (NotFound [], None)
      | Some (k, v) \<Rightarrow>
          (case ParseInternalKey k of
             None \<Rightarrow> (NotFound [], None)
           | Some p \<Rightarrow> if pik_type p = kTypeValue then (OK, Some v) else (NotFound [], None)))"

abbreviation bytewise_internal :: comparator where
  "bytewise_internal \<equiv> InternalKeyComparator BytewiseComparator"

lemma bytewise_eq: "cmp_Compare BytewiseComparator a b = 0 \<longleftrightarrow> a = b"
  by (simp add: BytewiseComparator_def)

text \<open>A lookup in the sorted entries of one file.\<close>

lemma find_first:
  assumes "find P xs = Some x"
  obtains ys zs where "xs = ys @ x # zs" and "P x" and "\<forall>y \<in> set ys. \<not> P y"
proof -
  obtain i where i: "i < length xs" "P (xs ! i)" "x = xs ! i" "\<forall>j < i. \<not> P (xs ! j)" using assms by (auto simp: find_Some_iff)
  have "xs = take i xs @ x # drop (Suc i) xs" using i(1,3) id_take_nth_drop by blast
  moreover have "\<forall>y \<in> set (take i xs). \<not> P y" using i(4) by (auto simp: in_set_conv_nth)
  ultimately show ?thesis using that i(2,3) by blast
qed

lemma internal_less:
  "cmp_Compare bytewise_internal a b < 0 \<longleftrightarrow>
     slice_compare (ExtractUserKey a) (ExtractUserKey b) < 0 \<or> ExtractUserKey a = ExtractUserKey b \<and> key_tag b < key_tag a"
  using bytewise_user.ikey_Compare_less [of a b] by (simp add: InternalKeyComparator_def BytewiseComparator_def)

lemma slice_less_trans: "slice_compare a b < 0 \<Longrightarrow> slice_compare b c \<le> 0 \<Longrightarrow> slice_compare a c < 0"
  using bytewise_user.user_less_le [of a b c] by (simp add: BytewiseComparator_def)

lemma answers_newest:
  assumes "sorted_wrt (\<lambda>a b. cmp_Compare bytewise_internal (fst a) (fst b) < 0) es"
    and "answers bytewise_internal es (InternalKey u s kValueTypeForSeek) r"
  shows "newest (set es) u s (case r of Some e \<Rightarrow> if ExtractUserKey (fst e) = u then r else None | None \<Rightarrow> None)"
proof -
  let ?k = "InternalKey u s kValueTypeForSeek"
  let ?less = "\<lambda>a b. cmp_Compare bytewise_internal a b < 0"
  have vis: "e \<in> visible_in (set es) u s \<longleftrightarrow> e \<in> set es \<and> ExtractUserKey (fst e) = u \<and> \<not> ?less (fst e) ?k" for e
    by (auto simp: visible_in_def internal_less)
  have first: "newest (set es) u s (if ExtractUserKey (fst e) = u then Some e else None)"
    if "find (\<lambda>e. \<not> ?less (fst e) ?k) es = Some e" for e
  proof -
    obtain ys zs where es: "es = ys @ e # zs" and e: "\<not> ?less (fst e) ?k" and before: "\<forall>y \<in> set ys. \<not> \<not> ?less (fst y) ?k"
      using find_first [OF \<open>find (\<lambda>e. \<not> ?less (fst e) ?k) es = Some e\<close>] by blast
    have after: "?less (fst e) (fst y)" if "y \<in> set zs" for y using assms(1) that by (simp add: es sorted_wrt_append)
    show ?thesis
    proof (cases "ExtractUserKey (fst e) = u")
      case True
      have "key_tag (fst y) \<le> key_tag (fst e)" if "y \<in> visible_in (set es) u s" for y
      proof -
        have "y \<in> set (ys @ e # zs)" "\<not> ?less (fst y) ?k" using that unfolding vis unfolding es by blast+
        then have "y = e \<or> y \<in> set zs" using before by auto
        then show ?thesis using after [of y] that True by (auto simp: internal_less vis)
      qed
      moreover have "e \<in> visible_in (set es) u s" using True e unfolding vis by (simp add: es)
      ultimately show ?thesis using True by (simp add: newest_def)
    next
      case False
      then have gt: "slice_compare u (ExtractUserKey (fst e)) < 0"
      proof -
        have "slice_compare u (ExtractUserKey (fst e)) \<noteq> 0" using False by auto
        moreover have "\<not> slice_compare (ExtractUserKey (fst e)) u < 0" using e by (simp add: internal_less)
        ultimately show ?thesis using slice_compare_swap [of "ExtractUserKey (fst e)" u] by linarith
      qed
      have "ExtractUserKey (fst y) \<noteq> u" if "y \<in> set zs" for y
      proof -
        have "slice_compare (ExtractUserKey (fst e)) (ExtractUserKey (fst y)) \<le> 0" using after [OF that] by (auto simp: internal_less)
        then have "slice_compare u (ExtractUserKey (fst y)) < 0" using gt slice_less_trans by blast
        then show ?thesis by auto
      qed
      moreover have "y \<notin> visible_in (set es) u s" if "y \<in> set ys" for y using before that unfolding vis by blast
      moreover have "set es = set ys \<union> {e} \<union> set zs" by (auto simp: es)
      ultimately have "visible_in (set es) u s = {}" using False unfolding visible_in_def by blast
      then show ?thesis using False by (simp add: newest_def)
    qed
  qed
  have none: "newest (set es) u s None" if "find (\<lambda>e. \<not> ?less (fst e) ?k) es = None"
  proof -
    have "e \<notin> visible_in (set es) u s" for e using that unfolding vis find_None_iff by blast
    then show ?thesis by (auto simp: newest_def)
  qed
  show ?thesis
  proof (cases r)
    case (Some e)
    then have "find (\<lambda>e. \<not> ?less (fst e) ?k) es = Some e" using assms(2) by (simp add: answers_def first_from_def)
    from first [OF this] show ?thesis unfolding Some by simp
  next
    case None
    show ?thesis
    proof (cases "find (\<lambda>e. \<not> ?less (fst e) ?k) es")
      case (Some e)
      then show ?thesis using first [OF Some] assms(2) None by (simp add: answers_def first_from_def)
    qed (use none None in simp)
  qed
qed

section \<open>The visit\<close>

text \<open>
  What a version's reads rely on: a cache of tables that answers lookups in the files of the version, as often as it says, from
  the sorted entries each file holds.
\<close>

locale table_source =
  fixes tc_Get :: "'tc table_get" and serves :: "nat \<Rightarrow> 'tc \<Rightarrow> bool" and known :: "file_meta \<Rightarrow> bool"
    and entries :: "u64 \<Rightarrow> (bytes \<times> bytes) list"
  assumes Get_answers: "serves (Suc n) tc \<Longrightarrow> known f \<Longrightarrow> 8 \<le> length k \<Longrightarrow>
      \<exists>r tc'. tc_Get tc (fm_number f) (fm_file_size f) k = Some (OK, r, tc') \<and> serves n tc' \<and>
        answers bytewise_internal (entries (fm_number f)) k r"
    and serves_less: "serves (Suc n) tc \<Longrightarrow> serves n tc"
    and entries_sorted: "known f \<Longrightarrow> sorted_wrt (\<lambda>a b. cmp_Compare bytewise_internal (fst a) (fst b) < 0) (entries (fm_number f))"
    and entries_parse: "known f \<Longrightarrow> e \<in> set (entries (fm_number f)) \<Longrightarrow> ParseInternalKey (fst e) \<noteq> None"
begin

definition start_state :: "bytes \<Rightarrow> 'tc get_state \<Rightarrow> bool" where
  "start_state u st \<longleftrightarrow> gs_saver st = \<lparr>sv_state = SaverNotFound, sv_user_key = u, sv_value = None\<rparr> \<and> \<not> gs_found st"

definition result :: "'tc get_state \<Rightarrow> status \<times> bytes option" where
  "result st = (if gs_found st then gs_status st else NotFound [], sv_value (gs_saver st))"

lemma Get_Match_step:
  assumes "serves (Suc n) (gs_cache st)" and "known f" and "start_state u st"
  shows "\<exists>go st'. Get_Match BytewiseComparator tc_Get (InternalKey u s kValueTypeForSeek) st (level, f) = Some (go, st') \<and>
    serves n (gs_cache st') \<and>
    (if go then visible_in (set (entries (fm_number f))) u s = {} \<and> start_state u st'
     else \<exists>e. newest (set (entries (fm_number f))) u s (Some e) \<and> result st' = read_entry (Some e))"
proof -
  let ?k = "InternalKey u s kValueTypeForSeek"
  obtain r tc where r: "tc_Get (gs_cache st) (fm_number f) (fm_file_size f) ?k = Some (OK, r, tc)" "serves n tc"
    "answers bytewise_internal (entries (fm_number f)) ?k r" using Get_answers [OF assms(1,2), of ?k] by auto
  note new = answers_newest [OF entries_sorted [OF assms(2)] r(3)]
  have st: "gs_saver st = \<lparr>sv_state = SaverNotFound, sv_user_key = u, sv_value = None\<rparr>" "\<not> gs_found st" using assms(3) by (simp_all add: start_state_def)
  obtain st1 where st1: "st1 = (case gs_last_file_read st of
                  Some (last_level, last_file) \<Rightarrow>
                    if seek_file (gs_stats st) = None
                    then st\<lparr>gs_stats := \<lparr>seek_file = Some last_file, seek_file_level = last_level\<rparr>\<rparr> else st
                | None \<Rightarrow> st)\<lparr>gs_last_file_read := Some (level, f)\<rparr>" by blast
  have same: "gs_cache st1 = gs_cache st" "gs_saver st1 = gs_saver st" "gs_found st1 = gs_found st"
    by (auto simp: st1 split: option.splits)
  let ?sv = "case r of None \<Rightarrow> gs_saver st | Some (k, v) \<Rightarrow> SaveValue BytewiseComparator k v (gs_saver st)"
  let ?st2 = "st1\<lparr>gs_cache := tc, gs_status := OK, gs_saver := ?sv\<rparr>"
  have match: "Get_Match BytewiseComparator tc_Get ?k st (level, f) =
    (case sv_state ?sv of
       SaverNotFound \<Rightarrow> Some (True, ?st2)
     | SaverFound \<Rightarrow> Some (False, ?st2\<lparr>gs_found := True\<rparr>)
     | SaverDeleted \<Rightarrow> Some (False, ?st2)
     | SaverCorrupt \<Rightarrow> Some (False, ?st2\<lparr>gs_status := Corruption (status_msg (bytes_of ''corrupted key for '') (sv_user_key ?sv)), gs_found := True\<rparr>))"
    unfolding Get_Match_def Let_def prod.case st1 [symmetric] same r(1) option.case by (simp add: ok_def split: saver_state.split)
  show ?thesis
  proof (cases "\<exists>e. r = Some e \<and> ExtractUserKey (fst e) = u")
    case True
    then obtain k v where e: "r = Some (k, v)" "ExtractUserKey k = u" by (metis fst_conv surj_pair)
    then have n: "newest (set (entries (fm_number f))) u s (Some (k, v))" using new by simp
    then have "(k, v) \<in> set (entries (fm_number f))" by (simp add: newest_def visible_in_def)
    then obtain p where p: "ParseInternalKey k = Some p" using entries_parse [OF assms(2)] by fastforce
    then have "pik_user_key p = u" using Parse_user_key e(2) by blast
    then have sv: "?sv = (if pik_type p = kTypeValue then (gs_saver st)\<lparr>sv_state := SaverFound, sv_value := Some v\<rparr>
        else (gs_saver st)\<lparr>sv_state := SaverDeleted\<rparr>)"
      using p st(1) by (simp add: e(1) SaveValue_def bytewise_eq)
    have re: "read_entry (Some (k, v)) = (if pik_type p = kTypeValue then (OK, Some v) else (NotFound [], None))"
      by (simp add: read_entry_def p)
    have step: "Get_Match BytewiseComparator tc_Get ?k st (level, f) = Some (False, st') \<Longrightarrow> gs_cache st' = tc \<Longrightarrow>
        result st' = read_entry (Some (k, v)) \<Longrightarrow> ?thesis" for st' using n r(2) by auto
    show ?thesis
    proof (cases "pik_type p = kTypeValue")
      case True
      show ?thesis by (rule step [of "?st2\<lparr>gs_found := True\<rparr>"]) (use True in \<open>simp_all add: match sv result_def re\<close>)
    next
      case False
      show ?thesis by (rule step [of ?st2]) (use False st same in \<open>simp_all add: match sv result_def re\<close>)
    qed
  next
    case False
    then have n: "visible_in (set (entries (fm_number f))) u s = {}" using new by (cases r) (auto simp: newest_def)
    have "?sv = gs_saver st"
    proof (cases r)
      case (Some e)
      obtain k v where e: "e = (k, v)" by fastforce
      have "(k, v) \<in> set (entries (fm_number f))"
        using r(3) unfolding Some e answers_def first_from_def by (auto simp: find_Some_iff)
      then obtain p where p: "ParseInternalKey k = Some p" using entries_parse [OF assms(2)] by fastforce
      then have "pik_user_key p \<noteq> u" using Parse_user_key False Some e by fastforce
      then show ?thesis using p st(1) by (simp add: Some e SaveValue_def bytewise_eq)
    qed simp
    then have sv: "sv_state ?sv = SaverNotFound" "?sv = \<lparr>sv_state = SaverNotFound, sv_user_key = u, sv_value = None\<rparr>" using st(1) by simp_all
    show ?thesis
      by (intro exI [of _ True] exI [of _ ?st2]) (use n r(2) st same sv in \<open>simp add: match start_state_def\<close>)
  qed
qed

lemma serves_add: "serves (m + n) tc \<Longrightarrow> serves m tc"
  by (induction n) (auto dest: serves_less)

text \<open>The first visited file with a visible entry decides.\<close>

lemma visit_decides:
  assumes "serves (n + length ps) (gs_cache st)" and "\<forall>p \<in> set ps. known (snd p)" and "start_state u st"
  shows "\<exists>st'. visit (Get_Match BytewiseComparator tc_Get (InternalKey u s kValueTypeForSeek)) ps st = Some st' \<and> serves n (gs_cache st') \<and>
    (case find (\<lambda>p. visible_in (set (entries (fm_number (snd p)))) u s \<noteq> {}) ps of
       None \<Rightarrow> start_state u st'
     | Some p \<Rightarrow> \<exists>e. newest (set (entries (fm_number (snd p)))) u s (Some e) \<and> result st' = read_entry (Some e))"
  using assms
proof (induction ps arbitrary: st)
  case (Cons p ps)
  obtain level f where p: "p = (level, f)" by fastforce
  have "serves (Suc (n + length ps)) (gs_cache st)" "known f" using Cons.prems p by simp_all
  from Get_Match_step [OF this Cons.prems(3), of s level] obtain go st1 where
    st1: "Get_Match BytewiseComparator tc_Get (InternalKey u s kValueTypeForSeek) st p = Some (go, st1)" "serves (n + length ps) (gs_cache st1)"
    "if go then visible_in (set (entries (fm_number f))) u s = {} \<and> start_state u st1
     else \<exists>e. newest (set (entries (fm_number f))) u s (Some e) \<and> result st1 = read_entry (Some e)" unfolding p by blast
  show ?case
  proof (cases go)
    case True
    then have v: "visible_in (set (entries (fm_number f))) u s = {}" "start_state u st1" using st1(3) by simp_all
    have "\<exists>st'. visit (Get_Match BytewiseComparator tc_Get (InternalKey u s kValueTypeForSeek)) ps st1 = Some st' \<and> serves n (gs_cache st') \<and>
      (case find (\<lambda>p. visible_in (set (entries (fm_number (snd p)))) u s \<noteq> {}) ps of
         None \<Rightarrow> start_state u st'
       | Some p \<Rightarrow> \<exists>e. newest (set (entries (fm_number (snd p)))) u s (Some e) \<and> result st' = read_entry (Some e))"
      by (rule Cons.IH [OF st1(2) _ v(2)]) (use Cons.prems in simp)
    then show ?thesis using st1(1) True v(1) p by simp
  next
    case False
    then have e: "\<exists>e. newest (set (entries (fm_number f))) u s (Some e) \<and> result st1 = read_entry (Some e)" using st1(3) by simp
    then have "visible_in (set (entries (fm_number f))) u s \<noteq> {}" by (auto simp: newest_def)
    moreover have "serves n (gs_cache st1)" using st1(2) serves_add [of n "length ps"] by (simp add: add.commute)
    ultimately show ?thesis using st1(1) False e p by (intro exI [of _ st1]) simp
  qed
qed simp

end

section \<open>The files in order\<close>

context user_comparator
begin

text \<open>The largest key of a file is one of its keys.\<close>

definition tight :: "(u64 \<Rightarrow> bytes set) \<Rightarrow> file_meta list list \<Rightarrow> bool" where
  "tight keys files \<longleftrightarrow> (\<forall>l < kNumLevels. \<forall>f \<in> set (files ! l). fm_largest f \<in> keys (fm_number f))"

definition key_visible :: "bytes \<Rightarrow> u64 \<Rightarrow> bytes \<Rightarrow> bool" where
  "key_visible u s k \<longleftrightarrow> cmp_Compare cmp (ExtractUserKey k) u = 0 \<and> key_tag k \<le> PackSequenceAndType s kValueTypeForSeek"

lemma visible_range:
  assumes "holds keys f" and "k \<in> keys (fm_number f)" and "key_visible u s k"
  shows "cmp_Compare cmp (f_start f) u \<le> 0" and "cmp_Compare cmp u (f_limit f) \<le> 0"
proof -
  have eq: "cmp_Compare cmp (ExtractUserKey k) u \<le> 0" "cmp_Compare cmp u (ExtractUserKey k) \<le> 0"
    using assms(3) compare_ge [of "ExtractUserKey k" u] by (simp_all add: key_visible_def)
  have "cmp_Compare cmp (f_start f) (ExtractUserKey k) \<le> 0" "cmp_Compare cmp (ExtractUserKey k) (f_limit f) \<le> 0"
    using assms(1,2) ikey_le_user unfolding holds_def by blast+
  then show "cmp_Compare cmp (f_start f) u \<le> 0" "cmp_Compare cmp u (f_limit f) \<le> 0" using eq user_trans by blast+
qed

lemma visible_not_less: "key_visible u s k \<longleftrightarrow> cmp_Compare cmp (ExtractUserKey k) u = 0 \<and> \<not> ikey_Compare cmp k (InternalKey u s kValueTypeForSeek) < 0"
  by (auto simp: key_visible_def ikey_Compare_less)

lemma level0_file:
  "(l, f) \<in> set (map (Pair 0) (rev (sort_key fm_number (filter P fs)))) \<longleftrightarrow> l = 0 \<and> f \<in> set fs \<and> P f"
  by auto

lemma sorted_newest_first: "sorted_wrt (\<lambda>f g. fm_number g \<le> fm_number f) (rev (sort_key fm_number fs))"
  using sorted_sort_key [of fm_number fs] by (simp add: sorted_wrt_rev sorted_map)

text \<open>In a sorted level only one file is visited, and it has a visible entry if any file of the level has one.\<close>

lemma level_file:
  assumes "level_sorted fs" and "\<forall>f \<in> set fs. holds keys f" and "\<forall>f \<in> set fs. fm_largest f \<in> keys (fm_number f)"
    and "g \<in> set fs" and "k \<in> keys (fm_number g)" and "key_visible u s k"
  defines "i \<equiv> FindFile cmp fs (InternalKey u s kValueTypeForSeek)"
  shows "i < length fs" and "\<not> cmp_Compare cmp u (f_start (fs ! i)) < 0"
    and "g = fs ! i \<or> (\<exists>k' \<in> keys (fm_number (fs ! i)). key_visible u s k' \<and> (\<forall>k \<in> keys (fm_number g). key_visible u s k \<longrightarrow> key_tag k \<le> key_tag k'))"
proof -
  let ?k = "InternalKey u s kValueTypeForSeek"
  note ff = FindFile_spec [OF assms(1), where key = ?k, folded i_def]
  obtain j where j: "j < length fs" "g = fs ! j" using assms(4) by (auto simp: in_set_conv_nth)
  have "\<not> ikey_Compare cmp k ?k < 0" using assms(6) visible_not_less by blast
  moreover have "ikey_Compare cmp k (fm_largest g) \<le> 0" using assms(2,4,5) by (auto simp: holds_def)
  ultimately have "\<not> ikey_Compare cmp (fm_largest g) ?k < 0" using ik_le_less by blast
  then have ij: "i \<le> j" using ff(2) [of j] j by (meson not_le)
  then show i: "i < length fs" using j(1) by simp
  then have fi: "fs ! i \<in> set fs" by simp
  have g: "cmp_Compare cmp (f_start g) u \<le> 0" using visible_range(1) assms(2,4-6) by blast
  show "\<not> cmp_Compare cmp u (f_start (fs ! i)) < 0"
  proof (cases "i = j")
    case True
    then show ?thesis using g j user_le_less [of "f_start g" u "f_start g"] by auto
  next
    case False
    then have "ikey_Compare cmp (fm_largest (fs ! i)) (fm_smallest g) < 0"
      using assms(1) ij j by (auto simp: level_sorted_def sorted_wrt_iff_nth_less)
    moreover have "ikey_Compare cmp (fm_smallest (fs ! i)) (fm_largest (fs ! i)) \<le> 0" using assms(1) fi by (auto simp: level_sorted_def file_wf_def)
    ultimately have "ikey_Compare cmp (fm_smallest (fs ! i)) (fm_smallest g) < 0" using ik_le_less by blast
    then have "cmp_Compare cmp (f_start (fs ! i)) u \<le> 0" using ikey_less_user g user_trans by blast
    then show ?thesis using user_le_less [of "f_start (fs ! i)" u "f_start (fs ! i)"] by auto
  qed
  show "g = fs ! i \<or> (\<exists>k' \<in> keys (fm_number (fs ! i)). key_visible u s k' \<and> (\<forall>k \<in> keys (fm_number g). key_visible u s k \<longrightarrow> key_tag k \<le> key_tag k'))"
  proof (cases "i = j")
    case False
    let ?k' = "fm_largest (fs ! i)"
    have less: "ikey_Compare cmp ?k' (fm_smallest g) < 0" using assms(1) ij j False by (auto simp: level_sorted_def sorted_wrt_iff_nth_less)
    have ge: "\<not> ikey_Compare cmp ?k' ?k < 0" using ff(3) [of i] i by simp
    have below: "ikey_Compare cmp ?k' x < 0" if "x \<in> keys (fm_number g)" for x
      using ik_less_le [OF less] that assms(2,4) by (auto simp: holds_def)
    have "cmp_Compare cmp (ExtractUserKey ?k') u \<le> 0"
      using ikey_less_user [OF less] g user_trans by blast
    moreover have "\<not> less (ExtractUserKey ?k') u" using ge by (auto simp: ikey_Compare_less)
    ultimately have eq: "cmp_Compare cmp (ExtractUserKey ?k') u = 0" by simp
    then have "key_visible u s ?k'" using ge visible_not_less by blast
    moreover have "key_tag x \<le> key_tag ?k'" if x: "x \<in> keys (fm_number g)" "key_visible u s x" for x
    proof -
      have "cmp_Compare cmp (ExtractUserKey x) u = 0" using x(2) by (simp add: key_visible_def)
      then have "\<not> less (ExtractUserKey ?k') (ExtractUserKey x)"
        using eq user_less_le [of "ExtractUserKey ?k'" "ExtractUserKey x" u] by auto
      then show ?thesis using below [OF x(1)] by (auto simp: ikey_Compare_less)
    qed
    ultimately show ?thesis using assms(3) fi by blast
  qed (use j in simp)
qed

lemma sorted_distinct_strict:
  fixes h :: "'a \<Rightarrow> 'b :: linorder"
  shows "sorted_wrt (\<lambda>x y. h y \<le> h x) xs \<Longrightarrow> distinct (map h xs) \<Longrightarrow> sorted_wrt (\<lambda>x y. h y < h x) xs"
  by (induction xs) (auto simp: less_le, metis image_eqI)

abbreviation order_of_visit :: "nat \<times> file_meta \<Rightarrow> nat \<times> file_meta \<Rightarrow> bool" where
  "order_of_visit p q \<equiv> fst p < fst q \<or> fst p = 0 \<and> fst q = 0 \<and> fm_number (snd q) < fm_number (snd p)"

lemma overlapping_order:
  assumes "distinct (files ! 0)" and "inj_on fm_number (set (files ! 0))"
  shows "sorted_wrt order_of_visit (overlapping_files cmp files u k)"
proof -
  let ?P = "\<lambda>f. cmp_Compare cmp u (f_start f) \<ge> 0 \<and> cmp_Compare cmp u (f_limit f) \<le> 0"
  let ?tmp = "rev (sort_key fm_number (filter ?P (files ! 0)))"
  let ?at = "\<lambda>level. let index = FindFile cmp (files ! level) k
             in if index < length (files ! level) then
                  let f = files ! level ! index in if cmp_Compare cmp u (f_start f) < 0 then [] else [(level, f)]
                else []"
  have "distinct ?tmp" using assms(1) by simp
  moreover have "set ?tmp \<subseteq> set (files ! 0)" by auto
  ultimately have "distinct (map fm_number ?tmp)" using assms(2) by (auto simp: distinct_map intro: inj_on_subset)
  then have "sorted_wrt (\<lambda>f g. fm_number g < fm_number f) ?tmp" by (rule sorted_distinct_strict [OF sorted_newest_first])
  then have zero: "sorted_wrt order_of_visit (map (Pair 0) ?tmp)" by (simp add: sorted_wrt_map)
  have lev: "fst p = l" if "p \<in> set (?at l)" for p l using that by (auto simp: Let_def split: if_splits)
  have rest: "sorted_wrt order_of_visit (concat (map ?at ls))" if "sorted_wrt (<) ls" for ls
    using that
  proof (induction ls)
    case (Cons l ls)
    have "sorted_wrt order_of_visit (?at l)" by (simp add: Let_def)
    moreover have "order_of_visit p q" if "p \<in> set (?at l)" "q \<in> set (concat (map ?at ls))" for p q
    proof -
      obtain m where m: "m \<in> set ls" "q \<in> set (?at m)"
        using \<open>q \<in> set (concat (map ?at ls))\<close> unfolding set_concat set_map by blast
      have "fst p < fst q" unfolding lev [OF that(1)] lev [OF m(2)] using Cons.prems m(1) by simp
      then show ?thesis by blast
    qed
    moreover have "sorted_wrt order_of_visit (concat (map ?at ls))" using Cons by simp
    ultimately show ?case unfolding list.map concat.simps sorted_wrt_append by blast
  qed simp
  have "fst q > 0" if "q \<in> set (concat (map ?at [1..<kNumLevels]))" for q
  proof -
    obtain m where m: "m \<in> set [1..<kNumLevels]" "q \<in> set (?at m)"
      using \<open>q \<in> set (concat (map ?at [1..<kNumLevels]))\<close> unfolding set_concat set_map by blast
    then show ?thesis using lev [OF m(2)] by simp
  qed
  moreover have "sorted_wrt order_of_visit (concat (map ?at [1..<kNumLevels]))" by (rule rest) simp
  ultimately show ?thesis unfolding overlapping_files_def Let_def sorted_wrt_append using zero by (auto simp: Let_def)
qed

lemma overlapping_members:
  assumes "p \<in> set (overlapping_files cmp files u k)"
  shows "fst p < kNumLevels \<and> snd p \<in> set (files ! fst p)"
proof -
  consider "p \<in> Pair 0 ` set (files ! 0)" |
    level where "level < kNumLevels" "FindFile cmp (files ! level) k < length (files ! level)" "p = (level, files ! level ! FindFile cmp (files ! level) k)"
    using assms by (auto simp: overlapping_files_def Let_def split: if_splits)
  then show ?thesis by cases (auto simp: kNumLevels_def)
qed

lemma overlapping_length: "length (overlapping_files cmp files u k) \<le> length (files ! 0) + kNumLevels"
proof -
  have "length (concat (map (\<lambda>level.
             let index = FindFile cmp (files ! level) k
             in if index < length (files ! level) then
                  let f = files ! level ! index
                  in if cmp_Compare cmp u (f_start f) < 0 then [] else [(level, f)]
                else []) ls)) \<le> length ls" for ls
    by (induction ls) (simp_all add: Let_def)
  note rest = this [of "[1..<kNumLevels]", unfolded length_upt]
  have "length (filter (\<lambda>f. cmp_Compare cmp u (f_start f) \<ge> 0 \<and> cmp_Compare cmp u (f_limit f) \<le> 0) (files ! 0)) \<le> length (files ! 0)"
    by (rule length_filter_le)
  from add_mono [OF this rest] show ?thesis
    unfolding overlapping_files_def Let_def length_append length_map length_rev length_sort by linarith
qed

abbreviation has_visible :: "(u64 \<Rightarrow> bytes set) \<Rightarrow> bytes \<Rightarrow> u64 \<Rightarrow> file_meta \<Rightarrow> bool" where
  "has_visible keys u s f \<equiv> \<exists>k \<in> keys (fm_number f). key_visible u s k"

text \<open>A file with a visible entry is visited, or a newer file of its level is.\<close>

lemma overlapping_covers:
  assumes "levels_ok keys files" and "tight keys files" and "m < kNumLevels" and "g \<in> set (files ! m)"
    and "k \<in> keys (fm_number g)" and "key_visible u s k"
  shows "\<exists>g' k'. (m, g') \<in> set (overlapping_files cmp files u (InternalKey u s kValueTypeForSeek)) \<and> k' \<in> keys (fm_number g') \<and>
    key_visible u s k' \<and> key_tag k \<le> key_tag k'"
proof (cases "m = 0")
  case True
  have h: "holds keys g" by (rule levels_okD(4) [OF assms(1,3,4)])
  have "\<not> cmp_Compare cmp u (f_start g) < 0"
    using visible_range(1) [OF h assms(5,6)] user_le_less [of "f_start g" u "f_start g"] by auto
  then have "cmp_Compare cmp u (f_start g) \<ge> 0" by linarith
  then have "(0, g) \<in> set (overlapping_files cmp files u (InternalKey u s kValueTypeForSeek))"
    using assms(4) visible_range(2) [OF h assms(5,6)] unfolding overlapping_files_def Let_def True by auto
  then show ?thesis using True assms(5,6) by blast
next
  case False
  let ?fs = "files ! m"
  let ?i = "FindFile cmp ?fs (InternalKey u s kValueTypeForSeek)"
  have "level_sorted ?fs" using levels_okD(1) [OF assms(1)] assms(3) False by (simp add: version_wf_def)
  moreover have "\<forall>f \<in> set ?fs. holds keys f" using levels_okD(4) [OF assms(1,3)] by blast
  moreover have "\<forall>f \<in> set ?fs. fm_largest f \<in> keys (fm_number f)" using assms(2,3) by (simp add: tight_def)
  ultimately have lf: "?i < length ?fs" "\<not> cmp_Compare cmp u (f_start (?fs ! ?i)) < 0"
    "g = ?fs ! ?i \<or> (\<exists>k' \<in> keys (fm_number (?fs ! ?i)). key_visible u s k' \<and> (\<forall>k \<in> keys (fm_number g). key_visible u s k \<longrightarrow> key_tag k \<le> key_tag k'))"
    using level_file [of ?fs keys g k u s] assms(4-6) by blast+
  have "(m, ?fs ! ?i) \<in> set (overlapping_files cmp files u (InternalKey u s kValueTypeForSeek))"
    unfolding overlapping_files_def Let_def using assms(3) False lf(1,2) by (auto intro!: bexI [of _ m])
  then show ?thesis using lf(3) assms(5,6) by blast
qed

lemma first_visible_newest:
  assumes "levels_ok keys files" and "tight keys files"
    and "find (\<lambda>p. has_visible keys u s (snd p)) (overlapping_files cmp files u (InternalKey u s kValueTypeForSeek)) = r"
  shows "r = None \<Longrightarrow> m < kNumLevels \<Longrightarrow> g \<in> set (files ! m) \<Longrightarrow> \<not> has_visible keys u s g"
    and "r = Some p \<Longrightarrow> m < kNumLevels \<Longrightarrow> g \<in> set (files ! m) \<Longrightarrow> k \<in> keys (fm_number g) \<Longrightarrow> key_visible u s k \<Longrightarrow>
      \<exists>k' \<in> keys (fm_number (snd p)). key_visible u s k' \<and> key_tag k \<le> key_tag k'"
proof -
  let ?ps = "overlapping_files cmp files u (InternalKey u s kValueTypeForSeek)"
  note cov = overlapping_covers [OF assms(1,2)]
  show "\<not> has_visible keys u s g" if "r = None" "m < kNumLevels" "g \<in> set (files ! m)"
    using assms(3) that cov [of m g] unfolding that(1) find_None_iff by fastforce
  assume r: "r = Some p" and g: "m < kNumLevels" "g \<in> set (files ! m)" "k \<in> keys (fm_number g)" "key_visible u s k"
  obtain ys zs where ps: "?ps = ys @ p # zs" and p: "has_visible keys u s (snd p)" and ys: "\<forall>y \<in> set ys. \<not> has_visible keys u s (snd y)"
    using find_first [OF assms(3) [unfolded r]] by blast
  obtain g' k' where g': "(m, g') \<in> set ?ps" "k' \<in> keys (fm_number g')" "key_visible u s k'" "key_tag k \<le> key_tag k'"
    using cov [OF g] by blast
  have "(m, g') \<notin> set ys" using ys g'(2,3) by auto
  then consider "(m, g') = p" | "(m, g') \<in> set zs" using g'(1) ps by auto
  then show "\<exists>k' \<in> keys (fm_number (snd p)). key_visible u s k' \<and> key_tag k \<le> key_tag k'"
  proof cases
    case 1
    then show ?thesis using g' by auto
  next
    case 2
    have d: "distinct (files ! 0)" "inj_on fm_number (set (files ! 0))" using levels_okD(2,3) [OF assms(1), of 0] by (simp_all add: kNumLevels_def)
    have p_in: "p \<in> set ?ps" by (simp add: ps)
    have "\<forall>q \<in> set zs. order_of_visit p q"
      using overlapping_order [OF d, of u "InternalKey u s kValueTypeForSeek"] unfolding ps sorted_wrt_append sorted_wrt.simps by blast
    then have "order_of_visit p (m, g')" using 2 by blast
    moreover have "fst p < kNumLevels" "snd p \<in> set (files ! fst p)" "m < kNumLevels" "g' \<in> set (files ! m)"
      using overlapping_members [OF p_in] overlapping_members [OF g'(1)] by simp_all
    ultimately have "newer (keys (fm_number (snd p))) (keys (fm_number g'))"
      using levels_okD(5,6) [OF assms(1)] by auto
    moreover obtain k0 where k0: "k0 \<in> keys (fm_number (snd p))" "key_visible u s k0" using p by blast
    moreover have "cmp_Compare cmp (ExtractUserKey k0) (ExtractUserKey k') = 0"
    proof -
      have "cmp_Compare cmp (ExtractUserKey k0) u \<le> 0" "cmp_Compare cmp u (ExtractUserKey k0) \<le> 0"
        "cmp_Compare cmp (ExtractUserKey k') u \<le> 0" "cmp_Compare cmp u (ExtractUserKey k') \<le> 0"
        using k0(2) g'(3) compare_ge [of "ExtractUserKey k0" u] compare_ge [of "ExtractUserKey k'" u] by (simp_all add: key_visible_def)
      then show ?thesis using user_trans user_antisym by blast
    qed
    ultimately have "key_tag k' < key_tag k0" using g'(2) unfolding newer_def by blast
    then show ?thesis using k0 g'(4) by (meson order.trans order.strict_implies_order)
  qed
qed

end

section \<open>Reading a version\<close>

text \<open>All entries of the files of a version.\<close>

definition stored_entries :: "(u64 \<Rightarrow> (bytes \<times> bytes) list) \<Rightarrow> file_meta list list \<Rightarrow> (bytes \<times> bytes) set" where
  "stored_entries entries files = (\<Union>l < kNumLevels. \<Union>f \<in> set (files ! l). set (entries (fm_number f)))"

abbreviation keys_of :: "(u64 \<Rightarrow> (bytes \<times> bytes) list) \<Rightarrow> u64 \<Rightarrow> bytes set" where
  "keys_of entries n \<equiv> fst ` set (entries n)"

abbreviation layered :: "(u64 \<Rightarrow> (bytes \<times> bytes) list) \<Rightarrow> file_meta list list \<Rightarrow> bool" where
  "layered entries files \<equiv>
     user_comparator.levels_ok BytewiseComparator (keys_of entries) files \<and> user_comparator.tight (keys_of entries) files"

lemma has_visible_bytewise:
  "bytewise_user.has_visible (keys_of entries) u s f \<longleftrightarrow> visible_in (set (entries (fm_number f))) u s \<noteq> {}"
  by (simp add: bytewise_user.key_visible_def bytewise_eq visible_in_def image_iff) force

lemma first_newest:
  assumes "layered entries files"
    and "find (\<lambda>p. visible_in (set (entries (fm_number (snd p)))) u s \<noteq> {})
      (overlapping_files BytewiseComparator files u (InternalKey u s kValueTypeForSeek)) = Some p"
    and "newest (set (entries (fm_number (snd p)))) u s (Some e)"
  shows "newest (stored_entries entries files) u s (Some e)"
proof -
  let ?ps = "overlapping_files BytewiseComparator files u (InternalKey u s kValueTypeForSeek)"
  have f: "find (\<lambda>p. bytewise_user.has_visible (keys_of entries) u s (snd p)) ?ps = Some p"
    unfolding has_visible_bytewise by (rule assms(2))
  have "p \<in> set ?ps" using find_first [OF f] by (metis in_set_conv_decomp)
  then have p: "fst p < kNumLevels" "snd p \<in> set (files ! fst p)" using bytewise_user.overlapping_members by blast+
  have "key_tag (fst e') \<le> key_tag (fst e)" if "e' \<in> visible_in (stored_entries entries files) u s" for e'
  proof -
    obtain m g where g: "m < kNumLevels" "g \<in> set (files ! m)" "e' \<in> set (entries (fm_number g))" "ExtractUserKey (fst e') = u"
      "key_tag (fst e') \<le> PackSequenceAndType s kValueTypeForSeek"
      using \<open>e' \<in> visible_in (stored_entries entries files) u s\<close> unfolding visible_in_def stored_entries_def by blast
    have "bytewise_user.key_visible u s (fst e')" using g(4,5) by (simp add: bytewise_user.key_visible_def bytewise_eq)
    from bytewise_user.first_visible_newest(2) [OF assms(1) [THEN conjunct1] assms(1) [THEN conjunct2] f refl g(1,2) _ this] g(3)
    obtain k' where k': "k' \<in> keys_of entries (fm_number (snd p))" "bytewise_user.key_visible u s k'" "key_tag (fst e') \<le> key_tag k'"
      by blast
    obtain e'' where e'': "e'' \<in> set (entries (fm_number (snd p)))" "k' = fst e''" using k'(1) by blast
    then have "e'' \<in> visible_in (set (entries (fm_number (snd p)))) u s"
      using k'(2) by (simp add: visible_in_def bytewise_user.key_visible_def bytewise_eq)
    then have "key_tag k' \<le> key_tag (fst e)" using assms(3) e''(2) by (simp add: newest_def)
    then show ?thesis using k'(3) by simp
  qed
  moreover have "e \<in> visible_in (stored_entries entries files) u s"
    using assms(3) p unfolding newest_def stored_entries_def visible_in_def by auto
  ultimately show ?thesis by (simp add: newest_def)
qed

lemma none_newest:
  assumes "layered entries files"
    and "find (\<lambda>p. visible_in (set (entries (fm_number (snd p)))) u s \<noteq> {})
      (overlapping_files BytewiseComparator files u (InternalKey u s kValueTypeForSeek)) = None"
  shows "newest (stored_entries entries files) u s None"
proof -
  let ?ps = "overlapping_files BytewiseComparator files u (InternalKey u s kValueTypeForSeek)"
  have f: "find (\<lambda>p. bytewise_user.has_visible (keys_of entries) u s (snd p)) ?ps = None"
    unfolding has_visible_bytewise by (rule assms(2))
  have "visible_in (set (entries (fm_number g))) u s = {}" if "m < kNumLevels" "g \<in> set (files ! m)" for m g
    using bytewise_user.first_visible_newest(1) [OF assms(1) [THEN conjunct1] assms(1) [THEN conjunct2] f refl that]
    unfolding has_visible_bytewise by blast
  then show ?thesis by (auto simp: newest_def visible_in_def stored_entries_def)
qed

context table_source
begin

lemma Version_Get_newest:
  assumes "layered entries (v_files v)" and "\<forall>l < kNumLevels. \<forall>f \<in> set (v_files v ! l). known f"
    and "serves (n + (length (v_files v ! 0) + kNumLevels)) tc"
  shows "\<exists>r stats tc'. Version_Get BytewiseComparator tc_Get v (LookupKey u s) tc = Some (fst (read_entry r), snd (read_entry r), stats, tc') \<and>
    serves n tc' \<and> newest (stored_entries entries (v_files v)) u s r"
proof -
  let ?k = "InternalKey u s kValueTypeForSeek"
  let ?ps = "overlapping_files BytewiseComparator (v_files v) u ?k"
  let ?st = "\<lparr>gs_cache = tc, gs_saver = \<lparr>sv_state = SaverNotFound, sv_user_key = u, sv_value = None\<rparr>,
          gs_stats = \<lparr>seek_file = None, seek_file_level = 0\<rparr>, gs_last_file_read = None, gs_status = OK, gs_found = False\<rparr>"
  have lk: "lk_user_key (LookupKey u s) = u" "lk_internal_key (LookupKey u s) = ?k"
    by (simp_all add: lk_user_key_def lk_internal_key_def LookupKey_def Let_def InternalKey_eq)
  have "length ?ps \<le> length (v_files v ! 0) + kNumLevels" by (rule bytewise_user.overlapping_length)
  then have "serves (n + length ?ps) (gs_cache ?st)" using assms(3) serves_add [of "n + length ?ps" "length (v_files v ! 0) + kNumLevels - length ?ps" tc] by simp
  moreover have "\<forall>p \<in> set ?ps. known (snd p)" using assms(2) bytewise_user.overlapping_members by blast
  moreover have "start_state u ?st" by (simp add: start_state_def)
  ultimately obtain st' where st': "visit (Get_Match BytewiseComparator tc_Get ?k) ?ps ?st = Some st'" "serves n (gs_cache st')"
    "case find (\<lambda>p. visible_in (set (entries (fm_number (snd p)))) u s \<noteq> {}) ?ps of
       None \<Rightarrow> start_state u st'
     | Some p \<Rightarrow> \<exists>e. newest (set (entries (fm_number (snd p)))) u s (Some e) \<and> result st' = read_entry (Some e)"
    using visit_decides [of n ?ps ?st u s] by blast
  have get: "Version_Get BytewiseComparator tc_Get v (LookupKey u s) tc = Some (fst (result st'), snd (result st'), gs_stats st', gs_cache st')"
    unfolding Version_Get_def ForEachOverlapping_def lk st'(1) by (simp add: result_def)
  show ?thesis
  proof (cases "find (\<lambda>p. visible_in (set (entries (fm_number (snd p)))) u s \<noteq> {}) ?ps")
    case None
    then have "result st' = read_entry None" using st'(3) by (simp add: start_state_def result_def read_entry_def)
    then show ?thesis using get st'(2) none_newest [OF assms(1) None] by (intro exI [of _ None]) auto
  next
    case (Some p)
    then obtain e where e: "newest (set (entries (fm_number (snd p)))) u s (Some e)" "result st' = read_entry (Some e)" using st'(3) by auto
    then show ?thesis using get st'(2) first_newest [OF assms(1) Some e(1)] by (intro exI [of _ "Some e"]) auto
  qed
qed

end

end
