(* ===== verification/TableCache.thy ===== *)
theory TableCache
  imports Cache RandomFiles ReadPath
begin

text \<open>
  The cache of open tables (\<^verbatim>\<open>db/table_cache.h\<close>, \<^verbatim>\<open>db/table_cache.cc\<close>) over the LRU cache, and that it serves the
  lookups of a version. The deleters of entries the cache gives up run with the operation that gives them up.
\<close>

section \<open>State\<close>

record table_and_file =
  tf_file :: open_file
  tf_table :: table

text \<open>The block cache of the options and the last id it handed out are part of the state.\<close>

record table_cache =
  tc_dbname :: bytes
  tc_options :: table_options
  tc_cache :: "table_and_file sharded_cache"
  tc_env :: random_env
  tc_blocks :: block_cache
  tc_last_id :: u64

definition new_TableCache :: "bytes \<Rightarrow> table_options \<Rightarrow> u64 \<Rightarrow> random_env \<Rightarrow> table_cache" where
  "new_TableCache dbname options entries env =
     \<lparr>tc_dbname = dbname, tc_options = options, tc_cache = NewLRUCache entries, tc_env = env, tc_blocks = (\<lambda>_. None), tc_last_id = 0\<rparr>"

section \<open>Operations\<close>

definition DeleteEntry :: "table_and_file \<Rightarrow> random_env \<Rightarrow> random_env" where
  "DeleteEntry tf env = delete_file (tf_file tf) env"

definition given_up :: "'v sharded_cache \<Rightarrow> 'v list" where
  "given_up sc = map snd (concat (map lc_deleted (sc_shards sc)))"

definition run_deleters :: "table_cache \<Rightarrow> table_cache" where
  "run_deleters tc =
     tc\<lparr>tc_env := fold DeleteEntry (given_up (tc_cache tc)) (tc_env tc),
        tc_cache := (tc_cache tc)\<lparr>sc_shards := map (\<lambda>c. c\<lparr>lc_deleted := []\<rparr>) (sc_shards (tc_cache tc))\<rparr>\<rparr>"

definition FindTable :: "u64 \<Rightarrow> u64 \<Rightarrow> table_cache \<Rightarrow> (status \<times> handle option \<times> table_cache) option" where
  "FindTable file_number file_size tc =
     (let key = EncodeFixed64 file_number;
          (hdl, cache) = sc_Lookup key (tc_cache tc);
          tc = tc\<lparr>tc_cache := cache\<rparr>
      in if hdl \<noteq> None then Some (OK, hdl, tc)
         else
           let fname = TableFileName (tc_dbname tc) file_number;
               (r, env) = env_NewRandomAccessFile fname (tc_env tc);
               (r, env) =
                 (case r of
                    Inr f \<Rightarrow> (Inr f, env)
                  | Inl s \<Rightarrow>
                      (case env_NewRandomAccessFile (SSTTableFileName (tc_dbname tc) file_number) env of
                         (Inr f, env) \<Rightarrow> (Inr f, env)
                       | (Inl _, env) \<Rightarrow> (Inl s, env)));
               tc = tc\<lparr>tc_env := env\<rparr>
           in (case r of
                 Inl s \<Rightarrow> Some (s, None, tc)
               | Inr f \<Rightarrow>
                   (case Table_Open (tc_options tc) (of_file f) file_size (tc_last_id tc + 1) of
                      None \<Rightarrow> None
                    | Some (s, None) \<Rightarrow> Some (s, None, tc\<lparr>tc_env := delete_file f (tc_env tc)\<rparr>)
                    | Some (s, Some table) \<Rightarrow>
                        let tc = (if to_block_cache (tc_options tc) then tc\<lparr>tc_last_id := tc_last_id tc + 1\<rparr> else tc)
                        in map_option (\<lambda>(hdl, cache). (s, Some hdl, run_deleters (tc\<lparr>tc_cache := cache\<rparr>)))
                             (sc_Insert key \<lparr>tf_file = f, tf_table = table\<rparr> 1 (tc_cache tc)))))"

definition UnrefEntry :: "handle \<Rightarrow> table_cache \<Rightarrow> table_cache" where
  "UnrefEntry hdl tc = run_deleters (tc\<lparr>tc_cache := sc_Release hdl (tc_cache tc)\<rparr>)"

text \<open>The iterator, the table behind it, and the handle its cleanup releases.\<close>

definition TableCache_NewIterator ::
  "u64 \<Rightarrow> u64 \<Rightarrow> table_cache \<Rightarrow> ((empty_iterator + table_iter) \<times> table option \<times> handle option \<times> table_cache) option" where
  "TableCache_NewIterator file_number file_size tc =
     (case FindTable file_number file_size tc of
        None \<Rightarrow> None
      | Some (s, hdl, tc) \<Rightarrow>
          if \<not> ok s then Some (Inl (NewErrorIterator s), None, None, tc)
          else
            let table = tf_table (sc_Value (the hdl) (tc_cache tc))
            in Some (Inr (Table_NewIterator table), Some table, hdl, tc))"

definition TableCache_Get :: "read_options \<Rightarrow> table_cache table_get" where
  "TableCache_Get options tc file_number file_size k =
     (case FindTable file_number file_size tc of
        None \<Rightarrow> None
      | Some (s, hdl, tc) \<Rightarrow>
          if ok s then
            let t = tf_table (sc_Value (the hdl) (tc_cache tc))
            in (case InternalGet t options (tc_blocks tc) k of
                  None \<Rightarrow> None
                | Some (s, found, blocks) \<Rightarrow> Some (s, found, UnrefEntry (the hdl) (tc\<lparr>tc_blocks := blocks\<rparr>)))
          else Some (s, None, tc))"

definition TableCache_Evict :: "u64 \<Rightarrow> table_cache \<Rightarrow> table_cache" where
  "TableCache_Evict file_number tc = run_deleters (tc\<lparr>tc_cache := sc_Erase (EncodeFixed64 file_number) (tc_cache tc)\<rparr>)"

section \<open>The abstract caches behind the shards\<close>

text \<open>Entries only leave, but for the one that is inserted.\<close>

lemma a_delete_entries: "a_entries (a_delete e a) \<subseteq>\<^sub>m a_entries a"
  by (auto simp: a_delete_def map_le_def)

lemma a_forget_entries: "a_entries (a_forget e a) \<subseteq>\<^sub>m a_entries a"
  using a_delete_entries [of e "a\<lparr>a_cached := a_cached a - {e}, a_unused := remove1 e (a_unused a)\<rparr>"] by (simp add: a_forget_def)

lemma a_evict_entries: "a_entries (a_evict es a) \<subseteq>\<^sub>m a_entries a"
proof (induction es arbitrary: a)
  case (Cons e es)
  then show ?case using a_forget_entries [of e a] by (auto intro: map_le_trans)
qed simp

lemma a_Lookup_entries [simp]: "a_entries (snd (a_Lookup key hash a)) = a_entries a"
  by (simp add: a_Lookup_def split: option.split)

lemma a_Release_entries: "a_entries (a_Release e a) \<subseteq>\<^sub>m a_entries a"
  using a_delete_entries [of e "a\<lparr>a_held := (a_held a)(e := a_held a e - 1)\<rparr>"] by (simp add: a_Release_def Let_def)

lemma a_Erase_entries: "a_entries (a_Erase key hash a) \<subseteq>\<^sub>m a_entries a"
  using a_forget_entries by (auto simp: a_Erase_def split: option.split)

lemma a_Insert_entries:
  "a_entries (snd (a_Insert key hash v charge a)) \<subseteq>\<^sub>m
     (a_entries a)(a_fresh a \<mapsto> \<lparr>e_key = key, e_hash = hash, e_value = v, e_charge = charge\<rparr>)"
  unfolding a_Insert_def Let_def
  by (auto split: option.split intro!: map_le_trans [OF a_evict_entries] map_le_trans [OF a_forget_entries])

lemma cache_rep_deleted: "cache_rep c a \<Longrightarrow> cache_rep (c\<lparr>lc_deleted := []\<rparr>) (a\<lparr>a_deleted := []\<rparr>)"
proof -
  have "entry_rep (a\<lparr>a_deleted := []\<rparr>) e h = entry_rep a e h" for e h by (rule entry_rep_cong) simp_all
  then show "cache_rep c a \<Longrightarrow> cache_rep (c\<lparr>lc_deleted := []\<rparr>) (a\<lparr>a_deleted := []\<rparr>)"
    by (simp add: rep_with_def store_rep_def lists_ok_def a_usage_def)
qed

definition sc_rep :: "'v sharded_cache \<Rightarrow> 'v acache list \<Rightarrow> bool" where
  "sc_rep sc as \<longleftrightarrow> length (sc_shards sc) = kNumShards \<and> length as = kNumShards \<and> (\<forall>i < kNumShards. cache_rep (sc_shards sc ! i) (as ! i))"

definition budget :: "nat \<Rightarrow> 'v acache list \<Rightarrow> bool" where
  "budget n as \<longleftrightarrow> (\<forall>a \<in> set as. few_left (n + 3) a)"

text \<open>Every entry is in the shard of its key, and a property holds of its key and value.\<close>

definition all_entries :: "(bytes \<Rightarrow> 'v \<Rightarrow> bool) \<Rightarrow> 'v acache list \<Rightarrow> bool" where
  "all_entries P as \<longleftrightarrow>
     (\<forall>i < length as. \<forall>e en. a_entries (as ! i) e = Some en \<longrightarrow>
        e_hash en = HashSlice (e_key en) \<and> Shard (e_hash en) = i \<and> P (e_key en) (e_value en))"

text \<open>A handle the client holds, with its key and its value.\<close>

definition holds_handle :: "'v sharded_cache \<Rightarrow> 'v acache list \<Rightarrow> handle \<Rightarrow> bytes \<Rightarrow> 'v \<Rightarrow> bool" where
  "holds_handle sc as hdl key v \<longleftrightarrow>
     fst hdl = Shard (HashSlice key) \<and> a_held (as ! fst hdl) (snd hdl) > 0 \<and> sc_Value hdl sc = v \<and>
     (\<exists>en. a_entries (as ! fst hdl) (snd hdl) = Some en \<and> e_key en = key \<and> e_value en = v)"

lemma Shard_less: "Shard h < kNumShards"
proof -
  have "unat h < 2 ^ 4 * 2 ^ 28" using unsigned_less [of h] by simp
  then have "unat (drop_bit 28 h) < 2 ^ 4" by (simp only: unat_drop_bit_eq drop_bit_nat_def less_mult_imp_div_less)
  then show ?thesis by (simp add: Shard_def kNumShards_def kNumShardBits_def)
qed

lemma budget_nth: "budget n as \<Longrightarrow> i < length as \<Longrightarrow> few_left (n + 3) (as ! i)"
  by (simp add: budget_def)

lemma few_less: "few_left (Suc n) a \<Longrightarrow> few_left n a"
  using few_mono [of "Suc n" a n] by simp

lemma budget_update:
  assumes "budget (Suc n) as" and "few_left (n + 3) a"
  shows "budget n (as[i := a])"
proof -
  have "few_left (n + 3) b" if "b \<in> set as" for b using assms(1) that few_less [of "n + 3" b] by (simp add: budget_def)
  then show ?thesis using assms(2) set_update_subset_insert [of as i a] unfolding budget_def by blast
qed

lemma sc_rep_update: "sc_rep sc as \<Longrightarrow> cache_rep c a \<Longrightarrow> i < kNumShards \<Longrightarrow> sc_rep (sc\<lparr>sc_shards := (sc_shards sc)[i := c]\<rparr>) (as[i := a])"
  by (auto simp: sc_rep_def nth_list_update)

lemma all_entries_update:
  assumes "all_entries P as" and "a_entries a \<subseteq>\<^sub>m a_entries (as ! i)"
  shows "all_entries P (as[i := a])"
  unfolding all_entries_def
proof (intro allI impI)
  fix j e en
  assume j: "j < length (as[i := a])" and "a_entries (as[i := a] ! j) e = Some en"
  then have "a_entries (as ! j) e = Some en"
    using assms(2) by (cases "j = i") (auto simp: map_le_def dom_def)
  then show "e_hash en = HashSlice (e_key en) \<and> Shard (e_hash en) = j \<and> P (e_key en) (e_value en)"
    using assms(1) j unfolding all_entries_def length_list_update by blast
qed

lemma all_entries_mono: "all_entries P as \<Longrightarrow> (\<And>k v. P k v \<Longrightarrow> Q k v) \<Longrightarrow> all_entries Q as"
  unfolding all_entries_def by blast

lemma sc_Lookup_step:
  assumes "sc_rep sc as" and "budget (Suc n) as" and "all_entries P as" and "sc_Lookup key sc = (hdl, sc')"
  shows "\<exists>as'. sc_rep sc' as' \<and> budget n as' \<and> all_entries P as' \<and>
    (case hdl of None \<Rightarrow> True | Some hdl \<Rightarrow> \<exists>v. holds_handle sc' as' hdl key v \<and> P key v)"
proof -
  let ?s = "Shard (HashSlice key)"
  let ?a = "as ! ?s"
  let ?a' = "snd (a_Lookup key (HashSlice key) ?a)"
  obtain e c where c: "cache_Lookup key (HashSlice key) (sc_shards sc ! ?s) = (e, c)" by fastforce
  have sc': "hdl = map_option (Pair ?s) e" "sc' = sc\<lparr>sc_shards := (sc_shards sc)[?s := c]\<rparr>"
    using assms(4) c by (simp_all add: sc_Lookup_def Let_def)
  have len: "length as = kNumShards" "length (sc_shards sc) = kNumShards" using assms(1) by (simp_all add: sc_rep_def)
  have rep: "cache_rep (sc_shards sc ! ?s) ?a" using assms(1) Shard_less by (simp add: sc_rep_def)
  have few: "few_left (Suc n + 3) ?a" using budget_nth [OF assms(2)] Shard_less len by simp
  note lk = Lookup_rep [OF rep few_mono [OF few] c, simplified]
  have "few_left (n + 3) ?a'" using few_step [of "n + 3" ?a "Call_Lookup key (HashSlice key)"] few by simp
  note b = budget_update [OF assms(2) this, of ?s]
  note r = sc_rep_update [OF assms(1) lk(2) Shard_less, of "HashSlice key", folded sc'(2)]
  have "all_entries P (as[?s := ?a'])" by (rule all_entries_update [OF assms(3)]) simp
  moreover have "\<exists>v. holds_handle sc' (as[?s := ?a']) (?s, x) key v \<and> P key v" if x: "e = Some x" for x
  proof -
    have f: "a_find key (HashSlice key) ?a = Some x" using lk(1) x by (simp add: a_Lookup_def split: option.splits)
    then have k: "x \<in> a_cached ?a" "e_key (the (a_entries ?a x)) = key" unfolding a_find_def by (auto simp: find_Some_iff)
    have held: "a_held ?a' x > 0" "x \<in> a_cached ?a'" using f k by (simp_all add: a_Lookup_def)
    obtain h where h: "lc_store c x = Some h" "a_entries ?a x = Some \<lparr>e_key = h_key h, e_hash = h_hash h, e_value = h_value h, e_charge = h_charge h\<rparr>"
      using live_entry [OF rep_withD(1) [OF lk(2)] disjI1 [OF held(1)]] by auto
    have "P key (h_value h)"
      using assms(3) h(2) k(2) Shard_less [of "HashSlice key"] len(1) unfolding all_entries_def by fastforce
    moreover have "sc_Value (?s, x) sc' = h_value h" using h(1) Shard_less len by (simp add: sc_Value_def sc'(2))
    ultimately show ?thesis using h(2) k(2) held Shard_less len
      by (intro exI [of _ "h_value h"]) (simp add: holds_handle_def)
  qed
  ultimately show ?thesis using b r sc'(1) by (intro exI [of _ "as[?s := ?a']"]) (cases e; simp)
qed

lemma sc_Insert_step:
  assumes "sc_rep sc as" and "budget (Suc n) as" and "all_entries P as" and "P key v"
  shows "\<exists>hdl sc' as'. sc_Insert key v charge sc = Some (hdl, sc') \<and> sc_rep sc' as' \<and> budget n as' \<and> all_entries P as' \<and>
    holds_handle sc' as' hdl key v"
proof -
  let ?s = "Shard (HashSlice key)"
  let ?a = "as ! ?s"
  let ?new = "\<lparr>e_key = key, e_hash = HashSlice key, e_value = v, e_charge = charge\<rparr>"
  let ?r = "a_Insert key (HashSlice key) v charge ?a"
  have len: "length as = kNumShards" "length (sc_shards sc) = kNumShards" using assms(1) by (simp_all add: sc_rep_def)
  have rep: "cache_rep (sc_shards sc ! ?s) ?a" using assms(1) Shard_less by (simp add: sc_rep_def)
  have few: "few_left (Suc n + 3) ?a" using budget_nth [OF assms(2)] Shard_less len by simp
  obtain c where c: "cache_Insert key (HashSlice key) v charge (sc_shards sc ! ?s) = Some (fst ?r, c)" "cache_rep c (snd ?r)"
    using Insert_rep [OF rep few_mono [OF few, of 3, simplified]] by blast
  let ?sc = "sc\<lparr>sc_shards := (sc_shards sc)[?s := c]\<rparr>"
  have ins: "sc_Insert key v charge sc = Some ((?s, fst ?r), ?sc)" using c(1) by (simp add: sc_Insert_def Let_def)
  have "few_left (n + 3) (snd ?r)"
    using few_step [of "n + 3" ?a "Call_Insert key (HashSlice key) v charge"] few by (simp add: case_prod_unfold Let_def)
  note b = budget_update [OF assms(2) this, of ?s]
  have new: "a_entries (snd ?r) \<subseteq>\<^sub>m (a_entries ?a)(a_fresh ?a \<mapsto> ?new)" by (rule a_Insert_entries)
  have "all_entries P (as[?s := (?a\<lparr>a_entries := (a_entries ?a)(a_fresh ?a \<mapsto> ?new)\<rparr>)])"
    unfolding all_entries_def
  proof (intro allI impI)
    fix j e en
    assume j: "j < length (as[?s := (?a\<lparr>a_entries := (a_entries ?a)(a_fresh ?a \<mapsto> ?new)\<rparr>)])"
      and en: "a_entries (as[?s := (?a\<lparr>a_entries := (a_entries ?a)(a_fresh ?a \<mapsto> ?new)\<rparr>)] ! j) e = Some en"
    then have "a_entries (as ! j) e = Some en \<or> j = ?s \<and> en = ?new" by (cases "j = ?s") (auto split: if_splits)
    then show "e_hash en = HashSlice (e_key en) \<and> Shard (e_hash en) = j \<and> P (e_key en) (e_value en)"
      using assms(3,4) j unfolding all_entries_def by auto
  qed
  from all_entries_update [OF this, of "snd ?r" ?s] new have all: "all_entries P (as[?s := snd ?r])"
    using Shard_less [of "HashSlice key"] len(1) by simp
  have e: "fst ?r = a_fresh ?a" "a_held (snd ?r) (fst ?r) > 0" by (simp_all add: a_Insert_def Let_def a_forget_def split: option.split)
  obtain h where h: "lc_store c (fst ?r) = Some h"
    "a_entries (snd ?r) (fst ?r) = Some \<lparr>e_key = h_key h, e_hash = h_hash h, e_value = h_value h, e_charge = h_charge h\<rparr>"
    using live_entry [OF rep_withD(1) [OF c(2)] disjI1 [OF e(2)]] by auto
  then have "?new = \<lparr>e_key = h_key h, e_hash = h_hash h, e_value = h_value h, e_charge = h_charge h\<rparr>"
    using new e(1) by (auto simp: map_le_def dom_def)
  then have "holds_handle ?sc (as[?s := snd ?r]) (?s, fst ?r) key v"
    using e(2) h Shard_less len by (simp add: holds_handle_def sc_Value_def)
  then show ?thesis using ins b all sc_rep_update [OF assms(1) c(2) Shard_less] by blast
qed

lemma sc_Release_step:
  assumes "sc_rep sc as" and "budget (Suc n) as" and "all_entries P as" and "holds_handle sc as hdl key v"
  shows "\<exists>as'. sc_rep (sc_Release hdl sc) as' \<and> budget n as' \<and> all_entries P as'"
proof -
  let ?s = "Shard (HashSlice key)"
  let ?a = "as ! ?s"
  obtain e where hdl: "hdl = (?s, e)" using assms(4) by (cases hdl) (simp add: holds_handle_def)
  have held: "a_held ?a e > 0" using assms(4) by (simp add: holds_handle_def hdl)
  have len: "length as = kNumShards" "length (sc_shards sc) = kNumShards" using assms(1) by (simp_all add: sc_rep_def)
  have rep: "cache_rep (sc_shards sc ! ?s) ?a" using assms(1) Shard_less by (simp add: sc_rep_def)
  have few: "few_left (Suc n + 3) ?a" using budget_nth [OF assms(2)] Shard_less len by simp
  obtain h where h: "lc_store (sc_shards sc ! ?s) e = Some h"
    "a_entries ?a e = Some \<lparr>e_key = h_key h, e_hash = h_hash h, e_value = h_value h, e_charge = h_charge h\<rparr>"
    using live_entry [OF rep_withD(1) [OF rep] disjI1 [OF held]] by auto
  have "Shard (h_hash h) = ?s" using assms(3) h(2) Shard_less [of "HashSlice key"] len(1) unfolding all_entries_def by fastforce
  then have sc': "sc_Release hdl sc = sc\<lparr>sc_shards := (sc_shards sc)[?s := cache_Release e (sc_shards sc ! ?s)]\<rparr>"
    using h(1) by (simp add: sc_Release_def hdl Let_def)
  have "few_left (n + 3) (a_Release e ?a)" using few_step [of "n + 3" ?a "Call_Release e"] few by simp
  note b = budget_update [OF assms(2) this, of ?s]
  have "cache_rep (cache_Release e (sc_shards sc ! ?s)) (a_Release e ?a)" by (rule Release_rep [OF rep few_mono [OF few] held]) simp
  note r = sc_rep_update [OF assms(1) this Shard_less, of "HashSlice key", folded sc']
  have "all_entries P (as[?s := a_Release e ?a])" by (rule all_entries_update [OF assms(3) a_Release_entries])
  then show ?thesis using b r by blast
qed

text \<open>The deleters change neither the entries nor the handles.\<close>

lemma budget_mono: "budget m as \<Longrightarrow> n \<le> m \<Longrightarrow> budget n as"
  unfolding budget_def by (meson add_le_mono1 few_mono)

lemma run_deleters_step:
  assumes "sc_rep (tc_cache tc) as" and "budget n as" and "all_entries P as"
  shows "\<exists>as'. sc_rep (tc_cache (run_deleters tc)) as' \<and> budget n as' \<and> all_entries P as' \<and>
    (\<forall>hdl key v. holds_handle (tc_cache tc) as hdl key v \<longrightarrow> holds_handle (tc_cache (run_deleters tc)) as' hdl key v)"
proof (intro exI [of _ "map (\<lambda>a. a\<lparr>a_deleted := []\<rparr>) as"] conjI allI impI)
  have len: "length as = kNumShards" "length (sc_shards (tc_cache tc)) = kNumShards" using assms(1) by (simp_all add: sc_rep_def)
  show "sc_rep (tc_cache (run_deleters tc)) (map (\<lambda>a. a\<lparr>a_deleted := []\<rparr>) as)"
    using assms(1) cache_rep_deleted by (auto simp: sc_rep_def run_deleters_def)
  show "budget n (map (\<lambda>a. a\<lparr>a_deleted := []\<rparr>) as)" using assms(2) by (simp add: budget_def few_left_def)
  have "a_entries (map (\<lambda>a. a\<lparr>a_deleted := []\<rparr>) as ! i) = a_entries (as ! i)" if "i < length as" for i using that by simp
  then show "all_entries P (map (\<lambda>a. a\<lparr>a_deleted := []\<rparr>) as)" using assms(3) unfolding all_entries_def length_map by metis
  fix hdl key v
  assume "holds_handle (tc_cache tc) as hdl key v"
  moreover have "Shard (HashSlice key) < kNumShards" by (rule Shard_less)
  ultimately show "holds_handle (tc_cache (run_deleters tc)) (map (\<lambda>a. a\<lparr>a_deleted := []\<rparr>) as) hdl key v"
    using len by (cases hdl) (auto simp: holds_handle_def run_deleters_def sc_Value_def)
qed

lemma run_deleters_fields [simp]:
  "tc_dbname (run_deleters tc) = tc_dbname tc" "tc_options (run_deleters tc) = tc_options tc"
  "tc_blocks (run_deleters tc) = tc_blocks tc" "tc_last_id (run_deleters tc) = tc_last_id tc"
  by (simp_all add: run_deleters_def)

lemma fold_DeleteEntry [simp]:
  "re_posix (fold DeleteEntry tfs env) = re_posix env" "re_refused (fold DeleteEntry tfs env) = re_refused env"
  by (induction tfs arbitrary: env) (simp_all add: DeleteEntry_def delete_file_limits)

lemma run_deleters_env [simp]:
  "re_posix (tc_env (run_deleters tc)) = re_posix (tc_env tc)" "re_refused (tc_env (run_deleters tc)) = re_refused (tc_env tc)"
  by (simp_all add: run_deleters_def)

section \<open>The invariant of the table cache\<close>

text \<open>A table file and the entries it was built from.\<close>

definition table_file :: "table_options \<Rightarrow> bytes \<Rightarrow> (bytes \<times> bytes) list \<Rightarrow> bool" where
  "table_file opt data es \<longleftrightarrow>
     data \<noteq> [] \<and> length data < 2 ^ 32 \<and>
     (\<exists>W ds. data = table_building.table_image opt ds W \<and> table_building.written_blocks opt internal_key W es ds)"

text \<open>An open table, with the id its blocks are cached under. The map \<open>owner\<close> remembers which table got which id.\<close>

definition good_table :: "table_options \<Rightarrow> bytes \<Rightarrow> (bytes \<times> bytes) list \<Rightarrow> (u64 \<Rightarrow> (table \<times> block_handle set) option) \<Rightarrow> table \<Rightarrow> bool" where
  "good_table opt data es owner t \<longleftrightarrow>
     (\<exists>f id W ds. readable f \<and> ra_data f = data \<and> data = table_building.table_image opt ds W \<and>
        table_building.written_blocks opt internal_key W es ds \<and>
        t = table_building.opened opt f id W ds \<and> owner id = Some (t, table_building.data_handles opt ds))"

definition good_entry ::
  "table_options \<Rightarrow> (u64 \<Rightarrow> bytes option) \<Rightarrow> (u64 \<Rightarrow> (bytes \<times> bytes) list) \<Rightarrow> (u64 \<Rightarrow> (table \<times> block_handle set) option) \<Rightarrow>
   bytes \<Rightarrow> table_and_file \<Rightarrow> bool" where
  "good_entry opt store entries owner key tf \<longleftrightarrow>
     (\<forall>n data. key = EncodeFixed64 n \<longrightarrow> store n = Some data \<longrightarrow> table_file opt data (entries n) \<longrightarrow>
        good_table opt data (entries n) owner (tf_table tf))"

text \<open>The cached blocks are right for every table that ever got an id.\<close>

definition blocks_ok :: "(u64 \<Rightarrow> (table \<times> block_handle set) option) \<Rightarrow> u64 \<Rightarrow> block_cache \<Rightarrow> bool" where
  "blocks_ok owner top_id blocks \<longleftrightarrow>
     (\<forall>id t hs. owner id = Some (t, hs) \<longrightarrow> id \<le> top_id \<and> t_cache_id t = id \<and> cache_coherent t hs blocks) \<and>
     (\<forall>k. blocks k \<noteq> None \<longrightarrow> (\<exists>id offset. id \<le> top_id \<and> k = EncodeFixed64 id @ EncodeFixed64 offset))"

definition serves_with ::
  "table_options \<Rightarrow> bytes \<Rightarrow> (u64 \<Rightarrow> bytes option) \<Rightarrow> (u64 \<Rightarrow> (bytes \<times> bytes) list) \<Rightarrow>
   (u64 \<Rightarrow> (table \<times> block_handle set) option) \<Rightarrow> table_and_file acache list \<Rightarrow> nat \<Rightarrow> table_cache \<Rightarrow> bool" where
  "serves_with opt dbname store entries owner as n tc \<longleftrightarrow>
     tc_dbname tc = dbname \<and> tc_options tc = opt \<and> unat (tc_last_id tc) + n < 2 ^ 64 \<and>
     sc_rep (tc_cache tc) as \<and> budget (3 * n) as \<and> all_entries (good_entry opt store entries owner) as \<and>
     blocks_ok owner (tc_last_id tc) (tc_blocks tc) \<and> reliable_random (tc_env tc) \<and>
     (\<forall>m data. store m = Some data \<longrightarrow> pe_files (re_posix (tc_env tc)) (TableFileName dbname m) = Some data)"

definition serves ::
  "table_options \<Rightarrow> bytes \<Rightarrow> (u64 \<Rightarrow> bytes option) \<Rightarrow> (u64 \<Rightarrow> (bytes \<times> bytes) list) \<Rightarrow> nat \<Rightarrow> table_cache \<Rightarrow> bool" where
  "serves opt dbname store entries n tc \<longleftrightarrow> (\<exists>owner as. serves_with opt dbname store entries owner as n tc)"

text \<open>A file of a version whose table is stored.\<close>

definition known_file :: "table_options \<Rightarrow> (u64 \<Rightarrow> bytes option) \<Rightarrow> (u64 \<Rightarrow> (bytes \<times> bytes) list) \<Rightarrow> file_meta \<Rightarrow> bool" where
  "known_file opt store entries f \<longleftrightarrow>
     (\<exists>data. store (fm_number f) = Some data \<and> table_file opt data (entries (fm_number f)) \<and>
        fm_file_size f = word_of_nat (length data))"

text \<open>A lookup in one table leaves the cached blocks of the others alone.\<close>

lemma fetch_block_own:
  "fetch_block t ro h blocks = Some (s, b, blocks') \<Longrightarrow> blocks' k \<noteq> blocks k \<Longrightarrow> \<exists>h. k = block_cache_key t h"
  by (auto simp: fetch_block_def Let_def split: if_splits option.splits prod.splits)

lemma InternalGet_own:
  assumes "InternalGet t ro blocks key = Some (s, found, blocks')" and "blocks' k \<noteq> blocks k"
  shows "\<exists>h. k = block_cache_key t h"
proof -
  have "\<exists>h b s. fetch_block t ro h blocks = Some (s, b, blocks')"
    using assms by (auto simp: InternalGet_def BlockReader_def Let_def split: if_splits option.splits prod.splits)
  then show ?thesis using fetch_block_own assms(2) by blast
qed

lemma blocks_ok_lookup:
  assumes "blocks_ok owner top_id blocks" and "owner i = Some (t, hs)" and "cache_coherent t hs blocks'"
    and "InternalGet t ro blocks key = Some (s, found, blocks')"
  shows "blocks_ok owner top_id blocks'"
  unfolding blocks_ok_def
proof (intro conjI allI impI)
  have t: "i \<le> top_id" "t_cache_id t = i" using assms(1,2) unfolding blocks_ok_def by blast+
  fix id' t' hs'
  assume o: "owner id' = Some (t', hs')"
  then have t': "id' \<le> top_id" "t_cache_id t' = id'" "cache_coherent t' hs' blocks" using assms(1) unfolding blocks_ok_def by blast+
  show "id' \<le> top_id" "t_cache_id t' = id'" by (fact t')+
  show "cache_coherent t' hs' blocks'"
  proof (cases "id' = i")
    case True
    then show ?thesis using o assms(2,3) by simp
  next
    case False
    have "blocks' (block_cache_key t' h) = blocks (block_cache_key t' h)" for h
    proof (rule ccontr)
      assume "blocks' (block_cache_key t' h) \<noteq> blocks (block_cache_key t' h)"
      from InternalGet_own [OF assms(4) this] obtain h' where "block_cache_key t' h = block_cache_key t h'" by blast
      then have "EncodeFixed64 (t_cache_id t') = EncodeFixed64 (t_cache_id t)" by (simp add: block_cache_key_def)
      then show False using False t(2) t'(2) by (metis DecodeFixed64_EncodeFixed64 append_Nil2)
    qed
    then show ?thesis using t'(3) by (simp add: cache_coherent_def)
  qed
next
  have t: "i \<le> top_id" "t_cache_id t = i" using assms(1,2) unfolding blocks_ok_def by blast+
  fix k
  assume k: "blocks' k \<noteq> None"
  show "\<exists>id offset. id \<le> top_id \<and> k = EncodeFixed64 id @ EncodeFixed64 offset"
  proof (cases "blocks' k = blocks k")
    case True
    then show ?thesis using k assms(1) unfolding blocks_ok_def by metis
  next
    case False
    from InternalGet_own [OF assms(4) this] obtain h where "k = block_cache_key t h" by blast
    then show ?thesis using t unfolding block_cache_key_def by blast
  qed
qed

text \<open>A new id owns no blocks yet.\<close>

lemma blocks_ok_new:
  assumes "blocks_ok owner top_id blocks" and "unat top_id + 1 < 2 ^ 64" and "t_cache_id t = top_id + 1"
  shows "blocks_ok (owner(top_id + 1 \<mapsto> (t, hs))) (top_id + 1) blocks" and "owner (top_id + 1) = None"
proof -
  have up: "unat (top_id + 1) = unat top_id + 1" using assms(2) by (simp add: unat_word_ariths)
  then have less: "x \<le> top_id \<Longrightarrow> x \<le> top_id + 1 \<and> x \<noteq> top_id + 1" for x by (auto simp: word_le_nat_alt)
  show "owner (top_id + 1) = None"
  proof (rule ccontr)
    assume "owner (top_id + 1) \<noteq> None"
    then obtain t hs where "owner (top_id + 1) = Some (t, hs)" by (metis not_None_eq surj_pair)
    then have "top_id + 1 \<le> top_id" using assms(1) unfolding blocks_ok_def by blast
    then show False using less by blast
  qed
  have none: "blocks (block_cache_key t h) = None" for h
  proof (rule ccontr)
    assume "blocks (block_cache_key t h) \<noteq> None"
    then obtain id offset where i: "id \<le> top_id" "block_cache_key t h = EncodeFixed64 id @ EncodeFixed64 offset"
      using assms(1) unfolding blocks_ok_def by blast
    then have "EncodeFixed64 (top_id + 1) = EncodeFixed64 id" using assms(3) by (simp add: block_cache_key_def)
    then have "id = top_id + 1" by (metis DecodeFixed64_EncodeFixed64 append_Nil2)
    then show False using i(1) less by blast
  qed
  show "blocks_ok (owner(top_id + 1 \<mapsto> (t, hs))) (top_id + 1) blocks"
    unfolding blocks_ok_def
  proof (intro conjI allI impI)
    fix id t' hs'
    assume o: "(owner(top_id + 1 \<mapsto> (t, hs))) id = Some (t', hs')"
    show "id \<le> top_id + 1" "t_cache_id t' = id" "cache_coherent t' hs' blocks"
      using o assms(1,3) less none unfolding blocks_ok_def by (auto simp: cache_coherent_def split: if_splits)
  qed (use assms(1) less in \<open>unfold blocks_ok_def, blast\<close>)
qed

lemma good_table_owner: "good_table opt data es owner t \<Longrightarrow> owner \<subseteq>\<^sub>m owner' \<Longrightarrow> good_table opt data es owner' t"
  by (auto simp: good_table_def map_le_def dom_def) metis

section \<open>The table cache serves\<close>

text \<open>The tables of a database are opened with these options, and there is always a block cache.\<close>

definition database_options :: "table_options \<Rightarrow> bool" where
  "database_options opt \<longleftrightarrow>
     to_comparator opt = InternalKeyComparator BytewiseComparator \<and> to_block_cache opt \<and> 1 \<le> to_block_restart_interval opt \<and>
     (to_compression opt = kNoCompression \<or> to_compression opt = kSnappyCompression) \<and>
     (\<forall>p. to_filter_policy opt = Some p \<longrightarrow> (\<exists>u. p = InternalFilterPolicy u \<and> filter_policy u))"

lemma database_building:
  assumes "database_options opt"
  shows "table_building opt internal_key posix_writable_ops posix_content posix_written"
proof -
  have o: "to_comparator opt = InternalKeyComparator BytewiseComparator" "1 \<le> to_block_restart_interval opt"
    "to_compression opt = kNoCompression \<or> to_compression opt = kSnappyCompression"
    using assms by (simp_all add: database_options_def)
  show ?thesis by (rule table_building_posix) (use o bytewise_user.ikey.comparator_axioms in simp_all)
qed

lemma FindTable_serves:
  assumes opt: "database_options opt" and "serves_with opt dbname store entries owner as (Suc n) tc" and "known_file opt store entries f"
  shows "\<exists>hdl tc' owner' as' tf data. FindTable (fm_number f) (fm_file_size f) tc = Some (OK, Some hdl, tc') \<and>
    holds_handle (tc_cache tc') as' hdl (EncodeFixed64 (fm_number f)) tf \<and>
    good_table opt data (entries (fm_number f)) owner' (tf_table tf) \<and>
    tc_dbname tc' = dbname \<and> tc_options tc' = opt \<and> unat (tc_last_id tc') + n < 2 ^ 64 \<and>
    sc_rep (tc_cache tc') as' \<and> budget (3 * n + 1) as' \<and> all_entries (good_entry opt store entries owner') as' \<and>
    blocks_ok owner' (tc_last_id tc') (tc_blocks tc') \<and> reliable_random (tc_env tc') \<and>
    (\<forall>m data. store m = Some data \<longrightarrow> pe_files (re_posix (tc_env tc')) (TableFileName dbname m) = Some data)"
proof -
  let ?num = "fm_number f"
  let ?key = "EncodeFixed64 ?num"
  note tb = database_building [OF opt]
  note inv = assms(2) [unfolded serves_with_def]
  obtain data where data: "store ?num = Some data" "table_file opt data (entries ?num)" "fm_file_size f = word_of_nat (length data)"
    using assms(3) by (auto simp: known_file_def)
  have b: "budget (Suc (Suc (3 * n + 1))) as" using inv by (simp add: numeral_3_eq_3)
  obtain hdl sc where lk: "sc_Lookup ?key (tc_cache tc) = (hdl, sc)" by fastforce
  obtain as1 where as1: "sc_rep sc as1" "budget (Suc (3 * n + 1)) as1" "all_entries (good_entry opt store entries owner) as1"
    "case hdl of None \<Rightarrow> True | Some hdl \<Rightarrow> \<exists>v. holds_handle sc as1 hdl ?key v \<and> good_entry opt store entries owner ?key v"
    using sc_Lookup_step [OF _ b _ lk] inv by blast
  show ?thesis
  proof (cases hdl)
    case (Some h)
    then obtain tf where tf: "holds_handle sc as1 h ?key tf" "good_entry opt store entries owner ?key tf" using as1(4) by auto
    have "good_table opt data (entries ?num) owner (tf_table tf)" using tf(2) data(1,2) unfolding good_entry_def by blast
    moreover have "FindTable ?num (fm_file_size f) tc = Some (OK, Some h, tc\<lparr>tc_cache := sc\<rparr>)" by (simp add: FindTable_def lk Some)
    moreover have "budget (3 * n + 1) as1" using budget_mono [OF as1(2)] by simp
    ultimately show ?thesis using inv tf(1) as1(1,3)
      by (intro exI [of _ h] exI [of _ "tc\<lparr>tc_cache := sc\<rparr>"] exI [of _ owner] exI [of _ as1] exI [of _ tf] exI [of _ data]) simp
  next
    case None
    let ?fname = "TableFileName dbname ?num"
    obtain W ds where W: "data = table_building.table_image opt ds W" "table_building.written_blocks opt internal_key W (entries ?num) ds"
      and small: "data \<noteq> []" "length data < 2 ^ 32" using data(2) by (auto simp: table_file_def)
    have "pe_files (re_posix (tc_env tc)) ?fname = Some data" using inv data(1) by blast
    from reliable_NewRandomAccessFile [OF _ this small(1)] obtain pf env where
      pf: "env_NewRandomAccessFile ?fname (tc_env tc) = (Inr pf, env)" "ra_data (of_file pf) = data" "ra_fails (of_file pf) = (\<lambda>_ _. None)"
        "reliable_random env" "pe_files (re_posix env) = pe_files (re_posix (tc_env tc))" using inv small(2) by auto
    have rd: "readable (of_file pf)" using pf(2,3) small(2) by (simp add: readable_def)
    let ?id = "tc_last_id tc + 1"
    let ?t = "table_building.opened opt (of_file pf) ?id W ds"
    let ?tf = "\<lparr>tf_file = pf, tf_table = ?t\<rparr>"
    let ?owner = "owner(?id \<mapsto> (?t, table_building.data_handles opt ds))"
    have open_ok: "Table_Open opt (of_file pf) (fm_file_size f) ?id = Some (OK, Some ?t)"
      using table_building.Table_Open_image [OF tb rd] pf(2) W(1) data(3) by simp
    have id: "t_cache_id ?t = ?id" using opt by (simp add: table_building.opened_def [OF tb] database_options_def)
    have room: "unat (tc_last_id tc) + 1 < 2 ^ 64" "unat ?id = unat (tc_last_id tc) + 1" using inv by (simp_all add: unat_word_ariths)
    have "blocks_ok owner (tc_last_id tc) (tc_blocks tc)" using inv by blast
    note new = blocks_ok_new(1) [OF this room(1) id, where hs = "table_building.data_handles opt ds"] blocks_ok_new(2) [OF this room(1) id]
    have "owner \<subseteq>\<^sub>m ?owner" using new(2) inv by (auto simp: map_le_def)
    have good: "good_table opt data (entries ?num) ?owner ?t"
      using rd pf(2) W unfolding good_table_def by (intro exI [of _ "of_file pf"] exI [of _ ?id] exI [of _ W] exI [of _ ds]) simp
    have "good_entry opt store entries ?owner ?key ?tf"
      unfolding good_entry_def
    proof (intro allI impI)
      fix m data'
      assume m: "?key = EncodeFixed64 m" "store m = Some data'"
      then have "m = ?num" by (metis DecodeFixed64_EncodeFixed64 append_Nil2)
      then show "good_table opt data' (entries m) ?owner (tf_table ?tf)" using m(2) data(1) good by simp
    qed
    moreover have "all_entries (good_entry opt store entries ?owner) as1"
      by (rule all_entries_mono [OF as1(3)]) (use good_table_owner [OF _ \<open>owner \<subseteq>\<^sub>m ?owner\<close>] in \<open>auto simp: good_entry_def\<close>)
    ultimately obtain h sc2 as2 where ins: "sc_Insert ?key ?tf 1 sc = Some (h, sc2)" "sc_rep sc2 as2" "budget (3 * n + 1) as2"
      "all_entries (good_entry opt store entries ?owner) as2" "holds_handle sc2 as2 h ?key ?tf"
      using sc_Insert_step [OF as1(1,2)] by blast
    let ?tc = "tc\<lparr>tc_env := env, tc_last_id := ?id, tc_cache := sc2\<rparr>"
    have "sc_rep (tc_cache ?tc) as2" using ins(2) by simp
    note rd2 = run_deleters_step [OF this ins(3,4)]
    have held2: "holds_handle (tc_cache ?tc) as2 h ?key ?tf" using ins(5) by simp
    obtain as3 where as3: "sc_rep (tc_cache (run_deleters ?tc)) as3" "budget (3 * n + 1) as3" "all_entries (good_entry opt store entries ?owner) as3"
      "holds_handle (tc_cache (run_deleters ?tc)) as3 h ?key ?tf"
      using rd2 held2 by blast
    have "FindTable ?num (fm_file_size f) tc = Some (OK, Some h, run_deleters ?tc)"
      using opt inv lk None pf(1) open_ok ins(1) by (simp add: FindTable_def database_options_def)
    moreover have "reliable_random (tc_env (run_deleters ?tc))" using pf(4) by (simp add: reliable_random_def)
    ultimately show ?thesis using inv as3 good new(1) room pf(5)
      by (intro exI [of _ h] exI [of _ "run_deleters ?tc"] exI [of _ ?owner] exI [of _ as3] exI [of _ ?tf] exI [of _ data]) simp
  qed
qed

lemma TableCache_Get_serves:
  assumes opt: "database_options opt" and "serves opt dbname store entries (Suc n) tc" and "known_file opt store entries f" and "8 \<le> length k"
  shows "\<exists>r tc'. TableCache_Get ro tc (fm_number f) (fm_file_size f) k = Some (OK, r, tc') \<and> serves opt dbname store entries n tc' \<and>
    answers bytewise_internal (entries (fm_number f)) k r"
proof -
  note tb = database_building [OF opt]
  obtain owner as where "serves_with opt dbname store entries owner as (Suc n) tc" using assms(2) by (auto simp: serves_def)
  from FindTable_serves [OF opt this assms(3)] obtain hdl tc1 owner1 as1 tf data where
    find: "FindTable (fm_number f) (fm_file_size f) tc = Some (OK, Some hdl, tc1)"
    and held: "holds_handle (tc_cache tc1) as1 hdl (EncodeFixed64 (fm_number f)) tf"
    and good: "good_table opt data (entries (fm_number f)) owner1 (tf_table tf)"
    and same: "tc_dbname tc1 = dbname" "tc_options tc1 = opt" "unat (tc_last_id tc1) + n < 2 ^ 64"
    and c: "sc_rep (tc_cache tc1) as1" "budget (3 * n + 1) as1" "all_entries (good_entry opt store entries owner1) as1"
    and bl: "blocks_ok owner1 (tc_last_id tc1) (tc_blocks tc1)" and env: "reliable_random (tc_env tc1)"
    and files: "\<forall>m data. store m = Some data \<longrightarrow> pe_files (re_posix (tc_env tc1)) (TableFileName dbname m) = Some data" by blast
  obtain rf i W ds where t: "readable rf" "ra_data rf = table_building.table_image opt ds W"
    "table_building.written_blocks opt internal_key W (entries (fm_number f)) ds"
    "tf_table tf = table_building.opened opt rf i W ds" "owner1 i = Some (tf_table tf, table_building.data_handles opt ds)"
    using good by (auto simp: good_table_def)
  have coh: "cache_coherent (table_building.opened opt rf i W ds) (table_building.data_handles opt ds) (tc_blocks tc1)"
    using bl t(5) unfolding t(4) blocks_ok_def by blast
  have cmp: "to_comparator opt = bytewise_internal" and pol: "\<And>p. to_filter_policy opt = Some p \<Longrightarrow> \<exists>u. p = InternalFilterPolicy u \<and> filter_policy u"
    using opt by (auto simp: database_options_def)
  have tab: "readable rf \<and> ra_data rf = table_building.table_image opt ds W \<and>
      table_building.written_blocks opt internal_key W (entries (fm_number f)) ds" using t by blast
  from table_building.lookup_answers [OF tb tab assms(4) coh cmp pol] obtain found blocks where
    g: "InternalGet (tf_table tf) ro (tc_blocks tc1) k = Some (OK, found, blocks)"
      "cache_coherent (tf_table tf) (table_building.data_handles opt ds) blocks"
      "answers bytewise_internal (entries (fm_number f)) k found"
    unfolding t(4) cmp by blast
  have bl': "blocks_ok owner1 (tc_last_id tc1) blocks" by (rule blocks_ok_lookup [OF bl t(5) g(2,1)])
  have "budget (Suc (3 * n)) as1" using c(2) by simp
  from sc_Release_step [OF c(1) this c(3) held] obtain as2 where
    as2: "sc_rep (sc_Release hdl (tc_cache tc1)) as2" "budget (3 * n) as2" "all_entries (good_entry opt store entries owner1) as2" by blast
  let ?tc = "tc1\<lparr>tc_blocks := blocks, tc_cache := sc_Release hdl (tc_cache tc1)\<rparr>"
  have "sc_rep (tc_cache ?tc) as2" using as2(1) by simp
  from run_deleters_step [OF this as2(2,3)] obtain as3 where
    as3: "sc_rep (tc_cache (run_deleters ?tc)) as3" "budget (3 * n) as3" "all_entries (good_entry opt store entries owner1) as3" by blast
  have "reliable_random (tc_env (run_deleters ?tc))" using env by (simp add: reliable_random_def)
  then have "serves_with opt dbname store entries owner1 as3 n (run_deleters ?tc)"
    using same as3 bl' files by (simp add: serves_with_def)
  then have "serves opt dbname store entries n (run_deleters ?tc)" unfolding serves_def by blast
  moreover have "sc_Value hdl (tc_cache tc1) = tf" using held by (simp add: holds_handle_def)
  then have "TableCache_Get ro tc (fm_number f) (fm_file_size f) k = Some (OK, found, run_deleters ?tc)"
    using g(1) by (simp add: TableCache_Get_def find ok_def UnrefEntry_def)
  ultimately show ?thesis using g(3) by blast
qed

lemma serves_less: "serves opt dbname store entries (Suc n) tc \<Longrightarrow> serves opt dbname store entries n tc"
proof -
  have "serves_with opt dbname store entries owner as (Suc n) tc \<Longrightarrow> serves_with opt dbname store entries owner as n tc" for owner as
    using budget_mono [of "3 * Suc n" as "3 * n"] unfolding serves_with_def by auto
  then show "serves opt dbname store entries (Suc n) tc \<Longrightarrow> serves opt dbname store entries n tc" unfolding serves_def by blast
qed

text \<open>The entries of a stored table are sorted, and their keys are internal keys.\<close>

definition parseable :: "(bytes \<times> bytes) list \<Rightarrow> bool" where
  "parseable es \<longleftrightarrow> (\<forall>e \<in> set es. ParseInternalKey (fst e) \<noteq> None)"

definition served_file :: "table_options \<Rightarrow> (u64 \<Rightarrow> bytes option) \<Rightarrow> (u64 \<Rightarrow> (bytes \<times> bytes) list) \<Rightarrow> file_meta \<Rightarrow> bool" where
  "served_file opt store entries f \<longleftrightarrow>
     database_options opt \<and> known_file opt store entries f \<and> parseable (entries (fm_number f)) \<and>
     sorted_wrt (\<lambda>a b. cmp_Compare bytewise_internal (fst a) (fst b) < 0) (entries (fm_number f))"

interpretation table_files: table_source "TableCache_Get ro" "serves opt dbname store entries" "served_file opt store entries" entries
  for ro opt dbname store entries
proof
  show "\<exists>r tc'. TableCache_Get ro tc (fm_number f) (fm_file_size f) k = Some (OK, r, tc') \<and> serves opt dbname store entries n tc' \<and>
      answers bytewise_internal (entries (fm_number f)) k r"
    if "serves opt dbname store entries (Suc n) tc" "served_file opt store entries f" "8 \<le> length k" for n tc f k
    by (rule TableCache_Get_serves) (use that in \<open>simp_all add: served_file_def\<close>)
qed (auto simp: served_file_def parseable_def intro: serves_less)

text \<open>A new table cache serves.\<close>

lemma new_TableCache_serves:
  assumes "reliable_random env" and "3 * n + 3 < 2 ^ 31"
    and "\<forall>m data. store m = Some data \<longrightarrow> pe_files (re_posix env) (TableFileName dbname m) = Some data"
  shows "serves opt dbname store entries n (new_TableCache dbname opt capacity env)"
proof -
  let ?per = "(capacity + (word_of_nat kNumShards - 1)) div word_of_nat kNumShards"
  let ?as = "replicate kNumShards (a_new ?per)"
  have "sc_rep (NewLRUCache capacity) ?as" by (simp add: sc_rep_def NewLRUCache_def Let_def new_cache_rep)
  moreover have "budget (3 * n) ?as" using assms(2) by (simp add: budget_def few_left_def a_new_def)
  moreover have "all_entries (good_entry opt store entries (\<lambda>_. None)) ?as" by (simp add: all_entries_def a_new_def)
  moreover have "blocks_ok (\<lambda>_. None) 0 (\<lambda>_. None)" by (simp add: blocks_ok_def)
  ultimately have "serves_with opt dbname store entries (\<lambda>_. None) ?as n (new_TableCache dbname opt capacity env)"
    using assms by (simp add: serves_with_def new_TableCache_def)
  then show ?thesis unfolding serves_def by blast
qed

text \<open>The small table of \<open>Table\<close> is a table file.\<close>

lemma demo_table: "table_file demo_options (posix_content (tb_file demo_built)) [demo_entry]"
proof -
  note tb = demo_building
  have v: "\<forall>e \<in> set [demo_entry]. internal_key (fst e)" by (simp add: demo_entry_def)
  have srt: "sorted_wrt (\<lambda>a b. cmp_Compare (to_comparator demo_options) (fst a) (fst b) < 0) [demo_entry]" by simp
  have f: "ra_data demo_table_file = posix_content (tb_file demo_built)" by (simp add: demo_table_file_def)
  obtain W ds where w: "ra_data demo_table_file = table_building.table_image demo_options ds W"
    "table_building.written_blocks demo_options internal_key W [demo_entry] ds"
    using finished_table [OF tb demo_content srt v demo_Finish f demo_readable] by blast
  have "length (ra_data demo_table_file) > 0"
    using data_at_length [OF table_building.image_parts(1) [OF tb, of ds W]] unfolding w(1) by linarith
  then show ?thesis using demo_readable w unfolding table_file_def readable_def by (auto simp: demo_table_file_def)
qed

lemma demo_database: "database_options demo_options"
  by (simp add: database_options_def demo_options_def)

end
