(* ===== verification/DbRead.thy ===== *)
theory DbRead
  imports TableCache MemTable VersionSet
begin

text \<open>
  The database as \<^verbatim>\<open>class DBImpl\<close> keeps it (\<^verbatim>\<open>db/db_impl.h\<close>), its snapshots (\<^verbatim>\<open>db/snapshot.h\<close>), and
  reading a key (\<^verbatim>\<open>DBImpl::Get\<close>): the memtable, then the memtable that is being written out, then the current version.
  A call runs alone: the mutex that is released while files are read lets in only calls that leave the version and the
  memtables taken before as they are.
\<close>

section \<open>Snapshots\<close>

text \<open>The doubly-linked list as its sequence numbers, the oldest first; a snapshot is one of its places.\<close>

type_synonym snapshots = "(nat \<times> u64) list"

definition SnapshotList_New :: "nat \<Rightarrow> u64 \<Rightarrow> snapshots \<Rightarrow> snapshots" where
  "SnapshotList_New place sequence_number ss = ss @ [(place, sequence_number)]"

definition SnapshotList_Delete :: "nat \<Rightarrow> snapshots \<Rightarrow> snapshots" where
  "SnapshotList_Delete place ss = filter (\<lambda>s. fst s \<noteq> place) ss"

definition SnapshotList_oldest :: "snapshots \<Rightarrow> u64" where
  "SnapshotList_oldest ss = snd (ss ! 0)"

definition SnapshotList_newest :: "snapshots \<Rightarrow> u64" where
  "SnapshotList_newest ss = snd (ss ! (length ss - 1))"

section \<open>State\<close>

record manual_compaction =
  mc_level :: nat
  mc_done :: bool
  mc_begin :: "bytes option"
  mc_end :: "bytes option"

record db =
  db_write_buffer_size :: nat
  db_tables :: table_cache
  db_mem :: memtable
  db_imm :: "memtable option"
  db_logfile_number :: u64
  db_log :: "posix_writable log_writer option"
  db_snapshots :: snapshots
  db_next_place :: nat
  db_pending_outputs :: "u64 set"
  db_shutting_down :: bool
  db_scheduled :: bool
  db_manual :: "manual_compaction option"
  db_versions :: version_set
  db_bg_error :: status

abbreviation db_env :: "db \<Rightarrow> posix_env" where
  "db_env db \<equiv> re_posix (tc_env (db_tables db))"

text \<open>Background work is asked for when there is any and none is running.\<close>

definition MaybeScheduleCompaction :: "db \<Rightarrow> db" where
  "MaybeScheduleCompaction db =
     (if db_scheduled db then db
      else if db_shutting_down db then db
      else if \<not> ok (db_bg_error db) then db
      else if db_imm db = None \<and> db_manual db = None \<and> \<not> NeedsCompaction (db_versions db) then db
      else db\<lparr>db_scheduled := True\<rparr>)"

definition db_GetSnapshot :: "db \<Rightarrow> nat \<times> db" where
  "db_GetSnapshot db =
     (db_next_place db,
      db\<lparr>db_next_place := db_next_place db + 1,
         db_snapshots := SnapshotList_New (db_next_place db) (vs_last_sequence (db_versions db)) (db_snapshots db)\<rparr>)"

definition db_ReleaseSnapshot :: "nat \<Rightarrow> db \<Rightarrow> db" where
  "db_ReleaseSnapshot place db = db\<lparr>db_snapshots := SnapshotList_Delete place (db_snapshots db)\<rparr>"

section \<open>Get\<close>

definition answer_of :: "get_result \<Rightarrow> (status \<times> bytes option) option" where
  "answer_of r = (case r of GetFalse \<Rightarrow> None | GetValue v \<Rightarrow> Some (OK, Some v) | GetStatus s \<Rightarrow> Some (s, None))"

text \<open>\<open>None\<close> outside: a search of the skip list that does not end, or a read outside of a buffer.\<close>

definition db_Get :: "read_options \<Rightarrow> u64 option \<Rightarrow> bytes \<Rightarrow> db \<Rightarrow> (status \<times> bytes option \<times> db) option" where
  "db_Get options snapshot key db =
     (let user = vs_user (db_versions db);
          snapshot = (case snapshot of Some s \<Rightarrow> s | None \<Rightarrow> vs_last_sequence (db_versions db));
          lkey = LookupKey key snapshot
      in (case mem_Get user lkey (db_mem db) of
            None \<Rightarrow> None
          | Some r \<Rightarrow>
              (case answer_of r of
                 Some (s, v) \<Rightarrow> Some (s, v, db)
               | None \<Rightarrow>
                   (case (case db_imm db of None \<Rightarrow> Some GetFalse | Some imm \<Rightarrow> mem_Get user lkey imm) of
                      None \<Rightarrow> None
                    | Some r \<Rightarrow>
                        (case answer_of r of
                           Some (s, v) \<Rightarrow> Some (s, v, db)
                         | None \<Rightarrow>
                             (case Version_Get user (TableCache_Get options) (vs_current (db_versions db)) lkey (db_tables db) of
                                None \<Rightarrow> None
                              | Some (s, v, stats, tables) \<Rightarrow>
                                  let (wanted, current) = UpdateStats stats (vs_current (db_versions db));
                                      db = db\<lparr>db_tables := tables, db_versions := (db_versions db)\<lparr>vs_current := current\<rparr>\<rparr>;
                                      db = (if wanted then MaybeScheduleCompaction db else db)
                                  in Some (s, v, db)))))))"

definition db_RecordReadSample :: "bytes \<Rightarrow> db \<Rightarrow> db" where
  "db_RecordReadSample key db =
     (let (wanted, current) = RecordReadSample (vs_user (db_versions db)) key (vs_current (db_versions db));
          db = db\<lparr>db_versions := (db_versions db)\<lparr>vs_current := current\<rparr>\<rparr>
      in if wanted then MaybeScheduleCompaction db else db)"

section \<open>What the database holds\<close>

text \<open>The entries of a memtable as pairs of internal key and value.\<close>

definition mem_entries :: "entry list \<Rightarrow> (bytes \<times> bytes) set" where
  "mem_entries es = (\<lambda>(q, t, k, v). (InternalKey k q t, v)) ` set es"

definition all_newer :: "(bytes \<times> bytes) set \<Rightarrow> (bytes \<times> bytes) set \<Rightarrow> bool" where
  "all_newer E E' \<longleftrightarrow> (\<forall>e \<in> E. \<forall>e' \<in> E'. ExtractUserKey (fst e) = ExtractUserKey (fst e') \<longrightarrow> key_tag (fst e') < key_tag (fst e))"

lemma newest_above:
  assumes "newest E u s (Some e)" and "all_newer E E'"
  shows "newest (E \<union> E') u s (Some e)"
proof -
  have e: "e \<in> E" "ExtractUserKey (fst e) = u" using assms(1) by (auto simp: newest_def visible_in_def)
  have "key_tag (fst e') \<le> key_tag (fst e)" if "e' \<in> visible_in (E \<union> E') u s" for e'
  proof (cases "e' \<in> E")
    case True
    then have "e' \<in> visible_in E u s" using that by (simp add: visible_in_def)
    then show ?thesis using assms(1) unfolding newest_def option.case by blast
  next
    case False
    then have "e' \<in> E'" "ExtractUserKey (fst e') = u" using that by (auto simp: visible_in_def)
    then have "key_tag (fst e') < key_tag (fst e)" using assms(2) e unfolding all_newer_def by metis
    then show ?thesis by simp
  qed
  then show ?thesis using assms(1) by (auto simp: newest_def visible_in_def)
qed

lemma newest_below: "newest E u s None \<Longrightarrow> newest E' u s r \<Longrightarrow> newest (E \<union> E') u s r"
  by (cases r) (auto simp: newest_def visible_in_def)

text \<open>Reading a memtable is reading its newest visible entry.\<close>

lemma mem_visible:
  assumes "\<forall>e \<in> set es. valid_write e" and "s \<le> kMaxSequenceNumber"
  shows "visible_in (mem_entries es) u s = mem_entries (visible es u s)"
proof -
  have "PackSequenceAndType q t \<le> PackSequenceAndType s kValueTypeForSeek \<longleftrightarrow> q \<le> s" if "(q, t, k, v) \<in> set es" for q t k v
  proof -
    have "q \<le> kMaxSequenceNumber" using assms(1) that by (auto simp: valid_write_def)
    then have "PackSequenceAndType s kValueTypeForSeek < PackSequenceAndType q t \<longleftrightarrow> s < q"
      using Pack_less_iff [OF assms(2), of q kValueTypeForSeek t]
      by (cases t) (auto simp: kValueTypeForSeek_def less_ValueType_def type_code_def)
    then show ?thesis by (meson not_le)
  qed
  then have "(\<lambda>(q, t, k, v). (InternalKey k q t, v)) x \<in> visible_in (mem_entries es) u s \<longleftrightarrow> x \<in> set (visible es u s)" if "x \<in> set es" for x
    using that by (cases x) (auto simp: mem_entries_def visible_in_def visible_def intro!: image_eqI)
  moreover have "visible_in (mem_entries es) u s \<subseteq> mem_entries es" "set (visible es u s) \<subseteq> set es"
    by (auto simp: visible_in_def visible_def)
  ultimately show ?thesis unfolding mem_entries_def by blast
qed

lemma mem_get_newest:
  assumes "\<forall>e \<in> set es. valid_write e" and "sorted_wrt (<) (map fst es)" and "s \<le> kMaxSequenceNumber"
  shows "\<exists>r. newest (mem_entries es) u s r \<and>
    (case answer_of (mem_get_spec es u s) of None \<Rightarrow> r = None | Some a \<Rightarrow> r \<noteq> None \<and> read_entry r = a)"
proof (cases "rev (visible es u s)")
  case Nil
  then have "newest (mem_entries es) u s None" using mem_visible [OF assms(1,3), of u] by (simp add: newest_def mem_entries_def)
  then show ?thesis using Nil by (intro exI [of _ None]) (simp add: mem_get_spec_def answer_of_def)
next
  case (Cons e ys)
  obtain q t k v where e: "e = (q, t, k, v)" by (cases e)
  have vs: "visible es u s = rev ys @ [e]" using Cons by (metis rev.simps(2) rev_rev_ident)
  have "e \<in> set (visible es u s)" unfolding vs by simp
  then have "e \<in> set es" by (simp add: visible_def)
  then have max: "q \<le> kMaxSequenceNumber" using assms(1) e by (auto simp: valid_write_def)
  have "sorted_wrt (\<lambda>a b. fst a < fst b) (visible es u s)"
    using assms(2) unfolding visible_def sorted_wrt_map by (rule sorted_wrt_filter)
  then have before: "\<forall>y \<in> set ys. fst y < q" by (simp add: vs e sorted_wrt_append)
  have tag: "PackSequenceAndType q' t' \<le> PackSequenceAndType q t" if "(q', t', k', v') \<in> set (visible es u s)" for q' t' k' v'
  proof -
    have "(q', t', k', v') \<in> set es" using that unfolding visible_def set_filter by blast
    then have "q' \<le> kMaxSequenceNumber" using assms(1) by (auto simp: valid_write_def)
    moreover have "(q', t', k', v') = (q, t, k, v) \<or> (q', t', k', v') \<in> set ys" using that unfolding vs e set_append set_rev by simp
    then have "(q', t', k', v') = (q, t, k, v) \<or> q' < q" using bspec [OF before, of "(q', t', k', v')"] by auto
    ultimately show ?thesis using Pack_less_iff [of q' q t' t] max by (auto intro: less_imp_le)
  qed
  have "newest (mem_entries es) u s (Some (InternalKey k q t, v))"
    unfolding newest_def option.case mem_visible [OF assms(1,3)]
  proof (intro conjI ballI)
    show "(InternalKey k q t, v) \<in> mem_entries (visible es u s)" by (force simp: mem_entries_def vs e)
    show "key_tag (fst e') \<le> key_tag (fst (InternalKey k q t, v))" if "e' \<in> mem_entries (visible es u s)" for e'
      using that tag by (auto simp: mem_entries_def)
  qed
  moreover have "read_entry (Some (InternalKey k q t, v)) = (case t of kTypeValue \<Rightarrow> (OK, Some v) | kTypeDeletion \<Rightarrow> (NotFound [], None))"
    using Parse_InternalKey [OF max, of k t] by (simp add: read_entry_def split: ValueType.split)
  ultimately show ?thesis
    by (intro exI [of _ "Some (InternalKey k q t, v)"]; cases t) (simp_all add: mem_get_spec_def Cons e answer_of_def)
qed

text \<open>
  A state that holds the writes \<open>mem\<close> and \<open>imm\<close> in its memtables and the entries \<open>entries\<close> in its files, can serve \<open>n\<close>
  lookups in tables, and has its parts in order of age.
\<close>

definition db_entries :: "entry list \<Rightarrow> entry list \<Rightarrow> (u64 \<Rightarrow> (bytes \<times> bytes) list) \<Rightarrow> db \<Rightarrow> (bytes \<times> bytes) set" where
  "db_entries mem imm entries db =
     mem_entries mem \<union> (mem_entries imm \<union> stored_entries entries (v_files (vs_current (db_versions db))))"

definition holds_writes :: "memtable option \<Rightarrow> entry list \<Rightarrow> bool" where
  "holds_writes mt es \<longleftrightarrow>
     (\<forall>e \<in> set es. valid_write e) \<and> sorted_wrt (<) (map fst es) \<and>
     (case mt of None \<Rightarrow> es = [] | Some mt \<Rightarrow> \<exists>ks. bytewise_user.mem_rep mt es ks)"

definition files_served ::
  "table_options \<Rightarrow> bytes \<Rightarrow> (u64 \<Rightarrow> bytes option) \<Rightarrow> (u64 \<Rightarrow> (bytes \<times> bytes) list) \<Rightarrow> nat \<Rightarrow> db \<Rightarrow> bool" where
  "files_served opt dbname store entries n db \<longleftrightarrow>
     layered entries (v_files (vs_current (db_versions db))) \<and>
     (\<forall>l < kNumLevels. \<forall>f \<in> set (v_files (vs_current (db_versions db)) ! l). served_file opt store entries f) \<and>
     serves opt dbname store entries n (db_tables db)"

definition db_ok ::
  "table_options \<Rightarrow> bytes \<Rightarrow> (u64 \<Rightarrow> bytes option) \<Rightarrow> (u64 \<Rightarrow> (bytes \<times> bytes) list) \<Rightarrow> entry list \<Rightarrow> entry list \<Rightarrow> nat \<Rightarrow> db \<Rightarrow> bool" where
  "db_ok opt dbname store entries mem imm n db \<longleftrightarrow>
     vs_user (db_versions db) = BytewiseComparator \<and> vs_last_sequence (db_versions db) \<le> kMaxSequenceNumber \<and>
     holds_writes (Some (db_mem db)) mem \<and> holds_writes (db_imm db) imm \<and> files_served opt dbname store entries n db \<and>
     all_newer (mem_entries mem) (mem_entries imm \<union> stored_entries entries (v_files (vs_current (db_versions db)))) \<and>
     all_newer (mem_entries imm) (stored_entries entries (v_files (vs_current (db_versions db))))"

lemma mem_Get_newest:
  assumes "holds_writes (Some mt) es" and "length u + 8 < 2 ^ 32" and "s \<le> kMaxSequenceNumber"
  shows "\<exists>g r. mem_Get BytewiseComparator (LookupKey u s) mt = Some g \<and> newest (mem_entries es) u s r \<and>
    (case answer_of g of None \<Rightarrow> r = None | Some a \<Rightarrow> r \<noteq> None \<and> read_entry r = a)"
proof -
  obtain ks where es: "\<forall>e \<in> set es. valid_write e" "sorted_wrt (<) (map fst es)" "bytewise_user.mem_rep mt es ks"
    using assms(1) by (auto simp: holds_writes_def)
  from mem_get_newest [OF es(1,2) assms(3), of u] bytewise_mem_Get [OF es(3,2) assms(2,3)] show ?thesis by blast
qed

text \<open>Charging a seek changes no keys.\<close>

lemma UpdateStats_files:
  assumes "UpdateStats stats v = (w, v')"
  shows "\<exists>charge. (\<forall>f. fm_number (charge f) = fm_number f \<and> fm_smallest (charge f) = fm_smallest f \<and>
      fm_largest (charge f) = fm_largest f \<and> fm_file_size (charge f) = fm_file_size f) \<and>
    v_files v' = map (map charge) (v_files v)"
proof (cases "seek_file stats")
  case None
  then show ?thesis using assms by (intro exI [of _ "\<lambda>f. f"]) (simp add: UpdateStats_def)
next
  case (Some f)
  then show ?thesis using assms
    by (intro exI [of _ "\<lambda>g. if fm_number g = fm_number f then charge_seek g else g"])
      (auto simp: UpdateStats_def charge_seek_def Let_def split: if_splits)
qed

text \<open>What differs in the count of seeks only is layered alike.\<close>

context user_comparator
begin

lemma levels_ok_map:
  assumes "levels_ok keys files" and "\<And>f. fm_number (c f) = fm_number f" and "\<And>f. fm_smallest (c f) = fm_smallest f"
    and "\<And>f. fm_largest (c f) = fm_largest f"
  shows "levels_ok keys (map (map c) files)"
proof -
  note d = levels_okD [OF assms(1)]
  have len: "length files = kNumLevels" using d(1) by (simp add: version_wf_def)
  have nth: "map (map c) files ! l = map c (files ! l)" if "l < kNumLevels" for l using that len by simp
  have wf: "file_wf (c f) = file_wf f" "holds keys (c f) = holds keys f" for f by (simp_all add: file_wf_def holds_def assms)
  have z: "0 < kNumLevels" by (simp add: kNumLevels_def)
  show ?thesis
    unfolding levels_ok_def
  proof (intro conjI allI impI ballI)
    show "version_wf (map (map c) files)"
      using d(1) nth z unfolding version_wf_def level_sorted_def by (auto simp: wf sorted_wrt_map assms)
  next
    fix l assume l: "l < kNumLevels"
    have k: "key_sorted (files ! l)" "distinct (files ! l)" "inj_on fm_number (set (files ! l))" using d(2,3) [OF l] by blast+
    have "BySmallestKey cmp (c f) (c g) = BySmallestKey cmp f g" for f g by (simp add: BySmallestKey_def assms)
    then show "key_sorted (map (map c) files ! l)" using k(1) unfolding nth [OF l] key_sorted_def by (simp add: sorted_wrt_map)
    show "inj_on fm_number (set (map (map c) files ! l))" unfolding nth [OF l] using k(3) by (auto simp: inj_on_def assms)
    have "inj_on c (set (files ! l))" using k(3) assms(2) unfolding inj_on_def by metis
    then show "distinct (map (map c) files ! l)" unfolding nth [OF l] using k(2) by (simp add: distinct_map)
    show "\<And>f. f \<in> set (map (map c) files ! l) \<Longrightarrow> holds keys f" unfolding nth [OF l] using d(4) [OF l] by (auto simp: wf)
  next
    fix i j f g assume ij: "i < j" "j < kNumLevels" and fg: "f \<in> set (map (map c) files ! i)" "g \<in> set (map (map c) files ! j)"
    then have "i < kNumLevels" by simp
    then show "fm_number f \<noteq> fm_number g" "newer (keys (fm_number f)) (keys (fm_number g))"
      using fg d(5,7) [OF ij] by (auto simp: nth ij(2) assms)
  next
    fix f g assume "f \<in> set (map (map c) files ! 0)" "g \<in> set (map (map c) files ! 0)" "fm_number g < fm_number f"
    then show "newer (keys (fm_number f)) (keys (fm_number g))" using d(6) by (auto simp: nth [OF z] assms)
  qed
qed

lemma tight_map:
  assumes "tight keys files" and "length files = kNumLevels" and "\<And>f. fm_number (c f) = fm_number f" and "\<And>f. fm_largest (c f) = fm_largest f"
  shows "tight keys (map (map c) files)"
  using assms unfolding tight_def by auto

end

lemma stored_entries_map:
  assumes "length files = kNumLevels" and "\<And>f. fm_number (c f) = fm_number f"
  shows "stored_entries entries (map (map c) files) = stored_entries entries files"
  unfolding stored_entries_def using assms by auto

lemma files_served_map:
  assumes "layered entries (v_files v)" and "\<forall>l < kNumLevels. \<forall>f \<in> set (v_files v ! l). served_file opt store entries f"
    and "UpdateStats stats v = (w, v')"
  shows "layered entries (v_files v')" and "\<forall>l < kNumLevels. \<forall>f \<in> set (v_files v' ! l). served_file opt store entries f"
    and "stored_entries entries (v_files v') = stored_entries entries (v_files v)"
    and "length (v_files v' ! 0) = length (v_files v ! 0)"
proof -
  obtain c where c: "\<And>f. fm_number (c f) = fm_number f" "\<And>f. fm_smallest (c f) = fm_smallest f" "\<And>f. fm_largest (c f) = fm_largest f"
    "\<And>f. fm_file_size (c f) = fm_file_size f" "v_files v' = map (map c) (v_files v)"
    using UpdateStats_files [OF assms(3)] by blast
  have len: "length (v_files v) = kNumLevels"
    using bytewise_user.levels_okD(1) [OF assms(1) [THEN conjunct1]] by (simp add: bytewise_user.version_wf_def)
  show "layered entries (v_files v')"
    using assms(1) len unfolding c(5) by (intro conjI bytewise_user.levels_ok_map bytewise_user.tight_map) (auto simp: c)
  have "served_file opt store entries (c f) = served_file opt store entries f" for f by (simp add: served_file_def known_file_def c)
  then show "\<forall>l < kNumLevels. \<forall>f \<in> set (v_files v' ! l). served_file opt store entries f" using assms(2) len unfolding c(5) by auto
  show "stored_entries entries (v_files v') = stored_entries entries (v_files v)" unfolding c(5) by (rule stored_entries_map [OF len c(1)])
  show "length (v_files v' ! 0) = length (v_files v ! 0)" unfolding c(5) using len by (simp add: kNumLevels_def)
qed

lemma MaybeScheduleCompaction_fields [simp]:
  "db_tables (MaybeScheduleCompaction db) = db_tables db" "db_versions (MaybeScheduleCompaction db) = db_versions db"
  "db_mem (MaybeScheduleCompaction db) = db_mem db"
  "db_imm (MaybeScheduleCompaction db) = db_imm db"
  by (simp_all add: MaybeScheduleCompaction_def)

lemma db_ok_less: "db_ok opt dbname store entries mem imm (n + m) db \<Longrightarrow> db_ok opt dbname store entries mem imm n db"
  unfolding db_ok_def files_served_def using table_files.serves_add by blast

lemma db_ok_charged:
  assumes "db_ok opt dbname store entries mem imm m db" and "UpdateStats stats (vs_current (db_versions db)) = (w, current)"
    and "serves opt dbname store entries n tc"
  defines "db' \<equiv> db\<lparr>db_tables := tc, db_versions := (db_versions db)\<lparr>vs_current := current\<rparr>\<rparr>"
  shows "db_ok opt dbname store entries mem imm n db'" and "db_entries mem imm entries db' = db_entries mem imm entries db"
proof -
  note inv = assms(1) [unfolded db_ok_def]
  have srv: "layered entries (v_files (vs_current (db_versions db)))"
    "\<forall>l < kNumLevels. \<forall>f \<in> set (v_files (vs_current (db_versions db)) ! l). served_file opt store entries f"
    using inv unfolding files_served_def by blast+
  note m = files_served_map [OF srv assms(2)]
  have "files_served opt dbname store entries n db'" using m(1,2) assms(3) by (simp add: files_served_def db'_def)
  moreover have same: "stored_entries entries (v_files (vs_current (db_versions db'))) = stored_entries entries (v_files (vs_current (db_versions db)))"
    using m(3) by (simp add: db'_def)
  ultimately show "db_ok opt dbname store entries mem imm n db'" using inv unfolding db_ok_def same by (simp add: db'_def)
  show "db_entries mem imm entries db' = db_entries mem imm entries db" unfolding db_entries_def same ..
qed

lemma db_ok_schedule [simp]:
  "db_ok opt dbname store entries mem imm n (MaybeScheduleCompaction db) = db_ok opt dbname store entries mem imm n db"
  "db_entries mem imm entries (MaybeScheduleCompaction db) = db_entries mem imm entries db"
  by (simp_all add: db_ok_def files_served_def db_entries_def)

text \<open>Every read gives the newest visible entry of everything the database holds.\<close>

lemma db_Get_newest:
  assumes "db_ok opt dbname store entries mem imm (n + (length (v_files (vs_current (db_versions db)) ! 0) + kNumLevels)) db"
    and "length u + 8 < 2 ^ 32" and "case snapshot of None \<Rightarrow> s = vs_last_sequence (db_versions db) | Some q \<Rightarrow> s = q \<and> q \<le> kMaxSequenceNumber"
  shows "\<exists>r db'. db_Get ro snapshot u db = Some (fst (read_entry r), snd (read_entry r), db') \<and>
    newest (db_entries mem imm entries db) u s r \<and> db_ok opt dbname store entries mem imm n db' \<and>
    db_entries mem imm entries db' = db_entries mem imm entries db"
proof -
  let ?files = "v_files (vs_current (db_versions db))"
  note inv = assms(1) [unfolded db_ok_def]
  have user: "vs_user (db_versions db) = BytewiseComparator" using inv by blast
  have s: "s \<le> kMaxSequenceNumber" "(case snapshot of Some q \<Rightarrow> q | None \<Rightarrow> vs_last_sequence (db_versions db)) = s"
    using assms(3) inv by (auto split: option.splits)
  have srv: "layered entries ?files" "\<forall>l < kNumLevels. \<forall>f \<in> set (?files ! l). served_file opt store entries f"
    "serves opt dbname store entries (n + (length (?files ! 0) + kNumLevels)) (db_tables db)"
    using inv unfolding files_served_def by blast+
  have less: "db_ok opt dbname store entries mem imm n db" by (rule db_ok_less [OF assms(1)])
  obtain g r where g: "mem_Get BytewiseComparator (LookupKey u s) (db_mem db) = Some g" "newest (mem_entries mem) u s r"
    "case answer_of g of None \<Rightarrow> r = None | Some a \<Rightarrow> r \<noteq> None \<and> read_entry r = a"
    using mem_Get_newest [OF _ assms(2) s(1)] inv by blast
  show ?thesis
  proof (cases "answer_of g")
    case (Some a)
    then obtain e where e: "r = Some e" "read_entry r = a" using g(3) by auto
    have "newest (db_entries mem imm entries db) u s r" unfolding db_entries_def e(1)
      by (rule newest_above) (use g(2) e(1) inv in blast)+
    moreover have "db_Get ro snapshot u db = Some (fst a, snd a, db)" unfolding db_Get_def user s(2) Let_def g(1) using Some by (cases a) simp
    ultimately show ?thesis using e(2) less by blast
  next
    case None
    then have n: "newest (mem_entries mem) u s None" using g(2,3) by simp
    obtain g2 r2 where g2: "(case db_imm db of None \<Rightarrow> Some GetFalse | Some imm \<Rightarrow> mem_Get BytewiseComparator (LookupKey u s) imm) = Some g2"
      "newest (mem_entries imm) u s r2" "case answer_of g2 of None \<Rightarrow> r2 = None | Some a \<Rightarrow> r2 \<noteq> None \<and> read_entry r2 = a"
    proof (cases "db_imm db")
      case None
      then have "imm = []" using inv by (simp add: holds_writes_def)
      then have "newest (mem_entries imm) u s None" by (simp add: newest_def mem_entries_def visible_in_def)
      then show ?thesis using that [of GetFalse None] None by (simp add: answer_of_def)
    next
      case (Some m)
      then have "holds_writes (Some m) imm" using inv by simp
      from mem_Get_newest [OF this assms(2) s(1)] show ?thesis using that Some by auto
    qed
    show ?thesis
    proof (cases "answer_of g2")
      case (Some a)
      then obtain e where e: "r2 = Some e" "read_entry r2 = a" using g2(3) by auto
      have "newest (mem_entries imm \<union> stored_entries entries ?files) u s r2" unfolding e(1)
        by (rule newest_above) (use g2(2) e(1) inv in blast)+
      then have "newest (db_entries mem imm entries db) u s r2" unfolding db_entries_def by (rule newest_below [OF n])
      moreover have "db_Get ro snapshot u db = Some (fst a, snd a, db)"
        unfolding db_Get_def user s(2) Let_def g(1) using Some None g2(1) by (cases a) simp
      ultimately show ?thesis using e(2) less by blast
    next
      case none2: None
      then have n2: "newest (mem_entries imm) u s None" using g2(2,3) by simp
      from table_files.Version_Get_newest [OF srv, of ro u s] obtain r3 stats tc where
        r3: "Version_Get BytewiseComparator (TableCache_Get ro) (vs_current (db_versions db)) (LookupKey u s) (db_tables db) =
          Some (fst (read_entry r3), snd (read_entry r3), stats, tc)" "serves opt dbname store entries n tc"
          "newest (stored_entries entries ?files) u s r3" by blast
      have "newest (db_entries mem imm entries db) u s r3" unfolding db_entries_def by (intro newest_below [OF n] newest_below [OF n2] r3(3))
      moreover obtain w current where us: "UpdateStats stats (vs_current (db_versions db)) = (w, current)" by fastforce
      let ?db = "db\<lparr>db_tables := tc, db_versions := (db_versions db)\<lparr>vs_current := current\<rparr>\<rparr>"
      have "db_Get ro snapshot u db = Some (fst (read_entry r3), snd (read_entry r3), if w then MaybeScheduleCompaction ?db else ?db)"
        unfolding db_Get_def user s(2) Let_def g(1) using None none2 g2(1) r3(1) us by simp
      ultimately show ?thesis using db_ok_charged [OF assms(1) us r3(2)] by (intro exI [of _ r3]) (cases w; simp)
    qed
  qed
qed

section \<open>A small database\<close>

definition demo_f7 :: file_meta where
  "demo_f7 = \<lparr>fm_refs = 1, fm_allowed_seeks = 100, fm_number = 7,
     fm_file_size = word_of_nat (length (posix_content (tb_file demo_built))), fm_smallest = fst demo_entry, fm_largest = fst demo_entry\<rparr>"

definition demo_files :: "file_meta list list" where
  "demo_files = [[], [demo_f7], [], [], [], [], []]"

definition demo_writes :: "entry list" where
  "demo_writes = [(8, kTypeDeletion, [5], [])]"

definition demo_store :: "u64 \<Rightarrow> bytes option" where
  "demo_store n = (if n = 7 then Some (posix_content (tb_file demo_built)) else None)"

definition demo_contents :: "u64 \<Rightarrow> (bytes \<times> bytes) list" where
  "demo_contents n = (if n = 7 then [demo_entry] else [])"

definition demo_random_env :: random_env where
  "demo_random_env =
     \<lparr>re_posix = \<lparr>pe_files = (\<lambda>f. if f = TableFileName [100] 7 then demo_store 7 else None), pe_answers = [], pe_fd_answers = [], pe_dir_answers = []\<rparr>,
      re_mmap_limiter = 1000, re_fd_limiter = 50, re_refused = (\<lambda>_ _ _. None)\<rparr>"

definition demo_db :: db where
  "demo_db =
     \<lparr>db_write_buffer_size = 4194304, db_tables = new_TableCache [100] demo_options 990 demo_random_env,
      db_mem = the (mem_AddAll BytewiseComparator demo_writes new_MemTable), db_imm = None, db_logfile_number = 9, db_log = None,
      db_snapshots = [], db_next_place = 0, db_pending_outputs = {},
      db_shutting_down = False, db_scheduled = False, db_manual = None,
      db_versions = (new_VersionSet [100] BytewiseComparator 2097152 False)\<lparr>vs_last_sequence := 8,
        vs_current := new_Version\<lparr>v_files := demo_files\<rparr>\<rparr>,
      db_bg_error = OK\<rparr>"

lemma demo_key: "ParseInternalKey (fst demo_entry) = Some \<lparr>pik_user_key = [5], pik_sequence = 7, pik_type = kTypeValue\<rparr>"
  "ExtractUserKey (fst demo_entry) = [5]" "key_tag (fst demo_entry) = 0x701"
  by (simp_all add: demo_entry_def ParseInternalKey_def ExtractUserKey_def key_tag_def DecodeFixed64_def)

lemma demo_level: "l < kNumLevels \<Longrightarrow> demo_files ! l = (if l = 1 then [demo_f7] else [])"
  by (auto simp: demo_files_def kNumLevels_def less_Suc_eq numeral_nat)

lemma demo_num: "fm_number demo_f7 = 7" "fm_largest demo_f7 = fst demo_entry"
  by (simp_all add: demo_f7_def)

lemma demo_layered: "layered demo_contents demo_files"
proof -
  have wf: "bytewise_user.file_wf demo_f7"
    by (simp add: bytewise_user.file_wf_def demo_f7_def demo_key bytewise_user.ikey_Compare_le PackSequenceAndType_def
        kMaxSequenceNumber_def kValueTypeForSeek_def type_code_def)
  have "bytewise_user.holds (keys_of demo_contents) demo_f7"
    by (simp add: bytewise_user.holds_def demo_f7_def demo_contents_def bytewise_user.ikey_Compare_le)
  then have "bytewise_user.levels_ok (keys_of demo_contents) demo_files"
  proof -
    assume h: "bytewise_user.holds (keys_of demo_contents) demo_f7"
    have z: "0 < kNumLevels" "length demo_files = kNumLevels" by (simp_all add: kNumLevels_def demo_files_def)
    show ?thesis
      unfolding bytewise_user.levels_ok_def bytewise_user.version_wf_def bytewise_user.level_sorted_def bytewise_user.key_sorted_def
      using wf h z by (auto simp: demo_level split: if_splits)
  qed
  moreover have "bytewise_user.tight (keys_of demo_contents) demo_files"
    by (auto simp: bytewise_user.tight_def demo_level demo_contents_def demo_num split: if_splits)
  ultimately show ?thesis ..
qed

lemma demo_stored: "stored_entries demo_contents demo_files = {demo_entry}"
proof -
  have "stored_entries demo_contents demo_files = (\<Union>l < kNumLevels. if l = 1 then {demo_entry} else {})"
    unfolding stored_entries_def by (auto simp: demo_level demo_contents_def demo_num split: if_splits)
  then show ?thesis by (auto simp: kNumLevels_def split: if_splits)
qed

lemma demo_db_ok: "db_ok demo_options [100] demo_store demo_contents demo_writes [] 1000 demo_db"
proof -
  have files: "v_files (vs_current (db_versions demo_db)) = demo_files" by (simp add: demo_db_def)
  have wr: "\<forall>e \<in> set demo_writes. valid_write e" "sorted_wrt (<) (map fst demo_writes)"
    by (simp_all add: demo_writes_def valid_write_def kMaxSequenceNumber_def)
  have "distinct (map fst ([] @ demo_writes))" by (simp add: demo_writes_def)
  from bytewise_user.mem_rep_AddAll [OF bytewise_user.mem_rep_new wr(1) this]
  have "holds_writes (Some (db_mem demo_db)) demo_writes" using wr by (auto simp: holds_writes_def demo_db_def)
  moreover have "holds_writes (db_imm demo_db) []" by (simp add: holds_writes_def demo_db_def)
  moreover have "files_served demo_options [100] demo_store demo_contents 1000 demo_db"
  proof -
    have "served_file demo_options demo_store demo_contents demo_f7"
      using demo_database demo_table by (simp add: served_file_def known_file_def demo_store_def demo_contents_def demo_f7_def parseable_def demo_key)
    moreover have "serves demo_options [100] demo_store demo_contents 1000 (db_tables demo_db)"
      unfolding demo_db_def db.simps
      by (rule new_TableCache_serves) (simp_all add: demo_random_env_def reliable_random_def reliable_env_def demo_store_def)
    ultimately show ?thesis using demo_layered unfolding files_served_def files by (auto simp: demo_level split: if_splits)
  qed
  moreover have "all_newer (mem_entries demo_writes) {demo_entry}"
    by (simp add: all_newer_def mem_entries_def demo_writes_def demo_key PackSequenceAndType_def type_code_def)
  ultimately show ?thesis
    unfolding db_ok_def files demo_stored by (simp add: demo_db_def new_VersionSet_def kMaxSequenceNumber_def mem_entries_def all_newer_def)
qed

section \<open>Properties\<close>

text \<open>
  C2: Reading the database. \<^verbatim>\<open>DBImpl::Get\<close> at a snapshot, or at the last sequence number when none is given, gives
  what the newest visible entry of the user key says, over everything in the memtable, in the memtable that is being
  written out, and in the table files of all levels as they are read through the cache of tables, the blocks, the
  filters and the block cache: its value, NotFound when it is a deletion, and NotFound when there is none. The state after the read
  holds the same entries and is ready for the next reads.
\<close>

theorem get_reads_newest_visible:
  assumes "db_ok opt dbname store entries mem imm (n + (length (v_files (vs_current (db_versions db)) ! 0) + kNumLevels)) db"
    and "length u + 8 < 2 ^ 32" and "case snapshot of None \<Rightarrow> s = vs_last_sequence (db_versions db) | Some q \<Rightarrow> s = q \<and> q \<le> kMaxSequenceNumber"
  shows "\<exists>r db'. db_Get ro snapshot u db = Some (fst (read_entry r), snd (read_entry r), db') \<and>
    newest (db_entries mem imm entries db) u s r \<and> db_ok opt dbname store entries mem imm n db' \<and>
    db_entries mem imm entries db' = db_entries mem imm entries db"
  by (rule db_Get_newest [OF assms])

theorem get_reads_newest_visible_witness:
  "\<exists>db'. db_Get \<lparr>ro_verify_checksums = True, ro_fill_cache = True\<rparr> (Some 7) [5] demo_db = Some (OK, Some [10, 11], db')"
proof -
  let ?ro = "\<lparr>ro_verify_checksums = True, ro_fill_cache = True\<rparr>"
  have files: "v_files (vs_current (db_versions demo_db)) = demo_files" by (simp add: demo_db_def)
  have all: "db_entries demo_writes [] demo_contents demo_db = {(InternalKey [5] 8 kTypeDeletion, []), demo_entry}"
    unfolding db_entries_def files demo_stored by (auto simp: mem_entries_def demo_writes_def)
  have tags: "PackSequenceAndType 7 kValueTypeForSeek = 0x701" "PackSequenceAndType 8 kTypeDeletion = 0x800"
    by (simp_all add: PackSequenceAndType_def kValueTypeForSeek_def type_code_def)
  have "db_ok demo_options [100] demo_store demo_contents demo_writes [] (993 + (length (v_files (vs_current (db_versions demo_db)) ! 0) + kNumLevels)) demo_db"
    using demo_db_ok by (simp add: files demo_files_def kNumLevels_def)
  from get_reads_newest_visible [OF this, where u = "[5]" and snapshot = "Some 7" and s = 7 and ro = ?ro] obtain r db' where
    g: "db_Get ?ro (Some 7) [5] demo_db = Some (fst (read_entry r), snd (read_entry r), db')"
      "newest (db_entries demo_writes [] demo_contents demo_db) [5] 7 r"
    by (auto simp: kMaxSequenceNumber_def)
  have "visible_in {(InternalKey [5] 8 kTypeDeletion, []), demo_entry} [5] 7 = {demo_entry}"
    by (auto simp: visible_in_def demo_key tags)
  then have "r = Some demo_entry" using g(2) unfolding all by (auto simp: newest_def split: option.splits)
  then have "read_entry r = (OK, Some [10, 11])" using demo_key(1) by (simp add: read_entry_def demo_entry_def)
  then show ?thesis using g(1) by auto
qed

end
