(* ===== verification/Flush.thy ===== *)
theory Flush
  imports DbRead
begin

text \<open>
  Writing a memtable out as a table (\<^verbatim>\<open>db/builder.cc\<close>; \<^verbatim>\<open>WriteLevel0Table\<close> and \<^verbatim>\<open>CompactMemTable\<close> of \<^verbatim>\<open>db/db_impl.cc\<close>),
  and the removal of files that no version, log or running compaction needs (\<^verbatim>\<open>RemoveObsoleteFiles\<close>).
  \<^verbatim>\<open>None\<close> is a loop that does not end, a read outside of a buffer, or a null pointer. The counters of compaction statistics, which
  are only printed, are left out.
\<close>

section \<open>Files of the database\<close>

abbreviation tc_posix :: "table_cache \<Rightarrow> posix_env" where
  "tc_posix tc \<equiv> re_posix (tc_env tc)"

definition set_posix :: "posix_env \<Rightarrow> table_cache \<Rightarrow> table_cache" where
  "set_posix env tc = tc\<lparr>tc_env := (tc_env tc)\<lparr>re_posix := env\<rparr>\<rparr>"

definition db_set_env :: "posix_env \<Rightarrow> db \<Rightarrow> db" where
  "db_set_env env db = db\<lparr>db_tables := set_posix env (db_tables db)\<rparr>"

text \<open>What \<^verbatim>\<open>opendir\<close> and \<^verbatim>\<open>readdir\<close> give for a directory and the files that exist.\<close>

type_synonym dir_reader = "bytes \<Rightarrow> (bytes \<Rightarrow> bytes option) \<Rightarrow> errno + bytes list"

definition env_GetChildren :: "dir_reader \<Rightarrow> bytes \<Rightarrow> posix_env \<Rightarrow> status \<times> bytes list" where
  "env_GetChildren readdir directory_path env =
     (case readdir directory_path (pe_files env) of
        Inl e \<Rightarrow> (PosixError directory_path e, [])
      | Inr names \<Rightarrow> (OK, names))"

section \<open>Iterating over a memtable\<close>

text \<open>A search of the skip list that does not end has no result.\<close>

definition mem_iter_ops :: "comparator \<Rightarrow> memtable \<Rightarrow> nat option iter_ops" where
  "mem_iter_ops user mem =
     \<lparr>it_Valid = (\<lambda>i. i \<noteq> None), it_SeekToFirst = (\<lambda>i. mem_iter_SeekToFirst mem), it_SeekToLast = (\<lambda>i. the (mem_iter_SeekToLast mem)),
      it_Seek = (\<lambda>i k. the (mem_iter_Seek user mem k)), it_Next = (\<lambda>i. mem_iter_Next mem (the i)),
      it_Prev = (\<lambda>i. the (mem_iter_Prev user mem (the i))), it_key = (\<lambda>i. mem_iter_key mem (the i)),
      it_value = (\<lambda>i. mem_iter_value mem (the i)), it_status = (\<lambda>i. OK)\<rparr>"

section \<open>Building a table\<close>

text \<open>The loop that adds all entries, with the last key.\<close>

partial_function (option) add_entries ::
  "'i iter_ops \<Rightarrow> 'f writable_ops \<Rightarrow> 'i \<Rightarrow> bytes \<Rightarrow> 'f table_builder \<Rightarrow> ('i \<times> bytes \<times> 'f table_builder) option" where
  "add_entries ops wops i key b =
     (if it_Valid ops i then
        let key = it_key ops i in add_entries ops wops (it_Next ops i) key (tb_Add wops key (it_value ops i) b)
      else Some (i, key, b))"

text \<open>The end of a table file: synced and closed unless something failed before; deleting the object closes what is still open.\<close>

definition sync_and_close :: "status \<Rightarrow> posix_writable \<Rightarrow> status \<times> posix_writable" where
  "sync_and_close s f =
     (let (s, f) = (if ok s then posix_Sync f else (s, f));
          closed = ok s;
          (s, f) = (if closed then posix_Close f else (s, f));
          f = (if closed then f else snd (posix_Close f))
      in (s, f))"

text \<open>Opening the new table through the table cache; the iterator is deleted at once.\<close>

definition check_table :: "u64 \<Rightarrow> u64 \<Rightarrow> table_cache \<Rightarrow> (status \<times> table_cache) option" where
  "check_table file_number file_size tc =
     (case TableCache_NewIterator file_number file_size tc of
        None \<Rightarrow> None
      | Some (it, table, hdl, tc) \<Rightarrow>
          let s = (case it of Inl e \<Rightarrow> ei_status e
                   | Inr i \<Rightarrow> it_status (table_iter_ops (the table) \<lparr>ro_verify_checksums = False, ro_fill_cache = True\<rparr> (tc_blocks tc)) i)
          in Some (s, case hdl of None \<Rightarrow> tc | Some hdl \<Rightarrow> UnrefEntry hdl tc))"

definition finish_build :: "status \<Rightarrow> bytes \<Rightarrow> status \<times> file_meta \<times> table_cache \<Rightarrow> status \<times> file_meta \<times> table_cache" where
  "finish_build input_status fname r =
     (case r of (s, meta, tc) \<Rightarrow>
        let s = (if ok input_status then s else input_status)
        in if ok s \<and> fm_file_size meta > 0 then (s, meta, tc)
           else (s, meta, set_posix (snd (env_RemoveFile fname (tc_posix tc))) tc))"

definition BuildTable :: "'i iter_ops \<Rightarrow> 'i \<Rightarrow> file_meta \<Rightarrow> table_cache \<Rightarrow> (status \<times> file_meta \<times> table_cache) option" where
  "BuildTable ops i meta tc =
     (let meta = meta\<lparr>fm_file_size := 0\<rparr>;
          i = it_SeekToFirst ops i;
          fname = TableFileName (tc_dbname tc) (fm_number meta)
      in if it_Valid ops i then
           (case env_NewWritableFile fname (tc_posix tc) of
              (Inl s, env) \<Rightarrow> Some (s, meta, set_posix env tc)
            | (Inr f, env) \<Rightarrow>
                let meta = meta\<lparr>fm_smallest := it_key ops i\<rparr>
                in (case add_entries ops posix_writable_ops i [] (new_TableBuilder (tc_options tc) f) of
                      None \<Rightarrow> None
                    | Some (i, key, b) \<Rightarrow>
                        let meta = (if key \<noteq> [] then meta\<lparr>fm_largest := key\<rparr> else meta);
                            (s, b) = tb_Finish posix_writable_ops b;
                            meta = (if ok s then meta\<lparr>fm_file_size := tb_FileSize b\<rparr> else meta);
                            (s, f) = sync_and_close s (tb_file b);
                            tc = set_posix (store_fd fname (pw_fd f) env) tc
                        in map_option (\<lambda>(s, tc). finish_build (it_status ops i) fname (s, meta, tc))
                             (if ok s then check_table (fm_number meta) (fm_file_size meta) tc else Some (s, tc))))
         else Some (finish_build (it_status ops i) fname (OK, meta, tc)))"

section \<open>Writing a memtable out\<close>

definition RecordBackgroundError :: "status \<Rightarrow> db \<Rightarrow> db" where
  "RecordBackgroundError s db = (if ok (db_bg_error db) then db\<lparr>db_bg_error := s\<rparr> else db)"

text \<open>A new file number, protected from removal while its file is written.\<close>

definition new_output_number :: "db \<Rightarrow> u64 \<times> db" where
  "new_output_number db =
     (let (number, vs) = NewFileNumber (db_versions db)
      in (number, db\<lparr>db_versions := vs, db_pending_outputs := insert number (db_pending_outputs db)\<rparr>))"

definition WriteLevel0Table :: "memtable \<Rightarrow> version_edit \<Rightarrow> version option \<Rightarrow> db \<Rightarrow> (status \<times> version_edit \<times> db) option" where
  "WriteLevel0Table mem edit base db =
     (let (number, db) = new_output_number db;
          user = vs_user (db_versions db)
      in case BuildTable (mem_iter_ops user mem) None (new_FileMetaData\<lparr>fm_number := number\<rparr>) (db_tables db) of
           None \<Rightarrow> None
         | Some (s, meta, tables) \<Rightarrow>
             let db = db\<lparr>db_tables := tables, db_pending_outputs := db_pending_outputs db - {fm_number meta}\<rparr>
             in if ok s \<and> fm_file_size meta > 0 then
                  (case (case base of
                           None \<Rightarrow> Some 0
                         | Some v \<Rightarrow> PickLevelForMemTableOutput user (vs_max_file_size (db_versions db)) (v_files v)
                             (ExtractUserKey (fm_smallest meta)) (ExtractUserKey (fm_largest meta))) of
                     None \<Rightarrow> None
                   | Some level \<Rightarrow>
                       Some (s, ve_AddFile level (fm_number meta) (fm_file_size meta) (fm_smallest meta) (fm_largest meta) edit, db))
                else Some (s, edit, db))"

section \<open>Removing obsolete files\<close>

definition keep_file :: "version_set \<Rightarrow> u64 set \<Rightarrow> u64 \<Rightarrow> file_type \<Rightarrow> bool" where
  "keep_file vs live number type =
     (case type of
        kLogFile \<Rightarrow> number \<ge> vs_log_number vs \<or> number = vs_prev_log_number vs
      | kDescriptorFile \<Rightarrow> number \<ge> vs_manifest_file_number vs
      | kTableFile \<Rightarrow> number \<in> live
      | kTempFile \<Rightarrow> number \<in> live
      | kCurrentFile \<Rightarrow> True
      | kDBLockFile \<Rightarrow> True
      | kInfoLogFile \<Rightarrow> True)"

definition obsolete :: "version_set \<Rightarrow> u64 set \<Rightarrow> bytes \<Rightarrow> bool" where
  "obsolete vs live filename =
     (case ParseFileName filename of None \<Rightarrow> False | Some (number, type) \<Rightarrow> \<not> keep_file vs live number type)"

definition evict_removed :: "bytes \<Rightarrow> table_cache \<Rightarrow> table_cache" where
  "evict_removed filename tc =
     (case ParseFileName filename of Some (number, kTableFile) \<Rightarrow> TableCache_Evict number tc | _ \<Rightarrow> tc)"

definition remove_child :: "bytes \<Rightarrow> bytes \<Rightarrow> posix_env \<Rightarrow> posix_env" where
  "remove_child dbname filename env = snd (env_RemoveFile (dbname @ bytes_of ''/'' @ filename) env)"

definition RemoveObsoleteFiles :: "dir_reader \<Rightarrow> db \<Rightarrow> db" where
  "RemoveObsoleteFiles readdir db =
     (if \<not> ok (db_bg_error db) then db
      else
        let vs = db_versions db;
            live = AddLiveFiles vs (db_pending_outputs db);
            (_, filenames) = env_GetChildren readdir (tc_dbname (db_tables db)) (db_env db);
            files_to_delete = filter (obsolete vs live) filenames;
            tables = fold evict_removed files_to_delete (db_tables db);
            tables = set_posix (fold (remove_child (tc_dbname tables)) files_to_delete (tc_posix tables)) tables
        in db\<lparr>db_tables := tables\<rparr>)"

section \<open>Compacting the memtable\<close>

text \<open>The version set's log, with the environment of the database.\<close>

definition db_LogAndApply :: "version_edit \<Rightarrow> db \<Rightarrow> status \<times> version_edit \<times> db" where
  "db_LogAndApply edit db =
     (let (s, edit, vs, env) = LogAndApply edit (db_versions db) (db_env db)
      in (s, edit, db_set_env env (db\<lparr>db_versions := vs\<rparr>)))"

definition CompactMemTable :: "dir_reader \<Rightarrow> db \<Rightarrow> db option" where
  "CompactMemTable readdir db =
     (case db_imm db of
        None \<Rightarrow> None
      | Some imm \<Rightarrow>
          let base = vs_current (db_versions db);
              db = db\<lparr>db_versions := version_Ref (db_versions db)\<rparr>
          in (case WriteLevel0Table imm new_VersionEdit (Some base) db of
                None \<Rightarrow> None
              | Some (s, edit, db) \<Rightarrow>
                  let db = db\<lparr>db_versions := (db_versions db)\<lparr>vs_current_refs := vs_current_refs (db_versions db) - 1\<rparr>\<rparr>;
                      s = (if ok s \<and> db_shutting_down db then IOError (bytes_of ''Deleting DB during memtable compaction'') else s);
                      (s, db) =
                        (if ok s then
                           let edit = SetLogNumber (db_logfile_number db) (SetPrevLogNumber 0 edit);
                               (s, _, db) = db_LogAndApply edit db
                           in (s, db)
                         else (s, db))
                  in Some (if ok s then RemoveObsoleteFiles readdir (db\<lparr>db_imm := None\<rparr>) else RecordBackgroundError s db)))"

end
