(* ===== verification/Background.thy ===== *)
theory Background
  imports Flush
begin

text \<open>
  The background work of \<^verbatim>\<open>db/db_impl.cc\<close>: choosing what to compact, merging the inputs while dropping the entries no
  read can see, cutting the outputs, installing them. Other threads run while the mutex is released: one call of another
  thread (or several, composed) may come before each turn of the merging loop. The iterator over the inputs is a parameter.
\<close>

section \<open>State\<close>

record output_file =
  ou_number :: u64
  ou_file_size :: u64
  ou_smallest :: bytes
  ou_largest :: bytes

text \<open>The output file is open exactly while there is a builder, which owns it here.\<close>

record compaction_state =
  cs_compaction :: compaction
  cs_smallest_snapshot :: u64
  cs_outputs :: "output_file list"
  cs_builder :: "posix_writable table_builder option"
  cs_total_bytes :: u64

definition new_CompactionState :: "compaction \<Rightarrow> compaction_state" where
  "new_CompactionState c =
     \<lparr>cs_compaction = c, cs_smallest_snapshot = 0, cs_outputs = [], cs_builder = None, cs_total_bytes = 0\<rparr>"

text \<open>The user key at work, unless there is none, and the last sequence number seen for it.\<close>

record drop_state =
  dr_user_key :: "bytes option"
  dr_last_sequence :: u64

definition new_drop_state :: drop_state where
  "new_drop_state = \<lparr>dr_user_key = None, dr_last_sequence = kMaxSequenceNumber\<rparr>"

section \<open>Outputs\<close>

definition current_output :: "compaction_state \<Rightarrow> output_file" where
  "current_output cs = List.last (cs_outputs cs)"

definition set_current_output :: "(output_file \<Rightarrow> output_file) \<Rightarrow> compaction_state \<Rightarrow> compaction_state" where
  "set_current_output f cs = cs\<lparr>cs_outputs := butlast (cs_outputs cs) @ [f (current_output cs)]\<rparr>"

definition OpenCompactionOutputFile :: "compaction_state \<Rightarrow> db \<Rightarrow> status \<times> compaction_state \<times> db" where
  "OpenCompactionOutputFile cs db =
     (let (file_number, db) = new_output_number db;
          cs = cs\<lparr>cs_outputs := cs_outputs cs @ [\<lparr>ou_number = file_number, ou_file_size = 0, ou_smallest = [], ou_largest = []\<rparr>]\<rparr>
      in case env_NewWritableFile (TableFileName (tc_dbname (db_tables db)) file_number) (db_env db) of
           (Inl s, env) \<Rightarrow> (s, cs, db_set_env env db)
         | (Inr f, env) \<Rightarrow> (OK, cs\<lparr>cs_builder := Some (new_TableBuilder (tc_options (db_tables db)) f)\<rparr>, db_set_env env db))"

definition FinishCompactionOutputFile ::
  "status \<Rightarrow> compaction_state \<Rightarrow> db \<Rightarrow> (status \<times> compaction_state \<times> db) option" where
  "FinishCompactionOutputFile input_status cs db =
     (let output_number = ou_number (current_output cs);
          b = the (cs_builder cs);
          current_entries = tb_NumEntries b;
          (s, b) = (if ok input_status then tb_Finish posix_writable_ops b else (input_status, tb_Abandon b));
          current_bytes = tb_FileSize b;
          cs = set_current_output (\<lambda>out. out\<lparr>ou_file_size := current_bytes\<rparr>) cs;
          cs = cs\<lparr>cs_total_bytes := cs_total_bytes cs + current_bytes, cs_builder := None\<rparr>;
          (s, f) = sync_and_close s (tb_file b);
          fname = TableFileName (tc_dbname (db_tables db)) output_number;
          db = db_set_env (store_fd fname (pw_fd f) (db_env db)) db
      in if ok s \<and> current_entries > 0 then
           map_option (\<lambda>(s, tables). (s, cs, db\<lparr>db_tables := tables\<rparr>)) (check_table output_number current_bytes (db_tables db))
         else Some (s, cs, db))"

definition CleanupCompaction :: "compaction_state \<Rightarrow> db \<Rightarrow> db" where
  "CleanupCompaction cs db =
     (let db = (case cs_builder cs of
                  None \<Rightarrow> db
                | Some b \<Rightarrow>
                    let f = snd (posix_Close (tb_file (tb_Abandon b)));
                        fname = TableFileName (tc_dbname (db_tables db)) (ou_number (current_output cs))
                    in db_set_env (store_fd fname (pw_fd f) (db_env db)) db)
      in db\<lparr>db_pending_outputs := db_pending_outputs db - ou_number ` set (cs_outputs cs)\<rparr>)"

definition output_meta :: "output_file \<Rightarrow> file_meta" where
  "output_meta out = new_FileMetaData\<lparr>fm_number := ou_number out, fm_file_size := ou_file_size out,
     fm_smallest := ou_smallest out, fm_largest := ou_largest out\<rparr>"

definition InstallCompactionResults :: "compaction_state \<Rightarrow> db \<Rightarrow> status \<times> compaction_state \<times> db" where
  "InstallCompactionResults cs db =
     (let edit = install_edit (cs_compaction cs) (map output_meta (cs_outputs cs));
          (s, edit, db) = db_LogAndApply edit db
      in (s, cs\<lparr>cs_compaction := (cs_compaction cs)\<lparr>c_edit := edit\<rparr>\<rparr>, db))"

section \<open>Dropping entries\<close>

text \<open>Whether the entry is dropped: hidden by a newer one that every snapshot sees (A), or a deletion with nothing left to hide.\<close>

definition drop_entry :: "comparator \<Rightarrow> u64 \<Rightarrow> bytes \<Rightarrow> drop_state \<Rightarrow> compaction \<Rightarrow> bool \<times> drop_state \<times> compaction" where
  "drop_entry user smallest_snapshot key d c =
     (case ParseInternalKey key of
        None \<Rightarrow> (False, new_drop_state, c)
      | Some ikey \<Rightarrow>
          let first = (case dr_user_key d of None \<Rightarrow> True | Some u \<Rightarrow> cmp_Compare user (pik_user_key ikey) u \<noteq> 0);
              d = (if first then \<lparr>dr_user_key = Some (pik_user_key ikey), dr_last_sequence = kMaxSequenceNumber\<rparr> else d);
              (drop, c) =
                (if dr_last_sequence d \<le> smallest_snapshot then (True, c)
                 else if pik_type ikey = kTypeDeletion \<and> pik_sequence ikey \<le> smallest_snapshot
                 then IsBaseLevelForKey user (pik_user_key ikey) c
                 else (False, c))
          in (drop, d\<lparr>dr_last_sequence := pik_sequence ikey\<rparr>, c))"

section \<open>The merging loop\<close>

text \<open>One entry that is kept: it opens an output when there is none, and a full output is finished.\<close>

definition add_output :: "status \<Rightarrow> bytes \<Rightarrow> bytes \<Rightarrow> compaction_state \<Rightarrow> db \<Rightarrow> (status \<times> compaction_state \<times> db) option" where
  "add_output input_status key val cs db =
     (let (s, cs, db) = (case cs_builder cs of None \<Rightarrow> OpenCompactionOutputFile cs db | Some _ \<Rightarrow> (OK, cs, db))
      in if \<not> ok s then Some (s, cs, db)
         else
           let cs = (if tb_NumEntries (the (cs_builder cs)) = 0
                     then set_current_output (\<lambda>out. out\<lparr>ou_smallest := key\<rparr>) cs else cs);
               cs = set_current_output (\<lambda>out. out\<lparr>ou_largest := key\<rparr>) cs;
               b = tb_Add posix_writable_ops key val (the (cs_builder cs));
               cs = cs\<lparr>cs_builder := Some b\<rparr>
           in if uint (tb_FileSize b) \<ge> c_max_output_file_size (cs_compaction cs)
              then FinishCompactionOutputFile input_status cs db else Some (OK, cs, db))"

definition compact_entry ::
  "status \<Rightarrow> bytes \<Rightarrow> bytes \<Rightarrow> drop_state \<times> compaction_state \<times> db \<Rightarrow> (status \<times> drop_state \<times> compaction_state \<times> db) option" where
  "compact_entry input_status key val st =
     (case st of (d, cs, db) \<Rightarrow>
        let (stop, c) = ShouldStopBefore (db_versions db) key (cs_compaction cs);
            cs = cs\<lparr>cs_compaction := c\<rparr>
        in case (if stop \<and> cs_builder cs \<noteq> None then FinishCompactionOutputFile input_status cs db else Some (OK, cs, db)) of
             None \<Rightarrow> None
           | Some (s, cs, db) \<Rightarrow>
               if \<not> ok s then Some (s, d, cs, db)
               else
                 let (drop, d, c) = drop_entry (vs_user (db_versions db)) (cs_smallest_snapshot cs) key d (cs_compaction cs);
                     cs = cs\<lparr>cs_compaction := c\<rparr>
                 in if drop then Some (OK, d, cs, db)
                    else map_option (\<lambda>(s, cs, db). (s, d, cs, db)) (add_output input_status key val cs db))"

text \<open>A memtable that waits is written out first.\<close>

definition prioritize_imm :: "dir_reader \<Rightarrow> db \<Rightarrow> db option" where
  "prioritize_imm readdir db = (if db_imm db \<noteq> None then CompactMemTable readdir db else Some db)"

partial_function (option) compact_loop ::
  "'i iter_ops \<Rightarrow> dir_reader \<Rightarrow> (db \<Rightarrow> db) list \<Rightarrow> 'i \<Rightarrow> drop_state \<times> compaction_state \<times> db \<Rightarrow>
   (status \<times> 'i \<times> compaction_state \<times> db) option" where
  "compact_loop ops readdir others i st =
     (case st of (d, cs, db) \<Rightarrow>
        let db = (case others of [] \<Rightarrow> db | other # _ \<Rightarrow> other db)
        in if it_Valid ops i \<and> \<not> db_shutting_down db then
             (case prioritize_imm readdir db of
                None \<Rightarrow> None
              | Some db \<Rightarrow>
                  (case compact_entry (it_status ops i) (it_key ops i) (it_value ops i) (d, cs, db) of
                     None \<Rightarrow> None
                   | Some (s, st) \<Rightarrow>
                       if ok s then compact_loop ops readdir (tl others) (it_Next ops i) st
                       else Some (s, i, snd st)))
           else Some (OK, i, cs, db))"

definition DoCompactionWork ::
  "'i iter_ops \<Rightarrow> dir_reader \<Rightarrow> (db \<Rightarrow> db) list \<Rightarrow> 'i \<Rightarrow> compaction_state \<Rightarrow> db \<Rightarrow> (status \<times> compaction_state \<times> db) option" where
  "DoCompactionWork ops readdir others input cs db =
     (let cs = cs\<lparr>cs_smallest_snapshot := (if db_snapshots db = [] then vs_last_sequence (db_versions db)
                                          else SnapshotList_oldest (db_snapshots db))\<rparr>
      in case compact_loop ops readdir others (it_SeekToFirst ops input) (new_drop_state, cs, db) of
           None \<Rightarrow> None
         | Some (s, i, cs, db) \<Rightarrow>
             let s = (if ok s \<and> db_shutting_down db then IOError (bytes_of ''Deleting DB during compaction'') else s)
             in case (if ok s \<and> cs_builder cs \<noteq> None then FinishCompactionOutputFile (it_status ops i) cs db else Some (s, cs, db)) of
                  None \<Rightarrow> None
                | Some (s, cs, db) \<Rightarrow>
                    let s = (if ok s then it_status ops i else s);
                        (s, cs, db) = (if ok s then InstallCompactionResults cs db else (s, cs, db));
                        db = (if ok s then db else RecordBackgroundError s db)
                    in Some (s, cs, db))"

section \<open>Background calls\<close>

text \<open>
  Giving up a version after a compaction. Versions with the same files are not told apart: either can be given up.
\<close>

definition same_files :: "version \<Rightarrow> version \<Rightarrow> bool" where
  "same_files v w \<longleftrightarrow> map (map fm_number) (v_files v) = map (map fm_number) (v_files w)"

definition ReleaseInputs :: "compaction \<Rightarrow> version_set \<Rightarrow> version_set" where
  "ReleaseInputs c vs =
     (case find (\<lambda>i. same_files (fst (vs_versions vs ! i)) (c_input_version c)) [0..<length (vs_versions vs)] of
        Some i \<Rightarrow> version_Unref i vs
      | None \<Rightarrow> vs\<lparr>vs_current_refs := vs_current_refs vs - 1\<rparr>)"

text \<open>
  What a manual compaction is left with: a part that was not compacted starts where the inputs ended.
\<close>

definition manual_left :: "status \<Rightarrow> bytes \<Rightarrow> manual_compaction \<Rightarrow> manual_compaction" where
  "manual_left s manual_end m =
     (let m = (if ok s then m else m\<lparr>mc_done := True\<rparr>)
      in if mc_done m then m else m\<lparr>mc_begin := Some manual_end\<rparr>)"

definition run_compaction ::
  "'i iter_ops \<Rightarrow> dir_reader \<Rightarrow> (db \<Rightarrow> db) list \<Rightarrow> (compaction \<Rightarrow> db \<Rightarrow> 'i) \<Rightarrow> bool \<Rightarrow> compaction \<Rightarrow> db \<Rightarrow> (status \<times> db) option" where
  "run_compaction ops readdir others MakeInputIterator is_manual c db =
     (if \<not> is_manual \<and> IsTrivialMove (db_versions db) c then
        let (s, _, db) = db_LogAndApply (move_edit c) db;
            db = (if ok s then db else RecordBackgroundError s db)
        in Some (s, db\<lparr>db_versions := ReleaseInputs c (db_versions db)\<rparr>)
      else
        case DoCompactionWork ops readdir others (MakeInputIterator c db) (new_CompactionState c) db of
          None \<Rightarrow> None
        | Some (s, cs, db) \<Rightarrow>
            let db = (if ok s then db else RecordBackgroundError s db);
                db = CleanupCompaction cs db;
                db = db\<lparr>db_versions := ReleaseInputs (cs_compaction cs) (db_versions db)\<rparr>
            in Some (s, RemoveObsoleteFiles readdir db))"

text \<open>
  The manual compaction is on the stack of the thread that waits for it, which finds it in the result.
\<close>

definition BackgroundCompaction ::
  "'i iter_ops \<Rightarrow> dir_reader \<Rightarrow> (db \<Rightarrow> db) list \<Rightarrow> (compaction \<Rightarrow> db \<Rightarrow> 'i) \<Rightarrow> db \<Rightarrow> (manual_compaction option \<times> db) option" where
  "BackgroundCompaction ops readdir others MakeInputIterator db =
     (if db_imm db \<noteq> None then map_option (\<lambda>db. (db_manual db, db)) (CompactMemTable readdir db)
      else
        let is_manual = (db_manual db \<noteq> None)
        in case (case db_manual db of
                   Some m \<Rightarrow> CompactRange (db_versions db) (mc_level m) (mc_begin m) (mc_end m)
                 | None \<Rightarrow> PickCompaction (db_versions db)) of
             None \<Rightarrow> None
           | Some (c, vs) \<Rightarrow>
               let db = db\<lparr>db_versions := vs, db_manual := map_option (\<lambda>m. m\<lparr>mc_done := (c = None)\<rparr>) (db_manual db)\<rparr>;
                   manual_end = (case c of None \<Rightarrow> [] | Some c \<Rightarrow> fm_largest (List.last (c_inputs0 c)))
               in (case (case c of None \<Rightarrow> Some (OK, db) | Some c \<Rightarrow> run_compaction ops readdir others MakeInputIterator is_manual c db) of
                     None \<Rightarrow> None
                   | Some (s, db) \<Rightarrow>
                       if is_manual then
                         (case db_manual db of
                            None \<Rightarrow> None
                          | Some m \<Rightarrow> Some (Some (manual_left s manual_end m), db\<lparr>db_manual := None\<rparr>))
                       else Some (db_manual db, db)))"

definition BackgroundCall ::
  "'i iter_ops \<Rightarrow> dir_reader \<Rightarrow> (db \<Rightarrow> db) list \<Rightarrow> (compaction \<Rightarrow> db \<Rightarrow> 'i) \<Rightarrow> db \<Rightarrow> (manual_compaction option \<times> db) option" where
  "BackgroundCall ops readdir others MakeInputIterator db =
     map_option (\<lambda>(manual, db). (manual, MaybeScheduleCompaction (db\<lparr>db_scheduled := False\<rparr>)))
       (if db_shutting_down db then Some (db_manual db, db)
        else if \<not> ok (db_bg_error db) then Some (db_manual db, db)
        else BackgroundCompaction ops readdir others MakeInputIterator db)"

text \<open>
  A manual compaction whose waiting thread gave up meanwhile, after an error of a memtable's flush, has a null pointer left
  at its end.
\<close>

lemma manual_gone:
  assumes "db_imm db = None" and "db_manual db = Some m" and "CompactRange (db_versions db) (mc_level m) (mc_begin m) (mc_end m) = Some (Some c, vs)"
    and "run_compaction ops readdir others MakeInputIterator True c (db\<lparr>db_versions := vs, db_manual := Some (m\<lparr>mc_done := False\<rparr>)\<rparr>) = Some (s, db')"
    and "db_manual db' = None"
  shows "BackgroundCompaction ops readdir others MakeInputIterator db = None"
  using assms by (simp add: BackgroundCompaction_def)

end
