(* ===== verification/Drop.thy ===== *)
theory Drop
  imports Background
begin

text \<open>
  Which entries a compaction drops, and that no read at or above the smallest snapshot can tell: what is dropped is hidden by
  a newer entry that every such read sees, or is a deletion of a user key that has no entries left below.
\<close>

section \<open>Sequence numbers of keys\<close>

definition seq_of :: "bytes \<Rightarrow> u64" where
  "seq_of k = drop_bit 8 (key_tag k)"

lemma Parse_fields:
  "ParseInternalKey k = Some p \<Longrightarrow> pik_user_key p = ExtractUserKey k \<and> pik_sequence p = seq_of k"
  by (auto simp: ParseInternalKey_def Let_def ExtractUserKey_def seq_of_def key_tag_def split: if_splits)

lemma seq_mono: "key_tag a \<le> key_tag b \<Longrightarrow> seq_of a \<le> seq_of b"
  by (simp only: seq_of_def word_le_nat_alt unat_drop_bit_eq drop_bit_nat_def div_le_mono)

lemma seq_max: "seq_of k \<le> kMaxSequenceNumber"
proof -
  have "unat (key_tag k) < 2 ^ 8 * 2 ^ 56" using unsigned_less [of "key_tag k"] by simp
  then have "unat (key_tag k) div 2 ^ 8 < 2 ^ 56" by (simp only: less_mult_imp_div_less mult.commute)
  then have "unat (seq_of k) < 2 ^ 56" by (simp only: seq_of_def unat_drop_bit_eq drop_bit_nat_def)
  moreover have "unat kMaxSequenceNumber = 2 ^ 56 - 1" by (simp add: kMaxSequenceNumber_def)
  ultimately show ?thesis by (simp add: word_le_nat_alt)
qed

lemma parsed_visible:
  assumes "ParseInternalKey k = Some p" and "s \<le> kMaxSequenceNumber"
  shows "key_tag k \<le> PackSequenceAndType s kValueTypeForSeek \<longleftrightarrow> seq_of k \<le> s"
proof -
  have c: "(ucast (key_tag k AND 0xff) :: u8) \<le> 1"
    using assms(1) by (auto simp: ParseInternalKey_def Let_def key_tag_def split: if_splits)
  have "key_tag k AND 0xff = take_bit 8 (key_tag k)" by (simp add: take_bit_eq_mask mask_eq_decr_exp)
  then have "unat (ucast (key_tag k AND 0xff) :: u8) = unat (key_tag k) mod 256"
    by (simp add: unsigned_ucast_eq take_bit_eq_mod unat_mod)
  then have low: "unat (key_tag k) mod 256 \<le> 1" using c by (simp add: word_le_nat_alt)
  have "unat (seq_of k) = unat (key_tag k) div 2 ^ 8" by (simp only: seq_of_def unat_drop_bit_eq drop_bit_nat_def)
  then have q: "unat (seq_of k) = unat (key_tag k) div 256" by simp
  have "unat (key_tag k) = 256 * unat (seq_of k) + unat (key_tag k) mod 256" using q by simp
  moreover have "unat (PackSequenceAndType s kValueTypeForSeek) = unat s * 256 + 1"
    using Pack_unat [OF assms(2), of kValueTypeForSeek] by (simp add: kValueTypeForSeek_def type_code_def)
  ultimately show ?thesis using low by (simp add: word_le_nat_alt) linarith
qed

section \<open>The rule\<close>

definition hidden_in :: "(bytes \<times> bytes) set \<Rightarrow> u64 \<Rightarrow> bytes \<times> bytes \<Rightarrow> bool" where
  "hidden_in E s e \<longleftrightarrow>
     (\<exists>e' \<in> E. ExtractUserKey (fst e') = ExtractUserKey (fst e) \<and> key_tag (fst e) < key_tag (fst e') \<and> seq_of (fst e') \<le> s)"

definition obsolete_deletion :: "(bytes \<Rightarrow> bool) \<Rightarrow> u64 \<Rightarrow> bytes \<times> bytes \<Rightarrow> bool" where
  "obsolete_deletion base s e \<longleftrightarrow>
     (\<exists>p. ParseInternalKey (fst e) = Some p \<and> pik_type p = kTypeDeletion \<and> seq_of (fst e) \<le> s \<and> base (ExtractUserKey (fst e)))"

definition dropped :: "(bytes \<Rightarrow> bool) \<Rightarrow> u64 \<Rightarrow> (bytes \<times> bytes) set \<Rightarrow> bytes \<times> bytes \<Rightarrow> bool" where
  "dropped base s E e \<longleftrightarrow> hidden_in E s e \<or> obsolete_deletion base s e"

definition kept :: "(bytes \<Rightarrow> bool) \<Rightarrow> u64 \<Rightarrow> (bytes \<times> bytes) set \<Rightarrow> (bytes \<times> bytes) list \<Rightarrow> (bytes \<times> bytes) list" where
  "kept base s E es = filter (\<lambda>e. \<not> dropped base s E e) es"

text \<open>No deeper level has the user key.\<close>

definition base_key :: "compaction \<Rightarrow> bytes \<Rightarrow> bool" where
  "base_key c u \<longleftrightarrow>
     (\<forall>lvl. c_level c + 2 \<le> lvl \<longrightarrow> lvl < kNumLevels \<longrightarrow> \<not> bytewise_user.holds_key (v_files (c_input_version c) ! lvl) u)"

abbreviation entries_sorted :: "(bytes \<times> bytes) list \<Rightarrow> bool" where
  "entries_sorted es \<equiv> sorted_wrt (\<lambda>a b. cmp_Compare bytewise_internal (fst a) (fst b) < 0) es"

text \<open>The state of the rule behind some entries.\<close>

definition drop_after :: "(bytes \<times> bytes) list \<Rightarrow> drop_state" where
  "drop_after pre =
     (if pre = [] then new_drop_state
      else \<lparr>dr_user_key = Some (ExtractUserKey (fst (List.last pre))), dr_last_sequence = seq_of (fst (List.last pre))\<rparr>)"

definition first_of_key :: "(bytes \<times> bytes) list \<Rightarrow> bytes \<times> bytes \<Rightarrow> bool" where
  "first_of_key pre e \<longleftrightarrow> pre = [] \<or> ExtractUserKey (fst (List.last pre)) \<noteq> ExtractUserKey (fst e)"

lemma hidden_by_last:
  assumes "entries_sorted (pre @ e # rest)"
  shows "hidden_in (set (pre @ e # rest)) s e \<longleftrightarrow> \<not> first_of_key pre e \<and> seq_of (fst (List.last pre)) \<le> s"
proof
  assume "hidden_in (set (pre @ e # rest)) s e"
  then obtain e' where e': "e' \<in> set (pre @ e # rest)" "ExtractUserKey (fst e') = ExtractUserKey (fst e)"
    "key_tag (fst e) < key_tag (fst e')" "seq_of (fst e') \<le> s" by (auto simp: hidden_in_def)
  have "e' \<noteq> e" using e'(3) by blast
  moreover have "e' \<notin> set rest"
  proof
    assume "e' \<in> set rest"
    then have "cmp_Compare bytewise_internal (fst e) (fst e') < 0" using assms by (simp add: sorted_wrt_append)
    then show False using e'(2,3) by (simp add: internal_less)
  qed
  ultimately have pre: "e' \<in> set pre" using e'(1) by auto
  then obtain ys l where ys: "pre = ys @ [l]" by (metis append_butlast_last_id list.distinct(1) list.set_cases)
  have "cmp_Compare bytewise_internal (fst e') (fst l) < 0 \<or> e' = l"
    using pre assms by (auto simp: ys sorted_wrt_append)
  moreover have "cmp_Compare bytewise_internal (fst l) (fst e) < 0" using assms by (simp add: ys sorted_wrt_append)
  moreover have "\<not> (slice_compare (ExtractUserKey (fst e')) (ExtractUserKey (fst l)) < 0 \<and>
      slice_compare (ExtractUserKey (fst l)) (ExtractUserKey (fst e')) \<le> 0)"
    using slice_less_trans [of "ExtractUserKey (fst e')" "ExtractUserKey (fst l)" "ExtractUserKey (fst e')"]
    by auto
  ultimately have "ExtractUserKey (fst l) = ExtractUserKey (fst e) \<and> key_tag (fst l) \<le> key_tag (fst e')"
    using e'(2) unfolding internal_less by (metis (no_types) less_imp_le order.refl slice_compare_self)
  then have l: "ExtractUserKey (fst l) = ExtractUserKey (fst e)" "seq_of (fst l) \<le> seq_of (fst e')"
    using seq_mono by blast+
  have "seq_of (fst l) \<le> s" by (rule order.trans [OF l(2) e'(4)])
  then show "\<not> first_of_key pre e \<and> seq_of (fst (List.last pre)) \<le> s"
    using l(1) by (simp add: ys first_of_key_def)
next
  assume a: "\<not> first_of_key pre e \<and> seq_of (fst (List.last pre)) \<le> s"
  then have l: "pre \<noteq> []" "ExtractUserKey (fst (List.last pre)) = ExtractUserKey (fst e)" by (auto simp: first_of_key_def)
  then have "List.last pre \<in> set pre" by simp
  then have "cmp_Compare bytewise_internal (fst (List.last pre)) (fst e) < 0" using assms by (simp add: sorted_wrt_append)
  then have "key_tag (fst e) < key_tag (fst (List.last pre))" using l(2) by (simp add: internal_less)
  then show "hidden_in (set (pre @ e # rest)) s e"
    using l a \<open>List.last pre \<in> set pre\<close> unfolding hidden_in_def by (intro bexI [of _ "List.last pre"]) auto
qed

lemma drop_step:
  assumes srt: "entries_sorted (pre @ e # rest)" and p: "ParseInternalKey (fst e) = Some p" and "s < kMaxSequenceNumber"
    and "bytewise_user.version_wf (v_files (c_input_version c))"
    and "bytewise_user.ptrs_ok (v_files (c_input_version c)) (c_level c + 2) (c_level_ptrs c) (ExtractUserKey (fst e))"
  obtains ptrs where "drop_entry BytewiseComparator s (fst e) (drop_after pre) c =
      (dropped (base_key c) s (set (pre @ e # rest)) e, drop_after (pre @ [e]), c\<lparr>c_level_ptrs := ptrs\<rparr>)"
    and "bytewise_user.ptrs_ok (v_files (c_input_version c)) (c_level c + 2) ptrs (ExtractUserKey (fst e))"
proof -
  let ?u = "ExtractUserKey (fst e)"
  have f: "pik_user_key p = ?u" "pik_sequence p = seq_of (fst e)" using Parse_fields [OF p] by simp_all
  let ?d = "if first_of_key pre e then \<lparr>dr_user_key = Some ?u, dr_last_sequence = kMaxSequenceNumber\<rparr> else drop_after pre"
  have first: "(case dr_user_key (drop_after pre) of None \<Rightarrow> True | Some u \<Rightarrow> cmp_Compare BytewiseComparator ?u u \<noteq> 0) = first_of_key pre e"
    by (auto simp: drop_after_def first_of_key_def new_drop_state_def bytewise_eq)
  have A: "dr_last_sequence ?d \<le> s \<longleftrightarrow> hidden_in (set (pre @ e # rest)) s e"
    unfolding hidden_by_last [OF srt] using assms(3) by (auto simp: drop_after_def first_of_key_def)
  have d: "?d\<lparr>dr_last_sequence := seq_of (fst e)\<rparr> = drop_after (pre @ [e])"
    by (auto simp: drop_after_def first_of_key_def)
  have B: "obsolete_deletion (base_key c) s e \<longleftrightarrow> pik_type p = kTypeDeletion \<and> seq_of (fst e) \<le> s \<and> base_key c ?u"
    by (simp add: obsolete_deletion_def p)
  have eq: "drop_entry BytewiseComparator s (fst e) (drop_after pre) c =
     (let (drop, c) = (if hidden_in (set (pre @ e # rest)) s e then (True, c)
                       else if pik_type p = kTypeDeletion \<and> seq_of (fst e) \<le> s then IsBaseLevelForKey BytewiseComparator ?u c
                       else (False, c)) in (drop, drop_after (pre @ [e]), c))"
    unfolding drop_entry_def p option.case Let_def f first A d ..
  show thesis
  proof (cases "\<not> hidden_in (set (pre @ e # rest)) s e \<and> pik_type p = kTypeDeletion \<and> seq_of (fst e) \<le> s")
    case True
    from bytewise_user.IsBaseLevelForKey_ok [OF assms(4,5)] obtain ptrs where
      "IsBaseLevelForKey BytewiseComparator ?u c = (base_key c ?u, c\<lparr>c_level_ptrs := ptrs\<rparr>)"
      "bytewise_user.ptrs_ok (v_files (c_input_version c)) (c_level c + 2) ptrs ?u" unfolding base_key_def by blast
    then show thesis using that [of ptrs] True B by (simp add: eq dropped_def)
  next
    case False
    then have "drop_entry BytewiseComparator s (fst e) (drop_after pre) c =
        (hidden_in (set (pre @ e # rest)) s e, drop_after (pre @ [e]), c\<lparr>c_level_ptrs := c_level_ptrs c\<rparr>)" by (auto simp: eq)
    moreover have "dropped (base_key c) s (set (pre @ e # rest)) e = hidden_in (set (pre @ e # rest)) s e"
      using False B by (auto simp: dropped_def)
    ultimately show thesis using that [of "c_level_ptrs c"] assms(5) by simp
  qed
qed

section \<open>Reads do not see it\<close>

text \<open>The entries \<open>E\<close> of the inputs beside the other entries \<open>R\<close>: user keys with an obsolete deletion have only newer ones there.\<close>

lemma kept_reads:
  assumes "\<forall>e \<in> E \<union> R. ParseInternalKey (fst e) \<noteq> None" and "s \<le> q" and "q \<le> kMaxSequenceNumber"
    and beside: "\<And>e e'. e \<in> E \<Longrightarrow> e' \<in> R \<Longrightarrow> base u \<Longrightarrow> ExtractUserKey (fst e) = u \<Longrightarrow> ExtractUserKey (fst e') = u \<Longrightarrow>
      key_tag (fst e) < key_tag (fst e')"
    and "newest (E \<union> R) u q r"
  shows "\<exists>r'. newest ({e \<in> E. \<not> dropped base s E e} \<union> R) u q r' \<and> read_entry r' = read_entry r"
proof (cases r)
  case None
  then show ?thesis using assms(5) by (intro exI [of _ None]) (auto simp: newest_def visible_in_def)
next
  case (Some e)
  let ?K = "{e \<in> E. \<not> dropped base s E e} \<union> R"
  have e: "e \<in> E \<union> R" "ExtractUserKey (fst e) = u" "key_tag (fst e) \<le> PackSequenceAndType q kValueTypeForSeek"
    and top: "\<And>e'. e' \<in> visible_in (E \<union> R) u q \<Longrightarrow> key_tag (fst e') \<le> key_tag (fst e)"
    using assms(5) by (auto simp: Some newest_def visible_in_def)
  have vis: "e' \<in> visible_in (E \<union> R) u q" if "e' \<in> E \<union> R" "ExtractUserKey (fst e') = u" "seq_of (fst e') \<le> q" for e'
    using that assms(1) parsed_visible [OF _ assms(3), of "fst e'"] by (auto simp: visible_in_def)
  have sub: "visible_in ?K u q \<subseteq> visible_in (E \<union> R) u q" by (auto simp: visible_in_def)
  show ?thesis
  proof (cases "e \<in> ?K")
    case True
    then have "e \<in> visible_in ?K u q" using e by (simp add: visible_in_def)
    then have "newest ?K u q (Some e)" using top sub unfolding newest_def option.case by blast
    then show ?thesis using Some by blast
  next
    case False
    then have E: "e \<in> E" "e \<notin> R" "dropped base s E e" using e(1) by auto
    have "\<not> hidden_in E s e"
    proof
      assume "hidden_in E s e"
      then obtain e' where e': "e' \<in> E" "ExtractUserKey (fst e') = u" "key_tag (fst e) < key_tag (fst e')" "seq_of (fst e') \<le> s"
        using e(2) by (auto simp: hidden_in_def)
      then have "e' \<in> visible_in (E \<union> R) u q" using vis assms(2) by auto
      then show False using top [of e'] e'(3) by simp
    qed
    then obtain p where p: "ParseInternalKey (fst e) = Some p" "pik_type p = kTypeDeletion" "seq_of (fst e) \<le> s" "base u"
      using E(3) e(2) by (auto simp: dropped_def obsolete_deletion_def)
    have "visible_in ?K u q = {}"
    proof (rule ccontr)
      assume "visible_in ?K u q \<noteq> {}"
      then obtain e' where e': "e' \<in> visible_in ?K u q" by blast
      then have le: "key_tag (fst e') \<le> key_tag (fst e)" using top sub by blast
      have u: "ExtractUserKey (fst e') = u" "e' \<in> ?K" using e' by (auto simp: visible_in_def)
      have "e' \<notin> R" using beside [OF E(1), of e'] p(4) e(2) u(1) le by auto
      then have k: "e' \<in> E" "\<not> dropped base s E e'" using u(2) by auto
      then have "\<not> key_tag (fst e') < key_tag (fst e)" using E(1) e(2) u(1) p(3) by (auto simp: dropped_def hidden_in_def)
      then have eq: "key_tag (fst e') = key_tag (fst e)" using le by simp
      obtain p' where p': "ParseInternalKey (fst e') = Some p'" using assms(1) k(1) by auto
      have "pik_type p' = pik_type p" using p(1) p' eq by (auto simp: ParseInternalKey_def Let_def key_tag_def split: if_splits)
      then have "obsolete_deletion base s e'" using p' p(2-4) u(1) eq by (simp add: obsolete_deletion_def seq_of_def)
      then show False using k(2) by (simp add: dropped_def)
    qed
    then have "newest ?K u q None" by (simp add: newest_def)
    moreover have "read_entry r = read_entry None" using p(1,2) by (cases e) (simp add: Some read_entry_def)
    ultimately show ?thesis by (intro exI [of _ None] conjI) (simp_all only:)
  qed
qed

end
