(* ===== verification/CompactionWork.thy ===== *)
theory CompactionWork
  imports Drop
begin

text \<open>
  The work of a compaction, from the iterator over its inputs to the installed version: the outputs hold exactly the kept
  entries, in order, as tables in their files, and reads at or above the smallest snapshot give what they gave before.
\<close>

section \<open>Files\<close>

lemma TableFileName_inj: "TableFileName dbname n = TableFileName dbname m \<longleftrightarrow> n = m"
proof
  assume "TableFileName dbname n = TableFileName dbname m"
  then have "pad6 n @ bytes_of ''.'' @ bytes_of ''ldb'' = pad6 m @ bytes_of ''.'' @ bytes_of ''ldb''"
    by (simp add: TableFileName_def MakeFileName_def)
  then show "n = m" using ParseFileName_number [of n "bytes_of ''ldb''"] ParseFileName_number [of m "bytes_of ''ldb''"]
    by (simp add: bytes_of_def)
qed simp

lemma NewRandomAccessFile_files: "env_NewRandomAccessFile f env = (r, env') \<Longrightarrow> pe_files (re_posix env') = pe_files (re_posix env)"
  using NewRandomAccessFile_takes [of f env r env'] by (cases r) (simp_all add: takes_def)

abbreviation same_tables :: "table_cache \<Rightarrow> table_cache \<Rightarrow> bool" where
  "same_tables tc tc' \<equiv> tc_dbname tc' = tc_dbname tc \<and> tc_options tc' = tc_options tc"

lemma FindTable_frame:
  assumes "FindTable n sz tc = Some (s, h, tc')"
  shows "same_tables tc tc' \<and> pe_files (tc_posix tc') = pe_files (tc_posix tc)"
proof -
  obtain hdl cache where lk: "sc_Lookup (EncodeFixed64 n) (tc_cache tc) = (hdl, cache)" by fastforce
  obtain r env where o1: "env_NewRandomAccessFile (TableFileName (tc_dbname tc) n) (tc_env tc) = (r, env)" by fastforce
  obtain r2 env2 where o2: "env_NewRandomAccessFile (SSTTableFileName (tc_dbname tc) n) env = (r2, env2)" by fastforce
  note files = NewRandomAccessFile_files [OF o1] NewRandomAccessFile_files [OF o2]
  show ?thesis
    using assms files
    by (auto simp: FindTable_def lk o1 o2 Let_def delete_file_limits split: if_splits sum.splits option.splits prod.splits)
qed

lemma check_table_frame:
  assumes "check_table n sz tc = Some (s, tc')"
  shows "same_tables tc tc' \<and> pe_files (tc_posix tc') = pe_files (tc_posix tc)"
proof -
  obtain s1 h tc1 where f: "FindTable n sz tc = Some (s1, h, tc1)"
    using assms by (auto simp: check_table_def TableCache_NewIterator_def split: option.splits)
  then show ?thesis using assms FindTable_frame [OF f]
    by (auto simp: check_table_def TableCache_NewIterator_def UnrefEntry_def Let_def split: option.splits if_splits)
qed

lemma set_posix_simps [simp]:
  "tc_dbname (set_posix env tc) = tc_dbname tc" "tc_options (set_posix env tc) = tc_options tc" "tc_posix (set_posix env tc) = env"
  by (simp_all add: set_posix_def)

lemma sync_and_close_OK:
  assumes "sync_and_close s f = (OK, f')"
  shows "s = OK" and "fd_data (pw_fd f') = posix_content f"
proof -
  obtain s1 f1 where y: "(if ok s then posix_Sync f else (s, f)) = (s1, f1)" by fastforce
  obtain s2 f2 where c: "(if ok s1 then posix_Close f1 else (s1, f1)) = (s2, f2)" by fastforce
  have fin: "s2 = OK" "f' = (if ok s1 then f2 else snd (posix_Close f2))" using assms by (simp_all add: sync_and_close_def y c)
  then have s1: "s1 = OK" using c by (auto simp: ok_def split: if_splits)
  then show s: "s = OK" using y by (auto simp: ok_def split: if_splits)
  have "posix_content f1 = posix_content f" using y s s1 posix_Sync_OK [of f f1] by simp
  moreover have "posix_Close f1 = (OK, f2)" using c fin(1) s1 by simp
  ultimately show "fd_data (pw_fd f') = posix_content f" using posix_Close_OK [of f1 f2] fin(2) s1 by simp
qed

section \<open>A finished output\<close>

abbreviation internal_keys :: "(bytes \<times> bytes) list \<Rightarrow> bool" where
  "internal_keys es \<equiv> (\<forall>e \<in> set es. internal_key (fst e))"

abbreviation built_from :: "table_options \<Rightarrow> posix_writable \<Rightarrow> (bytes \<times> bytes) list \<Rightarrow> posix_writable table_builder" where
  "built_from opt f es \<equiv> tb_AddAll posix_writable_ops es (new_TableBuilder opt f)"

definition table_data :: "table_options \<Rightarrow> bytes \<Rightarrow> (bytes \<times> bytes) list \<Rightarrow> bool" where
  "table_data opt data es \<longleftrightarrow>
     (\<exists>W ds. data = table_building.table_image opt ds W \<and> table_building.written_blocks opt internal_key W es ds)"

lemma built_table:
  assumes opt: "database_options opt" and "entries_sorted es" and "internal_keys es" and "posix_content f = []"
    and "tb_Finish posix_writable_ops (built_from opt f es) = (OK, b)"
  shows "table_data opt (posix_content (tb_file b)) es" and "tb_FileSize b = word_of_nat (length (posix_content (tb_file b)))"
proof -
  note tb = database_building [OF opt]
  have cmp: "to_comparator opt = bytewise_internal" using opt by (simp add: database_options_def)
  note new = table_building.building_new [OF tb assms(4) _ assms(3), unfolded cmp, OF assms(2)]
  have ok: "tb_ok (built_from opt f es)"
    using tb_Finish_error [of "built_from opt f es" posix_writable_ops] assms(5) by (auto simp: tb_ok_def ok_def)
  obtain W ds pend cur where "table_building.building opt internal_key posix_content (built_from opt f es) W es ds pend cur []"
    using table_building.building_AddAll [OF tb new ok] by blast
  from table_building.tb_Finish_image [OF tb this assms(5)] show
    "table_data opt (posix_content (tb_file b)) es" "tb_FileSize b = word_of_nat (length (posix_content (tb_file b)))"
    unfolding table_data_def by metis+
qed

text \<open>What finishing an output does when it succeeds.\<close>

definition stored_table :: "table_options \<Rightarrow> bytes \<Rightarrow> posix_env \<Rightarrow> output_file \<Rightarrow> (bytes \<times> bytes) list \<Rightarrow> bool" where
  "stored_table opt dbname env out es \<longleftrightarrow>
     (\<exists>data. pe_files env (TableFileName dbname (ou_number out)) = Some data \<and> table_data opt data es \<and>
        ou_file_size out = word_of_nat (length data))"

lemma FinishCompactionOutputFile_OK:
  assumes opt: "database_options opt" and "entries_sorted es" and "internal_keys es" and "posix_content f = []"
    and b: "cs_builder cs = Some (built_from opt f es)"
    and fin: "FinishCompactionOutputFile is cs db = Some (OK, cs', db')"
  obtains out total tc where "out = (current_output cs)\<lparr>ou_file_size := ou_file_size out\<rparr>"
    and "cs' = (set_current_output (\<lambda>_. out) cs)\<lparr>cs_total_bytes := total, cs_builder := None\<rparr>"
    and "db' = db\<lparr>db_tables := tc\<rparr>" and "same_tables (db_tables db) tc"
    and "stored_table opt (tc_dbname (db_tables db)) (tc_posix tc) out es"
    and "\<And>name. name \<noteq> TableFileName (tc_dbname (db_tables db)) (ou_number (current_output cs)) \<Longrightarrow>
      pe_files (tc_posix tc) name = pe_files (db_env db) name"
proof -
  let ?b = "built_from opt f es"
  let ?num = "ou_number (current_output cs)"
  let ?name = "TableFileName (tc_dbname (db_tables db)) ?num"
  obtain s1 b1 where f1: "(if ok is then tb_Finish posix_writable_ops ?b else (is, tb_Abandon ?b)) = (s1, b1)" by fastforce
  obtain s2 f2 where f2: "sync_and_close s1 (tb_file b1) = (s2, f2)" by fastforce
  let ?out = "(current_output cs)\<lparr>ou_file_size := tb_FileSize b1\<rparr>"
  let ?cs = "(set_current_output (\<lambda>_. ?out) cs)\<lparr>cs_total_bytes := cs_total_bytes cs + tb_FileSize b1, cs_builder := None\<rparr>"
  let ?env = "store_fd ?name (pw_fd f2) (db_env db)"
  let ?tc = "set_posix ?env (db_tables db)"
  have cs: "(set_current_output (\<lambda>out. out\<lparr>ou_file_size := tb_FileSize b1\<rparr>) cs)\<lparr>cs_total_bytes :=
      cs_total_bytes (set_current_output (\<lambda>out. out\<lparr>ou_file_size := tb_FileSize b1\<rparr>) cs) + tb_FileSize b1, cs_builder := None\<rparr> = ?cs"
    by (simp add: set_current_output_def)
  have eq: "FinishCompactionOutputFile is cs db =
     (if ok s2 \<and> tb_NumEntries ?b > 0 then
        map_option (\<lambda>(s, tables). (s, ?cs, db\<lparr>db_tables := tables\<rparr>)) (check_table ?num (tb_FileSize b1) ?tc)
      else Some (s2, ?cs, db\<lparr>db_tables := ?tc\<rparr>))"
    unfolding FinishCompactionOutputFile_def b option.sel f1 Let_def prod.case f2 cs by (simp add: db_set_env_def)
  obtain tc where tc: "cs' = ?cs" "db' = db\<lparr>db_tables := tc\<rparr>" "same_tables ?tc tc" "pe_files (tc_posix tc) = pe_files ?env" and "s2 = OK"
  proof (cases "ok s2 \<and> tb_NumEntries ?b > 0")
    case True
    then obtain s tables where c: "check_table ?num (tb_FileSize b1) ?tc = Some (s, tables)" "cs' = ?cs" "db' = db\<lparr>db_tables := tables\<rparr>"
      using fin by (auto simp: eq)
    show ?thesis using that [of tables] check_table_frame [OF c(1)] c(2,3) True by (simp add: ok_def)
  next
    case False
    then show ?thesis using that [of ?tc] fin by (auto simp: eq split: if_splits)
  qed
  note sc = sync_and_close_OK [OF f2 [unfolded \<open>s2 = OK\<close>]]
  have "ok is" using f1 sc(1) by (auto simp: ok_def split: if_splits)
  then have "tb_Finish posix_writable_ops ?b = (OK, b1)" using f1 sc(1) by simp
  note t = built_table [OF opt assms(2-4) this]
  have "stored_table opt (tc_dbname (db_tables db)) (tc_posix tc) ?out es"
    using t sc(2) tc(4) by (auto simp: stored_table_def store_fd_def)
  then show thesis using that [of ?out "cs_total_bytes cs + tb_FileSize b1" tc] tc by (simp add: store_fd_def)
qed

lemma OpenCompactionOutputFile_OK:
  assumes "OpenCompactionOutputFile cs db = (OK, cs', db')"
  obtains f tc where "posix_content f = []"
    and "cs' = cs\<lparr>cs_outputs := cs_outputs cs @ [\<lparr>ou_number = vs_next_file_number (db_versions db), ou_file_size = 0, ou_smallest = [], ou_largest = []\<rparr>],
      cs_builder := Some (new_TableBuilder (tc_options (db_tables db)) f)\<rparr>"
    and "db' = (snd (new_output_number db))\<lparr>db_tables := tc\<rparr>" and "same_tables (db_tables db) tc"
    and "\<And>name. name \<noteq> TableFileName (tc_dbname (db_tables db)) (vs_next_file_number (db_versions db)) \<Longrightarrow>
      pe_files (tc_posix tc) name = pe_files (db_env db) name"
proof -
  obtain n db1 where n: "new_output_number db = (n, db1)" by fastforce
  then have t: "n = vs_next_file_number (db_versions db)" "db_tables db1 = db_tables db"
    by (auto simp: new_output_number_def NewFileNumber_def)
  obtain r env where o: "env_NewWritableFile (TableFileName (tc_dbname (db_tables db)) n) (db_env db) = (r, env)"
    by fastforce
  have "r \<noteq> Inl OK" using env_NewWritableFile_files(1) o by blast
  then obtain f where f: "r = Inr f" using assms o unfolding OpenCompactionOutputFile_def Let_def n prod.case t(2)
    by (cases r) auto
  note files = env_NewWritableFile_files(2) [OF o [unfolded f]]
  have "OpenCompactionOutputFile cs db = (OK, cs\<lparr>cs_outputs := cs_outputs cs @
      [\<lparr>ou_number = n, ou_file_size = 0, ou_smallest = [], ou_largest = []\<rparr>],
      cs_builder := Some (new_TableBuilder (tc_options (db_tables db)) f)\<rparr>, db1\<lparr>db_tables := set_posix env (db_tables db)\<rparr>)"
    unfolding OpenCompactionOutputFile_def Let_def n prod.case t(2) o f by (simp add: db_set_env_def t(2))
  then show thesis using that [of f "set_posix env (db_tables db)"] assms files t(1) n by simp
qed

section \<open>The state of the work\<close>

text \<open>The same files, up to their references and the seeks they still allow.\<close>

definition same_metas :: "version \<Rightarrow> version \<Rightarrow> bool" where
  "same_metas v v' \<longleftrightarrow> map (map meta_new) (v_files v) = map (map meta_new) (v_files v')"

lemma same_metas_refl [simp]: "same_metas v v"
  by (simp add: same_metas_def)

lemma same_metas_trans: "same_metas u v \<Longrightarrow> same_metas v w \<Longrightarrow> same_metas u w"
  by (simp add: same_metas_def)

text \<open>
  Calls of other threads that hand in no memtable and install no version: they may change the last sequence number, the seeks charged to the files
  of the current version, the memtable that takes writes, snapshots, the contents of the caches, and files other than tables.
\<close>

definition quiet :: "(db \<Rightarrow> db) \<Rightarrow> bool" where
  "quiet other \<longleftrightarrow>
     (\<forall>db. db_imm (other db) = db_imm db \<and> db_shutting_down (other db) = db_shutting_down db \<and>
        (\<exists>q v. same_metas v (vs_current (db_versions db)) \<and> db_versions (other db) = (db_versions db)\<lparr>vs_last_sequence := q, vs_current := v\<rparr>) \<and>
        same_tables (db_tables db) (db_tables (other db)) \<and>
        (\<forall>m. pe_files (db_env (other db)) (TableFileName (tc_dbname (db_tables db)) m) = pe_files (db_env db) (TableFileName (tc_dbname (db_tables db)) m)))"

text \<open>The number of the \<open>i\<close>-th output, and the database after \<open>n\<close> outputs were opened.\<close>

definition out_num :: "db \<Rightarrow> nat \<Rightarrow> u64" where
  "out_num db i = vs_next_file_number (db_versions db) + word_of_nat i"

definition worked :: "nat \<Rightarrow> db \<Rightarrow> db \<Rightarrow> bool" where
  "worked n db0 db \<longleftrightarrow>
     db_imm db = db_imm db0 \<and> db_shutting_down db = db_shutting_down db0 \<and>
     (\<exists>q v. same_metas v (vs_current (db_versions db0)) \<and>
        db_versions db = (db_versions db0)\<lparr>vs_next_file_number := out_num db0 n, vs_last_sequence := q, vs_current := v\<rparr>) \<and>
     same_tables (db_tables db0) (db_tables db) \<and>
     (\<forall>m. (\<forall>i < n. m \<noteq> out_num db0 i) \<longrightarrow>
        pe_files (db_env db) (TableFileName (tc_dbname (db_tables db0)) m) = pe_files (db_env db0) (TableFileName (tc_dbname (db_tables db0)) m))"

text \<open>The parts of a compaction that the work leaves as they are.\<close>

definition same_work :: "compaction \<Rightarrow> compaction \<Rightarrow> bool" where
  "same_work c c' \<longleftrightarrow>
     c_level c' = c_level c \<and> c_max_output_file_size c' = c_max_output_file_size c \<and> c_input_version c' = c_input_version c \<and>
     c_edit c' = c_edit c \<and> c_inputs0 c' = c_inputs0 c \<and> c_inputs1 c' = c_inputs1 c"

definition finished :: "table_options \<Rightarrow> bytes \<Rightarrow> posix_env \<Rightarrow> output_file \<Rightarrow> (bytes \<times> bytes) list \<Rightarrow> bool" where
  "finished opt dbname env out es \<longleftrightarrow>
     es \<noteq> [] \<and> ou_smallest out = fst (hd es) \<and> ou_largest out = fst (List.last es) \<and> stored_table opt dbname env out es"

text \<open>Finished outputs with the entries \<open>segs\<close>, and \<open>cur\<close> in the builder.\<close>

definition writing :: "db \<Rightarrow> compaction \<Rightarrow> (bytes \<times> bytes) list list \<Rightarrow> (bytes \<times> bytes) list \<Rightarrow> compaction_state \<Rightarrow> db \<Rightarrow> bool" where
  "writing db0 c segs cur cs db \<longleftrightarrow>
     worked (length (cs_outputs cs)) db0 db \<and> same_work c (cs_compaction cs) \<and>
     map ou_number (cs_outputs cs) = map (out_num db0) [0..<length (cs_outputs cs)] \<and>
     (\<exists>outs. list_all2 (finished (tc_options (db_tables db0)) (tc_dbname (db_tables db0)) (db_env db)) outs segs \<and>
        (case cs_builder cs of
           None \<Rightarrow> cur = [] \<and> cs_outputs cs = outs
         | Some b \<Rightarrow> \<exists>f out. posix_content f = [] \<and> b = built_from (tc_options (db_tables db0)) f cur \<and> cs_outputs cs = outs @ [out] \<and>
             (cur \<noteq> [] \<longrightarrow> ou_smallest out = fst (hd cur) \<and> ou_largest out = fst (List.last cur))))"

lemma finished_frame:
  assumes "list_all2 (finished opt dbname env) outs segs"
    and "\<And>out. out \<in> set outs \<Longrightarrow> pe_files env' (TableFileName dbname (ou_number out)) = pe_files env (TableFileName dbname (ou_number out))"
  shows "list_all2 (finished opt dbname env') outs segs"
proof -
  have "finished opt dbname env' out es" if "finished opt dbname env out es" "out \<in> set outs" for out es
    using that assms(2) by (simp add: finished_def stored_table_def)
  then show ?thesis using list.rel_mono_strong [OF assms(1)] by blast
qed

lemma out_num_inj:
  assumes "i < j" and "j < 2 ^ 64"
  shows "out_num db i \<noteq> out_num db j"
proof
  assume "out_num db i = out_num db j"
  then have "(word_of_nat i :: u64) = word_of_nat j" by (simp add: out_num_def)
  then have "unat (word_of_nat i :: u64) = unat (word_of_nat j :: u64)" by simp
  then show False using assms by (simp add: unat_of_nat take_bit_nat_eq_self)
qed

lemma earlier_number:
  assumes "map ou_number outputs = map (out_num db) [0..<length outputs]" and "outputs = outs @ [out]"
    and "length outputs \<le> 2 ^ 64" and "x \<in> set outs"
  shows "ou_number x \<noteq> ou_number out" and "ou_number out = out_num db (length outs)"
proof -
  have n: "ou_number (outputs ! i) = out_num db i" if "i < length outputs" for i
    using assms(1) that by (metis add_0 length_map nth_map nth_upt)
  show o: "ou_number out = out_num db (length outs)" using n [of "length outs"] assms(2) by simp
  obtain i where i: "i < length outs" "x = outs ! i" using assms(4) by (metis in_set_conv_nth)
  then have "ou_number x = out_num db i" using n [of i] assms(2) by (simp add: nth_append)
  then show "ou_number x \<noteq> ou_number out" using o out_num_inj [of i "length outs" db] i assms(2,3) by simp
qed

lemma worked_quiet: "worked n db0 db \<Longrightarrow> quiet other \<Longrightarrow> worked n db0 (other db)"
proof -
  assume w: "worked n db0 db" and "quiet other"
  then have q: "db_imm (other db) = db_imm db" "db_shutting_down (other db) = db_shutting_down db"
    "\<exists>q v. same_metas v (vs_current (db_versions db)) \<and> db_versions (other db) = (db_versions db)\<lparr>vs_last_sequence := q, vs_current := v\<rparr>"
    "same_tables (db_tables db) (db_tables (other db))"
    "\<And>m. pe_files (db_env (other db)) (TableFileName (tc_dbname (db_tables db)) m) = pe_files (db_env db) (TableFileName (tc_dbname (db_tables db)) m)"
    unfolding quiet_def by blast+
  then obtain q v where v: "same_metas v (vs_current (db_versions db))"
    "db_versions (other db) = (db_versions db)\<lparr>vs_last_sequence := q, vs_current := v\<rparr>" by blast
  obtain q' v' where v': "same_metas v' (vs_current (db_versions db0))"
    "db_versions db = (db_versions db0)\<lparr>vs_next_file_number := out_num db0 n, vs_last_sequence := q', vs_current := v'\<rparr>"
    using w by (auto simp: worked_def)
  have "same_metas v (vs_current (db_versions db0))" using same_metas_trans [OF v(1)] v' by simp
  moreover have "db_versions (other db) = (db_versions db0)\<lparr>vs_next_file_number := out_num db0 n, vs_last_sequence := q, vs_current := v\<rparr>"
    unfolding v(2) v'(2) by simp
  ultimately show "worked n db0 (other db)" using w q by (auto simp: worked_def)
qed

lemma writing_quiet: "writing db0 c segs cur cs db \<Longrightarrow> quiet other \<Longrightarrow> writing db0 c segs cur cs (other db)"
proof -
  assume w: "writing db0 c segs cur cs db" and q: "quiet other"
  have t: "tc_dbname (db_tables db) = tc_dbname (db_tables db0)" using w by (simp add: writing_def worked_def)
  have "pe_files (db_env (other db)) (TableFileName (tc_dbname (db_tables db0)) m) = pe_files (db_env db) (TableFileName (tc_dbname (db_tables db0)) m)" for m
    using q unfolding quiet_def t by (metis t)
  then have "list_all2 (finished opt (tc_dbname (db_tables db0)) (db_env (other db))) outs segs"
    if "list_all2 (finished opt (tc_dbname (db_tables db0)) (db_env db)) outs segs" for opt outs
    by (rule finished_frame [OF that])
  then show "writing db0 c segs cur cs (other db)"
    using w worked_quiet [OF _ q] unfolding writing_def by blast
qed

lemma writing_open:
  assumes w: "writing db0 c segs cur cs db" and none: "cs_builder cs = None" and n: "length (cs_outputs cs) < 2 ^ 64"
    and op: "OpenCompactionOutputFile cs db = (OK, cs', db')"
  shows "writing db0 c segs [] cs' db'" and "cs_builder cs' \<noteq> None" and "cs_smallest_snapshot cs' = cs_smallest_snapshot cs"
    and "cs_compaction cs' = cs_compaction cs" and "length (cs_outputs cs') = length (cs_outputs cs) + 1" and "cur = []"
proof -
  let ?n = "length (cs_outputs cs)"
  have wk: "worked ?n db0 db" using w by (simp add: writing_def)
  then obtain q v where vs: "db_versions db = (db_versions db0)\<lparr>vs_next_file_number := out_num db0 ?n, vs_last_sequence := q, vs_current := v\<rparr>"
    and v: "same_metas v (vs_current (db_versions db0))" and t: "same_tables (db_tables db0) (db_tables db)" by (auto simp: worked_def)
  obtain f tc where o: "posix_content f = []"
    "cs' = cs\<lparr>cs_outputs := cs_outputs cs @ [\<lparr>ou_number = vs_next_file_number (db_versions db), ou_file_size = 0, ou_smallest = [], ou_largest = []\<rparr>],
      cs_builder := Some (new_TableBuilder (tc_options (db_tables db)) f)\<rparr>"
    "db' = (snd (new_output_number db))\<lparr>db_tables := tc\<rparr>" "same_tables (db_tables db) tc"
    "\<And>name. name \<noteq> TableFileName (tc_dbname (db_tables db)) (vs_next_file_number (db_versions db)) \<Longrightarrow>
      pe_files (tc_posix tc) name = pe_files (db_env db) name"
    using OpenCompactionOutputFile_OK [OF op] by blast
  have num: "vs_next_file_number (db_versions db) = out_num db0 ?n" by (simp add: vs)
  have db': "db_imm db' = db_imm db" "db_shutting_down db' = db_shutting_down db" "db_tables db' = tc"
    "db_versions db' = (db_versions db)\<lparr>vs_next_file_number := out_num db0 ?n + 1\<rparr>"
    by (simp_all add: o(3) new_output_number_def NewFileNumber_def num)
  have other: "pe_files (tc_posix tc) (TableFileName (tc_dbname (db_tables db0)) m) = pe_files (db_env db) (TableFileName (tc_dbname (db_tables db0)) m)"
    if "m \<noteq> out_num db0 ?n" for m
    using o(5) that t TableFileName_inj unfolding num by metis
  have "worked (?n + 1) db0 db'"
    unfolding worked_def
  proof (intro conjI allI impI)
    show "\<exists>q v. same_metas v (vs_current (db_versions db0)) \<and>
        db_versions db' = (db_versions db0)\<lparr>vs_next_file_number := out_num db0 (?n + 1), vs_last_sequence := q, vs_current := v\<rparr>"
      by (intro exI [of _ q] exI [of _ v]) (simp add: db'(4) vs v out_num_def)
    fix m
    assume "\<forall>i < ?n + 1. m \<noteq> out_num db0 i"
    then show "pe_files (db_env db') (TableFileName (tc_dbname (db_tables db0)) m) = pe_files (db_env db0) (TableFileName (tc_dbname (db_tables db0)) m)"
      using other wk unfolding db'(3) worked_def by simp
  qed (use wk o(4) db' in \<open>simp_all add: worked_def\<close>)
  moreover obtain outs where outs: "cur = []" "cs_outputs cs = outs"
    "list_all2 (finished (tc_options (db_tables db0)) (tc_dbname (db_tables db0)) (db_env db)) outs segs"
    using w by (auto simp: writing_def none)
  moreover have numbers: "map ou_number (cs_outputs cs) = map (out_num db0) [0..<?n]" using w by (simp add: writing_def)
  moreover have "list_all2 (finished (tc_options (db_tables db0)) (tc_dbname (db_tables db0)) (db_env db')) outs segs"
  proof (rule finished_frame [OF outs(3)])
    fix out assume "out \<in> set outs"
    then have "ou_number out \<in> set (map ou_number (cs_outputs cs))" by (simp add: outs(2))
    then have "ou_number out \<in> set (map (out_num db0) [0..<?n])" unfolding numbers .
    then obtain i where "i < ?n" "ou_number out = out_num db0 i" by auto
    then have "ou_number out \<noteq> out_num db0 ?n" using out_num_inj [of i ?n db0] n by simp
    then show "pe_files (db_env db') (TableFileName (tc_dbname (db_tables db0)) (ou_number out)) =
        pe_files (db_env db) (TableFileName (tc_dbname (db_tables db0)) (ou_number out))"
      unfolding db'(3) by (rule other)
  qed
  moreover have "same_work c (cs_compaction cs')" using w o(2) by (simp add: writing_def)
  ultimately show "writing db0 c segs [] cs' db'"
    unfolding writing_def using o(1,2) t by (auto simp: num intro!: exI [of _ outs] exI [of _ f])
  show "cs_builder cs' \<noteq> None" "cs_smallest_snapshot cs' = cs_smallest_snapshot cs" "cs_compaction cs' = cs_compaction cs"
    "length (cs_outputs cs') = length (cs_outputs cs) + 1" "cur = []"
    using o(2) outs(1) by simp_all
qed


lemma tb_AddAll_append: "tb_AddAll ops (es @ [(k, v)]) b = tb_Add ops k v (tb_AddAll ops es b)"
  by (induction ops es b rule: tb_AddAll.induct) simp_all

lemma built_from_entries: "tb_NumEntries (built_from opt f es) = 0 \<longleftrightarrow> es = []"
proof (cases es)
  case (Cons e es')
  have mono: "tb_num_entries b \<le> tb_num_entries (tb_AddAll posix_writable_ops xs b)" for b xs
    by (induction posix_writable_ops xs b rule: tb_AddAll.induct) (auto simp: tb_Add_num_entries intro: le_trans [rotated])
  have "tb_num_entries (tb_Add posix_writable_ops (fst e) (snd e) (new_TableBuilder opt f)) = 1"
    by (simp add: tb_Add_num_entries new_TableBuilder_def tb_ok_def ok_def)
  then show ?thesis using mono [of "tb_Add posix_writable_ops (fst e) (snd e) (new_TableBuilder opt f)" es'] Cons
    by (cases e) (simp add: tb_NumEntries_def)
qed (simp add: new_TableBuilder_def tb_NumEntries_def)

text \<open>An entry is added to the builder.\<close>

definition with_entry :: "bytes \<Rightarrow> bytes \<Rightarrow> compaction_state \<Rightarrow> compaction_state" where
  "with_entry key val cs =
     (let cs = (if tb_NumEntries (the (cs_builder cs)) = 0 then set_current_output (\<lambda>out. out\<lparr>ou_smallest := key\<rparr>) cs else cs);
          cs = set_current_output (\<lambda>out. out\<lparr>ou_largest := key\<rparr>) cs
      in cs\<lparr>cs_builder := Some (tb_Add posix_writable_ops key val (the (cs_builder cs)))\<rparr>)"

lemma add_output_entry:
  "add_output is key val cs db =
     (let (s, cs, db) = (case cs_builder cs of None \<Rightarrow> OpenCompactionOutputFile cs db | Some _ \<Rightarrow> (OK, cs, db))
      in if \<not> ok s then Some (s, cs, db)
         else let cs = with_entry key val cs
              in if uint (tb_FileSize (the (cs_builder cs))) \<ge> c_max_output_file_size (cs_compaction cs)
                 then FinishCompactionOutputFile is cs db else Some (OK, cs, db))"
  by (simp add: add_output_def with_entry_def Let_def set_current_output_def case_prod_unfold)

lemma writing_add:
  assumes w: "writing db0 c segs cur cs db" and b: "cs_builder cs \<noteq> None"
  shows "writing db0 c segs (cur @ [(key, val)]) (with_entry key val cs) db" and "cs_builder (with_entry key val cs) \<noteq> None"
    and "cs_compaction (with_entry key val cs) = cs_compaction cs"
    and "cs_smallest_snapshot (with_entry key val cs) = cs_smallest_snapshot cs"
    and "length (cs_outputs (with_entry key val cs)) = length (cs_outputs cs)"
proof -
  obtain outs f out where o: "list_all2 (finished (tc_options (db_tables db0)) (tc_dbname (db_tables db0)) (db_env db)) outs segs"
    "posix_content f = []" "cs_builder cs = Some (built_from (tc_options (db_tables db0)) f cur)" "cs_outputs cs = outs @ [out]"
    "cur \<noteq> [] \<longrightarrow> ou_smallest out = fst (hd cur) \<and> ou_largest out = fst (List.last cur)"
    using w b by (auto simp: writing_def split: option.splits)
  let ?out = "(if cur = [] then out\<lparr>ou_smallest := key\<rparr> else out)\<lparr>ou_largest := key\<rparr>"
  have e: "with_entry key val cs = cs\<lparr>cs_outputs := outs @ [?out],
      cs_builder := Some (built_from (tc_options (db_tables db0)) f (cur @ [(key, val)]))\<rparr>"
    using o(3,4) by (simp add: with_entry_def Let_def built_from_entries set_current_output_def current_output_def tb_AddAll_append)
  have "ou_number ?out = ou_number out" by simp
  then show "writing db0 c segs (cur @ [(key, val)]) (with_entry key val cs) db"
    using w o unfolding writing_def e by (cases "cur = []") auto
  show "cs_builder (with_entry key val cs) \<noteq> None" "cs_compaction (with_entry key val cs) = cs_compaction cs"
    "cs_smallest_snapshot (with_entry key val cs) = cs_smallest_snapshot cs"
    "length (cs_outputs (with_entry key val cs)) = length (cs_outputs cs)"
    using o(4) by (simp_all add: e)
qed

lemma writing_finish:
  assumes opt: "database_options (tc_options (db_tables db0))" and w: "writing db0 c segs cur cs db" and b: "cs_builder cs \<noteq> None"
    and cur: "cur \<noteq> []" "entries_sorted cur" "internal_keys cur" and n: "length (cs_outputs cs) \<le> 2 ^ 64"
    and fin: "FinishCompactionOutputFile is cs db = Some (OK, cs', db')"
  shows "writing db0 c (segs @ [cur]) [] cs' db'" and "cs_builder cs' = None" and "cs_compaction cs' = cs_compaction cs"
    and "cs_smallest_snapshot cs' = cs_smallest_snapshot cs" and "length (cs_outputs cs') = length (cs_outputs cs)"
proof -
  obtain outs f out where o: "list_all2 (finished (tc_options (db_tables db0)) (tc_dbname (db_tables db0)) (db_env db)) outs segs"
    "posix_content f = []" "cs_builder cs = Some (built_from (tc_options (db_tables db0)) f cur)" "cs_outputs cs = outs @ [out]"
    "ou_smallest out = fst (hd cur)" "ou_largest out = fst (List.last cur)"
    using w b cur(1) by (auto simp: writing_def split: option.splits)
  have wk: "worked (length (cs_outputs cs)) db0 db" and numbers: "map ou_number (cs_outputs cs) = map (out_num db0) [0..<length (cs_outputs cs)]"
    and sw: "same_work c (cs_compaction cs)" using w by (simp_all add: writing_def)
  have t: "same_tables (db_tables db0) (db_tables db)" using wk by (simp add: worked_def)
  have co: "current_output cs = out" using o(4) by (simp add: current_output_def)
  obtain out' tot tc where r: "out' = out\<lparr>ou_file_size := ou_file_size out'\<rparr>"
    "cs' = (set_current_output (\<lambda>_. out') cs)\<lparr>cs_total_bytes := tot, cs_builder := None\<rparr>"
    "db' = db\<lparr>db_tables := tc\<rparr>" "same_tables (db_tables db) tc"
    "stored_table (tc_options (db_tables db0)) (tc_dbname (db_tables db)) (tc_posix tc) out' cur"
    "\<And>name. name \<noteq> TableFileName (tc_dbname (db_tables db)) (ou_number out) \<Longrightarrow> pe_files (tc_posix tc) name = pe_files (db_env db) name"
    using FinishCompactionOutputFile_OK [OF opt cur(2,3) o(2,3) fin] unfolding co by blast
  have out': "ou_number out' = ou_number out" "ou_smallest out' = ou_smallest out" "ou_largest out' = ou_largest out"
    by (subst r(1), simp)+
  have cs': "cs' = cs\<lparr>cs_outputs := outs @ [out'], cs_total_bytes := tot, cs_builder := None\<rparr>"
    using r(2) o(4) by (simp add: set_current_output_def)
  have other: "pe_files (tc_posix tc) (TableFileName (tc_dbname (db_tables db0)) m) = pe_files (db_env db) (TableFileName (tc_dbname (db_tables db0)) m)"
    if "m \<noteq> ou_number out" for m
    using r(6) that t TableFileName_inj by metis
  note earlier = earlier_number [OF numbers o(4) n]
  have num: "ou_number out = out_num db0 (length outs)"
  proof -
    have "map ou_number (cs_outputs cs) ! length outs = map (out_num db0) [0..<length (cs_outputs cs)] ! length outs" using numbers by simp
    then show ?thesis using o(4) by (simp add: nth_append)
  qed
  have "list_all2 (finished (tc_options (db_tables db0)) (tc_dbname (db_tables db0)) (db_env db')) (outs @ [out']) (segs @ [cur])"
  proof (rule list_all2_appendI)
    show "list_all2 (finished (tc_options (db_tables db0)) (tc_dbname (db_tables db0)) (db_env db')) outs segs"
      by (rule finished_frame [OF o(1)]) (use earlier(1) other in \<open>simp add: r(3)\<close>)
    show "list_all2 (finished (tc_options (db_tables db0)) (tc_dbname (db_tables db0)) (db_env db')) [out'] [cur]"
      using r(5) t cur(1) o(5,6) by (simp add: finished_def out' r(3))
  qed
  moreover have "worked (length (cs_outputs cs)) db0 db'"
    unfolding worked_def
  proof (intro conjI allI impI)
    fix m
    assume m: "\<forall>i < length (cs_outputs cs). m \<noteq> out_num db0 i"
    then have "m \<noteq> ou_number out" using num o(4) by simp
    then show "pe_files (db_env db') (TableFileName (tc_dbname (db_tables db0)) m) = pe_files (db_env db0) (TableFileName (tc_dbname (db_tables db0)) m)"
      using other m wk unfolding r(3) worked_def by simp
  qed (use wk r(4) in \<open>simp_all add: worked_def r(3)\<close>)
  ultimately show "writing db0 c (segs @ [cur]) [] cs' db'"
    using numbers sw unfolding writing_def cs' by (simp add: o(4) out'(1))
  show "cs_builder cs' = None" "cs_compaction cs' = cs_compaction cs" "cs_smallest_snapshot cs' = cs_smallest_snapshot cs"
    "length (cs_outputs cs') = length (cs_outputs cs)"
    by (simp_all add: cs' o(4))
qed


section \<open>One entry\<close>

lemma same_work_trans: "same_work c c' \<Longrightarrow> same_work c' c'' \<Longrightarrow> same_work c c''"
  by (simp add: same_work_def)

lemma same_work_base: "same_work c c' \<Longrightarrow> base_key c' = base_key c"
  by (simp add: same_work_def base_key_def fun_eq_iff)

lemma same_work_ptrs: "same_work c (c\<lparr>c_level_ptrs := ptrs\<rparr>)"
  by (simp add: same_work_def)

lemma ShouldStopBefore_loop_work:
  "same_work c (ShouldStopBefore_loop user k c) \<and> c_level_ptrs (ShouldStopBefore_loop user k c) = c_level_ptrs c"
proof (induction user k c rule: ShouldStopBefore_loop.induct)
  case (1 user k c)
  show ?case
  proof (cases "c_grandparent_index c < length (c_grandparents c) \<and>
         ikey_Compare user k (fm_largest (c_grandparents c ! c_grandparent_index c)) > 0")
    case True
    show ?thesis using 1 [OF True]
      unfolding trans [OF ShouldStopBefore_loop.simps if_P [OF True]] by (simp add: same_work_def)
  next
    case False
    show ?thesis unfolding trans [OF ShouldStopBefore_loop.simps if_not_P [OF False]] by (simp add: same_work_def)
  qed
qed

lemma ShouldStopBefore_work:
  assumes "ShouldStopBefore vs k c = (stop, c')"
  shows "same_work c c'" and "c_level_ptrs c' = c_level_ptrs c"
  using assms ShouldStopBefore_loop_work [of c "vs_user vs" k] by (auto simp: ShouldStopBefore_def same_work_def Let_def split: if_splits)

lemma writing_work:
  "writing db0 c segs cur cs db \<Longrightarrow> same_work c c' \<Longrightarrow> writing db0 c segs cur (cs\<lparr>cs_compaction := c'\<rparr>) db"
  by (cases "cs_builder cs") (simp_all add: writing_def)

text \<open>What the loop keeps, and what it needs of the entries.\<close>

definition working :: "db \<Rightarrow> compaction \<Rightarrow> (bytes \<times> bytes) list \<Rightarrow> compaction_state \<Rightarrow> db \<Rightarrow> bool" where
  "working db0 c K cs db \<longleftrightarrow>
     (\<exists>segs cur. K = concat segs @ cur \<and> writing db0 c segs cur cs db \<and> (cs_builder cs \<noteq> None \<longrightarrow> cur \<noteq> []))"

definition inputs_fine :: "db \<Rightarrow> compaction \<Rightarrow> (bytes \<times> bytes) list \<Rightarrow> u64 \<Rightarrow> bool" where
  "inputs_fine db0 c es s \<longleftrightarrow>
     database_options (tc_options (db_tables db0)) \<and> vs_user (db_versions db0) = BytewiseComparator \<and>
     bytewise_user.version_wf (v_files (c_input_version c)) \<and> entries_sorted es \<and> parseable es \<and> length es < 2 ^ 64 \<and>
     s < kMaxSequenceNumber"

lemma outputs_length:
  assumes "writing db0 c segs cur cs db" and "cs_builder cs \<noteq> None \<longrightarrow> cur \<noteq> []"
  shows "length (cs_outputs cs) \<le> length (concat segs @ cur)"
proof -
  have segs: "length outs \<le> length (concat segs)" if "list_all2 (finished opt dbname env) outs segs" for opt dbname env outs
    using that
  proof (induction outs segs rule: list_all2_induct)
    case (Cons out outs es segs)
    then have "es \<noteq> []" by (simp add: finished_def)
    then show ?case using Cons.IH by (cases es) auto
  qed simp
  show ?thesis
  proof (cases "cs_builder cs")
    case None
    then show ?thesis using assms(1) segs by (auto simp: writing_def)
  next
    case (Some b)
    then obtain outs out where "list_all2 (finished (tc_options (db_tables db0)) (tc_dbname (db_tables db0)) (db_env db)) outs segs"
      "cs_outputs cs = outs @ [out]" "cur \<noteq> []" using assms by (auto simp: writing_def)
    then show ?thesis using segs by (cases cur) fastforce+
  qed
qed

lemma compact_entry_OK:
  assumes fine: "inputs_fine db0 c es s" and es: "es = pre @ e # rest"
    and w: "working db0 c (kept (base_key c) s (set es) pre) cs db" and s: "cs_smallest_snapshot cs = s"
    and ptrs: "bytewise_user.ptrs_ok (v_files (c_input_version c)) (c_level c + 2) (c_level_ptrs (cs_compaction cs)) (ExtractUserKey (fst e))"
    and run: "compact_entry OK (fst e) (snd e) (drop_after pre, cs, db) = Some (OK, d', cs', db')"
  shows "d' = drop_after (pre @ [e]) \<and> working db0 c (kept (base_key c) s (set es) (pre @ [e])) cs' db' \<and> cs_smallest_snapshot cs' = s \<and>
    bytewise_user.ptrs_ok (v_files (c_input_version c)) (c_level c + 2) (c_level_ptrs (cs_compaction cs')) (ExtractUserKey (fst e))"
proof -
  note f = fine [unfolded inputs_fine_def]
  have opt: "database_options (tc_options (db_tables db0))" using f by blast
  let ?K = "kept (base_key c) s (set es) pre"
  obtain segs cur where K: "?K = concat segs @ cur" and wr: "writing db0 c segs cur cs db" and full: "cs_builder cs \<noteq> None \<longrightarrow> cur \<noteq> []"
    using w by (auto simp: working_def)
  have srt: "entries_sorted ?K" and sub: "set ?K \<subseteq> set es"
    using f unfolding es kept_def by (auto simp: sorted_wrt_append intro!: sorted_wrt_filter)
  have int: "internal_keys es" using f unfolding parseable_def by (meson Parse_user_key not_None_eq)
  have cur: "entries_sorted cur" "internal_keys cur" using srt sub int unfolding K by (auto simp: sorted_wrt_append)
  have "length ?K \<le> length pre" by (simp add: kept_def)
  then have len: "length (concat segs @ cur) + 1 < 2 ^ 64 + 1" using f es K by simp
  then have n: "length (cs_outputs cs) < 2 ^ 64" using outputs_length [OF wr full] by simp
  obtain stop c1 where st: "ShouldStopBefore (db_versions db) (fst e) (cs_compaction cs) = (stop, c1)" by fastforce
  note sw = ShouldStopBefore_work [OF st]
  have c0: "same_work c (cs_compaction cs)" using wr by (simp add: writing_def)
  have c1: "same_work c c1" using same_work_trans [OF c0 sw(1)] .
  let ?cs = "cs\<lparr>cs_compaction := c1\<rparr>"
  have wr': "writing db0 c segs cur ?cs db" using writing_work [OF wr c1] .
  obtain s1 cs1 db1 where f1: "(if stop \<and> cs_builder ?cs \<noteq> None then FinishCompactionOutputFile OK ?cs db else Some (OK, ?cs, db)) = Some (s1, cs1, db1)"
    using run unfolding compact_entry_def prod.case st Let_def by (auto split: option.splits)
  have run1: "(if \<not> ok s1 then Some (s1, drop_after pre, cs1, db1)
               else
                 let (drop, d, c) = drop_entry (vs_user (db_versions db1)) (cs_smallest_snapshot cs1) (fst e) (drop_after pre) (cs_compaction cs1);
                     cs = cs1\<lparr>cs_compaction := c\<rparr>
                 in if drop then Some (OK, d, cs, db1)
                    else map_option (\<lambda>(s, cs, db). (s, d, cs, db)) (add_output OK (fst e) (snd e) cs db1)) = Some (OK, d', cs', db')"
    using run unfolding compact_entry_def prod.case st Let_def f1 [unfolded Let_def] by simp
  have "s1 = OK" using run1 by (cases "ok s1") (simp_all add: ok_def)
  obtain segs1 cur1 where w1: "writing db0 c segs1 cur1 cs1 db1" "concat segs1 @ cur1 = concat segs @ cur" "cs_builder cs1 \<noteq> None \<longrightarrow> cur1 \<noteq> []"
    "cs_compaction cs1 = c1" "cs_smallest_snapshot cs1 = s" "length (cs_outputs cs1) < 2 ^ 64" "cur1 = cur \<or> cur1 = []"
  proof (cases "stop \<and> cs_builder ?cs \<noteq> None")
    case True
    then have fin: "FinishCompactionOutputFile OK ?cs db = Some (OK, cs1, db1)" using f1 \<open>s1 = OK\<close> by simp
    have "cur \<noteq> []" "cs_builder ?cs \<noteq> None" using True full by simp_all
    note r = writing_finish [OF opt wr' this(2,1) cur _ fin]
    show ?thesis using that [of "segs @ [cur]" "[]"] r n s by simp
  next
    case False
    then have "cs1 = ?cs" "db1 = db" using f1 \<open>s1 = OK\<close> by auto
    then show ?thesis using that [of segs cur] wr' full n s by simp
  qed
  have user: "vs_user (db_versions db1) = BytewiseComparator" using f w1(1) by (auto simp: writing_def worked_def)
  obtain p where p: "ParseInternalKey (fst e) = Some p" using f by (auto simp: parseable_def es)
  have same: "c_level c1 = c_level c" "c_input_version c1 = c_input_version c" "base_key c1 = base_key c"
    using c1 [unfolded same_work_def] same_work_base [OF c1] by blast+
  have wf: "bytewise_user.version_wf (v_files (c_input_version c1))" using f same by simp
  have fit: "entries_sorted (pre @ e # rest)" "s < kMaxSequenceNumber" using f es by simp_all
  have "bytewise_user.ptrs_ok (v_files (c_input_version c1)) (c_level c1 + 2) (c_level_ptrs c1) (ExtractUserKey (fst e))"
    using ptrs sw(2) same by simp
  then obtain ptrs where step: "drop_entry BytewiseComparator s (fst e) (drop_after pre) c1 =
      (dropped (base_key c1) s (set (pre @ e # rest)) e, drop_after (pre @ [e]), c1\<lparr>c_level_ptrs := ptrs\<rparr>)"
    "bytewise_user.ptrs_ok (v_files (c_input_version c1)) (c_level c1 + 2) ptrs (ExtractUserKey (fst e))"
    by (rule drop_step [OF fit(1) p fit(2) wf])
  note d = step [unfolded same, folded es]
  let ?c2 = "c1\<lparr>c_level_ptrs := ptrs\<rparr>"
  let ?cs2 = "cs1\<lparr>cs_compaction := ?c2\<rparr>"
  have wr2: "writing db0 c segs1 cur1 ?cs2 db1" using writing_work [OF w1(1)] same_work_trans [OF c1 same_work_ptrs] by blast
  have run2: "(if dropped (base_key c) s (set es) e then Some (OK, drop_after (pre @ [e]), ?cs2, db1)
      else map_option (\<lambda>(s, cs, db). (s, drop_after (pre @ [e]), cs, db)) (add_output OK (fst e) (snd e) ?cs2 db1)) = Some (OK, d', cs', db')"
    using run1 \<open>s1 = OK\<close> unfolding user w1(4,5) d(1) Let_def prod.case by (simp add: ok_def)
  show ?thesis
  proof (cases "dropped (base_key c) s (set es) e")
    case True
    then have "kept (base_key c) s (set es) (pre @ [e]) = ?K" by (simp add: kept_def)
    moreover have "working db0 c ?K ?cs2 db1"
      unfolding working_def using wr2 w1(2,3) K by (intro exI [of _ segs1] exI [of _ cur1]) simp
    moreover have "d' = drop_after (pre @ [e])" "cs' = ?cs2" "db' = db1" using run2 True by auto
    ultimately show ?thesis using w1(5) d(2) by simp
  next
    case False
    then have kept: "kept (base_key c) s (set es) (pre @ [e]) = ?K @ [e]" by (simp add: kept_def)
    have add: "add_output OK (fst e) (snd e) ?cs2 db1 = Some (OK, cs', db')" and d': "d' = drop_after (pre @ [e])" using run2 False by auto
    obtain s3 cs3 db3 where o: "(case cs_builder ?cs2 of None \<Rightarrow> OpenCompactionOutputFile ?cs2 db1 | Some _ \<Rightarrow> (OK, ?cs2, db1)) = (s3, cs3, db3)"
      by (metis prod_cases3)
    have "s3 = OK" using add unfolding add_output_entry o Let_def prod.case by (cases "ok s3") (simp_all add: ok_def)
    have w3: "writing db0 c segs1 cur1 cs3 db3 \<and> cs_builder cs3 \<noteq> None \<and> cs_compaction cs3 = ?c2 \<and> cs_smallest_snapshot cs3 = s \<and>
        length (cs_outputs cs3) \<le> 2 ^ 64"
    proof (cases "cs_builder ?cs2")
      case None
      then have op: "OpenCompactionOutputFile ?cs2 db1 = (OK, cs3, db3)" using o \<open>s3 = OK\<close> by simp
      have "length (cs_outputs ?cs2) < 2 ^ 64" using w1(6) by simp
      note r = writing_open [OF wr2 None this op]
      show ?thesis using r w1 by simp
    next
      case (Some b)
      then show ?thesis using o wr2 w1 by auto
    qed
    let ?cs4 = "with_entry (fst e) (snd e) cs3"
    note wa = writing_add [OF conjunct1 [OF w3], of "fst e" "snd e"]
    have w4: "writing db0 c segs1 (cur1 @ [e]) ?cs4 db3" "cs_builder ?cs4 \<noteq> None" "cs_compaction ?cs4 = ?c2" "cs_smallest_snapshot ?cs4 = s"
      "length (cs_outputs ?cs4) \<le> 2 ^ 64" using wa w3 by auto
    have K4: "?K @ [e] = concat segs1 @ (cur1 @ [e])" using w1(2) K by simp
    have add4: "(if uint (tb_FileSize (the (cs_builder ?cs4))) \<ge> c_max_output_file_size (cs_compaction ?cs4)
         then FinishCompactionOutputFile OK ?cs4 db3 else Some (OK, ?cs4, db3)) = Some (OK, cs', db')"
      using add \<open>s3 = OK\<close> unfolding add_output_entry o Let_def prod.case by (simp add: ok_def)
    show ?thesis
    proof (cases "uint (tb_FileSize (the (cs_builder ?cs4))) \<ge> c_max_output_file_size (cs_compaction ?cs4)")
      case True
      then have fin: "FinishCompactionOutputFile OK ?cs4 db3 = Some (OK, cs', db')" using add4 by simp
      have "entries_sorted (kept (base_key c) s (set es) (pre @ [e]))" "set (kept (base_key c) s (set es) (pre @ [e])) \<subseteq> set es"
        using f unfolding es kept_def by (auto simp: sorted_wrt_append intro!: sorted_wrt_filter)
      then have "entries_sorted (cur1 @ [e])" "internal_keys (cur1 @ [e])"
        using int unfolding kept K4 by (auto simp: sorted_wrt_append)
      note r = writing_finish [OF opt w4(1,2) _ this w4(5) fin]
      show ?thesis unfolding working_def kept K4 d' using r w4 d(2)
        by (intro conjI exI [of _ "segs1 @ [cur1 @ [e]]"] exI [of _ "[]"]) simp_all
    next
      case False
      then have "cs' = ?cs4" "db' = db3" using add4 by auto
      then show ?thesis unfolding working_def kept K4 d' using w4 d(2)
        by (intro conjI exI [of _ segs1] exI [of _ "cur1 @ [e]"]) simp_all
    qed
  qed
qed


section \<open>The loop\<close>

lemma working_quiet: "working db0 c K cs db \<Longrightarrow> quiet other \<Longrightarrow> working db0 c K cs (other db)"
  unfolding working_def using writing_quiet by blast

lemma compact_loop_OK:
  assumes it: "sorted_iterator (cmp_Compare bytewise_internal) internal_key ops rep" and fine: "inputs_fine db0 c es s"
    and idle: "db_imm db0 = None" "\<not> db_shutting_down db0"
  shows "rep i es (length pre) \<Longrightarrow> es = pre @ rest \<Longrightarrow> \<forall>other \<in> set others. quiet other \<Longrightarrow>
    working db0 c (kept (base_key c) s (set es) pre) cs db \<Longrightarrow> cs_smallest_snapshot cs = s \<Longrightarrow>
    \<forall>e \<in> set rest. bytewise_user.ptrs_ok (v_files (c_input_version c)) (c_level c + 2) (c_level_ptrs (cs_compaction cs)) (ExtractUserKey (fst e)) \<Longrightarrow>
    compact_loop ops readdir others i (drop_after pre, cs, db) = Some (OK, i', cs', db') \<Longrightarrow>
    working db0 c (kept (base_key c) s (set es) es) cs' db' \<and> it_status ops i' = OK"
proof (induction rest arbitrary: pre i others cs db)
  case Nil
  let ?db = "case others of [] \<Rightarrow> db | other # _ \<Rightarrow> other db"
  have "\<not> it_Valid ops i" using sorted_iterator.Valid_rep [OF it Nil.prems(1)] Nil.prems(2) by simp
  then have "cs' = cs" "db' = ?db" "i' = i" using Nil.prems(7) by (simp_all add: compact_loop.simps)
  moreover have "working db0 c (kept (base_key c) s (set es) pre) cs ?db"
    using Nil.prems(3,4) working_quiet by (simp split: list.split)
  ultimately show ?case using sorted_iterator.status_rep [OF it Nil.prems(1)] Nil.prems(2) by simp
next
  case (Cons e rest)
  let ?db = "case others of [] \<Rightarrow> db | other # _ \<Rightarrow> other db"
  have w: "working db0 c (kept (base_key c) s (set es) pre) cs ?db"
    using Cons.prems(3,4) working_quiet by (simp split: list.split)
  have wk: "db_imm ?db = None" "\<not> db_shutting_down ?db" using w idle by (auto simp: working_def writing_def worked_def)
  have less: "length pre < length es" and at: "es ! length pre = e" using Cons.prems(2) by simp_all
  have pos: "it_Valid ops i" "it_key ops i = fst e" "it_value ops i = snd e" "it_status ops i = OK" "rep (it_Next ops i) es (length (pre @ [e]))"
    using sorted_iterator.Valid_rep [OF it Cons.prems(1)] sorted_iterator.key_rep [OF it Cons.prems(1) less] at
      sorted_iterator.value_rep [OF it Cons.prems(1) less] sorted_iterator.status_rep [OF it Cons.prems(1)]
      sorted_iterator.Next_rep [OF it Cons.prems(1) less] less by simp_all
  have run: "(case compact_entry OK (fst e) (snd e) (drop_after pre, cs, ?db) of
       None \<Rightarrow> None
     | Some (s, st) \<Rightarrow> if ok s then compact_loop ops readdir (tl others) (it_Next ops i) st else Some (s, i, snd st)) = Some (OK, i', cs', db')"
    using Cons.prems(7) pos wk unfolding compact_loop.simps [of ops readdir others i] Let_def prod.case by (simp add: prioritize_imm_def)
  then obtain s1 d1 cs1 db1 where e1: "compact_entry OK (fst e) (snd e) (drop_after pre, cs, ?db) = Some (s1, d1, cs1, db1)"
    by (auto split: option.splits)
  have "s1 = OK" using run e1 by (cases "ok s1") (auto simp: ok_def)
  then have loop: "compact_loop ops readdir (tl others) (it_Next ops i) (d1, cs1, db1) = Some (OK, i', cs', db')" using run e1 by (simp add: ok_def)
  have pe: "bytewise_user.ptrs_ok (v_files (c_input_version c)) (c_level c + 2) (c_level_ptrs (cs_compaction cs)) (ExtractUserKey (fst e))"
    using Cons.prems(6) by simp
  note r = compact_entry_OK [OF fine Cons.prems(2) w Cons.prems(5) pe e1 [unfolded \<open>s1 = OK\<close>]]
  have quiet: "\<forall>other \<in> set (tl others). quiet other" using Cons.prems(3) by (cases others) auto
  have "bytewise_user.ptrs_ok (v_files (c_input_version c)) (c_level c + 2) (c_level_ptrs (cs_compaction cs1)) (ExtractUserKey (fst e'))"
    if "e' \<in> set rest" for e'
  proof -
    have "entries_sorted (pre @ e # rest)" using fine unfolding inputs_fine_def Cons.prems(2) by blast
    then have "cmp_Compare bytewise_internal (fst e) (fst e') < 0" using that by (auto simp: sorted_wrt_append)
    then have "slice_compare (ExtractUserKey (fst e)) (ExtractUserKey (fst e')) \<le> 0" by (auto simp: internal_less)
    then have "cmp_Compare BytewiseComparator (ExtractUserKey (fst e)) (ExtractUserKey (fst e')) \<le> 0" by (simp add: BytewiseComparator_def)
    then show ?thesis using bytewise_user.ptrs_ok_mono r by blast
  qed
  moreover have "es = (pre @ [e]) @ rest" using Cons.prems(2) by simp
  ultimately show ?case using Cons.IH [OF pos(5) _ quiet] r loop by blast
qed

text \<open>The smallest sequence number a reader may still ask for.\<close>

definition smallest_snapshot :: "db \<Rightarrow> u64" where
  "smallest_snapshot db = (if db_snapshots db = [] then vs_last_sequence (db_versions db) else SnapshotList_oldest (db_snapshots db))"

lemma worked_start: "worked 0 db db"
  unfolding worked_def by (auto simp: out_num_def intro!: exI [of _ "vs_last_sequence (db_versions db)"] exI [of _ "vs_current (db_versions db)"])

lemma DoCompactionWork_OK:
  assumes it: "sorted_iterator (cmp_Compare bytewise_internal) internal_key ops rep" "rep input es p"
    and fine: "inputs_fine db c es (smallest_snapshot db)" and idle: "db_imm db = None" "\<not> db_shutting_down db"
    and others: "\<forall>other \<in> set others. quiet other" and ptrs: "c_level_ptrs c = replicate kNumLevels 0"
    and run: "DoCompactionWork ops readdir others input (new_CompactionState c) db = Some (OK, cs', db')"
  obtains segs cs1 db1 where "writing db c segs [] cs1 db1" and "cs_builder cs1 = None"
    and "concat segs = kept (base_key c) (smallest_snapshot db) (set es) es" and "InstallCompactionResults cs1 db1 = (OK, cs', db')"
proof -
  let ?s = "smallest_snapshot db"
  let ?K = "kept (base_key c) ?s (set es) es"
  let ?cs = "(new_CompactionState c)\<lparr>cs_smallest_snapshot := ?s\<rparr>"
  obtain s1 i1 cs1 db1 where loop: "compact_loop ops readdir others (it_SeekToFirst ops input) (new_drop_state, ?cs, db) = Some (s1, i1, cs1, db1)"
    using run by (auto simp: DoCompactionWork_def smallest_snapshot_def split: option.splits)
  let ?s2 = "if ok s1 \<and> db_shutting_down db1 then IOError (bytes_of ''Deleting DB during compaction'') else s1"
  obtain s3 cs3 db3 where fin: "(if ok ?s2 \<and> cs_builder cs1 \<noteq> None then FinishCompactionOutputFile (it_status ops i1) cs1 db1
      else Some (?s2, cs1, db1)) = Some (s3, cs3, db3)"
    using run loop by (auto simp: DoCompactionWork_def smallest_snapshot_def Let_def split: option.splits if_splits)
  let ?s4 = "if ok s3 then it_status ops i1 else s3"
  obtain s5 cs5 db5 where inst: "(if ok ?s4 then InstallCompactionResults cs3 db3 else (?s4, cs3, db3)) = (s5, cs5, db5)" by (metis prod_cases3)
  have "Some (s5, cs5, if ok s5 then db5 else RecordBackgroundError s5 db5) = Some (OK, cs', db')"
    using run unfolding DoCompactionWork_def smallest_snapshot_def [symmetric] Let_def loop option.case prod.case fin inst .
  then have res: "s5 = OK" "cs5 = cs'" "db5 = db'" by (auto simp: ok_def)
  have "ok ?s4" using inst res(1) by (cases "ok ?s4") (auto simp: ok_def)
  then have s: "s3 = OK" by (auto simp: ok_def split: if_splits)
  have "s1 = OK" using fin s by (auto simp: ok_def split: if_splits)
  have "writing db c [] [] ?cs db" using worked_start by (simp add: writing_def new_CompactionState_def same_work_def)
  then have "working db c (kept (base_key c) ?s (set es) []) ?cs db"
    unfolding working_def by (intro exI [of _ "[]"]) (simp add: kept_def new_CompactionState_def)
  moreover have "rep (it_SeekToFirst ops input) es (length ([] :: (bytes \<times> bytes) list))" using sorted_iterator.SeekToFirst_rep [OF it] by simp
  moreover have "\<forall>e \<in> set es. bytewise_user.ptrs_ok (v_files (c_input_version c)) (c_level c + 2) (c_level_ptrs (cs_compaction ?cs)) (ExtractUserKey (fst e))"
    using bytewise_user.ptrs_ok_new by (simp add: new_CompactionState_def ptrs)
  ultimately have w: "working db c ?K cs1 db1 \<and> it_status ops i1 = OK"
    using compact_loop_OK [OF it(1) fine idle, of _ "[]" es others ?cs db readdir i1 cs1 db1] others loop \<open>s1 = OK\<close> by (simp add: drop_after_def)
  then obtain segs cur where K: "?K = concat segs @ cur" and wr: "writing db c segs cur cs1 db1" and full: "cs_builder cs1 \<noteq> None \<longrightarrow> cur \<noteq> []"
    by (auto simp: working_def)
  have ni: "\<not> db_shutting_down db1" using wr idle by (simp add: writing_def worked_def)
  note f = fine [unfolded inputs_fine_def]
  have "entries_sorted ?K" "set ?K \<subseteq> set es" using f unfolding kept_def by (auto intro!: sorted_wrt_filter)
  moreover have "internal_keys es" using f unfolding parseable_def by (meson Parse_user_key not_None_eq)
  ultimately have cur: "entries_sorted cur" "internal_keys cur" unfolding K by (auto simp: sorted_wrt_append)
  have "length ?K \<le> length es" by (simp add: kept_def)
  then have n: "length (cs_outputs cs1) \<le> 2 ^ 64" using outputs_length [OF wr full] f K by simp
  obtain segs3 where w3: "writing db c segs3 [] cs3 db3" "cs_builder cs3 = None" "concat segs3 = ?K"
  proof (cases "cs_builder cs1 = None")
    case True
    then have "cs3 = cs1" "db3 = db1" "cur = []" using fin s wr by (auto simp: writing_def)
    then show ?thesis using that [of segs] wr True K by simp
  next
    case False
    then have fin': "FinishCompactionOutputFile OK cs1 db1 = Some (OK, cs3, db3)" using fin s \<open>s1 = OK\<close> ni w by (simp add: ok_def)
    have "database_options (tc_options (db_tables db))" "cur \<noteq> []" using f False full by blast+
    from writing_finish [OF this(1) wr False this(2) cur n fin'] show ?thesis using that [of "segs @ [cur]"] K by simp
  qed
  have "InstallCompactionResults cs3 db3 = (OK, cs', db')" using inst res \<open>ok ?s4\<close> by (simp add: ok_def)
  then show thesis using that w3 by blast
qed

end
