(* ===== verification/Compacted.thy ===== *)
theory Compacted
  imports CompactionWork Manifest
begin

text \<open>
  The version a compaction installs: its levels are layered again, and every read that a snapshot may still ask for gives what it
  gave before.
\<close>

section \<open>The outputs\<close>

lemma internal_compare: "cmp_Compare bytewise_internal a b = ikey_Compare BytewiseComparator a b"
  by (simp add: InternalKeyComparator_def)

context user_comparator
begin

lemma levels_ok_cong:
  assumes "levels_ok keys files" and "\<And>l f. l < kNumLevels \<Longrightarrow> f \<in> set (files ! l) \<Longrightarrow> keys' (fm_number f) = keys (fm_number f)"
  shows "levels_ok keys' files"
proof -
  note d = levels_okD [OF assms(1)]
  have z: "0 < kNumLevels" by (simp add: kNumLevels_def)
  have "holds keys' f" if "l < kNumLevels" "f \<in> set (files ! l)" for l f
    using d(4) [OF that] assms(2) [OF that] by (simp add: holds_def)
  moreover have "newer (keys' (fm_number f)) (keys' (fm_number g))"
    if "i < j" "j < kNumLevels" "f \<in> set (files ! i)" "g \<in> set (files ! j)" for i j f g
    using d(5) [OF that] assms(2) [of i f] assms(2) [of j g] that by simp
  moreover have "newer (keys' (fm_number f)) (keys' (fm_number g))"
    if "f \<in> set (files ! 0)" "g \<in> set (files ! 0)" "fm_number g < fm_number f" for f g
    using d(6) [OF that] assms(2) [OF z] that by simp
  ultimately show ?thesis using d(1-3,7) unfolding levels_ok_def by blast
qed

end

lemma finished_range:
  assumes "finished opt dbname env out es" and "entries_sorted es" and "e \<in> set es"
  shows "ikey_Compare BytewiseComparator (ou_smallest out) (fst e) \<le> 0" and "ikey_Compare BytewiseComparator (fst e) (ou_largest out) \<le> 0"
proof -
  have o: "es \<noteq> []" "ou_smallest out = fst (hd es)" "ou_largest out = fst (List.last es)" using assms(1) by (simp_all add: finished_def)
  obtain i where i: "i < length es" "e = es ! i" using assms(3) by (metis in_set_conv_nth)
  have le: "ikey_Compare BytewiseComparator (fst (es ! j)) (fst (es ! k)) \<le> 0" if "j \<le> k" "k < length es" for j k
  proof (cases "j = k")
    case False
    then have "ikey_Compare BytewiseComparator (fst (es ! j)) (fst (es ! k)) < 0"
      using sorted_wrt_nth_less [OF assms(2), of j k] that by (simp add: internal_compare)
    then show ?thesis by simp
  qed (simp add: bytewise_user.ik.compare_refl)
  have "i \<le> length es - 1" "length es - 1 < length es" using i(1) by simp_all
  then show "ikey_Compare BytewiseComparator (ou_smallest out) (fst e) \<le> 0" "ikey_Compare BytewiseComparator (fst e) (ou_largest out) \<le> 0"
    using le [of 0 i] le [of i "length es - 1"] i o(1) by (simp_all only: o(2,3) i(2) hd_conv_nth last_conv_nth le0 simp_thms)
qed

lemma output_meta_simps [simp]:
  "fm_number (output_meta out) = ou_number out" "fm_smallest (output_meta out) = ou_smallest out" "fm_largest (output_meta out) = ou_largest out"
  "fm_file_size (output_meta out) = ou_file_size out"
  by (simp_all add: output_meta_def)

lemma finished_level_sorted:
  assumes "list_all2 (finished opt dbname env) outs segs" and "entries_sorted (concat segs)" and "parseable (concat segs)"
  shows "bytewise_user.level_sorted (map output_meta outs)"
  using assms
proof (induction outs segs rule: list_all2_induct)
  case Nil
  then show ?case by (simp add: bytewise_user.level_sorted_def)
next
  case (Cons out outs es segs)
  have srt: "entries_sorted es" "entries_sorted (concat segs)" using Cons.prems(1) by (simp_all add: sorted_wrt_append)
  have par: "parseable es" "parseable (concat segs)" using Cons.prems(2) by (simp_all add: parseable_def)
  have o: "es \<noteq> []" "ou_smallest out = fst (hd es)" "ou_largest out = fst (List.last es)" using Cons.hyps(1) by (simp_all add: finished_def)
  have "ikey_Compare BytewiseComparator (ou_smallest out) (ou_largest out) \<le> 0"
    using finished_range(1) [OF Cons.hyps(1) srt(1), of "List.last es"] o by simp
  moreover have "key_tag (ou_largest out) \<le> PackSequenceAndType kMaxSequenceNumber kValueTypeForSeek"
  proof -
    obtain p where "ParseInternalKey (ou_largest out) = Some p" using par(1) last_in_set [OF o(1)] unfolding o(3) parseable_def by blast
    then show ?thesis using parsed_visible [OF _ order.refl] seq_max by blast
  qed
  ultimately have wf: "bytewise_user.file_wf (output_meta out)" by (simp add: bytewise_user.file_wf_def)
  have "ikey_Compare BytewiseComparator (ou_largest out) (ou_smallest x) < 0" if x: "x \<in> set outs" for x
  proof -
    obtain i where i: "i < length outs" "x = outs ! i" using x by (metis in_set_conv_nth)
    then have f: "finished opt dbname env x (segs ! i)" and seg: "segs ! i \<in> set segs"
      using Cons.hyps(2) by (auto simp: list_all2_conv_all_nth)
    have "hd (segs ! i) \<in> set (segs ! i)" using f by (simp add: finished_def)
    then have "hd (segs ! i) \<in> set (concat segs)" using seg by (subst set_concat) blast
    moreover have "ou_smallest x = fst (hd (segs ! i))" using f by (simp add: finished_def)
    moreover have "List.last es \<in> set es" using o(1) by simp
    ultimately show ?thesis using Cons.prems(1) o(3) by (auto simp: sorted_wrt_append internal_compare)
  qed
  then show ?case using Cons.IH [OF srt(2) par(2)] wf by (auto simp: bytewise_user.level_sorted_def)
qed

text \<open>The entries of the files after the compaction.\<close>

definition new_contents :: "output_file list \<Rightarrow> (bytes \<times> bytes) list list \<Rightarrow> (u64 \<Rightarrow> (bytes \<times> bytes) list) \<Rightarrow> u64 \<Rightarrow> (bytes \<times> bytes) list" where
  "new_contents outs segs entries n = (case map_of (zip (map ou_number outs) segs) n of None \<Rightarrow> entries n | Some es \<Rightarrow> es)"

lemma new_contents_out:
  assumes "distinct (map ou_number outs)" and "length outs = length segs" and "i < length outs"
  shows "new_contents outs segs entries (ou_number (outs ! i)) = segs ! i"
proof -
  have "map_of (zip (map ou_number outs) segs) (map ou_number outs ! i) = Some (segs ! i)"
    by (rule map_of_zip_nth) (use assms in simp_all)
  then show ?thesis using assms(3) by (simp add: new_contents_def)
qed

lemma new_contents_other: "n \<notin> ou_number ` set outs \<Longrightarrow> new_contents outs segs entries n = entries n"
proof -
  assume "n \<notin> ou_number ` set outs"
  then have "map_of (zip (map ou_number outs) segs) n = None"
    using set_zip_leftD by (fastforce simp: map_of_eq_None_iff)
  then show ?thesis by (simp add: new_contents_def)
qed

lemma new_contents_concat:
  assumes "distinct (map ou_number outs)" and "length outs = length segs"
  shows "map (\<lambda>out. new_contents outs segs entries (ou_number out)) outs = segs"
  by (rule nth_equalityI) (use assms new_contents_out in simp_all)

section \<open>What a compaction relies on\<close>

text \<open>
  A user key that is split between an input of the next level and a file of that level that is left behind: its older entries stay
  below what the compaction writes. The files of the next level are not extended at their boundary, so this can happen (see
  \<open>split_key_resurrected\<close>).
\<close>

definition split_key :: "file_meta list list \<Rightarrow> compaction \<Rightarrow> bytes \<Rightarrow> bool" where
  "split_key files c u \<longleftrightarrow>
     (\<exists>a \<in> set (c_inputs1 c). \<exists>g \<in> set (files ! (c_level c + 1)) - set (c_inputs1 c). f_limit a = u \<and> f_start g = u)"

definition compactable :: "(u64 \<Rightarrow> (bytes \<times> bytes) list) \<Rightarrow> (bytes \<times> bytes) list \<Rightarrow> compaction \<Rightarrow> db \<Rightarrow> bool" where
  "compactable entries es c db \<longleftrightarrow>
     (let vs = db_versions db; files = v_files (vs_current vs) in
      layered entries files \<and> bytewise_user.compaction_ok files c \<and>
      c_input_version c = vs_current vs \<and> ve_deleted_files (c_edit c) = {} \<and> ve_new_files (c_edit c) = [] \<and>
      c_level_ptrs c = replicate kNumLevels 0 \<and>
      (\<forall>l < kNumLevels. \<forall>f \<in> set (files ! l). fm_number f < vs_next_file_number vs \<and> parseable (entries (fm_number f))) \<and>
      unat (vs_next_file_number vs) + length es < 2 ^ 64 \<and>
      set es = (\<Union>a \<in> bytewise_user.input_files c. set (entries (fm_number a))) \<and>
      (\<exists>w m. vs_descriptor vs = Some w \<and> pw_filename (lw_dest w) = DescriptorFileName (tc_dbname (db_tables db)) m) \<and>
      vs_user vs = BytewiseComparator \<and> smallest_snapshot db < kMaxSequenceNumber \<and>
      database_options (tc_options (db_tables db)) \<and> db_imm db = None \<and> \<not> db_shutting_down db)"

lemma input_levels:
  assumes "bytewise_user.compaction_ok files c" and "a \<in> bytewise_user.input_files c"
  shows "\<exists>l < kNumLevels. a \<in> set (files ! l)"
proof -
  have "c_level c < kNumLevels" "c_level c + 1 < kNumLevels" "set (c_inputs0 c) \<subseteq> set (files ! c_level c)"
    "set (c_inputs1 c) \<subseteq> set (files ! (c_level c + 1))"
    using assms(1) by (auto simp: bytewise_user.compaction_ok_def)
  then show ?thesis using assms(2) unfolding bytewise_user.input_files_def by blast
qed

lemma compactable_parse:
  assumes "compactable entries es c db"
  shows "parseable es"
proof -
  note f = assms [unfolded compactable_def Let_def]
  have ok: "bytewise_user.compaction_ok (v_files (vs_current (db_versions db))) c"
    and all: "\<forall>l < kNumLevels. \<forall>f \<in> set (v_files (vs_current (db_versions db)) ! l).
        fm_number f < vs_next_file_number (db_versions db) \<and> parseable (entries (fm_number f))"
    and eq: "set es = (\<Union>a \<in> bytewise_user.input_files c. set (entries (fm_number a)))" using f by blast+
  have "parseable (entries (fm_number a))" if "a \<in> bytewise_user.input_files c" for a
    using all input_levels [OF ok that] by blast
  moreover note eq
  ultimately show ?thesis unfolding parseable_def by blast
qed

lemma compactable_fine:
  assumes "compactable entries es c db" and "entries_sorted es"
  shows "inputs_fine db c es (smallest_snapshot db)"
proof -
  note f = assms(1) [unfolded compactable_def Let_def]
  have "bytewise_user.version_wf (v_files (c_input_version c))" using f bytewise_user.levels_okD(1) by metis
  moreover have "length es < 2 ^ 64" using f by linarith
  ultimately show ?thesis using f assms(2) compactable_parse [OF assms(1)] unfolding inputs_fine_def by blast
qed

lemma out_num_fresh:
  assumes "unat (vs_next_file_number (db_versions db)) + n < 2 ^ 64" and "i < n" and "m < vs_next_file_number (db_versions db)"
  shows "m < out_num db i"
proof -
  have i: "unat (word_of_nat i :: u64) = i" using assms(1,2) by (simp add: unat_of_nat take_bit_nat_eq_self)
  then have "unat (out_num db i) = unat (vs_next_file_number (db_versions db)) + i"
    unfolding out_num_def using assms(1,2) by (subst unat_add_lem [THEN iffD1]) simp_all
  then show ?thesis using assms(3) by (simp add: word_less_nat_alt)
qed


section \<open>Installing the outputs\<close>

text \<open>What is known of a finished compaction before its results are installed.\<close>

definition finished_compaction ::
  "(u64 \<Rightarrow> (bytes \<times> bytes) list) \<Rightarrow> (bytes \<times> bytes) list \<Rightarrow> compaction \<Rightarrow> db \<Rightarrow> (bytes \<times> bytes) list list \<Rightarrow>
   compaction_state \<Rightarrow> db \<Rightarrow> bool" where
  "finished_compaction entries es c db segs cs db1 \<longleftrightarrow>
     compactable entries es c db \<and> entries_sorted es \<and> writing db c segs [] cs db1 \<and> cs_builder cs = None \<and>
     concat segs = kept (base_key c) (smallest_snapshot db) (set es) es"

abbreviation db_files :: "db \<Rightarrow> file_meta list list" where
  "db_files db \<equiv> v_files (vs_current (db_versions db))"

abbreviation out_metas :: "compaction_state \<Rightarrow> file_meta list" where
  "out_metas cs \<equiv> map output_meta (cs_outputs cs)"

lemma fc_facts:
  assumes fc: "finished_compaction entries es c db segs cs db1"
  shows "compactable entries es c db" and "entries_sorted es" and "writing db c segs [] cs db1" and "cs_builder cs = None"
    and "concat segs = kept (base_key c) (smallest_snapshot db) (set es) es"
  using fc by (simp_all add: finished_compaction_def)

lemma ready_facts:
  assumes fc: "finished_compaction entries es c db segs cs db1"
  shows "bytewise_user.levels_ok (keys_of entries) (db_files db)" and "bytewise_user.tight (keys_of entries) (db_files db)"
    and "bytewise_user.compaction_ok (db_files db) c" and "c_input_version c = vs_current (db_versions db)"
    and "ve_deleted_files (c_edit c) = {}" and "ve_new_files (c_edit c) = []"
    and "l < kNumLevels \<Longrightarrow> f \<in> set (db_files db ! l) \<Longrightarrow> fm_number f < vs_next_file_number (db_versions db) \<and> parseable (entries (fm_number f))"
    and "unat (vs_next_file_number (db_versions db)) + length es < 2 ^ 64"
    and "set es = (\<Union>a \<in> bytewise_user.input_files c. set (entries (fm_number a)))"
    and "vs_user (db_versions db) = BytewiseComparator" and "smallest_snapshot db < kMaxSequenceNumber"
  using fc_facts(1) [OF fc] unfolding compactable_def Let_def by blast+

lemma kept_facts:
  assumes fc: "finished_compaction entries es c db segs cs db1"
  shows "set (concat segs) \<subseteq> set es" and "entries_sorted (concat segs)"
  using fc_facts(2) [OF fc] unfolding fc_facts(5) [OF fc] kept_def by (auto intro: sorted_wrt_filter)

lemma outs_finished:
  assumes fc: "finished_compaction entries es c db segs cs db1"
  shows "list_all2 (finished (tc_options (db_tables db)) (tc_dbname (db_tables db)) (db_env db1)) (cs_outputs cs) segs" and "length (cs_outputs cs) = length segs"
proof -
  show "list_all2 (finished (tc_options (db_tables db)) (tc_dbname (db_tables db)) (db_env db1)) (cs_outputs cs) segs"
    using fc_facts(3) [OF fc] by (simp add: writing_def fc_facts(4) [OF fc])
  then show "length (cs_outputs cs) = length segs" by (rule list_all2_lengthD)
qed

lemma outs_count:
  assumes fc: "finished_compaction entries es c db segs cs db1"
  shows "length (cs_outputs cs) \<le> length es"
proof -
  have "length (cs_outputs cs) \<le> length (concat segs @ [])" by (rule outputs_length [OF fc_facts(3) [OF fc]]) (simp add: fc_facts(4) [OF fc])
  also have "\<dots> \<le> length es" by (simp add: fc_facts(5) [OF fc] kept_def)
  finally show ?thesis .
qed

lemma out_numbers:
  assumes fc: "finished_compaction entries es c db segs cs db1"
  shows "i < length (cs_outputs cs) \<Longrightarrow> ou_number ((cs_outputs cs) ! i) = out_num db i"
proof -
  have "map ou_number (cs_outputs cs) = map (out_num db) [0..<length (cs_outputs cs)]" using fc_facts(3) [OF fc] by (simp add: writing_def)
  then show "i < length (cs_outputs cs) \<Longrightarrow> ou_number ((cs_outputs cs) ! i) = out_num db i" by (metis add_0 length_map nth_map nth_upt)
qed

lemma distinct_numbers:
  assumes fc: "finished_compaction entries es c db segs cs db1"
  shows "distinct (map ou_number (cs_outputs cs))"
  unfolding distinct_conv_nth
proof (intro allI impI)
  have big: "length (cs_outputs cs) < 2 ^ 64" using outs_count [OF fc] ready_facts(8) [OF fc] by simp
  fix i j assume "i < length (map ou_number (cs_outputs cs))" "j < length (map ou_number (cs_outputs cs))" "i \<noteq> j"
  then show "map ou_number (cs_outputs cs) ! i \<noteq> map ou_number (cs_outputs cs) ! j"
    using out_num_inj [of i j db] out_num_inj [of j i db] out_numbers [OF fc] big by (cases "i < j") simp_all
qed

lemma fresh_number:
  assumes fc: "finished_compaction entries es c db segs cs db1"
  shows "out \<in> set (cs_outputs cs) \<Longrightarrow> m < vs_next_file_number (db_versions db) \<Longrightarrow> m < ou_number out"
proof -
  assume "out \<in> set (cs_outputs cs)" and m: "m < vs_next_file_number (db_versions db)"
  then obtain i where i: "i < length (cs_outputs cs)" "out = (cs_outputs cs) ! i" by (metis in_set_conv_nth)
  then have "i < length es" using outs_count [OF fc] by simp
  from out_num_fresh [OF ready_facts(8) [OF fc] this m] show ?thesis using out_numbers [OF fc] i by simp
qed

lemma old_contents:
  assumes fc: "finished_compaction entries es c db segs cs db1"
  shows "l < kNumLevels \<Longrightarrow> f \<in> set (db_files db ! l) \<Longrightarrow> (new_contents (cs_outputs cs) segs entries) (fm_number f) = entries (fm_number f)"
proof (rule new_contents_other)
  assume f: "l < kNumLevels" "f \<in> set (db_files db ! l)"
  show "fm_number f \<notin> ou_number ` set (cs_outputs cs)"
  proof
    assume "fm_number f \<in> ou_number ` set (cs_outputs cs)"
    then obtain out where "out \<in> set (cs_outputs cs)" "fm_number f = ou_number out" by blast
    then show False using fresh_number [OF fc, of out "fm_number f"] ready_facts(7) [OF fc f] by simp
  qed
qed

lemma input_contents:
  assumes fc: "finished_compaction entries es c db segs cs db1"
  shows "a \<in> bytewise_user.input_files c \<Longrightarrow> (new_contents (cs_outputs cs) segs entries) (fm_number a) = entries (fm_number a)"
  using old_contents [OF fc] input_levels [OF ready_facts(3) [OF fc]] by blast

lemma out_entries:
  assumes fc: "finished_compaction entries es c db segs cs db1"
    and "out \<in> set (cs_outputs cs)"
  obtains seg where "seg \<in> set segs" and "(new_contents (cs_outputs cs) segs entries) (ou_number out) = seg"
    and "finished (tc_options (db_tables db)) (tc_dbname (db_tables db)) (db_env db1) out seg"
proof -
  obtain i where i: "i < length (cs_outputs cs)" "out = (cs_outputs cs) ! i" using assms(2) by (metis in_set_conv_nth)
  then show thesis
    using that [of "segs ! i"] new_contents_out [OF distinct_numbers [OF fc] outs_finished(2) [OF fc] i(1)] outs_finished [OF fc]
    by (auto simp: list_all2_conv_all_nth)
qed

lemma segment_facts:
  assumes fc: "finished_compaction entries es c db segs cs db1"
  shows "seg \<in> set segs \<Longrightarrow> entries_sorted seg \<and> set seg \<subseteq> set es"
proof -
  assume "seg \<in> set segs"
  then obtain xs ys where "segs = xs @ seg # ys" by (metis split_list)
  then show ?thesis using kept_facts(2) [OF fc] kept_facts(1) [OF fc] by (auto simp: sorted_wrt_append)
qed

lemma entry_input:
  assumes fc: "finished_compaction entries es c db segs cs db1"
  shows "e \<in> set es \<Longrightarrow> \<exists>a \<in> bytewise_user.input_files c. e \<in> set (entries (fm_number a)) \<and>
    ikey_Compare BytewiseComparator (fm_smallest a) (fst e) \<le> 0 \<and> ikey_Compare BytewiseComparator (fst e) (fm_largest a) \<le> 0"
proof -
  assume "e \<in> set es"
  then obtain a where a: "a \<in> bytewise_user.input_files c" "e \<in> set (entries (fm_number a))" using ready_facts(9) [OF fc] by blast
  then have "bytewise_user.holds (keys_of entries) a"
    using bytewise_user.levels_okD(4) [OF ready_facts(1) [OF fc]] input_levels [OF ready_facts(3) [OF fc]] by blast
  then show ?thesis using a unfolding bytewise_user.holds_def by blast
qed

lemma outputs_fine:
  assumes fc: "finished_compaction entries es c db segs cs db1"
  shows "bytewise_user.outputs_ok (keys_of (new_contents (cs_outputs cs) segs entries)) c (out_metas cs)"
  unfolding bytewise_user.outputs_ok_def
proof (intro conjI ballI)
  have "parseable (concat segs)" using compactable_parse [OF fc_facts(1) [OF fc]] kept_facts(1) [OF fc] unfolding parseable_def by blast
  then show "bytewise_user.level_sorted (out_metas cs)" by (rule finished_level_sorted [OF outs_finished(1) [OF fc] kept_facts(2) [OF fc]])
  show "distinct (map fm_number (out_metas cs))" using distinct_numbers [OF fc] by (simp add: comp_def)
  fix f assume "f \<in> set (out_metas cs)"
  then obtain out where out: "out \<in> set (cs_outputs cs)" "f = output_meta out" by auto
  obtain seg where seg: "seg \<in> set segs" "(new_contents (cs_outputs cs) segs entries) (ou_number out) = seg"
    "finished (tc_options (db_tables db)) (tc_dbname (db_tables db)) (db_env db1) out seg" using out_entries [OF fc out(1)] .
  have s: "entries_sorted seg" "set seg \<subseteq> set es" using segment_facts [OF fc seg(1)] by blast+
  show "bytewise_user.holds (keys_of (new_contents (cs_outputs cs) segs entries)) f"
    using finished_range [OF seg(3) s(1)] by (auto simp: bytewise_user.holds_def out(2) seg(2))
  have o: "hd seg \<in> set es" "List.last seg \<in> set es" "ou_smallest out = fst (hd seg)" "ou_largest out = fst (List.last seg)"
    using seg(3) s(2) by (auto simp: finished_def)
  show "\<exists>a \<in> bytewise_user.input_files c. ikey_Compare BytewiseComparator (fm_smallest a) (fm_smallest f) \<le> 0"
    "\<exists>b \<in> bytewise_user.input_files c. ikey_Compare BytewiseComparator (fm_largest f) (fm_largest b) \<le> 0"
    using entry_input [OF fc o(1)] entry_input [OF fc o(2)] by (auto simp: out(2) o(3,4))
  have "keys_of (new_contents (cs_outputs cs) segs entries) (fm_number f) \<subseteq> fst ` set es" using s(2) by (auto simp: out(2) seg(2))
  also have "\<dots> = (\<Union>a \<in> bytewise_user.input_files c. keys_of (new_contents (cs_outputs cs) segs entries) (fm_number a))"
    using input_contents [OF fc] by (simp add: ready_facts(9) [OF fc] image_UN)
  finally show "keys_of (new_contents (cs_outputs cs) segs entries) (fm_number f) \<subseteq> (\<Union>a \<in> bytewise_user.input_files c. keys_of (new_contents (cs_outputs cs) segs entries) (fm_number a))" .
qed

lemma new_levels:
  assumes fc: "finished_compaction entries es c db segs cs db1"
    and "ve_deleted_files e = ve_deleted_files (install_edit c (out_metas cs))" and "ve_new_files e = ve_new_files (install_edit c (out_metas cs))"
  defines "files' \<equiv> v_files (builder_SaveTo BytewiseComparator (builder_Apply BytewiseComparator e (new_Builder (vs_current (db_versions db)))))"
  shows "bytewise_user.levels_ok (keys_of (new_contents (cs_outputs cs) segs entries)) files'" and "l < kNumLevels \<Longrightarrow> set (files' ! l) = compacted (db_files db) c (out_metas cs) l"
    and "bytewise_user.tight (keys_of (new_contents (cs_outputs cs) segs entries)) files'"
proof -
  have lv: "bytewise_user.levels_ok (keys_of (new_contents (cs_outputs cs) segs entries)) (db_files db)"
    by (rule bytewise_user.levels_ok_cong [OF ready_facts(1) [OF fc]]) (use old_contents [OF fc] in simp)
  have d: "ve_deleted_files e = (\<lambda>f. (c_level c, fm_number f)) ` set (c_inputs0 c) \<union> (\<lambda>f. (c_level c + 1, fm_number f)) ` set (c_inputs1 c)"
    unfolding assms(2) by (simp add: install_edit_def add_outputs_fields AddInputDeletions_fields ready_facts(5) [OF fc])
  have n: "ve_new_files e = map (\<lambda>f. (c_level c + 1, meta_new f)) (out_metas cs)"
    unfolding assms(3) by (simp add: install_edit_def add_outputs_fields AddInputDeletions_fields ready_facts(6) [OF fc])
  have fresh: "fm_number f \<noteq> fm_number g" if "f \<in> set (out_metas cs)" "l < kNumLevels" "g \<in> set (db_files db ! l)" for f g l
    using that fresh_number [OF fc] ready_facts(7) [OF fc that(2,3)] by force
  note r = bytewise_user.install_levels_ok [OF lv ready_facts(3) [OF fc] outputs_fine [OF fc] d n]
  show "bytewise_user.levels_ok (keys_of (new_contents (cs_outputs cs) segs entries)) files'" unfolding files'_def by (rule r(1)) (use fresh in blast)+
  show sets: "set (files' ! l) = compacted (db_files db) c (out_metas cs) l" if "l < kNumLevels" for l
    unfolding files'_def by (rule r(2)) (use fresh that in blast)+
  show "bytewise_user.tight (keys_of (new_contents (cs_outputs cs) segs entries)) files'"
    unfolding bytewise_user.tight_def
  proof (intro allI impI ballI)
    fix l f assume l: "l < kNumLevels" and "f \<in> set (files' ! l)"
    then consider "f \<in> set (db_files db ! l)" | out where "out \<in> set (cs_outputs cs)" "f = installed (output_meta out)"
      using sets by (auto simp: compacted_def split: if_splits)
    then show "fm_largest f \<in> keys_of (new_contents (cs_outputs cs) segs entries) (fm_number f)"
    proof cases
      case 1
      then show ?thesis using ready_facts(2) [OF fc] l old_contents [OF fc] unfolding bytewise_user.tight_def by metis
    next
      case 2
      obtain seg where "(new_contents (cs_outputs cs) segs entries) (ou_number out) = seg"
        "finished (tc_options (db_tables db)) (tc_dbname (db_tables db)) (db_env db1) out seg" using out_entries [OF fc 2(1)] .
      then show ?thesis using 2(2) by (auto simp: finished_def)
    qed
  qed
qed

text \<open>The entries of the (db_files db) that stay.\<close>

definition staying :: "(u64 \<Rightarrow> (bytes \<times> bytes) list) \<Rightarrow> compaction \<Rightarrow> db \<Rightarrow> (bytes \<times> bytes) set" where
  "staying entries c db = (\<Union>l < kNumLevels. \<Union>f \<in> set (db_files db ! l) - bytewise_user.input_files c. set (entries (fm_number f)))"

lemma stored_before:
  assumes fc: "finished_compaction entries es c db segs cs db1"
  shows "stored_entries entries (db_files db) = set es \<union> (staying entries c db)"
proof -
  have "set (entries (fm_number a)) \<subseteq> stored_entries entries (db_files db)" if "a \<in> bytewise_user.input_files c" for a
    using input_levels [OF ready_facts(3) [OF fc] that] unfolding stored_entries_def by blast
  moreover have "(staying entries c db) \<subseteq> stored_entries entries (db_files db)" unfolding staying_def stored_entries_def by blast
  moreover have "stored_entries entries (db_files db) \<subseteq> set es \<union> (staying entries c db)" unfolding staying_def stored_entries_def ready_facts(9) [OF fc] by blast
  ultimately show ?thesis unfolding ready_facts(9) [OF fc] by blast
qed

lemma stored_after:
  assumes fc: "finished_compaction entries es c db segs cs db1"
    and "\<And>l. l < kNumLevels \<Longrightarrow> set (files' ! l) = compacted (db_files db) c (out_metas cs) l"
  shows "stored_entries (new_contents (cs_outputs cs) segs entries) files' = set (concat segs) \<union> (staying entries c db)"
proof -
  have ok: "c_level c + 1 < kNumLevels" "set (c_inputs0 c) \<subseteq> set (db_files db ! c_level c)" "set (c_inputs1 c) \<subseteq> set (db_files db ! (c_level c + 1))"
    using ready_facts(3) [OF fc] by (auto simp: bytewise_user.compaction_ok_def)
  have other: "f \<notin> bytewise_user.input_files c \<longleftrightarrow> f \<notin> set (c_inputs0 c)" if "f \<in> set (db_files db ! c_level c)" for f
    using that ok bytewise_user.levels_okD(7) [OF ready_facts(1) [OF fc], of "c_level c" "c_level c + 1" f f] unfolding bytewise_user.input_files_def by auto
  have other1: "f \<notin> bytewise_user.input_files c \<longleftrightarrow> f \<notin> set (c_inputs1 c)" if "f \<in> set (db_files db ! (c_level c + 1))" for f
    using that ok bytewise_user.levels_okD(7) [OF ready_facts(1) [OF fc], of "c_level c" "c_level c + 1" f f] unfolding bytewise_user.input_files_def by auto
  have other2: "f \<notin> bytewise_user.input_files c" if "l < kNumLevels" "f \<in> set (db_files db ! l)" "l \<noteq> c_level c" "l \<noteq> c_level c + 1" for f l
  proof
    assume "f \<in> bytewise_user.input_files c"
    then have "f \<in> set (db_files db ! c_level c) \<or> f \<in> set (db_files db ! (c_level c + 1))" using ok by (auto simp: bytewise_user.input_files_def)
    then obtain k where k: "k < kNumLevels" "f \<in> set (db_files db ! k)" "k \<noteq> l"
    proof
      assume "f \<in> set (db_files db ! c_level c)"
      then show thesis using \<open>\<And>k. k < kNumLevels \<Longrightarrow> f \<in> set (db_files db ! k) \<Longrightarrow> k \<noteq> l \<Longrightarrow> thesis\<close> [of "c_level c"] ok(1) \<open>l \<noteq> c_level c\<close> by simp
    next
      assume "f \<in> set (db_files db ! (c_level c + 1))"
      then show thesis using \<open>\<And>k. k < kNumLevels \<Longrightarrow> f \<in> set (db_files db ! k) \<Longrightarrow> k \<noteq> l \<Longrightarrow> thesis\<close> [of "c_level c + 1"] ok(1) \<open>l \<noteq> c_level c + 1\<close> by simp
    qed
    then consider "k < l" | "l < k" by linarith
    then show False
    proof cases
      case 1
      show ?thesis using bytewise_user.levels_okD(7) [OF ready_facts(1) [OF fc] 1 \<open>l < kNumLevels\<close> k(2) \<open>f \<in> set (db_files db ! l)\<close>] by simp
    next
      case 2
      show ?thesis using bytewise_user.levels_okD(7) [OF ready_facts(1) [OF fc] 2 k(1) \<open>f \<in> set (db_files db ! l)\<close> k(2)] by simp
    qed
  qed
  have comp: "compacted (db_files db) c (out_metas cs) l = (set (db_files db ! l) - bytewise_user.input_files c) \<union> (if l = c_level c + 1 then installed ` set (out_metas cs) else {})"
    if l: "l < kNumLevels" for l
    using other other1 other2 [OF l] ok(2,3) by (auto simp: compacted_def)
  have segs: "(\<Union>f \<in> installed ` set (out_metas cs). set ((new_contents (cs_outputs cs) segs entries) (fm_number f))) = set (concat segs)"
  proof -
    have "(\<Union>f \<in> installed ` set (out_metas cs). set ((new_contents (cs_outputs cs) segs entries) (fm_number f))) = \<Union> (set ` set (map (\<lambda>out. (new_contents (cs_outputs cs) segs entries) (ou_number out)) (cs_outputs cs)))" by auto
    then show ?thesis unfolding new_contents_concat [OF distinct_numbers [OF fc] outs_finished(2) [OF fc]] by simp
  qed
  let ?A = "\<lambda>l. \<Union>f \<in> set (db_files db ! l) - bytewise_user.input_files c. set (entries (fm_number f))"
  have lev: "(\<Union>f \<in> set (files' ! l). set (new_contents (cs_outputs cs) segs entries (fm_number f))) =
      ?A l \<union> (if l = c_level c + 1 then set (concat segs) else {})" if l: "l < kNumLevels" for l
  proof -
    have "(\<Union>f \<in> set (db_files db ! l) - bytewise_user.input_files c. set (new_contents (cs_outputs cs) segs entries (fm_number f))) = ?A l"
      using old_contents [OF fc l] by simp
    then show ?thesis using segs unfolding assms(2) [OF l] comp [OF l] UN_Un by (cases "l = c_level c + 1") (simp_all only: if_True if_False UN_empty refl simp_thms)
  qed
  have "stored_entries (new_contents (cs_outputs cs) segs entries) files' =
      (\<Union>l < kNumLevels. ?A l \<union> (if l = c_level c + 1 then set (concat segs) else {}))"
    unfolding stored_entries_def by (rule SUP_cong) (use lev in simp_all)
  then show ?thesis using ok(1) unfolding staying_def by (auto split: if_splits)
qed

text \<open>What stays of the user key of an obsolete deletion is newer.\<close>

lemma staying_newer:
  assumes fc: "finished_compaction entries es c db segs cs db1"
    and "e \<in> set es" and "e' \<in> (staying entries c db)" and "base_key c (ExtractUserKey (fst e))" and "ExtractUserKey (fst e') = ExtractUserKey (fst e)"
    and whole: "\<not> split_key (db_files db) c (ExtractUserKey (fst e))"
  shows "key_tag (fst e) < key_tag (fst e')"
proof -
  let ?u = "ExtractUserKey (fst e)"
  note lv = ready_facts(1) [OF fc]
  obtain a where a: "a \<in> bytewise_user.input_files c" "e \<in> set (entries (fm_number a))" using entry_input [OF fc assms(2)] by blast
  obtain l g where g: "l < kNumLevels" "g \<in> set (db_files db ! l)" "g \<notin> bytewise_user.input_files c" "e' \<in> set (entries (fm_number g))"
    using assms(3) by (auto simp: staying_def)
  have ok: "c_level c + 1 < kNumLevels" "set (c_inputs0 c) \<subseteq> set (db_files db ! c_level c)" "set (c_inputs1 c) \<subseteq> set (db_files db ! (c_level c + 1))"
    using ready_facts(3) [OF fc] by (auto simp: bytewise_user.compaction_ok_def)
  have newer: "key_tag (fst e) < key_tag (fst e')" if "bytewise_user.newer (keys_of entries (fm_number g)) (keys_of entries (fm_number a))"
    using that a(2) g(4) assms(5) unfolding bytewise_user.newer_def by (metis bytewise_eq imageI)
  have hg: "bytewise_user.holds (keys_of entries) g" by (rule bytewise_user.levels_okD(4) [OF lv g(1,2)])
  have ha: "bytewise_user.holds (keys_of entries) a"
    using bytewise_user.levels_okD(4) [OF lv] input_levels [OF ready_facts(3) [OF fc] a(1)] by blast
  have ug: "cmp_Compare BytewiseComparator (f_start g) ?u \<le> 0" "cmp_Compare BytewiseComparator ?u (f_limit g) \<le> 0"
    using hg g(4) assms(5) bytewise_user.ikey_le_user unfolding bytewise_user.holds_def by (metis imageI)+
  have ua: "cmp_Compare BytewiseComparator (f_start a) ?u \<le> 0" "cmp_Compare BytewiseComparator ?u (f_limit a) \<le> 0"
    using ha a(2) bytewise_user.ikey_le_user unfolding bytewise_user.holds_def by (metis imageI)+
  consider "l < c_level c" | "l = c_level c" | "l = c_level c + 1" | "c_level c + 2 \<le> l" by linarith
  then show ?thesis
  proof cases
    case 1
    have "a \<in> set (db_files db ! c_level c) \<or> a \<in> set (db_files db ! (c_level c + 1))" using a(1) ok by (auto simp: bytewise_user.input_files_def)
    then show ?thesis
      using newer bytewise_user.levels_okD(5) [OF lv, of l "c_level c" g a] bytewise_user.levels_okD(5) [OF lv, of l "c_level c + 1" g a] 1 ok(1) g(2)
      by fastforce
  next
    case 2
    then have "g \<in> set (db_files db ! c_level c)" "g \<notin> set (c_inputs0 c)" using g(2,3) by (auto simp: bytewise_user.input_files_def)
    from bytewise_user.remaining_newer [OF lv ready_facts(3) [OF fc] this a(1)] show ?thesis by (rule newer)
  next
    case 3
    then have g1: "g \<in> set (db_files db ! (c_level c + 1))" "g \<notin> set (c_inputs1 c)" using g(2,3) by (auto simp: bytewise_user.input_files_def)
    show ?thesis
    proof (cases "a \<in> set (c_inputs1 c)")
      case True
      have srt1: "bytewise_user.level_sorted (db_files db ! (c_level c + 1))"
        using bytewise_user.levels_okD(1) [OF lv] ok(1) by (simp add: bytewise_user.version_wf_def)
      have "a \<in> set (db_files db ! (c_level c + 1))" using True ok(3) by blast
      from bytewise_user.level_sorted_cases [OF srt1 this g1(1)] show ?thesis
      proof cases
        case 1 then show ?thesis using True g1(2) by simp
      next
        case 2
        then have "cmp_Compare BytewiseComparator (f_limit a) (f_start g) \<le> 0" by (rule bytewise_user.ikey_less_user)
        then have "f_limit a = ?u" "f_start g = ?u"
          using ua(2) ug(1) bytewise_user.user_trans bytewise_user.user_antisym bytewise_eq by metis+
        then show ?thesis using whole True g1 unfolding split_key_def by blast
      next
        case 3
        then show ?thesis using newer bytewise_user.newer_before [OF hg ha] by blast
      qed
    next
      case False
      then have a0: "a \<in> set (c_inputs0 c)" using a(1) by (auto simp: bytewise_user.input_files_def)
      let ?r = "GetRange BytewiseComparator (c_inputs0 c)"
      have rng: "bytewise_user.in_range ?r (c_inputs0 c)"
        using ready_facts(3) [OF fc] by (intro bytewise_user.GetRange_spec) (simp add: bytewise_user.compaction_ok_def)
      have "c_inputs1 c = filter (\<lambda>g. \<not> cmp_Compare BytewiseComparator (f_limit g) (ExtractUserKey (fst ?r)) < 0 \<and>
          \<not> cmp_Compare BytewiseComparator (ExtractUserKey (snd ?r)) (f_start g) < 0) (db_files db ! (c_level c + 1))"
        using ready_facts(3) [OF fc] unfolding bytewise_user.compaction_ok_def by blast
      then have "cmp_Compare BytewiseComparator (f_limit g) (ExtractUserKey (fst ?r)) < 0 \<or>
          cmp_Compare BytewiseComparator (ExtractUserKey (snd ?r)) (f_start g) < 0" using g1 by auto
      moreover have "cmp_Compare BytewiseComparator (ExtractUserKey (fst ?r)) ?u \<le> 0" "cmp_Compare BytewiseComparator ?u (ExtractUserKey (snd ?r)) \<le> 0"
        using bytewise_user.in_range_user [OF rng a0] ua bytewise_user.user_trans by blast+
      ultimately have "cmp_Compare BytewiseComparator ?u ?u < 0"
        using ug bytewise_user.user_le_less bytewise_user.user_less_le by blast
      then show ?thesis using bytewise_eq [of ?u ?u] by simp
    qed
  next
    case 4
    then have "bytewise_user.holds_key (db_files db ! l) ?u" using g(2) ug unfolding bytewise_user.holds_key_def by blast
    then show ?thesis using assms(4) 4 g(1) ready_facts(4) [OF fc] unfolding base_key_def by simp
  qed
qed

text \<open>Reads of what is above the (db_files db), and of the (db_files db), are as before.\<close>

lemma reads_kept:
  assumes fc: "finished_compaction entries es c db segs cs db1"
    and "\<And>l. l < kNumLevels \<Longrightarrow> set (files' ! l) = compacted (db_files db) c (out_metas cs) l"
    and "all_newer M (stored_entries entries (db_files db))" and "\<forall>e \<in> M. ParseInternalKey (fst e) \<noteq> None"
    and "smallest_snapshot db \<le> q" and "q \<le> kMaxSequenceNumber" and "newest (M \<union> stored_entries entries (db_files db)) u q r"
    and whole: "\<not> split_key (db_files db) c u"
  shows "\<exists>r'. newest (M \<union> stored_entries (new_contents (cs_outputs cs) segs entries) files') u q r' \<and> read_entry r' = read_entry r"
proof -
  have after: "stored_entries (new_contents (cs_outputs cs) segs entries) files' = set (concat segs) \<union> (staying entries c db)" by (rule stored_after [OF fc]) (rule assms(2))
  have k: "set (concat segs) = {e \<in> set es. \<not> dropped (base_key c) (smallest_snapshot db) (set es) e}"
    unfolding fc_facts(5) [OF fc] by (auto simp: kept_def)
  have stay: "\<forall>e \<in> (staying entries c db). ParseInternalKey (fst e) \<noteq> None"
    using ready_facts(7) [OF fc] unfolding staying_def parseable_def by blast
  have E: "M \<union> stored_entries entries (db_files db) = set es \<union> ((staying entries c db) \<union> M)" "M \<union> stored_entries (new_contents (cs_outputs cs) segs entries) files' =
      {e \<in> set es. \<not> dropped (base_key c) (smallest_snapshot db) (set es) e} \<union> ((staying entries c db) \<union> M)"
    unfolding stored_before [OF fc] after k by blast+
  have parse: "\<forall>e \<in> set es \<union> ((staying entries c db) \<union> M). ParseInternalKey (fst e) \<noteq> None"
    using compactable_parse [OF fc_facts(1) [OF fc]] stay assms(4) unfolding parseable_def by blast
  have newer: "key_tag (fst e) < key_tag (fst e')"
    if "e \<in> set es" "e' \<in> (staying entries c db) \<union> M" "base_key c u" "ExtractUserKey (fst e) = u" "ExtractUserKey (fst e') = u" for e e'
  proof (cases "e' \<in> M")
    case True
    have "e \<in> stored_entries entries (db_files db)" unfolding stored_before [OF fc] using that(1) by blast
    then show ?thesis using True assms(3) that(4,5) unfolding all_newer_def by metis
  next
    case False
    then show ?thesis using staying_newer [OF fc, of e e'] that whole by auto
  qed
  show ?thesis
    unfolding E(2) by (rule kept_reads [OF parse assms(5,6) newer]) (assumption+, rule assms(7) [unfolded E(1)])
qed


section \<open>Seeks that were charged meanwhile\<close>

lemma fold_MaybeAdd_metas: "map meta_new (fold (MaybeAddFile d) fs files) = fold (MaybeAddFile d) (map meta_new fs) (map meta_new files)"
  by (simp add: fold_MaybeAddFile filter_map o_def)

lemma BySmallestKey_metas [simp]: "BySmallestKey user (meta_new f) (meta_new g) = BySmallestKey user f g"
  by (simp add: BySmallestKey_def)

lemma save_level_metas:
  "map meta_new (save_level user d base added files) = save_level user d (map meta_new base) (map meta_new added) (map meta_new files)"
proof (induction user d base added files rule: save_level.induct)
  case (1 user d base files)
  then show ?case by (simp add: fold_MaybeAdd_metas)
next
  case (2 user d base f fs files)
  have t: "takeWhile (\<lambda>g. \<not> BySmallestKey user (meta_new f) g) (map meta_new base) = map meta_new (takeWhile (\<lambda>g. \<not> BySmallestKey user f g) base)"
    by (simp add: takeWhile_map o_def)
  have m: "map meta_new (MaybeAddFile d f files) = MaybeAddFile d (meta_new f) (map meta_new files)" for files
    by (simp add: MaybeAddFile_def)
  show ?case using 2 by (simp add: Let_def t m fold_MaybeAdd_metas drop_map)
qed

lemma builder_Apply_base:
  "builder_Apply user e (b\<lparr>b_base := base\<rparr>) = (builder_Apply user e b)\<lparr>b_base := base\<rparr>"
proof -
  have one: "builder_add user p (b\<lparr>b_base := base\<rparr>) = (builder_add user p b)\<lparr>b_base := base\<rparr>" for p b
    by (simp add: builder_add_def Let_def case_prod_unfold)
  have add: "fold (builder_add user) fs (b\<lparr>b_base := base\<rparr>) = (fold (builder_add user) fs b)\<lparr>b_base := base\<rparr>" for fs b
    by (induction fs arbitrary: b) (simp_all only: fold_simps one)
  have "builder_delete ds (b\<lparr>b_base := base\<rparr>) = (builder_delete ds b)\<lparr>b_base := base\<rparr>" for ds b
    by (simp add: builder_delete_def)
  then show ?thesis by (simp add: builder_Apply_def add)
qed

lemma SaveTo_metas:
  assumes "same_metas v v'" and "length (v_files v') = kNumLevels"
  shows "map (map meta_new) (v_files (builder_SaveTo user (builder_Apply user e (new_Builder v)))) =
    map (map meta_new) (v_files (builder_SaveTo user (builder_Apply user e (new_Builder v'))))"
proof -
  let ?b = "builder_Apply user e (new_Builder v)"
  have same: "map (map meta_new) (v_files v) = map (map meta_new) (v_files v')" using assms(1) by (simp add: same_metas_def)
  then have "length (v_files v) = kNumLevels" using assms(2) by (metis length_map)
  then have "map meta_new (v_files v ! l) = map meta_new (v_files v' ! l)" if "l < kNumLevels" for l
    using same that assms(2) by (metis nth_map)
  moreover have "new_Builder v' = (new_Builder v)\<lparr>b_base := v_files v'\<rparr>" by (simp add: new_Builder_def)
  then have "builder_Apply user e (new_Builder v') = ?b\<lparr>b_base := v_files v'\<rparr>" by (simp add: builder_Apply_base)
  moreover have "?b\<lparr>b_base := v_files v\<rparr> = ?b" by (metis builder_Apply_base new_Builder_def builder.update_convs(1))
  then have "b_base ?b = v_files v" by (metis builder.select_convs(1) builder.surjective builder.update_convs(1))
  ultimately show ?thesis by (simp add: builder_SaveTo_def save_level_metas)
qed

lemma metas_level:
  assumes "map (map meta_new) files = map (map meta_new) files'" and "length files = kNumLevels" and "l < kNumLevels"
  shows "map meta_new (files ! l) = map meta_new (files' ! l)" and "meta_new ` set (files ! l) = meta_new ` set (files' ! l)"
proof -
  have "length files' = kNumLevels" using assms(1,2) by (metis length_map)
  then show "map meta_new (files ! l) = map meta_new (files' ! l)" using assms by (metis nth_map)
  then show "meta_new ` set (files ! l) = meta_new ` set (files' ! l)" by (metis set_map)
qed

lemma stored_metas:
  assumes "map (map meta_new) files = map (map meta_new) files'" and "length files = kNumLevels"
  shows "stored_entries entries files = stored_entries entries files'"
proof -
  have "(\<Union>f \<in> set (files ! l). set (entries (fm_number f))) = (\<Union>f \<in> meta_new ` set (files ! l). set (entries (fm_number f)))" for files l by simp
  then have "(\<Union>f \<in> set (files ! l). set (entries (fm_number f))) = (\<Union>f \<in> set (files' ! l). set (entries (fm_number f)))" if "l < kNumLevels" for l
    using metas_level(2) [OF assms that] by metis
  then show ?thesis unfolding stored_entries_def by simp
qed

context user_comparator
begin

lemma level_sorted_metas: "map meta_new fs = map meta_new gs \<Longrightarrow> level_sorted fs \<longleftrightarrow> level_sorted gs"
proof -
  assume m: "map meta_new fs = map meta_new gs"
  have "level_sorted xs \<longleftrightarrow> level_sorted (map meta_new xs)" for xs
    by (simp add: level_sorted_def sorted_wrt_map)
  then show ?thesis using m by metis
qed

lemma key_sorted_metas: "map meta_new fs = map meta_new gs \<Longrightarrow> key_sorted fs \<longleftrightarrow> key_sorted gs"
proof -
  assume m: "map meta_new fs = map meta_new gs"
  have "key_sorted xs \<longleftrightarrow> key_sorted (map meta_new xs)" for xs
    by (simp add: key_sorted_def sorted_wrt_map)
  then show ?thesis using m by metis
qed

lemma distinct_metas:
  assumes "map meta_new fs = map meta_new gs" and "distinct fs \<and> inj_on fm_number (set fs)"
  shows "distinct gs \<and> inj_on fm_number (set gs)"
proof -
  have "map fm_number (map meta_new fs) = map fm_number (map meta_new gs)" using assms(1) by simp
  then have "map fm_number fs = map fm_number gs" by (simp add: o_def)
  then show ?thesis using assms(2) by (metis distinct_map)
qed

lemma levels_ok_metas:
  assumes "map (map meta_new) files = map (map meta_new) files'" and "levels_ok keys files"
  shows "levels_ok keys files'"
proof -
  note d = levels_okD [OF assms(2)]
  have len: "length files = kNumLevels" using d(1) by (simp add: version_wf_def)
  then have len': "length files' = kNumLevels" using assms(1) by (metis length_map)
  note m = metas_level [OF assms(1) len]
  have like: "\<exists>g \<in> set (files ! l). fm_number g = fm_number f \<and> holds keys g = holds keys f \<and> file_wf g = file_wf f"
    if l: "l < kNumLevels" "f \<in> set (files' ! l)" for l f
  proof -
    obtain g where "g \<in> set (files ! l)" "meta_new g = meta_new f" using m(2) [OF l(1)] l(2) by (metis imageE imageI)
    then show ?thesis by (metis file_wf_prepared(2) holds_prepared(2) meta_new_simps(1))
  qed
  have z: "0 < kNumLevels" by (simp add: kNumLevels_def)
  have "version_wf files'"
    using d(1) len' like [OF z] level_sorted_metas [OF m(1)] unfolding version_wf_def by metis
  moreover have "key_sorted (files' ! l) \<and> distinct (files' ! l) \<and> inj_on fm_number (set (files' ! l))" if l: "l < kNumLevels" for l
    using key_sorted_metas [OF m(1) [OF l]] distinct_metas [OF m(1) [OF l]] d(2,3) [OF l] by blast
  moreover have "fm_number f \<noteq> fm_number g \<and> newer (keys (fm_number f)) (keys (fm_number g))"
    if ij: "i < j" "j < kNumLevels" "f \<in> set (files' ! i)" "g \<in> set (files' ! j)" for i j f g
  proof -
    have "i < kNumLevels" using ij by simp
    then show ?thesis using like [OF _ ij(3)] like [OF ij(2,4)] d(5,7) [OF ij(1,2)] by metis
  qed
  moreover have "holds keys f" if "l < kNumLevels" "f \<in> set (files' ! l)" for l f
    using like [OF that] d(4) [OF that(1)] by metis
  moreover have "newer (keys (fm_number f)) (keys (fm_number g))"
    if "f \<in> set (files' ! 0)" "g \<in> set (files' ! 0)" "fm_number g < fm_number f" for f g
    using like [OF z that(1)] like [OF z that(2)] d(6) that(3) by metis
  ultimately show ?thesis unfolding levels_ok_def by blast
qed

end

lemma layered_metas:
  assumes "map (map meta_new) files = map (map meta_new) files'" and "layered entries files"
  shows "layered entries files'"
proof -
  have len: "length files = kNumLevels"
    using bytewise_user.levels_okD(1) [OF conjunct1 [OF assms(2)]] by (simp add: bytewise_user.version_wf_def)
  have "fm_largest f \<in> keys_of entries (fm_number f)" if l: "l < kNumLevels" "f \<in> set (files' ! l)" for l f
  proof -
    obtain g where "g \<in> set (files ! l)" "meta_new g = meta_new f"
      using metas_level(2) [OF assms(1) len l(1)] l(2) by (metis imageE imageI)
    then show ?thesis using assms(2) l(1) unfolding bytewise_user.tight_def by (metis meta_new_simps(1,3))
  qed
  then show ?thesis using bytewise_user.levels_ok_metas [OF assms(1) conjunct1 [OF assms(2)]] unfolding bytewise_user.tight_def by blast
qed

section \<open>The whole work\<close>

lemma Table_not_Descriptor: "TableFileName dbname n \<noteq> DescriptorFileName dbname m"
proof -
  have "List.hd (pad6 n @ bytes_of ''.ldb'') \<noteq> 77" using pad6_hd(2) [of n "bytes_of ''.ldb''"] by (auto simp: is_digit_def)
  moreover have "pad6 n \<noteq> []" by (rule pad6_hd(1))
  ultimately show ?thesis
    by (cases "pad6 n") (auto simp: DescriptorFileName_def TableFileName_def MakeFileName_def bytes_of_def)
qed

lemma InstallCompactionResults_OK:
  assumes user: "vs_user (db_versions db1) = BytewiseComparator" and w: "vs_descriptor (db_versions db1) = Some w"
    and inst: "InstallCompactionResults cs1 db1 = (OK, cs', db')"
  obtains e where "ve_deleted_files e = ve_deleted_files (install_edit (cs_compaction cs1) (out_metas cs1))"
    and "ve_new_files e = ve_new_files (install_edit (cs_compaction cs1) (out_metas cs1))"
    and "db_files db' = v_files (builder_SaveTo BytewiseComparator (builder_Apply BytewiseComparator e (new_Builder (vs_current (db_versions db1)))))"
    and "cs_outputs cs' = cs_outputs cs1" and "\<And>f. f \<noteq> pw_filename (lw_dest w) \<Longrightarrow> pe_files (db_env db') f = pe_files (db_env db1) f"
proof -
  let ?vs = "db_versions db1"
  let ?e = "install_edit (cs_compaction cs1) (out_metas cs1)"
  obtain s w' env' where wm: "write_manifest (complete_edit ?e ?vs) w (db_env db1) = (s, w', env')" by (metis prod_cases3)
  note la = bytewise_user.LogAndApply_open [OF user w wm]
  have s: "s = OK" and out: "cs_outputs cs' = cs_outputs cs1" using inst la by (auto simp: InstallCompactionResults_def db_LogAndApply_def Let_def)
  have "db' = db_set_env env' (db1\<lparr>db_versions := bytewise_user.installed_version (complete_edit ?e ?vs) ?vs
      ((bytewise_user.with_pointers (complete_edit ?e ?vs) ?vs)\<lparr>vs_descriptor := Some w'\<rparr>)\<rparr>)"
    using inst la s by (simp add: InstallCompactionResults_def db_LogAndApply_def Let_def ok_def)
  then have "vs_current (db_versions db') = bytewise_user.next_version (complete_edit ?e ?vs) ?vs" "db_env db' = env'"
    by (simp_all add: db_set_env_def bytewise_user.installed_version_fields)
  moreover have "ve_deleted_files (complete_edit ?e ?vs) = ve_deleted_files ?e" "ve_new_files (complete_edit ?e ?vs) = ve_new_files ?e"
    by (simp_all add: complete_edit_def Let_def SetLogNumber_def SetPrevLogNumber_def SetNextFile_def SetLastSequence_def)
  ultimately show thesis using that [of "complete_edit ?e ?vs"] out write_manifest_files [OF wm]
    by (simp add: bytewise_user.next_version_def bytewise_user.Finalize_files)
qed

lemma DoCompactionWork_keeps:
  assumes it: "sorted_iterator (cmp_Compare bytewise_internal) internal_key ops rep" "rep input es p"
    and ready: "compactable entries es c db" and others: "\<forall>other \<in> set others. quiet other"
    and run: "DoCompactionWork ops readdir others input (new_CompactionState c) db = Some (OK, cs', db')"
    and M: "all_newer M (stored_entries entries (db_files db))" "\<forall>e \<in> M. ParseInternalKey (fst e) \<noteq> None"
  shows "\<exists>entries'. (\<forall>n < vs_next_file_number (db_versions db). entries' n = entries n) \<and> layered entries' (db_files db') \<and>
    (\<forall>l < kNumLevels. meta_new ` set (db_files db' ! l) = meta_new ` compacted (db_files db) c (out_metas cs') l) \<and>
    concat (map (\<lambda>out. entries' (ou_number out)) (cs_outputs cs')) = kept (base_key c) (smallest_snapshot db) (set es) es \<and>
    (\<forall>out \<in> set (cs_outputs cs'). stored_table (tc_options (db_tables db)) (tc_dbname (db_tables db)) (db_env db') out (entries' (ou_number out))) \<and>
    (\<forall>u q r. smallest_snapshot db \<le> q \<longrightarrow> q \<le> kMaxSequenceNumber \<longrightarrow> newest (M \<union> stored_entries entries (db_files db)) u q r \<longrightarrow>
      \<not> split_key (db_files db) c u \<longrightarrow>
      (\<exists>r'. newest (M \<union> stored_entries entries' (db_files db')) u q r' \<and> read_entry r' = read_entry r))"
proof -
  have srt: "entries_sorted es" using sorted_iterator.rep_sorted [OF it] .
  note f = ready [unfolded compactable_def Let_def]
  have idle: "db_imm db = None" "\<not> db_shutting_down db" "c_level_ptrs c = replicate kNumLevels 0" using f by blast+
  obtain segs cs1 db1 where d: "writing db c segs [] cs1 db1" "cs_builder cs1 = None"
    "concat segs = kept (base_key c) (smallest_snapshot db) (set es) es" "InstallCompactionResults cs1 db1 = (OK, cs', db')"
    by (rule DoCompactionWork_OK [OF it compactable_fine [OF ready srt] idle(1,2) others idle(3) run])
  have fc: "finished_compaction entries es c db segs cs1 db1" using ready srt d by (simp add: finished_compaction_def)
  obtain w m where w: "vs_descriptor (db_versions db) = Some w" "pw_filename (lw_dest w) = DescriptorFileName (tc_dbname (db_tables db)) m"
    using f by blast
  have vs1: "vs_user (db_versions db1) = BytewiseComparator" "vs_descriptor (db_versions db1) = Some w" "same_metas (vs_current (db_versions db1)) (vs_current (db_versions db))"
    using d(1) w(1) ready_facts(10) [OF fc] by (auto simp: writing_def worked_def)
  obtain e where e: "ve_deleted_files e = ve_deleted_files (install_edit (cs_compaction cs1) (out_metas cs1))"
    "ve_new_files e = ve_new_files (install_edit (cs_compaction cs1) (out_metas cs1))"
    "db_files db' = v_files (builder_SaveTo BytewiseComparator (builder_Apply BytewiseComparator e (new_Builder (vs_current (db_versions db1)))))"
    "cs_outputs cs' = cs_outputs cs1" "\<And>f. f \<noteq> pw_filename (lw_dest w) \<Longrightarrow> pe_files (db_env db') f = pe_files (db_env db1) f"
    using InstallCompactionResults_OK [OF vs1(1,2) d(4)] by blast
  have "same_work c (cs_compaction cs1)" using d(1) by (simp add: writing_def)
  then have same: "install_edit (cs_compaction cs1) (out_metas cs1) = install_edit c (out_metas cs1)"
    by (simp add: same_work_def install_edit_def AddInputDeletions_def)
  define files where "files = v_files (builder_SaveTo BytewiseComparator (builder_Apply BytewiseComparator e (new_Builder (vs_current (db_versions db)))))"
  note new = new_levels [OF fc e(1,2) [unfolded same], folded files_def]
  have old_len: "length (db_files db) = kNumLevels"
    using bytewise_user.levels_okD(1) [OF ready_facts(1) [OF fc]] by (simp add: bytewise_user.version_wf_def)
  have metas: "map (map meta_new) files = map (map meta_new) (db_files db')"
    unfolding e(3) files_def by (rule SaveTo_metas [OF vs1(3) old_len, symmetric])
  have len: "length files = kNumLevels" by (simp add: files_def builder_SaveTo_def)
  have sets: "meta_new ` set (db_files db' ! l) = meta_new ` compacted (db_files db) c (out_metas cs1) l" if "l < kNumLevels" for l
    using metas_level(2) [OF metas len that] new(2) [OF that] by simp
  let ?entries = "new_contents (cs_outputs cs1) segs entries"
  have old: "?entries n = entries n" if "n < vs_next_file_number (db_versions db)" for n
    by (rule new_contents_other) (use fresh_number [OF fc _ that] in force)
  have stored: "stored_table (tc_options (db_tables db)) (tc_dbname (db_tables db)) (db_env db') out (?entries (ou_number out))"
    if out: "out \<in> set (cs_outputs cs1)" for out
  proof -
    obtain seg where "?entries (ou_number out) = seg"
      "finished (tc_options (db_tables db)) (tc_dbname (db_tables db)) (db_env db1) out seg" using out_entries [OF fc out] by blast
    then show ?thesis using e(5) w(2) Table_not_Descriptor unfolding finished_def stored_table_def by metis
  qed
  have reads: "\<exists>r'. newest (M \<union> stored_entries ?entries (db_files db')) u q r' \<and> read_entry r' = read_entry r"
    if "smallest_snapshot db \<le> q" "q \<le> kMaxSequenceNumber" "newest (M \<union> stored_entries entries (db_files db)) u q r"
      "\<not> split_key (db_files db) c u" for u q r
    unfolding stored_metas [OF metas len, symmetric] by (rule reads_kept [OF fc new(2) M that])
  have lay: "layered ?entries (db_files db')"
    by (rule layered_metas [OF metas]) (use new(1,3) in blast)
  have K: "concat (map (\<lambda>out. ?entries (ou_number out)) (cs_outputs cs1)) = kept (base_key c) (smallest_snapshot db) (set es) es"
    unfolding new_contents_concat [OF distinct_numbers [OF fc] outs_finished(2) [OF fc]] by (rule d(3))
  show ?thesis
    by (rule exI [of _ ?entries]) (use old lay sets stored reads K in \<open>simp add: e(4)\<close>)
qed

end
