(* ===== verification/CompactionReads.thy ===== *)
theory CompactionReads
  imports Compacted
begin

text \<open>
  The compaction of a small database, a compaction after which a deleted value comes back, and the property of compactions: reads stay
  as they are.
\<close>

section \<open>A database whose only key is deleted\<close>

definition gone_entries :: "(bytes \<times> bytes) list" where
  "gone_entries = [(InternalKey [5] 7 kTypeDeletion, []), (InternalKey [5] 3 kTypeValue, [1])]"

definition gone_contents :: "u64 \<Rightarrow> (bytes \<times> bytes) list" where
  "gone_contents n = (if n = 7 then gone_entries else [])"

definition gone_file :: file_meta where
  "gone_file = \<lparr>fm_refs = 1, fm_allowed_seeks = 100, fm_number = 7, fm_file_size = 200,
     fm_smallest = InternalKey [5] 7 kTypeDeletion, fm_largest = InternalKey [5] 3 kTypeValue\<rparr>"

definition gone_files :: "file_meta list list" where
  "gone_files = [[], [gone_file], [], [], [], [], []]"

definition gone_writable :: posix_writable where
  "gone_writable = new_posix_writable (DescriptorFileName [100] 2) \<lparr>fd_data = [], fd_answers = []\<rparr> \<lparr>fd_data = [], fd_answers = []\<rparr>"

definition gone_db :: db where
  "gone_db = demo_db\<lparr>db_versions := (db_versions demo_db)\<lparr>vs_next_file_number := 9, vs_current := new_Version\<lparr>v_files := gone_files\<rparr>,
     vs_descriptor := Some (new_log_writer gone_writable 0)\<rparr>\<rparr>"

definition gone_compaction :: compaction where
  "gone_compaction = (new_Compaction (db_versions gone_db) 1)\<lparr>c_inputs0 := [gone_file]\<rparr>"

lemma gone_level: "l < kNumLevels \<Longrightarrow> gone_files ! l = (if l = 1 then [gone_file] else [])"
  by (auto simp: gone_files_def kNumLevels_def less_Suc_eq numeral_nat)

lemma gone_keys:
  "ParseInternalKey (InternalKey [5] 7 kTypeDeletion) = Some \<lparr>pik_user_key = [5], pik_sequence = 7, pik_type = kTypeDeletion\<rparr>"
  "ParseInternalKey (InternalKey [5] 3 kTypeValue) = Some \<lparr>pik_user_key = [5], pik_sequence = 3, pik_type = kTypeValue\<rparr>"
  "PackSequenceAndType 7 kTypeDeletion = 0x700" "PackSequenceAndType 3 kTypeValue = 0x301"
  by (simp_all add: Parse_InternalKey kMaxSequenceNumber_def PackSequenceAndType_def type_code_def)

lemma gone_sorted: "entries_sorted gone_entries"
  by (simp add: gone_entries_def internal_compare bytewise_user.ikey_Compare_less gone_keys bytewise_eq)

lemma gone_number: "fm_number gone_file = 7" "fm_largest gone_file = InternalKey [5] 3 kTypeValue"
  "fm_smallest gone_file = InternalKey [5] 7 kTypeDeletion"
  by (simp_all add: gone_file_def)

lemma gone_layered: "layered gone_contents gone_files"
proof -
  have wf: "bytewise_user.file_wf gone_file"
    by (simp add: bytewise_user.file_wf_def gone_number gone_keys bytewise_user.ikey_Compare_le bytewise_eq PackSequenceAndType_def
        kMaxSequenceNumber_def kValueTypeForSeek_def type_code_def)
  have h: "bytewise_user.holds (keys_of gone_contents) gone_file"
    by (auto simp: bytewise_user.holds_def gone_number gone_contents_def gone_entries_def bytewise_user.ikey_Compare_le bytewise_eq gone_keys)
  have z: "0 < kNumLevels" "length gone_files = kNumLevels" by (simp_all add: kNumLevels_def gone_files_def)
  have "bytewise_user.levels_ok (keys_of gone_contents) gone_files"
    unfolding bytewise_user.levels_ok_def bytewise_user.version_wf_def bytewise_user.level_sorted_def bytewise_user.key_sorted_def
    using wf h z by (auto simp: gone_level split: if_splits)
  moreover have "bytewise_user.tight (keys_of gone_contents) gone_files"
    by (auto simp: bytewise_user.tight_def gone_level gone_contents_def gone_number gone_entries_def image_iff split: if_splits)
  ultimately show ?thesis ..
qed

lemma gone_state:
  "db_files gone_db = gone_files" "db_imm gone_db = None" "\<not> db_shutting_down gone_db" "smallest_snapshot gone_db = 8"
  "vs_user (db_versions gone_db) = BytewiseComparator" "vs_next_file_number (db_versions gone_db) = 9"
  "tc_dbname (db_tables gone_db) = [100]" "tc_options (db_tables gone_db) = demo_options"
  "vs_descriptor (db_versions gone_db) = Some (new_log_writer gone_writable 0)" "db_bg_error gone_db = OK"
  by (simp_all add: gone_db_def demo_db_def smallest_snapshot_def new_VersionSet_def new_TableCache_def)

lemma gone_work:
  "c_level gone_compaction = 1" "c_inputs0 gone_compaction = [gone_file]" "c_inputs1 gone_compaction = []" "c_grandparents gone_compaction = []"
  "c_input_version gone_compaction = vs_current (db_versions gone_db)" "c_edit gone_compaction = new_VersionEdit"
  "c_level_ptrs gone_compaction = replicate kNumLevels 0" "c_overlapped_bytes gone_compaction = 0"
  by (simp_all add: gone_compaction_def new_Compaction_def)

lemma gone_compactable: "compactable gone_contents gone_entries gone_compaction gone_db"
proof -
  have "bytewise_user.compaction_ok gone_files gone_compaction"
    by (simp add: bytewise_user.compaction_ok_def gone_work kNumLevels_def gone_files_def)
  moreover have "parseable gone_entries" by (simp add: parseable_def gone_entries_def gone_keys)
  moreover have "\<exists>w m. vs_descriptor (db_versions gone_db) = Some w \<and> pw_filename (lw_dest w) = DescriptorFileName [100] m"
    by (rule exI [of _ "new_log_writer gone_writable 0"], rule exI [of _ 2])
      (simp add: gone_state new_log_writer_def gone_writable_def new_posix_writable_def)
  moreover have "set gone_entries = (\<Union>a \<in> bytewise_user.input_files gone_compaction. set (gone_contents (fm_number a)))"
    by (simp add: bytewise_user.input_files_def gone_work gone_contents_def gone_number)
  moreover have "length gone_entries = 2" by (simp add: gone_entries_def)
  ultimately show ?thesis
    unfolding compactable_def Let_def gone_state(1,4-8)
    using gone_layered gone_state demo_database
    by (auto simp: gone_work gone_level gone_number gone_contents_def new_VersionEdit_def ve_Clear_def kMaxSequenceNumber_def split: if_splits)
qed

text \<open>The work on it: both entries are dropped, and the new version is installed.\<close>

lemma gone_stop:
  assumes "c_grandparents c = []" and "c_overlapped_bytes c = 0"
  shows "ShouldStopBefore (db_versions gone_db) k c = (False, c\<lparr>c_seen_key := True\<rparr>)"
  using assms by (simp add: ShouldStopBefore_def ShouldStopBefore_loop.simps MaxGrandParentOverlapBytes_def gone_db_def demo_db_def
      new_VersionSet_def TargetFileSize_def)

lemma base_level_empty: "\<forall>l \<in> set lvls. files ! l = [] \<Longrightarrow> fst (IsBaseLevelForKey_loop user k files lvls ptrs)"
proof (induction lvls arbitrary: ptrs)
  case (Cons l lvls)
  then show ?case by (simp add: Let_def)
qed simp

lemma gone_base:
  assumes "c_input_version c = vs_current (db_versions gone_db)" and "c_level c = 1"
  shows "\<exists>ptrs. IsBaseLevelForKey BytewiseComparator k c = (True, c\<lparr>c_level_ptrs := ptrs\<rparr>)"
proof -
  have "fst (IsBaseLevelForKey_loop BytewiseComparator k gone_files [3..<kNumLevels] (c_level_ptrs c))"
    by (rule base_level_empty) (simp add: gone_level)
  then show ?thesis using assms by (auto simp: IsBaseLevelForKey_def gone_state numeral_3_eq_3 split: prod.splits)
qed

text \<open>The first entry is an obsolete deletion.\<close>

lemma gone_drop_deletion:
  assumes "c_input_version c = vs_current (db_versions gone_db)" and "c_level c = 1"
  shows "\<exists>ptrs. drop_entry BytewiseComparator 8 (InternalKey [5] 7 kTypeDeletion) new_drop_state c =
    (True, \<lparr>dr_user_key = Some [5], dr_last_sequence = 7\<rparr>, c\<lparr>c_level_ptrs := ptrs\<rparr>)"
  using gone_base [OF assms, of "[5]"]
  by (auto simp: drop_entry_def gone_keys new_drop_state_def kMaxSequenceNumber_def)

text \<open>The second one is hidden by it.\<close>

lemma gone_drop_value:
  "drop_entry BytewiseComparator 8 (InternalKey [5] 3 kTypeValue) \<lparr>dr_user_key = Some [5], dr_last_sequence = 7\<rparr> c =
    (True, \<lparr>dr_user_key = Some [5], dr_last_sequence = 3\<rparr>, c)"
  by (simp add: drop_entry_def gone_keys bytewise_eq)

lemma gone_loop:
  fixes ops :: "'i iter_ops"
  assumes it: "sorted_iterator (cmp_Compare bytewise_internal) internal_key ops rep" "rep i gone_entries p"
  shows "\<exists>i' c. compact_loop ops readdir [] (it_SeekToFirst ops i) (new_drop_state, (new_CompactionState gone_compaction)\<lparr>cs_smallest_snapshot := 8\<rparr>, gone_db) =
    Some (OK, i', (new_CompactionState c)\<lparr>cs_smallest_snapshot := 8\<rparr>, gone_db) \<and> it_status ops i' = OK \<and> c_edit c = new_VersionEdit"
proof -
  let ?i0 = "it_SeekToFirst ops i"
  let ?i1 = "it_Next ops ?i0"
  let ?i2 = "it_Next ops ?i1"
  have n: "length gone_entries = 2" by (simp add: gone_entries_def)
  note r0 = sorted_iterator.SeekToFirst_rep [OF it]
  note r1 = sorted_iterator.Next_rep [OF it(1) r0, unfolded n, simplified]
  note r2 = sorted_iterator.Next_rep [OF it(1) r1, unfolded n, simplified]
  have v: "it_Valid ops ?i0" "it_Valid ops ?i1" "\<not> it_Valid ops ?i2"
    using sorted_iterator.Valid_rep [OF it(1)] r0 r1 r2 n by fastforce+
  have k: "it_key ops ?i0 = InternalKey [5] 7 kTypeDeletion" "it_key ops ?i1 = InternalKey [5] 3 kTypeValue"
    using sorted_iterator.key_rep [OF it(1) r0] sorted_iterator.key_rep [OF it(1) r1] n by (simp_all add: gone_entries_def)
  have s: "it_status ops ?i2 = OK" by (rule sorted_iterator.status_rep [OF it(1) r2])
  let ?cs = "\<lambda>c. (new_CompactionState c)\<lparr>cs_smallest_snapshot := 8\<rparr>"
  let ?c0 = "gone_compaction\<lparr>c_seen_key := True\<rparr>"
  let ?d1 = "\<lparr>dr_user_key = Some [5], dr_last_sequence = 7\<rparr>"
  let ?d2 = "\<lparr>dr_user_key = Some [5], dr_last_sequence = 3\<rparr>"
  obtain ptrs where dr: "drop_entry BytewiseComparator 8 (InternalKey [5] 7 kTypeDeletion) new_drop_state ?c0 = (True, ?d1, ?c0\<lparr>c_level_ptrs := ptrs\<rparr>)"
    using gone_drop_deletion [of ?c0] gone_work by auto
  let ?c1 = "?c0\<lparr>c_level_ptrs := ptrs\<rparr>"
  have st: "ShouldStopBefore (db_versions gone_db) k gone_compaction = (False, ?c0)" for k
    by (rule gone_stop) (simp_all add: gone_work)
  have st1: "ShouldStopBefore (db_versions gone_db) k ?c1 = (False, ?c1)" for k
    using gone_stop [of ?c1 k] by (simp add: gone_work)
  have e: "compact_entry OK (InternalKey [5] 7 kTypeDeletion) val (new_drop_state, ?cs gone_compaction, gone_db) = Some (OK, ?d1, ?cs ?c1, gone_db)"
    "compact_entry OK (InternalKey [5] 3 kTypeValue) val (?d1, ?cs ?c1, gone_db) = Some (OK, ?d2, ?cs ?c1, gone_db)" for val
    by (simp_all add: compact_entry_def st st1 new_CompactionState_def dr gone_drop_value gone_state)
  have ss: "it_status ops ?i0 = OK" "it_status ops ?i1 = OK"
    by (rule sorted_iterator.status_rep [OF it(1) r0], rule sorted_iterator.status_rep [OF it(1) r1])
  have l: "compact_loop ops readdir [] ?i2 (?d2, ?cs ?c1, gone_db) = Some (OK, ?i2, ?cs ?c1, gone_db)"
    by (subst compact_loop.simps) (simp add: v)
  have l: "compact_loop ops readdir [] ?i1 (?d1, ?cs ?c1, gone_db) = Some (OK, ?i2, ?cs ?c1, gone_db)"
    by (subst compact_loop.simps) (simp add: v k ss e l gone_state prioritize_imm_def)
  have "compact_loop ops readdir [] ?i0 (new_drop_state, ?cs gone_compaction, gone_db) = Some (OK, ?i2, ?cs ?c1, gone_db)"
    by (subst compact_loop.simps) (simp add: v k ss e l gone_state prioritize_imm_def)
  then show ?thesis using s by (auto simp: gone_work)
qed

lemma gone_work_done:
  fixes ops :: "'i iter_ops"
  assumes it: "sorted_iterator (cmp_Compare bytewise_internal) internal_key ops rep" "rep i gone_entries p"
  shows "\<exists>cs db. DoCompactionWork ops readdir [] i (new_CompactionState gone_compaction) gone_db = Some (OK, cs, db)"
proof -
  obtain i' c where l: "compact_loop ops readdir [] (it_SeekToFirst ops i) (new_drop_state, (new_CompactionState gone_compaction)\<lparr>cs_smallest_snapshot := 8\<rparr>, gone_db) =
    Some (OK, i', (new_CompactionState c)\<lparr>cs_smallest_snapshot := 8\<rparr>, gone_db)" "it_status ops i' = OK" "c_edit c = new_VersionEdit"
    using gone_loop [OF it] by blast
  let ?cs = "(new_CompactionState c)\<lparr>cs_smallest_snapshot := 8\<rparr>"
  have env: "calm_env (tc_posix (db_tables gone_db))"
    by (simp add: calm_env_def reliable_env_def gone_db_def demo_db_def new_TableCache_def demo_random_env_def)
  have w: "calm (lw_dest w)" if "vs_descriptor (db_versions gone_db) = Some w" for w
    using that by (auto simp: gone_state new_log_writer_def gone_writable_def new_posix_writable_def calm_def no_failure_def)
  have "fst (LogAndApply e (db_versions gone_db) (tc_posix (db_tables gone_db))) = OK" for e
    by (rule calm_LogAndApply [OF env w])
  then have "fst (InstallCompactionResults ?cs gone_db) = OK"
    by (simp add: InstallCompactionResults_def db_LogAndApply_def split: prod.splits) (metis fst_conv)
  then obtain cs db where "InstallCompactionResults ?cs gone_db = (OK, cs, db)" by (metis prod_cases3 fst_conv)
  moreover have "(if db_snapshots gone_db = [] then vs_last_sequence (db_versions gone_db) else SnapshotList_oldest (db_snapshots gone_db)) = 8"
    using gone_state(4) by (simp add: smallest_snapshot_def)
  ultimately show ?thesis using l gone_state by (simp add: DoCompactionWork_def new_CompactionState_def)
qed

section \<open>An old value that comes back\<close>

text \<open>
  The files 5 and 6 of level 2 split the user key 5: the first one ends with its deletion, the second one holds an older value. A
  compaction of file 7 of level 1 takes in file 5, whose keys are near, and leaves file 6 behind.
\<close>

definition split_deletion :: "bytes \<times> bytes" where
  "split_deletion = (InternalKey [5] 7 kTypeDeletion, [])"

definition split_value :: "bytes \<times> bytes" where
  "split_value = (InternalKey [5] 3 kTypeValue, [1])"

definition split_upper :: "bytes \<times> bytes" where
  "split_upper = (InternalKey [4] 8 kTypeValue, [2])"

definition split_file :: "u64 \<Rightarrow> bytes \<Rightarrow> file_meta" where
  "split_file n k = \<lparr>fm_refs = 1, fm_allowed_seeks = 100, fm_number = n, fm_file_size = 200, fm_smallest = (if n = 5 then InternalKey [4] 2 kTypeValue else k), fm_largest = k\<rparr>"

definition split_contents :: "u64 \<Rightarrow> (bytes \<times> bytes) list" where
  "split_contents n = (if n = 7 then [split_upper] else if n = 5 then [split_deletion] else if n = 6 then [split_value] else [])"

definition split_files :: "file_meta list list" where
  "split_files = [[], [split_file 7 (fst split_upper)], [split_file 5 (fst split_deletion), split_file 6 (fst split_value)], [], [], [], []]"

definition split_versions :: version_set where
  "split_versions = (db_versions gone_db)\<lparr>vs_current := new_Version\<lparr>v_files := split_files\<rparr>\<rparr>"

lemma split_keys:
  "ExtractUserKey (fst split_upper) = [4]" "key_tag (fst split_upper) = 0x801" "ExtractUserKey (fst split_deletion) = [5]"
  "key_tag (fst split_deletion) = 0x700" "ExtractUserKey (fst split_value) = [5]" "key_tag (fst split_value) = 0x301"
  "ParseInternalKey (fst split_deletion) = Some \<lparr>pik_user_key = [5], pik_sequence = 7, pik_type = kTypeDeletion\<rparr>"
  "ParseInternalKey (fst split_value) = Some \<lparr>pik_user_key = [5], pik_sequence = 3, pik_type = kTypeValue\<rparr>"
  by (simp_all add: split_upper_def split_deletion_def split_value_def Parse_InternalKey kMaxSequenceNumber_def PackSequenceAndType_def type_code_def)

lemma split_file_fields [simp]:
  "fm_number (split_file n k) = n" "fm_largest (split_file n k) = k" "uint (fm_file_size (split_file n k)) = 200"
  "fm_smallest (split_file 7 k) = k" "fm_smallest (split_file 6 k) = k" "fm_smallest (split_file 5 k) = InternalKey [4] 2 kTypeValue"
  by (simp_all add: split_file_def)

lemma split_distinct: "split_file 6 k \<noteq> split_file 5 k'"
proof
  assume "split_file 6 k = split_file 5 k'"
  from arg_cong [OF this, of fm_number] show False by simp
qed

lemma bytewise_compare: "cmp_Compare BytewiseComparator = slice_compare"
  by (simp add: BytewiseComparator_def)

lemma split_level: "l < kNumLevels \<Longrightarrow> split_files ! l =
  (if l = 1 then [split_file 7 (fst split_upper)] else if l = 2 then [split_file 5 (fst split_deletion), split_file 6 (fst split_value)] else [])"
  by (auto simp: split_files_def kNumLevels_def less_Suc_eq numeral_nat)

lemma split_overlapping:
  assumes "0 < level"
  shows "GetOverlappingInputs BytewiseComparator split_files level b e =
    Some (filter (bytewise_user.overlaps (map_option ExtractUserKey b) (map_option ExtractUserKey e)) (split_files ! level))"
  using bytewise_user.GetOverlappingInputs_spec [of split_files level b e] assms by auto

lemma split_boundary: "AddBoundaryInputs BytewiseComparator [split_file 7 k] [split_file 7 k] = Some [split_file 7 k]"
  by (simp add: AddBoundaryInputs_def FindLargestKey_def AddBoundaryInputs_loop.simps FindSmallestBoundaryFile_def
      bytewise_user.ik.compare_refl)

lemma split_chosen:
  "\<exists>c vs. CompactRange split_versions 1 None None = Some (Some c, vs) \<and> c_level c = 1 \<and> c_inputs0 c = [split_file 7 (fst split_upper)] \<and>
     c_inputs1 c = [split_file 5 (fst split_deletion)] \<and> c_input_version c = vs_current split_versions"
proof -
  let ?X = "split_file 7 (fst split_upper)" and ?P = "split_file 5 (fst split_deletion)"
  have vs: "vs_user split_versions = BytewiseComparator" "v_files (vs_current split_versions) = split_files"
    by (simp_all add: split_versions_def gone_state)
  have n: "split_files ! 1 = [?X]" "split_files ! 2 = [?P, split_file 6 (fst split_value)]" "split_files ! 3 = []"
    by (simp_all add: split_level kNumLevels_def)
  have up: "ikey_Compare BytewiseComparator (fst split_deletion) (fst split_upper) > 0" "ikey_Compare BytewiseComparator (InternalKey [4] 2 kTypeValue) (fst split_upper) > 0"
    by (simp_all add: ikey_Compare_def split_keys bytewise_compare slice_compare_def Let_def PackSequenceAndType_def type_code_def)
  have o1: "GetOverlappingInputs BytewiseComparator split_files 1 None None = Some [?X]"
    by (subst split_overlapping) (simp_all add: n n(1) [unfolded One_nat_def] bytewise_user.overlaps_def bytewise_user.before_range_def bytewise_user.after_range_def)
  have o2: "GetOverlappingInputs BytewiseComparator split_files 2 (Some (fst split_upper)) (Some (fst split_upper)) = Some [?P]"
    by (subst split_overlapping) (simp_all add: n n(1) [unfolded One_nat_def] bytewise_user.overlaps_def bytewise_user.before_range_def bytewise_user.after_range_def split_keys bytewise_compare slice_compare_def)
  have o3: "GetOverlappingInputs BytewiseComparator split_files 1 (Some (fst split_upper)) (Some (fst split_deletion)) = Some [?X]"
    by (subst split_overlapping) (simp_all add: n n(1) [unfolded One_nat_def] bytewise_user.overlaps_def bytewise_user.before_range_def bytewise_user.after_range_def split_keys bytewise_compare slice_compare_def)
  have o4: "GetOverlappingInputs BytewiseComparator split_files 3 b e = Some []" for b e
    by (subst split_overlapping) (simp_all add: n)
  have r: "GetRange BytewiseComparator [?X] = (fst split_upper, fst split_upper)" "GetRange2 BytewiseComparator [?X] [?P] = (fst split_upper, fst split_deletion)"
    using up by (simp_all add: GetRange_def GetRange2_def)
  have tr: "truncate_inputs limit acc [?X] = [?X]" for limit acc by (simp add: Let_def)
  let ?c = "(new_Compaction split_versions 1)\<lparr>c_inputs0 := [?X], c_inputs1 := [?P]\<rparr>"
  have ex: "expand_inputs vs ?c rng (fst split_upper, fst split_deletion) = Some (?c, rng, (fst split_upper, fst split_deletion))"
    if "vs_user vs = BytewiseComparator" "v_files (vs_current vs) = split_files" for vs rng
    using that o3 n split_boundary by (simp add: expand_inputs_def overlapping_def new_Compaction_def)
  show ?thesis
    using o1 o2 o4 n split_boundary r ex [unfolded new_Compaction_def] vs tr
    by (simp add: CompactRange_def SetupOtherInputs_def overlapping_def new_Compaction_def kNumLevels_def numeral_2_eq_2 numeral_3_eq_3)
qed

lemma split_layered: "layered split_contents split_files"
proof -
  let ?X = "split_file 7 (fst split_upper)" and ?P = "split_file 5 (fst split_deletion)" and ?Q = "split_file 6 (fst split_value)"
  note le = bytewise_user.ikey_Compare_le bytewise_eq split_keys bytewise_compare slice_compare_def PackSequenceAndType_def
      kMaxSequenceNumber_def kValueTypeForSeek_def type_code_def bytewise_user.ikey_Compare_less
  have wf: "bytewise_user.file_wf ?X" "bytewise_user.file_wf ?P" "bytewise_user.file_wf ?Q"
    by (simp_all add: bytewise_user.file_wf_def le)
  have h: "bytewise_user.holds (keys_of split_contents) ?X" "bytewise_user.holds (keys_of split_contents) ?P" "bytewise_user.holds (keys_of split_contents) ?Q"
    by (simp_all add: bytewise_user.holds_def split_contents_def le)
  have pq: "ikey_Compare BytewiseComparator (fst split_deletion) (fst split_value) < 0"
    by (simp add: le)
  have new: "bytewise_user.newer (keys_of split_contents 7) (keys_of split_contents 5)" "bytewise_user.newer (keys_of split_contents 7) (keys_of split_contents 6)"
    by (simp_all add: bytewise_user.newer_def split_contents_def le)
  have ne: "?P \<noteq> ?Q" using split_distinct by metis
  have kle: "bytewise_user.key_le ?P ?Q" by (simp add: le bytewise_user.key_le_iff)
  have z: "0 < kNumLevels" "length split_files = kNumLevels" by (simp_all add: kNumLevels_def split_files_def)
  have "bytewise_user.levels_ok (keys_of split_contents) split_files"
    unfolding bytewise_user.levels_ok_def bytewise_user.version_wf_def bytewise_user.level_sorted_def bytewise_user.key_sorted_def
    using wf h z pq new ne kle by (auto simp: split_level inj_on_def split: if_splits)
  moreover have "bytewise_user.tight (keys_of split_contents) split_files"
    by (auto simp: bytewise_user.tight_def split_level split_contents_def split: if_splits)
  ultimately show ?thesis ..
qed

lemma split_key_resurrected:
  "layered split_contents split_files"
  "\<exists>c vs. CompactRange split_versions 1 None None = Some (Some c, vs) \<and>
     c_inputs0 c = [split_file 7 (fst split_upper)] \<and> c_inputs1 c = [split_file 5 (fst split_deletion)] \<and> split_key split_files c [5] \<and>
     fst (drop_entry BytewiseComparator 8 (fst split_deletion) \<lparr>dr_user_key = Some [4], dr_last_sequence = 8\<rparr> c)"
  "newest {split_upper, split_deletion, split_value} [5] 8 (Some split_deletion)" "read_entry (Some split_deletion) = (NotFound [], None)"
  "newest {split_upper, split_value} [5] 8 (Some split_value)" "read_entry (Some split_value) = (OK, Some [1])"
proof -
  show "layered split_contents split_files" by (rule split_layered)
  obtain c vs where c: "CompactRange split_versions 1 None None = Some (Some c, vs)" "c_level c = 1" "c_inputs0 c = [split_file 7 (fst split_upper)]"
    "c_inputs1 c = [split_file 5 (fst split_deletion)]" "c_input_version c = vs_current split_versions"
    using split_chosen by blast
  have v: "v_files (vs_current split_versions) = split_files" by (simp add: split_versions_def)
  have "fst (IsBaseLevelForKey_loop BytewiseComparator k split_files [3..<kNumLevels] ptrs)" for k ptrs
    by (rule base_level_empty) (simp add: split_level)
  then have "fst (IsBaseLevelForKey BytewiseComparator k c)" for k
    using c v by (simp add: IsBaseLevelForKey_def numeral_3_eq_3 split: prod.splits) (metis fst_conv)
  then have "fst (drop_entry BytewiseComparator 8 (fst split_deletion) \<lparr>dr_user_key = Some [4], dr_last_sequence = 8\<rparr> c)"
    by (simp add: drop_entry_def split_keys bytewise_eq kMaxSequenceNumber_def split: prod.splits) (metis fst_conv)
  moreover have "split_file 6 (fst split_value) \<noteq> split_file 5 (fst split_deletion)"
    by (rule split_distinct)
  then have "split_key split_files c [5]"
    using c by (auto simp: split_key_def split_files_def split_keys)
  ultimately show "\<exists>c vs. CompactRange split_versions 1 None None = Some (Some c, vs) \<and>
     c_inputs0 c = [split_file 7 (fst split_upper)] \<and> c_inputs1 c = [split_file 5 (fst split_deletion)] \<and> split_key split_files c [5] \<and>
     fst (drop_entry BytewiseComparator 8 (fst split_deletion) \<lparr>dr_user_key = Some [4], dr_last_sequence = 8\<rparr> c)"
    using c by blast
  have ne: "split_value \<noteq> split_deletion" by (simp add: split_value_def split_deletion_def)
  show "newest {split_upper, split_deletion, split_value} [5] 8 (Some split_deletion)" "newest {split_upper, split_value} [5] 8 (Some split_value)"
    unfolding newest_def visible_in_def option.case ball_simps
    by (auto simp del: split_paired_All split_paired_Ex simp: split_keys PackSequenceAndType_def kValueTypeForSeek_def type_code_def)
  show "read_entry (Some split_deletion) = (NotFound [], None)" "read_entry (Some split_value) = (OK, Some [1])"
    using split_keys(7,8) by (simp_all add: read_entry_def split_deletion_def split_value_def)
qed

section \<open>A flush into a gap\<close>

text \<open>
  The files 7 and 8 of level 1 hold one user key each. A compaction by hand takes both, and writes one file of level 2 that spans the gap
  between them. A memtable with a key in the gap that is written out meanwhile overlaps nothing yet, and goes to level 2 as well.
\<close>

definition gap_key :: "u8 \<Rightarrow> bytes" where "gap_key b = InternalKey [b] 3 kTypeValue"

definition gap_files :: "file_meta list list" where
  "gap_files = [[], [split_file 7 (gap_key 1), split_file 8 (gap_key 9)], [], [], [], [], []]"

definition gap_versions :: version_set where
  "gap_versions = (db_versions gone_db)\<lparr>vs_current := new_Version\<lparr>v_files := gap_files\<rparr>\<rparr>"

lemma gap_user [simp]: "ExtractUserKey (gap_key b) = [b]"
  by (simp add: gap_key_def)

lemma gap_fields [simp]: "fm_smallest (split_file 8 k) = k" by (simp add: split_file_def)

lemma gap_levels: "gap_files ! 0 = []" "gap_files ! 1 = [split_file 7 (gap_key 1), split_file 8 (gap_key 9)]" "gap_files ! 2 = []" "gap_files ! 3 = []"
  by (simp_all add: gap_files_def)

lemma gap_overlapping:
  assumes "0 < level"
  shows "GetOverlappingInputs BytewiseComparator gap_files level b e =
    Some (filter (bytewise_user.overlaps (map_option ExtractUserKey b) (map_option ExtractUserKey e)) (gap_files ! level))"
  using bytewise_user.GetOverlappingInputs_spec [of gap_files level b e] assms by auto

lemma flush_into_gap:
  "\<exists>c vs. CompactRange gap_versions 1 None None = Some (Some c, vs) \<and> c_level c = 1 \<and> c_inputs0 c = gap_files ! 1 \<and> c_inputs1 c = []"
  "PickLevelForMemTableOutput BytewiseComparator limit gap_files [5] [5] = Some 2"
  "\<not> bytewise_user.apart (split_file 10 (gap_key 9)\<lparr>fm_smallest := gap_key 1\<rparr>) (split_file 9 (gap_key 5))"
proof -
  let ?A = "split_file 7 (gap_key 1)" and ?B = "split_file 8 (gap_key 9)"
  have vs: "vs_user gap_versions = BytewiseComparator" "v_files (vs_current gap_versions) = gap_files"
    by (simp_all add: gap_versions_def gone_state)
  note far = bytewise_user.overlaps_def bytewise_user.before_range_def bytewise_user.after_range_def bytewise_compare slice_compare_def
  have less: "ikey_Compare BytewiseComparator (gap_key 1) (gap_key 9) < 0" "ikey_Compare BytewiseComparator (gap_key 9) (gap_key 1) > 0"
    by (simp_all add: ikey_Compare_def bytewise_compare slice_compare_def)
  have o1: "GetOverlappingInputs BytewiseComparator gap_files 1 None None = Some [?A, ?B]"
    using gap_levels by (subst gap_overlapping) (simp_all add: far)
  have o2: "GetOverlappingInputs BytewiseComparator gap_files 2 b e = Some []" "GetOverlappingInputs BytewiseComparator gap_files 3 b e = Some []" for b e
    using gap_levels by (simp_all add: gap_overlapping)
  have bd: "AddBoundaryInputs BytewiseComparator [?A, ?B] [?A, ?B] = Some [?A, ?B]"
    using less by (simp add: AddBoundaryInputs_def FindLargestKey_def AddBoundaryInputs_loop.simps FindSmallestBoundaryFile_def
        bytewise_user.ik.compare_refl)
  have lim: "MaxFileSizeForLevel (vs_max_file_size gap_versions) 1 = 2097152"
    by (simp add: MaxFileSizeForLevel_def TargetFileSize_def gap_versions_def gone_db_def demo_db_def new_VersionSet_def)
  have tr: "truncate_inputs 2097152 0 [?A, ?B] = [?A, ?B]" by (simp add: Let_def)
  show "\<exists>c vs. CompactRange gap_versions 1 None None = Some (Some c, vs) \<and> c_level c = 1 \<and> c_inputs0 c = gap_files ! 1 \<and> c_inputs1 c = []"
    using o1 o2 gap_levels bd vs tr lim
    by (simp add: CompactRange_def SetupOtherInputs_def overlapping_def expand_inputs_def new_Compaction_def kNumLevels_def numeral_2_eq_2 numeral_3_eq_3 Let_def)
  have n: "\<not> OverlapInLevel BytewiseComparator gap_files l (Some [5]) (Some [5])" if "l \<le> 2" for l
  proof -
    have "bytewise_user.level_sorted (gap_files ! 1)"
      using less(1) gap_levels by (simp add: bytewise_user.level_sorted_def bytewise_user.file_wf_def bytewise_user.ik.compare_refl gap_key_def
          key_tag_InternalKey PackSequenceAndType_def kMaxSequenceNumber_def kValueTypeForSeek_def type_code_def)
    then have "bytewise_user.level_sorted (gap_files ! l)"
      using that gap_levels by (auto simp: le_Suc_eq numeral_2_eq_2 bytewise_user.level_sorted_def)
    then have spec: "OverlapInLevel BytewiseComparator gap_files l (Some [5]) (Some [5]) \<longleftrightarrow>
        (\<exists>f \<in> set (gap_files ! l). bytewise_user.overlaps (Some [5]) (Some [5]) f)"
      unfolding OverlapInLevel_def by (rule bytewise_user.SomeFileOverlapsRange_spec)
    have "\<not> bytewise_user.overlaps (Some [5]) (Some [5]) ?A" "\<not> bytewise_user.overlaps (Some [5]) (Some [5]) ?B"
      by (simp_all add: far)
    moreover have "set (gap_files ! l) \<subseteq> {?A, ?B}"
      using that gap_levels by (auto simp: le_Suc_eq numeral_2_eq_2)
    ultimately show ?thesis using spec by blast
  qed
  have step: "PickLevel_loop BytewiseComparator limit gap_files [5] [5] l = PickLevel_loop BytewiseComparator limit gap_files [5] [5] (Suc l)" if "l < 2" for l
  proof -
    have "l = 0 \<or> l = 1" using that by auto
    then have "GetOverlappingInputs BytewiseComparator gap_files (l + 2) b e = Some []" for b e using o2 by (auto simp: numeral_3_eq_3 numeral_2_eq_2)
    then show ?thesis using that n [of "l + 1"]
      by (subst PickLevel_loop.simps) (simp add: kMaxMemCompactLevel_def kNumLevels_def TotalFileSize_def MaxGrandParentOverlapBytes_def TargetFileSize_def)
  qed
  have "PickLevel_loop BytewiseComparator limit gap_files [5] [5] 2 = Some 2" by (subst PickLevel_loop.simps) (simp add: kMaxMemCompactLevel_def)
  then show "PickLevelForMemTableOutput BytewiseComparator limit gap_files [5] [5] = Some 2"
    using step [of 0] step [of 1] n [of 0] by (simp add: PickLevelForMemTableOutput_def numeral_2_eq_2)
  show "\<not> bytewise_user.apart (split_file 10 (gap_key 9)\<lparr>fm_smallest := gap_key 1\<rparr>) (split_file 9 (gap_key 5))"
    by (simp add: bytewise_user.apart_def bytewise_compare slice_compare_def split_file_def)
qed

section \<open>Calls that are quiet\<close>

lemma TableCache_Get_frame:
  assumes "TableCache_Get ro tc n sz k = Some (s, found, tc')"
  shows "same_tables tc tc' \<and> pe_files (tc_posix tc') = pe_files (tc_posix tc)"
proof -
  obtain s1 h tc1 where f: "FindTable n sz tc = Some (s1, h, tc1)" using assms by (auto simp: TableCache_Get_def split: option.splits)
  then show ?thesis using assms FindTable_frame [OF f]
    by (auto simp: TableCache_Get_def UnrefEntry_def Let_def split: option.splits if_splits)
qed

lemma visit_invariant:
  assumes "visit func fs st = Some st'" and "P st" and "\<And>st p more st'. func st p = Some (more, st') \<Longrightarrow> P st \<Longrightarrow> P st'"
  shows "P st'"
  using assms(1,2)
proof (induction fs arbitrary: st)
  case (Cons p fs)
  then show ?case using assms(3) by (auto split: option.splits prod.splits if_splits)
qed simp

lemma Version_Get_frame:
  assumes "Version_Get user (TableCache_Get ro) v k tc = Some (s, r, stats, tc')"
  shows "same_tables tc tc' \<and> pe_files (tc_posix tc') = pe_files (tc_posix tc)"
proof -
  let ?P = "\<lambda>st. same_tables tc (gs_cache st) \<and> pe_files (tc_posix (gs_cache st)) = pe_files (tc_posix tc)"
  have step: "?P st'" if g: "Get_Match user (TableCache_Get ro) ik st p = Some (more, st')" "?P st" for ik st p more st'
  proof -
    obtain level f where p: "p = (level, f)" by fastforce
    obtain s found tc1 where t: "TableCache_Get ro (gs_cache st) (fm_number f) (fm_file_size f) ik = Some (s, found, tc1)" "gs_cache st' = tc1"
      using g(1) by (auto simp: Get_Match_def p Let_def split: option.splits if_splits saver_state.splits prod.splits)
    then show ?thesis using TableCache_Get_frame [OF t(1)] g(2) by simp
  qed
  obtain st' where "ForEachOverlapping user (v_files v) (lk_user_key k) (lk_internal_key k) (Get_Match user (TableCache_Get ro) (lk_internal_key k))
      \<lparr>gs_cache = tc, gs_saver = \<lparr>sv_state = SaverNotFound, sv_user_key = lk_user_key k, sv_value = None\<rparr>,
       gs_stats = \<lparr>seek_file = None, seek_file_level = 0\<rparr>, gs_last_file_read = None, gs_status = OK, gs_found = False\<rparr> = Some st'" "gs_cache st' = tc'"
    using assms by (auto simp: Version_Get_def)
  then show ?thesis using visit_invariant [of _ _ _ st' ?P] step unfolding ForEachOverlapping_def by fastforce
qed

lemma same_metas_UpdateStats: "same_metas (snd (UpdateStats stats v)) v"
proof -
  have "meta_new (charge_seek f) = meta_new f" for f by (simp add: charge_seek_def meta_new_def)
  then show ?thesis by (auto simp: same_metas_def UpdateStats_def Let_def split: option.splits)
qed

lemma Schedule_same:
  "db_imm (MaybeScheduleCompaction db) = db_imm db" "db_shutting_down (MaybeScheduleCompaction db) = db_shutting_down db"
  "db_versions (MaybeScheduleCompaction db) = db_versions db" "db_tables (MaybeScheduleCompaction db) = db_tables db"
  by (simp_all add: MaybeScheduleCompaction_def)

definition quiet_step :: "db \<Rightarrow> db \<Rightarrow> bool" where
  "quiet_step db db' \<longleftrightarrow>
     db_imm db' = db_imm db \<and> db_shutting_down db' = db_shutting_down db \<and>
     (\<exists>v. same_metas v (vs_current (db_versions db)) \<and> db_versions db' = (db_versions db)\<lparr>vs_current := v\<rparr>) \<and>
     same_tables (db_tables db) (db_tables db') \<and> pe_files (db_env db') = pe_files (db_env db)"

lemma quiet_stepI: "(\<And>db. quiet_step db (other db)) \<Longrightarrow> quiet other"
proof -
  assume *: "\<And>db. quiet_step db (other db)"
  have "\<exists>q v. same_metas v (vs_current (db_versions db)) \<and> db_versions (other db) = (db_versions db)\<lparr>vs_last_sequence := q, vs_current := v\<rparr>" for db
  proof -
    obtain v where "same_metas v (vs_current (db_versions db))" "db_versions (other db) = (db_versions db)\<lparr>vs_current := v\<rparr>"
      using * [of db] by (auto simp: quiet_step_def)
    then show ?thesis by (intro exI [of _ "vs_last_sequence (db_versions db)"] exI [of _ v]) simp
  qed
  moreover have "db_imm (other db) = db_imm db" "db_shutting_down (other db) = db_shutting_down db" "same_tables (db_tables db) (db_tables (other db))"
    "pe_files (db_env (other db)) = pe_files (db_env db)" for db using * [of db] by (simp_all add: quiet_step_def)
  ultimately show "quiet other" by (simp add: quiet_def)
qed

lemma quiet_step_refl: "quiet_step db db"
  unfolding quiet_step_def by (intro conjI exI [of _ "vs_current (db_versions db)"]) simp_all

lemma quiet_step_Schedule: "quiet_step db (MaybeScheduleCompaction db') = quiet_step db db'"
  by (simp add: quiet_step_def Schedule_same)

lemma quiet_step_current:
  assumes "same_metas v (vs_current (db_versions db))" and "same_tables (db_tables db) tables" and "pe_files (tc_posix tables) = pe_files (db_env db)"
  shows "quiet_step db (db\<lparr>db_tables := tables, db_versions := (db_versions db)\<lparr>vs_current := v\<rparr>\<rparr>)"
  unfolding quiet_step_def using assms by (intro conjI exI [of _ v]) simp_all

text \<open>Reads, samples of reads, and snapshots.\<close>

lemma quiet_Get: "quiet (\<lambda>db. case db_Get ro snapshot key db of None \<Rightarrow> db | Some (s, v, db') \<Rightarrow> db')"
proof (rule quiet_stepI)
  fix db :: db
  have "quiet_step db db'" if g: "db_Get ro snapshot key db = Some (s, v, db')" for s v db'
  proof -
    let ?k = "LookupKey key (case snapshot of Some s \<Rightarrow> s | None \<Rightarrow> vs_last_sequence (db_versions db))"
    consider "db' = db" | s' r stats tables where
      "Version_Get (vs_user (db_versions db)) (TableCache_Get ro) (vs_current (db_versions db)) ?k (db_tables db) = Some (s', r, stats, tables)"
      "db' = (let (wanted, current) = UpdateStats stats (vs_current (db_versions db));
                  db = db\<lparr>db_tables := tables, db_versions := (db_versions db)\<lparr>vs_current := current\<rparr>\<rparr>
              in if wanted then MaybeScheduleCompaction db else db)"
    proof -
      let ?imm = "case db_imm db of None \<Rightarrow> Some GetFalse | Some imm \<Rightarrow> mem_Get (vs_user (db_versions db)) ?k imm"
      let ?get = "Version_Get (vs_user (db_versions db)) (TableCache_Get ro) (vs_current (db_versions db)) ?k (db_tables db)"
      obtain r1 where r1: "mem_Get (vs_user (db_versions db)) ?k (db_mem db) = Some r1"
        using g by (cases "mem_Get (vs_user (db_versions db)) ?k (db_mem db)") (simp_all add: db_Get_def Let_def)
      show thesis
      proof (cases "answer_of r1")
        case (Some a)
        then have "db' = db" using g r1 by (cases a) (simp add: db_Get_def Let_def)
        then show thesis by (rule that(1))
      next
        case None
        note g1 = g [unfolded db_Get_def Let_def r1 option.case None]
        obtain r2 where r2: "?imm = Some r2" using g1 by (cases ?imm) simp_all
        note g2 = g1 [unfolded r2 option.case]
        show thesis
        proof (cases "answer_of r2")
          case (Some a)
          then have "db' = db" using g2 by (cases a) simp
          then show thesis by (rule that(1))
        next
          case None
          obtain x where x: "?get = Some x" using g2 None by (cases ?get) simp_all
          obtain s' r stats tables where "x = (s', r, stats, tables)" by (metis prod_cases4)
          then show thesis using that(2) [of s' r stats tables] g2 None x by (auto simp: Let_def split: prod.splits)
        qed
      qed
    qed
    then show ?thesis
    proof cases
      case 1
      then show ?thesis using quiet_step_refl by simp
    next
      case 2
      let ?d = "db\<lparr>db_tables := tables, db_versions := (db_versions db)\<lparr>vs_current := snd (UpdateStats stats (vs_current (db_versions db)))\<rparr>\<rparr>"
      have "quiet_step db ?d"
        by (rule quiet_step_current) (use Version_Get_frame [OF 2(1)] same_metas_UpdateStats in simp_all)
      moreover have "db' = ?d \<or> db' = MaybeScheduleCompaction ?d" using 2(2) by (simp add: Let_def case_prod_unfold)
      ultimately show ?thesis using quiet_step_Schedule by metis
    qed
  qed
  then show "quiet_step db (case db_Get ro snapshot key db of None \<Rightarrow> db | Some (s, v, db') \<Rightarrow> db')"
    using quiet_step_refl by (auto split: option.splits)
qed

lemma quiet_RecordReadSample: "quiet (db_RecordReadSample key)"
proof (rule quiet_stepI)
  fix db :: db
  let ?r = "RecordReadSample (vs_user (db_versions db)) key (vs_current (db_versions db))"
  let ?d = "db\<lparr>db_tables := db_tables db, db_versions := (db_versions db)\<lparr>vs_current := snd ?r\<rparr>\<rparr>"
  have "same_metas (snd ?r) (vs_current (db_versions db))"
    using same_metas_UpdateStats by (auto simp: RecordReadSample_def split: option.splits)
  then have "quiet_step db ?d" by (rule quiet_step_current) simp_all
  moreover have "db_RecordReadSample key db = ?d \<or> db_RecordReadSample key db = MaybeScheduleCompaction ?d"
    by (simp add: db_RecordReadSample_def Let_def case_prod_unfold)
  ultimately show "quiet_step db (db_RecordReadSample key db)" using quiet_step_Schedule by metis
qed

lemma quiet_snapshots: "quiet (\<lambda>db. snd (db_GetSnapshot db))" "quiet (db_ReleaseSnapshot place)"
proof -
  have "quiet_step db (snd (db_GetSnapshot db))" "quiet_step db (db_ReleaseSnapshot place db)" for db :: db
    using quiet_step_refl [of db] by (simp_all add: quiet_step_def db_GetSnapshot_def db_ReleaseSnapshot_def)
  then show "quiet (\<lambda>db. snd (db_GetSnapshot db))" "quiet (db_ReleaseSnapshot place)" by (simp_all add: quiet_stepI)
qed

section \<open>Properties\<close>

text \<open>
  C3: Compactions keep reads, except of split keys. A compaction whose inputs were chosen as \<open>compaction_inputs_closed\<close> says, in a
  database without a memtable waiting to be written out that is not being shut down (\<open>compactable\<close>), is run over a sorted iterator that gives the
  entries of its inputs; before every turn of the loop other threads may change what \<open>quiet\<close> allows: the memtable that takes
  writes, the last sequence number, snapshots, caches and the seeks charged to files, but no memtable is handed in and no version is installed.
  When \<^verbatim>\<open>DBImpl::DoCompactionWork\<close> returns OK, its outputs hold exactly the entries that are not dropped, each output is a
  complete table file, the installed version has the inputs replaced by the outputs and is layered again, and every read, at a sequence number from the
  smallest snapshot on, of a user key that is not split between an input of the next level and a file left behind gives what it gave before,
  also over whatever newer entries \<open>M\<close> lie above the files. For a split key it need not: \<open>split_key_resurrected\<close>.
\<close>

theorem compaction_keeps_reads:
  assumes "sorted_iterator (cmp_Compare bytewise_internal) internal_key ops rep" and "rep input es p"
    and "compactable entries es c db" and "\<forall>other \<in> set others. quiet other"
    and "DoCompactionWork ops readdir others input (new_CompactionState c) db = Some (OK, cs', db')"
    and "all_newer M (stored_entries entries (db_files db))" and "\<forall>e \<in> M. ParseInternalKey (fst e) \<noteq> None"
  shows "\<exists>entries'. (\<forall>n < vs_next_file_number (db_versions db). entries' n = entries n) \<and> layered entries' (db_files db') \<and>
    (\<forall>l < kNumLevels. meta_new ` set (db_files db' ! l) = meta_new ` compacted (db_files db) c (out_metas cs') l) \<and>
    concat (map (\<lambda>out. entries' (ou_number out)) (cs_outputs cs')) = kept (base_key c) (smallest_snapshot db) (set es) es \<and>
    (\<forall>out \<in> set (cs_outputs cs'). stored_table (tc_options (db_tables db)) (tc_dbname (db_tables db)) (db_env db') out (entries' (ou_number out))) \<and>
    (\<forall>u q r. smallest_snapshot db \<le> q \<longrightarrow> q \<le> kMaxSequenceNumber \<longrightarrow> newest (M \<union> stored_entries entries (db_files db)) u q r \<longrightarrow>
      \<not> split_key (db_files db) c u \<longrightarrow>
      (\<exists>r'. newest (M \<union> stored_entries entries' (db_files db')) u q r' \<and> read_entry r' = read_entry r))"
  by (rule DoCompactionWork_keeps [OF assms])

theorem compaction_keeps_reads_witness:
  "\<exists>(it :: block_iter) cs db. DoCompactionWork (block_iter_ops bytewise_internal) (\<lambda>_ _. Inr []) [] it (new_CompactionState gone_compaction) gone_db = Some (OK, cs, db) \<and>
     (\<exists>entries' r. layered entries' (db_files db) \<and> newest (stored_entries entries' (db_files db)) [5] 8 r \<and> read_entry r = (NotFound [], None))"
proof -
  have len: "length (fst (bb_Finish (bb_AddAll gone_entries (new_BlockBuilder 16)))) < 2 ^ 32"
    by (rule le_less_trans [OF length_built]) (simp add: gone_entries_def)
  have v: "\<forall>e \<in> set gone_entries. internal_key (fst e)" by (simp add: gone_entries_def)
  obtain it where r: "comparator.block_rep bytewise_internal internal_key it gone_entries (length gone_entries)"
    using comparator.block_rep_AddAll [OF bytewise_user.ikey.comparator_axioms, of 16, OF _ conjI [OF gone_sorted v] prod.collapse [symmetric] len] by auto
  note c = comparator.block_iter_contract [OF bytewise_user.ikey.comparator_axioms]
  obtain cs db where run: "DoCompactionWork (block_iter_ops bytewise_internal) (\<lambda>_ _. Inr []) [] it (new_CompactionState gone_compaction) gone_db = Some (OK, cs, db)"
    using gone_work_done [OF c r] by blast
  have stored: "stored_entries gone_contents (db_files gone_db) = set gone_entries"
    unfolding stored_entries_def gone_state by (auto simp: gone_level gone_contents_def gone_number kNumLevels_def split: if_splits)
  have "newest ({} \<union> stored_entries gone_contents (db_files gone_db)) [5] 8 (Some (InternalKey [5] 7 kTypeDeletion, []))"
    unfolding stored by (auto simp: newest_def visible_in_def gone_entries_def gone_keys PackSequenceAndType_def kValueTypeForSeek_def type_code_def)
  moreover have "smallest_snapshot gone_db \<le> 8" "(8 :: u64) \<le> kMaxSequenceNumber" by (simp_all add: gone_state kMaxSequenceNumber_def)
  moreover have "\<not> split_key (db_files gone_db) gone_compaction [5]" by (simp add: split_key_def gone_work)
  ultimately have "\<exists>entries' r. layered entries' (db_files db) \<and> newest ({} \<union> stored_entries entries' (db_files db)) [5] 8 r \<and>
      read_entry r = read_entry (Some (InternalKey [5] 7 kTypeDeletion, []))"
    using compaction_keeps_reads [OF c r gone_compactable _ run, of "{}"] by (auto simp: all_newer_def)
  moreover have "read_entry (Some (InternalKey [5] 7 kTypeDeletion, [])) = (NotFound [], None)" by (simp add: read_entry_def gone_keys)
  ultimately show ?thesis using run unfolding Un_empty_left by metis
qed

end
