(* ===== verification/Arena.thy ===== *)
theory Arena
  imports MemTable
begin

text \<open>
  The arena of a memtable (\<^verbatim>\<open>util/arena.h\<close>, \<^verbatim>\<open>util/arena.cc\<close>): how much memory it holds, which decides when a memtable is
  full. Of the pointer to the free part of the current block only its alignment matters, since blocks from \<^verbatim>\<open>new\<close> are aligned;
  pointers have eight bytes.
\<close>

section \<open>Allocation\<close>

definition kArenaBlockSize :: nat where "kArenaBlockSize = 4096"

record arena =
  alloc_ptr_mod :: nat
  alloc_bytes_remaining :: nat
  ar_blocks :: "nat list"
  memory_usage :: nat

definition new_Arena :: arena where
  "new_Arena = \<lparr>alloc_ptr_mod = 0, alloc_bytes_remaining = 0, ar_blocks = [], memory_usage = 0\<rparr>"

definition AllocateNewBlock :: "nat \<Rightarrow> arena \<Rightarrow> arena" where
  "AllocateNewBlock block_bytes a = a\<lparr>ar_blocks := ar_blocks a @ [block_bytes], memory_usage := memory_usage a + (block_bytes + 8)\<rparr>"

definition take_bytes :: "nat \<Rightarrow> arena \<Rightarrow> arena" where
  "take_bytes n a = a\<lparr>alloc_ptr_mod := (alloc_ptr_mod a + n) mod 8, alloc_bytes_remaining := alloc_bytes_remaining a - n\<rparr>"

definition AllocateFallback :: "nat \<Rightarrow> arena \<Rightarrow> arena" where
  "AllocateFallback n a =
     (if n > kArenaBlockSize div 4 then AllocateNewBlock n a
      else take_bytes n ((AllocateNewBlock kArenaBlockSize a)\<lparr>alloc_ptr_mod := 0, alloc_bytes_remaining := kArenaBlockSize\<rparr>))"

definition Allocate :: "nat \<Rightarrow> arena \<Rightarrow> arena" where
  "Allocate n a = (if n \<le> alloc_bytes_remaining a then take_bytes n a else AllocateFallback n a)"

definition AllocateAligned :: "nat \<Rightarrow> arena \<Rightarrow> arena" where
  "AllocateAligned n a =
     (let current_mod = alloc_ptr_mod a;
          slop = (if current_mod = 0 then 0 else 8 - current_mod);
          needed = n + slop
      in if needed \<le> alloc_bytes_remaining a then take_bytes needed a else AllocateFallback n a)"

section \<open>The memory of a memtable\<close>

text \<open>A node has a key and as many links as it is high.\<close>

definition NewNode_bytes :: "nat \<Rightarrow> nat" where
  "NewNode_bytes height = 16 + 8 * (height - 1)"

text \<open>
  The arena after all insertions: the encoded entry, then the node, whose height is drawn again from the seed the list starts with.
\<close>

fun insertions :: "bytes list \<Rightarrow> u32 \<Rightarrow> arena \<Rightarrow> arena" where
  "insertions [] rnd a = a"
| "insertions (k # ks) rnd a =
     (let a = Allocate (length k) a;
          (height, rnd) = RandomHeight rnd
      in insertions ks rnd (AllocateAligned (NewNode_bytes height) a))"

definition mem_arena :: "memtable \<Rightarrow> arena" where
  "mem_arena mem = insertions (sl_keys (mt_table mem)) (sl_rnd (new_skiplist :: bytes skiplist)) (AllocateAligned (NewNode_bytes kMaxHeight) new_Arena)"

definition ApproximateMemoryUsage :: "memtable \<Rightarrow> nat" where
  "ApproximateMemoryUsage mem = memory_usage (mem_arena mem)"

text \<open>What was handed out fits into the blocks, and all blocks are counted.\<close>

definition arena_ok :: "nat \<Rightarrow> arena \<Rightarrow> bool" where
  "arena_ok used a \<longleftrightarrow> used + alloc_bytes_remaining a \<le> sum_list (ar_blocks a) \<and> memory_usage a = sum_list (ar_blocks a) + 8 * length (ar_blocks a)"

lemma arena_ok_Allocate: "arena_ok used a \<Longrightarrow> arena_ok (used + n) (Allocate n a)"
  by (auto simp: arena_ok_def Allocate_def AllocateFallback_def AllocateNewBlock_def take_bytes_def kArenaBlockSize_def)

lemma arena_ok_AllocateAligned: "arena_ok used a \<Longrightarrow> arena_ok (used + n) (AllocateAligned n a)"
  by (auto simp: arena_ok_def AllocateAligned_def AllocateFallback_def AllocateNewBlock_def take_bytes_def kArenaBlockSize_def Let_def)

lemma arena_ok_insertions:
  "arena_ok used a \<Longrightarrow> \<exists>more. arena_ok (used + (\<Sum>k \<leftarrow> ks. length k) + more) (insertions ks rnd a)"
proof (induction ks arbitrary: used rnd a)
  case Nil
  then show ?case by (intro exI [of _ 0]) simp
next
  case (Cons k ks)
  obtain h r where h: "RandomHeight rnd = (h, r)" by (metis surj_pair)
  have "arena_ok (used + length k + NewNode_bytes h) (AllocateAligned (NewNode_bytes h) (Allocate (length k) a))"
    by (intro arena_ok_AllocateAligned arena_ok_Allocate Cons.prems)
  from Cons.IH [OF this, of r] obtain more where
    "arena_ok (used + length k + NewNode_bytes h + (\<Sum>k \<leftarrow> ks. length k) + more) (insertions ks r (AllocateAligned (NewNode_bytes h) (Allocate (length k) a)))"
    by blast
  then show ?case by (intro exI [of _ "NewNode_bytes h + more"]) (simp add: h Let_def ac_simps)
qed

lemma usage_covers_entries: "(\<Sum>k \<leftarrow> sl_keys (mt_table mem). length k) \<le> ApproximateMemoryUsage mem"
proof -
  have "arena_ok 0 new_Arena" by (simp add: arena_ok_def new_Arena_def)
  then have "arena_ok (0 + NewNode_bytes kMaxHeight) (AllocateAligned (NewNode_bytes kMaxHeight) new_Arena)"
    by (rule arena_ok_AllocateAligned)
  from arena_ok_insertions [OF this, of "sl_keys (mt_table mem)" "sl_rnd (new_skiplist :: bytes skiplist)"] show ?thesis
    unfolding ApproximateMemoryUsage_def mem_arena_def arena_ok_def by auto
qed

end
