(* ===== verification/DbWrite.thy ===== *)
theory DbWrite
  imports Flush Manifest WriteBatch Arena
begin

text \<open>
  Writing to the database (\<^verbatim>\<open>Write\<close>, \<^verbatim>\<open>BuildBatchGroup\<close> and \<^verbatim>\<open>MakeRoomForWrite\<close> of \<^verbatim>\<open>db/db_impl.cc\<close>): the writer at the front of the queue
  makes room, joins the batches of writers behind it into a group, logs the group as one record and inserts it into the memtable. Where the
  mutex is released or a thread waits, one call of other threads may come in between; waiting with nobody else left never ends.
\<close>

section \<open>Groups of writers\<close>

text \<open>A writer in the queue. Its status and \<^verbatim>\<open>done\<close> are the result of the writer at the front.\<close>

record writer =
  wr_batch :: "write_batch option"
  wr_sync :: bool

text \<open>The temporary batch is used from the second batch on.\<close>

fun group_loop :: "writer \<Rightarrow> nat \<Rightarrow> nat \<Rightarrow> write_batch option \<Rightarrow> nat \<Rightarrow> writer list \<Rightarrow> write_batch option \<times> nat" where
  "group_loop front max_size sz tmp n [] = (tmp, n)"
| "group_loop front max_size sz tmp n (w # ws) =
     (if wr_sync w \<and> \<not> wr_sync front then (tmp, n)
      else
        (case wr_batch w of
           None \<Rightarrow> group_loop front max_size sz tmp (n + 1) ws
         | Some b \<Rightarrow>
             let sz = sz + wb_ApproximateSize b
             in if sz > max_size then (tmp, n)
                else
                  let tmp = (case tmp of None \<Rightarrow> wb_Append new_WriteBatch (the (wr_batch front)) | Some t \<Rightarrow> t)
                  in group_loop front max_size sz (Some (wb_Append tmp b)) (n + 1) ws))"

text \<open>The batch to write, and the number of writers it is for.\<close>

definition BuildBatchGroup :: "writer \<Rightarrow> writer list \<Rightarrow> write_batch \<times> nat" where
  "BuildBatchGroup front rest =
     (let result = the (wr_batch front);
          sz = wb_ApproximateSize result;
          max_size = (if sz \<le> 128 * 1024 then sz + 128 * 1024 else 1024 * 1024);
          (tmp, n) = group_loop front max_size sz None 1 rest
      in (case tmp of None \<Rightarrow> result | Some t \<Rightarrow> t, n))"

section \<open>Making room\<close>

text \<open>A new log and a new memtable; the old memtable waits to be written out. Deleting the old log file closes it.\<close>

definition switch_memtable :: "db \<Rightarrow> status \<times> db" where
  "switch_memtable db =
     (let (new_log_number, vs) = NewFileNumber (db_versions db)
      in case env_NewWritableFile (LogFileName (tc_dbname (db_tables db)) new_log_number) (db_env db) of
           (Inl s, env) \<Rightarrow> (s, db_set_env env (db\<lparr>db_versions := ReuseFileNumber new_log_number vs\<rparr>))
         | (Inr lfile, env) \<Rightarrow>
             let env = (case db_log db of
                          None \<Rightarrow> env
                        | Some w \<Rightarrow> store_fd (pw_filename (lw_dest w)) (pw_fd (snd (posix_Close (lw_dest w)))) env)
             in (OK, MaybeScheduleCompaction (db_set_env env
                  (db\<lparr>db_versions := vs, db_logfile_number := new_log_number, db_log := Some (new_log_writer lfile 0),
                     db_imm := Some (db_mem db), db_mem := new_MemTable\<rparr>))))"

partial_function (option) MakeRoomForWrite ::
  "(db \<Rightarrow> db) list \<Rightarrow> bool \<Rightarrow> bool \<Rightarrow> db \<Rightarrow> (status \<times> (db \<Rightarrow> db) list \<times> db) option" where
  "MakeRoomForWrite others force allow_delay db =
     (let other = (case others of [] \<Rightarrow> (\<lambda>db. db) | f # _ \<Rightarrow> f)
      in if \<not> ok (db_bg_error db) then Some (db_bg_error db, others, db)
         else if allow_delay \<and> NumLevelFiles (db_versions db) 0 \<ge> kL0_SlowdownWritesTrigger
         then MakeRoomForWrite (tl others) force False (other db)
         else if \<not> force \<and> ApproximateMemoryUsage (db_mem db) \<le> db_write_buffer_size db then Some (OK, others, db)
         else if db_imm db \<noteq> None then MakeRoomForWrite (tl others) force allow_delay (other db)
         else if NumLevelFiles (db_versions db) 0 \<ge> kL0_StopWritesTrigger
         then MakeRoomForWrite (tl others) force allow_delay (other db)
         else
           (let (s, db) = switch_memtable db
            in if ok s then MakeRoomForWrite others False allow_delay db else Some (s, others, db)))"

section \<open>Writing\<close>

text \<open>The record in the log, synced when the writer asks for it; the flag is an error of the sync.\<close>

definition append_log ::
  "bytes \<Rightarrow> bool \<Rightarrow> posix_writable log_writer \<Rightarrow> posix_env \<Rightarrow> status \<times> bool \<times> posix_writable log_writer \<times> posix_env" where
  "append_log contents sync w env =
     (let (s, w) = AddRecord posix_writable_ops w contents;
          syncing = (ok s \<and> sync);
          (s, d) = (if syncing then posix_Sync (lw_dest w) else (s, lw_dest w));
          w = w\<lparr>lw_dest := d\<rparr>
      in (s, syncing \<and> \<not> ok s, w, store_log w env))"

definition write_group :: "bool \<Rightarrow> u64 \<Rightarrow> write_batch \<Rightarrow> db \<Rightarrow> (status \<times> db) option" where
  "write_group sync last_sequence b db =
     (case db_log db of
        None \<Rightarrow> None
      | Some w \<Rightarrow>
          let (s, sync_error, w, env) = append_log (wb_rep b) sync w (db_env db);
              db = db_set_env env (db\<lparr>db_log := Some w\<rparr>)
          in (case (if ok s then
                      (let (s, mem) = wb_InsertInto (vs_user (db_versions db)) b (db_mem db)
                       in map_option (\<lambda>mem. (s, db\<lparr>db_mem := mem\<rparr>)) mem)
                    else Some (s, db)) of
                None \<Rightarrow> None
              | Some (s, db) \<Rightarrow>
                  let db = (if sync_error then RecordBackgroundError s db else db)
                  in Some (s, db\<lparr>db_versions := vs_SetLastSequence (last_sequence + scast (wb_Count b)) (db_versions db)\<rparr>)))"

text \<open>The status goes to as many writers as the number says, beginning with the front.\<close>

definition db_Write :: "(db \<Rightarrow> db) list \<Rightarrow> writer \<Rightarrow> writer list \<Rightarrow> db \<Rightarrow> (status \<times> nat \<times> db) option" where
  "db_Write others front rest db =
     (let null_batch = (wr_batch front = None)
      in case MakeRoomForWrite others null_batch (\<not> null_batch) db of
           None \<Rightarrow> None
         | Some (s, others, db) \<Rightarrow>
             if ok s \<and> \<not> null_batch then
               (let last_sequence = vs_last_sequence (db_versions db);
                    (b, n) = BuildBatchGroup front rest;
                    b = wb_SetSequence (last_sequence + 1) b;
                    db = (case others of [] \<Rightarrow> db | other # _ \<Rightarrow> other db)
                in map_option (\<lambda>(s, db). (s, n, db)) (write_group (wr_sync front) last_sequence b db))
             else Some (s, 1, db))"

definition db_Put :: "(db \<Rightarrow> db) list \<Rightarrow> bool \<Rightarrow> bytes \<Rightarrow> bytes \<Rightarrow> writer list \<Rightarrow> db \<Rightarrow> (status \<times> nat \<times> db) option" where
  "db_Put others sync key val rest db = db_Write others \<lparr>wr_batch = Some (wb_Put key val new_WriteBatch), wr_sync = sync\<rparr> rest db"

definition db_Delete :: "(db \<Rightarrow> db) list \<Rightarrow> bool \<Rightarrow> bytes \<Rightarrow> writer list \<Rightarrow> db \<Rightarrow> (status \<times> nat \<times> db) option" where
  "db_Delete others sync key rest db = db_Write others \<lparr>wr_batch = Some (wb_Delete key new_WriteBatch), wr_sync = sync\<rparr> rest db"

text \<open>A write without a batch, then waiting until the memtable is written out.\<close>

partial_function (option) wait_imm :: "(db \<Rightarrow> db) list \<Rightarrow> db \<Rightarrow> db option" where
  "wait_imm others db =
     (if db_imm db \<noteq> None \<and> ok (db_bg_error db)
      then wait_imm (tl others) (case others of [] \<Rightarrow> db | other # _ \<Rightarrow> other db)
      else Some db)"

definition TEST_CompactMemTable :: "(db \<Rightarrow> db) list \<Rightarrow> (db \<Rightarrow> db) list \<Rightarrow> writer list \<Rightarrow> db \<Rightarrow> (status \<times> nat \<times> db) option" where
  "TEST_CompactMemTable others others' rest db =
     (case db_Write others \<lparr>wr_batch = None, wr_sync = False\<rparr> rest db of
        None \<Rightarrow> None
      | Some (s, n, db) \<Rightarrow>
          if ok s then map_option (\<lambda>db. (if db_imm db \<noteq> None then db_bg_error db else s, n, db)) (wait_imm others' db)
          else Some (s, n, db))"

text \<open>A writer without a batch joins the group of the writer before it, and is done without room having been made for it.\<close>

lemma null_batch_joins:
  assumes "wr_batch w = None" and "\<not> wr_sync w"
  shows "BuildBatchGroup front [w] = (the (wr_batch front), 2)"
  using assms by (simp add: BuildBatchGroup_def Let_def)

end
