(* ===== verification/Written.thy ===== *)
theory Written
  imports DbWrite Compacted
begin

text \<open>
  What a write leaves: the operations of its group get the next sequence numbers, are in the log as one record, and are read from then on.
\<close>

section \<open>A database that holds entries\<close>

lemma Table_not_Log: "TableFileName dbname n \<noteq> LogFileName dbname' m"
proof
  assume "TableFileName dbname n = LogFileName dbname' m"
  then have "rev (TableFileName dbname n) = rev (LogFileName dbname' m)" by simp
  then show False by (simp add: TableFileName_def LogFileName_def MakeFileName_def bytes_of_def)
qed

definition log_open :: "bytes \<Rightarrow> bytes list \<Rightarrow> db \<Rightarrow> bool" where
  "log_open dbname ds db \<longleftrightarrow>
     (\<exists>w m. db_log db = Some w \<and> log_at w ds \<and> pw_filename (lw_dest w) = LogFileName dbname m \<and>
        (ds \<noteq> [] \<longrightarrow> pe_files (db_env db) (LogFileName dbname m) = Some (log_encs 0 ds)))"

text \<open>It holds the entries \<open>E\<close>, whose sequence numbers are at most \<open>L\<close>, the last one.\<close>

definition holding :: "table_options \<Rightarrow> bytes \<Rightarrow> nat \<Rightarrow> (bytes \<times> bytes) set \<Rightarrow> u64 \<Rightarrow> db \<Rightarrow> bool" where
  "holding opt dbname n E L db \<longleftrightarrow>
     (\<exists>store entries mem imm. db_ok opt dbname store entries mem imm n db \<and> db_entries mem imm entries db = E) \<and>
     (\<exists>ds. log_open dbname ds db) \<and> vs_last_sequence (db_versions db) = L \<and>
     (\<forall>e \<in> E. key_tag (fst e) \<le> PackSequenceAndType L kTypeValue)"

definition keeps :: "table_options \<Rightarrow> bytes \<Rightarrow> nat \<Rightarrow> (bytes \<times> bytes) set \<Rightarrow> u64 \<Rightarrow> (db \<Rightarrow> db) \<Rightarrow> bool" where
  "keeps opt dbname n E L other \<longleftrightarrow> (\<forall>db. holding opt dbname n E L db \<longrightarrow> holding opt dbname n E L (other db))"

lemma keeps_snapshots:
  "keeps opt dbname n E L (\<lambda>db. snd (db_GetSnapshot db))" "keeps opt dbname n E L (db_ReleaseSnapshot place)"
proof -
  have "holding opt dbname n E L (db\<lparr>db_next_place := p, db_snapshots := l\<rparr>) = holding opt dbname n E L db"
    "holding opt dbname n E L (db\<lparr>db_snapshots := l\<rparr>) = holding opt dbname n E L db" for db :: db and p l
    by (simp_all add: holding_def db_ok_def db_entries_def files_served_def log_open_def)
  then show "keeps opt dbname n E L (\<lambda>db. snd (db_GetSnapshot db))" "keeps opt dbname n E L (db_ReleaseSnapshot place)"
    by (simp_all add: keeps_def db_GetSnapshot_def db_ReleaseSnapshot_def)
qed

lemma serves_posix:
  assumes "serves opt dbname store entries n tc" and "reliable_env env"
    and "\<And>m. pe_files env (TableFileName dbname m) = pe_files (tc_posix tc) (TableFileName dbname m)"
  shows "serves opt dbname store entries n (set_posix env tc)"
proof -
  obtain owner as where "serves_with opt dbname store entries owner as n tc" using assms(1) by (auto simp: serves_def)
  then have "serves_with opt dbname store entries owner as n (set_posix env tc)"
    using assms(2,3) by (simp add: serves_with_def set_posix_def reliable_random_def)
  then show ?thesis unfolding serves_def by blast
qed

lemma db_ok_reliable:
  assumes "db_ok opt dbname store entries mem imm n db"
  shows "reliable_env (db_env db)" and "tc_dbname (db_tables db) = dbname" and "vs_user (db_versions db) = BytewiseComparator"
  using assms by (auto simp: db_ok_def files_served_def serves_def serves_with_def reliable_random_def)

lemma db_ok_env:
  assumes "db_ok opt dbname store entries mem imm n db" and "reliable_env env"
    and "\<And>m. pe_files env (TableFileName dbname m) = pe_files (db_env db) (TableFileName dbname m)"
  shows "db_ok opt dbname store entries mem imm n (db_set_env env db)"
  using assms(1) serves_posix [OF _ assms(2), of opt dbname store entries n "db_tables db"] assms(3)
  unfolding db_ok_def files_served_def db_set_env_def by simp

section \<open>Making room\<close>

lemma reliable_store: "reliable_env (store_fd f d env) = reliable_env env"
  by (simp add: store_fd_def reliable_env_def)

lemma reliable_NewWritableFile:
  assumes "reliable_env env"
  obtains w env' where "env_NewWritableFile f env = (Inr w, env')" and "reliable_env env'" and "pw_filename w = f"
    and "posix_content w = []" and "pe_files env' = (pe_files env)(f \<mapsto> [])"
proof -
  obtain env1 where n: "name_call env = (None, env1)" "reliable_env env1" by (rule reliable_name_call [OF assms])
  obtain d env2 where d: "new_fd [] env1 = (d, env2)" by fastforce
  have "reliable_env env2" using d n(2) by (auto simp: new_fd_def reliable_env_def split: list.splits)
  then have "reliable_env (env2\<lparr>pe_files := (pe_files env2)(f \<mapsto> [])\<rparr>)" by (simp add: reliable_env_def)
  moreover have e: "env_NewWritableFile f env = (Inr (new_posix_writable f d \<lparr>fd_data = [], fd_answers = pe_dir_answers (env2\<lparr>pe_files := (pe_files env2)(f \<mapsto> [])\<rparr>)\<rparr>),
      env2\<lparr>pe_files := (pe_files env2)(f \<mapsto> [])\<rparr>)"
    by (simp add: env_NewWritableFile_def sys_open_write_def n d)
  ultimately show thesis using that env_NewWritableFile_files(2) [OF e] by (simp add: new_posix_writable_def)
qed

lemma switch_memtable_holding:
  assumes h: "holding opt dbname n E L db" and imm: "db_imm db = None" and sw: "switch_memtable db = (s, db')"
  shows "holding opt dbname n E L db'" and "s = OK"
proof -
  obtain store entries mem im where ok: "db_ok opt dbname store entries mem im n db" "db_entries mem im entries db = E"
    using h by (auto simp: holding_def)
  note r = db_ok_reliable [OF ok(1)]
  let ?num = "vs_next_file_number (db_versions db)"
  let ?f = "LogFileName dbname ?num"
  obtain lfile env1 where f: "env_NewWritableFile ?f (db_env db) = (Inr lfile, env1)" "reliable_env env1" "pw_filename lfile = ?f"
    "posix_content lfile = []" "pe_files env1 = (pe_files (db_env db))(?f \<mapsto> [])" by (rule reliable_NewWritableFile [OF r(1)])
  obtain w m where w: "db_log db = Some w" "pw_filename (lw_dest w) = LogFileName dbname m" using h by (auto simp: holding_def log_open_def)
  let ?env = "store_fd (pw_filename (lw_dest w)) (pw_fd (snd (posix_Close (lw_dest w)))) env1"
  let ?db = "db\<lparr>db_versions := (db_versions db)\<lparr>vs_next_file_number := ?num + 1\<rparr>, db_logfile_number := ?num,
      db_log := Some (new_log_writer lfile 0), db_imm := Some (db_mem db), db_mem := new_MemTable\<rparr>"
  have e: "s = OK" "db' = MaybeScheduleCompaction (db_set_env ?env ?db)"
    using sw r(2) f w(1) by (simp_all add: switch_memtable_def NewFileNumber_def)
  then show "s = OK" by simp
  have im: "im = []" using ok(1) imm by (simp add: db_ok_def holds_writes_def)
  have "\<exists>ks. bytewise_user.mem_rep new_MemTable [] ks" using bytewise_user.mem_rep_new by blast
  then have "holds_writes (Some new_MemTable) []" by (simp add: holds_writes_def)
  then have "db_ok opt dbname store entries [] mem n ?db"
    using ok(1) im unfolding db_ok_def files_served_def by (simp add: mem_entries_def all_newer_def)
  then have "db_ok opt dbname store entries [] mem n (db_set_env ?env ?db)"
    by (rule db_ok_env) (simp add: reliable_store f(2), simp add: store_fd_def f(5) w(2) Table_not_Log)
  moreover have "db_entries [] mem entries (db_set_env ?env ?db) = E"
    using ok(2) im by (simp add: db_entries_def mem_entries_def db_set_env_def)
  moreover have "log_open dbname [] db'" using f new_log_at
    by (auto simp: log_open_def e(2) db_set_env_def MaybeScheduleCompaction_def new_log_writer_def)
  ultimately show "holding opt dbname n E L db'" using h unfolding holding_def e(2)
    by (auto simp: db_set_env_def)
qed

lemma tl_in: "x \<in> set (tl xs) \<Longrightarrow> x \<in> set xs"
  by (cases xs) simp_all

lemma MakeRoomForWrite_holding:
  assumes "MakeRoomForWrite others force allow_delay db = Some (s, others', db')" and "holding opt dbname n E L db"
    and "\<forall>other \<in> set others. keeps opt dbname n E L other"
  shows "holding opt dbname n E L db' \<and> set others' \<subseteq> set others"
  using assms
proof (induction others force allow_delay db "(s, others', db')" arbitrary: s others' db' rule: MakeRoomForWrite.raw_induct [rotated, consumes 1])
  case (1 make others force allow_delay db s others' db')
  note IH = 1(1) and body = 1(2)
  have h: "holding opt dbname n E L db" and k: "\<forall>other \<in> set others. keeps opt dbname n E L other" by (fact 1)+
  let ?other = "case others of [] \<Rightarrow> (\<lambda>db. db) | f # _ \<Rightarrow> f"
  have other: "holding opt dbname n E L (?other db)"
  proof (cases others)
    case (Cons f fs)
    then have "keeps opt dbname n E L f" using k by simp
    then have "holding opt dbname n E L (f db)" using h unfolding keeps_def by blast
    then show ?thesis by (simp add: Cons)
  next
    case Nil
    show ?thesis unfolding Nil list.case by (rule h)
  qed
  have tl: "\<forall>other \<in> set (tl others). keeps opt dbname n E L other" "set (tl others) \<subseteq> set others"
    using k by (blast dest: tl_in)+
  have again: ?case if "make (tl others) force' delay' (?other db) = Some (s, others', db')" for force' delay'
    using IH [OF that other tl(1)] tl(2) by blast
  obtain s1 db1 where sw: "switch_memtable db = (s1, db1)" by fastforce
  have switched: ?case if "db_imm db = None" "(if ok s1 then make others False allow_delay db1 else Some (s1, others, db1)) = Some (s, others', db')"
    using switch_memtable_holding [OF h that(1) sw] IH [of others False allow_delay db1] k that(2) by simp
  show ?case
    using body again switched h by (auto simp: Let_def sw split: if_splits)
qed

section \<open>The group\<close>

text \<open>The operations of a writer; a writer without a batch has none.\<close>

definition writer_ops :: "writer \<Rightarrow> batch_op list \<Rightarrow> bool" where
  "writer_ops w ops \<longleftrightarrow> (case wr_batch w of None \<Rightarrow> ops = [] | Some b \<Rightarrow> \<exists>seq. wb_holds b seq ops)"

lemma group_loop_holds:
  assumes "group_loop front max_size sz tmp n ws = (tmp', n')" and "list_all2 writer_ops ws opss"
    and "wr_batch front = Some b0" and "wb_holds b0 seq0 ops0"
    and "case tmp of None \<Rightarrow> ops = ops0 | Some t \<Rightarrow> \<exists>seq. wb_holds t seq ops"
  shows "\<exists>k \<le> length ws. n' = n + k \<and>
    (case tmp' of None \<Rightarrow> ops @ concat (take k opss) = ops0 | Some t \<Rightarrow> \<exists>seq. wb_holds t seq (ops @ concat (take k opss)))"
  using assms
proof (induction front max_size sz tmp n ws arbitrary: opss ops rule: group_loop.induct)
  case (1 front max_size sz tmp n)
  then show ?case by (auto split: option.splits)
next
  case (2 front max_size sz tmp n w ws)
  obtain os opss' where o: "opss = os # opss'" "writer_ops w os" "list_all2 writer_ops ws opss'"
    using "2.prems"(2) by (auto simp: list_all2_Cons1)
  have stay: ?case if "(tmp, n) = (tmp', n')"
    using that "2.prems"(5) by (intro exI [of _ 0]) (auto split: option.splits)
  show ?case
  proof (cases "wr_sync w \<and> \<not> wr_sync front")
    case True
    then show ?thesis using "2.prems"(1) stay by simp
  next
    case sync: False
    show ?thesis
    proof (cases "wr_batch w")
      case None
      then have "os = []" using o(2) by (simp add: writer_ops_def)
      moreover have "group_loop front max_size sz tmp (n + 1) ws = (tmp', n')" using "2.prems"(1) sync None by simp
      from "2.IH"(1) [OF sync None this o(3) "2.prems"(3-5)] obtain k where "k \<le> length ws" "n' = n + 1 + k"
        "case tmp' of None \<Rightarrow> ops @ concat (take k opss') = ops0 | Some t \<Rightarrow> \<exists>seq. wb_holds t seq (ops @ concat (take k opss'))" by blast
      ultimately show ?thesis by (intro exI [of _ "Suc k"]) (auto simp: o(1) split: option.splits)
    next
      case (Some b)
      then obtain seq where b: "wb_holds b seq os" using o(2) by (auto simp: writer_ops_def)
      show ?thesis
      proof (cases "sz + wb_ApproximateSize b > max_size")
        case True
        then show ?thesis using "2.prems"(1) stay sync Some by (simp add: Let_def)
      next
        case False
        let ?tmp = "case tmp of None \<Rightarrow> wb_Append new_WriteBatch (the (wr_batch front)) | Some t \<Rightarrow> t"
        have "\<exists>seq. wb_holds ?tmp seq ops"
          using "2.prems"(3-5) wb_holds_Append [OF wb_holds_new "2.prems"(4)] by (cases tmp) auto
        then obtain seq' where "wb_holds (wb_Append ?tmp b) seq' (ops @ os)" using wb_holds_Append [OF _ b] by blast
        moreover have g: "group_loop front max_size (sz + wb_ApproximateSize b) (Some (wb_Append ?tmp b)) (n + 1) ws = (tmp', n')"
          using "2.prems"(1) sync Some False by (simp add: Let_def)
        ultimately obtain k where "k \<le> length ws" "n' = n + 1 + k"
          "case tmp' of None \<Rightarrow> (ops @ os) @ concat (take k opss') = ops0 | Some t \<Rightarrow> \<exists>seq. wb_holds t seq ((ops @ os) @ concat (take k opss'))"
          using "2.IH"(2) [OF sync Some refl False refl g o(3) "2.prems"(3,4), of "ops @ os"] by auto
        then show ?thesis by (intro exI [of _ "Suc k"]) (auto simp: o(1) split: option.splits)
      qed
    qed
  qed
qed

lemma BuildBatchGroup_holds:
  assumes "BuildBatchGroup front rest = (b, k)" and "list_all2 writer_ops (front # rest) opss" and "wr_batch front \<noteq> None"
  shows "1 \<le> k \<and> k \<le> length (front # rest) \<and> (\<exists>seq. wb_holds b seq (concat (take k opss)))"
proof -
  obtain b0 where b0: "wr_batch front = Some b0" using assms(3) by blast
  obtain os opss' where o: "opss = os # opss'" "writer_ops front os" "list_all2 writer_ops rest opss'"
    using assms(2) by (auto simp: list_all2_Cons1)
  then obtain seq0 where h: "wb_holds b0 seq0 os" using b0 by (auto simp: writer_ops_def)
  let ?sz = "wb_ApproximateSize b0"
  let ?max = "if ?sz \<le> 128 * 1024 then ?sz + 128 * 1024 else 1024 * 1024"
  obtain tmp n where g: "group_loop front ?max ?sz None 1 rest = (tmp, n)" by fastforce
  have e: "b = (case tmp of None \<Rightarrow> b0 | Some t \<Rightarrow> t)" "k = n"
    using assms(1) g by (auto simp: BuildBatchGroup_def b0 Let_def)
  from group_loop_holds [OF g o(3) b0 h, of os] obtain j where j: "j \<le> length rest" "n = 1 + j"
    "case tmp of None \<Rightarrow> os @ concat (take j opss') = os | Some t \<Rightarrow> \<exists>seq. wb_holds t seq (os @ concat (take j opss'))" by auto
  have "\<exists>seq. wb_holds b seq (os @ concat (take j opss'))"
  proof (cases tmp)
    case None
    then have same: "os @ concat (take j opss') = os" using j(3) by simp
    show ?thesis unfolding same using h e(1) None by auto
  qed (use j(3) e(1) in auto)
  then show ?thesis using j(1,2) e(2) by (simp add: o(1))
qed

section \<open>The log\<close>

lemma append_log_OK:
  assumes "log_at w ds" and "append_log contents sync w env = (OK, err, w', env')"
  shows "log_at w' (ds @ [contents])" and "pw_filename (lw_dest w') = pw_filename (lw_dest w)" and "\<not> err"
    and "pe_files env' = (pe_files env)(pw_filename (lw_dest w) \<mapsto> log_encs 0 (ds @ [contents]))"
proof -
  obtain s1 w1 where a: "AddRecord posix_writable_ops w contents = (s1, w1)" by fastforce
  obtain s2 d where y: "(if ok s1 \<and> sync then posix_Sync (lw_dest w1) else (s1, lw_dest w1)) = (s2, d)" by fastforce
  have e: "s2 = OK" "w' = w1\<lparr>lw_dest := d\<rparr>" "env' = store_log w' env" "err = (ok s1 \<and> sync \<and> \<not> ok s2)"
    using assms(2) by (auto simp: append_log_def a y Let_def)
  then have s1: "s1 = OK" using y by (cases sync) (auto simp: ok_def split: if_splits)
  note one = log_at_AddRecord [OF assms(1) a [unfolded s1]]
  have d: "posix_content d = posix_content (lw_dest w1)" "fd_data (pw_fd d) = log_encs 0 (ds @ [contents])"
    "pw_filename d = pw_filename (lw_dest w1)" "pw_buf d = []"
  proof -
    consider "sync" "posix_Sync (lw_dest w1) = (OK, d)" | "d = lw_dest w1" using y e(1) s1 by (cases sync) simp_all
    then have "posix_content d = posix_content (lw_dest w1) \<and> fd_data (pw_fd d) = log_encs 0 (ds @ [contents]) \<and> pw_filename d = pw_filename (lw_dest w1) \<and> pw_buf d = []"
    proof cases
      case 1
      then show ?thesis using posix_Sync_OK [OF 1(2)] posix_Sync_OK' [OF 1(2)] one(1) by (simp add: log_at_def)
    next
      case 2
      then show ?thesis using one by (simp add: log_at_def posix_log.at_offset_def)
    qed
    then show "posix_content d = posix_content (lw_dest w1)" "fd_data (pw_fd d) = log_encs 0 (ds @ [contents])"
      "pw_filename d = pw_filename (lw_dest w1)" "pw_buf d = []"
      by blast+
  qed
  show "log_at w' (ds @ [contents])" using one(1) d by (simp add: log_at_def e(2) posix_log.at_offset_def)
  show "pw_filename (lw_dest w') = pw_filename (lw_dest w)" using d(3) filename_AddRecord [OF a] by (simp add: e(2))
  show "\<not> err" using e by simp
  show "pe_files env' = (pe_files env)(pw_filename (lw_dest w) \<mapsto> log_encs 0 (ds @ [contents]))"
    using d(2,3) filename_AddRecord [OF a] by (simp add: e(2,3) store_log_def store_fd_def)
qed

lemma append_log_env:
  assumes "append_log contents sync w env = (s, err, w', env')"
  shows "reliable_env env' = reliable_env env" and "f \<noteq> pw_filename (lw_dest w) \<Longrightarrow> pe_files env' f = pe_files env f"
proof -
  obtain s1 w1 where a: "AddRecord posix_writable_ops w contents = (s1, w1)" by fastforce
  obtain s2 d where y: "(if ok s1 \<and> sync then posix_Sync (lw_dest w1) else (s1, lw_dest w1)) = (s2, d)" by fastforce
  have e: "w' = w1\<lparr>lw_dest := d\<rparr>" "env' = store_log w' env" using assms by (auto simp: append_log_def a y Let_def)
  have "pw_filename d = pw_filename (lw_dest w1)" using y Sync_filename [of "lw_dest w1" s2 d] by (simp split: if_splits)
  then show "reliable_env env' = reliable_env env" and "f \<noteq> pw_filename (lw_dest w) \<Longrightarrow> pe_files env' f = pe_files env f"
    using filename_AddRecord [OF a] by (simp_all add: e store_log_def reliable_store, simp add: store_fd_def)
qed

section \<open>The memtable\<close>

lemma numbered_append: "numbered q (ops @ ops') = numbered q ops @ numbered (q + word_of_nat (length ops)) ops'"
proof (induction ops arbitrary: q)
  case (Cons op ops)
  then show ?case by (cases op) (simp_all add: algebra_simps)
qed simp

lemma numbered_range:
  assumes "unat L + length ops < 2 ^ 56" and "e \<in> set (numbered (L + 1) ops)"
  shows "L < fst e" and "fst e \<le> L + word_of_nat (length ops)"
proof -
  have u: "unat (L + 1) = unat L + 1" using assms(1) by (simp add: unat_word_ariths)
  have "fst e \<in> set (map fst (numbered (L + 1) ops))" using assms(2) by simp
  moreover have "map fst (numbered (L + 1) ops) = map (\<lambda>i. L + 1 + word_of_nat i) [0..<length ops]"
    by (rule numbered_seqs) (use assms(1) u in simp)
  ultimately have "fst e \<in> (\<lambda>i. L + 1 + word_of_nat i) ` {0..<length ops}" by (simp only: set_map set_upt)
  then obtain i where i: "i < length ops" "fst e = L + 1 + word_of_nat i" by auto
  have "unat (L + 1 + word_of_nat i) = unat L + 1 + i" "unat (L + word_of_nat (length ops)) = unat L + length ops"
    using i(1) assms(1) u by (simp_all add: unat_word_ariths take_bit_nat_eq_self)
  then show "L < fst e" "fst e \<le> L + word_of_nat (length ops)" using i by (simp_all add: word_less_nat_alt word_le_nat_alt)
qed

lemma InsertInto_holding:
  assumes ok: "db_ok opt dbname store entries mem imm n db"
    and old: "\<forall>e \<in> db_entries mem imm entries db. key_tag (fst e) \<le> PackSequenceAndType L kTypeValue"
    and b: "wb_holds b (L + 1) ops" "\<forall>op \<in> set ops. memtable_op op" "length ops < 2 ^ 31"
    and room: "unat L + length ops < 2 ^ 56"
  defines "es \<equiv> numbered (L + 1) ops" and "db' \<equiv> \<lambda>mt. db\<lparr>db_mem := mt, db_versions := vs_SetLastSequence (L + word_of_nat (length ops)) (db_versions db)\<rparr>"
  shows "\<exists>mt. wb_InsertInto BytewiseComparator b (db_mem db) = (OK, Some mt) \<and>
    db_ok opt dbname store entries (mem @ es) imm n (db' mt) \<and> db_entries (mem @ es) imm entries (db' mt) = db_entries mem imm entries db \<union> mem_entries es \<and>
    (\<forall>e \<in> mem_entries es. key_tag (fst e) \<le> PackSequenceAndType (L + word_of_nat (length ops)) kTypeValue \<and> PackSequenceAndType L kTypeValue < key_tag (fst e))"
proof -
  have u: "unat (L + 1) = unat L + 1" "unat (L + word_of_nat (length ops)) = unat L + length ops"
    using room by (simp_all add: unat_word_ariths take_bit_nat_eq_self)
  have max: "L \<le> kMaxSequenceNumber" "L + word_of_nat (length ops) \<le> kMaxSequenceNumber"
    using room u by (simp_all add: word_le_nat_alt kMaxSequenceNumber_def)
  obtain ks where mem: "\<forall>e \<in> set mem. valid_write e" "sorted_wrt (<) (map fst mem)" "bytewise_user.mem_rep (db_mem db) mem ks"
    using ok by (auto simp: db_ok_def holds_writes_def)
  have es: "\<forall>e \<in> set es. valid_write e" "sorted_wrt (<) (map fst es)"
    using numbered_valid [OF b(2), of "L + 1"] numbered_sorted(1) [of "L + 1" ops] room u(1) by (simp_all add: es_def)
  have below: "fst e \<le> L" if "e \<in> set mem" for e
  proof -
    obtain q t k v where e: "e = (q, t, k, v)" by (metis prod_cases4)
    have "(InternalKey k q t, v) \<in> mem_entries mem" using that by (force simp: mem_entries_def e)
    then have "PackSequenceAndType q t \<le> PackSequenceAndType L kTypeValue" using bspec [OF old, of "(InternalKey k q t, v)"] by (simp add: db_entries_def)
    moreover have "q \<le> kMaxSequenceNumber" using mem(1) that by (auto simp: e valid_write_def)
    ultimately show ?thesis using Pack_less_iff [OF max(1), of q kTypeValue t] by (force simp: e)
  qed
  have above: "L < fst e" "fst e \<le> L + word_of_nat (length ops)" if "e \<in> set es" for e
    using numbered_range [OF room, of e] that by (simp_all add: es_def)
  have srt: "sorted_wrt (<) (map fst (mem @ es))"
    using mem(2) es(2) below above(1) by (fastforce simp: sorted_wrt_append)
  then have "distinct (map fst (mem @ es))" by (simp add: strict_sorted_iff del: map_append)
  from bytewise_user.mem_rep_AddAll [OF mem(3) es(1) this] obtain mt ks' where
    mt: "mem_AddAll BytewiseComparator es (db_mem db) = Some mt" "bytewise_user.mem_rep mt (mem @ es) ks'" by blast
  have ins: "wb_InsertInto BytewiseComparator b (db_mem db) = (OK, Some mt)"
    using fold_MemTableInserter [OF mt(1) [unfolded es_def]]
    by (auto simp: wb_InsertInto_def wb_Sequence_holds [OF b(1)] wb_Iterate_holds [OF b(1,3)])
  have tags: "\<forall>e \<in> mem_entries es. key_tag (fst e) \<le> PackSequenceAndType (L + word_of_nat (length ops)) kTypeValue \<and>
      PackSequenceAndType L kTypeValue < key_tag (fst e)"
  proof
    fix e assume "e \<in> mem_entries es"
    then obtain q t k v where e: "(q, t, k, v) \<in> set es" "e = (InternalKey k q t, v)" by (auto simp: mem_entries_def)
    have q: "L < q" "q \<le> L + word_of_nat (length ops)" "q \<le> kMaxSequenceNumber"
      using above [OF e(1)] max(2) by simp_all
    show "key_tag (fst e) \<le> PackSequenceAndType (L + word_of_nat (length ops)) kTypeValue \<and> PackSequenceAndType L kTypeValue < key_tag (fst e)"
      using Pack_less_iff [OF max(2) q(3), of kTypeValue t] Pack_less_iff [OF max(1) q(3), of kTypeValue t] q e(2)
      by (cases t) (auto simp: not_less [symmetric] less_ValueType_def type_code_def)
  qed
  have new: "all_newer (mem_entries es) (db_entries mem imm entries db)"
    using tags old unfolding all_newer_def by (meson le_less_trans)
  have E: "mem_entries (mem @ es) = mem_entries mem \<union> mem_entries es" by (simp add: mem_entries_def image_Un)
  have "db_ok opt dbname store entries (mem @ es) imm n (db' mt)"
    using ok new mt(2) mem(1) es(1) srt max(2)
    unfolding db_ok_def files_served_def db'_def vs_SetLastSequence_def E
    by (auto simp: all_newer_def holds_writes_def db_entries_def)
  moreover have "db_entries (mem @ es) imm entries (db' mt) = db_entries mem imm entries db \<union> mem_entries es"
    by (auto simp: db_entries_def db'_def vs_SetLastSequence_def E)
  ultimately show ?thesis using ins tags by blast
qed

section \<open>Writing\<close>

lemma scast_count:
  assumes "wb_holds b seq ops" and "length ops < 2 ^ 31"
  shows "scast (wb_Count b) = (word_of_nat (length ops) :: u64)"
proof -
  have "sint (word_of_nat (length ops) :: u32) = int (length ops)"
    using assms(2) by (simp add: signed_of_nat signed_take_bit_int_eq_self)
  then show ?thesis unfolding wb_Count_holds [OF assms(1)] scast_eq by simp
qed

text \<open>The group's record is in the log, as the last one of its file.\<close>

definition logged :: "bytes \<Rightarrow> bytes \<Rightarrow> db \<Rightarrow> bool" where
  "logged dbname record db \<longleftrightarrow> (\<exists>ds. log_open dbname (ds @ [record]) db)"

lemma write_group_OK:
  assumes h: "holding opt dbname n E L db" and b: "wb_holds b (L + 1) ops" "\<forall>op \<in> set ops. memtable_op op" "length ops < 2 ^ 31"
    and room: "unat L + length ops < 2 ^ 56" and run: "write_group sync L b db = Some (OK, db')"
  defines "es \<equiv> numbered (L + 1) ops"
  shows "holding opt dbname n (E \<union> mem_entries es) (L + word_of_nat (length ops)) db'" and "logged dbname (wb_rep b) db'"
proof -
  obtain store entries mem imm where ok: "db_ok opt dbname store entries mem imm n db" "db_entries mem imm entries db = E"
    using h by (auto simp: holding_def)
  obtain ds w m where w: "db_log db = Some w" "log_at w ds" "pw_filename (lw_dest w) = LogFileName dbname m"
    using h by (auto simp: holding_def log_open_def)
  have old: "\<forall>e \<in> E. key_tag (fst e) \<le> PackSequenceAndType L kTypeValue" using h by (simp add: holding_def)
  note r = db_ok_reliable [OF ok(1)]
  obtain s err w' env where a: "append_log (wb_rep b) sync w (db_env db) = (s, err, w', env)" by (metis prod_cases4)
  let ?db = "db_set_env env (db\<lparr>db_log := Some w'\<rparr>)"
  have s: "s = OK"
    using run by (cases "ok s") (auto simp: write_group_def w(1) a ok_def Let_def split: if_splits)
  note ao = append_log_OK [OF w(2) a [unfolded s]]
  have "reliable_env env" using append_log_env(1) [OF a] r(1) by simp
  moreover have "pe_files env (TableFileName dbname k) = pe_files (db_env db) (TableFileName dbname k)" for k
    by (rule append_log_env(2) [OF a]) (simp add: w(3) Table_not_Log)
  ultimately have ok1: "db_ok opt dbname store entries mem imm n (db_set_env env db)" by (rule db_ok_env [OF ok(1)])
  then have ok1: "db_ok opt dbname store entries mem imm n ?db" by (simp add: db_ok_def files_served_def db_set_env_def)
  have E1: "db_entries mem imm entries ?db = E" using ok(2) by (simp add: db_entries_def db_set_env_def)
  have f: "db_mem ?db = db_mem db" "vs_user (db_versions ?db) = BytewiseComparator" "db_versions ?db = db_versions db"
    using r(3) by (simp_all add: db_set_env_def)
  obtain mt where mt: "wb_InsertInto BytewiseComparator b (db_mem db) = (OK, Some mt)"
    "db_ok opt dbname store entries (mem @ es) imm n (?db\<lparr>db_mem := mt, db_versions := vs_SetLastSequence (L + word_of_nat (length ops)) (db_versions db)\<rparr>)"
    "db_entries (mem @ es) imm entries (?db\<lparr>db_mem := mt, db_versions := vs_SetLastSequence (L + word_of_nat (length ops)) (db_versions db)\<rparr>) = E \<union> mem_entries es"
    "\<forall>e \<in> mem_entries es. key_tag (fst e) \<le> PackSequenceAndType (L + word_of_nat (length ops)) kTypeValue \<and>
       PackSequenceAndType L kTypeValue < key_tag (fst e)"
    using InsertInto_holding [OF ok1 _ b room] old unfolding E1 f es_def by blast
  have db': "db' = ?db\<lparr>db_mem := mt, db_versions := vs_SetLastSequence (L + word_of_nat (length ops)) (db_versions db)\<rparr>"
    using run ao(3) r(3) mt(1) by (simp add: write_group_def w(1) a s f scast_count [OF b(1,3)] db_set_env_def)
  have log: "log_open dbname (ds @ [wb_rep b]) db'"
    using ao w(3) by (auto simp: log_open_def db' db_set_env_def)
  then show "logged dbname (wb_rep b) db'" unfolding logged_def by blast
  have up: "PackSequenceAndType L kTypeValue \<le> PackSequenceAndType (L + word_of_nat (length ops)) kTypeValue"
  proof -
    have "unat (L + word_of_nat (length ops)) = unat L + length ops" using room by (simp add: unat_word_ariths take_bit_nat_eq_self)
    then have "L \<le> L + word_of_nat (length ops)" "L \<le> kMaxSequenceNumber" "L + word_of_nat (length ops) \<le> kMaxSequenceNumber"
      using room by (simp_all add: word_le_nat_alt kMaxSequenceNumber_def)
    then show ?thesis using Pack_less_iff [of "L + word_of_nat (length ops)" L kTypeValue kTypeValue] by (force simp: not_less [symmetric])
  qed
  have "\<forall>e \<in> E \<union> mem_entries es. key_tag (fst e) \<le> PackSequenceAndType (L + word_of_nat (length ops)) kTypeValue"
    using old mt(4) up by (meson UnE order_trans)
  then show "holding opt dbname n (E \<union> mem_entries es) (L + word_of_nat (length ops)) db'"
    unfolding holding_def using mt(2,3) log by (auto simp: db' vs_SetLastSequence_def)
qed

lemma db_Write_OK:
  assumes h: "holding opt dbname n E L db" and others: "\<forall>other \<in> set others. keeps opt dbname n E L other"
    and ws: "list_all2 writer_ops (front # rest) opss" "wr_batch front \<noteq> None"
    and ops: "\<forall>op \<in> set (concat opss). memtable_op op" "length (concat opss) < 2 ^ 31" "unat L + length (concat opss) < 2 ^ 56"
    and run: "db_Write others front rest db = Some (OK, k, db')"
  defines "done_ops \<equiv> concat (take k opss)"
  shows "1 \<le> k \<and> k \<le> length (front # rest) \<and>
    holding opt dbname n (E \<union> mem_entries (numbered (L + 1) done_ops)) (L + word_of_nat (length done_ops)) db' \<and>
    (\<exists>b. wb_holds b (L + 1) done_ops \<and> logged dbname (wb_rep b) db')"
proof -
  obtain s others' db1 where m: "MakeRoomForWrite others False True db = Some (s, others', db1)"
    using run ws(2) by (auto simp: db_Write_def split: option.splits)
  note h1 = MakeRoomForWrite_holding [OF m h others]
  have s: "s = OK" using run ws(2) m by (auto simp: db_Write_def ok_def split: if_splits)
  obtain b j where g: "BuildBatchGroup front rest = (b, j)" by fastforce
  let ?b = "wb_SetSequence (L + 1) b"
  let ?db = "case others' of [] \<Rightarrow> db1 | other # _ \<Rightarrow> other db1"
  have L: "vs_last_sequence (db_versions db1) = L" using h1 by (simp add: holding_def)
  have w: "write_group (wr_sync front) L ?b ?db = Some (OK, db')" "j = k"
    using run ws(2) m s g by (auto simp: db_Write_def L)
  have hd: "holding opt dbname n E L ?db"
  proof (cases others')
    case (Cons f fs)
    then have "keeps opt dbname n E L f" using h1 others by auto
    then have "holding opt dbname n E L (f db1)" using h1 unfolding keeps_def by blast
    then show ?thesis by (simp add: Cons)
  qed (use h1 in simp)
  note gr = BuildBatchGroup_holds [OF g ws, unfolded w(2)]
  then have b: "wb_holds ?b (L + 1) done_ops" using wb_holds_SetSequence unfolding done_ops_def by blast
  have sub: "concat opss = done_ops @ concat (drop k opss)"
    unfolding done_ops_def by (metis append_take_drop_id concat_append)
  have o: "\<forall>op \<in> set done_ops. memtable_op op" "length done_ops < 2 ^ 31" "unat L + length done_ops < 2 ^ 56"
    using ops unfolding sub by auto
  note wg = write_group_OK [OF hd b o w(1)]
  show ?thesis using gr wg b by blast
qed

section \<open>Reading what was written\<close>

text \<open>The operation on a user key that counts, and what it leaves to read.\<close>

definition op_key :: "batch_op \<Rightarrow> bytes" where
  "op_key op = (case op of BPut k _ \<Rightarrow> k | BDelete k \<Rightarrow> k)"

definition last_op :: "bytes \<Rightarrow> batch_op list \<Rightarrow> batch_op option" where
  "last_op u ops = find (\<lambda>op. op_key op = u) (rev ops)"

definition op_answer :: "batch_op \<Rightarrow> status \<times> bytes option" where
  "op_answer op = (case op of BPut _ v \<Rightarrow> (OK, Some v) | BDelete _ \<Rightarrow> (NotFound [], None))"

definition op_entry :: "u64 \<Rightarrow> batch_op \<Rightarrow> bytes \<times> bytes" where
  "op_entry q op = (case op of BPut k v \<Rightarrow> (InternalKey k q kTypeValue, v) | BDelete k \<Rightarrow> (InternalKey k q kTypeDeletion, []))"

lemma numbered_entries: "mem_entries (numbered q (op # ops)) = insert (op_entry q op) (mem_entries (numbered (q + 1) ops))"
  by (cases op) (simp_all add: mem_entries_def op_entry_def)

lemma op_entry_facts:
  assumes "q \<le> kMaxSequenceNumber"
  shows "ExtractUserKey (fst (op_entry q op)) = op_key op" and "read_entry (Some (op_entry q op)) = op_answer op"
    and "seq_of (fst (op_entry q op)) = q"
  using assms by (cases op; simp add: op_entry_def op_key_def read_entry_def op_answer_def Parse_InternalKey seq_of_def drop_Pack)+

lemma numbered_seq_of:
  assumes "unat L + length ops < 2 ^ 56" and "e \<in> mem_entries (numbered (L + 1) ops)"
  shows "L < seq_of (fst e)" and "seq_of (fst e) \<le> L + word_of_nat (length ops)"
proof -
  obtain q t k v where e: "(q, t, k, v) \<in> set (numbered (L + 1) ops)" "e = (InternalKey k q t, v)"
    using assms(2) by (auto simp: mem_entries_def)
  have q: "L < q" "q \<le> L + word_of_nat (length ops)" using numbered_range [OF assms(1) e(1)] by simp_all
  have "unat (L + word_of_nat (length ops)) = unat L + length ops" using assms(1) by (simp add: unat_word_ariths take_bit_nat_eq_self)
  then have "q \<le> kMaxSequenceNumber" using q(2) assms(1) by (simp add: word_le_nat_alt kMaxSequenceNumber_def)
  then show "L < seq_of (fst e)" "seq_of (fst e) \<le> L + word_of_nat (length ops)"
    using q by (simp_all add: e(2) seq_of_def drop_Pack)
qed

lemma numbered_user_key:
  "e \<in> mem_entries (numbered q ops) \<Longrightarrow> \<exists>op \<in> set ops. ExtractUserKey (fst e) = op_key op"
proof (induction ops arbitrary: q)
  case (Cons op ops)
  then consider "e = op_entry q op" | "e \<in> mem_entries (numbered (q + 1) ops)" by (auto simp: numbered_entries)
  then show ?case
  proof cases
    case 1
    then show ?thesis by (cases op) (simp_all add: op_entry_def op_key_def)
  next
    case 2
    then show ?thesis using Cons.IH by auto
  qed
qed (simp add: mem_entries_def)

text \<open>The last operation on a key is newer than all else.\<close>

lemma last_op_newest:
  assumes "last_op u ops = Some op" and "unat L + length ops < 2 ^ 56"
    and "\<forall>e \<in> E. key_tag (fst e) \<le> PackSequenceAndType L kTypeValue"
    and "newest (E \<union> mem_entries (numbered (L + 1) ops)) u (L + word_of_nat (length ops)) r"
  shows "read_entry r = op_answer op"
proof -
  from find_first [OF assms(1) [unfolded last_op_def]] obtain ys zs where
    s: "rev ops = ys @ op # zs" "op_key op = u" "\<forall>y \<in> set ys. op_key y \<noteq> u" by blast
  then have ops: "ops = rev zs @ op # rev ys" by (metis rev_append rev_rev_ident rev.simps(2) append.assoc append_Cons append_Nil)
  let ?pre = "rev zs" and ?post = "rev ys" and ?L' = "L + word_of_nat (length ops)"
  let ?q = "L + 1 + word_of_nat (length ?pre)"
  have len: "length ops = length ?pre + 1 + length ?post" by (simp add: ops)
  have u: "unat ?q = unat L + 1 + length ?pre" "unat ?L' = unat L + length ops" "unat (L + word_of_nat (length ?pre)) = unat L + length ?pre"
    using assms(2) len by (simp_all add: unat_word_ariths take_bit_nat_eq_self)
  have max: "?q \<le> kMaxSequenceNumber" "?L' \<le> kMaxSequenceNumber" "L \<le> kMaxSequenceNumber"
    using u assms(2) len by (simp_all add: word_le_nat_alt kMaxSequenceNumber_def)
  let ?e = "op_entry ?q op"
  have all: "mem_entries (numbered (L + 1) ops) = mem_entries (numbered (L + 1) ?pre) \<union> insert ?e (mem_entries (numbered (?q + 1) ?post))"
    unfolding ops numbered_append by (simp add: mem_entries_def image_Un numbered_entries [unfolded mem_entries_def])
  note ef = op_entry_facts [OF max(1), of op]
  have tag: "key_tag (fst ?e) = PackSequenceAndType ?q kTypeValue \<or> key_tag (fst ?e) = PackSequenceAndType ?q kTypeDeletion"
    by (cases op) (simp_all add: op_entry_def)
  have vis: "?e \<in> visible_in (E \<union> mem_entries (numbered (L + 1) ops)) u ?L'"
  proof -
    have "?q \<le> ?L'" using u len by (simp add: word_le_nat_alt)
    then have "key_tag (fst ?e) \<le> PackSequenceAndType ?L' kValueTypeForSeek"
      using tag Pack_less_iff [OF max(2,1), of kTypeValue kTypeValue] Pack_less_iff [OF max(2,1), of kTypeValue kTypeDeletion]
      by (auto simp: kValueTypeForSeek_def not_less [symmetric] less_ValueType_def type_code_def)
    then show ?thesis using ef(1) s(2) by (simp add: visible_in_def all)
  qed
  have less: "key_tag (fst e) < key_tag (fst ?e)" if e: "e \<in> visible_in (E \<union> mem_entries (numbered (L + 1) ops)) u ?L'" "e \<noteq> ?e" for e
  proof -
    have "L < ?q" using u by (simp add: word_less_nat_alt)
    have k: "ExtractUserKey (fst e) = u" using e(1) by (simp add: visible_in_def)
    have "e \<notin> mem_entries (numbered (?q + 1) ?post)" using numbered_user_key [of e "?q + 1" ?post] s(3) k by (metis set_rev)
    then consider "e \<in> E" | "e \<in> mem_entries (numbered (L + 1) ?pre)" using e by (auto simp: visible_in_def all)
    then show ?thesis
    proof cases
      case 1
      then have "key_tag (fst e) \<le> PackSequenceAndType L kTypeValue" using assms(3) by blast
      also have "\<dots> < key_tag (fst ?e)"
        using tag Pack_less_iff [OF max(3,1), of kTypeValue kTypeValue] Pack_less_iff [OF max(3,1), of kTypeValue kTypeDeletion] \<open>L < ?q\<close> by auto
      finally show ?thesis .
    next
      case 2
      then have "seq_of (fst e) \<le> L + word_of_nat (length ?pre)" using numbered_seq_of(2) [of L ?pre e] assms(2) len by simp
      also have "\<dots> < ?q" using u by (simp add: word_less_nat_alt)
      finally have "seq_of (fst e) < seq_of (fst ?e)" unfolding ef(3) .
      then show ?thesis using seq_mono [of "fst ?e" "fst e"] by (meson not_less)
    qed
  qed
  have "r = Some ?e"
  proof (cases r)
    case None
    then show ?thesis using assms(4) vis by (auto simp: newest_def)
  next
    case (Some e)
    then have e: "e \<in> visible_in (E \<union> mem_entries (numbered (L + 1) ops)) u ?L'" "key_tag (fst ?e) \<le> key_tag (fst e)"
      using assms(4) vis by (simp_all add: newest_def)
    then have "e = ?e" using less [OF e(1)] by (metis not_less)
    then show ?thesis using Some by simp
  qed
  then show ?thesis using ef(2) by simp
qed

lemma last_op_key:
  assumes "last_op u ops = Some op" and "\<forall>op \<in> set ops. memtable_op op"
  shows "length u + 8 < 2 ^ 32"
proof -
  from find_first [OF assms(1) [unfolded last_op_def]] obtain ys zs where "rev ops = ys @ op # zs" "op_key op = u" by blast
  then have "op \<in> set ops" by (metis in_set_conv_decomp set_rev)
  then have "memtable_op op" using assms(2) by blast
  then have "length (op_key op) + 8 < 2 ^ 32" by (cases op) (simp_all add: op_key_def)
  then show ?thesis using \<open>op_key op = u\<close> by simp
qed

lemma Get_last_op:
  assumes h: "holding opt dbname n (E \<union> mem_entries (numbered (L + 1) ops)) (L + word_of_nat (length ops)) db"
    and old: "\<forall>e \<in> E. key_tag (fst e) \<le> PackSequenceAndType L kTypeValue" and op: "last_op u ops = Some op"
    and len: "unat L + length ops < 2 ^ 56" and n: "length (db_files db ! 0) + kNumLevels \<le> n" and u: "length u + 8 < 2 ^ 32"
  shows "\<exists>db'. db_Get ro None u db = Some (fst (op_answer op), snd (op_answer op), db')"
proof -
  obtain store entries mem imm where ok: "db_ok opt dbname store entries mem imm n db"
    "db_entries mem imm entries db = E \<union> mem_entries (numbered (L + 1) ops)" using h by (auto simp: holding_def)
  have "n = (n - (length (db_files db ! 0) + kNumLevels)) + (length (db_files db ! 0) + kNumLevels)" using n by simp
  then have "db_ok opt dbname store entries mem imm ((n - (length (db_files db ! 0) + kNumLevels)) + (length (db_files db ! 0) + kNumLevels)) db"
    using ok(1) by metis
  from db_Get_newest [OF this u, where snapshot = None and s = "L + word_of_nat (length ops)" and ro = ro] obtain r db' where
    g: "db_Get ro None u db = Some (fst (read_entry r), snd (read_entry r), db')" "newest (db_entries mem imm entries db) u (L + word_of_nat (length ops)) r"
    using h by (auto simp: holding_def)
  then show ?thesis using last_op_newest [OF op len old g(2) [unfolded ok(2)]] by auto
qed

section \<open>A kernel that does not fail\<close>

lemma calm_append_log:
  assumes "calm (lw_dest w)"
  shows "fst (append_log contents sync w env) = OK"
proof -
  obtain w1 where a: "AddRecord posix_writable_ops w contents = (OK, w1)" "calm (lw_dest w1)" using calm_AddRecord [OF assms] by blast
  obtain d where "posix_Sync (lw_dest w1) = (OK, d)" using calm_Sync [OF a(2)] by blast
  then show ?thesis using a(1) by (cases sync) (simp_all add: append_log_def Let_def)
qed

lemma db_Write_calm:
  assumes h: "holding opt dbname n E L db" and ws: "list_all2 writer_ops (front # rest) opss" "wr_batch front \<noteq> None"
    and ops: "\<forall>op \<in> set (concat opss). memtable_op op" "length (concat opss) < 2 ^ 31" "unat L + length (concat opss) < 2 ^ 56"
    and room: "ok (db_bg_error db)" "NumLevelFiles (db_versions db) 0 < kL0_SlowdownWritesTrigger" "ApproximateMemoryUsage (db_mem db) \<le> db_write_buffer_size db"
    and log: "db_log db = Some w" "calm (lw_dest w)"
  shows "\<exists>k db'. db_Write [] front rest db = Some (OK, k, db')"
proof -
  have m: "MakeRoomForWrite [] False True db = Some (OK, [], db)"
    by (subst MakeRoomForWrite.simps) (use room in simp)
  obtain b k where g: "BuildBatchGroup front rest = (b, k)" by fastforce
  obtain seq where b: "wb_holds b seq (concat (take k opss))" using BuildBatchGroup_holds [OF g ws] by blast
  have sub: "concat opss = concat (take k opss) @ concat (drop k opss)" by (metis append_take_drop_id concat_append)
  have o: "\<forall>op \<in> set (concat (take k opss)). memtable_op op" "length (concat (take k opss)) < 2 ^ 31" "unat L + length (concat (take k opss)) < 2 ^ 56"
    using ops unfolding sub by auto
  obtain store entries mem imm where ok: "db_ok opt dbname store entries mem imm n db" "db_entries mem imm entries db = E"
    using h by (auto simp: holding_def)
  have L: "vs_last_sequence (db_versions db) = L" "\<forall>e \<in> E. key_tag (fst e) \<le> PackSequenceAndType L kTypeValue" using h by (simp_all add: holding_def)
  obtain mt where mt: "wb_InsertInto BytewiseComparator (wb_SetSequence (L + 1) b) (db_mem db) = (OK, Some mt)"
    using InsertInto_holding [OF ok(1) _ wb_holds_SetSequence [OF b] o] L(2) ok(2) by blast
  have "\<exists>db'. write_group sync L (wb_SetSequence (L + 1) b) db = Some (OK, db')" for sync
  proof -
    obtain s err w' env where a: "append_log (wb_rep (wb_SetSequence (L + 1) b)) sync w (db_env db) = (s, err, w', env)" by (metis prod_cases4)
    then have "s = OK" using calm_append_log [OF log(2)] by (metis fst_conv)
    then show ?thesis using a log(1) mt db_ok_reliable(3) [OF ok(1)] by (simp add: write_group_def db_set_env_def Let_def)
  qed
  then show ?thesis using m g ws(2) by (auto simp: db_Write_def L(1))
qed

lemma write_group_current:
  assumes "write_group sync L b db = Some (s, db')"
  shows "vs_current (db_versions db') = vs_current (db_versions db)"
proof -
  have f: "db_versions (db_set_env env d) = db_versions d" "db_versions (RecordBackgroundError s d) = db_versions d" for env s d
    by (simp_all add: db_set_env_def RecordBackgroundError_def)
  show ?thesis using assms
    by (auto simp: write_group_def Let_def vs_SetLastSequence_def f split: option.splits prod.splits if_splits)
qed

lemma db_Write_current:
  assumes "ok (db_bg_error db)" "NumLevelFiles (db_versions db) 0 < kL0_SlowdownWritesTrigger" "ApproximateMemoryUsage (db_mem db) \<le> db_write_buffer_size db"
    and "wr_batch front \<noteq> None" and "db_Write [] front rest db = Some (s, k, db')"
  shows "vs_current (db_versions db') = vs_current (db_versions db)"
proof -
  have m: "MakeRoomForWrite [] False True db = Some (OK, [], db)"
    by (subst MakeRoomForWrite.simps) (use assms(1-3) in simp)
  show ?thesis using assms(4,5) by (auto simp: db_Write_def m Let_def dest: write_group_current split: prod.splits)
qed

text \<open>Writing to the database of the read path's example, with an empty memtable and a new log.\<close>

definition fresh_db :: db where
  "fresh_db = demo_db\<lparr>db_mem := new_MemTable,
     db_log := Some (new_log_writer (new_posix_writable (LogFileName [100] 9) \<lparr>fd_data = [], fd_answers = []\<rparr> \<lparr>fd_data = [], fd_answers = []\<rparr>) 0)\<rparr>"

lemma fresh_holding: "holding demo_options [100] 1000 {demo_entry} 8 fresh_db"
proof -
  have "\<exists>ks. bytewise_user.mem_rep new_MemTable [] ks" using bytewise_user.mem_rep_new by blast
  then have "holds_writes (Some new_MemTable) []" by (simp add: holds_writes_def)
  then have "db_ok demo_options [100] demo_store demo_contents [] [] 1000 fresh_db"
    using demo_db_ok unfolding db_ok_def files_served_def by (simp add: fresh_db_def mem_entries_def all_newer_def)
  moreover have "db_entries [] [] demo_contents fresh_db = {demo_entry}"
    using demo_stored by (simp add: db_entries_def mem_entries_def fresh_db_def demo_db_def)
  moreover have "log_open [100] [] fresh_db"
    using new_log_at by (auto simp: log_open_def fresh_db_def new_log_writer_def new_posix_writable_def posix_content_def)
  moreover have "key_tag (fst demo_entry) \<le> PackSequenceAndType 8 kTypeValue"
    by (simp add: demo_key PackSequenceAndType_def type_code_def)
  ultimately show ?thesis unfolding holding_def by (auto simp: fresh_db_def demo_db_def)
qed

section \<open>Properties\<close>

text \<open>
  C1: Writes are logged and read. When \<^verbatim>\<open>DBImpl::Write\<close> returns OK for the writer at the front of the queue, the operations of a
  non-empty prefix of the queue, itself included, have been given the next sequence numbers in their order, the log ends with
  the one record that holds them, all other entries are as before, and the last operation on a user key is
  what \<^verbatim>\<open>DBImpl::Get\<close> answers from then on, through memtables, tables and caches; whatever calls of other threads that leave the entries as they are
  come in while the writer waits or the mutex is released. With room in the memtable and a kernel that does not fail, it does return OK.
\<close>

theorem writes_are_read:
  assumes "holding opt dbname n E L db" and "\<forall>other \<in> set others. keeps opt dbname n E L other"
    and "list_all2 writer_ops (front # rest) opss" and "wr_batch front \<noteq> None" and "\<forall>op \<in> set (concat opss). memtable_op op"
    and "length (concat opss) < 2 ^ 31" and "unat L + length (concat opss) < 2 ^ 56"
  shows "(db_Write others front rest db = Some (OK, k, db') \<longrightarrow>
      1 \<le> k \<and> k \<le> length (front # rest) \<and>
      holding opt dbname n (E \<union> mem_entries (numbered (L + 1) (concat (take k opss)))) (L + word_of_nat (length (concat (take k opss)))) db' \<and>
      (\<exists>b. wb_holds b (L + 1) (concat (take k opss)) \<and> logged dbname (wb_rep b) db') \<and>
      (\<forall>ro u op. last_op u (concat (take k opss)) = Some op \<longrightarrow> length (db_files db' ! 0) + kNumLevels \<le> n \<longrightarrow>
         (\<exists>db''. db_Get ro None u db' = Some (fst (op_answer op), snd (op_answer op), db'')))) \<and>
    (ok (db_bg_error db) \<and> NumLevelFiles (db_versions db) 0 < kL0_SlowdownWritesTrigger \<and> ApproximateMemoryUsage (db_mem db) \<le> db_write_buffer_size db \<and>
      (\<exists>w. db_log db = Some w \<and> calm (lw_dest w)) \<longrightarrow> (\<exists>k db'. db_Write [] front rest db = Some (OK, k, db')))"
proof (intro conjI impI)
  assume "ok (db_bg_error db) \<and> NumLevelFiles (db_versions db) 0 < kL0_SlowdownWritesTrigger \<and> ApproximateMemoryUsage (db_mem db) \<le> db_write_buffer_size db \<and>
      (\<exists>w. db_log db = Some w \<and> calm (lw_dest w))"
  then show "\<exists>k db'. db_Write [] front rest db = Some (OK, k, db')" using db_Write_calm [OF assms(1,3-7)] by blast
next
  assume run: "db_Write others front rest db = Some (OK, k, db')"
  note w = db_Write_OK [OF assms run]
  let ?ops = "concat (take k opss)"
  show "1 \<le> k" "k \<le> length (front # rest)" "\<exists>b. wb_holds b (L + 1) ?ops \<and> logged dbname (wb_rep b) db'"
    and h: "holding opt dbname n (E \<union> mem_entries (numbered (L + 1) ?ops)) (L + word_of_nat (length ?ops)) db'"
    using w by blast+
  have sub: "concat opss = ?ops @ concat (drop k opss)" by (metis append_take_drop_id concat_append)
  show "\<forall>ro u op. last_op u ?ops = Some op \<longrightarrow> length (db_files db' ! 0) + kNumLevels \<le> n \<longrightarrow>
      (\<exists>db''. db_Get ro None u db' = Some (fst (op_answer op), snd (op_answer op), db''))"
  proof (intro allI impI)
    fix ro u op assume op: "last_op u ?ops = Some op" and n: "length (db_files db' ! 0) + kNumLevels \<le> n"
    have u: "length u + 8 < 2 ^ 32" by (rule last_op_key [OF op]) (use assms(5) sub in auto)
    have len: "unat L + length ?ops < 2 ^ 56" using assms(7) unfolding sub by simp
    show "\<exists>db''. db_Get ro None u db' = Some (fst (op_answer op), snd (op_answer op), db'')"
      by (rule Get_last_op [OF h _ op len n u]) (use assms(1) in \<open>simp add: holding_def\<close>)
  qed
qed

theorem writes_are_read_witness:
  "\<exists>db db'. db_Put [] True [1] [2] [] fresh_db = Some (OK, 1, db) \<and>
     db_Get \<lparr>ro_verify_checksums = True, ro_fill_cache = True\<rparr> None [1] db = Some (OK, Some [2], db')"
proof -
  let ?w = "\<lparr>wr_batch = Some (wb_Put [1] [2] new_WriteBatch), wr_sync = True\<rparr>"
  have "wb_holds (wb_apply (BPut [1] [2]) new_WriteBatch) 0 ([] @ [BPut [1] [2]])"
    by (rule wb_holds_apply [OF wb_holds_new]) simp
  then have ws: "list_all2 writer_ops [?w] [[BPut [1] [2]]]" by (auto simp: writer_ops_def)
  note all = writes_are_read [OF fresh_holding _ ws, of "[]", simplified]
  have "ApproximateMemoryUsage (db_mem fresh_db) \<le> db_write_buffer_size fresh_db"
    by (simp add: fresh_db_def demo_db_def ApproximateMemoryUsage_def mem_arena_def new_MemTable_def new_skiplist_def AllocateAligned_def
        AllocateFallback_def AllocateNewBlock_def take_bytes_def NewNode_bytes_def new_Arena_def kArenaBlockSize_def kMaxHeight_def)
  moreover have "ok (db_bg_error fresh_db)" by (simp add: fresh_db_def demo_db_def)
  moreover have "NumLevelFiles (db_versions fresh_db) 0 < kL0_SlowdownWritesTrigger"
    by (simp add: NumLevelFiles_def kL0_SlowdownWritesTrigger_def fresh_db_def demo_db_def demo_files_def)
  moreover have "\<exists>w. db_log fresh_db = Some w \<and> calm (lw_dest w)"
    by (simp add: fresh_db_def new_log_writer_def new_posix_writable_def calm_def no_failure_def)
  moreover note room = calculation
  ultimately obtain k db where run: "db_Write [] ?w [] fresh_db = Some (OK, k, db)" using all by blast
  then have k: "k = 1" using all by fastforce
  have n: "length (db_files db ! 0) + kNumLevels \<le> 1000"
    using db_Write_current [OF room(2,3,1) _ run] by (simp add: fresh_db_def demo_db_def demo_files_def kNumLevels_def)
  have reads: "\<exists>db''. db_Get ro None u db = Some (fst (op_answer op), snd (op_answer op), db'')"
    if "last_op u [BPut [1] [2]] = Some op" for ro u op using all run n that unfolding k by fastforce
  have "last_op [1] [BPut [1] [2]] = Some (BPut [1] [2])" by (simp add: last_op_def op_key_def)
  from reads [OF this, of "\<lparr>ro_verify_checksums = True, ro_fill_cache = True\<rparr>"]
  have "\<exists>db'. db_Get \<lparr>ro_verify_checksums = True, ro_fill_cache = True\<rparr> None [1] db = Some (OK, Some [2], db')"
    by (simp add: op_answer_def)
  then show ?thesis using run k by (auto simp: db_Put_def)
qed

end
