(* ===== verification/DbOpen.thy ===== *)
theory DbOpen
  imports Background DbWrite FilterPolicy
begin

text \<open>
  Opening, closing and destroying a database (\<^verbatim>\<open>db/db_impl.cc\<close>): clipping of options, the lock file (\<^verbatim>\<open>util/env_posix.cc\<close>), a new
  database's manifest, the replay of logs that are newer than the manifest, and the removal of all files. Reading a log carries fuel; \<^verbatim>\<open>None\<close>
  is fuel that did not suffice, a loop that does not end, or a null pointer. Directories are not part of the file system: making
  and removing one only succeeds or fails.
\<close>

section \<open>Options\<close>

text \<open>The options of a table, with the user's comparator and filter policy, and what only the database reads.\<close>

record open_options =
  oo_table :: table_options
  oo_create_if_missing :: bool
  oo_error_if_exists :: bool
  oo_info_log :: bool
  oo_write_buffer_size :: u64
  oo_max_open_files :: int
  oo_max_file_size :: u64
  oo_reuse_logs :: bool

definition kNumNonTableCacheFiles :: int where "kNumNonTableCacheFiles = 10"

text \<open>The value is compared after a cast to the type of the limits, \<^verbatim>\<open>int\<close>.\<close>

definition ClipToRange :: "('t \<Rightarrow> int) \<Rightarrow> (int \<Rightarrow> 't) \<Rightarrow> 't \<Rightarrow> int \<Rightarrow> int \<Rightarrow> 't" where
  "ClipToRange cast_int assign x minvalue maxvalue =
     (let x = (if cast_int x > maxvalue then assign maxvalue else x)
      in if cast_int x < minvalue then assign minvalue else x)"

definition clip_size :: "u64 \<Rightarrow> int \<Rightarrow> int \<Rightarrow> u64" where
  "clip_size = ClipToRange (\<lambda>x. sint (ucast x :: u32)) word_of_int"

definition SanitizeOptions :: "open_options \<Rightarrow> open_options" where
  "SanitizeOptions src =
     (let t = oo_table src
      in src\<lparr>oo_table := t\<lparr>to_comparator := InternalKeyComparator (to_comparator t),
                 to_filter_policy := map_option InternalFilterPolicy (to_filter_policy t),
                 to_block_size := unat (clip_size (word_of_nat (to_block_size t)) (2 ^ 10) (4 * 2 ^ 20)), to_block_cache := True\<rparr>,
             oo_max_open_files := ClipToRange (\<lambda>x. x) (\<lambda>x. x) (oo_max_open_files src) (64 + kNumNonTableCacheFiles) 50000,
             oo_write_buffer_size := clip_size (oo_write_buffer_size src) (64 * 2 ^ 10) (2 ^ 30),
             oo_max_file_size := clip_size (oo_max_file_size src) (2 ^ 20) (2 ^ 30)\<rparr>)"

definition TableCacheSize :: "open_options \<Rightarrow> int" where
  "TableCacheSize sanitized = oo_max_open_files sanitized - kNumNonTableCacheFiles"

section \<open>Directories and locks\<close>

definition env_CreateDir :: "bytes \<Rightarrow> posix_env \<Rightarrow> status \<times> posix_env" where
  "env_CreateDir dirname env =
     (case name_call env of (Some e, env) \<Rightarrow> (PosixError dirname e, env) | (None, env) \<Rightarrow> (OK, env))"

definition env_RemoveDir :: "bytes \<Rightarrow> posix_env \<Rightarrow> status \<times> posix_env" where
  "env_RemoveDir dirname env =
     (case name_call env of (Some e, env) \<Rightarrow> (PosixError dirname e, env) | (None, env) \<Rightarrow> (OK, env))"

text \<open>
  The table of locks of this process, and the files on which the kernel holds a lock for it; closing any descriptor of a file
  gives up the process's lock on it.
\<close>

record locks =
  locked_files :: "bytes set"
  kernel_locks :: "bytes set"

record file_lock =
  fl_fd :: fd
  fl_filename :: bytes

definition close_locked :: "bytes \<Rightarrow> locks \<Rightarrow> locks" where
  "close_locked filename locks = locks\<lparr>kernel_locks := kernel_locks locks - {filename}\<rparr>"

definition env_LockFile :: "bytes \<Rightarrow> locks \<Rightarrow> posix_env \<Rightarrow> (status + file_lock) \<times> locks \<times> posix_env" where
  "env_LockFile filename locks env =
     (case sys_open_write False filename env of
        (Inl e, env) \<Rightarrow> (Inl (PosixError filename e), locks, env)
      | (Inr d, env) \<Rightarrow>
          if filename \<in> locked_files locks
          then (Inl (IOError (status_msg (bytes_of ''lock '' @ filename) (bytes_of ''already held by process''))), close_locked filename locks, env)
          else (case sys_call d of
                  (Some e, d) \<Rightarrow> (Inl (PosixError (bytes_of ''lock '' @ filename) e), close_locked filename locks, env)
                | (None, d) \<Rightarrow>
                    (Inr \<lparr>fl_fd = d, fl_filename = filename\<rparr>,
                     \<lparr>locked_files = insert filename (locked_files locks), kernel_locks = insert filename (kernel_locks locks)\<rparr>, env)))"

definition env_UnlockFile :: "file_lock \<Rightarrow> locks \<Rightarrow> status \<times> locks" where
  "env_UnlockFile lock locks =
     (case sys_call (fl_fd lock) of
        (Some e, d) \<Rightarrow> (PosixError (bytes_of ''unlock '' @ fl_filename lock) e, locks)
      | (None, d) \<Rightarrow> (OK, close_locked (fl_filename lock) (locks\<lparr>locked_files := locked_files locks - {fl_filename lock}\<rparr>)))"

section \<open>A new database\<close>

text \<open>Opening the log of messages when none was given; what is written to it is not modelled.\<close>

definition open_info_log :: "open_options \<Rightarrow> bytes \<Rightarrow> posix_env \<Rightarrow> posix_env" where
  "open_info_log src dbname env =
     (if oo_info_log src then env
      else
        let (_, env) = env_CreateDir dbname env;
            (_, env) = env_RenameFile (InfoLogFileName dbname) (OldInfoLogFileName dbname) env;
            (_, env) = env_NewAppendableFile (InfoLogFileName dbname) env
        in env)"

text \<open>The memtable is a null pointer until there is a log: where there is no log, \<open>db_mem\<close> stands for none.\<close>

definition new_DBImpl :: "open_options \<Rightarrow> bytes \<Rightarrow> random_env \<Rightarrow> db" where
  "new_DBImpl raw dbname env =
     (let opt = SanitizeOptions raw;
          env = env\<lparr>re_posix := open_info_log raw dbname (re_posix env)\<rparr>
      in \<lparr>db_write_buffer_size = unat (oo_write_buffer_size opt),
          db_tables = new_TableCache dbname (oo_table opt) (word_of_int (TableCacheSize opt)) env,
          db_mem = new_MemTable, db_imm = None, db_logfile_number = 0, db_log = None, db_snapshots = [], db_next_place = 0,
          db_pending_outputs = {}, db_shutting_down = False, db_scheduled = False, db_manual = None,
          db_versions = new_VersionSet dbname (to_comparator (oo_table raw)) (unat (oo_max_file_size opt)) (oo_reuse_logs opt),
          db_bg_error = OK\<rparr>)"

definition new_db_edit :: "comparator \<Rightarrow> version_edit" where
  "new_db_edit user = SetLastSequence 0 (SetNextFile 2 (SetLogNumber 0 (SetComparatorName (cmp_Name user) new_VersionEdit)))"

definition NewDB :: "db \<Rightarrow> status \<times> db" where
  "NewDB db =
     (let dbname = tc_dbname (db_tables db);
          manifest = DescriptorFileName dbname 1
      in case env_NewWritableFile manifest (db_env db) of
           (Inl s, env) \<Rightarrow> (s, db_set_env env db)
         | (Inr f, env) \<Rightarrow>
             let (s, w) = AddRecord posix_writable_ops (new_log_writer f 0) (ve_EncodeTo (new_db_edit (vs_user (db_versions db))) []);
                 (s, f) = sync_and_close s (lw_dest w);
                 env = store_fd manifest (pw_fd f) env;
                 (s, env) = (if ok s then SetCurrentFile dbname 1 env else (s, snd (env_RemoveFile manifest env)))
             in (s, db_set_env env db))"

section \<open>Replaying a log\<close>

definition MaybeIgnoreError :: "bool \<Rightarrow> status \<Rightarrow> status" where
  "MaybeIgnoreError paranoid s = (if ok s \<or> paranoid then s else OK)"

record replay =
  rp_status :: status
  rp_mem :: "memtable option"
  rp_max_sequence :: u64
  rp_save_manifest :: bool
  rp_edit :: version_edit
  rp_compactions :: nat
  rp_db :: db

text \<open>The batch of one record: into the memtable, which is written out when it is full. The flag says that the loop ends.\<close>

definition flush_full :: "replay \<Rightarrow> (bool \<times> replay) option" where
  "flush_full rp =
     (case rp_mem rp of
        None \<Rightarrow> None
      | Some mem \<Rightarrow>
          if ApproximateMemoryUsage mem > db_write_buffer_size (rp_db rp) then
            (case WriteLevel0Table mem (rp_edit rp) None (rp_db rp) of
               None \<Rightarrow> None
             | Some (s, edit, db) \<Rightarrow>
                 Some (\<not> ok s, rp\<lparr>rp_compactions := rp_compactions rp + 1, rp_save_manifest := True, rp_status := s, rp_edit := edit,
                                  rp_db := db, rp_mem := None\<rparr>))
          else Some (False, rp))"

definition replay_batch :: "bool \<Rightarrow> bytes \<Rightarrow> replay \<Rightarrow> (bool \<times> replay) option" where
  "replay_batch paranoid record rp =
     (let batch = wb_SetContents record new_WriteBatch;
          mem = (case rp_mem rp of None \<Rightarrow> new_MemTable | Some mem \<Rightarrow> mem)
      in case wb_InsertInto (vs_user (db_versions (rp_db rp))) batch mem of
           (s, None) \<Rightarrow> None
         | (s, Some mem) \<Rightarrow>
             let s = MaybeIgnoreError paranoid s;
                 rp = rp\<lparr>rp_mem := Some mem, rp_status := s\<rparr>
             in if \<not> ok s then Some (True, rp)
                else
                  let last_seq = wb_Sequence batch + scast (wb_Count batch) - 1;
                      rp = (if last_seq > rp_max_sequence rp then rp\<lparr>rp_max_sequence := last_seq\<rparr> else rp)
                  in flush_full rp)"

text \<open>Errors of the reader count only under paranoid checks; the first one is kept.\<close>

definition report_to :: "bool \<Rightarrow> (u64 \<times> status) list \<Rightarrow> replay \<Rightarrow> replay" where
  "report_to paranoid reports rp = (if paranoid then rp\<lparr>rp_status := reported reports (rp_status rp)\<rparr> else rp)"

fun replay_loop :: "nat \<Rightarrow> nat \<Rightarrow> bool \<Rightarrow> posix_sequential log_reader \<Rightarrow> replay \<Rightarrow> replay option" where
  "replay_loop 0 fuel paranoid r rp = None"
| "replay_loop (Suc n) fuel paranoid r rp =
     (case ReadRecord fuel posix_sequential_ops r of
        None \<Rightarrow> None
      | Some (result, r') \<Rightarrow>
          (let rp = report_to paranoid (drop (length (lr_reports r)) (lr_reports r')) rp
           in case result of
                None \<Rightarrow> Some rp
              | Some record \<Rightarrow>
                  if \<not> ok (rp_status rp) then Some rp
                  else if length record < 12
                  then replay_loop n fuel paranoid r'
                         (report_to paranoid [(word_of_nat (length record), Corruption (bytes_of ''log record too small''))] rp)
                  else
                    (case replay_batch paranoid record rp of
                       None \<Rightarrow> None
                     | Some (leave, rp) \<Rightarrow> if leave then Some rp else replay_loop n fuel paranoid r' rp)))"

text \<open>Continuing the last log: its writer and memtable become those of the database.\<close>

definition reuse_log :: "u64 \<Rightarrow> bytes \<Rightarrow> replay \<Rightarrow> replay" where
  "reuse_log log_number fname rp =
     (case env_GetFileSize fname (db_env (rp_db rp)) of
        (s, lfile_size, env) \<Rightarrow>
          if \<not> ok s then rp\<lparr>rp_db := db_set_env env (rp_db rp)\<rparr>
          else case env_NewAppendableFile fname env of
                 (Inl s, env) \<Rightarrow> rp\<lparr>rp_db := db_set_env env (rp_db rp)\<rparr>
               | (Inr f, env) \<Rightarrow>
                   rp\<lparr>rp_db := db_set_env env ((rp_db rp)\<lparr>db_log := Some (new_log_writer f (unat lfile_size)), db_logfile_number := log_number,
                                  db_mem := (case rp_mem rp of None \<Rightarrow> new_MemTable | Some mem \<Rightarrow> mem)\<rparr>),
                      rp_mem := None\<rparr>)"

text \<open>What is left in the memtable goes into a table.\<close>

definition flush_rest :: "replay \<Rightarrow> replay option" where
  "flush_rest rp =
     (case rp_mem rp of
        None \<Rightarrow> Some rp
      | Some mem \<Rightarrow>
          if ok (rp_status rp) then
            (case WriteLevel0Table mem (rp_edit rp) None (rp_db rp) of
               None \<Rightarrow> None
             | Some (s, edit, db) \<Rightarrow> Some (rp\<lparr>rp_save_manifest := True, rp_status := s, rp_edit := edit, rp_db := db, rp_mem := None\<rparr>))
          else Some (rp\<lparr>rp_mem := None\<rparr>))"

definition finish_replay :: "u64 \<Rightarrow> bytes \<Rightarrow> bool \<Rightarrow> replay \<Rightarrow> replay option" where
  "finish_replay log_number fname last_log rp =
     flush_rest (if ok (rp_status rp) \<and> vs_reuse_logs (db_versions (rp_db rp)) \<and> last_log \<and> rp_compactions rp = 0
                 then reuse_log log_number fname rp else rp)"

text \<open>One log on top of what the logs before gave.\<close>

definition RecoverLogFile :: "nat \<Rightarrow> u64 \<Rightarrow> bool \<Rightarrow> replay \<Rightarrow> replay option" where
  "RecoverLogFile fuel log_number last_log rp =
     (let tables = db_tables (rp_db rp);
          paranoid = to_paranoid_checks (tc_options tables);
          fname = LogFileName (tc_dbname tables) log_number
      in case env_NewSequentialFile fname (db_env (rp_db rp)) of
           (Inl s, env) \<Rightarrow> Some (rp\<lparr>rp_status := MaybeIgnoreError paranoid s, rp_db := db_set_env env (rp_db rp)\<rparr>)
         | (Inr f, env) \<Rightarrow>
             (case replay_loop fuel fuel paranoid (new_log_reader f True 0)
                     (rp\<lparr>rp_status := OK, rp_mem := None, rp_compactions := 0, rp_db := db_set_env env (rp_db rp)\<rparr>) of
                None \<Rightarrow> None
              | Some rp \<Rightarrow> finish_replay log_number fname last_log rp))"

fun recover_logs :: "nat \<Rightarrow> u64 list \<Rightarrow> replay \<Rightarrow> replay option" where
  "recover_logs fuel [] rp = Some rp"
| "recover_logs fuel (n # ns) rp =
     (case RecoverLogFile fuel n (ns = []) rp of
        None \<Rightarrow> None
      | Some rp \<Rightarrow>
          if \<not> ok (rp_status rp) then Some rp
          else recover_logs fuel ns (rp\<lparr>rp_db := (rp_db rp)\<lparr>db_versions := MarkFileNumberUsed n (db_versions (rp_db rp))\<rparr>\<rparr>))"

section \<open>Recovering\<close>

text \<open>The numbers of the logs to replay, and those of live files that are missing.\<close>

definition parsed_files :: "bytes list \<Rightarrow> (u64 \<times> file_type) list" where
  "parsed_files filenames = List.map_filter ParseFileName filenames"

definition newer_logs :: "version_set \<Rightarrow> bytes list \<Rightarrow> u64 list" where
  "newer_logs vs filenames =
     sort (map fst (filter (\<lambda>(number, type). type = kLogFile \<and> (number \<ge> vs_log_number vs \<or> number = vs_prev_log_number vs))
       (parsed_files filenames)))"

definition missing_files :: "version_set \<Rightarrow> bytes list \<Rightarrow> u64 set" where
  "missing_files vs filenames = AddLiveFiles vs {} - set (map fst (parsed_files filenames))"

definition recover_versions :: "nat \<Rightarrow> dir_reader \<Rightarrow> db \<Rightarrow> replay option" where
  "recover_versions fuel readdir db =
     (let start = \<lparr>rp_status = OK, rp_mem = None, rp_max_sequence = 0, rp_save_manifest = False, rp_edit = new_VersionEdit,
                   rp_compactions = 0, rp_db = db\<rparr>
      in case Recover fuel (db_versions db) (db_env db) of
           None \<Rightarrow> None
         | Some (s, save_manifest, vs, env) \<Rightarrow>
             let db = db_set_env env (db\<lparr>db_versions := vs\<rparr>);
                 rp = start\<lparr>rp_status := s, rp_save_manifest := save_manifest, rp_db := db\<rparr>
             in if \<not> ok s then Some rp
                else
                  let (s, filenames) = env_GetChildren readdir (tc_dbname (db_tables db)) env;
                      missing = missing_files vs filenames
                  in if \<not> ok s then Some (rp\<lparr>rp_status := s\<rparr>)
                     else if missing \<noteq> {}
                     then Some (rp\<lparr>rp_status := Corruption (status_msg (decimal (card missing) @ bytes_of '' missing files; e.g.'')
                                     (TableFileName (tc_dbname (db_tables db)) (Min missing)))\<rparr>)
                     else
                       (case recover_logs fuel (newer_logs vs filenames) rp of
                          None \<Rightarrow> None
                        | Some rp \<Rightarrow>
                            let vs = db_versions (rp_db rp)
                            in Some (if ok (rp_status rp) \<and> vs_last_sequence vs < rp_max_sequence rp
                                     then rp\<lparr>rp_db := (rp_db rp)\<lparr>db_versions := vs_SetLastSequence (rp_max_sequence rp) vs\<rparr>\<rparr>
                                     else rp)))"

definition failed :: "status \<Rightarrow> db \<Rightarrow> replay" where
  "failed s db =
     \<lparr>rp_status = s, rp_mem = None, rp_max_sequence = 0, rp_save_manifest = False, rp_edit = new_VersionEdit, rp_compactions = 0, rp_db = db\<rparr>"

definition db_Recover :: "nat \<Rightarrow> dir_reader \<Rightarrow> open_options \<Rightarrow> locks \<Rightarrow> db \<Rightarrow> (file_lock option \<times> locks \<times> replay) option" where
  "db_Recover fuel readdir opt locks db =
     (let dbname = tc_dbname (db_tables db);
          (_, env) = env_CreateDir dbname (db_env db)
      in case env_LockFile (LockFileName dbname) locks env of
           (Inl s, locks, env) \<Rightarrow> Some (None, locks, failed s (db_set_env env db))
         | (Inr lock, locks, env) \<Rightarrow>
             let (found, env) = env_FileExists (CurrentFileName dbname) env;
                 db = db_set_env env db;
                 (s, db) =
                   (if \<not> found then
                      if oo_create_if_missing opt then NewDB db
                      else (InvalidArgument (status_msg dbname (bytes_of ''does not exist (create_if_missing is false)'')), db)
                    else if oo_error_if_exists opt then (InvalidArgument (status_msg dbname (bytes_of ''exists (error_if_exists is true)'')), db)
                    else (OK, db))
             in if \<not> ok s then Some (Some lock, locks, failed s db)
                else map_option (\<lambda>rp. (Some lock, locks, rp)) (recover_versions fuel readdir db))"

section \<open>Opening, closing, destroying\<close>

text \<open>A log for a database that took over none; its number goes into the edit.\<close>

definition open_new_log :: "version_edit \<Rightarrow> db \<Rightarrow> status \<times> version_edit \<times> db" where
  "open_new_log edit db =
     (let (new_log_number, vs) = NewFileNumber (db_versions db);
          db = db\<lparr>db_versions := vs\<rparr>
      in case env_NewWritableFile (LogFileName (tc_dbname (db_tables db)) new_log_number) (db_env db) of
           (Inl s, env) \<Rightarrow> (s, edit, db_set_env env db)
         | (Inr lfile, env) \<Rightarrow>
             (OK, SetLogNumber new_log_number edit,
              db_set_env env (db\<lparr>db_logfile_number := new_log_number, db_log := Some (new_log_writer lfile 0), db_mem := new_MemTable\<rparr>)))"

definition finish_open :: "dir_reader \<Rightarrow> replay \<Rightarrow> status \<times> db" where
  "finish_open readdir rp =
     (let (s, edit, db) = (if ok (rp_status rp) \<and> db_log (rp_db rp) = None then open_new_log (rp_edit rp) (rp_db rp)
                           else (rp_status rp, rp_edit rp, rp_db rp));
          (s, db) =
            (if ok s \<and> rp_save_manifest rp then
               let (s, _, db) = db_LogAndApply (SetLogNumber (db_logfile_number db) (SetPrevLogNumber 0 edit)) db in (s, db)
             else (s, db))
      in (s, if ok s then MaybeScheduleCompaction (RemoveObsoleteFiles readdir db) else db))"

text \<open>Waiting for the background call, then closing all files.\<close>

partial_function (option) wait_background :: "(db \<Rightarrow> db) list \<Rightarrow> db \<Rightarrow> db option" where
  "wait_background others db =
     (if db_scheduled db then wait_background (tl others) (case others of [] \<Rightarrow> db | other # _ \<Rightarrow> other db) else Some db)"

definition close_log :: "posix_writable log_writer option \<Rightarrow> posix_env \<Rightarrow> posix_env" where
  "close_log lw env =
     (case lw of None \<Rightarrow> env | Some w \<Rightarrow> store_fd (pw_filename (lw_dest w)) (pw_fd (snd (posix_Close (lw_dest w)))) env)"

definition close_DBImpl :: "(db \<Rightarrow> db) list \<Rightarrow> file_lock option \<Rightarrow> locks \<Rightarrow> db \<Rightarrow> (locks \<times> posix_env) option" where
  "close_DBImpl others lock locks db =
     (case wait_background others (db\<lparr>db_shutting_down := True\<rparr>) of
        None \<Rightarrow> None
      | Some db \<Rightarrow>
          Some (case lock of None \<Rightarrow> locks | Some l \<Rightarrow> snd (env_UnlockFile l locks),
                close_log (db_log db) (close_log (vs_descriptor (db_versions db)) (db_env db))))"

text \<open>The database with its lock, or nothing.\<close>

definition DB_Open ::
  "nat \<Rightarrow> dir_reader \<Rightarrow> open_options \<Rightarrow> bytes \<Rightarrow> locks \<Rightarrow> random_env \<Rightarrow> (status \<times> (db \<times> file_lock) option \<times> locks \<times> posix_env) option" where
  "DB_Open fuel readdir opt dbname locks env =
     (case db_Recover fuel readdir opt locks (new_DBImpl opt dbname env) of
        None \<Rightarrow> None
      | Some (lock, locks, rp) \<Rightarrow>
          let (s, db) = finish_open readdir rp
          in if ok s then map_option (\<lambda>l. (s, Some (db, l), locks, db_env db)) lock
             else map_option (\<lambda>(locks, env). (s, None, locks, env)) (close_DBImpl [] lock locks db))"

definition destroy_child :: "bytes \<Rightarrow> bytes \<Rightarrow> status \<times> posix_env \<Rightarrow> status \<times> posix_env" where
  "destroy_child dbname filename r =
     (case r of (result, env) \<Rightarrow>
        (case ParseFileName filename of
           None \<Rightarrow> (result, env)
         | Some (number, type) \<Rightarrow>
             if type = kDBLockFile then (result, env)
             else (let (del, env) = env_RemoveFile (dbname @ bytes_of ''/'' @ filename) env
                   in (if ok result \<and> \<not> ok del then del else result, env))))"

definition DestroyDB :: "dir_reader \<Rightarrow> bytes \<Rightarrow> locks \<Rightarrow> posix_env \<Rightarrow> status \<times> locks \<times> posix_env" where
  "DestroyDB readdir dbname locks env =
     (let (s, filenames) = env_GetChildren readdir dbname env
      in if \<not> ok s then (OK, locks, env)
         else case env_LockFile (LockFileName dbname) locks env of
                (Inl s, locks, env) \<Rightarrow> (s, locks, env)
              | (Inr lock, locks, env) \<Rightarrow>
                  let (result, env) = fold (destroy_child dbname) filenames (OK, env);
                      (_, locks) = env_UnlockFile lock locks;
                      (_, env) = env_RemoveFile (LockFileName dbname) env;
                      (_, env) = env_RemoveDir dbname env
                  in (result, locks, env))"

section \<open>What goes wrong\<close>

text \<open>A size that does not fit into \<^verbatim>\<open>int\<close> is clipped to the smallest size, or not at all.\<close>

lemma large_sizes_wrap:
  "clip_size (2 ^ 32) (64 * 2 ^ 10) (2 ^ 30) = 2 ^ 16" "clip_size (2 ^ 32 + 2 ^ 20) (64 * 2 ^ 10) (2 ^ 30) = 2 ^ 32 + 2 ^ 20"
  by (simp_all add: clip_size_def ClipToRange_def)

text \<open>An attempt to lock a file that this process has locked already fails, and gives up the kernel's lock.\<close>

lemma second_lock_unlocks:
  assumes "filename \<in> locked_files locks" and "env_LockFile filename locks env = (r, locks', env')"
    and "sys_open_write False filename env = (Inr d, env1)"
  shows "\<exists>s. r = Inl s \<and> locked_files locks' = locked_files locks \<and> filename \<notin> kernel_locks locks'"
  using assms by (auto simp: env_LockFile_def close_locked_def)

end
