(* ===== verification/MemTables.thy ===== *)
theory MemTables
  imports Compacted DbWrite
begin

text \<open>
  Writing a memtable out (\<^verbatim>\<open>db/builder.cc\<close>): its iterator visits exactly the writes it holds in the order of internal keys, and the
  table that is built holds exactly them.
\<close>

section \<open>Iterating over a memtable\<close>

definition mem_pair :: "bytes \<Rightarrow> bytes \<times> bytes" where
  "mem_pair k =
     (let (key_slice, rest) = mem_GetLengthPrefixedSlice k in (key_slice, fst (mem_GetLengthPrefixedSlice rest)))"

lemma mem_pair_write: "valid_write (s, t, k, v) \<Longrightarrow> mem_pair (encode_write (s, t, k, v)) = (InternalKey k s t, v)"
  by (simp add: mem_pair_def encode_write_def valid_write_def mem_encode_parts mem_value_part)

lemma add_entries_path:
  "path (\<lambda>x. sl_next (mt_table mem) x 0) x ns \<Longrightarrow>
   add_entries (mem_iter_ops user mem) wops (sl_next (mt_table mem) x 0) key b =
     Some (None, (if ns = [] then key else fst (mem_pair (node_key (mt_table mem) (List.last ns)))),
       tb_AddAll wops (map (\<lambda>n. mem_pair (node_key (mt_table mem) n)) ns) b)"
proof (induction ns arbitrary: x key b)
  case Nil
  then show ?case by (simp add: add_entries.simps mem_iter_ops_def)
next
  case (Cons n ns)
  have p: "mem_pair (node_key (mt_table mem) n) = (mem_iter_key mem n, mem_iter_value mem n)"
    by (simp add: mem_pair_def mem_iter_key_def mem_iter_value_def Let_def case_prod_unfold)
  have "sl_next (mt_table mem) x 0 = Some n" and rest: "path (\<lambda>x. sl_next (mt_table mem) x 0) n ns" using Cons.prems by simp_all
  then have "add_entries (mem_iter_ops user mem) wops (sl_next (mt_table mem) x 0) key b =
      add_entries (mem_iter_ops user mem) wops (sl_next (mt_table mem) n 0) (mem_iter_key mem n) (tb_Add wops (mem_iter_key mem n) (mem_iter_value mem n) b)"
    by (subst add_entries.simps) (simp add: mem_iter_ops_def mem_iter_Next_def sl_iter_Next_def Let_def)
  then show ?case using Cons.IH [OF rest] by (simp add: p)
qed

text \<open>The entries of a memtable in order.\<close>

definition mem_sorted :: "memtable \<Rightarrow> (bytes \<times> bytes) list \<Rightarrow> bool" where
  "mem_sorted mt ps \<longleftrightarrow>
     entries_sorted ps \<and> internal_keys ps \<and> parseable ps \<and>
     (\<forall>user key. \<forall>wops :: posix_writable writable_ops. \<forall>b. add_entries (mem_iter_ops user mt) wops (mem_iter_SeekToFirst mt) key b =
        Some (None, (if ps = [] then key else fst (List.last ps)), tb_AddAll wops ps b)) \<and>
     (case mem_iter_SeekToFirst mt of None \<Rightarrow> ps = [] | Some n \<Rightarrow> ps \<noteq> [] \<and> mem_iter_key mt n = fst (hd ps))"

lemma mem_rep_sorted:
  assumes "bytewise_user.mem_rep mt es ks"
  shows "mem_sorted mt (map mem_pair ks)" and "set (map mem_pair ks) = mem_entries es"
proof -
  have sr: "bytewise_user.mem.sl_rep (mt_table mt) ks" and ks: "set ks = encode_write ` set es" and val: "\<forall>e \<in> set es. valid_write e"
    using assms by (simp_all add: bytewise_user.mem_rep_def)
  obtain ns ht where ok: "bytewise_user.mem.sl_ok (mt_table mt) ns ht" and ns: "ks = map (node_key (mt_table mt)) ns"
    using sr by (auto simp: bytewise_user.mem.sl_rep_def)
  have "path (\<lambda>x. sl_next (mt_table mt) x 0) 0 (filter (\<lambda>n. 0 < ht n) ns)" using ok unfolding bytewise_user.mem.sl_ok_def by blast
  then have path: "path (\<lambda>x. sl_next (mt_table mt) x 0) 0 ns" using bytewise_user.mem.level_0 [OF ok, of ns] by simp
  have pairs: "mem_pair (encode_write e) = (\<lambda>(q, t, k, v). (InternalKey k q t, v)) e" if "e \<in> set es" for e
  proof -
    obtain q t k v where e: "e = (q, t, k, v)" by (metis prod_cases4)
    then have "valid_write (q, t, k, v)" using that val by blast
    then show ?thesis by (simp add: e mem_pair_write)
  qed
  then show set: "set (map mem_pair ks) = mem_entries es"
    using image_cong [OF refl, of "set es" "\<lambda>e. mem_pair (encode_write e)", OF pairs] by (simp add: ks image_image mem_entries_def)
  have entry: "\<exists>q t k v. k' = encode_write (q, t, k, v) \<and> valid_write (q, t, k, v)" if k': "k' \<in> set ks" for k'
  proof -
    obtain e where e: "e \<in> set es" "k' = encode_write e" using k' ks by auto
    moreover obtain q t k v where "e = (q, t, k, v)" by (metis prod_cases4)
    ultimately show ?thesis using val by blast
  qed
  have "sorted_wrt (\<lambda>a b. mem_KeyComparator BytewiseComparator a b < 0) ks" using bytewise_user.mem.sl_rep_sorted [OF sr] by simp
  then have srt: "entries_sorted (map mem_pair ks)"
    unfolding sorted_wrt_map
  proof (rule sorted_wrt_mono_rel [rotated])
    fix a b assume "a \<in> set ks" "b \<in> set ks" and less: "mem_KeyComparator BytewiseComparator a b < 0"
    then obtain q t k v q' t' k' v' where e: "a = encode_write (q, t, k, v)" "valid_write (q, t, k, v)"
      "b = encode_write (q', t', k', v')" "valid_write (q', t', k', v')" using entry by metis
    then show "cmp_Compare bytewise_internal (fst (mem_pair a)) (fst (mem_pair b)) < 0"
      using less by (simp add: mem_pair_write bytewise_user.KeyComparator_writes internal_compare)
  qed
  have "internal_key (fst (mem_pair k')) \<and> ParseInternalKey (fst (mem_pair k')) \<noteq> None" if k': "k' \<in> set ks" for k'
  proof -
    obtain q t k v where e: "k' = encode_write (q, t, k, v)" "valid_write (q, t, k, v)" using entry [OF k'] by blast
    then have "q \<le> kMaxSequenceNumber" by (simp add: valid_write_def)
    then have "ParseInternalKey (InternalKey k q t) \<noteq> None" using Parse_InternalKey [of q k t] by simp
    then show ?thesis using e by (simp add: mem_pair_write InternalKey_eq)
  qed
  then have int: "internal_keys (map mem_pair ks)" "parseable (map mem_pair ks)" by (auto simp: parseable_def)
  have first: "mem_iter_SeekToFirst mt = sl_next (mt_table mt) 0 0" by (simp add: mem_iter_SeekToFirst_def sl_iter_SeekToFirst_def)
  have add: "add_entries (mem_iter_ops user mt) wops (mem_iter_SeekToFirst mt) key b =
        Some (None, (if map mem_pair ks = [] then key else fst (List.last (map mem_pair ks))), tb_AddAll wops (map mem_pair ks) b)"
    for user key b and wops :: "posix_writable writable_ops"
    unfolding first add_entries_path [OF path] by (cases ns rule: rev_cases) (simp_all add: ns comp_def)
  have "case mem_iter_SeekToFirst mt of None \<Rightarrow> map mem_pair ks = [] | Some n \<Rightarrow> map mem_pair ks \<noteq> [] \<and> mem_iter_key mt n = fst (hd (map mem_pair ks))"
    using path by (cases ns) (simp_all add: first ns mem_iter_key_def mem_pair_def Let_def case_prod_unfold)
  then show "mem_sorted mt (map mem_pair ks)" unfolding mem_sorted_def using srt int add by blast
qed

text \<open>The pairs of a memtable in the order of its iterator.\<close>

definition mem_list :: "memtable \<Rightarrow> (bytes \<times> bytes) list" where
  "mem_list mt = map mem_pair (sl_walk (Suc (length (sl_keys (mt_table mt)))) (mt_table mt) (mem_iter_SeekToFirst mt))"

lemma mem_list_rep:
  assumes "bytewise_user.mem_rep mt es ks"
  shows "mem_list mt = map mem_pair ks"
proof -
  have sr: "bytewise_user.mem.sl_rep (mt_table mt) ks" using assms by (simp add: bytewise_user.mem_rep_def)
  then obtain ns ht where ok: "bytewise_user.mem.sl_ok (mt_table mt) ns ht" and ns: "ks = map (node_key (mt_table mt)) ns"
    by (auto simp: bytewise_user.mem.sl_rep_def)
  have "set ns = {1..length (sl_keys (mt_table mt))}" "distinct ns" using ok by (simp_all add: bytewise_user.mem.sl_ok_def)
  then have "length ks = length (sl_keys (mt_table mt))" using distinct_card [of ns] by (simp add: ns)
  then have "length ks < Suc (length (sl_keys (mt_table mt)))" by simp
  from bytewise_user.mem.sl_rep_walk [OF sr this] show ?thesis by (simp add: mem_list_def mem_iter_SeekToFirst_def)
qed

section \<open>The table\<close>

lemma calm_sync_and_close: "calm f \<Longrightarrow> \<exists>f'. sync_and_close OK f = (OK, f')"
  using calm_Sync [of f] calm_Close by (fastforce simp: sync_and_close_def)

text \<open>What is known of the new table's description.\<close>

definition built_meta :: "file_meta \<Rightarrow> (bytes \<times> bytes) list \<Rightarrow> bytes \<Rightarrow> file_meta" where
  "built_meta meta ps data = meta\<lparr>fm_smallest := fst (hd ps), fm_largest := fst (List.last ps), fm_file_size := word_of_nat (length data)\<rparr>"

lemma BuildTable_calm:
  assumes opt: "database_options (tc_options tc)" and mem: "mem_sorted mt ps" "ps \<noteq> []" and calm: "calm_env (tc_posix tc)"
  obtains data env where "table_data (tc_options tc) data ps" and "calm_env env"
    and "pe_files env = (pe_files (tc_posix tc))(TableFileName (tc_dbname tc) (fm_number meta) \<mapsto> data)"
    and "BuildTable (mem_iter_ops user mt) None meta tc =
      map_option (\<lambda>(s, tc'). finish_build OK (TableFileName (tc_dbname tc) (fm_number meta)) (s, built_meta meta ps data, tc'))
        (check_table (fm_number meta) (word_of_nat (length data)) (set_posix env tc))"
proof -
  let ?ops = "mem_iter_ops user mt"
  let ?fname = "TableFileName (tc_dbname tc) (fm_number meta)"
  obtain n where n: "mem_iter_SeekToFirst mt = Some n" "mem_iter_key mt n = fst (hd ps)"
    using mem by (auto simp: mem_sorted_def split: option.splits)
  obtain f env1 where f: "env_NewWritableFile ?fname (tc_posix tc) = (Inr f, env1)" "calm f" "calm_env env1"
    using calm_NewWritableFile [OF calm] by blast
  note new = env_NewWritableFile_files(2) [OF f(1)]
  let ?new = "new_TableBuilder (tc_options tc) f"
  have "tb_status ?new = OK \<and> no_failure (pw_fd (tb_file ?new)) \<and> pw_dirfd (tb_file ?new) = pw_dirfd f"
    using f(2) by (simp add: new_TableBuilder_def calm_def)
  note h = healthy_AddAll [OF this, of ps]
  obtain b where fin: "tb_Finish posix_writable_ops (built_from (tc_options tc) f ps) = (OK, b)"
    using healthy_Finish(1) [OF h] by (metis prod.collapse)
  have calm_b: "calm (tb_file b)" using healthy_Finish(2) [OF h] f(2) by (simp add: fin calm_def)
  have srt: "entries_sorted ps" "internal_keys ps" using mem(1) by (simp_all add: mem_sorted_def)
  note bt = built_table [OF opt srt conjunct1 [OF conjunct2 [OF new]] fin]
  obtain f' where y: "sync_and_close OK (tb_file b) = (OK, f')" using calm_sync_and_close [OF calm_b] by blast
  note sc = sync_and_close_OK [OF y]
  let ?data = "posix_content (tb_file b)"
  let ?env = "store_fd ?fname (pw_fd f') env1"
  have key: "fst (List.last ps) \<noteq> []" using srt(2) mem(2) by (metis last_in_set list.size(3) not_numeral_le_zero)
  have ops: "it_Valid ?ops (Some n)" "it_SeekToFirst ?ops None = Some n" "it_key ?ops (Some n) = fst (hd ps)" "it_status ?ops i = OK" for i
    using n by (simp_all add: mem_iter_ops_def)
  have add: "add_entries ?ops posix_writable_ops (Some n) [] (new_TableBuilder (tc_options tc) f) =
      Some (None, fst (List.last ps), built_from (tc_options tc) f ps)"
    using mem n(1) by (simp add: mem_sorted_def)
  have "BuildTable ?ops None meta tc =
      map_option (\<lambda>(s, tc'). finish_build OK ?fname (s, built_meta meta ps ?data, tc'))
        (check_table (fm_number meta) (word_of_nat (length ?data)) (set_posix ?env tc))"
    using key by (simp add: BuildTable_def ops f(1) add fin y bt(2) built_meta_def Let_def)
  moreover have "calm_env ?env" using f(3) by (simp add: calm_store)
  moreover have "pe_files ?env = (pe_files (tc_posix tc))(?fname \<mapsto> ?data)" using new sc(2) by (simp add: store_fd_def)
  ultimately show thesis using that bt(1) by blast
qed

end
