(* ===== verification/Flushed.thy ===== *)
theory Flushed
  imports MemTables Written
begin

text \<open>
  What writing out a memtable leaves: its writes are in a table file of the installed version, the table cache serves it, obsolete files are
  gone, and the database holds what it held before.
\<close>

section \<open>The table cache\<close>

text \<open>Opening a stored table through the cache, and giving it back at once.\<close>

lemma check_table_serves:
  assumes opt: "database_options opt" and "serves opt dbname store entries (Suc n) tc" and "known_file opt store entries f"
  shows "\<exists>tc'. check_table (fm_number f) (fm_file_size f) tc = Some (OK, tc') \<and> serves opt dbname store entries n tc'"
proof -
  note tb = database_building [OF opt]
  obtain owner as where "serves_with opt dbname store entries owner as (Suc n) tc" using assms(2) by (auto simp: serves_def)
  from FindTable_serves [OF opt this assms(3)] obtain hdl tc1 owner1 as1 tf data where
    find: "FindTable (fm_number f) (fm_file_size f) tc = Some (OK, Some hdl, tc1)"
    and held: "holds_handle (tc_cache tc1) as1 hdl (EncodeFixed64 (fm_number f)) tf"
    and good: "good_table opt data (entries (fm_number f)) owner1 (tf_table tf)"
    and same: "tc_dbname tc1 = dbname" "tc_options tc1 = opt" "unat (tc_last_id tc1) + n < 2 ^ 64"
    and c: "sc_rep (tc_cache tc1) as1" "budget (3 * n + 1) as1" "all_entries (good_entry opt store entries owner1) as1"
    and bl: "blocks_ok owner1 (tc_last_id tc1) (tc_blocks tc1)" and env: "reliable_random (tc_env tc1)"
    and files: "\<forall>m data. store m = Some data \<longrightarrow> pe_files (re_posix (tc_env tc1)) (TableFileName dbname m) = Some data" by blast
  obtain rf i W ds where t: "readable rf" "ra_data rf = table_building.table_image opt ds W"
    "table_building.written_blocks opt internal_key W (entries (fm_number f)) ds"
    "tf_table tf = table_building.opened opt rf i W ds" "owner1 i = Some (tf_table tf, table_building.data_handles opt ds)"
    using good by (auto simp: good_table_def)
  have coh: "cache_coherent (table_building.opened opt rf i W ds) (table_building.data_handles opt ds) (tc_blocks tc1)"
    using bl t(5) unfolding t(4) blocks_ok_def by blast
  have tab: "readable rf \<and> ra_data rf = table_building.table_image opt ds W \<and>
      table_building.written_blocks opt internal_key W (entries (fm_number f)) ds" using t by blast
  let ?ro = "\<lparr>ro_verify_checksums = False, ro_fill_cache = True\<rparr>"
  obtain rep where it: "sorted_iterator (cmp_Compare (to_comparator opt)) internal_key
      (table_iter_ops (table_building.opened opt rf i W ds) ?ro (tc_blocks tc1)) rep"
    "rep (Table_NewIterator (table_building.opened opt rf i W ds)) (entries (fm_number f)) (length (entries (fm_number f)))"
    using table_building.table_iterator [OF tb tab coh] by blast
  have status: "it_status (table_iter_ops (tf_table tf) ?ro (tc_blocks tc1)) (Table_NewIterator (tf_table tf)) = OK"
    unfolding t(4) by (rule sorted_iterator.status_rep [OF it])
  have "budget (Suc (3 * n)) as1" using c(2) by simp
  from sc_Release_step [OF c(1) this c(3) held] obtain as2 where
    as2: "sc_rep (sc_Release hdl (tc_cache tc1)) as2" "budget (3 * n) as2" "all_entries (good_entry opt store entries owner1) as2" by blast
  let ?tc = "tc1\<lparr>tc_cache := sc_Release hdl (tc_cache tc1)\<rparr>"
  have "sc_rep (tc_cache ?tc) as2" using as2(1) by simp
  from run_deleters_step [OF this as2(2,3)] obtain as3 where
    as3: "sc_rep (tc_cache (run_deleters ?tc)) as3" "budget (3 * n) as3" "all_entries (good_entry opt store entries owner1) as3" by blast
  have "reliable_random (tc_env (run_deleters ?tc))" using env by (simp add: reliable_random_def)
  then have "serves_with opt dbname store entries owner1 as3 n (run_deleters ?tc)"
    using same as3 bl files by (simp add: serves_with_def)
  then have "serves opt dbname store entries n (run_deleters ?tc)" unfolding serves_def by blast
  moreover have "sc_Value hdl (tc_cache tc1) = tf" using held by (simp add: holds_handle_def)
  then have "check_table (fm_number f) (fm_file_size f) tc = Some (OK, run_deleters ?tc)"
    using status by (simp add: check_table_def TableCache_NewIterator_def find ok_def UnrefEntry_def Let_def)
  ultimately show ?thesis by blast
qed

text \<open>No table of the number is cached, as is the case for numbers not yet used.\<close>

definition uncached :: "u64 \<Rightarrow> table_cache \<Rightarrow> bool" where
  "uncached number tc \<longleftrightarrow> (\<forall>c \<in> set (sc_shards (tc_cache tc)). \<forall>e h. lc_store c e = Some h \<longrightarrow> h_key h \<noteq> EncodeFixed64 number)"

lemma serves_new_file:
  assumes "serves opt dbname store entries n tc" and "uncached m tc" and "store m = None"
    and "reliable_env env" and "pe_files env = (pe_files (tc_posix tc))(TableFileName dbname m \<mapsto> data)"
  shows "serves opt dbname (store(m \<mapsto> data)) (entries(m := es)) n (set_posix env tc)"
proof -
  obtain owner as where s: "serves_with opt dbname store entries owner as n tc" using assms(1) by (auto simp: serves_def)
  note inv = s [unfolded serves_with_def]
  have "all_entries (good_entry opt (store(m \<mapsto> data)) (entries(m := es)) owner) as"
    unfolding all_entries_def
  proof (intro allI impI conjI)
    fix i e en
    assume i: "i < length as" and en: "a_entries (as ! i) e = Some en"
    have old: "e_hash en = HashSlice (e_key en)" "Shard (e_hash en) = i" "good_entry opt store entries owner (e_key en) (e_value en)"
      using inv i en unfolding all_entries_def by blast+
    show "e_hash en = HashSlice (e_key en)" "Shard (e_hash en) = i" by (fact old)+
    have len: "length (sc_shards (tc_cache tc)) = kNumShards" "length as = kNumShards" using inv by (simp_all add: sc_rep_def)
    then have rep: "cache_rep (sc_shards (tc_cache tc) ! i) (as ! i)" using inv i by (simp add: sc_rep_def)
    have er: "entry_rep (as ! i) e (lc_store (sc_shards (tc_cache tc) ! i) e)"
      using rep_withD(1) [OF rep] unfolding store_rep_def by blast
    have "e_key en \<noteq> EncodeFixed64 m"
    proof (cases "lc_store (sc_shards (tc_cache tc) ! i) e")
      case None
      then show ?thesis using er en by (simp add: entry_rep_def)
    next
      case (Some h)
      then have "e_key en = h_key h" using er en by (simp add: entry_rep_def)
      moreover have "h_key h \<noteq> EncodeFixed64 m" using assms(2) Some i len unfolding uncached_def by (metis nth_mem)
      ultimately show ?thesis by simp
    qed
    then show "good_entry opt (store(m \<mapsto> data)) (entries(m := es)) owner (e_key en) (e_value en)"
      using old(3) unfolding good_entry_def by (metis fun_upd_apply)
  qed
  moreover have "\<forall>k data'. (store(m \<mapsto> data)) k = Some data' \<longrightarrow> pe_files env (TableFileName dbname k) = Some data'"
    using inv assms(5) by (auto simp: TableFileName_inj split: if_splits)
  ultimately have "serves_with opt dbname (store(m \<mapsto> data)) (entries(m := es)) owner as n (set_posix env tc)"
    using inv assms(4) by (simp add: serves_with_def reliable_random_def set_posix_def)
  then show ?thesis unfolding serves_def by blast
qed

text \<open>Evicting tables, and forgetting stored files.\<close>

lemma serves_fewer_files:
  assumes "serves opt dbname store entries n tc" and "reliable_env env"
    and "\<And>m data. store' m = Some data \<Longrightarrow> store m = Some data \<and> pe_files env (TableFileName dbname m) = pe_files (tc_posix tc) (TableFileName dbname m)"
  shows "serves opt dbname store' entries n (set_posix env tc)"
proof -
  obtain owner as where s: "serves_with opt dbname store entries owner as n tc" using assms(1) by (auto simp: serves_def)
  note inv = s [unfolded serves_with_def]
  have "all_entries (good_entry opt store' entries owner) as"
    by (rule all_entries_mono [of "good_entry opt store entries owner"]) (use inv assms(3) in \<open>auto simp: good_entry_def\<close>)
  then have "serves_with opt dbname store' entries owner as n (set_posix env tc)"
    using inv assms(2,3) by (simp add: serves_with_def reliable_random_def set_posix_def)
  then show ?thesis unfolding serves_def by blast
qed

lemma few_Erase: "few_left n a \<Longrightarrow> few_left n (a_Erase key hash a)"
  by (simp add: few_left_def a_Erase_def a_forget_def a_delete_def split: option.split)

lemma serves_Evict:
  assumes "serves opt dbname store entries n tc"
  shows "serves opt dbname store entries n (TableCache_Evict m tc)" and "tc_posix (TableCache_Evict m tc) = tc_posix tc"
proof -
  obtain owner as where s: "serves_with opt dbname store entries owner as n tc" using assms(1) by (auto simp: serves_def)
  note inv = s [unfolded serves_with_def]
  let ?key = "EncodeFixed64 m"
  let ?h = "HashSlice ?key"
  let ?s = "Shard ?h"
  let ?as = "as[?s := a_Erase ?key ?h (as ! ?s)]"
  have len: "length as = kNumShards" "length (sc_shards (tc_cache tc)) = kNumShards" using inv by (simp_all add: sc_rep_def)
  have rep: "cache_rep (sc_shards (tc_cache tc) ! ?s) (as ! ?s)" using inv Shard_less by (simp add: sc_rep_def)
  have few: "few_left (3 * n + 3) (as ! ?s)" using budget_nth [of "3 * n" as ?s] inv Shard_less len by simp
  have "cache_rep (cache_Erase ?key ?h (sc_shards (tc_cache tc) ! ?s)) (a_Erase ?key ?h (as ! ?s))"
    unfolding cache_Erase_def by (rule erase_entry_rep [OF rep few_mono [OF few]]) simp
  then have r: "sc_rep (sc_Erase ?key (tc_cache tc)) ?as"
    using sc_rep_update [of "tc_cache tc" as _ _ ?s] inv Shard_less by (simp add: sc_Erase_def Let_def)
  have b: "budget (3 * n) ?as"
    using inv few_Erase [OF few] set_update_subset_insert [of as ?s] unfolding budget_def by blast
  have a: "all_entries (good_entry opt store entries owner) ?as"
    by (rule all_entries_update) (use inv a_Erase_entries in blast)+
  let ?tc = "tc\<lparr>tc_cache := sc_Erase ?key (tc_cache tc)\<rparr>"
  have "sc_rep (tc_cache ?tc) ?as" using r by simp
  from run_deleters_step [OF this b a] obtain as3 where
    as3: "sc_rep (tc_cache (run_deleters ?tc)) as3" "budget (3 * n) as3" "all_entries (good_entry opt store entries owner) as3" by blast
  have "reliable_random (tc_env (run_deleters ?tc))" using inv by (simp add: reliable_random_def)
  then have "serves_with opt dbname store entries owner as3 n (TableCache_Evict m tc)"
    using inv as3 by (simp add: serves_with_def TableCache_Evict_def)
  then show "serves opt dbname store entries n (TableCache_Evict m tc)" unfolding serves_def by blast
  show "tc_posix (TableCache_Evict m tc) = tc_posix tc" by (simp add: TableCache_Evict_def)
qed

section \<open>Removing files\<close>

lemma reliable_RemoveFile:
  assumes "reliable_env env"
  shows "reliable_env (snd (env_RemoveFile f env))"
proof -
  obtain env1 where n: "name_call env = (None, env1)" "reliable_env env1" by (rule reliable_name_call [OF assms])
  then show ?thesis by (simp add: env_RemoveFile_def sys_unlink_def reliable_env_def split: prod.split option.split)
qed

lemma remove_children:
  assumes "reliable_env env"
  shows "reliable_env (fold (remove_child dbname) names env) \<and>
    ((\<forall>x \<in> set names. f \<noteq> dbname @ bytes_of ''/'' @ x) \<longrightarrow> pe_files (fold (remove_child dbname) names env) f = pe_files env f)"
  using assms
proof (induction names arbitrary: env)
  case (Cons x names)
  have r: "reliable_env (remove_child dbname x env)" unfolding remove_child_def by (rule reliable_RemoveFile [OF Cons.prems])
  have "f \<noteq> dbname @ bytes_of ''/'' @ x \<Longrightarrow> pe_files (remove_child dbname x env) f = pe_files env f"
    unfolding remove_child_def by (rule env_RemoveFile_files(3) [OF prod.collapse [symmetric]])
  then show ?case using Cons.IH [OF r] by simp
qed simp

lemma evict_all:
  assumes "serves opt dbname store entries n tc"
  shows "serves opt dbname store entries n (fold evict_removed names tc) \<and> tc_posix (fold evict_removed names tc) = tc_posix tc"
  using assms
proof (induction names arbitrary: tc)
  case (Cons x names)
  have "serves opt dbname store entries n (evict_removed x tc) \<and> tc_posix (evict_removed x tc) = tc_posix tc"
    unfolding evict_removed_def using Cons.prems serves_Evict [OF Cons.prems] by (auto split: option.split prod.split file_type.split)
  then show ?case using Cons.IH [of "evict_removed x tc"] by simp
qed simp

lemma file_of_number:
  "TableFileName dbname m = dbname @ bytes_of ''/'' @ x \<Longrightarrow> ParseFileName x = Some (m, kTableFile)"
  "LogFileName dbname m = dbname @ bytes_of ''/'' @ x \<Longrightarrow> ParseFileName x = Some (m, kLogFile)"
  using ParseFileName_number [of m "bytes_of ''ldb''"] ParseFileName_number [of m "bytes_of ''log''"]
  by (auto simp: TableFileName_def LogFileName_def MakeFileName_def bytes_of_def)

lemma AddLiveFiles_current:
  assumes "l < length (v_files (vs_current vs))" and "f \<in> set (v_files (vs_current vs) ! l)"
  shows "fm_number f \<in> AddLiveFiles vs live"
proof -
  have one: "fold (\<lambda>f. insert (fm_number f)) fs X = fm_number ` set fs \<union> X" for fs :: "file_meta list" and X
    by (induction fs arbitrary: X) auto
  have lv: "fold (\<lambda>files live. fold (\<lambda>f. insert (fm_number f)) files live) fss X = (\<Union>fs \<in> set fss. fm_number ` set fs) \<union> X" for fss :: "file_meta list list" and X
    by (induction fss arbitrary: X) (auto simp: one)
  show ?thesis using assms by (fastforce simp: AddLiveFiles_def lv)
qed

lemma RemoveObsoleteFiles_serves:
  assumes "serves opt dbname store entries n (db_tables db)" and "ok (db_bg_error db)"
  defines "live \<equiv> AddLiveFiles (db_versions db) (db_pending_outputs db)"
  shows "\<exists>tables. RemoveObsoleteFiles readdir db = db\<lparr>db_tables := tables\<rparr> \<and> serves opt dbname (\<lambda>m. if m \<in> live then store m else None) entries n tables \<and>
    (\<forall>m. vs_log_number (db_versions db) \<le> m \<longrightarrow> pe_files (tc_posix tables) (LogFileName dbname m) = pe_files (db_env db) (LogFileName dbname m)) \<and>
    (\<forall>m \<in> live. pe_files (tc_posix tables) (TableFileName dbname m) = pe_files (db_env db) (TableFileName dbname m))"
proof -
  let ?vs = "db_versions db"
  let ?names = "filter (obsolete ?vs live) (snd (env_GetChildren readdir (tc_dbname (db_tables db)) (db_env db)))"
  let ?t1 = "fold evict_removed ?names (db_tables db)"
  let ?env = "fold (remove_child (tc_dbname ?t1)) ?names (tc_posix ?t1)"
  note ev = conjunct1 [OF evict_all [OF assms(1), of ?names]] conjunct2 [OF evict_all [OF assms(1), of ?names]]
  have d: "tc_dbname ?t1 = dbname" "reliable_env (tc_posix ?t1)" using ev(1) by (auto simp: serves_def serves_with_def reliable_random_def)
  have eq: "RemoveObsoleteFiles readdir db = db\<lparr>db_tables := set_posix ?env ?t1\<rparr>"
    using assms(2) unfolding RemoveObsoleteFiles_def live_def Let_def by (simp add: case_prod_unfold)
  have tab: "pe_files ?env (TableFileName dbname m) = pe_files (tc_posix ?t1) (TableFileName dbname m)" if "m \<in> live" for m
    unfolding d(1)
  proof (rule mp [OF conjunct2 [OF remove_children [OF d(2)]]], intro ballI notI)
    fix x assume x: "x \<in> set ?names" "TableFileName dbname m = dbname @ bytes_of ''/'' @ x"
    then show False using that file_of_number(1) [OF x(2)] by (auto simp: obsolete_def keep_file_def)
  qed
  have log: "pe_files ?env (LogFileName dbname m) = pe_files (tc_posix ?t1) (LogFileName dbname m)" if "vs_log_number ?vs \<le> m" for m
    unfolding d(1)
  proof (rule mp [OF conjunct2 [OF remove_children [OF d(2)]]], intro ballI notI)
    fix x assume x: "x \<in> set ?names" "LogFileName dbname m = dbname @ bytes_of ''/'' @ x"
    then show False using that file_of_number(2) [OF x(2)] by (auto simp: obsolete_def keep_file_def)
  qed
  have "serves opt dbname (\<lambda>m. if m \<in> live then store m else None) entries n (set_posix ?env ?t1)"
    by (rule serves_fewer_files [OF ev(1)]) (use remove_children [OF d(2)] tab d(1) in \<open>auto split: if_splits\<close>)
  then show ?thesis using eq tab log ev(2) by (intro exI [of _ "set_posix ?env ?t1"]) simp
qed

section \<open>Writing a memtable out\<close>

text \<open>Every table of the entries is small enough to be read.\<close>

definition fits_table :: "table_options \<Rightarrow> (bytes \<times> bytes) list \<Rightarrow> bool" where
  "fits_table opt ps \<longleftrightarrow> (\<forall>data. table_data opt data ps \<longrightarrow> length data < 2 ^ 32)"

lemma table_data_file:
  assumes "database_options opt" and "table_data opt data ps" and "fits_table opt ps"
  shows "table_file opt data ps" and "(word_of_nat (length data) :: u64) > 0"
proof -
  note tb = database_building [OF assms(1)]
  obtain W ds where W: "data = table_building.table_image opt ds W" "table_building.written_blocks opt internal_key W ps ds"
    using assms(2) by (auto simp: table_data_def)
  have "length data > 0"
    using data_at_length [OF table_building.image_parts(1) [OF tb, of ds W]] unfolding W(1) by linarith
  moreover have "length data < 2 ^ 32" using assms(2,3) by (simp add: fits_table_def)
  ultimately show "table_file opt data ps" using W unfolding table_file_def by blast
  have "unat (word_of_nat (length data) :: u64) = length data" using \<open>length data < 2 ^ 32\<close> by (simp add: take_bit_nat_eq_self)
  then show "(word_of_nat (length data) :: u64) > 0" using \<open>length data > 0\<close> by (simp add: word_less_nat_alt)
qed

lemma WriteLevel0Table_calm:
  assumes opt: "database_options opt" and srv: "serves opt dbname store entries (Suc n) (db_tables db)"
    and mem: "mem_sorted mt ps" "ps \<noteq> []" "fits_table opt ps" and calm: "calm_env (db_env db)"
    and fresh: "uncached (vs_next_file_number (db_versions db)) (db_tables db)" "store (vs_next_file_number (db_versions db)) = None"
    and pick: "case base of None \<Rightarrow> level = 0
      | Some v \<Rightarrow> PickLevelForMemTableOutput (vs_user (db_versions db)) (vs_max_file_size (db_versions db)) (v_files v)
                  (ExtractUserKey (fst (hd ps))) (ExtractUserKey (fst (List.last ps))) = Some level"
  defines "num \<equiv> vs_next_file_number (db_versions db)"
  obtains data tables where "table_data opt data ps"
    and "WriteLevel0Table mt edit base db =
      Some (OK, ve_AddFile level num (word_of_nat (length data)) (fst (hd ps)) (fst (List.last ps)) edit,
        db\<lparr>db_versions := (db_versions db)\<lparr>vs_next_file_number := num + 1\<rparr>, db_tables := tables, db_pending_outputs := db_pending_outputs db - {num}\<rparr>)"
    and "serves opt dbname (store(num \<mapsto> data)) (entries(num := ps)) n tables"
    and "pe_files (tc_posix tables) = (pe_files (db_env db))(TableFileName dbname num \<mapsto> data)"
proof -
  have tc: "tc_options (db_tables db) = opt" "tc_dbname (db_tables db) = dbname" using srv by (auto simp: serves_def serves_with_def)
  let ?meta = "new_FileMetaData\<lparr>fm_number := num\<rparr>"
  let ?fname = "TableFileName dbname num"
  obtain data env where b: "table_data opt data ps" "calm_env env" "pe_files env = (pe_files (db_env db))(?fname \<mapsto> data)"
    "BuildTable (mem_iter_ops (vs_user (db_versions db)) mt) None ?meta (db_tables db) =
      map_option (\<lambda>(s, tc'). finish_build OK ?fname (s, built_meta ?meta ps data, tc'))
        (check_table num (word_of_nat (length data)) (set_posix env (db_tables db)))"
    using BuildTable_calm [OF _ mem(1,2) calm, of ?meta "vs_user (db_versions db)"] opt unfolding tc by auto
  note td = table_data_file [OF opt b(1) mem(3)]
  have srv': "serves opt dbname (store(num \<mapsto> data)) (entries(num := ps)) (Suc n) (set_posix env (db_tables db))"
    by (rule serves_new_file [OF srv]) (use fresh b(2,3) in \<open>simp_all add: num_def calm_env_def\<close>)
  have known: "known_file opt (store(num \<mapsto> data)) (entries(num := ps)) (built_meta ?meta ps data)"
    using td(1) by (simp add: known_file_def built_meta_def)
  from check_table_serves [OF opt srv' known] obtain tables where
    t: "check_table num (word_of_nat (length data)) (set_posix env (db_tables db)) = Some (OK, tables)"
    "serves opt dbname (store(num \<mapsto> data)) (entries(num := ps)) n tables" by (auto simp: built_meta_def)
  have files: "pe_files (tc_posix tables) = (pe_files (db_env db))(?fname \<mapsto> data)" using check_table_frame [OF t(1)] b(3) by simp
  have "WriteLevel0Table mt edit base db =
      Some (OK, ve_AddFile level num (word_of_nat (length data)) (fst (hd ps)) (fst (List.last ps)) edit,
        db\<lparr>db_versions := (db_versions db)\<lparr>vs_next_file_number := num + 1\<rparr>, db_tables := tables, db_pending_outputs := db_pending_outputs db - {num}\<rparr>)"
    using pick td(2) by (cases base) (simp_all add: WriteLevel0Table_def new_output_number_def NewFileNumber_def num_def [symmetric] b(4) t(1)
        finish_build_def built_meta_def Let_def ok_def)
  then show thesis using that b(1) t(2) files by blast
qed

section \<open>The version with the new file\<close>

definition flush_output :: "u64 \<Rightarrow> bytes \<Rightarrow> (bytes \<times> bytes) list \<Rightarrow> output_file" where
  "flush_output num data ps =
     \<lparr>ou_number = num, ou_file_size = word_of_nat (length data), ou_smallest = fst (hd ps), ou_largest = fst (List.last ps)\<rparr>"

lemma flush_output_simps [simp]:
  "ou_number (flush_output num data ps) = num" "ou_smallest (flush_output num data ps) = fst (hd ps)"
  "ou_largest (flush_output num data ps) = fst (List.last ps)" "ou_file_size (flush_output num data ps) = word_of_nat (length data)"
  by (simp_all add: flush_output_def)

abbreviation flush_meta :: "u64 \<Rightarrow> bytes \<Rightarrow> (bytes \<times> bytes) list \<Rightarrow> file_meta" where
  "flush_meta num data ps \<equiv> output_meta (flush_output num data ps)"

lemma flushed_version:
  assumes lay: "layered entries (v_files v)" and fresh: "\<forall>l < kNumLevels. \<forall>g \<in> set (v_files v ! l). fm_number g < num"
    and ps: "ps \<noteq> []" "entries_sorted ps" "parseable ps" and new: "all_newer (set ps) (stored_entries entries (v_files v))"
    and data: "table_data opt data ps"
    and level: "level < kNumLevels" "0 < level \<Longrightarrow> \<forall>l \<le> level. \<forall>g \<in> set (v_files v ! l). bytewise_user.apart (flush_meta num data ps) g"
    and e: "ve_deleted_files e = {}" "ve_new_files e = [(level, meta_new (flush_meta num data ps))]"
  defines "files' \<equiv> v_files (builder_SaveTo BytewiseComparator (builder_Apply BytewiseComparator e (new_Builder v)))"
  shows "layered (entries(num := ps)) files'" and "\<forall>l < kNumLevels. set (files' ! l) = flushed (v_files v) level (flush_meta num data ps) l"
    and "stored_entries (entries(num := ps)) files' = set ps \<union> stored_entries entries (v_files v)"
proof -
  let ?f = "flush_meta num data ps"
  let ?entries = "entries(num := ps)"
  let ?out = "flush_output num data ps"
  have num: "fm_number ?f = num" "fm_smallest ?f = fst (hd ps)" "fm_largest ?f = fst (List.last ps)" by (simp_all add: flush_output_def)
  have old: "?entries (fm_number g) = entries (fm_number g)" if "l < kNumLevels" "g \<in> set (v_files v ! l)" for l g
    using fresh that by auto
  have lv: "bytewise_user.levels_ok (keys_of ?entries) (v_files v)"
    by (rule bytewise_user.levels_ok_cong [of "keys_of entries"]) (use lay old in auto)
  have fin: "finished opt [] \<lparr>pe_files = (\<lambda>_. Some data), pe_answers = [], pe_fd_answers = [], pe_dir_answers = []\<rparr> ?out ps"
    using ps(1) data by (simp add: finished_def stored_table_def flush_output_def)
  have "bytewise_user.level_sorted (map output_meta [?out])"
    by (rule finished_level_sorted [of _ _ _ "[?out]" "[ps]"]) (use fin ps in simp_all)
  then have wf: "bytewise_user.file_wf ?f" by (simp add: bytewise_user.level_sorted_def)
  have holds: "bytewise_user.holds (keys_of ?entries) ?f"
    using finished_range [OF fin ps(2)] by (auto simp: bytewise_user.holds_def num flush_output_def)
  have newer: "bytewise_user.newer (keys_of ?entries (fm_number ?f)) (keys_of ?entries (fm_number g))" if g: "l < kNumLevels" "g \<in> set (v_files v ! l)" for l g
  proof -
    have "set (entries (fm_number g)) \<subseteq> stored_entries entries (v_files v)" using g unfolding stored_entries_def by blast
    then show ?thesis using new old [OF g] unfolding bytewise_user.newer_def all_newer_def num
      by (auto simp: bytewise_eq)
  qed
  have fr: "fm_number g < fm_number ?f \<and> bytewise_user.newer (keys_of ?entries (fm_number ?f)) (keys_of ?entries (fm_number g))"
    if "l < kNumLevels" "g \<in> set (v_files v ! l)" for l g using that fresh newer num(1) by metis
  have levels: "bytewise_user.levels_ok (keys_of ?entries) files'"
    unfolding files'_def by (rule bytewise_user.flush_levels_ok(1) [OF lv level(1) wf holds level(2) fr e])
  have sets: "set (files' ! l) = flushed (v_files v) level ?f l" if "l < kNumLevels" for l
    unfolding files'_def by (rule bytewise_user.flush_levels_ok(2) [OF lv level(1) wf holds level(2) fr e that])
  show "\<forall>l < kNumLevels. set (files' ! l) = flushed (v_files v) level ?f l" using sets by blast
  have "bytewise_user.tight (keys_of ?entries) files'"
    unfolding bytewise_user.tight_def
  proof (intro allI impI ballI)
    fix l g assume l: "l < kNumLevels" and "g \<in> set (files' ! l)"
    then consider "g \<in> set (v_files v ! l)" | "g = installed ?f" using sets by (auto simp: flushed_def split: if_splits)
    then show "fm_largest g \<in> keys_of ?entries (fm_number g)"
    proof cases
      case 1
      then show ?thesis using lay l old [OF l 1] unfolding bytewise_user.tight_def by auto
    qed (use ps(1) in \<open>simp add: flush_output_def\<close>)
  qed
  then show "layered ?entries files'" using levels by blast
  have one: "(\<Union>f \<in> flushed (v_files v) level ?f l. set (?entries (fm_number f))) =
      (if l = level then set ps else {}) \<union> (\<Union>f \<in> set (v_files v ! l). set (entries (fm_number f)))" if "l < kNumLevels" for l
    using old [OF that] by (simp add: flushed_def num)
  have "stored_entries ?entries files' = (\<Union>l < kNumLevels. (if l = level then set ps else {}) \<union> (\<Union>f \<in> set (v_files v ! l). set (entries (fm_number f))))"
    unfolding stored_entries_def by (rule SUP_cong [OF refl]) (simp add: sets one del: fun_upd_apply)
  then show "stored_entries ?entries files' = set ps \<union> stored_entries entries (v_files v)"
    using level(1) unfolding stored_entries_def by (auto split: if_splits)
qed

section \<open>Installing it\<close>

lemma Log_not_Descriptor: "LogFileName dbname n \<noteq> DescriptorFileName dbname m"
proof -
  have "List.hd (pad6 n @ bytes_of ''.log'') \<noteq> 77" using pad6_hd(2) [of n "bytes_of ''.log''"] by (auto simp: is_digit_def)
  moreover have "pad6 n \<noteq> []" by (rule pad6_hd(1))
  ultimately show ?thesis
    by (cases "pad6 n") (auto simp: DescriptorFileName_def LogFileName_def MakeFileName_def bytes_of_def)
qed

lemma db_LogAndApply_calm:
  assumes user: "vs_user (db_versions db) = BytewiseComparator" and w: "vs_descriptor (db_versions db) = Some w" "calm (lw_dest w)"
    and e: "ve_has_log_number edit" "ve_has_prev_log_number edit" "reliable_env (db_env db)"
  obtains vs' env' where "fst (db_LogAndApply edit db) = OK" and "snd (snd (db_LogAndApply edit db)) = db_set_env env' (db\<lparr>db_versions := vs'\<rparr>)"
    and "v_files (vs_current vs') = v_files (builder_SaveTo BytewiseComparator (builder_Apply BytewiseComparator
           (complete_edit edit (db_versions db)) (new_Builder (vs_current (db_versions db)))))"
    and "ve_deleted_files (complete_edit edit (db_versions db)) = ve_deleted_files edit" "ve_new_files (complete_edit edit (db_versions db)) = ve_new_files edit"
    and "vs_user vs' = BytewiseComparator" "vs_last_sequence vs' = vs_last_sequence (db_versions db)" "vs_log_number vs' = ve_log_number edit"
      "vs_next_file_number vs' = vs_next_file_number (db_versions db)"
    and "reliable_env env'" and "\<And>f. f \<noteq> pw_filename (lw_dest w) \<Longrightarrow> pe_files env' f = pe_files (db_env db) f"
proof -
  let ?vs = "db_versions db"
  let ?e = "complete_edit edit ?vs"
  obtain s w' env' where wm: "write_manifest ?e w (db_env db) = (s, w', env')" by (metis prod_cases3)
  obtain w1 where a: "AddRecord posix_writable_ops w (ve_EncodeTo ?e []) = (OK, w1)" "calm (lw_dest w1)" using calm_AddRecord [OF w(2)] by blast
  obtain d where d: "posix_Sync (lw_dest w1) = (OK, d)" using calm_Sync [OF a(2)] by blast
  have s: "s = OK" "env' = store_log w' (db_env db)" using wm by (auto simp: write_manifest_def a d Let_def)
  note la = bytewise_user.LogAndApply_open [OF user w(1) wm]
  let ?vs' = "bytewise_user.installed_version ?e ?vs ((bytewise_user.with_pointers ?e ?vs)\<lparr>vs_descriptor := Some w'\<rparr>)"
  have r: "db_LogAndApply edit db = (OK, ?e, db_set_env env' (db\<lparr>db_versions := ?vs'\<rparr>))"
    using la s by (simp add: db_LogAndApply_def ok_def)
  have c: "ve_log_number ?e = ve_log_number edit" "ve_deleted_files ?e = ve_deleted_files edit" "ve_new_files ?e = ve_new_files edit"
    using e by (simp_all add: complete_edit_def Let_def SetLogNumber_def SetPrevLogNumber_def SetNextFile_def SetLastSequence_def)
  have "reliable_env env'" using e(3) by (simp add: s(2) store_log_def reliable_store)
  moreover have "pe_files env' f = pe_files (db_env db) f" if "f \<noteq> pw_filename (lw_dest w)" for f
    using write_manifest_files [OF wm] that by blast
  ultimately show thesis using that [of env' ?vs'] r c user
    by (simp add: bytewise_user.installed_version_fields bytewise_user.with_pointers_fields bytewise_user.next_version_def bytewise_user.Finalize_files)
qed

section \<open>Compacting the memtable\<close>

text \<open>
  The state in which a flush works: a kernel that does not fail, no error so far, an open manifest, the log under its number, and a next file
  number that is new.
\<close>

definition flushable :: "bytes \<Rightarrow> db \<Rightarrow> bool" where
  "flushable dbname db \<longleftrightarrow>
     calm_env (db_env db) \<and> ok (db_bg_error db) \<and> \<not> db_shutting_down db \<and>
     (\<exists>w m. vs_descriptor (db_versions db) = Some w \<and> calm (lw_dest w) \<and> pw_filename (lw_dest w) = DescriptorFileName dbname m) \<and>
     (\<exists>w. db_log db = Some w \<and> pw_filename (lw_dest w) = LogFileName dbname (db_logfile_number db)) \<and>
     (\<forall>l < kNumLevels. \<forall>f \<in> set (db_files db ! l). fm_number f < vs_next_file_number (db_versions db)) \<and>
     uncached (vs_next_file_number (db_versions db)) (db_tables db)"

lemma served_file_cong:
  "served_file opt store entries f \<Longrightarrow> store' (fm_number f) = store (fm_number f) \<Longrightarrow> entries' (fm_number f) = entries (fm_number f) \<Longrightarrow>
   served_file opt store' entries' f"
  by (simp add: served_file_def known_file_def)

lemma PickLevel_total:
  assumes "bytewise_user.version_wf files"
  shows "\<exists>r. PickLevelForMemTableOutput BytewiseComparator m files a b = Some r"
proof (cases "OverlapInLevel BytewiseComparator files 0 (Some a) (Some b)")
  case False
  then have "\<forall>i \<le> 0. \<forall>f \<in> set (files ! i). \<not> bytewise_user.overlaps (Some a) (Some b) f"
    using bytewise_user.SomeFileOverlapsRange_spec [of False "files ! 0" "Some a" "Some b"] by (simp add: OverlapInLevel_def)
  from bytewise_user.PickLevel_loop_spec [OF _ _ this, of m] assms False show ?thesis
    by (auto simp: PickLevelForMemTableOutput_def bytewise_user.version_wf_def)
qed (simp add: PickLevelForMemTableOutput_def)

lemma CompactMemTable_flushes:
  assumes h: "holding opt dbname (Suc n) E L db" and opt: "database_options opt" and fl: "flushable dbname db"
    and imm: "db_imm db = Some mt" "mem_iter_SeekToFirst mt \<noteq> None" and fit: "fits_table opt (mem_list mt)"
  shows "\<exists>data level db'. CompactMemTable readdir db = Some db' \<and> holding opt dbname n E L db' \<and> db_imm db' = None \<and> db_mem db' = db_mem db \<and>
    ok (db_bg_error db') \<and> vs_log_number (db_versions db') = db_logfile_number db \<and>
    table_data opt data (mem_list mt) \<and> pe_files (db_env db') (TableFileName dbname (vs_next_file_number (db_versions db))) = Some data \<and>
    (\<forall>l < kNumLevels. set (db_files db' ! l) = flushed (db_files db) level (flush_meta (vs_next_file_number (db_versions db)) data (mem_list mt)) l)"
proof -
  let ?vs = "db_versions db"
  let ?num = "vs_next_file_number ?vs"
  let ?v = "vs_current ?vs"
  obtain store entries mem im where ok: "db_ok opt dbname store entries mem im (Suc n) db" and E: "db_entries mem im entries db = E"
    using h by (auto simp: holding_def)
  note k = ok [unfolded db_ok_def files_served_def]
  note r = db_ok_reliable [OF ok]
  have lay: "layered entries (v_files ?v)" and served: "\<forall>l < kNumLevels. \<forall>f \<in> set (v_files ?v ! l). served_file opt store entries f"
    and srv: "serves opt dbname store entries (Suc n) (db_tables db)" using k by blast+
  have fresh: "\<forall>l < kNumLevels. \<forall>f \<in> set (v_files ?v ! l). fm_number f < ?num" and unc: "uncached ?num (db_tables db)"
    and calm: "calm_env (db_env db)" and noerr: "ok (db_bg_error db)" "\<not> db_shutting_down db" using fl by (auto simp: flushable_def)
  obtain w m where w: "vs_descriptor ?vs = Some w" "calm (lw_dest w)" "pw_filename (lw_dest w) = DescriptorFileName dbname m"
    using fl by (auto simp: flushable_def)
  define store0 where "store0 = store(?num := None)"
  have srv0: "serves opt dbname store0 entries (Suc n) (db_tables db)"
  proof -
    have "set_posix (tc_posix (db_tables db)) (db_tables db) = db_tables db" by (simp add: set_posix_def)
    moreover have "serves opt dbname store0 entries (Suc n) (set_posix (tc_posix (db_tables db)) (db_tables db))"
      by (rule serves_fewer_files [OF srv r(1)]) (auto simp: store0_def split: if_splits)
    ultimately show ?thesis by simp
  qed
  obtain ks where ks: "bytewise_user.mem_rep mt im ks" using k imm(1) by (auto simp: holds_writes_def)
  define ps where "ps = map mem_pair ks"
  have list: "mem_list mt = ps" using mem_list_rep [OF ks] by (simp add: ps_def)
  note fit = fit [unfolded list]
  have ms: "mem_sorted mt ps" and set_ps: "set ps = mem_entries im" using mem_rep_sorted [OF ks] by (simp_all add: ps_def)
  have ne: "ps \<noteq> []" using ms imm(2) by (auto simp: mem_sorted_def split: option.splits)
  have ps: "entries_sorted ps" "parseable ps" using ms by (simp_all add: mem_sorted_def)
  obtain level where level: "PickLevelForMemTableOutput BytewiseComparator (vs_max_file_size ?vs) (v_files ?v)
      (ExtractUserKey (fst (hd ps))) (ExtractUserKey (fst (List.last ps))) = Some level"
    using PickLevel_total bytewise_user.levels_okD(1) [OF conjunct1 [OF lay]] by blast
  let ?db0 = "db\<lparr>db_versions := version_Ref ?vs\<rparr>"
  have f0: "db_tables ?db0 = db_tables db" "vs_next_file_number (db_versions ?db0) = ?num" "vs_user (db_versions ?db0) = BytewiseComparator"
    "vs_max_file_size (db_versions ?db0) = vs_max_file_size ?vs" using r(3) by (simp_all add: version_Ref_def)
  obtain data tables where t: "table_data opt data ps"
    "WriteLevel0Table mt new_VersionEdit (Some ?v) ?db0 =
      Some (OK, ve_AddFile level ?num (word_of_nat (length data)) (fst (hd ps)) (fst (List.last ps)) new_VersionEdit,
        ?db0\<lparr>db_versions := (db_versions ?db0)\<lparr>vs_next_file_number := ?num + 1\<rparr>, db_tables := tables, db_pending_outputs := db_pending_outputs ?db0 - {?num}\<rparr>)"
    "serves opt dbname (store0(?num \<mapsto> data)) (entries(?num := ps)) n tables"
    "pe_files (tc_posix tables) = (pe_files (db_env db))(TableFileName dbname ?num \<mapsto> data)"
    using WriteLevel0Table_calm [where opt = opt and dbname = dbname and store = store0 and entries = entries and n = n and db = ?db0 and mt = mt and
      ps = ps and base = "Some ?v" and level = level and edit = new_VersionEdit] opt srv0 ms ne fit calm unc level
    unfolding f0 by (auto simp: store0_def)
  let ?edit = "SetLogNumber (db_logfile_number db) (SetPrevLogNumber 0
      (ve_AddFile level ?num (word_of_nat (length data)) (fst (hd ps)) (fst (List.last ps)) new_VersionEdit))"
  let ?vs2 = "?vs\<lparr>vs_current_refs := vs_current_refs ?vs, vs_next_file_number := ?num + 1\<rparr>"
  define edit where "edit = ?edit"
  define vs2 where "vs2 = ?vs2"
  define db2 where "db2 = db\<lparr>db_tables := tables, db_pending_outputs := db_pending_outputs db - {?num}, db_versions := vs2\<rparr>"
  have ed: "ve_has_log_number edit" "ve_has_prev_log_number edit" "ve_log_number edit = db_logfile_number db" "ve_deleted_files edit = {}"
    "ve_new_files edit = [(level, meta_new (flush_meta ?num data ps))]"
    by (simp_all add: edit_def SetLogNumber_def SetPrevLogNumber_def ve_AddFile_def new_VersionEdit_def ve_Clear_def meta_new_def)
  have rel: "reliable_env (db_env db2)" using t(3) by (auto simp: db2_def serves_def serves_with_def reliable_random_def)
  have f2: "db_versions db2 = vs2" "vs_user vs2 = BytewiseComparator" "vs_descriptor vs2 = Some w" "vs_current vs2 = ?v" "vs_last_sequence vs2 = vs_last_sequence ?vs"
    "db_env db2 = tc_posix tables"
    using r(3) w(1) by (simp_all add: db2_def vs2_def)
  obtain vs' env' where la: "fst (db_LogAndApply edit db2) = OK" "snd (snd (db_LogAndApply edit db2)) = db_set_env env' (db2\<lparr>db_versions := vs'\<rparr>)"
    "v_files (vs_current vs') = v_files (builder_SaveTo BytewiseComparator (builder_Apply BytewiseComparator (complete_edit edit vs2) (new_Builder ?v)))"
    "ve_deleted_files (complete_edit edit vs2) = {}" "ve_new_files (complete_edit edit vs2) = [(level, meta_new (flush_meta ?num data ps))]"
    "vs_user vs' = BytewiseComparator" "vs_last_sequence vs' = vs_last_sequence ?vs" "vs_log_number vs' = db_logfile_number db"
    "reliable_env env'" "\<And>f. f \<noteq> DescriptorFileName dbname m \<Longrightarrow> pe_files env' f = pe_files (tc_posix tables) f"
    by (rule db_LogAndApply_calm [of db2 w edit, unfolded f2, OF refl refl w(2) ed(1,2) rel [unfolded f2]]) (use ed w(3) in metis)
  let ?db3 = "(db_set_env env' (db2\<lparr>db_versions := vs'\<rparr>))\<lparr>db_imm := None\<rparr>"
  have run: "CompactMemTable readdir db = Some (RemoveObsoleteFiles readdir ?db3)"
    using la(1,2) noerr(2) imm(1) t(2)
    by (simp add: CompactMemTable_def version_Ref_def Let_def case_prod_unfold ok_def edit_def db2_def vs2_def)
  note fv = flushed_version [OF lay fresh ne ps _ t(1) _ _ la(4,5)]
  have apart: "level < kNumLevels" "0 < level \<Longrightarrow> \<forall>l \<le> level. \<forall>g \<in> set (v_files ?v ! l). bytewise_user.apart (flush_meta ?num data ps) g"
    using bytewise_user.picked_level_apart [OF bytewise_user.levels_okD(1) [OF conjunct1 [OF lay]], of "vs_max_file_size ?vs" "flush_meta ?num data ps" level] level
    by simp_all
  have newer: "all_newer (set ps) (stored_entries entries (v_files ?v))" unfolding set_ps using k by blast
  note fv = fv [OF newer apart, folded la(3)]
  let ?store = "store0(?num \<mapsto> data)" and ?entries = "entries(?num := ps)"
  let ?live = "AddLiveFiles (db_versions ?db3) (db_pending_outputs ?db3)"
  have tab: "pe_files env' (TableFileName dbname i) = pe_files (tc_posix tables) (TableFileName dbname i)" for i
    using la(10) Table_not_Descriptor by blast
  have srv3: "serves opt dbname ?store ?entries n (db_tables ?db3)"
    using serves_posix [OF t(3) la(9) tab] by (simp add: db_set_env_def db2_def)
  have bg: "ok (db_bg_error ?db3)" using noerr(1) by (simp add: db_set_env_def db2_def)
  obtain tables' where t': "RemoveObsoleteFiles readdir ?db3 = ?db3\<lparr>db_tables := tables'\<rparr>"
    "serves opt dbname (\<lambda>i. if i \<in> ?live then ?store i else None) ?entries n tables'"
    "\<forall>i. vs_log_number (db_versions ?db3) \<le> i \<longrightarrow> pe_files (tc_posix tables') (LogFileName dbname i) = pe_files (db_env ?db3) (LogFileName dbname i)"
    "\<forall>i \<in> ?live. pe_files (tc_posix tables') (TableFileName dbname i) = pe_files (db_env ?db3) (TableFileName dbname i)"
    using RemoveObsoleteFiles_serves [OF srv3 bg, of readdir] by blast
  let ?db' = "?db3\<lparr>db_tables := tables'\<rparr>"
  have f3: "db_versions ?db3 = vs'" "db_env ?db3 = env'" "db_bg_error ?db3 = db_bg_error db" "db_mem ?db3 = db_mem db" "db_log ?db3 = db_log db" "db_imm ?db3 = None"
    by (simp_all add: db_set_env_def db2_def)
  have f': "db_versions ?db' = vs'" "db_env ?db' = tc_posix tables'" "db_bg_error ?db' = db_bg_error db" "db_mem ?db' = db_mem db" "db_log ?db' = db_log db"
    "db_imm ?db' = None" "db_tables ?db' = tables'" by (simp_all add: db_set_env_def db2_def)
  have len: "length (v_files (vs_current vs')) = kNumLevels"
    using bytewise_user.levels_okD(1) [OF conjunct1 [OF fv(1)]] by (simp add: bytewise_user.version_wf_def)
  have live: "fm_number f \<in> ?live" if "l < kNumLevels" "f \<in> set (v_files (vs_current vs') ! l)" for l f
    unfolding f3(1) by (rule AddLiveFiles_current) (use that len in auto)
  have served': "served_file opt (\<lambda>i. if i \<in> ?live then ?store i else None) ?entries f" if l: "l < kNumLevels" "f \<in> set (v_files (vs_current vs') ! l)" for l f
  proof -
    note lv = live [OF l]
    consider "f \<in> set (v_files ?v ! l)" | "f = installed (flush_meta ?num data ps)"
      using fv(2) l by (auto simp: flushed_def split: if_splits)
    then show ?thesis
    proof cases
      case 1
      then have "served_file opt store entries f" "fm_number f < ?num" using served fresh l(1) by blast+
      then have sf: "served_file opt store entries f" "fm_number f \<noteq> ?num" by auto
      show ?thesis
        by (rule served_file_cong [OF sf(1)]) (use sf(2) lv in \<open>simp_all add: store0_def\<close>)
    next
      case 2
      have "table_file opt data ps" by (rule table_data_file(1) [OF opt t(1)]) (rule fit)
      moreover have "fm_file_size f = word_of_nat (length data)" by (simp add: 2 installed_def prepared_def meta_new_def)
      moreover have "fm_number f = ?num" by (simp add: 2)
      ultimately show ?thesis using lv opt ps by (simp add: served_file_def known_file_def)
    qed
  qed
  have stored: "stored_entries ?entries (v_files (vs_current vs')) = mem_entries im \<union> stored_entries entries (v_files ?v)" using fv(3) set_ps by simp
  have dok: "db_ok opt dbname (\<lambda>i. if i \<in> ?live then ?store i else None) ?entries mem [] n ?db'"
    unfolding db_ok_def files_served_def f' stored
    using k t'(2) fv(1) served' la(6,7) by (simp add: holds_writes_def mem_entries_def all_newer_def)
  have ent: "db_entries mem [] ?entries ?db' = E"
    unfolding db_entries_def f'(1) stored using E by (auto simp: db_entries_def mem_entries_def)
  obtain ds lw lm where lo: "db_log db = Some lw" "log_at lw ds" "pw_filename (lw_dest lw) = LogFileName dbname lm"
    "ds \<noteq> [] \<longrightarrow> pe_files (db_env db) (LogFileName dbname lm) = Some (log_encs 0 ds)" using h by (auto simp: holding_def log_open_def)
  have name: "LogFileName dbname lm = LogFileName dbname (db_logfile_number db)" using fl lo(1,3) by (auto simp: flushable_def)
  have "pe_files (tc_posix tables') (LogFileName dbname (db_logfile_number db)) = pe_files env' (LogFileName dbname (db_logfile_number db))"
    using t'(3) la(8) unfolding f3 by simp
  also have "\<dots> = pe_files (db_env db) (LogFileName dbname (db_logfile_number db))"
    using la(10) [OF Log_not_Descriptor] Table_not_Log t(4) by (metis fun_upd_other)
  finally have "log_open dbname ds ?db'"
    using lo name unfolding log_open_def f' by auto
  then have "holding opt dbname n E L ?db'"
    using h dok ent la(7) unfolding holding_def f' by auto
  moreover have "pe_files (db_env ?db') (TableFileName dbname ?num) = Some data"
  proof -
    have "installed (flush_meta ?num data ps) \<in> set (v_files (vs_current vs') ! level)" using fv(2) apart(1) by (simp add: flushed_def)
    then have "fm_number (installed (flush_meta ?num data ps)) \<in> ?live" using live apart(1) by blast
    then have "?num \<in> ?live" by simp
    then show ?thesis using t'(4) tab t(4) unfolding f'(2) f3(2) by simp
  qed
  ultimately show ?thesis
    unfolding list using run t'(1) t(1) fv(2) noerr(1) la(8) f'
    by (intro exI [of _ data] exI [of _ level] exI [of _ ?db']) simp
qed

text \<open>What \<^verbatim>\<open>DBImpl::Get\<close> answers in a database that holds entries.\<close>

lemma holding_Get:
  assumes h: "holding opt dbname n E L db" and n: "length (db_files db ! 0) + kNumLevels \<le> n" and u: "length u + 8 < 2 ^ 32"
  shows "\<exists>r db'. db_Get ro None u db = Some (fst (read_entry r), snd (read_entry r), db') \<and> newest E u L r"
proof -
  obtain store entries mem imm where ok: "db_ok opt dbname store entries mem imm n db" "db_entries mem imm entries db = E"
    using h by (auto simp: holding_def)
  have "n = (n - (length (db_files db ! 0) + kNumLevels)) + (length (db_files db ! 0) + kNumLevels)" using n by simp
  then have "db_ok opt dbname store entries mem imm ((n - (length (db_files db ! 0) + kNumLevels)) + (length (db_files db ! 0) + kNumLevels)) db"
    using ok(1) by metis
  from db_Get_newest [OF this u, where snapshot = None and s = L and ro = ro] show ?thesis using h ok(2) by (auto simp: holding_def)
qed

lemma holding_distinct:
  assumes "holding opt dbname n E L db" and "l < kNumLevels"
  shows "distinct (db_files db ! l)"
proof -
  obtain entries where "layered entries (db_files db)" using assms(1) by (auto simp: holding_def db_ok_def files_served_def)
  then show ?thesis using assms(2) by (simp add: bytewise_user.levels_ok_def)
qed

lemma flushed_length:
  assumes "holding opt dbname n E L db" and "holding opt dbname n' E' L' db'" and "l < kNumLevels"
    and "set (db_files db' ! l) = flushed (db_files db) level f l"
  shows "length (db_files db' ! l) \<le> Suc (length (db_files db ! l))"
proof -
  have "card (set (db_files db' ! l)) \<le> Suc (card (set (db_files db ! l)))"
    unfolding assms(4) flushed_def by (simp add: card_insert_if)
  then show ?thesis using holding_distinct [OF assms(1,3)] holding_distinct [OF assms(2,3)] by (simp add: distinct_card)
qed

section \<open>Property\<close>

text \<open>The example of the read path before its table was written: the entry is in the memtable that is to be written out.\<close>

definition unflushed_mem :: memtable where
  "unflushed_mem = the (mem_AddAll BytewiseComparator [(7, kTypeValue, [5], [10, 11])] new_MemTable)"

definition unflushed_db :: db where
  "unflushed_db = demo_db\<lparr>db_mem := new_MemTable, db_imm := Some unflushed_mem,
     db_tables := new_TableCache [100] demo_options 990 (demo_random_env\<lparr>re_posix := (re_posix demo_random_env)\<lparr>pe_files := (\<lambda>f. None)\<rparr>\<rparr>),
     db_log := Some (new_log_writer (new_posix_writable (LogFileName [100] 9) \<lparr>fd_data = [], fd_answers = []\<rparr> \<lparr>fd_data = [], fd_answers = []\<rparr>) 0),
     db_versions := (db_versions demo_db)\<lparr>vs_next_file_number := 10, vs_current := new_Version,
       vs_descriptor := Some (new_log_writer (new_posix_writable (DescriptorFileName [100] 2) \<lparr>fd_data = [], fd_answers = []\<rparr> \<lparr>fd_data = [], fd_answers = []\<rparr>) 0)\<rparr>\<rparr>"

lemma unflushed_rep:
  "\<exists>ks. bytewise_user.mem_rep unflushed_mem [(7, kTypeValue, [5], [10, 11])] ks"
proof -
  have "\<forall>e \<in> set [(7, kTypeValue, [5], [10, 11])]. valid_write e" by (simp add: valid_write_def kMaxSequenceNumber_def)
  from bytewise_user.mem_rep_AddAll [OF bytewise_user.mem_rep_new this] show ?thesis by (auto simp: unflushed_mem_def)
qed

lemma unflushed_state:
  "db_imm unflushed_db = Some unflushed_mem" "db_mem unflushed_db = new_MemTable" "db_files unflushed_db = replicate kNumLevels []"
  "vs_user (db_versions unflushed_db) = BytewiseComparator" "vs_next_file_number (db_versions unflushed_db) = 10"
  "vs_last_sequence (db_versions unflushed_db) = 8" "db_bg_error unflushed_db = OK" "\<not> db_shutting_down unflushed_db" "db_logfile_number unflushed_db = 9"
  "db_env unflushed_db = \<lparr>pe_files = (\<lambda>f. None), pe_answers = [], pe_fd_answers = [], pe_dir_answers = []\<rparr>"
  by (simp_all add: unflushed_db_def demo_db_def new_VersionSet_def new_Version_def new_TableCache_def demo_random_env_def)

lemma one_entry:
  assumes "entries_sorted ps" and "set ps = {e}" and "ParseInternalKey (fst e) \<noteq> None"
  shows "ps = [e]"
proof (cases ps)
  case (Cons a qs)
  then have a: "a = e" using assms(2) by auto
  have "qs = []"
  proof (rule ccontr)
    assume "qs \<noteq> []"
    then have "hd qs \<in> set qs" by simp
    moreover from this have "hd qs = e" using assms(2) Cons by auto
    ultimately have "cmp_Compare bytewise_internal (fst e) (fst e) < 0" using assms(1) Cons a by simp
    then show False by (simp add: bytewise_user.ik.compare_refl internal_compare)
  qed
  then show ?thesis using Cons a by simp
qed (use assms(2) in simp)

lemma unflushed_key: "InternalKey [5] 7 kTypeValue = fst demo_entry"
  by (simp add: demo_entry_def InternalKey_def AppendInternalKey_def PutFixed64_def EncodeFixed64_def PackSequenceAndType_def type_code_def)

lemma unflushed_entries: "mem_entries [(7, kTypeValue, [5], [10, 11])] = {demo_entry}"
  using unflushed_key by (simp add: mem_entries_def demo_entry_def)

lemma unflushed_list: "mem_list unflushed_mem = [demo_entry]" and unflushed_sorted: "mem_sorted unflushed_mem [demo_entry]"
proof -
  obtain ks where ks: "bytewise_user.mem_rep unflushed_mem [(7, kTypeValue, [5], [10, 11])] ks" using unflushed_rep by blast
  note s = mem_rep_sorted [OF ks, unfolded unflushed_entries]
  have "map mem_pair ks = [demo_entry]"
    by (rule one_entry [OF _ s(2)]) (use s(1) in \<open>simp_all add: mem_sorted_def demo_key\<close>)
  then show "mem_list unflushed_mem = [demo_entry]" "mem_sorted unflushed_mem [demo_entry]"
    using mem_list_rep [OF ks] s(1) by simp_all
qed

lemma unflushed_holding: "holding demo_options [100] (Suc 989) {demo_entry} 8 unflushed_db"
proof -
  let ?es = "[(7, kTypeValue, [5], [10, 11])] :: entry list"
  have new: "\<exists>ks. bytewise_user.mem_rep new_MemTable [] ks" using bytewise_user.mem_rep_new by blast
  have lvl: "l < kNumLevels \<Longrightarrow> replicate kNumLevels [] ! l = []" for l by simp
  have lay: "layered (\<lambda>_. []) (replicate kNumLevels [])"
    using lvl [of 0] by (simp add: bytewise_user.levels_ok_def bytewise_user.version_wf_def bytewise_user.level_sorted_def bytewise_user.tight_def
        bytewise_user.key_sorted_def kNumLevels_def)
  have st: "stored_entries (\<lambda>_. []) (replicate kNumLevels []) = {}" by (auto simp: stored_entries_def)
  have srv: "serves demo_options [100] (\<lambda>_. None) (\<lambda>_. []) (Suc 989) (db_tables unflushed_db)"
    using new_TableCache_serves [of "demo_random_env\<lparr>re_posix := (re_posix demo_random_env)\<lparr>pe_files := (\<lambda>f. None)\<rparr>\<rparr>" 990 "\<lambda>_. None" "[100]"]
    by (simp add: unflushed_db_def demo_random_env_def reliable_random_def reliable_env_def)
  have fs: "files_served demo_options [100] (\<lambda>_. None) (\<lambda>_. []) (Suc 989) unflushed_db"
    using lay srv unfolding files_served_def unflushed_state by simp
  have "holds_writes (db_imm unflushed_db) ?es" "holds_writes (Some (db_mem unflushed_db)) []"
    using unflushed_rep new by (simp_all add: holds_writes_def unflushed_state valid_write_def kMaxSequenceNumber_def)
  moreover note me = unflushed_entries
  ultimately have ok: "db_ok demo_options [100] (\<lambda>_. None) (\<lambda>_. []) [] ?es (Suc 989) unflushed_db"
    using fs unfolding db_ok_def unflushed_state st by (simp add: kMaxSequenceNumber_def mem_entries_def all_newer_def)
  have "db_entries [] ?es (\<lambda>_. []) unflushed_db = {demo_entry}"
    unfolding db_entries_def unflushed_state st me by (simp add: mem_entries_def)
  moreover have "log_open [100] [] unflushed_db"
    using new_log_at by (auto simp: log_open_def unflushed_db_def new_log_writer_def new_posix_writable_def posix_content_def)
  moreover have "key_tag (fst demo_entry) \<le> PackSequenceAndType 8 kTypeValue"
    by (simp add: demo_key PackSequenceAndType_def type_code_def)
  ultimately show ?thesis using ok unfolding holding_def by (auto simp: unflushed_state)
qed

lemma unflushed_flushable: "flushable [100] unflushed_db"
proof -
  have "uncached 10 (db_tables unflushed_db)"
    by (simp add: uncached_def unflushed_db_def new_TableCache_def NewLRUCache_def new_LRUCache_def Let_def)
  moreover have "\<exists>w m. vs_descriptor (db_versions unflushed_db) = Some w \<and> calm (lw_dest w) \<and> pw_filename (lw_dest w) = DescriptorFileName [100] m"
    by (auto simp: unflushed_db_def new_log_writer_def new_posix_writable_def calm_def no_failure_def)
  moreover have "\<exists>w. db_log unflushed_db = Some w \<and> pw_filename (lw_dest w) = LogFileName [100] (db_logfile_number unflushed_db)"
    unfolding unflushed_state by (auto simp: unflushed_db_def new_log_writer_def new_posix_writable_def)
  ultimately show ?thesis
    using unflushed_state(8) unfolding flushable_def unflushed_state by (simp add: calm_env_def reliable_env_def)
qed

text \<open>
  C4: Writing out a memtable keeps every answer. In a kernel that does not fail, \<^verbatim>\<open>DBImpl::CompactMemTable\<close> returns with no
  memtable left to write out and no error; the table file under the next file number is the table of exactly the memtable's pairs, in the order of its
  iterator, and the installed version has it, with its size and its bounds, at the chosen level beside the files it had;
  the version no longer needs the logs before the current one; files no version needs are gone, and the database, read through the
  table cache, holds the entries it held: \<^verbatim>\<open>DBImpl::Get\<close> answers with the newest of them.
\<close>

theorem flush_keeps_reads:
  assumes "holding opt dbname (Suc n) E L db" and "database_options opt" and "flushable dbname db"
    and "db_imm db = Some mt" and "mem_iter_SeekToFirst mt \<noteq> None" and "fits_table opt (mem_list mt)"
  shows "\<exists>data level db'. CompactMemTable readdir db = Some db' \<and> holding opt dbname n E L db' \<and>
    db_imm db' = None \<and> db_mem db' = db_mem db \<and> ok (db_bg_error db') \<and> vs_log_number (db_versions db') = db_logfile_number db \<and>
    table_data opt data (mem_list mt) \<and>
    pe_files (db_env db') (TableFileName dbname (vs_next_file_number (db_versions db))) = Some data \<and>
    (\<forall>l < kNumLevels. set (db_files db' ! l) = flushed (db_files db) level (flush_meta (vs_next_file_number (db_versions db)) data (mem_list mt)) l) \<and>
    (\<forall>ro u. length (db_files db ! 0) + kNumLevels < n \<longrightarrow> length u + 8 < 2 ^ 32 \<longrightarrow>
       (\<exists>r db''. db_Get ro None u db' = Some (fst (read_entry r), snd (read_entry r), db'') \<and> newest E u L r))"
proof -
  let ?num = "vs_next_file_number (db_versions db)"
  obtain data level db' where c: "CompactMemTable readdir db = Some db'" "holding opt dbname n E L db'"
    "db_imm db' = None" "db_mem db' = db_mem db" "ok (db_bg_error db')" "vs_log_number (db_versions db') = db_logfile_number db"
    "table_data opt data (mem_list mt)" "pe_files (db_env db') (TableFileName dbname ?num) = Some data"
    "\<forall>l < kNumLevels. set (db_files db' ! l) = flushed (db_files db) level (flush_meta ?num data (mem_list mt)) l"
    using CompactMemTable_flushes [OF assms, of readdir] by blast
  have "0 < kNumLevels" by (simp add: kNumLevels_def)
  then have "length (db_files db' ! 0) \<le> Suc (length (db_files db ! 0))"
    using flushed_length [OF assms(1) c(2)] c(9) by blast
  then have "\<exists>r db''. db_Get ro None u db' = Some (fst (read_entry r), snd (read_entry r), db'') \<and> newest E u L r"
    if "length (db_files db ! 0) + kNumLevels < n" "length u + 8 < 2 ^ 32" for ro u
    using holding_Get [OF c(2)] that by simp
  then show ?thesis using c by blast
qed

theorem flush_keeps_reads_witness:
  "\<exists>data db db'. CompactMemTable (\<lambda>_ _. Inr []) unflushed_db = Some db \<and> pe_files (db_env db) (TableFileName [100] 10) = Some data \<and>
     db_Get \<lparr>ro_verify_checksums = True, ro_fill_cache = True\<rparr> None [5] db = Some (OK, Some [10, 11], db')"
proof -
  let ?ro = "\<lparr>ro_verify_checksums = True, ro_fill_cache = True\<rparr>"
  have fit: "fits_table demo_options (mem_list unflushed_mem)"
    using demo_image_size unfolding fits_table_def table_data_def unflushed_list by blast
  have some: "mem_iter_SeekToFirst unflushed_mem \<noteq> None" using unflushed_sorted by (auto simp: mem_sorted_def split: option.splits)
  obtain data db where c: "CompactMemTable (\<lambda>_ _. Inr []) unflushed_db = Some db" "pe_files (db_env db) (TableFileName [100] 10) = Some data"
    and get: "\<forall>ro u. length (db_files unflushed_db ! 0) + kNumLevels < 989 \<longrightarrow> length u + 8 < 2 ^ 32 \<longrightarrow>
       (\<exists>r db''. db_Get ro None u db = Some (fst (read_entry r), snd (read_entry r), db'') \<and> newest {demo_entry} u 8 r)"
    using flush_keeps_reads [OF unflushed_holding demo_database unflushed_flushable unflushed_state(1) some fit, of "\<lambda>_ _. Inr []"]
    unfolding unflushed_state(5) by blast
  have "length (db_files unflushed_db ! 0) + kNumLevels < 989" unfolding unflushed_state by (simp add: kNumLevels_def)
  then obtain r db' where r: "db_Get ?ro None [5] db = Some (fst (read_entry r), snd (read_entry r), db')" "newest {demo_entry} [5] 8 r"
    using get [rule_format, of "[5]" ?ro] by auto
  have "visible_in {demo_entry} [5] 8 = {demo_entry}"
    by (auto simp: visible_in_def demo_key PackSequenceAndType_def kValueTypeForSeek_def type_code_def)
  then have "r = Some demo_entry" using r(2) by (auto simp: newest_def split: option.splits)
  then have "read_entry r = (OK, Some [10, 11])" using demo_key(1) by (simp add: read_entry_def demo_entry_def)
  then show ?thesis using c r(1) by auto
qed

end
