(* ===== verification/Spec2Isabelle.thy ===== *)
theory Spec2Isabelle
  imports Prelude Coding Crc32c Env Log Comparator DbFormat FilterPolicy SkipList MemTable WriteBatch Logging FileSystem
    Filename VersionEdit Format Iterator Block BlockIter Merger DbIter Table Manifest Cache DbRead CompactionReads Written DbOpen Flushed
begin

text \<open>
  A verification library for the LevelDB sources under \<^verbatim>\<open>src/CSources/leveldb\<close>: an ordered map from byte strings to byte strings
  that keeps recent writes in a log and a memtable, and older ones in sorted table files arranged in seven levels.

  \<^bold>\<open>How the parts work together.\<close> A write is encoded as a batch (\<^verbatim>\<open>db/write_batch.cc\<close>), appended to the log
  (\<^verbatim>\<open>db/log_writer.cc\<close>) and inserted into the memtable (\<^verbatim>\<open>db/memtable.cc\<close>), a skip list (\<^verbatim>\<open>db/skiplist.h\<close>) of
  internal keys (\<^verbatim>\<open>db/dbformat.cc\<close>). A full memtable becomes a table file (\<^verbatim>\<open>table/table_builder.cc\<close>) that is added to
  the current version by a version edit (\<^verbatim>\<open>db/version_edit.cc\<close>), which the manifest records (\<^verbatim>\<open>db/version_set.cc\<close>).
  Compactions merge files of neighbouring levels. A read looks at the memtables and then at the files of the levels,
  through a cache of open tables and a cache of blocks (\<^verbatim>\<open>util/cache.cc\<close>); an iterator merges all of them
  (\<^verbatim>\<open>table/merger.cc\<close>) and shows the newest visible version of each user key (\<^verbatim>\<open>db/db_iter.cc\<close>).

  \<^bold>\<open>Theories and sources.\<close>
  \<^item> \<open>Prelude\<close>: types of machine integers and bytes, statuses, and lemmas on lists and words that the others share.
  \<^item> \<open>Coding\<close> (\<^verbatim>\<open>util/coding.cc\<close>), \<open>Crc32c\<close> (\<^verbatim>\<open>util/crc32c.cc\<close>), \<open>Logging\<close> (\<^verbatim>\<open>util/logging.cc\<close>),
    \<open>Comparator\<close> (\<^verbatim>\<open>util/comparator.cc\<close>), \<open>FilterPolicy\<close> (\<^verbatim>\<open>util/hash.cc\<close>, \<^verbatim>\<open>util/bloom.cc\<close>, \<^verbatim>\<open>table/filter_block.cc\<close>):
    encodings, checksums, orders and filters, as functions on byte lists and words.
  \<^item> \<open>Env\<close> (\<^verbatim>\<open>util/env_posix.cc\<close>): file descriptors over a kernel whose answers (failures, short transfers, interruptions)
    are part of the state; \<open>FileSystem\<close> (the rest of \<^verbatim>\<open>util/env_posix.cc\<close> that is modelled, \<^verbatim>\<open>util/env.cc\<close>): named files;
    \<open>Filename\<close> (\<^verbatim>\<open>db/filename.cc\<close>).
  \<^item> \<open>Log\<close> (\<^verbatim>\<open>db/log_writer.cc\<close>, \<^verbatim>\<open>db/log_reader.cc\<close>): records and their fragments in 32 KB blocks.
  \<^item> \<open>DbFormat\<close> (\<^verbatim>\<open>db/dbformat.cc\<close>), \<open>SkipList\<close> (\<^verbatim>\<open>db/skiplist.h\<close>, nodes in a store with links per level), \<open>MemTable\<close>
    (\<^verbatim>\<open>db/memtable.cc\<close>), \<open>WriteBatch\<close> (\<^verbatim>\<open>db/write_batch.cc\<close>).
  \<^item> \<open>Format\<close> (\<^verbatim>\<open>table/format.cc\<close>), \<open>Iterator\<close> (\<^verbatim>\<open>table/iterator.cc\<close>, and the contract every iterator keeps), \<open>Block\<close> and
    \<open>BlockIter\<close> (\<^verbatim>\<open>table/block_builder.cc\<close>, \<^verbatim>\<open>table/block.cc\<close>), \<open>TwoLevel\<close> (\<^verbatim>\<open>table/two_level_iterator.cc\<close>), \<open>Merger\<close>
    (\<^verbatim>\<open>table/merger.cc\<close>), \<open>TableBuilder\<close> and \<open>Table\<close> (\<^verbatim>\<open>table/table_builder.cc\<close>, \<^verbatim>\<open>table/table.cc\<close>), \<open>DbIter\<close> (\<^verbatim>\<open>db/db_iter.cc\<close>).
  \<^item> \<open>VersionEdit\<close> (\<^verbatim>\<open>db/version_edit.cc\<close>); \<open>FileRange\<close>, \<open>Compaction\<close>, \<open>VersionBuilder\<close>, \<open>Levels\<close>, \<open>VersionSet\<close>, \<open>Manifest\<close>
    (\<^verbatim>\<open>db/version_set.cc\<close>): key ranges of files, choosing compactions, applying edits, the order of the levels,
    and the manifest.
  \<^item> \<open>Cache\<close> (\<^verbatim>\<open>util/cache.cc\<close>): the LRU cache with its links, chains and counts.
  \<^item> \<open>RandomFiles\<close> (\<^verbatim>\<open>util/env_posix.cc\<close>): files opened for random reads, mapped or not, with the limiters; \<open>ReadPath\<close>
    (\<^verbatim>\<open>db/version_set.cc\<close>): the search of a version for a key; \<open>TableCache\<close> (\<^verbatim>\<open>db/table_cache.cc\<close>): open tables as entries of the
    LRU cache, whose values are numbers that name what the code points to; \<open>DbRead\<close> (\<^verbatim>\<open>db/db_impl.h\<close>, \<^verbatim>\<open>db/db_impl.cc\<close>,
    \<^verbatim>\<open>db/snapshot.h\<close>): the state of \<^verbatim>\<open>DBImpl\<close>, snapshots and \<^verbatim>\<open>Get\<close>.
  \<^item> \<open>Flush\<close> (\<^verbatim>\<open>db/builder.cc\<close> and \<^verbatim>\<open>db/db_impl.cc\<close> from \<^verbatim>\<open>RemoveObsoleteFiles\<close> to \<^verbatim>\<open>CompactMemTable\<close>) and \<open>Background\<close>
    (\<^verbatim>\<open>db/db_impl.cc\<close> from \<^verbatim>\<open>BackgroundCall\<close> to \<^verbatim>\<open>DoCompactionWork\<close>): the work of the background thread; \<open>Drop\<close>: which entries
    a compaction drops; \<open>CompactionWork\<close>: what the merging loop has written at each turn; \<open>Compacted\<close>: the version it
    installs; \<open>CompactionReads\<close>: reads after it.
  \<^item> \<open>Arena\<close> (\<^verbatim>\<open>util/arena.cc\<close>): the memory of a memtable; \<open>DbWrite\<close> (\<^verbatim>\<open>Write\<close>, \<^verbatim>\<open>BuildBatchGroup\<close> and \<^verbatim>\<open>MakeRoomForWrite\<close> of
    \<^verbatim>\<open>db/db_impl.cc\<close>); \<open>Written\<close>: what a write leaves in the log and for later reads; \<open>MemTables\<close> and \<open>Flushed\<close>: the
    table a memtable becomes, and reads after it is installed.
  \<^item> \<open>DbOpen\<close> (\<^verbatim>\<open>db/db_impl.cc\<close> from \<^verbatim>\<open>ClipToRange\<close> to \<^verbatim>\<open>RecoverLogFile\<close>, \<^verbatim>\<open>DB::Open\<close>, \<^verbatim>\<open>DestroyDB\<close>, and the lock file of
    \<^verbatim>\<open>util/env_posix.cc\<close>): opening, replaying logs, closing and destroying a database.

  \<^bold>\<open>State and results.\<close> Objects are records passed and returned; integers keep their width; a \<open>Status\<close> is a value; a
  function that may not end or may read outside a buffer returns an option, and its theorems state that it is not
  \<open>None\<close>. Interfaces are locales (comparators, filter policies, files that take appends, iterators over sorted
  entries, blocks found through an index) and are interpreted on the model's own definitions in the theory that provides them.

  \<^bold>\<open>What is shown.\<close> Encodings read back and reject damage; logs cut anywhere read back as the records they
  hold completely; the memtable, blocks, tables, merging and database iterators refine sorted lists of entries; the files a compaction takes
  are closed at its own level, and the levels stay layered so that upper levels hold newer entries; the manifest recovers to the
  current version, and a failed edit changes no version; the cache refines an abstract cache. \<^verbatim>\<open>Get\<close> gives what the newest visible entry says, over the memtables
  and the files of all levels as they are read through both caches; a compaction keeps every read that a snapshot can
  still ask for, except of user keys that are split between an input of the next level and a file left behind there:
  \<open>split_key_resurrected\<close> is a compaction the code starts that brings a deleted value back. A write that returns OK is the last record of the log and what \<^verbatim>\<open>Get\<close> answers from then on; writing out a memtable
  stores exactly its pairs in a table and keeps every answer. \<open>DbOpen\<close> has two lemmas on how opening can go wrong: sizes that do not fit
  into \<^verbatim>\<open>int\<close> are clipped wrongly (\<open>large_sizes_wrap\<close>), and a second attempt to lock the lock file gives up the
  kernel's lock (\<open>second_lock_unlocks\<close>).

  \<^bold>\<open>Bounds and fuel.\<close> Reading a log or a manifest takes fuel; one more than the length of the file is enough, which the theorems prove.
  Tables are smaller than 4 GB, as the 32-bit offsets in blocks require; caches see fewer than \<open>2 ^ 31\<close> calls, so that 32-bit counts do not
  wrap. Sequence numbers are below \<open>2 ^ 56\<close>. Loops whose end depends on other parts (the merging loop, adding all entries of an
  iterator) are partial functions: no result is no return.

  \<^bold>\<open>Other threads.\<close> Calls are atomic steps. Where \<^verbatim>\<open>DBImpl\<close> gives up its mutex, the steps of other threads are
  an argument: one function on the state of the database before each turn of the merging loop of a compaction, and one for each wait of a writer. What they
  may do is a hypothesis of each result, and narrower than what the code lets them do. The result on writes asks that they leave what the database holds
  as it is (\<open>keeps\<close>: the entries, the last sequence number, a log that is written from its beginning, and how many more table lookups the caches are good for); snapshots do
  (\<open>keeps_snapshots\<close>). The result on compactions asks that they hand in no memtable to be written out, install no version, do not begin to shut
  down and touch no table file (\<open>quiet\<close>); reads with the seeks they charge, read samples and snapshots do (\<open>quiet_Get\<close>,
  \<open>quiet_RecordReadSample\<close>, \<open>quiet_snapshots\<close>). That a memtable is written out while a compaction runs is left out because the code is
  not safe there: \<open>flush_into_gap\<close> is a memtable that goes to the level, and into the range, of the file a compaction by hand is about to install.

  \<^bold>\<open>Deviations.\<close> The level of a file charged with a seek is 0 rather than -1 when there is no file, and is then not read; a seek is charged to the
  current version's copy of the file. The
  iterator over the inputs of a compaction (\<^verbatim>\<open>MakeInputIterator\<close>) is a parameter that keeps the contract of iterators; versions with the
  same files are not told apart when a compaction gives up its input version. The listing of a directory is a parameter. Sums of file sizes are
  unbounded where the code has 64 bits, and scores of levels are exact where it has \<^verbatim>\<open>double\<close>. A read of a file that is not at its end is not
  short; a file that is open for random reads has the contents it had when it was opened; a failing rename leaves both names as they were. In the
  lookups of one table the block cache forgets nothing; the cache itself is \<open>Cache\<close>. In \<^verbatim>\<open>Write\<close> other calls come before the record is
  appended to the log, not between that and the insertion into the memtable, during which no other writer is at the front.

  \<^bold>\<open>Not modelled.\<close> Condition variables and memory barriers, freeing of memory,
  assertions (the model goes on where a build that checks them would stop; where a result needs what they ask, it is a hypothesis), Snappy (not configured), informational logging,
  \<^verbatim>\<open>DebugString\<close> functions, time and statistics, iterators over a whole database and its properties in
  \<^verbatim>\<open>db/db_impl.cc\<close>, \<^verbatim>\<open>db/repair.cc\<close>, the C binding \<^verbatim>\<open>db/c.cc\<close>, \<^verbatim>\<open>db/dumpfile.cc\<close>, tests, and the Objective-C++
  and Swift wrappers, which only call the library.
\<close>

end
